(* ===== verification/Riot_Prelude.thy ===== *)
theory Riot_Prelude
  imports Main "HOL-Library.Word" "HOL-Library.Monad_Syntax"
begin

text \<open>
  Shared vocabulary of the development: names for the machine types of the modelled
  build (a 32-bit target, \<open>unsigned int\<close> = 32 bits), the theorem collections the
  component theories fill, and generic facts on lists, rotations and words.
\<close>

unbundle bit_operations_syntax

section \<open>Machine types\<close>

type_synonym u8 = "8 word"
type_synonym u16 = "16 word"
type_synonym u32 = "32 word"
type_synonym u64 = "64 word"

definition b2u :: "bool \<Rightarrow> u32" where
  "b2u b = (if b then 1 else 0)"

lemma b2u_simps [simp]: "b2u True = 1" "b2u False = 0"
  by (simp_all add: b2u_def)

section \<open>Theorem collections\<close>

named_theorems kernel_defs \<open>definitions of kernel operations, for unfolding\<close>
named_theorems kernel_frame \<open>which kernel fields an operation leaves alone\<close>

section \<open>Rotations\<close>

lemma rotate_length_id [simp]: "rotate (length xs) xs = xs"
  by (simp add: rotate_conv_mod [of "length xs"])

lemma funpow_rotate1: "(rotate1 ^^ n) xs = rotate n xs"
  by (simp add: rotate_def)

section \<open>Searching lists\<close>

lemma find_append:
  "find P (xs @ ys) = (case find P xs of None \<Rightarrow> find P ys | Some x \<Rightarrow> Some x)"
  by (induction xs) auto

lemma rotate_to:
  "y \<in> set xs \<Longrightarrow> rotate (length (takeWhile (\<lambda>x. x \<noteq> y) xs)) xs
     = dropWhile (\<lambda>x. x \<noteq> y) xs @ takeWhile (\<lambda>x. x \<noteq> y) xs"
  by (metis length_append rotate_append takeWhile_dropWhile_id)

section \<open>Words read as natural numbers\<close>

lemma unat_two_power: "n < LENGTH('a) \<Longrightarrow> unat (2 ^ n :: 'a::len word) = 2 ^ n"
proof -
  assume n: "n < LENGTH('a)"
  have "unat (2 ^ n :: 'a word) = unat (of_nat (2 ^ n) :: 'a word)" by simp
  also have "\<dots> = 2 ^ n mod 2 ^ LENGTH('a)" by (rule unat_of_nat)
  also have "\<dots> = 2 ^ n" using n by simp
  finally show ?thesis .
qed

lemma unat_push_bit_b2u:
  "n < 32 \<Longrightarrow> unat (push_bit n (b2u b)) = (if b then 2 ^ n else 0)"
  by (cases b) (simp_all add: push_bit_of_1 unat_two_power)

lemma unat_drop_bit_div: "unat (drop_bit n (v :: 'a::len word)) = unat v div 2 ^ n"
  by (rule trans [OF unat_drop_bit_eq]) (rule drop_bit_eq_div)

lemma unat_mult_fits: "unat a * unat b < 2 ^ LENGTH('a) \<Longrightarrow> unat (a * b :: 'a::len word) = unat a * unat b"
  by (simp add: unat_word_ariths)

lemma unat_add_fits: "unat a + unat b < 2 ^ LENGTH('a) \<Longrightarrow> unat (a + b :: 'a::len word) = unat a + unat b"
  by (simp add: unat_word_ariths)

lemma or_digit: "d < 16 \<Longrightarrow> push_bit 4 r OR of_nat d = (r * 16 + of_nat d :: u32)"
proof -
  assume "d < 16"
  then have t: "(of_nat d :: u32) = take_bit 4 (of_nat d)" by (auto simp: take_bit_of_nat take_bit_nat_eq_self)
  have "\<not> bit (push_bit 4 r) n \<or> \<not> bit (of_nat d :: u32) n" for n
    by (subst t) (auto simp: bit_simps)
  then have "push_bit 4 r OR of_nat d = push_bit 4 r + (of_nat d :: u32)"
    by (rule disjunctive_add [symmetric])
  then show ?thesis by (simp add: push_bit_eq_mult)
qed

lemma sint_small:
  assumes "unat w < 2 ^ 31"
  shows "sint (w :: u32) = int (unat w)"
proof -
  have "int (unat w) < int (2 ^ 31)" using assms by (simp only: of_nat_less_iff)
  then have "uint w < 2 ^ 31" by simp
  moreover have "- (2 ^ 31) \<le> uint w" by (rule order_trans [OF _ uint_ge_0]) simp
  ultimately have "signed_take_bit 31 (uint w) = uint w"
    by (rule signed_take_bit_int_eq_self [rotated])
  then show ?thesis by (simp add: sint_uint)
qed

lemma mod_add_inj:
  fixes i j m a :: nat
  assumes "i < m" "j < m" "(a + i) mod m = (a + j) mod m"
  shows "i = j"
proof -
  have "\<not> x < y" if "y < m" "(a + x) mod m = (a + y) mod m" for x y
  proof
    assume "x < y"
    then have "m dvd (a + y) - (a + x)" using that(2) by (intro mod_eq_dvd_iff_nat [THEN iffD1]) auto
    then have "m dvd y - x" by simp
    with \<open>x < y\<close> that(1) show False by (auto dest: dvd_imp_le)
  qed
  from this [of j i] this [of i j] assms show ?thesis by (metis linorder_neqE_nat)
qed


section \<open>Functional simulation\<close>

fun iter_opt :: "('s \<Rightarrow> 's option) \<Rightarrow> nat \<Rightarrow> 's \<Rightarrow> 's option" where
  "iter_opt f 0 s = Some s"
| "iter_opt f (Suc n) s = do { s' \<leftarrow> f s; iter_opt f n s' }"

lemma iter_opt_Suc: "iter_opt f (Suc n) s = do { s' \<leftarrow> iter_opt f n s; f s' }"
proof (induction n arbitrary: s)
  case 0
  show ?case by (cases "f s") simp_all
next
  case (Suc n)
  then show ?case by (cases "f s") simp_all
qed

text \<open>
  A concrete step that may fail, an abstract step, an abstraction and an invariant: where one
  concrete step succeeds, keeps the invariant and matches the abstract step, so does every
  number of steps.
\<close>

locale fun_simulation =
  fixes step :: "'s \<Rightarrow> 's option" and astep :: "'a \<Rightarrow> 'a" and abs :: "'s \<Rightarrow> 'a" and inv :: "'s \<Rightarrow> bool"
  assumes sim: "inv s \<Longrightarrow> \<exists>s'. step s = Some s' \<and> abs s' = astep (abs s) \<and> inv s'"
begin

lemma iter_sim:
  "inv s \<Longrightarrow> \<exists>s'. iter_opt step n s = Some s' \<and> abs s' = (astep ^^ n) (abs s) \<and> inv s'"
proof (induction n arbitrary: s)
  case (Suc n)
  obtain s1 where s1: "step s = Some s1" "abs s1 = astep (abs s)" "inv s1" using sim [OF Suc.prems] by blast
  from Suc.IH [OF s1(3)] obtain s2 where
    "iter_opt step n s1 = Some s2" "abs s2 = (astep ^^ n) (abs s1)" "inv s2" by blast
  with s1 show ?case by (simp add: funpow_swap1)
qed simp

end

end
