(* ===== verification/Bitarithm.thy ===== *)
theory Bitarithm
  imports Riot_Prelude
begin

text \<open>
  Bit arithmetic (core/bitarithm.c and core/include/bitarithm.h): most and least
  significant set bit, population count, and the De Bruijn lookup variant of the
  least significant bit, for the build where \<open>unsigned\<close> has 32 bits. The scheduler
  uses these to find the highest-priority non-empty run queue.
\<close>

section \<open>Operations\<close>

definition bitarith_msb_32bit_no_native_clz :: "u32 \<Rightarrow> u32" where
  "bitarith_msb_32bit_no_native_clz v0 =
     (let r = push_bit 4 (b2u (v0 > 0xFFFF)); v = drop_bit (unat r) v0;
          shift = push_bit 3 (b2u (v > 0xFF)); v = drop_bit (unat shift) v; r = r OR shift;
          shift = push_bit 2 (b2u (v > 0xF)); v = drop_bit (unat shift) v; r = r OR shift;
          shift = push_bit 1 (b2u (v > 0x3)); v = drop_bit (unat shift) v; r = r OR shift
      in r OR drop_bit 1 v)"

lemma and_dec_less: "v \<noteq> 0 \<Longrightarrow> unat (v AND (v - 1)) < unat (v :: 'a::len word)"
proof -
  assume nz: "v \<noteq> 0"
  have "v AND (v - 1) \<le> v - 1" by (rule word_and_le1)
  then have "unat (v AND (v - 1)) \<le> unat (v - 1)" by (simp add: word_le_nat_alt)
  also have "\<dots> < unat v" using nz by (simp add: unat_minus_one unat_gt_0)
  finally show ?thesis .
qed

text \<open>The counting loop, with the running value of \<open>c\<close> as its second argument.\<close>

function bits_set_loop :: "u32 \<Rightarrow> u32 \<Rightarrow> u32" where
  "bits_set_loop v c = (if v \<noteq> 0 then bits_set_loop (v AND (v - 1)) (c + 1) else c)"
  by pat_completeness auto
termination
  by (relation "measure (\<lambda>(v, c). unat v)") (auto simp: and_dec_less)

declare bits_set_loop.simps [simp del]

definition bitarithm_bits_set :: "u32 \<Rightarrow> u32" where
  "bitarithm_bits_set v = bits_set_loop v 0"

text \<open>
  The shifting loop of \<open>bitarithm_lsb\<close>. On the argument 0 the C loop does not end:
  the model returns \<open>None\<close> there.
\<close>

partial_function (option) lsb_loop :: "u32 \<Rightarrow> u32 \<Rightarrow> u32 option" where
  "lsb_loop v r = (if v AND 1 = 0 then lsb_loop (drop_bit 1 v) (r + 1) else Some r)"

definition bitarithm_lsb :: "u32 \<Rightarrow> u32 option" where
  "bitarithm_lsb v = lsb_loop v 0"

definition MultiplyDeBruijnBitPosition :: "u8 list" where
  "MultiplyDeBruijnBitPosition =
    [0, 1, 28, 2, 29, 14, 24, 3, 30, 22, 20, 15, 25, 17, 4, 8,
     31, 27, 13, 23, 21, 19, 16, 7, 26, 12, 18, 6, 11, 5, 10, 9]"

definition bitarithm_lsb_lookup :: "u32 \<Rightarrow> u32" where
  "bitarithm_lsb_lookup v =
     ucast (MultiplyDeBruijnBitPosition ! unat (drop_bit 27 ((v AND (- v)) * 0x077CB531)))"

section \<open>Population count\<close>

fun popcount :: "nat \<Rightarrow> nat" where
  "popcount n = (if n = 0 then 0 else n mod 2 + popcount (n div 2))"

declare popcount.simps [simp del]

lemma popcount_0 [simp]: "popcount 0 = 0"
  by (simp add: popcount.simps)

lemma popcount_double [simp]: "popcount (2 * n) = popcount n"
  by (cases "n = 0") (simp_all add: popcount.simps [of "2 * n"])

lemma popcount_Suc_double [simp]: "popcount (Suc (2 * n)) = Suc (popcount n)"
  by (simp add: popcount.simps [of "Suc (2 * n)"])

lemma and_dec_double: "0 < m \<Longrightarrow> (2 * m) AND (2 * m - 1) = 2 * (m AND (m - 1 :: nat))"
proof -
  assume "0 < m"
  then have "(2 * m - 1) div 2 = m - 1" by simp
  then show ?thesis by (subst and_nat_unfold) simp
qed

lemma popcount_and_dec: "0 < n \<Longrightarrow> popcount (n AND (n - 1)) + 1 = popcount n"
proof (induction n rule: less_induct)
  case (less n)
  show ?case
  proof (cases "even n")
    case True
    then obtain m where m: "n = 2 * m" by (elim evenE)
    with less.prems have "0 < m" "m < n" by auto
    with less.IH [of m] m show ?thesis by (simp add: and_dec_double del: One_nat_def)
  next
    case False
    then obtain m where m: "n = Suc (2 * m)" by (elim oddE) simp
    have "n AND (n - 1) = 2 * m"
      using m by (simp add: and_nat_unfold [of "Suc (2 * m)"])
    with m show ?thesis by simp
  qed
qed


lemma popcount_filter: "n < 2 ^ k \<Longrightarrow> popcount n = length (filter (bit n) [0..<k])"
proof (induction k arbitrary: n)
  case 0
  then show ?case by simp
next
  case (Suc k)
  have upt: "[0..<Suc k] = 0 # map Suc [0..<k]"
    by (simp add: upt_conv_Cons map_Suc_upt del: upt_Suc)
  have "n div 2 < 2 ^ k" using Suc.prems by auto
  then have IH: "popcount (n div 2) = length (filter (bit (n div 2)) [0..<k])" by (rule Suc.IH)
  have "popcount n = n mod 2 + popcount (n div 2)"
    by (cases "n = 0") (simp_all add: popcount.simps [of n])
  also have "\<dots> = length (filter (bit n) [0..<Suc k])"
    unfolding upt IH
    by (simp add: filter_map comp_def bit_Suc bit_0 mod_2_eq_odd del: upt_Suc)
  finally show ?case .
qed

lemma popcount_u32: "popcount (unat v) = length (filter (bit v) [0..<32])" for v :: u32
proof -
  have "popcount (unat v) = length (filter (bit (unat v)) [0..<32])"
    by (rule popcount_filter) (use unsigned_less [of v] in simp)
  then show ?thesis by (simp add: bit_unsigned_iff cong: filter_cong)
qed

lemma bits_set_loop_popcount: "bits_set_loop v c = c + of_nat (popcount (unat v))"
proof (induction v c rule: bits_set_loop.induct)
  case (1 v c)
  show ?case
  proof (cases "v = 0")
    case True
    then show ?thesis by (simp add: bits_set_loop.simps)
  next
    case False
    then have "popcount (unat (v AND (v - 1))) + 1 = popcount (unat v)"
      using popcount_and_dec [of "unat v"]
      by (simp add: unsigned_and_eq unat_minus_one unat_gt_0)
    then have "(of_nat (popcount (unat v)) :: u32) = of_nat (popcount (unat (v AND (v - 1)))) + 1"
      by (metis of_nat_Suc Suc_eq_plus1 add.commute)
    with False 1 show ?thesis by (simp add: bits_set_loop.simps [of v c])
  qed
qed

lemma bits_set_length: "unat (bitarithm_bits_set v) = length (filter (bit v) [0..<32])"
proof -
  have "length (filter (bit v) [0..<32]) \<le> 32"
    using length_filter_le [of "bit v" "[0..<32]"] by simp
  then show ?thesis
    unfolding bitarithm_bits_set_def bits_set_loop_popcount popcount_u32
    by (simp add: unat_of_nat)
qed

section \<open>Most significant bit\<close>

lemma msb_stage:
  fixes n w s m :: nat
  assumes "0 < n" "n < 2 ^ (2 * w)" "s = (if 2 ^ w \<le> n then w else 0)" "m = n div 2 ^ s"
  shows "0 < m" "m < 2 ^ w" "2 ^ t \<le> m \<Longrightarrow> 2 ^ (s + t) \<le> n" "m < 2 ^ t \<Longrightarrow> n < 2 ^ (s + t)"
proof -
  show "0 < m" using assms by (auto simp: div_greater_zero_iff)
  show "m < 2 ^ w" using assms
    by (auto simp: less_mult_imp_div_less power_add mult_2)
  have n: "n = 2 ^ s * m + n mod 2 ^ s" using assms(4) by simp
  { assume "2 ^ t \<le> m"
    then have "2 ^ s * 2 ^ t \<le> 2 ^ s * m" by simp
    then have "2 ^ s * 2 ^ t \<le> n" using n by linarith
    then show "2 ^ (s + t) \<le> n" by (simp add: power_add) }
  { assume "m < 2 ^ t"
    then have "n div 2 ^ s < 2 ^ t" using assms(4) by simp
    then show "n < 2 ^ (s + t)" by (simp add: div_less_iff_less_mult power_add mult.commute) }
qed

lemma msb_unat:
  assumes "v \<noteq> 0"
  shows "2 ^ unat (bitarith_msb_32bit_no_native_clz v) \<le> unat v"
    and "unat v < 2 ^ Suc (unat (bitarith_msb_32bit_no_native_clz v))"
proof -
  define s1 where "s1 = (if 2 ^ 16 \<le> unat v then 16 else 0 :: nat)"
  define m1 where "m1 = unat v div 2 ^ s1"
  define s2 where "s2 = (if 2 ^ 8 \<le> m1 then 8 else 0 :: nat)"
  define m2 where "m2 = m1 div 2 ^ s2"
  define s3 where "s3 = (if 2 ^ 4 \<le> m2 then 4 else 0 :: nat)"
  define m3 where "m3 = m2 div 2 ^ s3"
  define s4 where "s4 = (if 2 ^ 2 \<le> m3 then 2 else 0 :: nat)"
  define m4 where "m4 = m3 div 2 ^ s4"
  have n: "0 < unat v" "unat v < 2 ^ (2 * 16)"
    using assms unsigned_less [of v] by (auto simp: unat_gt_0)
  note st1 = msb_stage [OF n s1_def m1_def]
  have n1: "m1 < 2 ^ (2 * 8)" using st1(2) by simp
  note st2 = msb_stage [OF st1(1) n1 s2_def m2_def]
  have n2: "m2 < 2 ^ (2 * 4)" using st2(2) by simp
  note st3 = msb_stage [OF st2(1) n2 s3_def m3_def]
  have n3: "m3 < 2 ^ (2 * 2)" using st3(2) by simp
  note st4 = msb_stage [OF st3(1) n3 s4_def m4_def]
  have m4: "m4 = 1 \<or> m4 = 2 \<or> m4 = 3" using st4(1,2) by auto
  define r1 v1 where "r1 = push_bit 4 (b2u (v > 0xFFFF))" and "v1 = drop_bit (unat r1) v"
  define r2 v2 where "r2 = push_bit 3 (b2u (v1 > 0xFF))" and "v2 = drop_bit (unat r2) v1"
  define r3 v3 where "r3 = push_bit 2 (b2u (v2 > 0xF))" and "v3 = drop_bit (unat r3) v2"
  define r4 v4 where "r4 = push_bit 1 (b2u (v3 > 0x3))" and "v4 = drop_bit (unat r4) v3"
  have u1: "unat r1 = s1" by (auto simp: r1_def s1_def unat_push_bit_b2u word_less_nat_alt)
  have w1: "unat v1 = m1" by (simp add: v1_def m1_def u1 unat_drop_bit_div)
  have u2: "unat r2 = s2" by (auto simp: r2_def s2_def unat_push_bit_b2u word_less_nat_alt w1)
  have w2: "unat v2 = m2" by (simp add: v2_def m2_def u2 w1 unat_drop_bit_div)
  have u3: "unat r3 = s3" by (auto simp: r3_def s3_def unat_push_bit_b2u word_less_nat_alt w2)
  have w3: "unat v3 = m3" by (simp add: v3_def m3_def u3 w2 unat_drop_bit_div)
  have u4: "unat r4 = s4" by (auto simp: r4_def s4_def unat_push_bit_b2u word_less_nat_alt w3)
  have w4: "unat v4 = m4" by (simp add: v4_def m4_def u4 w3 unat_drop_bit_div)
  have u5: "unat (drop_bit 1 v4) = m4 div 2" by (simp add: unat_drop_bit_div w4)
  have "bitarith_msb_32bit_no_native_clz v = r1 OR r2 OR r3 OR r4 OR drop_bit 1 v4"
    by (simp only: bitarith_msb_32bit_no_native_clz_def Let_def r1_def r2_def r3_def r4_def
        v1_def v2_def v3_def v4_def or.assoc)
  then have "unat (bitarith_msb_32bit_no_native_clz v) = s1 OR s2 OR s3 OR s4 OR (m4 div 2)"
    by (simp only: unsigned_or_eq u1 u2 u3 u4 u5)
  also have "\<dots> = s1 + (s2 + (s3 + (s4 + m4 div 2)))"
    using m4 by (auto simp: s1_def s2_def s3_def s4_def)
  finally have r: "unat (bitarith_msb_32bit_no_native_clz v) = \<dots>" .
  have "2 ^ (m4 div 2) \<le> m4" "m4 < 2 ^ Suc (m4 div 2)" using m4 by auto
  from st1(3) [OF st2(3) [OF st3(3) [OF st4(3) [OF this(1)]]]]
    st1(4) [OF st2(4) [OF st3(4) [OF st4(4) [OF this(2)]]]]
  show "2 ^ unat (bitarith_msb_32bit_no_native_clz v) \<le> unat v"
    and "unat v < 2 ^ Suc (unat (bitarith_msb_32bit_no_native_clz v))"
    by (simp_all add: r)
qed



lemma bit_unat_iff: "bit v i \<longleftrightarrow> odd (unat v div 2 ^ i)" for v :: "'a::len word"
  by (simp add: bit_unsigned_iff flip: bit_iff_odd)

lemma msb_bit:
  assumes "v \<noteq> 0"
  shows "bit v (unat (bitarith_msb_32bit_no_native_clz v))"
    and "bit v i \<Longrightarrow> i \<le> unat (bitarith_msb_32bit_no_native_clz v)"
proof -
  let ?r = "unat (bitarith_msb_32bit_no_native_clz v)"
  note b = msb_unat [OF assms]
  have "unat v div 2 ^ ?r = 1"
    using b by (intro div_nat_eqI) auto
  then show "bit v ?r" by (simp add: bit_unat_iff)
  assume i: "bit v i"
  show "i \<le> ?r"
  proof (rule ccontr)
    assume "\<not> i \<le> ?r"
    then have "2 ^ Suc ?r \<le> (2 ^ i :: nat)" by (intro power_increasing) auto
    with b(2) have "unat v div 2 ^ i = 0" by (intro div_less) linarith
    with i show False by (simp add: bit_unat_iff)
  qed
qed

section \<open>Least significant bit\<close>

lemma lsb_loop_correct:
  assumes "bit v k" "\<forall>j<k. \<not> bit v j"
  shows "lsb_loop v r = Some (r + of_nat k)"
  using assms
proof (induction k arbitrary: v r)
  case 0
  then have "v AND 1 \<noteq> 0" by (simp add: and_one_eq bit_0 mod_2_eq_odd)
  then show ?case by (simp add: lsb_loop.simps)
next
  case (Suc k)
  then have even: "v AND 1 = 0" by (auto simp: and_one_eq mod_2_eq_odd bit_0 [symmetric])
  have "lsb_loop (drop_bit 1 v) (r + 1) = Some (r + 1 + of_nat k)"
    by (rule Suc.IH) (use Suc.prems in \<open>auto simp: bit_drop_bit_eq\<close>)
  with even show ?case by (simp add: lsb_loop.simps [of v] add.assoc)
qed

lemma lowest_bit_exists:
  assumes "v \<noteq> (0 :: 'a::len word)"
  obtains k where "k < LENGTH('a)" "bit v k" "\<forall>j<k. \<not> bit v j"
proof -
  from assms obtain m where "bit v m" by (auto simp: bit_eq_iff)
  then have "bit v (LEAST k. bit v k)" "\<forall>j<(LEAST k. bit v k). \<not> bit v j"
    by (auto intro: LeastI dest: not_less_Least)
  moreover from this(1) have "(LEAST k. bit v k) < LENGTH('a)" by (auto dest: bit_imp_le_length)
  ultimately show thesis by (rule that [rotated])
qed

lemma lsb_correct:
  assumes "bit v k" "\<forall>j<k. \<not> bit v j"
  shows "bitarithm_lsb v = Some (of_nat k)"
  using lsb_loop_correct [OF assms, of 0] by (simp add: bitarithm_lsb_def)


lemma and_dec_nat: "bit n k \<Longrightarrow> \<forall>j<k. \<not> bit n j \<Longrightarrow> n AND (n - 1) = n - (2 ^ k :: nat)"
proof (induction k arbitrary: n)
  case 0
  then have "odd n" by (simp add: bit_0)
  then obtain m where "n = Suc (2 * m)" by (elim oddE) simp
  then show ?case by (simp add: and_nat_unfold [of "Suc (2 * m)"])
next
  case (Suc k)
  then have "\<not> bit n 0" by blast
  then have "even n" by (simp add: bit_0)
  then obtain m where m: "n = 2 * m" by (elim evenE)
  have "bit m k" "\<forall>j<k. \<not> bit m j" using Suc.prems m by (auto simp: bit_Suc)
  then have IH: "m AND (m - 1) = m - 2 ^ k" by (rule Suc.IH)
  have "m \<noteq> 0" using \<open>bit m k\<close> by (intro notI) simp
  then have "n AND (n - 1) = 2 * (m AND (m - 1))" using m by (simp only: and_dec_double neq0_conv)
  with IH m show ?case by (simp add: right_diff_distrib')
qed

lemma and_neg_lowest:
  fixes v :: "'a::len word"
  assumes "bit v k" "\<forall>j<k. \<not> bit v j"
  shows "v AND - v = 2 ^ k"
proof -
  have nz: "v \<noteq> 0" using assms(1) by auto
  have k: "k < LENGTH('a)" using assms(1) by (auto dest: bit_imp_le_length)
  have ub: "bit (unat v) i = bit v i" for i by (simp add: bit_unsigned_iff)
  have le: "2 ^ k \<le> unat v"
    using assms(1) by (metis bit_unat_iff div_less even_zero not_le_imp_less)
  have "unat (v AND (v - 1)) = unat v - 2 ^ k"
    using and_dec_nat [of "unat v" k] assms nz
    by (simp add: ub unsigned_and_eq unat_minus_one)
  also have "\<dots> = unat (v - 2 ^ k)"
    using le k by (simp add: unat_sub word_le_nat_alt unat_two_power)
  finally have a: "v AND (v - 1) = v - 2 ^ k" by (simp only: word_unat_eq_iff)
  have neg: "- v = NOT (v - 1)" by (simp add: not_eq_complement)
  have "(v AND (v - 1)) + (v AND NOT (v - 1)) = (v AND (v - 1)) OR (v AND NOT (v - 1))"
    by (rule disjunctive_add) (simp add: bit_simps)
  also have "\<dots> = v" by (rule bit_word_eqI) (auto simp: bit_simps)
  finally have "(v - 2 ^ k) + (v AND NOT (v - 1)) = v" by (simp only: a)
  then have "v AND NOT (v - 1) = 2 ^ k" by (simp add: algebra_simps)
  with neg show ?thesis by simp
qed

lemma de_bruijn_table:
  assumes "k < 32"
  shows "MultiplyDeBruijnBitPosition ! unat (drop_bit 27 ((2 ^ k :: u32) * 0x077CB531)) = of_nat k"
proof -
  have "\<forall>k\<in>set [0..<32]. MultiplyDeBruijnBitPosition ! unat (drop_bit 27 ((2 ^ k :: u32) * 0x077CB531)) = of_nat k"
    by code_simp
  with assms show ?thesis by simp
qed

lemma lsb_lookup_correct:
  assumes "bit v k" "\<forall>j<k. \<not> bit v j"
  shows "bitarithm_lsb_lookup v = of_nat k"
proof -
  have k: "k < 32" using assms(1) by (auto dest: bit_imp_le_length)
  then have "bitarithm_lsb_lookup v = ucast (of_nat k :: u8)"
    by (simp add: bitarithm_lsb_lookup_def and_neg_lowest [OF assms] de_bruijn_table)
  with k show ?thesis by (simp add: unsigned_of_nat take_bit_nat_eq_self)
qed


lemma lsb_loop_nonzero: "lsb_loop v r = Some y \<Longrightarrow> v \<noteq> 0"
proof (rule lsb_loop.raw_induct [where P = "\<lambda>v r y. v \<noteq> 0"])
  fix f :: "u32 \<Rightarrow> u32 \<Rightarrow> u32 option" and v r y :: u32
  assume IH: "\<And>v r y. f v r = Some y \<Longrightarrow> v \<noteq> 0"
    and eq: "(if v AND 1 = 0 then f (drop_bit 1 v) (r + 1) else Some r) = Some y"
  show "v \<noteq> 0"
  proof
    assume "v = 0"
    with eq have "f 0 (r + 1) = Some y" by simp
    then show False using IH by blast
  qed
qed

section \<open>Properties\<close>

text \<open>
  The branch-free software \<open>bitarith_msb_32bit_no_native_clz\<close> returns the index of
  the highest set bit of every non-zero 32-bit value.
\<close>
theorem msb_is_highest_bit:
  assumes "v \<noteq> 0"
  shows "bit v (unat (bitarith_msb_32bit_no_native_clz v)) \<and>
         (\<forall>i. bit v i \<longrightarrow> i \<le> unat (bitarith_msb_32bit_no_native_clz v))"
  using msb_bit [OF assms] by blast

theorem msb_is_highest_bit_witness:
  "bit (0x8002 :: u32) (unat (bitarith_msb_32bit_no_native_clz 0x8002)) \<and>
   bitarith_msb_32bit_no_native_clz 0x8002 = 15"
proof -
  have "(0x8002 :: u32) \<noteq> 0" by simp
  from msb_is_highest_bit [OF this] show ?thesis
    by (simp add: bitarith_msb_32bit_no_native_clz_def)
qed

text \<open>
  \<open>bitarithm_bits_set\<close>, which clears the least significant set bit once per
  iteration, terminates and returns the number of bits set in its argument.
\<close>
theorem bits_set_counts_bits:
  "unat (bitarithm_bits_set v) = length (filter (bit v) [0..<32])"
  by (rule bits_set_length)

text \<open>
  For every non-zero value the shifting loop of \<open>bitarithm_lsb\<close> terminates and
  returns the index of the lowest set bit, and the De Bruijn table lookup variant computes
  the same index; on zero the loop does not return.
\<close>
theorem lsb_variants_agree:
  "(v \<noteq> 0 \<longrightarrow> (\<exists>k<32. bit v k \<and> (\<forall>j<k. \<not> bit v j) \<and>
      bitarithm_lsb v = Some (of_nat k) \<and> bitarithm_lsb_lookup v = of_nat k)) \<and>
   bitarithm_lsb 0 = None"
proof (intro conjI impI)
  assume "v \<noteq> 0"
  then obtain k where "k < 32" "bit v k" "\<forall>j<k. \<not> bit v j"
    by (rule lowest_bit_exists) simp
  with lsb_correct lsb_lookup_correct
  show "\<exists>k<32. bit v k \<and> (\<forall>j<k. \<not> bit v j) \<and>
      bitarithm_lsb v = Some (of_nat k) \<and> bitarithm_lsb_lookup v = of_nat k" by blast
next
  show "bitarithm_lsb 0 = None"
    using lsb_loop_nonzero [of 0 0] by (cases "lsb_loop 0 0") (auto simp: bitarithm_lsb_def)
qed

theorem lsb_variants_agree_witness:
  "bitarithm_lsb 0x50 = Some 4 \<and> bitarithm_lsb_lookup 0x50 = 4 \<and> bitarithm_lsb 0 = None"
proof -
  from lsb_variants_agree [of "0x50"] obtain k where k: "k < 32" "bit (0x50 :: u32) k"
    "\<forall>j<k. \<not> bit (0x50 :: u32) j" "bitarithm_lsb 0x50 = Some (of_nat k)"
    "bitarithm_lsb_lookup 0x50 = of_nat k" by auto
  have b4: "bit (0x50 :: u32) 4" by (simp add: bit_numeral_rec)
  have "k \<le> 4" using k(3) b4 by (meson not_le)
  then have "k = 0 \<or> k = 1 \<or> k = 2 \<or> k = 3 \<or> k = 4" by arith
  with k(2) have "k = 4" by (auto simp: bit_numeral_rec)
  with k(4,5) lsb_variants_agree show ?thesis by simp
qed

end
