(* ===== verification/Clist.thy ===== *)
theory Clist
  imports Riot_Prelude
begin

text \<open>
  Circular singly linked lists (core/include/clist.h). A list object holds one pointer,
  \<open>list->next\<close>, to the \<^emph>\<open>last\<close> node, whose \<open>next\<close> pointer leads to the first. The
  operations are modelled on an explicit heap of \<open>next\<close> pointers; \<open>None\<close> as a result of an
  operation stands for a NULL dereference or a loop that does not end. The theory relates
  them to operations on lists of nodes, which is how the kernel theories use run queues.
\<close>

section \<open>Heap and list objects\<close>

type_synonym 'n heap = "'n \<Rightarrow> 'n option"

text \<open>A \<open>clist_node_t\<close> used as a list, with the memory it lives in.\<close>

record 'n clist =
  cmem :: "'n heap"
  lnext :: "'n option"

section \<open>Operations\<close>

definition clist_rpush :: "'n clist \<Rightarrow> 'n \<Rightarrow> 'n clist" where
  "clist_rpush l new_node =
     (case lnext l of
        Some lst \<Rightarrow>
          (let h = (cmem l)(new_node := cmem l lst); h = h(lst := Some new_node)
           in \<lparr>cmem = h, lnext = Some new_node\<rparr>)
      | None \<Rightarrow> \<lparr>cmem = (cmem l)(new_node := Some new_node), lnext = Some new_node\<rparr>)"

definition clist_lpush :: "'n clist \<Rightarrow> 'n \<Rightarrow> 'n clist" where
  "clist_lpush l new_node =
     (case lnext l of
        Some lst \<Rightarrow>
          (let h = (cmem l)(new_node := cmem l lst); h = h(lst := Some new_node)
           in l\<lparr>cmem := h\<rparr>)
      | None \<Rightarrow> \<lparr>cmem = (cmem l)(new_node := Some new_node), lnext = Some new_node\<rparr>)"

definition clist_lpop :: "'n clist \<Rightarrow> ('n option \<times> 'n clist) option" where
  "clist_lpop l =
     (case lnext l of
        Some lst \<Rightarrow>
          (let first = cmem l lst in
           if Some lst = first then Some (first, l\<lparr>lnext := None\<rparr>)
           else do { f \<leftarrow> first; Some (first, l\<lparr>cmem := (cmem l)(lst := cmem l f)\<rparr>) })
      | None \<Rightarrow> Some (None, l))"

definition clist_lpoprpush :: "'n clist \<Rightarrow> 'n clist" where
  "clist_lpoprpush l =
     (case lnext l of Some lst \<Rightarrow> l\<lparr>lnext := cmem l lst\<rparr> | None \<Rightarrow> l)"

definition clist_lpeek :: "'n clist \<Rightarrow> 'n option" where
  "clist_lpeek l = (case lnext l of Some lst \<Rightarrow> cmem l lst | None \<Rightarrow> None)"

definition clist_rpeek :: "'n clist \<Rightarrow> 'n option" where
  "clist_rpeek l = lnext l"

partial_function (option) clist_rpop_loop :: "'n clist \<Rightarrow> 'n \<Rightarrow> 'n clist option" where
  "clist_rpop_loop l lst =
     do { p \<leftarrow> lnext l;
          if cmem l p \<noteq> Some lst then clist_rpop_loop (clist_lpoprpush l) lst else Some l }"

definition clist_rpop :: "'n clist \<Rightarrow> ('n option \<times> 'n clist) option" where
  "clist_rpop l =
     (case lnext l of
        Some lst \<Rightarrow> do { l' \<leftarrow> clist_rpop_loop l lst; clist_lpop l' }
      | None \<Rightarrow> Some (None, l))"

text \<open>The \<open>do ... while\<close> loop of \<open>clist_find_before\<close>, entered with \<open>pos\<close> before the step.\<close>

partial_function (option) clist_find_before_loop ::
  "'n clist \<Rightarrow> 'n option \<Rightarrow> 'n \<Rightarrow> 'n option option" where
  "clist_find_before_loop l pos node =
     do { p \<leftarrow> pos; q \<leftarrow> cmem l p;
          if cmem l q = Some node then Some (Some q)
          else if Some q \<noteq> lnext l then clist_find_before_loop l (Some q) node
          else Some None }"

definition clist_find_before :: "'n clist \<Rightarrow> 'n \<Rightarrow> 'n option option" where
  "clist_find_before l node =
     (if lnext l = None then Some None else clist_find_before_loop l (lnext l) node)"

definition clist_find :: "'n clist \<Rightarrow> 'n \<Rightarrow> 'n option option" where
  "clist_find l node =
     do { tmp \<leftarrow> clist_find_before l node;
          case tmp of Some t \<Rightarrow> Some (cmem l t) | None \<Rightarrow> Some None }"

definition clist_remove :: "'n clist \<Rightarrow> 'n \<Rightarrow> ('n option \<times> 'n clist) option" where
  "clist_remove l node =
     (case lnext l of
        Some lst \<Rightarrow>
          if cmem l lst = Some node then clist_lpop l
          else do { tmp \<leftarrow> clist_find_before l node;
                    case tmp of
                      Some t \<Rightarrow>
                        do { n \<leftarrow> cmem l t;
                             let l' = l\<lparr>cmem := (cmem l)(t := cmem l n)\<rparr>;
                             Some (Some node,
                                   if Some node = lnext l' then l'\<lparr>lnext := Some t\<rparr> else l') }
                    | None \<Rightarrow> Some (None, l) }
      | None \<Rightarrow> Some (None, l))"

text \<open>\<open>clist_foreach\<close>: the callback gets the node and threads its own state (\<open>arg\<close>).\<close>

partial_function (option) clist_foreach_loop ::
  "'n clist \<Rightarrow> ('n \<Rightarrow> 's \<Rightarrow> int \<times> 's) \<Rightarrow> 'n option \<Rightarrow> 's \<Rightarrow> ('n option \<times> 's) option" where
  "clist_foreach_loop l func node s =
     do { p \<leftarrow> node; q \<leftarrow> cmem l p;
          let (r, s') = func q s;
          if r \<noteq> 0 then Some (Some q, s')
          else if Some q \<noteq> lnext l then clist_foreach_loop l func (Some q) s'
          else Some (None, s') }"

definition clist_foreach ::
  "'n clist \<Rightarrow> ('n \<Rightarrow> 's \<Rightarrow> int \<times> 's) \<Rightarrow> 's \<Rightarrow> ('n option \<times> 's) option" where
  "clist_foreach l func s =
     (if lnext l = None then Some (None, s) else clist_foreach_loop l func (lnext l) s)"

partial_function (option) clist_count_loop :: "'n clist \<Rightarrow> 'n option \<Rightarrow> u32 \<Rightarrow> u32 option" where
  "clist_count_loop l node cnt =
     do { p \<leftarrow> node; q \<leftarrow> cmem l p;
          if Some q \<noteq> lnext l then clist_count_loop l (Some q) (cnt + 1) else Some (cnt + 1) }"

definition clist_count :: "'n clist \<Rightarrow> u32 option" where
  "clist_count l = (if lnext l = None then Some 0 else clist_count_loop l (lnext l) 0)"

section \<open>Representation of a node list\<close>

fun chain :: "'n heap \<Rightarrow> 'n list \<Rightarrow> bool" where
  "chain h (x # y # ys) \<longleftrightarrow> h x = Some y \<and> chain h (y # ys)"
| "chain h _ \<longleftrightarrow> True"

definition clist_rep :: "'n clist \<Rightarrow> 'n list \<Rightarrow> bool" where
  "clist_rep l xs \<longleftrightarrow> distinct xs \<and> chain (cmem l) xs \<and>
     (if xs = [] then lnext l = None
      else lnext l = Some (last xs) \<and> cmem l (last xs) = Some (hd xs))"

lemma chain_Cons [simp]: "xs \<noteq> [] \<Longrightarrow> chain h (x # xs) \<longleftrightarrow> h x = Some (hd xs) \<and> chain h xs"
  by (cases xs) auto

lemma chain_append:
  "chain h (xs @ ys) \<longleftrightarrow>
     chain h xs \<and> chain h ys \<and> (xs \<noteq> [] \<and> ys \<noteq> [] \<longrightarrow> h (last xs) = Some (hd ys))"
proof (induction xs)
  case (Cons x xs)
  then show ?case by (cases "xs = []"; cases "ys = []") auto
qed simp

lemma chain_upd_notin [simp]: "u \<notin> set xs \<Longrightarrow> chain (h(u := v)) xs \<longleftrightarrow> chain h xs"
  by (induction xs rule: induct_list012) auto

lemma chain_upd_last: "u \<notin> set (butlast xs) \<Longrightarrow> chain (h(u := v)) xs \<longleftrightarrow> chain h xs"
  by (induction xs rule: induct_list012) auto

lemma chain_next:
  "chain h xs \<Longrightarrow> Suc i < length xs \<Longrightarrow> h (xs ! i) = Some (xs ! Suc i)"
proof (induction xs arbitrary: i)
  case (Cons x xs)
  then have ne: "xs \<noteq> []" by auto
  with Cons show ?case by (cases i) (auto simp: hd_conv_nth)
qed simp

lemma clist_rep_Nil [simp]: "clist_rep l [] \<longleftrightarrow> lnext l = None"
  by (simp add: clist_rep_def)

lemma clist_repD:
  assumes "clist_rep l xs" "xs \<noteq> []"
  shows "lnext l = Some (last xs)" "cmem l (last xs) = Some (hd xs)" "chain (cmem l) xs" "distinct xs"
  using assms by (auto simp: clist_rep_def)

section \<open>Refinement of the list operations\<close>

lemma last_notin_butlast: "distinct xs \<Longrightarrow> xs \<noteq> [] \<Longrightarrow> last xs \<notin> set (butlast xs)"
  by (induction xs) auto

lemma clist_rep_rpush:
  assumes "clist_rep l xs" "x \<notin> set xs"
  shows "clist_rep (clist_rpush l x) (xs @ [x])"
proof (cases "xs = []")
  case True
  with assms show ?thesis by (auto simp: clist_rep_def clist_rpush_def)
next
  case False
  note r = clist_repD [OF assms(1) False]
  have "last xs \<noteq> x" using False assms(2) by auto
  with False r assms(2) show ?thesis
    by (auto simp: clist_rep_def clist_rpush_def chain_append chain_upd_last
        last_notin_butlast hd_append)
qed

lemma clist_rep_lpush:
  assumes "clist_rep l xs" "x \<notin> set xs"
  shows "clist_rep (clist_lpush l x) (x # xs)"
proof (cases "xs = []")
  case True
  with assms show ?thesis by (auto simp: clist_rep_def clist_lpush_def)
next
  case False
  note r = clist_repD [OF assms(1) False]
  have "last xs \<noteq> x" using False assms(2) by auto
  with False r assms(2) show ?thesis
    by (auto simp: clist_rep_def clist_lpush_def chain_upd_last last_notin_butlast)
qed

lemma clist_lpop_Nil: "clist_rep l [] \<Longrightarrow> clist_lpop l = Some (None, l)"
  by (simp add: clist_lpop_def)

lemma clist_lpop_Cons:
  assumes "clist_rep l (x # xs)"
  shows "\<exists>l'. clist_lpop l = Some (Some x, l') \<and> clist_rep l' xs"
proof (cases "xs = []")
  case True
  with assms show ?thesis by (auto simp: clist_lpop_def clist_rep_def)
next
  case False
  note r = clist_repD [OF assms, simplified]
  have ne: "last xs \<noteq> x" using False r(4) by auto
  with False r show ?thesis
    by (auto simp: clist_lpop_def clist_rep_def chain_upd_last last_notin_butlast)
qed

lemma clist_rep_lpoprpush:
  assumes "clist_rep l xs"
  shows "clist_rep (clist_lpoprpush l) (rotate1 xs)"
proof (cases xs)
  case Nil
  with assms show ?thesis by (simp add: clist_lpoprpush_def)
next
  case (Cons x ys)
  note r = clist_repD [OF assms, simplified Cons, simplified]
  with Cons show ?thesis
    by (cases "ys = []") (auto simp: clist_rep_def clist_lpoprpush_def chain_append hd_append)
qed

lemma clist_rep_peek:
  assumes "clist_rep l xs"
  shows "clist_lpeek l = (if xs = [] then None else Some (hd xs))"
    and "clist_rpeek l = (if xs = [] then None else Some (last xs))"
  using assms by (auto simp: clist_rep_def clist_lpeek_def clist_rpeek_def)


text \<open>
  One step of a traversal: from the node before the suffix \<open>rs\<close> the \<open>next\<close> pointer leads to
  the head of \<open>rs\<close>, and that node is the end of the list just when nothing follows it.
\<close>

definition before :: "'n list \<Rightarrow> 'n list \<Rightarrow> 'n" where
  "before ps rs = (if ps = [] then last rs else last ps)"

lemma traverse_step:
  assumes "clist_rep l (ps @ r # rs)"
  shows "cmem l (before ps (r # rs)) = Some r"
    and "rs = [] \<Longrightarrow> lnext l = Some r" and "rs \<noteq> [] \<Longrightarrow> Some r \<noteq> lnext l"
    and "before (ps @ [r]) rs = r"
    and "rs \<noteq> [] \<Longrightarrow> cmem l r = Some (hd rs)"
proof -
  note d = clist_repD [OF assms, simplified]
  show "cmem l (before ps (r # rs)) = Some r"
    using d(2,3) by (auto simp: before_def chain_append split: if_splits)
  show "rs = [] \<Longrightarrow> lnext l = Some r" "rs \<noteq> [] \<Longrightarrow> Some r \<noteq> lnext l" using d(1,4) by auto
  show "before (ps @ [r]) rs = r" by (simp add: before_def)
  show "rs \<noteq> [] \<Longrightarrow> cmem l r = Some (hd rs)" using d(3) by (simp add: chain_append)
qed

lemma before_start: "clist_rep l xs \<Longrightarrow> xs \<noteq> [] \<Longrightarrow> lnext l = Some (before [] xs)"
  by (simp add: clist_rep_def before_def)

lemma count_loop_suffix:
  "clist_rep l (ps @ rs) \<Longrightarrow> rs \<noteq> [] \<Longrightarrow>
   clist_count_loop l (Some (before ps rs)) cnt = Some (cnt + of_nat (length rs))"
proof (induction rs arbitrary: ps cnt)
  case (Cons r rs)
  note st = traverse_step [OF Cons.prems(1)]
  show ?case
  proof (cases "rs = []")
    case True
    with st show ?thesis by (simp add: clist_count_loop.simps)
  next
    case False
    have "clist_count_loop l (Some (before (ps @ [r]) rs)) (cnt + 1)
          = Some (cnt + 1 + of_nat (length rs))"
      using Cons.prems False by (intro Cons.IH) auto
    with False st show ?thesis by (simp add: clist_count_loop.simps [of l "Some (before ps (r # rs))"] add.assoc)
  qed
qed simp

lemma clist_rep_count: "clist_rep l xs \<Longrightarrow> clist_count l = Some (of_nat (length xs))"
  using count_loop_suffix [of l "[]" xs 0] before_start [of l xs]
  by (cases "xs = []") (auto simp: clist_count_def)

fun foreach_list :: "('n \<Rightarrow> 's \<Rightarrow> int \<times> 's) \<Rightarrow> 'n list \<Rightarrow> 's \<Rightarrow> 'n option \<times> 's" where
  "foreach_list func [] s = (None, s)"
| "foreach_list func (x # xs) s =
     (let (r, s') = func x s in if r \<noteq> 0 then (Some x, s') else foreach_list func xs s')"

lemma foreach_loop_suffix:
  "clist_rep l (ps @ rs) \<Longrightarrow> rs \<noteq> [] \<Longrightarrow>
   clist_foreach_loop l func (Some (before ps rs)) s = Some (foreach_list func rs s)"
proof (induction rs arbitrary: ps s)
  case (Cons r rs)
  note st = traverse_step [OF Cons.prems(1)]
  show ?case
  proof (cases "rs = []")
    case True
    with st show ?thesis by (simp add: clist_foreach_loop.simps split: prod.split)
  next
    case False
    have "clist_foreach_loop l func (Some (before (ps @ [r]) rs)) s'
          = Some (foreach_list func rs s')" for s'
      using Cons.prems False by (intro Cons.IH) auto
    with False st show ?thesis
      by (simp add: clist_foreach_loop.simps [of l func "Some (before ps (r # rs))"] split: prod.split)
  qed
qed simp

lemma clist_rep_foreach: "clist_rep l xs \<Longrightarrow> clist_foreach l func s = Some (foreach_list func xs s)"
  using foreach_loop_suffix [of l "[]" xs func s] before_start [of l xs]
  by (cases "xs = []") (auto simp: clist_foreach_def)

lemma find_before_loop_suffix:
  "clist_rep l (ps @ rs) \<Longrightarrow> rs \<noteq> [] \<Longrightarrow>
   clist_find_before_loop l (Some (before ps rs)) node =
     Some (find (\<lambda>q. cmem l q = Some node) rs)"
proof (induction rs arbitrary: ps)
  case (Cons r rs)
  note st = traverse_step [OF Cons.prems(1)]
  show ?case
  proof (cases "rs = []")
    case True
    with st show ?thesis by (simp add: clist_find_before_loop.simps)
  next
    case False
    have "clist_find_before_loop l (Some (before (ps @ [r]) rs)) node
          = Some (find (\<lambda>q. cmem l q = Some node) rs)"
      using Cons.prems False by (intro Cons.IH) auto
    with False st show ?thesis
      by (simp add: clist_find_before_loop.simps [of l "Some (before ps (r # rs))"])
  qed
qed simp

lemma clist_rep_find_before:
  "clist_rep l xs \<Longrightarrow> clist_find_before l node = Some (find (\<lambda>q. cmem l q = Some node) xs)"
  using find_before_loop_suffix [of l "[]" xs node] before_start [of l xs]
  by (cases "xs = []") (auto simp: clist_find_before_def)

text \<open>Every node of the list has exactly one predecessor in it.\<close>

lemma clist_rep_next_in:
  assumes "clist_rep l xs" "q \<in> set xs" "cmem l q = Some n"
  shows "n \<in> set xs"
proof -
  obtain ps rs where xs: "xs = ps @ q # rs" using assms(2) by (meson split_list)
  show ?thesis
  proof (cases "rs = []")
    case True
    with assms xs clist_repD(2) [of l xs] show ?thesis by (auto simp: hd_append split: if_splits)
  next
    case False
    with traverse_step(5) [of l ps q rs] assms xs show ?thesis by auto
  qed
qed

lemma clist_rep_pred_split:
  assumes "clist_rep l (ps @ node # rs)" "ps \<noteq> []"
  shows "find (\<lambda>q. cmem l q = Some node) (ps @ node # rs) = Some (last ps)"
proof -
  let ?xs = "ps @ node # rs"
  have last: "cmem l (last ps) = Some node"
    using traverse_step(1) [OF assms(1)] assms(2) by (simp add: before_def)
  have "cmem l q \<noteq> Some node" if "q \<in> set (butlast ps)" for q
  proof -
    from that obtain as bs where as: "butlast ps = as @ q # bs" by (meson split_list)
    then have "ps = as @ q # (bs @ [last ps])"
      using assms(2) by (metis append.assoc append_Cons append_butlast_last_id)
    then have xs: "?xs = as @ q # (bs @ [last ps] @ node # rs)" by (metis append.assoc append_Cons)
    have "cmem l q = Some (hd (bs @ [last ps] @ node # rs))"
      by (rule traverse_step(5)) (use assms(1) xs in auto)
    moreover have "distinct ?xs" using assms(1) by (simp add: clist_rep_def)
    ultimately show ?thesis using xs by (cases bs) auto
  qed
  then have "find (\<lambda>q. cmem l q = Some node) (butlast ps) = None" by (auto simp: find_None_iff)
  then have "find (\<lambda>q. cmem l q = Some node) (butlast ps @ last ps # node # rs) = Some (last ps)"
    using last by (simp add: find_append)
  moreover have "butlast ps @ last ps # node # rs = ?xs" using assms(2) by simp
  ultimately show ?thesis by simp
qed


lemma clist_rep_find:
  assumes "clist_rep l xs"
  shows "clist_find l node = Some (if node \<in> set xs then Some node else None)"
proof (cases "node \<in> set xs")
  case False
  then have "find (\<lambda>q. cmem l q = Some node) xs = None"
    using clist_rep_next_in [OF assms] by (auto simp: find_None_iff)
  with False assms show ?thesis by (simp add: clist_find_def clist_rep_find_before)
next
  case True
  then obtain ps rs where xs: "xs = ps @ node # rs" by (meson split_list)
  have "find (\<lambda>q. cmem l q = Some node) xs \<noteq> None"
  proof
    assume "find (\<lambda>q. cmem l q = Some node) xs = None"
    then have "\<forall>q\<in>set xs. cmem l q \<noteq> Some node" by (auto simp: find_None_iff)
    moreover have "before ps (node # rs) \<in> set xs" using xs by (auto simp: before_def)
    ultimately show False using traverse_step(1) [of l ps node rs] assms xs by auto
  qed
  then obtain q where q: "find (\<lambda>q. cmem l q = Some node) xs = Some q" by auto
  then have "cmem l q = Some node" by (auto simp: find_Some_iff)
  with q True assms show ?thesis by (simp add: clist_find_def clist_rep_find_before)
qed

lemma clist_remove_notin:
  assumes "clist_rep l xs" "node \<notin> set xs"
  shows "clist_remove l node = Some (None, l)"
proof (cases "xs = []")
  case True
  with assms show ?thesis by (simp add: clist_remove_def)
next
  case False
  note d = clist_repD [OF assms(1) False]
  have "find (\<lambda>q. cmem l q = Some node) xs = None"
    using clist_rep_next_in [OF assms(1)] assms(2) by (auto simp: find_None_iff)
  moreover have "hd xs \<noteq> node" using assms(2) False by auto
  ultimately show ?thesis
    using d(1,2) assms(1) by (simp add: clist_remove_def clist_rep_find_before)
qed

lemma clist_remove_in:
  assumes "clist_rep l xs" "node \<in> set xs"
  shows "\<exists>l'. clist_remove l node = Some (Some node, l') \<and> clist_rep l' (remove1 node xs)"
proof -
  obtain ps rs where xs: "xs = ps @ node # rs" and notin: "node \<notin> set ps"
    using assms(2) by (meson split_list_first)
  have d: "lnext l = Some (last xs)" "cmem l (last xs) = Some (hd xs)" "chain (cmem l) xs" "distinct xs"
    using clist_repD [OF assms(1)] xs by auto
  have rem: "remove1 node xs = ps @ rs" using xs notin by (simp add: remove1_append)
  show ?thesis
  proof (cases "ps = []")
    case True
    with assms(1) xs d clist_lpop_Cons [of l node rs] rem show ?thesis
      by (auto simp: clist_remove_def)
  next
    case False
    have hd: "hd xs \<noteq> node" using False xs notin by auto
    have nx: "cmem l (last ps) = Some node"
      using traverse_step(1) [of l ps node rs] assms(1) xs False by (simp add: before_def)
    have fb: "clist_find_before l node = Some (Some (last ps))"
      using clist_rep_pred_split [of l ps node rs] assms(1) xs False
      by (simp add: clist_rep_find_before)
    let ?l' = "l\<lparr>cmem := (cmem l)(last ps := cmem l node)\<rparr>"
    let ?l'' = "if rs = [] then ?l'\<lparr>lnext := Some (last ps)\<rparr> else ?l'"
    have "Some node = lnext l \<longleftrightarrow> rs = []" using d(1,4) xs by auto
    then have eq: "clist_remove l node = Some (Some node, ?l'')"
      using d hd fb nx by (auto simp: clist_remove_def)
    have "set ps \<inter> set rs = {}" using d(4) xs by auto
    then have "last ps \<notin> set rs" using last_in_set [OF False] by blast
    moreover have "last ps \<notin> set (butlast ps)" using d(4) xs False by (simp add: last_notin_butlast)
    ultimately have "clist_rep ?l'' (ps @ rs)"
      using d xs False by (auto simp: clist_rep_def chain_append chain_upd_last hd_append)
    with eq rem show ?thesis by simp
  qed
qed

text \<open>An operation writes only to the nodes of the list, and to the node it adds.\<close>

lemma clist_rep_cong:
  assumes "clist_rep l xs" "lnext l' = lnext l" "\<And>y. y \<in> set xs \<Longrightarrow> cmem l' y = cmem l y"
  shows "clist_rep l' xs"
proof -
  have "chain (cmem l') ys = chain (cmem l) ys" if "set ys \<subseteq> set xs" for ys
    using that assms(3) by (induction ys rule: induct_list012) auto
  from this [of xs] assms show ?thesis by (cases "xs = []") (auto simp: clist_rep_def)
qed

lemma rpush_frame:
  assumes "clist_rep l xs" "y \<notin> set xs" "y \<noteq> x" shows "cmem (clist_rpush l x) y = cmem l y"
proof (cases "xs = []")
  case False
  then have "y \<noteq> last xs" using assms(2) by auto
  with False assms clist_repD(1) [of l xs] show ?thesis by (simp add: clist_rpush_def Let_def)
qed (use assms in \<open>simp add: clist_rpush_def\<close>)

lemma lpop_frame:
  assumes "clist_rep l xs" "clist_lpop l = Some (r, l')" "y \<noteq> last xs" shows "cmem l' y = cmem l y"
proof (cases "xs = []")
  case False
  with assms clist_repD(1,2) [of l xs] show ?thesis by (auto simp: clist_lpop_def Let_def split: if_splits)
qed (use assms in \<open>simp add: clist_lpop_def\<close>)

lemma clist_rep_nonnull:
  assumes "clist_rep l xs" "y \<in> set xs" shows "cmem l y \<noteq> None"
proof -
  obtain ps rs where xs: "xs = ps @ y # rs" using assms(2) by (meson split_list)
  show ?thesis
  proof (cases "rs = []")
    case True
    with assms xs clist_repD(2) [of l xs] show ?thesis by auto
  next
    case False
    with traverse_step(5) [of l ps y rs] assms xs show ?thesis by auto
  qed
qed

lemma lpop_keeps_null:
  assumes "clist_rep l xs" "clist_lpop l = Some (r, l')" shows "cmem l' y = None \<longleftrightarrow> cmem l y = None"
proof (cases "xs = []")
  case False
  note d = clist_repD [OF assms(1) False]
  have "cmem l (hd xs) \<noteq> None" by (rule clist_rep_nonnull [OF assms(1)]) (simp add: False)
  with False assms(2) d(1,2) show ?thesis by (auto simp: clist_lpop_def Let_def split: if_splits)
qed (use assms in \<open>simp add: clist_lpop_def\<close>)

lemma remove_frame:
  assumes "clist_rep l xs" "clist_remove l x = Some (r, l')"
  shows "cmem l' y = None \<longleftrightarrow> cmem l y = None" and "y \<notin> set xs \<Longrightarrow> cmem l' y = cmem l y"
proof -
  have "(cmem l' y = None \<longleftrightarrow> cmem l y = None) \<and> (y \<notin> set xs \<longrightarrow> cmem l' y = cmem l y)"
  proof (cases "xs = []")
    case False
    note d = clist_repD [OF assms(1) False]
    show ?thesis
    proof (cases "hd xs = x")
      case True
      with d assms(2) have pop: "clist_lpop l = Some (r, l')" by (simp add: clist_remove_def)
      have "y \<notin> set xs \<longrightarrow> y \<noteq> last xs" using \<open>xs \<noteq> []\<close> by auto
      with lpop_keeps_null [OF assms(1) pop] lpop_frame [OF assms(1) pop, of y] show ?thesis by metis
    next
      case False
      with d assms(2) obtain tmp where fb: "clist_find_before l x = Some tmp"
        by (auto simp: clist_remove_def split: Option.bind_splits)
      show ?thesis
      proof (cases tmp)
        case None
        with False d assms(2) fb show ?thesis by (auto simp: clist_remove_def)
      next
        case (Some t)
        with fb clist_rep_find_before [OF assms(1), of x] have t: "t \<in> set xs" "cmem l t = Some x"
          by (auto simp: find_Some_iff)
        then have "x \<in> set xs" using clist_rep_next_in [OF assms(1)] by blast
        then have "cmem l x \<noteq> None" by (rule clist_rep_nonnull [OF assms(1)])
        with False d assms(2) fb Some t show ?thesis
          by (auto simp: clist_remove_def Let_def split: if_splits)
      qed
    qed
  qed (use assms in \<open>simp add: clist_remove_def\<close>)
  then show "cmem l' y = None \<longleftrightarrow> cmem l y = None" "y \<notin> set xs \<Longrightarrow> cmem l' y = cmem l y" by auto
qed

lemma rpop_loop_rotates:
  "clist_rep l xs \<Longrightarrow> y \<in> set xs \<Longrightarrow>
   \<exists>l'. clist_rpop_loop l y = Some l' \<and>
        clist_rep l' (dropWhile (\<lambda>x. x \<noteq> y) xs @ takeWhile (\<lambda>x. x \<noteq> y) xs)"
proof (induction "length (takeWhile (\<lambda>x. x \<noteq> y) xs)" arbitrary: l xs)
  case 0
  then obtain ys where xs: "xs = y # ys" by (cases xs) (auto split: if_splits)
  with 0 have "lnext l = Some (last xs)" "cmem l (last xs) = Some y"
    using clist_repD [of l xs] by auto
  with 0(2) xs show ?case by (auto simp: clist_rpop_loop.simps)
next
  case (Suc n)
  then obtain x ys where xs: "xs = x # ys" and x: "x \<noteq> y" by (cases xs) (auto split: if_splits)
  with Suc.prems have y: "y \<in> set ys" by auto
  have rep: "clist_rep (clist_lpoprpush l) (ys @ [x])"
    using clist_rep_lpoprpush [OF Suc.prems(1)] xs by simp
  have tw: "takeWhile (\<lambda>x. x \<noteq> y) (ys @ [x]) = takeWhile (\<lambda>x. x \<noteq> y) ys"
    and dw: "dropWhile (\<lambda>x. x \<noteq> y) (ys @ [x]) = dropWhile (\<lambda>x. x \<noteq> y) ys @ [x]"
    using y by (auto simp: dropWhile_append)
  have "n = length (takeWhile (\<lambda>x. x \<noteq> y) (ys @ [x]))" using Suc.hyps(2) xs x tw by simp
  from Suc.hyps(1) [OF this rep] y obtain l' where
    l': "clist_rpop_loop (clist_lpoprpush l) y = Some l'"
      "clist_rep l' (dropWhile (\<lambda>x. x \<noteq> y) (ys @ [x]) @ takeWhile (\<lambda>x. x \<noteq> y) (ys @ [x]))"
    by auto
  have "lnext l = Some (last xs)" "cmem l (last xs) = Some x"
    using clist_repD [OF Suc.prems(1)] xs by auto
  with l' x xs tw dw show ?case by (auto simp: clist_rpop_loop.simps [of l])
qed

lemma clist_rpop_snoc:
  assumes "clist_rep l (xs @ [x])"
  shows "\<exists>l'. clist_rpop l = Some (Some x, l') \<and> clist_rep l' xs"
proof -
  have x: "x \<notin> set xs" and n: "lnext l = Some x" using assms by (auto simp: clist_rep_def)
  have tw: "takeWhile (\<lambda>z. z \<noteq> x) (xs @ [x]) = xs" "dropWhile (\<lambda>z. z \<noteq> x) (xs @ [x]) = [x]"
    using x by (auto simp: takeWhile_append dropWhile_append)
  obtain l1 where l1: "clist_rpop_loop l x = Some l1" "clist_rep l1 (x # xs)"
    using rpop_loop_rotates [OF assms, of x] tw by auto
  from clist_lpop_Cons [OF l1(2)] n l1(1) show ?thesis by (auto simp: clist_rpop_def)
qed


section \<open>The list interface and its clients\<close>

datatype 'n q_op = RPush 'n | LPush 'n | LPop | RPop | Rotate | Remove 'n

text \<open>What the operations mean for the list of nodes, and when a client may call them.\<close>

fun list_step :: "'n q_op \<Rightarrow> 'n list \<Rightarrow> 'n option \<times> 'n list" where
  "list_step (RPush x) xs = (None, xs @ [x])"
| "list_step (LPush x) xs = (None, x # xs)"
| "list_step LPop xs = (case xs of [] \<Rightarrow> (None, []) | x # ys \<Rightarrow> (Some x, ys))"
| "list_step RPop xs = (if xs = [] then (None, []) else (Some (last xs), butlast xs))"
| "list_step Rotate xs = (None, rotate1 xs)"
| "list_step (Remove x) xs = (if x \<in> set xs then (Some x, remove1 x xs) else (None, xs))"

fun op_ok :: "'n q_op \<Rightarrow> 'n list \<Rightarrow> bool" where
  "op_ok (RPush x) xs \<longleftrightarrow> x \<notin> set xs"
| "op_ok (LPush x) xs \<longleftrightarrow> x \<notin> set xs"
| "op_ok _ xs \<longleftrightarrow> True"

fun list_run :: "'n q_op list \<Rightarrow> 'n list \<Rightarrow> 'n option list \<times> 'n list" where
  "list_run [] xs = ([], xs)"
| "list_run (a # as) xs =
     (let (r, ys) = list_step a xs; (rs, zs) = list_run as ys in (r # rs, zs))"

fun ops_ok :: "'n q_op list \<Rightarrow> 'n list \<Rightarrow> bool" where
  "ops_ok [] xs \<longleftrightarrow> True"
| "ops_ok (a # as) xs \<longleftrightarrow> op_ok a xs \<and> ops_ok as (snd (list_step a xs))"

fun run_with :: "('n q_op \<Rightarrow> 's \<Rightarrow> ('n option \<times> 's) option) \<Rightarrow> 'n q_op list \<Rightarrow> 's
    \<Rightarrow> ('n option list \<times> 's) option" where
  "run_with step [] s = Some ([], s)"
| "run_with step (a # as) s =
     do { (r, s') \<leftarrow> step a s; (rs, s'') \<leftarrow> run_with step as s'; Some (r # rs, s'') }"

fun clist_step :: "'n q_op \<Rightarrow> 'n clist \<Rightarrow> ('n option \<times> 'n clist) option" where
  "clist_step (RPush x) l = Some (None, clist_rpush l x)"
| "clist_step (LPush x) l = Some (None, clist_lpush l x)"
| "clist_step LPop l = clist_lpop l"
| "clist_step RPop l = clist_rpop l"
| "clist_step Rotate l = Some (None, clist_lpoprpush l)"
| "clist_step (Remove x) l = clist_remove l x"

text \<open>
  The contract a client of a node queue relies on: each step on a representation of \<open>xs\<close>
  succeeds, returns what the list operation returns and represents its result.
\<close>

locale node_queue =
  fixes rep :: "'s \<Rightarrow> 'n list \<Rightarrow> bool"
    and step :: "'n q_op \<Rightarrow> 's \<Rightarrow> ('n option \<times> 's) option"
  assumes step_rep: "rep s xs \<Longrightarrow> op_ok a xs \<Longrightarrow>
      \<exists>s'. step a s = Some (fst (list_step a xs), s') \<and> rep s' (snd (list_step a xs))"
    and rep_distinct: "rep s xs \<Longrightarrow> distinct xs"
begin

lemma run_rep:
  "rep s xs \<Longrightarrow> ops_ok as xs \<Longrightarrow>
   \<exists>s'. run_with step as s = Some (fst (list_run as xs), s') \<and> rep s' (snd (list_run as xs))"
proof (induction as arbitrary: s xs)
  case (Cons a as)
  then obtain s1 where s1: "step a s = Some (fst (list_step a xs), s1)" "rep s1 (snd (list_step a xs))"
    using step_rep [of s xs a] by auto
  with Cons.IH [of s1 "snd (list_step a xs)"] Cons.prems obtain s2 where
    "run_with step as s1 = Some (fst (list_run as (snd (list_step a xs))), s2)"
    "rep s2 (snd (list_run as (snd (list_step a xs))))" by auto
  with s1 show ?case by (auto simp: split_beta)
qed simp

lemma run_distinct: "rep s xs \<Longrightarrow> ops_ok as xs \<Longrightarrow> distinct (snd (list_run as xs))"
  using run_rep rep_distinct by blast

end

interpretation clist: node_queue clist_rep clist_step
proof
  fix l :: "'n clist" and xs a
  assume rep: "clist_rep l xs" and ok: "op_ok a xs"
  show "\<exists>l'. clist_step a l = Some (fst (list_step a xs), l') \<and> clist_rep l' (snd (list_step a xs))"
  proof (cases a)
    case LPop
    with rep show ?thesis by (cases xs) (auto simp: clist_lpop_Nil dest: clist_lpop_Cons)
  next
    case RPop
    with rep show ?thesis
      by (cases xs rule: rev_cases) (auto simp: clist_rpop_def dest: clist_rpop_snoc)
  next
    case (Remove x)
    with rep show ?thesis by (auto simp: clist_remove_notin dest: clist_remove_in)
  qed (use rep ok in \<open>auto simp: clist_rep_rpush clist_rep_lpush clist_rep_lpoprpush\<close>)
next
  show "clist_rep l xs \<Longrightarrow> distinct xs" for l :: "'n clist" and xs
    by (simp add: clist_rep_def)
qed

section \<open>Properties\<close>

text \<open>
  (C9) The pointer operations of \<open>clist.h\<close> implement lists of nodes: any sequence of
  pushes, pops, rotations and removals (pushing only nodes that are not in the list) run on
  the circular structure terminates without a NULL dereference, returns the nodes the list
  operations return and ends in a structure that represents the resulting list.
\<close>
theorem clist_run_refines:
  assumes "clist_rep l xs" and "ops_ok as xs"
  shows "\<exists>l'. run_with clist_step as l = Some (fst (list_run as xs), l') \<and>
              clist_rep l' (snd (list_run as xs))"
  using assms by (rule clist.run_rep)

definition empty_clist :: "nat clist" where
  "empty_clist = \<lparr>cmem = (\<lambda>_. None), lnext = None\<rparr>"

theorem clist_run_refines_witness:
  "\<exists>l'. run_with clist_step [RPush 3, RPush 4, LPush 5, Rotate, RPop, Remove 4, LPop] empty_clist
          = Some ([None, None, None, None, Some 5, Some 4, Some 3], l') \<and> clist_rep l' []"
proof -
  have "clist_rep empty_clist []" by (simp add: empty_clist_def)
  moreover have "ops_ok [RPush 3, RPush 4, LPush 5, Rotate, RPop, Remove 4, LPop] ([] :: nat list)"
    by simp
  ultimately show ?thesis using clist_run_refines by fastforce
qed

text \<open>
  Traversals of a represented list terminate and visit its nodes once each, in
  order: \<open>clist_count\<close> returns the length (as a \<open>size_t\<close>), \<open>clist_find\<close> finds exactly the
  nodes of the list, and \<open>clist_foreach\<close> calls its function from the first node on until it
  returns a non-zero value.
\<close>
theorem clist_traversals:
  assumes "clist_rep l xs"
  shows "clist_count l = Some (of_nat (length xs)) \<and>
         clist_find l n = Some (if n \<in> set xs then Some n else None) \<and>
         clist_foreach l func s = Some (foreach_list func xs s)"
  using clist_rep_count [OF assms] clist_rep_find [OF assms] clist_rep_foreach [OF assms] by simp

theorem clist_traversals_witness:
  "clist_count (clist_rpush (clist_rpush empty_clist 1) 2) = Some 2 \<and>
   clist_find (clist_rpush (clist_rpush empty_clist 1) 2) 7 = Some None"
proof -
  have "clist_rep (clist_rpush (clist_rpush empty_clist 1) 2) ([1] @ [2])"
    by (intro clist_rep_rpush) (simp_all add: clist_rep_def empty_clist_def clist_rpush_def)
  from clist_traversals [OF this, of 7 "\<lambda>_ (s::nat). (0, s)" 0] show ?thesis by simp
qed

end
