(* ===== verification/Clist_Sort.thy ===== *)
theory Clist_Sort
  imports Clist "HOL-Library.Multiset"
begin

text \<open>
  Sorting a circular list in place (core/clist.c, \<open>clist_sort\<close> of core/include/clist.h): a
  bottom-up merge sort that relinks the nodes on the explicit heap of theory Clist. \<open>int\<close>
  counters are natural numbers; the doubling of \<open>insize\<close> past the range of \<open>int\<close>, a NULL
  dereference and a loop that does not end are \<open>None\<close>.
\<close>

section \<open>The program\<close>

text \<open>Stepping \<open>insize\<close> places along from \<open>p\<close>: the results are \<open>q\<close> and \<open>psize\<close>.\<close>

fun step_along :: "'n heap \<Rightarrow> 'n \<Rightarrow> nat \<Rightarrow> 'n option \<Rightarrow> nat \<Rightarrow> ('n option \<times> nat) option" where
  "step_along h oldhead 0 q psize = Some (q, psize)"
| "step_along h oldhead (Suc i) q psize =
     do { x \<leftarrow> q;
          let q' = (if h x = Some oldhead then None else h x);
          if q' = None then Some (None, psize + 1) else step_along h oldhead i q' (psize + 1) }"

text \<open>Taking the node \<open>e\<close> off a run: the rest of the run starts at its \<open>next\<close>, or ends.\<close>

definition advance :: "'n heap \<Rightarrow> 'n \<Rightarrow> 'n \<Rightarrow> 'n option" where
  "advance h oldhead e = (if h e = Some oldhead then None else h e)"

text \<open>Appending \<open>e\<close> to the merged list.\<close>

definition link :: "'n \<Rightarrow> 'n heap \<times> 'n option \<times> 'n option \<Rightarrow> 'n heap \<times> 'n option \<times> 'n option" where
  "link e = (\<lambda>(h, lst, tail).
     case tail of Some t \<Rightarrow> (h(t := Some e), lst, Some e) | None \<Rightarrow> (h, Some e, Some e))"

function merge_loop ::
  "('n \<Rightarrow> 'n \<Rightarrow> int) \<Rightarrow> 'n \<Rightarrow> 'n option \<Rightarrow> nat \<Rightarrow> 'n option \<Rightarrow> nat \<Rightarrow> 'n heap \<times> 'n option \<times> 'n option \<Rightarrow>
   ('n option \<times> 'n heap \<times> 'n option \<times> 'n option) option" where
  "merge_loop cmp oldhead p psize q qsize s =
     (if psize = 0 then
        (if qsize = 0 \<or> q = None then Some (q, s)
         else do { e \<leftarrow> q; merge_loop cmp oldhead p psize (advance (fst s) oldhead e) (qsize - 1) (link e s) })
      else if qsize = 0 \<or> q = None then
        do { e \<leftarrow> p; merge_loop cmp oldhead (advance (fst s) oldhead e) (psize - 1) q qsize (link e s) }
      else
        do { a \<leftarrow> p; b \<leftarrow> q;
             if cmp a b \<le> 0 then merge_loop cmp oldhead (advance (fst s) oldhead a) (psize - 1) q qsize (link a s)
             else merge_loop cmp oldhead p psize (advance (fst s) oldhead b) (qsize - 1) (link b s) })"
  by pat_completeness auto
termination by (relation "measure (\<lambda>(_, _, _, m, _, n, _). m + n)") auto

declare merge_loop.simps [simp del]

partial_function (option) pass_loop ::
  "('n \<Rightarrow> 'n \<Rightarrow> int) \<Rightarrow> 'n \<Rightarrow> nat \<Rightarrow> 'n option \<Rightarrow> nat \<Rightarrow> 'n heap \<times> 'n option \<times> 'n option \<Rightarrow>
   (nat \<times> 'n heap \<times> 'n option \<times> 'n option) option" where
  "pass_loop cmp oldhead insize p nmerges s =
     (case p of
        None \<Rightarrow> Some (nmerges, s)
      | Some _ \<Rightarrow>
          do { (q, psize) \<leftarrow> step_along (fst s) oldhead insize p 0;
               (q, s) \<leftarrow> merge_loop cmp oldhead p psize q insize s;
               pass_loop cmp oldhead insize q (nmerges + 1) s })"

partial_function (option) sort_loop ::
  "('n \<Rightarrow> 'n \<Rightarrow> int) \<Rightarrow> nat \<Rightarrow> 'n \<Rightarrow> 'n heap \<Rightarrow> ('n option \<times> 'n heap) option" where
  "sort_loop cmp insize oldhead h =
     do { (nmerges, h, lst, tail) \<leftarrow> pass_loop cmp oldhead insize (Some oldhead) 0 (h, None, None);
          t \<leftarrow> tail;
          let h = h(t := lst);
          if nmerges \<le> 1 then Some (tail, h)
          else if 2 ^ 31 \<le> insize * 2 then None
          else do { oldhead \<leftarrow> lst; sort_loop cmp (insize * 2) oldhead h } }"

definition clist_sort_nodes :: "('n \<Rightarrow> 'n \<Rightarrow> int) \<Rightarrow> 'n option \<Rightarrow> 'n heap \<Rightarrow> ('n option \<times> 'n heap) option" where
  "clist_sort_nodes cmp lst h =
     (case lst of None \<Rightarrow> Some (None, h) | Some oldhead \<Rightarrow> sort_loop cmp 1 oldhead h)"

definition clist_sort :: "('n \<Rightarrow> 'n \<Rightarrow> int) \<Rightarrow> 'n clist \<Rightarrow> 'n clist option" where
  "clist_sort cmp l =
     (case lnext l of
        Some lst \<Rightarrow>
          do { (nxt, h) \<leftarrow> clist_sort_nodes cmp (cmem l lst) (cmem l); Some \<lparr>cmem = h, lnext = nxt\<rparr> }
      | None \<Rightarrow> Some l)"

section \<open>Merge sort on lists\<close>

fun merge :: "('n \<Rightarrow> 'n \<Rightarrow> int) \<Rightarrow> 'n list \<Rightarrow> 'n list \<Rightarrow> 'n list" where
  "merge cmp [] ys = ys"
| "merge cmp (x # xs) [] = x # xs"
| "merge cmp (x # xs) (y # ys) = (if cmp x y \<le> 0 then x # merge cmp xs (y # ys) else y # merge cmp (x # xs) ys)"

function pass :: "('n \<Rightarrow> 'n \<Rightarrow> int) \<Rightarrow> nat \<Rightarrow> 'n list \<Rightarrow> 'n list" where
  "pass cmp n xs =
     (if xs = [] \<or> n = 0 then xs
      else merge cmp (take n xs) (take n (drop n xs)) @ pass cmp n (drop (2 * n) xs))"
  by pat_completeness auto
termination by (relation "measure (\<lambda>(_, _, xs). length xs)") auto

declare pass.simps [simp del]

lemma merge_induct:
  fixes P :: "'a list \<Rightarrow> 'b list \<Rightarrow> bool"
  shows "\<lbrakk>\<And>ys. P [] ys; \<And>x xs. P (x # xs) [];
    \<And>x xs y ys. P xs (y # ys) \<Longrightarrow> P (x # xs) ys \<Longrightarrow> P (x # xs) (y # ys)\<rbrakk> \<Longrightarrow> P xs ys"
  by induction_schema (pat_completeness, lexicographic_order)

lemma mset_merge [simp]: "mset (merge cmp xs ys) = mset xs + mset ys"
  by (induction cmp xs ys rule: merge.induct) auto

lemma set_merge [simp]: "set (merge cmp xs ys) = set xs \<union> set ys"
  by (metis mset_merge set_mset_mset set_mset_union)

lemma merge_Nil2 [simp]: "merge cmp xs [] = xs"
  by (cases xs) auto

lemma mset_pass [simp]: "mset (pass cmp n xs) = mset xs"
proof (induction cmp n xs rule: pass.induct)
  case (1 cmp n xs)
  have "mset (take n xs) + (mset (take n (drop n xs)) + mset (drop (2 * n) xs)) = mset xs"
    by (metis append_take_drop_id drop_drop mset_append mult_2)
  with 1 show ?case by (subst pass.simps) (simp add: add.assoc)
qed

section \<open>What sorting means\<close>

text \<open>The contract of a comparison function, and the sorted, stable rearrangement of a list.\<close>

definition eqv :: "('n \<Rightarrow> 'n \<Rightarrow> int) \<Rightarrow> 'n \<Rightarrow> 'n \<Rightarrow> bool" where
  "eqv cmp a b \<longleftrightarrow> cmp a b \<le> 0 \<and> cmp b a \<le> 0"

definition stable_sort_of :: "('n \<Rightarrow> 'n \<Rightarrow> int) \<Rightarrow> 'n list \<Rightarrow> 'n list \<Rightarrow> bool" where
  "stable_sort_of cmp xs ys \<longleftrightarrow> mset ys = mset xs \<and> sorted_wrt (\<lambda>a b. cmp a b \<le> 0) ys \<and>
     (\<forall>a. filter (eqv cmp a) ys = filter (eqv cmp a) xs)"

locale comparison =
  fixes cmp :: "'n \<Rightarrow> 'n \<Rightarrow> int"
  assumes total: "cmp a b \<le> 0 \<or> cmp b a \<le> 0"
    and trans: "cmp a b \<le> 0 \<Longrightarrow> cmp b c \<le> 0 \<Longrightarrow> cmp a c \<le> 0"
begin

abbreviation le :: "'n \<Rightarrow> 'n \<Rightarrow> bool" where "le a b \<equiv> cmp a b \<le> 0"

lemma sorted_merge: "sorted_wrt le xs \<Longrightarrow> sorted_wrt le ys \<Longrightarrow> sorted_wrt le (merge cmp xs ys)"
proof (induction xs ys rule: merge_induct)
  case (3 x xs y ys)
  show ?case
  proof (cases "le x y")
    case True
    then have "le x z" if "z \<in> set (merge cmp xs (y # ys))" for z
      using that 3(3,4) by (auto intro: trans)
    with True 3 show ?thesis by simp
  next
    case False
    then have "le y x" using total by blast
    then have "le y z" if "z \<in> set (merge cmp (x # xs) ys)" for z
      using that 3(3,4) by (auto intro: trans)
    with False 3 show ?thesis by simp
  qed
qed auto

lemma filter_merge:
  "sorted_wrt le xs \<Longrightarrow> filter (eqv cmp a) (merge cmp xs ys) = filter (eqv cmp a) xs @ filter (eqv cmp a) ys"
proof (induction xs ys rule: merge_induct)
  case (3 x xs y ys)
  show ?case
  proof (cases "\<not> le x y \<and> eqv cmp a y")
    case True
    then have "\<not> eqv cmp a z" if "z \<in> set (x # xs)" for z
      using that 3(3) by (auto simp: eqv_def dest: trans)
    then have "filter (eqv cmp a) (x # xs) = []" by (intro filter_False) blast
    with True 3 show ?thesis by auto
  qed (use 3 in auto)
qed auto

text \<open>Every block of \<open>n\<close> nodes is in order; a pass doubles the size of the blocks.\<close>

definition runs :: "nat \<Rightarrow> 'n list \<Rightarrow> bool" where
  "runs n xs \<longleftrightarrow> (\<forall>k. sorted_wrt le (take n (drop (k * n) xs)))"

lemma runs_one: "runs 1 xs"
proof -
  have "sorted_wrt le (take 1 ys)" for ys by (cases ys) auto
  then show ?thesis by (simp add: runs_def)
qed

lemma runs_whole: "runs n xs \<Longrightarrow> length xs \<le> n \<Longrightarrow> sorted_wrt le xs"
  by (auto simp: runs_def dest: spec [of _ 0])

lemma runs_drop: "runs n xs \<Longrightarrow> runs n (drop (2 * n) xs)"
  unfolding runs_def
proof
  fix k assume "\<forall>k. sorted_wrt le (take n (drop (k * n) xs))"
  then have "sorted_wrt le (take n (drop ((k + 2) * n) xs))" by blast
  moreover have "drop (k * n) (drop (2 * n) xs) = drop ((k + 2) * n) xs"
    by (simp only: drop_drop add_mult_distrib)
  ultimately show "sorted_wrt le (take n (drop (k * n) (drop (2 * n) xs)))" by (simp only:)
qed

lemma runs_blocks: "runs n xs \<Longrightarrow> sorted_wrt le (take n xs) \<and> sorted_wrt le (take n (drop n xs))"
  unfolding runs_def by (metis drop0 mult_0 mult_1)

lemma runs_append:
  assumes "sorted_wrt le m" "length m = N \<or> length m < N \<and> ys = []" "runs N ys"
  shows "runs N (m @ ys)"
  unfolding runs_def
proof
  fix k
  show "sorted_wrt le (take N (drop (k * N) (m @ ys)))"
  proof (cases k)
    case 0
    then show ?thesis using assms(1,2) by auto
  next
    case (Suc j)
    then have "drop (k * N) (m @ ys) = drop (j * N) ys" using assms(2) by auto
    then show ?thesis using assms(3) by (simp add: runs_def)
  qed
qed

lemma length_merge [simp]: "length (merge cmp xs ys) = length xs + length ys"
  by (metis mset_merge size_mset size_union)

lemma pass_blocks:
  "0 < n \<Longrightarrow> runs n xs \<Longrightarrow> runs (2 * n) (pass cmp n xs) \<and> filter (eqv cmp a) (pass cmp n xs) = filter (eqv cmp a) xs"
proof (induction "length xs" arbitrary: xs rule: less_induct)
  case less
  show ?case
  proof (cases "xs = []")
    case True
    then show ?thesis by (simp add: pass.simps runs_def)
  next
    case False
    let ?m = "merge cmp (take n xs) (take n (drop n xs))" and ?r = "pass cmp n (drop (2 * n) xs)"
    have p: "pass cmp n xs = ?m @ ?r" using False less.prems by (subst pass.simps) simp
    have b: "sorted_wrt le (take n xs)" "sorted_wrt le (take n (drop n xs))"
      using runs_blocks [OF less.prems(2)] by auto
    have ih: "runs (2 * n) ?r" "filter (eqv cmp a) ?r = filter (eqv cmp a) (drop (2 * n) xs)"
      using less.hyps [of "drop (2 * n) xs"] False less.prems runs_drop by auto
    have "?r = []" if "length xs < 2 * n" using that by (simp add: pass.simps)
    then have "runs (2 * n) (?m @ ?r)"
      by (intro runs_append ih(1) sorted_merge b) auto
    moreover have "filter (eqv cmp a) (take n xs) @ filter (eqv cmp a) (take n (drop n xs)) @
        filter (eqv cmp a) (drop (2 * n) xs) = filter (eqv cmp a) xs"
      by (metis append_take_drop_id drop_drop filter_append mult_2)
    ultimately show ?thesis using filter_merge [OF b(1), of a] ih(2) by (simp add: p)
  qed
qed

end

section \<open>The heap program merges lists\<close>

definition ptr :: "'n list \<Rightarrow> 'n option" where
  "ptr xs = (if xs = [] then None else Some (hd xs))"

lemma ptr_simps [simp]: "ptr [] = None" "ptr (x # xs) = Some x" "xs \<noteq> [] \<Longrightarrow> ptr (xs @ ys) = ptr xs"
  by (simp_all add: ptr_def)

text \<open>What is left of the old list: linked up to its last node, which leads to the old head.\<close>

definition tail_seg :: "'n heap \<Rightarrow> 'n \<Rightarrow> 'n list \<Rightarrow> bool" where
  "tail_seg h oldhead xs \<longleftrightarrow> chain h xs \<and> (xs \<noteq> [] \<longrightarrow> h (last xs) = Some oldhead) \<and> oldhead \<notin> set xs"

text \<open>The merged list built so far.\<close>

definition built :: "'n list \<Rightarrow> 'n heap \<times> 'n option \<times> 'n option \<Rightarrow> bool" where
  "built out s \<longleftrightarrow> chain (fst s) out \<and> snd s = (ptr out, if out = [] then None else Some (last out))"

lemma built_link:
  assumes "built out s" "e \<notin> set out" "distinct out"
  shows "built (out @ [e]) (link e s)" "x \<notin> set out \<Longrightarrow> fst (link e s) x = fst s x"
  using assms by (cases s; cases "out = []";
    auto simp: built_def link_def chain_append chain_upd_last last_notin_butlast)+

lemma tail_seg_advance:
  assumes "tail_seg h oldhead (x # xs)"
  shows "advance h oldhead x = ptr xs" "tail_seg h oldhead xs"
  using assms by (cases "xs = []"; auto simp: tail_seg_def advance_def ptr_def)+

lemma chain_cong: "(\<And>x. x \<in> set xs \<Longrightarrow> h x = h' x) \<Longrightarrow> chain h xs \<longleftrightarrow> chain h' xs"
  by (induction xs rule: induct_list012) auto

lemma tail_seg_cong: "(\<And>x. x \<in> set xs \<Longrightarrow> h x = h' x) \<Longrightarrow> tail_seg h o' xs \<longleftrightarrow> tail_seg h' o' xs"
  using chain_cong [of xs h h'] by (auto simp: tail_seg_def)

text \<open>
  What the merging loop relies on: \<open>ps\<close> is what is left of the first run, \<open>qs\<close> of the second,
  \<open>rs\<close> the rest of the list and \<open>out\<close> the merged list so far.
\<close>

definition merging :: "'n \<Rightarrow> 'n list \<Rightarrow> 'n list \<Rightarrow> 'n list \<Rightarrow> 'n list \<Rightarrow> 'n option \<Rightarrow> nat \<Rightarrow> 'n heap \<times> 'n option \<times> 'n option \<Rightarrow> bool" where
  "merging oldhead out ps qs rs p qsize s \<longleftrightarrow>
     built out s \<and> distinct (out @ ps @ qs @ rs) \<and> chain (fst s) ps \<and> oldhead \<notin> set (tl ps) \<and>
     (ps \<noteq> [] \<longrightarrow> p = Some (hd ps)) \<and> tail_seg (fst s) oldhead (qs @ rs) \<and>
     (qsize = length qs \<or> length qs < qsize \<and> rs = [])"

lemma merging_p:
  assumes "merging oldhead out (x # xs) qs rs p qsize s"
  shows "p = Some x" "merging oldhead (out @ [x]) xs qs rs (advance (fst s) oldhead x) qsize (link x s)"
proof -
  note a = assms [unfolded merging_def]
  show "p = Some x" using a by simp
  have b: "built (out @ [x]) (link x s)" "\<And>y. y \<notin> set out \<Longrightarrow> fst (link x s) y = fst s y"
    using a by (auto intro: built_link)
  have "chain (fst (link x s)) xs = chain (fst s) xs" by (rule chain_cong, rule b(2)) (use a in auto)
  moreover have "tail_seg (fst (link x s)) oldhead (qs @ rs) = tail_seg (fst s) oldhead (qs @ rs)"
    by (rule tail_seg_cong, rule b(2)) (use a in auto)
  moreover have "xs \<noteq> [] \<Longrightarrow> advance (fst s) oldhead x = Some (hd xs)"
    using a by (cases xs) (auto simp: advance_def)
  moreover have "oldhead \<notin> set (tl xs)" "chain (fst s) xs" using a by (cases xs; auto)+
  ultimately show "merging oldhead (out @ [x]) xs qs rs (advance (fst s) oldhead x) qsize (link x s)"
    using a b(1) unfolding merging_def by auto
qed

lemma merging_q:
  assumes "merging oldhead out ps (y # ys) rs p qsize s"
  shows "advance (fst s) oldhead y = ptr (ys @ rs)" "0 < qsize"
    "merging oldhead (out @ [y]) ps ys rs p (qsize - 1) (link y s)"
proof -
  note a = assms [unfolded merging_def]
  have t: "advance (fst s) oldhead y = ptr (ys @ rs)" "tail_seg (fst s) oldhead (ys @ rs)"
    using a by (auto intro: tail_seg_advance [of _ _ y])
  then show "advance (fst s) oldhead y = ptr (ys @ rs)" by simp
  show q: "0 < qsize" using a by auto
  have b: "built (out @ [y]) (link y s)" "\<And>z. z \<notin> set out \<Longrightarrow> fst (link y s) z = fst s z"
    using a by (auto intro: built_link)
  have "chain (fst (link y s)) ps = chain (fst s) ps" by (rule chain_cong, rule b(2)) (use a in auto)
  moreover have "tail_seg (fst (link y s)) oldhead (ys @ rs) = tail_seg (fst s) oldhead (ys @ rs)"
    by (rule tail_seg_cong, rule b(2)) (use a in auto)
  ultimately show "merging oldhead (out @ [y]) ps ys rs p (qsize - 1) (link y s)"
    using a b(1) q t(2) unfolding merging_def by auto
qed

lemma merge_loop_merges:
  "merging oldhead out ps qs rs p qsize s \<Longrightarrow>
   \<exists>s'. merge_loop cmp oldhead p (length ps) (ptr (qs @ rs)) qsize s = Some (ptr rs, s') \<and>
     built (out @ merge cmp ps qs) s' \<and> tail_seg (fst s') oldhead rs"
proof (induction ps qs arbitrary: out p qsize s rule: merge_induct)
  case (1 ys)
  then show ?case
  proof (induction ys arbitrary: out qsize s)
    case Nil
    then show ?case by (intro exI [of _ s], subst merge_loop.simps) (auto simp: merging_def)
  next
    case (Cons y ys)
    note m = merging_q [OF Cons.prems]
    from Cons.IH [OF m(3)] show ?case using m(1,2) by (subst merge_loop.simps) simp
  qed
next
  case (2 x xs)
  have "\<exists>s'. merge_loop cmp oldhead p (length ps) (ptr rs) qsize s = Some (ptr rs, s') \<and>
     built (out @ ps) s' \<and> tail_seg (fst s') oldhead rs"
    if "merging oldhead out ps [] rs p qsize s" for ps out p s
    using that
  proof (induction ps arbitrary: out p s)
    case Nil
    then show ?case by (intro exI [of _ s], subst merge_loop.simps) (auto simp: merging_def)
  next
    case (Cons x xs)
    note m = merging_p [OF Cons.prems]
    have "qsize = 0 \<or> ptr rs = None" using Cons.prems by (auto simp: merging_def)
    with Cons.IH [OF m(2)] m(1) show ?case by (subst merge_loop.simps) simp
  qed
  from this [OF 2] show ?case by simp
next
  case (3 x xs y ys)
  note p = merging_p [OF 3(3)] and q = merging_q [OF 3(3)]
  show ?case
  proof (cases "cmp x y \<le> 0")
    case True
    with 3(1) [OF p(2)] p(1) q(2) show ?thesis by (subst merge_loop.simps) simp
  next
    case False
    with 3(2) [OF q(3)] p(1) q(1,2) show ?thesis by (subst merge_loop.simps) simp
  qed
qed

section \<open>A pass over the list\<close>

definition seg :: "'n heap \<Rightarrow> 'n \<Rightarrow> 'n list \<Rightarrow> bool" where
  "seg h oldhead xs \<longleftrightarrow> chain h xs \<and> (xs \<noteq> [] \<longrightarrow> h (last xs) = Some oldhead) \<and> oldhead \<notin> set (tl xs)"

lemma tail_seg_seg: "tail_seg h oldhead xs \<Longrightarrow> seg h oldhead xs"
  by (cases xs) (auto simp: tail_seg_def seg_def)

lemma step_along_seg:
  "seg h oldhead xs \<Longrightarrow> xs \<noteq> [] \<Longrightarrow>
   step_along h oldhead n (Some (hd xs)) k = Some (ptr (drop n xs), k + length (take n xs))"
proof (induction n arbitrary: xs k)
  case (Suc n)
  then obtain x ys where xs: "xs = x # ys" by (cases xs) auto
  show ?case
  proof (cases "ys = []")
    case True
    with Suc.prems xs show ?thesis by (simp add: seg_def)
  next
    case False
    with Suc.prems xs have "h x = Some (hd ys)" "hd ys \<noteq> oldhead" "seg h oldhead ys"
      by (cases ys; auto simp: seg_def)+
    with Suc.IH [of ys "k + 1"] False xs show ?thesis by simp
  qed
qed (simp add: ptr_def)

lemma seg_merging:
  assumes "seg (fst s) oldhead xs" "xs \<noteq> []" "built out s" "distinct (out @ xs)" "0 < n"
  shows "merging oldhead out (take n xs) (take n (drop n xs)) (drop (2 * n) xs) (Some (hd xs)) n s"
proof -
  have split: "take n (drop n xs) @ drop (2 * n) xs = drop n xs"
    by (metis append_take_drop_id drop_drop mult_2)
  have sp: "take n xs @ drop n xs = xs" by simp
  have c: "chain (fst s) (take n xs @ drop n xs)" using assms(1) unfolding sp seg_def by blast
  have "oldhead \<notin> set (tl (take n xs)) \<union> set (drop n xs)"
  proof -
    obtain m where n: "n = Suc m" using assms(5) by (cases n) auto
    have "set (tl (take n xs)) \<subseteq> set (tl xs)" "set (drop n xs) \<subseteq> set (tl xs)"
      using assms(2) n by (cases xs; auto dest: in_set_takeD in_set_dropD)+
    then show ?thesis using assms(1) by (auto simp: seg_def)
  qed
  moreover have "drop n xs \<noteq> [] \<Longrightarrow> fst s (last (drop n xs)) = Some oldhead"
    using assms(1,2) by (auto simp: seg_def)
  ultimately have "tail_seg (fst s) oldhead (drop n xs)" "oldhead \<notin> set (tl (take n xs))" "chain (fst s) (take n xs)"
    using c [unfolded chain_append] by (auto simp: tail_seg_def)
  moreover have "distinct (out @ take n xs @ take n (drop n xs) @ drop (2 * n) xs)"
    using assms(4) by (simp only: split sp)
  moreover have "hd (take n xs) = hd xs" using assms(2,5) by simp
  ultimately show ?thesis unfolding merging_def split using assms(3,5) by auto
qed

lemma pass_loop_passes:
  "\<lbrakk>seg (fst s) oldhead xs; built out s; distinct (out @ xs); 0 < n\<rbrakk> \<Longrightarrow>
   \<exists>m s'. pass_loop cmp oldhead n (ptr xs) k s = Some (k + m, s') \<and> built (out @ pass cmp n xs) s' \<and>
     (m \<le> 1 \<longleftrightarrow> length xs \<le> 2 * n) \<and> (m = 0 \<longleftrightarrow> xs = [])"
proof (induction "length xs" arbitrary: xs out k s rule: less_induct)
  case less
  show ?case
  proof (cases "xs = []")
    case True
    then show ?thesis using less.prems
      by (intro exI [of _ 0] exI [of _ s]) (simp add: pass_loop.simps pass.simps)
  next
    case False
    let ?m = "merge cmp (take n xs) (take n (drop n xs))"
    obtain s' where s': "merge_loop cmp oldhead (ptr xs) (length (take n xs)) (ptr (drop n xs)) n s =
        Some (ptr (drop (2 * n) xs), s')" "built (out @ ?m) s'" "tail_seg (fst s') oldhead (drop (2 * n) xs)"
      using merge_loop_merges [OF seg_merging [OF less.prems(1) False less.prems(2-4)], of cmp] False
      by (auto simp: ptr_def [of xs] simp del: length_take)
        (metis append_take_drop_id drop_drop mult_2)
    have st: "step_along (fst s) oldhead n (ptr xs) 0 = Some (ptr (drop n xs), length (take n xs))"
      using step_along_seg [OF less.prems(1) False, of n 0] False by (simp add: ptr_def)
    have "distinct ((out @ ?m) @ drop (2 * n) xs)"
    proof -
      have "mset ((out @ ?m) @ drop (2 * n) xs) = mset (out @ xs)"
        by (simp add: add.assoc) (metis append_take_drop_id drop_drop mset_append mult_2)
      then show ?thesis using less.prems(3) mset_eq_imp_distinct_iff by blast
    qed
    then obtain m s2 where s2: "pass_loop cmp oldhead n (ptr (drop (2 * n) xs)) (k + 1) s' = Some (k + 1 + m, s2)"
        "built ((out @ ?m) @ pass cmp n (drop (2 * n) xs)) s2" "m = 0 \<longleftrightarrow> drop (2 * n) xs = []"
      using less.hyps [OF _ tail_seg_seg [OF s'(3)] s'(2) _ less.prems(4), of "k + 1"] False less.prems(4) by auto
    have "pass_loop cmp oldhead n (ptr xs) k s = Some (k + Suc m, s2)"
      using st s'(1) s2(1) False by (subst pass_loop.simps) (simp add: ptr_def [of xs])
    moreover have "pass cmp n xs = ?m @ pass cmp n (drop (2 * n) xs)"
      using False less.prems(4) by (subst pass.simps) simp
    ultimately show ?thesis using s2(2,3) False by (intro exI [of _ "Suc m"] exI [of _ s2]) auto
  qed
qed

section \<open>Sorting\<close>

context comparison
begin

lemma stable_sort_ofI:
  "mset ys = mset xs \<Longrightarrow> runs N ys \<Longrightarrow> length ys \<le> N \<Longrightarrow> (\<And>a. filter (eqv cmp a) ys = filter (eqv cmp a) xs) \<Longrightarrow>
   stable_sort_of cmp xs ys"
  by (simp add: stable_sort_of_def runs_whole)

lemma sort_loop_sorts:
  "\<lbrakk>clist_rep \<lparr>cmem = h, lnext = lst\<rparr> xs; xs \<noteq> []; 0 < n; runs n xs; length xs < 2 ^ 31\<rbrakk> \<Longrightarrow>
   \<exists>h' ys. sort_loop cmp n (hd xs) h = Some (Some (last ys), h') \<and> ys \<noteq> [] \<and>
     clist_rep \<lparr>cmem = h', lnext = Some (last ys)\<rparr> ys \<and> stable_sort_of cmp xs ys"
proof (induction "length xs - n" arbitrary: xs n h lst rule: less_induct)
  case less
  note r = clist_repD [OF less.prems(1,2), simplified]
  have sg: "seg h (hd xs) xs" using r less.prems(2) by (cases xs) (auto simp: seg_def)
  let ?ys = "pass cmp n xs"
  obtain m s' where p: "pass_loop cmp (hd xs) n (ptr xs) 0 (h, None, None) = Some (m, s')" "built ?ys s'"
      "m \<le> 1 \<longleftrightarrow> length xs \<le> 2 * n"
    using pass_loop_passes [of "(h, None, None)" "hd xs" xs "[]" n cmp 0] sg r(4) less.prems(3)
    by (auto simp: built_def)
  have ms: "mset ?ys = mset xs" by simp
  have len: "length ?ys = length xs" by (rule mset_eq_length [OF ms])
  then have ne: "?ys \<noteq> []" using less.prems(2) by force
  have d: "distinct ?ys" using r(4) mset_eq_imp_distinct_iff [OF ms] by blast
  obtain h1 where s': "s' = (h1, Some (hd ?ys), Some (last ?ys))" "chain h1 ?ys"
    using p(2) ne by (cases s') (auto simp: built_def ptr_def)
  let ?h = "h1(last ?ys := Some (hd ?ys))"
  have rep: "clist_rep \<lparr>cmem = ?h, lnext = Some (last ?ys)\<rparr> ?ys"
    using s'(2) d ne by (simp add: clist_rep_def chain_upd_last last_notin_butlast)
  have b: "runs (2 * n) ?ys" "\<And>a. filter (eqv cmp a) ?ys = filter (eqv cmp a) xs"
    using pass_blocks [OF less.prems(3,4)] by auto
  have px: "ptr xs = Some (hd xs)" using less.prems(2) by (simp add: ptr_def)
  have step: "sort_loop cmp n (hd xs) h =
      (if m \<le> 1 then Some (Some (last ?ys), ?h) else if 2 ^ 31 \<le> n * 2 then None
       else sort_loop cmp (n * 2) (hd ?ys) ?h)"
    using p(1) s'(1) px by (subst sort_loop.simps) (simp add: Let_def)
  show ?case
  proof (cases "m \<le> 1")
    case True
    then have "stable_sort_of cmp xs ?ys" using p(3) len by (intro stable_sort_ofI [OF ms b(1) _ b(2)]) simp
    with True step rep ne show ?thesis by auto
  next
    case False
    then have big: "2 * n < length xs" using p(3) by simp
    then have lt: "length ?ys - 2 * n < length xs - n" using len less.prems(3) by linarith
    obtain h' zs where zs: "sort_loop cmp (2 * n) (hd ?ys) ?h = Some (Some (last zs), h')" "zs \<noteq> []"
        "clist_rep \<lparr>cmem = h', lnext = Some (last zs)\<rparr> zs" "stable_sort_of cmp ?ys zs"
      using less.hyps [OF lt rep ne _ b(1)] len less.prems(3,5) by auto
    have "stable_sort_of cmp xs zs" using zs(4) b(2) by (simp add: stable_sort_of_def)
    with zs big False step less.prems(5) show ?thesis by (auto simp: mult.commute)
  qed
qed

lemma clist_sort_sorts:
  assumes "clist_rep l xs" "length xs < 2 ^ 31"
  shows "\<exists>l' ys. clist_sort cmp l = Some l' \<and> clist_rep l' ys \<and> stable_sort_of cmp xs ys"
proof (cases "xs = []")
  case True
  then show ?thesis using assms(1)
    by (intro exI [of _ l] exI [of _ "[]"]) (simp add: clist_sort_def stable_sort_of_def)
next
  case False
  note r = clist_repD [OF assms(1) False]
  have "clist_rep \<lparr>cmem = cmem l, lnext = lnext l\<rparr> xs" using assms(1) by (simp add: clist_rep_def)
  from sort_loop_sorts [OF this False zero_less_one runs_one assms(2)]
  obtain h' ys where "sort_loop cmp 1 (hd xs) (cmem l) = Some (Some (last ys), h')"
    "clist_rep \<lparr>cmem = h', lnext = Some (last ys)\<rparr> ys" "stable_sort_of cmp xs ys" by blast
  then show ?thesis using r by (auto simp: clist_sort_def clist_sort_nodes_def)
qed

end

text \<open>The comparison by a numeric key, as in the documentation of \<open>clist_sort\<close>.\<close>

definition key_cmp :: "('n \<Rightarrow> nat) \<Rightarrow> 'n \<Rightarrow> 'n \<Rightarrow> int" where
  "key_cmp key a b = (if key a < key b then - 1 else if key b < key a then 1 else 0)"

interpretation key: comparison "key_cmp key" for key :: "'n \<Rightarrow> nat"
  by unfold_locales (auto simp: key_cmp_def split: if_splits)

text \<open>
  (C14) Sorting a circular list: for every comparison function that is total and transitive
  and every list of fewer than \<open>2 ^ 31\<close> nodes, \<open>clist_sort\<close> returns (no NULL dereference, no endless
  loop, no overflow of its counters), and the result is again a well-formed circular list, made of
  the same nodes, in order, with nodes that compare equal in their old order.
\<close>
theorem clist_sort_is_stable_sort:
  assumes "\<forall>a b. cmp a b \<le> 0 \<or> cmp b a \<le> 0"
    and "\<forall>a b c. cmp a b \<le> 0 \<and> cmp b c \<le> 0 \<longrightarrow> cmp a c \<le> 0"
    and "clist_rep l xs" and "length xs < 2 ^ 31"
  shows "\<exists>l' ys. clist_sort cmp l = Some l' \<and> clist_rep l' ys \<and> mset ys = mset xs \<and>
     sorted_wrt (\<lambda>a b. cmp a b \<le> 0) ys \<and>
     (\<forall>a. filter (\<lambda>b. cmp a b \<le> 0 \<and> cmp b a \<le> 0) ys = filter (\<lambda>b. cmp a b \<le> 0 \<and> cmp b a \<le> 0) xs)"
proof -
  have "comparison cmp" using assms(1,2) by unfold_locales blast+
  from comparison.clist_sort_sorts [OF this assms(3,4)] show ?thesis
    by (simp add: stable_sort_of_def eqv_def [abs_def])
qed

definition three_nodes :: "nat clist" where
  "three_nodes = \<lparr>cmem = [1 \<mapsto> 2, 2 \<mapsto> 3, 3 \<mapsto> 1], lnext = Some 3\<rparr>"

theorem clist_sort_is_stable_sort_witness:
  "\<exists>l' ys. clist_sort (key_cmp (\<lambda>n. if n = 1 then 7 else 4)) three_nodes = Some l' \<and> clist_rep l' ys \<and>
     mset ys = {#1, 2, 3#} \<and> filter (\<lambda>b. b \<noteq> 1) ys = [2, 3]"
proof -
  let ?c = "key_cmp (\<lambda>n :: nat. if n = 1 then 7 else 4)"
  have h: "clist_rep three_nodes [1, 2, 3]" "length [1, 2, 3 :: nat] < 2 ^ 31" "\<forall>a b. ?c a b \<le> 0 \<or> ?c b a \<le> 0"
    "\<forall>a b c. ?c a b \<le> 0 \<and> ?c b c \<le> 0 \<longrightarrow> ?c a c \<le> 0"
    by (auto simp: three_nodes_def clist_rep_def key_cmp_def)
  obtain l' ys where r: "clist_sort ?c three_nodes = Some l'" "clist_rep l' ys" "mset ys = mset [1, 2, 3]"
      "\<forall>a. filter (\<lambda>b. ?c a b \<le> 0 \<and> ?c b a \<le> 0) ys = filter (\<lambda>b. ?c a b \<le> 0 \<and> ?c b a \<le> 0) [1, 2, 3]"
    using clist_sort_is_stable_sort [OF h(3,4,1,2)] by (elim exE conjE) (rule that, assumption+)
  have e: "(\<lambda>b. ?c 2 b \<le> 0 \<and> ?c b 2 \<le> 0) = (\<lambda>b. b \<noteq> 1)" by (auto simp: key_cmp_def)
  have "filter (\<lambda>b. b \<noteq> 1) ys = [2, 3]" using r(4) [rule_format, of 2, unfolded e] by simp
  with r(1-3) show ?thesis by (intro exI [of _ l'] exI [of _ ys] conjI) simp_all
qed

end
