(* ===== verification/Cib.thy ===== *)
theory Cib
  imports Riot_Prelude
begin

text \<open>
  Circular integer buffers (core/include/cib.h): the read and write counters that thread
  message queues and mailboxes use to index their arrays. The counters are free-running
  32-bit values; only their difference and their low bits matter, so the interesting part
  is that everything stays right when they wrap around.
\<close>

section \<open>Operations\<close>

record cib =
  read_count :: u32
  write_count :: u32
  cmask :: u32

text \<open>\<open>None\<close> is the failed assertion that the size is a power of two (or zero).\<close>

definition cib_init :: "u32 \<Rightarrow> cib option" where
  "cib_init n =
     (if n AND (n - 1) = 0
      then Some \<lparr>read_count = 0, write_count = 0, cmask = n - 1\<rparr> else None)"

definition cib_avail :: "cib \<Rightarrow> u32" where
  "cib_avail c = write_count c - read_count c"

definition cib_full :: "cib \<Rightarrow> bool" where
  "cib_full c \<longleftrightarrow> sint (cib_avail c) > sint (cmask c)"

definition cib_get_unsafe :: "cib \<Rightarrow> int \<times> cib" where
  "cib_get_unsafe c = (sint (read_count c AND cmask c), c\<lparr>read_count := read_count c + 1\<rparr>)"

definition cib_get :: "cib \<Rightarrow> int \<times> cib" where
  "cib_get c =
     (if cib_avail c \<noteq> 0
      then (sint (read_count c AND cmask c), c\<lparr>read_count := read_count c + 1\<rparr>)
      else (- 1, c))"

definition cib_peek :: "cib \<Rightarrow> int" where
  "cib_peek c = (if cib_avail c \<noteq> 0 then sint (read_count c AND cmask c) else - 1)"

definition cib_put_unsafe :: "cib \<Rightarrow> int \<times> cib" where
  "cib_put_unsafe c = (sint (write_count c AND cmask c), c\<lparr>write_count := write_count c + 1\<rparr>)"

definition cib_put :: "cib \<Rightarrow> int \<times> cib" where
  "cib_put c =
     (if sint (cib_avail c) \<le> sint (cmask c)
      then (sint (write_count c AND cmask c), c\<lparr>write_count := write_count c + 1\<rparr>)
      else (- 1, c))"

section \<open>The contract of an index queue\<close>

text \<open>The elements an index queue holds, read from the array it indexes.\<close>

definition fifo_contents :: "('c \<Rightarrow> nat) \<Rightarrow> ('c \<Rightarrow> nat \<Rightarrow> nat) \<Rightarrow> 'c \<Rightarrow> 'a list \<Rightarrow> 'a list" where
  "fifo_contents av slot c arr = map (\<lambda>i. arr ! slot c i) [0..<av c]"

locale index_fifo =
  fixes inv :: "'c \<Rightarrow> bool" and cap av :: "'c \<Rightarrow> nat" and slot :: "'c \<Rightarrow> nat \<Rightarrow> nat"
    and put get :: "'c \<Rightarrow> int \<times> 'c"
  assumes put_full: "inv c \<Longrightarrow> av c = cap c \<Longrightarrow> put c = (- 1, c)"
    and put_ok: "inv c \<Longrightarrow> av c < cap c \<Longrightarrow>
      fst (put c) = int (slot c (av c)) \<and> inv (snd (put c)) \<and> cap (snd (put c)) = cap c \<and>
      av (snd (put c)) = Suc (av c) \<and> slot (snd (put c)) = slot c"
    and get_empty: "inv c \<Longrightarrow> av c = 0 \<Longrightarrow> get c = (- 1, c)"
    and get_ok: "inv c \<Longrightarrow> 0 < av c \<Longrightarrow>
      fst (get c) = int (slot c 0) \<and> inv (snd (get c)) \<and> cap (snd (get c)) = cap c \<and>
      av (snd (get c)) = av c - 1 \<and> (\<forall>i. slot (snd (get c)) i = slot c (Suc i))"
    and av_le: "inv c \<Longrightarrow> av c \<le> cap c"
    and slot_less: "inv c \<Longrightarrow> 0 < cap c \<Longrightarrow> slot c i < cap c"
    and slot_inj: "inv c \<Longrightarrow> i < cap c \<Longrightarrow> j < cap c \<Longrightarrow> slot c i = slot c j \<Longrightarrow> i = j"
begin

lemma put_contents:
  assumes "inv c" "av c < cap c" "cap c \<le> length arr"
  shows "fifo_contents av slot (snd (put c)) (arr[nat (fst (put c)) := x])
         = fifo_contents av slot c arr @ [x]"
proof -
  have s: "slot c i < length arr" for i using slot_less [OF assms(1), of i] assms(2,3) by simp
  have "slot c (av c) \<noteq> slot c i" if "i < av c" for i
    using slot_inj [OF assms(1), of i "av c"] that assms(2) by auto
  with put_ok [OF assms(1,2)] s show ?thesis
    by (auto simp: fifo_contents_def nth_list_update intro!: map_cong)
qed

lemma get_contents:
  assumes "inv c" "0 < av c"
  shows "fifo_contents av slot c arr
         = arr ! nat (fst (get c)) # fifo_contents av slot (snd (get c)) arr"
proof -
  have "[0..<av c] = 0 # map Suc [0..<av c - 1]"
    using assms(2) by (simp add: upt_conv_Cons map_Suc_upt)
  with get_ok [OF assms] show ?thesis by (simp add: fifo_contents_def comp_def)
qed

lemma length_contents: "length (fifo_contents av slot c arr) = av c"
  by (simp add: fifo_contents_def)

end

section \<open>The counters as an index queue\<close>

definition cib_inv :: "cib \<Rightarrow> bool" where
  "cib_inv c \<longleftrightarrow>
     (cmask c = - 1 \<and> cib_avail c = 0) \<or>
     (\<exists>k\<le>30. cmask c = 2 ^ k - 1 \<and> unat (cib_avail c) \<le> 2 ^ k)"

definition cib_cap :: "cib \<Rightarrow> nat" where
  "cib_cap c = unat (cmask c + 1)"

definition cib_slot :: "cib \<Rightarrow> nat \<Rightarrow> nat" where
  "cib_slot c i = unat ((read_count c + of_nat i) AND cmask c)"

lemma and_mask_unat: "k \<le> 30 \<Longrightarrow> unat (x AND (2 ^ k - 1)) = unat (x :: u32) mod 2 ^ k"
  by (simp flip: mask_eq_exp_minus_1 take_bit_eq_mask take_bit_eq_mod add: unsigned_take_bit_eq)

lemma and_mask_sint:
  assumes "k \<le> 30"
  shows "sint (x AND (2 ^ k - 1)) = int (unat (x AND (2 ^ k - 1) :: u32))"
proof -
  have "unat (x AND (2 ^ k - 1)) < 2 ^ k" by (simp only: and_mask_unat [OF assms]) simp
  also have "(2 :: nat) ^ k < 2 ^ 31" using assms by (intro power_strict_increasing) auto
  finally have "unat (x AND (2 ^ k - 1)) < 2 ^ 31" .
  then show ?thesis by (rule sint_small)
qed


lemma cib_invE:
  assumes "cib_inv c"
  obtains (empty) "cmask c = - 1" "cib_avail c = 0" "cib_cap c = 0"
  | (sized) k where "k \<le> 30" "cmask c = 2 ^ k - 1" "cib_cap c = 2 ^ k" "unat (cib_avail c) \<le> 2 ^ k"
      "sint (cmask c) = 2 ^ k - 1"
proof -
  { fix k assume k: "k \<le> 30" "cmask c = 2 ^ k - 1" "unat (cib_avail c) \<le> 2 ^ k"
    have cap: "cib_cap c = 2 ^ k" using k by (simp add: cib_cap_def unat_two_power)
    have "sint (cmask c) = int (unat (- 1 AND (2 ^ k - 1) :: u32))"
      using and_mask_sint [OF k(1), of "- 1"] k(2) by simp
    also have "\<dots> = 2 ^ k - 1"
    proof -
      have "unat (- 1 AND (2 ^ k - 1) :: u32) = 2 ^ k - 1"
        using k(1) by (simp add: unat_minus_one unat_two_power)
      then show ?thesis by (simp add: of_nat_diff)
    qed
    finally have "sint (cmask c) = 2 ^ k - 1" .
    with k cap have thesis by (intro sized) auto }
  then show thesis using assms empty by (auto simp: cib_inv_def cib_cap_def)
qed

lemma cib_avail_put: "cib_avail (c\<lparr>write_count := write_count c + 1\<rparr>) = cib_avail c + 1"
  by (simp add: cib_avail_def)

lemma cib_avail_get: "cib_avail (c\<lparr>read_count := read_count c + 1\<rparr>) = cib_avail c - 1"
  by (simp add: cib_avail_def)

lemma sint_avail:
  assumes "k \<le> 30" "unat (cib_avail c) \<le> 2 ^ k"
  shows "sint (cib_avail c) = int (unat (cib_avail c))"
proof -
  have "(2 :: nat) ^ k < 2 ^ 31" using assms(1) by (intro power_strict_increasing) auto
  with assms(2) show ?thesis by (intro sint_small) linarith
qed

text \<open>For a buffer in range, the signed comparisons of the code are exact.\<close>

lemma cib_full_iff:
  assumes "cib_inv c"
  shows "cib_full c \<longleftrightarrow> unat (cib_avail c) = cib_cap c"
    and "sint (cib_avail c) \<le> sint (cmask c) \<longleftrightarrow> unat (cib_avail c) < cib_cap c"
  using assms
proof (atomize (full), cases rule: cib_invE)
  case empty
  then show "(cib_full c \<longleftrightarrow> unat (cib_avail c) = cib_cap c) \<and>
    (sint (cib_avail c) \<le> sint (cmask c) \<longleftrightarrow> unat (cib_avail c) < cib_cap c)"
    by (simp add: cib_full_def)
next
  case (sized k)
  have "int (unat (cib_avail c)) \<le> 2 ^ k - 1 \<longleftrightarrow> unat (cib_avail c) < 2 ^ k"
    by (metis of_nat_less_iff of_nat_numeral of_nat_power zle_diff1_eq)
  moreover have "sint (cib_avail c) = int (unat (cib_avail c))" by (rule sint_avail) (fact sized)+
  ultimately show "(cib_full c \<longleftrightarrow> unat (cib_avail c) = cib_cap c) \<and>
    (sint (cib_avail c) \<le> sint (cmask c) \<longleftrightarrow> unat (cib_avail c) < cib_cap c)"
    using sized by (auto simp: cib_full_def not_le)
qed

lemma cib_slot_mod:
  assumes "k \<le> 30" "cmask c = 2 ^ k - 1"
  shows "cib_slot c i = (unat (read_count c) + i) mod 2 ^ k"
proof -
  have "cib_slot c i = unat (read_count c + of_nat i) mod 2 ^ k"
    using assms by (simp only: cib_slot_def and_mask_unat)
  also have "unat (read_count c + of_nat i) = (unat (read_count c) + i) mod 2 ^ 32"
    by (simp add: unat_word_ariths unat_of_nat mod_simps)
  also have "\<dots> mod 2 ^ k = (unat (read_count c) + i) mod 2 ^ k"
    using assms(1) by (intro mod_mod_cancel le_imp_power_dvd) simp
  finally show ?thesis .
qed

lemma cib_put_eq:
  assumes "cib_inv c" "unat (cib_avail c) < cib_cap c"
  shows "cib_put c = (int (cib_slot c (unat (cib_avail c))), c\<lparr>write_count := write_count c + 1\<rparr>) \<and>
    cib_put_unsafe c = cib_put c \<and>
    cib_inv (c\<lparr>write_count := write_count c + 1\<rparr>) \<and>
    unat (cib_avail (c\<lparr>write_count := write_count c + 1\<rparr>)) = Suc (unat (cib_avail c))"
using assms(1)
proof (cases rule: cib_invE)
  case (sized k)
  have lt: "unat (cib_avail c) < 2 ^ k" using assms(2) sized by simp
  have "(2 :: nat) ^ k < 2 ^ 32" using sized(1) by (intro power_strict_increasing) auto
  with lt have suc: "unat (cib_avail c + 1) = Suc (unat (cib_avail c))"
    by (simp add: unat_word_ariths)
  have le: "sint (cib_avail c) \<le> sint (cmask c)"
    using cib_full_iff(2) [OF assms(1)] assms(2) by simp
  have wr: "write_count c = read_count c + of_nat (unat (cib_avail c))" by (simp add: cib_avail_def)
  have slot: "sint (write_count c AND cmask c) = int (cib_slot c (unat (cib_avail c)))"
    unfolding cib_slot_def wr [symmetric] using and_mask_sint [OF sized(1)] sized(2) by simp
  show ?thesis
    using sized lt suc le slot
    by (auto simp: cib_put_def cib_put_unsafe_def cib_inv_def cib_avail_put)
qed (use assms(2) in simp)

lemma cib_get_eq:
  assumes "cib_inv c" "0 < unat (cib_avail c)"
  shows "cib_get c = (int (cib_slot c 0), c\<lparr>read_count := read_count c + 1\<rparr>) \<and>
    cib_get_unsafe c = cib_get c \<and> cib_peek c = fst (cib_get c) \<and>
    cib_inv (c\<lparr>read_count := read_count c + 1\<rparr>) \<and>
    unat (cib_avail (c\<lparr>read_count := read_count c + 1\<rparr>)) = unat (cib_avail c) - 1"
using assms(1)
proof (cases rule: cib_invE)
  case (sized k)
  have nz: "cib_avail c \<noteq> 0" using assms(2) by auto
  then have dec: "unat (cib_avail c - 1) = unat (cib_avail c) - 1" by (rule unat_minus_one)
  have slot: "sint (read_count c AND cmask c) = int (cib_slot c 0)"
    unfolding cib_slot_def using and_mask_sint [OF sized(1)] sized(2) by simp
  show ?thesis
    using sized nz dec slot
    by (auto simp: cib_get_def cib_get_unsafe_def cib_peek_def cib_inv_def cib_avail_get)
qed (use assms(2) in simp)

interpretation cib: index_fifo cib_inv cib_cap "\<lambda>c. unat (cib_avail c)" cib_slot cib_put cib_get
proof
  fix c i j
  assume inv: "cib_inv c"
  show "unat (cib_avail c) = cib_cap c \<Longrightarrow> cib_put c = (- 1, c)"
    using cib_full_iff(2) [OF inv] by (simp add: cib_put_def)
  show "unat (cib_avail c) < cib_cap c \<Longrightarrow>
    fst (cib_put c) = int (cib_slot c (unat (cib_avail c))) \<and> cib_inv (snd (cib_put c)) \<and>
    cib_cap (snd (cib_put c)) = cib_cap c \<and>
    unat (cib_avail (snd (cib_put c))) = Suc (unat (cib_avail c)) \<and>
    cib_slot (snd (cib_put c)) = cib_slot c"
    using cib_put_eq [OF inv] by (simp add: cib_cap_def cib_slot_def fun_eq_iff)
  show "unat (cib_avail c) = 0 \<Longrightarrow> cib_get c = (- 1, c)"
    by (simp add: cib_get_def unat_eq_0)
  show "0 < unat (cib_avail c) \<Longrightarrow>
    fst (cib_get c) = int (cib_slot c 0) \<and> cib_inv (snd (cib_get c)) \<and>
    cib_cap (snd (cib_get c)) = cib_cap c \<and>
    unat (cib_avail (snd (cib_get c))) = unat (cib_avail c) - 1 \<and>
    (\<forall>i. cib_slot (snd (cib_get c)) i = cib_slot c (Suc i))"
    using cib_get_eq [OF inv] by (simp add: cib_cap_def cib_slot_def algebra_simps)
  show "unat (cib_avail c) \<le> cib_cap c" using inv by (cases rule: cib_invE) auto
  show "0 < cib_cap c \<Longrightarrow> cib_slot c i < cib_cap c"
    using inv by (cases rule: cib_invE) (auto simp: cib_slot_mod)
  show "i < cib_cap c \<Longrightarrow> j < cib_cap c \<Longrightarrow> cib_slot c i = cib_slot c j \<Longrightarrow> i = j"
    using inv by (cases rule: cib_invE) (auto simp: cib_slot_mod intro: mod_add_inj)
qed

abbreviation cib_contents :: "cib \<Rightarrow> 'a list \<Rightarrow> 'a list" where
  "cib_contents \<equiv> fifo_contents (\<lambda>c. unat (cib_avail c)) cib_slot"

lemma cib_init_inv:
  assumes "k \<le> 30"
  shows "\<exists>c. cib_init (2 ^ k) = Some c \<and> cib_inv c \<and> cib_cap c = 2 ^ k \<and> cib_avail c = 0"
proof -
  have "(2 ^ k :: u32) AND (2 ^ k - 1) = 0"
    by (rule bit_word_eqI) (auto simp: bit_simps simp flip: mask_eq_exp_minus_1)
  with assms show ?thesis
    by (auto simp: cib_init_def cib_inv_def cib_cap_def cib_avail_def unat_two_power)
qed

lemma cib_init_zero: "\<exists>c. cib_init 0 = Some c \<and> cib_inv c \<and> cib_cap c = 0 \<and> cib_full c"
  by (simp add: cib_init_def cib_inv_def cib_cap_def cib_avail_def cib_full_def)


section \<open>Properties\<close>

text \<open>
  (C10) A circular integer buffer over an array is a bounded FIFO queue, also across the
  wrap-around of its 32-bit counters: \<open>cib_put\<close> hands out the slot behind the newest element
  or -1 exactly when the buffer is full, \<open>cib_get\<close> the slot of the oldest element or -1
  exactly when it is empty, and both keep the invariant. A buffer of size 0 is always full.
\<close>
theorem cib_is_fifo:
  assumes "cib_inv c" and "cib_cap c \<le> length arr"
  shows "(cib_full c \<longrightarrow> cib_put c = (- 1, c)) \<and>
    (\<not> cib_full c \<longrightarrow> 0 \<le> fst (cib_put c) \<and> fst (cib_put c) < int (length arr) \<and>
       cib_inv (snd (cib_put c)) \<and>
       cib_contents (snd (cib_put c)) (arr[nat (fst (cib_put c)) := x]) = cib_contents c arr @ [x]) \<and>
    (cib_contents c arr = [] \<longrightarrow> cib_get c = (- 1, c)) \<and>
    (cib_contents c arr \<noteq> [] \<longrightarrow> cib_inv (snd (cib_get c)) \<and>
       cib_contents c arr = arr ! nat (fst (cib_get c)) # cib_contents (snd (cib_get c)) arr)"
proof (intro conjI impI)
  note full = cib_full_iff [OF assms(1)]
  show "cib_full c \<Longrightarrow> cib_put c = (- 1, c)" using cib.put_full [OF assms(1)] full by simp
  { assume "\<not> cib_full c"
    then have lt: "unat (cib_avail c) < cib_cap c" using full cib.av_le [OF assms(1)] by simp
    note ok = cib.put_ok [OF assms(1) lt]
    from ok show "0 \<le> fst (cib_put c)" "cib_inv (snd (cib_put c))" by simp_all
    show "fst (cib_put c) < int (length arr)"
      using ok cib.slot_less [OF assms(1), of "unat (cib_avail c)"] lt assms(2) by simp
    show "cib_contents (snd (cib_put c)) (arr[nat (fst (cib_put c)) := x]) = cib_contents c arr @ [x]"
      by (rule cib.put_contents [OF assms(1) lt assms(2)]) }
  { assume "cib_contents c arr = []"
    then show "cib_get c = (- 1, c)"
      using cib.get_empty [OF assms(1)] cib.length_contents [of c arr] by simp }
  { assume "cib_contents c arr \<noteq> []"
    then have gt: "0 < unat (cib_avail c)" by (metis cib.length_contents gr0I length_0_conv)
    show "cib_inv (snd (cib_get c))" using cib.get_ok [OF assms(1) gt] by simp
    show "cib_contents c arr = arr ! nat (fst (cib_get c)) # cib_contents (snd (cib_get c)) arr"
      by (rule cib.get_contents [OF assms(1) gt]) }
qed

definition wrapped_cib :: cib where
  "wrapped_cib = \<lparr>read_count = 0xFFFFFFFF, write_count = 0, cmask = 3\<rparr>"

theorem cib_is_fifo_witness:
  "cib_put wrapped_cib = (0, wrapped_cib\<lparr>write_count := 1\<rparr>) \<and>
   cib_contents wrapped_cib ''abcd'' = ''d'' \<and>
   cib_contents (snd (cib_put wrapped_cib)) (''abcd''[nat (fst (cib_put wrapped_cib)) := CHR ''x''])
     = ''dx''"
proof -
  have av: "cib_avail wrapped_cib = 1" by (simp add: cib_avail_def wrapped_cib_def)
  have "(3 :: u32) = 2 ^ 2 - 1" by simp
  then have inv: "cib_inv wrapped_cib"
    unfolding cib_inv_def av by (intro disjI2 exI [of _ 2]) (simp add: wrapped_cib_def)
  have cap: "cib_cap wrapped_cib \<le> length ''abcd''" by (simp add: cib_cap_def wrapped_cib_def)
  have nf: "\<not> cib_full wrapped_cib" unfolding cib_full_def av by (simp add: wrapped_cib_def)
  have c: "cib_contents wrapped_cib ''abcd'' = ''d''"
    unfolding fifo_contents_def av by (simp add: cib_slot_def wrapped_cib_def)
  have p: "cib_put wrapped_cib = (0, wrapped_cib\<lparr>write_count := 1\<rparr>)"
    unfolding cib_put_def av by (simp add: wrapped_cib_def)
  from cib_is_fifo [OF inv cap, of "CHR ''x''"] nf c p show ?thesis by simp
qed

end
