(* ===== verification/Kernel.thy ===== *)
theory Kernel
  imports Bitarithm Cib
begin

text \<open>
  The kernel's shared state and its lowest layer: thread control blocks (\<open>struct _thread\<close>,
  core/include/thread.h), the globals of core/sched.c, interrupt state, and the operations
  every other kernel component goes through: \<open>sched_set_status\<close>, \<open>sched_switch\<close>,
  \<open>thread_add_to_list\<close>, \<open>thread_get\<close>. Pointers to control blocks are addresses (\<open>tid\<close>) into
  an explicit store, pointers to messages addresses (\<open>maddr\<close>) into another. A run queue and
  a waiting list are the lists of the threads linked in them. An operation that may
  dereference NULL, index out of bounds or fail an assertion returns \<open>None\<close> there.
\<close>

section \<open>Data\<close>

datatype thread_status =
    STATUS_STOPPED | STATUS_ZOMBIE | STATUS_SLEEPING | STATUS_MUTEX_BLOCKED
  | STATUS_RECEIVE_BLOCKED | STATUS_SEND_BLOCKED | STATUS_REPLY_BLOCKED
  | STATUS_FLAG_BLOCKED_ANY | STATUS_FLAG_BLOCKED_ALL | STATUS_MBOX_BLOCKED
  | STATUS_COND_BLOCKED | STATUS_RUNNING | STATUS_PENDING

text \<open>The enumeration's numbers, in the order of the C declaration.\<close>

fun status_num :: "thread_status \<Rightarrow> nat" where
  "status_num STATUS_STOPPED = 0"
| "status_num STATUS_ZOMBIE = 1"
| "status_num STATUS_SLEEPING = 2"
| "status_num STATUS_MUTEX_BLOCKED = 3"
| "status_num STATUS_RECEIVE_BLOCKED = 4"
| "status_num STATUS_SEND_BLOCKED = 5"
| "status_num STATUS_REPLY_BLOCKED = 6"
| "status_num STATUS_FLAG_BLOCKED_ANY = 7"
| "status_num STATUS_FLAG_BLOCKED_ALL = 8"
| "status_num STATUS_MBOX_BLOCKED = 9"
| "status_num STATUS_COND_BLOCKED = 10"
| "status_num STATUS_RUNNING = 11"
| "status_num STATUS_PENDING = 12"

lemma status_num_inj: "status_num a = status_num b \<Longrightarrow> a = b"
  by (cases a; cases b) simp_all

instantiation thread_status :: linorder
begin

definition less_eq_thread_status :: "thread_status \<Rightarrow> thread_status \<Rightarrow> bool" where
  "a \<le> b \<longleftrightarrow> status_num a \<le> status_num b"

definition less_thread_status :: "thread_status \<Rightarrow> thread_status \<Rightarrow> bool" where
  "a < b \<longleftrightarrow> status_num a < status_num b"

instance
  by standard (auto simp: less_eq_thread_status_def less_thread_status_def dest: status_num_inj)

end

definition STATUS_ON_RUNQUEUE :: thread_status where
  "STATUS_ON_RUNQUEUE = STATUS_RUNNING"

abbreviation on_runqueue :: "thread_status \<Rightarrow> bool" where
  "on_runqueue st \<equiv> STATUS_ON_RUNQUEUE \<le> st"

lemma on_runqueue_iff: "on_runqueue st \<longleftrightarrow> st = STATUS_RUNNING \<or> st = STATUS_PENDING"
  by (cases st) (simp_all add: STATUS_ON_RUNQUEUE_def less_eq_thread_status_def)

type_synonym tid = nat
type_synonym maddr = nat

record msg =
  sender_pid :: int
  mtype :: u16
  content :: u32

text \<open>The uses of \<open>void *wait_data\<close>: a message buffer, or the mask of the awaited flags.\<close>

datatype wait_data = WNull | WMsg maddr | WMask u16

record thread =
  status :: thread_status
  priority :: nat
  pid :: int
  s_time :: int
  flags :: u16
  wait_data :: wait_data
  msg_waiters :: "tid list"
  msg_queue :: cib
  msg_array :: "msg list option"
  tname :: string

record kernel =
  sched_active_pid :: int
  sched_active_thread :: "tid option"
  sched_threads :: "tid option list"
  sched_num_threads :: int
  sched_context_switch_request :: bool
  sched_runqueues :: "tid list list"
  runqueue_bitcache :: u32
  tcb :: "tid \<Rightarrow> thread"
  msgs :: "maddr \<Rightarrow> msg"
  irq_enabled :: bool
  irq_in :: bool
  pendsv :: bool
  run_timer :: "u32 option"

definition SCHED_PRIO_LEVELS :: nat where "SCHED_PRIO_LEVELS = 16"
definition THREAD_PRIORITY_MIN :: nat where "THREAD_PRIORITY_MIN = SCHED_PRIO_LEVELS - 1"
definition THREAD_PRIORITY_IDLE :: nat where "THREAD_PRIORITY_IDLE = THREAD_PRIORITY_MIN"
definition MAXTHREADS :: int where "MAXTHREADS = 32"
definition KERNEL_PID_UNDEF :: int where "KERNEL_PID_UNDEF = 0"
definition KERNEL_PID_FIRST :: int where "KERNEL_PID_FIRST = KERNEL_PID_UNDEF + 1"
definition KERNEL_PID_LAST :: int where "KERNEL_PID_LAST = KERNEL_PID_FIRST + MAXTHREADS - 1"
definition KERNEL_PID_ISR :: int where "KERNEL_PID_ISR = KERNEL_PID_LAST + 1"

lemmas kernel_consts = SCHED_PRIO_LEVELS_def THREAD_PRIORITY_MIN_def THREAD_PRIORITY_IDLE_def
  MAXTHREADS_def KERNEL_PID_UNDEF_def KERNEL_PID_FIRST_def KERNEL_PID_LAST_def KERNEL_PID_ISR_def

section \<open>Interrupt state and yielding\<close>

definition irq_disable :: "kernel \<Rightarrow> bool \<times> kernel" where
  "irq_disable k = (irq_enabled k, k\<lparr>irq_enabled := False\<rparr>)"

definition irq_restore :: "bool \<Rightarrow> kernel \<Rightarrow> kernel" where
  "irq_restore st k = k\<lparr>irq_enabled := st\<rparr>"

text \<open>
  \<open>thread_yield_higher\<close> of the Cortex-M port sets the PendSV pending bit; the scheduler runs
  from the PendSV handler as soon as interrupts are enabled again.
\<close>

definition thread_yield_higher :: "kernel \<Rightarrow> kernel" where
  "thread_yield_higher k = k\<lparr>pendsv := True\<rparr>"

definition irq_enable :: "kernel \<Rightarrow> kernel" where
  "irq_enable k = k\<lparr>irq_enabled := True\<rparr>"

text \<open>\<open>cpu_switch_context_exit\<close> enables interrupts and traps; the trap handler pends PendSV.\<close>

definition cpu_switch_context_exit :: "kernel \<Rightarrow> kernel" where
  "cpu_switch_context_exit k = (irq_enable k)\<lparr>pendsv := True\<rparr>"

section \<open>Access to threads\<close>

definition upd_tcb :: "tid \<Rightarrow> (thread \<Rightarrow> thread) \<Rightarrow> kernel \<Rightarrow> kernel" where
  "upd_tcb t f k = k\<lparr>tcb := (tcb k)(t := f (tcb k t))\<rparr>"

definition thread_get_active :: "kernel \<Rightarrow> tid option" where
  "thread_get_active k = sched_active_thread k"

definition thread_getpid :: "kernel \<Rightarrow> int" where
  "thread_getpid k = sched_active_pid k"

definition pid_is_valid :: "int \<Rightarrow> bool" where
  "pid_is_valid p \<longleftrightarrow> KERNEL_PID_FIRST \<le> p \<and> p \<le> KERNEL_PID_LAST"

text \<open>Indexing \<open>sched_threads\<close>; the outer option is an access out of the array's bounds.\<close>

definition thread_get_unchecked :: "int \<Rightarrow> kernel \<Rightarrow> tid option option" where
  "thread_get_unchecked p k =
     (if 0 \<le> p \<and> nat p < length (sched_threads k) then Some (sched_threads k ! nat p) else None)"

definition thread_get :: "int \<Rightarrow> kernel \<Rightarrow> tid option option" where
  "thread_get p k = (if pid_is_valid p then thread_get_unchecked p k else Some None)"

definition thread_getstatus :: "int \<Rightarrow> kernel \<Rightarrow> thread_status option option" where
  "thread_getstatus p k =
     do { t \<leftarrow> thread_get p k;
          case t of Some t \<Rightarrow> Some (Some (status (tcb k t))) | None \<Rightarrow> Some None }"

definition thread_getname :: "int \<Rightarrow> kernel \<Rightarrow> string option option" where
  "thread_getname p k =
     do { t \<leftarrow> thread_get p k;
          case t of Some t \<Rightarrow> Some (Some (tname (tcb k t))) | None \<Rightarrow> Some None }"

section \<open>Run queues\<close>

text \<open>\<open>sched_runqueues[p]\<close>, \<open>None\<close> for an index out of bounds.\<close>

definition runqueue :: "nat \<Rightarrow> kernel \<Rightarrow> tid list option" where
  "runqueue p k = (if p < length (sched_runqueues k) then Some (sched_runqueues k ! p) else None)"

definition set_runqueue :: "nat \<Rightarrow> tid list \<Rightarrow> kernel \<Rightarrow> kernel" where
  "set_runqueue p q k = k\<lparr>sched_runqueues := (sched_runqueues k)[p := q]\<rparr>"

definition set_runqueue_bit :: "tid \<Rightarrow> kernel \<Rightarrow> kernel" where
  "set_runqueue_bit t k =
     k\<lparr>runqueue_bitcache := runqueue_bitcache k OR push_bit (priority (tcb k t)) 1\<rparr>"

definition clear_runqueue_bit :: "tid \<Rightarrow> kernel \<Rightarrow> kernel" where
  "clear_runqueue_bit t k =
     k\<lparr>runqueue_bitcache := runqueue_bitcache k AND NOT (push_bit (priority (tcb k t)) 1)\<rparr>"

definition get_prio_queue_from_runqueue :: "kernel \<Rightarrow> u32 option" where
  "get_prio_queue_from_runqueue k = bitarithm_lsb (runqueue_bitcache k)"

text \<open>The same three operations in the build with \<open>BITARITHM_HAS_CLZ\<close> (reversed bit order).\<close>

definition BIT31 :: u32 where "BIT31 = 0x80000000"

definition set_runqueue_bit_clz :: "nat \<Rightarrow> u32 \<Rightarrow> u32" where
  "set_runqueue_bit_clz p c = c OR drop_bit p BIT31"

definition clear_runqueue_bit_clz :: "nat \<Rightarrow> u32 \<Rightarrow> u32" where
  "clear_runqueue_bit_clz p c = c AND NOT (drop_bit p BIT31)"

definition get_prio_queue_from_runqueue_clz :: "u32 \<Rightarrow> u32" where
  "get_prio_queue_from_runqueue_clz c = 31 - bitarith_msb_32bit_no_native_clz c"

definition sched_set_status :: "tid \<Rightarrow> thread_status \<Rightarrow> kernel \<Rightarrow> kernel option" where
  "sched_set_status process st k =
     do { let prio = priority (tcb k process);
          k \<leftarrow> (if on_runqueue st then
                 (if \<not> on_runqueue (status (tcb k process)) then
                    do { q \<leftarrow> runqueue prio k;
                         Some (set_runqueue_bit process (set_runqueue prio (q @ [process]) k)) }
                  else Some k)
               else
                 (if on_runqueue (status (tcb k process)) then
                    do { q \<leftarrow> runqueue prio k;
                         let k = set_runqueue prio (tl q) k;
                         Some (if tl q = [] then clear_runqueue_bit process k else k) }
                  else Some k));
          Some (upd_tcb process (status_update (\<lambda>_. st)) k) }"

definition sched_switch :: "nat \<Rightarrow> kernel \<Rightarrow> kernel option" where
  "sched_switch other_prio k =
     do { active_thread \<leftarrow> thread_get_active k;
          let current_prio = priority (tcb k active_thread);
          let on_rq = on_runqueue (status (tcb k active_thread));
          if \<not> on_rq \<or> current_prio > other_prio then
            Some (if irq_in k then k\<lparr>sched_context_switch_request := True\<rparr>
                  else thread_yield_higher k)
          else Some k }"

section \<open>Waiting lists\<close>

text \<open>The search for the insertion point: skip every entry whose priority is not lower.\<close>

fun insert_by_prio :: "('a \<Rightarrow> nat) \<Rightarrow> 'a \<Rightarrow> 'a list \<Rightarrow> 'a list" where
  "insert_by_prio prio t [] = [t]"
| "insert_by_prio prio t (x # xs) =
     (if prio x > prio t then t # x # xs else x # insert_by_prio prio t xs)"

definition thread_add_to_list :: "tid list \<Rightarrow> tid \<Rightarrow> kernel \<Rightarrow> tid list option" where
  "thread_add_to_list l t k =
     (if status (tcb k t) < STATUS_ON_RUNQUEUE
      then Some (insert_by_prio (\<lambda>x. priority (tcb k x)) t l) else None)"

definition list_remove_head :: "'a list \<Rightarrow> 'a option \<times> 'a list" where
  "list_remove_head l = (case l of [] \<Rightarrow> (None, []) | x # xs \<Rightarrow> (Some x, xs))"


section \<open>Frame facts\<close>

lemma upd_tcb_sel [simp]:
  "tcb (upd_tcb t f k) = (tcb k)(t := f (tcb k t))"
  "sched_runqueues (upd_tcb t f k) = sched_runqueues k"
  "runqueue_bitcache (upd_tcb t f k) = runqueue_bitcache k"
  "sched_active_thread (upd_tcb t f k) = sched_active_thread k"
  "sched_active_pid (upd_tcb t f k) = sched_active_pid k"
  "sched_threads (upd_tcb t f k) = sched_threads k"
  "sched_num_threads (upd_tcb t f k) = sched_num_threads k"
  "sched_context_switch_request (upd_tcb t f k) = sched_context_switch_request k"
  "msgs (upd_tcb t f k) = msgs k" "irq_enabled (upd_tcb t f k) = irq_enabled k"
  "irq_in (upd_tcb t f k) = irq_in k" "pendsv (upd_tcb t f k) = pendsv k"
  "run_timer (upd_tcb t f k) = run_timer k"
  by (simp_all add: upd_tcb_def)

lemma set_runqueue_sel [simp]:
  "sched_runqueues (set_runqueue p q k) = (sched_runqueues k)[p := q]"
  "tcb (set_runqueue p q k) = tcb k" "runqueue_bitcache (set_runqueue p q k) = runqueue_bitcache k"
  "sched_active_thread (set_runqueue p q k) = sched_active_thread k"
  "sched_active_pid (set_runqueue p q k) = sched_active_pid k"
  "sched_threads (set_runqueue p q k) = sched_threads k"
  "sched_num_threads (set_runqueue p q k) = sched_num_threads k"
  "sched_context_switch_request (set_runqueue p q k) = sched_context_switch_request k"
  "msgs (set_runqueue p q k) = msgs k" "irq_enabled (set_runqueue p q k) = irq_enabled k"
  "irq_in (set_runqueue p q k) = irq_in k" "pendsv (set_runqueue p q k) = pendsv k"
  "run_timer (set_runqueue p q k) = run_timer k"
  by (simp_all add: set_runqueue_def)

lemma runqueue_bit_sel [simp]:
  "sched_runqueues (set_runqueue_bit t k) = sched_runqueues k" "tcb (set_runqueue_bit t k) = tcb k"
  "sched_active_thread (set_runqueue_bit t k) = sched_active_thread k"
  "sched_active_pid (set_runqueue_bit t k) = sched_active_pid k"
  "sched_threads (set_runqueue_bit t k) = sched_threads k"
  "sched_num_threads (set_runqueue_bit t k) = sched_num_threads k"
  "sched_context_switch_request (set_runqueue_bit t k) = sched_context_switch_request k"
  "msgs (set_runqueue_bit t k) = msgs k" "irq_enabled (set_runqueue_bit t k) = irq_enabled k"
  "irq_in (set_runqueue_bit t k) = irq_in k" "pendsv (set_runqueue_bit t k) = pendsv k"
  "run_timer (set_runqueue_bit t k) = run_timer k"
  "runqueue_bitcache (set_runqueue_bit t k)
     = runqueue_bitcache k OR push_bit (priority (tcb k t)) 1"
  "sched_runqueues (clear_runqueue_bit t k) = sched_runqueues k" "tcb (clear_runqueue_bit t k) = tcb k"
  "sched_active_thread (clear_runqueue_bit t k) = sched_active_thread k"
  "sched_active_pid (clear_runqueue_bit t k) = sched_active_pid k"
  "sched_threads (clear_runqueue_bit t k) = sched_threads k"
  "sched_num_threads (clear_runqueue_bit t k) = sched_num_threads k"
  "sched_context_switch_request (clear_runqueue_bit t k) = sched_context_switch_request k"
  "msgs (clear_runqueue_bit t k) = msgs k" "irq_enabled (clear_runqueue_bit t k) = irq_enabled k"
  "irq_in (clear_runqueue_bit t k) = irq_in k" "pendsv (clear_runqueue_bit t k) = pendsv k"
  "run_timer (clear_runqueue_bit t k) = run_timer k"
  "runqueue_bitcache (clear_runqueue_bit t k)
     = runqueue_bitcache k AND NOT (push_bit (priority (tcb k t)) 1)"
  by (simp_all add: set_runqueue_bit_def clear_runqueue_bit_def)

text \<open>Fields that no status change touches.\<close>

lemma sched_set_status_frame [kernel_frame]:
  assumes "sched_set_status t st k = Some k'"
  shows "sched_active_thread k' = sched_active_thread k" "sched_active_pid k' = sched_active_pid k"
    "sched_threads k' = sched_threads k" "sched_num_threads k' = sched_num_threads k"
    "sched_context_switch_request k' = sched_context_switch_request k" "msgs k' = msgs k"
    "irq_enabled k' = irq_enabled k" "irq_in k' = irq_in k" "pendsv k' = pendsv k"
    "run_timer k' = run_timer k" "tcb k' = (tcb k)(t := (tcb k t)\<lparr>status := st\<rparr>)"
    "length (sched_runqueues k') = length (sched_runqueues k)"
  using assms by (auto simp: sched_set_status_def Let_def split: if_splits bind_splits)

lemma sched_set_status_total:
  "priority (tcb k t) < length (sched_runqueues k) \<Longrightarrow> \<exists>k'. sched_set_status t st k = Some k'"
  by (simp add: sched_set_status_def runqueue_def Let_def)

section \<open>Status changes and the run-queue invariant\<close>

lemma sched_set_status_wake:
  assumes "\<not> on_runqueue (status (tcb k t))" "on_runqueue st"
    "priority (tcb k t) < length (sched_runqueues k)"
  shows "sched_set_status t st k =
    Some (upd_tcb t (status_update (\<lambda>_. st)) (set_runqueue_bit t
      (set_runqueue (priority (tcb k t)) (sched_runqueues k ! priority (tcb k t) @ [t]) k)))"
  using assms by (simp add: sched_set_status_def runqueue_def Let_def)

lemma sched_set_status_block:
  assumes "on_runqueue (status (tcb k t))" "\<not> on_runqueue st"
    "priority (tcb k t) < length (sched_runqueues k)"
    "sched_runqueues k ! priority (tcb k t) = t # q"
  shows "sched_set_status t st k =
    Some (upd_tcb t (status_update (\<lambda>_. st))
      (let k1 = set_runqueue (priority (tcb k t)) q k
       in if q = [] then clear_runqueue_bit t k1 else k1))"
  using assms by (simp add: sched_set_status_def runqueue_def Let_def)

lemma sched_set_status_off:
  assumes "\<not> on_runqueue (status (tcb k t))" "\<not> on_runqueue st"
  shows "sched_set_status t st k = Some (upd_tcb t (status_update (\<lambda>_. st)) k)"
  using assms by (simp add: sched_set_status_def Let_def)

text \<open>
  The invariant the kernel components rely on: the run queues hold, without repetition and
  sorted by priority into queues, exactly the threads whose status says so, and the bit
  cache marks exactly the non-empty queues.
\<close>

definition rq_inv :: "kernel \<Rightarrow> bool" where
  "rq_inv k \<longleftrightarrow>
     length (sched_runqueues k) = SCHED_PRIO_LEVELS \<and>
     (\<forall>p<SCHED_PRIO_LEVELS. distinct (sched_runqueues k ! p)) \<and>
     (\<forall>t p. p < SCHED_PRIO_LEVELS \<longrightarrow>
        (t \<in> set (sched_runqueues k ! p) \<longleftrightarrow> on_runqueue (status (tcb k t)) \<and> priority (tcb k t) = p)) \<and>
     (\<forall>p. bit (runqueue_bitcache k) p \<longleftrightarrow> p < SCHED_PRIO_LEVELS \<and> sched_runqueues k ! p \<noteq> [])"

lemma rq_invD:
  assumes "rq_inv k"
  shows "length (sched_runqueues k) = SCHED_PRIO_LEVELS"
    "p < SCHED_PRIO_LEVELS \<Longrightarrow> distinct (sched_runqueues k ! p)"
    "p < SCHED_PRIO_LEVELS \<Longrightarrow> t \<in> set (sched_runqueues k ! p) \<longleftrightarrow>
       on_runqueue (status (tcb k t)) \<and> priority (tcb k t) = p"
    "bit (runqueue_bitcache k) p \<longleftrightarrow> p < SCHED_PRIO_LEVELS \<and> sched_runqueues k ! p \<noteq> []"
  using assms by (auto simp: rq_inv_def)

lemma bit_set_prio: "n < 32 \<Longrightarrow> bit (c OR 2 ^ n) i \<longleftrightarrow> bit (c :: u32) i \<or> i = n"
  by (auto simp: bit_simps)

lemma bit_clear_prio: "n < 32 \<Longrightarrow> bit (c AND NOT (2 ^ n)) i \<longleftrightarrow> bit (c :: u32) i \<and> i \<noteq> n"
  by (auto simp: bit_simps dest: bit_imp_le_length)

lemma rq_invI:
  assumes "length (sched_runqueues k) = SCHED_PRIO_LEVELS"
    "\<And>p. p < SCHED_PRIO_LEVELS \<Longrightarrow> distinct (sched_runqueues k ! p)"
    "\<And>p t. p < SCHED_PRIO_LEVELS \<Longrightarrow> t \<in> set (sched_runqueues k ! p) \<longleftrightarrow>
       on_runqueue (status (tcb k t)) \<and> priority (tcb k t) = p"
    "\<And>p. bit (runqueue_bitcache k) p \<longleftrightarrow> p < SCHED_PRIO_LEVELS \<and> sched_runqueues k ! p \<noteq> []"
  shows "rq_inv k"
  using assms by (auto simp: rq_inv_def)

lemma rq_inv_wake:
  assumes "rq_inv k" "\<not> on_runqueue (status (tcb k t))" "on_runqueue st"
    "priority (tcb k t) < SCHED_PRIO_LEVELS" "sched_set_status t st k = Some k'"
  shows "rq_inv k'"
proof -
  note d = rq_invD [OF assms(1)]
  let ?p = "priority (tcb k t)"
  have p32: "?p < 32" using assms(4) by (simp add: kernel_consts)
  have k': "k' = upd_tcb t (status_update (\<lambda>_. st)) (set_runqueue_bit t
      (set_runqueue ?p (sched_runqueues k ! ?p @ [t]) k))"
    using assms d(1) by (simp add: sched_set_status_wake)
  have nin: "t \<notin> set (sched_runqueues k ! p)" if "p < SCHED_PRIO_LEVELS" for p
    using d(3) [OF that] assms(2) by simp
  show ?thesis
  proof (rule rq_invI)
    show "length (sched_runqueues k') = SCHED_PRIO_LEVELS" using d(1) k' by simp
    show "distinct (sched_runqueues k' ! p)" if "p < SCHED_PRIO_LEVELS" for p
      using d(1) d(2) [OF that] nin [OF that] k' that by (cases "p = ?p") simp_all
    show "x \<in> set (sched_runqueues k' ! p) \<longleftrightarrow>
        on_runqueue (status (tcb k' x)) \<and> priority (tcb k' x) = p" if "p < SCHED_PRIO_LEVELS" for x p
      using d(1) d(3) [OF that, of x] assms(2,3) k' that by (cases "p = ?p"; cases "x = t") simp_all
    show "bit (runqueue_bitcache k') p \<longleftrightarrow> p < SCHED_PRIO_LEVELS \<and> sched_runqueues k' ! p \<noteq> []" for p
      using d(1) d(4) [of p] p32 assms(4) k' by (cases "p = ?p") (simp_all add: bit_set_prio)
  qed
qed

lemma rq_inv_block:
  assumes "rq_inv k" "on_runqueue (status (tcb k t))" "\<not> on_runqueue st"
    "priority (tcb k t) < SCHED_PRIO_LEVELS" "hd (sched_runqueues k ! priority (tcb k t)) = t"
    "sched_set_status t st k = Some k'"
  shows "rq_inv k'"
proof -
  note d = rq_invD [OF assms(1)]
  let ?p = "priority (tcb k t)"
  have p32: "?p < 32" using assms(4) by (simp add: kernel_consts)
  have "t \<in> set (sched_runqueues k ! ?p)" using d(3) [OF assms(4)] assms(2) by simp
  then obtain q where q: "sched_runqueues k ! ?p = t # q"
    using assms(5) by (cases "sched_runqueues k ! ?p") auto
  have k': "k' = upd_tcb t (status_update (\<lambda>_. st))
      (if q = [] then clear_runqueue_bit t (set_runqueue ?p q k) else set_runqueue ?p q k)"
    using assms d(1) q by (simp add: sched_set_status_block Let_def)
  have tq: "t \<notin> set q" "distinct q" using d(2) [OF assms(4)] q by auto
  have k1: "sched_runqueues k' = (sched_runqueues k)[?p := q]"
    "tcb k' = (tcb k)(t := (tcb k t)\<lparr>status := st\<rparr>)"
    "runqueue_bitcache k' = (if q = [] then runqueue_bitcache k AND NOT (2 ^ ?p) else runqueue_bitcache k)"
    using k' by simp_all
  show ?thesis
  proof (rule rq_invI)
    show "length (sched_runqueues k') = SCHED_PRIO_LEVELS" using d(1) k1 by simp
    show "distinct (sched_runqueues k' ! p)" if "p < SCHED_PRIO_LEVELS" for p
      using d(1) d(2) [OF that] tq k1 that by (cases "p = ?p") simp_all
    show "x \<in> set (sched_runqueues k' ! p) \<longleftrightarrow>
        on_runqueue (status (tcb k' x)) \<and> priority (tcb k' x) = p" if "p < SCHED_PRIO_LEVELS" for x p
      using d(1) d(3) [OF that, of x] assms(2,3) tq q k1 that by (cases "p = ?p"; cases "x = t") auto
    show "bit (runqueue_bitcache k') p \<longleftrightarrow> p < SCHED_PRIO_LEVELS \<and> sched_runqueues k' ! p \<noteq> []" for p
      using d(1) d(4) [of p] p32 assms(4) q k1 by (cases "p = ?p"; cases "q = []") (simp_all add: bit_clear_prio)
  qed
qed


section \<open>Waiting lists stay sorted\<close>

lemma set_insert_by_prio [simp]: "set (insert_by_prio prio t xs) = insert t (set xs)"
  by (induction xs) auto

lemma insert_by_prio_sorted:
  "sorted (map prio xs) \<Longrightarrow> sorted (map prio (insert_by_prio prio t xs))"
  by (induction xs) (auto simp: not_less)

lemma insert_by_prio_filter:
  "sorted (map prio xs) \<Longrightarrow>
   filter (\<lambda>x. prio x = p) (insert_by_prio prio t xs)
     = filter (\<lambda>x. prio x = p) xs @ (if prio t = p then [t] else [])"
proof (induction xs)
  case (Cons x xs)
  show ?case
  proof (cases "prio x > prio t")
    case True
    then have "\<forall>y\<in>set (x # xs). prio y > prio t" using Cons.prems by fastforce
    then have "filter (\<lambda>y. prio y = prio t) (x # xs) = []" by (auto simp: filter_empty_conv)
    with True show ?thesis by (auto split: if_splits)
  next
    case False
    with Cons show ?thesis by auto
  qed
qed simp

lemma distinct_insert_by_prio:
  "distinct (insert_by_prio prio t xs) \<longleftrightarrow> distinct xs \<and> t \<notin> set xs"
  by (induction xs) auto

section \<open>Two builds of the bit cache\<close>

text \<open>
  The contract of the bit cache: marking and unmarking a priority level, and finding the
  numerically lowest (most urgent) marked one.
\<close>

locale prio_cache =
  fixes marked :: "u32 \<Rightarrow> nat \<Rightarrow> bool" and mark unmark :: "nat \<Rightarrow> u32 \<Rightarrow> u32"
    and first_marked :: "u32 \<Rightarrow> u32 option"
  assumes marked_zero: "p < 32 \<Longrightarrow> \<not> marked 0 p"
    and marked_mark: "p < 32 \<Longrightarrow> q < 32 \<Longrightarrow> marked (mark p c) q \<longleftrightarrow> q = p \<or> marked c q"
    and marked_unmark: "p < 32 \<Longrightarrow> q < 32 \<Longrightarrow> marked (unmark p c) q \<longleftrightarrow> q \<noteq> p \<and> marked c q"
    and first_marked: "p < 32 \<Longrightarrow> marked c p \<Longrightarrow> (\<forall>q<p. \<not> marked c q) \<Longrightarrow>
      first_marked c = Some (of_nat p)"

datatype cache_op = Mark nat | Unmark nat

fun cache_run :: "(nat \<Rightarrow> u32 \<Rightarrow> u32) \<Rightarrow> (nat \<Rightarrow> u32 \<Rightarrow> u32) \<Rightarrow> cache_op list \<Rightarrow> u32 \<Rightarrow> u32" where
  "cache_run mk un [] c = c"
| "cache_run mk un (Mark p # ops) c = cache_run mk un ops (mk p c)"
| "cache_run mk un (Unmark p # ops) c = cache_run mk un ops (un p c)"

fun in_range :: "cache_op \<Rightarrow> bool" where
  "in_range (Mark p) \<longleftrightarrow> p < 32"
| "in_range (Unmark p) \<longleftrightarrow> p < 32"

fun marks :: "cache_op list \<Rightarrow> nat set \<Rightarrow> nat set" where
  "marks [] S = S"
| "marks (Mark p # ops) S = marks ops (insert p S)"
| "marks (Unmark p # ops) S = marks ops (S - {p})"

context prio_cache
begin

lemma run_marked:
  "\<forall>a\<in>set ops. in_range a \<Longrightarrow> (\<forall>q<32. marked c q \<longleftrightarrow> q \<in> S) \<Longrightarrow>
   \<forall>q<32. marked (cache_run mark unmark ops c) q \<longleftrightarrow> q \<in> marks ops S"
proof (induction ops arbitrary: c S)
  case (Cons a ops)
  show ?case
  proof (cases a)
    case (Mark p)
    with Cons.prems have "\<forall>q<32. marked (mark p c) q \<longleftrightarrow> q \<in> insert p S" by (simp add: marked_mark)
    with Cons.IH [of "mark p c" "insert p S"] Cons.prems Mark show ?thesis by simp
  next
    case (Unmark p)
    with Cons.prems have "\<forall>q<32. marked (unmark p c) q \<longleftrightarrow> q \<in> S - {p}" by (auto simp: marked_unmark)
    with Cons.IH [of "unmark p c" "S - {p}"] Cons.prems Unmark show ?thesis by simp
  qed
qed simp

lemma run_first:
  assumes "\<forall>a\<in>set ops. in_range a" "p < 32" "p \<in> marks ops {}" "\<forall>q<p. q \<notin> marks ops {}"
  shows "first_marked (cache_run mark unmark ops 0) = Some (of_nat p)"
proof (rule first_marked)
  have m: "\<forall>q<32. marked (cache_run mark unmark ops 0) q \<longleftrightarrow> q \<in> marks ops {}"
    by (rule run_marked) (use assms(1) marked_zero in auto)
  then show "marked (cache_run mark unmark ops 0) p"
    and "\<forall>q<p. \<not> marked (cache_run mark unmark ops 0) q"
    using assms(2-4) by auto
qed (fact assms(2))

end

interpretation lsb_cache: prio_cache "\<lambda>c p. bit c p" "\<lambda>p c. c OR push_bit p 1"
  "\<lambda>p c. c AND NOT (push_bit p 1)" bitarithm_lsb
  by unfold_locales (auto simp: bit_simps lsb_correct)

lemma bit_BIT31: "bit (drop_bit p BIT31) i \<longleftrightarrow> p + i = 31"
proof -
  have eq: "BIT31 = 2 ^ 31" by (simp add: BIT31_def)
  show ?thesis unfolding eq bit_drop_bit_eq comp_def bit_exp_iff by auto
qed

lemma msb_eqI:
  assumes "bit v k" "\<And>i. bit v i \<Longrightarrow> i \<le> k"
  shows "bitarith_msb_32bit_no_native_clz v = of_nat k"
proof -
  have nz: "v \<noteq> 0" using assms(1) by auto
  have "unat (bitarith_msb_32bit_no_native_clz v) = k"
    using msb_bit [OF nz] assms by (simp add: le_antisym)
  then have "of_nat (unat (bitarith_msb_32bit_no_native_clz v)) = (of_nat k :: u32)" by (simp only:)
  then show ?thesis by simp
qed

interpretation clz_cache: prio_cache "\<lambda>c p. bit c (31 - p)" set_runqueue_bit_clz
  clear_runqueue_bit_clz "\<lambda>c. Some (get_prio_queue_from_runqueue_clz c)"
proof
  fix p q :: nat and c :: u32
  show "p < 32 \<Longrightarrow> q < 32 \<Longrightarrow> bit (set_runqueue_bit_clz p c) (31 - q) \<longleftrightarrow> q = p \<or> bit c (31 - q)"
    by (auto simp: set_runqueue_bit_clz_def bit_or_iff bit_BIT31)
  show "p < 32 \<Longrightarrow> q < 32 \<Longrightarrow> bit (clear_runqueue_bit_clz p c) (31 - q) \<longleftrightarrow> q \<noteq> p \<and> bit c (31 - q)"
    by (auto simp: clear_runqueue_bit_clz_def bit_and_iff bit_not_iff bit_BIT31)
  assume p: "p < 32" "bit c (31 - p)" "\<forall>q<p. \<not> bit c (31 - q)"
  have "i \<le> 31 - p" if "bit c i" for i
  proof (rule ccontr)
    assume "\<not> i \<le> 31 - p"
    moreover have "i < 32" using bit_imp_le_length [OF that] by simp
    ultimately have "31 - i < p" "31 - (31 - i) = i" using p(1) by auto
    with p(3) that show False by metis
  qed
  with p(2) have "bitarith_msb_32bit_no_native_clz c = of_nat (31 - p)" by (rule msb_eqI)
  with p(1) show "Some (get_prio_queue_from_runqueue_clz c) = Some (of_nat p)"
    by (simp add: get_prio_queue_from_runqueue_clz_def of_nat_diff)
qed simp

section \<open>Properties\<close>

text \<open>
  The two builds of the run-queue bit cache (least significant bit first, or most
  significant first where the CPU counts leading zeros) always select the same queue: after
  any sequence of marking and unmarking priority levels that leaves one marked, both return
  the numerically lowest marked level.
\<close>
theorem bitcache_builds_agree:
  assumes "\<forall>a\<in>set ops. in_range a" and "p < 32" and "p \<in> marks ops {}" and "\<forall>q<p. q \<notin> marks ops {}"
  shows "bitarithm_lsb (cache_run (\<lambda>p c. c OR push_bit p 1) (\<lambda>p c. c AND NOT (push_bit p 1)) ops 0)
           = Some (of_nat p) \<and>
         get_prio_queue_from_runqueue_clz (cache_run set_runqueue_bit_clz clear_runqueue_bit_clz ops 0)
           = of_nat p"
  using lsb_cache.run_first [OF assms] clz_cache.run_first [OF assms] by simp

theorem bitcache_builds_agree_witness:
  "get_prio_queue_from_runqueue_clz
     (cache_run set_runqueue_bit_clz clear_runqueue_bit_clz [Mark 15, Mark 1, Mark 7, Unmark 1] 0) = 7"
proof -
  have "\<forall>a\<in>set [Mark 15, Mark 1, Mark 7, Unmark 1]. in_range a" by simp
  moreover have "7 \<in> marks [Mark 15, Mark 1, Mark 7, Unmark 1] {}"
    "\<forall>q<7. q \<notin> marks [Mark 15, Mark 1, Mark 7, Unmark 1] {}" by auto
  ultimately show ?thesis using bitcache_builds_agree [of "[Mark 15, Mark 1, Mark 7, Unmark 1]" 7] by simp
qed

text \<open>
  (C8) \<open>sched_set_status\<close> keeps the run-queue invariant and the order of the queues: making a thread ready appends it at the end of the queue of its priority and
  marks that queue; making a ready thread not ready takes it out of its queue and unmarks an emptied queue, provided the thread is the first of its
  queue, because the code removes the head whatever it is; all other queues, and the queues in all other cases, stay as they are.
\<close>
theorem sched_set_status_keeps_rq_inv:
  assumes "rq_inv k" and "priority (tcb k t) < SCHED_PRIO_LEVELS"
    and "on_runqueue (status (tcb k t)) \<and> \<not> on_runqueue st \<longrightarrow>
           hd (sched_runqueues k ! priority (tcb k t)) = t"
  shows "\<exists>k'. sched_set_status t st k = Some k' \<and> rq_inv k' \<and> tcb k' = (tcb k)(t := (tcb k t)\<lparr>status := st\<rparr>) \<and>
    sched_runqueues k' =
      (let p = priority (tcb k t); q = sched_runqueues k ! p
       in if \<not> on_runqueue (status (tcb k t)) \<and> on_runqueue st then (sched_runqueues k)[p := q @ [t]]
          else if on_runqueue (status (tcb k t)) \<and> \<not> on_runqueue st then (sched_runqueues k)[p := tl q]
          else sched_runqueues k)"
proof -
  have len: "priority (tcb k t) < length (sched_runqueues k)" using rq_invD(1) [OF assms(1)] assms(2) by simp
  then obtain k' where k': "sched_set_status t st k = Some k'" using sched_set_status_total by blast
  have st: "tcb k' = (tcb k)(t := (tcb k t)\<lparr>status := st\<rparr>)" using sched_set_status_frame [OF k'] by simp
  consider (same) "on_runqueue (status (tcb k t)) = on_runqueue st" | (wake) "\<not> on_runqueue (status (tcb k t))" "on_runqueue st"
    | (block) "on_runqueue (status (tcb k t))" "\<not> on_runqueue st" by blast
  then show ?thesis
  proof cases
    case same
    then have "k' = upd_tcb t (status_update (\<lambda>_. st)) k"
      using k' by (auto simp: sched_set_status_def Let_def split: if_splits)
    moreover from this same assms(1) have "rq_inv k'" by (auto simp: rq_inv_def)
    ultimately show ?thesis using k' st same by simp
  next
    case wake
    then have "rq_inv k'" using assms k' by (metis rq_inv_wake)
    moreover have "sched_runqueues k' = (sched_runqueues k)[priority (tcb k t) := sched_runqueues k ! priority (tcb k t) @ [t]]"
      using k' sched_set_status_wake [OF wake len] by auto
    ultimately show ?thesis using k' st wake by (simp add: Let_def)
  next
    case block
    then have "t \<in> set (sched_runqueues k ! priority (tcb k t))" using rq_invD(3) [OF assms(1,2)] by simp
    then have "sched_runqueues k ! priority (tcb k t) = t # tl (sched_runqueues k ! priority (tcb k t))"
      using assms(3) block by (metis empty_iff empty_set list.collapse)
    from sched_set_status_block [OF block len this]
    have "sched_runqueues k' = (sched_runqueues k)[priority (tcb k t) := tl (sched_runqueues k ! priority (tcb k t))]"
      using k' by (auto simp: Let_def split: if_splits)
    moreover have "rq_inv k'" using assms k' block by (metis rq_inv_block)
    ultimately show ?thesis using k' st block by (simp add: Let_def)
  qed
qed

definition blank_thread :: thread where
  "blank_thread = \<lparr>status = STATUS_STOPPED, priority = 1, pid = 0, s_time = 0, flags = 0,
     wait_data = WNull, msg_waiters = [],
     msg_queue = \<lparr>read_count = 0, write_count = 0, cmask = - 1\<rparr>, msg_array = None, tname = []\<rparr>"

definition boot_kernel :: kernel where
  "boot_kernel = \<lparr>sched_active_pid = 0, sched_active_thread = None,
     sched_threads = replicate 33 None, sched_num_threads = 0,
     sched_context_switch_request = False, sched_runqueues = replicate 16 [],
     runqueue_bitcache = 0, tcb = (\<lambda>_. blank_thread),
     msgs = (\<lambda>_. \<lparr>sender_pid = 0, mtype = 0, content = 0\<rparr>),
     irq_enabled = True, irq_in = False, pendsv = False, run_timer = None\<rparr>"

lemma boot_kernel_rq_inv: "rq_inv boot_kernel"
  by (auto simp: rq_inv_def boot_kernel_def kernel_consts blank_thread_def on_runqueue_iff)

theorem sched_set_status_keeps_rq_inv_witness:
  "\<exists>k'. sched_set_status 4 STATUS_PENDING boot_kernel = Some k' \<and> rq_inv k' \<and>
        status (tcb k' 4) = STATUS_PENDING \<and> sched_runqueues k' ! 1 = [4]"
proof -
  have "priority (tcb boot_kernel 4) < SCHED_PRIO_LEVELS" "\<not> on_runqueue (status (tcb boot_kernel 4))" "on_runqueue STATUS_PENDING"
    "priority (tcb boot_kernel 4) = 1" "sched_runqueues boot_kernel = replicate 16 []"
    by (simp_all add: boot_kernel_def blank_thread_def kernel_consts on_runqueue_iff)
  then show ?thesis using sched_set_status_keeps_rq_inv [OF boot_kernel_rq_inv, of 4 STATUS_PENDING] by (auto simp: Let_def)
qed

text \<open>
  \<open>thread_add_to_list\<close> keeps a waiting list sorted by priority and first
  come, first served within a priority: a sorted list stays sorted, the new thread is the
  only addition, and the threads of each priority keep their order with the new one last.
\<close>
theorem thread_add_to_list_sorted:
  assumes "sorted (map (\<lambda>x. priority (tcb k x)) l)" and "status (tcb k t) < STATUS_ON_RUNQUEUE"
  shows "\<exists>l'. thread_add_to_list l t k = Some l' \<and> sorted (map (\<lambda>x. priority (tcb k x)) l') \<and>
     (\<forall>p. filter (\<lambda>x. priority (tcb k x) = p) l' =
          filter (\<lambda>x. priority (tcb k x) = p) l @ (if priority (tcb k t) = p then [t] else []))"
proof -
  let ?pr = "\<lambda>x. priority (tcb k x)"
  have "sorted (map ?pr (insert_by_prio ?pr t l)) \<and>
    (\<forall>p. filter (\<lambda>x. ?pr x = p) (insert_by_prio ?pr t l)
       = filter (\<lambda>x. ?pr x = p) l @ (if ?pr t = p then [t] else []))"
    using insert_by_prio_sorted [OF assms(1)] insert_by_prio_filter [OF assms(1)] by blast
  with assms(2) show ?thesis by (auto simp: thread_add_to_list_def)
qed

theorem thread_add_to_list_sorted_witness:
  "\<exists>l'. thread_add_to_list [5, 6] 7 boot_kernel = Some l' \<and> set l' = {5, 6, 7} \<and>
        sorted (map (\<lambda>x. priority (tcb boot_kernel x)) l')"
proof -
  have "sorted (map (\<lambda>x. priority (tcb boot_kernel x)) [5, 6])"
    by (simp add: boot_kernel_def)
  moreover have "status (tcb boot_kernel 7) < STATUS_ON_RUNQUEUE"
    by (simp add: boot_kernel_def blank_thread_def STATUS_ON_RUNQUEUE_def less_thread_status_def)
  ultimately obtain l' where l': "thread_add_to_list [5, 6] 7 boot_kernel = Some l'"
    "sorted (map (\<lambda>x. priority (tcb boot_kernel x)) l')"
    using thread_add_to_list_sorted by blast
  then have "set l' = {5, 6, 7}"
    by (auto simp: thread_add_to_list_def set_insert_by_prio split: if_splits)
  with l' show ?thesis by blast
qed

end
