(* ===== verification/Sched.thy ===== *)
theory Sched
  imports Kernel
begin

text \<open>
  The scheduler (core/sched.c) as this repository changed it: \<open>sched_run\<close> charges the
  thread that ran 500 ms of its service time, takes the next thread from run queue 1 (or the
  idle thread from queue 15), drops a thread without service time left from queue 1, rotates
  queue 1 and arms the timer \<open>Run\<close> that calls the scheduler again. The build has an idle
  thread or not (\<open>IS_USED(MODULE_CORE_IDLE_THREAD)\<close>, the parameter \<open>idle_used\<close>), has no
  scheduler callback, no MPU stack guard and no TLS. The CPU's \<open>sched_arch_idle\<close>, during which
  interrupts may run, is the parameter \<open>arch_idle\<close>.
\<close>

section \<open>Operations\<close>

definition unschedule :: "tid \<Rightarrow> kernel \<Rightarrow> kernel" where
  "unschedule active_thread k =
     (if status (tcb k active_thread) = STATUS_RUNNING
      then upd_tcb active_thread (status_update (\<lambda>_. STATUS_PENDING)) k else k)"

text \<open>\<open>do { sched_arch_idle(); } while (!runqueue_bitcache);\<close>\<close>

partial_function (option) idle_loop :: "(kernel \<Rightarrow> kernel) \<Rightarrow> kernel \<Rightarrow> kernel option" where
  "idle_loop arch_idle k =
     (let k' = arch_idle k in if runqueue_bitcache k' = 0 then idle_loop arch_idle k' else Some k')"

text \<open>Threads 1 (idle) and 2 (main) are not charged.\<close>

definition unaccounted :: "int \<Rightarrow> bool" where
  "unaccounted p \<longleftrightarrow> p = 1 \<or> p = 2"

definition charge :: "tid option \<Rightarrow> kernel \<Rightarrow> kernel" where
  "charge active_thread k =
     (case active_thread of
        None \<Rightarrow> k
      | Some a \<Rightarrow>
          if \<not> unaccounted (pid (tcb k a)) then
            (if s_time (tcb k a) \<ge> 500
             then upd_tcb a (\<lambda>th. th\<lparr>s_time := s_time th - 500\<rparr>) k
             else upd_tcb a (\<lambda>th. th\<lparr>s_time := 0\<rparr>) k)
          else k)"

definition dispatch :: "tid option \<Rightarrow> tid option \<Rightarrow> tid \<Rightarrow> kernel \<Rightarrow> kernel" where
  "dispatch previous_thread active_thread next_thread k =
     (let k = upd_tcb next_thread (status_update (\<lambda>_. STATUS_RUNNING)) k
      in if previous_thread = Some next_thread then k
         else
           (let k = (case active_thread of Some a \<Rightarrow> unschedule a k | None \<Rightarrow> k)
            in k\<lparr>sched_active_pid := pid (tcb k next_thread),
                 sched_active_thread := Some next_thread\<rparr>))"

definition expire :: "tid option \<Rightarrow> tid \<Rightarrow> kernel \<Rightarrow> kernel" where
  "expire active_thread next_thread k =
     (case active_thread of
        None \<Rightarrow> k
      | Some a \<Rightarrow>
          if \<not> unaccounted (pid (tcb k a)) \<and> s_time (tcb k next_thread) = 0
          then set_runqueue 1 (tl (sched_runqueues k ! 1)) k else k)"

text \<open>
  The listing loop at the end: for every non-empty queue \<open>i\<close> and every \<open>j\<close> below its length
  it rotates queue \<^emph>\<open>1\<close>. The length is evaluated anew in every iteration.
\<close>

definition rotate_rq1 :: "kernel \<Rightarrow> kernel" where
  "rotate_rq1 k = set_runqueue 1 (rotate1 (sched_runqueues k ! 1)) k"

lemma length_rotate_rq1: "length (sched_runqueues (rotate_rq1 k) ! i) = length (sched_runqueues k ! i)"
  by (cases "1 < length (sched_runqueues k)"; cases "i = 1")
    (simp_all add: rotate_rq1_def list_update_beyond)

function list_queue_loop :: "nat \<Rightarrow> nat \<Rightarrow> kernel \<Rightarrow> kernel" where
  "list_queue_loop i j k =
     (if j < length (sched_runqueues k ! i) then list_queue_loop i (Suc j) (rotate_rq1 k) else k)"
  by pat_completeness auto
termination
  by (relation "measure (\<lambda>(i, j, k). length (sched_runqueues k ! i) - j)")
    (auto simp: length_rotate_rq1)

declare list_queue_loop.simps [simp del]

definition list_queues :: "kernel \<Rightarrow> kernel" where
  "list_queues k =
     fold (\<lambda>i k. if length (sched_runqueues k ! i) \<noteq> 0 then list_queue_loop i 0 k else k)
       [0..<SCHED_PRIO_LEVELS] k"

definition sched_run :: "bool \<Rightarrow> (kernel \<Rightarrow> kernel) \<Rightarrow> kernel \<Rightarrow> (tid \<times> kernel) option" where
  "sched_run idle_used arch_idle k =
     do { let active_thread = thread_get_active k;
          let previous_thread = active_thread;
          (active_thread, k) \<leftarrow>
            (if \<not> idle_used \<and> runqueue_bitcache k = 0 then
               do { let k = (case active_thread of Some a \<Rightarrow> unschedule a k | None \<Rightarrow> k);
                    k \<leftarrow> idle_loop arch_idle k;
                    Some (None, k) }
             else Some (active_thread, k));
          let k = k\<lparr>sched_context_switch_request := False\<rparr>;
          rq1 \<leftarrow> runqueue 1 k;
          nextrq \<leftarrow> (if length rq1 = 0 then Some 15 else get_prio_queue_from_runqueue k);
          q \<leftarrow> runqueue (unat nextrq) k;
          next_thread \<leftarrow> (case q of [] \<Rightarrow> None | t # _ \<Rightarrow> Some t);
          let k = charge active_thread k;
          let k = dispatch previous_thread active_thread next_thread k;
          let k = expire active_thread next_thread k;
          let k = list_queues k;
          let k = (if pid (tcb k next_thread) \<noteq> 1 then k\<lparr>run_timer := Some 500000\<rparr> else k);
          Some (next_thread, k) }"

text \<open>The timer callback, and the PendSV handler around it as far as the kernel state goes.\<close>

definition callSchedRun :: "bool \<Rightarrow> (kernel \<Rightarrow> kernel) \<Rightarrow> kernel \<Rightarrow> kernel option" where
  "callSchedRun idle_used arch_idle k =
     do { (t, k) \<leftarrow> sched_run idle_used arch_idle k; Some k }"

definition isr_pendsv :: "bool \<Rightarrow> (kernel \<Rightarrow> kernel) \<Rightarrow> kernel \<Rightarrow> (tid \<times> kernel) option" where
  "isr_pendsv idle_used arch_idle k =
     do { (t, k) \<leftarrow> sched_run idle_used arch_idle (k\<lparr>pendsv := False, irq_enabled := False\<rparr>);
          Some (t, k\<lparr>irq_enabled := True\<rparr>) }"

text \<open>Ending the active thread; \<open>cpu_switch_context_exit\<close> then runs the scheduler.\<close>

definition sched_task_exit :: "kernel \<Rightarrow> kernel option" where
  "sched_task_exit k =
     do { let k = snd (irq_disable k);
          slot \<leftarrow> thread_get_unchecked (thread_getpid k) k;
          let k = k\<lparr>sched_threads := (sched_threads k)[nat (thread_getpid k) := None],
                    sched_num_threads := sched_num_threads k - 1\<rparr>;
          t \<leftarrow> thread_get_active k;
          k \<leftarrow> sched_set_status t STATUS_STOPPED k;
          Some (cpu_switch_context_exit (k\<lparr>sched_active_thread := None\<rparr>)) }"

section \<open>The listing loop\<close>

lemma rotate_rq1_sel:
  "tcb (rotate_rq1 k) = tcb k" "runqueue_bitcache (rotate_rq1 k) = runqueue_bitcache k"
  "sched_runqueues (rotate_rq1 k) = (sched_runqueues k)[1 := rotate1 (sched_runqueues k ! 1)]"
  by (simp_all add: rotate_rq1_def)

lemma rotate_rq1_pow:
  assumes "1 < length (sched_runqueues k)"
  shows "(rotate_rq1 ^^ n) k = set_runqueue 1 (rotate n (sched_runqueues k ! 1)) k"
proof (induction n)
  case 0
  then show ?case by (simp add: set_runqueue_def list_update_id)
next
  case (Suc n)
  then show ?case
    using assms by (simp add: rotate_rq1_def set_runqueue_def)
qed

lemma list_queue_loop_pow:
  "j \<le> length (sched_runqueues k ! i) \<Longrightarrow>
   list_queue_loop i j k = (rotate_rq1 ^^ (length (sched_runqueues k ! i) - j)) k"
proof (induction i j k rule: list_queue_loop.induct)
  case (1 i j k)
  show ?case
  proof (cases "j < length (sched_runqueues k ! i)")
    case True
    then have "list_queue_loop i j k = list_queue_loop i (Suc j) (rotate_rq1 k)"
      by (simp add: list_queue_loop.simps [of i j k])
    also have "\<dots> = (rotate_rq1 ^^ (length (sched_runqueues k ! i) - Suc j)) (rotate_rq1 k)"
      using True 1 by (simp add: length_rotate_rq1)
    also have "\<dots> = (rotate_rq1 ^^ Suc (length (sched_runqueues k ! i) - Suc j)) k"
      by (simp add: funpow_swap1)
    also have "Suc (length (sched_runqueues k ! i) - Suc j) = length (sched_runqueues k ! i) - j"
      using True by simp
    finally show ?thesis .
  next
    case False
    then have "list_queue_loop i j k = k" by (subst list_queue_loop.simps) simp
    with False show ?thesis by simp
  qed
qed

lemma list_queues_step:
  assumes "1 < length (sched_runqueues k)"
  shows "(if length (sched_runqueues k ! i) \<noteq> 0 then list_queue_loop i 0 k else k)
    = set_runqueue 1 (rotate (length (sched_runqueues k ! i)) (sched_runqueues k ! 1)) k"
  using assms list_queue_loop_pow [of 0 k i] by (auto simp: rotate_rq1_pow set_runqueue_def)

lemma list_queues_fold:
  assumes "1 < length (sched_runqueues k)"
  shows "fold (\<lambda>i k. if length (sched_runqueues k ! i) \<noteq> 0 then list_queue_loop i 0 k else k) is k
    = set_runqueue 1 (rotate (\<Sum>i\<leftarrow>is. length (sched_runqueues k ! i)) (sched_runqueues k ! 1)) k"
  using assms
proof (induction "is" arbitrary: k)
  case Nil
  then show ?case by (simp add: set_runqueue_def list_update_id)
next
  case (Cons i "is")
  let ?k = "set_runqueue 1 (rotate (length (sched_runqueues k ! i)) (sched_runqueues k ! 1)) k"
  have len: "length (sched_runqueues ?k ! j) = length (sched_runqueues k ! j)" for j
    using Cons.prems by (cases "j = 1") simp_all
  have "1 < length (sched_runqueues ?k)" using Cons.prems by simp
  from Cons.IH [OF this] Cons.prems show ?case
    by (simp only: fold.simps comp_def list_queues_step len)
      (simp add: set_runqueue_def rotate_rotate add.commute)
qed

text \<open>All the queues together rotate queue 1 by the number of threads in the other queues.\<close>

lemma list_queues_rotate:
  assumes "length (sched_runqueues k) = SCHED_PRIO_LEVELS"
  shows "list_queues k = set_runqueue 1
    (rotate (\<Sum>i\<leftarrow>[i\<leftarrow>[0..<SCHED_PRIO_LEVELS]. i \<noteq> 1]. length (sched_runqueues k ! i)) (sched_runqueues k ! 1)) k"
proof -
  let ?l = "\<lambda>i. length (sched_runqueues k ! i)"
  have "[0..<SCHED_PRIO_LEVELS] = 0 # 1 # [2..<SCHED_PRIO_LEVELS]"
    by (simp add: kernel_consts upt_conv_Cons del: upt_Suc)
  then have "(\<Sum>i\<leftarrow>[0..<SCHED_PRIO_LEVELS]. ?l i)
      = (\<Sum>i\<leftarrow>[i\<leftarrow>[0..<SCHED_PRIO_LEVELS]. i \<noteq> 1]. ?l i) + ?l 1"
    by (simp add: filter_id_conv [THEN iffD2])
  moreover have "rotate (n + length xs) xs = rotate n xs" for n and xs :: "tid list"
    by (simp flip: rotate_rotate)
  moreover have "list_queues k = set_runqueue 1
      (rotate (\<Sum>i\<leftarrow>[0..<SCHED_PRIO_LEVELS]. ?l i) (sched_runqueues k ! 1)) k"
    unfolding list_queues_def by (rule list_queues_fold) (simp add: assms kernel_consts)
  ultimately show ?thesis by (simp only:)
qed


section \<open>Abstract specification: round robin with service-time budgets\<close>

record rr =
  ready :: "tid list"
  budget :: "tid \<Rightarrow> int"
  user :: "tid \<Rightarrow> bool"
  current :: "tid option"

definition charged :: "rr \<Rightarrow> bool" where
  "charged r \<longleftrightarrow> (case current r of Some a \<Rightarrow> user r a | None \<Rightarrow> False)"

definition spend :: "rr \<Rightarrow> tid \<Rightarrow> int" where
  "spend r = (case current r of
     Some a \<Rightarrow> if user r a then (budget r)(a := max 0 (budget r a - 500)) else budget r
   | None \<Rightarrow> budget r)"

definition pick :: "tid \<Rightarrow> rr \<Rightarrow> tid" where
  "pick idle r = (case ready r of [] \<Rightarrow> idle | t # _ \<Rightarrow> t)"

definition rr_step :: "tid \<Rightarrow> rr \<Rightarrow> rr" where
  "rr_step idle r =
     r\<lparr>ready := rotate1 (if charged r \<and> spend r (pick idle r) = 0 then tl (ready r) else ready r),
       budget := spend r, current := Some (pick idle r)\<rparr>"

definition rr_wf :: "tid \<Rightarrow> rr \<Rightarrow> bool" where
  "rr_wf idle r \<longleftrightarrow> distinct (ready r) \<and> idle \<notin> set (ready r) \<and>
     (\<forall>t\<in>set (ready r). user r t \<and> 0 \<le> budget r t)"

subsection \<open>It runs dry\<close>

definition quanta :: "int \<Rightarrow> nat" where
  "quanta b = nat ((b + 499) div 500)"

definition workload :: "rr \<Rightarrow> nat" where
  "workload r = (\<Sum>t\<in>set (ready r). quanta (budget r t) + 1)"

text \<open>Whether the running thread will use up a quantum of a queued thread at the next tick.\<close>

definition productive :: "rr \<Rightarrow> bool" where
  "productive r \<longleftrightarrow> (\<exists>a. current r = Some a \<and> user r a \<and> a \<in> set (ready r) \<and> 0 < budget r a)"

definition rr_measure :: "rr \<Rightarrow> nat" where
  "rr_measure r = 2 * workload r + (if productive r then 0 else 1) + (if charged r then 0 else 1)"

lemma quanta_spend: "0 \<le> b \<Longrightarrow> quanta (max 0 (b - 500)) = quanta b - 1"
  by (auto simp: quanta_def max_def)

lemma quanta_pos: "0 < b \<Longrightarrow> 0 < quanta b"
  by (simp add: quanta_def)

lemma spend_le: "0 \<le> budget r t \<Longrightarrow> quanta (spend r t) \<le> quanta (budget r t)"
  by (auto simp: spend_def quanta_spend split: option.splits)

lemma spend_productive:
  assumes "current r = Some a" "user r a" "0 < budget r a"
  shows "quanta (spend r a) < quanta (budget r a)"
  using assms quanta_pos [of "budget r a"] by (simp add: spend_def quanta_spend)

lemma rr_step_wf: "rr_wf idle r \<Longrightarrow> rr_wf idle (rr_step idle r)"
  by (cases "ready r") (auto simp: rr_wf_def rr_step_def spend_def pick_def split: option.splits)

lemma rr_step_workload:
  assumes "rr_wf idle r" "ready r \<noteq> []"
  defines "dropped \<equiv> charged r \<and> spend r (pick idle r) = 0"
  shows "workload (rr_step idle r) + (if productive r then 1 else 0) \<le> workload r"
    and "dropped \<Longrightarrow> workload (rr_step idle r) < workload r"
proof -
  obtain t ts where q: "ready r = t # ts" using assms(2) by (cases "ready r") auto
  have wf: "distinct (t # ts)" "\<And>x. x \<in> set (t # ts) \<Longrightarrow> 0 \<le> budget r x"
    using assms(1) q by (auto simp: rr_wf_def)
  define f where "f x = quanta (budget r x) + 1" for x
  define g where "g x = quanta (spend r x) + 1" for x
  have gf: "g x \<le> f x" if "x \<in> set (t # ts)" for x using spend_le wf(2) [OF that] by (simp add: f_def g_def)
  have W: "workload r = sum f (set (t # ts))" by (simp add: workload_def q f_def)
  have W': "workload (rr_step idle r) = sum g (set (if dropped then ts else t # ts))"
    by (simp add: workload_def rr_step_def q g_def dropped_def)
  have all: "sum g (set (t # ts)) + (if productive r then 1 else 0) \<le> sum f (set (t # ts))"
  proof (cases "productive r")
    case True
    then obtain a where a: "current r = Some a" "user r a" "a \<in> set (t # ts)" "0 < budget r a"
      by (auto simp: productive_def q)
    have "g a < f a" using spend_productive [OF a(1,2,4)] by (simp add: f_def g_def)
    then have "sum g (set (t # ts)) < sum f (set (t # ts))"
      using a(3) gf by (intro sum_strict_mono_ex1) auto
    with True show ?thesis by simp
  qed (use gf in \<open>auto intro: sum_mono\<close>)
  have split: "sum g (set (t # ts)) = g t + sum g (set ts)" using wf(1) by simp
  show "workload (rr_step idle r) + (if productive r then 1 else 0) \<le> workload r"
    using all split by (auto simp: W W' g_def)
  show "workload (rr_step idle r) < workload r" if dropped
    using that all split by (auto simp: W W' g_def)
qed


lemma rr_step_measure:
  assumes "rr_wf idle r" "ready r \<noteq> []"
  shows "rr_measure (rr_step idle r) < rr_measure r"
proof -
  let ?r = "rr_step idle r"
  obtain t ts where q: "ready r = t # ts" using assms(2) by (cases "ready r") auto
  have t: "pick idle r = t" "user r t" using assms(1) q by (auto simp: pick_def rr_wf_def)
  have c: "charged ?r" using t by (simp add: charged_def rr_step_def)
  show ?thesis
  proof (cases "productive r \<or> (charged r \<and> spend r t = 0)")
    case True
    then have "workload ?r < workload r"
      using rr_step_workload [OF assms] t(1) by (auto split: if_splits)
    then show ?thesis using c by (auto simp: rr_measure_def)
  next
    case False
    have "workload ?r \<le> workload r" using rr_step_workload(1) [OF assms] by linarith
    moreover have "productive ?r" if "charged r"
    proof -
      have "0 \<le> spend r t" using assms(1) q by (auto simp: rr_wf_def spend_def split: option.splits)
      with False that t q show ?thesis by (auto simp: productive_def rr_step_def)
    qed
    ultimately show ?thesis using c False by (auto simp: rr_measure_def)
  qed
qed

lemma rr_runs_dry:
  "rr_wf idle r \<Longrightarrow> \<exists>n\<le>rr_measure r. ready ((rr_step idle ^^ n) r) = []"
proof (induction "rr_measure r" arbitrary: r rule: less_induct)
  case less
  show ?case
  proof (cases "ready r = []")
    case True
    then show ?thesis by (intro exI [of _ 0]) simp
  next
    case False
    have lt: "rr_measure (rr_step idle r) < rr_measure r" by (rule rr_step_measure [OF less.prems False])
    with less.hyps rr_step_wf [OF less.prems] obtain n where
      "n \<le> rr_measure (rr_step idle r)" "ready ((rr_step idle ^^ n) (rr_step idle r)) = []" by blast
    with lt show ?thesis by (intro exI [of _ "Suc n"]) (simp add: funpow_swap1)
  qed
qed

lemma rr_idles:
  assumes "ready r = []"
  shows "ready (rr_step idle r) = []" "current (rr_step idle r) = Some idle"
  using assms by (simp_all add: rr_step_def pick_def)

section \<open>The scheduler refines the specification\<close>

definition rr_abs :: "kernel \<Rightarrow> rr" where
  "rr_abs k = \<lparr>ready = sched_runqueues k ! 1, budget = (\<lambda>t. s_time (tcb k t)),
     user = (\<lambda>t. \<not> unaccounted (pid (tcb k t))), current = sched_active_thread k\<rparr>"

text \<open>
  The shape of the run queues in this scheduler: the idle thread (pid 1) alone in queue 15,
  everything else in queue 1, and the bit of queue 1 set whenever it holds a thread.
\<close>

definition rr_state :: "tid \<Rightarrow> kernel \<Rightarrow> bool" where
  "rr_state idle k \<longleftrightarrow> length (sched_runqueues k) = SCHED_PRIO_LEVELS \<and>
     sched_runqueues k ! 15 = [idle] \<and>
     (\<forall>p<SCHED_PRIO_LEVELS. p \<noteq> 1 \<and> p \<noteq> 15 \<longrightarrow> sched_runqueues k ! p = []) \<and>
     (sched_runqueues k ! 1 \<noteq> [] \<longrightarrow>
        bit (runqueue_bitcache k) 1 \<and> \<not> bit (runqueue_bitcache k) 0) \<and>
     pid (tcb k idle) = 1"

lemma charge_sel:
  "sched_runqueues (charge a k) = sched_runqueues k" "runqueue_bitcache (charge a k) = runqueue_bitcache k"
  "sched_active_thread (charge a k) = sched_active_thread k" "pid (tcb (charge a k) t) = pid (tcb k t)"
  "status (tcb (charge a k) t) = status (tcb k t)" "priority (tcb (charge a k) t) = priority (tcb k t)"
  by (auto simp: charge_def split: option.splits)

lemma charge_budget: "s_time (tcb (charge (sched_active_thread k) k) t) = spend (rr_abs k) t"
  by (auto simp: charge_def spend_def rr_abs_def max_def split: option.splits)

lemma dispatch_sel:
  "sched_runqueues (dispatch p a n k) = sched_runqueues k"
  "runqueue_bitcache (dispatch p a n k) = runqueue_bitcache k"
  "pid (tcb (dispatch p a n k) t) = pid (tcb k t)"
  "s_time (tcb (dispatch p a n k) t) = s_time (tcb k t)"
  "priority (tcb (dispatch p a n k) t) = priority (tcb k t)"
  "p = sched_active_thread k \<Longrightarrow> sched_active_thread (dispatch p a n k) = Some n"
  by (auto simp: dispatch_def unschedule_def Let_def split: option.splits)

lemma dispatch_status: "status (tcb (dispatch p p n k) n) = STATUS_RUNNING"
  by (auto simp: dispatch_def unschedule_def Let_def split: option.splits)

lemma list_queues_rr:
  assumes "length (sched_runqueues k) = SCHED_PRIO_LEVELS" "length (sched_runqueues k ! 15) = 1"
    "\<forall>p<SCHED_PRIO_LEVELS. p \<noteq> 1 \<and> p \<noteq> 15 \<longrightarrow> sched_runqueues k ! p = []"
  shows "list_queues k = set_runqueue 1 (rotate1 (sched_runqueues k ! 1)) k"
proof -
  have "[i\<leftarrow>[0..<SCHED_PRIO_LEVELS]. i \<noteq> 1] = [0, 2, 3, 4, 5, 6, 7, 8, 9, 10, 11, 12, 13, 14, 15]"
    by (simp add: kernel_consts upt_rec)
  moreover have "length (sched_runqueues k ! p) = 0" if "p \<in> {0, 2, 3, 4, 5, 6, 7, 8, 9, 10, 11, 12, 13, 14}" for p
    using assms(3) that by (auto simp: kernel_consts)
  ultimately have "(\<Sum>i\<leftarrow>[i\<leftarrow>[0..<SCHED_PRIO_LEVELS]. i \<noteq> 1]. length (sched_runqueues k ! i)) = 1"
    using assms(2) by simp
  then show ?thesis using list_queues_rotate [OF assms(1)] by (simp add: rotate1_def rotate_def)
qed


lemma expire_rr:
  assumes "pid (tcb k' a) = pid (tcb k a)"
  shows "sched_runqueues (expire (Some a) n k') =
    (if \<not> unaccounted (pid (tcb k a)) \<and> s_time (tcb k' n) = 0
     then (sched_runqueues k')[1 := tl (sched_runqueues k' ! 1)] else sched_runqueues k')"
  using assms by (simp add: expire_def)

lemma expire_sel:
  "tcb (expire a n k) = tcb k" "runqueue_bitcache (expire a n k) = runqueue_bitcache k"
  "sched_active_thread (expire a n k) = sched_active_thread k"
  by (auto simp: expire_def split: option.splits)

lemma get_prio_rr:
  assumes "bit (runqueue_bitcache k) 1" "\<not> bit (runqueue_bitcache k) 0"
  shows "get_prio_queue_from_runqueue k = Some 1"
proof -
  have "\<forall>j<1. \<not> bit (runqueue_bitcache k) j" using assms(2) by simp
  from lsb_correct [OF assms(1) this] show ?thesis by (simp add: get_prio_queue_from_runqueue_def)
qed

lemma sched_run_rr:
  assumes "rr_state idle k"
  shows "\<exists>k'. sched_run True arch k = Some (pick idle (rr_abs k), k') \<and>
     rr_abs k' = rr_step idle (rr_abs k) \<and> rr_state idle k' \<and>
     (run_timer k' = Some 500000 \<or> pid (tcb k (pick idle (rr_abs k))) = 1) \<and>
     status (tcb k' (pick idle (rr_abs k))) = STATUS_RUNNING \<and>
     (\<forall>t. priority (tcb k' t) = priority (tcb k t))"
proof -
  let ?a = "sched_active_thread k" and ?n = "pick idle (rr_abs k)" and ?Q = "sched_runqueues k ! 1"
  note d = assms [unfolded rr_state_def]
  have len: "length (sched_runqueues k) = 16" using d by (simp add: kernel_consts)
  define k0 where "k0 = k\<lparr>sched_context_switch_request := False\<rparr>"
  define k1 where "k1 = charge ?a k0"
  define k2 where "k2 = dispatch ?a ?a ?n k1"
  define k3 where "k3 = expire ?a ?n k2"
  define k4 where "k4 = list_queues k3"
  define k5 where "k5 = (if pid (tcb k4 ?n) \<noteq> 1 then k4\<lparr>run_timer := Some 500000\<rparr> else k4)"
  note defs = sched_run_def Let_def thread_get_active_def runqueue_def
    k0_def k1_def k2_def k3_def k4_def k5_def
  have run: "sched_run True arch k = Some (?n, k5)"
  proof (cases ?Q)
    case Nil
    then have "?n = idle" by (simp add: pick_def rr_abs_def)
    moreover have "sched_runqueues k ! 15 = [idle]" using d by simp
    ultimately show ?thesis using Nil len by (simp add: defs)
  next
    case (Cons t ts)
    then have "?n = t" by (simp add: pick_def rr_abs_def)
    moreover have "get_prio_queue_from_runqueue (k\<lparr>sched_context_switch_request := False\<rparr>) = Some 1"
      using Cons d by (intro get_prio_rr) auto
    ultimately show ?thesis using Cons len by (simp add: defs)
  qed
  have s1: "s_time (tcb k1 t) = spend (rr_abs k) t" "pid (tcb k1 t) = pid (tcb k t)" for t
    using charge_budget [of k0 t] by (simp_all add: k1_def k0_def charge_sel rr_abs_def spend_def)
  have s2: "s_time (tcb k2 t) = spend (rr_abs k) t" "pid (tcb k2 t) = pid (tcb k t)"
    "sched_runqueues k2 = sched_runqueues k" "sched_active_thread k2 = Some ?n"
    "runqueue_bitcache k2 = runqueue_bitcache k" for t
    using s1 by (simp_all add: k2_def dispatch_sel k1_def charge_sel k0_def)
  let ?Q' = "if charged (rr_abs k) \<and> spend (rr_abs k) ?n = 0 then tl ?Q else ?Q"
  have s3: "sched_runqueues k3 = (sched_runqueues k)[1 := ?Q']" "tcb k3 = tcb k2"
    "runqueue_bitcache k3 = runqueue_bitcache k" "sched_active_thread k3 = Some ?n"
    using s2 by (auto simp: k3_def expire_def charged_def rr_abs_def split: option.splits)
  have k4: "k4 = set_runqueue 1 (rotate1 ?Q') k3"
    unfolding k4_def using d len by (subst list_queues_rr) (auto simp: s3 kernel_consts)
  have s4: "sched_runqueues k4 = (sched_runqueues k)[1 := rotate1 ?Q']" "tcb k4 = tcb k2"
    "runqueue_bitcache k4 = runqueue_bitcache k" "sched_active_thread k4 = Some ?n"
    by (simp_all add: k4 s3)
  have s5: "sched_runqueues k5 = (sched_runqueues k)[1 := rotate1 ?Q']" "tcb k5 = tcb k2"
    "runqueue_bitcache k5 = runqueue_bitcache k" "sched_active_thread k5 = Some ?n"
    by (simp_all add: k5_def s4)
  have "rr_abs k5 = rr_step idle (rr_abs k)"
    unfolding rr_abs_def [of k5] using s5 s2 len
    by (simp add: rr_step_def) (simp add: rr_abs_def)
  moreover have "rr_state idle k5"
    unfolding rr_state_def using d s5 s2 by (auto simp: nth_list_update kernel_consts)
  moreover have "run_timer k5 = Some 500000 \<or> pid (tcb k ?n) = 1"
    using s4(2) s2(2) by (simp add: k5_def)
  moreover have "status (tcb k5 ?n) = STATUS_RUNNING" "\<forall>t. priority (tcb k5 t) = priority (tcb k t)"
    unfolding s5 k2_def by (simp_all add: dispatch_status dispatch_sel k1_def charge_sel k0_def)
  ultimately show ?thesis using run by blast
qed

lemma callSchedRun_rr:
  assumes "rr_state idle k"
  shows "\<exists>k'. callSchedRun True arch k = Some k' \<and> rr_abs k' = rr_step idle (rr_abs k) \<and> rr_state idle k'"
  using sched_run_rr [OF assms, of arch] by (auto simp: callSchedRun_def)

interpretation sched: fun_simulation "callSchedRun True arch" "rr_step idle" rr_abs "rr_state idle"
  for arch :: "kernel \<Rightarrow> kernel" and idle :: tid
  by unfold_locales (rule callSchedRun_rr)

text \<open>The threads dispatched by a number of scheduler passes, in order.\<close>

fun sched_trace :: "(kernel \<Rightarrow> kernel) \<Rightarrow> nat \<Rightarrow> kernel \<Rightarrow> tid list option" where
  "sched_trace arch 0 k = Some []"
| "sched_trace arch (Suc n) k =
     do { (t, k') \<leftarrow> sched_run True arch k; ts \<leftarrow> sched_trace arch n k'; Some (t # ts) }"

lemma sched_trace_round:
  assumes "rr_state idle k" "sched_runqueues k ! 1 = xs @ ys" "distinct xs"
    "\<forall>t\<in>set xs. 0 < s_time (tcb k t) \<and> (sched_active_thread k = Some t \<longrightarrow> 500 < s_time (tcb k t))"
  shows "sched_trace arch (length xs) k = Some xs"
  using assms
proof (induction xs arbitrary: k ys)
  case (Cons x xs)
  have pick: "pick idle (rr_abs k) = x" using Cons.prems(2) by (simp add: pick_def rr_abs_def)
  from sched_run_rr [OF Cons.prems(1), of arch] obtain k' where
    k': "sched_run True arch k = Some (x, k')" "rr_abs k' = rr_step idle (rr_abs k)" "rr_state idle k'"
    unfolding pick by blast
  have spend: "spend (rr_abs k) t > 0" if "t \<in> set (x # xs)" for t
    using Cons.prems(4) that by (auto simp: spend_def rr_abs_def split: option.splits)
  have "sched_runqueues k' ! 1 = ready (rr_abs k')" by (simp add: rr_abs_def)
  also have "\<dots> = xs @ (ys @ [x])"
    using spend [of x] Cons.prems(2) by (simp add: k'(2) rr_step_def pick) (simp add: rr_abs_def)
  finally have q: "sched_runqueues k' ! 1 = xs @ (ys @ [x])" .
  have "s_time (tcb k' t) = budget (rr_abs k') t" for t by (simp add: rr_abs_def)
  then have st: "s_time (tcb k' t) = spend (rr_abs k) t" for t by (simp add: k'(2) rr_step_def)
  have "sched_active_thread k' = current (rr_abs k')" by (simp add: rr_abs_def)
  then have act: "sched_active_thread k' = Some x" by (simp add: k'(2) rr_step_def pick)
  have "sched_trace arch (length xs) k' = Some xs"
    by (rule Cons.IH [OF k'(3) q]) (use Cons.prems(3) spend st act in auto)
  with k'(1) show ?case by simp
qed simp

lemma sched_runs_dry:
  assumes "rr_state idle k" and "rr_wf idle (rr_abs k)"
  shows "\<exists>n k'. n \<le> 2 * (\<Sum>t\<in>set (sched_runqueues k ! 1). quanta (s_time (tcb k t)) + 1) + 3 \<and>
     iter_opt (callSchedRun True arch) n k = Some k' \<and>
     sched_runqueues k' ! 1 = [] \<and> sched_active_thread k' = Some idle"
proof -
  obtain n where n: "n \<le> rr_measure (rr_abs k)" "ready ((rr_step idle ^^ n) (rr_abs k)) = []"
    using rr_runs_dry [OF assms(2)] by blast
  obtain k' where k': "iter_opt (callSchedRun True arch) (Suc n) k = Some k'"
    "rr_abs k' = (rr_step idle ^^ Suc n) (rr_abs k)"
    using sched.iter_sim [OF assms(1), of arch "Suc n"] by blast
  have "ready (rr_abs k') = []" "current (rr_abs k') = Some idle"
    using rr_idles [OF n(2), of idle] by (simp_all add: k'(2))
  then have "sched_runqueues k' ! 1 = []" "sched_active_thread k' = Some idle" by (simp_all add: rr_abs_def)
  moreover have "rr_measure (rr_abs k) \<le>
      2 * (\<Sum>t\<in>set (sched_runqueues k ! 1). quanta (s_time (tcb k t)) + 1) + 2"
    by (simp add: rr_measure_def workload_def) (simp add: rr_abs_def)
  then have "Suc n \<le> 2 * (\<Sum>t\<in>set (sched_runqueues k ! 1). quanta (s_time (tcb k t)) + 1) + 3"
    using n(1) by linarith
  ultimately show ?thesis using k'(1) by blast
qed

section \<open>Properties\<close>

text \<open>
  (C1) One scheduler pass over run queues of the shape this scheduler keeps
  neither faults nor loops, returns the first thread of queue 1 (the idle thread when queue 1
  is empty), makes it the active thread, re-establishes that shape, and changes queue 1 and
  the service times exactly as the round-robin specification \<open>rr_step\<close> says: the thread that
  ran is charged 500 ms (never below 0), a selected thread with no time left leaves the queue,
  and the queue is rotated by one. The timer is armed unless the idle thread was selected.
\<close>
theorem sched_run_refines_round_robin:
  assumes "rr_state idle k"
  shows "\<exists>k'. sched_run True arch k = Some (pick idle (rr_abs k), k') \<and>
     rr_abs k' = rr_step idle (rr_abs k) \<and> rr_state idle k' \<and>
     (run_timer k' = Some 500000 \<or> pid (tcb k (pick idle (rr_abs k))) = 1)"
  using sched_run_rr [OF assms, of arch] by blast

text \<open>A kernel as the example application leaves it: idle is thread 1, three threads wait.\<close>

definition demo_kernel :: kernel where
  "demo_kernel = boot_kernel\<lparr>
     sched_runqueues := (replicate 16 [])[1 := [3, 4, 5], 15 := [1]],
     runqueue_bitcache := 0x8002,
     tcb := (\<lambda>t. blank_thread\<lparr>status := STATUS_PENDING, pid := int t,
                    priority := (if t = 1 then 15 else 1),
                    s_time := (if t = 3 then 1000 else if t = 4 then 700 else if t = 5 then 500 else 0)\<rparr>),
     sched_threads := [None, Some 1, None, Some 3, Some 4, Some 5] @ replicate 27 None,
     sched_num_threads := 4\<rparr>"

lemma demo_rr_state: "rr_state 1 demo_kernel"
proof -
  have "sched_runqueues demo_kernel ! p = []" if "p < 16" "p \<noteq> 1" "p \<noteq> 15" for p
    using that by (simp add: demo_kernel_def)
  then show ?thesis
    by (simp add: rr_state_def kernel_consts)
      (simp add: demo_kernel_def bit_numeral_rec bit_1_iff)
qed

lemma demo_abs [simp]:
  "ready (rr_abs demo_kernel) = [3, 4, 5]" "current (rr_abs demo_kernel) = None"
  "user (rr_abs demo_kernel) t \<longleftrightarrow> t \<noteq> 1 \<and> t \<noteq> 2"
  "budget (rr_abs demo_kernel) t =
     (if t = 3 then 1000 else if t = 4 then 700 else if t = 5 then 500 else 0)"
  by (auto simp: rr_abs_def demo_kernel_def boot_kernel_def unaccounted_def)

theorem sched_run_refines_round_robin_witness:
  "\<exists>k'. sched_run True id demo_kernel = Some (3, k') \<and> sched_runqueues k' ! 1 = [4, 5, 3]"
proof -
  from sched_run_refines_round_robin [OF demo_rr_state, of id] obtain k' where
    k': "sched_run True id demo_kernel = Some (pick 1 (rr_abs demo_kernel), k')"
      "rr_abs k' = rr_step 1 (rr_abs demo_kernel)" by blast
  have "ready (rr_abs k') = [4, 5, 3]" by (simp add: k'(2) rr_step_def charged_def)
  moreover have "sched_runqueues k' ! 1 = ready (rr_abs k')" by (simp add: rr_abs_def)
  ultimately show ?thesis using k'(1) by (simp add: pick_def)
qed

text \<open>
  (C2) Every set of threads is served to the end: from any such state in which
  queue 1 holds user threads with non-negative service times, after at most
  2 * (quanta of 500 ms still owed + number of threads) + 3 scheduler passes queue 1 is empty
  and the idle thread is the active thread.
\<close>
theorem sched_run_drains:
  assumes "rr_state idle k" and "rr_wf idle (rr_abs k)"
  shows "\<exists>n k'. n \<le> 2 * (\<Sum>t\<in>set (sched_runqueues k ! 1). quanta (s_time (tcb k t)) + 1) + 3 \<and>
     iter_opt (callSchedRun True arch) n k = Some k' \<and>
     sched_runqueues k' ! 1 = [] \<and> sched_active_thread k' = Some idle"
  by (rule sched_runs_dry [OF assms])

theorem sched_run_drains_witness:
  "\<exists>n k'. iter_opt (callSchedRun True id) n demo_kernel = Some k' \<and>
     sched_runqueues k' ! 1 = [] \<and> sched_active_thread k' = Some 1"
proof -
  have "rr_wf 1 (rr_abs demo_kernel)" by (simp add: rr_wf_def)
  from sched_run_drains [OF demo_rr_state this, of id] show ?thesis by blast
qed

text \<open>
  Fairness: when every thread in queue 1 has service time left (more than one
  quantum if it is the running one), as many scheduler passes as there are threads dispatch
  each of them exactly once, in queue order.
\<close>
theorem sched_round_is_fair:
  assumes "rr_state idle k" and "distinct (sched_runqueues k ! 1)"
    and "\<forall>t\<in>set (sched_runqueues k ! 1). 0 < s_time (tcb k t) \<and>
           (sched_active_thread k = Some t \<longrightarrow> 500 < s_time (tcb k t))"
  shows "sched_trace arch (length (sched_runqueues k ! 1)) k = Some (sched_runqueues k ! 1)"
  using sched_trace_round [OF assms(1), of "sched_runqueues k ! 1" "[]" arch] assms(2,3) by simp

theorem sched_round_is_fair_witness: "sched_trace id 3 demo_kernel = Some [3, 4, 5]"
proof -
  have q: "sched_runqueues demo_kernel ! 1 = [3, 4, 5]" by (simp add: demo_kernel_def)
  have len: "length [3, 4, 5 :: tid] = 3" by simp
  have "\<forall>t\<in>set [3, 4, 5]. 0 < s_time (tcb demo_kernel t) \<and>
      (sched_active_thread demo_kernel = Some t \<longrightarrow> 500 < s_time (tcb demo_kernel t))"
    by (simp add: demo_kernel_def boot_kernel_def)
  from sched_round_is_fair [OF demo_rr_state, of id, unfolded q len, OF _ this] show ?thesis by simp
qed

text \<open>
  The listing loop at the end of \<open>sched_run\<close> rotates run queue 1 by the
  number of threads waiting in all the other queues, and changes nothing else: the turn of
  queue 1 advances only because the idle thread sits in queue 15, and with no thread in
  another queue it does not advance at all.
\<close>
theorem listing_loop_rotates_queue_1:
  assumes "length (sched_runqueues k) = SCHED_PRIO_LEVELS"
  shows "list_queues k = k\<lparr>sched_runqueues := (sched_runqueues k)[1 :=
    rotate (\<Sum>i\<leftarrow>[i\<leftarrow>[0..<SCHED_PRIO_LEVELS]. i \<noteq> 1]. length (sched_runqueues k ! i))
      (sched_runqueues k ! 1)]\<rparr>"
  using list_queues_rotate [OF assms] by (simp add: set_runqueue_def)

theorem listing_loop_rotates_queue_1_witness:
  "sched_runqueues (list_queues demo_kernel) ! 1 = [4, 5, 3]"
proof -
  have len: "length (sched_runqueues demo_kernel) = SCHED_PRIO_LEVELS"
    by (simp add: demo_kernel_def kernel_consts)
  have l: "[i\<leftarrow>[0..<SCHED_PRIO_LEVELS]. i \<noteq> 1] = [0, 2, 3, 4, 5, 6, 7, 8, 9, 10, 11, 12, 13, 14, 15]"
    by (simp add: kernel_consts upt_rec)
  have sum: "(\<Sum>i\<leftarrow>[0, 2, 3, 4, 5, 6, 7, 8, 9, 10, 11, 12, 13, 14, 15].
      length (sched_runqueues demo_kernel ! i)) = 1"
    by (simp add: demo_kernel_def)
  have q: "sched_runqueues demo_kernel ! 1 = [3, 4, 5]" by (simp add: demo_kernel_def)
  show ?thesis unfolding listing_loop_rotates_queue_1 [OF len] l sum q
    using len by (simp add: kernel_consts)
qed

text \<open>
  (C34) The rotation breaks the assumption \<open>sched_set_status\<close> makes: after a
  pass that dispatches \<open>t\<close> from a queue with a second thread \<open>u\<close> (and time left for \<open>t\<close>),
  putting the running thread \<open>t\<close> to sleep removes \<open>u\<close> from the run queue, while \<open>t\<close> stays
  queued although it sleeps.
\<close>
theorem sleep_after_sched_run_dequeues_wrong_thread:
  assumes "rr_state idle k" and "sched_runqueues k ! 1 = t # u # q"
    and "distinct (t # u # q)" and "priority (tcb k t) = 1"
    and "500 < s_time (tcb k t)"
  shows "\<exists>k' k''. sched_run True arch k = Some (t, k') \<and> sched_active_thread k' = Some t \<and>
     sched_set_status t STATUS_SLEEPING k' = Some k'' \<and>
     u \<notin> set (sched_runqueues k'' ! 1) \<and> t \<in> set (sched_runqueues k'' ! 1) \<and>
     status (tcb k'' t) = STATUS_SLEEPING"
proof -
  have p: "pick idle (rr_abs k) = t" using assms(2) by (simp add: pick_def rr_abs_def)
  from sched_run_rr [OF assms(1), of arch, unfolded p] obtain k' where
    k': "sched_run True arch k = Some (t, k')" "rr_abs k' = rr_step idle (rr_abs k)" "rr_state idle k'"
      "status (tcb k' t) = STATUS_RUNNING" "priority (tcb k' t) = 1" using assms(4) by auto
  have "spend (rr_abs k) t \<noteq> 0" using assms(5) by (auto simp: spend_def rr_abs_def split: option.splits)
  then have "ready (rr_abs k') = u # q @ [t]" "current (rr_abs k') = Some t"
    using assms(2) by (simp_all add: k'(2) rr_step_def p) (simp add: rr_abs_def)
  then have q': "sched_runqueues k' ! 1 = u # q @ [t]" "sched_active_thread k' = Some t"
    by (simp_all add: rr_abs_def)
  have len: "length (sched_runqueues k') = 16" using k'(3) by (simp add: rr_state_def kernel_consts)
  obtain k'' where k'': "sched_set_status t STATUS_SLEEPING k' = Some k''"
    "sched_runqueues k'' = (sched_runqueues k')[1 := q @ [t]]" "status (tcb k'' t) = STATUS_SLEEPING"
    using k'(4,5) q' len by (auto simp: sched_set_status_def runqueue_def Let_def on_runqueue_iff)
  show ?thesis using k'(1) q'(2) k'' len assms(3) by auto
qed

theorem sleep_after_sched_run_dequeues_wrong_thread_witness:
  "\<exists>k' k''. sched_run True id demo_kernel = Some (3, k') \<and>
     sched_set_status 3 STATUS_SLEEPING k' = Some k'' \<and>
     4 \<notin> set (sched_runqueues k'' ! 1) \<and> 3 \<in> set (sched_runqueues k'' ! 1)"
proof -
  have "sched_runqueues demo_kernel ! 1 = 3 # 4 # [5]" "priority (tcb demo_kernel 3) = 1"
    "500 < s_time (tcb demo_kernel 3)" by (simp_all add: demo_kernel_def)
  from sleep_after_sched_run_dequeues_wrong_thread [OF demo_rr_state this(1) _ this(2,3), of id]
  show ?thesis by (simp, blast)
qed

end
