(* ===== verification/Thread.thy ===== *)
theory Thread
  imports Sched
begin

text \<open>
  Threads (core/thread.c): creation, zombies, sleeping, waking and yielding. Addresses and
  sizes of the stacks, and the size of a control block, are arguments: they belong to the
  linker and the compiler. The block of a new thread is placed at the top of its stack as the
  code computes it, in 32-bit arithmetic.
\<close>

section \<open>Creating threads\<close>

datatype errno = EINVAL | EOVERFLOW

definition THREAD_PRIORITY_MAIN :: nat where
  "THREAD_PRIORITY_MAIN = THREAD_PRIORITY_MIN - SCHED_PRIO_LEVELS div 2"
definition THREAD_CREATE_SLEEPING :: u32 where "THREAD_CREATE_SLEEPING = 1"
definition THREAD_CREATE_WOUT_YIELD :: u32 where "THREAD_CREATE_WOUT_YIELD = 4"
definition THREAD_CREATE_STACKTEST :: u32 where "THREAD_CREATE_STACKTEST = 8"

lemmas create_flags = THREAD_CREATE_SLEEPING_def THREAD_CREATE_WOUT_YIELD_def THREAD_CREATE_STACKTEST_def

text \<open>The address of the control block: aligned stack base plus rounded-down remaining size.\<close>

definition tcb_addr :: "u32 \<Rightarrow> u32 \<Rightarrow> u32 \<Rightarrow> tid" where
  "tcb_addr sizeof_thread_t stack stacksize =
     (let misalignment = stack mod 4;
          (stack, stacksize) =
            (if misalignment \<noteq> 0
             then (stack + (4 - misalignment), stacksize - (4 - misalignment)) else (stack, stacksize));
          stacksize = stacksize - sizeof_thread_t;
          stacksize = stacksize - stacksize mod 4
      in unat (stack + stacksize))"

text \<open>The search for the first free entry of the thread table; \<open>KERNEL_PID_UNDEF\<close> if there is none.\<close>

function free_pid_loop :: "int \<Rightarrow> kernel \<Rightarrow> int option" where
  "free_pid_loop i k =
     (if i \<le> KERNEL_PID_LAST then
        do { slot \<leftarrow> thread_get_unchecked i k;
             if slot = None then Some i else free_pid_loop (i + 1) k }
      else Some KERNEL_PID_UNDEF)"
  by pat_completeness auto
termination by (relation "measure (\<lambda>(i, k). nat (KERNEL_PID_LAST + 1 - i))") auto

declare free_pid_loop.simps [simp del]

text \<open>The initialisation of the control block; its \<open>flags\<close> are left as they are.\<close>

definition init_tcb :: "int \<Rightarrow> int \<Rightarrow> string \<Rightarrow> cib \<Rightarrow> thread \<Rightarrow> thread" where
  "init_tcb p st nm c th =
     th\<lparr>s_time := st, pid := p, tname := nm, priority := (if p = 1 then 15 else 1),
        status := STATUS_STOPPED, wait_data := WNull, msg_waiters := [], msg_queue := c,
        msg_array := None\<rparr>"

definition thread_create ::
  "u32 \<Rightarrow> u32 \<Rightarrow> u32 \<Rightarrow> nat \<Rightarrow> u32 \<Rightarrow> string \<Rightarrow> int \<Rightarrow> kernel \<Rightarrow> ((errno + int) \<times> kernel) option" where
  "thread_create sizeof_thread_t stack stacksize prio flgs nm st k =
     (if prio \<ge> SCHED_PRIO_LEVELS then Some (Inl EINVAL, k)
      else
        do { let thread = tcb_addr sizeof_thread_t stack stacksize;
             let (state, k) = irq_disable k;
             p \<leftarrow> free_pid_loop KERNEL_PID_FIRST k;
             if p = KERNEL_PID_UNDEF then Some (Inl EOVERFLOW, irq_restore state k)
             else
               do { c \<leftarrow> cib_init 0;
                    let k = k\<lparr>sched_threads := (sched_threads k)[nat p := Some thread]\<rparr>;
                    let k = upd_tcb thread (init_tcb p st nm c) k;
                    let k = k\<lparr>sched_num_threads := sched_num_threads k + 1\<rparr>;
                    if flgs AND THREAD_CREATE_SLEEPING \<noteq> 0 then
                      do { k \<leftarrow> sched_set_status thread STATUS_SLEEPING k;
                           Some (Inr p, irq_restore state k) }
                    else
                      do { k \<leftarrow> sched_set_status thread STATUS_PENDING k;
                           let k = irq_restore state k;
                           if flgs AND THREAD_CREATE_WOUT_YIELD = 0
                           then do { k \<leftarrow> sched_switch prio k; Some (Inr p, k) }
                           else Some (Inr p, k) } } })"

section \<open>Sleeping, waking, ending\<close>

definition thread_zombify :: "kernel \<Rightarrow> kernel option" where
  "thread_zombify k =
     (if irq_in k then Some k
      else do { let (st, k) = irq_disable k;
                t \<leftarrow> thread_get_active k;
                k \<leftarrow> sched_set_status t STATUS_ZOMBIE k;
                Some (thread_yield_higher (irq_enable k)) })"

text \<open>True for the return value 1, False for \<open>STATUS_NOT_FOUND\<close>; likewise in \<open>thread_wakeup\<close>.\<close>

definition thread_kill_zombie :: "int \<Rightarrow> kernel \<Rightarrow> (bool \<times> kernel) option" where
  "thread_kill_zombie p k =
     do { let (state, k) = irq_disable k;
          th \<leftarrow> thread_get p k;
          case th of
            None \<Rightarrow> Some (False, irq_restore state k)
          | Some t \<Rightarrow>
              if status (tcb k t) = STATUS_ZOMBIE then
                do { let k = k\<lparr>sched_threads := (sched_threads k)[nat p := None],
                               sched_num_threads := sched_num_threads k - 1\<rparr>;
                     k \<leftarrow> sched_set_status t STATUS_STOPPED k;
                     Some (True, irq_restore state k) }
              else Some (False, irq_restore state k) }"

definition thread_sleep :: "kernel \<Rightarrow> kernel option" where
  "thread_sleep k =
     (if irq_in k then Some k
      else do { let (state, k) = irq_disable k;
                t \<leftarrow> thread_get_active k;
                k \<leftarrow> sched_set_status t STATUS_SLEEPING k;
                Some (thread_yield_higher (irq_restore state k)) })"

definition thread_wakeup :: "int \<Rightarrow> kernel \<Rightarrow> (bool \<times> kernel) option" where
  "thread_wakeup p k =
     do { let (old_state, k) = irq_disable k;
          th \<leftarrow> thread_get p k;
          case th of
            None \<Rightarrow> Some (False, irq_restore old_state k)
          | Some t \<Rightarrow>
              if status (tcb k t) = STATUS_SLEEPING then
                do { k \<leftarrow> sched_set_status t STATUS_RUNNING k;
                     k \<leftarrow> sched_switch (priority (tcb k t)) (irq_restore old_state k);
                     Some (True, k) }
              else Some (False, irq_restore old_state k) }"

definition thread_yield :: "kernel \<Rightarrow> kernel option" where
  "thread_yield k =
     do { let (old_state, k) = irq_disable k;
          me \<leftarrow> thread_get_active k;
          k \<leftarrow> (if on_runqueue (status (tcb k me)) then
                 do { q \<leftarrow> runqueue (priority (tcb k me)) k;
                      Some (set_runqueue (priority (tcb k me)) (rotate1 q) k) }
               else Some k);
          Some (thread_yield_higher (irq_restore old_state k)) }"

section \<open>The thread table\<close>

text \<open>
  Entry \<open>p\<close> of the table, where occupied, is the block of the thread with identifier \<open>p\<close>,
  entry 0 is never used, and the counter counts the occupied entries.
\<close>

definition tt_inv :: "kernel \<Rightarrow> bool" where
  "tt_inv k \<longleftrightarrow> length (sched_threads k) = 33 \<and> sched_threads k ! 0 = None \<and>
     (\<forall>i<33. \<forall>t. sched_threads k ! i = Some t \<longrightarrow> pid (tcb k t) = int i) \<and>
     sched_num_threads k = int (length (filter (\<lambda>x. x \<noteq> None) (sched_threads k)))"

lemma length_filter_update:
  "i < length xs \<Longrightarrow> length (filter P (xs[i := x])) + (if P (xs ! i) then 1 else 0) =
     length (filter P xs) + (if P x then 1 else 0)"
proof (induction xs arbitrary: i)
  case (Cons a xs)
  then show ?case by (cases i) auto
qed simp

lemma filter_occupied_pos:
  "i < length xs \<Longrightarrow> xs ! i = Some t \<Longrightarrow> 0 < length (filter (\<lambda>x. x \<noteq> None) xs)"
  by (metis (mono_tags, lifting) filter_empty_conv length_greater_0_conv nth_mem option.distinct(1))

lemma free_pid_loop_spec:
  assumes "length (sched_threads k) = 33" "0 \<le> i"
  shows "\<exists>p. free_pid_loop i k = Some p \<and>
    (p = 0 \<and> (\<forall>j. i \<le> j \<and> j \<le> 32 \<longrightarrow> sched_threads k ! nat j \<noteq> None) \<or>
     i \<le> p \<and> p \<le> 32 \<and> sched_threads k ! nat p = None \<and>
       (\<forall>j. i \<le> j \<and> j < p \<longrightarrow> sched_threads k ! nat j \<noteq> None))"
  using assms
proof (induction i k rule: free_pid_loop.induct)
  case (1 i k)
  show ?case
  proof (cases "i \<le> 32 \<and> sched_threads k ! nat i \<noteq> None")
    case True
    then have get: "thread_get_unchecked i k = Some (sched_threads k ! nat i)"
      using 1(2,3) by (auto simp: thread_get_unchecked_def nat_less_iff)
    then have eq: "free_pid_loop i k = free_pid_loop (i + 1) k"
      using True by (subst free_pid_loop.simps) (auto simp: kernel_consts)
    have "\<exists>p. free_pid_loop (i + 1) k = Some p \<and>
      (p = 0 \<and> (\<forall>j. i + 1 \<le> j \<and> j \<le> 32 \<longrightarrow> sched_threads k ! nat j \<noteq> None) \<or>
       i + 1 \<le> p \<and> p \<le> 32 \<and> sched_threads k ! nat p = None \<and>
         (\<forall>j. i + 1 \<le> j \<and> j < p \<longrightarrow> sched_threads k ! nat j \<noteq> None))"
      using 1 True get by (intro "1.IH") (auto simp: kernel_consts)
    then show ?thesis unfolding eq using True by (smt (verit, del_insts))
  next
    case False
    then have "free_pid_loop i k = Some (if i \<le> 32 then i else 0)"
      using 1(2,3) by (subst free_pid_loop.simps) (auto simp: kernel_consts thread_get_unchecked_def nat_less_iff)
    with False show ?thesis by auto
  qed
qed

lemma free_pid_loop_cong:
  "sched_threads k = sched_threads k' \<Longrightarrow> free_pid_loop i k = free_pid_loop i k'"
proof (induction i k arbitrary: k' rule: free_pid_loop.induct)
  case (1 i k)
  show ?case
    by (subst (1 2) free_pid_loop.simps) (use 1 in \<open>auto simp: thread_get_unchecked_def\<close>)
qed

lemma sched_switch_some:
  assumes "sched_active_thread k = Some a"
  shows "\<exists>k'. sched_switch pr k = Some k' \<and> (k' = k \<or> k' = k\<lparr>pendsv := True\<rparr> \<or>
    k' = k\<lparr>sched_context_switch_request := True\<rparr>)"
  using assms by (auto simp: sched_switch_def thread_get_active_def thread_yield_higher_def Let_def)

abbreviation zero_cib :: cib where
  "zero_cib \<equiv> \<lparr>read_count = 0, write_count = 0, cmask = - 1\<rparr>"

text \<open>What a successful creation does to each part of the state.\<close>

lemma thread_create_ok:
  assumes "prio < SCHED_PRIO_LEVELS" "length (sched_runqueues k) = SCHED_PRIO_LEVELS"
    "free_pid_loop KERNEL_PID_FIRST k = Some p" "p \<noteq> 0"
    "sched_active_thread k \<noteq> None \<or> flgs AND THREAD_CREATE_WOUT_YIELD \<noteq> 0"
    and t: "t = tcb_addr sz stack ss"
    and sl: "sl = (flgs AND THREAD_CREATE_SLEEPING \<noteq> 0)" and q: "q = (if p = 1 then 15 else 1)"
  shows "\<exists>k'. thread_create sz stack ss prio flgs nm st k = Some (Inr p, k') \<and>
    sched_threads k' = (sched_threads k)[nat p := Some t] \<and>
    sched_num_threads k' = sched_num_threads k + 1 \<and>
    tcb k' = (tcb k)(t := (init_tcb p st nm zero_cib (tcb k t))
      \<lparr>status := (if sl then STATUS_SLEEPING else STATUS_PENDING)\<rparr>) \<and>
    sched_runqueues k' = (if sl then sched_runqueues k
      else (sched_runqueues k)[q := sched_runqueues k ! q @ [t]]) \<and>
    runqueue_bitcache k' = (if sl then runqueue_bitcache k else runqueue_bitcache k OR 2 ^ q) \<and>
    sched_active_thread k' = sched_active_thread k \<and> sched_active_pid k' = sched_active_pid k \<and>
    irq_enabled k' = irq_enabled k \<and> irq_in k' = irq_in k \<and> run_timer k' = run_timer k"
proof -
  define k1 where "k1 = upd_tcb t (init_tcb p st nm zero_cib)
     (k\<lparr>irq_enabled := False, sched_threads := (sched_threads k)[nat p := Some t]\<rparr>)
     \<lparr>sched_num_threads := sched_num_threads k + 1\<rparr>"
  have k1: "\<not> on_runqueue (status (tcb k1 t))" "priority (tcb k1 t) = q"
    "sched_runqueues k1 = sched_runqueues k" "runqueue_bitcache k1 = runqueue_bitcache k"
    using q by (simp_all add: k1_def init_tcb_def on_runqueue_iff)
  have q16: "q < length (sched_runqueues k)" using q assms(2) by (simp add: kernel_consts)
  define k2 where "k2 = (if sl then upd_tcb t (status_update (\<lambda>_. STATUS_SLEEPING)) k1
    else upd_tcb t (status_update (\<lambda>_. STATUS_PENDING))
      (set_runqueue_bit t (set_runqueue q (sched_runqueues k ! q @ [t]) k1)))"
  have set: "sched_set_status t (if sl then STATUS_SLEEPING else STATUS_PENDING) k1 = Some k2"
    using k1 q16 by (auto simp: k2_def sched_set_status_wake sched_set_status_off on_runqueue_iff)
  define k3 where "k3 = irq_restore (irq_enabled k) k2"
  have free: "free_pid_loop KERNEL_PID_FIRST (k\<lparr>irq_enabled := False\<rparr>) = Some p"
    using assms(3) free_pid_loop_cong [of "k\<lparr>irq_enabled := False\<rparr>" k] by simp
  have act: "sched_active_thread k3 = sched_active_thread k"
    by (simp add: k3_def k2_def k1_def irq_restore_def)
  obtain k' where k': "thread_create sz stack ss prio flgs nm st k = Some (Inr p, k')"
    "k' = k3 \<or> k' = k3\<lparr>pendsv := True\<rparr> \<or> k' = k3\<lparr>sched_context_switch_request := True\<rparr>"
  proof (cases "sl \<or> flgs AND THREAD_CREATE_WOUT_YIELD \<noteq> 0")
    case True
    with assms(1,4) free set sl that [of k3] show ?thesis
      by (auto simp: thread_create_def t [symmetric] irq_disable_def cib_init_def Let_def k3_def
          k1_def [symmetric] KERNEL_PID_UNDEF_def split: if_splits)
  next
    case False
    then obtain a where "sched_active_thread k3 = Some a" using assms(5) act by auto
    from sched_switch_some [OF this, of prio] obtain k4 where k4: "sched_switch prio k3 = Some k4"
      "k4 = k3 \<or> k4 = k3\<lparr>pendsv := True\<rparr> \<or> k4 = k3\<lparr>sched_context_switch_request := True\<rparr>" by blast
    have "thread_create sz stack ss prio flgs nm st k = Some (Inr p, k4)"
      using False assms(1,4) free set sl k4(1)
      by (simp add: thread_create_def t [symmetric] irq_disable_def cib_init_def Let_def k3_def
          k1_def [symmetric] KERNEL_PID_UNDEF_def)
    with k4(2) that show ?thesis by blast
  qed
  have "sched_threads k3 = (sched_threads k)[nat p := Some t]" "sched_num_threads k3 = sched_num_threads k + 1"
    "tcb k3 = (tcb k)(t := (init_tcb p st nm zero_cib (tcb k t))
      \<lparr>status := (if sl then STATUS_SLEEPING else STATUS_PENDING)\<rparr>)"
    "sched_runqueues k3 = (if sl then sched_runqueues k
      else (sched_runqueues k)[q := sched_runqueues k ! q @ [t]])"
    "runqueue_bitcache k3 = (if sl then runqueue_bitcache k else runqueue_bitcache k OR 2 ^ q)"
    "sched_active_pid k3 = sched_active_pid k" "irq_enabled k3 = irq_enabled k" "irq_in k3 = irq_in k"
    "run_timer k3 = run_timer k"
    using q by (auto simp: k3_def k2_def k1_def irq_restore_def init_tcb_def)
  with act k' show ?thesis by (intro exI [of _ k']) auto
qed

lemma tt_inv_register:
  assumes "tt_inv k" "1 \<le> p" "p \<le> 32" "sched_threads k ! nat p = None" "Some t \<notin> set (sched_threads k)"
    "sched_threads k' = (sched_threads k)[nat p := Some t]"
    "sched_num_threads k' = sched_num_threads k + 1" "tcb k' = (tcb k)(t := th)" "pid th = p"
  shows "tt_inv k'"
proof -
  have np: "nat p < length (sched_threads k)" "nat p \<noteq> 0" using assms(1-3) by (auto simp: tt_inv_def)
  have "pid (tcb k' x) = int i" if "i < 33" "sched_threads k' ! i = Some x" for i x
    using assms that by (cases "i = nat p"; cases "x = t") (auto simp: tt_inv_def in_set_conv_nth)
  moreover have "sched_num_threads k' = int (length (filter (\<lambda>x. x \<noteq> None) (sched_threads k')))"
    using length_filter_update [OF np(1), of "\<lambda>x. x \<noteq> None" "Some t"] assms by (simp add: tt_inv_def)
  ultimately show ?thesis using assms(1,6) np by (simp add: tt_inv_def)
qed

lemma tt_inv_unregister:
  assumes "tt_inv k" "1 \<le> p" "p \<le> 32" "sched_threads k ! nat p = Some t"
    "sched_threads k' = (sched_threads k)[nat p := None]"
    "sched_num_threads k' = sched_num_threads k - 1" "\<And>x. pid (tcb k' x) = pid (tcb k x)"
  shows "tt_inv k'"
proof -
  have np: "nat p < length (sched_threads k)" "nat p \<noteq> 0" using assms(1-3) by (auto simp: tt_inv_def)
  have "pid (tcb k' x) = int i" if "i < 33" "sched_threads k' ! i = Some x" for i x
    using assms(1,5,7) that np by (cases "i = nat p") (auto simp: tt_inv_def)
  moreover have "sched_num_threads k' = int (length (filter (\<lambda>x. x \<noteq> None) (sched_threads k')))"
    using length_filter_update [OF np(1), of "\<lambda>x. x \<noteq> None" None] assms
    by (simp add: tt_inv_def)
  ultimately show ?thesis using assms(1,5) np by (simp add: tt_inv_def)
qed

lemma rq_inv_fresh:
  assumes "rq_inv k" "\<And>q. q < SCHED_PRIO_LEVELS \<Longrightarrow> t \<notin> set (sched_runqueues k ! q)"
    "sched_runqueues k' = sched_runqueues k" "runqueue_bitcache k' = runqueue_bitcache k"
    "tcb k' = (tcb k)(t := th)" "\<not> on_runqueue (status th)"
  shows "rq_inv k'"
proof (rule rq_invI)
  note d = rq_invD [OF assms(1)]
  show "x \<in> set (sched_runqueues k' ! q) \<longleftrightarrow> on_runqueue (status (tcb k' x)) \<and> priority (tcb k' x) = q"
    if "q < SCHED_PRIO_LEVELS" for x q
    using assms(2) [OF that] assms(3,5,6) d(3) [OF that] by (cases "x = t") auto
qed (use rq_invD [OF assms(1)] assms(3,4) in auto)

lemma rq_inv_enqueue:
  assumes "rq_inv k" "t \<notin> set (sched_runqueues k ! q)" "q < SCHED_PRIO_LEVELS"
    "\<And>p. p < SCHED_PRIO_LEVELS \<Longrightarrow> t \<notin> set (sched_runqueues k ! p)"
    "sched_runqueues k' = (sched_runqueues k)[q := sched_runqueues k ! q @ [t]]"
    "runqueue_bitcache k' = runqueue_bitcache k OR 2 ^ q" "tcb k' = (tcb k)(t := th)"
    "on_runqueue (status th)" "priority th = q"
  shows "rq_inv k'"
proof (rule rq_invI)
  note d = rq_invD [OF assms(1)]
  have q32: "q < 32" using assms(3) by (simp add: kernel_consts)
  show "length (sched_runqueues k') = SCHED_PRIO_LEVELS" using d(1) assms(5) by simp
  show "distinct (sched_runqueues k' ! p)" if "p < SCHED_PRIO_LEVELS" for p
    using d(1) d(2) [OF that] assms(2,5) that by (cases "p = q") simp_all
  show "x \<in> set (sched_runqueues k' ! p) \<longleftrightarrow> on_runqueue (status (tcb k' x)) \<and> priority (tcb k' x) = p"
    if "p < SCHED_PRIO_LEVELS" for x p
    using d(1) d(3) [OF that] assms(4) [OF that] assms(3,5,7-9) that
    by (cases "p = q"; cases "x = t") auto
  show "bit (runqueue_bitcache k') p \<longleftrightarrow> p < SCHED_PRIO_LEVELS \<and> sched_runqueues k' ! p \<noteq> []" for p
    using d(1) d(4) [of p] assms(3,5,6) q32 by (cases "p = q") (simp_all add: bit_set_prio)
qed

section \<open>Properties\<close>

text \<open>
  \<open>thread_create\<close> rejects a priority outside the table with \<open>-EINVAL\<close>, and
  with a full thread table returns \<open>-EOVERFLOW\<close>; in both cases the kernel state, interrupt
  state included, is unchanged.
\<close>
theorem thread_create_errors:
  assumes "length (sched_threads k) = 33"
  shows "(prio \<ge> SCHED_PRIO_LEVELS \<longrightarrow> thread_create sz stack ss prio flgs nm st k = Some (Inl EINVAL, k)) \<and>
    (prio < SCHED_PRIO_LEVELS \<and> (\<forall>i. 1 \<le> i \<and> i \<le> 32 \<longrightarrow> sched_threads k ! nat i \<noteq> None) \<longrightarrow>
       thread_create sz stack ss prio flgs nm st k = Some (Inl EOVERFLOW, k))"
proof -
  have "free_pid_loop 1 (k\<lparr>irq_enabled := False\<rparr>) = Some 0"
    if "\<forall>i. 1 \<le> i \<and> i \<le> 32 \<longrightarrow> sched_threads k ! nat i \<noteq> None"
    using free_pid_loop_spec [of "k\<lparr>irq_enabled := False\<rparr>" 1] assms that by auto
  then show ?thesis
    by (auto simp: thread_create_def irq_disable_def irq_restore_def Let_def KERNEL_PID_FIRST_def
        KERNEL_PID_UNDEF_def)
qed

theorem thread_create_errors_witness:
  "thread_create 64 0x20000000 1024 16 0 ''x'' 10 boot_kernel = Some (Inl EINVAL, boot_kernel) \<and>
   thread_create 64 0x20000000 1024 7 0 ''x'' 10 (boot_kernel\<lparr>sched_threads := None # replicate 32 (Some 9)\<rparr>)
     = Some (Inl EOVERFLOW, boot_kernel\<lparr>sched_threads := None # replicate 32 (Some 9)\<rparr>)"
  using thread_create_errors [of boot_kernel 16 64 "0x20000000" 1024 0 "''x''" 10]
    thread_create_errors [of "boot_kernel\<lparr>sched_threads := None # replicate 32 (Some 9)\<rparr>" 7 64
      "0x20000000" 1024 0 "''x''" 10]
  by (auto simp: boot_kernel_def kernel_consts nth_Cons')

text \<open>
  (C7) \<open>thread_create\<close> with a valid priority and a free slot registers the new thread
  under the lowest free identifier, keeps the thread table and the run queues consistent, and
  gives the thread the requested service time and the priority this scheduler uses (15 for
  identifier 1, otherwise 1, whatever priority was asked for); it is ready unless it was
  created sleeping. No message queue, message or sender is attached to it, but its thread flags
  are what the memory of the control block held before.
\<close>
theorem thread_create_registers:
  assumes "tt_inv k" and "rq_inv k" and "prio < SCHED_PRIO_LEVELS"
    and "1 \<le> p" and "p \<le> 32" and "sched_threads k ! nat p = None"
    and "\<forall>i. 1 \<le> i \<and> i < p \<longrightarrow> sched_threads k ! nat i \<noteq> None"
    and "sched_active_thread k \<noteq> None \<or> flgs AND THREAD_CREATE_WOUT_YIELD \<noteq> 0"
    and "t = tcb_addr sz stack ss" and "Some t \<notin> set (sched_threads k)"
    and "\<forall>q<SCHED_PRIO_LEVELS. t \<notin> set (sched_runqueues k ! q)"
  shows "\<exists>k'. thread_create sz stack ss prio flgs nm st k = Some (Inr p, k') \<and> tt_inv k' \<and> rq_inv k' \<and>
     thread_get p k' = Some (Some t) \<and> s_time (tcb k' t) = st \<and>
     priority (tcb k' t) = (if p = 1 then 15 else 1) \<and>
     status (tcb k' t) = (if flgs AND THREAD_CREATE_SLEEPING \<noteq> 0 then STATUS_SLEEPING else STATUS_PENDING) \<and>
     wait_data (tcb k' t) = WNull \<and> msg_waiters (tcb k' t) = [] \<and> msg_array (tcb k' t) = None \<and>
     flags (tcb k' t) = flags (tcb k t) \<and> sched_num_threads k' = sched_num_threads k + 1"
proof -
  let ?q = "if p = 1 then 15 else 1 :: nat" and ?sl = "flgs AND THREAD_CREATE_SLEEPING \<noteq> 0"
  let ?th = "(init_tcb p st nm zero_cib (tcb k t))\<lparr>status := (if ?sl then STATUS_SLEEPING else STATUS_PENDING)\<rparr>"
  have len: "length (sched_threads k) = 33" using assms(1) by (simp add: tt_inv_def)
  have "free_pid_loop KERNEL_PID_FIRST k = Some p"
    using free_pid_loop_spec [OF len, of 1] assms(4-7) by (force simp: kernel_consts)
  from thread_create_ok [OF assms(3) rq_invD(1) [OF assms(2)] this _ assms(8) assms(9) refl refl, of nm st]
  obtain k' where k': "thread_create sz stack ss prio flgs nm st k = Some (Inr p, k')"
    "sched_threads k' = (sched_threads k)[nat p := Some t]" "sched_num_threads k' = sched_num_threads k + 1"
    "tcb k' = (tcb k)(t := ?th)"
    "sched_runqueues k' = (if ?sl then sched_runqueues k
      else (sched_runqueues k)[?q := sched_runqueues k ! ?q @ [t]])"
    "runqueue_bitcache k' = (if ?sl then runqueue_bitcache k else runqueue_bitcache k OR 2 ^ ?q)"
    using assms(4) by auto
  have th: "pid ?th = p" "s_time ?th = st" "priority ?th = ?q"
    "status ?th = (if ?sl then STATUS_SLEEPING else STATUS_PENDING)" "wait_data ?th = WNull" "msg_waiters ?th = []"
    "msg_array ?th = None" "flags ?th = flags (tcb k t)" by (simp_all add: init_tcb_def)
  have tt: "tt_inv k'" by (rule tt_inv_register [OF assms(1,4-6,10) k'(2-4) th(1)])
  have q: "?q < SCHED_PRIO_LEVELS" by (simp add: kernel_consts)
  have rq: "rq_inv k'"
  proof (cases ?sl)
    case True
    then show ?thesis
      using k' th by (intro rq_inv_fresh [OF assms(2) _ _ _ k'(4)]) (use assms(11) in \<open>auto simp: on_runqueue_iff\<close>)
  next
    case False
    then show ?thesis
      using k' th q by (intro rq_inv_enqueue [OF assms(2) _ q _ _ _ k'(4)])
        (use assms(11) in \<open>auto simp: on_runqueue_iff\<close>)
  qed
  have "thread_get p k' = Some (Some t)"
    using assms(4,5) k'(2) len by (simp add: thread_get_def pid_is_valid_def thread_get_unchecked_def kernel_consts nat_less_iff)
  with k'(1,3,4) tt rq th show ?thesis by auto
qed

lemma boot_kernel_tt_inv: "tt_inv boot_kernel"
  by (auto simp: tt_inv_def boot_kernel_def)

theorem thread_create_registers_witness:
  "\<exists>k'. thread_create 64 0x20000000 1024 15 4 ''idle'' 0 boot_kernel = Some (Inr 1, k') \<and>
     thread_get 1 k' = Some (Some (tcb_addr 64 0x20000000 1024)) \<and>
     priority (tcb k' (tcb_addr 64 0x20000000 1024)) = 15 \<and> tt_inv k' \<and> rq_inv k'"
proof -
  have h: "Some (tcb_addr 64 0x20000000 1024) \<notin> set (sched_threads boot_kernel)"
    "\<forall>q<SCHED_PRIO_LEVELS. tcb_addr 64 0x20000000 1024 \<notin> set (sched_runqueues boot_kernel ! q)"
    "sched_threads boot_kernel ! nat 1 = None" "(4::u32) AND THREAD_CREATE_WOUT_YIELD \<noteq> 0"
    by (simp_all add: boot_kernel_def kernel_consts create_flags)
  have "\<forall>i::int. 1 \<le> i \<and> i < 1 \<longrightarrow> sched_threads boot_kernel ! nat i \<noteq> None"
    by (meson linorder_not_le)
  from thread_create_registers [OF boot_kernel_tt_inv boot_kernel_rq_inv _ _ _ h(3) this disjI2 [OF h(4)] refl h(1,2),
      of 15 "''idle''" 0]
  show ?thesis by (force simp: kernel_consts)
qed

text \<open>
  \<open>thread_wakeup\<close> of a registered thread: a sleeping one becomes ready at the end
  of its run queue, the run queues stay consistent, and the scheduler is asked to run (by
  PendSV, or from an interrupt by the switch request) exactly when the active thread is no
  longer ready or less urgent; a thread that does not sleep is left alone and the state is
  unchanged.
\<close>
theorem thread_wakeup_outcome:
  assumes "tt_inv k" and "rq_inv k" and "1 \<le> p" and "p \<le> 32" and "sched_threads k ! nat p = Some t"
    and "priority (tcb k t) < SCHED_PRIO_LEVELS" and "sched_active_thread k = Some a" and "a \<noteq> t"
  shows "if status (tcb k t) = STATUS_SLEEPING then
      (let preempt = (\<not> on_runqueue (status (tcb k a)) \<or> priority (tcb k t) < priority (tcb k a))
       in \<exists>k'. thread_wakeup p k = Some (True, k') \<and> rq_inv k' \<and> tt_inv k' \<and>
        sched_runqueues k' ! priority (tcb k t) = sched_runqueues k ! priority (tcb k t) @ [t] \<and>
        status (tcb k' t) = STATUS_RUNNING \<and>
        (pendsv k' \<longleftrightarrow> pendsv k \<or> preempt \<and> \<not> irq_in k) \<and>
        (sched_context_switch_request k' \<longleftrightarrow> sched_context_switch_request k \<or> preempt \<and> irq_in k))
    else thread_wakeup p k = Some (False, k)"
proof -
  have get: "thread_get p k1 = Some (Some t)" if "sched_threads k1 = sched_threads k" for k1
    using assms(1,3-5) that
    by (simp add: thread_get_def pid_is_valid_def thread_get_unchecked_def kernel_consts nat_less_iff tt_inv_def)
  show ?thesis
  proof (cases "status (tcb k t) = STATUS_SLEEPING")
    case False
    then show ?thesis
      by (simp add: thread_wakeup_def irq_disable_def irq_restore_def Let_def get)
  next
    case True
    let ?k0 = "k\<lparr>irq_enabled := False\<rparr>" and ?p = "priority (tcb k t)"
    have off: "\<not> on_runqueue (status (tcb k t))" and on: "on_runqueue STATUS_RUNNING"
      using True by (simp_all add: on_runqueue_iff)
    have rq0: "rq_inv ?k0" using assms(2) by (simp add: rq_inv_def)
    have len: "?p < length (sched_runqueues k)" using assms(6) rq_invD(1) [OF assms(2)] by simp
    define k1 where "k1 = upd_tcb t (status_update (\<lambda>_. STATUS_RUNNING))
      (set_runqueue_bit t (set_runqueue ?p (sched_runqueues k ! ?p @ [t]) ?k0))"
    have set: "sched_set_status t STATUS_RUNNING ?k0 = Some k1"
      using off on len by (simp add: k1_def sched_set_status_wake)
    have rq1: "rq_inv k1" using rq_inv_wake [OF rq0 _ on _ set] off assms(6) by simp
    let ?pre = "\<not> on_runqueue (status (tcb k a)) \<or> ?p < priority (tcb k a)"
    let ?k2 = "irq_restore (irq_enabled k) k1"
    define k3 where "k3 = (if ?pre then (if irq_in k then ?k2\<lparr>sched_context_switch_request := True\<rparr>
      else ?k2\<lparr>pendsv := True\<rparr>) else ?k2)"
    have "sched_switch ?p ?k2 = Some k3"
      using assms(7,8) by (auto simp: k3_def sched_switch_def thread_get_active_def thread_yield_higher_def
          irq_restore_def k1_def)
    then have run: "thread_wakeup p k = Some (True, k3)"
      using True set by (simp add: thread_wakeup_def irq_disable_def Let_def get) (simp add: k1_def)
    have "rq_inv k3" using rq1 by (simp add: k3_def rq_inv_def irq_restore_def)
    moreover have "tt_inv k3" using assms(1) by (simp add: k3_def tt_inv_def irq_restore_def k1_def)
    moreover have "sched_runqueues k3 ! ?p = sched_runqueues k ! ?p @ [t]"
      "status (tcb k3 t) = STATUS_RUNNING" "pendsv k3 \<longleftrightarrow> pendsv k \<or> ?pre \<and> \<not> irq_in k"
      "sched_context_switch_request k3 \<longleftrightarrow> sched_context_switch_request k \<or> ?pre \<and> irq_in k"
      using len by (simp_all add: k3_def irq_restore_def k1_def)
    ultimately show ?thesis unfolding if_P [OF True] Let_def using run by blast
  qed
qed

text \<open>Two threads: 7 (main, running) and 9 (asleep).\<close>

definition two_threads :: kernel where
  "two_threads = boot_kernel\<lparr>sched_threads := [None, Some 7, Some 9] @ replicate 30 None,
     sched_num_threads := 2, sched_active_thread := Some 7, sched_active_pid := 1,
     sched_runqueues := (replicate 16 [])[7 := [7]], runqueue_bitcache := 128,
     tcb := (\<lambda>t. blank_thread)(7 := blank_thread\<lparr>status := STATUS_RUNNING, priority := 7, pid := 1\<rparr>,
                               9 := blank_thread\<lparr>status := STATUS_SLEEPING, priority := 3, pid := 2\<rparr>)\<rparr>"

lemma two_threads_tt_inv: "tt_inv two_threads"
proof -
  have "i = 1 \<and> t = 7 \<or> i = 2 \<and> t = 9" if "i < 33" "([None, Some 7, Some 9] @ replicate 30 None) ! i = Some t" for i and t :: tid
  proof -
    from that(1) consider "i = 0" | "i = 1" | "i = 2" | "3 \<le> i" by linarith
    then show ?thesis using that by cases (auto simp: nth_append)
  qed
  then show ?thesis by (fastforce simp: tt_inv_def two_threads_def)
qed

lemma two_threads_rq_inv: "rq_inv two_threads"
proof (rule rq_invI)
  have cache: "runqueue_bitcache two_threads = 2 ^ 7" by (simp add: two_threads_def)
  have nth: "sched_runqueues two_threads ! p = (if p = 7 then [7] else [])" if "p < 16" for p
    using that by (simp add: two_threads_def)
  show "bit (runqueue_bitcache two_threads) p \<longleftrightarrow> p < SCHED_PRIO_LEVELS \<and> sched_runqueues two_threads ! p \<noteq> []" for p
    unfolding cache bit_exp_iff using nth [of p] by (auto simp: kernel_consts split: if_splits)
  show "distinct (sched_runqueues two_threads ! p)" if "p < SCHED_PRIO_LEVELS" for p
    using nth [of p] that by (simp add: kernel_consts)
  show "t \<in> set (sched_runqueues two_threads ! p) \<longleftrightarrow>
      on_runqueue (status (tcb two_threads t)) \<and> priority (tcb two_threads t) = p" if "p < SCHED_PRIO_LEVELS" for p t
    using nth [of p] that by (auto simp: kernel_consts two_threads_def on_runqueue_iff blank_thread_def)
qed (simp add: two_threads_def kernel_consts)

theorem thread_wakeup_outcome_witness:
  "\<exists>k'. thread_wakeup 2 two_threads = Some (True, k') \<and> sched_runqueues k' ! 3 = [9] \<and> pendsv k'"
proof -
  have "sched_threads two_threads ! nat 2 = Some 9" "priority (tcb two_threads 9) < SCHED_PRIO_LEVELS"
    "sched_active_thread two_threads = Some 7" by (simp_all add: two_threads_def kernel_consts)
  from thread_wakeup_outcome [OF two_threads_tt_inv two_threads_rq_inv _ _ this]
  show ?thesis by (auto simp: two_threads_def boot_kernel_def Let_def)
qed

text \<open>
  The thread table stays consistent when threads end: \<open>sched_task_exit\<close> of the active
  thread and \<open>thread_kill_zombie\<close> of a zombie free the entry of exactly that thread and
  lower the thread count with it; killing a thread that is no zombie changes nothing.
\<close>
theorem thread_table_on_exit:
  assumes "tt_inv k" and "length (sched_runqueues k) = SCHED_PRIO_LEVELS"
    and "1 \<le> p" and "p \<le> 32" and "sched_threads k ! nat p = Some t" and "priority (tcb k t) < SCHED_PRIO_LEVELS"
  shows "(sched_active_thread k = Some t \<and> sched_active_pid k = p \<longrightarrow>
      (\<exists>k'. sched_task_exit k = Some k' \<and> tt_inv k' \<and> sched_threads k' = (sched_threads k)[nat p := None] \<and>
         status (tcb k' t) = STATUS_STOPPED \<and> sched_active_thread k' = None \<and> pendsv k' \<and> irq_enabled k')) \<and>
    (if status (tcb k t) = STATUS_ZOMBIE
     then \<exists>k'. thread_kill_zombie p k = Some (True, k') \<and> tt_inv k' \<and>
       sched_threads k' = (sched_threads k)[nat p := None] \<and> status (tcb k' t) = STATUS_STOPPED \<and>
       irq_enabled k' = irq_enabled k
     else thread_kill_zombie p k = Some (False, k))"
proof -
  have get: "thread_get_unchecked p k1 = Some (Some t)" if "sched_threads k1 = sched_threads k" for k1
    using assms(1,3-5) that by (simp add: thread_get_unchecked_def nat_less_iff tt_inv_def)
  have get': "thread_get p k1 = Some (Some t)" if "sched_threads k1 = sched_threads k" for k1
    using get [OF that] assms(3,4) by (simp add: thread_get_def pid_is_valid_def kernel_consts)
  let ?k1 = "k\<lparr>irq_enabled := False, sched_threads := (sched_threads k)[nat p := None],
    sched_num_threads := sched_num_threads k - 1\<rparr>"
  obtain k2 where k2: "sched_set_status t STATUS_STOPPED ?k1 = Some k2"
    using assms(2,6) sched_set_status_total [of ?k1 t STATUS_STOPPED] by auto
  note f = sched_set_status_frame [OF k2]
  have tt: "tt_inv k'" if "sched_threads k' = sched_threads k2" "sched_num_threads k' = sched_num_threads k2"
    "tcb k' = tcb k2" for k'
    by (rule tt_inv_unregister [OF assms(1,3-5)]) (auto simp: that f)
  have "sched_task_exit k = Some (cpu_switch_context_exit (k2\<lparr>sched_active_thread := None\<rparr>))"
    if "sched_active_thread k = Some t" "sched_active_pid k = p"
    using that k2 get by (simp add: sched_task_exit_def irq_disable_def thread_getpid_def thread_get_active_def Let_def)
  moreover have "thread_kill_zombie p k = Some (True, irq_restore (irq_enabled k) k2)"
    if "status (tcb k t) = STATUS_ZOMBIE"
    using that k2 get' by (simp add: thread_kill_zombie_def irq_disable_def Let_def)
  moreover have "thread_kill_zombie p k = Some (False, k)" if "status (tcb k t) \<noteq> STATUS_ZOMBIE"
    using that get' by (simp add: thread_kill_zombie_def irq_disable_def irq_restore_def Let_def)
  moreover have "tt_inv (cpu_switch_context_exit (k2\<lparr>sched_active_thread := None\<rparr>))"
    "tt_inv (irq_restore (irq_enabled k) k2)"
    by (rule tt; simp add: cpu_switch_context_exit_def irq_enable_def irq_restore_def)+
  ultimately show ?thesis
    by (simp add: f cpu_switch_context_exit_def irq_enable_def irq_restore_def)
qed

theorem thread_table_on_exit_witness:
  "\<exists>k'. sched_task_exit two_threads = Some k' \<and> sched_threads k' = [None, None, Some 9] @ replicate 30 None"
proof -
  have "sched_threads two_threads ! nat 1 = Some 7" "priority (tcb two_threads 7) < SCHED_PRIO_LEVELS"
    "length (sched_runqueues two_threads) = SCHED_PRIO_LEVELS"
    "sched_active_thread two_threads = Some 7 \<and> sched_active_pid two_threads = 1"
    by (simp_all add: two_threads_def kernel_consts)
  with thread_table_on_exit [OF two_threads_tt_inv this(3) _ _ this(1,2)]
  show ?thesis by (auto simp: two_threads_def)
qed

end
