(* ===== verification/Boot.thy ===== *)
theory Boot
  imports Thread
begin

text \<open>
  The start of the kernel (core/init.c) and the example application of this repository
  (ex_application/main.c), run together with the scheduler from power-up to the point where
  all the application's threads have used up their service time.
\<close>

section \<open>Starting the kernel, and the example application\<close>

definition kernel_init :: "bool \<Rightarrow> u32 \<Rightarrow> u32 \<times> u32 \<Rightarrow> u32 \<times> u32 \<Rightarrow> kernel \<Rightarrow> kernel option" where
  "kernel_init idle_used sz idle_stack main_stack k =
     do { let (st, k) = irq_disable k;
          k \<leftarrow> (if idle_used then
                 do { (r, k) \<leftarrow> thread_create sz (fst idle_stack) (snd idle_stack) THREAD_PRIORITY_IDLE
                        (THREAD_CREATE_WOUT_YIELD OR THREAD_CREATE_STACKTEST) ''idle'' 0 k;
                      Some k }
               else Some k);
          (r, k) \<leftarrow> thread_create sz (fst main_stack) (snd main_stack) THREAD_PRIORITY_MAIN
             (THREAD_CREATE_WOUT_YIELD OR THREAD_CREATE_STACKTEST) ''main'' 0 k;
          Some (cpu_switch_context_exit k) }"

text \<open>The application's \<open>main\<close>: five threads, created one after the other.\<close>

definition app_threads :: "(string \<times> int) list" where
  "app_threads = [(''nr1'', 3000), (''nr2'', 6000), (''nr3'', 4000), (''nr4'', 5000), (''nr5'', 2000)]"

fun create_all :: "u32 \<Rightarrow> (u32 \<times> u32) list \<Rightarrow> (string \<times> int) list \<Rightarrow> kernel \<Rightarrow> ((errno + int) list \<times> kernel) option" where
  "create_all sz (s # ss) ((nm, st) # ts) k =
     do { (p, k) \<leftarrow> thread_create sz (fst s) (snd s) 8 0 nm st k;
          (ps, k) \<leftarrow> create_all sz ss ts k;
          Some (p # ps, k) }"
| "create_all sz ss ts k = Some ([], k)"

definition app_main :: "u32 \<Rightarrow> (u32 \<times> u32) list \<Rightarrow> kernel \<Rightarrow> ((errno + int) list \<times> kernel) option" where
  "app_main sz stacks k = create_all sz stacks app_threads k"

text \<open>
  One iteration of the endless loop of the application's thread \<open>i\<close> (0 to 4): the flag
  \<open>to_write\<close> of the thread decides whether it prints, and printing re-arms all the others.
  The second component is the line printed: the thread's index and remaining service time.
\<close>

definition thread_loop_body :: "nat \<Rightarrow> int \<Rightarrow> int list \<Rightarrow> int list \<times> (nat \<times> int) option" where
  "thread_loop_body i st to_write =
     (if to_write ! i = 1 then ((replicate 5 1)[i := 0], Some (i, st)) else (to_write, None))"

section \<open>Booting into the application\<close>

lemma list_queues_frame:
  assumes "length (sched_runqueues k) = SCHED_PRIO_LEVELS"
  shows "\<exists>q. list_queues k = set_runqueue 1 q k"
  using list_queues_rotate [OF assms] by blast

lemma sched_run_frame:
  assumes "sched_run True arch k = Some (n, k')" "length (sched_runqueues k) = SCHED_PRIO_LEVELS"
  shows "sched_threads k' = sched_threads k" "sched_num_threads k' = sched_num_threads k"
    "runqueue_bitcache k' = runqueue_bitcache k" "pid (tcb k' x) = pid (tcb k x)"
    "priority (tcb k' x) = priority (tcb k x)"
    "on_runqueue (status (tcb k' x)) \<longleftrightarrow> x = n \<or> on_runqueue (status (tcb k x))"
    "irq_in k' = irq_in k" "sched_active_thread k = None \<Longrightarrow> sched_active_pid k' = pid (tcb k n)"
proof -
  let ?a = "sched_active_thread k"
  define k1 where "k1 = charge ?a (k\<lparr>sched_context_switch_request := False\<rparr>)"
  define k2 where "k2 = dispatch ?a ?a n k1"
  define k3 where "k3 = expire ?a n k2"
  have k1: "sched_threads k1 = sched_threads k" "sched_num_threads k1 = sched_num_threads k"
    "irq_in k1 = irq_in k"
    by (auto simp: k1_def charge_def split: option.splits)
  have k2: "sched_threads k2 = sched_threads k" "sched_num_threads k2 = sched_num_threads k"
    "irq_in k2 = irq_in k" "on_runqueue (status (tcb k2 x)) \<longleftrightarrow> x = n \<or> on_runqueue (status (tcb k1 x))"
    "?a = None \<Longrightarrow> sched_active_pid k2 = pid (tcb k1 n)"
    using k1 by (auto simp: k2_def dispatch_def unschedule_def Let_def on_runqueue_iff split: option.splits)
  have k3: "sched_threads k3 = sched_threads k" "sched_num_threads k3 = sched_num_threads k"
    "irq_in k3 = irq_in k" "sched_active_pid k3 = sched_active_pid k2" "length (sched_runqueues k3) = SCHED_PRIO_LEVELS"
    using k2 assms(2) by (auto simp: k3_def expire_def k2_def dispatch_sel k1_def charge_sel split: option.splits)
  obtain q where q: "list_queues k3 = set_runqueue 1 q k3" using list_queues_frame [OF k3(5)] by blast
  have "k' = list_queues k3 \<or> k' = (list_queues k3)\<lparr>run_timer := Some 500000\<rparr>"
    using assms(1) by (auto simp: sched_run_def Let_def thread_get_active_def k3_def k2_def k1_def
        split: bind_splits if_splits list.splits)
  then show "sched_threads k' = sched_threads k" "sched_num_threads k' = sched_num_threads k"
    "runqueue_bitcache k' = runqueue_bitcache k" "pid (tcb k' x) = pid (tcb k x)"
    "priority (tcb k' x) = priority (tcb k x)"
    "on_runqueue (status (tcb k' x)) \<longleftrightarrow> x = n \<or> on_runqueue (status (tcb k x))"
    "irq_in k' = irq_in k" "?a = None \<Longrightarrow> sched_active_pid k' = pid (tcb k n)"
    using k2 k3 unfolding q by (auto simp: k3_def expire_sel k2_def dispatch_sel k1_def charge_sel)
qed

text \<open>
  The kernel after creating the threads \<open>ts\<close> in this order, none of them asleep: the first
  one (identifier 1) alone in queue 15, the others in queue 1.
\<close>

definition boot_shape :: "tid list \<Rightarrow> kernel \<Rightarrow> bool" where
  "boot_shape ts k \<longleftrightarrow>
     sched_threads k = None # map Some ts @ replicate (32 - length ts) None \<and>
     length (sched_runqueues k) = SCHED_PRIO_LEVELS \<and>
     (\<forall>p<SCHED_PRIO_LEVELS. sched_runqueues k ! p =
        (if p = 15 then take 1 ts else if p = 1 then drop 1 ts else [])) \<and>
     (\<forall>i<length ts. pid (tcb k (ts ! i)) = int i + 1 \<and> on_runqueue (status (tcb k (ts ! i))) \<and>
        priority (tcb k (ts ! i)) = (if i = 0 then 15 else 1)) \<and>
     (1 < length ts \<longrightarrow> bit (runqueue_bitcache k) 1) \<and> \<not> bit (runqueue_bitcache k) 0"

lemma boot_shape_rr: "boot_shape (i # ts) k \<Longrightarrow> rr_state i k"
  by (auto simp: boot_shape_def rr_state_def kernel_consts)

lemma boot_kernel_shape: "boot_shape [] boot_kernel"
  by (auto simp: boot_shape_def boot_kernel_def kernel_consts replicate_app_Cons_same simp flip: replicate_Suc)

lemma create_shape:
  assumes "boot_shape ts k" "length ts < 32" "t \<notin> set ts" "t = tcb_addr sz stack ss"
    "prio < SCHED_PRIO_LEVELS" "flgs AND THREAD_CREATE_SLEEPING = 0"
    "sched_active_thread k \<noteq> None \<or> flgs AND THREAD_CREATE_WOUT_YIELD \<noteq> 0"
  shows "\<exists>k'. thread_create sz stack ss prio flgs nm st k = Some (Inr (int (length ts) + 1), k') \<and>
    boot_shape (ts @ [t]) k' \<and> s_time (tcb k' t) = st \<and> (\<forall>x. x \<noteq> t \<longrightarrow> tcb k' x = tcb k x) \<and>
    sched_active_thread k' = sched_active_thread k \<and> sched_active_pid k' = sched_active_pid k"
proof -
  let ?n = "length ts" and ?p = "int (length ts) + 1"
  let ?q = "if ?p = 1 then 15 else 1 :: nat"
  note b = assms(1) [unfolded boot_shape_def]
  have len: "length (sched_threads k) = 33" using b assms(2) by simp
  have slot: "sched_threads k ! nat i = (if i \<le> int ?n then Some (ts ! (nat i - 1)) else None)"
    if "1 \<le> i" "i \<le> 32" for i
    using b assms(2) that by (auto simp: nth_Cons' nth_append)
  obtain p where p: "free_pid_loop 1 k = Some p"
    "p = 0 \<and> (\<forall>j. 1 \<le> j \<and> j \<le> 32 \<longrightarrow> sched_threads k ! nat j \<noteq> None) \<or>
     1 \<le> p \<and> p \<le> 32 \<and> sched_threads k ! nat p = None \<and>
       (\<forall>j. 1 \<le> j \<and> j < p \<longrightarrow> sched_threads k ! nat j \<noteq> None)"
    using free_pid_loop_spec [OF len, of 1] by auto
  have free: "1 \<le> ?p" "?p \<le> 32" "sched_threads k ! nat ?p = None" using slot [of ?p] assms(2) by auto
  have "1 \<le> p" "p \<le> 32" "sched_threads k ! nat p = None" "\<not> ?p < p" using p(2) free by blast+
  then have "p = ?p" using slot [of p] by (cases "p \<le> int ?n") auto
  then have "free_pid_loop KERNEL_PID_FIRST k = Some ?p" using p(1) by (simp add: kernel_consts)
  from thread_create_ok [OF assms(5) _ this _ assms(7) assms(4) refl refl, of nm st]
  obtain k' where k': "thread_create sz stack ss prio flgs nm st k = Some (Inr ?p, k')"
    "sched_threads k' = (sched_threads k)[nat ?p := Some t]"
    "tcb k' = (tcb k)(t := (init_tcb ?p st nm zero_cib (tcb k t))\<lparr>status := STATUS_PENDING\<rparr>)"
    "sched_runqueues k' = (sched_runqueues k)[?q := sched_runqueues k ! ?q @ [t]]"
    "runqueue_bitcache k' = runqueue_bitcache k OR 2 ^ ?q"
    "sched_active_thread k' = sched_active_thread k" "sched_active_pid k' = sched_active_pid k"
    using b assms(6) by auto
  have "boot_shape (ts @ [t]) k'"
    unfolding boot_shape_def
  proof (intro conjI allI impI)
    have "replicate (32 - ?n) None = None # replicate (32 - length (ts @ [t])) (None :: tid option)"
      using assms(2) by (simp add: Suc_diff_Suc flip: replicate_Suc)
    moreover have "nat ?p = Suc ?n" by simp
    ultimately show "sched_threads k' = None # map Some (ts @ [t]) @ replicate (32 - length (ts @ [t])) None"
      using k'(2) b by (simp add: list_update_append)
    show "length (sched_runqueues k') = SCHED_PRIO_LEVELS" using b k'(4) by simp
    show "sched_runqueues k' ! p = (if p = 15 then take 1 (ts @ [t]) else if p = 1 then drop 1 (ts @ [t]) else [])"
      if "p < SCHED_PRIO_LEVELS" for p
      using b that by (cases "ts = []") (auto simp: k'(4) nth_list_update kernel_consts take_Cons' Suc_le_eq)
    show "pid (tcb k' ((ts @ [t]) ! i)) = int i + 1" "on_runqueue (status (tcb k' ((ts @ [t]) ! i)))"
      "priority (tcb k' ((ts @ [t]) ! i)) = (if i = 0 then 15 else 1)" if "i < length (ts @ [t])" for i
      using b that assms(3) by (auto simp: k'(3) nth_append init_tcb_def on_runqueue_iff less_Suc_eq nth_mem)
    show "bit (runqueue_bitcache k') 1" if "1 < length (ts @ [t])"
      using b that by (auto simp: k'(5) bit_simps)
    show "\<not> bit (runqueue_bitcache k') 0" using b by (auto simp: k'(5) bit_simps)
  qed
  moreover have "s_time (tcb k' t) = st" "\<forall>x. x \<noteq> t \<longrightarrow> tcb k' x = tcb k x" by (simp_all add: k'(3) init_tcb_def)
  ultimately show ?thesis using k' by blast
qed

lemma create_all_shape:
  assumes "boot_shape ts k" "length ts + length ss \<le> 32" "length ss = length app" "sched_active_thread k \<noteq> None"
    "new = map (\<lambda>s. tcb_addr sz (fst s) (snd s)) ss" "distinct (ts @ new)"
  shows "\<exists>k'. create_all sz ss app k = Some (map (\<lambda>i. Inr (int (length ts + i) + 1)) [0..<length ss], k') \<and>
    boot_shape (ts @ new) k' \<and> (\<forall>i<length ss. s_time (tcb k' (new ! i)) = snd (app ! i)) \<and>
    (\<forall>x. x \<notin> set new \<longrightarrow> tcb k' x = tcb k x) \<and>
    sched_active_thread k' = sched_active_thread k \<and> sched_active_pid k' = sched_active_pid k"
  using assms
proof (induction ss arbitrary: ts app k new)
  case (Cons s ss)
  then obtain nm st app' where app: "app = (nm, st) # app'" by (cases app) auto
  let ?t = "tcb_addr sz (fst s) (snd s)" and ?new = "map (\<lambda>s. tcb_addr sz (fst s) (snd s)) ss"
  have new: "new = ?t # ?new" using Cons.prems(5) by simp
  have "\<exists>k'. thread_create sz (fst s) (snd s) 8 0 nm st k = Some (Inr (int (length ts) + 1), k') \<and>
    boot_shape (ts @ [?t]) k' \<and> s_time (tcb k' ?t) = st \<and> (\<forall>x. x \<noteq> ?t \<longrightarrow> tcb k' x = tcb k x) \<and>
    sched_active_thread k' = sched_active_thread k \<and> sched_active_pid k' = sched_active_pid k"
    using Cons.prems new by (intro create_shape) (auto simp: kernel_consts)
  then obtain k1 where k1: "thread_create sz (fst s) (snd s) 8 0 nm st k = Some (Inr (int (length ts) + 1), k1)"
    "boot_shape (ts @ [?t]) k1" "s_time (tcb k1 ?t) = st" "\<forall>x. x \<noteq> ?t \<longrightarrow> tcb k1 x = tcb k x"
    "sched_active_thread k1 = sched_active_thread k" "sched_active_pid k1 = sched_active_pid k" by blast
  have "\<exists>k'. create_all sz ss app' k1 = Some (map (\<lambda>i. Inr (int (length (ts @ [?t]) + i) + 1)) [0..<length ss], k') \<and>
    boot_shape ((ts @ [?t]) @ ?new) k' \<and> (\<forall>i<length ss. s_time (tcb k' (?new ! i)) = snd (app' ! i)) \<and>
    (\<forall>x. x \<notin> set ?new \<longrightarrow> tcb k' x = tcb k1 x) \<and>
    sched_active_thread k' = sched_active_thread k1 \<and> sched_active_pid k' = sched_active_pid k1"
    using Cons.prems k1 new app by (intro Cons.IH) auto
  then obtain k2 where k2:
    "create_all sz ss app' k1 = Some (map (\<lambda>i. Inr (int (length (ts @ [?t]) + i) + 1)) [0..<length ss], k2)"
    "boot_shape ((ts @ [?t]) @ ?new) k2" "\<forall>i<length ss. s_time (tcb k2 (?new ! i)) = snd (app' ! i)"
    "\<forall>x. x \<notin> set ?new \<longrightarrow> tcb k2 x = tcb k1 x"
    "sched_active_thread k2 = sched_active_thread k1" "sched_active_pid k2 = sched_active_pid k1" by blast
  have ids: "map (\<lambda>i. Inr (int (length ts + i) + 1)) [0..<length (s # ss)] =
    Inr (int (length ts) + 1) # map (\<lambda>i. Inr (int (length (ts @ [?t]) + i) + 1)) [0..<length ss]"
    by (simp add: upt_conv_Cons map_Suc_upt [symmetric] del: upt_Suc)
  have times: "\<forall>i<length (s # ss). s_time (tcb k2 (new ! i)) = snd (app ! i)"
  proof (intro allI impI)
    fix i assume "i < length (s # ss)"
    moreover have "?t \<notin> set ?new" using Cons.prems(6) new by auto
    ultimately show "s_time (tcb k2 (new ! i)) = snd (app ! i)"
      using k1(3) k2(3,4) new app by (cases i) auto
  qed
  have run: "create_all sz (s # ss) app k =
      Some (map (\<lambda>i. Inr (int (length ts + i) + 1)) [0..<length (s # ss)], k2)"
    unfolding ids using k1(1) k2(1) app by simp
  have "boot_shape (ts @ new) k2" "\<forall>x. x \<notin> set new \<longrightarrow> tcb k2 x = tcb k x" using k1(4) k2(2,4) new by auto
  with run times k1(5,6) k2(5,6) show ?case by metis
qed simp

text \<open>
  From power-up: \<open>kernel_init\<close>, the PendSV that starts the main thread, the application's
  \<open>main\<close>, and the exit of the main thread when \<open>main\<close> returns.
\<close>

definition boot_app ::
  "(kernel \<Rightarrow> kernel) \<Rightarrow> u32 \<Rightarrow> u32 \<times> u32 \<Rightarrow> u32 \<times> u32 \<Rightarrow> (u32 \<times> u32) list \<Rightarrow> ((errno + int) list \<times> kernel) option" where
  "boot_app arch sz idle_stack main_stack stacks =
     do { k \<leftarrow> kernel_init True sz idle_stack main_stack boot_kernel;
          (t, k) \<leftarrow> isr_pendsv True arch k;
          (ps, k) \<leftarrow> app_main sz stacks k;
          k \<leftarrow> sched_task_exit k;
          Some (ps, k) }"

lemma boot_shape_cong:
  assumes "boot_shape ts k" "sched_threads k' = sched_threads k" "sched_runqueues k' = sched_runqueues k"
    "\<And>x. pid (tcb k' x) = pid (tcb k x)" "\<And>x. priority (tcb k' x) = priority (tcb k x)"
    "\<And>x. on_runqueue (status (tcb k x)) \<Longrightarrow> on_runqueue (status (tcb k' x))"
    "runqueue_bitcache k' = runqueue_bitcache k"
  shows "boot_shape ts k'"
  using assms by (auto simp: boot_shape_def)

lemma kernel_init_shape:
  assumes "i = tcb_addr sz (fst s1) (snd s1)" "m = tcb_addr sz (fst s2) (snd s2)" "i \<noteq> m"
  shows "\<exists>k. kernel_init True sz s1 s2 boot_kernel = Some k \<and> boot_shape [i, m] k \<and> sched_active_thread k = None"
proof -
  let ?fl = "THREAD_CREATE_WOUT_YIELD OR THREAD_CREATE_STACKTEST"
  have fl: "?fl AND THREAD_CREATE_SLEEPING = 0" "?fl AND THREAD_CREATE_WOUT_YIELD \<noteq> 0"
    by (simp_all add: create_flags)
  let ?k0 = "boot_kernel\<lparr>irq_enabled := False\<rparr>"
  have b0: "boot_shape [] ?k0" using boot_kernel_shape by (rule boot_shape_cong) simp_all
  have pr: "THREAD_PRIORITY_IDLE < SCHED_PRIO_LEVELS" "THREAD_PRIORITY_MAIN < SCHED_PRIO_LEVELS"
    by (simp_all add: kernel_consts THREAD_PRIORITY_MAIN_def)
  obtain k1 where k1: "thread_create sz (fst s1) (snd s1) THREAD_PRIORITY_IDLE ?fl ''idle'' 0 ?k0 = Some (Inr 1, k1)"
    "boot_shape [i] k1" "sched_active_thread k1 = None"
    using create_shape [OF b0 _ _ assms(1) pr(1) fl(1) disjI2 [OF fl(2)], of "''idle''" 0]
    by (auto simp: boot_kernel_def)
  obtain k2 where k2: "thread_create sz (fst s2) (snd s2) THREAD_PRIORITY_MAIN ?fl ''main'' 0 k1 = Some (Inr 2, k2)"
    "boot_shape [i, m] k2" "sched_active_thread k2 = None"
    using create_shape [OF k1(2) _ _ assms(2) pr(2) fl(1) disjI2 [OF fl(2)], of "''main''" 0] assms(3) k1(3) by auto
  have "boot_shape [i, m] (cpu_switch_context_exit k2)"
    using k2(2) by (rule boot_shape_cong) (simp_all add: cpu_switch_context_exit_def irq_enable_def)
  moreover have "sched_active_thread (cpu_switch_context_exit k2) = None"
    using k2(3) by (simp add: cpu_switch_context_exit_def irq_enable_def)
  ultimately show ?thesis using k1 k2 by (simp add: kernel_init_def irq_disable_def Let_def)
qed

lemma isr_pendsv_boot:
  assumes "boot_shape [i, m] k" "sched_active_thread k = None"
  shows "\<exists>k'. isr_pendsv True arch k = Some (m, k') \<and> boot_shape [i, m] k' \<and>
    sched_active_thread k' = Some m \<and> sched_active_pid k' = 2"
proof -
  let ?k0 = "k\<lparr>pendsv := False, irq_enabled := False\<rparr>"
  have b0: "boot_shape [i, m] ?k0" using assms(1) by (rule boot_shape_cong) simp_all
  have q: "sched_runqueues k ! 1 = [m]" "length (sched_runqueues k) = SCHED_PRIO_LEVELS" "pid (tcb k m) = 2"
    using assms(1) by (auto simp: boot_shape_def kernel_consts)
  have pick: "pick i (rr_abs ?k0) = m" using q by (simp add: pick_def rr_abs_def)
  have step: "ready (rr_step i (rr_abs ?k0)) = [m]" "current (rr_step i (rr_abs ?k0)) = Some m"
    using q assms(2) by (simp_all add: rr_step_def pick charged_def) (simp_all add: rr_abs_def)
  obtain k' where k': "sched_run True arch ?k0 = Some (m, k')" "rr_abs k' = rr_step i (rr_abs ?k0)" "rr_state i k'"
    using sched_run_rr [OF boot_shape_rr [OF b0], of arch] unfolding pick by blast
  have q1: "sched_runqueues k' ! 1 = [m]" "sched_active_thread k' = Some m"
    using step unfolding k'(2) [symmetric] by (simp_all add: rr_abs_def)
  have rq: "sched_runqueues k' = sched_runqueues ?k0"
  proof (rule nth_equalityI)
    show len: "length (sched_runqueues k') = length (sched_runqueues ?k0)" using k'(3) q(2) by (simp add: rr_state_def)
    show "sched_runqueues k' ! p = sched_runqueues ?k0 ! p" if "p < length (sched_runqueues k')" for p
      using that k'(3) b0 q1(1) len q(2) by (cases "p = 15"; cases "p = 1") (auto simp: rr_state_def boot_shape_def)
  qed
  note f = sched_run_frame [OF k'(1)]
  have len0: "length (sched_runqueues ?k0) = SCHED_PRIO_LEVELS" using q(2) by simp
  have "boot_shape [i, m] k'"
    by (rule boot_shape_cong [OF b0 _ rq]) (use f [OF len0] in auto)
  then have "boot_shape [i, m] (k'\<lparr>irq_enabled := True\<rparr>)" by (rule boot_shape_cong) simp_all
  moreover have "sched_active_pid k' = 2" using f(8) [OF len0] assms(2) q(3) by simp
  ultimately show ?thesis using k'(1) q1(2) by (simp add: isr_pendsv_def)
qed

lemma sched_task_exit_main:
  assumes "boot_shape (i # m # ts) k" "distinct (i # m # ts)" "length ts \<le> 30" "ts \<noteq> []"
    "sched_active_thread k = Some m" "sched_active_pid k = 2"
  shows "\<exists>k'. sched_task_exit k = Some k' \<and> rr_state i k' \<and> sched_runqueues k' ! 1 = ts \<and>
    sched_active_thread k' = None \<and> (\<forall>x. pid (tcb k' x) = pid (tcb k x) \<and> s_time (tcb k' x) = s_time (tcb k x))"
proof -
  let ?k1 = "k\<lparr>irq_enabled := False, sched_threads := (sched_threads k)[nat 2 := None],
    sched_num_threads := sched_num_threads k - 1\<rparr>"
  let ?k2 = "upd_tcb m (status_update (\<lambda>_. STATUS_STOPPED)) (set_runqueue 1 ts ?k1)"
  note b = assms(1) [unfolded boot_shape_def]
  have q: "sched_runqueues k ! 1 = m # ts" "length (sched_runqueues k) = 16"
    using b by (auto simp: kernel_consts)
  have m: "pid (tcb k m) = 2" "priority (tcb k m) = 1" "on_runqueue (status (tcb k m))"
    using conjunct1 [OF conjunct2 [OF conjunct2 [OF conjunct2 [OF b]]], rule_format, of 1] by simp_all
  have set: "sched_set_status m STATUS_STOPPED ?k1 = Some ?k2"
    using m q assms(4) by (subst sched_set_status_block) (auto simp: on_runqueue_iff Let_def)
  have "thread_get_unchecked 2 (k\<lparr>irq_enabled := False\<rparr>) = Some (Some m)"
    using b assms(3) by (simp add: thread_get_unchecked_def)
  then have run: "sched_task_exit k = Some (cpu_switch_context_exit (?k2\<lparr>sched_active_thread := None\<rparr>))"
    using assms(5,6) set
    by (simp add: sched_task_exit_def irq_disable_def thread_getpid_def thread_get_active_def Let_def)
  have "rr_state i (cpu_switch_context_exit (?k2\<lparr>sched_active_thread := None\<rparr>))"
    using boot_shape_rr [OF assms(1)] q
    by (auto simp: rr_state_def cpu_switch_context_exit_def irq_enable_def)
  with run q show ?thesis by (auto simp: cpu_switch_context_exit_def irq_enable_def)
qed

lemma boot_app_ready:
  assumes "distinct (i # m # ts)" "i = tcb_addr sz (fst is) (snd is)" "m = tcb_addr sz (fst ms) (snd ms)"
    "ts = map (\<lambda>s. tcb_addr sz (fst s) (snd s)) stacks" "length stacks = 5"
  shows "\<exists>k. boot_app arch sz is ms stacks = Some (map Inr [3, 4, 5, 6, 7], k) \<and> rr_state i k \<and>
    sched_runqueues k ! 1 = ts \<and> sched_active_thread k = None \<and>
    map (\<lambda>t. s_time (tcb k t)) ts = [3000, 6000, 4000, 5000, 2000] \<and> (\<forall>t\<in>set ts. 2 < pid (tcb k t))"
proof -
  obtain k1 where k1: "kernel_init True sz is ms boot_kernel = Some k1" "boot_shape [i, m] k1"
    "sched_active_thread k1 = None"
    using kernel_init_shape [OF assms(2,3)] assms(1) by auto
  obtain k2 where k2: "isr_pendsv True arch k1 = Some (m, k2)" "boot_shape [i, m] k2"
    "sched_active_thread k2 = Some m" "sched_active_pid k2 = 2"
    using isr_pendsv_boot [OF k1(2,3)] by blast
  have "\<exists>k3. create_all sz stacks app_threads k2 =
      Some (map (\<lambda>j. Inr (int (length [i, m] + j) + 1)) [0..<length stacks], k3) \<and>
    boot_shape ([i, m] @ ts) k3 \<and> (\<forall>i<length stacks. s_time (tcb k3 (ts ! i)) = snd (app_threads ! i)) \<and>
    (\<forall>x. x \<notin> set ts \<longrightarrow> tcb k3 x = tcb k2 x) \<and>
    sched_active_thread k3 = sched_active_thread k2 \<and> sched_active_pid k3 = sched_active_pid k2"
    using assms k2(3) by (intro create_all_shape [OF k2(2)]) (auto simp: app_threads_def)
  then obtain k3 where k3: "app_main sz stacks k2 = Some (map Inr [3, 4, 5, 6, 7], k3)"
    "boot_shape (i # m # ts) k3" "\<forall>i<5. s_time (tcb k3 (ts ! i)) = snd (app_threads ! i)"
    "sched_active_thread k3 = Some m" "sched_active_pid k3 = 2"
    using assms(5) k2(3,4) by (auto simp: app_main_def upt_rec)
  have len: "length ts = 5" using assms(4,5) by simp
  obtain k4 where k4: "sched_task_exit k3 = Some k4" "rr_state i k4" "sched_runqueues k4 ! 1 = ts"
    "sched_active_thread k4 = None" "\<forall>x. pid (tcb k4 x) = pid (tcb k3 x) \<and> s_time (tcb k4 x) = s_time (tcb k3 x)"
    using sched_task_exit_main [OF k3(2) assms(1) _ _ k3(4,5)] len by force
  have "map (\<lambda>t. s_time (tcb k4 t)) ts = map (\<lambda>i. s_time (tcb k3 (ts ! i))) [0..<5]"
    by (rule nth_equalityI) (simp_all add: len k4(5))
  also have "\<dots> = map (\<lambda>i. snd (app_threads ! i)) [0..<5]" using k3(3) by simp
  finally have "map (\<lambda>t. s_time (tcb k4 t)) ts = [3000, 6000, 4000, 5000, 2000]"
    by (simp add: app_threads_def upt_rec)
  moreover have "2 < pid (tcb k4 t)" if t: "t \<in> set ts" for t
  proof -
    obtain j where j: "j < length ts" "ts ! j = t" using t by (auto simp: in_set_conv_nth)
    have "\<forall>j<length (i # m # ts). pid (tcb k3 ((i # m # ts) ! j)) = int j + 1"
      using k3(2) by (auto simp: boot_shape_def)
    from this [rule_format, of "j + 2"] j show ?thesis by (simp add: k4(5))
  qed
  ultimately show ?thesis using k1 k2 k3 k4 by (auto simp: boot_app_def)
qed

section \<open>Properties\<close>

text \<open>
  (C3) The system end to end. Starting from power-up with any stack placement that gives
  the seven control blocks different addresses: the kernel starts the main thread, the
  application's \<open>main\<close> creates its five threads as identifiers 3 to 7, main's exit leaves
  exactly those five in run queue 1 in creation order with the service times the application
  asked for, and from there a bounded number of scheduler passes (at most 93) serves all
  five to the end and leaves the idle thread running.
\<close>
theorem boot_runs_application_to_idle:
  assumes "distinct (map (\<lambda>s. tcb_addr sz (fst s) (snd s)) (idle_stack # main_stack # stacks))"
    and "length stacks = 5" and "idle = tcb_addr sz (fst idle_stack) (snd idle_stack)"
  shows "\<exists>k. boot_app arch sz idle_stack main_stack stacks = Some (map Inr [3, 4, 5, 6, 7], k) \<and>
     sched_runqueues k ! 1 = map (\<lambda>s. tcb_addr sz (fst s) (snd s)) stacks \<and>
     map (\<lambda>t. s_time (tcb k t)) (sched_runqueues k ! 1) = [3000, 6000, 4000, 5000, 2000] \<and>
     (\<exists>n k'. n \<le> 93 \<and> iter_opt (callSchedRun True arch) n k = Some k' \<and>
        sched_runqueues k' ! 1 = [] \<and> sched_active_thread k' = Some idle)"
proof -
  let ?ts = "map (\<lambda>s. tcb_addr sz (fst s) (snd s)) stacks"
  have "distinct (idle # tcb_addr sz (fst main_stack) (snd main_stack) # ?ts)" using assms(1,3) by simp
  from boot_app_ready [OF this assms(3) refl refl assms(2), of arch] obtain k where
    k: "boot_app arch sz idle_stack main_stack stacks = Some (map Inr [3, 4, 5, 6, 7], k)" "rr_state idle k"
      "sched_runqueues k ! 1 = ?ts" "sched_active_thread k = None"
      "map (\<lambda>t. s_time (tcb k t)) ?ts = [3000, 6000, 4000, 5000, 2000]" "\<forall>t\<in>set ?ts. 2 < pid (tcb k t)"
    by (elim exE conjE) (rule that)
  have times: "s_time (tcb k t) \<in> {3000, 6000, 4000, 5000, 2000}" if "t \<in> set ?ts" for t
  proof -
    have "s_time (tcb k t) \<in> set (map (\<lambda>t. s_time (tcb k t)) ?ts)" using that by (simp only: set_map) blast
    then show ?thesis unfolding k(5) by simp
  qed
  have dist: "distinct ?ts" "idle \<notin> set ?ts" using assms(1,3) by simp_all
  have "rr_wf idle (rr_abs k)"
    unfolding rr_wf_def rr_abs_def rr.simps k(3) unaccounted_def using dist k(6) times by force
  from sched_runs_dry [OF k(2) this, of arch] obtain n k' where
    n: "n \<le> 2 * (\<Sum>t\<in>set (sched_runqueues k ! 1). quanta (s_time (tcb k t)) + 1) + 3"
      "iter_opt (callSchedRun True arch) n k = Some k'" "sched_runqueues k' ! 1 = []"
      "sched_active_thread k' = Some idle" by blast
  have "(\<Sum>t\<in>set ?ts. quanta (s_time (tcb k t)) + 1) = (\<Sum>b\<leftarrow>map (\<lambda>t. s_time (tcb k t)) ?ts. quanta b + 1)"
    using sum_list_distinct_conv_sum_set [OF dist(1), of "\<lambda>t. quanta (s_time (tcb k t)) + 1"] by (simp add: comp_def)
  also have "\<dots> = 45" unfolding k(5) by (simp add: quanta_def)
  finally have "n \<le> 93" using n(1) unfolding k(3) by simp
  with k n show ?thesis by auto
qed

theorem boot_runs_application_to_idle_witness:
  "\<exists>k n k'. boot_app id 64 (0x20000000, 256) (0x20000100, 512)
       [(0x20000300, 512), (0x20000501, 512), (0x20000703, 512), (0x20000905, 512), (0x20000b07, 512)]
       = Some (map Inr [3, 4, 5, 6, 7], k) \<and>
     iter_opt (callSchedRun True id) n k = Some k' \<and> sched_runqueues k' ! 1 = []"
proof -
  have "distinct (map (\<lambda>s. tcb_addr 64 (fst s) (snd s)) ((0x20000000, 256) # (0x20000100, 512) #
       [(0x20000300, 512), (0x20000501, 512), (0x20000703, 512), (0x20000905, 512), (0x20000b07, 512)]))"
    by (simp add: tcb_addr_def Let_def)
  from boot_runs_application_to_idle [OF this _ refl, of id] show ?thesis by simp blast
qed

text \<open>The output of an interleaving of iterations of the five thread loops.\<close>

fun app_output :: "(nat \<times> int) list \<Rightarrow> int list \<Rightarrow> (nat \<times> int) list" where
  "app_output [] to_write = []"
| "app_output ((i, st) # ev) to_write =
     (let (to_write, out) = thread_loop_body i st to_write
      in (case out of Some l \<Rightarrow> [l] | None \<Rightarrow> []) @ app_output ev to_write)"

text \<open>Dropping the iterations of a thread that directly follow another one of the same thread.\<close>

fun turns :: "nat option \<Rightarrow> (nat \<times> int) list \<Rightarrow> (nat \<times> int) list" where
  "turns prev [] = []"
| "turns prev ((i, st) # ev) =
     (if prev = Some i then turns prev ev else (i, st) # turns (Some i) ev)"

lemma app_output_turns:
  assumes "\<forall>e\<in>set ev. fst e < 5"
    "to_write = (case prev of None \<Rightarrow> replicate 5 1 | Some j \<Rightarrow> (replicate 5 1)[j := 0])"
  shows "app_output ev to_write = turns prev ev"
  using assms
proof (induction ev arbitrary: to_write prev)
  case (Cons e ev)
  obtain i st where e: "e = (i, st)" by force
  have i: "i < 5" using Cons.prems e by simp
  show ?case
  proof (cases "prev = Some i")
    case True
    then have "thread_loop_body i st to_write = (to_write, None)"
      using i Cons.prems(2) by (simp add: thread_loop_body_def)
    moreover have "app_output ev to_write = turns prev ev" using Cons.prems by (intro Cons.IH) auto
    ultimately show ?thesis using True e by simp
  next
    case False
    then have "to_write ! i = 1" using i Cons.prems(2) by (auto split: option.splits)
    then have "thread_loop_body i st to_write = ((replicate 5 1)[i := 0], Some (i, st))"
      by (simp add: thread_loop_body_def)
    moreover have "app_output ev ((replicate 5 1)[i := 0]) = turns (Some i) ev"
      using Cons.prems(1) by (intro Cons.IH) auto
    ultimately show ?thesis using False e by simp
  qed
qed simp

lemma turns_alternate:
  "successively (\<lambda>a b. fst a \<noteq> fst b) (turns prev ev) \<and>
   (turns prev ev \<noteq> [] \<longrightarrow> prev \<noteq> Some (fst (hd (turns prev ev))))"
proof (induction prev ev rule: turns.induct)
  case (2 prev i st ev)
  then show ?case by (cases "turns (Some i) ev") auto
qed simp

text \<open>
  Each thread of the application prints its remaining service time once per turn:
  in any interleaving of the five thread loops, starting with all flags set, the output is the
  first iteration of every uninterrupted turn of a thread and nothing else, so two
  consecutive lines come from different threads.
\<close>
theorem app_prints_once_per_turn:
  assumes "\<forall>e\<in>set ev. fst e < 5"
  shows "app_output ev (replicate 5 1) = turns None ev \<and>
    successively (\<lambda>a b. fst a \<noteq> fst b) (app_output ev (replicate 5 1))"
  using app_output_turns [OF assms, of _ None] turns_alternate [of None ev] by simp

theorem app_prints_once_per_turn_witness:
  "app_output [(0, 3000), (0, 3000), (1, 6000), (0, 2500)] (replicate 5 1) = [(0, 3000), (1, 6000), (0, 2500)]"
  using app_prints_once_per_turn [of "[(0, 3000), (0, 3000), (1, 6000), (0, 2500)]"] by simp

end
