(* ===== verification/Sync.thy ===== *)
theory Sync
  imports Thread
begin

text \<open>
  What the synchronisation components share: the active thread at the head of its run queue,
  lists of waiting threads sorted by priority, and the two transitions between ready and
  waiting. The facts here carry the proofs about mutexes, condition variables, thread flags,
  messages and mailboxes.
\<close>

section \<open>Waiting, blocking and waking\<close>

lemma irq_restore_sel [simp]:
  "sched_active_pid (irq_restore s k) = sched_active_pid k"
  "sched_active_thread (irq_restore s k) = sched_active_thread k"
  "sched_threads (irq_restore s k) = sched_threads k"
  "sched_num_threads (irq_restore s k) = sched_num_threads k"
  "sched_context_switch_request (irq_restore s k) = sched_context_switch_request k"
  "sched_runqueues (irq_restore s k) = sched_runqueues k"
  "runqueue_bitcache (irq_restore s k) = runqueue_bitcache k"
  "tcb (irq_restore s k) = tcb k"
  "msgs (irq_restore s k) = msgs k"
  "irq_in (irq_restore s k) = irq_in k"
  "run_timer (irq_restore s k) = run_timer k"
  "pendsv (irq_restore s k) = pendsv k"
  "irq_enabled (irq_restore s k) = s"
  by (simp_all add: irq_restore_def)

lemma thread_yield_higher_sel [simp]:
  "sched_active_pid (thread_yield_higher k) = sched_active_pid k"
  "sched_active_thread (thread_yield_higher k) = sched_active_thread k"
  "sched_threads (thread_yield_higher k) = sched_threads k"
  "sched_num_threads (thread_yield_higher k) = sched_num_threads k"
  "sched_context_switch_request (thread_yield_higher k) = sched_context_switch_request k"
  "sched_runqueues (thread_yield_higher k) = sched_runqueues k"
  "runqueue_bitcache (thread_yield_higher k) = runqueue_bitcache k"
  "tcb (thread_yield_higher k) = tcb k"
  "msgs (thread_yield_higher k) = msgs k"
  "irq_in (thread_yield_higher k) = irq_in k"
  "run_timer (thread_yield_higher k) = run_timer k"
  "irq_enabled (thread_yield_higher k) = irq_enabled k"
  "pendsv (thread_yield_higher k)"
  by (simp_all add: thread_yield_higher_def)


lemma rq_inv_cong:
  assumes "rq_inv k" "sched_runqueues k' = sched_runqueues k" "runqueue_bitcache k' = runqueue_bitcache k"
    "\<And>t. status (tcb k' t) = status (tcb k t)" "\<And>t. priority (tcb k' t) = priority (tcb k t)"
  shows "rq_inv k'"
  using assms by (simp add: rq_inv_def)

text \<open>The active thread, where the run queue has it: at the head of the queue of its priority.\<close>

definition active_ready :: "tid \<Rightarrow> kernel \<Rightarrow> bool" where
  "active_ready t k \<longleftrightarrow> sched_active_thread k = Some t \<and> on_runqueue (status (tcb k t)) \<and>
     priority (tcb k t) < SCHED_PRIO_LEVELS \<and> hd (sched_runqueues k ! priority (tcb k t)) = t"

text \<open>A list of threads waiting in state \<open>st\<close>, sorted by priority.\<close>

definition waiting :: "thread_status \<Rightarrow> tid list \<Rightarrow> kernel \<Rightarrow> bool" where
  "waiting st ws k \<longleftrightarrow> \<not> on_runqueue st \<and> distinct ws \<and> sorted (map (\<lambda>t. priority (tcb k t)) ws) \<and>
     (\<forall>t\<in>set ws. status (tcb k t) = st \<and> priority (tcb k t) < SCHED_PRIO_LEVELS)"

lemma waiting_cong:
  assumes "waiting st ws k" "\<And>t. t \<in> set ws \<Longrightarrow> status (tcb k' t) = status (tcb k t)"
    "\<And>t. t \<in> set ws \<Longrightarrow> priority (tcb k' t) = priority (tcb k t)"
  shows "waiting st ws k'"
proof -
  have "map (\<lambda>t. priority (tcb k' t)) ws = map (\<lambda>t. priority (tcb k t)) ws" using assms(3) by simp
  with assms show ?thesis unfolding waiting_def by metis
qed

lemma block_active:
  assumes "rq_inv k" "active_ready t k" "\<not> on_runqueue st"
  shows "\<exists>k'. sched_set_status t st k = Some k' \<and> rq_inv k' \<and> tcb k' = (tcb k)(t := (tcb k t)\<lparr>status := st\<rparr>) \<and>
    sched_active_thread k' = Some t \<and> irq_enabled k' = irq_enabled k \<and> irq_in k' = irq_in k \<and> msgs k' = msgs k \<and>
    sched_active_pid k' = sched_active_pid k \<and> sched_threads k' = sched_threads k"
proof -
  have len: "priority (tcb k t) < length (sched_runqueues k)"
    using assms rq_invD(1) [OF assms(1)] by (simp add: active_ready_def)
  obtain k' where k': "sched_set_status t st k = Some k'" using sched_set_status_total [OF len] by blast
  have "rq_inv k'" using rq_inv_block [OF assms(1) _ assms(3) _ _ k'] assms(2) by (simp add: active_ready_def)
  with k' sched_set_status_frame [OF k'] assms(2) show ?thesis by (simp add: active_ready_def)
qed

lemma wake_waiter:
  assumes "rq_inv k" "\<not> on_runqueue (status (tcb k t))" "priority (tcb k t) < SCHED_PRIO_LEVELS"
  shows "\<exists>k'. sched_set_status t STATUS_PENDING k = Some k' \<and> rq_inv k' \<and>
    tcb k' = (tcb k)(t := (tcb k t)\<lparr>status := STATUS_PENDING\<rparr>) \<and>
    sched_runqueues k' = (sched_runqueues k)[priority (tcb k t) := sched_runqueues k ! priority (tcb k t) @ [t]] \<and>
    sched_active_thread k' = sched_active_thread k \<and> irq_enabled k' = irq_enabled k \<and> irq_in k' = irq_in k \<and>
    msgs k' = msgs k \<and> pendsv k' = pendsv k \<and> sched_context_switch_request k' = sched_context_switch_request k \<and>
    sched_active_pid k' = sched_active_pid k \<and> sched_threads k' = sched_threads k"
proof -
  have len: "priority (tcb k t) < length (sched_runqueues k)" using assms rq_invD(1) [OF assms(1)] by simp
  have on: "on_runqueue STATUS_PENDING" by (simp add: on_runqueue_iff)
  obtain k' where k': "sched_set_status t STATUS_PENDING k = Some k'" using sched_set_status_total [OF len] by blast
  have "rq_inv k'" by (rule rq_inv_wake [OF assms(1,2) on assms(3) k'])
  moreover have "sched_runqueues k' = (sched_runqueues k)[priority (tcb k t) := sched_runqueues k ! priority (tcb k t) @ [t]]"
    using k' sched_set_status_wake [OF assms(2) on len] by auto
  ultimately show ?thesis using k' sched_set_status_frame [OF k'] by simp
qed

lemma sched_switch_cases:
  assumes "sched_active_thread k = Some a"
  shows "sched_switch p k = Some (if \<not> on_runqueue (status (tcb k a)) \<or> p < priority (tcb k a)
     then (if irq_in k then k\<lparr>sched_context_switch_request := True\<rparr> else k\<lparr>pendsv := True\<rparr>) else k)"
  using assms by (auto simp: sched_switch_def thread_get_active_def thread_yield_higher_def Let_def)

lemma waiting_add:
  assumes "waiting st ws k" "t \<notin> set ws" "status (tcb k t) = st" "priority (tcb k t) < SCHED_PRIO_LEVELS"
  shows "thread_add_to_list ws t k = Some (insert_by_prio (\<lambda>x. priority (tcb k x)) t ws)"
    "waiting st (insert_by_prio (\<lambda>x. priority (tcb k x)) t ws) k"
proof -
  have "status (tcb k t) < STATUS_ON_RUNQUEUE" using assms(1,3) by (simp add: waiting_def not_le)
  then show "thread_add_to_list ws t k = Some (insert_by_prio (\<lambda>x. priority (tcb k x)) t ws)"
    by (simp add: thread_add_to_list_def)
  show "waiting st (insert_by_prio (\<lambda>x. priority (tcb k x)) t ws) k"
    using assms by (auto simp: waiting_def distinct_insert_by_prio insert_by_prio_sorted)
qed

lemma waiting_tl: "waiting st (w # ws) k \<Longrightarrow> waiting st ws k"
  by (simp add: waiting_def)

end
