(* ===== verification/Mutex.thy ===== *)
theory Mutex
  imports Sync
begin

text \<open>
  Mutexes, recursive mutexes and condition variables (core/mutex.c, core/rmutex.c,
  core/cond.c). The field \<open>queue.next\<close> of a mutex is NULL (unlocked), the marker
  \<open>MUTEX_LOCKED\<close> (locked, nobody waits), or the first of the waiting threads. An operation that
  blocks is modelled up to the point where the thread gives up the CPU (\<open>Blocks\<close>); what the
  code does after the thread has been scheduled again is a definition of its own.
\<close>

section \<open>Data\<close>

datatype 'a call = Return 'a | Blocks

datatype mutex = MNull | MLocked | MWaiters "tid list"

section \<open>Mutexes\<close>

definition mutex_init :: mutex where
  "mutex_init = MNull"

text \<open>When a blocked call is resumed, the waker has removed it from the queue and it returns 1.\<close>

definition mutex_lock_gen :: "bool \<Rightarrow> mutex \<Rightarrow> kernel \<Rightarrow> (int call \<times> mutex \<times> kernel) option" where
  "mutex_lock_gen blocking m k =
     do { let (irqstate, k) = irq_disable k;
          if m = MNull then Some (Return 1, MLocked, irq_restore irqstate k)
          else if blocking then
            do { me \<leftarrow> thread_get_active k;
                 k \<leftarrow> sched_set_status me STATUS_MUTEX_BLOCKED k;
                 m \<leftarrow> (case m of
                        MWaiters ws \<Rightarrow> do { ws \<leftarrow> thread_add_to_list ws me k; Some (MWaiters ws) }
                      | _ \<Rightarrow> Some (MWaiters [me]));
                 Some (Blocks, m, thread_yield_higher (irq_restore irqstate k)) }
          else Some (Return 0, m, irq_restore irqstate k) }"

definition mutex_trylock :: "mutex \<Rightarrow> kernel \<Rightarrow> (int call \<times> mutex \<times> kernel) option" where
  "mutex_trylock m k = mutex_lock_gen False m k"

definition mutex_lock :: "mutex \<Rightarrow> kernel \<Rightarrow> (int call \<times> mutex \<times> kernel) option" where
  "mutex_lock m k = mutex_lock_gen True m k"

text \<open>The queue after its first waiter has been taken out.\<close>

definition mutex_after_wake :: "tid list \<Rightarrow> mutex" where
  "mutex_after_wake ws = (if ws = [] then MLocked else MWaiters ws)"

definition mutex_unlock :: "mutex \<Rightarrow> kernel \<Rightarrow> (mutex \<times> kernel) option" where
  "mutex_unlock m k =
     do { let (irqstate, k) = irq_disable k;
          case m of
            MNull \<Rightarrow> Some (MNull, irq_restore irqstate k)
          | MLocked \<Rightarrow> Some (MNull, irq_restore irqstate k)
          | MWaiters ws \<Rightarrow>
              do { let (nxt, ws) = list_remove_head ws;
                   process \<leftarrow> nxt;
                   k \<leftarrow> sched_set_status process STATUS_PENDING k;
                   k \<leftarrow> sched_switch (priority (tcb k process)) (irq_restore irqstate k);
                   Some (mutex_after_wake ws, k) } }"

definition mutex_unlock_and_sleep :: "mutex \<Rightarrow> kernel \<Rightarrow> (mutex \<times> kernel) option" where
  "mutex_unlock_and_sleep m k =
     do { let (irqstate, k) = irq_disable k;
          (m, k) \<leftarrow> (case m of
              MNull \<Rightarrow> Some (MNull, k)
            | MLocked \<Rightarrow> Some (MNull, k)
            | MWaiters ws \<Rightarrow>
                do { let (nxt, ws) = list_remove_head ws;
                     process \<leftarrow> nxt;
                     k \<leftarrow> sched_set_status process STATUS_PENDING k;
                     Some (mutex_after_wake ws, k) });
          me \<leftarrow> thread_get_active k;
          k \<leftarrow> sched_set_status me STATUS_SLEEPING k;
          Some (m, thread_yield_higher (irq_restore irqstate k)) }"

section \<open>Recursive mutexes\<close>

record rmutex =
  rm_mutex :: mutex
  refcount :: u16
  owner :: int

definition rmutex_init :: rmutex where
  [simp]: "rmutex_init = \<lparr>rm_mutex = MNull, refcount = 0, owner = KERNEL_PID_UNDEF\<rparr>"

text \<open>The end of \<open>_lock\<close>, reached at once or after the blocked \<open>mutex_lock\<close> returns.\<close>

definition rmutex_taken :: "rmutex \<Rightarrow> kernel \<Rightarrow> rmutex" where
  "rmutex_taken rm k = rm\<lparr>owner := thread_getpid k, refcount := refcount rm + 1\<rparr>"

definition rmutex_lock_gen :: "bool \<Rightarrow> rmutex \<Rightarrow> kernel \<Rightarrow> (int call \<times> rmutex \<times> kernel) option" where
  "rmutex_lock_gen trylock rm k =
     do { (r, m, k) \<leftarrow> mutex_trylock (rm_mutex rm) k;
          let rm = rm\<lparr>rm_mutex := m\<rparr>;
          if r = Return 0 \<and> owner rm \<noteq> thread_getpid k then
            (if trylock then Some (Return 0, rm, k)
             else
               do { (r, m, k) \<leftarrow> mutex_lock (rm_mutex rm) k;
                    let rm = rm\<lparr>rm_mutex := m\<rparr>;
                    if r = Blocks then Some (Blocks, rm, k) else Some (Return 1, rmutex_taken rm k, k) })
          else Some (Return 1, rmutex_taken rm k, k) }"

definition rmutex_lock :: "rmutex \<Rightarrow> kernel \<Rightarrow> (int call \<times> rmutex \<times> kernel) option" where
  "rmutex_lock rm k = rmutex_lock_gen False rm k"

definition rmutex_trylock :: "rmutex \<Rightarrow> kernel \<Rightarrow> (int call \<times> rmutex \<times> kernel) option" where
  "rmutex_trylock rm k = rmutex_lock_gen True rm k"

definition rmutex_unlock :: "rmutex \<Rightarrow> kernel \<Rightarrow> (rmutex \<times> kernel) option" where
  "rmutex_unlock rm k =
     (if owner rm = thread_getpid k \<and> refcount rm > 0 then
        do { let rm = rm\<lparr>refcount := refcount rm - 1\<rparr>;
             if refcount rm = 0 then
               do { let rm = rm\<lparr>owner := KERNEL_PID_UNDEF\<rparr>;
                    (m, k) \<leftarrow> mutex_unlock (rm_mutex rm) k;
                    Some (rm\<lparr>rm_mutex := m\<rparr>, k) }
             else Some (rm, k) }
      else None)"

section \<open>Condition variables\<close>

text \<open>A condition variable is the list of the threads waiting for it.\<close>

definition cond_init :: "tid list" where
  "cond_init = []"

definition cond_wait :: "tid list \<Rightarrow> mutex \<Rightarrow> kernel \<Rightarrow> (tid list \<times> mutex \<times> kernel) option" where
  "cond_wait cq m k =
     do { let (irqstate, k) = irq_disable k;
          me \<leftarrow> thread_get_active k;
          (m, k) \<leftarrow> mutex_unlock m k;
          k \<leftarrow> sched_set_status me STATUS_COND_BLOCKED k;
          cq \<leftarrow> thread_add_to_list cq me k;
          Some (cq, m, thread_yield_higher (irq_restore irqstate k)) }"

definition cond_wait_resume :: "mutex \<Rightarrow> kernel \<Rightarrow> (int call \<times> mutex \<times> kernel) option" where
  "cond_wait_resume m k = mutex_lock m k"

fun cond_signal_loop :: "bool \<Rightarrow> tid list \<Rightarrow> nat \<Rightarrow> kernel \<Rightarrow> (tid list \<times> nat \<times> kernel) option" where
  "cond_signal_loop broadcast [] min_prio k = Some ([], min_prio, k)"
| "cond_signal_loop broadcast (process # cq) min_prio k =
     do { k \<leftarrow> sched_set_status process STATUS_PENDING k;
          let min_prio = (if priority (tcb k process) < min_prio then priority (tcb k process) else min_prio);
          if broadcast then cond_signal_loop broadcast cq min_prio k else Some (cq, min_prio, k) }"

definition cond_signal_gen :: "bool \<Rightarrow> tid list \<Rightarrow> kernel \<Rightarrow> (tid list \<times> kernel) option" where
  "cond_signal_gen broadcast cq k =
     do { let (irqstate, k) = irq_disable k;
          (cq, min_prio, k) \<leftarrow> cond_signal_loop broadcast cq (THREAD_PRIORITY_MIN + 1) k;
          let k = irq_restore irqstate k;
          k \<leftarrow> (if min_prio \<le> THREAD_PRIORITY_MIN then sched_switch min_prio k else Some k);
          Some (cq, k) }"

definition cond_signal :: "tid list \<Rightarrow> kernel \<Rightarrow> (tid list \<times> kernel) option" where
  "cond_signal cq k = cond_signal_gen False cq k"

definition cond_broadcast :: "tid list \<Rightarrow> kernel \<Rightarrow> (tid list \<times> kernel) option" where
  "cond_broadcast cq k = cond_signal_gen True cq k"

section \<open>What the mutex operations do\<close>

fun waiters :: "mutex \<Rightarrow> tid list" where
  "waiters (MWaiters ws) = ws"
| "waiters _ = []"

definition mutex_wf :: "mutex \<Rightarrow> kernel \<Rightarrow> bool" where
  "mutex_wf m k \<longleftrightarrow> m \<noteq> MWaiters [] \<and> waiting STATUS_MUTEX_BLOCKED (waiters m) k"

lemma restore_disable [simp]: "irq_restore (irq_enabled k) (k\<lparr>irq_enabled := False\<rparr>) = k"
  by (simp add: irq_restore_def)

lemma mutex_lock_free: "mutex_lock_gen b MNull k = Some (Return 1, MLocked, k)"
  by (simp add: mutex_lock_gen_def irq_disable_def Let_def)

lemma mutex_lock_busy: "m \<noteq> MNull \<Longrightarrow> mutex_lock_gen False m k = Some (Return 0, m, k)"
  by (simp add: mutex_lock_gen_def irq_disable_def Let_def)

lemma mutex_lock_blocks:
  assumes "rq_inv k" "active_ready t k" "mutex_wf m k" "m \<noteq> MNull"
  shows "\<exists>k'. mutex_lock_gen True m k =
      Some (Blocks, MWaiters (insert_by_prio (\<lambda>x. priority (tcb k x)) t (waiters m)), k') \<and>
    rq_inv k' \<and> mutex_wf (MWaiters (insert_by_prio (\<lambda>x. priority (tcb k x)) t (waiters m))) k' \<and>
    tcb k' = (tcb k)(t := (tcb k t)\<lparr>status := STATUS_MUTEX_BLOCKED\<rparr>) \<and> pendsv k' \<and>
    irq_enabled k' = irq_enabled k"
proof -
  let ?k0 = "k\<lparr>irq_enabled := False\<rparr>" and ?ws = "waiters m"
  have off: "\<not> on_runqueue STATUS_MUTEX_BLOCKED" by (simp add: on_runqueue_iff)
  have "rq_inv ?k0" using assms(1) by (rule rq_inv_cong) simp_all
  moreover have "active_ready t ?k0" using assms(2) by (simp add: active_ready_def)
  ultimately obtain k1 where k1: "sched_set_status t STATUS_MUTEX_BLOCKED ?k0 = Some k1" "rq_inv k1"
    "tcb k1 = (tcb k)(t := (tcb k t)\<lparr>status := STATUS_MUTEX_BLOCKED\<rparr>)"
    using block_active [OF _ _ off] by (metis kernel.select_convs(8) kernel.surjective kernel.update_convs(10))
  have prio: "priority (tcb k1 x) = priority (tcb k x)" for x by (simp add: k1(3))
  have notin: "t \<notin> set ?ws"
    using assms(2,3) by (auto simp: mutex_wf_def waiting_def active_ready_def)
  have w1: "waiting STATUS_MUTEX_BLOCKED ?ws k1"
    by (rule waiting_cong [of _ _ k]) (use assms(3) notin in \<open>auto simp: mutex_wf_def k1(3)\<close>)
  have "priority (tcb k1 t) < SCHED_PRIO_LEVELS" using assms(2) by (simp add: active_ready_def prio)
  from waiting_add [OF w1 notin _ this, unfolded prio]
  have add: "thread_add_to_list ?ws t k1 = Some (insert_by_prio (\<lambda>x. priority (tcb k x)) t ?ws)"
    "waiting STATUS_MUTEX_BLOCKED (insert_by_prio (\<lambda>x. priority (tcb k x)) t ?ws) k1"
    by (simp_all add: k1(3))
  let ?k2 = "thread_yield_higher (irq_restore (irq_enabled k) k1)"
  have act: "sched_active_thread k = Some t" using assms(2) by (simp add: active_ready_def)
  have run: "mutex_lock_gen True m k = Some (Blocks, MWaiters (insert_by_prio (\<lambda>x. priority (tcb k x)) t ?ws), ?k2)"
    using assms(4) k1(1) add(1) act
    by (cases m) (simp_all add: mutex_lock_gen_def irq_disable_def Let_def thread_get_active_def)
  have "rq_inv ?k2" using k1(2) by (rule rq_inv_cong) (simp_all add: thread_yield_higher_def irq_restore_def)
  moreover have "waiting STATUS_MUTEX_BLOCKED (insert_by_prio (\<lambda>x. priority (tcb k x)) t ?ws) ?k2"
    using add(2) by (rule waiting_cong) (simp_all add: thread_yield_higher_def irq_restore_def)
  moreover have "insert_by_prio (\<lambda>x. priority (tcb k x)) t ?ws \<noteq> []"
    by (metis empty_iff insert_not_empty list.set(1) set_insert_by_prio)
  ultimately show ?thesis using run by (simp add: mutex_wf_def k1(3) thread_yield_higher_def irq_restore_def)
qed

lemma mutex_unlock_free:
  "m = MNull \<or> m = MLocked \<Longrightarrow> mutex_unlock m k = Some (MNull, k)"
  by (auto simp: mutex_unlock_def irq_disable_def Let_def)

lemma mutex_unlock_wakes:
  assumes "rq_inv k" "sched_active_thread k = Some a" "on_runqueue (status (tcb k a))"
    "mutex_wf (MWaiters (w # ws)) k"
  shows "\<exists>k'. mutex_unlock (MWaiters (w # ws)) k = Some (mutex_after_wake ws, k') \<and>
    rq_inv k' \<and> mutex_wf (mutex_after_wake ws) k' \<and>
    tcb k' = (tcb k)(w := (tcb k w)\<lparr>status := STATUS_PENDING\<rparr>) \<and>
    sched_runqueues k' = (sched_runqueues k)[priority (tcb k w) := sched_runqueues k ! priority (tcb k w) @ [w]] \<and>
    sched_active_thread k' = Some a \<and> irq_enabled k' = irq_enabled k \<and> irq_in k' = irq_in k \<and>
    (pendsv k' \<longleftrightarrow> pendsv k \<or> priority (tcb k w) < priority (tcb k a) \<and> \<not> irq_in k)"
proof -
  let ?k0 = "k\<lparr>irq_enabled := False\<rparr>"
  have w: "\<not> on_runqueue (status (tcb k w))" "priority (tcb k w) < SCHED_PRIO_LEVELS" "w \<notin> set ws"
    using assms(4) by (auto simp: mutex_wf_def waiting_def)
  have aw: "a \<noteq> w" using assms(3) w(1) by auto
  have "rq_inv ?k0" using assms(1) by (rule rq_inv_cong) simp_all
  from wake_waiter [OF this, of w] w obtain k1 where
    k1: "sched_set_status w STATUS_PENDING ?k0 = Some k1" "rq_inv k1"
      "tcb k1 = (tcb k)(w := (tcb k w)\<lparr>status := STATUS_PENDING\<rparr>)"
      "sched_runqueues k1 = (sched_runqueues k)[priority (tcb k w) := sched_runqueues k ! priority (tcb k w) @ [w]]"
      "sched_active_thread k1 = Some a" "irq_in k1 = irq_in k" "pendsv k1 = pendsv k"
    using assms(2) by auto
  let ?k2 = "irq_restore (irq_enabled k) k1"
  have act: "sched_active_thread ?k2 = Some a" using k1(5) by (simp add: irq_restore_def)
  define k3 where "k3 = (if priority (tcb k w) < priority (tcb k a)
    then (if irq_in k then ?k2\<lparr>sched_context_switch_request := True\<rparr> else ?k2\<lparr>pendsv := True\<rparr>) else ?k2)"
  have "sched_switch (priority (tcb k1 w)) ?k2 = Some k3"
    using assms(3) k1(6) aw unfolding sched_switch_cases [OF act] k3_def
    by (simp add: irq_restore_def k1(3))
  then have run: "mutex_unlock (MWaiters (w # ws)) k = Some (mutex_after_wake ws, k3)"
    using k1(1) by (simp add: mutex_unlock_def irq_disable_def list_remove_head_def Let_def)
  have rq: "rq_inv k3" using k1(2) by (rule rq_inv_cong) (simp_all add: k3_def irq_restore_def)
  have "waiting STATUS_MUTEX_BLOCKED ws k" using assms(4) by (auto simp: mutex_wf_def dest: waiting_tl)
  then have "waiting STATUS_MUTEX_BLOCKED ws k3"
    by (rule waiting_cong) (use w(3) in \<open>auto simp: k3_def irq_restore_def k1(3)\<close>)
  then have "mutex_wf (mutex_after_wake ws) k3"
    by (simp add: mutex_wf_def mutex_after_wake_def) (simp add: waiting_def)
  with run rq show ?thesis
    using k1 by (intro exI [of _ k3]) (simp add: k3_def irq_restore_def)
qed

lemma mutex_after_wake_sel [simp]:
  "waiters (mutex_after_wake ws) = ws" "mutex_after_wake ws \<noteq> MNull"
  by (simp_all add: mutex_after_wake_def)

lemma mutex_lock_queues:
  assumes "mutex_lock m0 k0 = Some (r, m, k)" "m0 \<noteq> MNull" "sched_active_thread k0 = Some t"
  shows "r = Blocks \<and> (\<exists>pr. m = MWaiters (insert_by_prio pr t (waiters m0)))"
  using assms
  by (cases m0) (auto simp: mutex_lock_def mutex_lock_gen_def irq_disable_def thread_get_active_def thread_add_to_list_def Let_def split: Option.bind_splits if_splits,
      (rule exI [of _ "\<lambda>_. 0"], simp)?)

lemma mutex_unlock_result:
  assumes "mutex_unlock m0 k0 = Some (m, k)"
  shows "m = (case waiters m0 of [] \<Rightarrow> MNull | w # ws \<Rightarrow> mutex_after_wake ws)"
  using assms by (cases m0) (auto simp: mutex_unlock_def irq_disable_def list_remove_head_def Let_def split: Option.bind_splits list.splits if_splits)

lemma mutex_lock_result:
  assumes "mutex_lock_gen b m k = Some (r, m', k')"
  shows "if m = MNull then r = Return 1 \<and> m' = MLocked else r \<noteq> Return 1 \<and> m' \<noteq> MNull"
  using assms by (cases m) (auto simp: mutex_lock_gen_def irq_disable_def Let_def split: if_splits bind_splits)

lemma mutex_unlock_and_sleep_result:
  assumes "mutex_unlock_and_sleep m0 k0 = Some (m, k)"
  shows "m = (case waiters m0 of [] \<Rightarrow> MNull | w # ws \<Rightarrow> mutex_after_wake ws)"
  using assms
  by (cases m0) (auto simp: mutex_unlock_and_sleep_def irq_disable_def list_remove_head_def Let_def split: Option.bind_splits list.splits if_splits)

lemma cond_wait_result:
  assumes "cond_wait cq m0 k0 = Some (cq', m, k)"
  shows "m = (case waiters m0 of [] \<Rightarrow> MNull | w # ws \<Rightarrow> mutex_after_wake ws)"
  using assms by (auto simp: cond_wait_def irq_disable_def Let_def dest: mutex_unlock_result split: Option.bind_splits)

section \<open>Mutual exclusion\<close>

text \<open>
  Threads using one mutex, with the set of the threads that hold it: a thread holds the mutex from the moment a lock operation returned 1 to it, or
  an unlock took it out of the queue (its blocked call will return 1), until it unlocks the mutex. The running thread may lock at any time, also if it holds the
  mutex already; only threads that hold the mutex unlock it. Between the operations the kernel changes in any way.
\<close>

record msys =
  mtx :: mutex
  holders :: "tid set"
  kern :: kernel

text \<open>What an unlock by the thread \<open>t\<close> does to the set: the first thread of the queue takes over.\<close>

definition hand_over :: "tid \<Rightarrow> mutex \<Rightarrow> tid set \<Rightarrow> tid set" where
  "hand_over t m H = (H - {t}) \<union> (case waiters m of [] \<Rightarrow> {} | w # ws \<Rightarrow> {w})"

inductive mutex_step :: "msys \<Rightarrow> msys \<Rightarrow> bool" where
  acquire: "\<lbrakk>sched_active_thread k = Some t; mutex_lock_gen b m k = Some (r, m', k')\<rbrakk> \<Longrightarrow>
    mutex_step \<lparr>mtx = m, holders = H, kern = k\<rparr>
      \<lparr>mtx = m', holders = (if r = Return 1 then insert t H else H), kern = k'\<rparr>"
| release: "\<lbrakk>t \<in> H; mutex_unlock m k = Some (m', k')\<rbrakk> \<Longrightarrow>
    mutex_step \<lparr>mtx = m, holders = H, kern = k\<rparr> \<lparr>mtx = m', holders = hand_over t m H, kern = k'\<rparr>"
| release_sleep: "\<lbrakk>t \<in> H; mutex_unlock_and_sleep m k = Some (m', k')\<rbrakk> \<Longrightarrow>
    mutex_step \<lparr>mtx = m, holders = H, kern = k\<rparr> \<lparr>mtx = m', holders = hand_over t m H, kern = k'\<rparr>"
| release_wait: "\<lbrakk>t \<in> H; cond_wait cq m k = Some (cq', m', k')\<rbrakk> \<Longrightarrow>
    mutex_step \<lparr>mtx = m, holders = H, kern = k\<rparr> \<lparr>mtx = m', holders = hand_over t m H, kern = k'\<rparr>"
| other: "mutex_step \<lparr>mtx = m, holders = H, kern = k\<rparr> \<lparr>mtx = m, holders = H, kern = k'\<rparr>"

definition msys_inv :: "msys \<Rightarrow> bool" where
  "msys_inv s \<longleftrightarrow> (if mtx s = MNull then holders s = {} else \<exists>h. holders s = {h})"

lemma msys_inv_release:
  assumes "msys_inv \<lparr>mtx = m, holders = H, kern = k\<rparr>" "t \<in> H" "m' = (case waiters m of [] \<Rightarrow> MNull | w # ws \<Rightarrow> mutex_after_wake ws)"
  shows "msys_inv \<lparr>mtx = m', holders = hand_over t m H, kern = k'\<rparr>"
  using assms by (auto simp: msys_inv_def hand_over_def split: if_splits list.splits)

lemma msys_inv_step: "mutex_step s s' \<Longrightarrow> msys_inv s \<Longrightarrow> msys_inv s'"
proof (induction rule: mutex_step.induct)
  case (acquire k t b m r m' k' H)
  show ?case using mutex_lock_result [OF acquire.hyps(2)] acquire.prems by (auto simp: msys_inv_def split: if_splits)
next
  case (release t H m k m' k')
  then show ?case using mutex_unlock_result by (blast intro: msys_inv_release)
next
  case (release_sleep t H m k m' k')
  then show ?case using mutex_unlock_and_sleep_result by (blast intro: msys_inv_release)
next
  case (release_wait t H cq m k cq' m' k')
  then show ?case using cond_wait_result by (blast intro: msys_inv_release)
next
  case (other m H k k')
  then show ?case by (cases "m = MNull") (simp_all add: msys_inv_def)
qed

lemma msys_inv_reachable: "mutex_step\<^sup>*\<^sup>* s s' \<Longrightarrow> msys_inv s \<Longrightarrow> msys_inv s'"
  by (induction rule: rtranclp_induct) (auto intro: msys_inv_step)

lemma msys_inv_init: "msys_inv \<lparr>mtx = mutex_init, holders = {}, kern = k\<rparr>"
  by (simp add: msys_inv_def mutex_init_def)

section \<open>Recursive locking\<close>

definition rlock_step :: "rmutex \<times> kernel \<Rightarrow> (rmutex \<times> kernel) option" where
  "rlock_step s = (case rmutex_lock (fst s) (snd s) of
     Some (Return r, rm, k) \<Rightarrow> if r = 1 then Some (rm, k) else None | _ \<Rightarrow> None)"

definition runlock_step :: "rmutex \<times> kernel \<Rightarrow> (rmutex \<times> kernel) option" where
  "runlock_step s = rmutex_unlock (fst s) (snd s)"

text \<open>The recursive mutex after \<open>n\<close> nested locks by the thread \<open>p\<close>.\<close>

definition rmutex_at :: "int \<Rightarrow> nat \<Rightarrow> rmutex" where
  "rmutex_at p n = (if n = 0 then rmutex_init
     else \<lparr>rm_mutex = MLocked, refcount = of_nat n, owner = p\<rparr>)"

lemma rlock_at: "sched_active_pid k = p \<Longrightarrow> rlock_step (rmutex_at p n, k) = Some (rmutex_at p (Suc n), k)"
  by (cases n) (simp_all add: rlock_step_def rmutex_lock_def rmutex_lock_gen_def mutex_trylock_def
      mutex_lock_free mutex_lock_busy rmutex_at_def rmutex_taken_def thread_getpid_def Let_def)

lemma of_nat_u16_zero_iff: "n < 65536 \<Longrightarrow> (of_nat n :: u16) = 0 \<longleftrightarrow> n = 0"
  by (simp add: word_of_nat_eq_0_iff nat_dvd_not_less) (auto dest: dvd_imp_le)

lemma runlock_at:
  assumes "sched_active_pid k = p" "Suc n < 65536"
  shows "runlock_step (rmutex_at p (Suc n), k) = Some (rmutex_at p n, k)"
proof -
  have "(of_nat (Suc n) :: u16) \<noteq> 0" using of_nat_u16_zero_iff [OF assms(2)] by simp
  then have "(1 + of_nat n :: u16) > 0" by (simp add: word_gt_0)
  moreover have "(of_nat n :: u16) = 0 \<longleftrightarrow> n = 0" using assms(2) by (simp add: of_nat_u16_zero_iff)
  ultimately show ?thesis
    using assms(1) mutex_unlock_free [of MLocked k]
    by (auto simp: runlock_step_def rmutex_unlock_def rmutex_at_def thread_getpid_def Let_def)
qed

lemma rlock_iter: "sched_active_pid k = p \<Longrightarrow> iter_opt rlock_step n (rmutex_at p 0, k) = Some (rmutex_at p n, k)"
  by (induction n) (simp_all add: iter_opt_Suc rlock_at del: iter_opt.simps(2))

lemma runlock_iter:
  "sched_active_pid k = p \<Longrightarrow> n < 65536 \<Longrightarrow> iter_opt runlock_step n (rmutex_at p n, k) = Some (rmutex_at p 0, k)"
  by (induction n) (simp_all add: runlock_at)

section \<open>Signalling\<close>

lemma cond_signal_loop_all:
  assumes "rq_inv k" "waiting STATUS_COND_BLOCKED cq k"
  shows "\<exists>mp' k'. cond_signal_loop True cq mp k = Some ([], mp', k') \<and> rq_inv k' \<and>
    (mp' \<le> THREAD_PRIORITY_MIN \<longrightarrow> mp \<le> THREAD_PRIORITY_MIN \<or> cq \<noteq> []) \<and>
    tcb k' = (\<lambda>t. if t \<in> set cq then (tcb k t)\<lparr>status := STATUS_PENDING\<rparr> else tcb k t) \<and>
    sched_active_thread k' = sched_active_thread k"
  using assms
proof (induction cq arbitrary: mp k)
  case (Cons w cq)
  have w: "\<not> on_runqueue (status (tcb k w))" "priority (tcb k w) < SCHED_PRIO_LEVELS" "w \<notin> set cq"
    using Cons.prems(2) by (auto simp: waiting_def)
  from wake_waiter [OF Cons.prems(1) w(1,2)] obtain k1 where
    k1: "sched_set_status w STATUS_PENDING k = Some k1" "rq_inv k1"
      "tcb k1 = (tcb k)(w := (tcb k w)\<lparr>status := STATUS_PENDING\<rparr>)"
      "sched_active_thread k1 = sched_active_thread k" by auto
  have "waiting STATUS_COND_BLOCKED cq k1"
    by (rule waiting_cong [OF waiting_tl [OF Cons.prems(2)]]) (use w(3) in \<open>auto simp: k1(3)\<close>)
  from Cons.IH [OF k1(2) this, of "if priority (tcb k1 w) < mp then priority (tcb k1 w) else mp"] k1 w
  show ?case by (auto simp: Let_def fun_eq_iff)
qed auto

text \<open>An unlock by the running thread, free or contended, leaves it ready and other waiting threads waiting.\<close>

lemma mutex_unlock_held:
  assumes "rq_inv k" "active_ready t k" "mutex_wf m k" "waiting STATUS_COND_BLOCKED cq k"
  shows "\<exists>k'. mutex_unlock m k = Some (case waiters m of [] \<Rightarrow> MNull | w # ws \<Rightarrow> mutex_after_wake ws, k') \<and>
    rq_inv k' \<and> active_ready t k' \<and> mutex_wf (case waiters m of [] \<Rightarrow> MNull | w # ws \<Rightarrow> mutex_after_wake ws) k' \<and>
    waiting STATUS_COND_BLOCKED cq k' \<and> (\<forall>x. priority (tcb k' x) = priority (tcb k x)) \<and> irq_enabled k' = irq_enabled k \<and>
    (\<forall>w ws. waiters m = w # ws \<longrightarrow> w \<noteq> t \<and> status (tcb k' w) = STATUS_PENDING) \<and>
    tcb k' t = tcb k t"
proof (cases "waiters m")
  case Nil
  then have "m = MNull \<or> m = MLocked" using assms(3) by (cases m) (auto simp: mutex_wf_def)
  moreover have "mutex_wf MNull k" by (simp add: mutex_wf_def waiting_def on_runqueue_iff)
  ultimately show ?thesis using assms Nil mutex_unlock_free [of m k] by simp
next
  case (Cons w ws)
  then have m: "m = MWaiters (w # ws)" by (cases m) auto
  have act: "sched_active_thread k = Some t" "on_runqueue (status (tcb k t))" using assms(2) by (auto simp: active_ready_def)
  have st: "status (tcb k w) = STATUS_MUTEX_BLOCKED" using assms(3) m by (simp add: mutex_wf_def waiting_def)
  then have w: "w \<noteq> t" "w \<notin> set cq" using act(2) assms(4) by (auto simp: on_runqueue_iff waiting_def)
  obtain k' where k': "mutex_unlock m k = Some (mutex_after_wake ws, k')" "rq_inv k'" "mutex_wf (mutex_after_wake ws) k'"
    "tcb k' = (tcb k)(w := (tcb k w)\<lparr>status := STATUS_PENDING\<rparr>)"
    "sched_runqueues k' = (sched_runqueues k)[priority (tcb k w) := sched_runqueues k ! priority (tcb k w) @ [w]]"
    "sched_active_thread k' = Some t" "irq_enabled k' = irq_enabled k"
    using mutex_unlock_wakes [OF assms(1) act, of w ws] assms(3) m by auto
  have "waiting STATUS_COND_BLOCKED cq k'" by (rule waiting_cong [OF assms(4)]) (use w(2) in \<open>auto simp: k'(4)\<close>)
  moreover have "active_ready t k'"
  proof -
    have p: "priority (tcb k t) < length (sched_runqueues k)" using assms(2) rq_invD(1) [OF assms(1)] by (simp add: active_ready_def)
    have "t \<in> set (sched_runqueues k ! priority (tcb k t))" using assms(2) rq_invD(3) [OF assms(1)] by (simp add: active_ready_def)
    then have "sched_runqueues k ! priority (tcb k t) \<noteq> []" by auto
    then have "hd (sched_runqueues k' ! priority (tcb k t)) = t"
      using assms(2) p unfolding k'(5) active_ready_def by (cases "priority (tcb k w) = priority (tcb k t)") (simp_all add: nth_list_update)
    then show ?thesis using assms(2) w(1) by (simp add: active_ready_def k'(4,6))
  qed
  ultimately show ?thesis using k' Cons w(1) by (auto simp: fun_upd_apply)
qed

lemma cond_wait_parks:
  assumes "rq_inv k" "active_ready t k" "mutex_wf m k" "waiting STATUS_COND_BLOCKED cq k"
  shows "\<exists>k'. cond_wait cq m k =
      Some (insert_by_prio (\<lambda>x. priority (tcb k x)) t cq, case waiters m of [] \<Rightarrow> MNull | w # ws \<Rightarrow> mutex_after_wake ws, k') \<and>
    rq_inv k' \<and> waiting STATUS_COND_BLOCKED (insert_by_prio (\<lambda>x. priority (tcb k x)) t cq) k' \<and>
    mutex_wf (case waiters m of [] \<Rightarrow> MNull | w # ws \<Rightarrow> mutex_after_wake ws) k' \<and>
    (\<forall>w ws. waiters m = w # ws \<longrightarrow> status (tcb k' w) = STATUS_PENDING) \<and>
    status (tcb k' t) = STATUS_COND_BLOCKED \<and> pendsv k' \<and> irq_enabled k' = irq_enabled k"
proof -
  let ?k0 = "k\<lparr>irq_enabled := False\<rparr>" and ?m = "case waiters m of [] \<Rightarrow> MNull | w # ws \<Rightarrow> mutex_after_wake ws"
  have off: "\<not> on_runqueue STATUS_COND_BLOCKED" by (simp add: on_runqueue_iff)
  have "rq_inv ?k0" using assms(1) by (rule rq_inv_cong) simp_all
  moreover have act0: "active_ready t ?k0" using assms(2) by (simp add: active_ready_def)
  moreover have "mutex_wf m ?k0" "waiting STATUS_COND_BLOCKED cq ?k0"
    using assms(3,4) by (auto simp: mutex_wf_def elim: waiting_cong)
  ultimately obtain k1 where k1: "mutex_unlock m ?k0 = Some (?m, k1)" "rq_inv k1" "active_ready t k1" "mutex_wf ?m k1"
      "waiting STATUS_COND_BLOCKED cq k1" "\<forall>x. priority (tcb k1 x) = priority (tcb k x)"
      "\<forall>w ws. waiters m = w # ws \<longrightarrow> w \<noteq> t \<and> status (tcb k1 w) = STATUS_PENDING"
    using mutex_unlock_held [of ?k0 t m cq] by auto
  obtain k2 where k2: "sched_set_status t STATUS_COND_BLOCKED k1 = Some k2" "rq_inv k2"
    "tcb k2 = (tcb k1)(t := (tcb k1 t)\<lparr>status := STATUS_COND_BLOCKED\<rparr>)"
    using block_active [OF k1(2,3) off] by auto
  have notin: "t \<notin> set cq" "t \<notin> set (waiters ?m)"
    using k1(3-5) by (auto simp: waiting_def active_ready_def mutex_wf_def)
  have w2: "waiting STATUS_COND_BLOCKED cq k2"
    by (rule waiting_cong [OF k1(5)]) (use notin in \<open>auto simp: k2(3)\<close>)
  have prio: "priority (tcb k2 x) = priority (tcb k x)" for x by (simp add: k2(3) k1(6))
  have "priority (tcb k2 t) < SCHED_PRIO_LEVELS" using assms(2) by (simp add: active_ready_def prio)
  from waiting_add [OF w2 notin(1) _ this, unfolded prio]
  have add: "thread_add_to_list cq t k2 = Some (insert_by_prio (\<lambda>x. priority (tcb k x)) t cq)"
    "waiting STATUS_COND_BLOCKED (insert_by_prio (\<lambda>x. priority (tcb k x)) t cq) k2"
    by (simp_all add: k2(3))
  let ?k3 = "thread_yield_higher (irq_restore (irq_enabled k) k2)"
  have run: "cond_wait cq m k = Some (insert_by_prio (\<lambda>x. priority (tcb k x)) t cq, ?m, ?k3)"
    using act0 k1(1) k2(1) add(1) by (simp add: cond_wait_def irq_disable_def thread_get_active_def active_ready_def Let_def)
  have "rq_inv ?k3" using k2(2) by (rule rq_inv_cong) (simp_all add: thread_yield_higher_def irq_restore_def)
  moreover have "waiting STATUS_COND_BLOCKED (insert_by_prio (\<lambda>x. priority (tcb k x)) t cq) ?k3"
    using add(2) by (rule waiting_cong) (simp_all add: thread_yield_higher_def irq_restore_def)
  moreover have "waiting STATUS_MUTEX_BLOCKED (waiters ?m) ?k3"
    by (rule waiting_cong [of _ _ k1]) (use k1(4) notin(2) in \<open>auto simp: mutex_wf_def k2(3) thread_yield_higher_def irq_restore_def\<close>)
  ultimately show ?thesis using run k1(4,7) by (simp add: k2(3) thread_yield_higher_def irq_restore_def mutex_wf_def)
qed

lemma switch_if:
  assumes "sched_active_thread k = Some a"
  shows "\<exists>k'. (if b then sched_switch p k else Some k) = Some k' \<and> sched_runqueues k' = sched_runqueues k \<and>
    runqueue_bitcache k' = runqueue_bitcache k \<and> tcb k' = tcb k \<and> msgs k' = msgs k"
  by (simp add: sched_switch_cases [OF assms])

lemma cond_broadcast_wakes:
  assumes "rq_inv k2" "waiting STATUS_COND_BLOCKED cq k2" "sched_active_thread k2 = Some a"
  shows "\<exists>k3. cond_broadcast cq k2 = Some ([], k3) \<and> rq_inv k3 \<and> (\<forall>u\<in>set cq. status (tcb k3 u) = STATUS_PENDING)"
proof -
  let ?k0 = "k2\<lparr>irq_enabled := False\<rparr>"
  have "rq_inv ?k0" using assms(1) by (rule rq_inv_cong) simp_all
  moreover have "waiting STATUS_COND_BLOCKED cq ?k0" using assms(2) by (rule waiting_cong) simp_all
  ultimately obtain mp k3 where k3: "cond_signal_loop True cq (THREAD_PRIORITY_MIN + 1) ?k0 = Some ([], mp, k3)"
    "rq_inv k3" "\<forall>u\<in>set cq. status (tcb k3 u) = STATUS_PENDING"
    "sched_active_thread k3 = Some a"
    using cond_signal_loop_all [of ?k0 cq "THREAD_PRIORITY_MIN + 1"] assms(3) by auto
  have act: "sched_active_thread (irq_restore (irq_enabled k2) k3) = Some a" using k3(4) by simp
  obtain k4 where k4: "cond_broadcast cq k2 = Some ([], k4)"
    "sched_runqueues k4 = sched_runqueues k3" "runqueue_bitcache k4 = runqueue_bitcache k3" "tcb k4 = tcb k3"
    using k3(1) switch_if [OF act, of "mp \<le> THREAD_PRIORITY_MIN" mp]
    by (auto simp: cond_broadcast_def cond_signal_gen_def irq_disable_def Let_def)
  have "rq_inv k4" by (rule rq_inv_cong [OF k3(2)]) (simp_all add: k4)
  with k4 k3(3) show ?thesis by auto
qed

lemma cond_signal_wakes:
  assumes "rq_inv k2" "waiting STATUS_COND_BLOCKED (w # ws) k2" "sched_active_thread k2 = Some a"
  shows "\<exists>k3. cond_signal (w # ws) k2 = Some (ws, k3) \<and> rq_inv k3 \<and>
    status (tcb k3 w) = STATUS_PENDING \<and> waiting STATUS_COND_BLOCKED ws k3"
proof -
  let ?k0 = "k2\<lparr>irq_enabled := False\<rparr>"
  have rq0: "rq_inv ?k0" using assms(1) by (rule rq_inv_cong) simp_all
  have w: "\<not> on_runqueue (status (tcb ?k0 w))" "priority (tcb ?k0 w) < SCHED_PRIO_LEVELS" "w \<notin> set ws"
    using assms(2) by (auto simp: waiting_def)
  from wake_waiter [OF rq0 w(1,2)] obtain k3 where k3: "sched_set_status w STATUS_PENDING ?k0 = Some k3" "rq_inv k3"
    "tcb k3 = (tcb k2)(w := (tcb k2 w)\<lparr>status := STATUS_PENDING\<rparr>)" "sched_active_thread k3 = Some a"
    using assms(3) by auto
  have act: "sched_active_thread (irq_restore (irq_enabled k2) k3) = Some a" using k3(4) by simp
  obtain k4 where k4: "cond_signal (w # ws) k2 = Some (ws, k4)"
    "sched_runqueues k4 = sched_runqueues k3" "runqueue_bitcache k4 = runqueue_bitcache k3" "tcb k4 = tcb k3"
    using k3(1) switch_if [OF act, of "min (priority (tcb k3 w)) (Suc THREAD_PRIORITY_MIN) \<le> THREAD_PRIORITY_MIN"
        "min (priority (tcb k3 w)) (Suc THREAD_PRIORITY_MIN)"]
    by (auto simp: cond_signal_def cond_signal_gen_def irq_disable_def Let_def min_def
        split: if_splits)
  have "rq_inv k4" by (rule rq_inv_cong [OF k3(2)]) (simp_all add: k4)
  moreover have "waiting STATUS_COND_BLOCKED ws k2" using assms(2) by (auto simp: dest: waiting_tl)
  then have "waiting STATUS_COND_BLOCKED ws k4"
    by (rule waiting_cong) (use w(3) in \<open>auto simp: k4 k3(3)\<close>)
  ultimately show ?thesis using k4 k3(3) by auto
qed

section \<open>Properties\<close>


lemma two_threads_active: "active_ready 7 two_threads"
  by (simp add: active_ready_def two_threads_def kernel_consts on_runqueue_iff)


text \<open>
  Locking: a free mutex is taken at once and nothing else changes; a taken one
  makes the non-blocking call return 0 without effect, and the blocking call puts the calling
  thread into the queue by priority, takes it off its run queue and asks for a context
  switch; run queues and mutex stay well-formed.
\<close>
theorem mutex_lock_outcomes:
  assumes "rq_inv k" and "active_ready t k" and "mutex_wf m k"
  shows "\<exists>r m' k'. mutex_lock_gen b m k = Some (r, m', k') \<and> rq_inv k' \<and> mutex_wf m' k' \<and>
    (m = MNull \<longrightarrow> r = Return 1 \<and> m' = MLocked \<and> k' = k) \<and>
    (m \<noteq> MNull \<and> \<not> b \<longrightarrow> r = Return 0 \<and> m' = m \<and> k' = k) \<and>
    (m \<noteq> MNull \<and> b \<longrightarrow> r = Blocks \<and> waiters m' = insert_by_prio (\<lambda>x. priority (tcb k x)) t (waiters m) \<and>
       status (tcb k' t) = STATUS_MUTEX_BLOCKED \<and> pendsv k')"
proof (cases "m = MNull \<or> \<not> b")
  case True
  have "mutex_wf MLocked k" using assms(3) by (simp add: mutex_wf_def waiting_def on_runqueue_iff)
  with True assms show ?thesis
    by (cases "m = MNull") (simp_all add: mutex_lock_free mutex_lock_busy)
next
  case False
  with mutex_lock_blocks [OF assms] show ?thesis by auto
qed

theorem mutex_lock_outcomes_witness:
  "\<exists>k'. mutex_lock_gen True MLocked two_threads = Some (Blocks, MWaiters [7], k') \<and>
     status (tcb k' 7) = STATUS_MUTEX_BLOCKED"
proof -
  have "mutex_wf MLocked two_threads" by (simp add: mutex_wf_def waiting_def on_runqueue_iff)
  from mutex_lock_outcomes [OF two_threads_rq_inv two_threads_active this, of True] obtain r m' k' where
    "mutex_lock_gen True MLocked two_threads = Some (r, m', k')" "r = Blocks" "waiters m' = [7]"
    "status (tcb k' 7) = STATUS_MUTEX_BLOCKED" by auto
  moreover from this have "m' = MWaiters [7]" by (cases m') auto
  ultimately show ?thesis by blast
qed

text \<open>
  Unlocking: without waiters the mutex becomes free and nothing else changes;
  with waiters it stays locked and is handed to the first one, which has the most urgent
  priority of all waiters, becomes ready at the end of its run queue, and preempts the
  caller exactly if it is more urgent.
\<close>
theorem mutex_unlock_hands_over:
  assumes "rq_inv k" and "active_ready t k" and "mutex_wf m k" and "\<not> irq_in k"
  shows "\<exists>m' k'. mutex_unlock m k = Some (m', k') \<and> rq_inv k' \<and> mutex_wf m' k' \<and>
    (waiters m = [] \<longrightarrow> m' = MNull \<and> k' = k) \<and>
    (\<forall>w ws. waiters m = w # ws \<longrightarrow> m' \<noteq> MNull \<and> waiters m' = ws \<and> status (tcb k' w) = STATUS_PENDING \<and>
       (\<forall>u\<in>set ws. priority (tcb k w) \<le> priority (tcb k u)) \<and>
       sched_runqueues k' ! priority (tcb k w) = sched_runqueues k ! priority (tcb k w) @ [w] \<and>
       (pendsv k' \<longleftrightarrow> pendsv k \<or> priority (tcb k w) < priority (tcb k t)))"
proof (cases "waiters m")
  case Nil
  then have m: "m = MNull \<or> m = MLocked" using assms(3) by (cases m) (auto simp: mutex_wf_def)
  have "mutex_wf MNull k" by (simp add: mutex_wf_def waiting_def on_runqueue_iff)
  then show ?thesis using Nil assms(1) mutex_unlock_free [OF m, of k] by auto
next
  case (Cons w ws)
  then have m: "m = MWaiters (w # ws)" by (cases m) auto
  have w: "priority (tcb k w) < SCHED_PRIO_LEVELS" "\<forall>u\<in>set ws. priority (tcb k w) \<le> priority (tcb k u)"
    using assms(3) m by (auto simp: mutex_wf_def waiting_def)
  have "priority (tcb k w) < length (sched_runqueues k)" using w(1) rq_invD(1) [OF assms(1)] by simp
  moreover obtain k' where "mutex_unlock (MWaiters (w # ws)) k = Some (mutex_after_wake ws, k')" "rq_inv k'"
    "mutex_wf (mutex_after_wake ws) k'" "tcb k' = (tcb k)(w := (tcb k w)\<lparr>status := STATUS_PENDING\<rparr>)"
    "sched_runqueues k' = (sched_runqueues k)[priority (tcb k w) := sched_runqueues k ! priority (tcb k w) @ [w]]"
    "pendsv k' \<longleftrightarrow> pendsv k \<or> priority (tcb k w) < priority (tcb k t)"
    using mutex_unlock_wakes [OF assms(1) _ _ assms(3) [unfolded m], of t] assms(2,4) by (auto simp: active_ready_def)
  ultimately show ?thesis using m w(2) by (intro exI [of _ "mutex_after_wake ws"] exI [of _ k']) simp
qed

text \<open>Thread 9 of \<^term>\<open>two_threads\<close> in some blocked state.\<close>

definition two_threads_in :: "thread_status \<Rightarrow> kernel" where
  "two_threads_in st = two_threads\<lparr>tcb := (tcb two_threads)(9 := (tcb two_threads 9)\<lparr>status := st\<rparr>)\<rparr>"

lemma two_threads_in_facts:
  assumes "\<not> on_runqueue st"
  shows "rq_inv (two_threads_in st)" "active_ready 7 (two_threads_in st)" "waiting st [9] (two_threads_in st)"
proof -
  have "9 \<notin> set (sched_runqueues two_threads ! q)" if "q < SCHED_PRIO_LEVELS" for q
    using that by (cases "q = 7") (simp_all add: two_threads_def kernel_consts)
  then show "rq_inv (two_threads_in st)"
    by (rule rq_inv_fresh [OF two_threads_rq_inv]) (use assms in \<open>auto simp: two_threads_in_def\<close>)
  show "active_ready 7 (two_threads_in st)"
    using two_threads_active by (simp add: active_ready_def two_threads_in_def)
  show "waiting st [9] (two_threads_in st)"
    using assms by (simp add: waiting_def two_threads_in_def) (simp add: two_threads_def kernel_consts)
qed

theorem mutex_unlock_hands_over_witness:
  "\<exists>k'. mutex_unlock (MWaiters [9]) (two_threads_in STATUS_MUTEX_BLOCKED) = Some (MLocked, k') \<and> pendsv k'"
proof -
  let ?k = "two_threads_in STATUS_MUTEX_BLOCKED"
  have off: "\<not> on_runqueue STATUS_MUTEX_BLOCKED" by (simp add: on_runqueue_iff)
  note f = two_threads_in_facts [OF off]
  have "mutex_wf (MWaiters [9]) ?k" "\<not> irq_in ?k"
    using f(3) by (simp_all add: mutex_wf_def) (simp add: two_threads_in_def two_threads_def boot_kernel_def)
  from mutex_unlock_hands_over [OF f(1,2) this] obtain m' k' where
    k': "mutex_unlock (MWaiters [9]) ?k = Some (m', k')" "m' \<noteq> MNull" "waiters m' = []" "mutex_wf m' k'"
      "pendsv k' \<longleftrightarrow> pendsv ?k \<or> priority (tcb ?k 9) < priority (tcb ?k 7)" by auto
  have "m' = MLocked" using k'(2-4) by (cases m') (auto simp: mutex_wf_def)
  moreover have "pendsv k'" using k'(5) by (simp add: two_threads_in_def two_threads_def)
  ultimately show ?thesis using k'(1) by blast
qed

text \<open>
  Recursive mutexes: a thread may lock \<open>n\<close> times in a row for any \<open>n\<close> below 65536
  without ever blocking, the holder's \<open>n\<close> unlocks bring back the free mutex, another thread's
  try-lock in between returns 0 without effect, and an unlock of the free mutex fails the
  assertion. At 65536 the 16-bit counter wraps to 0: the holder then cannot unlock at all.
\<close>
theorem rmutex_nesting:
  assumes "sched_active_pid k = p" and "p \<noteq> KERNEL_PID_UNDEF" and "n < 65536"
  shows "\<exists>rm. iter_opt rlock_step n (rmutex_at p 0, k) = Some (rm, k) \<and>
    iter_opt runlock_step n (rm, k) = Some (rmutex_at p 0, k) \<and>
    (0 < n \<longrightarrow> (\<forall>k'. sched_active_pid k' \<noteq> p \<longrightarrow> rmutex_trylock rm k' = Some (Return 0, rm, k'))) \<and>
    rmutex_unlock (rmutex_at p 0) k = None \<and>
    (\<exists>rm'. iter_opt rlock_step 65536 (rmutex_at p 0, k) = Some (rm', k) \<and> rm_mutex rm' = MLocked \<and>
       rmutex_unlock rm' k = None)"
proof -
  have "rmutex_trylock (rmutex_at p n) k' = Some (Return 0, rmutex_at p n, k')"
    if "0 < n" "sched_active_pid k' \<noteq> p" for k'
    using that by (simp add: rmutex_trylock_def rmutex_lock_gen_def mutex_trylock_def mutex_lock_busy
        rmutex_at_def thread_getpid_def)
  moreover have "rmutex_unlock (rmutex_at p 0) k = None" by (simp add: rmutex_unlock_def rmutex_at_def)
  moreover have "rmutex_unlock (rmutex_at p 65536) k = None" "rm_mutex (rmutex_at p 65536) = MLocked"
    by (simp_all add: rmutex_unlock_def rmutex_at_def)
  ultimately show ?thesis using rlock_iter [OF assms(1)] runlock_iter [OF assms(1,3)] by blast
qed

theorem rmutex_nesting_witness:
  "\<exists>rm. iter_opt rlock_step 3 (rmutex_at 1 0, two_threads) = Some (rm, two_threads) \<and>
     iter_opt runlock_step 3 (rm, two_threads) = Some (rmutex_at 1 0, two_threads)"
proof -
  have "sched_active_pid two_threads = 1" by (simp add: two_threads_def)
  from rmutex_nesting [OF this, of 3] show ?thesis by (auto simp: kernel_consts)
qed

text \<open>
  (C33) Condition variables lose no wake-up: \<open>cond_wait\<close> of the running thread, called with the mutex locked, unlocks it and queues the thread by priority in one atomic step; if
  other threads wait for the mutex, it goes to the first of them, which becomes ready. From then on a broadcast makes every waiting thread ready and empties the queue, a
  signal exactly the first, most urgent one, and the other waiters stay blocked.
\<close>
theorem cond_no_lost_wakeup:
  assumes "rq_inv k" and "active_ready t k" and "mutex_wf m k" and "m \<noteq> MNull" and "waiting STATUS_COND_BLOCKED cq k"
  shows "\<exists>cq' m' k'. cond_wait cq m k = Some (cq', m', k') \<and> rq_inv k' \<and> mutex_wf m' k' \<and>
    (case waiters m of [] \<Rightarrow> m' = MNull | w # ws \<Rightarrow> m' \<noteq> MNull \<and> waiters m' = ws \<and> status (tcb k' w) = STATUS_PENDING) \<and>
    waiting STATUS_COND_BLOCKED cq' k' \<and> cq' = insert_by_prio (\<lambda>x. priority (tcb k x)) t cq \<and>
    (\<forall>k2 a. rq_inv k2 \<and> waiting STATUS_COND_BLOCKED cq' k2 \<and> sched_active_thread k2 = Some a \<longrightarrow>
       (\<exists>k3. cond_broadcast cq' k2 = Some ([], k3) \<and> rq_inv k3 \<and>
          (\<forall>u\<in>set cq'. status (tcb k3 u) = STATUS_PENDING)) \<and>
       (\<exists>k3. cond_signal cq' k2 = Some (tl cq', k3) \<and> rq_inv k3 \<and>
          status (tcb k3 (hd cq')) = STATUS_PENDING \<and> waiting STATUS_COND_BLOCKED (tl cq') k3))"
proof -
  let ?cq = "insert_by_prio (\<lambda>x. priority (tcb k x)) t cq" and ?m = "case waiters m of [] \<Rightarrow> MNull | w # ws \<Rightarrow> mutex_after_wake ws"
  obtain w ws where ws: "?cq = w # ws" by (metis list.exhaust insert_not_empty list.set(1) set_insert_by_prio)
  have bc: "\<exists>k3. cond_broadcast ?cq k2 = Some ([], k3) \<and> rq_inv k3 \<and> (\<forall>u\<in>set ?cq. status (tcb k3 u) = STATUS_PENDING)"
    if "rq_inv k2" "waiting STATUS_COND_BLOCKED ?cq k2" "sched_active_thread k2 = Some a" for k2 a
    by (rule cond_broadcast_wakes [OF that])
  have sg: "\<exists>k3. cond_signal ?cq k2 = Some (tl ?cq, k3) \<and> rq_inv k3 \<and>
      status (tcb k3 (hd ?cq)) = STATUS_PENDING \<and> waiting STATUS_COND_BLOCKED (tl ?cq) k3"
    if "rq_inv k2" "waiting STATUS_COND_BLOCKED ?cq k2" "sched_active_thread k2 = Some a" for k2 a
    using cond_signal_wakes [of k2 w ws] that by (simp add: ws)
  obtain k' where k': "cond_wait cq m k = Some (?cq, ?m, k')" "rq_inv k'" "waiting STATUS_COND_BLOCKED ?cq k'" "mutex_wf ?m k'"
      "\<forall>w ws. waiters m = w # ws \<longrightarrow> status (tcb k' w) = STATUS_PENDING"
    using cond_wait_parks [OF assms(1-3,5)] by blast
  moreover have "case waiters m of [] \<Rightarrow> ?m = MNull | w # ws \<Rightarrow> ?m \<noteq> MNull \<and> waiters ?m = ws \<and> status (tcb k' w) = STATUS_PENDING"
    using k'(5) by (auto split: list.splits)
  ultimately show ?thesis using bc sg by (intro exI [of _ ?cq] exI [of _ ?m] exI [of _ k']) simp
qed

theorem cond_no_lost_wakeup_witness:
  "\<exists>cq' m' k'. cond_wait [] (MWaiters [9]) (two_threads_in STATUS_MUTEX_BLOCKED) = Some (cq', m', k') \<and>
     m' \<noteq> MNull \<and> waiters m' = [] \<and> status (tcb k' 9) = STATUS_PENDING \<and> cq' = [7]"
proof -
  have off: "\<not> on_runqueue STATUS_MUTEX_BLOCKED" by (simp add: on_runqueue_iff)
  note f = two_threads_in_facts [OF off]
  have "mutex_wf (MWaiters [9]) (two_threads_in STATUS_MUTEX_BLOCKED)" using f(3) by (simp add: mutex_wf_def)
  moreover have "waiting STATUS_COND_BLOCKED [] (two_threads_in STATUS_MUTEX_BLOCKED)" by (simp add: waiting_def on_runqueue_iff)
  ultimately show ?thesis using cond_no_lost_wakeup [OF f(1,2), of "MWaiters [9]" "[]"] by auto
qed

end
