(* ===== verification/Sema.thy ===== *)
theory Sema
  imports Mutex
begin

text \<open>
  Semaphores (sys/sema/sema.c, sys/include/sema.h) on top of the mutexes of the kernel: a counter and a mutex that is locked while the counter is zero. The operations wait,
  try-wait, post, create and destroy are modelled; waiting with a timeout is not. As in \<^emph>\<open>Mutex\<close>, a call that blocks ends with \<open>Blocks\<close>, and \<open>sema_run True\<close> is
  what follows when the thread runs again. The error numbers are the constructors of \<open>sema_result\<close>. The part between \<open>irq_disable\<close> and
  \<open>irq_restore\<close> is atomic; the step relation below puts the steps of any number of threads between these parts.
\<close>

section \<open>The program\<close>

datatype sema_state = SEMA_OK | SEMA_DESTROY

record sema =
  svalue :: u32
  sstate :: sema_state
  smutex :: mutex

datatype sema_result = SOk | ECANCELED | EAGAIN | ETIMEDOUT | EOVERFLOW

definition sema_create :: "u32 \<Rightarrow> kernel \<Rightarrow> (unit call \<times> sema \<times> kernel) option" where
  "sema_create v k =
     (if v = 0 then
        do { (r, m, k) \<leftarrow> mutex_lock mutex_init k;
             Some (case r of Return _ \<Rightarrow> Return () | Blocks \<Rightarrow> Blocks, \<lparr>svalue = v, sstate = SEMA_OK, smutex = m\<rparr>, k) }
      else Some (Return (), \<lparr>svalue = v, sstate = SEMA_OK, smutex = mutex_init\<rparr>, k))"

definition sema_destroy :: "sema \<Rightarrow> kernel \<Rightarrow> (sema \<times> kernel) option" where
  "sema_destroy s k =
     do { let s = s\<lparr>sstate := SEMA_DESTROY\<rparr>;
          (m, k) \<leftarrow> mutex_unlock (smutex s) k;
          Some (s\<lparr>smutex := m\<rparr>, k) }"

text \<open>What a waiting thread does next: lock the mutex, return, or unlock the mutex and then return.\<close>

datatype sema_next = Lock | Done sema_result | Unlock_and sema_result

text \<open>The test of the loop and what follows the loop, with interrupts disabled.\<close>

definition sema_take :: "bool \<Rightarrow> bool \<Rightarrow> sema \<Rightarrow> sema_next \<times> sema" where
  "sema_take block did_block s =
     (if svalue s = 0 \<and> block then (Lock, s)
      else if svalue s = 0 then (Done (if did_block then ETIMEDOUT else EAGAIN), s)
      else
        (let s = s\<lparr>svalue := svalue s - 1\<rparr>
         in if did_block \<and> svalue s > 0 then (Unlock_and SOk, s) else (Done SOk, s)))"

definition sema_unlock :: "sema_result \<Rightarrow> sema \<Rightarrow> kernel \<Rightarrow> (sema_result call \<times> sema \<times> kernel) option" where
  "sema_unlock r s k = do { (m, k) \<leftarrow> mutex_unlock (smutex s) k; Some (Return r, s\<lparr>smutex := m\<rparr>, k) }"

text \<open>\<open>_sema_wait\<close> without timeout from the loop on; \<open>woken\<close> says that the mutex has just been locked.\<close>

partial_function (option) sema_run :: "bool \<Rightarrow> bool \<Rightarrow> sema \<Rightarrow> kernel \<Rightarrow> (sema_result call \<times> sema \<times> kernel) option" where
  "sema_run woken block s k =
     (if woken \<and> sstate s \<noteq> SEMA_OK then sema_unlock ECANCELED s k
      else
        (case sema_take block block s of
           (Lock, s) \<Rightarrow>
             do { (r, m, k) \<leftarrow> mutex_lock (smutex s) k;
                  let s = s\<lparr>smutex := m\<rparr>;
                  case r of Blocks \<Rightarrow> Some (Blocks, s, k) | Return _ \<Rightarrow> sema_run True block s k }
         | (Done r, s) \<Rightarrow> Some (Return r, s, k)
         | (Unlock_and r, s) \<Rightarrow> sema_unlock r s k))"

definition sema_wait_gen :: "bool \<Rightarrow> sema \<Rightarrow> kernel \<Rightarrow> (sema_result call \<times> sema \<times> kernel) option" where
  "sema_wait_gen block s k = (if sstate s \<noteq> SEMA_OK then Some (Return ECANCELED, s, k) else sema_run False block s k)"

definition sema_wait :: "sema \<Rightarrow> kernel \<Rightarrow> (sema_result call \<times> sema \<times> kernel) option" where
  "sema_wait s k = sema_wait_gen True s k"

definition sema_try_wait :: "sema \<Rightarrow> kernel \<Rightarrow> (sema_result call \<times> sema \<times> kernel) option" where
  "sema_try_wait s k = sema_wait_gen False s k"

text \<open>The critical section of \<open>sema_post\<close>, and the whole operation.\<close>

definition sema_count :: "sema \<Rightarrow> sema_next \<times> sema" where
  "sema_count s =
     (if svalue s = - 1 then (Done EOVERFLOW, s)
      else (if svalue s = 0 then Unlock_and SOk else Done SOk, s\<lparr>svalue := svalue s + 1\<rparr>))"

definition sema_post :: "sema \<Rightarrow> kernel \<Rightarrow> (sema_result call \<times> sema \<times> kernel) option" where
  "sema_post s k =
     (case sema_count s of
        (Unlock_and r, s) \<Rightarrow> sema_unlock r s k
      | (Done r, s) \<Rightarrow> Some (Return r, s, k)
      | (Lock, s) \<Rightarrow> None)"

section \<open>Calls on their own\<close>

text \<open>The two invariants of a semaphore that nobody is operating on.\<close>

definition sema_wf :: "sema \<Rightarrow> kernel \<Rightarrow> bool" where
  "sema_wf s k \<longleftrightarrow> mutex_wf (smutex s) k \<and> (svalue s \<noteq> 0 \<or> sstate s \<noteq> SEMA_OK \<longrightarrow> smutex s = MNull)"

text \<open>
  Waiting, called by the running thread while no other operation is under way: on a destroyed semaphore it fails at once; with a positive value it takes one and returns; with the
  value zero it puts the thread into the queue of the mutex, even if the mutex was free. Trying never blocks: it takes one or says that there is none.
\<close>

lemma sema_wait_destroyed: "sstate s \<noteq> SEMA_OK \<Longrightarrow> sema_wait_gen block s k = Some (Return ECANCELED, s, k)"
  by (simp add: sema_wait_gen_def)

lemma sema_wait_takes:
  assumes "sema_wf s k" "sstate s = SEMA_OK" "svalue s \<noteq> 0"
  shows "sema_wait_gen block s k = Some (Return SOk, s\<lparr>svalue := svalue s - 1\<rparr>, k)"
proof -
  have m: "smutex s = MNull" using assms by (simp add: sema_wf_def)
  then show ?thesis using assms(2,3) mutex_unlock_free [of MNull k]
    by (auto simp: sema_wait_gen_def sema_run.simps [of False] sema_take_def sema_unlock_def Let_def)
qed

lemma sema_try_wait_empty: "sstate s = SEMA_OK \<Longrightarrow> svalue s = 0 \<Longrightarrow> sema_try_wait s k = Some (Return EAGAIN, s, k)"
  by (simp add: sema_try_wait_def sema_wait_gen_def sema_run.simps [of False] sema_take_def)

lemma sema_run_queues:
  assumes "rq_inv k" "active_ready t k" "mutex_wf (smutex s) k" "smutex s \<noteq> MNull" "sstate s = SEMA_OK" "svalue s = 0"
  shows "\<exists>s' k'. sema_run woken True s k = Some (Blocks, s', k') \<and> t \<in> set (waiters (smutex s')) \<and>
     status (tcb k' t) = STATUS_MUTEX_BLOCKED \<and> rq_inv k' \<and> sema_wf s' k' \<and> svalue s' = 0"
  using mutex_lock_blocks [OF assms(1-4)] assms(5,6)
  by (auto simp: sema_run.simps [of woken] sema_take_def mutex_lock_def sema_wf_def)

lemma sema_wait_blocks:
  assumes "rq_inv k" "active_ready t k" "sema_wf s k" "sstate s = SEMA_OK" "svalue s = 0"
  shows "\<exists>s' k'. sema_wait s k = Some (Blocks, s', k') \<and> t \<in> set (waiters (smutex s')) \<and>
     status (tcb k' t) = STATUS_MUTEX_BLOCKED \<and> rq_inv k' \<and> sema_wf s' k' \<and> svalue s' = 0"
proof (cases "smutex s = MNull")
  case True
  let ?s = "s\<lparr>smutex := MLocked\<rparr>"
  have "sema_wait s k = sema_run True True ?s k"
    using assms(4,5) True by (simp add: sema_wait_def sema_wait_gen_def sema_run.simps [of False] sema_take_def mutex_lock_def mutex_lock_free)
  moreover have "mutex_wf MLocked k" by (simp add: mutex_wf_def waiting_def on_runqueue_iff)
  ultimately show ?thesis using sema_run_queues [OF assms(1,2), of ?s True] assms(4,5) by simp
next
  case False
  then show ?thesis using sema_run_queues [OF assms(1,2), of s False] assms by (simp add: sema_wf_def sema_wait_def sema_wait_gen_def)
qed

section \<open>Any number of threads\<close>

text \<open>
  Where a thread is in its operation: about to test the value (without or with waiting), about to lock the mutex, in the queue of the mutex, past the lock, or about to unlock the mutex (with the part of the
  operation that it has done before). \<open>taken\<close> and \<open>posted\<close> count successful waits and posts.
\<close>

datatype phase = Idle | Trying | Taking | Locking | Queued | Woken | Unlocking

record semasys =
  sem :: sema
  phase :: "tid \<Rightarrow> phase"
  skern :: kernel
  taken :: nat
  posted :: nat

definition after_take :: "sema_next \<Rightarrow> phase" where
  "after_take r = (case r of Lock \<Rightarrow> Locking | Done _ \<Rightarrow> Idle | Unlock_and _ \<Rightarrow> Unlocking)"

definition success :: "sema_next \<Rightarrow> nat" where
  "success r = (if r = Done SOk \<or> r = Unlock_and SOk then 1 else 0)"

text \<open>The thread that an unlock of the mutex wakes is past the lock.\<close>

definition wake_first :: "mutex \<Rightarrow> (tid \<Rightarrow> phase) \<Rightarrow> tid \<Rightarrow> phase" where
  "wake_first m ph = (case waiters m of [] \<Rightarrow> ph | w # _ \<Rightarrow> ph(w := Woken))"

inductive sema_step :: "semasys \<Rightarrow> semasys \<Rightarrow> bool" where
  enter: "phase s t = Idle \<Longrightarrow> sstate (sem s) = SEMA_OK \<Longrightarrow> sema_step s (s\<lparr>phase := (phase s)(t := Taking)\<rparr>)"
| take: "phase s t = Taking \<Longrightarrow> sema_take True True (sem s) = (r, x) \<Longrightarrow>
    sema_step s (s\<lparr>sem := x, phase := (phase s)(t := after_take r), taken := taken s + success r\<rparr>)"
| try_enter: "phase s t = Idle \<Longrightarrow> sstate (sem s) = SEMA_OK \<Longrightarrow> sema_step s (s\<lparr>phase := (phase s)(t := Trying)\<rparr>)"
| try_take: "phase s t = Trying \<Longrightarrow> sema_take False False (sem s) = (r, x) \<Longrightarrow>
    sema_step s (s\<lparr>sem := x, phase := (phase s)(t := after_take r), taken := taken s + success r\<rparr>)"
| lock: "phase s t = Locking \<Longrightarrow> sched_active_thread (skern s) = Some t \<Longrightarrow> mutex_lock (smutex (sem s)) (skern s) = Some (r, m, k) \<Longrightarrow>
    sema_step s (s\<lparr>sem := (sem s)\<lparr>smutex := m\<rparr>, phase := (phase s)(t := if r = Blocks then Queued else Woken), skern := k\<rparr>)"
| woken: "phase s t = Woken \<Longrightarrow>
    sema_step s (s\<lparr>phase := (phase s)(t := if sstate (sem s) \<noteq> SEMA_OK then Unlocking else Taking)\<rparr>)"
| unlock: "phase s t = Unlocking \<Longrightarrow> mutex_unlock (smutex (sem s)) (skern s) = Some (m, k) \<Longrightarrow>
    sema_step s (s\<lparr>sem := (sem s)\<lparr>smutex := m\<rparr>, phase := wake_first (smutex (sem s)) ((phase s)(t := Idle)), skern := k\<rparr>)"
| post: "phase s t = Idle \<Longrightarrow> sema_count (sem s) = (r, x) \<Longrightarrow>
    sema_step s (s\<lparr>sem := x, phase := (phase s)(t := after_take r), posted := posted s + success r\<rparr>)"
| destroy: "phase s t = Idle \<Longrightarrow>
    sema_step s (s\<lparr>sem := (sem s)\<lparr>sstate := SEMA_DESTROY\<rparr>, phase := (phase s)(t := Unlocking)\<rparr>)"
| other: "sema_step s (s\<lparr>skern := k\<rparr>)"

text \<open>
  The invariant. The queue holds the threads in phase \<open>Queued\<close>. While the value is positive or the semaphore is destroyed, the mutex is free, or a thread is past the lock
  or about to unlock it and will look at the value or hand the mutex on.
\<close>

definition queue_inv :: "mutex \<Rightarrow> (tid \<Rightarrow> phase) \<Rightarrow> bool" where
  "queue_inv m ph \<longleftrightarrow> m \<noteq> MWaiters [] \<and> distinct (waiters m) \<and> (\<forall>t. ph t = Queued \<longleftrightarrow> t \<in> set (waiters m))"

definition in_flight :: "(tid \<Rightarrow> phase) \<Rightarrow> bool" where
  "in_flight ph \<longleftrightarrow> (\<exists>t. ph t = Woken \<or> ph t = Unlocking)"

definition wake_inv :: "sema \<Rightarrow> (tid \<Rightarrow> phase) \<Rightarrow> bool" where
  "wake_inv x ph \<longleftrightarrow> (svalue x \<noteq> 0 \<longrightarrow> smutex x = MNull \<or> in_flight ph \<or> (\<exists>t. ph t = Taking)) \<and>
     (sstate x \<noteq> SEMA_OK \<longrightarrow> smutex x = MNull \<or> in_flight ph)"

definition sema_inv :: "nat \<Rightarrow> semasys \<Rightarrow> bool" where
  "sema_inv v s \<longleftrightarrow> queue_inv (smutex (sem s)) (phase s) \<and> wake_inv (sem s) (phase s) \<and> taken s + unat (svalue (sem s)) = v + posted s"

lemma queue_inv_upd: "queue_inv m ph \<Longrightarrow> ph t \<noteq> Queued \<Longrightarrow> p \<noteq> Queued \<Longrightarrow> queue_inv m (ph(t := p))"
  unfolding queue_inv_def by (metis fun_upd_apply)

lemma in_flight_upd [simp]: "in_flight (ph(t := Woken))" "in_flight (ph(t := Unlocking))"
  by (auto simp: in_flight_def)

lemma in_flight_keep: "in_flight ph \<Longrightarrow> ph t \<noteq> Woken \<Longrightarrow> ph t \<noteq> Unlocking \<Longrightarrow> in_flight (ph(t := p))"
  unfolding in_flight_def by (metis fun_upd_apply)

lemma wake_inv_flight: "in_flight ph \<Longrightarrow> wake_inv x ph"
  by (simp add: wake_inv_def)

lemma wake_inv_upd:
  "wake_inv x ph \<Longrightarrow> ph t = Idle \<or> ph t = Trying \<or> ph t = Locking \<Longrightarrow> wake_inv x (ph(t := p))"
  unfolding wake_inv_def using in_flight_keep [of ph t p] by (metis fun_upd_apply phase.distinct)

lemma sema_inv_take:
  assumes inv: "sema_inv v s" and t: "phase s t = Taking" and x: "sema_take True True (sem s) = (r, x)"
  shows "sema_inv v (s\<lparr>sem := x, phase := (phase s)(t := after_take r), taken := taken s + success r\<rparr>)"
proof -
  have q: "queue_inv (smutex (sem s)) ((phase s)(t := p))" if "p \<noteq> Queued" for p
    using inv t that by (intro queue_inv_upd) (simp_all add: sema_inv_def)
  have f: "in_flight (phase s) \<Longrightarrow> in_flight ((phase s)(t := p))" for p using t by (intro in_flight_keep) simp_all
  show ?thesis
  proof (cases "svalue (sem s) = 0")
    case True
    then have "r = Lock" "x = sem s" using x by (auto simp: sema_take_def)
    then show ?thesis using inv q [of Locking] f [of Locking] True by (auto simp: sema_inv_def wake_inv_def after_take_def success_def)
  next
    case False
    let ?v = "svalue (sem s) - 1"
    have u: "unat (svalue (sem s)) = Suc (unat ?v)" using False by (simp add: unat_minus_one unat_gt_0)
    show ?thesis
    proof (cases "?v = 0")
      case True
      then have "x = (sem s)\<lparr>svalue := 0\<rparr>" "r = Done SOk" using x False by (auto simp: sema_take_def Let_def split: if_splits)
      then show ?thesis using inv q [of Idle] f [of Idle] u True by (auto simp: sema_inv_def wake_inv_def after_take_def success_def)
    next
      case nz: False
      then have "?v > 0" by (simp add: word_gt_0)
      then have "x = (sem s)\<lparr>svalue := ?v\<rparr>" "r = Unlock_and SOk" using x False by (auto simp: sema_take_def Let_def split: if_splits)
      then show ?thesis using inv q [of Unlocking] u by (simp add: sema_inv_def wake_inv_flight after_take_def success_def)
    qed
  qed
qed

lemma sema_inv_try:
  assumes inv: "sema_inv v s" and t: "phase s t = Trying" and x: "sema_take False False (sem s) = (r, x)"
  shows "sema_inv v (s\<lparr>sem := x, phase := (phase s)(t := after_take r), taken := taken s + success r\<rparr>)"
proof -
  have q: "queue_inv (smutex (sem s)) ((phase s)(t := Idle))" using inv t by (intro queue_inv_upd) (simp_all add: sema_inv_def)
  have w: "wake_inv (sem s) ((phase s)(t := Idle))" using inv t by (intro wake_inv_upd) (simp_all add: sema_inv_def)
  show ?thesis
  proof (cases "svalue (sem s) = 0")
    case True
    then have "r = Done EAGAIN" "x = sem s" using x by (auto simp: sema_take_def)
    then show ?thesis using inv q w by (simp add: sema_inv_def success_def after_take_def)
  next
    case False
    have "unat (svalue (sem s)) = Suc (unat (svalue (sem s) - 1))" using False by (simp add: unat_minus_one unat_gt_0)
    moreover have "x = (sem s)\<lparr>svalue := svalue (sem s) - 1\<rparr>" "r = Done SOk" using x False by (auto simp: sema_take_def Let_def)
    ultimately show ?thesis using inv q w False by (auto simp: sema_inv_def wake_inv_def success_def after_take_def)
  qed
qed

lemma queue_inv_lock:
  assumes "queue_inv m ph" "ph t \<noteq> Queued"
  shows "queue_inv (MWaiters (insert_by_prio pr t (waiters m))) (ph(t := Queued))"
proof -
  have "t \<notin> set (waiters m)" "distinct (waiters m)" using assms by (auto simp: queue_inv_def)
  then have "distinct (insert_by_prio pr t (waiters m))" by (simp add: distinct_insert_by_prio)
  moreover have "insert_by_prio pr t (waiters m) \<noteq> []" by (metis empty_iff insert_not_empty list.set(1) set_insert_by_prio)
  ultimately show ?thesis using assms by (simp add: queue_inv_def)
qed

lemma sema_inv_lock:
  assumes inv: "sema_inv v s" and t: "phase s t = Locking" and act: "sched_active_thread (skern s) = Some t"
    and l: "mutex_lock (smutex (sem s)) (skern s) = Some (r, m, k)"
  shows "sema_inv v (s\<lparr>sem := (sem s)\<lparr>smutex := m\<rparr>, phase := (phase s)(t := if r = Blocks then Queued else Woken), skern := k\<rparr>)"
proof (cases "smutex (sem s) = MNull")
  case True
  then have "r = Return 1" "m = MLocked" using l mutex_lock_free [of True "skern s"] by (auto simp: mutex_lock_def)
  moreover have "queue_inv MNull ((phase s)(t := Woken))" using inv t True by (intro queue_inv_upd) (simp_all add: sema_inv_def)
  ultimately show ?thesis using inv by (simp add: sema_inv_def wake_inv_flight queue_inv_def)
next
  case False
  obtain pr where m: "r = Blocks" "m = MWaiters (insert_by_prio pr t (waiters (smutex (sem s))))" using mutex_lock_queues [OF l False act] by blast
  have "queue_inv m ((phase s)(t := Queued))" unfolding m(2) using inv t by (intro queue_inv_lock) (simp_all add: sema_inv_def)
  moreover have "wake_inv (sem s) ((phase s)(t := Queued))" using inv t by (intro wake_inv_upd) (simp_all add: sema_inv_def)
  ultimately show ?thesis using inv m(1) False by (simp add: sema_inv_def wake_inv_def)
qed

lemma sema_inv_unlock:
  assumes inv: "sema_inv v s" and t: "phase s t = Unlocking" and u: "mutex_unlock (smutex (sem s)) (skern s) = Some (m, k)"
  shows "sema_inv v (s\<lparr>sem := (sem s)\<lparr>smutex := m\<rparr>, phase := wake_first (smutex (sem s)) ((phase s)(t := Idle)), skern := k\<rparr>)"
proof -
  note m = mutex_unlock_result [OF u]
  have q: "queue_inv (smutex (sem s)) ((phase s)(t := Idle))" using inv t by (intro queue_inv_upd) (simp_all add: sema_inv_def)
  show ?thesis
  proof (cases "waiters (smutex (sem s))")
    case Nil
    then have "queue_inv MNull ((phase s)(t := Idle))" "m = MNull" using q m by (simp_all add: queue_inv_def)
    then show ?thesis using inv Nil by (simp add: sema_inv_def wake_inv_def wake_first_def)
  next
    case (Cons w ws)
    then have d: "w \<notin> set ws" "distinct ws" using q by (auto simp: queue_inv_def)
    have "queue_inv (mutex_after_wake ws) ((phase s)(t := Idle, w := Woken))"
      using q d Cons by (auto simp: queue_inv_def mutex_after_wake_def)
    then show ?thesis using inv Cons m by (simp add: sema_inv_def wake_inv_flight wake_first_def)
  qed
qed

lemma unat_count: "x \<noteq> - 1 \<Longrightarrow> unat (x + 1) = Suc (unat x)" for x :: u32
proof -
  assume "x \<noteq> - 1"
  moreover have "x \<le> - 1" by simp
  ultimately have "x < - 1" by (simp only: order_less_le) simp
  then have "unat x < unat (- 1 :: u32)" by (simp only: word_less_nat_alt)
  moreover have "unat (- 1 :: u32) = 4294967295" by (simp add: unsigned_minus_1_eq_mask mask_eq_exp_minus_1)
  ultimately show ?thesis using unat_add_fits [of x 1] by simp
qed

lemma sema_inv_post:
  assumes inv: "sema_inv v s" and t: "phase s t = Idle" and x: "sema_count (sem s) = (r, x)"
  shows "sema_inv v (s\<lparr>sem := x, phase := (phase s)(t := after_take r), posted := posted s + success r\<rparr>)"
proof (cases "svalue (sem s) = - 1")
  case True
  then have "r = Done EOVERFLOW" "x = sem s" using x by (auto simp: sema_count_def)
  moreover have "(phase s)(t := Idle) = phase s" using t by auto
  ultimately show ?thesis using inv by (simp add: sema_inv_def after_take_def success_def)
next
  case False
  have u: "unat (svalue (sem s) + 1) = Suc (unat (svalue (sem s)))" by (rule unat_count [OF False])
  have q: "queue_inv (smutex (sem s)) ((phase s)(t := p))" if "p \<noteq> Queued" for p
    using inv t that by (intro queue_inv_upd) (simp_all add: sema_inv_def)
  show ?thesis
  proof (cases "svalue (sem s) = 0")
    case True
    then have "r = Unlock_and SOk" "x = (sem s)\<lparr>svalue := 1\<rparr>" using x False by (auto simp: sema_count_def)
    then show ?thesis using inv q [of Unlocking] True by (simp add: sema_inv_def wake_inv_flight after_take_def success_def)
  next
    case nz: False
    then have r: "r = Done SOk" "x = (sem s)\<lparr>svalue := svalue (sem s) + 1\<rparr>" using x False by (auto simp: sema_count_def)
    have "(phase s)(t := Idle) = phase s" using t by auto
    then show ?thesis using inv nz u r by (auto simp: sema_inv_def wake_inv_def after_take_def success_def)
  qed
qed

lemma sema_inv_step: "sema_step s s' \<Longrightarrow> sema_inv v s \<Longrightarrow> sema_inv v s'"
proof (induction rule: sema_step.induct)
  case (enter s t)
  then show ?case using queue_inv_upd [of "smutex (sem s)" "phase s" t Taking] wake_inv_upd [of "sem s" "phase s" t Taking] by (simp add: sema_inv_def)
next
  case (take s t r x)
  then show ?case using sema_inv_take by blast
next
  case (try_enter s t)
  then show ?case using queue_inv_upd [of "smutex (sem s)" "phase s" t Trying] wake_inv_upd [of "sem s" "phase s" t Trying] by (simp add: sema_inv_def)
next
  case (try_take s t r x)
  then show ?case using sema_inv_try by blast
next
  case (lock s t r m k)
  then show ?case using sema_inv_lock by blast
next
  case (woken s t)
  let ?p = "if sstate (sem s) \<noteq> SEMA_OK then Unlocking else Taking"
  have "queue_inv (smutex (sem s)) ((phase s)(t := ?p))" using woken by (intro queue_inv_upd) (simp_all add: sema_inv_def)
  moreover have "wake_inv (sem s) ((phase s)(t := ?p))" by (auto simp: wake_inv_def)
  ultimately show ?case using woken by (simp add: sema_inv_def)
next
  case (unlock s t m k)
  then show ?case using sema_inv_unlock by blast
next
  case (post s t r x)
  then show ?case using sema_inv_post by blast
next
  case (destroy s t)
  then show ?case using queue_inv_upd [of "smutex (sem s)" "phase s" t Unlocking] by (simp add: sema_inv_def wake_inv_flight)
next
  case (other s k)
  then show ?case by (simp add: sema_inv_def)
qed

lemma sema_inv_reachable: "sema_step\<^sup>*\<^sup>* s s' \<Longrightarrow> sema_inv v s \<Longrightarrow> sema_inv v s'"
  by (induction rule: rtranclp_induct) (auto intro: sema_inv_step)

lemma sema_inv_create:
  assumes "sema_create v k = Some (r, x, k')"
  shows "r = Return () \<and> sema_inv (unat v) \<lparr>sem = x, phase = (\<lambda>_. Idle), skern = k', taken = 0, posted = 0\<rparr>"
  using assms mutex_lock_free [of True k]
  by (auto simp: sema_create_def mutex_lock_def mutex_init_def sema_inv_def queue_inv_def wake_inv_def split: if_splits)

text \<open>
  (C31) Semaphores in concurrent use: start from a semaphore created with the value \<open>v\<close> and let any number of threads (and interrupts) wait, try, post and destroy, with their critical
  sections and mutex operations interleaved in any way. At every moment the number of successful waits and the value add up to \<open>v\<close> plus the number of successful posts, so
  that never more waits succeed than the counter allows, and posts are not lost either. And no wake-up is lost: whenever nobody is in the middle of an operation, a thread
  is in the queue only if the value is zero and the semaphore is not destroyed.
\<close>
theorem sema_no_lost_wakeup:
  assumes "sema_create v k = Some (r, x, k')"
    and "sema_step\<^sup>*\<^sup>* \<lparr>sem = x, phase = (\<lambda>_. Idle), skern = k', taken = 0, posted = 0\<rparr> s"
  shows "taken s + unat (svalue (sem s)) = unat v + posted s \<and>
     ((\<forall>t. phase s t = Idle \<or> phase s t = Queued) \<and> phase s w = Queued \<longrightarrow> svalue (sem s) = 0 \<and> sstate (sem s) = SEMA_OK)"
proof -
  have "sema_inv (unat v) s" using sema_inv_reachable [OF assms(2)] sema_inv_create [OF assms(1)] by blast
  moreover have "\<not> in_flight (phase s)" "\<not> (\<exists>t. phase s t = Taking)" if "\<forall>t. phase s t = Idle \<or> phase s t = Queued"
    using that by (metis in_flight_def phase.distinct)+
  moreover have "smutex (sem s) \<noteq> MNull" if "phase s w = Queued" "queue_inv (smutex (sem s)) (phase s)"
    using that by (auto simp: queue_inv_def)
  ultimately show ?thesis by (auto simp: sema_inv_def wake_inv_def)
qed

theorem sema_no_lost_wakeup_witness:
  "\<exists>s. sema_step\<^sup>*\<^sup>* \<lparr>sem = \<lparr>svalue = 0, sstate = SEMA_OK, smutex = MLocked\<rparr>, phase = (\<lambda>_. Idle), skern = two_threads, taken = 0, posted = 0\<rparr> s \<and>
     phase s 7 = Queued \<and> svalue (sem s) = 0 \<and> taken s = posted s"
proof -
  let ?x = "\<lparr>svalue = 0, sstate = SEMA_OK, smutex = MLocked\<rparr> :: sema" and ?ph = "\<lambda>p. (\<lambda>_. Idle)(7 := p)"
  let ?s = "\<lambda>ph x k. \<lparr>sem = x, phase = ph, skern = k, taken = 0, posted = 0\<rparr>"
  have c: "sema_create 0 two_threads = Some (Return (), ?x, two_threads)" by (simp add: sema_create_def mutex_lock_def mutex_init_def mutex_lock_free)
  have "mutex_wf MLocked two_threads" by (simp add: mutex_wf_def waiting_def on_runqueue_iff)
  then obtain m k where l: "mutex_lock MLocked two_threads = Some (Blocks, m, k)"
    using mutex_lock_blocks [OF two_threads_rq_inv two_threads_active, of MLocked] by (auto simp: mutex_lock_def)
  have act: "sched_active_thread two_threads = Some 7" using two_threads_active by (simp add: active_ready_def)
  have "sema_step (?s (\<lambda>_. Idle) ?x two_threads) (?s (?ph Taking) ?x two_threads)"
    using sema_step.enter [of "?s (\<lambda>_. Idle) ?x two_threads" 7] by simp
  moreover have "sema_step (?s (?ph Taking) ?x two_threads) (?s (?ph Locking) ?x two_threads)"
    using sema_step.take [of "?s (?ph Taking) ?x two_threads" 7 Lock ?x] by (simp add: sema_take_def after_take_def success_def)
  moreover have "sema_step (?s (?ph Locking) ?x two_threads) (?s (?ph Queued) (?x\<lparr>smutex := m\<rparr>) k)"
    using sema_step.lock [of "?s (?ph Locking) ?x two_threads" 7 Blocks m k] l act by simp
  ultimately have r: "sema_step\<^sup>*\<^sup>* (?s (\<lambda>_. Idle) ?x two_threads) (?s (?ph Queued) (?x\<lparr>smutex := m\<rparr>) k)"
    by (meson converse_rtranclp_into_rtranclp r_into_rtranclp)
  show ?thesis using sema_no_lost_wakeup [OF c r, of 7] r by (intro exI [of _ "?s (?ph Queued) (?x\<lparr>smutex := m\<rparr>) k"]) simp
qed

end
