(* ===== verification/Ringbuffer.thy ===== *)
theory Ringbuffer
  imports Cib
begin

text \<open>
  Byte ring buffers: core/ringbuffer.c (a start index and a fill count) and sys/tsrb/tsrb.c
  (free-running read and write counters over a buffer whose size is a power of two). Both
  promise the same bounded byte queue, stated once as a locale. An index out of the buffer's
  bounds is \<open>None\<close>.
\<close>

section \<open>The contract\<close>

text \<open>The loops \<open>for each byte: stop if full, else push\<close> and \<open>while n and not empty: pop\<close>.\<close>

fun fill :: "('s \<Rightarrow> bool) \<Rightarrow> (u8 \<Rightarrow> 's \<Rightarrow> 's option) \<Rightarrow> u8 list \<Rightarrow> 's \<Rightarrow> (nat \<times> 's) option" where
  "fill full push [] s = Some (0, s)"
| "fill full push (c # cs) s =
     (if full s then Some (0, s)
      else do { s \<leftarrow> push c s; (i, s) \<leftarrow> fill full push cs s; Some (Suc i, s) })"

fun drain :: "('s \<Rightarrow> bool) \<Rightarrow> ('s \<Rightarrow> (u8 \<times> 's) option) \<Rightarrow> nat \<Rightarrow> 's \<Rightarrow> (u8 list \<times> 's) option" where
  "drain emp pop 0 s = Some ([], s)"
| "drain emp pop (Suc n) s =
     (if emp s then Some ([], s)
      else do { (c, s) \<leftarrow> pop s; (cs, s) \<leftarrow> drain emp pop n s; Some (c # cs, s) })"

locale byte_fifo =
  fixes inv :: "'s \<Rightarrow> bool" and contents :: "'s \<Rightarrow> u8 list" and cap :: "'s \<Rightarrow> nat"
    and full emp :: "'s \<Rightarrow> bool" and push :: "u8 \<Rightarrow> 's \<Rightarrow> 's option" and pop :: "'s \<Rightarrow> (u8 \<times> 's) option"
  assumes full_iff: "inv s \<Longrightarrow> full s \<longleftrightarrow> length (contents s) = cap s"
    and empty_iff: "inv s \<Longrightarrow> emp s \<longleftrightarrow> contents s = []"
    and len_le: "inv s \<Longrightarrow> length (contents s) \<le> cap s"
    and push_ok: "inv s \<Longrightarrow> length (contents s) < cap s \<Longrightarrow>
      \<exists>s'. push c s = Some s' \<and> inv s' \<and> contents s' = contents s @ [c] \<and> cap s' = cap s"
    and pop_ok: "inv s \<Longrightarrow> contents s = c # cs \<Longrightarrow>
      \<exists>s'. pop s = Some (c, s') \<and> inv s' \<and> contents s' = cs \<and> cap s' = cap s"
begin

lemma fill_ok:
  "inv s \<Longrightarrow> \<exists>s'. fill full push cs s = Some (min (length cs) (cap s - length (contents s)), s') \<and> inv s' \<and>
     contents s' = contents s @ take (cap s - length (contents s)) cs \<and> cap s' = cap s"
proof (induction cs arbitrary: s)
  case (Cons c cs)
  show ?case
  proof (cases "full s")
    case True
    with Cons.prems show ?thesis by (simp add: full_iff)
  next
    case False
    with Cons.prems have lt: "length (contents s) < cap s" using full_iff len_le by (simp add: le_neq_implies_less)
    obtain s1 where s1: "push c s = Some s1" "inv s1" "contents s1 = contents s @ [c]" "cap s1 = cap s"
      using push_ok [OF Cons.prems lt] by blast
    obtain s2 where s2: "fill full push cs s1 = Some (min (length cs) (cap s - Suc (length (contents s))), s2)" "inv s2"
      "contents s2 = contents s @ c # take (cap s - Suc (length (contents s))) cs" "cap s2 = cap s"
      using Cons.IH [OF s1(2)] s1(3,4) by auto
    have "cap s - length (contents s) = Suc (cap s - Suc (length (contents s)))" using lt by simp
    with False s1 s2 show ?thesis by simp
  qed
qed simp

lemma drain_ok:
  "inv s \<Longrightarrow> \<exists>s'. drain emp pop n s = Some (take n (contents s), s') \<and> inv s' \<and>
     contents s' = drop n (contents s) \<and> cap s' = cap s"
proof (induction n arbitrary: s)
  case (Suc n)
  show ?case
  proof (cases "contents s")
    case Nil
    with Suc.prems show ?thesis by (simp add: empty_iff)
  next
    case (Cons c cs)
    obtain s1 where s1: "pop s = Some (c, s1)" "inv s1" "contents s1 = cs" "cap s1 = cap s"
      using pop_ok [OF Suc.prems Cons] by blast
    with Suc.IH [OF s1(2)] Cons Suc.prems show ?thesis by (auto simp: empty_iff)
  qed
qed simp

end

section \<open>core/ringbuffer.c\<close>

record ringbuffer =
  rbuf :: "u8 list"
  rsize :: u32
  rstart :: u32
  ravail :: u32

definition ringbuffer_init :: "u8 list \<Rightarrow> u32 \<Rightarrow> ringbuffer" where
  "ringbuffer_init buffer bufsize = \<lparr>rbuf = buffer, rsize = bufsize, rstart = 0, ravail = 0\<rparr>"

definition ringbuffer_empty :: "ringbuffer \<Rightarrow> bool" where
  "ringbuffer_empty rb \<longleftrightarrow> ravail rb = 0"

definition ringbuffer_full :: "ringbuffer \<Rightarrow> bool" where
  "ringbuffer_full rb \<longleftrightarrow> ravail rb = rsize rb"

definition ringbuffer_get_free :: "ringbuffer \<Rightarrow> u32" where
  "ringbuffer_get_free rb = rsize rb - ravail rb"

definition add_tail :: "u8 \<Rightarrow> ringbuffer \<Rightarrow> ringbuffer option" where
  "add_tail c rb =
     (let pos = rstart rb + ravail rb;
          pos = (if pos \<ge> rsize rb then pos - rsize rb else pos)
      in if unat pos < length (rbuf rb)
         then Some (rb\<lparr>ravail := ravail rb + 1, rbuf := (rbuf rb)[unat pos := c]\<rparr>) else None)"

definition get_head :: "ringbuffer \<Rightarrow> (u8 \<times> ringbuffer) option" where
  "get_head rb =
     (if unat (rstart rb) < length (rbuf rb) then
        (let result = rbuf rb ! unat (rstart rb);
             rb = rb\<lparr>ravail := ravail rb - 1\<rparr>
         in if ravail rb = 0 then Some (result, rb\<lparr>rstart := 0\<rparr>)
            else (let rb = rb\<lparr>rstart := rstart rb + 1\<rparr>
                  in Some (result, if rstart rb = rsize rb then rb\<lparr>rstart := 0\<rparr> else rb)))
      else None)"

definition ringbuffer_add :: "u8 list \<Rightarrow> ringbuffer \<Rightarrow> (nat \<times> ringbuffer) option" where
  "ringbuffer_add buf rb = fill ringbuffer_full add_tail buf rb"

text \<open>The dropped byte, -1 if none, as the \<open>int\<close> the function returns.\<close>

definition ringbuffer_add_one :: "u8 \<Rightarrow> ringbuffer \<Rightarrow> (int \<times> ringbuffer) option" where
  "ringbuffer_add_one c rb =
     do { (result, rb) \<leftarrow> (if ringbuffer_full rb
            then do { (x, rb) \<leftarrow> get_head rb; Some (uint x, rb) } else Some (- 1, rb));
          rb \<leftarrow> add_tail c rb;
          Some (result, rb) }"

definition ringbuffer_get_one :: "ringbuffer \<Rightarrow> (int \<times> ringbuffer) option" where
  "ringbuffer_get_one rb =
     (if \<not> ringbuffer_empty rb then do { (x, rb) \<leftarrow> get_head rb; Some (uint x, rb) } else Some (- 1, rb))"

text \<open>\<open>memcpy\<close> out of the buffer; \<open>None\<close> beyond its end.\<close>

definition read_block :: "u8 list \<Rightarrow> nat \<Rightarrow> nat \<Rightarrow> u8 list option" where
  "read_block b from n = (if from + n \<le> length b then Some (take n (drop from b)) else None)"

definition ringbuffer_get :: "u32 \<Rightarrow> ringbuffer \<Rightarrow> (u8 list \<times> ringbuffer) option" where
  "ringbuffer_get n rb =
     (let n = (if n > ravail rb then ravail rb else n)
      in if n > 0 then
           do { let bytes_till_end = rsize rb - rstart rb;
                (out, rb) \<leftarrow>
                  (if bytes_till_end \<ge> n then
                     do { out \<leftarrow> read_block (rbuf rb) (unat (rstart rb)) (unat n);
                          Some (out, rb\<lparr>rstart := (if bytes_till_end = n then 0 else rstart rb + n)\<rparr>) }
                   else
                     do { out1 \<leftarrow> read_block (rbuf rb) (unat (rstart rb)) (unat bytes_till_end);
                          let rb = rb\<lparr>rstart := n - bytes_till_end\<rparr>;
                          out2 \<leftarrow> read_block (rbuf rb) 0 (unat (rstart rb));
                          Some (out1 @ out2, rb) });
                Some (out, rb\<lparr>ravail := ravail rb - n\<rparr>) }
         else Some ([], rb))"

definition ringbuffer_remove :: "u32 \<Rightarrow> ringbuffer \<Rightarrow> u32 \<times> ringbuffer" where
  "ringbuffer_remove n rb =
     (if n > ravail rb then (ravail rb, rb\<lparr>rstart := 0, ravail := 0\<rparr>)
      else (let rb = rb\<lparr>rstart := rstart rb + n, ravail := ravail rb - n\<rparr>
            in (n, if rstart rb \<ge> rsize rb then rb\<lparr>rstart := rstart rb - rsize rb\<rparr> else rb)))"

definition ringbuffer_peek_one :: "ringbuffer \<Rightarrow> int option" where
  "ringbuffer_peek_one rb = map_option fst (ringbuffer_get_one rb)"

definition ringbuffer_peek :: "u32 \<Rightarrow> ringbuffer \<Rightarrow> u8 list option" where
  "ringbuffer_peek n rb = map_option fst (ringbuffer_get n rb)"

section \<open>sys/tsrb/tsrb.c\<close>

record tsrb =
  tbuf :: "u8 list"
  tsize :: u32
  reads :: u32
  writes :: u32

definition tsrb_init :: "u8 list \<Rightarrow> u32 \<Rightarrow> tsrb option" where
  "tsrb_init buffer bufsize =
     (if bufsize \<noteq> 0 \<and> bufsize AND (NOT bufsize + 1) = bufsize
      then Some \<lparr>tbuf = buffer, tsize = bufsize, reads = 0, writes = 0\<rparr> else None)"

definition tsrb_empty :: "tsrb \<Rightarrow> bool" where
  "tsrb_empty rb \<longleftrightarrow> reads rb = writes rb"

definition tsrb_avail :: "tsrb \<Rightarrow> u32" where
  "tsrb_avail rb = writes rb - reads rb"

definition tsrb_full :: "tsrb \<Rightarrow> bool" where
  "tsrb_full rb \<longleftrightarrow> writes rb - reads rb = tsize rb"

definition tsrb_free :: "tsrb \<Rightarrow> u32" where
  "tsrb_free rb = tsize rb - writes rb + reads rb"

definition tsrb_push :: "u8 \<Rightarrow> tsrb \<Rightarrow> tsrb option" where
  "tsrb_push c rb =
     (let i = unat (writes rb AND (tsize rb - 1))
      in if i < length (tbuf rb) then Some (rb\<lparr>writes := writes rb + 1, tbuf := (tbuf rb)[i := c]\<rparr>) else None)"

definition tsrb_pop :: "tsrb \<Rightarrow> (u8 \<times> tsrb) option" where
  "tsrb_pop rb =
     (let i = unat (reads rb AND (tsize rb - 1))
      in if i < length (tbuf rb) then Some (tbuf rb ! i, rb\<lparr>reads := reads rb + 1\<rparr>) else None)"

definition tsrb_get_one :: "tsrb \<Rightarrow> (int \<times> tsrb) option" where
  "tsrb_get_one rb =
     (if \<not> tsrb_empty rb then do { (x, rb) \<leftarrow> tsrb_pop rb; Some (uint x, rb) } else Some (- 1, rb))"

definition tsrb_get :: "nat \<Rightarrow> tsrb \<Rightarrow> (u8 list \<times> tsrb) option" where
  "tsrb_get n rb = drain tsrb_empty tsrb_pop n rb"

definition tsrb_drop :: "nat \<Rightarrow> tsrb \<Rightarrow> (nat \<times> tsrb) option" where
  "tsrb_drop n rb = do { (cs, rb) \<leftarrow> drain tsrb_empty tsrb_pop n rb; Some (length cs, rb) }"

definition tsrb_add_one :: "u8 \<Rightarrow> tsrb \<Rightarrow> (int \<times> tsrb) option" where
  "tsrb_add_one c rb = (if \<not> tsrb_full rb then do { rb \<leftarrow> tsrb_push c rb; Some (0, rb) } else Some (- 1, rb))"

definition tsrb_add :: "u8 list \<Rightarrow> tsrb \<Rightarrow> (nat \<times> tsrb) option" where
  "tsrb_add src rb = fill tsrb_full tsrb_push src rb"

section \<open>The ring buffer keeps the contract\<close>

definition rb_inv :: "ringbuffer \<Rightarrow> bool" where
  "rb_inv rb \<longleftrightarrow> 0 < unat (rsize rb) \<and> unat (rsize rb) \<le> 2 ^ 31 \<and> unat (rsize rb) = length (rbuf rb) \<and>
     unat (rstart rb) < unat (rsize rb) \<and> unat (ravail rb) \<le> unat (rsize rb)"

definition rb_contents :: "ringbuffer \<Rightarrow> u8 list" where
  "rb_contents rb = map (\<lambda>i. rbuf rb ! ((unat (rstart rb) + i) mod length (rbuf rb))) [0..<unat (ravail rb)]"

lemma length_rb_contents [simp]: "length (rb_contents rb) = unat (ravail rb)"
  by (simp add: rb_contents_def)

lemma add_tail_ok:
  assumes "rb_inv rb" "unat (ravail rb) < unat (rsize rb)"
  shows "\<exists>rb'. add_tail c rb = Some rb' \<and> rb_inv rb' \<and> rb_contents rb' = rb_contents rb @ [c] \<and> rsize rb' = rsize rb"
proof -
  let ?n = "length (rbuf rb)" and ?s = "unat (rstart rb)" and ?a = "unat (ravail rb)"
  have d: "?n = unat (rsize rb)" "?s < ?n" "?a < ?n" "?n \<le> 2 ^ 31" using assms by (auto simp: rb_inv_def)
  have sum: "unat (rstart rb + ravail rb) = ?s + ?a" using d by (intro unat_add_lem [THEN iffD1]) simp
  let ?p = "rstart rb + ravail rb"
  let ?pos = "if ?p \<ge> rsize rb then ?p - rsize rb else ?p"
  have pos: "unat ?pos = (?s + ?a) mod ?n"
  proof (cases "?p \<ge> rsize rb")
    case True
    then have "?n \<le> ?s + ?a" using sum d by (simp add: word_le_nat_alt)
    then have "(?s + ?a) mod ?n = ?s + ?a - ?n" using d by (simp add: mod_if)
    with True sum d show ?thesis by (simp add: unat_sub)
  next
    case False
    then have "?s + ?a < ?n" using sum d by (simp add: word_le_nat_alt)
    with False sum show ?thesis by simp
  qed
  let ?rb = "rb\<lparr>ravail := ravail rb + 1, rbuf := (rbuf rb)[(?s + ?a) mod ?n := c]\<rparr>"
  have lt: "(?s + ?a) mod ?n < ?n" using d by simp
  have av: "unat (ravail rb + 1) = Suc ?a" using d by (simp add: unat_word_ariths)
  have run: "add_tail c rb = Some ?rb" using pos lt by (simp add: add_tail_def Let_def)
  have "(?s + ?a) mod ?n \<noteq> (?s + i) mod ?n" if "i < ?a" for i using mod_add_inj [of i ?n ?a ?s] that d by auto
  then have "rb_contents ?rb = rb_contents rb @ [c]"
    using av lt by (auto simp: rb_contents_def nth_list_update intro!: map_cong)
  moreover have "rb_inv ?rb" using assms av d by (simp add: rb_inv_def)
  ultimately show ?thesis using run by auto
qed

text \<open>Moving the start forward drops elements from the front.\<close>

lemma rb_contents_shift:
  assumes "rb_inv rb" "n \<le> unat (ravail rb)"
    "rb' = rb\<lparr>rstart := st, ravail := av\<rparr>" "unat av = unat (ravail rb) - n"
    "unat st = (unat (rstart rb) + n) mod length (rbuf rb) \<or> unat av = 0 \<and> unat st < length (rbuf rb)"
  shows "rb_inv rb'" "rb_contents rb' = drop n (rb_contents rb)"
proof -
  let ?l = "length (rbuf rb)"
  have l: "0 < ?l" "unat (rsize rb) = ?l" using assms(1) by (auto simp: rb_inv_def)
  then show "rb_inv rb'" using assms by (auto simp: rb_inv_def)
  have "(unat st + i) mod ?l = (unat (rstart rb) + (n + i)) mod ?l"
    if "unat st = (unat (rstart rb) + n) mod ?l" for i
    using that by (simp add: mod_simps add.assoc)
  then show "rb_contents rb' = drop n (rb_contents rb)"
    using assms(3-5) by (auto simp: rb_contents_def drop_map intro!: nth_equalityI)
qed

lemma get_head_ok:
  assumes "rb_inv rb" "rb_contents rb = c # cs"
  shows "\<exists>rb'. get_head rb = Some (c, rb') \<and> rb_inv rb' \<and> rb_contents rb' = cs \<and> rsize rb' = rsize rb"
proof -
  let ?l = "length (rbuf rb)" and ?s = "unat (rstart rb)"
  have d: "unat (rsize rb) = ?l" "?s < ?l" "?l \<le> 2 ^ 31" using assms(1) by (auto simp: rb_inv_def)
  have a: "0 < unat (ravail rb)" using assms(2) length_rb_contents [of rb] by simp
  then have dec: "unat (ravail rb - 1) = unat (ravail rb) - 1" by (intro unat_minus_one) auto
  have hd: "rbuf rb ! ?s = c" using assms(2) a d by (simp add: rb_contents_def upt_conv_Cons)
  have cs: "cs = drop 1 (rb_contents rb)" using assms(2) by simp
  have inc: "unat (rstart rb + 1) = ?s + 1" using d by (simp add: unat_word_ariths)
  define st where "st = (if ravail rb - 1 = 0 then 0 else if rstart rb + 1 = rsize rb then 0 else rstart rb + 1)"
  have run: "get_head rb = Some (c, rb\<lparr>rstart := st, ravail := ravail rb - 1\<rparr>)"
    using hd d by (simp add: get_head_def st_def Let_def)
  have "unat st = (?s + 1) mod ?l \<or> unat (ravail rb - 1) = 0 \<and> unat st < ?l"
  proof (cases "ravail rb - 1 = 0")
    case True
    then show ?thesis using d by (auto simp: st_def)
  next
    case False
    have "rstart rb + 1 = rsize rb \<longleftrightarrow> ?s + 1 = ?l" using inc d(1) by (metis word_unat_eq_iff)
    with False inc d show ?thesis by (auto simp: st_def)
  qed
  from rb_contents_shift [OF assms(1) _ refl dec this] a run cs show ?thesis by auto
qed

interpretation ringbuffer: byte_fifo rb_inv rb_contents "\<lambda>rb. unat (rsize rb)" ringbuffer_full ringbuffer_empty
  add_tail get_head
proof
  fix s c cs
  assume inv: "rb_inv s"
  show "ringbuffer_full s \<longleftrightarrow> length (rb_contents s) = unat (rsize s)"
    by (simp add: ringbuffer_full_def word_unat_eq_iff)
  show "ringbuffer_empty s \<longleftrightarrow> rb_contents s = []"
    by (metis length_rb_contents length_0_conv ringbuffer_empty_def unat_eq_zero)
  show "length (rb_contents s) \<le> unat (rsize s)" using inv by (simp add: rb_inv_def)
  show "length (rb_contents s) < unat (rsize s) \<Longrightarrow>
      \<exists>s'. add_tail c s = Some s' \<and> rb_inv s' \<and> rb_contents s' = rb_contents s @ [c] \<and> unat (rsize s') = unat (rsize s)"
    using add_tail_ok [OF inv, of c] by auto
  show "rb_contents s = c # cs \<Longrightarrow>
      \<exists>s'. get_head s = Some (c, s') \<and> rb_inv s' \<and> rb_contents s' = cs \<and> unat (rsize s') = unat (rsize s)"
    using get_head_ok [OF inv, of c cs] by auto
qed

lemma read_block_nth:
  "from + n \<le> length b \<Longrightarrow> read_block b from n = Some (map (\<lambda>i. b ! (from + i)) [0..<n])"
  by (auto simp: read_block_def intro: nth_equalityI)

lemma ringbuffer_get_ok:
  assumes "rb_inv rb"
  shows "\<exists>rb'. ringbuffer_get n rb = Some (take (unat n) (rb_contents rb), rb') \<and> rb_inv rb' \<and>
    rb_contents rb' = drop (unat n) (rb_contents rb)"
proof -
  define m where "m = (if n > ravail rb then ravail rb else n)"
  let ?l = "length (rbuf rb)" and ?s = "unat (rstart rb)" and ?m = "unat m"
  have d: "unat (rsize rb) = ?l" "?s < ?l" "?l \<le> 2 ^ 31" "unat (ravail rb) \<le> ?l" using assms by (auto simp: rb_inv_def)
  have m: "?m = min (unat n) (unat (ravail rb))" by (simp add: m_def word_less_nat_alt)
  then have tk: "take (unat n) (rb_contents rb) = take ?m (rb_contents rb)"
    "drop (unat n) (rb_contents rb) = drop ?m (rb_contents rb)" "?m \<le> unat (ravail rb)"
    by (simp_all add: min_def)
  have nth: "take ?m (rb_contents rb) = map (\<lambda>i. rbuf rb ! ((?s + i) mod ?l)) [0..<?m]"
    using tk(3) by (simp add: rb_contents_def take_map)
  show ?thesis
  proof (cases "m = 0")
    case True
    then have "?m = 0" by simp
    with True assms tk show ?thesis by (simp add: ringbuffer_get_def m_def [symmetric])
  next
    case False
    let ?e = "rsize rb - rstart rb"
    have e: "unat ?e = ?l - ?s" using d by (simp add: unat_sub word_le_nat_alt)
    have av: "unat (ravail rb - m) = unat (ravail rb) - ?m" using tk(3) by (simp add: unat_sub word_le_nat_alt)
    have pos: "m > 0" using False by (simp add: word_gt_0)
    show ?thesis
    proof (cases "?e \<ge> m")
      case True
      then have le: "?s + ?m \<le> ?l" using e d by (simp add: word_le_nat_alt)
      define st where "st = (if ?e = m then 0 else rstart rb + m)"
      have "unat (rstart rb + m) = ?s + ?m" using le d(3) by (intro unat_add_lem [THEN iffD1]) simp
      moreover have "?e = m \<longleftrightarrow> ?s + ?m = ?l" using e le d(2) by (auto simp: word_unat_eq_iff)
      ultimately have st: "unat st = (?s + ?m) mod ?l" using le by (auto simp: st_def)
      have out: "read_block (rbuf rb) ?s ?m = Some (take ?m (rb_contents rb))"
        unfolding read_block_nth [OF le] nth using le by simp
      have "ringbuffer_get n rb = Some (take ?m (rb_contents rb), rb\<lparr>rstart := st, ravail := ravail rb - m\<rparr>)"
        using pos True out by (simp add: ringbuffer_get_def m_def [symmetric] st_def Let_def)
      with rb_contents_shift [OF assms tk(3) refl av disjI1, OF st] tk(1,2) show ?thesis by simp
    next
      case wrap: False
      then have gt: "?l < ?s + ?m" using e d by (simp add: word_le_nat_alt)
      have st: "unat (m - ?e) = ?s + ?m - ?l"
        using wrap e d by (simp add: unat_sub word_le_nat_alt)
      have ml: "?m \<le> ?l" using tk(3) d(4) by simp
      have b1: "read_block (rbuf rb) ?s (unat ?e) = Some (map (\<lambda>i. rbuf rb ! (?s + i)) [0..<?l - ?s])"
        unfolding e using d(2) by (intro read_block_nth) simp
      have b2: "read_block (rbuf rb) 0 (unat (m - ?e)) = Some (map (\<lambda>i. rbuf rb ! i) [0..<?s + ?m - ?l])"
        unfolding st using read_block_nth [of 0 "?s + ?m - ?l" "rbuf rb"] ml d(2) by simp
      have "map (\<lambda>i. rbuf rb ! (?s + i)) [0..<?l - ?s] @ map (\<lambda>i. rbuf rb ! i) [0..<?s + ?m - ?l]
        = take ?m (rb_contents rb)"
        unfolding nth using gt ml d(2)
        by (intro nth_equalityI) (auto simp: nth_append mod_if add.commute)
      then have "ringbuffer_get n rb = Some (take ?m (rb_contents rb), rb\<lparr>rstart := m - ?e, ravail := ravail rb - m\<rparr>)"
        using pos wrap b1 b2 by (simp add: ringbuffer_get_def m_def [symmetric] Let_def)
      moreover have "unat (m - ?e) = (?s + ?m) mod ?l" using st gt ml d(2) by (simp add: mod_if)
      ultimately show ?thesis using rb_contents_shift [OF assms tk(3) refl av disjI1] tk(1,2) by simp
    qed
  qed
qed

lemma ringbuffer_remove_ok:
  assumes "rb_inv rb"
  shows "fst (ringbuffer_remove n rb) = min n (ravail rb) \<and> rb_inv (snd (ringbuffer_remove n rb)) \<and>
    rb_contents (snd (ringbuffer_remove n rb)) = drop (unat n) (rb_contents rb)"
proof (cases "n > ravail rb")
  case True
  then have "unat (ravail rb) \<le> unat n" by (simp add: word_less_nat_alt)
  with True assms show ?thesis by (auto simp: ringbuffer_remove_def rb_inv_def rb_contents_def)
next
  case False
  let ?l = "length (rbuf rb)" and ?s = "unat (rstart rb)"
  have d: "unat (rsize rb) = ?l" "?s < ?l" "?l \<le> 2 ^ 31" "unat (ravail rb) \<le> ?l" using assms by (auto simp: rb_inv_def)
  have n: "unat n \<le> unat (ravail rb)" using False by (simp add: word_less_nat_alt)
  have sum: "unat (rstart rb + n) = ?s + unat n" using n d by (intro unat_add_lem [THEN iffD1]) simp
  define st where "st = (if rstart rb + n \<ge> rsize rb then rstart rb + n - rsize rb else rstart rb + n)"
  have st: "unat st = (?s + unat n) mod ?l"
    using sum d n by (auto simp: st_def word_le_nat_alt unat_sub mod_if)
  have "ringbuffer_remove n rb = (n, rb\<lparr>rstart := st, ravail := ravail rb - n\<rparr>)"
    using False by (simp add: ringbuffer_remove_def st_def Let_def)
  moreover have "unat (ravail rb - n) = unat (ravail rb) - unat n" using n by (simp add: unat_sub word_le_nat_alt)
  ultimately show ?thesis
    using rb_contents_shift [OF assms n refl _ disjI1 [OF st]] False by (simp add: min_def not_less)
qed

section \<open>So does the thread-safe ring buffer\<close>

definition tsrb_inv :: "tsrb \<Rightarrow> bool" where
  "tsrb_inv rb \<longleftrightarrow> (\<exists>k\<le>30. tsize rb = 2 ^ k \<and> length (tbuf rb) = 2 ^ k \<and> unat (tsrb_avail rb) \<le> 2 ^ k)"

definition tsrb_contents :: "tsrb \<Rightarrow> u8 list" where
  "tsrb_contents rb = map (\<lambda>i. tbuf rb ! ((unat (reads rb) + i) mod length (tbuf rb))) [0..<unat (tsrb_avail rb)]"

lemma length_tsrb_contents [simp]: "length (tsrb_contents rb) = unat (tsrb_avail rb)"
  by (simp add: tsrb_contents_def)

lemma dvd_mod_wrap: "k \<le> 30 \<Longrightarrow> (n mod 2 ^ 32) mod 2 ^ k = n mod (2 ^ k :: nat)"
  by (intro mod_mod_cancel le_imp_power_dvd) simp

lemma tsrb_push_ok:
  assumes "tsrb_inv rb" "unat (tsrb_avail rb) < length (tbuf rb)"
  shows "\<exists>rb'. tsrb_push c rb = Some rb' \<and> tsrb_inv rb' \<and> tsrb_contents rb' = tsrb_contents rb @ [c] \<and>
    length (tbuf rb') = length (tbuf rb)"
proof -
  obtain k where k: "k \<le> 30" "tsize rb = 2 ^ k" "length (tbuf rb) = 2 ^ k" using assms(1) by (auto simp: tsrb_inv_def)
  let ?r = "unat (reads rb)" and ?a = "unat (tsrb_avail rb)"
  have "writes rb = reads rb + tsrb_avail rb" by (simp add: tsrb_avail_def)
  then have "unat (writes rb) = (?r + ?a) mod 2 ^ 32" by (simp add: unat_word_ariths)
  then have i: "unat (writes rb AND (tsize rb - 1)) = (?r + ?a) mod 2 ^ k"
    unfolding k(2) and_mask_unat [OF k(1)] using dvd_mod_wrap [OF k(1), of "?r + ?a"] by simp
  let ?rb = "rb\<lparr>writes := writes rb + 1, tbuf := (tbuf rb)[(?r + ?a) mod 2 ^ k := c]\<rparr>"
  have run: "tsrb_push c rb = Some ?rb" using i k(3) by (simp add: tsrb_push_def Let_def)
  have "(2 :: nat) ^ k \<le> 2 ^ 30" using k(1) by (intro power_increasing) auto
  then have av: "unat (tsrb_avail ?rb) = Suc ?a"
    using assms(2) k(3) by (simp add: tsrb_avail_def diff_add_eq [symmetric] unat_word_ariths)
  have "(?r + ?a) mod 2 ^ k \<noteq> (?r + j) mod 2 ^ k" if "j < ?a" for j
    using mod_add_inj [of j "2 ^ k" ?a ?r] that assms(2) k(3) by auto
  then have "tsrb_contents ?rb = tsrb_contents rb @ [c]"
    unfolding tsrb_contents_def av using k(3) by (auto simp: nth_list_update intro!: map_cong)
  moreover have "tsrb_inv ?rb" using av k assms(2) by (auto simp: tsrb_inv_def)
  ultimately show ?thesis using run by auto
qed

lemma tsrb_pop_ok:
  assumes "tsrb_inv rb" "tsrb_contents rb = c # cs"
  shows "\<exists>rb'. tsrb_pop rb = Some (c, rb') \<and> tsrb_inv rb' \<and> tsrb_contents rb' = cs \<and> length (tbuf rb') = length (tbuf rb)"
proof -
  obtain k where k: "k \<le> 30" "tsize rb = 2 ^ k" "length (tbuf rb) = 2 ^ k" "unat (tsrb_avail rb) \<le> 2 ^ k"
    using assms(1) by (auto simp: tsrb_inv_def)
  let ?r = "unat (reads rb)" and ?a = "unat (tsrb_avail rb)"
  have i: "unat (reads rb AND (tsize rb - 1)) = ?r mod 2 ^ k" unfolding k(2) and_mask_unat [OF k(1)] ..
  have a: "0 < ?a" using assms(2) length_tsrb_contents [of rb] by simp
  let ?rb = "rb\<lparr>reads := reads rb + 1\<rparr>"
  have "tsrb_avail ?rb = tsrb_avail rb - 1" by (simp add: tsrb_avail_def)
  moreover have "tsrb_avail rb \<noteq> 0" using a by auto
  ultimately have av: "unat (tsrb_avail ?rb) = ?a - 1" by (simp add: unat_minus_one)
  have up: "[0..<?a] = 0 # map Suc [0..<?a - 1]" using a by (simp add: upt_conv_Cons map_Suc_upt)
  have "unat (reads rb + 1) = (?r + 1) mod 2 ^ 32" by (simp add: unat_word_ariths)
  then have "(unat (reads rb + 1) + j) mod 2 ^ k = (?r + Suc j) mod 2 ^ k" for j
    using dvd_mod_wrap [OF k(1), of "?r + 1"] by (metis (no_types, lifting) Suc_eq_plus1 add.assoc add.commute mod_add_left_eq)
  then have "tsrb_contents rb = tbuf rb ! (?r mod 2 ^ k) # tsrb_contents ?rb"
    unfolding tsrb_contents_def av up using k(3) by (simp add: comp_def)
  moreover have "tsrb_pop rb = Some (tbuf rb ! (?r mod 2 ^ k), ?rb)" using i k(3) by (simp add: tsrb_pop_def Let_def)
  moreover have "tsrb_inv ?rb" using k av by (auto simp: tsrb_inv_def)
  ultimately show ?thesis using assms(2) by auto
qed

interpretation tsrb: byte_fifo tsrb_inv tsrb_contents "\<lambda>rb. length (tbuf rb)" tsrb_full tsrb_empty tsrb_push tsrb_pop
proof
  fix s c cs
  assume inv: "tsrb_inv s"
  then obtain k where k: "k \<le> 30" "tsize s = 2 ^ k" "length (tbuf s) = 2 ^ k" "unat (tsrb_avail s) \<le> 2 ^ k"
    by (auto simp: tsrb_inv_def)
  have "unat (tsize s) = 2 ^ k" using k by (simp add: unat_two_power)
  then show "tsrb_full s \<longleftrightarrow> length (tsrb_contents s) = length (tbuf s)"
    using k(3) by (simp add: tsrb_full_def tsrb_avail_def word_unat_eq_iff)
  have "tsrb_contents s = [] \<longleftrightarrow> tsrb_avail s = 0"
    by (metis length_tsrb_contents length_0_conv unat_eq_zero)
  then show "tsrb_empty s \<longleftrightarrow> tsrb_contents s = []" by (auto simp: tsrb_empty_def tsrb_avail_def)
  show "length (tsrb_contents s) \<le> length (tbuf s)" using k by simp
  show "length (tsrb_contents s) < length (tbuf s) \<Longrightarrow> \<exists>s'. tsrb_push c s = Some s' \<and> tsrb_inv s' \<and>
      tsrb_contents s' = tsrb_contents s @ [c] \<and> length (tbuf s') = length (tbuf s)"
    using tsrb_push_ok [OF inv, of c] by simp
  show "tsrb_contents s = c # cs \<Longrightarrow> \<exists>s'. tsrb_pop s = Some (c, s') \<and> tsrb_inv s' \<and>
      tsrb_contents s' = cs \<and> length (tbuf s') = length (tbuf s)"
    using tsrb_pop_ok [OF inv, of c cs] by simp
qed

section \<open>Properties\<close>

text \<open>
  A ring buffer with a valid state is a bounded byte queue and never accesses
  memory outside its array: \<open>ringbuffer_add\<close> appends as many of the bytes as fit and returns
  that number, \<open>ringbuffer_get\<close> returns and removes the oldest bytes whether or not they wrap
  around the end of the array, \<open>ringbuffer_remove\<close> drops them, and \<open>ringbuffer_add_one\<close> on a
  full buffer drops and returns the oldest byte.
\<close>
theorem ringbuffer_is_bounded_queue:
  assumes "rb_inv rb"
  shows "(\<exists>rb'. ringbuffer_add bs rb = Some (min (length bs) (unat (ringbuffer_get_free rb)), rb') \<and> rb_inv rb' \<and>
      rb_contents rb' = rb_contents rb @ take (unat (ringbuffer_get_free rb)) bs) \<and>
    (\<exists>rb'. ringbuffer_get n rb = Some (take (unat n) (rb_contents rb), rb') \<and> rb_inv rb' \<and>
      rb_contents rb' = drop (unat n) (rb_contents rb)) \<and>
    (\<exists>rb'. ringbuffer_remove n rb = (min n (ravail rb), rb') \<and> rb_inv rb' \<and>
      rb_contents rb' = drop (unat n) (rb_contents rb)) \<and>
    (\<exists>rb'. ringbuffer_add_one c rb = Some (if ringbuffer_full rb then uint (hd (rb_contents rb)) else - 1, rb') \<and>
      rb_inv rb' \<and>
      rb_contents rb' = (if ringbuffer_full rb then tl (rb_contents rb) else rb_contents rb) @ [c])"
proof (intro conjI)
  have free: "unat (ringbuffer_get_free rb) = unat (rsize rb) - length (rb_contents rb)"
    using assms by (simp add: ringbuffer_get_free_def rb_inv_def unat_sub word_le_nat_alt)
  show "\<exists>rb'. ringbuffer_add bs rb = Some (min (length bs) (unat (ringbuffer_get_free rb)), rb') \<and> rb_inv rb' \<and>
      rb_contents rb' = rb_contents rb @ take (unat (ringbuffer_get_free rb)) bs"
    using ringbuffer.fill_ok [OF assms, of bs] unfolding free ringbuffer_add_def by blast
  show "\<exists>rb'. ringbuffer_get n rb = Some (take (unat n) (rb_contents rb), rb') \<and> rb_inv rb' \<and>
      rb_contents rb' = drop (unat n) (rb_contents rb)" by (rule ringbuffer_get_ok [OF assms])
  show "\<exists>rb'. ringbuffer_remove n rb = (min n (ravail rb), rb') \<and> rb_inv rb' \<and>
      rb_contents rb' = drop (unat n) (rb_contents rb)"
    using ringbuffer_remove_ok [OF assms, of n] by (metis prod.collapse)
  show "\<exists>rb'. ringbuffer_add_one c rb = Some (if ringbuffer_full rb then uint (hd (rb_contents rb)) else - 1, rb') \<and>
      rb_inv rb' \<and> rb_contents rb' = (if ringbuffer_full rb then tl (rb_contents rb) else rb_contents rb) @ [c]"
  proof (cases "ringbuffer_full rb")
    case True
    then have "length (rb_contents rb) = unat (rsize rb)" using ringbuffer.full_iff [OF assms] by simp
    then obtain x xs where xs: "rb_contents rb = x # xs" using assms by (cases "rb_contents rb") (auto simp: rb_inv_def)
    obtain rb1 where rb1: "get_head rb = Some (x, rb1)" "rb_inv rb1" "rb_contents rb1 = xs" "rsize rb1 = rsize rb"
      using get_head_ok [OF assms xs] by blast
    have "unat (ravail rb1) < unat (rsize rb1)"
      using rb1(3,4) \<open>length (rb_contents rb) = unat (rsize rb)\<close> xs length_rb_contents [of rb1] by simp
    from add_tail_ok [OF rb1(2) this, of c] True rb1 xs show ?thesis by (auto simp: ringbuffer_add_one_def)
  next
    case False
    then have "unat (ravail rb) < unat (rsize rb)"
      using ringbuffer.full_iff [OF assms] ringbuffer.len_le [OF assms] by simp
    from add_tail_ok [OF assms this, of c] False show ?thesis by (auto simp: ringbuffer_add_one_def)
  qed
qed

theorem ringbuffer_is_bounded_queue_witness:
  "\<exists>rb'. ringbuffer_get 2 \<lparr>rbuf = [30, 0, 10, 20], rsize = 4, rstart = 2, ravail = 3\<rparr> = Some ([10, 20], rb') \<and>
     rb_contents rb' = [30]"
proof -
  let ?rb = "\<lparr>rbuf = [30, 0, 10, 20], rsize = 4, rstart = 2, ravail = 3\<rparr>"
  have "rb_inv ?rb" by (simp add: rb_inv_def)
  moreover have "rb_contents ?rb = [10, 20, 30]" by (simp add: rb_contents_def upt_rec)
  ultimately show ?thesis using ringbuffer_is_bounded_queue [of ?rb "[]" 2 0] by auto
qed

text \<open>
  The ring buffer with free-running counters is a bounded byte queue too, also when
  the 32-bit counters wrap: \<open>tsrb_add\<close> appends the bytes that fit, \<open>tsrb_get\<close> and
  \<open>tsrb_drop\<close> remove the oldest, the single-byte operations return -1 exactly on a full or
  empty buffer, and no access leaves the array.
\<close>
theorem tsrb_is_bounded_queue:
  assumes "tsrb_inv rb"
  shows "(\<exists>rb'. tsrb_add bs rb = Some (min (length bs) (length (tbuf rb) - length (tsrb_contents rb)), rb') \<and>
      tsrb_inv rb' \<and> tsrb_contents rb' = tsrb_contents rb @ take (length (tbuf rb) - length (tsrb_contents rb)) bs) \<and>
    (\<exists>rb'. tsrb_get n rb = Some (take n (tsrb_contents rb), rb') \<and> tsrb_inv rb' \<and>
      tsrb_contents rb' = drop n (tsrb_contents rb)) \<and>
    (\<exists>rb'. tsrb_drop n rb = Some (min n (length (tsrb_contents rb)), rb') \<and> tsrb_inv rb' \<and>
      tsrb_contents rb' = drop n (tsrb_contents rb)) \<and>
    (tsrb_contents rb = [] \<longrightarrow> tsrb_get_one rb = Some (- 1, rb)) \<and>
    (length (tsrb_contents rb) = length (tbuf rb) \<longrightarrow> tsrb_add_one c rb = Some (- 1, rb))"
  using tsrb.fill_ok [OF assms, of bs] tsrb.drain_ok [OF assms, of n] tsrb.full_iff [OF assms] tsrb.empty_iff [OF assms]
  by (auto simp: tsrb_add_def tsrb_get_def tsrb_drop_def tsrb_get_one_def tsrb_add_one_def min.commute
      simp del: length_tsrb_contents)

theorem tsrb_is_bounded_queue_witness:
  "\<exists>rb'. tsrb_get 3 \<lparr>tbuf = [2, 3, 0, 1], tsize = 4, reads = 0xFFFFFFFF, writes = 2\<rparr> = Some ([1, 2, 3], rb')"
proof -
  let ?rb = "\<lparr>tbuf = [2, 3, 0, 1], tsize = 4, reads = 0xFFFFFFFF, writes = 2\<rparr> :: tsrb"
  have av: "tsrb_avail ?rb = 3" by (simp add: tsrb_avail_def)
  have "tsrb_inv ?rb" unfolding tsrb_inv_def av by (intro exI [of _ 2]) simp
  moreover have "tsrb_contents ?rb = [1, 2, 3]" unfolding tsrb_contents_def av by (simp add: upt_rec)
  ultimately show ?thesis using tsrb_is_bounded_queue [of ?rb "[]" 3] by auto
qed

end
