(* ===== verification/Pipe.thy ===== *)
theory Pipe
  imports Mutex Ringbuffer
begin

text \<open>
  Pipes (sys/pipe/pipe.c, sys/include/pipe.h): a ring buffer with one thread that may sleep until there is something to read and one that may sleep until there is room.
  The two pointers to blocked threads are the two sides of a pipe. \<open>pipe_rw\<close> is modelled up to the point where the thread goes to sleep; when it runs again, the loop
  starts over, which is the same definition again. The function that frees the pipe is an address (or NULL) that these operations only store; allocating and freeing
  pipes with \<open>malloc\<close> is not modelled.
\<close>

section \<open>The program\<close>

record pipe =
  prb :: ringbuffer
  read_blocked :: "tid option"
  write_blocked :: "tid option"
  pfree :: "nat option"

datatype side = Reading | Writing

fun other :: "side \<Rightarrow> side" where
  "other Reading = Writing"
| "other Writing = Reading"

fun op_blocked :: "side \<Rightarrow> pipe \<Rightarrow> tid option" where
  "op_blocked Reading p = read_blocked p"
| "op_blocked Writing p = write_blocked p"

fun set_blocked :: "side \<Rightarrow> tid option \<Rightarrow> pipe \<Rightarrow> pipe" where
  "set_blocked Reading t p = p\<lparr>read_blocked := t\<rparr>"
| "set_blocked Writing t p = p\<lparr>write_blocked := t\<rparr>"

text \<open>The operation on the ring buffer gives a count, and the bytes that go to the buffer of the caller.\<close>

definition pipe_rw ::
  "side \<Rightarrow> (ringbuffer \<Rightarrow> (nat \<times> u8 list \<times> ringbuffer) option) \<Rightarrow> nat \<Rightarrow> pipe \<Rightarrow> kernel \<Rightarrow> ((nat \<times> u8 list) call \<times> pipe \<times> kernel) option" where
  "pipe_rw this ringbuffer_op n p k =
     (if n = 0 then Some (Return (0, []), p, k)
      else
        do { let (old_state, k) = irq_disable k;
             (count, out, rb) \<leftarrow> ringbuffer_op (prb p);
             let p = p\<lparr>prb := rb\<rparr>;
             if count > 0 then
               (case op_blocked (other this) p of
                  Some other_thread \<Rightarrow>
                    do { let p = set_blocked (other this) None p;
                         let other_prio = priority (tcb k other_thread);
                         k \<leftarrow> sched_set_status other_thread STATUS_PENDING k;
                         k \<leftarrow> sched_switch other_prio (irq_restore old_state k);
                         Some (Return (count, out), p, k) }
                | None \<Rightarrow> Some (Return (count, out), p, irq_restore old_state k))
             else if op_blocked this p \<noteq> None \<or> irq_in k then Some (Return (0, out), p, irq_restore old_state k)
             else
               do { me \<leftarrow> thread_get_active k;
                    let p = set_blocked this (Some me) p;
                    k \<leftarrow> sched_set_status me STATUS_SLEEPING k;
                    Some (Blocks, p, thread_yield_higher (irq_restore old_state k)) } })"

definition pipe_read :: "u32 \<Rightarrow> pipe \<Rightarrow> kernel \<Rightarrow> ((nat \<times> u8 list) call \<times> pipe \<times> kernel) option" where
  "pipe_read n p k =
     pipe_rw Reading (\<lambda>rb. map_option (\<lambda>(bs, rb). (length bs, bs, rb)) (ringbuffer_get n rb)) (unat n) p k"

definition pipe_write :: "u8 list \<Rightarrow> pipe \<Rightarrow> kernel \<Rightarrow> ((nat \<times> u8 list) call \<times> pipe \<times> kernel) option" where
  "pipe_write bs p k =
     pipe_rw Writing (\<lambda>rb. map_option (\<lambda>(n, rb). (n, [], rb)) (ringbuffer_add bs rb)) (length bs) p k"

definition pipe_init :: "ringbuffer \<Rightarrow> nat option \<Rightarrow> pipe" where
  "pipe_init rb free = \<lparr>prb = rb, read_blocked = None, write_blocked = None, pfree = free\<rparr>"

section \<open>Streams of bytes\<close>

text \<open>The pipe with the bytes that were written and read so far; between the operations anything may happen to the kernel.\<close>

record pipesys =
  pip :: pipe
  pkern :: kernel
  sent :: "u8 list"
  received :: "u8 list"

definition got :: "(nat \<times> u8 list) call \<Rightarrow> u8 list" where
  "got r = (case r of Return (n, bs) \<Rightarrow> bs | Blocks \<Rightarrow> [])"

definition put :: "u8 list \<Rightarrow> (nat \<times> u8 list) call \<Rightarrow> u8 list" where
  "put bs r = (case r of Return (n, _) \<Rightarrow> take n bs | Blocks \<Rightarrow> [])"

inductive pipe_step :: "pipesys \<Rightarrow> pipesys \<Rightarrow> bool" where
  reads: "pipe_read n (pip s) (pkern s) = Some (r, p, k) \<Longrightarrow> pipe_step s (s\<lparr>pip := p, pkern := k, received := received s @ got r\<rparr>)"
| writes: "pipe_write bs (pip s) (pkern s) = Some (r, p, k) \<Longrightarrow> pipe_step s (s\<lparr>pip := p, pkern := k, sent := sent s @ put bs r\<rparr>)"
| others: "pipe_step s (s\<lparr>pkern := k\<rparr>)"

definition pipe_inv :: "pipesys \<Rightarrow> bool" where
  "pipe_inv s \<longleftrightarrow> rb_inv (prb (pip s)) \<and> received s @ rb_contents (prb (pip s)) = sent s \<and>
     (read_blocked (pip s) \<noteq> None \<longrightarrow> rb_contents (prb (pip s)) = []) \<and>
     (write_blocked (pip s) \<noteq> None \<longrightarrow> length (rb_contents (prb (pip s))) = unat (rsize (prb (pip s))))"

lemma rb_inv_pos: "rb_inv rb \<Longrightarrow> 0 < unat (rsize rb)"
  unfolding rb_inv_def by (elim conjE)

lemma ringbuffer_add_spec:
  assumes "rb_inv rb"
  obtains rb' where "ringbuffer_add bs rb = Some (min (length bs) (unat (rsize rb) - length (rb_contents rb)), rb')" "rb_inv rb'" "unat (rsize rb') = unat (rsize rb)"
    "rb_contents rb' = rb_contents rb @ take (unat (rsize rb) - length (rb_contents rb)) bs"
  using ringbuffer.fill_ok [OF assms, of bs] unfolding ringbuffer_add_def by blast

text \<open>What an operation that returns or blocks has done to the pipe.\<close>

lemma pipe_rw_cases:
  assumes "pipe_rw this rop n p k = Some (r, p', k')" "n \<noteq> 0" "rop (prb p) = Some (count, out, rb)"
  obtains "0 < count" "r = Return (count, out)" "p' = set_blocked (other this) None (p\<lparr>prb := rb\<rparr>)"
  | "count = 0" "r = Return (0, out)" "p' = p\<lparr>prb := rb\<rparr>"
  | me where "count = 0" "r = Blocks" "p' = set_blocked this (Some me) (p\<lparr>prb := rb\<rparr>)"
proof (cases "0 < count")
  case True
  moreover have "op_blocked (other this) q = None \<Longrightarrow> set_blocked (other this) None q = q" for q :: pipe by (cases this) auto
  ultimately have "r = Return (count, out) \<and> p' = set_blocked (other this) None (p\<lparr>prb := rb\<rparr>)"
    using assms by (auto simp: pipe_rw_def irq_disable_def Let_def split: option.splits Option.bind_splits)
  then show thesis using True that(1) by blast
next
  case False
  then have "r = Return (0, out) \<and> p' = p\<lparr>prb := rb\<rparr> \<or> (\<exists>me. r = Blocks \<and> p' = set_blocked this (Some me) (p\<lparr>prb := rb\<rparr>))"
    using assms by (auto simp: pipe_rw_def irq_disable_def Let_def split: if_splits Option.bind_splits)
  then show thesis using False that(2,3) by blast
qed

lemma pipe_inv_read:
  assumes inv: "pipe_inv s" and rd: "pipe_read n (pip s) (pkern s) = Some (r, p, k)"
  shows "pipe_inv (s\<lparr>pip := p, pkern := k, received := received s @ got r\<rparr>)"
proof (cases "n = 0")
  case True
  then show ?thesis using inv rd by (auto simp: pipe_read_def pipe_rw_def pipe_inv_def got_def)
next
  case False
  then have n: "0 < unat n" by (simp add: unat_gt_0)
  then have nz: "unat n \<noteq> 0" by simp
  let ?c = "rb_contents (prb (pip s))"
  have i: "rb_inv (prb (pip s))" "received s @ ?c = sent s" using inv by (auto simp: pipe_inv_def)
  obtain rb where rb: "ringbuffer_get n (prb (pip s)) = Some (take (unat n) ?c, rb)" "rb_inv rb" "rb_contents rb = drop (unat n) ?c"
    using ringbuffer_get_ok [OF i(1)] by blast
  let ?op = "\<lambda>rb. map_option (\<lambda>(bs, rb). (length bs, bs, rb)) (ringbuffer_get n rb)"
  have op: "?op (prb (pip s)) = Some (length (take (unat n) ?c), take (unat n) ?c, rb)" using rb(1) by simp
  have size: "0 < unat (rsize (prb (pip s)))" by (rule rb_inv_pos [OF i(1)])
  from rd have rw: "pipe_rw Reading ?op (unat n) (pip s) (pkern s) = Some (r, p, k)" by (simp add: pipe_read_def)
  have empty: "?c = []" if "length (take (unat n) ?c) = 0" using that n by (simp only: length_0_conv take_eq_Nil) auto
  show ?thesis
  proof (cases rule: pipe_rw_cases [OF rw nz op])
    case 1
    then have "take (unat n) ?c \<noteq> []" by (simp only: length_greater_0_conv not_False_eq_True)
    then have "?c \<noteq> []" by auto
    then have "read_blocked (pip s) = None" using inv by (auto simp: pipe_inv_def)
    then show ?thesis using 1 rb i(2) by (simp add: pipe_inv_def got_def)
  next
    case 2
    have "?c = []" by (rule empty [OF \<open>length (take (unat n) ?c) = 0\<close>])
    then show ?thesis using 2 rb inv size by (auto simp: pipe_inv_def got_def)
  next
    case (3 me)
    have "?c = []" by (rule empty [OF \<open>length (take (unat n) ?c) = 0\<close>])
    then show ?thesis using 3 rb inv size by (auto simp: pipe_inv_def got_def)
  qed
qed

lemma pipe_inv_write:
  assumes inv: "pipe_inv s" and wr: "pipe_write bs (pip s) (pkern s) = Some (r, p, k)"
  shows "pipe_inv (s\<lparr>pip := p, pkern := k, sent := sent s @ put bs r\<rparr>)"
proof (cases "bs = []")
  case True
  then show ?thesis using inv wr by (auto simp: pipe_write_def pipe_rw_def pipe_inv_def put_def)
next
  case False
  then have nz: "length bs \<noteq> 0" by simp
  let ?c = "rb_contents (prb (pip s))" and ?f = "unat (rsize (prb (pip s))) - length (rb_contents (prb (pip s)))"
  have i: "rb_inv (prb (pip s))" "received s @ ?c = sent s" using inv by (auto simp: pipe_inv_def)
  obtain rb where rb: "ringbuffer_add bs (prb (pip s)) = Some (min (length bs) ?f, rb)" "rb_inv rb" "unat (rsize rb) = unat (rsize (prb (pip s)))"
      "rb_contents rb = ?c @ take ?f bs"
    by (rule ringbuffer_add_spec [OF i(1), of bs])
  let ?op = "\<lambda>rb. map_option (\<lambda>(n, rb). (n, [] :: u8 list, rb)) (ringbuffer_add bs rb)"
  have op: "?op (prb (pip s)) = Some (min (length bs) ?f, [], rb)" using rb(1) by simp
  have le: "length ?c \<le> unat (rsize (prb (pip s)))" using i(1) by (simp add: rb_inv_def)
  have size: "0 < unat (rsize (prb (pip s)))" by (rule rb_inv_pos [OF i(1)])
  from wr have rw: "pipe_rw Writing ?op (length bs) (pip s) (pkern s) = Some (r, p, k)" by (simp add: pipe_write_def)
  have full: "length ?c = unat (rsize (prb (pip s)))" if "min (length bs) ?f = 0" using that nz le by linarith
  show ?thesis
  proof (cases rule: pipe_rw_cases [OF rw nz op])
    case 1
    then have "length ?c \<noteq> unat (rsize (prb (pip s)))" by auto
    then have "write_blocked (pip s) = None" using inv by (auto simp: pipe_inv_def)
    moreover have "take (min (length bs) ?f) bs = take ?f bs" by (simp add: min_def)
    ultimately show ?thesis using 1 rb by (simp add: pipe_inv_def put_def i(2) [symmetric])
  next
    case 2
    have f: "length ?c = unat (rsize (prb (pip s)))" by (rule full [OF \<open>min (length bs) ?f = 0\<close>])
    then show ?thesis using 2 rb inv by (auto simp: pipe_inv_def put_def)
  next
    case (3 me)
    have f: "length ?c = unat (rsize (prb (pip s)))" by (rule full [OF \<open>min (length bs) ?f = 0\<close>])
    then show ?thesis using 3 rb inv by (auto simp: pipe_inv_def put_def)
  qed
qed

lemma pipe_inv_step: "pipe_step s s' \<Longrightarrow> pipe_inv s \<Longrightarrow> pipe_inv s'"
proof (induction rule: pipe_step.induct)
  case (reads n s r p k)
  then show ?case using pipe_inv_read by blast
next
  case (writes bs s r p k)
  then show ?case using pipe_inv_write by blast
next
  case (others s k)
  then show ?case by (simp add: pipe_inv_def)
qed

lemma pipe_inv_reachable: "pipe_step\<^sup>*\<^sup>* s s' \<Longrightarrow> pipe_inv s \<Longrightarrow> pipe_inv s'"
  by (induction rule: rtranclp_induct) (auto intro: pipe_inv_step)

lemma rb_inv_init: "length buf = unat n \<Longrightarrow> 0 < unat n \<Longrightarrow> unat n \<le> 2 ^ 31 \<Longrightarrow> rb_inv (ringbuffer_init buf n) \<and> rb_contents (ringbuffer_init buf n) = []"
  by (simp add: rb_inv_def ringbuffer_init_def rb_contents_def)

text \<open>The state before the first operation.\<close>

definition pipe_start :: "u8 list \<Rightarrow> u32 \<Rightarrow> kernel \<Rightarrow> pipesys" where
  "pipe_start buf n k = \<lparr>pip = pipe_init (ringbuffer_init buf n) None, pkern = k, sent = [], received = []\<rparr>"

lemma pipe_inv_start: "length buf = unat n \<Longrightarrow> 0 < unat n \<Longrightarrow> unat n \<le> 2 ^ 31 \<Longrightarrow> pipe_inv (pipe_start buf n k)"
  using rb_inv_init [of buf n] by (simp add: pipe_inv_def pipe_start_def pipe_init_def)

text \<open>A thread that sleeps on the other side is woken by an operation that moved bytes.\<close>

lemma pipe_rw_wakes:
  assumes "rq_inv k" "sched_active_thread k = Some a" "op_blocked (other this) p = Some w"
    "\<not> on_runqueue (status (tcb k w))" "priority (tcb k w) < SCHED_PRIO_LEVELS"
    "n \<noteq> 0" "rop (prb p) = Some (count, out, rb)" "0 < count"
  shows "\<exists>k'. pipe_rw this rop n p k = Some (Return (count, out), set_blocked (other this) None (p\<lparr>prb := rb\<rparr>), k') \<and>
    rq_inv k' \<and> tcb k' = (tcb k)(w := (tcb k w)\<lparr>status := STATUS_PENDING\<rparr>) \<and> irq_enabled k' = irq_enabled k"
proof -
  let ?k0 = "k\<lparr>irq_enabled := False\<rparr>"
  have "rq_inv ?k0" using assms(1) by (rule rq_inv_cong) simp_all
  from wake_waiter [OF this, of w] assms(2,4,5) obtain k1 where
    k1: "sched_set_status w STATUS_PENDING ?k0 = Some k1" "rq_inv k1"
      "tcb k1 = (tcb k)(w := (tcb k w)\<lparr>status := STATUS_PENDING\<rparr>)" "sched_active_thread k1 = Some a" by auto
  let ?k2 = "irq_restore (irq_enabled k) k1"
  have "sched_active_thread ?k2 = Some a" using k1(4) by (simp add: irq_restore_def)
  then obtain k3 where k3: "sched_switch (priority (tcb k w)) ?k2 = Some k3"
    "k3 = ?k2 \<or> k3 = ?k2\<lparr>sched_context_switch_request := True\<rparr> \<or> k3 = ?k2\<lparr>pendsv := True\<rparr>"
    by (auto simp: sched_switch_cases)
  then have t3: "tcb k3 = tcb k1" "irq_enabled k3 = irq_enabled k" by (auto simp: irq_restore_def)
  have "rq_inv k3" using k1(2) by (rule rq_inv_cong) (use k3(2) in \<open>auto simp: irq_restore_def\<close>)
  have "op_blocked (other this) (p\<lparr>prb := rb\<rparr>) = Some w" using assms(3) by (cases this) auto
  then have "pipe_rw this rop n p k = Some (Return (count, out), set_blocked (other this) None (p\<lparr>prb := rb\<rparr>), k3)"
    using assms(6-8) k1(1) k3(1) by (simp add: pipe_rw_def irq_disable_def Let_def)
  with \<open>rq_inv k3\<close> show ?thesis using t3 k1(3) by auto
qed

text \<open>
  Writing to a pipe that a thread waits to read from: the running thread stores as many bytes as there is room for, at least one, the reader is no longer noted as waiting and is
  put into the run queue of its priority, and the run queues stay consistent.
\<close>
lemma pipe_write_wakes_reader:
  assumes "pipe_inv s" "rq_inv (pkern s)" "sched_active_thread (pkern s) = Some a" "read_blocked (pip s) = Some w"
    "status (tcb (pkern s) w) = STATUS_SLEEPING" "priority (tcb (pkern s) w) < SCHED_PRIO_LEVELS" "bs \<noteq> []"
  shows "\<exists>p k. pipe_write bs (pip s) (pkern s) = Some (Return (min (length bs) (unat (rsize (prb (pip s)))), []), p, k) \<and>
    0 < min (length bs) (unat (rsize (prb (pip s)))) \<and> rb_contents (prb p) = take (unat (rsize (prb (pip s)))) bs \<and>
    read_blocked p = None \<and> rq_inv k \<and> status (tcb k w) = STATUS_PENDING \<and> w \<in> set (sched_runqueues k ! priority (tcb k w))"
proof -
  have i: "rb_inv (prb (pip s))" and c: "rb_contents (prb (pip s)) = []" using assms(1,4) by (auto simp: pipe_inv_def)
  let ?n = "min (length bs) (unat (rsize (prb (pip s))))"
  obtain rb where rb: "ringbuffer_add bs (prb (pip s)) = Some (?n, rb)" "rb_contents rb = take (unat (rsize (prb (pip s)))) bs"
    using ringbuffer_add_spec [OF i, of bs] c by auto
  have pos: "0 < ?n" using rb_inv_pos [OF i] assms(7) by simp
  have "\<not> on_runqueue (status (tcb (pkern s) w))" using assms(5) by (simp add: on_runqueue_iff)
  from pipe_rw_wakes [OF assms(2,3) _ this assms(6), where this = Writing and p = "pip s" and n = "length bs" and count = ?n and out = "[]" and rb = rb
      and rop = "\<lambda>rb. map_option (\<lambda>(n, rb). (n, [] :: u8 list, rb)) (ringbuffer_add bs rb)"] assms(4,7) rb(1) pos
  obtain k where k: "pipe_write bs (pip s) (pkern s) = Some (Return (?n, []), (pip s)\<lparr>prb := rb, read_blocked := None\<rparr>, k)" "rq_inv k"
    "tcb k = (tcb (pkern s))(w := (tcb (pkern s) w)\<lparr>status := STATUS_PENDING\<rparr>)"
    by (auto simp: pipe_write_def)
  have "w \<in> set (sched_runqueues k ! priority (tcb k w))"
    using rq_invD(3) [OF k(2)] k(3) assms(6) by (simp add: on_runqueue_iff)
  then show ?thesis using k rb(2) pos by (intro exI [of _ "(pip s)\<lparr>prb := rb, read_blocked := None\<rparr>"] exI [of _ k]) simp
qed

lemma pipe_write_wakes_reader_witness:
  "\<exists>p k. pipe_write [5, 6, 7] \<lparr>prb = ringbuffer_init [0, 0] 2, read_blocked = Some 9, write_blocked = None, pfree = None\<rparr> two_threads = Some (Return (2, []), p, k) \<and>
     rb_contents (prb p) = [5, 6] \<and> read_blocked p = None \<and> status (tcb k 9) = STATUS_PENDING"
proof -
  let ?s = "\<lparr>pip = \<lparr>prb = ringbuffer_init [0, 0] 2, read_blocked = Some 9, write_blocked = None, pfree = None\<rparr>, pkern = two_threads, sent = [], received = []\<rparr>"
  have "pipe_inv ?s" using rb_inv_init [of "[0, 0]" 2] by (simp add: pipe_inv_def)
  moreover have "status (tcb two_threads 9) = STATUS_SLEEPING" "priority (tcb two_threads 9) < SCHED_PRIO_LEVELS"
    by (simp_all add: two_threads_def kernel_consts)
  moreover have "sched_active_thread two_threads = Some 7" using two_threads_active by (simp add: active_ready_def)
  ultimately show ?thesis using pipe_write_wakes_reader [of ?s 7 9 "[5, 6, 7]"] two_threads_rq_inv by (auto simp: ringbuffer_init_def)
qed

text \<open>
  (C32) A pipe, with a buffer of any size from one byte to 2 to the 31, is a reliable stream of bytes: after any sequence of reads and writes, from threads and interrupts, with any number of bytes at a time and anything
  happening to the kernel in between, what was received, followed by what is in the buffer, is what was sent: no byte is lost, repeated or reordered. And the thread that is noted
  as waiting to read (write) is never left behind: it is noted only while the buffer is empty (full).
\<close>
theorem pipe_transports_stream:
  assumes "length buf = unat n" "0 < unat n" "unat n \<le> 2 ^ 31" "pipe_step\<^sup>*\<^sup>* (pipe_start buf n k) s"
  shows "received s @ rb_contents (prb (pip s)) = sent s \<and>
     (read_blocked (pip s) \<noteq> None \<longrightarrow> rb_contents (prb (pip s)) = []) \<and>
     (write_blocked (pip s) \<noteq> None \<longrightarrow> length (rb_contents (prb (pip s))) = unat (rsize (prb (pip s))))"
  using pipe_inv_reachable [OF assms(4) pipe_inv_start [OF assms(1-3)]] by (simp add: pipe_inv_def)

theorem pipe_transports_stream_witness:
  "\<exists>s. pipe_step\<^sup>*\<^sup>* (pipe_start [0, 0] 2 two_threads) s \<and> sent s = [5, 6] \<and> received s = [5] \<and> rb_contents (prb (pip s)) = [6]"
proof -
  let ?s0 = "pipe_start [0, 0] 2 two_threads"
  let ?p = "\<lambda>b st a. \<lparr>prb = \<lparr>rbuf = b, rsize = 2, rstart = st, ravail = a\<rparr>, read_blocked = None, write_blocked = None, pfree = None\<rparr>"
  let ?s1 = "\<lparr>pip = ?p [5, 6] 0 2, pkern = two_threads, sent = [5, 6], received = []\<rparr>"
  let ?s2 = "\<lparr>pip = ?p [5, 6] 1 1, pkern = two_threads, sent = [5, 6], received = [5]\<rparr>"
  have a: "ringbuffer_add [5, 6, 7] (ringbuffer_init [0, 0] 2) = Some (2, prb (pip ?s1))" by code_simp
  have g: "ringbuffer_get 1 (prb (pip ?s1)) = Some ([5], prb (pip ?s2))" by code_simp
  have "pipe_write [5, 6, 7] (pip ?s0) two_threads = Some (Return (2, []), ?p [5, 6] 0 2, two_threads)"
    using a by (simp add: pipe_write_def pipe_rw_def pipe_start_def pipe_init_def irq_disable_def irq_restore_def)
  then have "pipe_step ?s0 ?s1" using pipe_step.writes [of "[5, 6, 7]" ?s0] by (simp add: pipe_start_def put_def)
  moreover have "pipe_read 1 (pip ?s1) two_threads = Some (Return (1, [5]), ?p [5, 6] 1 1, two_threads)"
    using g by (simp add: pipe_read_def pipe_rw_def irq_disable_def irq_restore_def)
  then have "pipe_step ?s1 ?s2" using pipe_step.reads [of 1 ?s1] by (simp add: got_def)
  ultimately have r: "pipe_step\<^sup>*\<^sup>* ?s0 ?s2" by (meson converse_rtranclp_into_rtranclp r_into_rtranclp)
  show ?thesis using pipe_transports_stream [OF _ _ _ r] r by (intro exI [of _ ?s2]) simp
qed

end
