(* ===== verification/Thread_Flags.thy ===== *)
theory Thread_Flags
  imports Mutex
begin

text \<open>
  Thread flags (core/thread_flags.c): a 16-bit flag word per thread, waiting for any, one or
  all flags of a mask, and setting flags from threads and interrupts. Each waiting call is
  modelled up to the context switch and, where it goes on after it, by a second definition
  (the \<open>_resume\<close> part, \<open>thread_flags_clear_atomic\<close> on the mask).
\<close>

section \<open>Operations\<close>

definition THREAD_FLAG_MSG_WAITING :: u16 where "THREAD_FLAG_MSG_WAITING = 0x8000"

text \<open>\<open>(uint16_t)(unsigned)thread->wait_data\<close>\<close>

definition wait_mask :: "wait_data \<Rightarrow> u16" where
  "wait_mask w = (case w of WNull \<Rightarrow> 0 | WMsg a \<Rightarrow> of_nat a | WMask m \<Rightarrow> m)"

definition thread_flags_wake :: "tid \<Rightarrow> kernel \<Rightarrow> (bool \<times> kernel) option" where
  "thread_flags_wake t k =
     do { let th = tcb k t;
          let msk = wait_mask (wait_data th);
          let wakeup = (case status th of
                STATUS_FLAG_BLOCKED_ANY \<Rightarrow> flags th AND msk \<noteq> 0
              | STATUS_FLAG_BLOCKED_ALL \<Rightarrow> flags th AND msk = msk
              | _ \<Rightarrow> False);
          if wakeup then
            do { k \<leftarrow> sched_set_status t STATUS_PENDING k;
                 Some (True, k\<lparr>sched_context_switch_request := True\<rparr>) }
          else Some (False, k) }"

definition thread_flags_clear_atomic :: "tid \<Rightarrow> u16 \<Rightarrow> kernel \<Rightarrow> u16 \<times> kernel" where
  "thread_flags_clear_atomic t msk k =
     (let (state, k) = irq_disable k;
          msk = msk AND flags (tcb k t);
          k = upd_tcb t (\<lambda>th. th\<lparr>flags := flags th AND NOT msk\<rparr>) k
      in (msk, irq_restore state k))"

definition thread_flags_wait :: "u16 \<Rightarrow> tid \<Rightarrow> thread_status \<Rightarrow> bool \<Rightarrow> kernel \<Rightarrow> kernel option" where
  "thread_flags_wait msk t threadstate irqstate k =
     do { let k = upd_tcb t (\<lambda>th. th\<lparr>wait_data := WMask msk\<rparr>) k;
          k \<leftarrow> sched_set_status t threadstate k;
          Some (thread_yield_higher (irq_restore irqstate k)) }"

definition thread_flags_clear :: "u16 \<Rightarrow> kernel \<Rightarrow> (u16 \<times> kernel) option" where
  "thread_flags_clear msk k =
     do { me \<leftarrow> thread_get_active k; Some (thread_flags_clear_atomic me msk k) }"

text \<open>\<open>_thread_flags_wait_any\<close>: True if the thread now waits.\<close>

definition thread_flags_wait_any_enter :: "u16 \<Rightarrow> kernel \<Rightarrow> (bool \<times> kernel) option" where
  "thread_flags_wait_any_enter msk k =
     do { me \<leftarrow> thread_get_active k;
          let (state, k) = irq_disable k;
          if flags (tcb k me) AND msk = 0 then
            do { k \<leftarrow> thread_flags_wait msk me STATUS_FLAG_BLOCKED_ANY state k; Some (True, k) }
          else Some (False, irq_restore state k) }"

definition thread_flags_wait_any :: "u16 \<Rightarrow> kernel \<Rightarrow> (u16 call \<times> kernel) option" where
  "thread_flags_wait_any msk k =
     do { me \<leftarrow> thread_get_active k;
          (waits, k) \<leftarrow> thread_flags_wait_any_enter msk k;
          if waits then Some (Blocks, k)
          else (let (r, k) = thread_flags_clear_atomic me msk k in Some (Return r, k)) }"

text \<open>The second half of \<open>thread_flags_wait_one\<close>: all but the lowest of the awaited flags are kept.\<close>

definition thread_flags_take_one :: "tid \<Rightarrow> u16 \<Rightarrow> kernel \<Rightarrow> u16 \<times> kernel" where
  "thread_flags_take_one me msk k =
     (let tmp = flags (tcb k me) AND msk;
          tmp = tmp AND (NOT tmp + 1)
      in thread_flags_clear_atomic me tmp k)"

definition thread_flags_wait_one :: "u16 \<Rightarrow> kernel \<Rightarrow> (u16 call \<times> kernel) option" where
  "thread_flags_wait_one msk k =
     do { (waits, k) \<leftarrow> thread_flags_wait_any_enter msk k;
          if waits then Some (Blocks, k)
          else do { me \<leftarrow> thread_get_active k;
                    let (r, k) = thread_flags_take_one me msk k;
                    Some (Return r, k) } }"

definition thread_flags_wait_all :: "u16 \<Rightarrow> kernel \<Rightarrow> (u16 call \<times> kernel) option" where
  "thread_flags_wait_all msk k =
     do { let (state, k) = irq_disable k;
          me \<leftarrow> thread_get_active k;
          if flags (tcb k me) AND msk \<noteq> msk then
            do { k \<leftarrow> thread_flags_wait msk me STATUS_FLAG_BLOCKED_ALL state k; Some (Blocks, k) }
          else (let (r, k) = thread_flags_clear_atomic me msk (irq_restore state k) in Some (Return r, k)) }"

definition thread_flags_set :: "tid \<Rightarrow> u16 \<Rightarrow> kernel \<Rightarrow> kernel option" where
  "thread_flags_set t msk k =
     do { let (state, k) = irq_disable k;
          let k = upd_tcb t (\<lambda>th. th\<lparr>flags := flags th OR msk\<rparr>) k;
          (woken, k) \<leftarrow> thread_flags_wake t k;
          let k = irq_restore state k;
          Some (if woken then thread_yield_higher k else k) }"

section \<open>What waits, waits for something\<close>

text \<open>A thread blocked on flags does not have the flags it waits for.\<close>

definition flags_inv :: "kernel \<Rightarrow> bool" where
  "flags_inv k \<longleftrightarrow>
     (\<forall>t. (status (tcb k t) = STATUS_FLAG_BLOCKED_ANY \<longrightarrow> flags (tcb k t) AND wait_mask (wait_data (tcb k t)) = 0) \<and>
          (status (tcb k t) = STATUS_FLAG_BLOCKED_ALL \<longrightarrow>
             flags (tcb k t) AND wait_mask (wait_data (tcb k t)) \<noteq> wait_mask (wait_data (tcb k t))))"

text \<open>The flags make the thread ready: what the blocked thread waits for.\<close>

definition satisfied :: "thread \<Rightarrow> bool" where
  "satisfied th \<longleftrightarrow>
     status th = STATUS_FLAG_BLOCKED_ANY \<and> flags th AND wait_mask (wait_data th) \<noteq> 0 \<or>
     status th = STATUS_FLAG_BLOCKED_ALL \<and> flags th AND wait_mask (wait_data th) = wait_mask (wait_data th)"

lemma flags_inv_iff: "flags_inv k \<longleftrightarrow> (\<forall>t. \<not> satisfied (tcb k t))"
  by (auto simp: flags_inv_def satisfied_def)

lemma thread_flags_wake_eq:
  "thread_flags_wake t k =
     (if satisfied (tcb k t)
      then do { k \<leftarrow> sched_set_status t STATUS_PENDING k; Some (True, k\<lparr>sched_context_switch_request := True\<rparr>) }
      else Some (False, k))"
  by (cases "status (tcb k t)") (auto simp: thread_flags_wake_def satisfied_def Let_def)

lemma thread_flags_wake_spec:
  assumes "rq_inv k" "\<And>x. x \<noteq> t \<Longrightarrow> \<not> satisfied (tcb k x)" "priority (tcb k t) < SCHED_PRIO_LEVELS"
  shows "\<exists>k'. thread_flags_wake t k = Some (satisfied (tcb k t), k') \<and> rq_inv k' \<and> flags_inv k' \<and>
    tcb k' = (tcb k)(t := (if satisfied (tcb k t) then (tcb k t)\<lparr>status := STATUS_PENDING\<rparr> else tcb k t)) \<and>
    sched_active_thread k' = sched_active_thread k \<and> irq_enabled k' = irq_enabled k \<and> irq_in k' = irq_in k \<and>
    msgs k' = msgs k \<and> sched_active_pid k' = sched_active_pid k \<and> sched_threads k' = sched_threads k"
proof (cases "satisfied (tcb k t)")
  case False
  then show ?thesis using assms by (auto simp: thread_flags_wake_eq flags_inv_iff) metis
next
  case True
  then have off: "\<not> on_runqueue (status (tcb k t))" by (auto simp: satisfied_def on_runqueue_iff)
  from wake_waiter [OF assms(1) off assms(3)] obtain k1 where
    k1: "sched_set_status t STATUS_PENDING k = Some k1" "rq_inv k1"
      "tcb k1 = (tcb k)(t := (tcb k t)\<lparr>status := STATUS_PENDING\<rparr>)"
      "sched_active_thread k1 = sched_active_thread k" "irq_enabled k1 = irq_enabled k" "irq_in k1 = irq_in k"
      "msgs k1 = msgs k" "sched_active_pid k1 = sched_active_pid k" "sched_threads k1 = sched_threads k" by auto
  let ?k2 = "k1\<lparr>sched_context_switch_request := True\<rparr>"
  have "rq_inv ?k2" using k1(2) by (rule rq_inv_cong) simp_all
  moreover have "flags_inv ?k2" using assms(2) by (auto simp: flags_inv_iff k1(3)) (simp add: satisfied_def)
  ultimately show ?thesis using True k1 by (simp add: thread_flags_wake_eq)
qed

lemma thread_flags_wait_spec:
  assumes "rq_inv k" "flags_inv k" "active_ready t k" "\<not> on_runqueue st"
    "\<not> satisfied ((tcb k t)\<lparr>wait_data := WMask msk, status := st\<rparr>)"
  shows "\<exists>k'. thread_flags_wait msk t st ie (k\<lparr>irq_enabled := False\<rparr>) = Some k' \<and> rq_inv k' \<and> flags_inv k' \<and>
    tcb k' = (tcb k)(t := (tcb k t)\<lparr>wait_data := WMask msk, status := st\<rparr>) \<and> pendsv k' \<and> irq_enabled k' = ie"
proof -
  let ?k0 = "upd_tcb t (\<lambda>th. th\<lparr>wait_data := WMask msk\<rparr>) (k\<lparr>irq_enabled := False\<rparr>)"
  have "rq_inv ?k0" using assms(1) by (rule rq_inv_cong) simp_all
  moreover have "active_ready t ?k0" using assms(3) by (simp add: active_ready_def)
  ultimately obtain k1 where k1: "sched_set_status t st ?k0 = Some k1" "rq_inv k1"
    "tcb k1 = (tcb k)(t := (tcb k t)\<lparr>wait_data := WMask msk, status := st\<rparr>)"
    using block_active [of ?k0 t st] assms(4) by auto
  let ?k2 = "thread_yield_higher (irq_restore ie k1)"
  have "rq_inv ?k2" using k1(2) by (rule rq_inv_cong) simp_all
  moreover have "flags_inv ?k2" using assms(2,5) by (simp add: flags_inv_iff k1(3))
  ultimately show ?thesis using k1 by (simp add: thread_flags_wait_def Let_def)
qed

lemma clear_atomic_eq:
  "thread_flags_clear_atomic t msk k =
     (msk AND flags (tcb k t), upd_tcb t (\<lambda>th. th\<lparr>flags := flags th AND NOT (msk AND flags (tcb k t))\<rparr>) k)"
  by (simp add: thread_flags_clear_atomic_def irq_disable_def irq_restore_def upd_tcb_def Let_def)

lemma clear_atomic_inv: "flags_inv k \<Longrightarrow> on_runqueue (status (tcb k t)) \<Longrightarrow> flags_inv (snd (thread_flags_clear_atomic t msk k))"
  by (auto simp: clear_atomic_eq flags_inv_def on_runqueue_iff)

lemma wait_any_enter_ready:
  "sched_active_thread k = Some t \<Longrightarrow> flags (tcb k t) AND msk \<noteq> 0 \<Longrightarrow>
   thread_flags_wait_any_enter msk k = Some (False, k)"
  by (simp add: thread_flags_wait_any_enter_def thread_get_active_def irq_disable_def Let_def)

lemma wait_any_enter_blocks:
  assumes "rq_inv k" "flags_inv k" "active_ready t k" "flags (tcb k t) AND msk = 0"
  shows "\<exists>k'. thread_flags_wait_any_enter msk k = Some (True, k') \<and> rq_inv k' \<and> flags_inv k' \<and>
    tcb k' = (tcb k)(t := (tcb k t)\<lparr>wait_data := WMask msk, status := STATUS_FLAG_BLOCKED_ANY\<rparr>) \<and> pendsv k'"
proof -
  have off: "\<not> on_runqueue STATUS_FLAG_BLOCKED_ANY" by (simp add: on_runqueue_iff)
  have "\<not> satisfied ((tcb k t)\<lparr>wait_data := WMask msk, status := STATUS_FLAG_BLOCKED_ANY\<rparr>)"
    using assms(4) by (simp add: satisfied_def wait_mask_def)
  from thread_flags_wait_spec [OF assms(1-3) off this, of "irq_enabled k"] assms(3,4) show ?thesis
    by (auto simp: thread_flags_wait_any_enter_def thread_get_active_def irq_disable_def Let_def active_ready_def)
qed

lemma take_one_lowest:
  assumes "bit (flags (tcb k t) AND msk) i" "\<forall>j<i. \<not> bit (flags (tcb k t) AND msk) j"
  shows "thread_flags_take_one t msk k = thread_flags_clear_atomic t (2 ^ i) k"
    "(2 ^ i :: u16) AND flags (tcb k t) = 2 ^ i"
proof -
  let ?v = "flags (tcb k t) AND msk"
  have "?v AND (NOT ?v + 1) = 2 ^ i" using and_neg_lowest [OF assms] by (simp add: minus_eq_not_plus_1)
  then show "thread_flags_take_one t msk k = thread_flags_clear_atomic t (2 ^ i) k"
    by (simp add: thread_flags_take_one_def Let_def)
  show "(2 ^ i :: u16) AND flags (tcb k t) = 2 ^ i"
    using assms(1) by (intro bit_word_eqI) (auto simp: bit_simps)
qed

lemma thread_flags_set_spec:
  assumes "rq_inv k" "flags_inv k" "priority (tcb k t) < SCHED_PRIO_LEVELS"
    and "w \<longleftrightarrow> satisfied ((tcb k t)\<lparr>flags := flags (tcb k t) OR msk\<rparr>)"
  shows "\<exists>k'. thread_flags_set t msk k = Some k' \<and> rq_inv k' \<and> flags_inv k' \<and> (w \<longrightarrow> pendsv k') \<and>
    tcb k' = (tcb k)(t := (tcb k t)\<lparr>flags := flags (tcb k t) OR msk,
      status := (if w then STATUS_PENDING else status (tcb k t))\<rparr>)"
proof -
  let ?k0 = "upd_tcb t (\<lambda>th. th\<lparr>flags := flags th OR msk\<rparr>) (k\<lparr>irq_enabled := False\<rparr>)"
  let ?w = "satisfied ((tcb k t)\<lparr>flags := flags (tcb k t) OR msk\<rparr>)"
  have "rq_inv ?k0" using assms(1) by (rule rq_inv_cong) simp_all
  from thread_flags_wake_spec [OF this, of t] assms(2,3) obtain k1 where
    k1: "thread_flags_wake t ?k0 = Some (?w, k1)" "rq_inv k1" "flags_inv k1"
      "tcb k1 = (tcb ?k0)(t := (if ?w then (tcb ?k0 t)\<lparr>status := STATUS_PENDING\<rparr> else tcb ?k0 t))"
    by (auto simp: flags_inv_iff)
  let ?k2 = "if ?w then thread_yield_higher (irq_restore (irq_enabled k) k1) else irq_restore (irq_enabled k) k1"
  have run: "thread_flags_set t msk k = Some ?k2"
    using k1(1) by (simp add: thread_flags_set_def irq_disable_def Let_def)
  have "rq_inv ?k2" using k1(2) by (rule rq_inv_cong) simp_all
  moreover have "flags_inv ?k2" using k1(3) by (simp add: flags_inv_iff)
  ultimately show ?thesis using run k1(4) assms(4) by (intro exI [of _ ?k2]) simp
qed

section \<open>Properties\<close>

text \<open>
  \<open>thread_flags_set\<close> adds the flags and makes the thread ready in exactly the
  cases its wait asks for: waiting for any flag of a mask, when one of them is set now;
  waiting for all, when all are. Afterwards again no thread is blocked on flags it has.
\<close>
theorem thread_flags_set_wakes:
  assumes "rq_inv k" and "flags_inv k" and "priority (tcb k t) < SCHED_PRIO_LEVELS"
  shows "\<exists>k'. thread_flags_set t msk k = Some k' \<and> rq_inv k' \<and> flags_inv k' \<and>
    flags (tcb k' t) = flags (tcb k t) OR msk \<and>
    status (tcb k' t) =
      (if satisfied ((tcb k t)\<lparr>flags := flags (tcb k t) OR msk\<rparr>) then STATUS_PENDING else status (tcb k t)) \<and>
    (satisfied ((tcb k t)\<lparr>flags := flags (tcb k t) OR msk\<rparr>) \<longrightarrow> pendsv k') \<and>
    (\<forall>x. x \<noteq> t \<longrightarrow> tcb k' x = tcb k x)"
  using thread_flags_set_spec [OF assms refl, of msk] by auto

theorem thread_flags_set_wakes_witness:
  "\<exists>k'. thread_flags_set 9 2 ((two_threads_in STATUS_FLAG_BLOCKED_ANY)
     \<lparr>tcb := (tcb (two_threads_in STATUS_FLAG_BLOCKED_ANY))(9 :=
        (tcb (two_threads_in STATUS_FLAG_BLOCKED_ANY) 9)\<lparr>wait_data := WMask 3\<rparr>)\<rparr>) = Some k' \<and>
     status (tcb k' 9) = STATUS_PENDING"
proof -
  let ?k = "two_threads_in STATUS_FLAG_BLOCKED_ANY"
  let ?k' = "?k\<lparr>tcb := (tcb ?k)(9 := (tcb ?k 9)\<lparr>wait_data := WMask 3\<rparr>)\<rparr>"
  have off: "\<not> on_runqueue STATUS_FLAG_BLOCKED_ANY" by (simp add: on_runqueue_iff)
  have rq: "rq_inv ?k'" using two_threads_in_facts(1) [OF off] by (rule rq_inv_cong) auto
  have f: "flags_inv ?k'" by (auto simp: flags_inv_def two_threads_in_def two_threads_def blank_thread_def wait_mask_def)
  have "priority (tcb ?k' 9) < SCHED_PRIO_LEVELS" by (simp add: two_threads_in_def two_threads_def kernel_consts)
  from thread_flags_set_wakes [OF rq f this, of 2] show ?thesis
    by (auto simp: satisfied_def two_threads_in_def wait_mask_def two_threads_def blank_thread_def)
qed

text \<open>
  Waiting for flags: if a flag of the mask is set, \<open>thread_flags_wait_any\<close>
  returns exactly the set ones and clears them, \<open>thread_flags_wait_one\<close> only the lowest of
  them, and \<open>thread_flags_wait_all\<close> the whole mask when all are set; otherwise the thread
  blocks, records the mask and asks for a context switch. No operation leaves a thread
  blocked on flags it has.
\<close>
theorem thread_flags_wait_outcomes:
  assumes "rq_inv k" and "flags_inv k" and "active_ready t k" and "f = flags (tcb k t)"
  shows "(f AND msk \<noteq> 0 \<longrightarrow>
      (\<exists>k'. thread_flags_wait_any msk k = Some (Return (f AND msk), k') \<and> flags_inv k' \<and>
         flags (tcb k' t) = f AND NOT msk) \<and>
      (\<exists>k' i. thread_flags_wait_one msk k = Some (Return (2 ^ i), k') \<and> flags_inv k' \<and> bit (f AND msk) i \<and>
         (\<forall>j<i. \<not> bit (f AND msk) j) \<and> flags (tcb k' t) = f AND NOT (2 ^ i))) \<and>
    (f AND msk = 0 \<longrightarrow>
      (\<exists>k'. thread_flags_wait_any msk k = Some (Blocks, k') \<and> thread_flags_wait_one msk k = Some (Blocks, k') \<and>
         rq_inv k' \<and> flags_inv k' \<and> status (tcb k' t) = STATUS_FLAG_BLOCKED_ANY \<and>
         wait_data (tcb k' t) = WMask msk \<and> pendsv k')) \<and>
    (if f AND msk = msk
     then \<exists>k'. thread_flags_wait_all msk k = Some (Return msk, k') \<and> flags_inv k' \<and> flags (tcb k' t) = f AND NOT msk
     else \<exists>k'. thread_flags_wait_all msk k = Some (Blocks, k') \<and> rq_inv k' \<and> flags_inv k' \<and>
         status (tcb k' t) = STATUS_FLAG_BLOCKED_ALL \<and> pendsv k')"
proof (intro conjI impI)
  have act: "sched_active_thread k = Some t" and on: "on_runqueue (status (tcb k t))"
    using assms(3) by (simp_all add: active_ready_def)
  note clr = clear_atomic_inv [OF assms(2) on]
  { assume nz: "f AND msk \<noteq> 0"
    then have ent: "thread_flags_wait_any_enter msk k = Some (False, k)"
      using wait_any_enter_ready [OF act] assms(4) by simp
    have "f AND NOT (msk AND f) = f AND NOT msk" by (rule bit_word_eqI) (auto simp: bit_simps)
    then show "\<exists>k'. thread_flags_wait_any msk k = Some (Return (f AND msk), k') \<and> flags_inv k' \<and>
        flags (tcb k' t) = f AND NOT msk"
      using clr [of msk] assms(4) act
      by (simp add: thread_flags_wait_any_def ent thread_get_active_def clear_atomic_eq and.commute)
    obtain i where i: "bit (f AND msk) i" "\<forall>j<i. \<not> bit (f AND msk) j" using lowest_bit_exists [OF nz] by metis
    from take_one_lowest [of k t msk i] i assms(4) have
      one: "thread_flags_take_one t msk k = thread_flags_clear_atomic t (2 ^ i) k" "2 ^ i AND f = 2 ^ i" by simp_all
    have ca: "thread_flags_clear_atomic t (2 ^ i) k = (2 ^ i, upd_tcb t (\<lambda>th. th\<lparr>flags := flags th AND NOT (2 ^ i)\<rparr>) k)"
      unfolding clear_atomic_eq using one(2) assms(4) by (simp only:)
    show "\<exists>k' i. thread_flags_wait_one msk k = Some (Return (2 ^ i), k') \<and> flags_inv k' \<and> bit (f AND msk) i \<and>
        (\<forall>j<i. \<not> bit (f AND msk) j) \<and> flags (tcb k' t) = f AND NOT (2 ^ i)"
      using clr [of "2 ^ i"] i act unfolding thread_flags_wait_one_def ent one(1) ca
      by (auto simp: thread_get_active_def one(1) ca assms(4)) }
  { assume z: "f AND msk = 0"
    with wait_any_enter_blocks [OF assms(1-3), of msk] assms(4) obtain k' where
      "thread_flags_wait_any_enter msk k = Some (True, k')" "rq_inv k'" "flags_inv k'" "pendsv k'"
      "tcb k' = (tcb k)(t := (tcb k t)\<lparr>wait_data := WMask msk, status := STATUS_FLAG_BLOCKED_ANY\<rparr>)" by auto
    then show "\<exists>k'. thread_flags_wait_any msk k = Some (Blocks, k') \<and> thread_flags_wait_one msk k = Some (Blocks, k') \<and>
        rq_inv k' \<and> flags_inv k' \<and> status (tcb k' t) = STATUS_FLAG_BLOCKED_ANY \<and>
        wait_data (tcb k' t) = WMask msk \<and> pendsv k'"
      using act by (simp add: thread_flags_wait_any_def thread_flags_wait_one_def thread_get_active_def) }
  show "if f AND msk = msk
     then \<exists>k'. thread_flags_wait_all msk k = Some (Return msk, k') \<and> flags_inv k' \<and> flags (tcb k' t) = f AND NOT msk
     else \<exists>k'. thread_flags_wait_all msk k = Some (Blocks, k') \<and> rq_inv k' \<and> flags_inv k' \<and>
         status (tcb k' t) = STATUS_FLAG_BLOCKED_ALL \<and> pendsv k'"
  proof (cases "f AND msk = msk")
    case True
    then show ?thesis
      using clr [of msk] act assms(4)
      by (simp add: thread_flags_wait_all_def thread_get_active_def irq_disable_def Let_def clear_atomic_eq and.commute)
  next
    case False
    have off: "\<not> on_runqueue STATUS_FLAG_BLOCKED_ALL" by (simp add: on_runqueue_iff)
    have "\<not> satisfied ((tcb k t)\<lparr>wait_data := WMask msk, status := STATUS_FLAG_BLOCKED_ALL\<rparr>)"
      using False assms(4) by (simp add: satisfied_def wait_mask_def)
    from thread_flags_wait_spec [OF assms(1-3) off this, of "irq_enabled k"] False act assms(4) show ?thesis
      by (auto simp: thread_flags_wait_all_def thread_get_active_def irq_disable_def Let_def)
  qed
qed

theorem thread_flags_wait_outcomes_witness:
  "\<exists>k'. thread_flags_wait_all 5 two_threads = Some (Blocks, k') \<and> status (tcb k' 7) = STATUS_FLAG_BLOCKED_ALL"
proof -
  have "flags_inv two_threads" by (auto simp: flags_inv_def two_threads_def blank_thread_def)
  from thread_flags_wait_outcomes [OF two_threads_rq_inv this two_threads_active refl, of 5] show ?thesis
    by (auto simp: two_threads_def blank_thread_def)
qed

end
