(* ===== verification/Event.thy ===== *)
theory Event
  imports Clist Thread_Flags "HOL-Library.Multiset"
begin

text \<open>
  Event queues (sys/event/event.c, sys/include/event.h): circular lists of events that one thread, the waiter of the
  queue, takes out and handles. Events and queues are addresses; the \<open>next\<close> pointers of all events are one memory, since
  posting looks at the pointer of the event to see whether it is queued. The parts of an operation between
  \<open>irq_disable\<close> and \<open>irq_restore\<close> are definitions of their own, because other threads and interrupts can run
  between them. Pointer arguments are not NULL, as the assertions demand. A NULL dereference is \<open>None\<close>.
\<close>

section \<open>Data\<close>

definition THREAD_FLAG_EVENT :: u16 where "THREAD_FLAG_EVENT = 1"

text \<open>\<open>list_node.next\<close> of the events, \<open>event_list.next\<close> and \<open>waiter\<close> of the queues.\<close>

record events =
  enext :: "nat \<Rightarrow> nat option"
  elist :: "nat \<Rightarrow> nat option"
  ewaiter :: "nat \<Rightarrow> tid option"
  ekern :: kernel

definition ev_list :: "events \<Rightarrow> nat \<Rightarrow> nat clist" where
  "ev_list s q = \<lparr>cmem = enext s, lnext = elist s q\<rparr>"

definition put_list :: "nat \<Rightarrow> nat clist \<Rightarrow> events \<Rightarrow> events" where
  "put_list q l s = s\<lparr>enext := cmem l, elist := (elist s)(q := lnext l)\<rparr>"

section \<open>Operations\<close>

text \<open>Setting up an array of queues, given by their addresses in order.\<close>

definition event_queues_init :: "nat list \<Rightarrow> events \<Rightarrow> events" where
  "event_queues_init queues s =
     (let me = sched_active_thread (ekern s)
      in fold (\<lambda>q s. s\<lparr>elist := (elist s)(q := None), ewaiter := (ewaiter s)(q := me)\<rparr>) queues s)"

definition event_queues_init_detached :: "nat list \<Rightarrow> events \<Rightarrow> events" where
  "event_queues_init_detached queues s =
     fold (\<lambda>q s. s\<lparr>elist := (elist s)(q := None), ewaiter := (ewaiter s)(q := None)\<rparr>) queues s"

fun claim_loop :: "tid option \<Rightarrow> nat list \<Rightarrow> events \<Rightarrow> events option" where
  "claim_loop me [] s = Some s"
| "claim_loop me (q # qs) s =
     (if ewaiter s q = None then claim_loop me qs (s\<lparr>ewaiter := (ewaiter s)(q := me)\<rparr>) else None)"

definition event_queues_claim :: "nat list \<Rightarrow> events \<Rightarrow> events option" where
  "event_queues_claim queues s = claim_loop (sched_active_thread (ekern s)) queues s"

definition event_queue_init :: "nat \<Rightarrow> events \<Rightarrow> events" where
  "event_queue_init queue s = event_queues_init [queue] s"

definition event_queue_init_detached :: "nat \<Rightarrow> events \<Rightarrow> events" where
  "event_queue_init_detached queue s = event_queues_init_detached [queue] s"

definition event_queue_claim :: "nat \<Rightarrow> events \<Rightarrow> events option" where
  "event_queue_claim queue s = event_queues_claim [queue] s"

text \<open>The part of \<open>event_post\<close> with interrupts disabled.\<close>

definition event_post_insert :: "nat \<Rightarrow> nat \<Rightarrow> events \<Rightarrow> tid option \<times> events" where
  "event_post_insert queue event s =
     (let (state, k) = irq_disable (ekern s);
          s = s\<lparr>ekern := k\<rparr>;
          s = (if enext s event = None then put_list queue (clist_rpush (ev_list s queue) event) s else s);
          waiter = ewaiter s queue
      in (waiter, s\<lparr>ekern := irq_restore state (ekern s)\<rparr>))"

definition event_post :: "nat \<Rightarrow> nat \<Rightarrow> events \<Rightarrow> events option" where
  "event_post queue event s =
     (let (waiter, s) = event_post_insert queue event s
      in case waiter of
           None \<Rightarrow> Some s
         | Some w \<Rightarrow> do { k \<leftarrow> thread_flags_set w THREAD_FLAG_EVENT (ekern s); Some (s\<lparr>ekern := k\<rparr>) })"

definition event_cancel :: "nat \<Rightarrow> nat \<Rightarrow> events \<Rightarrow> events option" where
  "event_cancel queue event s =
     do { let (state, k) = irq_disable (ekern s);
          let s = s\<lparr>ekern := k\<rparr>;
          (_, l) \<leftarrow> clist_remove (ev_list s queue) event;
          let s = put_list queue l s;
          let s = s\<lparr>enext := (enext s)(event := None)\<rparr>;
          Some (s\<lparr>ekern := irq_restore state (ekern s)\<rparr>) }"

text \<open>Taking the first event out of a queue, and the store that marks it as not queued.\<close>

definition event_pop :: "nat \<Rightarrow> events \<Rightarrow> (nat option \<times> events) option" where
  "event_pop queue s =
     do { let (state, k) = irq_disable (ekern s);
          let s = s\<lparr>ekern := k\<rparr>;
          (result, l) \<leftarrow> clist_lpop (ev_list s queue);
          let s = put_list queue l s;
          Some (result, s\<lparr>ekern := irq_restore state (ekern s)\<rparr>) }"

definition event_unlink :: "nat \<Rightarrow> events \<Rightarrow> events" where
  "event_unlink event s = s\<lparr>enext := (enext s)(event := None)\<rparr>"

definition event_get :: "nat \<Rightarrow> events \<Rightarrow> (nat option \<times> events) option" where
  "event_get queue s =
     do { (result, s) \<leftarrow> event_pop queue s;
          Some (result, case result of Some e \<Rightarrow> event_unlink e s | None \<Rightarrow> s) }"

text \<open>The \<open>for\<close> loop of \<open>event_wait_multi\<close>, and the part with interrupts disabled around it.\<close>

fun poll_loop :: "nat list \<Rightarrow> events \<Rightarrow> (nat option \<times> events) option" where
  "poll_loop [] s = Some (None, s)"
| "poll_loop (q # qs) s =
     do { (result, l) \<leftarrow> clist_lpop (ev_list s q);
          let s = put_list q l s;
          if result \<noteq> None then Some (result, s) else poll_loop qs s }"

definition event_poll :: "nat list \<Rightarrow> events \<Rightarrow> (nat option \<times> events) option" where
  "event_poll queues s =
     do { let (state, k) = irq_disable (ekern s);
          (result, s) \<leftarrow> poll_loop queues (s\<lparr>ekern := k\<rparr>);
          Some (result, s\<lparr>ekern := irq_restore state (ekern s)\<rparr>) }"

text \<open>
  \<open>event_wait_multi\<close> up to its return or to the point where the thread blocks, and the rest of the call when the
  thread runs again.
\<close>

partial_function (option) event_wait_multi :: "nat list \<Rightarrow> events \<Rightarrow> (nat call \<times> events) option" where
  "event_wait_multi queues s =
     do { (result, s) \<leftarrow> event_poll queues s;
          case result of
            Some e \<Rightarrow> Some (Return e, event_unlink e s)
          | None \<Rightarrow>
              do { (c, k) \<leftarrow> thread_flags_wait_any THREAD_FLAG_EVENT (ekern s);
                   case c of
                     Blocks \<Rightarrow> Some (Blocks, s\<lparr>ekern := k\<rparr>)
                   | Return _ \<Rightarrow> event_wait_multi queues (s\<lparr>ekern := k\<rparr>) } }"

definition event_wait_resume :: "nat list \<Rightarrow> events \<Rightarrow> (nat call \<times> events) option" where
  "event_wait_resume queues s =
     do { me \<leftarrow> thread_get_active (ekern s);
          let (_, k) = thread_flags_clear_atomic me THREAD_FLAG_EVENT (ekern s);
          event_wait_multi queues (s\<lparr>ekern := k\<rparr>) }"

definition event_wait :: "nat \<Rightarrow> events \<Rightarrow> (nat call \<times> events) option" where
  "event_wait queue s = event_wait_multi [queue] s"

section \<open>Queues of events\<close>

text \<open>
  The events in each queue, and the events that were taken out but not marked so yet. An event is in at most one queue, and
  its \<open>next\<close> pointer is NULL exactly when it is in none.
\<close>

definition ev_rep :: "events \<Rightarrow> (nat \<Rightarrow> nat list) \<Rightarrow> nat set \<Rightarrow> bool" where
  "ev_rep s L T \<longleftrightarrow> (\<forall>q. clist_rep (ev_list s q) (L q)) \<and>
     (\<forall>q q' e. e \<in> set (L q) \<longrightarrow> e \<in> set (L q') \<longrightarrow> q = q') \<and>
     (\<forall>e. enext s e = None \<longleftrightarrow> e \<notin> T \<and> (\<forall>q. e \<notin> set (L q))) \<and> (\<forall>e\<in>T. \<forall>q. e \<notin> set (L q))"

lemma ev_sel [simp]:
  "cmem (ev_list s q) = enext s" "lnext (ev_list s q) = elist s q" "ev_list (s\<lparr>ekern := k\<rparr>) q = ev_list s q"
  "ekern (put_list q l s) = ekern s" "ewaiter (put_list q l s) = ewaiter s" "enext (put_list q l s) = cmem l"
  "elist (put_list q l s) = (elist s)(q := lnext l)" "ev_list (put_list q l s) q = \<lparr>cmem = cmem l, lnext = lnext l\<rparr>"
  by (simp_all add: ev_list_def put_list_def)

lemma irq_section [simp]: "irq_restore (irq_enabled k) (k\<lparr>irq_enabled := False\<rparr>) = k"
  by (simp add: irq_restore_def)

lemma ev_rep_kern [simp]: "ev_rep (s\<lparr>ekern := k\<rparr>) L T \<longleftrightarrow> ev_rep s L T"
  by (simp add: ev_rep_def)

lemma ev_rep_put:
  assumes "ev_rep s L T" "clist_rep l xs"
    and "\<And>q' e. q' \<noteq> q \<Longrightarrow> e \<in> set (L q') \<Longrightarrow> e \<notin> set xs \<and> cmem l e = enext s e"
    and "\<And>e. cmem l e = None \<longleftrightarrow> e \<notin> T' \<and> e \<notin> set xs \<and> (\<forall>q'. q' \<noteq> q \<longrightarrow> e \<notin> set (L q'))"
    and "\<And>e. e \<in> T' \<Longrightarrow> e \<notin> set xs \<and> (\<forall>q'. q' \<noteq> q \<longrightarrow> e \<notin> set (L q'))"
  shows "ev_rep (put_list q l s) (L(q := xs)) T'"
proof -
  have rep: "clist_rep (ev_list s q') (L q')" for q' using assms(1) by (simp add: ev_rep_def)
  have "clist_rep (ev_list (put_list q l s) q') ((L(q := xs)) q')" for q'
  proof (cases "q' = q")
    case True
    then show ?thesis using clist_rep_cong [OF assms(2)] by simp
  next
    case False
    show ?thesis using clist_rep_cong [OF rep, of "ev_list (put_list q l s) q'" q'] False assms(3) by simp
  qed
  moreover have "q1 = q2" if "e \<in> set ((L(q := xs)) q1)" "e \<in> set ((L(q := xs)) q2)" for q1 q2 e
  proof -
    have "e \<in> set (L q1) \<Longrightarrow> e \<in> set (L q2) \<Longrightarrow> q1 = q2" using assms(1) unfolding ev_rep_def by blast
    then show ?thesis using that assms(3) [of q1 e] assms(3) [of q2 e] by (auto split: if_splits)
  qed
  moreover have "enext (put_list q l s) e = None \<longleftrightarrow> e \<notin> T' \<and> (\<forall>q'. e \<notin> set ((L(q := xs)) q'))" for e
    using assms(4) [of e] by (simp split: if_splits) metis
  moreover have "e \<notin> set ((L(q := xs)) q')" if "e \<in> T'" for e q' using assms(5) [OF that] by simp
  ultimately show ?thesis unfolding ev_rep_def by blast
qed

lemma ev_repD:
  assumes "ev_rep s L T"
  shows "clist_rep (ev_list s q) (L q)" "e \<in> set (L q) \<Longrightarrow> e \<in> set (L q') \<Longrightarrow> q = q'"
    "enext s e = None \<longleftrightarrow> e \<notin> T \<and> (\<forall>q. e \<notin> set (L q))" "e \<in> T \<Longrightarrow> e \<notin> set (L q)"
  using assms by (auto simp: ev_rep_def)

lemma post_insert_eq:
  "event_post_insert q e s =
     (ewaiter s q, if enext s e = None then put_list q (clist_rpush (ev_list s q) e) s else s)"
  by (simp add: event_post_insert_def irq_disable_def Let_def put_list_def ev_list_def)

lemma post_insert_rep:
  assumes "ev_rep s L T"
  shows "ev_rep (snd (event_post_insert q e s)) (if enext s e = None then L(q := L q @ [e]) else L) T"
proof (cases "enext s e = None")
  case True
  note d = ev_repD [OF assms]
  from True d(3) have e: "e \<notin> T" "\<And>q. e \<notin> set (L q)" by auto
  let ?l = "clist_rpush (ev_list s q) e"
  have rep: "clist_rep ?l (L q @ [e])" using clist_rep_rpush [OF d(1) e(2)] .
  have frame: "cmem ?l y = enext s y" if "y \<notin> set (L q @ [e])" for y
    using rpush_frame [OF d(1), of y q e] that by simp
  have "ev_rep (put_list q ?l s) (L(q := L q @ [e])) T"
  proof (rule ev_rep_put [OF assms rep])
    fix q' x assume "q' \<noteq> q" "x \<in> set (L q')"
    then have "x \<notin> set (L q @ [e])" using d(2) e(2) by auto
    then show "x \<notin> set (L q @ [e]) \<and> cmem ?l x = enext s x" using frame by blast
  next
    fix x
    show "cmem ?l x = None \<longleftrightarrow> x \<notin> T \<and> x \<notin> set (L q @ [e]) \<and> (\<forall>q'. q' \<noteq> q \<longrightarrow> x \<notin> set (L q'))"
    proof (cases "x \<in> set (L q @ [e])")
      case True
      then show ?thesis using clist_rep_nonnull [OF rep] by blast
    next
      case False
      then show ?thesis using frame [OF False] d(3) [of x] by auto
    qed
  qed (use e d(4) in auto)
  with True show ?thesis by (simp add: post_insert_eq)
next
  case False
  then show ?thesis using assms unfolding post_insert_eq by (simp only: if_False snd_conv)
qed

lemma pop_rep:
  assumes "ev_rep s L T" "L q = e # es"
  shows "\<exists>l. clist_lpop (ev_list s q) = Some (Some e, l) \<and> ev_rep (put_list q l s) (L(q := es)) (insert e T)"
proof -
  note d = ev_repD [OF assms(1)]
  from clist_lpop_Cons d(1) [of q] assms(2) obtain l where
    l: "clist_lpop (ev_list s q) = Some (Some e, l)" "clist_rep l es" by metis
  have e: "e \<notin> set es" "e \<in> set (L q)" "set es \<subseteq> set (L q)" "last (L q) \<in> set (L q)"
    using d(1) [of q] assms(2) by (auto simp: clist_rep_def)
  have "ev_rep (put_list q l s) (L(q := es)) (insert e T)"
  proof (rule ev_rep_put [OF assms(1) l(2)])
    fix q' x assume a: "q' \<noteq> q" "x \<in> set (L q')"
    then have "x \<notin> set (L q)" using d(2) by blast
    then show "x \<notin> set es \<and> cmem l x = enext s x"
      using lpop_frame [OF d(1) l(1), of x] e(3,4) by auto
  next
    fix x
    show "cmem l x = None \<longleftrightarrow> x \<notin> insert e T \<and> x \<notin> set es \<and> (\<forall>q'. q' \<noteq> q \<longrightarrow> x \<notin> set (L q'))"
    proof -
      have "(\<forall>q'. x \<notin> set (L q')) \<longleftrightarrow> x \<notin> set (L q) \<and> (\<forall>q'. q' \<noteq> q \<longrightarrow> x \<notin> set (L q'))" by metis
      then show ?thesis using lpop_keeps_null [OF d(1) l(1), of x] d(3) [of x] assms(2) by simp metis
    qed
  next
    fix x assume "x \<in> insert e T"
    then show "x \<notin> set es \<and> (\<forall>q'. q' \<noteq> q \<longrightarrow> x \<notin> set (L q'))"
      using d(2) [of e q] d(4) [of x] e(1-3) by blast
  qed
  with l(1) show ?thesis by blast
qed

lemma unlink_rep: "ev_rep s L (insert e T) \<Longrightarrow> e \<notin> T \<Longrightarrow> ev_rep (event_unlink e s) L T"
proof -
  assume rep: "ev_rep s L (insert e T)" and e: "e \<notin> T"
  note d = ev_repD [OF rep]
  have "clist_rep (ev_list (event_unlink e s) q) (L q)" for q
    by (rule clist_rep_cong [OF d(1)]) (use d(4) [of e q] in \<open>auto simp: event_unlink_def ev_list_def\<close>)
  then show ?thesis using rep e by (auto simp: ev_rep_def event_unlink_def)
qed

lemma event_unlink_sel [simp]: "ekern (event_unlink e s) = ekern s" "ewaiter (event_unlink e s) = ewaiter s"
  by (simp_all add: event_unlink_def)

lemma put_ev_list [simp]: "put_list q (ev_list s q) s = s"
  by (simp add: put_list_def ev_list_def)

lemma cancel_rep:
  assumes "ev_rep s L T" "e \<notin> T" "\<And>q'. q' \<noteq> q \<Longrightarrow> e \<notin> set (L q')"
  shows "\<exists>s'. event_cancel q e s = Some s' \<and> ev_rep s' (L(q := remove1 e (L q))) T \<and>
    ekern s' = ekern s \<and> ewaiter s' = ewaiter s"
proof -
  note d = ev_repD [OF assms(1)]
  have eq: "event_cancel q e s = Some (event_unlink e (put_list q l s))"
    if "clist_remove (ev_list s q) e = Some (r, l)" for r l
    using that by (simp add: event_cancel_def irq_disable_def Let_def event_unlink_def put_list_def)
  show ?thesis
  proof (cases "e \<in> set (L q)")
    case False
    then have "\<And>q'. e \<notin> set (L q')" using assms(3) by metis
    then have "enext s e = None" using d(3) assms(2) by blast
    then have "event_unlink e s = s" by (simp add: event_unlink_def fun_upd_idem)
    with eq [OF clist_remove_notin [OF d(1) False]] assms(1) False show ?thesis by (simp add: remove1_idem)
  next
    case True
    from clist_remove_in [OF d(1) True] obtain l where
      l: "clist_remove (ev_list s q) e = Some (Some e, l)" "clist_rep l (remove1 e (L q))" by blast
    have dist: "distinct (L q)" using d(1) [of q] by (simp add: clist_rep_def)
    have "ev_rep (put_list q l s) (L(q := remove1 e (L q))) (insert e T)"
    proof (rule ev_rep_put [OF assms(1) l(2)])
      fix q' x assume "q' \<noteq> q" "x \<in> set (L q')"
      then have "x \<notin> set (L q)" using d(2) by blast
      then show "x \<notin> set (remove1 e (L q)) \<and> cmem l x = enext s x"
        using remove_frame(2) [OF d(1) l(1)] notin_set_remove1 by fastforce
    next
      fix x
      have "(\<forall>q'. x \<notin> set (L q')) \<longleftrightarrow> x \<notin> set (L q) \<and> (\<forall>q'. q' \<noteq> q \<longrightarrow> x \<notin> set (L q'))" by metis
      then show "cmem l x = None \<longleftrightarrow> x \<notin> insert e T \<and> x \<notin> set (remove1 e (L q)) \<and> (\<forall>q'. q' \<noteq> q \<longrightarrow> x \<notin> set (L q'))"
        using remove_frame(1) [OF d(1) l(1), of x] d(3) [of x] dist True by auto
    next
      fix x assume "x \<in> insert e T"
      then show "x \<notin> set (remove1 e (L q)) \<and> (\<forall>q'. q' \<noteq> q \<longrightarrow> x \<notin> set (L q'))"
        using d(4) [of x] dist assms(3) by auto
    qed
    from unlink_rep [OF this assms(2)] eq [OF l(1)] show ?thesis by simp
  qed
qed

lemma event_get_rep:
  assumes "ev_rep s L T" "T = {}"
  shows "\<exists>s'. event_get q s = Some (if L q = [] then None else Some (hd (L q)), s') \<and>
    ev_rep s' (L(q := tl (L q))) T \<and> ekern s' = ekern s \<and> ewaiter s' = ewaiter s"
proof (cases "L q")
  case Nil
  then have "clist_lpop (ev_list s q) = Some (None, ev_list s q)"
    using clist_lpop_Nil ev_repD(1) [OF assms(1), of q] by metis
  then have "event_get q s = Some (None, s)"
    by (simp add: event_get_def event_pop_def irq_disable_def Let_def)
  moreover have "L(q := []) = L" using Nil by auto
  ultimately show ?thesis using Nil assms(1) by simp
next
  case (Cons e es)
  from pop_rep [OF assms(1) Cons] obtain l where
    l: "clist_lpop (ev_list s q) = Some (Some e, l)" "ev_rep (put_list q l s) (L(q := es)) (insert e T)" by blast
  then have "event_get q s = Some (Some e, event_unlink e (put_list q l s))"
    by (simp add: event_get_def event_pop_def irq_disable_def Let_def) (simp add: put_list_def)
  with unlink_rep [OF l(2)] Cons assms(2) show ?thesis by simp
qed

text \<open>Polling several queues looks at them in order and takes the first event of the first queue that has one.\<close>

lemma poll_loop_rep:
  "ev_rep s L T \<Longrightarrow>
   (case find (\<lambda>q. L q \<noteq> []) qs of
      None \<Rightarrow> poll_loop qs s = Some (None, s)
    | Some q \<Rightarrow> \<exists>l. poll_loop qs s = Some (Some (hd (L q)), put_list q l s) \<and>
        ev_rep (put_list q l s) (L(q := tl (L q))) (insert (hd (L q)) T))"
proof (induction qs)
  case (Cons q qs)
  show ?case
  proof (cases "L q")
    case Nil
    then have "clist_lpop (ev_list s q) = Some (None, ev_list s q)"
      using clist_lpop_Nil ev_repD(1) [OF Cons.prems, of q] by metis
    then have loop: "poll_loop (q # qs) s = poll_loop qs s" by simp
    have "find (\<lambda>q. L q \<noteq> []) (q # qs) = find (\<lambda>q. L q \<noteq> []) qs" using Nil by simp
    then show ?thesis unfolding loop using Cons.IH [OF Cons.prems] by (simp only:)
  next
    case (Cons e es)
    from pop_rep [OF \<open>ev_rep s L T\<close> Cons] show ?thesis using Cons by auto
  qed
qed simp

lemma event_poll_rep:
  assumes "ev_rep s L T"
  shows "(case find (\<lambda>q. L q \<noteq> []) qs of
      None \<Rightarrow> event_poll qs s = Some (None, s)
    | Some q \<Rightarrow> \<exists>s'. event_poll qs s = Some (Some (hd (L q)), s') \<and>
        ev_rep s' (L(q := tl (L q))) (insert (hd (L q)) T) \<and> ekern s' = ekern s \<and> ewaiter s' = ewaiter s)"
proof -
  let ?s = "s\<lparr>ekern := (ekern s)\<lparr>irq_enabled := False\<rparr>\<rparr>"
  have rep: "ev_rep ?s L T" using assms by simp
  from poll_loop_rep [OF rep, of qs] show ?thesis
  proof (cases "find (\<lambda>q. L q \<noteq> []) qs")
    case None
    with poll_loop_rep [OF rep, of qs] show ?thesis by (simp add: event_poll_def irq_disable_def Let_def)
  next
    case (Some q)
    with poll_loop_rep [OF rep, of qs] obtain l where
      "poll_loop qs ?s = Some (Some (hd (L q)), put_list q l ?s)"
      "ev_rep (put_list q l ?s) (L(q := tl (L q))) (insert (hd (L q)) T)" by auto
    with Some show ?thesis by (simp add: event_poll_def irq_disable_def Let_def)
  qed
qed

section \<open>The waiting thread\<close>

text \<open>The kernel as the event functions need it.\<close>

definition kernel_ok :: "kernel \<Rightarrow> bool" where
  "kernel_ok k \<longleftrightarrow> rq_inv k \<and> flags_inv k \<and> (\<forall>t. priority (tcb k t) < SCHED_PRIO_LEVELS)"

lemma event_set_spec:
  assumes "kernel_ok k"
  shows "\<exists>k'. thread_flags_set t THREAD_FLAG_EVENT k = Some k' \<and> kernel_ok k' \<and>
    flags (tcb k' t) AND THREAD_FLAG_EVENT \<noteq> 0 \<and> wait_data (tcb k' t) = wait_data (tcb k t) \<and>
    (on_runqueue (status (tcb k t)) \<longrightarrow> status (tcb k' t) = status (tcb k t)) \<and>
    (status (tcb k' t) = status (tcb k t) \<or> on_runqueue (status (tcb k' t))) \<and>
    (\<forall>x. x \<noteq> t \<longrightarrow> tcb k' x = tcb k x)"
proof -
  let ?w = "satisfied ((tcb k t)\<lparr>flags := flags (tcb k t) OR THREAD_FLAG_EVENT\<rparr>)"
  from assms have "rq_inv k" "flags_inv k" "priority (tcb k t) < SCHED_PRIO_LEVELS" by (auto simp: kernel_ok_def)
  from thread_flags_set_spec [OF this refl, of THREAD_FLAG_EVENT] obtain k' where
    k': "thread_flags_set t THREAD_FLAG_EVENT k = Some k'" "rq_inv k'" "flags_inv k'"
      "tcb k' = (tcb k)(t := (tcb k t)\<lparr>flags := flags (tcb k t) OR THREAD_FLAG_EVENT,
        status := (if ?w then STATUS_PENDING else status (tcb k t))\<rparr>)" by auto
  have "(f OR 1) AND 1 = (1 :: u16)" for f by (rule bit_word_eqI) (auto simp: bit_simps)
  moreover have "?w \<Longrightarrow> \<not> on_runqueue (status (tcb k t))" by (auto simp: satisfied_def on_runqueue_iff)
  moreover have "kernel_ok k'" using assms k' by (simp add: kernel_ok_def)
  ultimately show ?thesis using k' by (auto simp: THREAD_FLAG_EVENT_def on_runqueue_iff)
qed

lemma event_clear_spec:
  assumes "kernel_ok k" "active_ready t k"
  shows "kernel_ok (snd (thread_flags_clear_atomic t THREAD_FLAG_EVENT k)) \<and>
    active_ready t (snd (thread_flags_clear_atomic t THREAD_FLAG_EVENT k)) \<and>
    flags (tcb (snd (thread_flags_clear_atomic t THREAD_FLAG_EVENT k)) t) AND THREAD_FLAG_EVENT = 0"
proof -
  have on: "on_runqueue (status (tcb k t))" using assms(2) by (simp add: active_ready_def)
  have "(f AND NOT (1 AND f)) AND 1 = (0 :: u16)" for f by (rule bit_word_eqI) (auto simp: bit_simps)
  moreover have "rq_inv (snd (thread_flags_clear_atomic t THREAD_FLAG_EVENT k))"
    by (rule rq_inv_cong [of k]) (use assms(1) in \<open>simp_all add: kernel_ok_def clear_atomic_eq\<close>)
  ultimately show ?thesis using assms clear_atomic_inv [OF _ on, of THREAD_FLAG_EVENT]
    by (simp add: kernel_ok_def clear_atomic_eq active_ready_def THREAD_FLAG_EVENT_def)
qed

lemma event_block_spec:
  assumes "kernel_ok k" "active_ready t k"
  shows "(flags (tcb k t) AND THREAD_FLAG_EVENT \<noteq> 0 \<longrightarrow>
      (\<exists>f. thread_flags_wait_any THREAD_FLAG_EVENT k = Some (Return f, snd (thread_flags_clear_atomic t THREAD_FLAG_EVENT k)))) \<and>
    (flags (tcb k t) AND THREAD_FLAG_EVENT = 0 \<longrightarrow>
      (\<exists>k'. thread_flags_wait_any THREAD_FLAG_EVENT k = Some (Blocks, k') \<and> kernel_ok k' \<and>
        tcb k' = (tcb k)(t := (tcb k t)\<lparr>wait_data := WMask THREAD_FLAG_EVENT, status := STATUS_FLAG_BLOCKED_ANY\<rparr>)))"
proof -
  have act: "sched_active_thread k = Some t" using assms(2) by (simp add: active_ready_def)
  have k: "rq_inv k" "flags_inv k" "\<forall>x. priority (tcb k x) < SCHED_PRIO_LEVELS" using assms(1) by (auto simp: kernel_ok_def)
  show ?thesis
  proof (cases "flags (tcb k t) AND THREAD_FLAG_EVENT = 0")
    case False
    with wait_any_enter_ready [OF act] act show ?thesis
      by (simp add: thread_flags_wait_any_def thread_get_active_def split: prod.split)
  next
    case True
    from wait_any_enter_blocks [OF k(1,2) assms(2) True] act k(3) True show ?thesis
      by (auto simp: thread_flags_wait_any_def thread_get_active_def kernel_ok_def)
  qed
qed

text \<open>What a call of \<open>event_wait_multi\<close> by thread \<open>t\<close> gives, for the queues \<open>qs\<close> holding \<open>L\<close>.\<close>

definition wait_result :: "tid \<Rightarrow> nat list \<Rightarrow> (nat \<Rightarrow> nat list) \<Rightarrow> (nat call \<times> events) option \<Rightarrow> bool" where
  "wait_result t qs L r \<longleftrightarrow>
     (case find (\<lambda>q. L q \<noteq> []) qs of
        Some q \<Rightarrow> (\<exists>s'. r = Some (Return (hd (L q)), s') \<and> ev_rep s' (L(q := tl (L q))) {} \<and>
          kernel_ok (ekern s') \<and> active_ready t (ekern s'))
      | None \<Rightarrow> (\<exists>s'. r = Some (Blocks, s') \<and> ev_rep s' L {} \<and> kernel_ok (ekern s') \<and>
          status (tcb (ekern s') t) = STATUS_FLAG_BLOCKED_ANY \<and>
          wait_data (tcb (ekern s') t) = WMask THREAD_FLAG_EVENT))"

lemma wait_multi_result:
  assumes "ev_rep s L {}" "kernel_ok (ekern s)" "active_ready t (ekern s)"
  shows "wait_result t qs L (event_wait_multi qs s)"
proof (cases "find (\<lambda>q. L q \<noteq> []) qs")
  case (Some q)
  with event_poll_rep [OF assms(1), of qs] obtain s' where
    s': "event_poll qs s = Some (Some (hd (L q)), s')" "ev_rep s' (L(q := tl (L q))) {hd (L q)}" "ekern s' = ekern s" by auto
  with unlink_rep [OF s'(2)] assms Some show ?thesis
    by (simp add: event_wait_multi.simps [of qs s] wait_result_def)
next
  case None
  { fix s assume a: "ev_rep s L {}" "kernel_ok (ekern s)" "active_ready t (ekern s)"
      "flags (tcb (ekern s) t) AND THREAD_FLAG_EVENT = 0"
    from event_poll_rep [OF a(1), of qs] None have "event_poll qs s = Some (None, s)" by simp
    with event_block_spec [OF a(2,3)] a(1,4) have "wait_result t qs L (event_wait_multi qs s)"
      using None by (auto simp: event_wait_multi.simps [of qs s] wait_result_def) }
  note blocks = this
  show ?thesis
  proof (cases "flags (tcb (ekern s) t) AND THREAD_FLAG_EVENT = 0")
    case True
    then show ?thesis using blocks assms by blast
  next
    case False
    let ?s = "s\<lparr>ekern := snd (thread_flags_clear_atomic t THREAD_FLAG_EVENT (ekern s))\<rparr>"
    from event_poll_rep [OF assms(1), of qs] None have "event_poll qs s = Some (None, s)" by simp
    with event_block_spec [OF assms(2,3)] False have "event_wait_multi qs s = event_wait_multi qs ?s"
      by (auto simp: event_wait_multi.simps [of qs s])
    moreover have "wait_result t qs L (event_wait_multi qs ?s)"
      by (rule blocks) (use event_clear_spec [OF assms(2,3)] assms(1) in simp_all)
    ultimately show ?thesis by simp
  qed
qed

section \<open>Sequences of operations\<close>

datatype ev_op = Post nat nat | Cancel nat nat | Get nat

fun ev_exec :: "ev_op \<Rightarrow> events \<Rightarrow> (nat option \<times> events) option" where
  "ev_exec (Post q e) s = do { s \<leftarrow> event_post q e s; Some (None, s) }"
| "ev_exec (Cancel q e) s = do { s \<leftarrow> event_cancel q e s; Some (None, s) }"
| "ev_exec (Get q) s = event_get q s"

fun ev_run :: "ev_op list \<Rightarrow> events \<Rightarrow> (nat option list \<times> events) option" where
  "ev_run [] s = Some ([], s)"
| "ev_run (a # as) s = do { (r, s) \<leftarrow> ev_exec a s; (rs, s) \<leftarrow> ev_run as s; Some (r # rs, s) }"

text \<open>The same on lists: posting appends an event that is in no queue.\<close>

fun spec_step :: "ev_op \<Rightarrow> (nat \<Rightarrow> nat list) \<Rightarrow> nat option \<times> (nat \<Rightarrow> nat list)" where
  "spec_step (Post q e) L = (None, if \<exists>q'. e \<in> set (L q') then L else L(q := L q @ [e]))"
| "spec_step (Cancel q e) L = (None, L(q := remove1 e (L q)))"
| "spec_step (Get q) L = (if L q = [] then None else Some (hd (L q)), L(q := tl (L q)))"

fun spec_run :: "ev_op list \<Rightarrow> (nat \<Rightarrow> nat list) \<Rightarrow> nat option list \<times> (nat \<Rightarrow> nat list)" where
  "spec_run [] L = ([], L)"
| "spec_run (a # as) L =
     (let (r, L) = spec_step a L; (rs, L) = spec_run as L in (r # rs, L))"

text \<open>An event may be cancelled in the queue it is in, or when it is in none.\<close>

fun cancels_ok :: "ev_op list \<Rightarrow> (nat \<Rightarrow> nat list) \<Rightarrow> bool" where
  "cancels_ok [] L \<longleftrightarrow> True"
| "cancels_ok (a # as) L \<longleftrightarrow>
     (case a of Cancel q e \<Rightarrow> \<forall>q'. q' \<noteq> q \<longrightarrow> e \<notin> set (L q') | _ \<Rightarrow> True) \<and> cancels_ok as (snd (spec_step a L))"

lemma event_post_rep:
  assumes "ev_rep s L T" "kernel_ok (ekern s)"
  shows "\<exists>s'. event_post q e s = Some s' \<and> ev_rep s' (if enext s e = None then L(q := L q @ [e]) else L) T \<and>
    kernel_ok (ekern s') \<and> ewaiter s' = ewaiter s"
proof -
  let ?s = "snd (event_post_insert q e s)"
  have s: "ekern ?s = ekern s" "ewaiter ?s = ewaiter s" by (auto simp: post_insert_eq)
  have w: "fst (event_post_insert q e s) = ewaiter s q" by (simp add: post_insert_eq)
  have run: "event_post q e s = (case ewaiter s q of None \<Rightarrow> Some ?s
      | Some w \<Rightarrow> do { k \<leftarrow> thread_flags_set w THREAD_FLAG_EVENT (ekern s); Some (?s\<lparr>ekern := k\<rparr>) })"
    using s by (simp add: event_post_def split_beta w split: option.split)
  show ?thesis
  proof (cases "ewaiter s q")
    case None
    with run s post_insert_rep [OF assms(1)] assms(2) show ?thesis by simp
  next
    case (Some w)
    from event_set_spec [OF assms(2), of w] obtain k' where
      "thread_flags_set w THREAD_FLAG_EVENT (ekern s) = Some k'" "kernel_ok k'" by blast
    with run s Some post_insert_rep [OF assms(1), of q e] show ?thesis by simp
  qed
qed

lemma ev_exec_rep:
  assumes "ev_rep s L {}" "kernel_ok (ekern s)" "cancels_ok [a] L"
  shows "\<exists>s'. ev_exec a s = Some (fst (spec_step a L), s') \<and> ev_rep s' (snd (spec_step a L)) {} \<and> kernel_ok (ekern s')"
proof (cases a)
  case (Post q e)
  have "enext s e = None \<longleftrightarrow> \<not> (\<exists>q'. e \<in> set (L q'))" using ev_repD(3) [OF assms(1)] by blast
  with event_post_rep [OF assms(1,2), of q e] Post show ?thesis by (cases "\<exists>q'. e \<in> set (L q')") auto
next
  case (Cancel q e)
  with cancel_rep [OF assms(1), of e q] assms(2,3) show ?thesis by auto
next
  case (Get q)
  with event_get_rep [OF assms(1) refl, of q] assms(2) show ?thesis by auto
qed

section \<open>Properties of the queues\<close>

text \<open>
  Event queues: any sequence of posting, cancelling and taking events, on any queues, runs without an error and returns
  what lists of events return: posting appends an event unless it is queued already, anywhere, which leaves it where it is;
  taking removes the oldest; cancelling removes the event. An event must only be cancelled in the queue it is in.
\<close>
theorem event_queues_refine_lists:
  assumes "ev_rep s L {}" and "kernel_ok (ekern s)" and "cancels_ok as L"
  shows "\<exists>s'. ev_run as s = Some (fst (spec_run as L), s') \<and> ev_rep s' (snd (spec_run as L)) {} \<and> kernel_ok (ekern s')"
  using assms
proof (induction as arbitrary: s L)
  case (Cons a as)
  then have ok: "cancels_ok [a] L" "cancels_ok as (snd (spec_step a L))" by auto
  from ev_exec_rep [OF Cons.prems(1,2) ok(1)] obtain s1 where
    s1: "ev_exec a s = Some (fst (spec_step a L), s1)" "ev_rep s1 (snd (spec_step a L)) {}" "kernel_ok (ekern s1)" by blast
  from Cons.IH [OF s1(2,3) ok(2)] s1(1) show ?case by (auto simp: split_beta)
qed simp

text \<open>Two queues, 1 and 2, that belong to thread 7, and no event posted.\<close>

definition idle_events :: events where
  "idle_events = \<lparr>enext = (\<lambda>_. None), elist = (\<lambda>_. None), ewaiter = (\<lambda>q. if q \<in> {1, 2} then Some 7 else None),
     ekern = two_threads\<rparr>"

lemma idle_events_facts:
  "ev_rep idle_events (\<lambda>_. []) {}" "kernel_ok (ekern idle_events)" "active_ready 7 (ekern idle_events)"
proof -
  have "flags_inv two_threads" by (auto simp: flags_inv_def two_threads_def blank_thread_def)
  moreover have "priority (tcb two_threads t) < SCHED_PRIO_LEVELS" for t
    by (auto simp: two_threads_def blank_thread_def kernel_consts)
  ultimately show "kernel_ok (ekern idle_events)" using two_threads_rq_inv by (simp add: kernel_ok_def idle_events_def)
qed (use two_threads_active in \<open>simp_all add: idle_events_def ev_rep_def ev_list_def\<close>)

theorem event_queues_refine_lists_witness:
  "\<exists>s'. ev_run [Post 1 10, Post 2 11, Post 1 12, Post 2 10, Cancel 2 11, Get 1, Get 1, Get 2] idle_events =
     Some ([None, None, None, None, None, Some 10, Some 12, None], s')"
proof -
  let ?as = "[Post 1 10, Post 2 11, Post 1 12, Post 2 10, Cancel 2 11, Get 1, Get 1, Get 2]"
  have "cancels_ok ?as (\<lambda>_. [])" by auto
  moreover have "fst (spec_run ?as (\<lambda>_. [])) = [None, None, None, None, None, Some 10, Some 12, None]" by auto
  ultimately show ?thesis using event_queues_refine_lists [OF idle_events_facts(1,2), of ?as] by auto
qed

text \<open>
  Waiting for events: \<open>event_wait_multi\<close> of the running thread always returns or blocks (a stale event flag only costs one more
  look at the queues). If one of the queues has an event, it returns the oldest event of the queue with the lowest
  index and only that event leaves its queue; otherwise the thread blocks until the event flag is set. Both hold again
  when a blocked thread has been woken and goes on.
\<close>
theorem event_wait_multi_outcomes:
  assumes "ev_rep s L {}" and "kernel_ok (ekern s)" and "active_ready t (ekern s)"
  shows "wait_result t qs L (event_wait_multi qs s) \<and> wait_result t qs L (event_wait_resume qs s)"
proof -
  let ?s = "s\<lparr>ekern := snd (thread_flags_clear_atomic t THREAD_FLAG_EVENT (ekern s))\<rparr>"
  have "thread_get_active (ekern s) = Some t" using assms(3) by (simp add: active_ready_def thread_get_active_def)
  then have "event_wait_resume qs s = event_wait_multi qs ?s" by (simp add: event_wait_resume_def split: prod.split)
  moreover have "wait_result t qs L (event_wait_multi qs ?s)"
    by (rule wait_multi_result) (use event_clear_spec [OF assms(2,3)] assms(1) in simp_all)
  ultimately show ?thesis using wait_multi_result [OF assms] by simp
qed

theorem event_wait_multi_outcomes_witness:
  "\<exists>s'. event_wait_multi [1, 2] (snd (event_post_insert 2 11 idle_events)) = Some (Return 11, s')"
proof -
  let ?s = "snd (event_post_insert 2 11 idle_events)"
  have k: "ekern ?s = ekern idle_events" by (simp add: post_insert_eq)
  have "ev_rep ?s ((\<lambda>_. [])(2 := [11])) {}"
    using post_insert_rep [OF idle_events_facts(1), of 2 11] by (simp add: idle_events_def)
  from event_wait_multi_outcomes [OF this, of 7 "[1, 2]"] idle_events_facts(2,3) show ?thesis
    by (auto simp: wait_result_def k)
qed

end
