(* ===== verification/Event_Loop.thy ===== *)
theory Event_Loop
  imports Event
begin

text \<open>
  The event loop (\<open>event_loop_multi\<close>, with \<open>event_wait_multi\<close> unfolded) of one thread as a state machine, between the steps of
  which other threads and interrupts post and cancel events: what a waiting thread may rely on, and what it may not.
\<close>

section \<open>The event loop and its environment\<close>

text \<open>
  Where the thread is in its loop: about to look at the queues, about to wait for the event flag, blocked there, with an event
  in hand whose \<open>next\<close> pointer is to be cleared, or in the handler of an event.
\<close>

datatype loop_pc = Polls | Waits | Sleeps | Takes nat | Handles nat

text \<open>
  The threads for which some \<open>event_post\<close> has put an event into a queue but has not set the flag yet are kept in a multiset, the events that other threads have
  taken from a queue (their own or one of this thread) and whose \<open>next\<close> pointer they have not cleared yet in a set.
\<close>

type_synonym loop_state = "loop_pc \<times> tid multiset \<times> nat set \<times> events"

text \<open>
  What the rest of the system may do to the kernel meanwhile: anything, except that while thread \<open>me\<close> is between looking at the
  queues and looking again nobody else takes its event flag away, and a blocked thread stays blocked or is made ready.
\<close>

definition others_may :: "tid \<Rightarrow> loop_pc \<Rightarrow> kernel \<Rightarrow> kernel \<Rightarrow> bool" where
  "others_may me pc k k' \<longleftrightarrow> kernel_ok k' \<and>
     (pc \<in> {Waits, Sleeps} \<longrightarrow>
        flags (tcb k me) AND THREAD_FLAG_EVENT \<noteq> 0 \<longrightarrow> flags (tcb k' me) AND THREAD_FLAG_EVENT \<noteq> 0) \<and>
     (pc = Sleeps \<longrightarrow> wait_data (tcb k' me) = wait_data (tcb k me) \<and>
        (status (tcb k' me) = status (tcb k me) \<or> on_runqueue (status (tcb k' me))))"

inductive loop_step :: "tid \<Rightarrow> nat list \<Rightarrow> loop_state \<Rightarrow> loop_state \<Rightarrow> bool" for me :: tid and qs :: "nat list" where
  poll: "active_ready me (ekern s) \<Longrightarrow> event_poll qs s = Some (r, s') \<Longrightarrow>
    loop_step me qs (Polls, ws, T, s) (case r of None \<Rightarrow> Waits | Some e \<Rightarrow> Takes e, ws, T, s')"
| wait: "active_ready me (ekern s) \<Longrightarrow> thread_flags_wait_any THREAD_FLAG_EVENT (ekern s) = Some (c, k) \<Longrightarrow>
    loop_step me qs (Waits, ws, T, s) (case c of Blocks \<Rightarrow> Sleeps | Return _ \<Rightarrow> Polls, ws, T, s\<lparr>ekern := k\<rparr>)"
| resume: "active_ready me (ekern s) \<Longrightarrow>
    loop_step me qs (Sleeps, ws, T, s) (Polls, ws, T, s\<lparr>ekern := snd (thread_flags_clear_atomic me THREAD_FLAG_EVENT (ekern s))\<rparr>)"
| unlink: "loop_step me qs (Takes e, ws, T, s) (Handles e, ws, T, event_unlink e s)"
| handled: "loop_step me qs (Handles e, ws, T, s) (Polls, ws, T, s)"
| post: "event_post_insert q e s = (w, s') \<Longrightarrow>
    loop_step me qs (pc, ws, T, s) (pc, case w of None \<Rightarrow> ws | Some t \<Rightarrow> add_mset t ws, T, s')"
| wake: "t \<in># ws \<Longrightarrow> thread_flags_set t THREAD_FLAG_EVENT (ekern s) = Some k \<Longrightarrow>
    loop_step me qs (pc, ws, T, s) (pc, ws - {#t#}, T, s\<lparr>ekern := k\<rparr>)"
| others_take: "event_pop q s = Some (r, s') \<Longrightarrow> loop_step me qs (pc, ws, T, s) (pc, ws, T \<union> set_option r, s')"
| others_unlink: "e \<in> T \<Longrightarrow> loop_step me qs (pc, ws, T, s) (pc, ws, T - {e}, event_unlink e s)"
| cancel: "pc \<noteq> Takes e \<Longrightarrow> e \<notin> T \<Longrightarrow> (\<And>q'. q' \<noteq> q \<Longrightarrow> clist_find (ev_list s q') e = Some None) \<Longrightarrow> event_cancel q e s = Some s' \<Longrightarrow>
    loop_step me qs (pc, ws, T, s) (pc, ws, T, s')"
| others: "others_may me pc (ekern s) k \<Longrightarrow> loop_step me qs (pc, ws, T, s) (pc, ws, T, s\<lparr>ekern := k\<rparr>)"

text \<open>The loop starts with its queues owned by the thread; events may have been posted before.\<close>

inductive loop_reach :: "tid \<Rightarrow> nat list \<Rightarrow> loop_state \<Rightarrow> bool" for me :: tid and qs :: "nat list" where
  start: "ev_rep s L T \<Longrightarrow> kernel_ok (ekern s) \<Longrightarrow> (\<forall>q\<in>set qs. ewaiter s q = Some me) \<Longrightarrow> loop_reach me qs (Polls, ws, T, s)"
| step: "loop_reach me qs c \<Longrightarrow> loop_step me qs c c' \<Longrightarrow> loop_reach me qs c'"

text \<open>Claiming the queues, as the event thread does first, is such a start; it keeps events that were posted earlier.\<close>

lemma claim_loop_spec:
  "claim_loop me qs s = Some s' \<Longrightarrow> enext s' = enext s \<and> elist s' = elist s \<and> ekern s' = ekern s \<and>
   (\<forall>q. ewaiter s' q = (if q \<in> set qs then me else ewaiter s q))"
  by (induction qs arbitrary: s) (auto split: if_splits)

lemma event_queues_claim_starts:
  assumes "ev_rep s L T" "kernel_ok (ekern s)" "sched_active_thread (ekern s) = Some me" "event_queues_claim qs s = Some s'"
  shows "loop_reach me qs (Polls, ws, T, s')"
proof (rule loop_reach.start)
  from assms(3,4) claim_loop_spec [of "Some me" qs s s'] have s': "enext s' = enext s" "elist s' = elist s" "ekern s' = ekern s"
    "\<forall>q\<in>set qs. ewaiter s' q = Some me" by (auto simp: event_queues_claim_def)
  then show "ev_rep s' L T" using assms(1) by (simp add: ev_rep_def ev_list_def)
  show "kernel_ok (ekern s')" "\<forall>q\<in>set qs. ewaiter s' q = Some me" using s' assms(2) by simp_all
qed

section \<open>The invariant\<close>

fun transit :: "loop_pc \<Rightarrow> nat set" where
  "transit (Takes e) = {e}"
| "transit _ = {}"

text \<open>
  A thread that is about to wait or waits has seen its queues empty; an event that came since is announced by the flag, or by
  a flag about to be set.
\<close>

definition announced :: "tid \<Rightarrow> nat list \<Rightarrow> (nat \<Rightarrow> nat list) \<Rightarrow> tid multiset \<Rightarrow> kernel \<Rightarrow> bool" where
  "announced me qs L ws k \<longleftrightarrow>
     (\<forall>q\<in>set qs. L q = []) \<or> me \<in># ws \<or> flags (tcb k me) AND THREAD_FLAG_EVENT \<noteq> 0"

definition loop_inv :: "tid \<Rightarrow> nat list \<Rightarrow> loop_state \<Rightarrow> (nat \<Rightarrow> nat list) \<Rightarrow> bool" where
  "loop_inv me qs c L \<longleftrightarrow> (case c of (pc, ws, T, s) \<Rightarrow>
     ev_rep s L (transit pc \<union> T) \<and> transit pc \<inter> T = {} \<and> kernel_ok (ekern s) \<and> (\<forall>q\<in>set qs. ewaiter s q = Some me) \<and>
     (pc \<in> {Waits, Sleeps} \<longrightarrow> announced me qs L ws (ekern s)) \<and>
     (pc = Sleeps \<longrightarrow> wait_data (tcb (ekern s) me) = WMask THREAD_FLAG_EVENT \<and>
        (status (tcb (ekern s) me) = STATUS_FLAG_BLOCKED_ANY \<or> on_runqueue (status (tcb (ekern s) me)))))"

lemma loop_inv_poll:
  assumes "loop_inv me qs (Polls, ws, T, s) L" "event_poll qs s = Some (r, s')"
  shows "\<exists>L'. loop_inv me qs (case r of None \<Rightarrow> Waits | Some e \<Rightarrow> Takes e, ws, T, s') L'"
proof (cases "find (\<lambda>q. L q \<noteq> []) qs")
  case None
  then have "\<forall>q\<in>set qs. L q = []" by (auto simp: find_None_iff)
  with event_poll_rep [of s L T qs] None assms show ?thesis
    by (intro exI [of _ L]) (auto simp: loop_inv_def announced_def)
next
  case (Some q)
  then have "hd (L q) \<in> set (L q)" by (auto simp: find_Some_iff)
  moreover have "ev_rep s L T" using assms(1) by (simp add: loop_inv_def)
  ultimately have "hd (L q) \<notin> T" using ev_repD(4) [of s L T "hd (L q)" q] by auto
  with Some event_poll_rep [of s L T qs] assms show ?thesis
    by (intro exI [of _ "L(q := tl (L q))"]) (auto simp: loop_inv_def)
qed

lemma loop_inv_wait:
  assumes "loop_inv me qs (Waits, ws, T, s) L" "active_ready me (ekern s)"
    "thread_flags_wait_any THREAD_FLAG_EVENT (ekern s) = Some (c, k)"
  shows "loop_inv me qs (case c of Blocks \<Rightarrow> Sleeps | Return _ \<Rightarrow> Polls, ws, T, s\<lparr>ekern := k\<rparr>) L"
proof -
  have k: "kernel_ok (ekern s)" using assms(1) by (simp add: loop_inv_def)
  show ?thesis
  proof (cases "flags (tcb (ekern s) me) AND THREAD_FLAG_EVENT = 0")
    case True
    with event_block_spec [OF k assms(2)] assms show ?thesis by (auto simp: loop_inv_def announced_def)
  next
    case False
    with event_block_spec [OF k assms(2)] event_clear_spec [OF k assms(2)] assms show ?thesis
      by (auto simp: loop_inv_def)
  qed
qed

lemma loop_inv_post:
  assumes "loop_inv me qs (pc, ws, T, s) L" "event_post_insert q e s = (w, s')"
  shows "\<exists>L'. loop_inv me qs (pc, case w of None \<Rightarrow> ws | Some t \<Rightarrow> add_mset t ws, T, s') L'"
proof -
  let ?L = "if enext s e = None then L(q := L q @ [e]) else L"
  have s': "w = ewaiter s q" "ekern s' = ekern s" "ewaiter s' = ewaiter s" using assms(2) by (auto simp: post_insert_eq)
  have "ev_rep s' ?L (transit pc \<union> T)" using post_insert_rep [of s L "transit pc \<union> T" q e] assms by (simp add: loop_inv_def)
  moreover have "announced me qs ?L (case w of None \<Rightarrow> ws | Some t \<Rightarrow> add_mset t ws) (ekern s)"
    if "announced me qs L ws (ekern s)"
  proof (cases "q \<in> set qs")
    case True
    then have "w = Some me" using assms(1) s'(1) by (simp add: loop_inv_def)
    then show ?thesis by (simp add: announced_def)
  next
    case False
    then show ?thesis using that by (auto simp: announced_def split: option.splits)
  qed
  ultimately have "loop_inv me qs (pc, case w of None \<Rightarrow> ws | Some t \<Rightarrow> add_mset t ws, T, s') ?L"
    using assms(1) unfolding loop_inv_def by (simp add: s'(2,3))
  then show ?thesis by blast
qed

lemma loop_inv_wake:
  assumes "loop_inv me qs (pc, ws, T, s) L" "t \<in># ws" "thread_flags_set t THREAD_FLAG_EVENT (ekern s) = Some k"
  shows "loop_inv me qs (pc, ws - {#t#}, T, s\<lparr>ekern := k\<rparr>) L"
proof -
  from assms(1) have "kernel_ok (ekern s)" by (simp add: loop_inv_def)
  from event_set_spec [OF this, of t] assms(3) have k: "kernel_ok k" "flags (tcb k t) AND THREAD_FLAG_EVENT \<noteq> 0"
    "wait_data (tcb k t) = wait_data (tcb (ekern s) t)"
    "status (tcb k t) = status (tcb (ekern s) t) \<or> on_runqueue (status (tcb k t))"
    "\<And>x. x \<noteq> t \<Longrightarrow> tcb k x = tcb (ekern s) x" by auto
  show ?thesis
  proof (cases "t = me")
    case True
    with k assms(1) show ?thesis by (auto simp: loop_inv_def announced_def)
  next
    case False
    then have "tcb k me = tcb (ekern s) me" using k(5) by simp
    with False k(1) assms(1) show ?thesis by (auto simp: loop_inv_def announced_def in_diff_count)
  qed
qed

lemma loop_inv_cancel:
  assumes "loop_inv me qs (pc, ws, T, s) L" "pc \<noteq> Takes e" "e \<notin> T" "\<And>q'. q' \<noteq> q \<Longrightarrow> clist_find (ev_list s q') e = Some None"
    "event_cancel q e s = Some s'"
  shows "\<exists>L'. loop_inv me qs (pc, ws, T, s') L'"
proof -
  from assms(1) have rep: "ev_rep s L (transit pc \<union> T)" by (simp add: loop_inv_def)
  have "e \<notin> transit pc \<union> T" using assms(2,3) by (cases pc) auto
  moreover have "e \<notin> set (L q')" if "q' \<noteq> q" for q'
    using clist_rep_find [OF ev_repD(1) [OF rep], of q' e] assms(4) [OF that] by (auto split: if_splits)
  ultimately have s': "ev_rep s' (L(q := remove1 e (L q))) (transit pc \<union> T)" "ekern s' = ekern s" "ewaiter s' = ewaiter s"
    using cancel_rep [OF rep, of e q] assms(5) by auto
  have "announced me qs (L(q := remove1 e (L q))) ws (ekern s)" if "announced me qs L ws (ekern s)"
    using that by (auto simp: announced_def)
  with s' assms(1) have "loop_inv me qs (pc, ws, T, s') (L(q := remove1 e (L q)))" by (simp add: loop_inv_def)
  then show ?thesis by blast
qed

lemma event_pop_rep:
  assumes "ev_rep s L T" "event_pop q s = Some (r, s')"
  shows "ev_rep s' (L(q := tl (L q))) (T \<union> set_option r) \<and> set_option r \<inter> T = {} \<and> (\<forall>e\<in>set_option r. e \<in> set (L q)) \<and> ekern s' = ekern s \<and> ewaiter s' = ewaiter s"
proof (cases "L q")
  case Nil
  then have "clist_lpop (ev_list s q) = Some (None, ev_list s q)"
    using clist_lpop_Nil ev_repD(1) [OF assms(1), of q] by metis
  then have "r = None" "s' = s" using assms(2) by (auto simp: event_pop_def irq_disable_def Let_def put_list_def ev_list_def)
  moreover have "L(q := []) = L" using Nil by auto
  ultimately show ?thesis using assms(1) Nil by simp
next
  case (Cons e es)
  from pop_rep [OF assms(1) Cons] obtain l where
    l: "clist_lpop (ev_list s q) = Some (Some e, l)" "ev_rep (put_list q l s) (L(q := es)) (insert e T)" by blast
  then have "r = Some e" "s' = put_list q l s" using assms(2) by (auto simp: event_pop_def irq_disable_def Let_def put_list_def)
  moreover have "e \<notin> T" using ev_repD(4) [OF assms(1), of e q] Cons by auto
  ultimately show ?thesis using l(2) Cons by (simp add: insert_commute)
qed

lemma loop_inv_others_take:
  assumes "loop_inv me qs (pc, ws, T, s) L" "event_pop q s = Some (r, s')"
  shows "loop_inv me qs (pc, ws, T \<union> set_option r, s') (L(q := tl (L q)))"
proof -
  have p: "ev_rep s' (L(q := tl (L q))) ((transit pc \<union> T) \<union> set_option r)" "set_option r \<inter> (transit pc \<union> T) = {}"
      "ekern s' = ekern s" "ewaiter s' = ewaiter s"
    using event_pop_rep [of s L "transit pc \<union> T" q r s'] assms by (auto simp: loop_inv_def)
  have "announced me qs (L(q := tl (L q))) ws (ekern s)" if "announced me qs L ws (ekern s)"
    using that by (auto simp: announced_def)
  moreover have "transit pc \<inter> (T \<union> set_option r) = {}" using p(2) assms(1) by (auto simp: loop_inv_def)
  ultimately show ?thesis using p assms(1) by (simp add: loop_inv_def Un_assoc)
qed

lemma loop_inv_others_unlink:
  assumes "loop_inv me qs (pc, ws, T, s) L" "e \<in> T"
  shows "loop_inv me qs (pc, ws, T - {e}, event_unlink e s) L"
proof -
  have d: "transit pc \<inter> T = {}" "ev_rep s L (transit pc \<union> T)" using assms(1) by (simp_all add: loop_inv_def)
  have "insert e (transit pc \<union> (T - {e})) = transit pc \<union> T" "e \<notin> transit pc \<union> (T - {e})" using d(1) assms(2) by auto
  then have "ev_rep (event_unlink e s) L (transit pc \<union> (T - {e}))" using unlink_rep [of s L e "transit pc \<union> (T - {e})"] d(2) by simp
  then show ?thesis using assms(1) d(1) by (auto simp: loop_inv_def)
qed

lemma loop_inv_step:
  assumes "loop_inv me qs c L" "loop_step me qs c c'"
  shows "\<exists>L'. loop_inv me qs c' L'"
  using assms(2,1)
proof (cases rule: loop_step.cases)
  case (poll s r s' ws T)
  with assms(1) show ?thesis using loop_inv_poll by simp
next
  case (wait s c k ws T)
  with assms(1) show ?thesis using loop_inv_wait by blast
next
  case (resume s ws T)
  with assms(1) event_clear_spec [of "ekern s" me] show ?thesis by (intro exI [of _ L]) (simp add: loop_inv_def)
next
  case (unlink e ws T s)
  with assms(1) unlink_rep [of s L e T] show ?thesis by (intro exI [of _ L]) (simp add: loop_inv_def)
next
  case (handled e ws T s)
  with assms(1) show ?thesis by (intro exI [of _ L]) (simp add: loop_inv_def)
next
  case (post q e s w s' pc ws T)
  with assms(1) show ?thesis using loop_inv_post by simp
next
  case (wake t ws s k pc T)
  with assms(1) show ?thesis using loop_inv_wake by blast
next
  case (others_take q s r s' pc ws T)
  with assms(1) show ?thesis using loop_inv_others_take by blast
next
  case (others_unlink e T pc ws s)
  with assms(1) show ?thesis using loop_inv_others_unlink by blast
next
  case (cancel pc e T q s s' ws)
  from loop_inv_cancel [OF _ cancel(3-6)] cancel(1,2) assms(1) show ?thesis by blast
next
  case (others pc s k ws T)
  with assms(1) show ?thesis
    by (intro exI [of _ L]) (cases pc; auto simp: loop_inv_def announced_def others_may_def)
qed

lemma loop_reach_inv: "loop_reach me qs c \<Longrightarrow> \<exists>L. loop_inv me qs c L"
proof (induction rule: loop_reach.induct)
  case (start s L T ws)
  then show ?case by (intro exI [of _ L]) (simp add: loop_inv_def)
next
  case (step c c')
  then show ?case using loop_inv_step by blast
qed

lemma sleeper_woken:
  assumes "loop_inv me qs (Sleeps, ws, T, s) L"
  shows "\<exists>k. thread_flags_set me THREAD_FLAG_EVENT (ekern s) = Some k \<and> on_runqueue (status (tcb k me))"
proof -
  from assms have "kernel_ok (ekern s)" by (simp add: loop_inv_def)
  from event_set_spec [OF this, of me] obtain k where k: "thread_flags_set me THREAD_FLAG_EVENT (ekern s) = Some k"
    "flags_inv k" "flags (tcb k me) AND THREAD_FLAG_EVENT \<noteq> 0" "wait_data (tcb k me) = wait_data (tcb (ekern s) me)"
    "status (tcb k me) = status (tcb (ekern s) me) \<or> on_runqueue (status (tcb k me))"
    by (auto simp: kernel_ok_def)
  have "status (tcb k me) \<noteq> STATUS_FLAG_BLOCKED_ANY"
    using k(2-4) assms by (auto simp: flags_inv_def loop_inv_def wait_mask_def)
  with k(1,5) assms show ?thesis by (auto simp: loop_inv_def)
qed

section \<open>Properties of the event loop\<close>

text \<open>
  (C18) No event is lost on a waiting thread. Between the steps of the event loop, other threads and interrupts post events (putting the event into a queue and
  setting the flag for it are two steps of their own), take events from any queue (taking the event and clearing its pointer are two steps as well), cancel events, and change
  the kernel, which stays well formed. The queues belong to the thread, and the others do not claim them; they do not cancel an event in the moment between the two steps of taking it, nor through a queue it is not in, and they neither take the event flag
  away from the thread while it is about to wait or waits nor block it in another way. Then looking at the queues never fails, they stay well formed, and when its thread is blocked in
  \<open>event_wait_multi\<close>, then either it has been made ready, or all its queues are empty, or a thread that posted is about to set the event flag;
  setting the flag then succeeds and makes the waiting thread ready.
\<close>
theorem event_loop_no_lost_wakeup:
  assumes "loop_reach me qs (pc, ws, T, s)"
  shows "\<exists>L. ev_rep s L (transit pc \<union> T) \<and> kernel_ok (ekern s) \<and> event_poll qs s \<noteq> None \<and>
    (pc = Sleeps \<longrightarrow>
       (on_runqueue (status (tcb (ekern s) me)) \<or>
        status (tcb (ekern s) me) = STATUS_FLAG_BLOCKED_ANY \<and> ((\<forall>q\<in>set qs. L q = []) \<or> me \<in># ws)) \<and>
       (\<exists>k. thread_flags_set me THREAD_FLAG_EVENT (ekern s) = Some k \<and> on_runqueue (status (tcb k me))))"
proof -
  from loop_reach_inv [OF assms] obtain L where L: "loop_inv me qs (pc, ws, T, s) L" by blast
  then have rep: "ev_rep s L (transit pc \<union> T)" and k: "flags_inv (ekern s)" "kernel_ok (ekern s)"
    by (auto simp: loop_inv_def kernel_ok_def)
  have "event_poll qs s \<noteq> None" using event_poll_rep [OF rep, of qs] by (auto split: option.splits)
  moreover have "on_runqueue (status (tcb (ekern s) me)) \<or>
      status (tcb (ekern s) me) = STATUS_FLAG_BLOCKED_ANY \<and> ((\<forall>q\<in>set qs. L q = []) \<or> me \<in># ws)" if "pc = Sleeps"
  proof -
    from that L have st: "announced me qs L ws (ekern s)" "wait_data (tcb (ekern s) me) = WMask THREAD_FLAG_EVENT"
      "status (tcb (ekern s) me) = STATUS_FLAG_BLOCKED_ANY \<or> on_runqueue (status (tcb (ekern s) me))"
      by (simp_all add: loop_inv_def)
    have "status (tcb (ekern s) me) = STATUS_FLAG_BLOCKED_ANY \<Longrightarrow> flags (tcb (ekern s) me) AND THREAD_FLAG_EVENT = 0"
      using k(1) st(2) by (auto simp: flags_inv_def wait_mask_def)
    with st(1,3) show ?thesis unfolding announced_def by blast
  qed
  ultimately show ?thesis using rep k(2) sleeper_woken [of me qs ws T s L] L by (intro exI [of _ L]) auto
qed

theorem event_loop_no_lost_wakeup_witness:
  "\<exists>s k. loop_reach 7 [1, 2] (Sleeps, {#7#}, {}, s) \<and> status (tcb (ekern s) 7) = STATUS_FLAG_BLOCKED_ANY \<and>
     thread_flags_set 7 THREAD_FLAG_EVENT (ekern s) = Some k \<and> on_runqueue (status (tcb k 7))"
proof -
  have "flags (tcb (ekern idle_events) 7) AND THREAD_FLAG_EVENT = 0"
    by (simp add: idle_events_def two_threads_def blank_thread_def)
  with event_block_spec [OF idle_events_facts(2,3)] obtain k where
    k: "thread_flags_wait_any THREAD_FLAG_EVENT (ekern idle_events) = Some (Blocks, k)"
      "status (tcb k 7) = STATUS_FLAG_BLOCKED_ANY" by auto
  let ?s = "idle_events\<lparr>ekern := k\<rparr>"
  obtain s where post: "event_post_insert 1 10 ?s = (Some 7, s)" and s: "ekern s = k"
    by (auto simp: post_insert_eq idle_events_def)
  have "loop_reach 7 [1, 2] (Polls, {#}, {}, idle_events)"
    by (rule loop_reach.start [OF idle_events_facts(1,2)]) (simp add: idle_events_def)
  moreover have "loop_step 7 [1, 2] (Polls, {#}, {}, idle_events) (Waits, {#}, {}, idle_events)"
    using loop_step.poll [OF idle_events_facts(3), of "[1, 2]" None idle_events "{#}" "{}"]
      event_poll_rep [OF idle_events_facts(1), of "[1, 2]"] by simp
  moreover have "loop_step 7 [1, 2] (Waits, {#}, {}, idle_events) (Sleeps, {#}, {}, ?s)"
    using loop_step.wait [OF idle_events_facts(3) k(1), of "[1, 2]" "{#}" "{}"] by simp
  moreover have "loop_step 7 [1, 2] (Sleeps, {#}, {}, ?s) (Sleeps, {#7#}, {}, s)"
    using loop_step.post [OF post, of 7 "[1, 2]" Sleeps "{#}" "{}"] by simp
  ultimately have "loop_reach 7 [1, 2] (Sleeps, {#7#}, {}, s)" by (meson loop_reach.step)
  with event_loop_no_lost_wakeup [OF this] s k(2) show ?thesis by metis
qed

text \<open>
  (C36) Taking an event is not atomic: \<open>event_get\<close> and \<open>event_wait_multi\<close> clear the \<open>next\<close> pointer of the event after interrupts are
  enabled again. If the event is cancelled and posted again at that moment, the pointer is cleared while the event is in
  the queue, and the next attempt to take an event dereferences NULL.
\<close>
theorem event_take_race:
  assumes "ev_rep s L {}" and "kernel_ok (ekern s)" and "L q = e # es"
  shows "\<exists>s1 s2 s3. event_pop q s = Some (Some e, s1) \<and> event_cancel q e s1 = Some s2 \<and> event_post q e s2 = Some s3 \<and>
    event_get q (event_unlink e s3) = None"
proof -
  from pop_rep [OF assms(1,3)] obtain l where
    l: "clist_lpop (ev_list s q) = Some (Some e, l)" "ev_rep (put_list q l s) (L(q := es)) {e}" by blast
  let ?s1 = "put_list q l s"
  have pop: "event_pop q s = Some (Some e, ?s1)"
    using l(1) by (simp add: event_pop_def irq_disable_def Let_def put_list_def)
  have "clist_remove (ev_list ?s1 q) e = Some (None, ev_list ?s1 q)"
    by (rule clist_remove_notin [OF ev_repD(1) [OF l(2)] ev_repD(4) [OF l(2)]]) simp
  then have cancel: "event_cancel q e ?s1 = Some (event_unlink e ?s1)"
    by (simp add: event_cancel_def irq_disable_def Let_def event_unlink_def put_list_def ev_list_def)
  from unlink_rep [OF l(2)] have rep: "ev_rep (event_unlink e ?s1) (L(q := es)) {}" by simp
  moreover have "enext (event_unlink e ?s1) e = None" "kernel_ok (ekern (event_unlink e ?s1))"
    using assms(2) by (simp_all add: event_unlink_def)
  ultimately obtain s3 where s3: "event_post q e (event_unlink e ?s1) = Some s3" "ev_rep s3 (L(q := es @ [e])) {}"
    using event_post_rep [of "event_unlink e ?s1" "L(q := es)" "{}" q e] by auto
  have "elist s3 q = Some e" using clist_repD(1) [OF ev_repD(1) [OF s3(2), of q]] by simp
  then have "event_get q (event_unlink e s3) = None"
    by (simp add: event_get_def event_pop_def irq_disable_def Let_def clist_lpop_def event_unlink_def ev_list_def)
  with pop cancel s3(1) show ?thesis by blast
qed

theorem event_take_race_witness:
  "\<exists>s s1 s2 s3. event_post 1 10 idle_events = Some s \<and> event_pop 1 s = Some (Some 10, s1) \<and> event_cancel 1 10 s1 = Some s2 \<and>
     event_post 1 10 s2 = Some s3 \<and> event_get 1 (event_unlink 10 s3) = None"
proof -
  from event_post_rep [OF idle_events_facts(1,2), of 1 10] obtain s where
    s: "event_post 1 10 idle_events = Some s" "ev_rep s ((\<lambda>_. [])(1 := [10])) {}" "kernel_ok (ekern s)"
    by (auto simp: idle_events_def)
  from event_take_race [OF s(2,3), of 1 10 "[]"] s(1) show ?thesis by auto
qed

end
