(* ===== verification/Msg.thy ===== *)
theory Msg
  imports Thread_Flags
begin

text \<open>
  Messages between threads (core/msg.c, core/msg_bus.c), in the build with thread flags. A
  \<open>msg_t *\<close> is an address into the store \<open>msgs\<close>, except that the array of a thread's message
  queue is kept in its control block. A call that blocks gives \<open>Blocks\<close>; it returns 1 when the
  thread is resumed.
\<close>

section \<open>Sending\<close>

definition set_sender :: "maddr \<Rightarrow> int \<Rightarrow> kernel \<Rightarrow> kernel" where
  "set_sender m p k = k\<lparr>msgs := (msgs k)(m := (msgs k m)\<lparr>sender_pid := p\<rparr>)\<rparr>"

text \<open>Writing through the message pointer a thread waits with; \<open>None\<close> if it is not one.\<close>

definition deliver :: "tid \<Rightarrow> msg \<Rightarrow> kernel \<Rightarrow> kernel option" where
  "deliver target v k =
     (case wait_data (tcb k target) of
        WMsg a \<Rightarrow> Some (k\<lparr>msgs := (msgs k)(a := v)\<rparr>) | _ \<Rightarrow> None)"

definition queue_msg :: "tid \<Rightarrow> maddr \<Rightarrow> kernel \<Rightarrow> (int \<times> kernel) option" where
  "queue_msg target m k =
     do { let (n, c) = cib_put (msg_queue (tcb k target));
          if n < 0 then Some (0, k)
          else
            do { arr \<leftarrow> msg_array (tcb k target);
                 k \<leftarrow> (if nat n < length arr
                      then Some (upd_tcb target (\<lambda>th. th\<lparr>msg_queue := c, msg_array := Some (arr[nat n := msgs k m])\<rparr>) k)
                      else None);
                 let k = upd_tcb target (\<lambda>th. th\<lparr>flags := flags th OR THREAD_FLAG_MSG_WAITING\<rparr>) k;
                 (w, k) \<leftarrow> thread_flags_wake target k;
                 Some (1, k) } }"

definition msg_send_gen :: "maddr \<Rightarrow> int \<Rightarrow> bool \<Rightarrow> bool \<Rightarrow> kernel \<Rightarrow> (int call \<times> kernel) option" where
  "msg_send_gen m target_pid block state k =
     do { slot \<leftarrow> thread_get_unchecked target_pid k;
          let k = set_sender m (thread_getpid k) k;
          case slot of
            None \<Rightarrow> Some (Return (- 1), irq_restore state k)
          | Some target \<Rightarrow>
              do { me \<leftarrow> thread_get_active k;
                   if status (tcb k target) \<noteq> STATUS_RECEIVE_BLOCKED then
                     do { (queued, k) \<leftarrow> queue_msg target m k;
                          if queued \<noteq> 0 then
                            (let k = irq_restore state k
                             in if status (tcb k me) = STATUS_REPLY_BLOCKED
                                then Some (Blocks, thread_yield_higher k) else Some (Return 1, k))
                          else if \<not> block then Some (Return 0, irq_restore state k)
                          else
                            do { let k = upd_tcb me (\<lambda>th. th\<lparr>wait_data := WMsg m\<rparr>) k;
                                 let newstatus = (if status (tcb k me) = STATUS_REPLY_BLOCKED
                                                  then STATUS_REPLY_BLOCKED else STATUS_SEND_BLOCKED);
                                 k \<leftarrow> sched_set_status me newstatus k;
                                 ws \<leftarrow> thread_add_to_list (msg_waiters (tcb k target)) me k;
                                 let k = upd_tcb target (\<lambda>th. th\<lparr>msg_waiters := ws\<rparr>) k;
                                 let k = upd_tcb target (\<lambda>th. th\<lparr>flags := flags th OR THREAD_FLAG_MSG_WAITING\<rparr>) k;
                                 (w, k) \<leftarrow> thread_flags_wake target k;
                                 Some (Blocks, thread_yield_higher (irq_restore state k)) } }
                   else
                     do { k \<leftarrow> deliver target (msgs k m) k;
                          k \<leftarrow> sched_set_status target STATUS_PENDING k;
                          let k = thread_yield_higher (irq_restore state k);
                          Some (if status (tcb k me) = STATUS_REPLY_BLOCKED then Blocks else Return 1, k) } } }"

definition msg_send_to_self :: "maddr \<Rightarrow> kernel \<Rightarrow> (int \<times> kernel) option" where
  "msg_send_to_self m k =
     do { let (state, k) = irq_disable k;
          let k = set_sender m (thread_getpid k) k;
          me \<leftarrow> thread_get_active k;
          (res, k) \<leftarrow> queue_msg me m k;
          Some (res, irq_restore state k) }"

definition msg_send_oneway :: "maddr \<Rightarrow> int \<Rightarrow> kernel \<Rightarrow> (int \<times> kernel) option" where
  "msg_send_oneway m target_pid k =
     do { slot \<leftarrow> thread_get_unchecked target_pid k;
          case slot of
            None \<Rightarrow> Some (- 1, k)
          | Some target \<Rightarrow>
              if status (tcb k target) = STATUS_RECEIVE_BLOCKED then
                do { k \<leftarrow> deliver target (msgs k m) k;
                     k \<leftarrow> sched_set_status target STATUS_PENDING k;
                     Some (1, k\<lparr>sched_context_switch_request := True\<rparr>) }
              else queue_msg target m k }"

definition msg_send_int :: "maddr \<Rightarrow> int \<Rightarrow> kernel \<Rightarrow> (int \<times> kernel) option" where
  "msg_send_int m target_pid k = msg_send_oneway m target_pid (set_sender m KERNEL_PID_ISR k)"

text \<open>The common body of \<open>msg_send\<close> and \<open>msg_try_send\<close>.\<close>

definition msg_send_any :: "bool \<Rightarrow> maddr \<Rightarrow> int \<Rightarrow> kernel \<Rightarrow> (int call \<times> kernel) option" where
  "msg_send_any block m target_pid k =
     (if irq_in k then map_option (\<lambda>(r, k). (Return r, k)) (msg_send_int m target_pid k)
      else if thread_getpid k = target_pid then map_option (\<lambda>(r, k). (Return r, k)) (msg_send_to_self m k)
      else (let (state, k) = irq_disable k in msg_send_gen m target_pid block state k))"

definition msg_send :: "maddr \<Rightarrow> int \<Rightarrow> kernel \<Rightarrow> (int call \<times> kernel) option" where
  "msg_send m target_pid k = msg_send_any True m target_pid k"

definition msg_try_send :: "maddr \<Rightarrow> int \<Rightarrow> kernel \<Rightarrow> (int call \<times> kernel) option" where
  "msg_try_send m target_pid k = msg_send_any False m target_pid k"

section \<open>Requests and replies\<close>

definition msg_send_receive :: "maddr \<Rightarrow> maddr \<Rightarrow> int \<Rightarrow> kernel \<Rightarrow> (int call \<times> kernel) option" where
  "msg_send_receive m reply target_pid k =
     (if thread_getpid k \<noteq> target_pid then
        do { let (state, k) = irq_disable k;
             me \<leftarrow> thread_get_active k;
             k \<leftarrow> sched_set_status me STATUS_REPLY_BLOCKED k;
             let k = upd_tcb me (\<lambda>th. th\<lparr>wait_data := WMsg reply\<rparr>) k;
             let k = k\<lparr>msgs := (msgs k)(reply := msgs k m)\<rparr>;
             msg_send_gen reply target_pid True state k }
      else None)"

definition msg_reply :: "maddr \<Rightarrow> maddr \<Rightarrow> kernel \<Rightarrow> (int \<times> kernel) option" where
  "msg_reply m reply k =
     do { let (state, k) = irq_disable k;
          slot \<leftarrow> thread_get_unchecked (sender_pid (msgs k m)) k;
          target \<leftarrow> slot;
          if status (tcb k target) \<noteq> STATUS_REPLY_BLOCKED then Some (- 1, irq_restore state k)
          else
            do { k \<leftarrow> deliver target (msgs k reply) k;
                 k \<leftarrow> sched_set_status target STATUS_PENDING k;
                 k \<leftarrow> sched_switch (priority (tcb k target)) (irq_restore state k);
                 Some (1, k) } }"

definition msg_reply_int :: "maddr \<Rightarrow> maddr \<Rightarrow> kernel \<Rightarrow> (int \<times> kernel) option" where
  "msg_reply_int m reply k =
     do { slot \<leftarrow> thread_get_unchecked (sender_pid (msgs k m)) k;
          target \<leftarrow> slot;
          if status (tcb k target) \<noteq> STATUS_REPLY_BLOCKED then Some (- 1, k)
          else
            do { k \<leftarrow> deliver target (msgs k reply) k;
                 k \<leftarrow> sched_set_status target STATUS_PENDING k;
                 Some (1, k\<lparr>sched_context_switch_request := True\<rparr>) } }"

section \<open>Receiving\<close>

definition thread_has_msg_queue :: "thread \<Rightarrow> bool" where
  "thread_has_msg_queue th \<longleftrightarrow> msg_array th \<noteq> None"

text \<open>The index of the oldest queued message (-1 without one), and the queue without it.\<close>

definition take_queued :: "thread \<Rightarrow> int \<times> cib" where
  "take_queued th = (if thread_has_msg_queue th then cib_get (msg_queue th) else (- 1, msg_queue th))"

text \<open>An element of the thread's message array; \<open>None\<close> without array or out of its bounds.\<close>

definition array_get :: "tid \<Rightarrow> int \<Rightarrow> kernel \<Rightarrow> msg option" where
  "array_get t i k =
     (case msg_array (tcb k t) of
        Some arr \<Rightarrow> if 0 \<le> i \<and> nat i < length arr then Some (arr ! nat i) else None
      | None \<Rightarrow> None)"

definition array_set :: "tid \<Rightarrow> int \<Rightarrow> msg \<Rightarrow> kernel \<Rightarrow> kernel option" where
  "array_set t i v k =
     (case msg_array (tcb k t) of
        Some arr \<Rightarrow>
          if 0 \<le> i \<and> nat i < length arr
          then Some (upd_tcb t (\<lambda>th. th\<lparr>msg_array := Some (arr[nat i := v])\<rparr>) k) else None
      | None \<Rightarrow> None)"

text \<open>The message a blocked sender waits with.\<close>

definition sender_msg :: "tid \<Rightarrow> kernel \<Rightarrow> msg option" where
  "sender_msg s k = (case wait_data (tcb k s) of WMsg a \<Rightarrow> Some (msgs k a) | _ \<Rightarrow> None)"

text \<open>A sender taken from the waiting list becomes ready, unless it still waits for a reply.\<close>

definition wake_sender :: "tid \<Rightarrow> kernel \<Rightarrow> (nat \<times> kernel) option" where
  "wake_sender sender k =
     (if status (tcb k sender) \<noteq> STATUS_REPLY_BLOCKED then
        do { let k = upd_tcb sender (\<lambda>th. th\<lparr>wait_data := WNull\<rparr>) k;
             k \<leftarrow> sched_set_status sender STATUS_PENDING k;
             Some (priority (tcb k sender), k) }
      else Some (THREAD_PRIORITY_IDLE, k))"

definition msg_receive_gen :: "maddr \<Rightarrow> bool \<Rightarrow> kernel \<Rightarrow> (int call \<times> kernel) option" where
  "msg_receive_gen m block k =
     do { let (state, k) = irq_disable k;
          me \<leftarrow> thread_get_active k;
          let (queue_index, c) = take_queued (tcb k me);
          let k = upd_tcb me (\<lambda>th. th\<lparr>msg_queue := c\<rparr>) k;
          if \<not> block \<and> msg_waiters (tcb k me) = [] \<and> queue_index = - 1 then
            Some (Return (- 1), irq_restore state k)
          else
            do { k \<leftarrow> (if queue_index \<ge> 0
                      then do { v \<leftarrow> array_get me queue_index k; Some (k\<lparr>msgs := (msgs k)(m := v)\<rparr>) }
                      else Some (upd_tcb me (\<lambda>th. th\<lparr>wait_data := WMsg m\<rparr>) k));
                 let (nxt, ws) = list_remove_head (msg_waiters (tcb k me));
                 let k = upd_tcb me (\<lambda>th. th\<lparr>msg_waiters := ws\<rparr>) k;
                 case nxt of
                   None \<Rightarrow>
                     if queue_index < 0 then
                       do { k \<leftarrow> sched_set_status me STATUS_RECEIVE_BLOCKED k;
                            Some (Blocks, thread_yield_higher (irq_restore state k)) }
                     else Some (Return 1, irq_restore state k)
                 | Some sender \<Rightarrow>
                     do { v \<leftarrow> sender_msg sender k;
                          k \<leftarrow> (if queue_index \<ge> 0 then
                                 do { let (i, c) = cib_put (msg_queue (tcb k me));
                                      array_set me i v (upd_tcb me (\<lambda>th. th\<lparr>msg_queue := c\<rparr>) k) }
                               else Some (k\<lparr>msgs := (msgs k)(m := v)\<rparr>));
                          (sender_prio, k) \<leftarrow> wake_sender sender k;
                          let k = irq_restore state k;
                          k \<leftarrow> (if sender_prio < THREAD_PRIORITY_IDLE then sched_switch sender_prio k else Some k);
                          Some (Return 1, k) } } }"

definition msg_try_receive :: "maddr \<Rightarrow> kernel \<Rightarrow> (int call \<times> kernel) option" where
  "msg_try_receive m k = msg_receive_gen m False k"

definition msg_receive :: "maddr \<Rightarrow> kernel \<Rightarrow> (int call \<times> kernel) option" where
  "msg_receive m k = msg_receive_gen m True k"

definition msg_avail :: "kernel \<Rightarrow> int option" where
  "msg_avail k =
     do { me \<leftarrow> thread_get_active k;
          Some (if thread_has_msg_queue (tcb k me) then sint (cib_avail (msg_queue (tcb k me))) else - 1) }"

definition msg_init_queue :: "msg list \<Rightarrow> u32 \<Rightarrow> kernel \<Rightarrow> kernel option" where
  "msg_init_queue arr num k =
     do { me \<leftarrow> thread_get_active k;
          c \<leftarrow> cib_init num;
          Some (upd_tcb me (\<lambda>th. th\<lparr>msg_array := Some arr, msg_queue := c\<rparr>) k) }"

section \<open>The message bus\<close>

record msg_bus_entry =
  event_mask :: u32
  sub_pid :: int

record msg_bus =
  subs :: "nat list"
  bus_id :: u16
  entries :: "nat \<Rightarrow> msg_bus_entry"

text \<open>\<open>bus_count\<close> is the function's static counter.\<close>

definition msg_bus_init :: "u16 \<Rightarrow> msg_bus \<Rightarrow> msg_bus \<times> u16" where
  "msg_bus_init bus_count b = (b\<lparr>subs := [], bus_id := bus_count\<rparr>, bus_count + 1)"

definition msg_bus_attach :: "nat \<Rightarrow> kernel \<Rightarrow> msg_bus \<Rightarrow> msg_bus" where
  "msg_bus_attach e k b =
     b\<lparr>entries := (entries b)(e := \<lparr>event_mask = 0, sub_pid = thread_getpid k\<rparr>), subs := e # subs b\<rparr>"

definition msg_bus_detach :: "nat \<Rightarrow> msg_bus \<Rightarrow> msg_bus" where
  "msg_bus_detach e b = b\<lparr>subs := remove1 e (subs b)\<rparr>"

definition msg_bus_get_entry :: "kernel \<Rightarrow> msg_bus \<Rightarrow> nat option" where
  "msg_bus_get_entry k b = find (\<lambda>e. sub_pid (entries b e) = thread_getpid k) (subs b)"

definition msg_bus_subscribe :: "nat \<Rightarrow> nat \<Rightarrow> msg_bus \<Rightarrow> msg_bus option" where
  "msg_bus_subscribe e ty b =
     (if ty < 32 then Some (b\<lparr>entries := (entries b)(e := (entries b e)
        \<lparr>event_mask := event_mask (entries b e) OR push_bit ty 1\<rparr>)\<rparr>) else None)"

definition msg_bus_unsubscribe :: "nat \<Rightarrow> nat \<Rightarrow> msg_bus \<Rightarrow> msg_bus option" where
  "msg_bus_unsubscribe e ty b =
     (if ty < 32 then Some (b\<lparr>entries := (entries b)(e := (entries b e)
        \<lparr>event_mask := event_mask (entries b e) AND NOT (push_bit ty 1)\<rparr>)\<rparr>) else None)"

fun send_bus_loop :: "maddr \<Rightarrow> u32 \<Rightarrow> msg_bus_entry list \<Rightarrow> int \<Rightarrow> kernel \<Rightarrow> (int \<times> kernel) option" where
  "send_bus_loop m em [] count k = Some (count, k)"
| "send_bus_loop m em (s # ss) count k =
     (if event_mask s AND em = 0 then send_bus_loop m em ss count k
      else do { (r, k) \<leftarrow> msg_send_oneway m (sub_pid s) k;
                send_bus_loop m em ss (if r > 0 then count + 1 else count) k })"

definition msg_send_bus :: "maddr \<Rightarrow> msg_bus \<Rightarrow> kernel \<Rightarrow> (int \<times> kernel) option" where
  "msg_send_bus m b k =
     do { let in_irq = irq_in k;
          let em = push_bit (unat (mtype (msgs k m) AND 0x1F)) 1;
          let k = set_sender m (if in_irq then KERNEL_PID_ISR else thread_getpid k) k;
          let (state, k) = irq_disable k;
          (count, k) \<leftarrow> send_bus_loop m em (map (entries b) (subs b)) 0 k;
          let k = irq_restore state k;
          Some (count, if sched_context_switch_request k \<and> \<not> in_irq then thread_yield_higher k else k) }"

definition msg_is_from_bus :: "msg_bus \<Rightarrow> msg \<Rightarrow> bool" where
  "msg_is_from_bus b m \<longleftrightarrow> bus_id b = drop_bit 5 (mtype m)"

definition msg_bus_get_type :: "msg \<Rightarrow> u8" where
  "msg_bus_get_type m = ucast (mtype m AND 0x1F)"

text \<open>The temporary message of \<open>msg_bus_post\<close> is the address \<open>tmp\<close>.\<close>

definition msg_bus_post :: "maddr \<Rightarrow> msg_bus \<Rightarrow> u8 \<Rightarrow> u32 \<Rightarrow> kernel \<Rightarrow> (int \<times> kernel) option" where
  "msg_bus_post tmp b ty arg k =
     (if ty < 32 then
        msg_send_bus tmp b (k\<lparr>msgs := (msgs k)(tmp :=
          \<lparr>sender_pid = 0, mtype = ucast ty OR push_bit 5 (bus_id b), content = arg\<rparr>)\<rparr>)
      else None)"

section \<open>The mailbox of a thread\<close>

text \<open>
  What a thread has to receive, in the order it will get it: the messages in its queue, then
  those of the senders blocked on it.
\<close>

definition queued :: "tid \<Rightarrow> kernel \<Rightarrow> msg list" where
  "queued t k = (case msg_array (tcb k t) of
     None \<Rightarrow> [] | Some arr \<Rightarrow> cib_contents (msg_queue (tcb k t)) arr)"

definition wait_addr :: "tid \<Rightarrow> kernel \<Rightarrow> maddr" where
  "wait_addr s k = (case wait_data (tcb k s) of WMsg a \<Rightarrow> a | _ \<Rightarrow> 0)"

definition pending :: "tid \<Rightarrow> kernel \<Rightarrow> msg list" where
  "pending t k = map (\<lambda>s. msgs k (wait_addr s k)) (msg_waiters (tcb k t))"

definition mailbox :: "tid \<Rightarrow> kernel \<Rightarrow> msg list" where
  "mailbox t k = queued t k @ pending t k"

definition queue_wf :: "thread \<Rightarrow> bool" where
  "queue_wf th \<longleftrightarrow> cib_inv (msg_queue th) \<and>
     (case msg_array th of None \<Rightarrow> cib_cap (msg_queue th) = 0 | Some arr \<Rightarrow> cib_cap (msg_queue th) \<le> length arr)"

definition blocked_sender :: "tid \<Rightarrow> kernel \<Rightarrow> bool" where
  "blocked_sender s k \<longleftrightarrow> (status (tcb k s) = STATUS_SEND_BLOCKED \<or> status (tcb k s) = STATUS_REPLY_BLOCKED) \<and>
     wait_data (tcb k s) = WMsg (wait_addr s k) \<and> priority (tcb k s) < SCHED_PRIO_LEVELS"

definition mailbox_inv :: "tid \<Rightarrow> kernel \<Rightarrow> bool" where
  "mailbox_inv t k \<longleftrightarrow> queue_wf (tcb k t) \<and> distinct (msg_waiters (tcb k t)) \<and>
     t \<notin> set (msg_waiters (tcb k t)) \<and>
     sorted (map (\<lambda>s. priority (tcb k s)) (msg_waiters (tcb k t))) \<and>
     (\<forall>s\<in>set (msg_waiters (tcb k t)). blocked_sender s k) \<and>
     (msg_waiters (tcb k t) \<noteq> [] \<longrightarrow> cib_full (msg_queue (tcb k t)))"

lemma queued_frame [simp]:
  "queued t (irq_restore ie k) = queued t k" "queued t (thread_yield_higher k) = queued t k"
  "queued t (set_sender m p k) = queued t k"
  by (simp_all add: queued_def irq_restore_def thread_yield_higher_def set_sender_def split: option.split)

lemma queue_wf_upd [simp]:
  "queue_wf (th\<lparr>wait_data := w\<rparr>) = queue_wf th" "queue_wf (th\<lparr>msg_waiters := ws\<rparr>) = queue_wf th"
  "queue_wf (th\<lparr>flags := f\<rparr>) = queue_wf th" "queue_wf (th\<lparr>status := st\<rparr>) = queue_wf th"
  by (simp_all add: queue_wf_def split: option.split)

lemma queue_wf_put:
  assumes "queue_wf th" "\<not> cib_full (msg_queue th)"
  shows "\<exists>arr. msg_array th = Some arr \<and> 0 \<le> fst (cib_put (msg_queue th)) \<and>
    nat (fst (cib_put (msg_queue th))) < length arr \<and> cib_inv (snd (cib_put (msg_queue th))) \<and>
    cib_cap (snd (cib_put (msg_queue th))) = cib_cap (msg_queue th) \<and>
    (\<forall>v. cib_contents (snd (cib_put (msg_queue th))) (arr[nat (fst (cib_put (msg_queue th))) := v])
      = cib_contents (msg_queue th) arr @ [v])"
proof -
  have inv: "cib_inv (msg_queue th)" using assms(1) by (simp add: queue_wf_def)
  have lt: "unat (cib_avail (msg_queue th)) < cib_cap (msg_queue th)"
    using assms(2) cib_full_iff [OF inv] cib.av_le [OF inv] by simp
  then obtain arr where arr: "msg_array th = Some arr" "cib_cap (msg_queue th) \<le> length arr"
    using assms(1) by (cases "msg_array th") (auto simp: queue_wf_def)
  have "nat (fst (cib_put (msg_queue th))) < length arr"
    using cib.put_ok [OF inv lt] cib.slot_less [OF inv] lt arr(2) by (metis gr_implies_not0 nat_int neq0_conv order_less_le_trans)
  with cib.put_ok [OF inv lt] arr cib.put_contents [OF inv lt arr(2)] show ?thesis by simp
qed

lemma queue_wf_get:
  assumes "queue_wf th" "msg_array th = Some arr" "cib_contents (msg_queue th) arr = v # vs"
  shows "0 \<le> fst (cib_get (msg_queue th)) \<and> nat (fst (cib_get (msg_queue th))) < length arr \<and>
    arr ! nat (fst (cib_get (msg_queue th))) = v \<and> cib_inv (snd (cib_get (msg_queue th))) \<and>
    cib_cap (snd (cib_get (msg_queue th))) = cib_cap (msg_queue th) \<and>
    cib_contents (snd (cib_get (msg_queue th))) arr = vs \<and> \<not> cib_full (snd (cib_get (msg_queue th)))"
proof -
  let ?c = "msg_queue th"
  have inv: "cib_inv ?c" "cib_cap ?c \<le> length arr" using assms(1,2) by (simp_all add: queue_wf_def)
  have gt: "0 < unat (cib_avail ?c)" using assms(3) cib.length_contents [of ?c arr] by simp
  note ok = cib.get_ok [OF inv(1) gt]
  have cap: "0 < cib_cap ?c" using cib.av_le [OF inv(1)] gt by simp
  have "\<not> cib_full (snd (cib_get ?c))"
    using ok cib_full_iff(1) [of "snd (cib_get ?c)"] cib.av_le [OF inv(1)] gt by simp
  with ok cib.get_contents [OF inv(1) gt, of arr] assms(3) cib.slot_less [OF inv(1) cap, of 0] inv(2) show ?thesis by simp
qed

lemma queued_empty_get:
  assumes "queue_wf th" "(case msg_array th of None \<Rightarrow> [] | Some arr \<Rightarrow> cib_contents (msg_queue th) arr) = []"
  shows "take_queued th = (- 1, msg_queue th)"
proof (cases "msg_array th")
  case (Some arr)
  then have "unat (cib_avail (msg_queue th)) = 0" using assms(2) cib.length_contents [of "msg_queue th" arr] by simp
  with assms(1) show ?thesis using cib.get_empty by (simp add: take_queued_def queue_wf_def)
qed (simp add: take_queued_def thread_has_msg_queue_def)

lemma wake_sender_spec:
  assumes "rq_inv k" "blocked_sender s k"
  shows "\<exists>p k'. wake_sender s k = Some (p, k') \<and> rq_inv k' \<and> msgs k' = msgs k \<and>
    sched_active_thread k' = sched_active_thread k \<and>
    tcb k' = (tcb k)(s := (if status (tcb k s) = STATUS_REPLY_BLOCKED then tcb k s
      else (tcb k s)\<lparr>wait_data := WNull, status := STATUS_PENDING\<rparr>))"
proof (cases "status (tcb k s) = STATUS_REPLY_BLOCKED")
  case True
  then show ?thesis using assms(1) by (simp add: wake_sender_def)
next
  case False
  let ?k = "upd_tcb s (\<lambda>th. th\<lparr>wait_data := WNull\<rparr>) k"
  have "rq_inv ?k" using assms(1) by (rule rq_inv_cong) simp_all
  from wake_waiter [OF this, of s] assms(2) False obtain k' where
    "sched_set_status s STATUS_PENDING ?k = Some k'" "rq_inv k'" "msgs k' = msgs k"
    "sched_active_thread k' = sched_active_thread k"
    "tcb k' = (tcb k)(s := (tcb k s)\<lparr>wait_data := WNull, status := STATUS_PENDING\<rparr>)"
    by (auto simp: blocked_sender_def on_runqueue_iff)
  with False show ?thesis by (simp add: wake_sender_def)
qed

text \<open>The last steps of a reception with a waiting sender.\<close>

lemma finish_receive:
  assumes "rq_inv k" "blocked_sender s k" "sched_active_thread k = Some t"
  shows "\<exists>k'. do { (sender_prio, k) \<leftarrow> wake_sender s k;
        k \<leftarrow> (if sender_prio < THREAD_PRIORITY_IDLE then sched_switch sender_prio (irq_restore ie k)
             else Some (irq_restore ie k));
        Some (Return (1 :: int), k) } = Some (Return 1, k') \<and> rq_inv k' \<and> msgs k' = msgs k \<and>
    (\<forall>x. x \<noteq> s \<longrightarrow> tcb k' x = tcb k x)"
proof -
  obtain p k1 where k1: "wake_sender s k = Some (p, k1)" "rq_inv k1" "msgs k1 = msgs k"
    "sched_active_thread k1 = Some t" "\<forall>x. x \<noteq> s \<longrightarrow> tcb k1 x = tcb k x"
    using wake_sender_spec [OF assms(1,2)] assms(3) by auto
  have act: "sched_active_thread (irq_restore ie k1) = Some t" using k1(4) by simp
  obtain k2 where k2: "(if p < THREAD_PRIORITY_IDLE then sched_switch p (irq_restore ie k1)
      else Some (irq_restore ie k1)) = Some k2" "tcb k2 = tcb k1" "msgs k2 = msgs k1"
    "sched_runqueues k2 = sched_runqueues k1" "runqueue_bitcache k2 = runqueue_bitcache k1"
    using switch_if [OF act, of "p < THREAD_PRIORITY_IDLE" p] by auto
  have "rq_inv k2" by (rule rq_inv_cong [OF k1(2)]) (simp_all add: k2)
  with k1 k2 show ?thesis by auto
qed

lemma mailbox_inv_waiter:
  assumes "mailbox_inv t k" "msg_waiters (tcb k t) = s # ws"
  shows "blocked_sender s k" "s \<noteq> t" "s \<notin> set ws" "t \<notin> set ws" "distinct ws"
    "sorted (map (\<lambda>s. priority (tcb k s)) ws)" "\<And>x. x \<in> set ws \<Longrightarrow> blocked_sender x k"
    "cib_full (msg_queue (tcb k t))"
  using assms by (auto simp: mailbox_inv_def)

text \<open>What is left of the mailbox when the first waiter is gone and the queue is \<open>q\<close>.\<close>

lemma mailbox_after:
  assumes "mailbox_inv t k" "msg_waiters (tcb k t) = s # ws" "\<forall>x. x \<noteq> s \<and> x \<noteq> t \<longrightarrow> tcb k' x = tcb k x"
    "msg_waiters (tcb k' t) = ws" "queue_wf (tcb k' t)" "cib_full (msg_queue (tcb k' t))"
    "\<forall>a. a \<noteq> m \<longrightarrow> msgs k' a = msgs k a" "\<forall>x\<in>set (s # ws). wait_addr x k \<noteq> m"
  shows "mailbox_inv t k'" "pending t k = msgs k (wait_addr s k) # pending t k'"
proof -
  note w = mailbox_inv_waiter [OF assms(1,2)]
  have same: "tcb k' x = tcb k x" if "x \<in> set ws" for x using that w(3,4) assms(3) by metis
  then have wa: "wait_addr x k' = wait_addr x k" if "x \<in> set ws" for x using that by (simp add: wait_addr_def)
  have eq: "map (\<lambda>s. priority (tcb k' s)) ws = map (\<lambda>s. priority (tcb k s)) ws" using same by simp
  have "sorted (map (\<lambda>s. priority (tcb k' s)) ws)" unfolding eq by (rule w(6))
  moreover have "blocked_sender x k'" if "x \<in> set ws" for x
    using w(7) [OF that] same [OF that] wa [OF that] by (simp add: blocked_sender_def)
  ultimately show "mailbox_inv t k'" using w(4,5) assms(4-6) by (simp add: mailbox_inv_def)
  show "pending t k = msgs k (wait_addr s k) # pending t k'"
    using wa assms(2,4,7,8) by (simp add: pending_def)
qed

lemma receive_from_sender:
  assumes "rq_inv k" "active_ready t k" "mailbox_inv t k" "queued t k = []" "msg_waiters (tcb k t) = s # ws"
    "\<forall>x\<in>set (msg_waiters (tcb k t)). wait_addr x k \<noteq> m"
  shows "\<exists>k'. msg_receive_gen m b k = Some (Return 1, k') \<and> rq_inv k' \<and> mailbox_inv t k' \<and>
    mailbox t k = msgs k' m # mailbox t k'"
proof -
  note w = mailbox_inv_waiter [OF assms(3,5)]
  have wf: "queue_wf (tcb k t)" using assms(3) by (simp add: mailbox_inv_def)
  have act: "sched_active_thread k = Some t" using assms(2) by (simp add: active_ready_def)
  have get: "take_queued (tcb k t) = (- 1, msg_queue (tcb k t))"
    using queued_empty_get [OF wf] assms(4) by (simp add: queued_def)
  define k1 where "k1 = upd_tcb t (\<lambda>th. th\<lparr>msg_waiters := ws\<rparr>) (upd_tcb t (\<lambda>th. th\<lparr>wait_data := WMsg m\<rparr>)
    (upd_tcb t (\<lambda>th. th\<lparr>msg_queue := msg_queue (tcb k t)\<rparr>) (k\<lparr>irq_enabled := False\<rparr>)))"
  have sm: "sender_msg s k1 = Some (msgs k (wait_addr s k))"
    using w(1,2) by (simp add: sender_msg_def k1_def blocked_sender_def)
  let ?k2 = "k1\<lparr>msgs := (msgs k)(m := msgs k (wait_addr s k))\<rparr>"
  have m1: "msgs k1 = msgs k" by (simp add: k1_def)
  have "rq_inv ?k2" using assms(1) by (rule rq_inv_cong) (simp_all add: k1_def)
  moreover have "blocked_sender s ?k2" using w(1,2) by (simp add: blocked_sender_def k1_def wait_addr_def)
  moreover have "sched_active_thread ?k2 = Some t" using act by (simp add: k1_def)
  ultimately obtain k' where k': "do { (sender_prio, k2) \<leftarrow> wake_sender s ?k2;
        k3 \<leftarrow> (if sender_prio < THREAD_PRIORITY_IDLE then sched_switch sender_prio (irq_restore (irq_enabled k) k2)
             else Some (irq_restore (irq_enabled k) k2));
        Some (Return (1 :: int), k3) } = Some (Return 1, k')" "rq_inv k'" "msgs k' = msgs ?k2"
    "\<forall>x. x \<noteq> s \<longrightarrow> tcb k' x = tcb ?k2 x"
    using finish_receive [of ?k2 s t "irq_enabled k"] by blast
  have run: "msg_receive_gen m b k = Some (Return 1, k')"
    using k'(1) act assms(5) sm m1
    by (simp add: msg_receive_gen_def get irq_disable_def thread_get_active_def list_remove_head_def Let_def k1_def [symmetric])
  have t': "tcb k' t = (tcb k t)\<lparr>msg_waiters := ws, wait_data := WMsg m\<rparr>" using k'(4) w(2) by (simp add: k1_def)
  have ma: "mailbox_inv t k'" "pending t k = msgs k (wait_addr s k) # pending t k'"
    using mailbox_after [OF assms(3,5), of k' m] k'(3,4) w(2,8) t' wf assms(5,6) by (auto simp: k1_def)
  have "queued t k' = []" using assms(4) t' by (simp add: queued_def split: option.splits)
  then have "mailbox t k = msgs k' m # mailbox t k'" using ma(2) assms(4) k'(3) by (simp add: mailbox_def)
  with run k'(2) ma(1) show ?thesis by blast
qed

lemma receive_queued_only:
  assumes "rq_inv k" "active_ready t k" "mailbox_inv t k" "queued t k = v # vs" "msg_waiters (tcb k t) = []"
  shows "\<exists>k'. msg_receive_gen m b k = Some (Return 1, k') \<and> rq_inv k' \<and> mailbox_inv t k' \<and>
    mailbox t k = msgs k' m # mailbox t k'"
proof -
  obtain i c where gc: "cib_get (msg_queue (tcb k t)) = (i, c)" by fastforce
  have wf: "queue_wf (tcb k t)" using assms(3) by (simp add: mailbox_inv_def)
  have act: "sched_active_thread k = Some t" using assms(2) by (simp add: active_ready_def)
  obtain arr where arr: "msg_array (tcb k t) = Some arr" "cib_contents (msg_queue (tcb k t)) arr = v # vs"
    using assms(4) by (auto simp: queued_def split: option.splits)
  note g = queue_wf_get [OF wf arr, unfolded gc fst_conv snd_conv]
  have take: "take_queued (tcb k t) = (i, c)" using arr gc by (simp add: take_queued_def thread_has_msg_queue_def)
  define k1 where "k1 = (upd_tcb t (\<lambda>th. th\<lparr>msg_queue := c\<rparr>) (k\<lparr>irq_enabled := False\<rparr>))\<lparr>msgs := (msgs k)(m := v)\<rparr>"
  let ?k' = "irq_restore (irq_enabled k) (upd_tcb t (\<lambda>th. th\<lparr>msg_waiters := []\<rparr>) k1)"
  have run: "msg_receive_gen m b k = Some (Return 1, ?k')"
    using act assms(5) g arr(1) take
    by (simp add: msg_receive_gen_def irq_disable_def thread_get_active_def list_remove_head_def array_get_def Let_def k1_def)
  have "rq_inv ?k'" using assms(1) by (rule rq_inv_cong) (simp_all add: k1_def)
  moreover have "mailbox_inv t ?k'" using g arr(1) wf by (simp add: mailbox_inv_def k1_def queue_wf_def)
  moreover have "mailbox t k = msgs ?k' m # mailbox t ?k'"
    using g arr assms(4,5) by (simp add: mailbox_def k1_def pending_def queued_def)
  ultimately show ?thesis using run by blast
qed

lemma receive_queued_and_refill:
  assumes "rq_inv k" "active_ready t k" "mailbox_inv t k" "queued t k = v # vs" "msg_waiters (tcb k t) = s # ws"
    "\<forall>x\<in>set (msg_waiters (tcb k t)). wait_addr x k \<noteq> m"
  shows "\<exists>k'. msg_receive_gen m b k = Some (Return 1, k') \<and> rq_inv k' \<and> mailbox_inv t k' \<and>
    mailbox t k = msgs k' m # mailbox t k'"
proof -
  obtain i c where gc: "cib_get (msg_queue (tcb k t)) = (i, c)" by fastforce
  obtain j c2 where pc: "cib_put c = (j, c2)" by fastforce
  note w = mailbox_inv_waiter [OF assms(3,5)]
  have wf: "queue_wf (tcb k t)" using assms(3) by (simp add: mailbox_inv_def)
  have act: "sched_active_thread k = Some t" using assms(2) by (simp add: active_ready_def)
  obtain arr where arr: "msg_array (tcb k t) = Some arr" "cib_contents (msg_queue (tcb k t)) arr = v # vs"
    using assms(4) by (auto simp: queued_def split: option.splits)
  note g = queue_wf_get [OF wf arr, unfolded gc fst_conv snd_conv]
  have take: "take_queued (tcb k t) = (i, c)" using arr gc by (simp add: take_queued_def thread_has_msg_queue_def)
  let ?th = "(tcb k t)\<lparr>msg_queue := c\<rparr>"
  have wf1: "queue_wf ?th" using wf g arr by (simp add: queue_wf_def)
  let ?u = "msgs k (wait_addr s k)"
  have p: "0 \<le> j" "nat (j) < length arr" "cib_inv c2" "cib_cap c2 = cib_cap (msg_queue (tcb k t))"
    "cib_contents c2 (arr[nat (j) := ?u]) = vs @ [?u]"
    using queue_wf_put [OF wf1] g arr pc by auto
  have full: "cib_full c2"
  proof -
    have inv: "cib_inv (msg_queue (tcb k t))" using wf by (simp add: queue_wf_def)
    have "unat (cib_avail (msg_queue (tcb k t))) = cib_cap (msg_queue (tcb k t))"
      using w(8) cib_full_iff(1) [OF inv] by simp
    then have "length (v # vs) = cib_cap (msg_queue (tcb k t))"
      using cib.length_contents [of "msg_queue (tcb k t)" arr] arr(2) by simp
    then have "unat (cib_avail c2) = cib_cap c2"
      using p(4,5) cib.length_contents [of "c2" "arr[nat (j) := ?u]"] by simp
    then show ?thesis using cib_full_iff(1) [OF p(3)] by simp
  qed
  define k1 where "k1 = upd_tcb t (\<lambda>th. th\<lparr>msg_waiters := ws\<rparr>) ((upd_tcb t (\<lambda>th. th\<lparr>msg_queue := c\<rparr>)
    (k\<lparr>irq_enabled := False\<rparr>))\<lparr>msgs := (msgs k)(m := v)\<rparr>)"
  have sm: "sender_msg s k1 = Some ?u" using w(1,2) assms(5,6) by (simp add: sender_msg_def k1_def blocked_sender_def)
  define k2 where "k2 = upd_tcb t (\<lambda>th. th\<lparr>msg_array := Some (arr[nat (j) := ?u])\<rparr>)
    (upd_tcb t (\<lambda>th. th\<lparr>msg_queue := c2\<rparr>) k1)"
  have set: "array_set t (j) ?u (upd_tcb t (\<lambda>th. th\<lparr>msg_queue := c2\<rparr>) k1) = Some k2"
    using p(1,2) arr(1) by (simp add: array_set_def k1_def k2_def)
  have "rq_inv k2" using assms(1) by (rule rq_inv_cong) (simp_all add: k1_def k2_def)
  moreover have "blocked_sender s k2" using w(1,2) by (simp add: blocked_sender_def k1_def k2_def wait_addr_def)
  moreover have "sched_active_thread k2 = Some t" using act by (simp add: k1_def k2_def)
  ultimately obtain k' where k': "do { (sender_prio, k2) \<leftarrow> wake_sender s k2;
        k3 \<leftarrow> (if sender_prio < THREAD_PRIORITY_IDLE then sched_switch sender_prio (irq_restore (irq_enabled k) k2)
             else Some (irq_restore (irq_enabled k) k2));
        Some (Return (1 :: int), k3) } = Some (Return 1, k')" "rq_inv k'" "msgs k' = msgs k2"
    "\<forall>x. x \<noteq> s \<longrightarrow> tcb k' x = tcb k2 x"
    using finish_receive [of k2 s t "irq_enabled k"] by blast
  have q1: "msg_queue (tcb k1 t) = c" by (simp add: k1_def)
  have run: "msg_receive_gen m b k = Some (Return 1, k')"
    using k'(1) act assms(5) sm take g arr(1) set q1 pc
    by (simp add: msg_receive_gen_def irq_disable_def thread_get_active_def list_remove_head_def array_get_def
        Let_def k1_def [symmetric])
  have t': "tcb k' t = (tcb k t)\<lparr>msg_waiters := ws, msg_queue := c2, msg_array := Some (arr[nat (j) := ?u])\<rparr>"
    using k'(4) w(2) by (simp add: k1_def k2_def)
  have wf': "queue_wf (tcb k' t)" using p(2-4) wf arr(1) by (simp add: t' queue_wf_def)
  have m2: "msgs k' = (msgs k)(m := v)" using k'(3) by (simp add: k1_def k2_def)
  have ma: "mailbox_inv t k'" "pending t k = ?u # pending t k'"
    using mailbox_after [OF assms(3,5) _ _ wf', of m] k'(4) full m2 t' assms(5,6) by (auto simp: k1_def k2_def)
  have "queued t k' = vs @ [?u]" using p(5) by (simp add: queued_def t')
  then have "mailbox t k = msgs k' m # mailbox t k'" using ma(2) assms(4) m2 by (simp add: mailbox_def)
  with run k'(2) ma(1) show ?thesis by blast
qed

lemma receive_nothing:
  assumes "rq_inv k" "active_ready t k" "mailbox_inv t k" "mailbox t k = []"
  shows "msg_receive_gen m False k = Some (Return (- 1), k)"
    and "\<exists>k'. msg_receive_gen m True k = Some (Blocks, k') \<and> rq_inv k' \<and> mailbox_inv t k' \<and> mailbox t k' = [] \<and>
      status (tcb k' t) = STATUS_RECEIVE_BLOCKED \<and> wait_data (tcb k' t) = WMsg m \<and> pendsv k'"
proof -
  have q: "queued t k = []" "msg_waiters (tcb k t) = []" using assms(4) by (simp_all add: mailbox_def pending_def)
  have wf: "queue_wf (tcb k t)" using assms(3) by (simp add: mailbox_inv_def)
  have act: "sched_active_thread k = Some t" using assms(2) by (simp add: active_ready_def)
  have take: "take_queued (tcb k t) = (- 1, msg_queue (tcb k t))"
    using queued_empty_get [OF wf] q(1) by (simp add: queued_def)
  show "msg_receive_gen m False k = Some (Return (- 1), k)"
    using act take q(2)
    by (simp add: msg_receive_gen_def irq_disable_def thread_get_active_def irq_restore_def upd_tcb_def Let_def)
  define k1 where "k1 = upd_tcb t (\<lambda>th. th\<lparr>msg_waiters := []\<rparr>) (upd_tcb t (\<lambda>th. th\<lparr>wait_data := WMsg m\<rparr>)
    (upd_tcb t (\<lambda>th. th\<lparr>msg_queue := msg_queue (tcb k t)\<rparr>) (k\<lparr>irq_enabled := False\<rparr>)))"
  have "rq_inv k1" using assms(1) by (rule rq_inv_cong) (simp_all add: k1_def)
  moreover have "active_ready t k1" using assms(2) by (simp add: active_ready_def k1_def)
  ultimately obtain k2 where k2: "sched_set_status t STATUS_RECEIVE_BLOCKED k1 = Some k2" "rq_inv k2"
    "tcb k2 = (tcb k1)(t := (tcb k1 t)\<lparr>status := STATUS_RECEIVE_BLOCKED\<rparr>)"
    using block_active [of k1 t STATUS_RECEIVE_BLOCKED] by (auto simp: on_runqueue_iff)
  let ?k' = "thread_yield_higher (irq_restore (irq_enabled k) k2)"
  have run: "msg_receive_gen m True k = Some (Blocks, ?k')"
    using act take q(2) k2(1)
    by (simp add: msg_receive_gen_def irq_disable_def thread_get_active_def list_remove_head_def Let_def k1_def)
  have "rq_inv ?k'" using k2(2) by (rule rq_inv_cong) simp_all
  moreover have "mailbox_inv t ?k'" using wf by (simp add: mailbox_inv_def k2(3) k1_def)
  moreover have "mailbox t ?k' = []"
    using q(1) by (simp add: mailbox_def pending_def queued_def k2(3) k1_def split: option.splits)
  ultimately show "\<exists>k'. msg_receive_gen m True k = Some (Blocks, k') \<and> rq_inv k' \<and> mailbox_inv t k' \<and> mailbox t k' = [] \<and>
      status (tcb k' t) = STATUS_RECEIVE_BLOCKED \<and> wait_data (tcb k' t) = WMsg m \<and> pendsv k'"
    using run by (simp add: k2(3) k1_def)
qed

lemma queue_msg_full:
  assumes "queue_wf (tcb k u)" "cib_full (msg_queue (tcb k u))"
  shows "queue_msg u m k = Some (0, k)"
  using assms cib.put_full [of "msg_queue (tcb k u)"] cib_full_iff(1) [of "msg_queue (tcb k u)"]
  by (simp add: queue_msg_def queue_wf_def)

lemma queue_msg_ok:
  assumes "rq_inv k" "flags_inv k" "priority (tcb k u) < SCHED_PRIO_LEVELS" "queue_wf (tcb k u)"
    "\<not> cib_full (msg_queue (tcb k u))"
  shows "\<exists>k'. queue_msg u m k = Some (1, k') \<and> rq_inv k' \<and> flags_inv k' \<and> queued u k' = queued u k @ [msgs k m] \<and>
    queue_wf (tcb k' u) \<and> msg_waiters (tcb k' u) = msg_waiters (tcb k u) \<and> (\<forall>x. x \<noteq> u \<longrightarrow> tcb k' x = tcb k x) \<and>
    msgs k' = msgs k \<and> sched_active_thread k' = sched_active_thread k"
proof -
  obtain j c where pc: "cib_put (msg_queue (tcb k u)) = (j, c)" by fastforce
  from queue_wf_put [OF assms(4,5)] pc obtain arr where
    p: "msg_array (tcb k u) = Some arr" "0 \<le> j" "nat j < length arr" "cib_inv c"
      "cib_cap c = cib_cap (msg_queue (tcb k u))"
      "\<forall>v. cib_contents c (arr[nat j := v]) = cib_contents (msg_queue (tcb k u)) arr @ [v]" by auto
  define k1 where "k1 = upd_tcb u (\<lambda>th. th\<lparr>flags := flags th OR THREAD_FLAG_MSG_WAITING\<rparr>)
    (upd_tcb u (\<lambda>th. th\<lparr>msg_queue := c, msg_array := Some (arr[nat j := msgs k m])\<rparr>) k)"
  have "rq_inv k1" using assms(1) by (rule rq_inv_cong) (simp_all add: k1_def)
  moreover have "\<not> satisfied (tcb k1 x)" if "x \<noteq> u" for x using assms(2) that by (simp add: flags_inv_iff k1_def)
  moreover have "priority (tcb k1 u) < SCHED_PRIO_LEVELS" using assms(3) by (simp add: k1_def)
  ultimately obtain w k2 where k2: "thread_flags_wake u k1 = Some (w, k2)" "rq_inv k2" "flags_inv k2"
    "tcb k2 = (tcb k1)(u := (if satisfied (tcb k1 u) then (tcb k1 u)\<lparr>status := STATUS_PENDING\<rparr> else tcb k1 u))"
    "msgs k2 = msgs k1" "sched_active_thread k2 = sched_active_thread k1"
    using thread_flags_wake_spec [of k1 u] by blast
  have run: "queue_msg u m k = Some (1, k2)" using p k2(1) pc by (simp add: queue_msg_def Let_def k1_def)
  have "queued u k2 = queued u k @ [msgs k m]" using p by (simp add: queued_def k2(4) k1_def)
  moreover have "queue_wf (tcb k2 u)" using assms(4) p by (simp add: queue_wf_def k2(4) k1_def)
  ultimately show ?thesis using run k2 by (simp add: k1_def)
qed

lemma mailbox_cong:
  assumes "mailbox_inv u k" "msg_waiters (tcb k' u) = msg_waiters (tcb k u)" "queue_wf (tcb k' u)"
    "cib_full (msg_queue (tcb k' u)) = cib_full (msg_queue (tcb k u)) \<or> msg_waiters (tcb k u) = []"
    "\<And>x. x \<in> set (msg_waiters (tcb k u)) \<Longrightarrow> tcb k' x = tcb k x"
    "\<And>x. x \<in> set (msg_waiters (tcb k u)) \<Longrightarrow> msgs k' (wait_addr x k) = msgs k (wait_addr x k)"
  shows "mailbox_inv u k'" "pending u k' = pending u k"
proof -
  let ?ws = "msg_waiters (tcb k u)"
  have wa: "wait_addr x k' = wait_addr x k" if "x \<in> set ?ws" for x using assms(5) [OF that] by (simp add: wait_addr_def)
  have eq: "map (\<lambda>s. priority (tcb k' s)) ?ws = map (\<lambda>s. priority (tcb k s)) ?ws" using assms(5) by simp
  have "sorted (map (\<lambda>s. priority (tcb k' s)) ?ws)" unfolding eq using assms(1) by (simp add: mailbox_inv_def)
  moreover have "blocked_sender x k'" if "x \<in> set ?ws" for x
    using assms(1) assms(5) [OF that] wa [OF that] that by (simp add: mailbox_inv_def blocked_sender_def)
  ultimately show "mailbox_inv u k'" using assms(1-4) by (auto simp: mailbox_inv_def)
  show "pending u k' = pending u k" using assms(2,6) wa by (simp add: pending_def)
qed

text \<open>
  The situation of a sender: \<open>t\<close> runs, \<open>u\<close> is the registered thread it sends to, and the
  message buffer is not one that a blocked sender waits with.
\<close>

definition send_ready :: "tid \<Rightarrow> tid \<Rightarrow> int \<Rightarrow> maddr \<Rightarrow> kernel \<Rightarrow> bool" where
  "send_ready t u p m k \<longleftrightarrow> rq_inv k \<and> flags_inv k \<and> active_ready t k \<and> thread_get_unchecked p k = Some (Some u) \<and>
     u \<noteq> t \<and> priority (tcb k u) < SCHED_PRIO_LEVELS \<and> mailbox_inv u k \<and>
     (\<forall>x\<in>set (msg_waiters (tcb k u)). wait_addr x k \<noteq> m)"

text \<open>The message as it is delivered, with the sender filled in.\<close>

definition stamped :: "maddr \<Rightarrow> kernel \<Rightarrow> msg" where
  "stamped m k = (msgs k m)\<lparr>sender_pid := sched_active_pid k\<rparr>"

lemma set_sender_sel [simp]:
  "tcb (set_sender m p k) = tcb k" "sched_runqueues (set_sender m p k) = sched_runqueues k"
  "runqueue_bitcache (set_sender m p k) = runqueue_bitcache k" "sched_active_thread (set_sender m p k) = sched_active_thread k"
  "msgs (set_sender m p k) = (msgs k)(m := (msgs k m)\<lparr>sender_pid := p\<rparr>)" "irq_in (set_sender m p k) = irq_in k"
  "sched_threads (set_sender m p k) = sched_threads k" "irq_enabled (set_sender m p k) = irq_enabled k"
  by (simp_all add: set_sender_def)

lemma sender_not_waiting: "send_ready t u p m k \<Longrightarrow> t \<notin> set (msg_waiters (tcb k u))"
  by (auto simp: send_ready_def mailbox_inv_def blocked_sender_def active_ready_def on_runqueue_iff)

lemma send_ready_stamped:
  assumes "send_ready t u p m k"
  shows "send_ready t u p m (set_sender m q k)" "pending u (set_sender m q k) = pending u k"
    "queued u (set_sender m q k) = queued u k"
proof -
  have m: "mailbox_inv u (set_sender m q k)" "pending u (set_sender m q k) = pending u k"
    using mailbox_cong [of u k "set_sender m q k"] assms by (auto simp: send_ready_def mailbox_inv_def)
  then show "pending u (set_sender m q k) = pending u k" by simp
  have "rq_inv (set_sender m q k)" using assms by (auto simp: send_ready_def intro: rq_inv_cong)
  with m assms show "send_ready t u p m (set_sender m q k)"
    by (auto simp: send_ready_def flags_inv_def active_ready_def thread_get_unchecked_def wait_addr_def split: if_splits)
  show "queued u (set_sender m q k) = queued u k" by simp
qed

lemma send_direct:
  assumes "send_ready t u p m k" "status (tcb k u) = STATUS_RECEIVE_BLOCKED" "wait_data (tcb k u) = WMsg a"
  shows "\<exists>k'. msg_send_gen m p b ie k = Some (Return 1, k') \<and> rq_inv k' \<and> flags_inv k' \<and> mailbox_inv u k' \<and> queued u k' = queued u k \<and>
    msgs k' a = stamped m k \<and> status (tcb k' u) = STATUS_PENDING \<and> pendsv k' \<and> irq_enabled k' = ie"
proof -
  let ?k0 = "set_sender m (sched_active_pid k) k"
  let ?k1 = "?k0\<lparr>msgs := (msgs ?k0)(a := msgs ?k0 m)\<rparr>"
  note d = assms(1) [unfolded send_ready_def]
  have "rq_inv ?k1" using conjunct1 [OF d] by (rule rq_inv_cong) simp_all
  from wake_waiter [OF this, of u] d assms(2) obtain k2 where
    k2: "sched_set_status u STATUS_PENDING ?k1 = Some k2" "rq_inv k2" "msgs k2 = msgs ?k1"
      "tcb k2 = (tcb k)(u := (tcb k u)\<lparr>status := STATUS_PENDING\<rparr>)"
    by (auto simp: on_runqueue_iff)
  let ?k3 = "thread_yield_higher (irq_restore ie k2)"
  have me: "status (tcb k t) \<noteq> STATUS_REPLY_BLOCKED" using d by (auto simp: active_ready_def on_runqueue_iff)
  have "msg_send_gen m p b ie k = Some (Return 1, ?k3)"
    using d assms(2,3) k2(1) me
    by (simp add: msg_send_gen_def thread_getpid_def thread_get_active_def active_ready_def deliver_def k2(4) Let_def)
  moreover have "rq_inv ?k3" using k2(2) by (rule rq_inv_cong) simp_all
  moreover have t3: "tcb ?k3 = (tcb k)(u := (tcb k u)\<lparr>status := STATUS_PENDING\<rparr>)" by (simp add: k2(4))
  moreover have "flags_inv ?k3" using d unfolding t3 flags_inv_def by simp
  moreover have "mailbox_inv u ?k3"
  proof -
    have "map (\<lambda>s. priority (tcb ?k3 s)) (msg_waiters (tcb k u)) = map (\<lambda>s. priority (tcb k s)) (msg_waiters (tcb k u))" unfolding t3 by simp
    then have "sorted (map (\<lambda>s. priority (tcb ?k3 s)) (msg_waiters (tcb k u)))" using d by (simp only: mailbox_inv_def)
    moreover have u: "queue_wf (tcb ?k3 u)" "msg_waiters (tcb ?k3 u) = msg_waiters (tcb k u)" "msg_queue (tcb ?k3 u) = msg_queue (tcb k u)"
      using d unfolding t3 mailbox_inv_def queue_wf_def by (simp_all split: option.splits)
    moreover have "blocked_sender x ?k3" if "x \<in> set (msg_waiters (tcb k u))" for x
      using d that unfolding t3 mailbox_inv_def blocked_sender_def wait_addr_def by auto
    ultimately show ?thesis using d unfolding mailbox_inv_def u by blast
  qed
  moreover have "queued u ?k3 = queued u k" unfolding queued_def t3 by (simp split: option.splits)
  ultimately show ?thesis using k2(3) by (intro exI [of _ ?k3]) (simp add: stamped_def)
qed

lemma send_queued:
  assumes "send_ready t u p m k" "status (tcb k u) \<noteq> STATUS_RECEIVE_BLOCKED" "\<not> cib_full (msg_queue (tcb k u))"
  shows "\<exists>k'. msg_send_gen m p b ie k = Some (Return 1, k') \<and> rq_inv k' \<and> flags_inv k' \<and> mailbox_inv u k' \<and>
    mailbox u k' = mailbox u k @ [stamped m k] \<and> irq_enabled k' = ie"
proof -
  let ?k0 = "set_sender m (sched_active_pid k) k"
  note d = send_ready_stamped [OF assms(1), of "sched_active_pid k"]
  note d0 = d(1) [unfolded send_ready_def]
  have wf: "queue_wf (tcb ?k0 u)" "msg_waiters (tcb k u) = []" using d0 assms(3) by (auto simp: mailbox_inv_def)
  from queue_msg_ok [of ?k0 u m] d0 wf(1) assms(3) obtain k1 where
    k1: "queue_msg u m ?k0 = Some (1, k1)" "rq_inv k1" "flags_inv k1" "queued u k1 = queued u ?k0 @ [stamped m k]"
      "queue_wf (tcb k1 u)" "msg_waiters (tcb k1 u) = []" "\<forall>x. x \<noteq> u \<longrightarrow> tcb k1 x = tcb k x"
    using wf(2) by (auto simp: stamped_def)
  let ?k2 = "irq_restore ie k1"
  have me: "status (tcb k1 t) \<noteq> STATUS_REPLY_BLOCKED" using d0 k1(7) by (auto simp: active_ready_def on_runqueue_iff)
  have run: "msg_send_gen m p b ie k = Some (Return 1, ?k2)"
    using assms(1,2) k1(1) me
    by (simp add: msg_send_gen_def thread_getpid_def thread_get_active_def active_ready_def send_ready_def Let_def)
  have "rq_inv ?k2" using k1(2) by (rule rq_inv_cong) simp_all
  moreover have "flags_inv ?k2" using k1(3) by (simp add: flags_inv_def)
  moreover have "mailbox_inv u ?k2" using k1(5,6) by (simp add: mailbox_inv_def)
  moreover have "mailbox u ?k2 = mailbox u k @ [stamped m k]"
    using k1(4,6) d(3) wf(2) by (simp add: mailbox_def pending_def)
  ultimately show ?thesis using run by auto
qed

lemma send_refused:
  assumes "send_ready t u p m k" "status (tcb k u) \<noteq> STATUS_RECEIVE_BLOCKED" "cib_full (msg_queue (tcb k u))"
  shows "\<exists>k'. msg_send_gen m p False ie k = Some (Return 0, k') \<and> rq_inv k' \<and> flags_inv k' \<and> mailbox_inv u k' \<and> mailbox u k' = mailbox u k \<and> tcb k' = tcb k"
proof -
  note d = send_ready_stamped(1) [OF assms(1), of "sched_active_pid k", unfolded send_ready_def]
  have "queue_msg u m (set_sender m (sched_active_pid k) k) = Some (0, set_sender m (sched_active_pid k) k)"
    using queue_msg_full [of "set_sender m (sched_active_pid k) k" u m] d assms(3) by (simp add: mailbox_inv_def)
  then have "msg_send_gen m p False ie k = Some (Return 0, irq_restore ie (set_sender m (sched_active_pid k) k))"
    using assms(1,2)
    by (simp add: msg_send_gen_def thread_getpid_def thread_get_active_def active_ready_def send_ready_def Let_def)
  moreover have "rq_inv (irq_restore ie (set_sender m (sched_active_pid k) k))" using conjunct1 [OF d] by (rule rq_inv_cong) simp_all
  moreover have "mailbox_inv u (irq_restore ie (set_sender m (sched_active_pid k) k))"
    using d by (simp add: mailbox_inv_def blocked_sender_def wait_addr_def)
  moreover have "mailbox u (irq_restore ie (set_sender m (sched_active_pid k) k)) = mailbox u k"
    using send_ready_stamped(2,3) [OF assms(1), of "sched_active_pid k"] by (simp add: mailbox_def pending_def wait_addr_def)
  moreover have "flags_inv (irq_restore ie (set_sender m (sched_active_pid k) k))" using d by (simp add: flags_inv_def)
  ultimately show ?thesis by (intro exI [of _ "irq_restore ie (set_sender m (sched_active_pid k) k)"]) simp
qed

lemma send_blocks:
  assumes "send_ready t u p m k" "status (tcb k u) \<noteq> STATUS_RECEIVE_BLOCKED" "cib_full (msg_queue (tcb k u))"
    "ws = insert_by_prio (\<lambda>x. priority (tcb k x)) t (msg_waiters (tcb k u))"
  shows "\<exists>k'. msg_send_gen m p True ie k = Some (Blocks, k') \<and> rq_inv k' \<and> flags_inv k' \<and> mailbox_inv u k' \<and>
    queued u k' = queued u k \<and> msg_waiters (tcb k' u) = ws \<and> msgs k' (wait_addr t k') = stamped m k \<and>
    status (tcb k' t) = STATUS_SEND_BLOCKED \<and> pendsv k' \<and> irq_enabled k' = ie"
proof -
  let ?k0 = "set_sender m (sched_active_pid k) k"
  note d0 = send_ready_stamped(1) [OF assms(1), of "sched_active_pid k", unfolded send_ready_def]
  have wf: "queue_wf (tcb k u)" using d0 by (simp add: mailbox_inv_def)
  have q0: "queue_msg u m ?k0 = Some (0, ?k0)" using queue_msg_full [of ?k0 u m] wf assms(3) by simp
  have nt: "t \<notin> set (msg_waiters (tcb k u))" "u \<noteq> t" using sender_not_waiting [OF assms(1)] assms(1) by (auto simp: send_ready_def)
  let ?k1 = "upd_tcb t (\<lambda>th. th\<lparr>wait_data := WMsg m\<rparr>) ?k0"
  have "rq_inv ?k1" using conjunct1 [OF d0] by (rule rq_inv_cong) simp_all
  moreover have "active_ready t ?k1" using d0 by (simp add: active_ready_def)
  ultimately obtain k2 where k2: "sched_set_status t STATUS_SEND_BLOCKED ?k1 = Some k2" "rq_inv k2" "msgs k2 = msgs ?k0"
    "tcb k2 = (tcb k)(t := (tcb k t)\<lparr>wait_data := WMsg m, status := STATUS_SEND_BLOCKED\<rparr>)"
    using block_active [of ?k1 t STATUS_SEND_BLOCKED] by (auto simp: on_runqueue_iff)
  have pr: "priority (tcb k2 x) = priority (tcb k x)" for x by (simp add: k2(4))
  have add: "thread_add_to_list (msg_waiters (tcb k u)) t k2 = Some ws"
    using assms(4) by (simp add: thread_add_to_list_def pr) (simp add: k2(4) less_thread_status_def STATUS_ON_RUNQUEUE_def)
  define k3 where "k3 = upd_tcb u (\<lambda>th. th\<lparr>flags := flags th OR THREAD_FLAG_MSG_WAITING\<rparr>)
    (upd_tcb u (\<lambda>th. th\<lparr>msg_waiters := ws\<rparr>) k2)"
  have "rq_inv k3" using k2(2) by (rule rq_inv_cong) (simp_all add: k3_def)
  moreover have "\<not> satisfied (tcb k3 x)" if "x \<noteq> u" for x
    using d0 that by (auto simp: flags_inv_iff k3_def k2(4)) (simp add: satisfied_def)
  moreover have "priority (tcb k3 u) < SCHED_PRIO_LEVELS" using d0 by (simp add: k3_def pr)
  ultimately obtain w k4 where k4: "thread_flags_wake u k3 = Some (w, k4)" "rq_inv k4" "flags_inv k4"
    "tcb k4 = (tcb k3)(u := (if satisfied (tcb k3 u) then (tcb k3 u)\<lparr>status := STATUS_PENDING\<rparr> else tcb k3 u))"
    "msgs k4 = msgs k3"
    using thread_flags_wake_spec [of k3 u] by blast
  let ?k' = "thread_yield_higher (irq_restore ie k4)"
  have me: "status (tcb k t) \<noteq> STATUS_REPLY_BLOCKED" using d0 by (auto simp: active_ready_def on_runqueue_iff)
  have w2: "msg_waiters (tcb k2 u) = msg_waiters (tcb k u)" using nt(2) by (simp add: k2(4))
  have run: "msg_send_gen m p True ie k = Some (Blocks, ?k')"
    using assms(1,2) q0 me k2(1) add k4(1) w2
    by (simp add: msg_send_gen_def thread_getpid_def thread_get_active_def active_ready_def send_ready_def Let_def k3_def)
  have tu: "msg_queue (tcb ?k' u) = msg_queue (tcb k u)" "msg_array (tcb ?k' u) = msg_array (tcb k u)"
    "msg_waiters (tcb ?k' u) = ws" "queue_wf (tcb ?k' u)"
    using nt(2) wf by (simp_all add: k4(4) k3_def k2(4))
  have th: "tcb ?k' x = tcb k2 x" if "x \<noteq> u" for x using that by (simp add: k4(4) k3_def)
  have "mailbox_inv u ?k'"
  proof -
    let ?ws = "msg_waiters (tcb k u)"
    have inv: "distinct ?ws" "u \<notin> set ?ws" "sorted (map (\<lambda>s. priority (tcb k s)) ?ws)"
      "\<forall>x\<in>set ?ws. blocked_sender x k" using assms(1) by (auto simp: send_ready_def mailbox_inv_def)
    have ws: "set ws = insert t (set ?ws)" "distinct ws" "sorted (map (\<lambda>s. priority (tcb k s)) ws)"
      using inv nt(1) by (simp_all add: assms(4) distinct_insert_by_prio insert_by_prio_sorted)
    have other: "tcb ?k' x = tcb k x" if "x \<in> set ?ws" for x
    proof -
      have "x \<noteq> u" "x \<noteq> t" using that inv(2) nt(1) by auto
      then show ?thesis using th [of x] by (simp add: k2(4))
    qed
    have t: "tcb ?k' t = (tcb k t)\<lparr>wait_data := WMsg m, status := STATUS_SEND_BLOCKED\<rparr>"
      using th [of t] nt(2) by (simp add: k2(4))
    have "priority (tcb ?k' x) = priority (tcb k x)" if "x \<in> set ws" for x
      using that ws(1) other t by auto
    then have "map (\<lambda>s. priority (tcb ?k' s)) ws = map (\<lambda>s. priority (tcb k s)) ws" by simp
    then have "sorted (map (\<lambda>s. priority (tcb ?k' s)) ws)" using ws(3) by metis
    moreover have "blocked_sender x ?k'" if "x \<in> set ws" for x
    proof (cases "x = t")
      case True
      then show ?thesis using assms(1) t by (simp add: blocked_sender_def wait_addr_def send_ready_def active_ready_def)
    next
      case False
      then have x: "x \<in> set ?ws" using that ws(1) by simp
      then show ?thesis using inv(4) other [OF x] by (simp add: blocked_sender_def wait_addr_def)
    qed
    ultimately show ?thesis using tu ws inv(2) nt(2) assms(3) unfolding mailbox_inv_def by simp
  qed
  moreover have "rq_inv ?k'" using k4(2) by (rule rq_inv_cong) simp_all
  moreover have "flags_inv ?k'" using k4(3) by (simp add: flags_inv_def)
  moreover have "queued u ?k' = queued u k" using tu by (simp add: queued_def split: option.split)
  moreover have "wait_addr t ?k' = m" using th nt(2) by (simp add: wait_addr_def k2(4))
  then have "msgs ?k' (wait_addr t ?k') = stamped m k" using k2(3) k4(5) by (simp add: k3_def stamped_def)
  moreover have "status (tcb ?k' t) = STATUS_SEND_BLOCKED" using th nt(2) by (simp add: k2(4))
  ultimately show ?thesis using run tu(3) by auto
qed

lemma msg_reply_delivers:
  assumes "rq_inv k" "sender_pid (msgs k a) = c" "thread_get_unchecked c k = Some (Some t)"
    "status (tcb k t) = STATUS_REPLY_BLOCKED" "wait_data (tcb k t) = WMsg reply"
    "priority (tcb k t) < SCHED_PRIO_LEVELS" "sched_active_thread k = Some u"
  shows "\<exists>k'. msg_reply a r k = Some (1, k') \<and> rq_inv k' \<and> msgs k' reply = msgs k r \<and>
    status (tcb k' t) = STATUS_PENDING"
proof -
  let ?k1 = "k\<lparr>irq_enabled := False, msgs := (msgs k)(reply := msgs k r)\<rparr>"
  have "rq_inv ?k1" using assms(1) by (rule rq_inv_cong) simp_all
  from wake_waiter [OF this, of t] assms(4,6,7) obtain k2 where
    k2: "sched_set_status t STATUS_PENDING ?k1 = Some k2" "rq_inv k2" "msgs k2 = (msgs k)(reply := msgs k r)"
      "tcb k2 = (tcb k)(t := (tcb k t)\<lparr>status := STATUS_PENDING\<rparr>)" "sched_active_thread k2 = Some u"
    by (auto simp: on_runqueue_iff)
  have "sched_active_thread (irq_restore (irq_enabled k) k2) = Some u" using k2(5) by simp
  from switch_if [OF this, of True "priority (tcb k2 t)"] obtain k3 where
    k3: "sched_switch (priority (tcb k2 t)) (irq_restore (irq_enabled k) k2) = Some k3"
      "sched_runqueues k3 = sched_runqueues k2" "runqueue_bitcache k3 = runqueue_bitcache k2" "tcb k3 = tcb k2"
      "msgs k3 = msgs k2" by auto
  have "msg_reply a r k = Some (1, k3)"
    using assms(2-5) k2(1) k3(1)
    by (simp add: msg_reply_def irq_disable_def deliver_def thread_get_unchecked_def Let_def split: if_splits)
  moreover have "rq_inv k3" by (rule rq_inv_cong [OF k2(2)]) (simp_all add: k3)
  ultimately show ?thesis using k3 k2 by simp
qed

lemma msg_reply_refused:
  assumes "thread_get_unchecked (sender_pid (msgs k a)) k = Some (Some t)" "status (tcb k t) \<noteq> STATUS_REPLY_BLOCKED"
  shows "msg_reply a r k = Some (- 1, k)"
  using assms by (simp add: msg_reply_def irq_disable_def thread_get_unchecked_def Let_def split: if_splits)

lemma send_receive_direct:
  assumes "rq_inv k" and "active_ready t k" and "sched_active_pid k = c"
    and "thread_get_unchecked p k = Some (Some u)" and "c \<noteq> p" and "u \<noteq> t"
    and "status (tcb k u) = STATUS_RECEIVE_BLOCKED" and "wait_data (tcb k u) = WMsg a"
    and "priority (tcb k u) < SCHED_PRIO_LEVELS"
  shows "\<exists>k'. msg_send_receive m reply p k = Some (Blocks, k') \<and> rq_inv k' \<and>
    msgs k' a = (msgs k m)\<lparr>sender_pid := c\<rparr> \<and> status (tcb k' u) = STATUS_PENDING \<and>
    tcb k' t = (tcb k t)\<lparr>wait_data := WMsg reply, status := STATUS_REPLY_BLOCKED\<rparr>"
proof -
  have act: "sched_active_thread k = Some t"
    using assms(2) by (simp add: active_ready_def)
  let ?k0 = "k\<lparr>irq_enabled := False\<rparr>"
  have rq0: "rq_inv ?k0" using assms(1) by (rule rq_inv_cong) simp_all
  have act0: "active_ready t ?k0" using assms(2) by (simp add: active_ready_def)
  obtain k1 where k1: "sched_set_status t STATUS_REPLY_BLOCKED ?k0 = Some k1" "rq_inv k1" "msgs k1 = msgs k"
    "tcb k1 = (tcb k)(t := (tcb k t)\<lparr>status := STATUS_REPLY_BLOCKED\<rparr>)"
    "sched_active_thread k1 = Some t" "sched_active_pid k1 = c" "sched_threads k1 = sched_threads k"
    using block_active [OF rq0 act0, of STATUS_REPLY_BLOCKED] assms(3) by (auto simp: on_runqueue_iff)
  define k2 where "k2 = (upd_tcb t (\<lambda>th. th\<lparr>wait_data := WMsg reply\<rparr>) k1)\<lparr>msgs := (msgs k)(reply := msgs k m)\<rparr>"
  let ?v = "(msgs k m)\<lparr>sender_pid := c\<rparr>"
  define k3 where "k3 = (set_sender reply c k2)\<lparr>msgs := (msgs k)(reply := ?v, a := ?v)\<rparr>"
  have "rq_inv k3" using k1(2) by (rule rq_inv_cong) (simp_all add: k3_def k2_def)
  from wake_waiter [OF this, of u] assms(6,7,9) obtain k4 where
    k4: "sched_set_status u STATUS_PENDING k3 = Some k4" "rq_inv k4" "msgs k4 = (msgs k)(reply := ?v, a := ?v)"
      "tcb k4 = (tcb k3)(u := (tcb k3 u)\<lparr>status := STATUS_PENDING\<rparr>)"
    by (auto simp: k3_def k2_def k1(4) on_runqueue_iff)
  let ?k' = "thread_yield_higher (irq_restore (irq_enabled k) k4)"
  have u3: "status (tcb k2 u) = STATUS_RECEIVE_BLOCKED" "wait_data (tcb k2 u) = WMsg a"
    using assms(6-8) by (simp_all add: k2_def k1(4))
  have dl: "deliver u (msgs (set_sender reply c k2) reply) (set_sender reply c k2) = Some k3"
    using u3 by (simp add: deliver_def k3_def k2_def)
  have t4: "tcb k4 t = (tcb k t)\<lparr>wait_data := WMsg reply, status := STATUS_REPLY_BLOCKED\<rparr>"
    using assms(6) by (simp add: k4(4) k3_def k2_def k1(4))
  have get: "thread_get_unchecked p k2 = Some (Some u)"
    using assms(4) by (auto simp: thread_get_unchecked_def k2_def k1(7) split: if_splits)
  have gen: "msg_send_gen reply p True (irq_enabled k) k2 = Some (Blocks, ?k')"
    using get u3(1) dl k4(1) t4 k1(5,6)
    by (simp add: msg_send_gen_def thread_getpid_def thread_get_active_def Let_def) (simp add: k2_def)
  have run: "msg_send_receive m reply p k = Some (Blocks, ?k')"
    using assms(3,5) act k1(1,3) gen
    by (simp add: msg_send_receive_def thread_getpid_def thread_get_active_def irq_disable_def Let_def k2_def)
  have "rq_inv ?k'" using k4(2) by (rule rq_inv_cong) simp_all
  moreover have "status (tcb ?k' u) = STATUS_PENDING" by (simp add: k4(4))
  ultimately show ?thesis using run k4(3) t4 by (intro exI [of _ ?k']) simp
qed

section \<open>Properties\<close>

text \<open>
  (C5) Receiving takes the oldest message: if the mailbox of the calling thread
  (its queue, then the blocked senders in priority order) is not empty, the call returns 1
  with the first message in the buffer and exactly that message leaves the mailbox, a blocked
  sender's message moving into the freed place of the queue; with an empty mailbox the
  non-blocking call returns -1 without effect and the blocking call suspends the thread with
  the buffer recorded. The invariants of mailbox and run queues are kept.
\<close>
theorem msg_receive_takes_oldest:
  assumes "rq_inv k" and "active_ready t k" and "mailbox_inv t k"
    and "\<forall>x\<in>set (msg_waiters (tcb k t)). wait_addr x k \<noteq> m"
  shows "(mailbox t k \<noteq> [] \<longrightarrow>
      (\<exists>k'. msg_receive_gen m b k = Some (Return 1, k') \<and> rq_inv k' \<and> mailbox_inv t k' \<and>
         mailbox t k = msgs k' m # mailbox t k')) \<and>
    (mailbox t k = [] \<longrightarrow> msg_receive_gen m False k = Some (Return (- 1), k) \<and>
      (\<exists>k'. msg_receive_gen m True k = Some (Blocks, k') \<and> rq_inv k' \<and> mailbox_inv t k' \<and> mailbox t k' = [] \<and>
         status (tcb k' t) = STATUS_RECEIVE_BLOCKED \<and> wait_data (tcb k' t) = WMsg m \<and> pendsv k'))"
proof (intro conjI impI)
  assume ne: "mailbox t k \<noteq> []"
  show "\<exists>k'. msg_receive_gen m b k = Some (Return 1, k') \<and> rq_inv k' \<and> mailbox_inv t k' \<and>
      mailbox t k = msgs k' m # mailbox t k'"
  proof (cases "msg_waiters (tcb k t)")
    case Nil
    with ne obtain v vs where "queued t k = v # vs" by (cases "queued t k") (auto simp: mailbox_def pending_def)
    from receive_queued_only [OF assms(1-3) this Nil] show ?thesis .
  next
    case (Cons s ws)
    then show ?thesis
      using receive_from_sender [OF assms(1-3) _ Cons assms(4)] receive_queued_and_refill [OF assms(1-3) _ Cons assms(4)]
      by (cases "queued t k") auto
  qed
qed (use receive_nothing [OF assms(1-3)] in auto)

definition receiver_kernel :: kernel where
  "receiver_kernel = upd_tcb 7 (\<lambda>th. th\<lparr>msg_queue := \<lparr>read_count = 0, write_count = 1, cmask = 0\<rparr>,
     msg_array := Some [\<lparr>sender_pid = 2, mtype = 42, content = 99\<rparr>]\<rparr>) two_threads"

lemma receiver_kernel_facts:
  "rq_inv receiver_kernel" "active_ready 7 receiver_kernel" "mailbox_inv 7 receiver_kernel"
  "mailbox 7 receiver_kernel = [\<lparr>sender_pid = 2, mtype = 42, content = 99\<rparr>]" "msg_waiters (tcb receiver_kernel 7) = []"
proof -
  let ?c = "\<lparr>read_count = 0, write_count = 1, cmask = 0\<rparr> :: cib"
  have inv: "cib_inv ?c" "cib_cap ?c = 1"
    by (auto simp: cib_inv_def cib_avail_def cib_cap_def intro!: exI [of _ 0])
  show "rq_inv receiver_kernel" using two_threads_rq_inv by (rule rq_inv_cong) (simp_all add: receiver_kernel_def)
  show "active_ready 7 receiver_kernel" using two_threads_active by (simp add: active_ready_def receiver_kernel_def)
  show w: "msg_waiters (tcb receiver_kernel 7) = []" by (simp add: receiver_kernel_def two_threads_def blank_thread_def)
  have "queue_wf (tcb receiver_kernel 7)" using inv by (simp add: queue_wf_def receiver_kernel_def)
  then show "mailbox_inv 7 receiver_kernel" using w by (simp add: mailbox_inv_def)
  show "mailbox 7 receiver_kernel = [\<lparr>sender_pid = 2, mtype = 42, content = 99\<rparr>]"
    by (simp add: mailbox_def queued_def pending_def w) (simp add: receiver_kernel_def fifo_contents_def cib_avail_def cib_slot_def)
qed

theorem msg_receive_takes_oldest_witness:
  "\<exists>k'. msg_receive_gen 5 True receiver_kernel = Some (Return 1, k') \<and> content (msgs k' 5) = 99"
proof -
  note f = receiver_kernel_facts
  from msg_receive_takes_oldest [OF f(1-3), of 5 True] f(4,5) obtain k' where
    "msg_receive_gen 5 True receiver_kernel = Some (Return 1, k')"
    "msgs k' 5 = \<lparr>sender_pid = 2, mtype = 42, content = 99\<rparr>" by auto
  then show ?thesis by auto
qed

text \<open>
  (C6) Sending to another thread: a receiver that waits gets the message, stamped with the sender, into its buffer and becomes ready, and its queue stays as it is; otherwise a
  free place in its queue takes the message to the end of its mailbox; otherwise the non-blocking call returns 0 and changes no thread, and the blocking call suspends the
  sender in the receiver's waiting list, sorted by priority. In every case the invariants of the receiver's mailbox, of the flags and of the run queues are kept.
\<close>
theorem msg_send_outcomes:
  assumes "send_ready t u p m k"
  shows "(\<forall>a. status (tcb k u) = STATUS_RECEIVE_BLOCKED \<and> wait_data (tcb k u) = WMsg a \<longrightarrow>
      (\<exists>k'. msg_send_gen m p b ie k = Some (Return 1, k') \<and> rq_inv k' \<and> flags_inv k' \<and> mailbox_inv u k' \<and> queued u k' = queued u k \<and>
         msgs k' a = stamped m k \<and> status (tcb k' u) = STATUS_PENDING \<and> pendsv k')) \<and>
    (status (tcb k u) \<noteq> STATUS_RECEIVE_BLOCKED \<and> \<not> cib_full (msg_queue (tcb k u)) \<longrightarrow>
      (\<exists>k'. msg_send_gen m p b ie k = Some (Return 1, k') \<and> rq_inv k' \<and> flags_inv k' \<and> mailbox_inv u k' \<and>
         mailbox u k' = mailbox u k @ [stamped m k])) \<and>
    (status (tcb k u) \<noteq> STATUS_RECEIVE_BLOCKED \<and> cib_full (msg_queue (tcb k u)) \<longrightarrow>
      (\<exists>k'. msg_send_gen m p False ie k = Some (Return 0, k') \<and> rq_inv k' \<and> flags_inv k' \<and> mailbox_inv u k' \<and>
         mailbox u k' = mailbox u k \<and> tcb k' = tcb k) \<and>
      (\<exists>k'. msg_send_gen m p True ie k = Some (Blocks, k') \<and> rq_inv k' \<and> flags_inv k' \<and> mailbox_inv u k' \<and>
         queued u k' = queued u k \<and>
         msg_waiters (tcb k' u) = insert_by_prio (\<lambda>x. priority (tcb k x)) t (msg_waiters (tcb k u)) \<and>
         msgs k' (wait_addr t k') = stamped m k \<and> status (tcb k' t) = STATUS_SEND_BLOCKED \<and> pendsv k'))"
proof (intro conjI impI allI)
  show "\<exists>k'. msg_send_gen m p b ie k = Some (Return 1, k') \<and> rq_inv k' \<and> flags_inv k' \<and> mailbox_inv u k' \<and> queued u k' = queued u k \<and>
      msgs k' a = stamped m k \<and> status (tcb k' u) = STATUS_PENDING \<and> pendsv k'"
    if "status (tcb k u) = STATUS_RECEIVE_BLOCKED \<and> wait_data (tcb k u) = WMsg a" for a
    using send_direct [OF assms] that by blast
  show "\<exists>k'. msg_send_gen m p b ie k = Some (Return 1, k') \<and> rq_inv k' \<and> flags_inv k' \<and> mailbox_inv u k' \<and>
      mailbox u k' = mailbox u k @ [stamped m k]"
    if "status (tcb k u) \<noteq> STATUS_RECEIVE_BLOCKED \<and> \<not> cib_full (msg_queue (tcb k u))"
    using send_queued [OF assms] that by blast
qed (use send_refused [OF assms] send_blocks [OF assms _ _ refl] in blast)+

lemma two_threads_send_ready: "send_ready 7 9 2 5 two_threads"
proof -
  have "flags_inv two_threads" by (auto simp: flags_inv_def two_threads_def blank_thread_def)
  moreover have "mailbox_inv 9 two_threads"
    by (simp add: mailbox_inv_def queue_wf_def cib_inv_def cib_cap_def cib_avail_def two_threads_def blank_thread_def)
  ultimately show ?thesis
    using two_threads_rq_inv two_threads_active
    by (simp add: send_ready_def) (simp add: two_threads_def thread_get_unchecked_def blank_thread_def kernel_consts)
qed

theorem msg_send_outcomes_witness:
  "\<exists>k'. msg_send_gen 5 2 True True two_threads = Some (Blocks, k') \<and> msg_waiters (tcb k' 9) = [7] \<and>
     status (tcb k' 7) = STATUS_SEND_BLOCKED"
proof -
  have "cib_full (msg_queue (tcb two_threads 9))" "status (tcb two_threads 9) \<noteq> STATUS_RECEIVE_BLOCKED"
    "msg_waiters (tcb two_threads 9) = []"
    by (simp_all add: two_threads_def blank_thread_def cib_full_def cib_avail_def)
  with msg_send_outcomes [OF two_threads_send_ready, of True True] show ?thesis by auto
qed

text \<open>
  A request comes back: when a thread \<open>t\<close> calls \<open>msg_send_receive\<close> to a server \<open>u\<close>
  that waits for messages, the server's buffer holds the request with \<open>t\<close> as sender and \<open>t\<close>
  waits for the reply; when the server, running later, answers that message with
  \<open>msg_reply\<close>, exactly the reply is in \<open>t\<close>'s reply buffer and \<open>t\<close> is ready again. Answering a
  thread that does not wait for a reply returns -1 without effect.
\<close>
theorem msg_request_reply:
  assumes "rq_inv k" and "active_ready t k" and "sched_active_pid k = c"
    and "thread_get_unchecked c k = Some (Some t)" and "thread_get_unchecked p k = Some (Some u)"
    and "c \<noteq> p" and "u \<noteq> t" and "status (tcb k u) = STATUS_RECEIVE_BLOCKED" and "wait_data (tcb k u) = WMsg a"
    and "priority (tcb k u) < SCHED_PRIO_LEVELS" and "a \<noteq> reply"
  shows "\<exists>k'. msg_send_receive m reply p k = Some (Blocks, k') \<and> rq_inv k' \<and>
    msgs k' a = (msgs k m)\<lparr>sender_pid := c\<rparr> \<and> status (tcb k' t) = STATUS_REPLY_BLOCKED \<and>
    status (tcb k' u) = STATUS_PENDING \<and>
    (\<forall>k2 r. rq_inv k2 \<and> tcb k2 t = tcb k' t \<and> sched_threads k2 = sched_threads k \<and> msgs k2 a = msgs k' a \<and>
       sched_active_thread k2 = Some u \<longrightarrow>
       (\<exists>k3. msg_reply a r k2 = Some (1, k3) \<and> rq_inv k3 \<and> msgs k3 reply = msgs k2 r \<and>
          status (tcb k3 t) = STATUS_PENDING \<and>
          (\<forall>k4. sched_threads k4 = sched_threads k \<and> tcb k4 t = tcb k3 t \<and> msgs k4 a = msgs k' a \<longrightarrow>
             msg_reply a r k4 = Some (- 1, k4))))"
proof -
  have tp: "priority (tcb k t) < SCHED_PRIO_LEVELS" using assms(2) by (simp add: active_ready_def)
  obtain k' where k': "msg_send_receive m reply p k = Some (Blocks, k')" "rq_inv k'"
    "msgs k' a = (msgs k m)\<lparr>sender_pid := c\<rparr>" "status (tcb k' u) = STATUS_PENDING"
    "tcb k' t = (tcb k t)\<lparr>wait_data := WMsg reply, status := STATUS_REPLY_BLOCKED\<rparr>"
    using send_receive_direct [OF assms(1-3,5-10)] by blast
  have get: "thread_get_unchecked c k2 = Some (Some t)" if "sched_threads k2 = sched_threads k" for k2
    using assms(4) that by (auto simp: thread_get_unchecked_def split: if_splits)
  have rep: "\<exists>k3. msg_reply a r k2 = Some (1, k3) \<and> rq_inv k3 \<and> msgs k3 reply = msgs k2 r \<and>
      status (tcb k3 t) = STATUS_PENDING"
    if h: "rq_inv k2" "tcb k2 t = tcb k' t" "sched_threads k2 = sched_threads k" "msgs k2 a = msgs k' a"
      "sched_active_thread k2 = Some u" for k2 r
    using msg_reply_delivers [OF h(1) _ get [OF h(3)] _ _ _ h(5), of a reply r] h(2,4) k'(3,5) tp by simp
  have nrep: "msg_reply a r k4 = Some (- 1, k4)"
    if "sched_threads k4 = sched_threads k" "status (tcb k4 t) = STATUS_PENDING" "msgs k4 a = msgs k' a" for k4 r
    using msg_reply_refused [of k4 a t r] get [OF that(1)] that(2,3) k'(3) by simp
  show ?thesis
  proof (rule exI [of _ k'], intro conjI allI impI)
    fix k2 r
    assume h: "rq_inv k2 \<and> tcb k2 t = tcb k' t \<and> sched_threads k2 = sched_threads k \<and> msgs k2 a = msgs k' a \<and>
       sched_active_thread k2 = Some u"
    then obtain k3 where "msg_reply a r k2 = Some (1, k3)" "rq_inv k3" "msgs k3 reply = msgs k2 r"
      "status (tcb k3 t) = STATUS_PENDING" using rep by blast
    then show "\<exists>k3. msg_reply a r k2 = Some (1, k3) \<and> rq_inv k3 \<and> msgs k3 reply = msgs k2 r \<and>
       status (tcb k3 t) = STATUS_PENDING \<and>
       (\<forall>k4. sched_threads k4 = sched_threads k \<and> tcb k4 t = tcb k3 t \<and> msgs k4 a = msgs k' a \<longrightarrow>
          msg_reply a r k4 = Some (- 1, k4))"
      using nrep by (metis (no_types, lifting))
  qed (use k' in simp_all)
qed

theorem msg_request_reply_witness:
  "\<exists>k'. msg_send_receive 1 2 2 (upd_tcb 9 (\<lambda>th. th\<lparr>wait_data := WMsg 5\<rparr>) (two_threads_in STATUS_RECEIVE_BLOCKED))
     = Some (Blocks, k') \<and> status (tcb k' 7) = STATUS_REPLY_BLOCKED \<and> sender_pid (msgs k' 5) = 1"
proof -
  let ?k = "upd_tcb 9 (\<lambda>th. th\<lparr>wait_data := WMsg 5\<rparr>) (two_threads_in STATUS_RECEIVE_BLOCKED)"
  have off: "\<not> on_runqueue STATUS_RECEIVE_BLOCKED" by (simp add: on_runqueue_iff)
  have rq: "rq_inv ?k" using two_threads_in_facts(1) [OF off] by (rule rq_inv_cong) simp_all
  have act: "active_ready 7 ?k" using two_threads_in_facts(2) [OF off] by (simp add: active_ready_def)
  have h: "sched_active_pid ?k = 1" "thread_get_unchecked 1 ?k = Some (Some 7)"
    "thread_get_unchecked 2 ?k = Some (Some 9)" "status (tcb ?k 9) = STATUS_RECEIVE_BLOCKED"
    "wait_data (tcb ?k 9) = WMsg 5" "priority (tcb ?k 9) < SCHED_PRIO_LEVELS"
    by (simp_all add: two_threads_in_def thread_get_unchecked_def) (simp_all add: two_threads_def kernel_consts)
  from msg_request_reply [OF rq act h(1-3) _ _ h(4-6), of 2 1] show ?thesis by auto
qed

end
