(* ===== verification/Mbox.thy ===== *)
theory Mbox
  imports Msg
begin

text \<open>
  Mailboxes (core/mbox.c): a bounded message queue shared by any number of readers and
  writers. A blocking put on a full mailbox suspends the writer in \<open>_wait\<close>; what the writer
  does when it runs again, \<open>mbox_put_resume\<close>, stores the message without looking at the
  fill level again.
\<close>

section \<open>Operations\<close>

record mbox =
  readers :: "tid list"
  writers :: "tid list"
  mcib :: cib
  marray :: "msg list"

definition mbox_init :: "msg list \<Rightarrow> u32 \<Rightarrow> mbox" where
  "mbox_init queue queue_size =
     \<lparr>readers = [], writers = [], mcib = \<lparr>read_count = 0, write_count = 0, cmask = queue_size - 1\<rparr>, marray = queue\<rparr>"

definition wake_mbox_waiter :: "tid \<Rightarrow> bool \<Rightarrow> kernel \<Rightarrow> kernel option" where
  "wake_mbox_waiter t irqstate k =
     do { k \<leftarrow> sched_set_status t STATUS_PENDING k;
          sched_switch (priority (tcb k t)) (irq_restore irqstate k) }"

text \<open>\<open>_wait\<close>, up to the context switch; the result is the new waiting list.\<close>

definition mbox_wait :: "tid list \<Rightarrow> bool \<Rightarrow> kernel \<Rightarrow> (tid list \<times> kernel) option" where
  "mbox_wait wait_list irqstate k =
     do { me \<leftarrow> thread_get_active k;
          k \<leftarrow> sched_set_status me STATUS_MBOX_BLOCKED k;
          wait_list \<leftarrow> thread_add_to_list wait_list me k;
          k \<leftarrow> thread_yield (irq_restore irqstate k);
          Some (wait_list, k) }"

text \<open>The end of \<open>_mbox_put\<close>: the message goes into the queue.\<close>

definition mbox_store :: "maddr \<Rightarrow> mbox \<Rightarrow> kernel \<Rightarrow> (mbox \<times> kernel) option" where
  "mbox_store m mb k =
     (let k = set_sender m (thread_getpid k) k;
          (i, c) = cib_put_unsafe (mcib mb)
      in if 0 \<le> i \<and> nat i < length (marray mb)
         then Some (mb\<lparr>mcib := c, marray := (marray mb)[nat i := msgs k m]\<rparr>, k) else None)"

definition mbox_put_gen :: "mbox \<Rightarrow> maddr \<Rightarrow> bool \<Rightarrow> kernel \<Rightarrow> (int call \<times> mbox \<times> kernel) option" where
  "mbox_put_gen mb m blocking k =
     do { let (irqstate, k) = irq_disable k;
          let (nxt, rs) = list_remove_head (readers mb);
          case nxt of
            Some t \<Rightarrow>
              do { k \<leftarrow> deliver t (msgs k m) k;
                   k \<leftarrow> wake_mbox_waiter t irqstate k;
                   Some (Return 1, mb\<lparr>readers := rs\<rparr>, k) }
          | None \<Rightarrow>
              if cib_full (mcib mb) then
                (if blocking then
                   do { (ws, k) \<leftarrow> mbox_wait (writers mb) irqstate k;
                        Some (Blocks, mb\<lparr>writers := ws\<rparr>, k) }
                 else Some (Return 0, mb, irq_restore irqstate k))
              else do { (mb, k) \<leftarrow> mbox_store m mb k; Some (Return 1, mb, irq_restore irqstate k) } }"

definition mbox_put_resume :: "mbox \<Rightarrow> maddr \<Rightarrow> kernel \<Rightarrow> (int \<times> mbox \<times> kernel) option" where
  "mbox_put_resume mb m k =
     do { let (irqstate, k) = irq_disable k;
          (mb, k) \<leftarrow> mbox_store m mb k;
          Some (1, mb, irq_restore irqstate k) }"

text \<open>When a blocked get is resumed, the message has been copied and it returns 1.\<close>

definition mbox_get_gen :: "mbox \<Rightarrow> maddr \<Rightarrow> bool \<Rightarrow> kernel \<Rightarrow> (int call \<times> mbox \<times> kernel) option" where
  "mbox_get_gen mb m blocking k =
     do { let (irqstate, k) = irq_disable k;
          if cib_avail (mcib mb) \<noteq> 0 then
            do { let (i, c) = cib_get_unsafe (mcib mb);
                 k \<leftarrow> (if 0 \<le> i \<and> nat i < length (marray mb)
                      then Some (k\<lparr>msgs := (msgs k)(m := marray mb ! nat i)\<rparr>) else None);
                 let (nxt, ws) = list_remove_head (writers mb);
                 k \<leftarrow> (case nxt of Some t \<Rightarrow> wake_mbox_waiter t irqstate k | None \<Rightarrow> Some (irq_restore irqstate k));
                 Some (Return 1, mb\<lparr>mcib := c, writers := ws\<rparr>, k) }
          else if blocking then
            do { me \<leftarrow> thread_get_active k;
                 let k = upd_tcb me (\<lambda>th. th\<lparr>wait_data := WMsg m\<rparr>) k;
                 (rs, k) \<leftarrow> mbox_wait (readers mb) irqstate k;
                 Some (Blocks, mb\<lparr>readers := rs\<rparr>, k) }
          else Some (Return 0, mb, irq_restore irqstate k) }"

definition mbox_put :: "mbox \<Rightarrow> maddr \<Rightarrow> kernel \<Rightarrow> (int call \<times> mbox \<times> kernel) option" where
  "mbox_put mb m k = mbox_put_gen mb m True k"

definition mbox_try_put :: "mbox \<Rightarrow> maddr \<Rightarrow> kernel \<Rightarrow> (int call \<times> mbox \<times> kernel) option" where
  "mbox_try_put mb m k = mbox_put_gen mb m False k"

definition mbox_get :: "mbox \<Rightarrow> maddr \<Rightarrow> kernel \<Rightarrow> (int call \<times> mbox \<times> kernel) option" where
  "mbox_get mb m k = mbox_get_gen mb m True k"

definition mbox_try_get :: "mbox \<Rightarrow> maddr \<Rightarrow> kernel \<Rightarrow> (int call \<times> mbox \<times> kernel) option" where
  "mbox_try_get mb m k = mbox_get_gen mb m False k"

section \<open>Contents\<close>

definition mbox_contents :: "mbox \<Rightarrow> msg list" where
  "mbox_contents mb = cib_contents (mcib mb) (marray mb)"

definition mbox_wf :: "mbox \<Rightarrow> bool" where
  "mbox_wf mb \<longleftrightarrow> cib_inv (mcib mb) \<and> cib_cap (mcib mb) \<le> length (marray mb)"

lemma cib_unsafe:
  "\<not> cib_full c \<Longrightarrow> cib_put_unsafe c = cib_put c" "cib_avail c \<noteq> 0 \<Longrightarrow> cib_get_unsafe c = cib_get c"
  by (auto simp: cib_put_unsafe_def cib_put_def cib_full_def cib_get_unsafe_def cib_get_def)

lemma mbox_store_ok:
  assumes "mbox_wf mb" "\<not> cib_full (mcib mb)"
  shows "\<exists>mb'. mbox_store m mb k = Some (mb', set_sender m (sched_active_pid k) k) \<and> mbox_wf mb' \<and>
    mbox_contents mb' = mbox_contents mb @ [stamped m k] \<and> readers mb' = readers mb \<and> writers mb' = writers mb"
proof -
  let ?c = "mcib mb"
  have inv: "cib_inv ?c" "cib_cap ?c \<le> length (marray mb)" using assms(1) by (simp_all add: mbox_wf_def)
  have lt: "unat (cib_avail ?c) < cib_cap ?c" using assms(2) cib_full_iff [OF inv(1)] cib.av_le [OF inv(1)] by simp
  obtain i c where pc: "cib_put ?c = (i, c)" by fastforce
  note ok = cib.put_ok [OF inv(1) lt, unfolded pc fst_conv snd_conv]
  have "nat i < length (marray mb)"
    using ok cib.slot_less [OF inv(1), of "unat (cib_avail ?c)"] lt inv(2) by simp
  with ok pc assms(2) cib.put_contents [OF inv(1) lt inv(2), unfolded pc fst_conv snd_conv] inv(2) show ?thesis
    by (simp add: mbox_store_def cib_unsafe thread_getpid_def mbox_wf_def mbox_contents_def stamped_def Let_def)
qed

text \<open>Putting without a check into a full buffer hands out the slot of the oldest element.\<close>

lemma cib_overrun:
  assumes "cib_inv c" "unat (cib_avail c) = cib_cap c" "0 < cib_cap c"
  shows "cib_put_unsafe c = (int (cib_slot c 0), c\<lparr>write_count := write_count c + 1\<rparr>)"
    "unat (cib_avail (c\<lparr>write_count := write_count c + 1\<rparr>)) = Suc (cib_cap c)"
    "\<not> cib_inv (c\<lparr>write_count := write_count c + 1\<rparr>)"
  using assms(1)
proof (atomize (full), cases rule: cib_invE)
  case (sized k)
  have wr: "write_count c = read_count c + of_nat (unat (cib_avail c))" by (simp add: cib_avail_def)
  have "sint (write_count c AND cmask c) = int (cib_slot c (unat (cib_avail c)))"
    unfolding cib_slot_def wr [symmetric] using and_mask_sint [OF sized(1)] sized(2) by simp
  also have "cib_slot c (unat (cib_avail c)) = cib_slot c 0"
    using assms(2) sized by (simp add: cib_slot_mod)
  finally have slot: "cib_put_unsafe c = (int (cib_slot c 0), c\<lparr>write_count := write_count c + 1\<rparr>)"
    by (simp add: cib_put_unsafe_def)
  let ?c = "c\<lparr>write_count := write_count c + 1\<rparr>"
  have "(2 :: nat) ^ k < 2 ^ 31" using sized(1) by (intro power_strict_increasing) auto
  then have av: "unat (cib_avail ?c) = Suc (cib_cap c)"
    using assms(2) sized(3) by (simp add: cib_avail_put unat_word_ariths)
  have cap: "cib_cap ?c = cib_cap c" by (simp add: cib_cap_def)
  have "\<not> cib_inv ?c" using av cap cib.av_le [of ?c] by auto
  with slot av show "cib_put_unsafe c = (int (cib_slot c 0), ?c) \<and> unat (cib_avail ?c) = Suc (cib_cap c) \<and> \<not> cib_inv ?c"
    by simp
qed (use assms(3) in simp)

lemma wake_mbox_waiter_ok:
  assumes "rq_inv k" "\<not> on_runqueue (status (tcb k w))" "priority (tcb k w) < SCHED_PRIO_LEVELS"
    "sched_active_thread k = Some a"
  shows "\<exists>k'. wake_mbox_waiter w ie k = Some k' \<and> rq_inv k' \<and> msgs k' = msgs k \<and>
    tcb k' = (tcb k)(w := (tcb k w)\<lparr>status := STATUS_PENDING\<rparr>)"
proof -
  from wake_waiter [OF assms(1-3)] assms(4) obtain k1 where
    k1: "sched_set_status w STATUS_PENDING k = Some k1" "rq_inv k1" "msgs k1 = msgs k"
      "tcb k1 = (tcb k)(w := (tcb k w)\<lparr>status := STATUS_PENDING\<rparr>)" "sched_active_thread k1 = Some a" by auto
  have "sched_active_thread (irq_restore ie k1) = Some a" using k1(5) by simp
  from switch_if [OF this, of True "priority (tcb k1 w)"] obtain k2 where
    k2: "sched_switch (priority (tcb k1 w)) (irq_restore ie k1) = Some k2"
      "sched_runqueues k2 = sched_runqueues k1" "runqueue_bitcache k2 = runqueue_bitcache k1" "tcb k2 = tcb k1"
      "msgs k2 = msgs k1" by auto
  have "rq_inv k2" by (rule rq_inv_cong [OF k1(2)]) (simp_all add: k2)
  with k1 k2 show ?thesis by (simp add: wake_mbox_waiter_def)
qed

lemma mbox_get_ok:
  assumes "mbox_wf mb" "mbox_contents mb = v # vs" "rq_inv k" "sched_active_thread k = Some a"
    "waiting STATUS_MBOX_BLOCKED (writers mb) k"
  shows "\<exists>mb' k'. mbox_get_gen mb m b k = Some (Return 1, mb', k') \<and> mbox_wf mb' \<and> mbox_contents mb' = vs \<and>
    msgs k' m = v \<and> writers mb' = tl (writers mb) \<and> readers mb' = readers mb \<and> rq_inv k' \<and>
    cib_cap (mcib mb') = cib_cap (mcib mb) \<and>
    (writers mb \<noteq> [] \<longrightarrow> status (tcb k' (hd (writers mb))) = STATUS_PENDING)"
proof -
  let ?c = "mcib mb"
  have inv: "cib_inv ?c" "cib_cap ?c \<le> length (marray mb)" using assms(1) by (simp_all add: mbox_wf_def)
  have gt: "0 < unat (cib_avail ?c)"
    using assms(2) cib.length_contents [of ?c "marray mb"] by (simp add: mbox_contents_def)
  then have nz: "cib_avail ?c \<noteq> 0" by auto
  obtain i c where gc: "cib_get ?c = (i, c)" by fastforce
  note ok = cib.get_ok [OF inv(1) gt, unfolded gc fst_conv snd_conv]
  have i: "0 \<le> i" "nat i < length (marray mb)" "marray mb ! nat i = v" "cib_contents c (marray mb) = vs"
    using ok cib.slot_less [OF inv(1), of 0] cib.av_le [OF inv(1)] gt inv(2)
      cib.get_contents [OF inv(1) gt, of "marray mb"] assms(2) gc
    by (simp_all add: mbox_contents_def)
  let ?k1 = "k\<lparr>irq_enabled := False, msgs := (msgs k)(m := v)\<rparr>"
  have rq1: "rq_inv ?k1" using assms(3) by (rule rq_inv_cong) simp_all
  have wf: "mbox_wf (mb\<lparr>mcib := c, writers := ws\<rparr>)" "mbox_contents (mb\<lparr>mcib := c, writers := ws\<rparr>) = vs" for ws
    using ok i(4) inv(2) by (simp_all add: mbox_wf_def mbox_contents_def)
  show ?thesis
  proof (cases "writers mb")
    case Nil
    have "mbox_get_gen mb m b k = Some (Return 1, mb\<lparr>mcib := c, writers := []\<rparr>, irq_restore (irq_enabled k) ?k1)"
      using nz gc i Nil by (simp add: mbox_get_gen_def irq_disable_def cib_unsafe list_remove_head_def Let_def)
    moreover have "rq_inv (irq_restore (irq_enabled k) ?k1)" using rq1 by (rule rq_inv_cong) simp_all
    ultimately show ?thesis using wf [of "[]"] Nil ok by auto
  next
    case (Cons w ws)
    have "\<not> on_runqueue (status (tcb ?k1 w))" "priority (tcb ?k1 w) < SCHED_PRIO_LEVELS"
      using assms(5) Cons by (auto simp: waiting_def)
    from wake_mbox_waiter_ok [OF rq1 this, of a "irq_enabled k"] assms(4) obtain k2 where
      k2: "wake_mbox_waiter w (irq_enabled k) ?k1 = Some k2" "rq_inv k2" "msgs k2 = (msgs k)(m := v)"
        "tcb k2 = (tcb k)(w := (tcb k w)\<lparr>status := STATUS_PENDING\<rparr>)" by auto
    have "mbox_get_gen mb m b k = Some (Return 1, mb\<lparr>mcib := c, writers := ws\<rparr>, k2)"
      using nz gc i Cons k2(1) by (simp add: mbox_get_gen_def irq_disable_def cib_unsafe list_remove_head_def Let_def)
    then show ?thesis using wf [of ws] Cons k2 ok by auto
  qed
qed

section \<open>Properties\<close>

text \<open>
  A mailbox without blocked readers is a bounded FIFO queue: a put into a mailbox with
  room appends the message stamped with the sender, a non-blocking put into a full one
  returns 0 without effect on the mailbox, a get returns the oldest message and makes the
  first blocked writer ready, and a non-blocking get from an empty one returns 0.
\<close>
theorem mbox_is_fifo:
  assumes "mbox_wf mb" and "readers mb = []" and "rq_inv k" and "sched_active_thread k = Some a"
    and "waiting STATUS_MBOX_BLOCKED (writers mb) k"
  shows "(\<not> cib_full (mcib mb) \<longrightarrow>
      (\<exists>mb' k'. mbox_put_gen mb m b k = Some (Return 1, mb', k') \<and> mbox_wf mb' \<and>
         mbox_contents mb' = mbox_contents mb @ [stamped m k])) \<and>
    (cib_full (mcib mb) \<longrightarrow> mbox_put_gen mb m False k = Some (Return 0, mb, k)) \<and>
    (\<forall>v vs. mbox_contents mb = v # vs \<longrightarrow>
      (\<exists>mb' k'. mbox_get_gen mb m b k = Some (Return 1, mb', k') \<and> mbox_wf mb' \<and> mbox_contents mb' = vs \<and>
         msgs k' m = v \<and> writers mb' = tl (writers mb) \<and> rq_inv k' \<and>
         (writers mb \<noteq> [] \<longrightarrow> status (tcb k' (hd (writers mb))) = STATUS_PENDING))) \<and>
    (mbox_contents mb = [] \<longrightarrow> mbox_get_gen mb m False k = Some (Return 0, mb, k))"
proof (intro conjI impI allI)
  assume "\<not> cib_full (mcib mb)"
  with mbox_store_ok [OF assms(1) this, of m "k\<lparr>irq_enabled := False\<rparr>"] assms(2)
  show "\<exists>mb' k'. mbox_put_gen mb m b k = Some (Return 1, mb', k') \<and> mbox_wf mb' \<and>
      mbox_contents mb' = mbox_contents mb @ [stamped m k]"
    by (auto simp: mbox_put_gen_def irq_disable_def list_remove_head_def stamped_def Let_def)
next
  assume "cib_full (mcib mb)"
  then show "mbox_put_gen mb m False k = Some (Return 0, mb, k)"
    using assms(2) by (simp add: mbox_put_gen_def irq_disable_def list_remove_head_def Let_def)
next
  fix v vs
  assume "mbox_contents mb = v # vs"
  from mbox_get_ok [OF assms(1) this assms(3-5), of m b]
  show "\<exists>mb' k'. mbox_get_gen mb m b k = Some (Return 1, mb', k') \<and> mbox_wf mb' \<and> mbox_contents mb' = vs \<and>
         msgs k' m = v \<and> writers mb' = tl (writers mb) \<and> rq_inv k' \<and>
         (writers mb \<noteq> [] \<longrightarrow> status (tcb k' (hd (writers mb))) = STATUS_PENDING)" by blast
next
  assume "mbox_contents mb = []"
  then have "unat (cib_avail (mcib mb)) = 0"
    using cib.length_contents [of "mcib mb" "marray mb"] by (simp add: mbox_contents_def)
  then show "mbox_get_gen mb m False k = Some (Return 0, mb, k)"
    by (simp add: mbox_get_gen_def irq_disable_def unat_eq_0 Let_def)
qed

text \<open>A mailbox of one place that is full, with thread 9 waiting to put.\<close>

definition full_mbox :: mbox where
  "full_mbox = \<lparr>readers = [], writers = [9], mcib = \<lparr>read_count = 0, write_count = 1, cmask = 0\<rparr>,
     marray = [\<lparr>sender_pid = 1, mtype = 1, content = 11\<rparr>]\<rparr>"

lemma full_mbox_facts:
  "mbox_wf full_mbox" "readers full_mbox = []" "cib_full (mcib full_mbox)" "cib_cap (mcib full_mbox) = 1"
  "mbox_contents full_mbox = [\<lparr>sender_pid = 1, mtype = 1, content = 11\<rparr>]"
  by (auto simp: mbox_wf_def full_mbox_def cib_inv_def cib_avail_def cib_cap_def cib_full_def mbox_contents_def
      fifo_contents_def cib_slot_def intro!: exI [of _ 0])

lemma mbox_kernel_facts:
  "rq_inv (two_threads_in STATUS_MBOX_BLOCKED)" "sched_active_thread (two_threads_in STATUS_MBOX_BLOCKED) = Some 7"
  "waiting STATUS_MBOX_BLOCKED (writers full_mbox) (two_threads_in STATUS_MBOX_BLOCKED)"
  using two_threads_in_facts [of STATUS_MBOX_BLOCKED]
  by (simp_all add: on_runqueue_iff full_mbox_def active_ready_def)

theorem mbox_is_fifo_witness:
  "\<exists>mb' k'. mbox_get_gen full_mbox 3 True (two_threads_in STATUS_MBOX_BLOCKED) = Some (Return 1, mb', k') \<and>
     mbox_contents mb' = [] \<and> content (msgs k' 3) = 11"
proof -
  from mbox_is_fifo [OF full_mbox_facts(1,2) mbox_kernel_facts, of 3 True] full_mbox_facts(5) obtain mb' k' where
    "mbox_get_gen full_mbox 3 True (two_threads_in STATUS_MBOX_BLOCKED) = Some (Return 1, mb', k')"
    "mbox_contents mb' = []" "msgs k' 3 = \<lparr>sender_pid = 1, mtype = 1, content = 11\<rparr>" by blast
  then show ?thesis by auto
qed

text \<open>
  (C35) A blocked writer can overrun the mailbox: with a full mailbox and a writer
  waiting, a get makes room and wakes the writer; if another thread's non-blocking put comes
  before the writer runs, it takes the place, and the writer, which does not look again, then
  overwrites a message that has not been read. All three calls report success, but the
  mailbox counts one message more than it has places.
\<close>
theorem mbox_put_race:
  assumes "mbox_wf mb" and "readers mb = []" and "cib_full (mcib mb)" and "0 < cib_cap (mcib mb)"
    and "rq_inv k" and "sched_active_thread k = Some a" and "waiting STATUS_MBOX_BLOCKED (writers mb) k"
    and "writers mb = [w]"
  shows "\<exists>mb1 k1 mb2 k3 mb3 k5. mbox_get_gen mb m b k = Some (Return 1, mb1, k1) \<and>
    mbox_put_gen mb1 m2 False k2 = Some (Return 1, mb2, k3) \<and> mbox_wf mb2 \<and>
    mbox_put_resume mb2 m3 k4 = Some (1, mb3, k5) \<and>
    marray mb3 ! cib_slot (mcib mb2) 0 = stamped m3 k4 \<and>
    unat (cib_avail (mcib mb3)) = cib_cap (mcib mb) + 1 \<and> \<not> mbox_wf mb3"
proof -
  have inv: "cib_inv (mcib mb)" using assms(1) by (simp add: mbox_wf_def)
  have "length (mbox_contents mb) = cib_cap (mcib mb)"
    using assms(3) cib_full_iff(1) [OF inv] cib.length_contents [of "mcib mb" "marray mb"] by (simp add: mbox_contents_def)
  then obtain v vs where c: "mbox_contents mb = v # vs" "Suc (length vs) = cib_cap (mcib mb)"
    using assms(4) by (cases "mbox_contents mb") auto
  from mbox_get_ok [OF assms(1) c(1) assms(5-7), of m b] assms(2) obtain mb1 k1 where
    mb1: "mbox_get_gen mb m b k = Some (Return 1, mb1, k1)" "mbox_wf mb1" "mbox_contents mb1 = vs"
      "readers mb1 = []" "cib_cap (mcib mb1) = cib_cap (mcib mb)" by auto
  have inv1: "cib_inv (mcib mb1)" using mb1(2) by (simp add: mbox_wf_def)
  have "unat (cib_avail (mcib mb1)) = length vs"
    using mb1(3) cib.length_contents [of "mcib mb1" "marray mb1"] by (simp add: mbox_contents_def)
  then have nf: "\<not> cib_full (mcib mb1)" using cib_full_iff(1) [OF inv1] c(2) mb1(5) by simp
  from mbox_store_ok [OF mb1(2) nf, of m2 "k2\<lparr>irq_enabled := False\<rparr>"] obtain mb2 where
    mb2: "mbox_store m2 mb1 (k2\<lparr>irq_enabled := False\<rparr>) = Some (mb2, set_sender m2 (sched_active_pid k2) (k2\<lparr>irq_enabled := False\<rparr>))"
      "mbox_wf mb2" "length (mbox_contents mb2) = Suc (length vs)" using mb1(3) by auto
  have put: "\<exists>k3. mbox_put_gen mb1 m2 False k2 = Some (Return 1, mb2, k3)"
    using mb2(1) mb1(4) nf by (simp add: mbox_put_gen_def irq_disable_def list_remove_head_def Let_def)
  have inv2: "cib_inv (mcib mb2)" "cib_cap (mcib mb2) \<le> length (marray mb2)" using mb2(2) by (simp_all add: mbox_wf_def)
  have cap2: "cib_cap (mcib mb2) = cib_cap (mcib mb)"
    using mb2(1) mb1(5) by (auto simp: mbox_store_def cib_put_unsafe_def cib_cap_def Let_def split: if_splits)
  have "unat (cib_avail (mcib mb2)) = cib_cap (mcib mb2)"
    using mb2(3) c(2) cap2 cib.length_contents [of "mcib mb2" "marray mb2"] by (simp add: mbox_contents_def)
  note over = cib_overrun [OF inv2(1) this]
  have slot: "cib_slot (mcib mb2) 0 < length (marray mb2)"
    using cib.slot_less [OF inv2(1), of 0] cap2 assms(4) inv2(2) by simp
  let ?k = "k4\<lparr>irq_enabled := False\<rparr>"
  let ?mb3 = "mb2\<lparr>mcib := (mcib mb2)\<lparr>write_count := write_count (mcib mb2) + 1\<rparr>,
    marray := (marray mb2)[cib_slot (mcib mb2) 0 := stamped m3 k4]\<rparr>"
  have "\<exists>k5. mbox_put_resume mb2 m3 k4 = Some (1, ?mb3, k5)"
    using over(1) slot cap2 assms(4)
    by (simp add: mbox_put_resume_def mbox_store_def irq_disable_def thread_getpid_def stamped_def Let_def)
  moreover have "marray ?mb3 ! cib_slot (mcib mb2) 0 = stamped m3 k4" using slot by simp
  moreover have "unat (cib_avail (mcib ?mb3)) = cib_cap (mcib mb) + 1" "\<not> mbox_wf ?mb3"
    using over(2,3) cap2 assms(4) by (simp_all add: mbox_wf_def)
  ultimately show ?thesis using mb1(1) mb2(2) put by blast
qed

theorem mbox_put_race_witness:
  "\<exists>mb1 k1 mb2 k3 mb3 k5. mbox_get_gen full_mbox 3 True (two_threads_in STATUS_MBOX_BLOCKED) = Some (Return 1, mb1, k1) \<and>
    mbox_put_gen mb1 4 False boot_kernel = Some (Return 1, mb2, k3) \<and>
    mbox_put_resume mb2 5 boot_kernel = Some (1, mb3, k5) \<and> unat (cib_avail (mcib mb3)) = 2"
proof -
  have "writers full_mbox = [9]" "0 < cib_cap (mcib full_mbox)" using full_mbox_facts(4) by (simp_all add: full_mbox_def)
  from mbox_put_race [OF full_mbox_facts(1-3) this(2) mbox_kernel_facts this(1), of 3 True 4 boot_kernel 5 boot_kernel]
  show ?thesis unfolding full_mbox_facts(4) by auto
qed

end
