(* ===== verification/Prio_Queue.thy ===== *)
theory Prio_Queue
  imports Kernel
begin

text \<open>
  Priority queues (core/priority_queue.c) and index stacks (core/lifo.c) at the level of their
  pointers and arrays, and the contract that priority queues and the kernel's waiting lists
  share: first come, first served within a priority.
\<close>

section \<open>Priority queues\<close>

text \<open>
  The queue's root and its nodes are both cells with a \<open>next\<close> pointer; the code walks over
  them with one pointer, which starts at the root.
\<close>

datatype 'n cell = Root | Node 'n

record 'n priority_queue =
  pq_next :: "'n cell \<Rightarrow> 'n option"
  pq_prio :: "'n \<Rightarrow> u32"

abbreviation set_next :: "'n cell \<Rightarrow> 'n option \<Rightarrow> 'n priority_queue \<Rightarrow> 'n priority_queue" where
  "set_next c p h \<equiv> h\<lparr>pq_next := (pq_next h)(c := p)\<rparr>"

definition priority_queue_init :: "'n priority_queue \<Rightarrow> 'n priority_queue" where
  "priority_queue_init h = set_next Root None h"

definition priority_queue_node_init :: "'n \<Rightarrow> 'n priority_queue \<Rightarrow> 'n priority_queue" where
  "priority_queue_node_init n h = (set_next (Node n) None h)\<lparr>pq_prio := (pq_prio h)(n := 0)\<rparr>"

partial_function (option) pq_remove_loop :: "'n cell \<Rightarrow> 'n \<Rightarrow> 'n priority_queue \<Rightarrow> 'n priority_queue option" where
  "pq_remove_loop root node h =
     (case pq_next h root of
        None \<Rightarrow> Some h
      | Some x \<Rightarrow>
          if x = node then Some (set_next (Node node) None (set_next root (pq_next h (Node node)) h))
          else pq_remove_loop (Node x) node h)"

definition priority_queue_remove :: "'n \<Rightarrow> 'n priority_queue \<Rightarrow> 'n priority_queue option" where
  "priority_queue_remove node h = pq_remove_loop Root node h"

definition priority_queue_remove_head :: "'n priority_queue \<Rightarrow> 'n option \<times> 'n priority_queue" where
  "priority_queue_remove_head h =
     (case pq_next h Root of
        None \<Rightarrow> (None, h)
      | Some head \<Rightarrow> (Some head, set_next Root (pq_next h (Node head)) h))"

partial_function (option) pq_add_loop :: "'n cell \<Rightarrow> 'n \<Rightarrow> 'n priority_queue \<Rightarrow> 'n priority_queue option" where
  "pq_add_loop node new_obj h =
     (case pq_next h node of
        None \<Rightarrow> Some (set_next (Node new_obj) None (set_next node (Some new_obj) h))
      | Some x \<Rightarrow>
          if x = new_obj then None
          else if pq_prio h x > pq_prio h new_obj
          then Some (set_next node (Some new_obj) (set_next (Node new_obj) (Some x) h))
          else pq_add_loop (Node x) new_obj h)"

definition priority_queue_add :: "'n \<Rightarrow> 'n priority_queue \<Rightarrow> 'n priority_queue option" where
  "priority_queue_add new_obj h = pq_add_loop Root new_obj h"

section \<open>Index stacks\<close>

definition lifo_empty :: "int list \<Rightarrow> bool" where
  "lifo_empty array \<longleftrightarrow> array ! 0 = - 1"

definition lifo_init :: "int list \<Rightarrow> nat \<Rightarrow> int list option" where
  "lifo_init array n =
     (if n < length array then Some (replicate (Suc n) (- 1) @ drop (Suc n) array) else None)"

definition lifo_insert :: "int list \<Rightarrow> int \<Rightarrow> int list option" where
  "lifo_insert array i =
     (if 0 \<le> i + 1 \<and> nat (i + 1) < length array
      then Some (array[nat (i + 1) := array ! 0, 0 := i]) else None)"

definition lifo_get :: "int list \<Rightarrow> (int \<times> int list) option" where
  "lifo_get array =
     (if array = [] then None
      else let head = array ! 0
        in if head \<noteq> - 1 then
             (if 0 \<le> head + 1 \<and> nat (head + 1) < length array
              then Some (head, array[0 := array ! nat (head + 1)]) else None)
           else Some (head, array))"

section \<open>The contract of a priority list\<close>

locale prio_fifo =
  fixes prio :: "'a \<Rightarrow> nat" and enq :: "'a \<Rightarrow> 'a list \<Rightarrow> 'a list"
  assumes enq_sorted: "sorted (map prio xs) \<Longrightarrow> sorted (map prio (enq x xs))"
    and enq_fifo: "sorted (map prio xs) \<Longrightarrow>
      filter (\<lambda>y. prio y = p) (enq x xs) = filter (\<lambda>y. prio y = p) xs @ (if prio x = p then [x] else [])"

lemma sorted_filters_eq:
  assumes "sorted (map f xs)" "sorted (map f ys)" "\<And>p. filter (\<lambda>x. f x = p) xs = filter (\<lambda>x. f x = (p :: nat)) ys"
  shows "xs = ys"
  using assms
proof (induction xs arbitrary: ys)
  case Nil
  show ?case
  proof (cases ys)
    case (Cons y ys')
    then show ?thesis using Nil.prems(3) [of "f y"] by simp
  qed simp
next
  case (Cons x xs)
  have "x \<in> set (filter (\<lambda>z. f z = f x) ys)" unfolding Cons.prems(3) [of "f x", symmetric] by simp
  then obtain y ys' where ys: "ys = y # ys'" by (cases ys) auto
  have "f y \<le> f x" using \<open>x \<in> set (filter (\<lambda>z. f z = f x) ys)\<close> Cons.prems(2) ys by (auto split: if_splits)
  moreover have "y \<in> set (filter (\<lambda>z. f z = f y) (x # xs))" unfolding Cons.prems(3) [of "f y"] ys by simp
  then have "f x \<le> f y" using Cons.prems(1) by (auto split: if_splits)
  ultimately have fxy: "f x = f y" by simp
  have xy: "x = y" using Cons.prems(3) [of "f x"] ys fxy by simp
  have "xs = ys'"
  proof (rule Cons.IH)
    show "filter (\<lambda>x. f x = p) xs = filter (\<lambda>x. f x = p) ys'" for p
      using Cons.prems(3) [of p] ys xy by (auto split: if_splits)
  qed (use Cons.prems ys in auto)
  with ys xy show ?case by simp
qed

context prio_fifo
begin

lemma enq_all_sorted: "sorted (map prio xs) \<Longrightarrow> sorted (map prio (fold enq ts xs))"
  by (induction ts arbitrary: xs) (simp_all add: enq_sorted)

lemma enq_all_filter:
  "sorted (map prio xs) \<Longrightarrow>
   filter (\<lambda>y. prio y = p) (fold enq ts xs) = filter (\<lambda>y. prio y = p) xs @ filter (\<lambda>y. prio y = p) ts"
  by (induction ts arbitrary: xs) (simp_all add: enq_fifo enq_sorted)

lemma serves_in_order: "fold enq ts [] = sort_key prio ts"
  by (rule sorted_filters_eq [of prio]) (simp_all add: enq_all_sorted enq_all_filter sort_key_stable)

end

interpretation by_prio: prio_fifo prio "insert_by_prio prio" for prio :: "'a \<Rightarrow> nat"
  by unfold_locales (simp_all add: insert_by_prio_sorted insert_by_prio_filter)

section \<open>The pointer operations implement it\<close>

fun pq_chain :: "('n cell \<Rightarrow> 'n option) \<Rightarrow> 'n cell \<Rightarrow> 'n list \<Rightarrow> bool" where
  "pq_chain nx c [] \<longleftrightarrow> nx c = None"
| "pq_chain nx c (x # xs) \<longleftrightarrow> nx c = Some x \<and> pq_chain nx (Node x) xs"

definition pq_rep :: "'n priority_queue \<Rightarrow> 'n list \<Rightarrow> bool" where
  "pq_rep h xs \<longleftrightarrow> pq_chain (pq_next h) Root xs \<and> distinct xs"

lemma pq_chain_cong:
  "pq_chain nx c xs \<Longrightarrow> nx' c = nx c \<Longrightarrow> (\<And>x. x \<in> set xs \<Longrightarrow> nx' (Node x) = nx (Node x)) \<Longrightarrow> pq_chain nx' c xs"
  by (induction xs arbitrary: c) auto

lemma pq_add_loop_ok:
  assumes "pq_chain (pq_next h) c xs" "distinct xs" "n \<notin> set xs" "c \<notin> Node ` set xs" "c \<noteq> Node n"
  shows "\<exists>h'. pq_add_loop c n h = Some h' \<and> pq_prio h' = pq_prio h \<and>
    pq_chain (pq_next h') c (insert_by_prio (\<lambda>x. unat (pq_prio h x)) n xs) \<and>
    (\<forall>d. d \<noteq> c \<and> d \<noteq> Node n \<and> d \<notin> Node ` set xs \<longrightarrow> pq_next h' d = pq_next h d)"
  using assms
proof (induction xs arbitrary: c)
  case Nil
  then show ?case by (simp add: pq_add_loop.simps)
next
  case (Cons x xs)
  show ?case
  proof (cases "pq_prio h x > pq_prio h n")
    case True
    let ?h = "set_next c (Some n) (set_next (Node n) (Some x) h)"
    have "pq_add_loop c n h = Some ?h" using True Cons.prems by (auto simp: pq_add_loop.simps)
    moreover have "pq_chain (pq_next ?h) (Node x) xs"
      by (rule pq_chain_cong [of "pq_next h"]) (use Cons.prems in auto)
    ultimately show ?thesis using True Cons.prems by (auto simp: word_less_nat_alt)
  next
    case False
    have "\<exists>h'. pq_add_loop (Node x) n h = Some h' \<and> pq_prio h' = pq_prio h \<and>
        pq_chain (pq_next h') (Node x) (insert_by_prio (\<lambda>x. unat (pq_prio h x)) n xs) \<and>
        (\<forall>d. d \<noteq> Node x \<and> d \<noteq> Node n \<and> d \<notin> Node ` set xs \<longrightarrow> pq_next h' d = pq_next h d)"
      using Cons.prems by (intro Cons.IH) auto
    then obtain h' where h': "pq_add_loop (Node x) n h = Some h'" "pq_prio h' = pq_prio h"
        "pq_chain (pq_next h') (Node x) (insert_by_prio (\<lambda>x. unat (pq_prio h x)) n xs)"
        "\<forall>d. d \<noteq> Node x \<and> d \<noteq> Node n \<and> d \<notin> Node ` set xs \<longrightarrow> pq_next h' d = pq_next h d" by blast
    have "pq_add_loop c n h = Some h'" using False Cons.prems h'(1) by (auto simp: pq_add_loop.simps [of c])
    moreover have "pq_next h' c = Some x" using h'(4) Cons.prems by auto
    ultimately show ?thesis using h' False by (auto simp: word_less_nat_alt)
  qed
qed

lemma pq_remove_loop_ok:
  assumes "pq_chain (pq_next h) c xs" "distinct xs" "c \<notin> Node ` set xs"
  shows "\<exists>h'. pq_remove_loop c n h = Some h' \<and> pq_chain (pq_next h') c (remove1 n xs) \<and> pq_prio h' = pq_prio h \<and>
    (\<forall>d. d \<noteq> c \<and> d \<notin> Node ` set xs \<longrightarrow> pq_next h' d = pq_next h d)"
  using assms
proof (induction xs arbitrary: c)
  case Nil
  then show ?case by (simp add: pq_remove_loop.simps)
next
  case (Cons x xs)
  show ?case
  proof (cases "x = n")
    case True
    let ?h = "set_next (Node n) None (set_next c (pq_next h (Node n)) h)"
    have "pq_remove_loop c n h = Some ?h" using True Cons.prems by (simp add: pq_remove_loop.simps)
    moreover have "pq_chain (pq_next ?h) c xs"
    proof (cases xs)
      case Nil
      with Cons.prems True show ?thesis by auto
    next
      case (Cons y ys)
      have "pq_chain (pq_next ?h) (Node y) ys"
        by (rule pq_chain_cong [of "pq_next h"]) (use Cons.prems True Cons in auto)
      with Cons.prems True Cons show ?thesis by auto
    qed
    ultimately show ?thesis using True by auto
  next
    case False
    have "\<exists>h'. pq_remove_loop (Node x) n h = Some h' \<and> pq_chain (pq_next h') (Node x) (remove1 n xs) \<and>
        pq_prio h' = pq_prio h \<and> (\<forall>d. d \<noteq> Node x \<and> d \<notin> Node ` set xs \<longrightarrow> pq_next h' d = pq_next h d)"
      using Cons.prems by (intro Cons.IH) auto
    then obtain h' where h': "pq_remove_loop (Node x) n h = Some h'" "pq_chain (pq_next h') (Node x) (remove1 n xs)"
      "pq_prio h' = pq_prio h" "\<forall>d. d \<noteq> Node x \<and> d \<notin> Node ` set xs \<longrightarrow> pq_next h' d = pq_next h d" by blast
    have "pq_remove_loop c n h = Some h'" using False Cons.prems h'(1) by (simp add: pq_remove_loop.simps [of c])
    moreover have "pq_next h' c = Some x" using h'(4) Cons.prems by auto
    ultimately show ?thesis using h' False by auto
  qed
qed

section \<open>Properties\<close>

fun pq_ops :: "'n list \<Rightarrow> 'n priority_queue \<Rightarrow> 'n priority_queue option" where
  "pq_ops [] h = Some h"
| "pq_ops (n # ns) h = (case priority_queue_add n h of None \<Rightarrow> None | Some h' \<Rightarrow> pq_ops ns h')"

fun pq_drain :: "nat \<Rightarrow> 'n priority_queue \<Rightarrow> 'n list" where
  "pq_drain 0 h = []"
| "pq_drain (Suc k) h =
     (case priority_queue_remove_head h of (None, h') \<Rightarrow> [] | (Some n, h') \<Rightarrow> n # pq_drain k h')"

lemma insert_by_prio_set: "set (insert_by_prio f x xs) = insert x (set xs)"
  by (induction xs) auto

lemma insert_by_prio_distinct: "distinct (insert_by_prio f x xs) \<longleftrightarrow> distinct (x # xs)"
  by (induction xs) (auto simp: insert_by_prio_set)

abbreviation pq_key :: "'n priority_queue \<Rightarrow> 'n \<Rightarrow> nat" where
  "pq_key h \<equiv> \<lambda>x. unat (pq_prio h x)"

lemma priority_queue_add_rep:
  assumes "pq_rep h xs" "n \<notin> set xs"
  shows "\<exists>h'. priority_queue_add n h = Some h' \<and> pq_prio h' = pq_prio h \<and> pq_rep h' (insert_by_prio (pq_key h) n xs)"
  using pq_add_loop_ok [of h Root xs n] assms
  by (fastforce simp: pq_rep_def priority_queue_add_def insert_by_prio_distinct)

lemma priority_queue_remove_rep:
  assumes "pq_rep h xs"
  shows "\<exists>h'. priority_queue_remove n h = Some h' \<and> pq_prio h' = pq_prio h \<and> pq_rep h' (remove1 n xs)"
  using pq_remove_loop_ok [of h Root xs n] assms
  by (fastforce simp: pq_rep_def priority_queue_remove_def)

lemma priority_queue_remove_head_rep:
  assumes "pq_rep h (x # xs)"
  shows "\<exists>h'. priority_queue_remove_head h = (Some x, h') \<and> pq_prio h' = pq_prio h \<and> pq_rep h' xs"
proof -
  have "pq_chain ((pq_next h)(Root := pq_next h (Node x))) Root xs"
  proof (cases xs)
    case (Cons y ys)
    have "pq_chain ((pq_next h)(Root := pq_next h (Node x))) (Node y) ys"
      by (rule pq_chain_cong [of "pq_next h"]) (use assms Cons in \<open>auto simp: pq_rep_def\<close>)
    then show ?thesis using assms Cons by (auto simp: pq_rep_def)
  qed (use assms in \<open>auto simp: pq_rep_def\<close>)
  then show ?thesis using assms by (auto simp: pq_rep_def priority_queue_remove_head_def)
qed

lemma pq_ops_rep:
  assumes "pq_rep h xs" "distinct (xs @ ns)"
  shows "\<exists>h'. pq_ops ns h = Some h' \<and> pq_prio h' = pq_prio h \<and> pq_rep h' (fold (insert_by_prio (pq_key h)) ns xs)"
  using assms
proof (induction ns arbitrary: h xs)
  case (Cons n ns)
  obtain h' where h': "priority_queue_add n h = Some h'" "pq_prio h' = pq_prio h"
      "pq_rep h' (insert_by_prio (pq_key h) n xs)"
    using priority_queue_add_rep [of h xs n] Cons.prems by auto
  have "distinct (insert_by_prio (pq_key h) n xs @ ns)"
    using Cons.prems by (auto simp: insert_by_prio_distinct insert_by_prio_set)
  with Cons.IH [OF h'(3)] h' show ?case by auto
qed simp

lemma pq_drain_rep: "pq_rep h xs \<Longrightarrow> pq_drain (length xs) h = xs"
proof (induction xs arbitrary: h)
  case (Cons x xs)
  then obtain h' where "priority_queue_remove_head h = (Some x, h')" "pq_rep h' xs"
    using priority_queue_remove_head_rep [of h x xs] by auto
  then show ?case using Cons.IH by simp
qed simp

text \<open>
  Any distinct nodes added to an initialised priority queue leave it in order of
  ascending \<open>priority\<close> and, among equals, in the order they were added: the additions
  terminate, none trips the double-insert assertion, and taking heads until the queue is empty
  yields exactly the stable sort of the nodes. Removing one node first yields the same order
  without that node, also when the node was never queued.
\<close>

theorem priority_queue_serves_in_order:
  fixes h :: "'n priority_queue"
  assumes "distinct ns"
  shows "\<exists>h1 h2. pq_ops ns (priority_queue_init h) = Some h1 \<and>
      pq_drain (length ns) h1 = sort_key (pq_key h) ns \<and>
      priority_queue_remove n h1 = Some h2 \<and>
      pq_drain (length (remove1 n ns)) h2 = remove1 n (sort_key (pq_key h) ns)"
proof -
  have rep0: "pq_rep (priority_queue_init h) []" "pq_prio (priority_queue_init h) = pq_prio h"
    by (simp_all add: pq_rep_def priority_queue_init_def)
  obtain h1 where h1: "pq_ops ns (priority_queue_init h) = Some h1" "pq_rep h1 (sort_key (pq_key h) ns)"
    using pq_ops_rep [OF rep0(1), of ns] rep0(2) assms by (auto simp: by_prio.serves_in_order)
  obtain h2 where h2: "priority_queue_remove n h1 = Some h2" "pq_rep h2 (remove1 n (sort_key (pq_key h) ns))"
    using priority_queue_remove_rep [OF h1(2)] by auto
  have "length (remove1 n (sort_key (pq_key h) ns)) = length (remove1 n ns)"
    by (simp add: length_remove1)
  with pq_drain_rep [OF h1(2)] pq_drain_rep [OF h2(2)] h1 h2 show ?thesis by auto
qed

definition pq_example :: "nat priority_queue" where
  "pq_example = \<lparr>pq_next = (\<lambda>_. None), pq_prio = (\<lambda>n. of_nat (n mod 2))\<rparr>"

theorem priority_queue_serves_in_order_witness:
  "distinct [1, 2, 3 :: nat] \<and>
   (\<exists>h1 h2. pq_ops [1, 2, 3] (priority_queue_init pq_example) = Some h1 \<and> pq_drain 3 h1 = [2, 1, 3] \<and>
      priority_queue_remove 1 h1 = Some h2 \<and> pq_drain 2 h2 = [2, 3])"
proof -
  have d: "distinct [1, 2, 3 :: nat]" by simp
  have e: "sort_key (pq_key pq_example) [1, 2, 3] = [2, 1, 3]" "length [1, 2, 3 :: nat] = 3"
    "length (remove1 1 [1, 2, 3 :: nat]) = 2" "remove1 1 [2, 1, 3 :: nat] = [2, 3]"
    by (simp_all add: pq_example_def)
  show ?thesis using d priority_queue_serves_in_order [OF d, of pq_example 1, unfolded e] by blast
qed

text \<open>
  The array of an index stack: cell 0 holds the top, cell \<open>i + 1\<close> the element below \<open>i\<close>,
  and \<open>-1\<close> ends the chain.
\<close>

fun lifo_chain :: "int list \<Rightarrow> int \<Rightarrow> nat list \<Rightarrow> bool" where
  "lifo_chain a t [] \<longleftrightarrow> t = - 1"
| "lifo_chain a t (x # xs) \<longleftrightarrow> t = int x \<and> Suc x < length a \<and> lifo_chain a (a ! Suc x) xs"

definition lifo_rep :: "int list \<Rightarrow> nat list \<Rightarrow> bool" where
  "lifo_rep a xs \<longleftrightarrow> a \<noteq> [] \<and> distinct xs \<and> lifo_chain a (a ! 0) xs"

lemma lifo_chain_cong:
  "lifo_chain a t xs \<Longrightarrow> length a' = length a \<Longrightarrow> (\<And>x. x \<in> set xs \<Longrightarrow> a' ! Suc x = a ! Suc x) \<Longrightarrow> lifo_chain a' t xs"
  by (induction xs arbitrary: t) auto

lemma lifo_insert_rep:
  assumes "lifo_rep a xs" "i \<notin> set xs" "Suc i < length a"
  shows "\<exists>a'. lifo_insert a (int i) = Some a' \<and> length a' = length a \<and> lifo_rep a' (i # xs)"
proof -
  have n: "nat (int i + 1) = Suc i" by simp
  have "lifo_chain (a[Suc i := a ! 0, 0 := int i]) (a ! 0) xs"
    by (rule lifo_chain_cong [of a]) (use assms in \<open>auto simp: lifo_rep_def nth_list_update\<close>)
  then show ?thesis using assms by (auto simp: lifo_insert_def lifo_rep_def n nth_list_update)
qed

lemma lifo_get_rep:
  assumes "lifo_rep a (i # xs)"
  shows "\<exists>a'. lifo_get a = Some (int i, a') \<and> length a' = length a \<and> lifo_rep a' xs"
proof -
  have n: "nat (int i + 1) = Suc i" by simp
  have "lifo_chain (a[0 := a ! Suc i]) (a ! Suc i) xs"
    by (rule lifo_chain_cong [of a]) (use assms in \<open>auto simp: lifo_rep_def nth_list_update\<close>)
  then show ?thesis using assms by (auto simp: lifo_get_def lifo_rep_def n nth_list_update Let_def)
qed

text \<open>A script of pushes and pops, and what it does to an abstract stack.\<close>

fun lifo_run :: "nat option list \<Rightarrow> int list \<Rightarrow> (int list \<times> int list) option" where
  "lifo_run [] a = Some ([], a)"
| "lifo_run (Some i # ops) a = (case lifo_insert a (int i) of None \<Rightarrow> None | Some a' \<Rightarrow> lifo_run ops a')"
| "lifo_run (None # ops) a = (case lifo_get a of None \<Rightarrow> None | Some (r, a') \<Rightarrow>
     map_option (\<lambda>(rs, a''). (r # rs, a'')) (lifo_run ops a'))"

fun stack_run :: "nat option list \<Rightarrow> nat list \<Rightarrow> int list \<times> nat list" where
  "stack_run [] xs = ([], xs)"
| "stack_run (Some i # ops) xs = stack_run ops (i # xs)"
| "stack_run (None # ops) [] = (let (rs, ys) = stack_run ops [] in (- 1 # rs, ys))"
| "stack_run (None # ops) (x # xs) = (let (rs, ys) = stack_run ops xs in (int x # rs, ys))"

fun stack_ok :: "nat \<Rightarrow> nat option list \<Rightarrow> nat list \<Rightarrow> bool" where
  "stack_ok n [] xs \<longleftrightarrow> True"
| "stack_ok n (Some i # ops) xs \<longleftrightarrow> i < n \<and> i \<notin> set xs \<and> stack_ok n ops (i # xs)"
| "stack_ok n (None # ops) xs \<longleftrightarrow> stack_ok n ops (tl xs)"

lemma lifo_run_rep:
  "lifo_rep a xs \<Longrightarrow> stack_ok (length a - 1) ops xs \<Longrightarrow>
   \<exists>a'. lifo_run ops a = Some (fst (stack_run ops xs), a') \<and> lifo_rep a' (snd (stack_run ops xs))"
proof (induction ops xs arbitrary: a rule: stack_run.induct)
  case (2 i ops xs)
  then have "Suc i < length a" by auto
  with 2 obtain a' where "lifo_insert a (int i) = Some a'" "length a' = length a" "lifo_rep a' (i # xs)"
    using lifo_insert_rep [of a xs i] by auto
  with 2 show ?case by auto
next
  case (3 ops)
  then have "lifo_get a = Some (- 1, a)" by (auto simp: lifo_get_def lifo_rep_def Let_def)
  with 3 show ?case by (fastforce simp: split_def Let_def)
next
  case (4 ops x xs)
  then obtain a' where "lifo_get a = Some (int x, a')" "length a' = length a" "lifo_rep a' xs"
    using lifo_get_rep [of a x xs] by auto
  with 4 show ?case by (fastforce simp: split_def Let_def)
qed auto

text \<open>
  After \<open>lifo_init(array, n)\<close> on an array of \<open>n + 1\<close> cells, any sequence of
  \<open>lifo_insert\<close> and \<open>lifo_get\<close> that inserts indices below \<open>n\<close> which are not in the stack
  at that moment behaves like a stack: it never indexes outside the array, every \<open>lifo_get\<close>
  returns the youngest remaining index or \<open>-1\<close> when there is none, and \<open>lifo_empty\<close> tells
  whether anything remains.
\<close>

theorem lifo_is_stack:
  assumes "length a = Suc n" "stack_ok n ops []"
  shows "\<exists>a0 a'. lifo_init a n = Some a0 \<and> lifo_run ops a0 = Some (fst (stack_run ops []), a') \<and>
    lifo_empty a' = (snd (stack_run ops []) = [])"
proof -
  have i: "lifo_init a n = Some (replicate (Suc n) (- 1))" using assms by (simp add: lifo_init_def)
  have "lifo_rep (replicate (Suc n) (- 1)) []" by (simp add: lifo_rep_def)
  then obtain a' where a': "lifo_run ops (replicate (Suc n) (- 1)) = Some (fst (stack_run ops []), a')"
      "lifo_rep a' (snd (stack_run ops []))"
    using lifo_run_rep [of "replicate (Suc n) (- 1)" "[]" ops] assms by auto
  have "lifo_empty a' = (snd (stack_run ops []) = [])"
    using a'(2) by (cases "snd (stack_run ops [])") (auto simp: lifo_empty_def lifo_rep_def)
  with i a' show ?thesis by blast
qed

theorem lifo_is_stack_witness:
  "\<exists>a0 a'. lifo_init [7, 7, 7, 7] 3 = Some a0 \<and>
     lifo_run [Some 2, Some 0, None, Some 1, None, None, None] a0 = Some ([0, 1, 2, - 1], a') \<and> lifo_empty a'"
  using lifo_is_stack [of "[7, 7, 7, 7]" 3 "[Some 2, Some 0, None, Some 1, None, None, None]"] by simp

end
