(* ===== verification/Mem.thy ===== *)
theory Mem
  imports Riot_Prelude
begin

text \<open>
  Character buffers: pointers that may be NULL, bounds-checked stores, the library calls
  \<open>memset\<close> and \<open>memmove\<close>, and the effect of writing a block of bytes. A pointer points
  into the one buffer an operation writes to, or it is NULL; arithmetic on NULL gives a
  pointer that is no longer equal to NULL and still points to no buffer. Every access outside
  the buffer is the result \<open>None\<close>.
\<close>

section \<open>Pointers and stores\<close>

datatype ptr = NullPlus nat | At nat

abbreviation NULL :: ptr where
  "NULL \<equiv> NullPlus 0"

fun padd :: "ptr \<Rightarrow> nat \<Rightarrow> ptr" where
  "padd (NullPlus k) n = NullPlus (k + n)"
| "padd (At i) n = At (i + n)"

fun store :: "ptr \<Rightarrow> 'a \<Rightarrow> 'a list \<Rightarrow> 'a list option" where
  "store (NullPlus k) c buf = None"
| "store (At i) c buf = (if i < length buf then Some (buf[i := c]) else None)"

fun memset :: "ptr \<Rightarrow> 'a \<Rightarrow> nat \<Rightarrow> 'a list \<Rightarrow> 'a list option" where
  "memset p c 0 buf = Some buf"
| "memset p c (Suc n) buf = do { buf \<leftarrow> store p c buf; memset (padd p 1) c n buf }"

fun memmove :: "ptr \<Rightarrow> ptr \<Rightarrow> nat \<Rightarrow> 'a list \<Rightarrow> 'a list option" where
  "memmove (At d) (At s) n buf =
     (if s + n \<le> length buf \<and> d + n \<le> length buf
      then Some (take d buf @ take n (drop s buf) @ drop (d + n) buf) else None)"
| "memmove d s n buf = (if n = 0 then Some buf else None)"

section \<open>Blocks\<close>

text \<open>The buffer after the bytes \<open>s\<close> were written from position \<open>i\<close> on.\<close>

definition blit :: "nat \<Rightarrow> 'a list \<Rightarrow> 'a list \<Rightarrow> 'a list" where
  "blit i s buf = take i buf @ s @ drop (i + length s) buf"

lemma length_blit [simp]: "i + length s \<le> length buf \<Longrightarrow> length (blit i s buf) = length buf"
  by (simp add: blit_def)

lemma blit_Nil [simp]: "blit i [] buf = buf"
  by (simp add: blit_def)

lemma store_At: "i < length buf \<Longrightarrow> store (At i) c buf = Some (blit i [c] buf)"
  by (simp add: blit_def upd_conv_take_nth_drop)

lemma blit_after: "i + length s \<le> length buf \<Longrightarrow> blit (i + length s) t (blit i s buf) = blit i (s @ t) buf"
  by (simp add: blit_def add.commute add.left_commute)

lemma blit_before:
  "i + length s + length t \<le> length buf \<Longrightarrow> blit i s (blit (i + length s) t buf) = blit i (s @ t) buf"
  by (simp add: blit_def add.assoc)

lemma blit_within:
  assumes "k + length t \<le> length s" "i + length s \<le> length buf"
  shows "blit (i + k) t (blit i s buf) = blit i (take k s @ t @ drop (k + length t) s) buf"
  using assms by (simp add: blit_def add.assoc)

lemma store_within:
  "j < length s \<Longrightarrow> i + length s \<le> length buf \<Longrightarrow> store (At (i + j)) c (blit i s buf) = Some (blit i (s[j := c]) buf)"
  by (simp add: blit_def list_update_append)

lemma store_behind:
  assumes "i + length s < length buf"
  shows "store (At (i + length s)) c (blit i s buf) = Some (blit i (s @ [c]) buf)"
  using store_At [of "i + length s" "blit i s buf" c] blit_after [of i s buf "[c]"] assms by simp

lemma take_blit [simp]: "i + length s \<le> length buf \<Longrightarrow> take i (blit i s buf) = take i buf"
  by (simp add: blit_def)

lemma take_drop_blit: "i + length s \<le> length buf \<Longrightarrow> take (length s) (drop i (blit i s buf)) = s"
  by (simp add: blit_def)

lemma memset_At: "i + n \<le> length buf \<Longrightarrow> memset (At i) c n buf = Some (blit i (replicate n c) buf)"
proof (induction n arbitrary: i buf)
  case (Suc n)
  have "memset (At i) c (Suc n) buf = memset (At (Suc i)) c n (blit i [c] buf)"
    using Suc.prems by (simp add: store_At del: store.simps)
  also have "\<dots> = Some (blit (Suc i) (replicate n c) (blit i [c] buf))"
    using Suc.prems by (intro Suc.IH) simp
  also have "blit (Suc i) (replicate n c) (blit i [c] buf) = blit i (replicate (Suc n) c) buf"
    using blit_after [of i "[c]" buf "replicate n c"] Suc.prems by simp
  finally show ?case .
qed simp

end
