(* ===== verification/Fmt.thy ===== *)
theory Fmt
  imports Mem
begin

text \<open>
  Formatting and scanning of numbers and bytes (sys/fmt/fmt.c). A formatter takes its output
  pointer, the value and the buffer, and returns the number of characters with the buffer;
  characters are bytes, with '0' = 48, 'A' = 65, 'a' = 97, '-' = 45 and '.' = 46.
\<close>

section \<open>Character classes and tables\<close>

definition fmt_is_digit :: "u8 \<Rightarrow> bool" where
  "fmt_is_digit c \<longleftrightarrow> c \<ge> 48 \<and> c \<le> 57"

definition fmt_is_upper :: "u8 \<Rightarrow> bool" where
  "fmt_is_upper c \<longleftrightarrow> c \<ge> 65 \<and> c \<le> 90"

definition hex_chars :: "u8 list" where
  "hex_chars = [48, 49, 50, 51, 52, 53, 54, 55, 56, 57, 65, 66, 67, 68, 69, 70]"

definition tenmap :: "u32 list" where
  "tenmap = [0, 10, 100, 1000, 10000, 100000, 1000000, 10000000]"

definition to_lower :: "u8 \<Rightarrow> u8" where
  "to_lower c = 97 + (c - 65)"

text \<open>Strings are NUL-terminated; running over the end of the memory is \<open>None\<close>.\<close>

fun all_digits :: "u8 list \<Rightarrow> bool option" where
  "all_digits [] = None"
| "all_digits (c # str) = (if c = 0 then Some True else if \<not> fmt_is_digit c then Some False else all_digits str)"

definition fmt_is_number :: "u8 list option \<Rightarrow> bool option" where
  "fmt_is_number str =
     (case str of
        None \<Rightarrow> Some False
      | Some [] \<Rightarrow> None
      | Some (c # cs) \<Rightarrow> if c = 0 then Some False else all_digits (c # cs))"

fun fmt_strlen :: "u8 list \<Rightarrow> nat option" where
  "fmt_strlen [] = None"
| "fmt_strlen (c # str) = (if c = 0 then Some 0 else map_option Suc (fmt_strlen str))"

fun fmt_strnlen :: "u8 list \<Rightarrow> nat \<Rightarrow> nat option" where
  "fmt_strnlen [] maxlen = None"
| "fmt_strnlen (c # str) maxlen =
     (if c = 0 \<or> maxlen = 0 then Some 0 else map_option Suc (fmt_strnlen str (maxlen - 1)))"

section \<open>Bytes as hexadecimal digits\<close>

definition fmt_byte_hex :: "ptr \<Rightarrow> u8 \<Rightarrow> u8 list \<Rightarrow> (nat \<times> u8 list) option" where
  "fmt_byte_hex out byte buf =
     (if out \<noteq> NULL then
        do { buf \<leftarrow> store out (hex_chars ! unat (drop_bit 4 byte)) buf;
             buf \<leftarrow> store (padd out 1) (hex_chars ! unat (byte AND 0x0F)) buf;
             Some (2, buf) }
      else Some (2, buf))"

fun bytes_hex_loop :: "ptr \<Rightarrow> u8 list \<Rightarrow> u8 list \<Rightarrow> (ptr \<times> u8 list) option" where
  "bytes_hex_loop out [] buf = Some (out, buf)"
| "bytes_hex_loop out (b # bs) buf =
     do { (k, buf) \<leftarrow> fmt_byte_hex out b buf; bytes_hex_loop (padd out k) bs buf }"

definition fmt_bytes_hex :: "ptr \<Rightarrow> u8 list \<Rightarrow> u8 list \<Rightarrow> (nat \<times> u8 list) option" where
  "fmt_bytes_hex out bytes buf =
     do { let len = length bytes * 2;
          if out \<noteq> NULL then do { (out, buf) \<leftarrow> bytes_hex_loop out bytes buf; Some (len, buf) }
          else Some (len, buf) }"

definition fmt_bytes_hex_reverse :: "ptr \<Rightarrow> u8 list \<Rightarrow> u8 list \<Rightarrow> (nat \<times> u8 list) option" where
  "fmt_bytes_hex_reverse out bytes buf =
     do { (out, buf) \<leftarrow> bytes_hex_loop out (rev bytes) buf; Some (length bytes * 2, buf) }"

definition fmt_str :: "ptr \<Rightarrow> u8 list \<Rightarrow> u8 list \<Rightarrow> (nat \<times> u8 list) option" where
  "fmt_str out str buf =
     do { len \<leftarrow> fmt_strlen str;
          if out = NULL then Some (len, buf)
          else
            do { buf \<leftarrow> fold (\<lambda>i b. Option.bind b (store (padd out i) (str ! i))) [0..<len] (Some buf);
                 Some (len, buf) } }"

function byte_mod25_loop :: "nat \<Rightarrow> u8 \<Rightarrow> u8" where
  "byte_mod25_loop divisor x =
     (if divisor \<ge> 25 then byte_mod25_loop (divisor div 2) (if unat x \<ge> divisor then x - of_nat divisor else x)
      else x)"
  by pat_completeness auto
termination by (relation "measure fst") auto

declare byte_mod25_loop.simps [simp del]

definition byte_mod25 :: "u8 \<Rightarrow> u8" where
  "byte_mod25 x = byte_mod25_loop 200 x"

definition hex_nib :: "u8 \<Rightarrow> u8" where
  "hex_nib nib = byte_mod25 ((nib AND 0x1f) + 9)"

definition fmt_hex_byte :: "u8 \<Rightarrow> u8 \<Rightarrow> u8" where
  "fmt_hex_byte h0 h1 = push_bit 4 (hex_nib h0) OR hex_nib h1"

fun hex_bytes_loop :: "nat \<Rightarrow> nat \<Rightarrow> ptr \<Rightarrow> u8 list \<Rightarrow> u8 list \<Rightarrow> u8 list option" where
  "hex_bytes_loop 0 i out hex buf = Some buf"
| "hex_bytes_loop (Suc k) i out hex buf =
     do { buf \<leftarrow> store out (fmt_hex_byte (hex ! i) (hex ! (i + 1))) buf;
          hex_bytes_loop k (i + 2) (padd out 1) hex buf }"

definition fmt_hex_bytes :: "ptr \<Rightarrow> u8 list \<Rightarrow> u8 list \<Rightarrow> (nat \<times> u8 list) option" where
  "fmt_hex_bytes out hex buf =
     do { len \<leftarrow> fmt_strlen hex;
          if odd len then Some (0, buf)
          else
            do { let final_len = len div 2;
                 if out = NULL then Some (final_len, buf)
                 else do { buf \<leftarrow> hex_bytes_loop final_len 0 out hex buf; Some (final_len, buf) } } }"

text \<open>The bytes of an integer object in memory, least significant first.\<close>

definition le_bytes :: "nat \<Rightarrow> 'a::len word \<Rightarrow> u8 list" where
  "le_bytes n w = map (\<lambda>i. ucast (drop_bit (8 * i) w)) [0..<n]"

definition fmt_u16_hex :: "ptr \<Rightarrow> u16 \<Rightarrow> u8 list \<Rightarrow> (nat \<times> u8 list) option" where
  "fmt_u16_hex out val buf = fmt_bytes_hex_reverse out (le_bytes 2 val) buf"

definition fmt_u32_hex :: "ptr \<Rightarrow> u32 \<Rightarrow> u8 list \<Rightarrow> (nat \<times> u8 list) option" where
  "fmt_u32_hex out val buf = fmt_bytes_hex_reverse out (le_bytes 4 val) buf"

definition fmt_u64_hex :: "ptr \<Rightarrow> u64 \<Rightarrow> u8 list \<Rightarrow> (nat \<times> u8 list) option" where
  "fmt_u64_hex out val buf = fmt_bytes_hex_reverse out (le_bytes 8 val) buf"

section \<open>Decimal numbers\<close>

partial_function (option) u32_len_loop :: "u32 \<Rightarrow> u32 \<Rightarrow> nat \<Rightarrow> nat option" where
  "u32_len_loop tmp val len = (if tmp \<le> val then u32_len_loop (tmp * 10) val (len + 1) else Some len)"

text \<open>The loop that writes digits towards lower addresses, from the end \<open>p\<close> of the field.\<close>

function u32_digits_loop :: "nat \<Rightarrow> u32 \<Rightarrow> u8 list \<Rightarrow> u8 list option" where
  "u32_digits_loop p val buf =
     do { buf \<leftarrow> (if p = 0 then None else store (At (p - 1)) (ucast (val mod 10) + 48) buf);
          if val div 10 \<noteq> 0 then u32_digits_loop (p - 1) (val div 10) buf else Some buf }"
  by pat_completeness auto
termination
proof (relation "measure (\<lambda>(p, val, buf). unat val)")
  fix p :: nat and val :: u32 and buf x :: "u8 list"
  assume "val div 10 \<noteq> 0"
  then have "unat val \<noteq> 0" by (metis div_0 unat_eq_zero)
  then show "((p - 1, val div 10, x), p, val, buf) \<in> measure (\<lambda>(p, val, buf). unat val)"
    by (simp add: unat_div)
qed simp

definition fmt_u32_dec :: "ptr \<Rightarrow> u32 \<Rightarrow> u8 list \<Rightarrow> (nat \<times> u8 list) option" where
  "fmt_u32_dec out val buf =
     do { len \<leftarrow> (if val \<ge> 1000000000 then Some 10 else u32_len_loop 10 val 1);
          case out of
            At i \<Rightarrow> do { buf \<leftarrow> u32_digits_loop (i + len) val buf; Some (len, buf) }
          | NullPlus k \<Rightarrow> if k = 0 then Some (len, buf) else None }"

definition fmt_u16_dec :: "ptr \<Rightarrow> u16 \<Rightarrow> u8 list \<Rightarrow> (nat \<times> u8 list) option" where
  "fmt_u16_dec out val buf = fmt_u32_dec out (ucast val) buf"

definition u64_limbs :: "u64 \<Rightarrow> u32 list" where
  "u64_limbs val =
     (let e0 = ucast (val AND 0xFFFF);
          e1 = ucast (drop_bit 16 val AND 0xFFFF);
          e2 = ucast (drop_bit 32 val AND 0xFFFF);
          e3 = ucast (drop_bit 48 val AND 0xFFFF);
          f0 = 656 * e3 + 7296 * e2 + 5536 * e1 + e0;
          f1 = f0 div 10000 + 7671 * e3 + 9496 * e2 + 6 * e1;
          f2 = f1 div 10000 + 4749 * e3 + 42 * e2;
          f3 = f2 div 10000 + 281 * e3
      in [f0 mod 10000, f1 mod 10000, f2 mod 10000, f3 mod 10000, f3 div 10000])"

fun first_limb :: "u32 list \<Rightarrow> nat \<Rightarrow> nat" where
  "first_limb d 0 = 0"
| "first_limb d (Suc f) = (if d ! Suc f = 0 then first_limb d f else Suc f)"

fun limbs_loop :: "u32 list \<Rightarrow> nat \<Rightarrow> ptr \<Rightarrow> u8 list \<Rightarrow> u8 list option" where
  "limbs_loop d 0 out buf = Some buf"
| "limbs_loop d (Suc f) out buf =
     do { buf \<leftarrow> (if d ! f \<noteq> 0 then
              do { (tmp, buf) \<leftarrow> fmt_u32_dec NULL (d ! f) buf;
                   (k, buf) \<leftarrow> fmt_u32_dec (padd out (4 - tmp)) (d ! f) buf;
                   Some buf }
            else Some buf);
          limbs_loop d f (padd out 4) buf }"

definition fmt_u64_dec :: "ptr \<Rightarrow> u64 \<Rightarrow> u8 list \<Rightarrow> (nat \<times> u8 list) option" where
  "fmt_u64_dec out val buf =
     do { let d = u64_limbs val;
          let first = first_limb d 4;
          (len, buf) \<leftarrow> fmt_u32_dec out (d ! first) buf;
          let total_len = len + first * 4;
          if out \<noteq> NULL then
            do { let out = padd out len;
                 buf \<leftarrow> memset out 48 (total_len - len) buf;
                 buf \<leftarrow> limbs_loop d first out buf;
                 Some (total_len, buf) }
          else Some (total_len, buf) }"

text \<open>The sign and the magnitude as an unsigned number, shared by the signed formatters.\<close>

definition put_sign :: "ptr \<Rightarrow> bool \<Rightarrow> u8 list \<Rightarrow> (ptr \<times> u8 list) option" where
  "put_sign out negative buf =
     (if negative \<and> out \<noteq> NULL then do { buf \<leftarrow> store out 45 buf; Some (padd out 1, buf) } else Some (out, buf))"

definition fmt_s64_dec :: "ptr \<Rightarrow> u64 \<Rightarrow> u8 list \<Rightarrow> (nat \<times> u8 list) option" where
  "fmt_s64_dec out val buf =
     do { let negative = sint val < 0;
          (out, buf) \<leftarrow> put_sign out negative buf;
          (len, buf) \<leftarrow> fmt_u64_dec out (if negative then - val else val) buf;
          Some (len + (if negative then 1 else 0), buf) }"

definition fmt_s32_dec :: "ptr \<Rightarrow> u32 \<Rightarrow> u8 list \<Rightarrow> (nat \<times> u8 list) option" where
  "fmt_s32_dec out val buf =
     do { let negative = sint val < 0;
          (out, buf) \<leftarrow> put_sign out negative buf;
          (len, buf) \<leftarrow> fmt_u32_dec out (if negative then - val else val) buf;
          Some (len + (if negative then 1 else 0), buf) }"

definition fmt_s16_dec :: "ptr \<Rightarrow> u16 \<Rightarrow> u8 list \<Rightarrow> (nat \<times> u8 list) option" where
  "fmt_s16_dec out val buf = fmt_s32_dec out (scast val) buf"

section \<open>Padding, fixed point numbers\<close>

fun lpad_move_loop :: "nat \<Rightarrow> nat \<Rightarrow> nat \<Rightarrow> u8 list \<Rightarrow> u8 list option" where
  "lpad_move_loop pos out 0 buf = Some buf"
| "lpad_move_loop pos out (Suc in_len) buf =
     do { buf \<leftarrow> (if pos = 0 \<or> out = 0 \<or> length buf < out then None else store (At (pos - 1)) (buf ! (out - 1)) buf);
          lpad_move_loop (pos - 1) (out - 1) in_len buf }"

fun lpad_fill_loop :: "nat \<Rightarrow> u8 \<Rightarrow> nat \<Rightarrow> u8 list \<Rightarrow> u8 list option" where
  "lpad_fill_loop pos c 0 buf = Some buf"
| "lpad_fill_loop pos c (Suc n) buf =
     do { buf \<leftarrow> (if pos = 0 then None else store (At (pos - 1)) c buf);
          lpad_fill_loop (pos - 1) c n buf }"

definition fmt_lpad :: "bool \<Rightarrow> ptr \<Rightarrow> nat \<Rightarrow> nat \<Rightarrow> u8 \<Rightarrow> u8 list \<Rightarrow> (nat \<times> u8 list) option" where
  "fmt_lpad use_memmove out in_len pad_len pad_char buf =
     (if in_len \<ge> pad_len then Some (in_len, buf)
      else
        (case out of
           NullPlus k \<Rightarrow> if k = 0 then Some (pad_len, buf) else None
         | At i \<Rightarrow>
             do { let n = pad_len - in_len;
                  if use_memmove then
                    do { buf \<leftarrow> memmove (padd out n) out in_len buf;
                         buf \<leftarrow> memset out pad_char n buf;
                         Some (pad_len, buf) }
                  else
                    do { buf \<leftarrow> lpad_move_loop (i + pad_len) (i + in_len) in_len buf;
                         buf \<leftarrow> lpad_fill_loop (i + pad_len - in_len) pad_char n buf;
                         Some (pad_len, buf) } }))"

text \<open>Division of C, which rounds towards zero.\<close>

definition cdiv :: "int \<Rightarrow> int \<Rightarrow> int" where
  "cdiv a b = sgn a * sgn b * (\<bar>a\<bar> div \<bar>b\<bar>)"

text \<open>The part of \<open>fmt_s32_dfp\<close> that writes sign, integer part, point and fraction.\<close>

definition dfp_fraction :: "ptr \<Rightarrow> bool \<Rightarrow> u32 \<Rightarrow> u32 \<Rightarrow> nat \<Rightarrow> u8 list \<Rightarrow> (nat \<times> u8 list) option" where
  "dfp_fraction out negative absv dv fp_digits buf =
     do { (pos, buf) \<leftarrow> (if absv = 0 \<and> negative then
              do { buf \<leftarrow> (if out \<noteq> NULL then store out 45 buf else Some buf); Some (1, buf) }
            else Some (0, buf));
          (pos, buf) \<leftarrow> (if out = NULL then
              do { (k, buf) \<leftarrow> fmt_s32_dec NULL absv buf; Some (pos + k + 1, buf) }
            else
              do { (k, buf) \<leftarrow> fmt_s32_dec (padd out pos) absv buf;
                   let pos = pos + k;
                   buf \<leftarrow> store (padd out pos) 46 buf;
                   let pos = pos + 1;
                   (div_len, buf) \<leftarrow> fmt_s32_dec (padd out pos) dv buf;
                   (l, buf) \<leftarrow> fmt_lpad True (padd out pos) div_len fp_digits 48 buf;
                   Some (pos, buf) });
          Some (pos + fp_digits, buf) }"

definition fmt_s32_dfp :: "ptr \<Rightarrow> u32 \<Rightarrow> int \<Rightarrow> u8 list \<Rightarrow> (nat \<times> u8 list) option" where
  "fmt_s32_dfp out val fp_digits buf =
     (if \<not> fp_digits > - int (length tenmap) then None
      else if fp_digits = 0 then fmt_s32_dec out val buf
      else if fp_digits > 0 then
        do { (pos, buf) \<leftarrow> fmt_s32_dec out val buf;
             buf \<leftarrow> (if out \<noteq> NULL then memset (padd out pos) 48 (nat fp_digits) buf else Some buf);
             Some (pos + nat fp_digits, buf) }
      else
        (let fp_digits = nat (- fp_digits);
             e = tenmap ! fp_digits;
             absv = word_of_int (cdiv (sint val) (sint e)) :: u32;
             dv = val - absv * e;
             dv = (if sint dv < 0 then dv * (- 1) else dv)
         in dfp_fraction out (sint val < 0) absv dv fp_digits buf))"

definition fmt_s16_dfp :: "ptr \<Rightarrow> u16 \<Rightarrow> int \<Rightarrow> u8 list \<Rightarrow> (nat \<times> u8 list) option" where
  "fmt_s16_dfp out val fp_digits buf = fmt_s32_dfp out (scast val) fp_digits buf"

section \<open>Characters and scanning\<close>

definition fmt_char :: "ptr \<Rightarrow> u8 \<Rightarrow> u8 list \<Rightarrow> (nat \<times> u8 list) option" where
  "fmt_char out c buf =
     do { buf \<leftarrow> (if out \<noteq> NULL then store out c buf else Some buf); Some (1, buf) }"

fun to_lower_loop :: "ptr \<Rightarrow> u8 list \<Rightarrow> nat \<Rightarrow> u8 list \<Rightarrow> (nat \<times> u8 list) option" where
  "to_lower_loop out [] len buf = None"
| "to_lower_loop out (c # str) len buf =
     (if c = 0 then Some (len, buf)
      else
        do { buf \<leftarrow> (if out \<noteq> NULL then store out (if fmt_is_upper c then to_lower c else c) buf else Some buf);
             to_lower_loop (if out \<noteq> NULL then padd out 1 else out) str (len + 1) buf })"

definition fmt_to_lower :: "ptr \<Rightarrow> u8 list option \<Rightarrow> u8 list \<Rightarrow> (nat \<times> u8 list) option" where
  "fmt_to_lower out str buf =
     (case str of None \<Rightarrow> Some (0, buf) | Some str \<Rightarrow> to_lower_loop out str 0 buf)"

fun scn_u32_dec_loop :: "u8 list \<Rightarrow> nat \<Rightarrow> u32 \<Rightarrow> u32 option" where
  "scn_u32_dec_loop str 0 res = Some res"
| "scn_u32_dec_loop [] (Suc n) res = None"
| "scn_u32_dec_loop (c # str) (Suc n) res =
     (if \<not> fmt_is_digit c then Some res else scn_u32_dec_loop str n (res * 10 + ucast (c - 48)))"

definition scn_u32_dec :: "u8 list \<Rightarrow> nat \<Rightarrow> u32 option" where
  "scn_u32_dec str n = scn_u32_dec_loop str n 0"

text \<open>The value or-ed into the result is an \<open>int\<close>, negative for characters below 'W'.\<close>

fun scn_u32_hex_loop :: "u8 list \<Rightarrow> nat \<Rightarrow> u32 \<Rightarrow> u32 option" where
  "scn_u32_hex_loop str 0 res = Some res"
| "scn_u32_hex_loop [] (Suc n) res = None"
| "scn_u32_hex_loop (c # str) (Suc n) res =
     (if \<not> fmt_is_digit c then
        (let c = (if fmt_is_upper c then to_lower c else c)
         in if c = 0 \<or> c > 102 then Some res
            else scn_u32_hex_loop str n (push_bit 4 res OR word_of_int (uint c - 97 + 10)))
      else scn_u32_hex_loop str n (push_bit 4 res OR word_of_int (uint c - 48)))"

definition scn_u32_hex :: "u8 list \<Rightarrow> nat \<Rightarrow> u32 option" where
  "scn_u32_hex str n = scn_u32_hex_loop str n 0"

end
