(* ===== verification/Fmt_Props.thy ===== *)
theory Fmt_Props
  imports Fmt
begin

text \<open>
  Correctness of the formatting functions: decimal, fixed point and hexadecimal output against
  reference notations, the bounds on their lengths, and reading the text back.
\<close>

section \<open>Decimal notation\<close>

fun dec :: "nat \<Rightarrow> u8 list" where
  "dec n = (if n < 10 then [of_nat n + 48] else dec (n div 10) @ [of_nat (n mod 10) + 48])"

declare dec.simps [simp del]

text \<open>The last \<open>k\<close> decimal digits.\<close>

fun padn :: "nat \<Rightarrow> nat \<Rightarrow> u8 list" where
  "padn 0 b = []"
| "padn (Suc k) b = padn k (b div 10) @ [of_nat (b mod 10) + 48]"

definition dec_int :: "int \<Rightarrow> u8 list" where
  "dec_int x = (if x < 0 then [45] else []) @ dec (nat \<bar>x\<bar>)"

lemma dec_not_Nil [simp]: "dec n \<noteq> []"
  by (subst dec.simps) simp

lemma dec_small: "n < 10 \<Longrightarrow> dec n = [of_nat n + 48]"
  by (subst dec.simps) simp

lemma dec_step: "\<not> n < 10 \<Longrightarrow> dec n = dec (n div 10) @ [of_nat (n mod 10) + 48]"
  by (subst dec.simps) simp

lemma length_dec: "10 ^ k \<le> n \<Longrightarrow> n < 10 ^ Suc k \<Longrightarrow> length (dec n) = Suc k"
proof (induction k arbitrary: n)
  case (Suc k)
  then have "10 ^ k \<le> n div 10" "n div 10 < 10 ^ Suc k" by (simp_all add: div_less_iff_less_mult less_eq_div_iff_mult_less_eq)
  with Suc.IH have "length (dec (n div 10)) = Suc k" by blast
  moreover have "(10 :: nat) \<le> 10 ^ Suc k" by (rule self_le_power) simp_all
  with Suc.prems(1) have "\<not> n < 10" by linarith
  ultimately show ?case by (simp add: dec_step)
qed (simp add: dec_small)

lemma length_padn [simp]: "length (padn k b) = k"
  by (induction k arbitrary: b) simp_all

lemma padn_add: "b < 10 ^ k \<Longrightarrow> padn (m + k) (a * 10 ^ k + b) = padn m a @ padn k b"
proof (induction k arbitrary: b)
  case (Suc k)
  have "(a * 10 ^ Suc k + b) div 10 = a * 10 ^ k + b div 10" "(a * 10 ^ Suc k + b) mod 10 = b mod 10"
    by (simp_all add: mod_add_left_eq [symmetric] mult.left_commute [of a])
  moreover have "b div 10 < 10 ^ k" using Suc.prems by (simp add: div_less_iff_less_mult)
  ultimately show ?case using Suc.IH by simp
qed simp

lemma dec_add: "0 < a \<Longrightarrow> b < 10 ^ k \<Longrightarrow> dec (a * 10 ^ k + b) = dec a @ padn k b"
proof (induction k arbitrary: b)
  case (Suc k)
  have e: "(a * 10 ^ Suc k + b) div 10 = a * 10 ^ k + b div 10" "(a * 10 ^ Suc k + b) mod 10 = b mod 10"
    by (simp_all add: mod_add_left_eq [symmetric] mult.left_commute [of a])
  have "(10 :: nat) \<le> 10 ^ Suc k" by (rule self_le_power) simp_all
  also have "10 ^ Suc k \<le> a * 10 ^ Suc k" using Suc.prems(1) by (cases a) simp_all
  finally have n: "\<not> a * 10 ^ Suc k + b < 10" by linarith
  have "b div 10 < 10 ^ k" using Suc.prems by (simp add: div_less_iff_less_mult)
  then show ?case unfolding dec_step [OF n] e using Suc.IH Suc.prems(1) by simp
qed simp

lemma padn_0: "padn k 0 = replicate k 48"
  by (induction k) (simp_all add: replicate_append_same)

lemma padn_dec: "b < 10 ^ k \<Longrightarrow> 0 < k \<Longrightarrow> padn k b = replicate (k - length (dec b)) 48 @ dec b \<and> length (dec b) \<le> k"
proof (induction k arbitrary: b)
  case (Suc k)
  show ?case
  proof (cases "b < 10")
    case True
    then show ?thesis by (simp add: dec_small padn_0)
  next
    case False
    then have "0 < k" using Suc.prems by (cases k) auto
    moreover have "b div 10 < 10 ^ k" using Suc.prems by (simp add: div_less_iff_less_mult)
    ultimately show ?thesis using Suc.IH False by (simp add: dec_step)
  qed
qed simp

section \<open>Decimal output is decimal notation\<close>

lemma ucast_digit: "(ucast (v mod 10 :: u32) :: u8) = of_nat (unat v mod 10)"
proof -
  have "(ucast (v mod 10 :: u32) :: u8) = of_nat (unat (v mod 10))" by simp
  also have "unat (v mod 10) = unat v mod 10" by (simp add: unat_mod)
  finally show ?thesis .
qed

lemma digits_loop_writes:
  "i + length (dec (unat v)) \<le> length buf \<Longrightarrow>
   u32_digits_loop (i + length (dec (unat v))) v buf = Some (blit i (dec (unat v)) buf)"
proof (induction "unat v" arbitrary: v buf rule: less_induct)
  case less
  let ?n = "unat v"
  show ?case
  proof (cases "?n < 10")
    case True
    then have "v div 10 = 0" by (simp add: unat_eq_zero [symmetric] unat_div)
    then show ?thesis using True less.prems
      by (simp add: u32_digits_loop.simps dec_small ucast_digit store_At del: store.simps)
  next
    case False
    let ?m = "unat (v div 10)" and ?b = "blit (i + length (dec (unat (v div 10)))) [of_nat (?n mod 10) + 48] buf"
    have m: "?m = ?n div 10" by (simp add: unat_div)
    with False have "v div 10 \<noteq> 0" "?m < ?n" by (auto simp: unat_eq_zero [symmetric])
    moreover have d: "dec ?n = dec ?m @ [of_nat (?n mod 10) + 48]" using False m by (simp add: dec_step)
    ultimately have "u32_digits_loop (i + length (dec ?n)) v buf = u32_digits_loop (i + length (dec ?m)) (v div 10) ?b"
      using less.prems by (subst u32_digits_loop.simps) (simp add: ucast_digit store_At del: store.simps)
    also have "\<dots> = Some (blit i (dec ?m) ?b)"
      using less.prems \<open>?m < ?n\<close> by (intro less.hyps) (simp_all add: d)
    also have "blit i (dec ?m) ?b = blit i (dec ?n) buf"
      using blit_before [of i "dec ?m" "[of_nat (?n mod 10) + 48]" buf] less.prems by (simp add: d)
    finally show ?thesis .
  qed
qed

lemma len_loop_counts:
  "unat v < 10 ^ 9 \<Longrightarrow> k + j = 8 \<Longrightarrow> k = 0 \<or> 10 ^ k \<le> unat v \<Longrightarrow>
   u32_len_loop (10 ^ Suc k) v (Suc k) = Some (length (dec (unat v)))"
proof (induction j arbitrary: k)
  case 0
  then have "unat v < unat (1000000000 :: u32)" by simp
  then have "\<not> (1000000000 :: u32) \<le> v" by (simp add: word_le_nat_alt)
  moreover have "length (dec (unat v)) = 9" using 0 length_dec [of 8 "unat v"] by simp
  ultimately show ?case using 0 by (simp add: u32_len_loop.simps)
next
  case (Suc j)
  then have k: "Suc k \<in> {1, 2, 3, 4, 5, 6, 7, 8}" by auto
  then have w: "unat (10 ^ Suc k :: u32) = 10 ^ Suc k" by (elim insertE) simp_all
  show ?case
  proof (cases "10 ^ Suc k \<le> unat v")
    case True
    then have "(10 :: u32) ^ Suc k \<le> v" by (simp only: word_le_nat_alt w)
    then have "u32_len_loop (10 ^ Suc k) v (Suc k) = u32_len_loop (10 ^ Suc (Suc k)) v (Suc (Suc k))"
      by (subst u32_len_loop.simps) (simp add: mult.commute)
    also have "\<dots> = Some (length (dec (unat v)))" using Suc True by (intro Suc.IH) simp_all
    finally show ?thesis .
  next
    case False
    then have "\<not> (10 :: u32) ^ Suc k \<le> v" by (simp only: word_le_nat_alt w not_False_eq_True)
    moreover have "length (dec (unat v)) = Suc k"
      using False Suc.prems length_dec [of k "unat v"] by (cases "k = 0") (auto simp: dec_small)
    ultimately show ?thesis by (subst u32_len_loop.simps) simp
  qed
qed

lemma u32_len: "(if v \<ge> 1000000000 then Some 10 else u32_len_loop 10 v 1) = Some (length (dec (unat v)))"
proof (cases "v \<ge> 1000000000")
  case True
  then have "10 ^ 9 \<le> unat v" by (simp add: word_le_nat_alt)
  moreover have "unat v < 10 ^ Suc 9" using unsigned_less [of v, where ?'a = nat] by simp
  ultimately show ?thesis using True length_dec [of 9 "unat v"] by simp
next
  case False
  then have "unat v < 10 ^ 9" by (simp add: word_le_nat_alt)
  then show ?thesis using False len_loop_counts [of v 0 8] by simp
qed

lemma fmt_u32_dec_NULL [simp]: "fmt_u32_dec NULL v buf = Some (length (dec (unat v)), buf)"
  by (simp only: fmt_u32_dec_def u32_len) simp

lemma fmt_u32_dec_At [simp]:
  "i + length (dec (unat v)) \<le> length buf \<Longrightarrow>
   fmt_u32_dec (At i) v buf = Some (length (dec (unat v)), blit i (dec (unat v)) buf)"
  by (simp only: fmt_u32_dec_def u32_len) (simp add: digits_loop_writes del: u32_digits_loop.simps)

section \<open>64-bit and signed numbers\<close>

lemma unat_limb: "unat (ucast (drop_bit k (v :: u64) AND 0xFFFF) :: u32) = unat v div 2 ^ k mod 65536"
proof -
  have m: "drop_bit k v AND 0xFFFF = take_bit 16 (drop_bit k v)"
    by (simp add: take_bit_eq_mask mask_eq_decr_exp)
  have "unat (take_bit 16 (drop_bit k v)) = unat v div 2 ^ k mod 65536"
    by (simp add: take_bit_eq_mod unat_mod unat_drop_bit_div)
  moreover have "unat (ucast (take_bit 16 (drop_bit k v)) :: u32) = unat (take_bit 16 (drop_bit k v))"
    by (subst unsigned_ucast_eq) (simp only: calculation, simp add: take_bit_eq_mod)
  ultimately show ?thesis by (simp only: m)
qed

lemma u32_of_nat_div: "n < 2 ^ 32 \<Longrightarrow> (of_nat n :: u32) div 10000 = of_nat (n div 10000)"
  by (rule word_unat_eq_iff [THEN iffD2]) (simp add: unat_div unat_of_nat)

lemma unat_u32_of_nat: "n < 2 ^ 32 \<Longrightarrow> unat (of_nat n :: u32) = n"
  by (simp add: unat_of_nat)

lemma u64_limbs_eq:
  fixes v :: u64
  defines "E k \<equiv> unat v div 2 ^ k mod 65536"
  defines "F0 \<equiv> 656 * E 48 + 7296 * E 32 + 5536 * E 16 + E 0"
  defines "F1 \<equiv> F0 div 10000 + 7671 * E 48 + 9496 * E 32 + 6 * E 16"
  defines "F2 \<equiv> F1 div 10000 + 4749 * E 48 + 42 * E 32"
  defines "F3 \<equiv> F2 div 10000 + 281 * E 48"
  shows "map unat (u64_limbs v) = [F0 mod 10000, F1 mod 10000, F2 mod 10000, F3 mod 10000, F3 div 10000]"
    and "unat v = F0 mod 10000 + 10000 * (F1 mod 10000) + 10 ^ 8 * (F2 mod 10000) + 10 ^ 12 * (F3 mod 10000)
      + 10 ^ 16 * (F3 div 10000)"
    and "F3 div 10000 < 10000"
proof -
  have E: "E k < 65536" for k by (simp add: E_def)
  have e: "ucast (drop_bit k v AND 0xFFFF) = (of_nat (E k) :: u32)" for k
    using unat_limb [of k v] by (simp add: E_def word_unat_eq_iff unat_of_nat)
  have b0: "F0 < 885000000" using E [of 0] E [of 16] E [of 32] E [of 48] unfolding F0_def by linarith
  have b1: "F1 < 2 ^ 31" using E [of 16] E [of 32] E [of 48] b0 div_le_dividend [of F0 10000] unfolding F1_def by simp
  have b2: "F2 < 320000000" using E [of 32] E [of 48] less_mult_imp_div_less [of F1 214749 10000] b1 unfolding F2_def by simp
  have b3: "F3 < 100000000" using E [of 48] less_mult_imp_div_less [of F2 32000 10000] b2 unfolding F3_def by simp
  have b: "F0 < 2 ^ 32" "F1 < 2 ^ 32" "F2 < 2 ^ 32" "F3 < 2 ^ 32" using b0 b1 b2 b3 by simp_all
  have w0: "656 * of_nat (E 48) + 7296 * of_nat (E 32) + 5536 * of_nat (E 16) + of_nat (E 0) = (of_nat F0 :: u32)"
    by (simp add: F0_def)
  have w1: "of_nat F0 div 10000 + 7671 * of_nat (E 48) + 9496 * of_nat (E 32) + 6 * of_nat (E 16) = (of_nat F1 :: u32)"
    by (simp only: u32_of_nat_div [OF b(1)] F1_def of_nat_add of_nat_mult of_nat_numeral)
  have w2: "of_nat F1 div 10000 + 4749 * of_nat (E 48) + 42 * of_nat (E 32) = (of_nat F2 :: u32)"
    by (simp only: u32_of_nat_div [OF b(2)] F2_def of_nat_add of_nat_mult of_nat_numeral)
  have w3: "of_nat F2 div 10000 + 281 * of_nat (E 48) = (of_nat F3 :: u32)"
    by (simp only: u32_of_nat_div [OF b(3)] F3_def of_nat_add of_nat_mult of_nat_numeral)
  have "u64_limbs v = [of_nat F0 mod 10000, of_nat F1 mod 10000, of_nat F2 mod 10000, of_nat F3 mod 10000, of_nat F3 div 10000]"
    unfolding u64_limbs_def Let_def e [of 0, unfolded drop_bit_0 id_apply] e w0 w1 w2 w3 ..
  then show "map unat (u64_limbs v) = [F0 mod 10000, F1 mod 10000, F2 mod 10000, F3 mod 10000, F3 div 10000]"
    using b by (simp add: unat_mod unat_div unat_u32_of_nat)
  have v: "unat v = E 0 + 65536 * E 16 + 4294967296 * E 32 + 281474976710656 * E 48"
  proof -
    define n where "n = unat v"
    have "n < 2 ^ 64" using unsigned_less [of v, where ?'a = nat] by (simp add: n_def)
    then have "n div 281474976710656 mod 65536 = n div 281474976710656" by (simp add: div_less_iff_less_mult)
    then have "E 0 = n mod 65536" "E 16 = n div 65536 mod 65536" "E 32 = n div 4294967296 mod 65536"
      "E 48 = n div 281474976710656" by (simp_all add: E_def n_def)
    moreover have "n div 4294967296 = 65536 * (n div 281474976710656) + n div 4294967296 mod 65536"
      "n div 65536 = 65536 * (n div 4294967296) + n div 65536 mod 65536"
      "n = 65536 * (n div 65536) + n mod 65536"
      using div_mult2_eq [of n 4294967296 65536] div_mult2_eq [of n 65536 65536] by simp_all
    ultimately show ?thesis unfolding n_def [symmetric] by linarith
  qed
  have "unat v = F0 mod 10000 + 10000 * (F1 mod 10000) + 100000000 * (F2 mod 10000) + 1000000000000 * (F3 mod 10000)
      + 10000000000000000 * (F3 div 10000)"
    using div_mult_mod_eq [of F0 10000] div_mult_mod_eq [of F1 10000] div_mult_mod_eq [of F2 10000]
      div_mult_mod_eq [of F3 10000] v F0_def [THEN meta_eq_to_obj_eq] F1_def [THEN meta_eq_to_obj_eq]
      F2_def [THEN meta_eq_to_obj_eq] F3_def [THEN meta_eq_to_obj_eq] by linarith
  then show "unat v = F0 mod 10000 + 10000 * (F1 mod 10000) + 10 ^ 8 * (F2 mod 10000) + 10 ^ 12 * (F3 mod 10000)
      + 10 ^ 16 * (F3 div 10000)" by simp
  show "F3 div 10000 < 10000" using b3 by (simp add: div_less_iff_less_mult)
qed

text \<open>The number that the four-digit groups \<open>d ! 0, \<dots>, d ! (f - 1)\<close> stand for.\<close>

definition limbs_val :: "u32 list \<Rightarrow> nat \<Rightarrow> nat" where
  "limbs_val d f = (\<Sum>j<f. unat (d ! j) * 10 ^ (4 * j))"

definition limbs_pad :: "u32 list \<Rightarrow> nat \<Rightarrow> u8 list" where
  "limbs_pad d f = concat (map (\<lambda>j. padn 4 (unat (d ! j))) (rev [0..<f]))"

lemma limbs_val_bound: "\<forall>j<f. unat (d ! j) < 10 ^ 4 \<Longrightarrow> limbs_val d f < 10 ^ (4 * f)"
proof (induction f)
  case (Suc f)
  then have "limbs_val d f < 10 ^ (4 * f)" "unat (d ! f) + 1 \<le> 10 ^ 4" by auto
  moreover have "(unat (d ! f) + 1) * 10 ^ (4 * f) \<le> 10 ^ 4 * 10 ^ (4 * f)"
    by (rule mult_le_mono1) fact
  moreover have "limbs_val d (Suc f) = limbs_val d f + unat (d ! f) * 10 ^ (4 * f)" by (simp add: limbs_val_def)
  moreover have "(10 :: nat) ^ (4 * Suc f) = 10 ^ 4 * 10 ^ (4 * f)" by (simp add: power_add)
  ultimately show ?case unfolding distrib_right by linarith
qed (simp add: limbs_val_def)

lemma limbs_pad_eq: "\<forall>j<f. unat (d ! j) < 10 ^ 4 \<Longrightarrow> limbs_pad d f = padn (4 * f) (limbs_val d f)"
proof (induction f)
  case (Suc f)
  then have "padn (4 + 4 * f) (unat (d ! f) * 10 ^ (4 * f) + limbs_val d f) = padn 4 (unat (d ! f)) @ padn (4 * f) (limbs_val d f)"
    by (intro padn_add limbs_val_bound) simp
  with Suc show ?case by (simp add: limbs_pad_def limbs_val_def add.commute)
qed (simp add: limbs_pad_def limbs_val_def)

lemma length_limbs_pad [simp]: "length (limbs_pad d f) = 4 * f"
  by (induction f) (simp_all add: limbs_pad_def)

lemma first_limb_val:
  "limbs_val d (Suc (first_limb d f)) = limbs_val d (Suc f) \<and> first_limb d f \<le> f \<and>
   (first_limb d f = 0 \<or> d ! first_limb d f \<noteq> 0)"
  by (induction f) (auto simp: limbs_val_def)

lemma dec_limbs:
  assumes "\<forall>j\<le>f. unat (d ! j) < 10 ^ 4"
  shows "dec (limbs_val d (Suc f)) = dec (unat (d ! first_limb d f)) @ limbs_pad d (first_limb d f)"
proof -
  let ?k = "first_limb d f"
  have k: "limbs_val d (Suc f) = unat (d ! ?k) * 10 ^ (4 * ?k) + limbs_val d ?k" "?k \<le> f"
    "?k = 0 \<or> 0 < unat (d ! ?k)"
    using first_limb_val [of d f] by (auto simp: limbs_val_def unat_gt_0)
  have b: "\<forall>j<?k. unat (d ! j) < 10 ^ 4" using assms k(2) by auto
  show ?thesis
  proof (cases "?k = 0")
    case True
    then show ?thesis using k(1) by (simp add: limbs_val_def limbs_pad_def)
  next
    case False
    then show ?thesis using k dec_add [of "unat (d ! ?k)" "limbs_val d ?k" "4 * ?k"] limbs_val_bound [OF b]
      by (simp add: limbs_pad_eq [OF b])
  qed
qed

lemma put_limb:
  assumes "unat x < 10 ^ 4" "i + 4 + n \<le> length buf"
  shows "(if x \<noteq> 0 then
        do { (tmp, b) \<leftarrow> fmt_u32_dec NULL x (blit i (replicate (4 + n) 48) buf);
             (k, b) \<leftarrow> fmt_u32_dec (padd (At i) (4 - tmp)) x b;
             Some b }
      else Some (blit i (replicate (4 + n) 48) buf))
    = Some (blit (i + 4) (replicate n 48) (blit i (padn 4 (unat x)) buf))"
proof -
  let ?l = "length (dec (unat x))"
  have p: "padn 4 (unat x) = replicate (4 - ?l) 48 @ dec (unat x)" and l: "?l \<le> 4"
    using padn_dec [of "unat x" 4] assms(1) by simp_all
  have "blit (i + (4 - ?l)) (dec (unat x)) (blit i (replicate (4 + n) 48) buf) = blit i (padn 4 (unat x) @ replicate n 48) buf"
    using blit_within [of "4 - ?l" "dec (unat x)" "replicate (4 + n) 48" i buf] l assms(2) by (simp add: p)
  moreover have "replicate (4 + n) (48 :: u8) = padn 4 0 @ replicate n 48" by (simp only: padn_0 replicate_add)
  moreover have "blit (i + 4) (replicate n 48) (blit i (padn 4 (unat x)) buf) = blit i (padn 4 (unat x) @ replicate n 48) buf"
    using blit_after [of i "padn 4 (unat x)" buf "replicate n 48"] assms(2) by simp
  ultimately show ?thesis using l assms(2) by simp
qed

lemma limbs_loop_writes:
  "i + 4 * f \<le> length buf \<Longrightarrow> \<forall>j<f. unat (d ! j) < 10 ^ 4 \<Longrightarrow>
   limbs_loop d f (At i) (blit i (replicate (4 * f) 48) buf) = Some (blit i (limbs_pad d f) buf)"
proof (induction f arbitrary: i buf)
  case (Suc f)
  let ?b = "blit i (padn 4 (unat (d ! f))) buf"
  have "limbs_loop d (Suc f) (At i) (blit i (replicate (4 * Suc f) 48) buf)
      = limbs_loop d f (At (i + 4)) (blit (i + 4) (replicate (4 * f) 48) ?b)"
    using put_limb [of "d ! f" i "4 * f" buf] Suc.prems by simp
  also have "\<dots> = Some (blit (i + 4) (limbs_pad d f) ?b)" using Suc.prems by (intro Suc.IH) simp_all
  also have "blit (i + 4) (limbs_pad d f) ?b = blit i (limbs_pad d (Suc f)) buf"
    using blit_after [of i "padn 4 (unat (d ! f))" buf "limbs_pad d f"] Suc.prems by (simp add: limbs_pad_def)
  finally show ?case .
qed (simp add: limbs_pad_def)

lemma limbs_val_5:
  assumes "map unat d = [a0, a1, a2, a3, a4]"
  shows "limbs_val d 5 = a0 + 10000 * a1 + 10 ^ 8 * a2 + 10 ^ 12 * a3 + 10 ^ 16 * a4"
    and "j \<le> 4 \<Longrightarrow> unat (d ! j) \<in> {a0, a1, a2, a3, a4}"
proof -
  obtain d0 d1 d2 d3 d4 where "d = [d0, d1, d2, d3, d4]"
    using assms by (auto simp: map_eq_Cons_conv)
  with assms have "unat (d ! 0) = a0" "unat (d ! 1) = a1" "unat (d ! 2) = a2" "unat (d ! 3) = a3" "unat (d ! 4) = a4"
    by simp_all
  moreover have "{..<5 :: nat} = {0, 1, 2, 3, 4}" by auto
  moreover have "j \<le> 4 \<Longrightarrow> j \<in> {0, 1, 2, 3, 4}" by auto
  ultimately show "limbs_val d 5 = a0 + 10000 * a1 + 10 ^ 8 * a2 + 10 ^ 12 * a3 + 10 ^ 16 * a4"
    "j \<le> 4 \<Longrightarrow> unat (d ! j) \<in> {a0, a1, a2, a3, a4}"
    unfolding limbs_val_def by auto
qed

lemma u64_limbs_val:
  shows "\<forall>j\<le>4. unat (u64_limbs v ! j) < 10 ^ 4" and "limbs_val (u64_limbs v) (Suc 4) = unat v"
proof -
  have "unat (u64_limbs v ! j) < 10000" if "j \<le> 4" for j
    using limbs_val_5(2) [OF u64_limbs_eq(1) [of v] that] u64_limbs_eq(3) [of v]
    by (elim insertE emptyE) (simp_all only: mod_less_divisor zero_less_numeral)
  then show "\<forall>j\<le>4. unat (u64_limbs v ! j) < 10 ^ 4" by simp
  show "limbs_val (u64_limbs v) (Suc 4) = unat v"
  proof -
    have "Suc 4 = 5" by simp
    then show ?thesis by (simp only: limbs_val_5(1) [OF u64_limbs_eq(1) [of v]] flip: u64_limbs_eq(2))
  qed
qed

lemma dec_u64: "dec (unat v) = dec (unat (u64_limbs v ! first_limb (u64_limbs v) 4)) @ limbs_pad (u64_limbs v) (first_limb (u64_limbs v) 4)"
  using dec_limbs [OF u64_limbs_val(1)] by (simp only: u64_limbs_val(2))

lemma fmt_u64_dec_NULL [simp]: "fmt_u64_dec NULL v buf = Some (length (dec (unat v)), buf)"
  unfolding dec_u64 by (simp add: fmt_u64_dec_def Let_def)

lemma fmt_u64_dec_At [simp]:
  assumes "i + length (dec (unat v)) \<le> length buf"
  shows "fmt_u64_dec (At i) v buf = Some (length (dec (unat v)), blit i (dec (unat v)) buf)"
proof -
  let ?d = "u64_limbs v"
  let ?k = "first_limb ?d 4"
  let ?x = "dec (unat (?d ! ?k))"
  have l: "length (dec (unat v)) = length ?x + 4 * ?k" by (simp add: dec_u64)
  have b: "\<forall>j<?k. unat (?d ! j) < 10 ^ 4" using u64_limbs_val(1) [of v] first_limb_val [of ?d 4] by auto
  have m: "memset (At (i + length ?x)) 48 (4 * ?k) (blit i ?x buf)
      = Some (blit (i + length ?x) (replicate (4 * ?k) 48) (blit i ?x buf))"
    using assms l by (intro memset_At) simp
  have "limbs_loop ?d ?k (At (i + length ?x)) (blit (i + length ?x) (replicate (4 * ?k) 48) (blit i ?x buf))
      = Some (blit (i + length ?x) (limbs_pad ?d ?k) (blit i ?x buf))"
    using assms l b by (intro limbs_loop_writes) simp_all
  also have "blit (i + length ?x) (limbs_pad ?d ?k) (blit i ?x buf) = blit i (dec (unat v)) buf"
    using blit_after [of i ?x buf "limbs_pad ?d ?k"] assms l by (simp add: dec_u64)
  finally show ?thesis using assms l m by (simp add: fmt_u64_dec_def Let_def mult.commute)
qed

lemma unat_magnitude: "unat (if sint v < 0 then - v else v) = nat \<bar>sint (v :: 'a::len word)\<bar>"
proof -
  have r: "\<bar>sint v\<bar> < 2 ^ LENGTH('a)"
  proof -
    have "(2 :: int) ^ (LENGTH('a) - Suc 0) < 2 ^ LENGTH('a)" by (rule power_strict_increasing) simp_all
    then show ?thesis using sint_less [of v] sint_greater_eq [of v] unfolding abs_less_iff One_nat_def by linarith
  qed
  have "(if sint v < 0 then - v else v) = word_of_int \<bar>sint v\<bar>"
    by simp
  then have "uint (if sint v < 0 then - v else v) = \<bar>sint v\<bar> mod 2 ^ LENGTH('a)"
    by (simp only: uint_word_of_int)
  also have "\<dots> = \<bar>sint v\<bar>" using r by simp
  finally show ?thesis by (simp only: unat_eq_nat_uint)
qed

lemma signed_writes:
  assumes "i + length (dec_int x) \<le> length buf"
    and "\<And>j b. j + length (dec (nat \<bar>x\<bar>)) \<le> length b \<Longrightarrow> f (At j) b = Some (length (dec (nat \<bar>x\<bar>)), blit j (dec (nat \<bar>x\<bar>)) b)"
  shows "do { (out, b) \<leftarrow> put_sign (At i) (x < 0) buf;
              (len, b) \<leftarrow> f out b;
              Some (len + (if x < 0 then 1 else 0), b) } = Some (length (dec_int x), blit i (dec_int x) buf)"
proof (cases "x < 0")
  case True
  then show ?thesis using assms(1) assms(2) [of "Suc i" "blit i [45] buf"] blit_after [of i "[45 :: u8]" buf "dec (nat \<bar>x\<bar>)"]
    by (simp add: put_sign_def dec_int_def store_At del: store.simps)
next
  case False
  then show ?thesis using assms(1) assms(2) [of i buf] by (simp add: put_sign_def dec_int_def)
qed

lemma fmt_s32_dec_At [simp]:
  "i + length (dec_int (sint v)) \<le> length buf \<Longrightarrow>
   fmt_s32_dec (At i) v buf = Some (length (dec_int (sint v)), blit i (dec_int (sint v)) buf)"
  using signed_writes [of i "sint v" buf "\<lambda>out b. fmt_u32_dec out (if sint v < 0 then - v else v) b"]
  by (simp only: fmt_s32_dec_def Let_def fmt_u32_dec_At unat_magnitude)

lemma fmt_s64_dec_At [simp]:
  "i + length (dec_int (sint v)) \<le> length buf \<Longrightarrow>
   fmt_s64_dec (At i) v buf = Some (length (dec_int (sint v)), blit i (dec_int (sint v)) buf)"
  using signed_writes [of i "sint v" buf "\<lambda>out b. fmt_u64_dec out (if sint v < 0 then - v else v) b"]
  by (simp only: fmt_s64_dec_def Let_def fmt_u64_dec_At unat_magnitude)

lemma fmt_s32_dec_NULL [simp]: "fmt_s32_dec NULL v buf = Some (length (dec_int (sint v)), buf)"
  by (simp add: fmt_s32_dec_def put_sign_def dec_int_def unat_magnitude del: if_split)

lemma fmt_s64_dec_NULL [simp]: "fmt_s64_dec NULL v buf = Some (length (dec_int (sint v)), buf)"
  by (simp add: fmt_s64_dec_def put_sign_def dec_int_def unat_magnitude del: if_split)

section \<open>Scanning decimal numbers\<close>

lemma less_10_cases: "n < 10 \<Longrightarrow> n \<in> {0, 1, 2, 3, 4, 5, 6, 7, 8, 9 :: nat}"
  by auto

lemma digit_char:
  assumes "n < 10"
  shows "fmt_is_digit (of_nat n + 48)" "ucast ((of_nat n + 48 :: u8) - 48) = (of_nat n :: u32)"
  using less_10_cases [OF assms] by (auto simp: fmt_is_digit_def)

lemma of_nat_step: "(of_nat n :: u32) = of_nat (n div 10) * 10 + of_nat (n mod 10)"
proof -
  have "(of_nat n :: u32) = of_nat (n div 10 * 10 + n mod 10)" by simp
  then show ?thesis by (simp only: of_nat_add of_nat_mult of_nat_numeral)
qed

lemma scn_dec_loop:
  "scn_u32_dec_loop (dec n @ rest) (length (dec n) + m) r = scn_u32_dec_loop rest m (r * 10 ^ length (dec n) + of_nat n)"
proof (induction n arbitrary: rest m r rule: less_induct)
  case (less n)
  show ?case
  proof (cases "n < 10")
    case True
    then show ?thesis using digit_char [OF True] by (simp add: dec_small)
  next
    case False
    have d: "n mod 10 < 10" by simp
    have "scn_u32_dec_loop (dec n @ rest) (length (dec n) + m) r
        = scn_u32_dec_loop (dec (n div 10) @ (of_nat (n mod 10) + 48) # rest) (length (dec (n div 10)) + Suc m) r"
      using False by (simp add: dec_step)
    also have "\<dots> = scn_u32_dec_loop rest m ((r * 10 ^ length (dec (n div 10)) + of_nat (n div 10)) * 10 + of_nat (n mod 10))"
      using False less.IH [of "n div 10" "(of_nat (n mod 10) + 48) # rest" "Suc m" r] digit_char [OF d] by simp
    also have "(r * 10 ^ length (dec (n div 10)) + of_nat (n div 10)) * 10 + of_nat (n mod 10) = r * 10 ^ length (dec n) + of_nat n"
      using False by (simp add: dec_step of_nat_step [of n] distrib_right mult.assoc mult.commute)
    finally show ?thesis .
  qed
qed

section \<open>Padding and fixed point numbers\<close>

lemma lpad_move_loop_writes:
  "0 < m \<Longrightarrow> a + m + j \<le> length b \<Longrightarrow> lpad_move_loop (a + m + j) (a + j) j b = Some (blit (a + m) (take j (drop a b)) b)"
proof (induction j arbitrary: b)
  case (Suc j)
  let ?b = "blit (a + m + j) [b ! (a + j)] b"
  have l: "length (take j (drop a b)) = j" using Suc.prems by simp
  have "lpad_move_loop (a + m + Suc j) (a + Suc j) (Suc j) b = lpad_move_loop (a + m + j) (a + j) j ?b"
    using Suc.prems by (simp add: store_At del: store.simps)
  also have "\<dots> = Some (blit (a + m) (take j (drop a ?b)) ?b)" using Suc.prems by (intro Suc.IH) simp_all
  also have "take j (drop a ?b) = take j (drop a b)" using Suc.prems by (simp add: blit_def take_drop min_def)
  also have "blit (a + m) (take j (drop a b)) ?b = blit (a + m) (take j (drop a b) @ [b ! (a + j)]) b"
    using blit_before [of "a + m" "take j (drop a b)" "[b ! (a + j)]" b, unfolded l] Suc.prems by simp
  also have "take j (drop a b) @ [b ! (a + j)] = take (Suc j) (drop a b)"
    using Suc.prems by (simp add: take_Suc_conv_app_nth)
  finally show ?case .
qed simp

lemma lpad_fill_loop_writes:
  "a + n \<le> length b \<Longrightarrow> lpad_fill_loop (a + n) c n b = Some (blit a (replicate n c) b)"
proof (induction n arbitrary: b)
  case (Suc n)
  let ?b = "blit (a + n) [c] b"
  have "lpad_fill_loop (a + Suc n) c (Suc n) b = lpad_fill_loop (a + n) c n ?b"
    using Suc.prems by (simp add: store_At del: store.simps)
  also have "\<dots> = Some (blit a (replicate n c) ?b)" using Suc.prems by (intro Suc.IH) simp
  also have "blit a (replicate n c) ?b = blit a (replicate (Suc n) c) b"
    using blit_before [of a "replicate n c" "[c]" b] Suc.prems by (simp add: replicate_append_same)
  finally show ?case .
qed simp

lemma fmt_lpad_At:
  assumes "i + n \<le> length buf" "i + k \<le> length buf"
  shows "fmt_lpad use_memmove (At i) n k c buf
    = Some (max n k, blit i (replicate (k - n) c @ take n (drop i buf)) buf)"
proof (cases "n \<ge> k")
  case True
  then show ?thesis using assms by (simp add: fmt_lpad_def max_def blit_def min_def flip: drop_drop)
      (metis append_take_drop_id drop_drop add.commute)
next
  case False
  let ?m = "k - n" and ?s = "take n (drop i buf)"
  let ?b = "blit (i + ?m) ?s buf"
  have n: "length ?s = n" using assms by simp
  have mv: "memmove (At (i + ?m)) (At i) n buf = Some ?b"
    using False assms by (simp add: blit_def n)
  have mv2: "lpad_move_loop (i + k) (i + n) n buf = Some ?b"
    using False assms lpad_move_loop_writes [of ?m i n buf] by simp
  have l: "i + ?m \<le> length ?b" using False assms n by simp
  have "blit i (replicate ?m c) ?b = blit i (replicate ?m c @ ?s) buf"
    using blit_before [of i "replicate ?m c" ?s buf] False assms n by simp
  with False mv mv2 memset_At [OF l, of c] lpad_fill_loop_writes [OF l, of c] show ?thesis
    by (simp add: fmt_lpad_def Let_def)
qed

definition dfp_text :: "int \<Rightarrow> int \<Rightarrow> u8 list" where
  "dfp_text x fp =
     (if fp \<ge> 0 then dec_int x @ replicate (nat fp) 48
      else (if x < 0 then [45] else []) @ dec (nat \<bar>x\<bar> div 10 ^ nat (- fp)) @ [46] @ padn (nat (- fp)) (nat \<bar>x\<bar> mod 10 ^ nat (- fp)))"

lemma tenmap_pow:
  assumes "0 < k" "k < 8"
  shows "tenmap ! k = 10 ^ k" "sint (tenmap ! k) = 10 ^ k" "tenmap ! k = word_of_int (10 ^ k)"
proof -
  have "k \<in> {1, 2, 3, 4, 5, 6, 7}" using assms by auto
  then show "tenmap ! k = 10 ^ k" "sint (tenmap ! k) = 10 ^ k" "tenmap ! k = word_of_int (10 ^ k)"
    by (auto simp: tenmap_def)
qed

lemma sint_u32_of_int: "- (2 ^ 31) \<le> k \<Longrightarrow> k < 2 ^ 31 \<Longrightarrow> sint (word_of_int k :: u32) = k"
  by (simp add: signed_of_int signed_take_bit_int_eq_self)

lemma cdiv_parts:
  assumes "0 < e"
  shows "\<bar>cdiv x e\<bar> = \<bar>x\<bar> div e" "\<bar>x - cdiv x e * e\<bar> = \<bar>x\<bar> mod e" "cdiv x e < 0 \<longleftrightarrow> x < 0 \<and> cdiv x e \<noteq> 0"
proof -
  show "\<bar>cdiv x e\<bar> = \<bar>x\<bar> div e" using assms by (cases "x = 0") (simp_all add: cdiv_def abs_mult pos_imp_zdiv_nonneg_iff)
  have "x - cdiv x e * e = sgn x * (\<bar>x\<bar> mod e)"
  proof -
    have "x = sgn x * (\<bar>x\<bar> div e * e + \<bar>x\<bar> mod e)" by (simp add: sgn_mult_abs)
    then have "x = sgn x * (\<bar>x\<bar> div e * e) + sgn x * (\<bar>x\<bar> mod e)" by (simp only: distrib_left)
    then show ?thesis using assms by (simp add: cdiv_def mult.assoc)
  qed
  then show "\<bar>x - cdiv x e * e\<bar> = \<bar>x\<bar> mod e" using assms by (cases "x = 0") (simp_all add: abs_mult)
  show "cdiv x e < 0 \<longleftrightarrow> x < 0 \<and> cdiv x e \<noteq> 0"
  proof -
    obtain q where q: "\<bar>x\<bar> div e = q" "0 \<le> q" using assms by (simp add: pos_imp_zdiv_nonneg_iff)
    then have "cdiv x e = sgn x * q" using assms by (simp add: cdiv_def)
    with q(2) show ?thesis by (auto simp: sgn_if)
  qed
qed

lemma dfp_parts:
  fixes val :: u32
  assumes "0 < k" "k < 8"
  defines "x \<equiv> sint val" and "e \<equiv> tenmap ! k"
  defines "q \<equiv> word_of_int (cdiv (sint val) (sint e)) :: u32"
  defines "r \<equiv> val - q * e"
  shows "sint q = cdiv x (10 ^ k)"
    and "sint (if sint r < 0 then r * (- 1) else r) = \<bar>x\<bar> mod 10 ^ k"
proof -
  have xb: "- (2 ^ 31) \<le> x" "x < 2 ^ 31" using sint_less [of val] sint_greater_eq [of val] by (simp_all add: x_def)
  have e0: "(0 :: int) < 10 ^ k" by simp
  have eb: "(10 :: int) ^ k \<le> 10 ^ 7" by (rule power_increasing) (use assms in simp_all)
  note parts = cdiv_parts [OF e0, of x]
  have "(10 :: int) ^ 1 \<le> 10 ^ k" by (rule power_increasing) (use assms in simp_all)
  then have "\<bar>x\<bar> div 10 ^ k \<le> \<bar>x\<bar> div 10 ^ 1" by (intro zdiv_mono2) simp_all
  moreover have "\<bar>x\<bar> div 10 < 2147483648" using xb by simp
  ultimately have qb: "\<bar>cdiv x (10 ^ k)\<bar> < 2 ^ 31" using parts(1) by simp
  show q: "sint q = cdiv x (10 ^ k)"
    unfolding q_def e_def tenmap_pow(2) [OF assms(1,2)] x_def [symmetric] by (rule sint_u32_of_int) (use qb in linarith)+
  have q': "q = word_of_int (cdiv x (10 ^ k))"
    unfolding q_def e_def tenmap_pow(2) [OF assms(1,2)] x_def ..
  let ?r = "x - cdiv x (10 ^ k) * 10 ^ k"
  have rb: "\<bar>?r\<bar> < 10 ^ 7" using parts(2) pos_mod_bound [OF e0, of "\<bar>x\<bar>"] eb by linarith
  have "val = word_of_int x" by (simp add: x_def)
  then have r: "r = word_of_int ?r"
    by (simp add: r_def q' e_def tenmap_pow(3) [OF assms(1,2)])
  have rb': "- (2 ^ 31) \<le> ?r" "?r < 2 ^ 31" "- (2 ^ 31) \<le> - ?r" "- ?r < 2 ^ 31" using rb by (simp_all add: abs_less_iff)
  have sr: "sint r = ?r" unfolding r by (rule sint_u32_of_int [OF rb'(1,2)])
  have "r * (- 1) = word_of_int (- ?r)" by (simp add: r)
  moreover have "sint (word_of_int (- ?r) :: u32) = - ?r" by (rule sint_u32_of_int [OF rb'(3,4)])
  ultimately have "sint (r * (- 1)) = - ?r" by simp
  with sr parts(2) show "sint (if sint r < 0 then r * (- 1) else r) = \<bar>x\<bar> mod 10 ^ k" by (auto simp: abs_if split: if_splits)
qed

lemma blit_over:
  "length r \<le> length u \<Longrightarrow> i + length t + length u \<le> length buf \<Longrightarrow>
   blit (i + length t) u (blit i (t @ r) buf) = blit i (t @ u) buf"
  by (simp add: blit_def ac_simps)

text \<open>Writing the fraction: the digits right behind the text \<open>t\<close>, then padded to \<open>k\<close> places.\<close>

lemma put_fraction:
  assumes "n < 10 ^ k" "0 < k" "sint dv = int n" "i + length t + k \<le> length buf"
  shows "do { (div_len, b) \<leftarrow> fmt_s32_dec (At (i + length t)) dv (blit i t buf);
              (l, b) \<leftarrow> fmt_lpad True (At (i + length t)) div_len k 48 b;
              Some b } = Some (blit i (t @ padn k n) buf)"
proof -
  have d: "dec_int (sint dv) = dec n" using assms(3) by (simp add: dec_int_def)
  have p: "padn k n = replicate (k - length (dec n)) 48 @ dec n" and l: "length (dec n) \<le> k"
    using padn_dec [OF assms(1,2)] by auto
  have b: "blit (i + length t) (dec n) (blit i t buf) = blit i (t @ dec n) buf"
    using assms(4) by (intro blit_after) simp
  have "take (length (dec n)) (drop (i + length t) (blit i (t @ dec n) buf)) = dec n"
    using assms(4) l by (simp add: blit_def)
  moreover have "blit (i + length t) (padn k n) (blit i (t @ dec n) buf) = blit i (t @ padn k n) buf"
    using l assms(4) by (intro blit_over) simp_all
  ultimately show ?thesis using l assms(4) b by (simp add: d fmt_lpad_At p max_def)
qed

lemma dfp_sign:
  assumes "sint q = cdiv x (10 ^ k)"
  shows "(if q = 0 \<and> x < 0 then [45] else []) @ dec_int (sint (q :: u32))
    = (if x < 0 then [45] else []) @ dec (nat \<bar>x\<bar> div 10 ^ k)"
proof -
  have "q = word_of_int (sint q)" by simp
  then have z: "q = 0 \<longleftrightarrow> cdiv x (10 ^ k) = 0" unfolding assms [symmetric] by (metis of_int_0 sint_0)
  have "nat \<bar>cdiv x (10 ^ k)\<bar> = nat \<bar>x\<bar> div 10 ^ k"
    using cdiv_parts(1) [of "10 ^ k" x] by (simp add: nat_div_distrib nat_power_eq)
  with cdiv_parts(3) [of "10 ^ k" x] show ?thesis by (auto simp: dec_int_def assms z)
qed

lemma dfp_fraction_writes:
  fixes q dv :: u32 and neg :: bool
  defines "t \<equiv> (if q = 0 \<and> neg then [45] else []) @ dec_int (sint q) @ [46]"
  assumes "n < 10 ^ k" "0 < k" "sint dv = int n" "i + length t + k \<le> length buf"
  shows "dfp_fraction (At i) neg q dv k buf = Some (length t + k, blit i (t @ padn k n) buf)"
proof -
  define S where "S = (if q = 0 \<and> neg then [45 :: u8] else [])"
  let ?Q = "dec_int (sint q)"
  have t: "t = S @ ?Q @ [46]" by (simp add: t_def S_def)
  have s1: "(if q = 0 \<and> neg then do { b \<leftarrow> (if At i \<noteq> NULL then store (At i) 45 buf else Some buf); Some (1, b) }
      else Some (0, buf)) = Some (length S, blit i S buf)"
    using assms(5) by (simp add: S_def t store_At del: store.simps)
  have s2: "fmt_s32_dec (At (i + length S)) q (blit i S buf) = Some (length ?Q, blit i (S @ ?Q) buf)"
    using assms(5) blit_after [of i S buf ?Q] by (simp add: t)
  have "store (At (i + length (S @ ?Q))) 46 (blit i (S @ ?Q) buf) = Some (blit (i + length (S @ ?Q)) [46] (blit i (S @ ?Q) buf))"
    using assms(5) by (intro store_At) (simp add: t)
  also have "blit (i + length (S @ ?Q)) [46] (blit i (S @ ?Q) buf) = blit i t buf"
    using assms(5) by (subst blit_after) (simp_all add: t)
  finally have s3: "store (At (i + (length S + length ?Q))) 46 (blit i (S @ ?Q) buf) = Some (blit i t buf)"
    by (simp del: store.simps)
  have s4: "i + (length S + length ?Q + 1) = i + length t" by (simp add: t)
  obtain dl b1 l where f: "fmt_s32_dec (At (i + length t)) dv (blit i t buf) = Some (dl, b1)"
      "fmt_lpad True (At (i + length t)) dl k 48 b1 = Some (l, blit i (t @ padn k n) buf)"
    using put_fraction [OF assms(2-5)] by (auto simp: bind_eq_Some_conv simp del: fmt_s32_dec_At)
  have "length S + length ?Q + 1 = length t" by (simp add: t)
  with f show ?thesis
    by (simp add: dfp_fraction_def s1 s2 s3 s4 del: store.simps fmt_s32_dec_At One_nat_def)
qed

lemma dfp_fraction_NULL:
  "dfp_fraction NULL neg q dv k buf = Some (length ((if q = 0 \<and> neg then [45] else []) @ dec_int (sint q) @ [46 :: u8]) + k, buf)"
  by (simp add: dfp_fraction_def)

lemma fmt_s32_dfp_writes:
  assumes "fp > - 8" "i + length (dfp_text (sint val) fp) \<le> length buf"
  shows "fmt_s32_dfp (At i) val fp buf = Some (length (dfp_text (sint val) fp), blit i (dfp_text (sint val) fp) buf) \<and>
    fmt_s32_dfp NULL val fp b0 = Some (length (dfp_text (sint val) fp), b0)"
proof -
  let ?x = "sint val"
  have tl: "length tenmap = 8" by (simp add: tenmap_def)
  consider "fp = 0" | "fp > 0" | "fp < 0" by linarith
  then show ?thesis
  proof cases
    case 1
    then show ?thesis using assms by (simp add: fmt_s32_dfp_def dfp_text_def tl)
  next
    case 2
    then have "memset (At (i + length (dec_int ?x))) 48 (nat fp) (blit i (dec_int ?x) buf)
        = Some (blit i (dec_int ?x @ replicate (nat fp) 48) buf)"
      using assms blit_after [of i "dec_int ?x" buf "replicate (nat fp) 48"] by (simp add: dfp_text_def memset_At)
    with 2 show ?thesis using assms by (simp add: fmt_s32_dfp_def dfp_text_def tl)
  next
    case 3
    define k where "k = nat (- fp)"
    then have k: "0 < k" "k < 8" using 3 assms(1) by auto
    define q where "q = (word_of_int (cdiv ?x (sint (tenmap ! k))) :: u32)"
    define dv where "dv = (if sint (val - q * tenmap ! k) < 0 then (val - q * tenmap ! k) * (- 1) else val - q * tenmap ! k)"
    define n where "n = nat \<bar>?x\<bar> mod 10 ^ k"
    define t where "t = (if q = 0 \<and> ?x < 0 then [45] else []) @ dec_int (sint q) @ [46 :: u8]"
    note parts = dfp_parts [OF k, of val, folded q_def, folded dv_def]
    have dv: "sint dv = int n" using parts(2) by (simp add: n_def zmod_int)
    have tx: "dfp_text ?x fp = t @ padn k n"
      using dfp_sign [OF parts(1)] 3 by (simp add: dfp_text_def t_def n_def k_def)
    have e: "fmt_s32_dfp out val fp b = dfp_fraction out (?x < 0) q dv k b" for out b
      using 3 assms(1) by (simp only: fmt_s32_dfp_def Let_def tl q_def dv_def k_def) simp
    have "dfp_fraction (At i) (?x < 0) q dv k buf = Some (length t + k, blit i (t @ padn k n) buf)"
      unfolding t_def by (rule dfp_fraction_writes) (use k dv assms(2) tx in \<open>simp_all add: n_def t_def\<close>)
    then show ?thesis by (simp add: e tx dfp_fraction_NULL t_def)
  qed
qed

section \<open>Hexadecimal notation\<close>

definition hexs :: "u8 list \<Rightarrow> u8 list" where
  "hexs bs = concat (map (\<lambda>b. [hex_chars ! unat (drop_bit 4 b), hex_chars ! unat (b AND 0x0F)]) bs)"

lemma hexs_Cons: "hexs (b # bs) = [hex_chars ! unat (drop_bit 4 b), hex_chars ! unat (b AND 0x0F)] @ hexs bs"
  by (simp add: hexs_def)

lemma length_hexs [simp]: "length (hexs bs) = 2 * length bs"
  by (induction bs) (simp_all add: hexs_def)

lemma fmt_byte_hex_At:
  assumes "i + 2 \<le> length buf"
  shows "fmt_byte_hex (At i) b buf = Some (2, blit i [hex_chars ! unat (drop_bit 4 b), hex_chars ! unat (b AND 0x0F)] buf)"
proof -
  have "blit (i + length [x]) [y] (blit i [x] buf) = blit i ([x] @ [y]) buf" for x y
    using assms by (intro blit_after) simp
  then show ?thesis using assms by (simp add: fmt_byte_hex_def store_At del: store.simps)
qed

lemma bytes_hex_loop_At:
  "i + 2 * length bs \<le> length buf \<Longrightarrow>
   bytes_hex_loop (At i) bs buf = Some (At (i + 2 * length bs), blit i (hexs bs) buf)"
proof (induction bs arbitrary: i buf)
  case (Cons b bs)
  let ?h = "[hex_chars ! unat (drop_bit 4 b), hex_chars ! unat (b AND 0x0F)]"
  have "bytes_hex_loop (At i) (b # bs) buf = bytes_hex_loop (At (i + 2)) bs (blit i ?h buf)"
    using Cons.prems by (simp add: fmt_byte_hex_At)
  also have "\<dots> = Some (At (i + 2 + 2 * length bs), blit (i + 2) (hexs bs) (blit i ?h buf))"
    using Cons.prems by (intro Cons.IH) simp
  also have "blit (i + 2) (hexs bs) (blit i ?h buf) = blit i (hexs (b # bs)) buf"
    unfolding hexs_Cons using blit_after [of i ?h buf "hexs bs"] Cons.prems by simp
  finally show ?case by simp
qed (simp add: hexs_def)

lemma less_16_cases: "d < 16 \<Longrightarrow> d \<in> {0, 1, 2, 3, 4, 5, 6, 7, 8, 9, 10, 11, 12, 13, 14, 15 :: nat}"
  unfolding insert_iff empty_iff by presburger

lemma hex_nib_char:
  assumes "d < 16"
  shows "hex_nib (hex_chars ! d) = of_nat d" "hex_chars ! d \<noteq> 0"
    "scn_u32_hex_loop (hex_chars ! d # str) (Suc n) r = scn_u32_hex_loop str n (push_bit 4 r OR of_nat d)"
proof -
  have "\<forall>d\<in>set [0..<16]. hex_nib (hex_chars ! d) = of_nat d \<and> hex_chars ! d \<noteq> 0" by code_simp
  then show "hex_nib (hex_chars ! d) = of_nat d" "hex_chars ! d \<noteq> 0" using assms by auto
  show "scn_u32_hex_loop (hex_chars ! d # str) (Suc n) r = scn_u32_hex_loop str n (push_bit 4 r OR of_nat d)"
    using less_16_cases [OF assms]
    by (elim insertE emptyE; simp add: hex_chars_def fmt_is_digit_def fmt_is_upper_def to_lower_def)
qed

lemma nibble_bounds: "unat (drop_bit 4 (b :: u8)) < 16" "unat (b AND 0x0F) < 16"
proof -
  have "unat b < 256" using unsigned_less [of b, where ?'a = nat] by simp
  then show "unat (drop_bit 4 b) < 16" by (simp add: unat_drop_bit_div div_less_iff_less_mult)
  have "b AND 0x0F = take_bit 4 b" by (simp add: take_bit_eq_mask mask_eq_decr_exp)
  then show "unat (b AND 0x0F) < 16" by (simp add: take_bit_eq_mod unat_mod)
qed

lemma nibbles_join: "push_bit 4 (drop_bit 4 b) OR (b AND 0x0F) = (b :: u8)"
proof -
  have "b AND 0x0F = take_bit 4 b" by (simp add: take_bit_eq_mask mask_eq_decr_exp)
  then show ?thesis by (auto simp: bit_simps intro!: bit_eqI)
qed

lemma fmt_hex_byte_inverse: "fmt_hex_byte (hex_chars ! unat (drop_bit 4 b)) (hex_chars ! unat (b AND 0x0F)) = b"
  by (simp add: fmt_hex_byte_def hex_nib_char(1) [OF nibble_bounds(1)] hex_nib_char(1) [OF nibble_bounds(2)] nibbles_join)

lemma fmt_strlen_text: "0 \<notin> set s \<Longrightarrow> fmt_strlen (s @ 0 # rest) = Some (length s)"
  by (induction s) auto

lemma hexs_nonzero: "0 \<notin> set (hexs bs)"
  using hex_nib_char(2) [OF nibble_bounds(1)] hex_nib_char(2) [OF nibble_bounds(2)] by (auto simp: hexs_def)

lemma nth_hexs: "j < length bs \<Longrightarrow>
  (pre @ hexs bs @ rest) ! (length pre + 2 * j) = hex_chars ! unat (drop_bit 4 (bs ! j)) \<and>
  (pre @ hexs bs @ rest) ! (length pre + 2 * j + 1) = hex_chars ! unat (bs ! j AND 0x0F)"
proof (induction bs arbitrary: pre j)
  case (Cons b bs)
  show ?case
  proof (cases j)
    case 0
    then show ?thesis by (simp add: hexs_def nth_append)
  next
    case (Suc j')
    let ?h = "[hex_chars ! unat (drop_bit 4 b), hex_chars ! unat (b AND 0x0F)]"
    show ?thesis using Cons.IH [of j' "pre @ ?h"] Cons.prems Suc unfolding hexs_Cons by simp
  qed
qed simp

lemma hex_bytes_loop_At:
  "i + length bs \<le> length buf \<Longrightarrow>
   hex_bytes_loop (length bs) (length pre) (At i) (pre @ hexs bs @ rest) buf = Some (blit i bs buf)"
proof (induction bs arbitrary: i pre buf)
  case (Cons b bs)
  let ?h = "[hex_chars ! unat (drop_bit 4 b), hex_chars ! unat (b AND 0x0F)]"
  have "hex_bytes_loop (length (b # bs)) (length pre) (At i) (pre @ hexs (b # bs) @ rest) buf
      = hex_bytes_loop (length bs) (length (pre @ ?h)) (At (i + 1)) ((pre @ ?h) @ hexs bs @ rest) (blit i [b] buf)"
    using nth_hexs [of 0 "b # bs" pre rest] Cons.prems
    by (simp add: store_At fmt_hex_byte_inverse del: store.simps) (simp add: hexs_def)
  also have "\<dots> = Some (blit (i + 1) bs (blit i [b] buf))" using Cons.prems by (intro Cons.IH) simp
  also have "blit (i + 1) bs (blit i [b] buf) = blit i (b # bs) buf"
    using blit_after [of i "[b]" buf bs] Cons.prems by simp
  finally show ?case .
qed simp

text \<open>Reading back the eight digits of a 32-bit number.\<close>

lemma byte_val: "of_nat (unat (drop_bit 4 b)) * 16 + of_nat (unat (b AND 0x0F)) = (ucast (b :: u8) :: u32)"
proof -
  have a: "b AND 0x0F = take_bit 4 b" by (simp add: take_bit_eq_mask mask_eq_decr_exp)
  have "unat (drop_bit 4 b) * 16 + unat (b AND 0x0F) = unat b"
    unfolding a by (simp add: unat_drop_bit_div take_bit_eq_mod unat_mod)
  then have "(of_nat (unat (drop_bit 4 b) * 16 + unat (b AND 0x0F)) :: u32) = of_nat (unat b)" by (rule arg_cong)
  then show ?thesis by simp
qed

lemma scn_hexs:
  "scn_u32_hex_loop (hexs bs @ rest) (2 * length bs + m) r
   = scn_u32_hex_loop rest m (fold (\<lambda>b r. r * 256 + ucast b) bs r)"
proof (induction bs arbitrary: r)
  case (Cons b bs)
  let ?d = "unat (drop_bit 4 b)" and ?e = "unat (b AND 0x0F)"
  have "scn_u32_hex_loop (hexs (b # bs) @ rest) (2 * length (b # bs) + m) r
      = scn_u32_hex_loop (hex_chars ! ?d # hex_chars ! ?e # hexs bs @ rest) (Suc (Suc (2 * length bs + m))) r"
    by (simp add: hexs_Cons del: scn_u32_hex_loop.simps)
  also have "\<dots> = scn_u32_hex_loop (hexs bs @ rest) (2 * length bs + m) ((r * 16 + of_nat ?d) * 16 + of_nat ?e)"
    by (simp only: hex_nib_char(3) [OF nibble_bounds(1)] hex_nib_char(3) [OF nibble_bounds(2)]
        or_digit [OF nibble_bounds(1)] or_digit [OF nibble_bounds(2)])
  also have "(r * 16 + of_nat ?d) * 16 + of_nat ?e = r * 256 + (of_nat ?d * 16 + of_nat ?e)"
    by (simp add: distrib_right)
  finally show ?case unfolding byte_val using Cons.IH by simp
qed (simp add: hexs_def)

lemma le_bytes_value: "fold (\<lambda>b r. r * 256 + ucast b) (rev (le_bytes 4 v)) 0 = (v :: u32)"
proof -
  define n where "n = unat v"
  have b: "(ucast (ucast (drop_bit k v) :: u8) :: u32) = of_nat (n div 2 ^ k mod 256)" for k
    by (rule word_unat_eq_iff [THEN iffD2])
      (simp add: unsigned_ucast_eq take_bit_eq_mod unat_drop_bit_div n_def unat_of_nat unat_mod)
  have "n < 2 ^ 32" using unsigned_less [of v, where ?'a = nat] by (simp add: n_def)
  then have "n div 16777216 mod 256 = n div 16777216" by (simp add: div_less_iff_less_mult)
  then have e: "n div 16777216 mod 256 * 256 + n div 65536 mod 256 = n div 65536"
      "n div 65536 * 256 + n div 256 mod 256 = n div 256" "n div 256 * 256 + n mod 256 = n"
    using div_mult2_eq [of n 65536 256] div_mult2_eq [of n 256 256] by simp_all
  have "v = of_nat n" by (simp add: n_def)
  also have "n = (((n div 16777216 mod 256) * 256 + n div 65536 mod 256) * 256 + n div 256 mod 256) * 256 + n mod 256"
    by (simp only: e)
  finally have v: "v = ((of_nat (n div 16777216 mod 256) * 256 + of_nat (n div 65536 mod 256)) * 256
      + of_nat (n div 256 mod 256)) * 256 + of_nat (n mod 256)"
    by (simp only: of_nat_add of_nat_mult of_nat_numeral)
  have "rev (le_bytes 4 v) = [ucast (drop_bit 24 v), ucast (drop_bit 16 v), ucast (drop_bit 8 v), ucast (drop_bit 0 v)]"
    by (simp add: le_bytes_def upt_rec)
  then have "fold (\<lambda>b r. r * 256 + ucast b) (rev (le_bytes 4 v)) 0
      = ((ucast (ucast (drop_bit 24 v) :: u8) * 256 + ucast (ucast (drop_bit 16 v) :: u8)) * 256
      + ucast (ucast (drop_bit 8 v) :: u8)) * 256 + (ucast (ucast (drop_bit 0 v) :: u8) :: u32)"
    by (simp only: fold.simps o_apply id_apply mult_zero_left add_0)
  also have "\<dots> = v" unfolding b using v by simp
  finally show ?thesis .
qed

section \<open>Properties\<close>

lemma length_dec_le: "n < 10 ^ Suc k \<Longrightarrow> length (dec n) \<le> Suc k"
  using padn_dec [of n "Suc k"] by simp

lemma length_dec_int: "length (dec_int x) \<le> Suc (length (dec (nat \<bar>x\<bar>)))"
  by (simp add: dec_int_def)

lemma length_dec_word:
  "length (dec (unat (v :: u32))) \<le> 10" "length (dec_int (sint v)) \<le> 11"
  "length (dec (unat (w :: u64))) \<le> 20" "length (dec_int (sint w)) \<le> 20"
proof -
  have "unat v < 10 ^ Suc 9" using unsigned_less [of v, where ?'a = nat] by simp
  then show "length (dec (unat v)) \<le> 10" using length_dec_le by fastforce
  have "unat w < 10 ^ Suc 19" using unsigned_less [of w, where ?'a = nat] by simp
  then show "length (dec (unat w)) \<le> 20" using length_dec_le by fastforce
  have "\<bar>sint v\<bar> < 10 ^ Suc 9" using sint_less [of v] sint_greater_eq [of v] by simp
  then have "nat \<bar>sint v\<bar> < 10 ^ Suc 9" by (simp add: nat_less_iff)
  then have "length (dec (nat \<bar>sint v\<bar>)) \<le> Suc 9" by (rule length_dec_le)
  then show "length (dec_int (sint v)) \<le> 11" using length_dec_int [of "sint v"] by linarith
  have "\<bar>sint w\<bar> < 10 ^ Suc 18" using sint_less [of w] sint_greater_eq [of w] by simp
  then have "nat \<bar>sint w\<bar> < 10 ^ Suc 18" by (simp add: nat_less_iff)
  then have "length (dec (nat \<bar>sint w\<bar>)) \<le> Suc 18" by (rule length_dec_le)
  then show "length (dec_int (sint w)) \<le> 20" using length_dec_int [of "sint w"] by linarith
qed

text \<open>
  (C30) Decimal output is right for every value and fits the buffers of the print functions:
  from any position with 20 bytes of room, \<open>fmt_u32_dec\<close>, \<open>fmt_s32_dec\<close>, \<open>fmt_u64_dec\<close> and
  \<open>fmt_s64_dec\<close> write exactly the decimal notation of the value (at most 10, 11, 20 and 20
  characters) and nothing else, return its length, return the same length without writing when
  the pointer is NULL, and \<open>scn_u32_dec\<close> reads the number back.
\<close>

theorem decimal_output_reads_back:
  fixes v :: u32 and w :: u64
  assumes "i + 20 \<le> length buf"
  shows "fmt_u32_dec (At i) v buf = Some (length (dec (unat v)), blit i (dec (unat v)) buf) \<and>
      scn_u32_dec (drop i (blit i (dec (unat v)) buf)) (length (dec (unat v))) = Some v \<and>
      fmt_s32_dec (At i) v buf = Some (length (dec_int (sint v)), blit i (dec_int (sint v)) buf) \<and>
      fmt_u64_dec (At i) w buf = Some (length (dec (unat w)), blit i (dec (unat w)) buf) \<and>
      fmt_s64_dec (At i) w buf = Some (length (dec_int (sint w)), blit i (dec_int (sint w)) buf) \<and>
      fmt_u32_dec NULL v buf = Some (length (dec (unat v)), buf) \<and>
      fmt_s32_dec NULL v buf = Some (length (dec_int (sint v)), buf) \<and>
      fmt_u64_dec NULL w buf = Some (length (dec (unat w)), buf) \<and>
      fmt_s64_dec NULL w buf = Some (length (dec_int (sint w)), buf) \<and>
      length (dec (unat v)) \<le> 10 \<and> length (dec_int (sint v)) \<le> 11 \<and>
      length (dec (unat w)) \<le> 20 \<and> length (dec_int (sint w)) \<le> 20"
proof -
  note lens = length_dec_word(1,2) [of v] length_dec_word(3,4) [of w]
  have room: "i + length (dec (unat v)) \<le> length buf" "i + length (dec_int (sint v)) \<le> length buf"
    "i + length (dec (unat w)) \<le> length buf" "i + length (dec_int (sint w)) \<le> length buf"
    using assms lens by linarith+
  have "drop i (blit i (dec (unat v)) buf) = dec (unat v) @ drop (i + length (dec (unat v))) buf"
    using room(1) by (simp add: blit_def)
  then have "scn_u32_dec (drop i (blit i (dec (unat v)) buf)) (length (dec (unat v))) = Some v"
    using scn_dec_loop [of "unat v" "drop (i + length (dec (unat v))) buf" 0 0] by (simp add: scn_u32_dec_def)
  then show ?thesis using room lens by simp
qed

theorem decimal_output_reads_back_witness:
  "fmt_u64_dec (At 0) 65536 (replicate 20 0) = Some (5, [54, 53, 53, 51, 54] @ replicate 15 0) \<and>
   fmt_s32_dec (At 0) (- 7) (replicate 20 0) = Some (2, [45, 55] @ replicate 18 0) \<and>
   scn_u32_dec ([52, 50] @ replicate 18 0) (Suc (Suc 0)) = Some 42"
proof -
  have r: "0 + 20 \<le> length (replicate 20 (0 :: u8))" by simp
  have d: "dec 65536 = [54, 53, 53, 51, 54]" "dec 7 = [55]" "dec 42 = [52, 50]"
    by (simp_all add: dec.simps)
  show ?thesis
    using decimal_output_reads_back [OF r, of "- 7" 65536] decimal_output_reads_back [OF r, of 42 0]
    by (simp add: d dec_int_def blit_def del: replicate_Suc)
qed

text \<open>
  Bytes survive the trip through hexadecimal notation: \<open>fmt_bytes_hex\<close> writes two
  digits per byte and \<open>fmt_hex_bytes\<close> turns that string back into the same bytes;
  \<open>fmt_u32_hex\<close> writes eight digits that \<open>scn_u32_hex\<close> reads back as the same number. With
  a NULL pointer \<open>fmt_bytes_hex\<close> only returns the length, as documented, but \<open>fmt_u32_hex\<close>
  faults: after the first byte the pointer is no longer NULL and is written through.
\<close>

theorem hex_output_reads_back:
  fixes v :: u32
  assumes "i + 2 * length bs \<le> length buf" "i + 8 \<le> length buf" "j + length bs \<le> length buf2"
  shows "fmt_bytes_hex (At i) bs buf = Some (2 * length bs, blit i (hexs bs) buf) \<and>
      fmt_hex_bytes (At j) (hexs bs @ 0 # rest) buf2 = Some (length bs, blit j bs buf2) \<and>
      fmt_bytes_hex NULL bs buf = Some (2 * length bs, buf) \<and>
      (\<exists>s. length s = 8 \<and> fmt_u32_hex (At i) v buf = Some (8, blit i s buf) \<and> scn_u32_hex (s @ rest) 8 = Some v) \<and>
      fmt_u32_hex NULL v buf = None"
proof -
  let ?b = "rev (le_bytes 4 v)"
  have l: "length (le_bytes 4 v) = 4" by (simp add: le_bytes_def)
  have "fmt_u32_hex (At i) v buf = Some (8, blit i (hexs ?b) buf)"
    using assms(2) l by (simp add: fmt_u32_hex_def fmt_bytes_hex_reverse_def bytes_hex_loop_At)
  moreover have "scn_u32_hex (hexs ?b @ rest) 8 = Some v"
    using scn_hexs [of ?b rest 0 0] l by (simp add: scn_u32_hex_def le_bytes_value)
  moreover have "length (hexs ?b) = 8" using l by simp
  moreover have "fmt_hex_bytes (At j) (hexs bs @ 0 # rest) buf2 = Some (length bs, blit j bs buf2)"
    using hex_bytes_loop_At [OF assms(3), of "[]" "0 # rest"]
    by (simp add: fmt_hex_bytes_def fmt_strlen_text [OF hexs_nonzero] Let_def)
  moreover have "fmt_u32_hex NULL v buf = None"
    by (simp add: fmt_u32_hex_def fmt_bytes_hex_reverse_def le_bytes_def upt_rec fmt_byte_hex_def)
  moreover have "fmt_bytes_hex (At i) bs buf = Some (2 * length bs, blit i (hexs bs) buf)"
      "fmt_bytes_hex NULL bs buf = Some (2 * length bs, buf)"
    using assms(1) by (simp_all add: fmt_bytes_hex_def bytes_hex_loop_At Let_def mult.commute)
  ultimately show ?thesis by blast
qed

theorem hex_output_reads_back_witness:
  "fmt_hex_bytes (At 0) [49, 70, 65, 48, 0] [9, 9, 9] = Some (2, [0x1F, 0xA0, 9]) \<and>
   fmt_u32_hex NULL 5 (replicate 8 0) = None"
proof -
  have h: "hexs [0x1F, 0xA0] = [49, 70, 65, 48]" by (simp add: hexs_def hex_chars_def unat_drop_bit_div)
  show ?thesis
    using hex_output_reads_back [of 0 "[0x1F, 0xA0]" "replicate 8 0" 0 "[9, 9, 9]" "[]" 5]
    by (simp add: h blit_def)
qed

text \<open>
  Fixed point output: for every 32-bit value and every number of digits from -7 on,
  \<open>fmt_s32_dfp\<close> writes the exact decimal value, with trailing zeros for a positive count and with
  a point and exactly that many fraction digits for a negative one, the sign also before a zero
  integer part; the result with NULL is the same length. Both builds of \<open>fmt_lpad\<close>, which it
  uses to fill the fraction with zeros, have the same effect.
\<close>

theorem fixed_point_output:
  assumes "fp > - 8" "i + length (dfp_text (sint val) fp) \<le> length buf" "n \<le> k" "i + k \<le> length buf"
  shows "fmt_s32_dfp (At i) val fp buf = Some (length (dfp_text (sint val) fp), blit i (dfp_text (sint val) fp) buf) \<and>
      fmt_s32_dfp NULL val fp buf = Some (length (dfp_text (sint val) fp), buf) \<and>
      fmt_lpad True (At i) n k c buf = fmt_lpad False (At i) n k c buf"
  using fmt_s32_dfp_writes [OF assms(1,2)] assms(3,4) by (simp add: fmt_lpad_At)

theorem fixed_point_output_witness:
  "fmt_s32_dfp (At 0) (- 305) (- 2) (replicate 5 0) = Some (5, [45, 51, 46, 48, 53])"
proof -
  have t: "dfp_text (- 305) (- 2) = [45, 51, 46, 48, 53]"
    by (simp add: dfp_text_def dec_small padn.simps numeral_2_eq_2)
  have s: "sint (- 305 :: u32) = - 305" by simp
  show ?thesis
    using fixed_point_output [of "- 2" 0 "- 305" "replicate 5 0" 0 0 0] by (simp add: s t blit_def)
qed

text \<open>
  \<open>scn_u32_hex\<close> is documented to stop at any non-hexadecimal character; it goes on over those
  below 'f' that are neither digits nor letters, such as the space.
\<close>

lemma scn_u32_hex_accepts_space: "scn_u32_hex [32, 0] 2 = Some 0xFFFFFFC9"
  by code_simp

end
