(* ===== verification/Base64.thy ===== *)
theory Base64
  imports Mem
begin

text \<open>
  Base64 (sys/base64/base64.c): encoding in the standard and in the URL-safe alphabet, and
  decoding. Input is a list of bytes or NULL (\<open>None\<close>), output goes through a pointer into a
  buffer; sizes are natural numbers, without the wrap-around of \<open>size_t\<close>: an estimate only wraps for
  sizes of about 3 GiB, for which no output buffer of the estimated size exists. The result is the return code, the value left in the
  size variable and the buffer, or \<open>None\<close> for a write outside the buffer.
\<close>

section \<open>The program\<close>

definition BASE64_SUCCESS :: int where "BASE64_SUCCESS = 0"
definition BASE64_ERROR_BUFFER_OUT :: int where "BASE64_ERROR_BUFFER_OUT = - 1"
definition BASE64_ERROR_BUFFER_OUT_SIZE :: int where "BASE64_ERROR_BUFFER_OUT_SIZE = - 2"
definition BASE64_ERROR_DATA_IN :: int where "BASE64_ERROR_DATA_IN = - 3"
definition BASE64_ERROR_DATA_IN_SIZE :: int where "BASE64_ERROR_DATA_IN_SIZE = - 4"

lemmas base64_codes = BASE64_SUCCESS_def BASE64_ERROR_BUFFER_OUT_def BASE64_ERROR_BUFFER_OUT_SIZE_def
  BASE64_ERROR_DATA_IN_def BASE64_ERROR_DATA_IN_SIZE_def

definition BASE64_EQUALS :: u8 where "BASE64_EQUALS = 0xFE"
definition BASE64_NOT_DEFINED :: u8 where "BASE64_NOT_DEFINED = 0xFF"

definition base64_estimate_decode_size :: "nat \<Rightarrow> nat" where
  "base64_estimate_decode_size base64_in_size = (base64_in_size + 3) div 4 * 3"

definition base64_estimate_encode_size :: "nat \<Rightarrow> nat" where
  "base64_estimate_encode_size data_in_size = 4 * ((data_in_size + 2) div 3)"

text \<open>The flag \<open>mod_url\<close> tells whether the build has the module \<open>base64url\<close>.\<close>

definition getsymbol :: "bool \<Rightarrow> u8 \<Rightarrow> bool \<Rightarrow> u8" where
  "getsymbol mod_url code urlsafe =
     (let urlsafe = (if \<not> mod_url then False else urlsafe)
      in if urlsafe \<and> code = 63 then 95
         else if urlsafe \<and> code = 62 then 45
         else if \<not> urlsafe \<and> code = 63 then 47
         else if \<not> urlsafe \<and> code = 62 then 43
         else if code \<le> 25 then code + 65
         else if code \<le> 51 then code + (122 - 51)
         else if code \<le> 61 then code + (57 - 61)
         else BASE64_NOT_DEFINED)"

definition encode_three_bytes ::
  "bool \<Rightarrow> ptr \<Rightarrow> u8 \<Rightarrow> u8 \<Rightarrow> u8 \<Rightarrow> bool \<Rightarrow> u8 list \<Rightarrow> u8 list option" where
  "encode_three_bytes mod_url dest b1 b2 b3 urlsafe buf =
     do { buf \<leftarrow> store dest (getsymbol mod_url (drop_bit 2 b1) urlsafe) buf;
          buf \<leftarrow> store (padd dest 1) (getsymbol mod_url (push_bit 4 (b1 AND 0x03) OR drop_bit 4 b2) urlsafe) buf;
          buf \<leftarrow> store (padd dest 2) (getsymbol mod_url (push_bit 2 (b2 AND 0x0f) OR drop_bit 6 b3) urlsafe) buf;
          store (padd dest 3) (getsymbol mod_url (b3 AND 0x3f) urlsafe) buf }"

text \<open>The loop over full groups and the three ways it ends.\<close>

fun encode_loop :: "bool \<Rightarrow> bool \<Rightarrow> ptr \<Rightarrow> u8 list \<Rightarrow> u8 list \<Rightarrow> u8 list option" where
  "encode_loop mod_url urlsafe out (b1 # b2 # b3 # rest) buf =
     do { buf \<leftarrow> encode_three_bytes mod_url out b1 b2 b3 urlsafe buf;
          encode_loop mod_url urlsafe (padd out 4) rest buf }"
| "encode_loop mod_url urlsafe out [] buf = Some buf"
| "encode_loop mod_url urlsafe out [b1] buf =
     do { buf \<leftarrow> encode_three_bytes mod_url out b1 0 0 urlsafe buf;
          buf \<leftarrow> store (padd out 3) 61 buf;
          store (padd out 2) 61 buf }"
| "encode_loop mod_url urlsafe out [b1, b2] buf =
     do { buf \<leftarrow> encode_three_bytes mod_url out b1 b2 0 urlsafe buf;
          store (padd out 3) 61 buf }"

definition base64_encode_base ::
  "bool \<Rightarrow> u8 list option \<Rightarrow> ptr \<Rightarrow> nat \<Rightarrow> bool \<Rightarrow> u8 list \<Rightarrow> (int \<times> nat \<times> u8 list) option" where
  "base64_encode_base mod_url data_in out base64_out_size urlsafe buf =
     (case data_in of
        None \<Rightarrow> Some (BASE64_ERROR_DATA_IN, base64_out_size, buf)
      | Some data \<Rightarrow>
          (let required_size = base64_estimate_encode_size (length data)
           in if length data = 0 then Some (BASE64_SUCCESS, 0, buf)
              else if base64_out_size < required_size then Some (BASE64_ERROR_BUFFER_OUT_SIZE, required_size, buf)
              else if out = NULL then Some (BASE64_ERROR_BUFFER_OUT, base64_out_size, buf)
              else
                do { buf \<leftarrow> encode_loop mod_url urlsafe out data buf;
                     Some (BASE64_SUCCESS, required_size, buf) }))"

definition base64_encode ::
  "bool \<Rightarrow> u8 list option \<Rightarrow> ptr \<Rightarrow> nat \<Rightarrow> u8 list \<Rightarrow> (int \<times> nat \<times> u8 list) option" where
  "base64_encode mod_url data_in out base64_out_size buf =
     base64_encode_base mod_url data_in out base64_out_size False buf"

definition base64url_encode :: "u8 list option \<Rightarrow> ptr \<Rightarrow> nat \<Rightarrow> u8 list \<Rightarrow> (int \<times> nat \<times> u8 list) option" where
  "base64url_encode data_in out base64_out_size buf =
     base64_encode_base True data_in out base64_out_size True buf"

definition getcode :: "u8 \<Rightarrow> u8" where
  "getcode symbol =
     (if symbol = 47 then 63
      else if symbol = 95 then 63
      else if symbol = 43 then 62
      else if symbol = 45 then 62
      else if symbol = 61 then BASE64_EQUALS
      else if symbol < 48 then BASE64_NOT_DEFINED
      else if symbol \<le> 57 \<and> symbol \<ge> 48 then symbol + (61 - 57)
      else if symbol \<le> 90 \<and> symbol \<ge> 65 then symbol - 65
      else if symbol \<le> 122 \<and> symbol \<ge> 97 then symbol + (51 - 122)
      else BASE64_NOT_DEFINED)"

definition decode_four_codes :: "ptr \<Rightarrow> u8 \<Rightarrow> u8 \<Rightarrow> u8 \<Rightarrow> u8 \<Rightarrow> u8 list \<Rightarrow> u8 list option" where
  "decode_four_codes out s0 s1 s2 s3 buf =
     do { buf \<leftarrow> store out (push_bit 2 s0 OR drop_bit 4 s1) buf;
          buf \<leftarrow> store (padd out 1) (push_bit 4 s1 OR drop_bit 2 s2) buf;
          store (padd out 2) (push_bit 6 s2 OR s3) buf }"

text \<open>
  The decoding loops: \<open>codes\<close> is the filled part of \<open>decode_buf\<close>, and \<open>n\<close> the distance of
  \<open>out\<close> from the start of the output.
\<close>

fun decode_loop :: "u8 list \<Rightarrow> u8 list \<Rightarrow> ptr \<Rightarrow> nat \<Rightarrow> u8 list \<Rightarrow> (int \<times> nat option \<times> u8 list) option" where
  "decode_loop [] codes data_out n buf =
     (case codes of
        [c0] \<Rightarrow> Some (BASE64_ERROR_DATA_IN_SIZE, None, buf)
      | [c0, c1] \<Rightarrow>
          do { buf \<leftarrow> decode_four_codes (padd data_out n) c0 c1 0 0 buf; Some (BASE64_SUCCESS, Some (n + 1), buf) }
      | [c0, c1, c2] \<Rightarrow>
          do { buf \<leftarrow> decode_four_codes (padd data_out n) c0 c1 c2 0 buf; Some (BASE64_SUCCESS, Some (n + 2), buf) }
      | _ \<Rightarrow> Some (BASE64_SUCCESS, Some n, buf))"
| "decode_loop (symbol # rest) codes data_out n buf =
     (let code = getcode symbol
      in if code = BASE64_NOT_DEFINED \<or> code = BASE64_EQUALS then decode_loop rest codes data_out n buf
         else
           (case codes @ [code] of
              [c0, c1, c2, c3] \<Rightarrow>
                do { buf \<leftarrow> decode_four_codes (padd data_out n) c0 c1 c2 c3 buf;
                     decode_loop rest [] data_out (n + 3) buf }
            | codes \<Rightarrow> decode_loop rest codes data_out n buf))"

definition base64_decode ::
  "u8 list option \<Rightarrow> ptr \<Rightarrow> nat \<Rightarrow> u8 list \<Rightarrow> (int \<times> nat \<times> u8 list) option" where
  "base64_decode base64_in data_out data_out_size buf =
     (case base64_in of
        None \<Rightarrow> Some (BASE64_ERROR_DATA_IN, data_out_size, buf)
      | Some inp \<Rightarrow>
          (let required_size = base64_estimate_decode_size (length inp)
           in if data_out_size < required_size then Some (BASE64_ERROR_BUFFER_OUT_SIZE, required_size, buf)
              else if data_out = NULL then Some (BASE64_ERROR_BUFFER_OUT, data_out_size, buf)
              else
                do { (r, used, buf) \<leftarrow> decode_loop inp [] data_out 0 buf;
                     Some (r, case used of None \<Rightarrow> data_out_size | Some k \<Rightarrow> k, buf) }))"

section \<open>The encoded text\<close>

text \<open>Four symbols for three bytes.\<close>

definition quad :: "bool \<Rightarrow> bool \<Rightarrow> u8 \<Rightarrow> u8 \<Rightarrow> u8 \<Rightarrow> u8 list" where
  "quad m u b1 b2 b3 =
     [getsymbol m (drop_bit 2 b1) u, getsymbol m (push_bit 4 (b1 AND 0x03) OR drop_bit 4 b2) u,
      getsymbol m (push_bit 2 (b2 AND 0x0f) OR drop_bit 6 b3) u, getsymbol m (b3 AND 0x3f) u]"

fun b64 :: "bool \<Rightarrow> bool \<Rightarrow> u8 list \<Rightarrow> u8 list" where
  "b64 m u (b1 # b2 # b3 # rest) = quad m u b1 b2 b3 @ b64 m u rest"
| "b64 m u [] = []"
| "b64 m u [b1] = take 2 (quad m u b1 0 0) @ [61, 61]"
| "b64 m u [b1, b2] = take 3 (quad m u b1 b2 0) @ [61]"

lemma encode_size_step [simp]: "base64_estimate_encode_size (Suc (Suc (Suc n))) = 4 + base64_estimate_encode_size n"
  by (simp add: base64_estimate_encode_size_def) presburger

lemma length_b64: "length (b64 m u bs) = base64_estimate_encode_size (length bs)"
  by (induction m u bs rule: b64.induct) (simp_all add: quad_def, simp_all add: base64_estimate_encode_size_def)

lemma encode_three_bytes_At:
  assumes "i + 4 \<le> length buf"
  shows "encode_three_bytes m (At i) b1 b2 b3 u buf = Some (blit i (quad m u b1 b2 b3) buf)"
  using assms store_behind [of i "[]" buf] store_behind [of i "[x]" buf for x] store_behind [of i "[x, y]" buf for x y]
    store_behind [of i "[x, y, z]" buf for x y z]
  by (simp add: encode_three_bytes_def quad_def numeral_2_eq_2 numeral_3_eq_3 del: store.simps)

lemma encode_loop_writes:
  "i + length (b64 m u bs) \<le> length buf \<Longrightarrow> encode_loop m u (At i) bs buf = Some (blit i (b64 m u bs) buf)"
proof (induction m u bs arbitrary: i buf rule: b64.induct)
  case (1 m u b1 b2 b3 rest)
  let ?q = "quad m u b1 b2 b3"
  have q: "length ?q = 4" by (simp add: quad_def)
  have "encode_loop m u (At (i + 4)) rest (blit i ?q buf) = Some (blit (i + 4) (b64 m u rest) (blit i ?q buf))"
    using 1 q by simp
  also have "blit (i + 4) (b64 m u rest) (blit i ?q buf) = blit i (?q @ b64 m u rest) buf"
    using blit_after [of i ?q buf "b64 m u rest"] 1(2) q by simp
  finally show ?case using 1(2) q by (simp add: encode_three_bytes_At)
next
  case (3 m u b1)
  let ?q = "quad m u b1 0 0"
  have q: "length ?q = 4" by (simp add: quad_def)
  have "store (At (i + 3)) 61 (blit i ?q buf) = Some (blit i (?q[3 := 61]) buf)"
    "store (At (i + 2)) 61 (blit i (?q[3 := 61]) buf) = Some (blit i (?q[3 := 61, 2 := 61]) buf)"
    using 3 q store_within [of 3 ?q i buf 61] store_within [of 2 "?q[3 := 61]" i buf 61] by simp_all
  moreover have "?q[3 := 61, 2 := 61] = b64 m u [b1]" by (simp add: quad_def numeral_2_eq_2 numeral_3_eq_3)
  ultimately show ?case using 3 q by (simp add: encode_three_bytes_At del: store.simps)
next
  case (4 m u b1 b2)
  let ?q = "quad m u b1 b2 0"
  have q: "length ?q = 4" by (simp add: quad_def)
  have "store (At (i + 3)) 61 (blit i ?q buf) = Some (blit i (?q[3 := 61]) buf)"
    using 4 q by (intro store_within) simp_all
  moreover have "?q[3 := 61] = b64 m u [b1, b2]" by (simp add: quad_def numeral_3_eq_3)
  ultimately show ?case using 4 q by (simp add: encode_three_bytes_At del: store.simps)
qed simp

section \<open>Decoding what was encoded\<close>

lemma getcode_capital: "65 \<le> unat s \<Longrightarrow> unat s \<le> 90 \<Longrightarrow> getcode s = s - 65"
  and getcode_small: "97 \<le> unat s \<Longrightarrow> unat s \<le> 122 \<Longrightarrow> getcode s = s + (51 - 122)"
  and getcode_number: "48 \<le> unat s \<Longrightarrow> unat s \<le> 57 \<Longrightarrow> getcode s = s + (61 - 57)"
  by (auto simp: getcode_def word_le_nat_alt word_less_nat_alt)

lemma getcode_getsymbol:
  assumes "c < 64"
  shows "getcode (getsymbol m c u) = c" "c \<noteq> BASE64_NOT_DEFINED" "c \<noteq> BASE64_EQUALS"
proof -
  show "c \<noteq> BASE64_NOT_DEFINED" "c \<noteq> BASE64_EQUALS" using assms by (auto simp: BASE64_NOT_DEFINED_def BASE64_EQUALS_def)
  have n: "unat c < 64" using assms by (simp add: word_less_nat_alt)
  have plus: "unat (c + k) = unat c + unat k" if "unat c + unat k < 256" for k
    using that by (simp add: unat_word_ariths)
  consider "unat c = 63" | "unat c = 62" | "unat c \<le> 25" | "26 \<le> unat c" "unat c \<le> 51" | "52 \<le> unat c" "unat c \<le> 61"
    using n by linarith
  then show "getcode (getsymbol m c u) = c"
  proof cases
    case 1
    then have "c = 63" by (simp add: word_unat_eq_iff)
    then show ?thesis by (simp add: getsymbol_def getcode_def)
  next
    case 2
    then have "c = 62" by (simp add: word_unat_eq_iff)
    then show ?thesis by (simp add: getsymbol_def getcode_def)
  next
    case 3
    then have "getsymbol m c u = c + 65" by (auto simp: getsymbol_def word_le_nat_alt)
    then show ?thesis using 3 plus [of 65] by (simp add: getcode_capital)
  next
    case 4
    then have "getsymbol m c u = c + 71" by (auto simp: getsymbol_def word_le_nat_alt)
    then show ?thesis using 4 plus [of 71] by (simp add: getcode_small)
  next
    case 5
    then have g: "getsymbol m c u = c - 4" by (auto simp: getsymbol_def word_le_nat_alt)
    have "unat (c - 4) = unat c - 4" using 5 by (subst unat_sub) (simp_all add: word_le_nat_alt)
    then show ?thesis using 5 g by (simp add: getcode_number)
  qed
qed

lemma six_bits:
  "drop_bit 2 (b :: u8) < 64" "push_bit 4 (b AND 0x03) OR drop_bit 4 (b' :: u8) < 64"
  "push_bit 2 (b AND 0x0f) OR drop_bit 6 b' < 64" "b AND 0x3f < 64"
proof -
  have m: "b AND 0x03 = take_bit 2 b" "b AND 0x0f = take_bit 4 b" "b AND 0x3f = take_bit 6 b"
    by (simp_all add: take_bit_eq_mask mask_eq_decr_exp)
  have lt: "x < 64" if "take_bit 6 x = x" for x :: u8
  proof -
    have "unat x < 2 ^ 6" using that by (metis take_bit_nat_less_exp unsigned_take_bit_eq)
    then show ?thesis by (simp add: word_less_nat_alt)
  qed
  show "drop_bit 2 b < 64" "push_bit 4 (b AND 0x03) OR drop_bit 4 b' < 64"
    "push_bit 2 (b AND 0x0f) OR drop_bit 6 b' < 64" "b AND 0x3f < 64"
    unfolding m by (rule lt, rule bit_eqI, auto simp: bit_simps dest: bit_imp_le_length)+
qed

lemma byte_eqI:
  fixes a b :: u8
  assumes "\<And>n. n \<in> {0, 1, 2, 3, 4, 5, 6, 7} \<Longrightarrow> bit a n = bit b n"
  shows "a = b"
proof (rule bit_eqI)
  fix n
  assume "possible_bit TYPE(8 word) n"
  then have "n \<in> {0, 1, 2, 3, 4, 5, 6, 7}" by auto
  then show "bit a n = bit b n" by (rule assms)
qed

lemma join_bits:
  fixes b1 b2 b3 :: u8
  defines "c0 \<equiv> drop_bit 2 b1" and "c1 \<equiv> push_bit 4 (b1 AND 0x03) OR drop_bit 4 b2"
    and "c2 \<equiv> push_bit 2 (b2 AND 0x0f) OR drop_bit 6 b3" and "c3 \<equiv> b3 AND 0x3f"
  shows "push_bit 2 c0 OR drop_bit 4 c1 = b1" "push_bit 4 c1 OR drop_bit 2 c2 = b2" "push_bit 6 c2 OR c3 = b3"
proof -
  have m: "b1 AND 0x03 = take_bit 2 b1" "b2 AND 0x0f = take_bit 4 b2" "b3 AND 0x3f = take_bit 6 b3"
    by (simp_all add: take_bit_eq_mask mask_eq_decr_exp)
  show "push_bit 2 c0 OR drop_bit 4 c1 = b1" "push_bit 4 c1 OR drop_bit 2 c2 = b2" "push_bit 6 c2 OR c3 = b3"
    unfolding c0_def c1_def c2_def c3_def m
    by (rule byte_eqI, elim insertE emptyE, simp_all add: bit_simps)+
qed

lemma decode_four_codes_At:
  assumes "i + 3 \<le> length buf"
  shows "decode_four_codes (At i) s0 s1 s2 s3 buf
    = Some (blit i [push_bit 2 s0 OR drop_bit 4 s1, push_bit 4 s1 OR drop_bit 2 s2, push_bit 6 s2 OR s3] buf)"
  using assms store_behind [of i "[]" buf] store_behind [of i "[x]" buf for x] store_behind [of i "[x, y]" buf for x y]
  by (simp add: decode_four_codes_def numeral_2_eq_2 del: store.simps)

lemma decode_symbols:
  assumes "c0 < 64" "c1 < 64" "c2 < 64" "c3 < 64"
  shows "decode_loop (getsymbol m c0 u # getsymbol m c1 u # rest) [] out n buf = decode_loop rest [c0, c1] out n buf"
    and "decode_loop (getsymbol m c2 u # rest) [c0, c1] out n buf = decode_loop rest [c0, c1, c2] out n buf"
    and "decode_loop (getsymbol m c3 u # rest) [c0, c1, c2] out n buf
      = do { buf \<leftarrow> decode_four_codes (padd out n) c0 c1 c2 c3 buf; decode_loop rest [] out (n + 3) buf }"
  by (simp_all add: assms getcode_getsymbol Let_def)

lemma decode_equals: "decode_loop (61 # rest) codes out n buf = decode_loop rest codes out n buf"
  by (simp add: getcode_def)

lemmas quad_symbols = decode_symbols [OF six_bits(1) six_bits(2) six_bits(3) six_bits(4)]

lemma decode_quad:
  assumes "j + n + 3 \<le> length buf"
  shows "decode_loop (quad m u b1 b2 b3 @ rest) [] (At j) n buf
    = decode_loop rest [] (At j) (n + 3) (blit (j + n) [b1, b2, b3] buf)"
  using assms by (simp only: quad_def append.simps quad_symbols padd.simps decode_four_codes_At join_bits) simp

lemma decode_two:
  assumes "j + n + 3 \<le> length buf"
  shows "decode_loop (take 2 (quad m u b1 0 0) @ [61, 61]) [] (At j) n buf
    = Some (BASE64_SUCCESS, Some (n + 1), blit (j + n) [b1, 0, 0] buf)"
proof -
  define c1 where "c1 = push_bit 4 (b1 AND 0x03) OR drop_bit 4 (0 :: u8)"
  have c: "push_bit 2 (drop_bit 2 b1) OR drop_bit 4 c1 = b1" "push_bit 4 c1 = 0"
    using join_bits(1) [of b1 0] join_bits(2) [of b1 0 0] by (simp_all add: c1_def)
  have "take 2 (quad m u b1 0 0) @ [61, 61] = [getsymbol m (drop_bit 2 b1) u, getsymbol m c1 u, 61, 61]"
    by (simp add: quad_def c1_def numeral_2_eq_2)
  then show ?thesis using assms c by (simp only: c1_def quad_symbols decode_equals) (simp add: decode_four_codes_At)
qed

lemma decode_three:
  assumes "j + n + 3 \<le> length buf"
  shows "decode_loop (take 3 (quad m u b1 b2 0) @ [61]) [] (At j) n buf
    = Some (BASE64_SUCCESS, Some (n + 2), blit (j + n) [b1, b2, 0] buf)"
proof -
  define c1 where "c1 = push_bit 4 (b1 AND 0x03) OR drop_bit 4 b2"
  define c2 where "c2 = push_bit 2 (b2 AND 0x0f) OR drop_bit 6 (0 :: u8)"
  have c: "push_bit 2 (drop_bit 2 b1) OR drop_bit 4 c1 = b1" "push_bit 4 c1 OR drop_bit 2 c2 = b2" "push_bit 6 c2 = 0"
    using join_bits(1) [of b1 b2] join_bits(2) [of b1 b2 0] join_bits(3) [of b2 0] by (simp_all add: c1_def c2_def)
  have "take 3 (quad m u b1 b2 0) @ [61] = [getsymbol m (drop_bit 2 b1) u, getsymbol m c1 u, getsymbol m c2 u, 61]"
    by (simp add: quad_def c1_def c2_def numeral_3_eq_3)
  moreover have "drop_bit 2 b1 < 64" "c1 < 64" "c2 < 64" by (simp_all only: c1_def c2_def six_bits)
  ultimately show ?thesis using assms c decode_symbols [of "drop_bit 2 b1" c1 c2 0 m u]
    by (simp add: decode_equals decode_four_codes_At del: decode_loop.simps(2))
qed

lemma decode_b64:
  "j + n + 3 * ((length bs + 2) div 3) \<le> length buf \<Longrightarrow>
   \<exists>pad. decode_loop (b64 m u bs) [] (At j) n buf = Some (BASE64_SUCCESS, Some (n + length bs), blit (j + n) (bs @ pad) buf)
     \<and> length (bs @ pad) = 3 * ((length bs + 2) div 3)"
proof (induction m u bs arbitrary: n buf rule: b64.induct)
  case (1 m u b1 b2 b3 rest)
  let ?b = "blit (j + n) [b1, b2, b3] buf"
  have d: "(length (b1 # b2 # b3 # rest) + 2) div 3 = Suc ((length rest + 2) div 3)" by (simp; presburger)
  have "j + (n + 3) + 3 * ((length rest + 2) div 3) \<le> length ?b" using 1(2) unfolding d by simp
  from 1(1) [OF this] obtain pad where pad: "length (rest @ pad) = 3 * ((length rest + 2) div 3)"
    "decode_loop (b64 m u rest) [] (At j) (n + 3) ?b
      = Some (BASE64_SUCCESS, Some (n + 3 + length rest), blit (j + (n + 3)) (rest @ pad) ?b)" by blast
  have "blit (j + (n + 3)) (rest @ pad) ?b = blit (j + n) ([b1, b2, b3] @ rest @ pad) buf"
  proof -
    have "j + (n + 3) = j + n + length [b1, b2, b3]" by simp
    moreover have "j + n + length [b1, b2, b3] \<le> length buf" using 1(2) unfolding d by simp
    ultimately show ?thesis by (simp only: blit_after)
  qed
  then show ?case using pad 1(2) unfolding d by (intro exI [of _ pad]) (simp add: decode_quad add.assoc)
next
  case (3 m u b1)
  then show ?case by (intro exI [of _ "[0, 0]"]) (simp add: decode_two del: decode_loop.simps)
next
  case (4 m u b1 b2)
  then show ?case by (intro exI [of _ "[0]"]) (simp add: decode_three del: decode_loop.simps)
qed simp

section \<open>Arbitrary input\<close>

definition is_base64 :: "u8 \<Rightarrow> bool" where
  "is_base64 s \<longleftrightarrow> getcode s \<noteq> BASE64_NOT_DEFINED \<and> getcode s \<noteq> BASE64_EQUALS"

lemma short_list:
  "length xs < 4 \<Longrightarrow> xs = [] \<or> (\<exists>a. xs = [a]) \<or> (\<exists>a b. xs = [a, b]) \<or> (\<exists>a b c. xs = [a, b, c])"
  by (auto simp: numeral_eq_Suc less_Suc_eq length_Suc_conv)

lemma decode_loop_total:
  "length codes < 4 \<Longrightarrow> v = length codes + length (filter is_base64 inp) \<Longrightarrow> j + n + (v + 3) div 4 * 3 \<le> length buf \<Longrightarrow>
   \<exists>s. decode_loop inp codes (At j) n buf
      = Some (if v mod 4 = 1 then (BASE64_ERROR_DATA_IN_SIZE, None, blit (j + n) s buf)
              else (BASE64_SUCCESS, Some (n + v * 3 div 4), blit (j + n) s buf)) \<and> length s \<le> (v + 3) div 4 * 3"
proof (induction inp arbitrary: codes n buf v)
  case Nil
  then consider "codes = []" | a where "codes = [a]" | a b where "codes = [a, b]" | a b c where "codes = [a, b, c]"
    using short_list [of codes] by blast
  then show ?case
  proof cases
    case 1
    then show ?thesis using Nil by (intro exI [of _ "[]"]) simp
  next
    case 2
    then show ?thesis using Nil by (intro exI [of _ "[]"]) simp
  next
    case (3 a b)
    then show ?thesis using Nil by (auto simp: decode_four_codes_At intro!: exI)
  next
    case (4 a b c)
    then show ?thesis using Nil by (auto simp: decode_four_codes_At intro!: exI)
  qed
next
  case (Cons x inp)
  show ?case
  proof (cases "is_base64 x")
    case False
    with Cons.prems have "\<exists>s. decode_loop inp codes (At j) n buf
      = Some (if v mod 4 = 1 then (BASE64_ERROR_DATA_IN_SIZE, None, blit (j + n) s buf)
              else (BASE64_SUCCESS, Some (n + v * 3 div 4), blit (j + n) s buf)) \<and> length s \<le> (v + 3) div 4 * 3"
      by (intro Cons.IH) simp_all
    with False show ?thesis by (simp add: is_base64_def Let_def)
  next
    case True
    show ?thesis
    proof (cases "length codes = 3")
      case False
      then have l: "length (codes @ [getcode x]) < 4" using Cons.prems(1) by simp
      have "decode_loop (x # inp) codes (At j) n buf = decode_loop inp (codes @ [getcode x]) (At j) n buf"
        using True False Cons.prems(1) by (auto simp: is_base64_def Let_def split: list.split)
      moreover have "v = length (codes @ [getcode x]) + length (filter is_base64 inp)" using Cons.prems(2) True by simp
      ultimately show ?thesis using Cons.IH [OF l _ Cons.prems(3)] by simp
    next
      case c3: True
      then obtain a b c where c: "codes = [a, b, c]" by (auto simp: length_Suc_conv numeral_3_eq_3)
      define w where "w = length (filter is_base64 inp)"
      have v: "v = w + 4" using Cons.prems(2) True c by (simp add: w_def)
      have dv: "(v + 3) div 4 = Suc ((w + 3) div 4)" using v by presburger
      have dm: "v mod 4 = w mod 4" "v * 3 div 4 = 3 + w * 3 div 4" using v by presburger+
      have r3: "j + n + 3 \<le> length buf" using Cons.prems(3) unfolding dv by simp
      obtain t where t: "length t = 3" "decode_four_codes (At (j + n)) a b c (getcode x) buf = Some (blit (j + n) t buf)"
        by (rule that [OF _ decode_four_codes_At [OF r3]]) simp
      let ?b = "blit (j + n) t buf"
      have room: "j + (n + 3) + (w + 3) div 4 * 3 \<le> length ?b" using Cons.prems(3) t(1) r3 unfolding dv by simp
      obtain s where s: "decode_loop inp [] (At j) (n + 3) ?b
          = Some (if w mod 4 = 1 then (BASE64_ERROR_DATA_IN_SIZE, None, blit (j + (n + 3)) s ?b)
              else (BASE64_SUCCESS, Some (n + 3 + w * 3 div 4), blit (j + (n + 3)) s ?b))" "length s \<le> (w + 3) div 4 * 3"
        using Cons.IH [of "[]" w "n + 3" ?b] room by (auto simp: w_def)
      have "blit (j + (n + 3)) s ?b = blit (j + n) (t @ s) buf"
        using blit_after [of "j + n" t buf s] r3 t(1) by (simp add: add.assoc)
      moreover have "decode_loop (x # inp) codes (At j) n buf = decode_loop inp [] (At j) (n + 3) ?b"
        using True c t by (simp add: is_base64_def Let_def)
      ultimately show ?thesis using s t(1) by (intro exI [of _ "t @ s"]) (simp add: dv dm)
    qed
  qed
qed

section \<open>Properties\<close>

lemma decode_size_b64: "base64_estimate_decode_size (length (b64 m u bs)) = 3 * ((length bs + 2) div 3)"
  by (simp add: length_b64 base64_estimate_encode_size_def base64_estimate_decode_size_def)

text \<open>
  (C29) Base64 round trip: with sufficient buffers, encoding any non-empty data in either
  alphabet succeeds, writes exactly the announced number of characters and nothing else, and
  decoding that text succeeds and yields the length of the data and the data itself.
\<close>

theorem base64_roundtrip:
  assumes "data \<noteq> []"
    and "base64_estimate_encode_size (length data) \<le> out_size"
    and "i + base64_estimate_encode_size (length data) \<le> length buf"
    and "base64_estimate_decode_size (base64_estimate_encode_size (length data)) \<le> data_size"
    and "j + base64_estimate_decode_size (base64_estimate_encode_size (length data)) \<le> length buf2"
  shows "\<exists>chars buf3.
      base64_encode_base m (Some data) (At i) out_size u buf
        = Some (BASE64_SUCCESS, base64_estimate_encode_size (length data), blit i chars buf) \<and>
      length chars = base64_estimate_encode_size (length data) \<and>
      base64_decode (Some chars) (At j) data_size buf2 = Some (BASE64_SUCCESS, length data, buf3) \<and>
      take (length data) (drop j buf3) = data"
proof -
  let ?t = "b64 m u data"
  have l: "length ?t = base64_estimate_encode_size (length data)" by (rule length_b64)
  have "base64_encode_base m (Some data) (At i) out_size u buf
      = Some (BASE64_SUCCESS, base64_estimate_encode_size (length data), blit i ?t buf)"
    using assms(1-3) by (simp add: base64_encode_base_def Let_def encode_loop_writes l)
  moreover have room: "j + 0 + 3 * ((length data + 2) div 3) \<le> length buf2"
    using assms(5) unfolding l [symmetric] decode_size_b64 by simp
  obtain pad where p: "length (data @ pad) = 3 * ((length data + 2) div 3)"
      "decode_loop ?t [] (At j) 0 buf2 = Some (BASE64_SUCCESS, Some (length data), blit j (data @ pad) buf2)"
    using decode_b64 [OF room] by auto
  then have "base64_decode (Some ?t) (At j) data_size buf2 = Some (BASE64_SUCCESS, length data, blit j (data @ pad) buf2)"
    using assms(4) l by (simp add: base64_decode_def Let_def)
  moreover have "take (length data) (drop j (blit j (data @ pad) buf2)) = data"
    using room p(1) by (simp add: blit_def)
  ultimately show ?thesis using l by blast
qed

theorem base64_roundtrip_witness:
  "\<exists>chars buf3. base64_encode_base True (Some [0xFB, 0xFF]) (At 0) 4 True (replicate 4 0)
      = Some (BASE64_SUCCESS, 4, blit 0 chars (replicate 4 0)) \<and>
    length chars = 4 \<and> base64_decode (Some chars) (At 0) 3 [7, 7, 7] = Some (BASE64_SUCCESS, 2, buf3) \<and>
    take 2 (drop 0 buf3) = [0xFB, 0xFF]"
  using base64_roundtrip [of "[0xFB, 0xFF]" 4 0 "replicate 4 0" 3 0 "[7, 7, 7]" True True]
  by (simp add: base64_estimate_encode_size_def base64_estimate_decode_size_def numeral_2_eq_2)

text \<open>
  Decoding is safe and exact on arbitrary input: with an output buffer of the
  estimated size, \<open>base64_decode\<close> of any bytes terminates, writes only inside the buffer's first
  \<open>base64_estimate_decode_size\<close> bytes, ignores everything that is not a Base64 symbol, and of the
  \<open>v\<close> symbols it finds yields three quarters rounded down as the number of bytes, or the error
  \<open>BASE64_ERROR_DATA_IN_SIZE\<close> exactly when \<open>v\<close> leaves remainder 1 modulo 4.
\<close>

theorem base64_decode_safe:
  assumes "base64_estimate_decode_size (length inp) \<le> data_size"
    and "j + base64_estimate_decode_size (length inp) \<le> length buf"
  defines "v \<equiv> length (filter is_base64 inp)"
  shows "\<exists>s. base64_decode (Some inp) (At j) data_size buf
      = Some (if v mod 4 = 1 then (BASE64_ERROR_DATA_IN_SIZE, data_size, blit j s buf)
              else (BASE64_SUCCESS, v * 3 div 4, blit j s buf)) \<and>
    length s \<le> base64_estimate_decode_size (length inp)"
proof -
  have "v \<le> length inp" by (simp add: v_def)
  then have le: "(v + 3) div 4 * 3 \<le> base64_estimate_decode_size (length inp)"
    by (simp add: base64_estimate_decode_size_def div_le_mono)
  then obtain s where s: "decode_loop inp [] (At j) 0 buf
      = Some (if v mod 4 = 1 then (BASE64_ERROR_DATA_IN_SIZE, None, blit j s buf)
              else (BASE64_SUCCESS, Some (v * 3 div 4), blit j s buf))" "length s \<le> (v + 3) div 4 * 3"
    using decode_loop_total [of "[]" v inp j 0 buf] assms(2) by (auto simp: v_def)
  show ?thesis using s le assms(1) by (intro exI [of _ s]) (simp add: base64_decode_def Let_def)
qed

theorem base64_decode_safe_witness:
  "\<exists>s. base64_decode (Some [81, 10, 85, 74, 61]) (At 0) 6 (replicate 6 0) = Some (BASE64_SUCCESS, 2, blit 0 s (replicate 6 0)) \<and>
     length s \<le> 6"
  using base64_decode_safe [of "[81, 10, 85, 74, 61]" 6 0 "replicate 6 0"]
  by (simp add: base64_estimate_decode_size_def is_base64_def getcode_def BASE64_NOT_DEFINED_def BASE64_EQUALS_def)

end
