(* ===== verification/Xtimer.thy ===== *)
theory Xtimer
  imports Riot_Prelude
begin

text \<open>
  The timers that drive the scheduler's time slices (sys/xtimer/xtimer_core.c), in the build
  with a 32-bit low-level timer (\<open>XTIMER_MASK\<close> = 0). The two lists hold timer addresses.
  The low-level counter is the parameter \<open>clk\<close>: \<open>clk n\<close> is what the n-th read returns. A
  timer's callback is the parameter \<open>cb\<close>, which may do anything to the state; \<open>env\<close> is the
  part of the state that belongs to the callbacks. A failed assertion and a loop that never ends
  are \<open>None\<close>. Interrupts stay disabled during an operation here.
\<close>

section \<open>The program\<close>

record xtimer =
  offset :: u32
  long_offset :: u32
  start_time :: u32
  long_start_time :: u32
  callback :: bool

record 'w xstate =
  timers :: "nat \<Rightarrow> xtimer"
  timer_list :: "nat list"
  long_list :: "nat list"
  in_handler :: bool
  lltimer_ongoing :: bool
  lltimer :: "u32 option"
  current_time :: u64
  reads :: nat
  env :: 'w

definition XTIMER_BACKOFF :: u32 where "XTIMER_BACKOFF = 30"
definition XTIMER_ISR_BACKOFF :: u32 where "XTIMER_ISR_BACKOFF = 20"

abbreviation upd_timer :: "nat \<Rightarrow> (xtimer \<Rightarrow> xtimer) \<Rightarrow> 'w xstate \<Rightarrow> 'w xstate" where
  "upd_timer t f s \<equiv> s\<lparr>timers := (timers s)(t := f (timers s t))\<rparr>"

definition xtimer_lltimer_now :: "(nat \<Rightarrow> u32) \<Rightarrow> 'w xstate \<Rightarrow> u32 \<times> 'w xstate" where
  "xtimer_lltimer_now clk s = (clk (reads s), s\<lparr>reads := Suc (reads s)\<rparr>)"

definition xtimer_now64 :: "(nat \<Rightarrow> u32) \<Rightarrow> 'w xstate \<Rightarrow> u64 \<times> 'w xstate" where
  "xtimer_now64 clk s =
     (let (now, s) = xtimer_lltimer_now clk s;
          elapsed = now - ucast (current_time s);
          s = s\<lparr>current_time := current_time s + ucast elapsed\<rparr>
      in (current_time s, s))"

definition xtimer_now :: "(nat \<Rightarrow> u32) \<Rightarrow> 'w xstate \<Rightarrow> u32 \<times> 'w xstate" where
  "xtimer_now clk s = (let (now, s) = xtimer_now64 clk s in (ucast now, s))"

partial_function (option) spin_loop :: "(nat \<Rightarrow> u32) \<Rightarrow> u32 \<Rightarrow> u32 \<Rightarrow> 'w xstate \<Rightarrow> 'w xstate option" where
  "spin_loop clk start off s =
     (let (now, s) = xtimer_lltimer_now clk s
      in if now - start < off then spin_loop clk start off s else Some s)"

definition xtimer_spin :: "(nat \<Rightarrow> u32) \<Rightarrow> u32 \<Rightarrow> 'w xstate \<Rightarrow> 'w xstate option" where
  "xtimer_spin clk off s = (let (start, s) = xtimer_lltimer_now clk s in spin_loop clk start off s)"

definition timer_comparison :: "xtimer \<Rightarrow> xtimer \<Rightarrow> u32 \<Rightarrow> bool" where
  "timer_comparison timerA timerB now =
     (if long_offset timerA < long_offset timerB then True
      else if long_offset timerA = long_offset timerB then
        (let elapsedA = now - start_time timerA;
             elapsedB = now - start_time timerB
         in offset timerA < elapsedA \<or> offset timerA - elapsedA \<le> offset timerB - elapsedB)
      else False)"

fun add_timer_to_list :: "(nat \<Rightarrow> xtimer) \<Rightarrow> nat list \<Rightarrow> nat \<Rightarrow> u32 \<Rightarrow> nat list" where
  "add_timer_to_list tms [] timer now = [timer]"
| "add_timer_to_list tms (x # xs) timer now =
     (if timer_comparison (tms x) (tms timer) now then x # add_timer_to_list tms xs timer now
      else timer # x # xs)"

fun remove_timer_from_list :: "nat list \<Rightarrow> nat \<Rightarrow> nat list" where
  "remove_timer_from_list [] timer = []"
| "remove_timer_from_list (x # xs) timer = (if x = timer then xs else x # remove_timer_from_list xs timer)"

definition xtimer_remove :: "nat \<Rightarrow> 'w xstate \<Rightarrow> 'w xstate" where
  "xtimer_remove timer s =
     (let s = upd_timer timer (\<lambda>t. t\<lparr>offset := 0, long_offset := 0, start_time := 0, long_start_time := 0\<rparr>) s
      in s\<lparr>timer_list := remove_timer_from_list (timer_list s) timer,
           long_list := remove_timer_from_list (long_list s) timer\<rparr>)"

definition schedule_earliest_lltimer :: "u32 \<Rightarrow> 'w xstate \<Rightarrow> 'w xstate" where
  "schedule_earliest_lltimer now s =
     (if in_handler s then s
      else if timer_list s \<noteq> [] \<and> offset (timers s (hd (timer_list s))) \<le> drop_bit 1 0xFFFFFFFF then
        s\<lparr>lltimer := Some (start_time (timers s (hd (timer_list s))) + offset (timers s (hd (timer_list s)))),
          lltimer_ongoing := True\<rparr>
      else if \<not> lltimer_ongoing s then
        s\<lparr>lltimer := Some (now + drop_bit 1 0xFFFFFFFF), lltimer_ongoing := True\<rparr>
      else s)"

definition xtimer_init :: "(nat \<Rightarrow> u32) \<Rightarrow> 'w xstate \<Rightarrow> 'w xstate" where
  "xtimer_init clk s = (let (now, s) = xtimer_now clk s in schedule_earliest_lltimer now s)"

definition xtimer_set64 ::
  "(nat \<Rightarrow> u32) \<Rightarrow> (nat \<Rightarrow> 'w xstate \<Rightarrow> 'w xstate) \<Rightarrow> nat \<Rightarrow> u32 \<Rightarrow> u32 \<Rightarrow> 'w xstate \<Rightarrow> 'w xstate option" where
  "xtimer_set64 clk cb timer off long_off s =
     (if \<not> callback (timers s timer) then Some s
      else
        do { let s = xtimer_remove timer s;
             if long_off = 0 \<and> off < XTIMER_BACKOFF then
               do { s \<leftarrow> xtimer_spin clk off s; Some (cb timer s) }
             else
               do { let (now, s) = xtimer_now64 clk s;
                    let s = upd_timer timer (\<lambda>t. t\<lparr>offset := off, long_offset := long_off,
                        start_time := ucast now, long_start_time := ucast (drop_bit 32 now)\<rparr>) s;
                    if long_off = 0 then
                      (let s = s\<lparr>timer_list := add_timer_to_list (timers s) (timer_list s) timer (ucast now)\<rparr>
                       in Some (if hd (timer_list s) = timer then schedule_earliest_lltimer (ucast now) s else s))
                    else
                      Some (s\<lparr>long_list := add_timer_to_list (timers s) (long_list s) timer (ucast now)\<rparr>) } })"

text \<open>The loop over the long list: the second argument is what is left of it.\<close>

fun update_long_timers :: "u64 \<Rightarrow> nat list \<Rightarrow> 'w xstate \<Rightarrow> 'w xstate option" where
  "update_long_timers now [] s = Some s"
| "update_long_timers now (timer # rest) s =
     (let elapsed = ucast now - start_time (timers s timer);
          s = (if offset (timers s timer) < elapsed
               then upd_timer timer (\<lambda>t. t\<lparr>long_offset := long_offset t - 1\<rparr>) s else s);
          s = upd_timer timer (\<lambda>t. t\<lparr>offset := offset t - elapsed, start_time := ucast now,
                long_start_time := ucast (drop_bit 32 now)\<rparr>) s
      in if long_offset (timers s timer) = 0 then
           (if long_list s = [] \<or> hd (long_list s) \<noteq> timer then None
            else
              (let s = s\<lparr>long_list := remove_timer_from_list (long_list s) timer\<rparr>;
                   s = s\<lparr>timer_list := add_timer_to_list (timers s) (timer_list s) timer (ucast now)\<rparr>
               in update_long_timers now rest s))
         else update_long_timers now rest s)"

partial_function (option) wait_loop :: "(nat \<Rightarrow> u32) \<Rightarrow> nat \<Rightarrow> 'w xstate \<Rightarrow> 'w xstate option" where
  "wait_loop clk timer s =
     (let (now, s) = xtimer_now clk s
      in if now - start_time (timers s timer) < offset (timers s timer) then wait_loop clk timer s else Some s)"

definition due :: "u32 \<Rightarrow> xtimer \<Rightarrow> bool" where
  "due now t \<longleftrightarrow>
     offset t < now - start_time t \<or> offset t - (now - start_time t) < XTIMER_ISR_BACKOFF"

text \<open>Taking the first timer off the list and marking it as fired.\<close>

definition detach_head :: "nat \<Rightarrow> 'w xstate \<Rightarrow> 'w xstate" where
  "detach_head timer s =
     upd_timer timer (\<lambda>t. t\<lparr>offset := 0, start_time := 0, long_start_time := 0\<rparr>) (s\<lparr>timer_list := tl (timer_list s)\<rparr>)"

definition refresh :: "u64 \<Rightarrow> nat \<Rightarrow> 'w xstate \<Rightarrow> 'w xstate" where
  "refresh now timer s =
     upd_timer timer (\<lambda>t. t\<lparr>offset := offset t - (ucast now - start_time t), start_time := ucast now,
       long_start_time := ucast (drop_bit 32 now)\<rparr>) s"

partial_function (option) update_short_timers ::
  "(nat \<Rightarrow> u32) \<Rightarrow> (nat \<Rightarrow> 'w xstate \<Rightarrow> 'w xstate) \<Rightarrow> u64 \<Rightarrow> nat list \<Rightarrow> 'w xstate \<Rightarrow> (u64 \<times> 'w xstate) option" where
  "update_short_timers clk cb now todo s =
     (case todo of
        [] \<Rightarrow> Some (now, s)
      | timer # rest \<Rightarrow>
          if long_offset (timers s timer) \<noteq> 0 then None
          else if due (ucast now) (timers s timer) then
            (if timer_list s = [] \<or> hd (timer_list s) \<noteq> timer then None
             else
               do { s \<leftarrow> (if offset (timers s timer) > ucast now - start_time (timers s timer)
                         then wait_loop clk timer s else Some s);
                    let s = cb timer (detach_head timer s);
                    let todo = timer_list s;
                    let (now, s) = xtimer_now64 clk s;
                    update_short_timers clk cb now todo s })
          else update_short_timers clk cb now rest (refresh now timer s))"

partial_function (option) handler_loop ::
  "(nat \<Rightarrow> u32) \<Rightarrow> (nat \<Rightarrow> 'w xstate \<Rightarrow> 'w xstate) \<Rightarrow> u64 \<Rightarrow> 'w xstate \<Rightarrow> (u64 \<times> 'w xstate) option" where
  "handler_loop clk cb now s =
     do { (now, s) \<leftarrow> update_short_timers clk cb now (timer_list s) s;
          s \<leftarrow> update_long_timers now (long_list s) s;
          let (now, s) = xtimer_now64 clk s;
          case timer_list s of
            [] \<Rightarrow> Some (now, s)
          | head # rest \<Rightarrow>
              if due (ucast now) (timers s head) then handler_loop clk cb now s
              else Some (now, refresh now head s) }"

definition timer_callback ::
  "(nat \<Rightarrow> u32) \<Rightarrow> (nat \<Rightarrow> 'w xstate \<Rightarrow> 'w xstate) \<Rightarrow> 'w xstate \<Rightarrow> 'w xstate option" where
  "timer_callback clk cb s =
     do { let s = s\<lparr>in_handler := True, lltimer_ongoing := False\<rparr>;
          let (now, s) = xtimer_now64 clk s;
          (now, s) \<leftarrow> handler_loop clk cb now s;
          let s = s\<lparr>in_handler := False\<rparr>;
          Some (schedule_earliest_lltimer (ucast now) s) }"

section \<open>Reading the clock\<close>

lemma ucast_add_down: "(ucast (a + b :: u64) :: u32) = ucast a + ucast b"
  by (rule word_unat_eq_iff [THEN iffD2])
    (simp add: unsigned_ucast_eq take_bit_eq_mod unat_word_ariths mod_mod_cancel mod_simps)

lemma ucast_up_down: "(ucast (ucast (a :: u32) :: u64) :: u32) = a"
  by (rule word_unat_eq_iff [THEN iffD2]) (simp add: unsigned_ucast_eq take_bit_nat_eq_self take_bit_word_eq_self)

lemma xtimer_now64_eq:
  obtains t where "xtimer_now64 clk s = (t, s\<lparr>reads := Suc (reads s), current_time := t\<rparr>)" "ucast t = clk (reads s)"
  by (rule that [of "current_time s + ucast (clk (reads s) - ucast (current_time s))"])
    (simp_all add: xtimer_now64_def xtimer_lltimer_now_def Let_def ucast_add_down ucast_up_down)

lemma mono_reads: "(\<And>n. c n < c (Suc n)) \<Longrightarrow> i \<le> j \<Longrightarrow> c i \<le> (c j :: nat)"
  by (rule lift_Suc_mono_le [of c]) (auto simp: less_imp_le)

lemma elapsed_nat: "S \<le> T \<Longrightarrow> T < S + 2 ^ 32 \<Longrightarrow> unat ((of_nat T :: u32) - of_nat S) = T - S"
  by (simp flip: of_nat_diff add: unat_of_nat)

section \<open>Deadlines\<close>

text \<open>
  Real time is a sequence \<open>c\<close> of natural numbers, one per counter read, of which the counter
  shows the last 32 bits. A timer record stands for the deadline \<open>D\<close> if it was refreshed at a
  real time \<open>S\<close> in the window that starts at \<open>lo\<close>.
\<close>

definition tm_ok :: "nat \<Rightarrow> nat \<Rightarrow> nat \<Rightarrow> xtimer \<Rightarrow> bool" where
  "tm_ok lo T D tm \<longleftrightarrow> long_offset tm = 0 \<and>
     (\<exists>S. lo \<le> S \<and> S \<le> T \<and> start_time tm = of_nat S \<and> D = S + unat (offset tm))"

lemma tm_okE:
  assumes "tm_ok lo T D tm"
  obtains S where "long_offset tm = 0" "lo \<le> S" "S \<le> T" "start_time tm = of_nat S" "D = S + unat (offset tm)"
  using assms by (auto simp: tm_ok_def)

lemma tm_ok_later: "tm_ok lo T D tm \<Longrightarrow> T \<le> T' \<Longrightarrow> tm_ok lo T' D tm"
  by (auto simp: tm_ok_def intro: order_trans)

lemma due_iff:
  assumes "tm_ok lo T D tm" "T < lo + 2 ^ 32"
  shows "due (of_nat T) tm \<longleftrightarrow> D < T + 20"
proof -
  obtain S where S: "lo \<le> S" "S \<le> T" "start_time tm = of_nat S" "D = S + unat (offset tm)"
    using assms(1) by (rule tm_okE)
  have e: "unat ((of_nat T :: u32) - of_nat S) = T - S" using S assms(2) by (intro elapsed_nat) simp_all
  show ?thesis
  proof (cases "offset tm < of_nat T - of_nat S")
    case True
    then show ?thesis using S e by (simp add: due_def word_less_nat_alt)
  next
    case False
    then have "unat (offset tm - (of_nat T - of_nat S)) = unat (offset tm) - (T - S)"
      using e by (simp add: unat_sub word_le_nat_alt word_less_nat_alt)
    then show ?thesis using S e False by (simp add: due_def XTIMER_ISR_BACKOFF_def word_less_nat_alt) linarith
  qed
qed

lemma must_wait_iff:
  assumes "tm_ok lo T D tm" "T < lo + 2 ^ 32"
  shows "of_nat T - start_time tm < offset tm \<longleftrightarrow> T < D"
proof -
  obtain S where S: "lo \<le> S" "S \<le> T" "start_time tm = of_nat S" "D = S + unat (offset tm)"
    using assms(1) by (rule tm_okE)
  have "unat ((of_nat T :: u32) - of_nat S) = T - S" using S assms(2) by (intro elapsed_nat) simp_all
  then show ?thesis using S by (simp add: word_less_nat_alt) linarith
qed

lemma refresh_ok:
  assumes "tm_ok lo T D (timers s t)" "T < lo + 2 ^ 32" "T \<le> D" "ucast now = (of_nat T :: u32)" "lo \<le> T"
  shows "tm_ok lo T D (timers (refresh now t s) t)"
proof -
  obtain S where S: "long_offset (timers s t) = 0" "lo \<le> S" "S \<le> T" "start_time (timers s t) = of_nat S"
    "D = S + unat (offset (timers s t))" using assms(1) by (rule tm_okE)
  have e: "unat ((of_nat T :: u32) - of_nat S) = T - S" using S assms(2) by (intro elapsed_nat) simp_all
  then have "unat (offset (timers s t) - (of_nat T - of_nat S)) = unat (offset (timers s t)) - (T - S)"
    using assms(3) S by (subst unat_sub) (simp_all add: word_le_nat_alt)
  then show ?thesis using S assms(3-5) by (auto simp: tm_ok_def refresh_def intro!: exI [of _ T])
qed

section \<open>Waiting and firing\<close>

lemma wait_loop_returns:
  assumes clk: "\<And>n. clk n = of_nat (c n)" and inc: "\<And>n. c n < c (Suc n)"
    and win: "\<And>n. n \<le> N \<Longrightarrow> c n < lo + 2 ^ 32"
  shows "tm_ok lo (c (reads s)) D (timers s t) \<Longrightarrow> D \<le> c (reads s) + k \<Longrightarrow> reads s + k \<le> N \<Longrightarrow>
    \<exists>m ct. reads s \<le> m \<and> m \<le> reads s + k \<and> D \<le> c m \<and>
      wait_loop clk t s = Some (s\<lparr>reads := Suc m, current_time := ct\<rparr>)"
proof (induction k arbitrary: s)
  case (0 s)
  obtain ct where ct: "xtimer_now64 clk s = (ct, s\<lparr>reads := Suc (reads s), current_time := ct\<rparr>)" "ucast ct = clk (reads s)"
    by (rule xtimer_now64_eq)
  have "\<not> clk (reads s) - start_time (timers s t) < offset (timers s t)"
    using must_wait_iff [OF 0(1) win] 0 by (simp add: clk)
  then show ?case using 0 ct
    by (intro exI [of _ "reads s"] exI [of _ ct]) (simp add: wait_loop.simps [of clk t s] xtimer_now_def)
next
  case (Suc k s)
  obtain ct where ct: "xtimer_now64 clk s = (ct, s\<lparr>reads := Suc (reads s), current_time := ct\<rparr>)" "ucast ct = clk (reads s)"
    by (rule xtimer_now64_eq)
  let ?s = "s\<lparr>reads := Suc (reads s), current_time := ct\<rparr>"
  have iff: "clk (reads s) - start_time (timers s t) < offset (timers s t) \<longleftrightarrow> c (reads s) < D"
    using must_wait_iff [OF Suc(2) win] Suc.prems by (simp add: clk)
  show ?case
  proof (cases "c (reads s) < D")
    case True
    have "tm_ok lo (c (reads ?s)) D (timers ?s t)"
      using Suc.prems(1) inc [of "reads s"] by (auto intro: tm_ok_later)
    moreover have "D \<le> c (reads ?s) + k" using Suc.prems(2) inc [of "reads s"] by simp
    ultimately obtain m ct' where "reads ?s \<le> m" "m \<le> reads ?s + k" "D \<le> c m"
        "wait_loop clk t ?s = Some (?s\<lparr>reads := Suc m, current_time := ct'\<rparr>)"
      using Suc.IH [of ?s] Suc.prems(3) by auto
    then show ?thesis using True iff ct
      by (intro exI [of _ m] exI [of _ ct']) (simp add: wait_loop.simps [of clk t s] xtimer_now_def)
  next
    case False
    then show ?thesis using iff ct
      by (intro exI [of _ "reads s"] exI [of _ ct]) (simp add: wait_loop.simps [of clk t s] xtimer_now_def)
  qed
qed

lemma refresh_frame [simp]:
  "timer_list (refresh now t s) = timer_list s" "long_list (refresh now t s) = long_list s"
  "in_handler (refresh now t s) = in_handler s" "lltimer_ongoing (refresh now t s) = lltimer_ongoing s"
  "lltimer (refresh now t s) = lltimer s" "reads (refresh now t s) = reads s" "env (refresh now t s) = env s"
  "current_time (refresh now t s) = current_time s"
  "u \<noteq> t \<Longrightarrow> timers (refresh now t s) u = timers s u"
  by (simp_all add: refresh_def)

lemma scan_refreshes:
  assumes "c n < lo + 2 ^ 32" "lo \<le> c n" "ucast now = (of_nat (c n) :: u32)"
  shows "distinct xs \<Longrightarrow> \<forall>t\<in>set xs. tm_ok lo (c n) (D t) (timers s t) \<and> c n + 20 \<le> D t \<Longrightarrow>
    \<exists>s'. update_short_timers clk cb now xs s = Some (now, s') \<and> timer_list s' = timer_list s \<and> long_list s' = long_list s \<and>
      in_handler s' = in_handler s \<and> lltimer_ongoing s' = lltimer_ongoing s \<and> reads s' = reads s \<and> env s' = env s \<and>
      (\<forall>t\<in>set xs. tm_ok lo (c n) (D t) (timers s' t)) \<and> (\<forall>u. u \<notin> set xs \<longrightarrow> timers s' u = timers s u)"
proof (induction xs arbitrary: s)
  case Nil
  then show ?case by (simp add: update_short_timers.simps)
next
  case (Cons x xs)
  have x: "tm_ok lo (c n) (D x) (timers s x)" "c n + 20 \<le> D x" using Cons.prems(2) by simp_all
  let ?s = "refresh now x s"
  have "\<forall>t\<in>set xs. tm_ok lo (c n) (D t) (timers ?s t) \<and> c n + 20 \<le> D t" using Cons.prems by (auto simp: refresh_def)
  then obtain s' where s': "update_short_timers clk cb now xs ?s = Some (now, s')" "timer_list s' = timer_list s"
      "long_list s' = long_list s" "in_handler s' = in_handler s" "lltimer_ongoing s' = lltimer_ongoing s"
      "reads s' = reads s" "env s' = env s"
      "\<forall>t\<in>set xs. tm_ok lo (c n) (D t) (timers s' t)" "\<forall>u. u \<notin> set xs \<longrightarrow> timers s' u = timers ?s u"
    using Cons.IH [of ?s] Cons.prems(1) by auto
  have "long_offset (timers s x) = 0" using x(1) by (simp add: tm_ok_def)
  moreover have "\<not> due (ucast now) (timers s x)" using due_iff [OF x(1) assms(1)] x(2) by (simp add: assms(3))
  ultimately have "update_short_timers clk cb now (x # xs) s = Some (now, s')"
    using s'(1) by (simp add: update_short_timers.simps [of clk cb now "x # xs"])
  moreover have "tm_ok lo (c n) (D x) (timers s' x)"
    using s'(9) Cons.prems(1) refresh_ok [OF x(1) assms(1) _ assms(3,2)] x(2) by simp
  ultimately show ?case using s' by (intro exI [of _ s']) auto
qed

text \<open>
  What a run of the handler has done so far: the first \<open>k\<close> timers were fired, in order, none
  before its deadline, and the others are unchanged but for a refresh. \<open>upd\<close> is the effect of
  the callbacks on their own part of the state, which may depend on the time of the call.
\<close>

definition fired_prefix ::
  "(nat \<Rightarrow> nat) \<Rightarrow> nat \<Rightarrow> (nat \<Rightarrow> nat) \<Rightarrow> (nat \<Rightarrow> nat \<Rightarrow> 'w \<Rightarrow> 'w) \<Rightarrow> 'w xstate \<Rightarrow> (nat \<times> nat) list \<Rightarrow> 'w xstate \<Rightarrow> bool" where
  "fired_prefix c lo D upd s fs s' \<longleftrightarrow>
     timer_list s = map fst fs @ timer_list s' \<and>
     env s' = fold (\<lambda>(t, n). upd t n) fs (env s) \<and>
     (\<forall>(t, n)\<in>set fs. 0 < n \<and> D t \<le> c (n - 1)) \<and>
     (\<forall>t\<in>set (timer_list s'). tm_ok lo (c (reads s' - 1)) (D t) (timers s' t)) \<and>
     long_list s' = long_list s \<and> in_handler s' = in_handler s \<and> lltimer_ongoing s' = lltimer_ongoing s \<and>
     reads s \<le> reads s'"

definition timers_ok :: "(nat \<Rightarrow> nat) \<Rightarrow> nat \<Rightarrow> (nat \<Rightarrow> nat) \<Rightarrow> 'w xstate \<Rightarrow> bool" where
  "timers_ok c lo D s \<longleftrightarrow> 0 < reads s \<and> distinct (timer_list s) \<and> sorted (map D (timer_list s)) \<and>
     (\<forall>t\<in>set (timer_list s). tm_ok lo (c (reads s - 1)) (D t) (timers s t))"

lemma fire_head:
  assumes clk: "\<And>n. clk n = of_nat (c n)" and inc: "\<And>n. c n < c (Suc n)"
    and win: "\<And>n. n \<le> N \<Longrightarrow> c n < lo + 2 ^ 32"
    and cb: "\<And>t s. cb t s = s\<lparr>env := upd t (reads s) (env s)\<rparr>"
    and xs: "timer_list s = x # xs" "tm_ok lo (c (reads s - 1)) (D x) (timers s x)"
    and n: "0 < reads s" "reads s + 22 \<le> N" "ucast now = (of_nat (c (reads s - 1)) :: u32)"
    and d: "D x < c (reads s - 1) + 20"
  shows "\<exists>m ct. reads s \<le> m \<and> m \<le> reads s + 21 \<and> D x \<le> c (m - 1) \<and> ucast ct = (of_nat (c m) :: u32) \<and>
    update_short_timers clk cb now (x # xs) s
      = update_short_timers clk cb ct xs
          ((detach_head x s)\<lparr>env := upd x m (env s), reads := Suc m, current_time := ct\<rparr>)"
proof -
  let ?n = "reads s - 1"
  have nN: "?n \<le> N" using n by simp
  have l: "long_offset (timers s x) = 0" using xs(2) by (simp add: tm_ok_def)
  have due: "due (ucast now) (timers s x)" using due_iff [OF xs(2) win [OF nN]] d by (simp add: n(3))
  have wait: "ucast now - start_time (timers s x) < offset (timers s x) \<longleftrightarrow> c ?n < D x"
    using must_wait_iff [OF xs(2) win [OF nN]] by (simp add: n(3))
  have "\<exists>m ct. reads s \<le> m \<and> m \<le> reads s + 21 \<and> D x \<le> c (m - 1) \<and>
      (if offset (timers s x) > ucast now - start_time (timers s x) then wait_loop clk x s else Some s)
        = Some (s\<lparr>reads := m, current_time := ct\<rparr>)"
  proof (cases "c ?n < D x")
    case False
    then show ?thesis using wait by (intro exI [of _ "reads s"] exI [of _ "current_time s"]) simp
  next
    case True
    have "c ?n < c (reads s)" using inc [of ?n] n(1) by simp
    then have ok: "tm_ok lo (c (reads s)) (D x) (timers s x)" "D x \<le> c (reads s) + 20"
      using d tm_ok_later [OF xs(2)] by simp_all
    then obtain m ct where "reads s \<le> m" "m \<le> reads s + 20" "D x \<le> c m"
        "wait_loop clk x s = Some (s\<lparr>reads := Suc m, current_time := ct\<rparr>)"
      using wait_loop_returns [of clk c N lo s "D x" x 20, OF clk inc win ok(1,2)] n(2) by auto
    then show ?thesis using wait True by (intro exI [of _ "Suc m"] exI [of _ ct]) simp
  qed
  then obtain m ct where m: "reads s \<le> m" "m \<le> reads s + 21" "D x \<le> c (m - 1)"
      "(if offset (timers s x) > ucast now - start_time (timers s x) then wait_loop clk x s else Some s)
        = Some (s\<lparr>reads := m, current_time := ct\<rparr>)" by blast
  let ?s = "cb x (detach_head x (s\<lparr>reads := m, current_time := ct\<rparr>))"
  obtain ct' where ct': "xtimer_now64 clk ?s = (ct', ?s\<lparr>reads := Suc (reads ?s), current_time := ct'\<rparr>)" "ucast ct' = clk (reads ?s)"
    by (rule xtimer_now64_eq)
  have "timer_list ?s = xs" "reads ?s = m"
    "?s\<lparr>reads := Suc m, current_time := ct'\<rparr> = (detach_head x s)\<lparr>env := upd x m (env s), reads := Suc m, current_time := ct'\<rparr>"
    by (simp_all add: cb detach_head_def xs(1))
  with m ct' l due xs(1) show ?thesis
    by (intro exI [of _ m] exI [of _ ct']) (simp add: update_short_timers.simps [of clk cb now "x # xs"] clk)
qed

lemma detach_head_frame [simp]:
  "timer_list (detach_head t s) = tl (timer_list s)" "long_list (detach_head t s) = long_list s"
  "in_handler (detach_head t s) = in_handler s" "lltimer_ongoing (detach_head t s) = lltimer_ongoing s"
  "env (detach_head t s) = env s" "u \<noteq> t \<Longrightarrow> timers (detach_head t s) u = timers s u"
  by (simp_all add: detach_head_def)

lemma update_short_fires:
  assumes clk: "\<And>n. clk n = of_nat (c n)" and inc: "\<And>n. c n < c (Suc n)"
    and win: "\<And>n. n \<le> N \<Longrightarrow> c n < lo + 2 ^ 32"
    and cb: "\<And>t s. cb t s = s\<lparr>env := upd t (reads s) (env s)\<rparr>"
  shows "timers_ok c lo D s \<Longrightarrow> timer_list s = xs \<Longrightarrow> reads s + 22 * length xs \<le> N \<Longrightarrow>
    lo \<le> c (reads s - 1) \<Longrightarrow> ucast now = (of_nat (c (reads s - 1)) :: u32) \<Longrightarrow>
    \<exists>fs now' s'. update_short_timers clk cb now xs s = Some (now', s') \<and> fired_prefix c lo D upd s fs s' \<and>
      reads s' \<le> reads s + 22 * length fs \<and> ucast now' = (of_nat (c (reads s' - 1)) :: u32) \<and>
      (\<forall>t\<in>set (timer_list s'). c (reads s' - 1) + 20 \<le> D t) \<and>
      (xs \<noteq> [] \<and> D (hd xs) < c (reads s - 1) + 20 \<longrightarrow> fs \<noteq> [])"
proof (induction xs arbitrary: s now)
  case Nil
  then show ?case
    by (intro exI [of _ "[]"] exI [of _ now] exI [of _ s])
      (simp add: update_short_timers.simps fired_prefix_def)
next
  case (Cons x xs)
  let ?n = "reads s - 1"
  have n0: "0 < reads s" and dist: "distinct (x # xs)" and sort: "sorted (map D (x # xs))"
    and ok: "\<forall>t\<in>set (x # xs). tm_ok lo (c ?n) (D t) (timers s t)"
    using Cons.prems(1,2) by (simp_all add: timers_ok_def)
  show ?case
  proof (cases "D x < c ?n + 20")
    case False
    have "c ?n < lo + 2 ^ 32" using win [of ?n] Cons.prems(3) by simp
    moreover have "\<forall>t\<in>set (x # xs). tm_ok lo (c ?n) (D t) (timers s t) \<and> c ?n + 20 \<le> D t"
      using ok sort False by auto
    ultimately obtain s' where "update_short_timers clk cb now (x # xs) s = Some (now, s')" "timer_list s' = timer_list s"
        "long_list s' = long_list s" "in_handler s' = in_handler s" "lltimer_ongoing s' = lltimer_ongoing s"
        "reads s' = reads s" "env s' = env s" "\<forall>t\<in>set (x # xs). tm_ok lo (c ?n) (D t) (timers s' t)"
      using scan_refreshes [of c ?n lo now "x # xs" D s clk cb] Cons.prems(4,5) dist by blast
    then show ?thesis using Cons.prems(2,5) False sort
      by (intro exI [of _ "[]"] exI [of _ now] exI [of _ s']) (auto simp: fired_prefix_def)
  next
    case True
    have okx: "tm_ok lo (c ?n) (D x) (timers s x)" using ok by simp
    have N: "reads s + 22 \<le> N" using Cons.prems(3) by simp
    obtain m ct where m: "reads s \<le> m" "m \<le> reads s + 21" "D x \<le> c (m - 1)" "ucast ct = (of_nat (c m) :: u32)"
        "update_short_timers clk cb now (x # xs) s
          = update_short_timers clk cb ct xs ((detach_head x s)\<lparr>env := upd x m (env s), reads := Suc m, current_time := ct\<rparr>)"
      using fire_head [of clk c N lo cb upd s x xs D now, OF clk inc win cb Cons.prems(2) okx n0 N Cons.prems(5) True] by blast
    let ?s = "(detach_head x s)\<lparr>env := upd x m (env s), reads := Suc m, current_time := ct\<rparr>"
    have "c ?n \<le> c m" using mono_reads [of c ?n m] inc m(1) n0 by simp
    then have "timers_ok c lo D ?s"
      using ok dist sort Cons.prems(2) by (auto simp: timers_ok_def detach_head_def intro: tm_ok_later)
    moreover have "reads ?s + 22 * length xs \<le> N" using Cons.prems(3) m(2) by simp
    moreover have "lo \<le> c (reads ?s - 1)" using Cons.prems(4) \<open>c ?n \<le> c m\<close> by simp
    ultimately obtain fs now' s' where f: "update_short_timers clk cb ct xs ?s = Some (now', s')"
        "fired_prefix c lo D upd ?s fs s'" "reads s' \<le> reads ?s + 22 * length fs"
        "ucast now' = (of_nat (c (reads s' - 1)) :: u32)" "\<forall>t\<in>set (timer_list s'). c (reads s' - 1) + 20 \<le> D t"
      using Cons.IH [of ?s ct] Cons.prems(2) m(4) by auto
    have "fired_prefix c lo D upd s ((x, m) # fs) s'"
      using f(2) Cons.prems(2) m n0 by (auto simp: fired_prefix_def)
    then show ?thesis using f m by (intro exI [of _ "(x, m) # fs"] exI [of _ now'] exI [of _ s']) simp
  qed
qed

lemma fired_prefix_trans:
  "fired_prefix c lo D upd s fs s' \<Longrightarrow> fired_prefix c lo D upd s' gs s'' \<Longrightarrow> fired_prefix c lo D upd s (fs @ gs) s''"
  by (auto simp: fired_prefix_def)

lemma fired_prefix_ok:
  "timers_ok c lo D s \<Longrightarrow> fired_prefix c lo D upd s fs s' \<Longrightarrow> timers_ok c lo D s'"
  by (auto simp: timers_ok_def fired_prefix_def sorted_append)

text \<open>Another read of the clock, and a refresh of the first timer, change nothing that matters.\<close>

lemma fired_prefix_read:
  assumes inc: "\<And>n. c n < c (Suc n)" and "fired_prefix c lo D upd s fs s'" "0 < reads s'"
  shows "fired_prefix c lo D upd s fs (s'\<lparr>reads := Suc (reads s'), current_time := t\<rparr>)"
  using assms mono_reads [of c "reads s' - 1" "reads s'"] by (auto simp: fired_prefix_def intro: tm_ok_later)

definition head_due :: "(nat \<Rightarrow> nat) \<Rightarrow> (nat \<Rightarrow> nat) \<Rightarrow> 'w xstate \<Rightarrow> bool" where
  "head_due c D s \<longleftrightarrow> timer_list s = [] \<or> D (hd (timer_list s)) < c (reads s - 1) + 20"

lemma handler_loop_fires:
  assumes clk: "\<And>n. clk n = of_nat (c n)" and inc: "\<And>n. c n < c (Suc n)"
    and win: "\<And>n. n \<le> N \<Longrightarrow> c n < lo + 2 ^ 32"
    and cb: "\<And>t s. cb t s = s\<lparr>env := upd t (reads s) (env s)\<rparr>"
  shows "timers_ok c lo D s \<Longrightarrow> long_list s = [] \<Longrightarrow>
    reads s + 24 * length (timer_list s) + (if head_due c D s then 1 else 2) \<le> N \<Longrightarrow>
    lo \<le> c (reads s - 1) \<Longrightarrow> ucast now = (of_nat (c (reads s - 1)) :: u32) \<Longrightarrow>
    \<exists>fs now' s'. handler_loop clk cb now s = Some (now', s') \<and> fired_prefix c lo D upd s fs s' \<and> reads s' \<le> N \<and>
      ucast now' = (of_nat (c (reads s' - 1)) :: u32) \<and> (\<forall>t\<in>set (timer_list s'). c (reads s' - 1) + 20 \<le> D t) \<and>
      (timer_list s' \<noteq> [] \<longrightarrow> start_time (timers s' (hd (timer_list s'))) = of_nat (c (reads s' - 1)))"
proof (induction "2 * length (timer_list s) + (if head_due c D s then 0 else 1)" arbitrary: s now rule: less_induct)
  case less
  have "reads s + 22 * length (timer_list s) \<le> N" using less.prems(3) by (simp split: if_splits)
  then obtain fs n1 s1 where f: "update_short_timers clk cb now (timer_list s) s = Some (n1, s1)"
      "fired_prefix c lo D upd s fs s1" "reads s1 \<le> reads s + 22 * length fs" "ucast n1 = (of_nat (c (reads s1 - 1)) :: u32)"
      "\<forall>t\<in>set (timer_list s1). c (reads s1 - 1) + 20 \<le> D t"
      "timer_list s \<noteq> [] \<and> D (hd (timer_list s)) < c (reads s - 1) + 20 \<longrightarrow> fs \<noteq> []"
    using update_short_fires [of clk c N lo cb upd D s "timer_list s" now, OF clk inc win cb less.prems(1) refl _ less.prems(4,5)]
    by auto
  obtain n2 where n2: "xtimer_now64 clk s1 = (n2, s1\<lparr>reads := Suc (reads s1), current_time := n2\<rparr>)" "ucast n2 = clk (reads s1)"
    by (rule xtimer_now64_eq)
  let ?s = "s1\<lparr>reads := Suc (reads s1), current_time := n2\<rparr>"
  have r1: "0 < reads s1" and long: "long_list s1 = []" and len: "length (timer_list s) = length fs + length (timer_list s1)"
    using f(2) less.prems(1,2) by (auto simp: fired_prefix_def timers_ok_def)
  have p: "fired_prefix c lo D upd s fs ?s" by (rule fired_prefix_read [OF inc f(2) r1])
  have ok: "timers_ok c lo D ?s" by (rule fired_prefix_ok [OF less.prems(1) p])
  have low: "lo \<le> c (reads ?s - 1)"
  proof -
    have "reads s \<le> reads s1" using f(2) by (simp add: fired_prefix_def)
    then have "reads s - 1 \<le> reads s1" by simp
    then have "c (reads s - 1) \<le> c (reads s1)" using inc by (rule mono_reads [rotated])
    then show ?thesis using less.prems(4) by simp
  qed
  have N1: "reads ?s + 24 * length (timer_list ?s) \<le> N" 
    using less.prems(3) f(3) len by (auto split: if_splits)
  have unfold: "handler_loop clk cb now s = (case timer_list ?s of [] \<Rightarrow> Some (n2, ?s)
      | head # rest \<Rightarrow> if due (ucast n2) (timers ?s head) then handler_loop clk cb n2 ?s else Some (n2, refresh n2 head ?s))"
    using f(1) n2(1) long by (simp add: handler_loop.simps [of clk cb now s])
  show ?case
  proof (cases "timer_list ?s")
    case Nil
    then show ?thesis using unfold p N1 n2(2)
      by (intro exI [of _ fs] exI [of _ n2] exI [of _ ?s]) (simp add: clk)
  next
    case (Cons x xs)
    have okx: "tm_ok lo (c (reads s1)) (D x) (timers ?s x)" using ok Cons by (simp add: timers_ok_def)
    have w: "c (reads s1) < lo + 2 ^ 32" using win [of "reads s1"] N1 by simp
    have dx: "due (ucast n2) (timers ?s x) \<longleftrightarrow> D x < c (reads s1) + 20"
      using due_iff [OF okx w] n2(2) by (simp add: clk)
    show ?thesis
    proof (cases "D x < c (reads s1) + 20")
      case True
      then have hd: "head_due c D ?s" using Cons by (simp add: head_due_def)
      have sm: "2 * length (timer_list ?s) + (if head_due c D ?s then 0 else 1)
          < 2 * length (timer_list s) + (if head_due c D s then 0 else 1)"
        using hd f(6) len Cons by (cases fs) (auto simp: head_due_def)
      have l2: "long_list ?s = []" and u2: "ucast n2 = (of_nat (c (reads ?s - 1)) :: u32)"
        using long n2(2) by (simp_all add: clk)
      have N2: "reads ?s + 24 * length (timer_list ?s) + (if head_due c D ?s then 1 else 2) \<le> N"
        using less.prems(3) f(3,6) len hd Cons by (cases fs) (auto simp: head_due_def split: if_splits)
      obtain gs n3 s3 where g: "handler_loop clk cb n2 ?s = Some (n3, s3)" "fired_prefix c lo D upd ?s gs s3" "reads s3 \<le> N"
          "ucast n3 = (of_nat (c (reads s3 - 1)) :: u32)" "\<forall>t\<in>set (timer_list s3). c (reads s3 - 1) + 20 \<le> D t"
          "timer_list s3 \<noteq> [] \<longrightarrow> start_time (timers s3 (hd (timer_list s3))) = of_nat (c (reads s3 - 1))"
        using less.hyps [OF sm ok l2 N2 low u2] by blast
      have "fired_prefix c lo D upd s (fs @ gs) s3" by (rule fired_prefix_trans [OF p g(2)])
      then show ?thesis using unfold Cons dx True g
        by (intro exI [of _ "fs @ gs"] exI [of _ n3] exI [of _ s3]) simp
    next
      case False
      let ?r = "refresh n2 x ?s"
      have "tm_ok lo (c (reads s1)) (D x) (timers ?r x)"
        using refresh_ok [OF okx w _ _] False n2(2) low by (simp add: clk)
      then have pr: "fired_prefix c lo D upd s fs ?r"
        using p Cons ok by (auto simp: fired_prefix_def timers_ok_def refresh_def split: if_splits)
      have "\<forall>t\<in>set (timer_list ?r). c (reads ?r - 1) + 20 \<le> D t"
        using ok Cons False by (auto simp: timers_ok_def)
      moreover have "start_time (timers ?r x) = of_nat (c (reads s1))" using n2(2) by (simp add: refresh_def clk)
      ultimately show ?thesis using unfold Cons dx False pr N1 n2(2)
        by (intro exI [of _ fs] exI [of _ n2] exI [of _ ?r]) (simp add: clk)
    qed
  qed
qed

section \<open>Properties\<close>

lemma schedule_head:
  assumes "timer_list s \<noteq> [] \<Longrightarrow> start_time (timers s (hd (timer_list s))) = of_nat T \<and>
      tm_ok lo T (D (hd (timer_list s))) (timers s (hd (timer_list s))) \<and> T < lo + 2 ^ 32"
    and "\<not> in_handler s" "\<not> lltimer_ongoing s" "now = of_nat T"
  shows "lltimer (schedule_earliest_lltimer now s)
    = Some (of_nat (case timer_list s of [] \<Rightarrow> T + 0x7FFFFFFF | x # xs \<Rightarrow> min (D x) (T + 0x7FFFFFFF)))"
proof (cases "timer_list s")
  case Nil
  then show ?thesis using assms(2-4) by (simp add: schedule_earliest_lltimer_def)
next
  case (Cons x xs)
  then have h: "start_time (timers s x) = of_nat T" "tm_ok lo T (D x) (timers s x)" "T < lo + 2 ^ 32"
    using assms(1) by simp_all
  obtain S where S: "lo \<le> S" "S \<le> T" "start_time (timers s x) = of_nat S" "D x = S + unat (offset (timers s x))"
    using h(2) by (rule tm_okE)
  have "unat ((of_nat T :: u32) - of_nat S) = T - S" by (rule elapsed_nat) (use S h in simp_all)
  then have "S = T" using S h(1) by simp
  with S have D: "D x = T + unat (offset (timers s x))" by simp
  have "drop_bit 1 (0xFFFFFFFF :: u32) = 0x7FFFFFFF" by simp
  then show ?thesis using assms(2-4) Cons h(1) D
    by (auto simp: schedule_earliest_lltimer_def word_le_nat_alt min_def)
qed

text \<open>
  (C17) The timer interrupt is right when no long timer is armed (\<open>long_list = []\<close>: every armed timer was
  set less than 2 to the 32 ticks ahead; with long timers the assertion of \<open>_update_long_timers\<close> can fail). Let the
  deadlines of the armed timers be in order, the timers have been started and the handler run within one window of 2 to the
  32 ticks, let the clock advance between reads, and let the callbacks not touch the timers. Then the
  handler terminates and no assertion fails; it fires a prefix of the list, in the order of the
  deadlines and none before its deadline; every timer it leaves is at least
  \<open>XTIMER_ISR_BACKOFF\<close> ticks in the future and keeps its deadline, across wrap-around of the
  counter; and the low-level timer is set to the first remaining deadline, or to half the counter's
  period if that is earlier.
\<close>

theorem xtimer_handler_fires_due_timers:
  assumes clock: "\<forall>n. clk n = of_nat (c n) \<and> c n < c (Suc n)"
    and window: "\<forall>n\<le>reads s + 24 * length (timer_list s) + 3. c n < lo + 2 ^ 32"
    and callbacks: "\<forall>t s. cb t s = s\<lparr>env := upd t (reads s) (env s)\<rparr>"
    and list: "distinct (timer_list s)" "sorted (map D (timer_list s))" "long_list s = []"
    and deadlines: "\<forall>t\<in>set (timer_list s). tm_ok lo (c (reads s)) (D t) (timers s t)" "lo \<le> c (reads s)"
  shows "\<exists>fs s'. timer_callback clk cb s = Some s' \<and>
      timer_list s = map fst fs @ timer_list s' \<and>
      env s' = fold (\<lambda>(t, n). upd t n) fs (env s) \<and>
      (\<forall>(t, n)\<in>set fs. 0 < n \<and> D t \<le> c (n - 1)) \<and>
      (\<forall>t\<in>set (timer_list s'). c (reads s' - 1) + 20 \<le> D t \<and> tm_ok lo (c (reads s' - 1)) (D t) (timers s' t)) \<and>
      lltimer s' = Some (of_nat (case timer_list s' of [] \<Rightarrow> c (reads s' - 1) + 0x7FFFFFFF
        | x # xs \<Rightarrow> min (D x) (c (reads s' - 1) + 0x7FFFFFFF)))"
proof -
  have clk: "\<And>n. clk n = of_nat (c n)" and inc: "\<And>n. c n < c (Suc n)"
    and win: "\<And>n. n \<le> reads s + 24 * length (timer_list s) + 3 \<Longrightarrow> c n < lo + 2 ^ 32"
    and cb: "\<And>t s. cb t s = s\<lparr>env := upd t (reads s) (env s)\<rparr>"
    using clock window callbacks by auto
  let ?s0 = "s\<lparr>in_handler := True, lltimer_ongoing := False\<rparr>"
  let ?N = "reads s + 24 * length (timer_list s) + 3"
  obtain now where now: "xtimer_now64 clk ?s0 = (now, ?s0\<lparr>reads := Suc (reads ?s0), current_time := now\<rparr>)"
      "ucast now = clk (reads ?s0)" by (rule xtimer_now64_eq)
  let ?s1 = "?s0\<lparr>reads := Suc (reads ?s0), current_time := now\<rparr>"
  have ok: "timers_ok c lo D ?s1" using list deadlines by (simp add: timers_ok_def)
  have l1: "long_list ?s1 = []" and lo1: "lo \<le> c (reads ?s1 - 1)" and u1: "ucast now = (of_nat (c (reads ?s1 - 1)) :: u32)"
    using list(3) deadlines(2) now(2) by (simp_all add: clk)
  have b1: "reads ?s1 + 24 * length (timer_list ?s1) + (if head_due c D ?s1 then 1 else 2) \<le> ?N" by simp
  obtain fs now' s2 where f: "handler_loop clk cb now ?s1 = Some (now', s2)" "fired_prefix c lo D upd ?s1 fs s2"
      "reads s2 \<le> ?N" "ucast now' = (of_nat (c (reads s2 - 1)) :: u32)" "\<forall>t\<in>set (timer_list s2). c (reads s2 - 1) + 20 \<le> D t"
      "timer_list s2 \<noteq> [] \<longrightarrow> start_time (timers s2 (hd (timer_list s2))) = of_nat (c (reads s2 - 1))"
    using handler_loop_fires [of clk c ?N lo cb upd D ?s1 now, OF clk inc win cb ok l1 b1 lo1 u1] by blast
  let ?s2 = "s2\<lparr>in_handler := False\<rparr>"
  let ?s3 = "schedule_earliest_lltimer (ucast now') ?s2"
  have frame: "timer_list ?s3 = timer_list s2" "timers ?s3 = timers s2" "reads ?s3 = reads s2" "env ?s3 = env s2"
    by (simp_all add: schedule_earliest_lltimer_def)
  have "lltimer ?s3 = Some (of_nat (case timer_list s2 of [] \<Rightarrow> c (reads s2 - 1) + 0x7FFFFFFF
        | x # xs \<Rightarrow> min (D x) (c (reads s2 - 1) + 0x7FFFFFFF)))"
    using schedule_head [of ?s2 "c (reads s2 - 1)" lo D "ucast now'"] f(2,3,4,6)
      win [of "reads s2 - 1"] by (fastforce simp: fired_prefix_def)
  then have "lltimer ?s3 = Some (of_nat (case timer_list ?s3 of [] \<Rightarrow> c (reads ?s3 - 1) + 0x7FFFFFFF
        | x # xs \<Rightarrow> min (D x) (c (reads ?s3 - 1) + 0x7FFFFFFF)))" unfolding frame .
  moreover have "timer_callback clk cb s = Some ?s3" using f(1) now(1) by (simp add: timer_callback_def Let_def)
  moreover have "timer_list s = map fst fs @ timer_list ?s3" "env ?s3 = fold (\<lambda>(t, n). upd t n) fs (env s)"
      "\<forall>(t, n)\<in>set fs. 0 < n \<and> D t \<le> c (n - 1)"
      "\<forall>t\<in>set (timer_list ?s3). c (reads ?s3 - 1) + 20 \<le> D t \<and> tm_ok lo (c (reads ?s3 - 1)) (D t) (timers ?s3 t)"
    unfolding frame using f(2,5) by (simp_all add: fired_prefix_def)
  ultimately show ?thesis by blast
qed

definition log_cb :: "nat \<Rightarrow> nat list xstate \<Rightarrow> nat list xstate" where
  "log_cb t s = s\<lparr>env := env s @ [t]\<rparr>"

definition two_timers :: "nat list xstate" where
  "two_timers = \<lparr>timers = (\<lambda>t. \<lparr>offset = (if t = 0 then 15 else 9000), long_offset = 0, start_time = 990,
     long_start_time = 0, callback = True\<rparr>), timer_list = [0, 1], long_list = [], in_handler = False,
     lltimer_ongoing = True, lltimer = Some 1005, current_time = 990, reads = 0, env = []\<rparr>"

theorem xtimer_handler_fires_due_timers_witness:
  "\<exists>fs s'. timer_callback (\<lambda>n. of_nat (1000 + n)) log_cb two_timers = Some s' \<and>
     [0, 1] = map fst (fs :: (nat \<times> nat) list) @ timer_list s' \<and> env s' = fold (\<lambda>(t, n) e. e @ [t]) fs []"
proof -
  define D where "D = (\<lambda>t :: nat. if t = 0 then 1005 else 9990 :: nat)"
  have tm: "tm_ok 0 1000 (D t) (timers two_timers t)" for t
    by (auto simp: tm_ok_def two_timers_def D_def intro!: exI [of _ 990])
  have st: "reads two_timers = 0" "timer_list two_timers = [0, 1]" "env two_timers = []" "long_list two_timers = []"
    by (simp_all add: two_timers_def)
  have h: "\<forall>n. (of_nat (1000 + n) :: u32) = of_nat (1000 + n) \<and> 1000 + n < (1000 + Suc n :: nat)"
    "\<forall>n\<le>reads two_timers + 24 * length (timer_list two_timers) + 3. 1000 + n < 0 + 2 ^ 32"
    "\<forall>t s. log_cb t s = s\<lparr>env := (\<lambda>t n e. e @ [t]) t (reads s) (env s)\<rparr>"
    "distinct (timer_list two_timers)" "sorted (map D (timer_list two_timers))"
    by (simp_all add: st log_cb_def D_def)
  have tm': "\<forall>t\<in>set (timer_list two_timers). tm_ok 0 (1000 + reads two_timers) (D t) (timers two_timers t)"
    "0 \<le> 1000 + reads two_timers" using tm by (simp_all add: st)
  obtain fs s' where r: "timer_callback (\<lambda>n. of_nat (1000 + n)) log_cb two_timers = Some s'"
      "[0, 1] = map fst (fs :: (nat \<times> nat) list) @ timer_list s'" "env s' = fold (\<lambda>(t, n) e. e @ [t]) fs []"
    using xtimer_handler_fires_due_timers [OF h st(4) tm', unfolded st] by (elim exE conjE) (rule that, assumption, assumption, assumption)
  show ?thesis by (rule exI [of _ fs], rule exI [of _ s'], intro conjI) (rule r)+
qed

lemma timer_comparison_iff:
  assumes "tm_ok lo T D a" "T < lo + 2 ^ 32" "long_offset b = 0" "start_time b = of_nat T"
  shows "timer_comparison a b (of_nat T) \<longleftrightarrow> D \<le> T + unat (offset b)"
proof -
  obtain S where S: "long_offset a = 0" "lo \<le> S" "S \<le> T" "start_time a = of_nat S" "D = S + unat (offset a)"
    using assms(1) by (rule tm_okE)
  have e: "unat ((of_nat T :: u32) - of_nat S) = T - S" using S assms(2) by (intro elapsed_nat) simp_all
  show ?thesis
  proof (cases "offset a < of_nat T - of_nat S")
    case True
    then show ?thesis using S e assms(3,4) by (simp add: timer_comparison_def word_less_nat_alt)
  next
    case False
    then have "unat (offset a - (of_nat T - of_nat S)) = unat (offset a) - (T - S)"
      using e by (simp add: unat_sub word_le_nat_alt word_less_nat_alt)
    then show ?thesis using S e False assms(3,4)
      by (simp add: timer_comparison_def word_less_nat_alt word_le_nat_alt) linarith
  qed
qed

lemma set_add_timer: "set (add_timer_to_list tms xs t now) = insert t (set xs)"
  by (induction xs) auto

lemma distinct_add_timer: "distinct (add_timer_to_list tms xs t now) \<longleftrightarrow> distinct (t # xs)"
  by (induction xs) (auto simp: set_add_timer)

lemma add_timer_sorted:
  assumes "\<forall>x\<in>set xs. timer_comparison (tms x) (tms t) now \<longleftrightarrow> D x \<le> D t" "sorted (map D xs)"
  shows "sorted (map D (add_timer_to_list tms xs t now)) \<and>
    filter (\<lambda>x. D x = D t) (add_timer_to_list tms xs t now) = filter (\<lambda>x. D x = D t) xs @ [t]"
  using assms
proof (induction xs)
  case (Cons x xs)
  show ?case
  proof (cases "D x \<le> D t")
    case True
    then show ?thesis using Cons by (auto simp: set_add_timer)
  next
    case False
    then have "\<forall>y\<in>set (x # xs). D y \<noteq> D t" using Cons.prems(2) by auto
    then have "filter (\<lambda>y. D y = D t) (x # xs) = []" by (simp add: filter_empty_conv)
    then show ?thesis using Cons.prems False by auto
  qed
qed simp

lemma remove_timer_eq: "remove_timer_from_list xs t = remove1 t xs"
  by (induction xs) auto

text \<open>
  Arming a timer keeps the deadlines in order: for an offset of at least
  \<open>XTIMER_BACKOFF\<close> ticks and no upper part, \<open>xtimer_set\<close> on a timer that may be armed already
  moves it to the place of its new deadline (now plus the offset, in real time), behind timers with
  the same deadline, leaves the other timers and their deadlines alone, and, when the timer is now
  the first one and no handler is running, sets the low-level timer to the new deadline or to half
  the counter's period.
\<close>

theorem xtimer_set_keeps_order:
  assumes clk: "clk (reads s) = of_nat T"
    and set: "callback (timers s t)" "XTIMER_BACKOFF \<le> off" "T < lo + 2 ^ 32" "lo \<le> T"
    and list: "distinct (timer_list s)" "sorted (map D (timer_list s))"
    and tms: "\<And>u. u \<in> set (timer_list s) \<Longrightarrow> tm_ok lo T (D u) (timers s u)"
  defines "E \<equiv> D(t := T + unat off)"
  shows "\<exists>s'. xtimer_set64 clk cb t off 0 s = Some s' \<and>
      distinct (timer_list s') \<and> sorted (map E (timer_list s')) \<and>
      set (timer_list s') = insert t (set (timer_list s)) \<and>
      filter (\<lambda>u. E u = E t) (timer_list s') = filter (\<lambda>u. E u = E t) (remove1 t (timer_list s)) @ [t] \<and>
      (\<forall>u\<in>set (timer_list s'). tm_ok lo T (E u) (timers s' u)) \<and>
      (\<forall>u. u \<noteq> t \<longrightarrow> timers s' u = timers s u) \<and>
      (if hd (timer_list s') = t \<and> \<not> in_handler s
       then lltimer s' = (if off \<le> 0x7FFFFFFF then Some (of_nat (E t))
         else if lltimer_ongoing s then lltimer s else Some (of_nat (T + 0x7FFFFFFF)))
       else lltimer s' = lltimer s)"
proof -
  let ?s0 = "xtimer_remove t s"
  have s0: "timer_list ?s0 = remove1 t (timer_list s)" "reads ?s0 = reads s" "in_handler ?s0 = in_handler s"
      "lltimer ?s0 = lltimer s" "lltimer_ongoing ?s0 = lltimer_ongoing s" "\<And>u. u \<noteq> t \<Longrightarrow> timers ?s0 u = timers s u"
      "callback (timers ?s0 t)"
    by (simp_all add: xtimer_remove_def Let_def remove_timer_eq set(1))
  obtain now where now: "xtimer_now64 clk ?s0 = (now, ?s0\<lparr>reads := Suc (reads ?s0), current_time := now\<rparr>)"
      "ucast now = clk (reads ?s0)" by (rule xtimer_now64_eq)
  let ?s1 = "upd_timer t (\<lambda>t. t\<lparr>offset := off, long_offset := 0, start_time := ucast now,
      long_start_time := ucast (drop_bit 32 now)\<rparr>) (?s0\<lparr>reads := Suc (reads ?s0), current_time := now\<rparr>)"
  have n: "ucast now = (of_nat T :: u32)" using now(2) s0(2) clk by simp
  have tm1: "tm_ok lo T (E u) (timers ?s1 u)" if "u = t \<or> u \<in> set (timer_list s)" for u
    using that tms [of u] s0(6) [of u] set(4) n by (cases "u = t") (auto simp: E_def tm_ok_def)
  have mem: "u \<in> set (remove1 t (timer_list s)) \<longleftrightarrow> u \<in> set (timer_list s) \<and> u \<noteq> t" for u
    using list(1) by (simp add: set_remove1_eq)
  have cmp: "\<forall>u\<in>set (remove1 t (timer_list s)).
      timer_comparison (timers ?s1 u) (timers ?s1 t) (of_nat T) \<longleftrightarrow> E u \<le> E t"
  proof
    fix u
    assume "u \<in> set (remove1 t (timer_list s))"
    then have u: "u = t \<or> u \<in> set (timer_list s)" using mem by simp
    have "timer_comparison (timers ?s1 u) (timers ?s1 t) (of_nat T) \<longleftrightarrow> E u \<le> T + unat (offset (timers ?s1 t))"
      by (rule timer_comparison_iff [OF tm1 [OF u] set(3)]) (simp_all add: n)
    then show "timer_comparison (timers ?s1 u) (timers ?s1 t) (of_nat T) \<longleftrightarrow> E u \<le> E t" by (simp add: E_def)
  qed
  have srt: "sorted (map E (remove1 t (timer_list s)))"
  proof -
    have "map E (remove1 t (timer_list s)) = map D (remove1 t (timer_list s))" using mem by (auto simp: E_def)
    then show ?thesis using list(2) by (metis sorted_map_remove1)
  qed
  define zs where "zs = add_timer_to_list (timers ?s1) (remove1 t (timer_list s)) t (of_nat T)"
  have zs: "sorted (map E zs)" "set zs = insert t (set (timer_list s))" "distinct zs"
      "filter (\<lambda>u. E u = E t) zs = filter (\<lambda>u. E u = E t) (remove1 t (timer_list s)) @ [t]"
  proof -
    show "sorted (map E zs)" "filter (\<lambda>u. E u = E t) zs = filter (\<lambda>u. E u = E t) (remove1 t (timer_list s)) @ [t]"
      using add_timer_sorted [of _ "timers ?s1" t "of_nat T" E, OF cmp srt] by (simp_all only: zs_def)
    show "set zs = insert t (set (timer_list s))" unfolding zs_def set_add_timer set_remove1_eq [OF list(1)]
      by (rule insert_Diff_single)
    show "distinct zs" unfolding zs_def distinct_add_timer using list(1) by (simp add: set_remove1_eq)
  qed
  let ?s2 = "?s1\<lparr>timer_list := zs\<rparr>"
  have nb: "(off < XTIMER_BACKOFF) = False" using set(2) by (simp add: not_less)
  define s' where "s' = (if hd zs = t then schedule_earliest_lltimer (of_nat T) ?s2 else ?s2)"
  have fr: "timer_list s' = zs" "timers s' = timers ?s1" by (simp_all add: s'_def schedule_earliest_lltimer_def)
  have "xtimer_set64 clk cb t off 0 s = Some s'"
    using s0 now(1) n nb set(1) by (simp add: xtimer_set64_def Let_def zs_def s'_def)
  moreover have "if hd zs = t \<and> \<not> in_handler s
       then lltimer s' = (if off \<le> 0x7FFFFFFF then Some (of_nat (E t))
         else if lltimer_ongoing s then lltimer s else Some (of_nat (T + 0x7FFFFFFF)))
       else lltimer s' = lltimer s"
    using zs(2) s0 n by (auto simp: s'_def schedule_earliest_lltimer_def E_def)
  moreover have "\<forall>u\<in>set zs. tm_ok lo T (E u) (timers s' u)" unfolding fr using tm1 zs(2) by auto
  moreover have "\<forall>u. u \<noteq> t \<longrightarrow> timers s' u = timers s u" unfolding fr using s0(6) by simp
  ultimately show ?thesis using zs fr(1) by (intro exI [of _ s']) (simp only: simp_thms)
qed

theorem xtimer_set_keeps_order_witness:
  "\<exists>s'. xtimer_set64 (\<lambda>n. 1000) log_cb 2 100 0 two_timers = Some s' \<and>
     sorted (map ((\<lambda>t :: nat. if t = 0 then 1005 else 9990 :: nat)(2 := 1100)) (timer_list s')) \<and>
     set (timer_list s') = {0, 1, 2}"
proof -
  define D where "D = (\<lambda>t :: nat. if t = 0 then 1005 else 9990 :: nat)"
  have tm: "tm_ok 0 1000 (D t) (timers two_timers t)" for t
    by (auto simp: tm_ok_def two_timers_def D_def intro!: exI [of _ 990])
  have h: "(\<lambda>n. 1000) (reads two_timers) = (of_nat 1000 :: u32)" "callback (timers two_timers 2)"
      "XTIMER_BACKOFF \<le> 100" "1000 < 0 + (2 :: nat) ^ 32" "(0 :: nat) \<le> 1000"
      "distinct (timer_list two_timers)" "sorted (map D (timer_list two_timers))"
    by (simp_all add: two_timers_def XTIMER_BACKOFF_def D_def)
  have l: "insert 2 (set (timer_list two_timers)) = {0, 1, 2}" by (auto simp: two_timers_def)
  have d: "D(2 := 1000 + unat (100 :: u32)) = (\<lambda>t :: nat. if t = 0 then 1005 else 9990 :: nat)(2 := 1100)" by (simp add: D_def)
  obtain s' where "xtimer_set64 (\<lambda>n. 1000) log_cb 2 100 0 two_timers = Some s'"
      "sorted (map ((\<lambda>t :: nat. if t = 0 then 1005 else 9990 :: nat)(2 := 1100)) (timer_list s'))" "set (timer_list s') = {0, 1, 2}"
    using xtimer_set_keeps_order [OF h tm, of log_cb, unfolded d l]
    by (elim exE conjE) (rule that, assumption, assumption, assumption)
  then show ?thesis by (intro exI [of _ s'] conjI)
qed

definition long_timer :: "nat list xstate" where
  "long_timer = \<lparr>timers = (\<lambda>t. \<lparr>offset = 0, long_offset = 2, start_time = 100, long_start_time = 0, callback = True\<rparr>),
     timer_list = [], long_list = [0], in_handler = False, lltimer_ongoing = True, lltimer = None,
     current_time = 100, reads = 0, env = []\<rparr>"

definition long_clock :: "nat \<Rightarrow> u32" where
  "long_clock n = (if n = 0 then 200 else if n \<le> 2 then 2147483848 else 154)"

text \<open>
  The list of long timers is not always in order, and the handler's assertion on it
  can fail: \<open>_timer_comparison\<close> compares the upper parts of the offsets as they were at different
  times. A timer armed at tick 100 for two full counter periods expires before one armed at tick 200
  for two periods less one tick, but is queued behind it; a handler that runs when only the former is
  less than one period away finds it not at the head of the list.
\<close>
theorem xtimer_long_list_out_of_order:
  "\<exists>s1 s2. xtimer_set64 long_clock log_cb 1 0xFFFFFFFF 1 long_timer = Some s1 \<and> long_list s1 = [1, 0] \<and>
     100 + 2 * 2 ^ 32 < (200 + 1 * 2 ^ 32 + 0xFFFFFFFF :: nat) \<and>
     timer_callback long_clock log_cb s1 = Some s2 \<and> long_list s2 = [1, 0] \<and>
     timer_callback long_clock log_cb s2 = None"
proof -
  define tm where "tm off l st = \<lparr>offset = off, long_offset = l, start_time = st, long_start_time = 0, callback = True\<rparr>"
    for off l st :: u32
  define st where "st ta tb r ct ll on = \<lparr>timers = (\<lambda>t. tm 0 2 100)(0 := ta, 1 := tb), timer_list = [], long_list = [1, 0],
      in_handler = False, lltimer_ongoing = on, lltimer = ll, current_time = ct, reads = r, env = ([] :: nat list)\<rparr>"
    for ta tb r ct ll on
  let ?s1 = "st (tm 0 2 100) (tm 0xFFFFFFFF 1 200) 1 200 None True"
  let ?s2 = "st (tm 2147483548 1 2147483848) (tm 2147483647 1 2147483848) 3 2147483848 (Some 199) True"
  have a: "xtimer_set64 long_clock log_cb 1 0xFFFFFFFF 1 long_timer = Some ?s1"
    by (simp add: xtimer_set64_def long_timer_def xtimer_remove_def xtimer_now64_def xtimer_lltimer_now_def long_clock_def
        Let_def timer_comparison_def st_def tm_def fun_eq_iff)
  have b: "timer_callback long_clock log_cb ?s1 = Some ?s2"
    by (simp add: timer_callback_def xtimer_now64_def xtimer_lltimer_now_def long_clock_def Let_def handler_loop.simps
        update_short_timers.simps st_def tm_def schedule_earliest_lltimer_def fun_eq_iff)
  have c: "timer_callback long_clock log_cb ?s2 = None"
    by (simp add: timer_callback_def xtimer_now64_def xtimer_lltimer_now_def long_clock_def Let_def handler_loop.simps
        update_short_timers.simps st_def tm_def)
  show ?thesis using a b c by (auto simp: st_def)
qed

end
