(* ===== verification/Delta_List.thy ===== *)
theory Delta_List
  imports Riot_Prelude
begin

text \<open>
  Delta lists, which both the timers of sys/ztimer and the event timers of sys/evtimer keep: every entry holds its
  distance from the one in front of it. The operations on such lists are specified here by the deadlines they
  stand for, together with how a list lies in memory (a \<open>next\<close> pointer and a 32-bit offset per entry). The
  locale at the end is the contract of a queue of deadlines that both components satisfy.
\<close>

section \<open>Delta lists and deadlines\<close>

fun deadlines :: "nat \<Rightarrow> ('a \<times> nat) list \<Rightarrow> ('a \<times> nat) list" where
  "deadlines t [] = []"
| "deadlines t ((a, d) # ds) = (a, t + d) # deadlines (t + d) ds"

fun dins :: "'a \<Rightarrow> nat \<Rightarrow> ('a \<times> nat) list \<Rightarrow> ('a \<times> nat) list" where
  "dins a v [] = [(a, v)]"
| "dins a v ((b, d) # ds) = (if v < d then (a, v) # (b, d - v) # ds else (b, d) # dins a (v - d) ds)"

fun ddel :: "'a \<Rightarrow> ('a \<times> nat) list \<Rightarrow> ('a \<times> nat) list" where
  "ddel a [] = []"
| "ddel a ((b, d) # ds) =
     (if a = b then (case ds of [] \<Rightarrow> [] | (c, e) # ds' \<Rightarrow> (c, e + d) # ds') else (b, d) # ddel a ds)"

fun dadv :: "nat \<Rightarrow> ('a \<times> nat) list \<Rightarrow> ('a \<times> nat) list" where
  "dadv n [] = []"
| "dadv n ((b, d) # ds) = (if n \<le> d then (b, d - n) # ds else (b, 0) # dadv (n - d) ds)"

definition dsum :: "('a \<times> nat) list \<Rightarrow> nat" where
  "dsum ds = sum_list (map snd ds)"

lemma dsum_simps [simp]: "dsum [] = 0" "dsum ((a, d) # ds) = d + dsum ds"
  by (simp_all add: dsum_def)

lemma deadlines_fst [simp]: "map fst (deadlines t ds) = map fst ds"
  by (induction t ds rule: deadlines.induct) auto

lemma deadlines_ge: "(a, x) \<in> set (deadlines t ds) \<Longrightarrow> t \<le> x"
  by (induction t ds rule: deadlines.induct) fastforce+

lemma deadlines_sorted: "sorted (map snd (deadlines t ds))"
  by (induction t ds rule: deadlines.induct) (auto dest: deadlines_ge)

lemma deadlines_le: "(a, x) \<in> set (deadlines t ds) \<Longrightarrow> x \<le> t + dsum ds"
  by (induction t ds rule: deadlines.induct) fastforce+

lemma deadlines_empty [simp]: "deadlines t ds = [] \<longleftrightarrow> ds = []"
  by (cases ds) auto

text \<open>A new deadline goes behind all that are not later.\<close>

definition place :: "'a \<Rightarrow> nat \<Rightarrow> ('a \<times> nat) list \<Rightarrow> ('a \<times> nat) list" where
  "place a x xs = takeWhile (\<lambda>c. snd c \<le> x) xs @ (a, x) # dropWhile (\<lambda>c. snd c \<le> x) xs"

lemma deadlines_dins: "deadlines t (dins a v ds) = place a (t + v) (deadlines t ds)"
proof (induction a v ds arbitrary: t rule: dins.induct)
  case (2 a v b d ds)
  then show ?case by (auto simp: place_def)
qed (simp add: place_def)

lemma fst_dins [simp]: "fst ` set (dins a v ds) = insert a (fst ` set ds)"
  by (induction a v ds rule: dins.induct) auto

lemma distinct_dins: "a \<notin> fst ` set ds \<Longrightarrow> distinct (map fst ds) \<Longrightarrow> distinct (map fst (dins a v ds))"
  by (induction a v ds rule: dins.induct) auto

lemma dsum_dins: "dsum (dins a v ds) = max v (dsum ds)"
  by (induction a v ds rule: dins.induct) auto

lemma deadlines_ddel: "distinct (map fst ds) \<Longrightarrow> deadlines t (ddel a ds) = filter (\<lambda>c. fst c \<noteq> a) (deadlines t ds)"
proof (induction a ds arbitrary: t rule: ddel.induct)
  case (2 a b d ds)
  show ?case
  proof (cases "a = b")
    case True
    have "fst c \<noteq> b" if "c \<in> set (deadlines (t + d) ds)" for c
      using that 2(2) deadlines_fst [of "t + d" ds] by (metis distinct.simps(2) image_eqI list.simps(9) prod.sel(1) set_map)
    then have "filter (\<lambda>c. fst c \<noteq> b) (deadlines (t + d) ds) = deadlines (t + d) ds" by (simp add: filter_id_conv)
    then show ?thesis using True by (cases ds) (auto simp: ac_simps)
  qed (use 2 in simp)
qed simp

lemma fst_ddel [simp]: "map fst (ddel a ds) = remove1 a (map fst ds)"
  by (induction a ds rule: ddel.induct) (auto split: list.split)

lemma dsum_ddel: "dsum (ddel a ds) \<le> dsum ds"
  by (induction a ds rule: ddel.induct) (auto split: list.split)

lemma deadlines_dadv: "deadlines (t + n) (dadv n ds) = map (\<lambda>(a, x). (a, max x (t + n))) (deadlines t ds)"
proof (induction n ds arbitrary: t rule: dadv.induct)
  case (2 n b d ds)
  show ?case
  proof (cases "n \<le> d")
    case True
    have "max x (t + n) = x" if "(a, x) \<in> set (deadlines (t + d) ds)" for a x using deadlines_ge [OF that] True by simp
    then have "map (\<lambda>(a, x). (a, max x (t + n))) (deadlines (t + d) ds) = deadlines (t + d) ds" by (intro map_idI) auto
    then show ?thesis using True by simp
  next
    case False
    then show ?thesis using 2 [of "t + d"] by simp
  qed
qed simp

lemma fst_dadv [simp]: "map fst (dadv n ds) = map fst ds"
  by (induction n ds rule: dadv.induct) auto

lemma dsum_dadv: "dsum (dadv n ds) = dsum ds - n"
  by (induction n ds rule: dadv.induct) auto

lemma dadv_0 [simp]: "dadv 0 ds = ds"
  by (cases ds) auto

text \<open>Reducing the distance of the first entry only: what it cannot take is a delay of all entries.\<close>

fun dcatch :: "nat \<Rightarrow> ('a \<times> nat) list \<Rightarrow> ('a \<times> nat) list" where
  "dcatch n [] = []"
| "dcatch n ((a, d) # ds) = (a, d - n) # ds"

definition delay :: "nat \<Rightarrow> ('a \<times> nat) list \<Rightarrow> ('a \<times> nat) list" where
  "delay n = map (\<lambda>(a, x). (a, x + n))"

definition lateness :: "nat \<Rightarrow> ('a \<times> nat) list \<Rightarrow> nat" where
  "lateness now xs = (case xs of [] \<Rightarrow> 0 | (a, x) # _ \<Rightarrow> now - x)"

lemma deadlines_delay: "deadlines (t + n) ds = delay n (deadlines t ds)"
proof (induction t ds rule: deadlines.induct)
  case (2 t a d ds)
  then show ?case by (simp add: delay_def ac_simps)
qed (simp add: delay_def)

lemma deadlines_dcatch:
  assumes "t \<le> now"
  shows "deadlines now (dcatch (now - t) ds) = delay (lateness now (deadlines t ds)) (deadlines t ds)"
proof (cases ds)
  case (Cons c rest)
  obtain a d where c: "c = (a, d)" by force
  have n: "now + (d - (now - t)) = t + d + (now - (t + d))" using assms by linarith
  then have "deadlines (now + (d - (now - t))) rest = delay (now - (t + d)) (deadlines (t + d) rest)" by (simp only: deadlines_delay)
  then show ?thesis using n by (simp add: Cons c lateness_def) (simp add: delay_def)
qed (simp add: delay_def)

lemma fst_dcatch [simp]: "map fst (dcatch n ds) = map fst ds"
  by (cases "(n, ds)" rule: dcatch.cases) auto

lemma dsum_dcatch: "dsum (dcatch n ds) \<le> dsum ds"
  by (cases "(n, ds)" rule: dcatch.cases) auto

section \<open>Delta lists in memory\<close>

fun dl_rep :: "('n \<Rightarrow> 'n option) \<Rightarrow> ('n \<Rightarrow> u32) \<Rightarrow> 'n option \<Rightarrow> ('n \<times> nat) list \<Rightarrow> bool" where
  "dl_rep nx off p [] \<longleftrightarrow> p = None"
| "dl_rep nx off p ((a, d) # ds) \<longleftrightarrow> p = Some a \<and> unat (off a) = d \<and> dl_rep nx off (nx a) ds"

fun dl_seg :: "('n \<Rightarrow> 'n option) \<Rightarrow> ('n \<Rightarrow> u32) \<Rightarrow> 'n option \<Rightarrow> ('n \<times> nat) list \<Rightarrow> 'n option \<Rightarrow> bool" where
  "dl_seg nx off p [] q \<longleftrightarrow> p = q"
| "dl_seg nx off p ((a, d) # ds) q \<longleftrightarrow> p = Some a \<and> unat (off a) = d \<and> dl_seg nx off (nx a) ds q"

lemma dl_rep_seg: "dl_rep nx off p ds \<longleftrightarrow> dl_seg nx off p ds None"
  by (induction nx off p ds rule: dl_rep.induct) auto

lemma dl_seg_append: "dl_seg nx off p (xs @ ys) q \<longleftrightarrow> (\<exists>r. dl_seg nx off p xs r \<and> dl_seg nx off r ys q)"
  by (induction nx off p xs q rule: dl_seg.induct) auto

lemma dl_seg_cong:
  "dl_seg nx off p ds q \<Longrightarrow> \<forall>a\<in>set (map fst ds). nx' a = nx a \<and> off' a = off a \<Longrightarrow> dl_seg nx' off' p ds q"
  by (induction nx off p ds q rule: dl_seg.induct) auto

lemma dl_rep_cong:
  "dl_rep nx off p ds \<Longrightarrow> \<forall>a\<in>set (map fst ds). nx' a = nx a \<and> off' a = off a \<Longrightarrow> dl_rep nx' off' p ds"
  by (simp add: dl_rep_seg dl_seg_cong)

text \<open>The address of the entry a list ends with, and of the one it starts with.\<close>

definition last_entry :: "('n \<times> nat) list \<Rightarrow> 'n option" where
  "last_entry ds = (if ds = [] then None else Some (fst (last ds)))"

definition first_entry :: "('n \<times> nat) list \<Rightarrow> 'n option" where
  "first_entry ds = (if ds = [] then None else Some (fst (hd ds)))"

lemma entry_simps [simp]:
  "last_entry [] = None" "last_entry (xs @ [(a, d)]) = Some a" "last_entry [(a, d)] = Some a" "first_entry [] = None" "first_entry ((a, d) # ds) = Some a"
  by (simp_all add: last_entry_def first_entry_def)

lemma last_entryD: "last_entry ds = Some a \<Longrightarrow> a \<in> fst ` set ds"
  by (auto simp: last_entry_def split: if_splits)

lemma first_entryD: "first_entry ds = Some a \<Longrightarrow> a \<in> fst ` set ds"
  by (auto simp: first_entry_def split: if_splits)

lemma last_entry_append: "ys \<noteq> [] \<Longrightarrow> last_entry (xs @ ys) = last_entry ys"
  by (simp add: last_entry_def)

lemma last_entry_Cons: "last_entry ((a, d) # ds) = (if ds = [] then Some a else last_entry ds)"
  by (simp add: last_entry_def)

lemma dl_rep_head: "dl_rep nx off p ds \<Longrightarrow> p = first_entry ds"
  by (cases ds) auto

text \<open>Where a list is cut to insert an entry that is due after \<open>v\<close>.\<close>

definition cut_at :: "nat \<Rightarrow> ('n \<times> nat) list \<Rightarrow> ('n \<times> nat) list \<Rightarrow> bool" where
  "cut_at v us vs \<longleftrightarrow> dsum us \<le> v \<and> (vs = [] \<or> v < dsum us + snd (hd vs))"

fun shorten :: "nat \<Rightarrow> ('n \<times> nat) list \<Rightarrow> ('n \<times> nat) list" where
  "shorten w [] = []"
| "shorten w ((b, d) # ds) = (b, d - w) # ds"

lemma dins_cut: "cut_at v us vs \<Longrightarrow> dins a v (us @ vs) = us @ (a, v - dsum us) # shorten (v - dsum us) vs"
proof (induction us arbitrary: v)
  case Nil
  then show ?case by (cases vs) (auto simp: cut_at_def)
next
  case (Cons c us)
  obtain b d where c: "c = (b, d)" by force
  have "d \<le> v" "cut_at (v - d) us vs" using Cons.prems by (auto simp: cut_at_def c)
  then show ?case using Cons.IH [of "v - d"] by (simp add: c)
qed

text \<open>Splicing an entry in, on the level of pointers and offsets.\<close>

definition splice_next :: "'n \<Rightarrow> ('n \<times> nat) list \<Rightarrow> ('n \<times> nat) list \<Rightarrow> ('n \<Rightarrow> 'n option) \<Rightarrow> 'n \<Rightarrow> 'n option" where
  "splice_next e us vs nx =
     (case last_entry us of None \<Rightarrow> nx(e := first_entry vs) | Some p \<Rightarrow> nx(e := first_entry vs, p := Some e))"

definition splice_off :: "'n \<Rightarrow> u32 \<Rightarrow> ('n \<times> nat) list \<Rightarrow> ('n \<Rightarrow> u32) \<Rightarrow> 'n \<Rightarrow> u32" where
  "splice_off e w vs off = (case first_entry vs of None \<Rightarrow> off(e := w) | Some b \<Rightarrow> off(e := w, b := off b - w))"

lemma dl_splice:
  assumes rep: "dl_rep nx off h (us @ vs)" and dist: "distinct (map fst (us @ vs))" and e: "e \<notin> fst ` set (us @ vs)"
    and w: "vs = [] \<or> unat w \<le> snd (hd vs)"
  shows "dl_rep (splice_next e us vs nx) (splice_off e w vs off) (case last_entry us of None \<Rightarrow> Some e | Some _ \<Rightarrow> h)
     (us @ (e, unat w) # shorten (unat w) vs)"
proof -
  let ?nx = "splice_next e us vs nx" and ?off = "splice_off e w vs off"
  obtain q where q: "dl_seg nx off h us q" "dl_rep nx off q vs" using rep by (auto simp: dl_rep_seg dl_seg_append)
  have tail: "dl_rep ?nx ?off (first_entry vs) (shorten (unat w) vs)"
  proof (cases vs)
    case (Cons c vs')
    obtain b d where c: "c = (b, d)" by force
    have b: "unat (off b) = d" "dl_rep nx off (nx b) vs'" "b \<notin> fst ` set vs'" "b \<noteq> e" "w \<le> off b" "b \<notin> fst ` set us"
      using q(2) dist e w Cons c by (auto simp: word_le_nat_alt)
    have "last_entry us \<noteq> Some b" using b(6) by (auto simp: last_entry_def)
    then have nb: "?nx b = nx b" using b(4) by (auto simp: splice_next_def split: option.split)
    have "unat (?off b) = d - unat w" using b(1,4,5) Cons c by (simp add: splice_off_def unat_sub)
    moreover have "dl_rep ?nx ?off (nx b) vs'"
    proof (rule dl_rep_cong [OF b(2)], intro ballI conjI)
      fix a assume "a \<in> set (map fst vs')"
      then have a: "a \<in> fst ` set vs'" by simp
      have "fst ` set us \<inter> fst ` set vs' = {}" "e \<notin> fst ` set vs'" using dist e Cons by auto
      with a b(3) last_entryD [of us a] have "a \<noteq> e" "a \<noteq> b" "last_entry us \<noteq> Some a" by blast+
      then show "?nx a = nx a" "?off a = off a" using Cons c by (auto simp: splice_next_def splice_off_def split: option.split)
    qed
    ultimately show ?thesis using Cons c nb by simp
  qed simp
  have e': "unat (?off e) = unat w" "?nx e = first_entry vs"
    using e by (auto simp: splice_off_def splice_next_def first_entry_def last_entry_def split: option.split)
  show ?thesis
  proof (cases us rule: rev_cases)
    case Nil
    then show ?thesis using tail e' by simp
  next
    case (snoc us' c)
    obtain p d where c: "c = (p, d)" by force
    have p: "dl_seg nx off h us' (Some p)" "unat (off p) = d" "p \<noteq> e" "p \<notin> fst ` set vs" "p \<notin> fst ` set us'"
      using q(1) snoc c e dist by (auto simp: dl_seg_append)
    have o: "?off p = off p" "?nx p = Some e" using p(3,4) snoc c
      by (auto simp: splice_off_def splice_next_def first_entry_def split: option.split)
    have "dl_seg ?nx ?off h us' (Some p)"
    proof (rule dl_seg_cong [OF p(1)], intro ballI conjI)
      fix a assume "a \<in> set (map fst us')"
      then have a: "a \<in> fst ` set us'" by simp
      have "fst ` set us' \<inter> fst ` set vs = {}" "e \<notin> fst ` set us'" using dist e snoc by auto
      with a p(5) first_entryD [of vs a] have "a \<noteq> e" "a \<noteq> p" "first_entry vs \<noteq> Some a" by blast+
      then show "?nx a = nx a" "?off a = off a" using snoc c by (auto simp: splice_next_def splice_off_def split: option.split)
    qed
    then show ?thesis using tail e' o p(2) snoc c by (auto simp: dl_rep_seg dl_seg_append)
  qed
qed

text \<open>Taking an entry out.\<close>

fun lengthen :: "nat \<Rightarrow> ('n \<times> nat) list \<Rightarrow> ('n \<times> nat) list" where
  "lengthen w [] = []"
| "lengthen w ((b, d) # ds) = (b, d + w) # ds"

lemma ddel_cut: "a \<notin> fst ` set us \<Longrightarrow> ddel a (us @ (a, d) # vs) = us @ lengthen d vs"
proof (induction us)
  case Nil
  then show ?case by (cases vs) auto
qed auto

definition unsplice_next :: "('n \<times> nat) list \<Rightarrow> ('n \<times> nat) list \<Rightarrow> ('n \<Rightarrow> 'n option) \<Rightarrow> 'n \<Rightarrow> 'n option" where
  "unsplice_next us vs nx = (case last_entry us of None \<Rightarrow> nx | Some p \<Rightarrow> nx(p := first_entry vs))"

definition unsplice_off :: "u32 \<Rightarrow> ('n \<times> nat) list \<Rightarrow> ('n \<Rightarrow> u32) \<Rightarrow> 'n \<Rightarrow> u32" where
  "unsplice_off w vs off = (case first_entry vs of None \<Rightarrow> off | Some b \<Rightarrow> off(b := off b + w))"

lemma dl_unsplice:
  assumes rep: "dl_rep nx off h (us @ (e, d) # vs)" and dist: "distinct (map fst (us @ (e, d) # vs))"
    and sum: "dsum (us @ (e, d) # vs) < 2 ^ 32"
  shows "dl_rep (unsplice_next us vs nx) (unsplice_off (off e) vs off) (case last_entry us of None \<Rightarrow> first_entry vs | Some _ \<Rightarrow> h)
     (us @ lengthen d vs)"
proof -
  let ?nx = "unsplice_next us vs nx" and ?off = "unsplice_off (off e) vs off"
  have q: "dl_seg nx off h us (Some e)" "unat (off e) = d" "dl_rep nx off (nx e) vs" using rep by (auto simp: dl_rep_seg dl_seg_append)
  have tail: "dl_rep ?nx ?off (first_entry vs) (lengthen d vs)"
  proof (cases vs)
    case (Cons c vs')
    obtain b k where c: "c = (b, k)" by force
    have b: "unat (off b) = k" "dl_rep nx off (nx b) vs'" "b \<notin> fst ` set vs'" "b \<notin> fst ` set us" "k + d < 2 ^ 32"
      using q(3) dist sum Cons c by (auto simp: dsum_def)
    have "last_entry us \<noteq> Some b" using b(4) by (auto simp: last_entry_def)
    then have nb: "?nx b = nx b" by (auto simp: unsplice_next_def split: option.split)
    have "unat (off b + off e) = k + d" using b(1,5) q(2) by (simp add: unat_word_ariths)
    then have "unat (?off b) = k + d" using Cons c by (simp add: unsplice_off_def)
    moreover have "dl_rep ?nx ?off (nx b) vs'"
    proof (rule dl_rep_cong [OF b(2)], intro ballI conjI)
      fix a assume "a \<in> set (map fst vs')"
      then have a: "a \<in> fst ` set vs'" by simp
      have "fst ` set us \<inter> fst ` set vs' = {}" using dist Cons by auto
      with a b(3) last_entryD [of us a] have "a \<noteq> b" "last_entry us \<noteq> Some a" by blast+
      then show "?nx a = nx a" "?off a = off a" using Cons c by (auto simp: unsplice_next_def unsplice_off_def split: option.split)
    qed
    ultimately show ?thesis using Cons c nb by simp
  qed simp
  show ?thesis
  proof (cases us rule: rev_cases)
    case Nil
    then show ?thesis using tail by simp
  next
    case (snoc us' c)
    obtain p k where c: "c = (p, k)" by force
    have p: "dl_seg nx off h us' (Some p)" "unat (off p) = k" "p \<notin> fst ` set vs" "p \<notin> fst ` set us'"
      using q(1) snoc c dist by (auto simp: dl_seg_append)
    have o: "?off p = off p" "?nx p = first_entry vs" using p(3) snoc c
      by (auto simp: unsplice_off_def unsplice_next_def first_entry_def split: option.split)
    have "dl_seg ?nx ?off h us' (Some p)"
    proof (rule dl_seg_cong [OF p(1)], intro ballI conjI)
      fix a assume "a \<in> set (map fst us')"
      then have a: "a \<in> fst ` set us'" by simp
      have "fst ` set us' \<inter> fst ` set vs = {}" using dist snoc by auto
      with a p(4) first_entryD [of vs a] have "a \<noteq> p" "first_entry vs \<noteq> Some a" by blast+
      then show "?nx a = nx a" "?off a = off a" using snoc c by (auto simp: unsplice_next_def unsplice_off_def split: option.split)
    qed
    then show ?thesis using tail o p(2) snoc c by (auto simp: dl_rep_seg dl_seg_append)
  qed
qed

section \<open>The contract of a queue of deadlines\<close>

definition without :: "'a \<Rightarrow> ('a \<times> nat) list \<Rightarrow> ('a \<times> nat) list" where
  "without a = filter (\<lambda>c. fst c \<noteq> a)"

lemma without_deadlines: "distinct (map fst ds) \<Longrightarrow> deadlines t (ddel a ds) = without a (deadlines t ds)"
  by (simp add: without_def deadlines_ddel)

lemma ddel_removes:
  assumes "distinct (map fst ds)"
  shows "a \<notin> fst ` set (ddel a ds)"
proof -
  have "set (map fst (ddel a ds)) = set (map fst ds) - {a}" unfolding fst_ddel by (rule set_remove1_eq [OF assms])
  then have "fst ` set (ddel a ds) = fst ` set ds - {a}" by (simp only: list.set_map)
  then show ?thesis by (simp only: Diff_iff) simp
qed

datatype 'a timer_op = Arm 'a u32 | Disarm 'a

text \<open>What an operation at time \<open>t\<close> does to the deadlines.\<close>

fun deadline_step :: "nat \<Rightarrow> 'a timer_op \<Rightarrow> ('a \<times> nat) list \<Rightarrow> ('a \<times> nat) list" where
  "deadline_step t (Arm a v) xs = place a (t + unat v) (without a xs)"
| "deadline_step t (Disarm a) xs = without a xs"

locale deadline_queue =
  fixes rep :: "'s \<Rightarrow> ('a \<times> nat) list \<Rightarrow> bool" and add :: "'a \<Rightarrow> u32 \<Rightarrow> 's \<Rightarrow> 's option" and del :: "'a \<Rightarrow> 's \<Rightarrow> 's option"
  assumes rep_distinct: "rep s ds \<Longrightarrow> distinct (map fst ds)"
    and add_rep: "rep s ds \<Longrightarrow> a \<notin> fst ` set ds \<Longrightarrow> \<exists>s'. add a v s = Some s' \<and> rep s' (dins a (unat v) ds)"
    and del_rep: "rep s ds \<Longrightarrow> \<exists>s'. del a s = Some s' \<and> rep s' (ddel a ds)"
begin

fun step :: "'a timer_op \<Rightarrow> 's \<Rightarrow> 's option" where
  "step (Arm a v) s = do { s \<leftarrow> del a s; add a v s }"
| "step (Disarm a) s = del a s"

lemma step_deadlines:
  assumes "rep s ds"
  shows "\<exists>s' ds'. step p s = Some s' \<and> rep s' ds' \<and> deadlines t ds' = deadline_step t p (deadlines t ds)"
proof -
  obtain a where a: "p = Disarm a \<or> (\<exists>v. p = Arm a v)" by (cases p) auto
  obtain s1 where s1: "del a s = Some s1" "rep s1 (ddel a ds)" using del_rep [OF assms] by blast
  have w: "deadlines t (ddel a ds) = without a (deadlines t ds)" "a \<notin> fst ` set (ddel a ds)"
    by (rule without_deadlines [OF rep_distinct [OF assms]]) (rule ddel_removes [OF rep_distinct [OF assms]])
  show ?thesis
  proof (cases p)
    case (Disarm b)
    with a s1 w show ?thesis by auto
  next
    case (Arm b v)
    with a have "b = a" by auto
    obtain s2 where "add a v s1 = Some s2" "rep s2 (dins a (unat v) (ddel a ds))" using add_rep [OF s1(2) w(2)] by blast
    with Arm s1(1) w(1) \<open>b = a\<close> show ?thesis by (auto simp: deadlines_dins)
  qed
qed

lemma run_deadlines:
  "rep s ds \<Longrightarrow> \<exists>s' ds'. foldr (\<lambda>p k s. step p s \<bind> k) ps Some s = Some s' \<and> rep s' ds' \<and>
     deadlines t ds' = fold (deadline_step t) ps (deadlines t ds)"
proof (induction ps arbitrary: s ds)
  case (Cons p ps)
  obtain s1 ds1 where "step p s = Some s1" "rep s1 ds1" "deadlines t ds1 = deadline_step t p (deadlines t ds)"
    using step_deadlines [OF Cons.prems] by blast
  with Cons.IH [of s1 ds1] show ?case by simp
qed auto

end

end
