(* ===== verification/Ztimer.thy ===== *)
theory Ztimer
  imports Delta_List
begin

text \<open>
  The timer core of sys/ztimer (core.c and ztimer.h), in the build with \<open>ZTIMER_EXTEND\<close> and without power management:
  a clock keeps its timers in a delta list relative to the time of the last update, and a counter that has fewer than 32
  bits is extended by checkpoints. Timers are addresses; the \<open>next\<close> pointer and the offset of every timer are explicit, since
  the test for an armed timer looks at the pointer. The pointer \<open>list\<close> of the loops is \<open>None\<close> for the entry in
  the clock itself. The counter is the parameter \<open>clk\<close>: \<open>clk n\<close> is what the n-th read returns; the alarm of the
  clock is recorded in \<open>alarm\<close>. A callback is the parameter \<open>cb\<close>, which may do anything to the state; \<open>zenv\<close> is the
  part of it that belongs to the callbacks. A failed assertion, a NULL dereference and a loop that never ends are
  \<open>None\<close>. The operations run with interrupts disabled.
\<close>

section \<open>The program\<close>

record 'w zclock =
  znext :: "nat \<Rightarrow> nat option"
  zoff :: "nat \<Rightarrow> u32"
  zhead :: "nat option"
  zbase :: u32
  zlast :: "nat option"
  adjust_set :: u16
  max_value :: u32
  lower_last :: u32
  checkpoint :: u32
  alarm :: "u32 option"
  zreads :: nat
  zenv :: 'w

definition UINT32_MAX :: u32 where "UINT32_MAX = 0xFFFFFFFF"

definition min_u32 :: "u32 \<Rightarrow> u32 \<Rightarrow> u32" where
  "min_u32 a b = (if a < b then a else b)"

definition ops_now :: "(nat \<Rightarrow> u32) \<Rightarrow> 'w zclock \<Rightarrow> u32 \<times> 'w zclock" where
  "ops_now clk s = (clk (zreads s), s\<lparr>zreads := Suc (zreads s)\<rparr>)"

definition ops_set :: "u32 \<Rightarrow> 'w zclock \<Rightarrow> 'w zclock" where
  "ops_set val s = s\<lparr>alarm := Some val\<rparr>"

definition ops_cancel :: "'w zclock \<Rightarrow> 'w zclock" where
  "ops_cancel s = s\<lparr>alarm := None\<rparr>"

fun next_of :: "nat option \<Rightarrow> 'w zclock \<Rightarrow> nat option" where
  "next_of None s = zhead s"
| "next_of (Some p) s = znext s p"

fun set_next_of :: "nat option \<Rightarrow> nat option \<Rightarrow> 'w zclock \<Rightarrow> 'w zclock" where
  "set_next_of None q s = s\<lparr>zhead := q\<rparr>"
| "set_next_of (Some p) q s = s\<lparr>znext := (znext s)(p := q)\<rparr>"

definition set_off :: "nat \<Rightarrow> u32 \<Rightarrow> 'w zclock \<Rightarrow> 'w zclock" where
  "set_off e v s = s\<lparr>zoff := (zoff s)(e := v)\<rparr>"

definition is_set :: "'w zclock \<Rightarrow> nat \<Rightarrow> bool" where
  "is_set s t \<longleftrightarrow> (if zhead s = None then False else znext s t \<noteq> None \<or> zlast s = Some t)"

definition add_modulo :: "u32 \<Rightarrow> u32 \<Rightarrow> u32 \<Rightarrow> u32" where
  "add_modulo a b m = (let a = (if a < b then a + (m + 1) else a) in a - b)"

definition ztimer_now_extend :: "(nat \<Rightarrow> u32) \<Rightarrow> 'w zclock \<Rightarrow> (u32 \<times> 'w zclock) option" where
  "ztimer_now_extend clk s =
     (if max_value s = 0 then None
      else
        (let (lower_now, s) = ops_now clk s;
             s = s\<lparr>checkpoint := checkpoint s + add_modulo lower_now (lower_last s) (max_value s)\<rparr>;
             s = s\<lparr>lower_last := lower_now\<rparr>
         in Some (checkpoint s, s)))"

definition ztimer_now :: "(nat \<Rightarrow> u32) \<Rightarrow> 'w zclock \<Rightarrow> (u32 \<times> 'w zclock) option" where
  "ztimer_now clk s =
     (if max_value s < UINT32_MAX then ztimer_now_extend clk s else Some (ops_now clk s))"

partial_function (option) add_loop :: "nat \<Rightarrow> u32 \<Rightarrow> nat option \<Rightarrow> 'w zclock \<Rightarrow> (nat option \<times> u32) option" where
  "add_loop entry delta_sum lst s =
     (case next_of lst s of
        None \<Rightarrow> Some (lst, delta_sum)
      | Some x \<Rightarrow>
          if zoff s x + delta_sum > zoff s entry then Some (lst, delta_sum)
          else add_loop entry (delta_sum + zoff s x) (Some x) s)"

definition add_entry_to_list :: "nat \<Rightarrow> 'w zclock \<Rightarrow> 'w zclock option" where
  "add_entry_to_list entry s =
     do { (lst, delta_sum) \<leftarrow> add_loop entry 0 None s;
          let s = s\<lparr>znext := (znext s)(entry := next_of lst s)\<rparr>;
          let s = set_off entry (zoff s entry - delta_sum) s;
          let s = (case znext s entry of
                     Some x \<Rightarrow> set_off x (zoff s x - zoff s entry) s
                   | None \<Rightarrow> s\<lparr>zlast := Some entry\<rparr>);
          Some (set_next_of lst (Some entry) s) }"

partial_function (option) del_loop :: "nat \<Rightarrow> nat option \<Rightarrow> 'w zclock \<Rightarrow> 'w zclock option" where
  "del_loop entry lst s =
     (case next_of lst s of
        None \<Rightarrow> Some s
      | Some x \<Rightarrow>
          if x = entry then
            (let s = (if zlast s = Some entry then s\<lparr>zlast := lst\<rparr> else s);
                 s = set_next_of lst (znext s entry) s;
                 s = (case next_of lst s of Some y \<Rightarrow> set_off y (zoff s y + zoff s entry) s | None \<Rightarrow> s)
             in Some (s\<lparr>znext := (znext s)(entry := None)\<rparr>))
          else del_loop entry (Some x) s)"

definition del_entry_from_list :: "nat \<Rightarrow> 'w zclock \<Rightarrow> 'w zclock option" where
  "del_entry_from_list entry s = (if is_set s entry then del_loop entry None s else None)"

partial_function (option) skip_zero :: "nat option \<Rightarrow> 'w zclock \<Rightarrow> nat option option" where
  "skip_zero entry s =
     (case entry of
        None \<Rightarrow> Some None
      | Some e \<Rightarrow> if zoff s e = 0 then skip_zero (znext s e) s else Some entry)"

partial_function (option) update_loop :: "u32 \<Rightarrow> nat \<Rightarrow> 'w zclock \<Rightarrow> 'w zclock option" where
  "update_loop diff e s =
     (if diff \<le> zoff s e then Some (set_off e (zoff s e - diff) s)
      else
        do { let diff = diff - zoff s e;
             let s = set_off e 0 s;
             entry \<leftarrow> (if diff \<noteq> 0 then skip_zero (znext s e) s else Some (Some e));
             case entry of Some e \<Rightarrow> if diff \<noteq> 0 then update_loop diff e s else Some s | None \<Rightarrow> Some s })"

definition ztimer_update_head_offset :: "(nat \<Rightarrow> u32) \<Rightarrow> 'w zclock \<Rightarrow> 'w zclock option" where
  "ztimer_update_head_offset clk s =
     do { let old_base = zbase s;
          (now, s) \<leftarrow> ztimer_now clk s;
          let diff = now - old_base;
          s \<leftarrow> (case zhead s of Some e \<Rightarrow> update_loop diff e s | None \<Rightarrow> Some s);
          Some (s\<lparr>zbase := now\<rparr>) }"

definition now_next :: "'w zclock \<Rightarrow> nat option \<times> 'w zclock" where
  "now_next s =
     (case zhead s of
        Some e \<Rightarrow>
          if zoff s e = 0 then
            (Some e, let s = s\<lparr>zhead := znext s e\<rparr> in if znext s e = None then s\<lparr>zlast := None\<rparr> else s)
          else (None, s)
      | None \<Rightarrow> (None, s))"

definition ztimer_update :: "'w zclock \<Rightarrow> 'w zclock" where
  "ztimer_update s =
     (if max_value s < UINT32_MAX then
        (case zhead s of
           Some e \<Rightarrow> ops_set (min_u32 (zoff s e) (drop_bit 1 (max_value s))) s
         | None \<Rightarrow> ops_set (drop_bit 1 (max_value s)) s)
      else
        (case zhead s of Some e \<Rightarrow> ops_set (zoff s e) s | None \<Rightarrow> ops_cancel s))"

definition ztimer_remove :: "(nat \<Rightarrow> u32) \<Rightarrow> nat \<Rightarrow> 'w zclock \<Rightarrow> 'w zclock option" where
  "ztimer_remove clk timer s =
     (if is_set s timer then
        do { s \<leftarrow> ztimer_update_head_offset clk s;
             s \<leftarrow> del_entry_from_list timer s;
             Some (ztimer_update s) }
      else Some s)"

definition ztimer_set :: "(nat \<Rightarrow> u32) \<Rightarrow> nat \<Rightarrow> u32 \<Rightarrow> 'w zclock \<Rightarrow> 'w zclock option" where
  "ztimer_set clk timer val s =
     do { s \<leftarrow> ztimer_update_head_offset clk s;
          s \<leftarrow> (if is_set s timer then del_entry_from_list timer s else Some s);
          let val = (if val > ucast (adjust_set s) then val - ucast (adjust_set s) else 0);
          let s = set_off timer val s;
          s \<leftarrow> add_entry_to_list timer s;
          if zhead s = Some timer then
            (let val = (if max_value s < UINT32_MAX then min_u32 val (drop_bit 1 (max_value s)) else val)
             in Some (ops_set val s))
          else Some s }"

partial_function (option) fire_loop ::
  "(nat \<Rightarrow> u32) \<Rightarrow> (nat \<Rightarrow> 'w zclock \<Rightarrow> 'w zclock option) \<Rightarrow> nat option \<Rightarrow> 'w zclock \<Rightarrow> 'w zclock option" where
  "fire_loop clk cb entry s =
     (case entry of
        None \<Rightarrow> Some s
      | Some e \<Rightarrow>
          do { s \<leftarrow> cb e s;
               let (n, s) = now_next s;
               case n of
                 Some _ \<Rightarrow> fire_loop clk cb n s
               | None \<Rightarrow>
                   do { s \<leftarrow> ztimer_update_head_offset clk s;
                        let (n, s) = now_next s;
                        fire_loop clk cb n s } })"

text \<open>The part of the handler for extended counters: whether the alarm came before the first deadline.\<close>

definition postpone :: "(nat \<Rightarrow> u32) \<Rightarrow> 'w zclock \<Rightarrow> (bool \<times> 'w zclock) option" where
  "postpone clk s =
     (if max_value s < UINT32_MAX then
        do { (now, s) \<leftarrow> ztimer_now clk s;
             case zhead s of
               Some e \<Rightarrow>
                 (let target = zbase s + zoff s e; diff = target - now
                  in if 0 < sint diff then Some (True, ops_set (min_u32 diff (drop_bit 1 (max_value s))) s)
                     else Some (False, s))
             | None \<Rightarrow> Some (True, ops_set (drop_bit 1 (max_value s)) s) }
      else Some (False, s))"

definition ztimer_handler ::
  "(nat \<Rightarrow> u32) \<Rightarrow> (nat \<Rightarrow> 'w zclock \<Rightarrow> 'w zclock option) \<Rightarrow> 'w zclock \<Rightarrow> 'w zclock option" where
  "ztimer_handler clk cb s =
     do { (done, s) \<leftarrow> postpone clk s;
          if done then Some s
          else
            do { e \<leftarrow> zhead s;
                 let s = s\<lparr>zbase := zbase s + zoff s e\<rparr>;
                 let s = set_off e 0 s;
                 let (n, s) = now_next s;
                 s \<leftarrow> fire_loop clk cb n s;
                 Some (ztimer_update s) } }"

section \<open>Time\<close>

text \<open>
  Real time is \<open>T\<close>: \<open>T n\<close> is the time of the n-th read. The counter shows it modulo its range, and two reads are never
  further apart than that. \<open>t\<close> is the time of the last read.
\<close>

definition clock_ok :: "(nat \<Rightarrow> nat) \<Rightarrow> (nat \<Rightarrow> u32) \<Rightarrow> nat \<Rightarrow> 'w zclock \<Rightarrow> bool" where
  "clock_ok T clk t s \<longleftrightarrow> 0 < max_value s \<and> (\<forall>n. unat (clk n) = T n mod (unat (max_value s) + 1)) \<and>
     (\<forall>n. T n \<le> T (Suc n) \<and> T (Suc n) - T n \<le> unat (max_value s)) \<and>
     t \<le> T (zreads s) \<and> T (zreads s) - t \<le> unat (max_value s) \<and>
     (max_value s < UINT32_MAX \<longrightarrow> checkpoint s = of_nat t \<and> unat (lower_last s) = t mod (unat (max_value s) + 1))"

lemma unat_max: "unat UINT32_MAX = 2 ^ 32 - 1"
  by (simp add: UINT32_MAX_def)

lemma max_cases: "max_value s < UINT32_MAX \<or> max_value s = UINT32_MAX"
proof -
  have m: "UINT32_MAX = - 1" by (simp add: UINT32_MAX_def)
  have "max_value s \<le> - 1" by simp
  then show ?thesis unfolding m by (simp only: order_le_less)
qed

lemma of_unat: "(w :: u32) = of_nat (unat w)"
  by simp

lemma add_modulo_elapsed:
  assumes a: "unat a = x mod (unat m + 1)" and b: "unat b = y mod (unat m + 1)" and "y \<le> x" "x - y \<le> unat m"
  shows "add_modulo a b m = of_nat (x - y)"
proof -
  let ?N = "unat m + 1" and ?r = "y mod (unat m + 1)"
  obtain k where k: "x = y + k" "k < ?N" using assms(3,4) by (metis add.commute le_add_diff_inverse less_Suc_eq_le Suc_eq_plus1)
  have x: "x mod ?N = (?r + k) mod ?N" using k(1) by (simp add: mod_add_left_eq)
  have ab: "b = of_nat ?r" "m + 1 = of_nat ?N" unfolding b [symmetric] by simp_all
  show ?thesis
  proof (cases "?r + k < ?N")
    case True
    then have u: "unat a = ?r + k" using a x by simp
    then have "\<not> a < b" using b by (simp add: word_less_nat_alt)
    moreover have "a = of_nat (?r + k)" unfolding u [symmetric] by simp
    then have "a - b = of_nat k" unfolding ab(1) by simp
    ultimately show ?thesis using k(1) by (simp add: add_modulo_def)
  next
    case False
    then have "(?r + k) mod ?N = (?r + k - ?N) mod ?N" by (intro le_mod_geq) simp
    also have "?r < ?N" by (rule mod_less_divisor) simp
    then have "(?r + k - ?N) mod ?N = ?r + k - ?N" using k(2) by (intro mod_less) linarith
    finally have "(?r + k) mod ?N = ?r + k - ?N" .
    then have u: "unat a = ?r + k - ?N" using a x by simp
    have "a < b" using b u k(2) False by (simp add: word_less_nat_alt)
    moreover have "a = of_nat (?r + k - ?N)" unfolding u [symmetric] by simp
    then have "a + (m + 1) = of_nat (?r + k)" unfolding ab(2) using False by (simp flip: of_nat_add)
    then have "a + (m + 1) - b = of_nat k" unfolding ab(1) by simp
    ultimately show ?thesis using k(1) by (simp add: add_modulo_def)
  qed
qed

text \<open>Reading the clock gives the real time modulo \<open>2 ^ 32\<close>, with and without extension.\<close>

lemma len_of_u32: "LENGTH(32) = 32"
  by simp

lemma of_nat_mod_full: "(of_nat (n mod 2 ^ 32) :: u32) = of_nat n"
  by (metis of_unat unat_of_nat len_of_u32)

lemma ztimer_now_spec:
  assumes "clock_ok T clk t s"
  shows "\<exists>l c. ztimer_now clk s = Some (of_nat (T (zreads s)), s\<lparr>zreads := Suc (zreads s), lower_last := l, checkpoint := c\<rparr>) \<and>
     clock_ok T clk (T (zreads s)) (s\<lparr>zreads := Suc (zreads s), lower_last := l, checkpoint := c\<rparr>)"
proof (cases "max_value s < UINT32_MAX")
  case True
  note h = assms [unfolded clock_ok_def]
  let ?n = "clk (zreads s)"
  have "add_modulo ?n (lower_last s) (max_value s) = of_nat (T (zreads s) - t)" using h True by (intro add_modulo_elapsed) auto
  then have "checkpoint s + add_modulo ?n (lower_last s) (max_value s) = of_nat (T (zreads s))"
    using h True by (simp flip: of_nat_add)
  then show ?thesis using h True
    by (intro exI [of _ ?n] exI [of _ "of_nat (T (zreads s))"])
      (auto simp: ztimer_now_def ztimer_now_extend_def ops_now_def Let_def clock_ok_def)
next
  case False
  note h = assms [unfolded clock_ok_def]
  have m: "max_value s = UINT32_MAX" using False max_cases by blast
  then have "unat (clk (zreads s)) = T (zreads s) mod 2 ^ 32" using h unat_max by simp
  then have "clk (zreads s) = of_nat (T (zreads s))" using of_unat [of "clk (zreads s)"] of_nat_mod_full by simp
  then show ?thesis using h m
    by (intro exI [of _ "lower_last s"] exI [of _ "checkpoint s"]) (auto simp: ztimer_now_def ops_now_def clock_ok_def)
qed

section \<open>The list of a clock\<close>

definition zrep :: "'w zclock \<Rightarrow> (nat \<times> nat) list \<Rightarrow> bool" where
  "zrep s ds \<longleftrightarrow> dl_rep (znext s) (zoff s) (zhead s) ds \<and> distinct (map fst ds) \<and> dsum ds < 2 ^ 32 \<and> zlast s = last_entry ds"

text \<open>Two states that differ at most in the list.\<close>

definition list_only :: "'w zclock \<Rightarrow> 'w zclock \<Rightarrow> bool" where
  "list_only s s' \<longleftrightarrow> (\<exists>nx off h l. s' = s\<lparr>znext := nx, zoff := off, zhead := h, zlast := l\<rparr>)"

lemma list_onlyI: "s' = s\<lparr>znext := nx, zoff := off, zhead := h, zlast := l\<rparr> \<Longrightarrow> list_only s s'"
  unfolding list_only_def by blast

lemma list_only_simps:
  assumes "list_only s s'"
  shows "zbase s' = zbase s" "adjust_set s' = adjust_set s" "max_value s' = max_value s" "alarm s' = alarm s" "zreads s' = zreads s"
    "zenv s' = zenv s" "clock_ok T clk t s' = clock_ok T clk t s"
  using assms by (auto simp: list_only_def clock_ok_def)

lemma list_only_refl [simp]: "list_only s s"
  by (rule list_onlyI [where nx = "znext s" and off = "zoff s" and h = "zhead s" and l = "zlast s"]) simp

lemma list_only_trans: "list_only s s' \<Longrightarrow> list_only s' s'' \<Longrightarrow> list_only s s''"
  unfolding list_only_def by (elim exE, hypsubst) auto

lemma add_loop_spec:
  "\<lbrakk>dl_rep (znext s) (zoff s) (next_of lst s) ys; unat delta + dsum ys < 2 ^ 32; unat delta \<le> unat (zoff s e)\<rbrakk> \<Longrightarrow>
   \<exists>us vs delta'. ys = us @ vs \<and> add_loop e delta lst s = Some (if us = [] then lst else last_entry us, delta') \<and>
     unat delta' = unat delta + dsum us \<and> cut_at (unat (zoff s e) - unat delta) us vs"
proof (induction ys arbitrary: lst delta)
  case Nil
  then show ?case
    by (intro exI [of _ "[]"] exI [of _ delta]) (subst add_loop.simps, simp add: cut_at_def)
next
  case (Cons c ys)
  obtain x d where c: "c = (x, d)" by force
  have h: "next_of lst s = Some x" "unat (zoff s x) = d" "dl_rep (znext s) (zoff s) (next_of (Some x) s) ys" using Cons.prems(1) c by auto
  have sum: "unat (delta + zoff s x) = unat delta + d" "unat (zoff s x + delta) = unat delta + d"
    using Cons.prems(2) c h(2) by (auto simp: unat_word_ariths)
  show ?case
  proof (cases "unat (zoff s e) < unat delta + d")
    case True
    then have "add_loop e delta lst s = Some (lst, delta)"
      using h sum by (subst add_loop.simps) (simp add: word_less_nat_alt)
    then show ?thesis using True c Cons.prems(3)
      by (intro exI [of _ "[]"] exI [of _ "c # ys"] exI [of _ delta]) (simp add: cut_at_def)
  next
    case False
    then have step: "add_loop e delta lst s = add_loop e (delta + zoff s x) (Some x) s"
      using h sum by (subst add_loop.simps) (simp add: word_less_nat_alt)
    have pre: "unat (delta + zoff s x) + dsum ys < 2 ^ 32" "unat (delta + zoff s x) \<le> unat (zoff s e)"
      using Cons.prems(2) False sum c by auto
    obtain us vs delta' where u: "ys = us @ vs" "add_loop e (delta + zoff s x) (Some x) s = Some (if us = [] then Some x else last_entry us, delta')"
        "unat delta' = unat (delta + zoff s x) + dsum us" "cut_at (unat (zoff s e) - unat (delta + zoff s x)) us vs"
      using Cons.IH [OF h(3) pre] by blast
    have "cut_at (unat (zoff s e) - unat delta) ((x, d) # us) vs" using u(4) pre(2) sum by (auto simp: cut_at_def)
    then show ?thesis using u step sum c
      by (intro exI [of _ "(x, d) # us"] exI [of _ vs] exI [of _ delta']) (simp add: last_entry_Cons)
  qed
qed

lemma last_entry_shorten: "vs \<noteq> [] \<Longrightarrow> last_entry (shorten w vs) = last_entry vs"
  by (cases vs) (auto simp: last_entry_Cons)

lemma last_entry_lengthen: "last_entry (lengthen w vs) = last_entry vs"
  by (cases vs) (auto simp: last_entry_Cons)

lemma add_entry_spec:
  assumes rep: "zrep s ds" and e: "e \<notin> fst ` set ds"
  shows "\<exists>s'. add_entry_to_list e s = Some s' \<and> zrep s' (dins e (unat (zoff s e)) ds) \<and> list_only s s'"
proof -
  note r = rep [unfolded zrep_def]
  let ?v = "unat (zoff s e)"
  have pre: "dl_rep (znext s) (zoff s) (next_of None s) ds" "unat (0 :: u32) + dsum ds < 2 ^ 32" "unat (0 :: u32) \<le> ?v" using r by auto
  obtain us vs delta where u: "ds = us @ vs" "add_loop e 0 None s = Some (last_entry us, delta)" "unat delta = dsum us" "cut_at ?v us vs"
  proof -
    obtain us vs delta where u: "ds = us @ vs" "add_loop e 0 None s = Some (if us = [] then None else last_entry us, delta)"
        "unat delta = unat (0 :: u32) + dsum us" "cut_at (?v - unat (0 :: u32)) us vs"
      using add_loop_spec [OF pre] by blast
    moreover have "(if us = [] then None else last_entry us) = last_entry us" by simp
    ultimately show thesis by (intro that) simp_all
  qed
  define w where "w = zoff s e - delta"
  have w: "unat w = ?v - dsum us" unfolding w_def using u(3,4) by (simp add: unat_sub word_le_nat_alt cut_at_def)
  have ins: "dins e ?v ds = us @ (e, unat w) # shorten (unat w) vs" using dins_cut [OF u(4)] u(1) w by simp
  have vs: "next_of (last_entry us) s = first_entry vs"
  proof (cases us rule: rev_cases)
    case (snoc us' c)
    then show ?thesis using r u(1) by (cases c) (auto simp: dl_rep_seg dl_seg_append dest: dl_rep_head [unfolded dl_rep_seg])
  qed (use r u(1) dl_rep_head in auto)
  have ne: "first_entry vs \<noteq> Some e" "last_entry us \<noteq> Some e" using e u(1) first_entryD [of vs e] last_entryD [of us e] by auto
  let ?s = "s\<lparr>znext := splice_next e us vs (znext s), zoff := splice_off e w vs (zoff s),
    zhead := (case last_entry us of None \<Rightarrow> Some e | Some _ \<Rightarrow> zhead s), zlast := (if vs = [] then Some e else zlast s)\<rparr>"
  have "add_entry_to_list e s = Some ?s"
    using u(2) vs ne by (cases "last_entry us"; cases vs)
      (auto simp: add_entry_to_list_def set_off_def splice_next_def splice_off_def w_def first_entry_def)
  moreover have "vs = [] \<or> unat w \<le> snd (hd vs)" using u(4) w by (auto simp: cut_at_def)
  from dl_splice [OF _ _ _ this, of "znext s" "zoff s" "zhead s" us e] r u(1) e
  have "dl_rep (znext ?s) (zoff ?s) (zhead ?s) (dins e ?v ds)" unfolding ins by simp
  moreover have "dsum (dins e ?v ds) < 2 ^ 32" using r unsigned_less [of "zoff s e"] by (simp add: dsum_dins)
  moreover have "last_entry (dins e ?v ds) = (if vs = [] then Some e else last_entry ds)"
    unfolding ins unfolding u(1) by (cases "vs = []") (auto simp: last_entry_append last_entry_Cons last_entry_shorten, (cases vs, auto)?)
  ultimately have "zrep ?s (dins e ?v ds)" using r distinct_dins [OF e] by (simp add: zrep_def)
  moreover have "list_only s ?s" by (rule list_onlyI) simp
  ultimately show ?thesis using \<open>add_entry_to_list e s = Some ?s\<close> by blast
qed

text \<open>Taking an entry out of the list.\<close>

definition del_at :: "nat \<Rightarrow> nat option \<Rightarrow> 'w zclock \<Rightarrow> 'w zclock" where
  "del_at entry lst s =
     (let s = (if zlast s = Some entry then s\<lparr>zlast := lst\<rparr> else s);
          s = set_next_of lst (znext s entry) s;
          s = (case next_of lst s of Some y \<Rightarrow> set_off y (zoff s y + zoff s entry) s | None \<Rightarrow> s)
      in s\<lparr>znext := (znext s)(entry := None)\<rparr>)"

lemma del_loop_finds:
  "dl_rep (znext s) (zoff s) (next_of lst s) (us @ (e, d) # vs) \<Longrightarrow> e \<notin> fst ` set us \<Longrightarrow>
   del_loop e lst s = Some (del_at e (if us = [] then lst else last_entry us) s)"
proof (induction us arbitrary: lst)
  case Nil
  then show ?case by (subst del_loop.simps) (simp add: del_at_def Let_def)
next
  case (Cons c us)
  then show ?case by (cases c) (subst del_loop.simps, auto simp: last_entry_Cons)
qed

lemma del_loop_misses:
  "dl_rep (znext s) (zoff s) (next_of lst s) ds \<Longrightarrow> e \<notin> fst ` set ds \<Longrightarrow> del_loop e lst s = Some s"
proof (induction ds arbitrary: lst)
  case Nil
  then show ?case by (subst del_loop.simps) simp
next
  case (Cons c ds)
  then show ?case by (cases c) (subst del_loop.simps, auto)
qed

lemma ddel_absent: "e \<notin> fst ` set ds \<Longrightarrow> ddel e ds = ds"
  by (induction ds) auto

lemma zrep_split:
  assumes "zrep s ds" "e \<in> fst ` set ds"
  obtains us d vs where "ds = us @ (e, d) # vs" "e \<notin> fst ` set us" "e \<notin> fst ` set vs" "znext s e = first_entry vs"
    "zlast s = Some e \<longleftrightarrow> vs = []"
proof -
  from assms(2) obtain d where "(e, d) \<in> set ds" by force
  then obtain us vs where ds: "ds = us @ (e, d) # vs" by (meson split_list)
  note r = assms(1) [unfolded zrep_def]
  have e: "e \<notin> fst ` set us" "e \<notin> fst ` set vs" using r ds by auto
  have "dl_rep (znext s) (zoff s) (znext s e) vs" using r ds by (auto simp: dl_rep_seg dl_seg_append)
  then have "znext s e = first_entry vs" by (rule dl_rep_head)
  moreover have "zlast s = Some e \<longleftrightarrow> vs = []"
    using r ds e(2) last_entryD [of vs e] by (cases "vs = []") (auto simp: last_entry_append last_entry_Cons)
  ultimately show thesis using that ds e by blast
qed

lemma is_set_member:
  assumes "zrep s ds" "e \<in> fst ` set ds"
  shows "is_set s e"
proof -
  obtain us d vs where h: "ds = us @ (e, d) # vs" "znext s e = first_entry vs" "zlast s = Some e \<longleftrightarrow> vs = []"
    using zrep_split [OF assms] by blast
  have "zhead s \<noteq> None" using assms(1) h(1) by (cases us) (auto simp: zrep_def)
  with h(2,3) show ?thesis by (auto simp: is_set_def first_entry_def)
qed

lemma del_entry_spec:
  assumes rep: "zrep s ds" and set: "is_set s e"
  shows "\<exists>s'. del_entry_from_list e s = Some s' \<and> zrep s' (ddel e ds) \<and> list_only s s'"
proof (cases "e \<in> fst ` set ds")
  case False
  then show ?thesis using del_loop_misses [of s None ds e] rep set
    by (auto simp: del_entry_from_list_def zrep_def ddel_absent)
next
  case True
  then obtain us d vs where ds: "ds = us @ (e, d) # vs" "e \<notin> fst ` set us" "e \<notin> fst ` set vs" "znext s e = first_entry vs"
    "zlast s = Some e \<longleftrightarrow> vs = []" using zrep_split [OF rep] by blast
  note r = rep [unfolded zrep_def ds(1)]
  have "del_loop e None s = Some (del_at e (last_entry us) s)"
    using del_loop_finds [of s None us e d vs] r ds(2) by (cases "us = []") auto
  moreover have ne: "last_entry us \<noteq> Some e" "first_entry vs \<noteq> Some e" using ds(2,3) first_entryD [of vs e] last_entryD [of us e] by auto
  let ?s = "s\<lparr>znext := (unsplice_next us vs (znext s))(e := None), zoff := unsplice_off (zoff s e) vs (zoff s),
    zhead := (case last_entry us of None \<Rightarrow> first_entry vs | Some _ \<Rightarrow> zhead s), zlast := (if vs = [] then last_entry us else zlast s)\<rparr>"
  have "del_at e (last_entry us) s = ?s"
    using ds(4,5) ne by (cases "last_entry us"; cases vs)
      (auto simp: del_at_def set_off_def unsplice_next_def unsplice_off_def Let_def fun_upd_twist)
  moreover have "dl_rep (unsplice_next us vs (znext s)) (zoff ?s) (zhead ?s) (ddel e ds)"
    using dl_unsplice [of "znext s" "zoff s" "zhead s" us e d vs] r ddel_cut [OF ds(2)] ds(1) by simp
  then have "dl_rep (znext ?s) (zoff ?s) (zhead ?s) (ddel e ds)"
    using r ds(1) by (elim dl_rep_cong) auto
  moreover have "last_entry (ddel e ds) = (if vs = [] then last_entry us else last_entry ds)"
    unfolding ds(1) ddel_cut [OF ds(2)] using last_entry_lengthen [of d vs]
    by (cases vs) (auto simp: last_entry_append last_entry_Cons)
  moreover have "distinct (map fst (ddel e ds))" using r ds(1) by simp
  moreover have "dsum (ddel e ds) < 2 ^ 32" using dsum_ddel [of e ds] r ds(1) by simp
  ultimately have "zrep ?s (ddel e ds)" "del_entry_from_list e s = Some ?s" using r set ds(1) by (simp_all add: zrep_def del_entry_from_list_def)
  moreover have "list_only s ?s" by (rule list_onlyI) simp
  ultimately show ?thesis by blast
qed

text \<open>The list of a clock is a queue of deadlines.\<close>

definition arm :: "nat \<Rightarrow> u32 \<Rightarrow> 'w zclock \<Rightarrow> 'w zclock option" where
  "arm e v s = add_entry_to_list e (set_off e v s)"

definition disarm :: "nat \<Rightarrow> 'w zclock \<Rightarrow> 'w zclock option" where
  "disarm e s = (if is_set s e then del_entry_from_list e s else Some s)"

lemma zrep_off: "zrep s ds \<Longrightarrow> e \<notin> fst ` set ds \<Longrightarrow> zrep (set_off e v s) ds"
  unfolding zrep_def set_off_def by (auto elim!: dl_rep_cong)

lemma disarm_spec:
  assumes "zrep s ds"
  shows "\<exists>s'. disarm e s = Some s' \<and> zrep s' (ddel e ds) \<and> list_only s s'"
proof (cases "is_set s e")
  case True
  then show ?thesis using del_entry_spec [OF assms] by (simp add: disarm_def)
next
  case False
  then have "e \<notin> fst ` set ds" using is_set_member [OF assms] by blast
  with False assms show ?thesis by (simp add: disarm_def ddel_absent)
qed

lemma arm_spec:
  assumes "zrep s ds" "e \<notin> fst ` set ds"
  shows "\<exists>s'. arm e v s = Some s' \<and> zrep s' (dins e (unat v) ds) \<and> list_only (set_off e v s) s'"
  using add_entry_spec [OF zrep_off [OF assms] assms(2), of v] by (simp add: arm_def set_off_def)

interpretation zlist: deadline_queue zrep arm disarm
  by unfold_locales (use arm_spec disarm_spec in \<open>auto simp: zrep_def\<close>, blast+)

text \<open>Advancing the list to the present.\<close>

lemma skip_zero_spec:
  "dl_rep (znext s) (zoff s) p ys \<Longrightarrow>
   \<exists>zs vs. ys = zs @ vs \<and> (\<forall>c\<in>set zs. snd c = 0) \<and> (vs = [] \<or> snd (hd vs) \<noteq> 0) \<and> skip_zero p s = Some (first_entry vs)"
proof (induction ys arbitrary: p)
  case Nil
  then show ?case by (intro exI [of _ "[]"]) (subst skip_zero.simps, simp)
next
  case (Cons c ys)
  obtain a d where c: "c = (a, d)" by force
  have h: "p = Some a" "unat (zoff s a) = d" "dl_rep (znext s) (zoff s) (znext s a) ys" using Cons.prems c by auto
  show ?case
  proof (cases "d = 0")
    case True
    then have z: "zoff s a = 0" using h(2) by (simp add: unat_eq_zero)
    obtain zs vs where "ys = zs @ vs" "\<forall>c\<in>set zs. snd c = 0" "vs = [] \<or> snd (hd vs) \<noteq> 0" "skip_zero (znext s a) s = Some (first_entry vs)"
      using Cons.IH [OF h(3)] by blast
    then show ?thesis using h(1) z True c by (intro exI [of _ "c # zs"] exI [of _ vs]) (subst skip_zero.simps, auto)
  next
    case False
    then have "zoff s a \<noteq> 0" using h(2) by auto
    then show ?thesis using h(1) False c by (intro exI [of _ "[]"] exI [of _ "c # ys"]) (subst skip_zero.simps, auto)
  qed
qed

lemma dadv_zeros: "\<forall>c\<in>set zs. snd c = 0 \<Longrightarrow> 0 < n \<Longrightarrow> dadv n (zs @ vs) = zs @ dadv n vs"
  by (induction zs) auto

lemma update_loop_spec:
  "\<lbrakk>dl_rep (znext s) (zoff s) (Some e) ys; distinct (map fst ys)\<rbrakk> \<Longrightarrow>
   \<exists>off. update_loop diff e s = Some (s\<lparr>zoff := off\<rparr>) \<and> dl_rep (znext s) off (Some e) (dadv (unat diff) ys) \<and>
     (\<forall>a. a \<notin> fst ` set ys \<longrightarrow> off a = zoff s a)"
proof (induction ys arbitrary: e diff s rule: length_induct)
  case (1 ys)
  obtain d ys1 where ys: "ys = (e, d) # ys1" using "1.prems"(1) by (cases ys) auto
  have h: "unat (zoff s e) = d" "dl_rep (znext s) (zoff s) (znext s e) ys1" "e \<notin> fst ` set ys1" "distinct (map fst ys1)"
    using "1.prems" ys by auto
  show ?case
  proof (cases "unat diff \<le> d")
    case True
    define off where "off = (zoff s)(e := zoff s e - diff)"
    have "update_loop diff e s = Some (s\<lparr>zoff := off\<rparr>)"
      using True h(1) by (subst update_loop.simps) (simp add: word_le_nat_alt set_off_def off_def)
    moreover have "dl_rep (znext s) off (znext s e) ys1" using h(3) by (intro dl_rep_cong [OF h(2)]) (auto simp: off_def)
    moreover have "unat (off e) = d - unat diff" "\<forall>a. a \<noteq> e \<longrightarrow> off a = zoff s a"
      using True h(1) by (simp_all add: unat_sub word_le_nat_alt off_def)
    ultimately show ?thesis using ys True by (intro exI [of _ off]) simp
  next
    case False
    let ?d = "diff - zoff s e" and ?s = "s\<lparr>zoff := (zoff s)(e := 0)\<rparr>"
    have ud: "unat ?d = unat diff - d" "?d \<noteq> 0" using False h(1) by (auto simp: unat_sub word_le_nat_alt)
    have r1: "dl_rep (znext ?s) (zoff ?s) (znext s e) ys1" using h(3) by (simp, intro dl_rep_cong [OF h(2)]) auto
    obtain zs vs where z: "ys1 = zs @ vs" "\<forall>c\<in>set zs. snd c = 0" "vs = [] \<or> snd (hd vs) \<noteq> 0" "skip_zero (znext s e) ?s = Some (first_entry vs)"
      using skip_zero_spec [OF r1] by auto
    have step: "update_loop diff e s = (case first_entry vs of Some e \<Rightarrow> update_loop ?d e ?s | None \<Rightarrow> Some ?s)"
      using False h(1) ud(2) z(4) by (subst update_loop.simps) (simp add: word_le_nat_alt set_off_def split: option.split)
    have adv: "dadv (unat diff) ys = (e, 0) # zs @ dadv (unat ?d) vs"
      using False ys z(1) dadv_zeros [OF z(2), of "unat ?d" vs] ud by simp
    show ?thesis
    proof (cases vs)
      case Nil
      then have "update_loop diff e s = Some (s\<lparr>zoff := zoff ?s\<rparr>)" using step by simp
      moreover have "dl_rep (znext s) (zoff ?s) (Some e) (dadv (unat diff) ys)" unfolding adv using r1 z(1) Nil by simp
      moreover have "\<forall>a. a \<notin> fst ` set ys \<longrightarrow> zoff ?s a = zoff s a" using ys by simp
      ultimately show ?thesis by blast
    next
      case (Cons c vs')
      obtain b k where c: "c = (b, k)" by force
      have rv: "dl_seg (znext ?s) (zoff ?s) (znext s e) zs (Some b)" "dl_rep (znext ?s) (zoff ?s) (Some b) vs" "distinct (map fst vs)" "length vs < length ys"
        using r1 z(1) Cons c h(4) ys by (auto simp: dl_rep_seg dl_seg_append)
      obtain off where off: "update_loop ?d b ?s = Some (?s\<lparr>zoff := off\<rparr>)" "dl_rep (znext ?s) off (Some b) (dadv (unat ?d) vs)"
          "\<forall>a. a \<notin> fst ` set vs \<longrightarrow> off a = zoff ?s a"
        using "1.IH" rv(2-4) by blast
      have "dl_seg (znext ?s) off (znext s e) zs (Some b)"
      proof (rule dl_seg_cong [OF rv(1)], intro ballI conjI)
        fix a assume "a \<in> set (map fst zs)"
        then have "a \<notin> fst ` set vs" using h(4) z(1) by auto
        then show "off a = zoff ?s a" using off(3) by blast
      qed simp
      moreover have "off e = 0" using off(3) h(3) z(1) by auto
      ultimately have "dl_rep (znext s) off (Some e) (dadv (unat diff) ys)"
        unfolding adv using off(2) by (auto simp: dl_rep_seg dl_seg_append)
      moreover have "update_loop diff e s = Some (s\<lparr>zoff := off\<rparr>)" using step off(1) Cons c by simp
      moreover have "\<forall>a. a \<notin> fst ` set ys \<longrightarrow> off a = zoff s a" using off(3) ys z(1) by auto
      ultimately show ?thesis by blast
    qed
  qed
qed

section \<open>Operations on a clock\<close>

text \<open>A clock in order at base time \<open>tb\<close>, whose list stands for the deadlines \<open>deadlines tb ds\<close>.\<close>

definition z_inv :: "(nat \<Rightarrow> nat) \<Rightarrow> (nat \<Rightarrow> u32) \<Rightarrow> nat \<Rightarrow> 'w zclock \<Rightarrow> (nat \<times> nat) list \<Rightarrow> bool" where
  "z_inv T clk tb s ds \<longleftrightarrow> zrep s ds \<and> zbase s = of_nat tb \<and> (\<exists>t. clock_ok T clk t s) \<and> tb \<le> T (zreads s) \<and> T (zreads s) - tb < 2 ^ 32"

definition keeps :: "'w zclock \<Rightarrow> 'w zclock \<Rightarrow> bool" where
  "keeps s s' \<longleftrightarrow> adjust_set s' = adjust_set s \<and> max_value s' = max_value s \<and> alarm s' = alarm s \<and> zenv s' = zenv s"

lemma keeps_trans: "keeps s s' \<Longrightarrow> keeps s' s'' \<Longrightarrow> keeps s s''"
  by (simp add: keeps_def)

lemma list_only_keeps: "list_only s s' \<Longrightarrow> keeps s s'"
  by (simp add: keeps_def list_only_simps)

lemma z_inv_list_only:
  "z_inv T clk tb s ds \<Longrightarrow> list_only s s' \<Longrightarrow> zrep s' ds' \<Longrightarrow> z_inv T clk tb s' ds'"
  by (auto simp: z_inv_def list_only_simps)

lemma unat_elapsed: "t \<le> t' \<Longrightarrow> t' - t < 2 ^ 32 \<Longrightarrow> unat ((of_nat t' :: u32) - of_nat t) = t' - t"
  by (simp add: unat_of_nat flip: of_nat_diff)

lemma zrep_cong:
  "zrep s ds \<Longrightarrow> znext s' = znext s \<Longrightarrow> zoff s' = zoff s \<Longrightarrow> zhead s' = zhead s \<Longrightarrow> zlast s' = zlast s \<Longrightarrow> zrep s' ds"
  by (simp add: zrep_def)

lemma last_entry_map: "map fst xs = map fst ys \<Longrightarrow> last_entry xs = last_entry ys"
  by (metis last_entry_def last_map map_is_Nil_conv)

lemma update_head_spec:
  assumes inv: "z_inv T clk tb s ds"
  shows "\<exists>s'. ztimer_update_head_offset clk s = Some s' \<and> z_inv T clk (T (zreads s)) s' (dadv (T (zreads s) - tb) ds) \<and>
     zreads s' = Suc (zreads s) \<and> keeps s s' \<and> znext s' = znext s \<and> zhead s' = zhead s \<and> zlast s' = zlast s"
proof -
  note i = inv [unfolded z_inv_def]
  let ?now = "T (zreads s)"
  obtain t where t: "clock_ok T clk t s" using i by blast
  obtain l c where lc: "ztimer_now clk s = Some (of_nat ?now, s\<lparr>zreads := Suc (zreads s), lower_last := l, checkpoint := c\<rparr>)"
     "clock_ok T clk ?now (s\<lparr>zreads := Suc (zreads s), lower_last := l, checkpoint := c\<rparr>)"
    using ztimer_now_spec [OF t] by blast
  let ?s = "s\<lparr>zreads := Suc (zreads s), lower_last := l, checkpoint := c\<rparr>" and ?diff = "of_nat ?now - zbase s"
  have d: "unat ?diff = ?now - tb" using i by (simp add: unat_elapsed)
  have rep: "dl_rep (znext s) (zoff s) (zhead s) ds" "distinct (map fst ds)" using i by (auto simp: zrep_def)
  obtain off where off: "(case zhead s of Some e \<Rightarrow> update_loop ?diff e ?s | None \<Rightarrow> Some ?s) = Some (?s\<lparr>zoff := off\<rparr>)"
      "dl_rep (znext s) off (zhead s) (dadv (?now - tb) ds)"
  proof (cases "zhead s")
    case None
    then have "ds = []" using rep(1) by (cases ds) auto
    then show thesis using None rep(1) by (intro that [of "zoff s"]) simp_all
  next
    case (Some e)
    then show thesis using update_loop_spec [of ?s e ds ?diff] rep d that by auto
  qed
  let ?s' = "?s\<lparr>zoff := off, zbase := of_nat ?now\<rparr>"
  have "ztimer_update_head_offset clk s = Some ?s'" using lc(1) off(1) by (simp add: ztimer_update_head_offset_def)
  moreover have "last_entry (dadv (?now - tb) ds) = last_entry ds" by (rule last_entry_map) simp
  then have "zrep ?s' (dadv (?now - tb) ds)" using off(2) i by (auto simp: zrep_def dsum_dadv)
  moreover have "clock_ok T clk ?now ?s'" using lc(2) by (simp add: clock_ok_def)
  moreover have "?now \<le> T (Suc (zreads s))" "T (Suc (zreads s)) - ?now < 2 ^ 32"
    using t unsigned_less [of "max_value s"] unfolding clock_ok_def by (auto intro: le_less_trans)
  ultimately show ?thesis by (intro exI [of _ ?s']) (auto simp: z_inv_def keeps_def)
qed

lemma z_inv_off: "z_inv T clk tb s ds \<Longrightarrow> e \<notin> fst ` set ds \<Longrightarrow> z_inv T clk tb (set_off e v s) ds"
proof (rule z_inv_list_only)
  assume h: "z_inv T clk tb s ds" "e \<notin> fst ` set ds"
  then have "dl_rep (znext s) (zoff s) (zhead s) ds" by (simp add: z_inv_def zrep_def)
  then have "dl_rep (znext s) ((zoff s)(e := v)) (zhead s) ds" by (rule dl_rep_cong) (use h(2) in auto)
  with h(1) show "zrep (set_off e v s) ds" by (simp add: z_inv_def zrep_def set_off_def)
  show "list_only s (set_off e v s)"
    by (rule list_onlyI [where nx = "znext s" and h = "zhead s" and l = "zlast s"]) (simp add: set_off_def)
qed

text \<open>The deadlines after an operation at time \<open>now\<close>: what is overdue counts as due now.\<close>

definition overdue_now :: "nat \<Rightarrow> ('a \<times> nat) list \<Rightarrow> ('a \<times> nat) list" where
  "overdue_now now = map (\<lambda>(a, x). (a, max x now))"

lemma deadlines_advanced: "tb \<le> now \<Longrightarrow> deadlines now (dadv (now - tb) ds) = overdue_now now (deadlines tb ds)"
  using deadlines_dadv [of tb "now - tb" ds] by (simp add: overdue_now_def)

definition next_alarm :: "'w zclock \<Rightarrow> nat \<Rightarrow> nat" where
  "next_alarm s n = (if max_value s < UINT32_MAX then min n (unat (max_value s) div 2) else n)"

lemma unat_u16: "unat (ucast (a :: u16) :: u32) = unat a"
proof -
  have "unat a < 2 ^ LENGTH(16)" by (rule unsigned_less)
  then have "unat a < 2 ^ 32" by simp
  then show ?thesis by (simp add: unsigned_ucast_eq take_bit_nat_eq_self)
qed

lemma unat_min_u32: "unat (min_u32 a b) = min (unat a) (unat b)"
  by (simp add: min_u32_def word_less_nat_alt min_def)

text \<open>Setting a timer on the level of the delta list.\<close>

lemma ztimer_set_spec:
  assumes "z_inv T clk tb s ds" and "now = T (zreads s)"
    and ds': "ds' = dins timer (unat val - unat (adjust_set s)) (ddel timer (dadv (now - tb) ds))"
  shows "\<exists>s'. ztimer_set clk timer val s = Some s' \<and> z_inv T clk now s' ds' \<and> zreads s' = Suc (zreads s) \<and> zenv s' = zenv s \<and> max_value s' = max_value s \<and>
     (if fst (hd ds') = timer then map_option unat (alarm s') = Some (next_alarm s (unat val - unat (adjust_set s))) else alarm s' = alarm s)"
proof -
  let ?ds = "dadv (now - tb) ds" and ?v = "unat val - unat (adjust_set s)"
  obtain s1 where s1: "ztimer_update_head_offset clk s = Some s1" "z_inv T clk now s1 ?ds" "zreads s1 = Suc (zreads s)" "keeps s s1"
    using update_head_spec [OF assms(1)] assms(2) by blast
  have dist: "distinct (map fst ?ds)" using s1(2) by (simp add: z_inv_def zrep_def)
  obtain s2 where s2: "(if is_set s1 timer then del_entry_from_list timer s1 else Some s1) = Some s2" "zrep s2 (ddel timer ?ds)" "list_only s1 s2"
    using disarm_spec [of s1 ?ds timer] s1(2) by (auto simp: disarm_def z_inv_def)
  have i2: "z_inv T clk now s2 (ddel timer ?ds)" by (rule z_inv_list_only [OF s1(2) s2(3,2)])
  have new: "timer \<notin> fst ` set (ddel timer ?ds)" by (rule ddel_removes [OF dist])
  define w where "w = (if val > ucast (adjust_set s2) then val - ucast (adjust_set s2) else 0)"
  have adj: "adjust_set s2 = adjust_set s" "max_value s2 = max_value s" "alarm s2 = alarm s" "zenv s2 = zenv s" "zreads s2 = Suc (zreads s)"
    using s1(3,4) list_only_simps [OF s2(3)] by (auto simp: keeps_def)
  have w: "unat w = ?v"
    by (auto simp: w_def adj word_less_nat_alt unat_sub word_le_nat_alt unat_u16)
  let ?s3 = "set_off timer w s2"
  have i3: "z_inv T clk now ?s3 (ddel timer ?ds)" by (rule z_inv_off [OF i2 new])
  then obtain s4 where s4: "add_entry_to_list timer ?s3 = Some s4" "zrep s4 (dins timer (unat w) (ddel timer ?ds))" "list_only ?s3 s4"
    using add_entry_spec [OF _ new, of ?s3] by (auto simp: z_inv_def set_off_def)
  let ?ds' = "dins timer (unat w) (ddel timer ?ds)"
  have i4: "z_inv T clk now s4 ?ds'" by (rule z_inv_list_only [OF i3 s4(3,2)])
  have "zhead s4 = first_entry ?ds'" using s4(2) dl_rep_head by (auto simp: zrep_def)
  moreover have "?ds' \<noteq> []" using fst_dins [of timer "unat w" "ddel timer ?ds"] by (metis empty_iff image_empty insertI1 list.set(1))
  ultimately have hd: "zhead s4 = Some timer \<longleftrightarrow> fst (hd ?ds') = timer" by (simp add: first_entry_def)
  have k4: "max_value s4 = max_value s" "alarm s4 = alarm s" "zenv s4 = zenv s" "zreads s4 = Suc (zreads s)"
    using adj list_only_simps [OF s4(3)] by (auto simp: set_off_def)
  define s5 where "s5 = (if zhead s4 = Some timer then ops_set (if max_value s4 < UINT32_MAX then min_u32 w (drop_bit 1 (max_value s4)) else w) s4 else s4)"
  have "ztimer_set clk timer val s = Some s5"
    using s1(1) s2(1) s4(1) by (simp add: ztimer_set_def w_def s5_def Let_def)
  moreover have "z_inv T clk now s5 ?ds'" "zreads s5 = Suc (zreads s)" "zenv s5 = zenv s" "max_value s5 = max_value s"
    using i4 k4 by (auto simp: s5_def ops_set_def z_inv_def zrep_def clock_ok_def)
  moreover have "if fst (hd ?ds') = timer then map_option unat (alarm s5) = Some (next_alarm s ?v) else alarm s5 = alarm s"
    using hd k4 w by (simp add: s5_def ops_set_def next_alarm_def unat_min_u32 unat_drop_bit_div)
  ultimately show ?thesis using ds' w by auto
qed

text \<open>
  (C20) Setting a timer: \<open>ztimer_set\<close> reads the time once and afterwards the timer is armed exactly once, for \<open>val\<close> ticks
  (less the adjustment of the clock) after that moment, whether or not it was armed before and across overflow of the
  32-bit time; it comes behind all timers that are due at the same time or earlier. The deadlines and the order of all other timers
  are unchanged, where one that is overdue counts as due now. If the timer is now the first one, the alarm is set for it, or for half the
  range of the counter when that is nearer; otherwise the alarm is unchanged.
\<close>
theorem ztimer_set_deadlines:
  assumes "z_inv T clk tb s ds" and "now = T (zreads s)"
  shows "\<exists>s' ds'. ztimer_set clk timer val s = Some s' \<and> z_inv T clk now s' ds' \<and> zreads s' = Suc (zreads s) \<and> zenv s' = zenv s \<and>
     deadlines now ds' = place timer (now + (unat val - unat (adjust_set s))) (without timer (overdue_now now (deadlines tb ds))) \<and>
     (if fst (hd ds') = timer then map_option unat (alarm s') = Some (next_alarm s (unat val - unat (adjust_set s))) else alarm s' = alarm s)"
proof -
  let ?ds = "dadv (now - tb) ds" and ?v = "unat val - unat (adjust_set s)"
  have "distinct (map fst ?ds)" using assms(1) by (simp add: z_inv_def zrep_def)
  then have "deadlines now (dins timer ?v (ddel timer ?ds)) = place timer (now + ?v) (without timer (overdue_now now (deadlines tb ds)))"
    using assms deadlines_advanced [of tb now ds] by (simp add: deadlines_dins without_deadlines z_inv_def)
  with ztimer_set_spec [OF assms refl, of timer val] show ?thesis by blast
qed

lemma unset_clock: "(\<And>n. unat (clk n) = T n mod 2 ^ 32) \<Longrightarrow> (\<And>n. T n \<le> T (Suc n) \<and> T (Suc n) - T n \<le> 2 ^ 32 - 1) \<Longrightarrow> max_value s = UINT32_MAX \<Longrightarrow>
   t \<le> T (zreads s) \<Longrightarrow> T (zreads s) - t \<le> 2 ^ 32 - 1 \<Longrightarrow> clock_ok T clk t s"
  using unat_max by (auto simp: clock_ok_def word_less_nat_alt)

lemma unat_counter: "unat (of_nat n :: u32) = n mod 2 ^ 32"
  by (metis unat_of_nat len_of_u32)

definition idle_clock :: "(nat \<times> nat) list zclock" where
  "idle_clock = \<lparr>znext = (\<lambda>_. None), zoff = (\<lambda>_. 0), zhead = None, zbase = 0, zlast = None, adjust_set = 0,
     max_value = UINT32_MAX, lower_last = 0, checkpoint = 0, alarm = None, zreads = 0, zenv = []\<rparr>"

theorem ztimer_set_deadlines_witness:
  "\<exists>s' ds'. ztimer_set (\<lambda>n. of_nat (5 + n)) 7 100 idle_clock = Some s' \<and> deadlines 5 ds' = [(7 :: nat, 105)] \<and> map_option unat (alarm s') = Some 100"
proof -
  have "clock_ok (\<lambda>n. 5 + n) (\<lambda>n. of_nat (5 + n)) 0 idle_clock"
    by (rule unset_clock, rule unat_counter) (simp_all add: idle_clock_def)
  then have "z_inv (\<lambda>n. 5 + n) (\<lambda>n. of_nat (5 + n)) 0 idle_clock []" by (auto simp: z_inv_def zrep_def idle_clock_def)
  from ztimer_set_deadlines [OF this, of 5 7 100] obtain s' ds' where s': "ztimer_set (\<lambda>n. of_nat (5 + n)) 7 100 idle_clock = Some s'"
     "deadlines 5 ds' = [(7 :: nat, 105)]"
     "if fst (hd ds') = 7 then map_option unat (alarm s') = Some (next_alarm idle_clock (unat (100 :: u32) - unat (adjust_set idle_clock))) else alarm s' = alarm idle_clock"
    by (auto simp: idle_clock_def place_def without_def overdue_now_def)
  have "map fst ds' = [7]" using deadlines_fst [of 5 ds'] s'(2) by simp
  then have "fst (hd ds') = 7" by auto
  with s' show ?thesis by (auto simp: next_alarm_def idle_clock_def)
qed

section \<open>The interrupt handler\<close>

text \<open>Callbacks that leave the clock alone; what they do to their own state may depend on the timer and on how often the clock was read.\<close>

definition quiet :: "(nat \<Rightarrow> nat \<Rightarrow> 'w \<Rightarrow> 'w) \<Rightarrow> nat \<Rightarrow> 'w zclock \<Rightarrow> 'w zclock option" where
  "quiet f e s = Some (s\<lparr>zenv := f e (zreads s) (zenv s)\<rparr>)"

lemma now_next_spec:
  assumes "z_inv T clk tb s ds"
  shows "case ds of
      (b, 0) # ds' \<Rightarrow> (\<exists>h l. now_next s = (Some b, s\<lparr>zhead := h, zlast := l\<rparr>) \<and> z_inv T clk tb (s\<lparr>zhead := h, zlast := l\<rparr>) ds')
    | _ \<Rightarrow> now_next s = (None, s)"
proof (cases ds)
  case Nil
  then show ?thesis using assms by (simp add: now_next_def z_inv_def zrep_def)
next
  case (Cons c ds')
  obtain b d where c: "c = (b, d)" by force
  have h: "zhead s = Some b" "unat (zoff s b) = d" "dl_rep (znext s) (zoff s) (znext s b) ds'" "zlast s = last_entry ds"
    using assms Cons c by (auto simp: z_inv_def zrep_def)
  show ?thesis
  proof (cases "d = 0")
    case True
    let ?l = "if znext s b = None then None else zlast s"
    have "zoff s b = 0" using h(2) True by (simp add: unat_eq_zero)
    then have "now_next s = (Some b, s\<lparr>zhead := znext s b, zlast := ?l\<rparr>)" using h(1) by (simp add: now_next_def Let_def)
    moreover have "znext s b = first_entry ds'" using h(3) by (rule dl_rep_head)
    then have "?l = last_entry ds'" using h(4) Cons c by (auto simp: first_entry_def last_entry_Cons)
    then have "z_inv T clk tb (s\<lparr>zhead := znext s b, zlast := ?l\<rparr>) ds'"
      using assms h(3) Cons c by (auto simp: z_inv_def zrep_def clock_ok_def)
    ultimately have "\<exists>h l. now_next s = (Some b, s\<lparr>zhead := h, zlast := l\<rparr>) \<and> z_inv T clk tb (s\<lparr>zhead := h, zlast := l\<rparr>) ds'" by blast
    then show ?thesis using Cons c True by simp
  next
    case False
    then have "zoff s b \<noteq> 0" using h(2) by auto
    then show ?thesis using h(1) Cons c False by (cases d) (simp_all add: now_next_def)
  qed
qed

lemma now_next_none:
  assumes "z_inv T clk tb s ds" "\<nexists>b ds'. ds = (b, 0) # ds'"
  shows "now_next s = (None, s)"
proof (cases ds)
  case (Cons c ds')
  then obtain b d where "ds = (b, Suc d) # ds'" using assms(2) by (cases c; cases "snd c") auto
  then show ?thesis using now_next_spec [OF assms(1)] by simp
qed (use now_next_spec [OF assms(1)] in simp)

text \<open>
  What a run of the loop leaves: the timers of \<open>L\<close> fired, with the number of reads at that moment, none before it was due;
  \<open>ds'\<close> are left, none of them due at the time \<open>tb'\<close> of the last read.
\<close>

definition on_time :: "(nat \<Rightarrow> nat) \<Rightarrow> nat \<Rightarrow> nat \<Rightarrow> nat \<times> nat \<Rightarrow> nat \<times> nat \<Rightarrow> bool" where
  "on_time T tb r0 c l \<longleftrightarrow> fst c = fst l \<and> snd c \<le> (if snd l = r0 then tb else T (snd l - 1)) \<and> r0 \<le> snd l"

definition shots :: "(nat \<Rightarrow> nat) \<Rightarrow> nat \<Rightarrow> nat \<Rightarrow> (nat \<times> nat) list \<Rightarrow> (nat \<times> nat) list \<Rightarrow> (nat \<times> nat) list \<Rightarrow> bool" where
  "shots T tb r0 xs L rest \<longleftrightarrow> (\<exists>D. xs = D @ rest \<and> list_all2 (on_time T tb r0) D L)"

definition fired ::
  "(nat \<Rightarrow> nat) \<Rightarrow> (nat \<Rightarrow> u32) \<Rightarrow> nat \<Rightarrow> 'w zclock \<Rightarrow> (nat \<times> nat) list \<Rightarrow> (nat \<times> nat) list \<Rightarrow> nat \<Rightarrow> (nat \<times> nat) list \<Rightarrow> 'w zclock \<Rightarrow> bool" where
  "fired T clk tb s ds L tb' ds' s' \<longleftrightarrow>
     z_inv T clk tb' s' ds' \<and> tb' = T (zreads s' - 1) \<and> zreads s \<le> zreads s' \<and> adjust_set s' = adjust_set s \<and> max_value s' = max_value s \<and>
     shots T tb (zreads s) (deadlines tb ds) L (deadlines tb' ds') \<and> (\<forall>c\<in>set (deadlines tb' ds'). tb' < snd c)"

lemma shots_step: "shots T tb r xs L ys \<Longrightarrow> shots T tb r ((b, tb) # xs) ((b, r) # L) ys"
  unfolding shots_def by (elim exE conjE, rule_tac x = "(b, tb) # D" in exI) (simp add: on_time_def)

lemma T_mono:
  assumes "z_inv T clk tb s ds" "m \<le> n"
  shows "T m \<le> T n"
proof -
  have "\<And>n. T n \<le> T (Suc n)" using assms(1) by (auto simp: z_inv_def clock_ok_def)
  then show ?thesis using lift_Suc_mono_le [of T] assms(2) by blast
qed

lemma overdue_split:
  assumes "overdue_now n xs = A @ B" "\<forall>c\<in>set B. n < snd c"
  shows "\<exists>A'. xs = A' @ B \<and> overdue_now n A' = A"
proof -
  have xs: "xs = take (length A) xs @ drop (length A) xs" by simp
  have A: "overdue_now n (take (length A) xs) = A" using arg_cong [OF assms(1), of "take (length A)"] by (simp add: overdue_now_def take_map)
  have "overdue_now n (drop (length A) xs) = B" using arg_cong [OF assms(1), of "drop (length A)"] by (simp add: overdue_now_def drop_map)
  moreover have "overdue_now n ys = B \<Longrightarrow> ys = B" for ys
    using assms(2) by (induction ys arbitrary: B) (auto simp: overdue_now_def max_def split: if_splits)
  ultimately show ?thesis using xs A by metis
qed

lemma fired_step:
  assumes "fired T clk tb s ds L tb' ds' s'" "zreads t = zreads s" "adjust_set t = adjust_set s" "max_value t = max_value s"
  shows "fired T clk tb t ((b, 0) # ds) ((b, zreads t) # L) tb' ds' s'"
  using assms shots_step [of T tb "zreads s" "deadlines tb ds" L "deadlines tb' ds'" b] unfolding fired_def by auto

text \<open>The same across an update of the list at the time \<open>T (zreads t)\<close>.\<close>

lemma fired_update:
  assumes f: "fired T clk (T (zreads t)) s (dadv (T (zreads t) - tb) ds) L tb' ds' s'" and inv: "z_inv T clk tb t ds"
    and t: "zreads s = Suc (zreads t)" "adjust_set s = adjust_set t" "max_value s = max_value t"
  shows "fired T clk tb t ds L tb' ds' s'"
proof -
  let ?n = "T (zreads t)"
  obtain D where D: "deadlines ?n (dadv (?n - tb) ds) = D @ deadlines tb' ds'" "list_all2 (on_time T ?n (zreads s)) D L"
    using f unfolding fired_def shots_def by blast
  have tb': "tb' = T (zreads s' - 1)" "zreads s \<le> zreads s'" "\<forall>c\<in>set (deadlines tb' ds'). tb' < snd c" using f unfolding fired_def by blast+
  have "?n \<le> tb'" unfolding tb'(1) by (rule T_mono [OF inv]) (use tb'(2) t(1) in simp)
  then have "\<forall>c\<in>set (deadlines tb' ds'). ?n < snd c" using tb'(3) by fastforce
  moreover have "overdue_now ?n (deadlines tb ds) = D @ deadlines tb' ds'"
    using D(1) deadlines_advanced [of tb ?n ds] inv by (simp add: z_inv_def)
  ultimately obtain D' where D': "deadlines tb ds = D' @ deadlines tb' ds'" "overdue_now ?n D' = D" using overdue_split by blast
  have "list_all2 (on_time T tb (zreads t)) D' L"
    using D(2) unfolding D'(2) [symmetric] overdue_now_def list_all2_map1
    by (rule list_all2_mono) (auto simp: on_time_def t(1) split: if_splits prod.splits)
  with D'(1) have "shots T tb (zreads t) (deadlines tb ds) L (deadlines tb' ds')" unfolding shots_def by blast
  with f t show ?thesis unfolding fired_def by auto
qed

lemma fired_none:
  assumes "z_inv T clk tb s ds" "\<nexists>b ds'. ds = (b, 0) # ds'" "tb = T (zreads s - 1)"
  shows "fired T clk tb s ds [] tb ds s"
proof -
  have "\<forall>c\<in>set (deadlines tb ds). tb < snd c"
  proof (cases ds)
    case (Cons c ds')
    then obtain b d where "ds = (b, Suc d) # ds'" using assms(2) by (cases c; cases "snd c") auto
    then show ?thesis using deadlines_ge [of _ _ "tb + Suc d" ds'] by fastforce
  qed simp
  moreover have "shots T tb (zreads s) (deadlines tb ds) [] (deadlines tb ds)" by (simp add: shots_def)
  ultimately show ?thesis using assms unfolding fired_def by simp
qed

lemma fire_loop_spec:
  "z_inv T clk tb s ds \<Longrightarrow>
   \<exists>L tb' ds' s'. fire_loop clk (quiet f) (Some e) s = Some s' \<and> fired T clk tb s ds L tb' ds' s' \<and>
     zenv s' = fold (\<lambda>(a, r). f a r) ((e, zreads s) # L) (zenv s)"
proof (induction "length ds" arbitrary: s ds tb e rule: less_induct)
  case less
  let ?s = "s\<lparr>zenv := f e (zreads s) (zenv s)\<rparr>"
  have i: "z_inv T clk tb ?s ds" using less.prems by (simp add: z_inv_def zrep_def clock_ok_def)
  have step: "fire_loop clk (quiet f) (Some e) s = (let (n, t) = now_next ?s in
      case n of Some _ \<Rightarrow> fire_loop clk (quiet f) n t
      | None \<Rightarrow> do { t \<leftarrow> ztimer_update_head_offset clk t; let (n, t) = now_next t; fire_loop clk (quiet f) n t })"
    by (subst fire_loop.simps) (simp add: quiet_def)
  show ?case
  proof (cases "\<exists>b ds1. ds = (b, 0) # ds1")
    case True
    then obtain b ds1 where ds: "ds = (b, 0) # ds1" by blast
    obtain h l where n: "now_next ?s = (Some b, ?s\<lparr>zhead := h, zlast := l\<rparr>)" "z_inv T clk tb (?s\<lparr>zhead := h, zlast := l\<rparr>) ds1"
      using now_next_spec [OF i] ds by auto
    obtain L tb' ds' s' where r: "fire_loop clk (quiet f) (Some b) (?s\<lparr>zhead := h, zlast := l\<rparr>) = Some s'"
        "fired T clk tb (?s\<lparr>zhead := h, zlast := l\<rparr>) ds1 L tb' ds' s'"
        "zenv s' = fold (\<lambda>(a, r). f a r) ((b, zreads s) # L) (zenv ?s)"
      using less.hyps [OF _ n(2), of b] ds by auto
    have "fired T clk tb s ds ((b, zreads s) # L) tb' ds' s'" unfolding ds by (rule fired_step [OF r(2)]) simp_all
    with r(1,3) n(1) step show ?thesis by (intro exI [of _ "(b, zreads s) # L"] exI [of _ tb'] exI [of _ ds'] exI [of _ s']) simp
  next
    case False
    then have n: "now_next ?s = (None, ?s)" by (rule now_next_none [OF i])
    let ?n = "T (zreads s)" and ?ds = "dadv (T (zreads s) - tb) ds"
    obtain t where t: "ztimer_update_head_offset clk ?s = Some t" "z_inv T clk ?n t ?ds" "zreads t = Suc (zreads s)" "keeps ?s t"
      using update_head_spec [OF i] by auto
    note k = t(4) [unfolded keeps_def]
    show ?thesis
    proof (cases "\<exists>b ds1. ?ds = (b, 0) # ds1")
      case True
      then obtain b ds1 where ds: "?ds = (b, 0) # ds1" by blast
      obtain h l where m: "now_next t = (Some b, t\<lparr>zhead := h, zlast := l\<rparr>)" "z_inv T clk ?n (t\<lparr>zhead := h, zlast := l\<rparr>) ds1"
        using now_next_spec [OF t(2)] ds by auto
      have len: "length ds1 < length ds" using arg_cong [OF fst_dadv [of "?n - tb" ds], of length] ds by simp
      obtain L tb' ds' s' where r: "fire_loop clk (quiet f) (Some b) (t\<lparr>zhead := h, zlast := l\<rparr>) = Some s'"
          "fired T clk ?n (t\<lparr>zhead := h, zlast := l\<rparr>) ds1 L tb' ds' s'"
          "zenv s' = fold (\<lambda>(a, r). f a r) ((b, zreads t) # L) (zenv t)"
        using less.hyps [OF len m(2), of b] by auto
      have "fired T clk ?n t ?ds ((b, zreads t) # L) tb' ds' s'" unfolding ds by (rule fired_step [OF r(2)]) simp_all
      then have "fired T clk tb s ds ((b, zreads t) # L) tb' ds' s'" by (rule fired_update [OF _ less.prems]) (use t(3) k in simp_all)
      with r(1,3) n m(1) t(1) step k show ?thesis
        by (intro exI [of _ "(b, zreads t) # L"] exI [of _ tb'] exI [of _ ds'] exI [of _ s']) simp
    next
      case False
      then have m: "now_next t = (None, t)" by (rule now_next_none [OF t(2)])
      have "fired T clk ?n t ?ds [] ?n ?ds t" by (rule fired_none [OF t(2) False]) (simp add: t(3))
      then have "fired T clk tb s ds [] ?n ?ds t" by (rule fired_update [OF _ less.prems]) (use t(3) k in simp_all)
      moreover have "fire_loop clk (quiet f) (Some e) s = Some t" using step n t(1) m by (simp add: fire_loop.simps)
      ultimately show ?thesis using k by (intro exI [of _ "[]"] exI [of _ ?n] exI [of _ ?ds] exI [of _ t]) simp
    qed
  qed
qed

lemma sint_not_pos:
  assumes "t \<le> t'" "t' \<le> t + 2 ^ 31"
  shows "\<not> 0 < sint ((of_nat t :: u32) - of_nat t')"
proof -
  have "(of_nat t :: u32) - of_nat t' = - of_nat (t' - t)" using assms(1) by (simp add: of_nat_diff)
  moreover have "sint (- (of_nat (t' - t) :: u32)) \<le> 0"
  proof -
    let ?k = "t' - t"
    have "(- (of_nat ?k) :: u32) = of_int (- int ?k)" by simp
    then have "sint (- (of_nat ?k) :: u32) = signed_take_bit 31 (- int ?k)" by (simp only: sint_sbintrunc') simp
    also have "\<dots> = - int ?k" using assms by (intro signed_take_bit_int_eq_self) auto
    finally show ?thesis by simp
  qed
  ultimately show ?thesis by simp
qed

text \<open>The handler's first test lets an alarm for a timer that is due pass.\<close>

lemma postpone_due:
  assumes rep: "zrep s ((e, d) # ds)" "zbase s = of_nat tb" and t: "clock_ok T clk t s"
    and due: "tb + d \<le> T (zreads s)" "T (zreads s) \<le> tb + d + 2 ^ 31"
  shows "\<exists>s'. postpone clk s = Some (False, s') \<and> zrep s' ((e, d) # ds) \<and> zbase s' = zbase s \<and> (\<exists>t. clock_ok T clk t s') \<and> keeps s s' \<and>
     zreads s' = (if max_value s < UINT32_MAX then Suc (zreads s) else zreads s)"
proof (cases "max_value s < UINT32_MAX")
  case True
  let ?now = "T (zreads s)"
  obtain l c where lc: "ztimer_now clk s = Some (of_nat ?now, s\<lparr>zreads := Suc (zreads s), lower_last := l, checkpoint := c\<rparr>)"
     "clock_ok T clk ?now (s\<lparr>zreads := Suc (zreads s), lower_last := l, checkpoint := c\<rparr>)"
    using ztimer_now_spec [OF t] by blast
  let ?s = "s\<lparr>zreads := Suc (zreads s), lower_last := l, checkpoint := c\<rparr>"
  have h: "zhead s = Some e" "unat (zoff s e) = d" using rep(1) by (auto simp: zrep_def)
  have "zoff s e = of_nat d" using of_unat [of "zoff s e"] h(2) by simp
  then have "zbase s + zoff s e - of_nat ?now = of_nat (tb + d) - of_nat ?now" using rep(2) by simp
  then have "\<not> 0 < sint (zbase s + zoff s e - of_nat ?now)" using sint_not_pos [OF due] by simp
  then have "postpone clk s = Some (False, ?s)" using True lc(1) h(1) by (simp add: postpone_def Let_def)
  moreover have "zrep ?s ((e, d) # ds)" using rep(1) by (simp add: zrep_def)
  moreover note lc(2)
  ultimately show ?thesis using True by (intro exI [of _ ?s]) (auto simp: keeps_def)
next
  case False
  then show ?thesis using assms by (intro exI [of _ s]) (auto simp: postpone_def keeps_def)
qed

lemma ztimer_update_alarm:
  assumes "z_inv T clk tb s ds"
  shows "z_inv T clk tb (ztimer_update s) ds" "zreads (ztimer_update s) = zreads s" "zenv (ztimer_update s) = zenv s"
    "map_option unat (alarm (ztimer_update s)) =
       (case ds of (_, d) # _ \<Rightarrow> Some (next_alarm s d) | [] \<Rightarrow> if max_value s < UINT32_MAX then Some (unat (max_value s) div 2) else None)"
proof -
  have "\<exists>al. ztimer_update s = s\<lparr>alarm := al\<rparr>"
    by (auto simp: ztimer_update_def ops_set_def ops_cancel_def split: option.split)
  then obtain al where "ztimer_update s = s\<lparr>alarm := al\<rparr>" by blast
  then show "z_inv T clk tb (ztimer_update s) ds" "zreads (ztimer_update s) = zreads s" "zenv (ztimer_update s) = zenv s"
    using assms by (simp_all add: z_inv_def zrep_def clock_ok_def)
  show "map_option unat (alarm (ztimer_update s)) =
       (case ds of (_, d) # _ \<Rightarrow> Some (next_alarm s d) | [] \<Rightarrow> if max_value s < UINT32_MAX then Some (unat (max_value s) div 2) else None)"
  proof (cases ds)
    case Nil
    then have "zhead s = None" using assms by (simp add: z_inv_def zrep_def)
    then show ?thesis using Nil by (simp add: ztimer_update_def ops_set_def ops_cancel_def unat_drop_bit_div)
  next
    case (Cons c ds')
    obtain b d where c: "c = (b, d)" by force
    then have "zhead s = Some b" "unat (zoff s b) = d" using assms Cons by (auto simp: z_inv_def zrep_def)
    then show ?thesis using Cons c by (auto simp: ztimer_update_def ops_set_def next_alarm_def unat_drop_bit_div unat_min_u32)
  qed
qed

text \<open>Removing a timer: only its deadline goes, and the alarm is set for the first timer left.\<close>

lemma ztimer_remove_deadlines:
  assumes "z_inv T clk tb s ds" "now = T (zreads s)" "is_set s timer"
  shows "\<exists>s' ds'. ztimer_remove clk timer s = Some s' \<and> z_inv T clk now s' ds' \<and> zenv s' = zenv s \<and>
     deadlines now ds' = without timer (overdue_now now (deadlines tb ds)) \<and>
     map_option unat (alarm s') = (case ds' of (_, d) # _ \<Rightarrow> Some (next_alarm s d)
       | [] \<Rightarrow> if max_value s < UINT32_MAX then Some (unat (max_value s) div 2) else None)"
proof -
  let ?ds = "dadv (now - tb) ds"
  obtain s1 where s1: "ztimer_update_head_offset clk s = Some s1" "z_inv T clk now s1 ?ds" "keeps s s1" "znext s1 = znext s" "zhead s1 = zhead s" "zlast s1 = zlast s"
    using update_head_spec [OF assms(1)] assms(2) by blast
  have set: "is_set s1 timer" using assms(3) unfolding is_set_def s1(4-6) .
  have dist: "distinct (map fst ?ds)" using s1(2) by (simp add: z_inv_def zrep_def)
  obtain s2 where s2: "del_entry_from_list timer s1 = Some s2" "zrep s2 (ddel timer ?ds)" "list_only s1 s2"
    using del_entry_spec [OF _ set] s1(2) by (auto simp: z_inv_def)
  have i2: "z_inv T clk now s2 (ddel timer ?ds)" by (rule z_inv_list_only [OF s1(2) s2(3,2)])
  note u = ztimer_update_alarm [OF i2]
  have k: "max_value s2 = max_value s" "zenv s2 = zenv s" using s1(3) list_only_simps [OF s2(3)] by (auto simp: keeps_def)
  then have a: "next_alarm s2 d = next_alarm s d" for d by (simp add: next_alarm_def)
  have "ztimer_remove clk timer s = Some (ztimer_update s2)" using assms(3) s1(1) s2(1) by (simp add: ztimer_remove_def)
  moreover have "deadlines now (ddel timer ?ds) = without timer (overdue_now now (deadlines tb ds))"
    using without_deadlines [OF dist] deadlines_advanced [of tb now ds] assms(1,2) by (simp add: z_inv_def)
  ultimately show ?thesis using u k(2) unfolding a k(1)
    by (intro exI [of _ "ztimer_update s2"] exI [of _ "ddel timer ?ds"] conjI) simp_all
qed

lemma shots_from:
  assumes "shots T tb r0 xs L rest" "r \<le> r0" "r0 \<noteq> r \<Longrightarrow> tb \<le> T (r0 - 1)"
  shows "\<exists>D. xs = D @ rest \<and> list_all2 (\<lambda>c l. fst c = fst l \<and> snd c \<le> (if snd l = r then tb else T (snd l - 1))) D L"
  using assms(1) unfolding shots_def
proof (elim exE conjE)
  fix D assume D: "xs = D @ rest" "list_all2 (on_time T tb r0) D L"
  have "list_all2 (\<lambda>c l. fst c = fst l \<and> snd c \<le> (if snd l = r then tb else T (snd l - 1))) D L"
    by (rule list_all2_mono [OF D(2)]) (use assms(2,3) in \<open>auto simp: on_time_def split: if_splits\<close>)
  with D(1) show ?thesis by blast
qed

text \<open>The handler on any clock whose first timer is taken for due, also if it is not.\<close>

lemma ztimer_handler_spec:
  assumes rep: "zrep s ((e, d) # ds)" "zbase s = of_nat tb" and clk: "clock_ok T clk t0 s"
    and due: "tb + d \<le> T (zreads s)" "T (zreads s) \<le> tb + d + 2 ^ 31" "T (Suc (zreads s)) < tb + d + 2 ^ 32"
  shows "\<exists>D L tb' ds' s'. ztimer_handler clk (quiet f) s = Some s' \<and> z_inv T clk tb' s' ds' \<and> tb' = T (zreads s' - 1) \<and> L \<noteq> [] \<and>
     hd L = (e, if max_value s < UINT32_MAX then Suc (zreads s) else zreads s) \<and>
     deadlines tb ((e, d) # ds) = D @ deadlines tb' ds' \<and>
     list_all2 (\<lambda>c l. fst c = fst l \<and> snd c \<le> (if snd l = zreads s then tb + d else T (snd l - 1))) D L \<and>
     zenv s' = fold (\<lambda>(a, r). f a r) L (zenv s) \<and> (\<forall>c\<in>set (deadlines tb' ds'). tb' < snd c) \<and>
     map_option unat (alarm s') = (case ds' of (_, k) # _ \<Rightarrow> Some (next_alarm s k)
       | [] \<Rightarrow> if max_value s < UINT32_MAX then Some (unat (max_value s) div 2) else None)"
proof -
  obtain s1 t where s1: "postpone clk s = Some (False, s1)" "zrep s1 ((e, d) # ds)" "zbase s1 = zbase s" "clock_ok T clk t s1" "keeps s s1"
     "zreads s1 = (if max_value s < UINT32_MAX then Suc (zreads s) else zreads s)"
    using postpone_due [OF rep clk due(1,2)] by blast
  have r: "dl_rep (znext s1) (zoff s1) (znext s1 e) ds" "zhead s1 = Some e" "unat (zoff s1 e) = d" "e \<notin> fst ` set ds" using s1(2) by (auto simp: zrep_def)
  define s2 where "s2 = set_off e 0 (s1\<lparr>zbase := zbase s1 + zoff s1 e\<rparr>)"
  have T1: "T (zreads s) \<le> T (Suc (zreads s))" using clk by (simp add: clock_ok_def)
  have "dl_rep (znext s1) ((zoff s1)(e := 0)) (znext s1 e) ds" by (rule dl_rep_cong [OF r(1)]) (use r(4) in auto)
  then have z2: "zrep s2 ((e, 0) # ds)" using s1(2) r(2) by (auto simp: s2_def set_off_def zrep_def last_entry_Cons)
  have "zoff s1 e = of_nat d" using of_unat [of "zoff s1 e"] r(3) by simp
  then have "zbase s2 = of_nat (tb + d)" using rep(2) s1(3) by (simp add: s2_def set_off_def)
  moreover have "tb + d \<le> T (zreads s2)" "T (zreads s2) - (tb + d) < 2 ^ 32" using due T1 s1(6) by (auto simp: s2_def set_off_def)
  moreover have "clock_ok T clk t s2" using s1(4) by (simp add: s2_def set_off_def clock_ok_def)
  ultimately have i2: "z_inv T clk (tb + d) s2 ((e, 0) # ds)" using z2 by (auto simp: z_inv_def)
  obtain h l where n: "now_next s2 = (Some e, s2\<lparr>zhead := h, zlast := l\<rparr>)" "z_inv T clk (tb + d) (s2\<lparr>zhead := h, zlast := l\<rparr>) ds"
    using now_next_spec [OF i2] by auto
  obtain L tb' ds' s3 where f: "fire_loop clk (quiet f) (Some e) (s2\<lparr>zhead := h, zlast := l\<rparr>) = Some s3"
      "fired T clk (tb + d) (s2\<lparr>zhead := h, zlast := l\<rparr>) ds L tb' ds' s3"
      "zenv s3 = fold (\<lambda>(a, r). f a r) ((e, zreads s2) # L) (zenv s2)"
    using fire_loop_spec [OF n(2), of f e] by auto
  have "fired T clk (tb + d) s2 ((e, 0) # ds) ((e, zreads s2) # L) tb' ds' s3" by (rule fired_step [OF f(2)]) simp_all
  note f2 = this [unfolded fired_def]
  have k: "max_value s3 = max_value s" "zenv s2 = zenv s" "zreads s2 = zreads s1" using f2 s1(5) by (auto simp: keeps_def s2_def set_off_def)
  have eq: "deadlines tb ((e, d) # ds) = deadlines (tb + d) ((e, 0) # ds)" by simp
  have "shots T (tb + d) (zreads s2) (deadlines tb ((e, d) # ds)) ((e, zreads s2) # L) (deadlines tb' ds')" unfolding eq using f2 by blast
  then obtain D where D: "deadlines tb ((e, d) # ds) = D @ deadlines tb' ds'"
     "list_all2 (\<lambda>c l. fst c = fst l \<and> snd c \<le> (if snd l = zreads s then tb + d else T (snd l - 1))) D ((e, zreads s2) # L)"
    using shots_from [of T "tb + d" "zreads s2" _ _ _ "zreads s"] due(1) s1(6) k(3) by (simp split: if_splits) blast+
  have "ztimer_handler clk (quiet f) s = Some (ztimer_update s3)"
    using s1(1) r(2) n(1) f(1) by (simp add: ztimer_handler_def s2_def)
  moreover have i3: "z_inv T clk tb' s3 ds'" using f2 by blast
  note u = ztimer_update_alarm [OF i3]
  moreover have "next_alarm s3 k = next_alarm s k" for k using k(1) by (simp add: next_alarm_def)
  moreover have "tb' = T (zreads s3 - 1)" "\<forall>c\<in>set (deadlines tb' ds'). tb' < snd c" using f2 by blast+
  moreover have "zenv s3 = fold (\<lambda>(a, r). f a r) ((e, zreads s2) # L) (zenv s)" using f(3) k(2) by simp
  moreover have "zreads s2 = (if max_value s < UINT32_MAX then Suc (zreads s) else zreads s)" using k(3) s1(6) by simp
  ultimately show ?thesis using D k(1)
    by (rule_tac exI [of _ D], rule_tac exI [of _ "(e, zreads s2) # L"], rule_tac exI [of _ tb'], rule_tac exI [of _ ds'],
        rule_tac exI [of _ "ztimer_update s3"], intro conjI) (simp_all split: list.split)
qed

text \<open>
  (C19) The interrupt of a clock: when the first timer is due and the handler gets to run within \<open>2 ^ 31\<close> ticks, it terminates without an
  error; it calls the callbacks of a prefix of the timers, in the order of their deadlines and none before its deadline
  (the first ones at the deadline the alarm was set for, the others after a read of the clock that showed a later time); every
  timer it leaves has its deadline after the last read of the clock, with its deadline unchanged; and the alarm is set for the first of
  them (at most half the range of an extended counter ahead) or cancelled. This holds for 32-bit counters and for narrower counters that are
  extended by checkpoints. Callbacks that do not touch the timers are assumed.
\<close>
theorem ztimer_handler_fires_due:
  assumes inv: "z_inv T clk tb s ((e, d) # ds)" and due: "tb + d \<le> T (zreads s)" "T (Suc (zreads s)) < tb + d + 2 ^ 31"
  shows "\<exists>D L tb' ds' s'. ztimer_handler clk (quiet f) s = Some s' \<and> z_inv T clk tb' s' ds' \<and> tb' = T (zreads s' - 1) \<and> L \<noteq> [] \<and>
     deadlines tb ((e, d) # ds) = D @ deadlines tb' ds' \<and>
     list_all2 (\<lambda>c l. fst c = fst l \<and> snd c \<le> (if snd l = zreads s then tb + d else T (snd l - 1))) D L \<and>
     zenv s' = fold (\<lambda>(a, r). f a r) L (zenv s) \<and> (\<forall>c\<in>set (deadlines tb' ds'). tb' < snd c) \<and>
     map_option unat (alarm s') = (case ds' of (_, k) # _ \<Rightarrow> Some (next_alarm s k)
       | [] \<Rightarrow> if max_value s < UINT32_MAX then Some (unat (max_value s) div 2) else None)"
proof -
  obtain t where t: "zrep s ((e, d) # ds)" "zbase s = of_nat tb" "clock_ok T clk t s" using inv by (auto simp: z_inv_def)
  have "T (zreads s) \<le> T (Suc (zreads s))" by (rule T_mono [OF inv]) simp
  then have "T (zreads s) \<le> tb + d + 2 ^ 31" "T (Suc (zreads s)) < tb + d + 2 ^ 32" using due(2) by simp_all
  from ztimer_handler_spec [OF t due(1) this, of f] show ?thesis
    by (elim exE conjE) (intro exI conjI, assumption+)
qed

definition armed_clock :: "(nat \<times> nat) list zclock" where
  "armed_clock = idle_clock\<lparr>zoff := (\<lambda>_. 100), zhead := Some 7, zbase := 5, zlast := Some 7, alarm := Some 100\<rparr>"

theorem ztimer_handler_fires_due_witness:
  "\<exists>s'. ztimer_handler (\<lambda>n. of_nat (105 + n)) (quiet (\<lambda>a r w. w @ [(a, r)])) armed_clock = Some s' \<and> map fst (zenv s') = [7] \<and> alarm s' = None"
proof -
  let ?T = "\<lambda>n. 105 + n" and ?c = "\<lambda>n. of_nat (105 + n) :: u32" and ?f = "\<lambda>a r w. w @ [(a :: nat, r :: nat)]"
  have "clock_ok ?T ?c 5 armed_clock"
    by (rule unset_clock, rule unat_counter) (simp_all add: armed_clock_def idle_clock_def)
  then have i: "z_inv ?T ?c 5 armed_clock [(7, 100)]" by (auto simp: z_inv_def zrep_def armed_clock_def idle_clock_def)
  have d: "5 + 100 \<le> ?T (zreads armed_clock)" "?T (Suc (zreads armed_clock)) < 5 + 100 + 2 ^ 31"
    by (simp_all add: armed_clock_def idle_clock_def)
  obtain D L tb' ds' s' where h: "ztimer_handler ?c (quiet ?f) armed_clock = Some s'" "L \<noteq> []"
     "deadlines 5 [(7, 100)] = D @ deadlines tb' ds'" "list_all2 (\<lambda>c l. fst c = fst l \<and> snd c \<le> (if snd l = zreads armed_clock then 5 + 100 else ?T (snd l - 1))) D L"
     "zenv s' = fold (\<lambda>(a, r). ?f a r) L (zenv armed_clock)"
     "map_option unat (alarm s') = (case ds' of (_, k) # _ \<Rightarrow> Some (next_alarm armed_clock k)
       | [] \<Rightarrow> if max_value armed_clock < UINT32_MAX then Some (unat (max_value armed_clock) div 2) else None)"
    using ztimer_handler_fires_due [OF i d, of ?f] by (elim exE conjE) (rule that, assumption+)
  have "D \<noteq> []" using h(2,4) by auto
  then have D: "D = [(7, 105)]" "ds' = []" using h(3) by (cases D; auto)+
  then obtain r where "L = [(7, r)]" using h(4) by (auto simp: list_all2_Cons1)
  with h(1,5,6) D(2) show ?thesis by (auto simp: armed_clock_def idle_clock_def)
qed

section \<open>Timers that are far ahead\<close>

text \<open>Modulo the range of the counter and \<open>2 ^ 32\<close>, time may be counted from another origin.\<close>

lemma of_nat_multiple: "(of_nat (2 ^ 32 * x) :: u32) = 0"
  by (metis of_nat_mod_full mod_mult_self1_is_0 of_nat_0)

lemma clock_ok_shift:
  assumes "clock_ok T clk t s" "k = 2 ^ 32 * (unat (max_value s) + 1)"
  shows "clock_ok (\<lambda>n. T n + k) clk (t + k) s"
proof -
  have "(x + k) mod (unat (max_value s) + 1) = x mod (unat (max_value s) + 1)" for x unfolding assms(2) by (rule mod_mult_self1)
  moreover have "(of_nat k :: u32) = 0" unfolding assms(2) by (rule of_nat_multiple)
  ultimately show ?thesis using assms(1) by (auto simp: clock_ok_def)
qed

lemma dins_head: "a \<notin> fst ` set ds \<Longrightarrow> dins a v ds = (a, d) # es \<Longrightarrow> d = v"
  by (cases ds) (auto split: if_splits)

text \<open>A first timer at least \<open>2 ^ 31\<close> ticks ahead is taken for one that was due \<open>2 ^ 32\<close> ticks before its deadline.\<close>

lemma handler_fires_far_timer:
  assumes inv: "z_inv T clk tb s ((e, d) # ds)" and max: "unat (max_value s) < 2 ^ 31" and far: "T (zreads s) + 2 ^ 31 \<le> tb + d"
  shows "\<exists>L s'. ztimer_handler clk (quiet f) s = Some s' \<and> zenv s' = fold (\<lambda>(a, r). f a r) ((e, Suc (zreads s)) # L) (zenv s)"
proof -
  let ?k = "2 ^ 32 * (unat (max_value s) + 1)"
  let ?T = "\<lambda>n. T n + ?k" and ?tb = "tb + 2 ^ 32 * unat (max_value s)"
  obtain t where t: "clock_ok T clk t s" using inv by (auto simp: z_inv_def)
  have r: "zrep s ((e, d) # ds)" "zbase s = of_nat ?tb" "clock_ok ?T clk (t + ?k) s" "tb \<le> T (zreads s)"
    using inv clock_ok_shift [OF t refl] of_nat_multiple [of "unat (max_value s)"] by (simp_all only: z_inv_def of_nat_add add_0_right)
  have "d < 2 ^ 32" using r(1) by (simp add: zrep_def)
  moreover have "T (Suc (zreads s)) - T (zreads s) \<le> unat (max_value s)" using t by (simp add: clock_ok_def)
  ultimately have due: "?tb + d \<le> ?T (zreads s)" "?T (zreads s) \<le> ?tb + d + 2 ^ 31" "?T (Suc (zreads s)) < ?tb + d + 2 ^ 32"
    using far max r(4) by simp_all
  have "max_value s < UINT32_MAX" using max unat_max by (simp add: word_less_nat_alt)
  then obtain L s' where "ztimer_handler clk (quiet f) s = Some s'" "L \<noteq> []" "hd L = (e, Suc (zreads s))"
     "zenv s' = fold (\<lambda>(a, r). f a r) L (zenv s)"
    using ztimer_handler_spec [OF r(1-3) due, of f] by (elim exE conjE) (rule that, assumption+, simp, assumption)
  then show ?thesis by (intro exI [of _ "tl L"] exI [of _ s']) (cases L, simp_all)
qed

text \<open>
  (C40) A timer that is \<open>2 ^ 31\<close> ticks or more ahead fires far too early on an extended counter of at most 31 bits. Let a timer be set on any clock in order
  and become its first one; then the alarm is set for half the range of the counter. If the interrupt comes (at \<open>T (Suc (zreads s))\<close>, as with that alarm) while the deadline
  still is \<open>2 ^ 31\<close> ticks or more ahead, the handler does not set the next alarm but calls the callback of the timer at once: it takes the distance to the deadline for a signed
  number, which is negative.
\<close>
theorem ztimer_far_timer_fires_early:
  assumes inv: "z_inv T clk tb s ds" and max: "unat (max_value s) < 2 ^ 31"
    and set: "ztimer_set clk timer val s = Some s1" "zhead s1 = Some timer"
    and far: "T (Suc (zreads s)) + 2 ^ 31 \<le> T (zreads s) + (unat val - unat (adjust_set s))"
  shows "map_option unat (alarm s1) = Some (unat (max_value s) div 2) \<and>
    (\<exists>L s2. ztimer_handler clk (quiet f) s1 = Some s2 \<and>
       zenv s2 = fold (\<lambda>(a, r). f a r) ((timer, zreads s + 2) # L) (zenv s))"
proof -
  let ?v = "unat val - unat (adjust_set s)" and ?now = "T (zreads s)"
  let ?ds = "dins timer ?v (ddel timer (dadv (?now - tb) ds))"
  have s1: "z_inv T clk ?now s1 ?ds" "zreads s1 = Suc (zreads s)" "zenv s1 = zenv s"
    "max_value s1 = max_value s"
    "if fst (hd ?ds) = timer then map_option unat (alarm s1) = Some (next_alarm s ?v) else alarm s1 = alarm s"
    using ztimer_set_spec [OF inv refl refl, of timer val] set(1) by auto
  obtain d es where ds: "?ds = (timer, d) # es"
    using s1(1) set(2) by (cases ?ds) (auto simp: z_inv_def zrep_def)
  have "distinct (map fst (dadv (?now - tb) ds))" using inv by (simp add: z_inv_def zrep_def)
  then have d: "d = ?v" using dins_head [OF ddel_removes ds] by blast
  have inv1: "z_inv T clk ?now s1 ((timer, ?v) # es)" using s1(1) ds d by simp
  have "T (zreads s) \<le> T (Suc (zreads s))" by (rule T_mono [OF inv]) simp
  then have "unat (max_value s) div 2 \<le> ?v" using far max by linarith
  moreover have "max_value s < UINT32_MAX" using max unat_max by (simp add: word_less_nat_alt)
  ultimately have "map_option unat (alarm s1) = Some (unat (max_value s) div 2)" using s1(5) ds by (simp add: next_alarm_def)
  with handler_fires_far_timer [OF inv1, of f] s1(2-4) max far show ?thesis by simp
qed

lemma fold_log: "fold (\<lambda>(a, r) w. w @ [(a, r)]) L w = w @ L"
  by (induction L arbitrary: w) auto

theorem ztimer_far_timer_fires_early_witness:
  "\<exists>s1 s2 L. ztimer_set (\<lambda>n. if n = 0 then 0 else 0x7FFF) 7 0x90000000 (idle_clock\<lparr>max_value := 0xFFFF\<rparr>) = Some s1 \<and>
     map_option unat (alarm s1) = Some 0x7FFF \<and>
     ztimer_handler (\<lambda>n. if n = 0 then 0 else 0x7FFF) (quiet (\<lambda>a r w. w @ [(a, r)])) s1 = Some s2 \<and> zenv s2 = (7, 2) # L"
proof -
  let ?s = "idle_clock\<lparr>max_value := 0xFFFF\<rparr>" and ?T = "\<lambda>n :: nat. if n = 0 then 0 else 0x7FFF :: nat"
  let ?c = "\<lambda>n :: nat. if n = 0 then 0 else 0x7FFF :: u32" and ?f = "\<lambda>a r w. w @ [(a :: nat, r :: nat)]"
  have i: "z_inv ?T ?c 0 ?s []"
    by (auto simp: z_inv_def zrep_def clock_ok_def idle_clock_def UINT32_MAX_def intro!: exI [of _ 0])
  obtain s1 where s1: "ztimer_set ?c 7 0x90000000 ?s = Some s1" "zhead s1 = Some 7"
    by (simp add: ztimer_set_def ztimer_update_head_offset_def ztimer_now_def ztimer_now_extend_def ops_now_def idle_clock_def
        add_modulo_def UINT32_MAX_def is_set_def set_off_def add_entry_to_list_def add_loop.simps ops_set_def Let_def)
  have h: "unat (max_value ?s) < 2 ^ 31" "zreads ?s = 0" "zenv ?s = []"
    "?T (Suc (zreads ?s)) + 2 ^ 31 \<le> ?T (zreads ?s) + (unat (0x90000000 :: u32) - unat (adjust_set ?s))" by (simp_all add: idle_clock_def)
  show ?thesis using ztimer_far_timer_fires_early [OF i h(1) s1 h(4), of ?f] s1(1) h(2,3) by (auto simp: fold_log)
qed

end
