(* ===== verification/Evtimer.thy ===== *)
theory Evtimer
  imports Ztimer Msg
begin

text \<open>
  Event timers (sys/evtimer/evtimer.c, sys/include/evtimer.h) in the build on top of \<open>ztimer\<close>: many events share one timer of a millisecond
  clock. The events form a delta list like the timers of the clock. The clock is the one of \<^emph>\<open>Ztimer\<close>; \<open>tm\<close> is the address of the
  timer in the event timer, \<open>clk\<close> the counter of the clock. The callback of the event timer is the parameter \<open>cb\<close>. A NULL dereference
  and a loop that never ends are \<open>None\<close>. The operations run with interrupts disabled.
\<close>

section \<open>The program\<close>

record 'w evtimer =
  evnext :: "nat \<Rightarrow> nat option"
  evoff :: "nat \<Rightarrow> u32"
  evhead :: "nat option"
  evbase :: u32
  evclock :: "'w zclock"
  evkern :: kernel

text \<open>\<open>*list\<close> for the pointer \<open>&evtimer->events\<close> (\<open>None\<close>) or \<open>&event->next\<close>.\<close>

fun deref :: "nat option \<Rightarrow> 'w evtimer \<Rightarrow> nat option" where
  "deref None s = evhead s"
| "deref (Some p) s = evnext s p"

fun assign :: "nat option \<Rightarrow> nat option \<Rightarrow> 'w evtimer \<Rightarrow> 'w evtimer" where
  "assign None q s = s\<lparr>evhead := q\<rparr>"
| "assign (Some p) q s = s\<lparr>evnext := (evnext s)(p := q)\<rparr>"

definition set_offset :: "nat \<Rightarrow> u32 \<Rightarrow> 'w evtimer \<Rightarrow> 'w evtimer" where
  "set_offset e v s = s\<lparr>evoff := (evoff s)(e := v)\<rparr>"

partial_function (option) add_event_loop :: "nat \<Rightarrow> nat option \<Rightarrow> 'w evtimer \<Rightarrow> (nat option \<times> 'w evtimer) option" where
  "add_event_loop event lst s =
     (case deref lst s of
        None \<Rightarrow> Some (lst, s)
      | Some x \<Rightarrow>
          if evoff s event < evoff s x then Some (lst, s)
          else add_event_loop event (Some x) (set_offset event (evoff s event - evoff s x) s))"

definition add_event_to_list :: "nat \<Rightarrow> 'w evtimer \<Rightarrow> 'w evtimer option" where
  "add_event_to_list event s =
     do { (lst, s) \<leftarrow> add_event_loop event None s;
          let s = s\<lparr>evnext := (evnext s)(event := deref lst s)\<rparr>;
          let s = (case evnext s event of Some x \<Rightarrow> set_offset x (evoff s x - evoff s event) s | None \<Rightarrow> s);
          Some (assign lst (Some event) s) }"

partial_function (option) del_event_loop :: "nat \<Rightarrow> nat option \<Rightarrow> 'w evtimer \<Rightarrow> nat option option" where
  "del_event_loop event lst s =
     (case deref lst s of
        None \<Rightarrow> Some lst
      | Some x \<Rightarrow> if x = event then Some lst else del_event_loop event (Some x) s)"

definition del_event_from_list :: "nat \<Rightarrow> 'w evtimer \<Rightarrow> 'w evtimer option" where
  "del_event_from_list event s =
     do { lst \<leftarrow> del_event_loop event None s;
          Some (case deref lst s of
                  Some x \<Rightarrow>
                    (let s = assign lst (evnext s x) s
                     in case deref lst s of Some y \<Rightarrow> set_offset y (evoff s y + evoff s event) s | None \<Rightarrow> s)
                | None \<Rightarrow> s) }"

definition set_timer :: "(nat \<Rightarrow> u32) \<Rightarrow> nat \<Rightarrow> 'w evtimer \<Rightarrow> 'w evtimer option" where
  "set_timer clk tm s =
     do { (now, c) \<leftarrow> ztimer_now clk (evclock s);
          let s = s\<lparr>evbase := now, evclock := c\<rparr>;
          next_event \<leftarrow> evhead s;
          c \<leftarrow> ztimer_set clk tm (evoff s next_event) (evclock s);
          Some (s\<lparr>evclock := c\<rparr>) }"

definition update_timer :: "(nat \<Rightarrow> u32) \<Rightarrow> nat \<Rightarrow> 'w evtimer \<Rightarrow> 'w evtimer option" where
  "update_timer clk tm s =
     (if evhead s \<noteq> None then set_timer clk tm s
      else do { c \<leftarrow> ztimer_remove clk tm (evclock s); Some (s\<lparr>evclock := c\<rparr>) })"

definition update_head_offset :: "(nat \<Rightarrow> u32) \<Rightarrow> 'w evtimer \<Rightarrow> 'w evtimer option" where
  "update_head_offset clk s =
     (case evhead s of
        None \<Rightarrow> Some s
      | Some event \<Rightarrow>
          do { (now, c) \<leftarrow> ztimer_now clk (evclock s);
               let s = s\<lparr>evclock := c\<rparr>;
               let elapsed = now - evbase s;
               let s = (if elapsed > evoff s event then set_offset event 0 s
                        else set_offset event (evoff s event - elapsed) s);
               Some (s\<lparr>evbase := now\<rparr>) })"

definition evtimer_add :: "(nat \<Rightarrow> u32) \<Rightarrow> nat \<Rightarrow> nat \<Rightarrow> 'w evtimer \<Rightarrow> 'w evtimer option" where
  "evtimer_add clk tm event s =
     do { let (state, k) = irq_disable (evkern s);
          s \<leftarrow> update_head_offset clk (s\<lparr>evkern := k\<rparr>);
          s \<leftarrow> add_event_to_list event s;
          s \<leftarrow> (if evhead s = Some event then set_timer clk tm s else Some s);
          let s = s\<lparr>evkern := irq_restore state (evkern s)\<rparr>;
          Some (if sched_context_switch_request (evkern s) then s\<lparr>evkern := thread_yield_higher (evkern s)\<rparr> else s) }"

definition evtimer_del :: "(nat \<Rightarrow> u32) \<Rightarrow> nat \<Rightarrow> nat \<Rightarrow> 'w evtimer \<Rightarrow> 'w evtimer option" where
  "evtimer_del clk tm event s =
     do { let (state, k) = irq_disable (evkern s);
          s \<leftarrow> update_head_offset clk (s\<lparr>evkern := k\<rparr>);
          s \<leftarrow> del_event_from_list event s;
          s \<leftarrow> update_timer clk tm s;
          Some (s\<lparr>evkern := irq_restore state (evkern s)\<rparr>) }"

definition get_next :: "'w evtimer \<Rightarrow> nat option \<times> 'w evtimer" where
  "get_next s =
     (case evhead s of
        Some event \<Rightarrow> if evoff s event = 0 then (Some event, s\<lparr>evhead := evnext s event\<rparr>) else (None, s)
      | None \<Rightarrow> (None, s))"

partial_function (option) ev_handler_loop ::
  "(nat \<Rightarrow> 'w evtimer \<Rightarrow> 'w evtimer option) \<Rightarrow> 'w evtimer \<Rightarrow> 'w evtimer option" where
  "ev_handler_loop cb s =
     (case get_next s of
        (None, s) \<Rightarrow> Some s
      | (Some event, s) \<Rightarrow> do { s \<leftarrow> cb event s; ev_handler_loop cb s })"

definition evtimer_handler ::
  "(nat \<Rightarrow> u32) \<Rightarrow> nat \<Rightarrow> (nat \<Rightarrow> 'w evtimer \<Rightarrow> 'w evtimer option) \<Rightarrow> 'w evtimer \<Rightarrow> 'w evtimer option" where
  "evtimer_handler clk tm cb s =
     do { event \<leftarrow> evhead s;
          let s = set_offset event 0 s;
          s \<leftarrow> ev_handler_loop cb s;
          update_timer clk tm s }"

text \<open>The message of an event (sys/include/evtimer_msg.h) is \<open>msg_of event\<close>.\<close>

definition evtimer_add_msg :: "(nat \<Rightarrow> u32) \<Rightarrow> nat \<Rightarrow> (nat \<Rightarrow> maddr) \<Rightarrow> nat \<Rightarrow> int \<Rightarrow> 'w evtimer \<Rightarrow> 'w evtimer option" where
  "evtimer_add_msg clk tm msg_of event target_pid s =
     evtimer_add clk tm event (s\<lparr>evkern := set_sender (msg_of event) target_pid (evkern s)\<rparr>)"

definition evtimer_msg_handler :: "(nat \<Rightarrow> maddr) \<Rightarrow> nat \<Rightarrow> 'w evtimer \<Rightarrow> 'w evtimer option" where
  "evtimer_msg_handler msg_of event s =
     do { (_, k) \<leftarrow> msg_send_int (msg_of event) (sender_pid (msgs (evkern s) (msg_of event))) (evkern s);
          Some (s\<lparr>evkern := k\<rparr>) }"

definition evtimer_init :: "'w evtimer \<Rightarrow> 'w evtimer" where
  "evtimer_init s = s\<lparr>evhead := None\<rparr>"

section \<open>The list of events is a queue of deadlines\<close>

definition erep :: "'w evtimer \<Rightarrow> (nat \<times> nat) list \<Rightarrow> bool" where
  "erep s ds \<longleftrightarrow> dl_rep (evnext s) (evoff s) (evhead s) ds \<and> distinct (map fst ds) \<and> dsum ds < 2 ^ 32"

lemma add_event_loop_spec:
  "dl_rep (evnext s) (evoff s) (deref lst s) ys \<Longrightarrow> e \<notin> fst ` set ys \<Longrightarrow>
   \<exists>us vs w. ys = us @ vs \<and> add_event_loop e lst s = Some (if us = [] then lst else last_entry us, set_offset e w s) \<and>
     unat w = unat (evoff s e) - dsum us \<and> cut_at (unat (evoff s e)) us vs"
proof (induction ys arbitrary: lst s)
  case Nil
  then show ?case
    by (intro exI [of _ "[]"] exI [of _ "evoff s e"]) (subst add_event_loop.simps, simp add: cut_at_def set_offset_def)
next
  case (Cons c ys)
  obtain x d where c: "c = (x, d)" by force
  have h: "deref lst s = Some x" "unat (evoff s x) = d" "dl_rep (evnext s) (evoff s) (evnext s x) ys" "x \<noteq> e" "e \<notin> fst ` set ys"
    using Cons.prems c by auto
  show ?case
  proof (cases "unat (evoff s e) < d")
    case True
    then have "add_event_loop e lst s = Some (lst, s)" using h by (subst add_event_loop.simps) (simp add: word_less_nat_alt)
    then show ?thesis using True c
      by (intro exI [of _ "[]"] exI [of _ "c # ys"] exI [of _ "evoff s e"]) (simp add: cut_at_def set_offset_def)
  next
    case False
    let ?s = "set_offset e (evoff s e - evoff s x) s"
    have step: "add_event_loop e lst s = add_event_loop e (Some x) ?s"
      using False h by (subst add_event_loop.simps) (simp add: word_less_nat_alt)
    have e: "unat (evoff ?s e) = unat (evoff s e) - d" using False h(2) by (simp add: set_offset_def unat_sub word_le_nat_alt)
    have "dl_rep (evnext ?s) (evoff ?s) (deref (Some x) ?s) ys"
      using h(5) by (simp add: set_offset_def) (intro dl_rep_cong [OF h(3)], auto)
    from Cons.IH [OF this h(5)] obtain us vs w where
      u: "ys = us @ vs" "add_event_loop e (Some x) ?s = Some (if us = [] then Some x else last_entry us, set_offset e w ?s)"
        "unat w = unat (evoff ?s e) - dsum us" "cut_at (unat (evoff ?s e)) us vs" by blast
    have "cut_at (unat (evoff s e)) ((x, d) # us) vs" using u(4) False unfolding e by (auto simp: cut_at_def)
    moreover have "set_offset e w ?s = set_offset e w s" by (simp add: set_offset_def)
    ultimately show ?thesis using u step c unfolding e
      by (intro exI [of _ "(x, d) # us"] exI [of _ vs] exI [of _ w]) (simp add: last_entry_Cons)
  qed
qed

text \<open>Two states that differ at most in the list of events.\<close>

definition ev_list_only :: "'w evtimer \<Rightarrow> 'w evtimer \<Rightarrow> bool" where
  "ev_list_only s s' \<longleftrightarrow> evbase s' = evbase s \<and> evclock s' = evclock s \<and> evkern s' = evkern s"

lemma add_event_spec:
  assumes rep: "erep s ds" and e: "e \<notin> fst ` set ds"
  shows "\<exists>s'. add_event_to_list e s = Some s' \<and> erep s' (dins e (unat (evoff s e)) ds) \<and> ev_list_only s s'"
proof -
  note r = rep [unfolded erep_def]
  let ?v = "unat (evoff s e)"
  have "dl_rep (evnext s) (evoff s) (deref None s) ds" using r by simp
  from add_event_loop_spec [OF this e] obtain us vs w where
    u': "ds = us @ vs" "add_event_loop e None s = Some (if us = [] then None else last_entry us, set_offset e w s)"
      "unat w = ?v - dsum us" "cut_at ?v us vs" by blast
  moreover have "(if us = [] then None else last_entry us) = last_entry us" by simp
  ultimately have u: "ds = us @ vs" "add_event_loop e None s = Some (last_entry us, set_offset e w s)"
    "unat w = ?v - dsum us" "cut_at ?v us vs" by simp_all
  have ins: "dins e ?v ds = us @ (e, unat w) # shorten (unat w) vs" using dins_cut [OF u(4)] u(1,3) by simp
  have vs: "deref (last_entry us) s = first_entry vs"
  proof (cases us rule: rev_cases)
    case (snoc us' c)
    then show ?thesis using r u(1) by (cases c) (auto simp: dl_rep_seg dl_seg_append dest: dl_rep_head [unfolded dl_rep_seg])
  qed (use r u(1) dl_rep_head in auto)
  then have vs': "deref (last_entry us) (set_offset e w s) = first_entry vs" by (cases "last_entry us") (simp_all add: set_offset_def)
  have ne: "first_entry vs \<noteq> Some e" "last_entry us \<noteq> Some e" using e u(1) first_entryD [of vs e] last_entryD [of us e] by auto
  let ?s = "s\<lparr>evnext := splice_next e us vs (evnext s), evoff := splice_off e w vs (evoff s),
    evhead := (case last_entry us of None \<Rightarrow> Some e | Some _ \<Rightarrow> evhead s)\<rparr>"
  have run: "add_event_to_list e s = Some ?s"
    using u(2) vs' ne by (cases "last_entry us"; cases vs)
      (auto simp: add_event_to_list_def set_offset_def splice_next_def splice_off_def first_entry_def)
  have "vs = [] \<or> unat w \<le> snd (hd vs)" using u(3,4) by (auto simp: cut_at_def)
  from dl_splice [OF _ _ _ this, of "evnext s" "evoff s" "evhead s" us e] r u(1) e
  have "dl_rep (evnext ?s) (evoff ?s) (evhead ?s) (dins e ?v ds)" unfolding ins by simp
  moreover have "dsum (dins e ?v ds) < 2 ^ 32" using r unsigned_less [of "evoff s e"] by (simp add: dsum_dins)
  ultimately have "erep ?s (dins e ?v ds)" using r distinct_dins [OF e] by (simp add: erep_def)
  then show ?thesis using run by (simp add: ev_list_only_def)
qed

lemma del_event_loop_finds:
  "dl_rep (evnext s) (evoff s) (deref lst s) (us @ (e, d) # vs) \<Longrightarrow> e \<notin> fst ` set us \<Longrightarrow>
   del_event_loop e lst s = Some (if us = [] then lst else last_entry us)"
proof (induction us arbitrary: lst)
  case Nil
  then show ?case by (subst del_event_loop.simps) simp
next
  case (Cons c us)
  then show ?case by (cases c) (subst del_event_loop.simps, auto simp: last_entry_Cons)
qed

lemma del_event_loop_misses:
  "dl_rep (evnext s) (evoff s) (deref lst s) ds \<Longrightarrow> e \<notin> fst ` set ds \<Longrightarrow>
   \<exists>lst'. del_event_loop e lst s = Some lst' \<and> deref lst' s = None"
proof (induction ds arbitrary: lst)
  case Nil
  then show ?case by (subst del_event_loop.simps) simp
next
  case (Cons c ds)
  then show ?case by (cases c) (subst del_event_loop.simps, auto)
qed

lemma del_event_spec:
  assumes rep: "erep s ds"
  shows "\<exists>s'. del_event_from_list e s = Some s' \<and> erep s' (ddel e ds) \<and> ev_list_only s s'"
proof (cases "e \<in> fst ` set ds")
  case False
  then show ?thesis using del_event_loop_misses [of s None ds e] rep
    by (auto simp: del_event_from_list_def erep_def ddel_absent ev_list_only_def)
next
  case True
  then obtain d where "(e, d) \<in> set ds" by force
  then obtain us vs where ds: "ds = us @ (e, d) # vs" by (meson split_list)
  note r = rep [unfolded erep_def ds]
  have e: "e \<notin> fst ` set us" "e \<notin> fst ` set vs" using r by auto
  have loop: "del_event_loop e None s = Some (last_entry us)" using del_event_loop_finds [of s None us e d vs] r e(1) by (cases "us = []") auto
  have at: "deref (last_entry us) s = Some e" "evnext s e = first_entry vs"
  proof -
    have "dl_seg (evnext s) (evoff s) (evhead s) us (Some e)" "dl_rep (evnext s) (evoff s) (evnext s e) vs"
      using r by (auto simp: dl_rep_seg dl_seg_append)
    then show "deref (last_entry us) s = Some e" "evnext s e = first_entry vs"
      by (cases us rule: rev_cases, simp, auto simp: dl_seg_append) (simp add: dl_rep_head)+
  qed
  have ne: "last_entry us \<noteq> Some e" "first_entry vs \<noteq> Some e" using e first_entryD [of vs e] last_entryD [of us e] by auto
  let ?s = "s\<lparr>evnext := unsplice_next us vs (evnext s), evoff := unsplice_off (evoff s e) vs (evoff s),
    evhead := (case last_entry us of None \<Rightarrow> first_entry vs | Some _ \<Rightarrow> evhead s)\<rparr>"
  have "del_event_from_list e s = Some ?s"
    using loop at ne by (cases "last_entry us"; cases "first_entry vs")
      (auto simp: del_event_from_list_def set_offset_def unsplice_next_def unsplice_off_def Let_def)
  moreover have "dl_rep (evnext ?s) (evoff ?s) (evhead ?s) (ddel e ds)"
    using dl_unsplice [of "evnext s" "evoff s" "evhead s" us e d vs] r ddel_cut [OF e(1)] ds by simp
  then have "erep ?s (ddel e ds)" using r dsum_ddel [of e ds] ds by (auto simp: erep_def)
  ultimately show ?thesis by (auto simp: ev_list_only_def)
qed

definition ev_arm :: "nat \<Rightarrow> u32 \<Rightarrow> 'w evtimer \<Rightarrow> 'w evtimer option" where
  "ev_arm e v s = add_event_to_list e (set_offset e v s)"

lemma erep_offset: "erep s ds \<Longrightarrow> e \<notin> fst ` set ds \<Longrightarrow> erep (set_offset e v s) ds"
  unfolding erep_def set_offset_def by (auto elim!: dl_rep_cong)

interpretation evlist: deadline_queue erep ev_arm del_event_from_list
proof
  show "erep s ds \<Longrightarrow> distinct (map fst ds)" for s :: "'w evtimer" and ds by (simp add: erep_def)
  show "erep s ds \<Longrightarrow> a \<notin> fst ` set ds \<Longrightarrow> \<exists>s'. ev_arm a v s = Some s' \<and> erep s' (dins a (unat v) ds)" for s :: "'w evtimer" and ds a v
    using add_event_spec [OF erep_offset [of s ds a v], of a] by (auto simp: ev_arm_def set_offset_def)
  show "erep s ds \<Longrightarrow> \<exists>s'. del_event_from_list a s = Some s' \<and> erep s' (ddel a ds)" for s :: "'w evtimer" and ds a
    using del_event_spec by blast
qed

section \<open>The timer of the clock\<close>

text \<open>
  The events \<open>ds\<close> relative to the time \<open>te\<close>, on a clock in order at \<open>tb\<close> with the timers \<open>cs\<close>.
\<close>

definition ev_inv ::
  "(nat \<Rightarrow> nat) \<Rightarrow> (nat \<Rightarrow> u32) \<Rightarrow> nat \<Rightarrow> nat \<Rightarrow> 'w evtimer \<Rightarrow> (nat \<times> nat) list \<Rightarrow> (nat \<times> nat) list \<Rightarrow> bool" where
  "ev_inv T clk te tb s ds cs \<longleftrightarrow> erep s ds \<and> z_inv T clk tb (evclock s) cs \<and>
     (ds \<noteq> [] \<longrightarrow> evbase s = of_nat te \<and> te \<le> T (zreads (evclock s)) \<and> T (zreads (evclock s)) - te < 2 ^ 32)"

lemma z_inv_mono: "z_inv T clk tb c cs \<Longrightarrow> i \<le> j \<Longrightarrow> T i \<le> T j"
  by (rule lift_Suc_mono_le [of T]) (auto simp: z_inv_def clock_ok_def)

lemma now_spec:
  assumes "z_inv T clk tb c cs" "T (Suc (zreads c)) < tb + 2 ^ 32"
  shows "\<exists>c'. ztimer_now clk c = Some (of_nat (T (zreads c)), c') \<and> z_inv T clk tb c' cs \<and> zreads c' = Suc (zreads c) \<and> keeps c c'"
proof -
  obtain t where t: "clock_ok T clk t c" using assms(1) by (auto simp: z_inv_def)
  have "tb \<le> T (zreads c)" using assms(1) by (simp add: z_inv_def)
  moreover have "T (zreads c) \<le> T (Suc (zreads c))" by (rule z_inv_mono [OF assms(1)]) simp
  ultimately have "tb \<le> T (Suc (zreads c))" "T (Suc (zreads c)) - tb < 2 ^ 32" using assms(2) by linarith+
  with ztimer_now_spec [OF t] assms(1) show ?thesis by (auto simp: z_inv_def zrep_def keeps_def)
qed

text \<open>What \<open>cs\<close> becomes when the timer is set at time \<open>t\<close> for an event in \<open>v\<close> ticks.\<close>

definition rearmed :: "nat \<Rightarrow> nat \<Rightarrow> nat \<Rightarrow> nat \<Rightarrow> (nat \<times> nat) list \<Rightarrow> (nat \<times> nat) list" where
  "rearmed tm v t tb cs = dins tm v (ddel tm (dadv (t - tb) cs))"

lemma rearmed_deadlines:
  assumes "z_inv T clk tb c cs" "tb \<le> t"
  shows "deadlines t (rearmed tm v t tb cs) = place tm (t + v) (without tm (overdue_now t (deadlines tb cs)))"
proof -
  have "distinct (map fst (dadv (t - tb) cs))" using assms(1) by (simp add: z_inv_def zrep_def)
  then show ?thesis using deadlines_advanced [OF assms(2), of cs] by (simp add: rearmed_def deadlines_dins without_deadlines)
qed

lemma set_timer_spec:
  assumes rep: "erep s ((a, d) # ds)" and inv: "z_inv T clk tb (evclock s) cs" and r: "r = zreads (evclock s)"
    and fit: "T (Suc r) < tb + 2 ^ 32"
  shows "\<exists>c. set_timer clk tm s = Some (s\<lparr>evbase := of_nat (T r), evclock := c\<rparr>) \<and> zreads c = Suc (Suc r) \<and>
     z_inv T clk (T (Suc r)) c (rearmed tm (d - unat (adjust_set (evclock s))) (T (Suc r)) tb cs)"
proof -
  obtain c1 where c1: "ztimer_now clk (evclock s) = Some (of_nat (T r), c1)" "z_inv T clk tb c1 cs" "zreads c1 = Suc r" "keeps (evclock s) c1"
    using now_spec [OF inv] fit r by blast
  have h: "evhead s = Some a" "unat (evoff s a) = d" using rep by (auto simp: erep_def)
  obtain c2 where "ztimer_set clk tm (evoff s a) c1 = Some c2" "zreads c2 = Suc (Suc r)"
     "z_inv T clk (T (Suc r)) c2 (rearmed tm (d - unat (adjust_set (evclock s))) (T (Suc r)) tb cs)"
    using ztimer_set_spec [OF c1(2) refl refl, of tm "evoff s a"] c1(3,4) h(2) by (auto simp: rearmed_def keeps_def)
  then show ?thesis using c1(1) h(1) by (intro exI [of _ c2]) (simp add: set_timer_def)
qed

lemma ev_head_cases:
  assumes "erep s ds"
  obtains "ds = []" "evhead s = None" | a d ds1 where "ds = (a, d) # ds1" "evhead s = Some a" "unat (evoff s a) = d" "a \<notin> fst ` set ds1"
  using assms by (cases ds) (auto simp: erep_def)

lemma update_head_offset_spec:
  assumes inv: "ev_inv T clk te tb s ds cs" and now: "now = T (zreads (evclock s))" and fit: "T (Suc (zreads (evclock s))) < tb + 2 ^ 32"
  shows "\<exists>s'. update_head_offset clk s = Some s' \<and> ev_inv T clk now tb s' (dcatch (now - te) ds) cs \<and> evkern s' = evkern s \<and>
     adjust_set (evclock s') = adjust_set (evclock s) \<and> zreads (evclock s') = (if ds = [] then zreads (evclock s) else Suc (zreads (evclock s))) \<and>
     (\<forall>e. e \<notin> fst ` set ds \<longrightarrow> evoff s' e = evoff s e)"
proof -
  have rep: "erep s ds" using inv by (simp add: ev_inv_def)
  then show ?thesis
  proof (cases rule: ev_head_cases)
    case 1
    with inv show ?thesis by (auto simp: update_head_offset_def ev_inv_def)
  next
    case (2 a d ds1)
    obtain c where c: "ztimer_now clk (evclock s) = Some (of_nat now, c)" "z_inv T clk tb c cs" "zreads c = Suc (zreads (evclock s))" "keeps (evclock s) c"
      using now_spec [of T clk tb "evclock s" cs] inv fit now by (auto simp: ev_inv_def)
    have el: "unat (of_nat now - evbase s) = now - te" using inv 2(1) now by (auto simp: ev_inv_def unat_elapsed)
    define w where "w = (if of_nat now - evbase s > evoff s a then 0 else evoff s a - (of_nat now - evbase s))"
    have w: "unat w = d - (now - te)" using el 2(3) by (auto simp: w_def word_less_nat_alt unat_sub word_le_nat_alt)
    let ?s = "s\<lparr>evoff := (evoff s)(a := w), evbase := of_nat now, evclock := c\<rparr>"
    have "dl_rep (evnext s) (evoff s) (evnext s a) ds1" using rep 2(1) by (simp add: erep_def)
    then have "dl_rep (evnext s) ((evoff s)(a := w)) (evnext s a) ds1" by (rule dl_rep_cong) (use 2(4) in auto)
    then have "erep ?s (dcatch (now - te) ds)" using rep 2 w by (auto simp: erep_def)
    moreover have "now \<le> T (zreads c)" unfolding now c(3) by (rule z_inv_mono [OF c(2)]) simp
    moreover have "T (zreads c) - now < 2 ^ 32" using fit c(2) inv now by (auto simp: ev_inv_def z_inv_def c(3))
    ultimately have "ev_inv T clk now tb ?s (dcatch (now - te) ds) cs" using c(2) by (simp add: ev_inv_def)
    moreover have "update_head_offset clk s = Some ?s"
      using 2(2) c(1) by (simp add: update_head_offset_def set_offset_def w_def Let_def)
    ultimately show ?thesis using c(3,4) 2(1) by (intro exI [of _ ?s]) (auto simp: keeps_def)
  qed
qed

lemma erep_kern [simp]: "erep (s\<lparr>evkern := k\<rparr>) ds = erep s ds" "erep (s\<lparr>evbase := b, evclock := c\<rparr>) ds = erep s ds"
  "erep (s\<lparr>evclock := c\<rparr>) ds = erep s ds" "erep (s\<lparr>evbase := b\<rparr>) ds = erep s ds"
  by (simp_all add: erep_def)

lemma ev_inv_kern [simp]: "ev_inv T clk te tb (s\<lparr>evkern := k\<rparr>) ds cs = ev_inv T clk te tb s ds cs"
  by (simp add: ev_inv_def)

lemma ev_inv_list_only:
  "ev_inv T clk te tb s ds cs \<Longrightarrow> ev_list_only s s' \<Longrightarrow> erep s' ds' \<Longrightarrow> ds' = [] \<or> ds \<noteq> [] \<Longrightarrow> ev_inv T clk te tb s' ds' cs"
  by (auto simp: ev_inv_def ev_list_only_def)

lemma erep_cases_head: "erep s ds \<Longrightarrow> evhead s = first_entry ds"
  using dl_rep_head by (auto simp: erep_def)

lemma dins_cons:
  assumes "a \<notin> fst ` set ds"
  obtains b d rest where "dins a v ds = (b, d) # rest" "b = a \<Longrightarrow> d = v"
proof (cases ds)
  case (Cons c ds1)
  obtain b d where c: "c = (b, d)" by force
  show thesis
  proof (cases "v < d")
    case True
    then show thesis by (intro that [of a v "(b, d - v) # ds1"]) (simp_all add: Cons c)
  next
    case False
    then show thesis using assms by (intro that [of b d "dins a (v - d) ds1"]) (simp_all add: Cons c)
  qed
qed simp

text \<open>The timer is set for the first event: what follows for the whole state.\<close>

lemma set_timer_inv:
  assumes rep: "erep s ((a, d) # ds)" and inv: "z_inv T clk tb (evclock s) cs" and r: "r = zreads (evclock s)"
    and fit: "T (Suc (Suc r)) < tb + 2 ^ 32"
  shows "\<exists>s' cs'. set_timer clk tm s = Some s' \<and> ev_inv T clk (T r) (T (Suc r)) s' ((a, d) # ds) cs' \<and> evkern s' = evkern s \<and>
     deadlines (T (Suc r)) cs' =
       place tm (T (Suc r) + (d - unat (adjust_set (evclock s)))) (without tm (overdue_now (T (Suc r)) (deadlines tb cs)))"
proof -
  have m: "tb \<le> T r" "T r \<le> T (Suc r)" "T (Suc r) \<le> T (Suc (Suc r))"
    using inv r z_inv_mono [OF inv, of r "Suc r"] z_inv_mono [OF inv, of "Suc r" "Suc (Suc r)"] by (auto simp: z_inv_def)
  have "T (Suc r) < tb + 2 ^ 32" using m(3) fit by linarith
  from set_timer_spec [OF rep inv r this, of tm] obtain c where
    c: "set_timer clk tm s = Some (s\<lparr>evbase := of_nat (T r), evclock := c\<rparr>)" "zreads c = Suc (Suc r)"
      "z_inv T clk (T (Suc r)) c (rearmed tm (d - unat (adjust_set (evclock s))) (T (Suc r)) tb cs)" by blast
  have "T r \<le> T (Suc (Suc r))" "T (Suc (Suc r)) - T r < 2 ^ 32" using m fit by linarith+
  then have "ev_inv T clk (T r) (T (Suc r)) (s\<lparr>evbase := of_nat (T r), evclock := c\<rparr>) ((a, d) # ds)
      (rearmed tm (d - unat (adjust_set (evclock s))) (T (Suc r)) tb cs)"
    using rep c(2,3) by (simp add: ev_inv_def)
  moreover have "tb \<le> T (Suc r)" using m by linarith
  note rearmed_deadlines [OF inv this, of tm "d - unat (adjust_set (evclock s))"]
  ultimately show ?thesis using c(1)
    by (intro exI [of _ "s\<lparr>evbase := of_nat (T r), evclock := c\<rparr>"] exI [of _ "rearmed tm (d - unat (adjust_set (evclock s))) (T (Suc r)) tb cs"]) simp
qed

text \<open>The end of \<open>evtimer_add\<close>: interrupts are restored and a requested switch is made.\<close>

definition after_add :: "kernel \<Rightarrow> kernel" where
  "after_add k = (if sched_context_switch_request k then thread_yield_higher k else k)"

lemma ev_caught_up:
  assumes "ev_inv T clk te tb s ds cs" "now = T (zreads (evclock s))"
  shows "deadlines now (dcatch (now - te) ds) = delay (lateness now (deadlines te ds)) (deadlines te ds)"
proof (cases "ds = []")
  case False
  then show ?thesis using assms by (intro deadlines_dcatch) (simp add: ev_inv_def)
qed (simp add: delay_def)

text \<open>What adding an event makes of the list and, if the event is the first one, of the timer.\<close>

lemma evtimer_add_steps:
  assumes inv: "ev_inv T clk te tb s ds cs" and e: "e \<notin> fst ` set ds" and r: "r = zreads (evclock s)"
    and fit: "T (r + 3) < tb + 2 ^ 32"
  shows "\<exists>s2 r2. r \<le> r2 \<and> r2 \<le> Suc r \<and> erep s2 (dins e (unat (evoff s e)) (dcatch (T r - te) ds)) \<and> z_inv T clk tb (evclock s2) cs \<and>
     adjust_set (evclock s2) = adjust_set (evclock s) \<and> zreads (evclock s2) = r2 \<and> evkern s2 = (evkern s)\<lparr>irq_enabled := False\<rparr> \<and>
     (ds \<noteq> [] \<longrightarrow> ev_inv T clk (T r) tb s2 (dins e (unat (evoff s e)) (dcatch (T r - te) ds)) cs) \<and>
     evtimer_add clk tm e s = do { s' \<leftarrow> (if evhead s2 = Some e then set_timer clk tm s2 else Some s2);
       Some (s'\<lparr>evkern := after_add ((evkern s')\<lparr>irq_enabled := irq_enabled (evkern s)\<rparr>)\<rparr>) }"
proof -
  let ?s = "s\<lparr>evkern := (evkern s)\<lparr>irq_enabled := False\<rparr>\<rparr>" and ?ds = "dcatch (T r - te) ds"
  have inv': "ev_inv T clk te tb ?s ds cs" using inv by simp
  have "T (Suc r) \<le> T (r + 3)" by (rule z_inv_mono [of T clk tb "evclock s" cs]) (use inv in \<open>auto simp: ev_inv_def\<close>)
  then have fit1: "T (Suc (zreads (evclock ?s))) < tb + 2 ^ 32" using fit r by simp
  obtain s1 where s1: "update_head_offset clk ?s = Some s1" "ev_inv T clk (T r) tb s1 ?ds cs" "evkern s1 = evkern ?s"
      "adjust_set (evclock s1) = adjust_set (evclock s)" "zreads (evclock s1) = (if ds = [] then r else Suc r)" "evoff s1 e = evoff s e"
    using update_head_offset_spec [OF inv' refl fit1] e r by (auto simp del: ev_inv_kern)
  have e': "e \<notin> fst ` set ?ds" using e fst_dcatch [of "T r - te" ds] by (metis list.set_map)
  obtain s2 where s2: "add_event_to_list e s1 = Some s2" "erep s2 (dins e (unat (evoff s e)) ?ds)" "ev_list_only s1 s2"
    using add_event_spec [OF _ e', of s1] s1(2,6) by (auto simp: ev_inv_def)
  have "ds \<noteq> [] \<Longrightarrow> ?ds \<noteq> []" by (cases "(T r - te, ds)" rule: dcatch.cases) auto
  then have i2: "ds \<noteq> [] \<Longrightarrow> ev_inv T clk (T r) tb s2 (dins e (unat (evoff s e)) ?ds) cs"
    using ev_inv_list_only [OF s1(2) s2(3,2)] by blast
  have "evtimer_add clk tm e s = do { s' \<leftarrow> (if evhead s2 = Some e then set_timer clk tm s2 else Some s2);
       Some (s'\<lparr>evkern := after_add ((evkern s')\<lparr>irq_enabled := irq_enabled (evkern s)\<rparr>)\<rparr>) }"
    using s1(1) s2(1) by (cases "if evhead s2 = Some e then set_timer clk tm s2 else Some s2")
      (auto simp: evtimer_add_def irq_disable_def irq_restore_def after_add_def Let_def)
  then show ?thesis using s1 s2 i2 by (intro exI [of _ s2] exI [of _ "zreads (evclock s2)"]) (auto simp: ev_list_only_def ev_inv_def)
qed

text \<open>
  Adding an event: with \<open>now\<close> the time \<open>evtimer_add\<close> reads, the event is due \<open>offset\<close> ticks after \<open>now\<close>, behind all events due at the same
  time or earlier; the deadlines of the other events are unchanged unless the first one is overdue, which delays all of them by its lateness. If the event is now
  the first one, the timer of the clock is set anew for it, exactly once and with the other timers of the clock unchanged, and the distances count
  from the moment the timer is set; otherwise the clock keeps its timers. Interrupts are restored and a requested context switch is made.
\<close>
theorem evtimer_add_deadlines:
  assumes inv: "ev_inv T clk te tb s ds cs" and e: "e \<notin> fst ` set ds" and now: "now = T (zreads (evclock s))"
    and fit: "T (zreads (evclock s) + 3) < tb + 2 ^ 32"
  shows "\<exists>s' te' tb' ds' cs'. evtimer_add clk tm e s = Some s' \<and> ev_inv T clk te' tb' s' ds' cs' \<and> evkern s' = after_add (evkern s) \<and> now \<le> te' \<and>
     deadlines now ds' = place e (now + unat (evoff s e)) (delay (lateness now (deadlines te ds)) (deadlines te ds)) \<and>
     (if fst (hd ds') = e
      then te' \<le> tb' \<and> deadlines tb' cs' = place tm (tb' + (unat (evoff s e) - unat (adjust_set (evclock s)))) (without tm (overdue_now tb' (deadlines tb cs)))
      else te' = now \<and> tb' = tb \<and> cs' = cs)"
proof -
  let ?r = "zreads (evclock s)" and ?v = "unat (evoff s e)"
  let ?ds = "dins e ?v (dcatch (now - te) ds)"
  obtain s2 r2 where s2: "?r \<le> r2" "r2 \<le> Suc ?r" "erep s2 ?ds" "z_inv T clk tb (evclock s2) cs" "adjust_set (evclock s2) = adjust_set (evclock s)"
      "zreads (evclock s2) = r2" "evkern s2 = (evkern s)\<lparr>irq_enabled := False\<rparr>" "ds \<noteq> [] \<longrightarrow> ev_inv T clk now tb s2 ?ds cs"
      "evtimer_add clk tm e s = do { s' \<leftarrow> (if evhead s2 = Some e then set_timer clk tm s2 else Some s2);
         Some (s'\<lparr>evkern := after_add ((evkern s')\<lparr>irq_enabled := irq_enabled (evkern s)\<rparr>)\<rparr>) }"
    using evtimer_add_steps [OF inv e refl fit, of tm] unfolding now by blast
  have dl: "deadlines now ?ds = place e (now + ?v) (delay (lateness now (deadlines te ds)) (deadlines te ds))"
    by (simp add: deadlines_dins ev_caught_up [OF inv now])
  have "e \<notin> fst ` set (dcatch (now - te) ds)" using e fst_dcatch [of "now - te" ds] by (metis list.set_map)
  then obtain b d rest where b: "?ds = (b, d) # rest" "b = e \<Longrightarrow> d = ?v" using dins_cons [of e _ ?v] by blast
  have hd: "evhead s2 = Some e \<longleftrightarrow> b = e" using erep_cases_head [OF s2(3)] b(1) by simp
  have kern: "after_add ((evkern s2)\<lparr>irq_enabled := irq_enabled (evkern s)\<rparr>) = after_add (evkern s)" using s2(7) by simp
  show ?thesis
  proof (cases "b = e")
    case True
    have "T (Suc (Suc r2)) \<le> T (?r + 3)" "T ?r \<le> T r2" "T r2 \<le> T (Suc r2)" by (rule z_inv_mono [OF s2(4)]; use s2(1,2) in simp)+
    then have m: "T (Suc (Suc r2)) < tb + 2 ^ 32" "now \<le> T r2" "T r2 \<le> T (Suc r2)" using fit now by linarith+
    obtain s3 cs' where s3: "set_timer clk tm s2 = Some s3" "ev_inv T clk (T r2) (T (Suc r2)) s3 ?ds cs'" "evkern s3 = evkern s2"
        "deadlines (T (Suc r2)) cs' = place tm (T (Suc r2) + (?v - unat (adjust_set (evclock s)))) (without tm (overdue_now (T (Suc r2)) (deadlines tb cs)))"
      using set_timer_inv [OF s2(3) [unfolded b(1)] s2(4) s2(6) [symmetric] m(1), of tm] b True s2(5) by auto
    let ?s = "s3\<lparr>evkern := after_add (evkern s)\<rparr>"
    have "evtimer_add clk tm e s = Some ?s" using s2(9) s3(1,3) hd True kern by simp
    then show ?thesis using s3(2,4) m dl b(1) True
      by (intro exI [of _ ?s] exI [of _ "T r2"] exI [of _ "T (Suc r2)"] exI [of _ ?ds] exI [of _ cs']) auto
  next
    case False
    then have "ds \<noteq> []" using b(1) by auto
    let ?s = "s2\<lparr>evkern := after_add (evkern s)\<rparr>"
    have "evtimer_add clk tm e s = Some ?s" using s2(9) hd False kern by simp
    then show ?thesis using s2(8) dl b(1) False \<open>ds \<noteq> []\<close>
      by (intro exI [of _ ?s] exI [of _ now] exI [of _ tb] exI [of _ ?ds] exI [of _ cs]) auto
  qed
qed

section \<open>The handler\<close>

text \<open>Callbacks that act on the kernel only, such as the one that sends a message.\<close>

definition on_kernel :: "(nat \<Rightarrow> kernel \<Rightarrow> kernel option) \<Rightarrow> nat \<Rightarrow> 'w evtimer \<Rightarrow> 'w evtimer option" where
  "on_kernel f e s = map_option (\<lambda>k. s\<lparr>evkern := k\<rparr>) (f e (evkern s))"

fun run_callbacks :: "(nat \<Rightarrow> kernel \<Rightarrow> kernel option) \<Rightarrow> nat list \<Rightarrow> kernel \<Rightarrow> kernel option" where
  "run_callbacks f [] k = Some k"
| "run_callbacks f (e # es) k = do { k \<leftarrow> f e k; run_callbacks f es k }"

lemma evtimer_msg_handler_on_kernel:
  "evtimer_msg_handler msg_of = on_kernel (\<lambda>e k. map_option snd (msg_send_int (msg_of e) (sender_pid (msgs k (msg_of e))) k))"
  by (intro ext) (auto simp: evtimer_msg_handler_def on_kernel_def option.map_comp comp_def split: Option.bind_splits)

lemma ev_handler_loop_spec:
  "erep s ds \<Longrightarrow> run_callbacks f (map fst (takeWhile (\<lambda>c. snd c = 0) ds)) (evkern s) = Some k \<Longrightarrow>
   \<exists>h. ev_handler_loop (on_kernel f) s = Some (s\<lparr>evhead := h, evkern := k\<rparr>) \<and>
     erep (s\<lparr>evhead := h, evkern := k\<rparr>) (dropWhile (\<lambda>c. snd c = 0) ds)"
proof (induction ds arbitrary: s)
  case Nil
  then have "evhead s = None" "evkern s = k" by (auto simp: erep_def)
  then show ?case using Nil.prems(1) by (intro exI [of _ None]) (subst ev_handler_loop.simps, auto simp: get_next_def erep_def)
next
  case (Cons c ds)
  obtain a d where c: "c = (a, d)" by force
  have h: "evhead s = Some a" "unat (evoff s a) = d" "erep (s\<lparr>evhead := evnext s a\<rparr>) ds" using Cons.prems(1) c by (auto simp: erep_def)
  show ?case
  proof (cases "d = 0")
    case True
    then have z: "evoff s a = 0" using h(2) by (simp add: unat_eq_zero)
    obtain k1 where k1: "f a (evkern s) = Some k1" "run_callbacks f (map fst (takeWhile (\<lambda>c. snd c = 0) ds)) k1 = Some k"
      using Cons.prems(2) True c by (auto split: Option.bind_splits)
    let ?s = "s\<lparr>evhead := evnext s a, evkern := k1\<rparr>"
    have "erep ?s ds" using h(3) by (simp add: erep_def)
    from Cons.IH [OF this] k1(2) obtain h' where "ev_handler_loop (on_kernel f) ?s = Some (?s\<lparr>evhead := h', evkern := k\<rparr>)"
      "erep (?s\<lparr>evhead := h', evkern := k\<rparr>) (dropWhile (\<lambda>c. snd c = 0) ds)" by auto
    moreover have "ev_handler_loop (on_kernel f) s = ev_handler_loop (on_kernel f) ?s"
      using h(1) z k1(1) by (subst ev_handler_loop.simps) (simp add: get_next_def on_kernel_def)
    ultimately show ?thesis using True c by (intro exI [of _ h']) (simp add: erep_def)
  next
    case False
    then have "evoff s a \<noteq> 0" "evkern s = k" using h(2) Cons.prems(2) c by auto
    then show ?thesis using h(1) False c Cons.prems(1)
      by (intro exI [of _ "Some a"]) (subst ev_handler_loop.simps, auto simp: get_next_def erep_def)
  qed
qed

lemma ztimer_remove_keeps:
  assumes inv: "z_inv T clk tb c cs"
  shows "\<exists>c' tb' cs'. ztimer_remove clk tm c = Some c' \<and> z_inv T clk tb' c' cs' \<and> deadlines tb' cs' = without tm (overdue_now tb' (deadlines tb cs))"
proof (cases "is_set c tm")
  case True
  with ztimer_remove_deadlines [OF inv refl] show ?thesis by blast
next
  case False
  then have n: "tm \<notin> fst ` set cs" using is_set_member [of c cs tm] inv by (auto simp: z_inv_def)
  have "max x tb = x" if "(a, x) \<in> set (deadlines tb cs)" for a x using deadlines_ge [OF that] by simp
  then have "overdue_now tb (deadlines tb cs) = deadlines tb cs" by (auto simp: overdue_now_def intro!: map_idI)
  moreover have "without tm (deadlines tb cs) = deadlines tb cs"
    using n deadlines_fst [of tb cs] unfolding without_def filter_id_conv by (metis imageI list.set_map)
  ultimately show ?thesis using False inv by (intro exI [of _ c] exI [of _ tb] exI [of _ cs]) (simp add: ztimer_remove_def)
qed

text \<open>Setting or stopping the timer of the clock for what is left of the events.\<close>

lemma update_timer_spec:
  assumes rep: "erep s ds" and inv: "z_inv T clk tb (evclock s) cs" and r: "r = zreads (evclock s)" and fit: "T (Suc (Suc r)) < tb + 2 ^ 32"
  shows "\<exists>s' tb' cs'. update_timer clk tm s = Some s' \<and> ev_inv T clk (T r) tb' s' ds cs' \<and> evkern s' = evkern s \<and>
     deadlines tb' cs' = (case ds of [] \<Rightarrow> without tm (overdue_now tb' (deadlines tb cs))
       | (_, d) # _ \<Rightarrow> place tm (tb' + (d - unat (adjust_set (evclock s)))) (without tm (overdue_now tb' (deadlines tb cs))))"
proof (cases ds)
  case Nil
  then have "evhead s = None" using rep by (simp add: erep_def)
  moreover obtain c' tb' cs' where "ztimer_remove clk tm (evclock s) = Some c'" "z_inv T clk tb' c' cs'"
      "deadlines tb' cs' = without tm (overdue_now tb' (deadlines tb cs))" using ztimer_remove_keeps [OF inv] by blast
  ultimately show ?thesis using Nil rep
    by (intro exI [of _ "s\<lparr>evclock := c'\<rparr>"] exI [of _ tb'] exI [of _ cs']) (simp add: update_timer_def ev_inv_def)
next
  case (Cons c ds1)
  obtain a d where c: "c = (a, d)" by force
  have "evhead s = Some a" using rep Cons c by (simp add: erep_def)
  then show ?thesis using set_timer_inv [OF rep [unfolded Cons c] inv r fit, of tm] Cons c by (auto simp: update_timer_def)
qed

lemma first_due:
  "map fst (takeWhile (\<lambda>c. snd c = t) (deadlines t ds)) = map fst (takeWhile (\<lambda>c. snd c = 0) ds)"
  "dropWhile (\<lambda>c. snd c = t) (deadlines t ds) = deadlines t (dropWhile (\<lambda>c. snd c = 0) ds)"
proof (induction ds)
  case (Cons c ds)
  obtain a d where c: "c = (a, d)" by force
  { case 1 then show ?case using Cons by (simp add: c) }
  { case 2 then show ?case using Cons by (simp add: c) }
qed simp_all

text \<open>
  (C21) The interrupt of the timer: when the first event is due, the handler terminates and calls the callback of exactly the events that share
  the first deadline, in the order in which they were added; the others stay queued in order. It sets the timer of the clock for the first of
  them, or stops it when none is left, and keeps the other timers of the clock. It counts what is left from the time it reads and not from the
  deadline: all later events are delayed by as much as the handler was late. The callbacks act on the kernel only, as the one does that sends a message.
\<close>
theorem evtimer_handler_fires:
  assumes inv: "ev_inv T clk te tb s ds cs" "ds \<noteq> []" and x: "x = snd (hd (deadlines te ds))" and now: "now = T (zreads (evclock s))"
    and due: "x \<le> now" "T (zreads (evclock s) + 2) < tb + 2 ^ 32"
    and cbs: "run_callbacks f (map fst (takeWhile (\<lambda>c. snd c = x) (deadlines te ds))) (evkern s) = Some k"
  shows "\<exists>s' tb' ds' cs'. evtimer_handler clk tm (on_kernel f) s = Some s' \<and> ev_inv T clk now tb' s' ds' cs' \<and> evkern s' = k \<and>
     deadlines now ds' = delay (now - x) (dropWhile (\<lambda>c. snd c = x) (deadlines te ds)) \<and>
     deadlines tb' cs' = (case ds' of [] \<Rightarrow> without tm (overdue_now tb' (deadlines tb cs))
       | (_, d) # _ \<Rightarrow> place tm (tb' + (d - unat (adjust_set (evclock s)))) (without tm (overdue_now tb' (deadlines tb cs))))"
proof -
  obtain e d rest where ds: "ds = (e, d) # rest" using inv(2) by (cases ds) auto
  then have xd: "x = te + d" using x by simp
  let ?s = "set_offset e 0 s" and ?ds = "(e, 0) # rest"
  have rep: "erep s ((e, d) # rest)" using inv(1) ds by (simp add: ev_inv_def)
  then have r: "dl_rep (evnext s) (evoff s) (evnext s e) rest" "e \<notin> fst ` set rest" "evhead s = Some e" by (auto simp: erep_def)
  have "dl_rep (evnext s) ((evoff s)(e := 0)) (evnext s e) rest" by (rule dl_rep_cong [OF r(1)]) (use r(2) in auto)
  then have rep0: "erep ?s ?ds" using rep by (auto simp: erep_def set_offset_def)
  have eq: "deadlines te ds = deadlines x ?ds" using ds xd by simp
  have "run_callbacks f (map fst (takeWhile (\<lambda>c. snd c = 0) ?ds)) (evkern ?s) = Some k"
    using cbs unfolding eq first_due(1) by (simp add: set_offset_def)
  from ev_handler_loop_spec [OF rep0 this] obtain h where
    h: "ev_handler_loop (on_kernel f) ?s = Some (?s\<lparr>evhead := h, evkern := k\<rparr>)"
      "erep (?s\<lparr>evhead := h, evkern := k\<rparr>) (dropWhile (\<lambda>c. snd c = 0) ?ds)" by blast
  let ?s1 = "?s\<lparr>evhead := h, evkern := k\<rparr>" and ?ds' = "dropWhile (\<lambda>c. snd c = 0) ?ds"
  have clock: "evclock ?s1 = evclock s" "evkern ?s1 = k" by (simp_all add: set_offset_def)
  have z: "z_inv T clk tb (evclock ?s1) cs" using inv(1) clock by (simp add: ev_inv_def)
  have "T (Suc (Suc (zreads (evclock ?s1)))) < tb + 2 ^ 32" using due(2) clock by simp
  from update_timer_spec [OF h(2) z refl this, of tm] obtain s' tb' cs' where
    u: "update_timer clk tm ?s1 = Some s'" "ev_inv T clk now tb' s' ?ds' cs'" "evkern s' = k"
      "deadlines tb' cs' = (case ?ds' of [] \<Rightarrow> without tm (overdue_now tb' (deadlines tb cs))
       | (_, d) # _ \<Rightarrow> place tm (tb' + (d - unat (adjust_set (evclock s)))) (without tm (overdue_now tb' (deadlines tb cs))))"
    unfolding clock now by blast
  have "deadlines now ?ds' = delay (now - x) (deadlines x ?ds')" using deadlines_delay [of x "now - x" ?ds'] due(1) by simp
  then have "deadlines now ?ds' = delay (now - x) (dropWhile (\<lambda>c. snd c = x) (deadlines te ds))" unfolding eq first_due(2) .
  moreover have "evtimer_handler clk tm (on_kernel f) s = Some s'" using r(3) h(1) u(1) by (simp add: evtimer_handler_def)
  ultimately show ?thesis using u(2-4) by blast
qed

text \<open>Removing an event: the deadlines of the others are unchanged but for the lateness of the first one, and the timer is set for the first event left.\<close>

lemma evtimer_del_deadlines:
  assumes inv: "ev_inv T clk te tb s ds cs" and now: "now = T (zreads (evclock s))" and fit: "T (zreads (evclock s) + 3) < tb + 2 ^ 32"
  shows "\<exists>s' te' tb' ds' cs'. evtimer_del clk tm e s = Some s' \<and> ev_inv T clk te' tb' s' ds' cs' \<and> evkern s' = evkern s \<and>
     deadlines now ds' = without e (delay (lateness now (deadlines te ds)) (deadlines te ds)) \<and>
     deadlines tb' cs' = (case ds' of [] \<Rightarrow> without tm (overdue_now tb' (deadlines tb cs))
       | (_, d) # _ \<Rightarrow> place tm (tb' + (d - unat (adjust_set (evclock s)))) (without tm (overdue_now tb' (deadlines tb cs))))"
proof -
  let ?s = "s\<lparr>evkern := (evkern s)\<lparr>irq_enabled := False\<rparr>\<rparr>" and ?ds = "dcatch (now - te) ds" and ?r = "zreads (evclock s)"
  have inv': "ev_inv T clk te tb ?s ds cs" and z: "z_inv T clk tb (evclock s) cs" using inv by (simp_all add: ev_inv_def)
  have "T (Suc ?r) \<le> T (?r + 3)" by (rule z_inv_mono [OF z]) simp
  then have fit1: "T (Suc (zreads (evclock ?s))) < tb + 2 ^ 32" using fit by simp
  obtain s1 where s1: "update_head_offset clk ?s = Some s1" "ev_inv T clk now tb s1 ?ds cs" "evkern s1 = evkern ?s"
      "adjust_set (evclock s1) = adjust_set (evclock s)" "zreads (evclock s1) \<le> Suc ?r"
    using update_head_offset_spec [OF inv' refl fit1] now by (auto simp del: ev_inv_kern)
  obtain s2 where s2: "del_event_from_list e s1 = Some s2" "erep s2 (ddel e ?ds)" "ev_list_only s1 s2"
    using del_event_spec [of s1 ?ds e] s1(2) by (auto simp: ev_inv_def)
  note o = s2(3) [unfolded ev_list_only_def]
  have z2: "z_inv T clk tb (evclock s2) cs" using s1(2) o by (simp add: ev_inv_def)
  have "T (Suc (Suc (zreads (evclock s2)))) \<le> T (?r + 3)" by (rule z_inv_mono [OF z2]) (use s1(5) o in simp)
  then have "T (Suc (Suc (zreads (evclock s2)))) < tb + 2 ^ 32" using fit by linarith
  note u = update_timer_spec [OF s2(2) z2 refl this, of tm]
  have adj: "adjust_set (evclock s2) = adjust_set (evclock s)" using o s1(4) by simp
  obtain s3 tb' cs' where
    s3: "update_timer clk tm s2 = Some s3" "ev_inv T clk (T (zreads (evclock s2))) tb' s3 (ddel e ?ds) cs'" "evkern s3 = evkern s2"
      "deadlines tb' cs' = (case ddel e ?ds of [] \<Rightarrow> without tm (overdue_now tb' (deadlines tb cs))
       | (_, d) # _ \<Rightarrow> place tm (tb' + (d - unat (adjust_set (evclock s)))) (without tm (overdue_now tb' (deadlines tb cs))))"
    using u unfolding adj by blast
  have "distinct (map fst ?ds)" using inv by (simp add: ev_inv_def erep_def)
  then have "deadlines now (ddel e ?ds) = without e (delay (lateness now (deadlines te ds)) (deadlines te ds))"
    by (simp add: without_deadlines ev_caught_up [OF inv now])
  moreover have "evtimer_del clk tm e s = Some (s3\<lparr>evkern := evkern s\<rparr>)"
    using s1(1,3) s2(1) s3(1,3) o by (simp add: evtimer_del_def irq_disable_def irq_restore_def)
  ultimately show ?thesis using s3(2,4)
    by (intro exI [of _ "s3\<lparr>evkern := evkern s\<rparr>"] exI [of _ "T (zreads (evclock s2))"] exI [of _ tb'] exI [of _ "ddel e ?ds"] exI [of _ cs']) simp
qed

section \<open>Examples\<close>

text \<open>An event timer with one event, due 100 ticks after time 5.\<close>

definition one_event :: "(nat \<times> nat) list evtimer" where
  "one_event = \<lparr>evnext = (\<lambda>_. None), evoff = (\<lambda>_. 100), evhead = Some 1, evbase = 5, evclock = idle_clock\<lparr>zbase := 5\<rparr>, evkern = two_threads\<rparr>"

lemma one_event_inv: "5 \<le> t \<Longrightarrow> t < 1000 \<Longrightarrow> ev_inv (\<lambda>n. t + n) (\<lambda>n. of_nat (t + n)) 5 5 one_event [(1, 100)] []"
proof -
  assume t: "5 \<le> t" "t < 1000"
  have "clock_ok (\<lambda>n. t + n) (\<lambda>n. of_nat (t + n)) 5 (idle_clock\<lparr>zbase := 5\<rparr>)"
    by (rule unset_clock, rule unat_counter) (use t in \<open>simp_all add: idle_clock_def\<close>)
  then show ?thesis using t by (auto simp: ev_inv_def z_inv_def zrep_def erep_def one_event_def idle_clock_def)
qed

theorem evtimer_add_deadlines_witness:
  "\<exists>s' ds'. evtimer_add (\<lambda>n. of_nat (20 + n)) 7 2 (one_event\<lparr>evoff := (evoff one_event)(2 := 30)\<rparr>) = Some s' \<and>
     deadlines 20 ds' = [(2, 50), (1, 105)] \<and> erep s' ds'"
proof -
  let ?s = "one_event\<lparr>evoff := (evoff one_event)(2 := 30)\<rparr>" and ?T = "\<lambda>n. 20 + n" and ?c = "\<lambda>n. of_nat (20 + n) :: u32"
  have i: "ev_inv ?T ?c 5 5 ?s [(1, 100)] []" using one_event_inv [of 20] by (auto simp: ev_inv_def erep_def one_event_def)
  have p: "2 \<notin> fst ` set [(1 :: nat, 100 :: nat)]" "20 = ?T (zreads (evclock ?s))" "?T (zreads (evclock ?s) + 3) < 5 + 2 ^ 32"
    by (simp_all add: one_event_def idle_clock_def)
  obtain s' ds' te' tb' cs' where h: "evtimer_add ?c 7 2 ?s = Some s'" "ev_inv ?T ?c te' tb' s' ds' cs'"
    "deadlines 20 ds' = place 2 (20 + unat (evoff ?s 2)) (delay (lateness 20 (deadlines 5 [(1 :: nat, 100)])) (deadlines 5 [(1, 100)]))"
    using evtimer_add_deadlines [OF i p, of 7] by (elim exE conjE) (rule that, assumption+)
  have "deadlines 20 ds' = [(2, 50), (1, 105)]" using h(3) by (simp add: place_def delay_def lateness_def)
  moreover have "erep s' ds'" using h(2) by (simp add: ev_inv_def)
  ultimately show ?thesis using h(1) by blast
qed

theorem evtimer_handler_fires_witness:
  "\<exists>s'. evtimer_handler (\<lambda>n. of_nat (105 + n)) 7 (on_kernel (\<lambda>e k. Some (k\<lparr>sched_context_switch_request := e = 1\<rparr>))) one_event = Some s' \<and>
     evhead s' = None \<and> sched_context_switch_request (evkern s')"
proof -
  let ?f = "\<lambda>e k. Some (k\<lparr>sched_context_switch_request := e = 1\<rparr>)" and ?c = "\<lambda>n. of_nat (105 + n) :: u32"
  have "run_callbacks ?f (map fst (takeWhile (\<lambda>c. snd c = 105) (deadlines 5 [(1, 100)]))) (evkern one_event) =
      Some (two_threads\<lparr>sched_context_switch_request := True\<rparr>)" by (simp add: one_event_def)
  note cbs = this
  have i: "ev_inv (\<lambda>n. 105 + n) ?c 5 5 one_event [(1, 100)] []" "[(1 :: nat, 100 :: nat)] \<noteq> []" "105 = snd (hd (deadlines 5 [(1 :: nat, 100)]))"
      "105 = 105 + zreads (evclock one_event)" "105 \<le> (105 :: nat)" "105 + (zreads (evclock one_event) + 2) < 5 + 2 ^ 32"
    using one_event_inv [of 105] by (simp_all add: one_event_def idle_clock_def)
  obtain s' ds' tb' cs' where h: "evtimer_handler ?c 7 (on_kernel ?f) one_event = Some s'" "ev_inv (\<lambda>n. 105 + n) ?c 105 tb' s' ds' cs'"
    "evkern s' = two_threads\<lparr>sched_context_switch_request := True\<rparr>"
    "deadlines 105 ds' = delay (105 - 105) (dropWhile (\<lambda>c. snd c = 105) (deadlines 5 [(1, 100)]))"
    using evtimer_handler_fires [OF i cbs, of 7] by (elim exE conjE) (rule that, assumption+)
  have "ds' = []" using h(4) by (simp add: delay_def)
  then have "evhead s' = None" using h(2) by (simp add: ev_inv_def erep_def)
  with h(1,3) show ?thesis by simp
qed

end
