(* ===== verification/Shell.thy ===== *)
theory Shell
  imports Mem
begin

text \<open>
  The shell (sys/shell/shell.c): reading a line with primitive editing, breaking it into words inside the line buffer, finding the handler of
  a command and calling it. The buffer is a list of characters; positions are indices, and every access outside the buffer is \<open>None\<close>, as
  is a failed assertion. The input is the list of characters that \<open>getchar\<close> returns before the end of file. What the shell does with a line is a
  value of type \<open>action\<close>: calls of handlers are recorded with their arguments. The echo on the terminal is not modelled; hooks are compiled out.
\<close>

section \<open>The program\<close>

abbreviation NUL :: char where "NUL \<equiv> CHR 0x00"
abbreviation ETX :: char where "ETX \<equiv> CHR 0x03"
abbreviation BS :: char where "BS \<equiv> CHR 0x08"
abbreviation DEL :: char where "DEL \<equiv> CHR 0x7F"
abbreviation TAB :: char where "TAB \<equiv> CHR 0x09"
abbreviation LF :: char where "LF \<equiv> CHR 0x0A"
abbreviation CR :: char where "CR \<equiv> CHR 0x0D"
abbreviation SPACE :: char where "SPACE \<equiv> CHR 0x20"
abbreviation SQUOTE :: char where "SQUOTE \<equiv> CHR 0x27"
abbreviation DQUOTE :: char where "DQUOTE \<equiv> CHR 0x22"
abbreviation ESCAPECHAR :: char where "ESCAPECHAR \<equiv> CHR 0x5C"

abbreviation PARSE_BLANK :: u8 where "PARSE_BLANK \<equiv> 0x0"
abbreviation PARSE_UNQUOTED :: u8 where "PARSE_UNQUOTED \<equiv> 0x1"
abbreviation PARSE_SINGLEQUOTE :: u8 where "PARSE_SINGLEQUOTE \<equiv> 0x2"
abbreviation PARSE_DOUBLEQUOTE :: u8 where "PARSE_DOUBLEQUOTE \<equiv> 0x3"
abbreviation PARSE_UNQUOTED_ESC :: u8 where "PARSE_UNQUOTED_ESC \<equiv> 0x5"

definition escape_toggle :: "u8 \<Rightarrow> u8" where
  "escape_toggle s = s XOR 0x4"

text \<open>A command of a command list has a name and a handler that may be NULL.\<close>

type_synonym 'h command = "string \<times> 'h option"

fun search_commands :: "'h command list \<Rightarrow> string \<Rightarrow> 'h option" where
  "search_commands [] command = None"
| "search_commands ((name, handler) # entries) command =
     (if name = command then handler else search_commands entries command)"

definition find_handler :: "'h command list option \<Rightarrow> 'h command list option \<Rightarrow> string \<Rightarrow> 'h option" where
  "find_handler builtin command_list command =
     (let handler = (case command_list of Some l \<Rightarrow> search_commands l command | None \<Rightarrow> None)
      in case handler of
           Some h \<Rightarrow> Some h
         | None \<Rightarrow> (case builtin of Some l \<Rightarrow> search_commands l command | None \<Rightarrow> None))"

text \<open>\<open>*writepos++ = c\<close>\<close>

definition emit :: "char \<Rightarrow> nat \<Rightarrow> string \<Rightarrow> (nat \<times> string) option" where
  "emit c writepos line = map_option (\<lambda>l. (Suc writepos, l)) (store (At writepos) c line)"

text \<open>One pass of the loop of \<open>handle_input_line\<close>; the last part is the one for \<open>is_wordbreak\<close>.\<close>

definition parse_quoted :: "char \<Rightarrow> char \<Rightarrow> nat \<Rightarrow> u8 \<Rightarrow> nat \<Rightarrow> string \<Rightarrow> (nat \<times> u8 \<times> nat \<times> string) option" where
  "parse_quoted wordbreak c argc pstate writepos line =
     (if c = wordbreak then
        Some (argc, (if wordbreak = SQUOTE \<or> wordbreak = DQUOTE then PARSE_UNQUOTED else pstate), writepos, line)
      else if c = ESCAPECHAR then Some (argc, escape_toggle pstate, writepos, line)
      else do { (writepos, line) \<leftarrow> emit c writepos line; Some (argc, pstate, writepos, line) })"

definition parse_char :: "char \<Rightarrow> nat \<Rightarrow> u8 \<Rightarrow> nat \<Rightarrow> string \<Rightarrow> (nat \<times> u8 \<times> nat \<times> string) option" where
  "parse_char c argc pstate writepos line =
     (if pstate = PARSE_BLANK then
        (let argc = (if c \<noteq> SPACE \<and> c \<noteq> TAB then argc + 1 else argc)
         in if c = SQUOTE then Some (argc, PARSE_SINGLEQUOTE, writepos, line)
            else if c = DQUOTE then Some (argc, PARSE_DOUBLEQUOTE, writepos, line)
            else if c = ESCAPECHAR then Some (argc, PARSE_UNQUOTED_ESC, writepos, line)
            else if c \<noteq> SPACE \<and> c \<noteq> TAB then
              do { (writepos, line) \<leftarrow> emit c writepos line; Some (argc, PARSE_UNQUOTED, writepos, line) }
            else Some (argc, pstate, writepos, line))
      else if pstate = PARSE_UNQUOTED then
        (if c = SQUOTE then Some (argc, PARSE_SINGLEQUOTE, writepos, line)
         else if c = DQUOTE then Some (argc, PARSE_DOUBLEQUOTE, writepos, line)
         else if c = ESCAPECHAR then Some (argc, escape_toggle pstate, writepos, line)
         else if c = SPACE \<or> c = TAB then
           do { (writepos, line) \<leftarrow> emit NUL writepos line; Some (argc, PARSE_BLANK, writepos, line) }
         else do { (writepos, line) \<leftarrow> emit c writepos line; Some (argc, pstate, writepos, line) })
      else if pstate = PARSE_SINGLEQUOTE then parse_quoted SQUOTE c argc pstate writepos line
      else if pstate = PARSE_DOUBLEQUOTE then parse_quoted DQUOTE c argc pstate writepos line
      else do { (writepos, line) \<leftarrow> emit c writepos line; Some (argc, escape_toggle pstate, writepos, line) })"

partial_function (option) parse_loop ::
  "nat \<Rightarrow> nat \<Rightarrow> u8 \<Rightarrow> nat \<Rightarrow> string \<Rightarrow> (nat \<times> u8 \<times> nat \<times> string) option" where
  "parse_loop readpos argc pstate writepos line =
     (if readpos < length line then
        if line ! readpos = NUL then Some (argc, pstate, writepos, line)
        else
          do { (argc, pstate, writepos, line) \<leftarrow> parse_char (line ! readpos) argc pstate writepos line;
               parse_loop (Suc readpos) argc pstate writepos line }
      else None)"

text \<open>The string at a position, up to its terminator; \<open>None\<close> if there is no terminator in the buffer.\<close>

definition string_at :: "nat \<Rightarrow> string \<Rightarrow> string option" where
  "string_at p line = (if NUL \<in> set (drop p line) then Some (takeWhile (\<lambda>c. c \<noteq> NUL) (drop p line)) else None)"

fun fill_argv :: "nat \<Rightarrow> nat \<Rightarrow> string \<Rightarrow> nat list option" where
  "fill_argv 0 readpos line = Some []"
| "fill_argv (Suc n) readpos line =
     do { s \<leftarrow> string_at readpos line;
          argv \<leftarrow> fill_argv n (readpos + length s + 1) line;
          Some (readpos # argv) }"

text \<open>What becomes of a line; a call of a handler has \<open>argv\<close> as positions in the buffer, with the strings that stand there.\<close>

datatype 'h action = Incorrect_quoting | Empty_line | Call 'h "nat list" "string list" | Help | Not_found string | Line_too_long

fun strings_at :: "nat list \<Rightarrow> string \<Rightarrow> string list option" where
  "strings_at [] line = Some []"
| "strings_at (p # ps) line = do { s \<leftarrow> string_at p line; ss \<leftarrow> strings_at ps line; Some (s # ss) }"

definition handle_input_line ::
  "'h command list option \<Rightarrow> 'h command list option \<Rightarrow> string \<Rightarrow> ('h action \<times> string) option" where
  "handle_input_line builtin command_list line =
     do { (argc, pstate, writepos, line) \<leftarrow> parse_loop 0 0 PARSE_BLANK 0 line;
          line \<leftarrow> store (At writepos) NUL line;
          if pstate \<noteq> PARSE_BLANK \<and> pstate \<noteq> PARSE_UNQUOTED then Some (Incorrect_quoting, line)
          else if argc = 0 then Some (Empty_line, line)
          else
            do { argv \<leftarrow> fill_argv argc 0 line;
                 command \<leftarrow> string_at (hd argv) line;
                 case find_handler builtin command_list command of
                   Some h \<Rightarrow> do { args \<leftarrow> strings_at argv line; Some (Call h argv args, line) }
                 | None \<Rightarrow> if ''help'' = command then Some (Help, line) else Some (Not_found command, line) } }"

definition EOF :: int where "EOF = - 1"
definition ENOBUFS :: int where "ENOBUFS = 105"

text \<open>The loop of \<open>readline\<close>; the result is what it returns, the buffer and the input that is left.\<close>

primrec readline_loop :: "nat \<Rightarrow> string \<Rightarrow> nat \<Rightarrow> bool \<Rightarrow> string \<Rightarrow> (int \<times> string \<times> string) option" where
  "readline_loop sz [] curr_pos length_exceeded buf =
     (if curr_pos < sz then Some (EOF, buf, []) else None)"
| "readline_loop sz (c # input) curr_pos length_exceeded buf =
     (if \<not> curr_pos < sz then None
      else if c = ETX then do { buf \<leftarrow> store (At 0) NUL buf; Some (0, buf, input) }
      else if c = CR \<or> c = LF then
        do { buf \<leftarrow> store (At curr_pos) NUL buf;
             Some (if length_exceeded then - ENOBUFS else int curr_pos, buf, input) }
      else if c = BS \<or> c = DEL then
        (if curr_pos > 0 then
           (let curr_pos = curr_pos - 1
            in if curr_pos < sz
               then do { buf \<leftarrow> store (At curr_pos) NUL buf; readline_loop sz input curr_pos False buf }
               else readline_loop sz input curr_pos length_exceeded buf)
         else readline_loop sz input curr_pos length_exceeded buf)
      else if curr_pos < sz - 1 then
        do { buf \<leftarrow> store (At curr_pos) c buf; readline_loop sz input (curr_pos + 1) length_exceeded buf }
      else readline_loop sz input curr_pos True buf)"

definition readline :: "nat \<Rightarrow> string \<Rightarrow> string \<Rightarrow> (int \<times> string \<times> string) option" where
  "readline sz input buf = (if sz > 0 then readline_loop sz input 0 False buf else None)"

partial_function (option) shell_run_once ::
  "'h command list option \<Rightarrow> 'h command list option \<Rightarrow> nat \<Rightarrow> string \<Rightarrow> string \<Rightarrow> ('h action list \<times> string) option" where
  "shell_run_once builtin shell_commands len input line_buf =
     do { (res, line_buf, input) \<leftarrow> readline len input line_buf;
          if res = EOF then Some ([], line_buf)
          else
            do { (act, line_buf) \<leftarrow>
                   (if res = - ENOBUFS then Some (Line_too_long, line_buf)
                    else handle_input_line builtin shell_commands line_buf);
                 (acts, line_buf) \<leftarrow> shell_run_once builtin shell_commands len input line_buf;
                 Some (act # acts, line_buf) } }"

section \<open>Words\<close>

definition blank :: "char \<Rightarrow> bool" where
  "blank c \<longleftrightarrow> c = SPACE \<or> c = TAB"

text \<open>
  The meaning of a line: words are separated by blanks; inside single or double quotes blanks and the other quote are ordinary characters; a backslash
  makes the next character an ordinary one everywhere. \<open>word_of\<close> gives a word and the rest behind the blank that ends it, \<open>quoted\<close> the same inside quotes.
\<close>

definition cons_word :: "char \<Rightarrow> (string \<times> string) option \<Rightarrow> (string \<times> string) option" where
  "cons_word c = map_option (\<lambda>(w, rest). (c # w, rest))"

fun word_of :: "string \<Rightarrow> (string \<times> string) option" and quoted :: "char \<Rightarrow> string \<Rightarrow> (string \<times> string) option" where
  "word_of [] = Some ([], [])"
| "word_of (c # s) =
     (if c = SQUOTE \<or> c = DQUOTE then quoted c s
      else if c = ESCAPECHAR then (case s of [] \<Rightarrow> None | x # s \<Rightarrow> cons_word x (word_of s))
      else if blank c then Some ([], s)
      else cons_word c (word_of s))"
| "quoted q [] = None"
| "quoted q (c # s) =
     (if c = q then word_of s
      else if c = ESCAPECHAR then (case s of [] \<Rightarrow> None | x # s \<Rightarrow> cons_word x (quoted q s))
      else cons_word c (quoted q s))"

lemma word_of_shorter:
  "word_of s = Some (w, rest) \<Longrightarrow> length rest \<le> length s"
  "quoted q s = Some (w, rest) \<Longrightarrow> length rest \<le> length s"
  by (induction s and q s arbitrary: w and w rule: word_of_quoted.induct)
    (auto simp: cons_word_def split: if_splits list.splits intro!: le_SucI)

function split_words :: "string \<Rightarrow> string list option" where
  "split_words [] = Some []"
| "split_words (c # s) =
     (if blank c then split_words s
      else case word_of (c # s) of None \<Rightarrow> None | Some (w, rest) \<Rightarrow> map_option ((#) w) (split_words rest))"
  by pat_completeness auto

lemma word_of_rest: "word_of (c # s) = Some (w, rest) \<Longrightarrow> length rest < Suc (length s)"
  by (auto simp: cons_word_def less_Suc_eq_le split: if_splits list.splits dest!: word_of_shorter)

termination split_words
  by (relation "measure length") (auto simp del: word_of.simps dest: word_of_rest)

section \<open>The parser finds the words\<close>

text \<open>The transitions of the parser: the next state and the character that is written.\<close>

definition transit :: "char \<Rightarrow> u8 \<Rightarrow> u8 \<times> char option" where
  "transit c st =
     (if st = PARSE_BLANK then
        (if c = SQUOTE then (PARSE_SINGLEQUOTE, None) else if c = DQUOTE then (PARSE_DOUBLEQUOTE, None)
         else if c = ESCAPECHAR then (PARSE_UNQUOTED_ESC, None) else if blank c then (PARSE_BLANK, None) else (PARSE_UNQUOTED, Some c))
      else if st = PARSE_UNQUOTED then
        (if c = SQUOTE then (PARSE_SINGLEQUOTE, None) else if c = DQUOTE then (PARSE_DOUBLEQUOTE, None)
         else if c = ESCAPECHAR then (PARSE_UNQUOTED_ESC, None) else if blank c then (PARSE_BLANK, Some NUL) else (PARSE_UNQUOTED, Some c))
      else if st = PARSE_SINGLEQUOTE then
        (if c = SQUOTE then (PARSE_UNQUOTED, None) else if c = ESCAPECHAR then (6, None) else (st, Some c))
      else if st = PARSE_DOUBLEQUOTE then
        (if c = DQUOTE then (PARSE_UNQUOTED, None) else if c = ESCAPECHAR then (7, None) else (st, Some c))
      else (st XOR 4, Some c))"

definition state_ok :: "u8 \<Rightarrow> bool" where
  "state_ok st \<longleftrightarrow> st \<in> {0, 1, 2, 3, 5, 6, 7}"

lemma transit_ok: "state_ok st \<Longrightarrow> state_ok (fst (transit c st))"
  by (auto simp: state_ok_def transit_def)

definition written :: "char option \<Rightarrow> nat \<Rightarrow> string \<Rightarrow> nat \<times> string" where
  "written e wp line = (case e of None \<Rightarrow> (wp, line) | Some x \<Rightarrow> (Suc wp, line[wp := x]))"

lemma parse_char_transit:
  assumes "state_ok st" "wp < length line"
  shows "parse_char c argc st wp line =
     Some (argc + (if st = PARSE_BLANK \<and> \<not> blank c then 1 else 0), fst (transit c st), written (snd (transit c st)) wp line)"
  using assms unfolding state_ok_def
  by (auto simp: parse_char_def parse_quoted_def transit_def written_def emit_def escape_toggle_def blank_def)

text \<open>What the rest of a line means in a state: in all states but \<open>PARSE_BLANK\<close> the first word continues the one that is being read.\<close>

definition open_word :: "u8 \<Rightarrow> string \<Rightarrow> (string \<times> string) option" where
  "open_word st s =
     (if st = PARSE_UNQUOTED then word_of s
      else if st = PARSE_SINGLEQUOTE then quoted SQUOTE s
      else if st = PARSE_DOUBLEQUOTE then quoted DQUOTE s
      else case s of [] \<Rightarrow> None
        | x # s \<Rightarrow> cons_word x (if st = 5 then word_of s else if st = 6 then quoted SQUOTE s else quoted DQUOTE s))"

definition words_in :: "u8 \<Rightarrow> string \<Rightarrow> string list option" where
  "words_in st s =
     (if st = PARSE_BLANK then split_words s
      else case open_word st s of None \<Rightarrow> None | Some (w, rest) \<Rightarrow> map_option ((#) w) (split_words rest))"

fun push :: "char option \<Rightarrow> string list \<Rightarrow> string list" where
  "push None ws = ws"
| "push (Some e) ws = (if e = NUL then [] # ws else (e # hd ws) # tl ws)"

lemma words_in_open:
  "st \<noteq> PARSE_BLANK \<Longrightarrow> open_word st (c # s) = cons_word c (open_word st' s) \<Longrightarrow> st' \<noteq> PARSE_BLANK \<Longrightarrow> c \<noteq> NUL \<Longrightarrow>
   words_in st (c # s) = map_option (push (Some c)) (words_in st' s)"
  by (auto simp: words_in_def cons_word_def option.map_comp comp_def split: option.split)

lemma words_in_same:
  "st \<noteq> PARSE_BLANK \<Longrightarrow> open_word st (c # s) = open_word st' s \<Longrightarrow> st' \<noteq> PARSE_BLANK \<Longrightarrow>
   words_in st (c # s) = map_option (push None) (words_in st' s)"
  by (simp add: words_in_def option.map_comp comp_def split: option.split)

lemma push_None [simp]: "map_option (push None) v = v"
  by (cases v) auto

lemma words_in_unquoted:
  assumes "c \<noteq> NUL"
  shows "words_in 1 (c # s) = map_option (push (snd (transit c 1))) (words_in (fst (transit c 1)) s)"
proof -
  consider "c = SQUOTE" | "c = DQUOTE" | "c = ESCAPECHAR" | "blank c" | "c \<noteq> SQUOTE" "c \<noteq> DQUOTE" "c \<noteq> ESCAPECHAR" "\<not> blank c" by blast
  then show ?thesis
  proof cases
    case 1
    then show ?thesis using words_in_same [of 1 c s 2] by (simp add: transit_def open_word_def)
  next
    case 2
    then show ?thesis using words_in_same [of 1 c s 3] by (simp add: transit_def open_word_def)
  next
    case 3
    then show ?thesis using words_in_same [of 1 c s 5] by (cases s) (simp_all add: transit_def open_word_def)
  next
    case 4
    then have "c = SPACE \<or> c = TAB" by (simp add: blank_def)
    then have "transit c 1 = (0, Some NUL)" "open_word 1 (c # s) = Some ([], s)" by (auto simp: transit_def open_word_def blank_def)
    then show ?thesis by (simp add: words_in_def) (rule arg_cong [where f = "\<lambda>f. map_option f (split_words s)"], simp add: fun_eq_iff)
  next
    case 5
    then show ?thesis using words_in_open [of 1 c s 1] assms by (simp add: transit_def open_word_def)
  qed
qed

lemma words_in_quoted:
  assumes "(q, st, st') = (SQUOTE, 2, 6) \<or> (q, st, st') = (DQUOTE, 3, 7)" "c \<noteq> NUL"
  shows "words_in st (c # s) =
     (if c = q then words_in 1 s else if c = ESCAPECHAR then words_in st' s else map_option (push (Some c)) (words_in st s))"
proof -
  have o: "open_word st t = quoted q t" "open_word st' t = (case t of [] \<Rightarrow> None | x # t \<Rightarrow> cons_word x (quoted q t))"
    "st \<noteq> 0" "st' \<noteq> 0" for t
    using assms(1) by (auto simp: open_word_def simp del: word_of.simps quoted.simps split: list.split)
  consider "c = q" | "c = ESCAPECHAR" "c \<noteq> q" | "c \<noteq> ESCAPECHAR" "c \<noteq> q" by blast
  then show ?thesis
  proof cases
    case 1
    have "open_word 1 s = word_of s" by (simp add: open_word_def)
    then have "open_word st (c # s) = open_word 1 s" using 1 by (simp only: o) simp
    then show ?thesis using words_in_same [of st c s 1] 1 o by simp
  next
    case 2
    then have "open_word st (c # s) = open_word st' s" by (simp only: o) simp
    then show ?thesis using words_in_same [of st c s st'] 2 o by simp
  next
    case 3
    then have "open_word st (c # s) = cons_word c (open_word st s)" by (simp only: o) simp
    then show ?thesis using words_in_open [of st c s st] 3 o assms(2) by simp
  qed
qed

lemma words_in_step:
  assumes "state_ok st" "c \<noteq> NUL"
  shows "words_in st (c # s) = map_option (push (snd (transit c st))) (words_in (fst (transit c st)) s)"
proof -
  consider "st = 0" | "st = 1" | "st = 2" | "st = 3" | "st \<in> {5, 6, 7}" using assms(1) by (auto simp: state_ok_def)
  then show ?thesis
  proof cases
    case 1
    show ?thesis
    proof (cases "blank c")
      case True
      then have "transit c 0 = (0, None)" by (auto simp: transit_def blank_def)
      then show ?thesis using 1 True by (simp add: words_in_def)
    next
      case False
      then have "words_in 0 (c # s) = words_in 1 (c # s)" "transit c 0 = transit c 1"
        by (simp_all add: words_in_def open_word_def transit_def)
      then show ?thesis using 1 words_in_unquoted [OF assms(2)] by simp
    qed
  next
    case 2
    then show ?thesis using words_in_unquoted [OF assms(2)] by simp
  next
    case 3
    then show ?thesis using words_in_quoted [of SQUOTE 2 6 c s] assms(2) by (simp add: transit_def)
  next
    case 4
    then show ?thesis using words_in_quoted [of DQUOTE 3 7 c s] assms(2) by (simp add: transit_def)
  next
    case 5
    then consider "st = 5" | "st = 6" | "st = 7" by blast
    then show ?thesis
    proof cases
      case 1
      then show ?thesis using words_in_open [of 5 c s 1] assms(2) by (simp add: transit_def open_word_def)
    next
      case 2
      then show ?thesis using words_in_open [of 6 c s 2] assms(2) by (simp add: transit_def open_word_def)
    next
      case 3
      then show ?thesis using words_in_open [of 7 c s 3] assms(2) by (simp add: transit_def open_word_def)
    qed
  qed
qed

text \<open>Words behind each other in a buffer, each with its terminator.\<close>

definition laid_out :: "string list \<Rightarrow> string" where
  "laid_out ws = concat (map (\<lambda>w. w @ [NUL]) ws)"

lemma laid_out_simps [simp]: "laid_out [] = []" "laid_out (w # ws) = w @ NUL # laid_out ws"
  by (simp_all add: laid_out_def)

lemma laid_out_push: "e = NUL \<or> ws \<noteq> [] \<Longrightarrow> laid_out (push (Some e) ws) = e # laid_out ws"
  by (cases ws) auto

lemma words_in_nonempty: "words_in st s = Some ws \<Longrightarrow> st \<noteq> PARSE_BLANK \<Longrightarrow> ws \<noteq> []"
  by (auto simp: words_in_def split: option.splits)

lemma transit_emits: "state_ok st \<Longrightarrow> snd (transit c st) = Some e \<Longrightarrow> (e = NUL \<and> fst (transit c st) = 0) \<or> e = c \<and> fst (transit c st) \<noteq> 0"
  unfolding state_ok_def by (elim insertE emptyE) (auto simp: transit_def split: if_splits)

lemma transit_silent: "snd (transit c st) = None \<Longrightarrow> fst (transit c st) = 0 \<longleftrightarrow> st = 0 \<and> blank c"
  by (auto simp: transit_def blank_def split: if_splits)

lemma transit_blank: "st = 0 \<Longrightarrow> snd (transit c st) = Some x \<Longrightarrow> \<not> blank c \<and> fst (transit c st) = 1"
  by (auto simp: transit_def blank_def split: if_splits)

text \<open>
  What the parser leaves behind for the rest \<open>s\<close> of a line, when it starts to write at \<open>wp\<close>: it ends in one of the first two states exactly if the rest
  is made of words, and then these words stand in the buffer.
\<close>

definition parsed :: "nat \<Rightarrow> u8 \<Rightarrow> nat \<Rightarrow> string \<Rightarrow> nat \<Rightarrow> string \<Rightarrow> nat \<times> u8 \<times> nat \<times> string \<Rightarrow> bool" where
  "parsed argc st wp line n s r \<longleftrightarrow>
     (case r of (argc', st', wp', line') \<Rightarrow>
        wp' \<le> n \<and> length line' = length line \<and> drop n line' = drop n line \<and>
        (case words_in st s of
           None \<Rightarrow> st' \<noteq> 0 \<and> st' \<noteq> 1
         | Some ws \<Rightarrow> (st' = 0 \<or> st' = 1) \<and> argc' = argc + length ws - (if st = 0 then 0 else 1) \<and>
             (\<exists>e. take wp' line' @ [NUL] = take wp line @ laid_out ws @ e)))"

lemma written_simps:
  assumes "written e wp line = (wp', line')" "wp < length line"
  shows "length line' = length line" "wp \<le> wp'" "wp' \<le> Suc wp" "\<And>n. wp' \<le> n \<Longrightarrow> drop n line' = drop n line"
    "take wp' line' = take wp line @ (case e of None \<Rightarrow> [] | Some x \<Rightarrow> [x])"
  using assms by (auto simp: written_def take_Suc_conv_app_nth split: option.splits)

lemma parsed_step:
  assumes st: "state_ok st" and c: "c \<noteq> NUL" and wp: "wp < length line" and w: "written (snd (transit c st)) wp line = (wp', line')"
    and n: "wp' \<le> n" and r: "parsed (argc + (if st = 0 \<and> \<not> blank c then 1 else 0)) (fst (transit c st)) wp' line' n s r"
  shows "parsed argc st wp line n (c # s) r"
proof -
  note w' = written_simps [OF w wp]
  obtain argc' st' wp'' line'' where rr: "r = (argc', st', wp'', line'')" by (cases r)
  let ?st = "fst (transit c st)" and ?e = "snd (transit c st)"
  show ?thesis
  proof (cases "words_in ?st s")
    case None
    then show ?thesis using r rr words_in_step [OF st c, of s] w'(1) w'(4) [OF n] by (simp add: parsed_def)
  next
    case (Some ws)
    have ws: "words_in st (c # s) = Some (push ?e ws)" using words_in_step [OF st c, of s] Some by simp
    obtain e where e: "take wp'' line'' @ [NUL] = take wp' line' @ laid_out ws @ e" using r Some rr by (auto simp: parsed_def)
    have ne: "?st \<noteq> 0 \<Longrightarrow> ws \<noteq> []" using words_in_nonempty [OF Some] by blast
    have lay: "take wp' line' @ laid_out ws = take wp line @ laid_out (push ?e ws)"
    proof (cases ?e)
      case (Some x)
      then have "x = NUL \<or> ws \<noteq> []" using transit_emits [OF st Some] ne by blast
      then show ?thesis using Some w'(5) laid_out_push by simp
    qed (use w'(5) in simp)
    have "argc' = argc + length (push ?e ws) - (if st = 0 then 0 else 1)"
    proof -
      have a: "argc' = argc + (if st = 0 \<and> \<not> blank c then 1 else 0) + length ws - (if ?st = 0 then 0 else 1)" using r Some rr by (simp add: parsed_def)
      have t: "?e = None \<Longrightarrow> ?st = 0 \<longleftrightarrow> st = 0 \<and> blank c" by (rule transit_silent)
      show ?thesis
      proof (cases ?e)
        case None
        then show ?thesis using a t ne by (cases "?st = 0"; cases "st = 0"; cases ws) auto
      next
        case (Some x)
        then show ?thesis using a c ne transit_emits [OF st Some] transit_blank [of st c x] by (cases "?st = 0"; cases "st = 0"; cases ws) auto
      qed
    qed
    moreover have "take wp'' line'' @ [NUL] = take wp line @ laid_out (push ?e ws) @ e" using e lay by (metis append_assoc)
    ultimately show ?thesis using r Some rr ws w'(1) w'(4) [OF n] by (auto simp: parsed_def)
  qed
qed

lemma drop_Cons_at: "drop n xs = y # ys \<Longrightarrow> n < length xs \<and> xs ! n = y \<and> drop (Suc n) xs = ys"
  by (metis Cons_nth_drop_Suc drop_eq_Nil leI list.distinct(1) list.sel(1) list.sel(3))

lemma parse_loop_spec:
  "\<lbrakk>state_ok st; drop rp line = s @ NUL # tl0; NUL \<notin> set s; wp \<le> rp\<rbrakk> \<Longrightarrow>
   \<exists>r. parse_loop rp argc st wp line = Some r \<and> parsed argc st wp line (rp + length s) s r"
proof (induction s arbitrary: rp argc st wp line)
  case Nil
  then have "rp < length line" "line ! rp = NUL" using drop_Cons_at [of rp line NUL tl0] by auto
  then have "parse_loop rp argc st wp line = Some (argc, st, wp, line)" by (subst parse_loop.simps) simp
  moreover have "parsed argc st wp line rp [] (argc, st, wp, line)"
    using Nil.prems(1,4) by (auto simp: parsed_def state_ok_def words_in_def open_word_def)
  ultimately show ?case by simp
next
  case (Cons c s)
  have rp: "rp < length line" "line ! rp = c" "drop (Suc rp) line = s @ NUL # tl0" "c \<noteq> NUL"
    using drop_Cons_at [of rp line c "s @ NUL # tl0"] Cons.prems(2,3) by auto
  then have wp: "wp < length line" using Cons.prems(4) by simp
  obtain wp' line' where w: "written (snd (transit c st)) wp line = (wp', line')" by force
  note w' = written_simps [OF w wp]
  let ?argc = "argc + (if st = 0 \<and> \<not> blank c then 1 else 0)" and ?st = "fst (transit c st)"
  have "wp' \<le> Suc rp" using w'(3) Cons.prems(4) by simp
  moreover have "drop (Suc rp) line' = s @ NUL # tl0" using w'(4) [of "Suc rp"] calculation rp(3) by simp
  ultimately obtain r where r: "parse_loop (Suc rp) ?argc ?st wp' line' = Some r" "parsed ?argc ?st wp' line' (Suc rp + length s) s r"
    using Cons.IH [OF transit_ok [OF Cons.prems(1), of c], of "Suc rp" line' wp' ?argc] Cons.prems(3) by auto
  have "parse_loop rp argc st wp line = Some r"
    using rp(1,2,4) r(1) parse_char_transit [OF Cons.prems(1) wp, of c argc] w by (subst parse_loop.simps) simp
  moreover have "parsed argc st wp line (Suc rp + length s) (c # s) r"
    using parsed_step [OF Cons.prems(1) rp(4) wp w _ r(2)] w'(3) Cons.prems(4) by simp
  ultimately show ?case by simp
qed

text \<open>The argument vector: positions of the words in the buffer.\<close>

fun positions :: "nat \<Rightarrow> string list \<Rightarrow> nat list" where
  "positions p [] = []"
| "positions p (w # ws) = p # positions (p + length w + 1) ws"

lemma string_at_word:
  assumes "drop p line = w @ NUL # r" "NUL \<notin> set w"
  shows "string_at p line = Some w"
proof -
  have "takeWhile (\<lambda>c. c \<noteq> NUL) (w @ NUL # r) = w" using assms(2) by (subst takeWhile_append2) auto
  then show ?thesis using assms(1) by (simp add: string_at_def)
qed

lemma drop_word: "drop p line = w @ NUL # r \<Longrightarrow> drop (p + length w + 1) line = r"
  by (metis append_Cons append_Nil append_assoc append_eq_conv_conj drop_drop length_append_singleton Suc_eq_plus1 add.commute add.left_commute)

lemma argv_spec:
  "drop p line = laid_out ws @ e \<Longrightarrow> NUL \<notin> \<Union> (set ` set ws) \<Longrightarrow>
   fill_argv (length ws) p line = Some (positions p ws) \<and> strings_at (positions p ws) line = Some ws"
proof (induction ws arbitrary: p)
  case (Cons w ws)
  then have d: "drop p line = w @ NUL # (laid_out ws @ e)" "NUL \<notin> set w" by auto
  have "drop (p + length w + 1) line = laid_out ws @ e" by (rule drop_word [OF d(1)])
  from Cons.IH [OF this] Cons.prems(2) string_at_word [OF d] show ?case by simp
qed simp

lemma word_of_chars:
  "word_of s = Some (w, rest) \<Longrightarrow> set w \<union> set rest \<subseteq> set s"
  "quoted q s = Some (w, rest) \<Longrightarrow> set w \<union> set rest \<subseteq> set s"
  by (induction s and q s arbitrary: w and w rule: word_of_quoted.induct)
    (fastforce simp: cons_word_def split: if_splits list.splits)+

lemma split_words_chars: "split_words s = Some ws \<Longrightarrow> \<Union> (set ` set ws) \<subseteq> set s"
proof (induction s arbitrary: ws rule: split_words.induct)
  case (2 c s)
  show ?case
  proof (cases "blank c")
    case True
    then show ?thesis using 2 by auto
  next
    case False
    then obtain w rest ws' where h: "word_of (c # s) = Some (w, rest)" "split_words rest = Some ws'" "ws = w # ws'"
      using "2.prems" by (auto simp del: word_of.simps split: option.splits)
    have "\<Union> (set ` set ws') \<subseteq> set rest" using "2.IH"(2) [OF False h(1) refl h(2)] .
    then show ?thesis using word_of_chars(1) [OF h(1)] h(3) by auto
  qed
qed simp

text \<open>What a line stands for.\<close>

definition line_action :: "'h command list option \<Rightarrow> 'h command list option \<Rightarrow> string \<Rightarrow> 'h action" where
  "line_action builtin command_list s =
     (case split_words s of
        None \<Rightarrow> Incorrect_quoting
      | Some [] \<Rightarrow> Empty_line
      | Some (w # ws) \<Rightarrow>
          (case find_handler builtin command_list w of
             Some h \<Rightarrow> Call h (positions 0 (w # ws)) (w # ws)
           | None \<Rightarrow> if w = ''help'' then Help else Not_found w))"

lemma handle_input_line_spec:
  assumes line: "line = s @ NUL # r" and s: "NUL \<notin> set s"
  shows "\<exists>line'. handle_input_line builtin cmds line = Some (line_action builtin cmds s, line') \<and> length line' = length line"
proof -
  have "state_ok 0" by (simp add: state_ok_def)
  from parse_loop_spec [OF this, of 0 line s r 0 0] line s obtain argc st wp l where
    p: "parse_loop 0 0 0 0 line = Some (argc, st, wp, l)" "parsed 0 0 0 line (length s) s (argc, st, wp, l)" by (auto simp: split_paired_Ex)
  note q = p(2) [unfolded parsed_def prod.case]
  have wp: "wp < length l" "length l = length line" using q line by auto
  let ?l = "l[wp := NUL]"
  have t: "take (Suc wp) ?l = take wp l @ [NUL]" using wp(1) by (simp add: take_Suc_conv_app_nth)
  show ?thesis
  proof (cases "split_words s")
    case None
    then have "st \<noteq> 0" "st \<noteq> 1" using q by (simp_all add: words_in_def)
    then show ?thesis using p(1) None wp by (simp add: handle_input_line_def line_action_def)
  next
    case (Some ws)
    then have h: "st = 0 \<or> st = 1" "argc = length ws" using q by (simp_all add: words_in_def)
    obtain e where "take wp l @ [NUL] = laid_out ws @ e" using q Some by (auto simp: words_in_def)
    then have d: "drop 0 ?l = laid_out ws @ (e @ drop (Suc wp) ?l)" using t append_take_drop_id [of "Suc wp" ?l] by simp
    have n: "NUL \<notin> \<Union> (set ` set ws)" using split_words_chars [OF Some] s by blast
    note a = argv_spec [OF d n]
    show ?thesis
    proof (cases ws)
      case Nil
      then show ?thesis using p(1) h Some wp by (simp add: handle_input_line_def line_action_def)
    next
      case (Cons w ws')
      have "string_at 0 ?l = Some w" using a Cons by (auto split: Option.bind_splits)
      then show ?thesis using p(1) h Some wp a Cons
        by (auto simp: handle_input_line_def line_action_def split: option.split simp del: fill_argv.simps strings_at.simps)
    qed
  qed
qed

section \<open>Quoting\<close>

definition escaped :: "string \<Rightarrow> string" where
  "escaped w = concat (map (\<lambda>c. if c = DQUOTE \<or> c = ESCAPECHAR then [ESCAPECHAR, c] else [c]) w)"

text \<open>A line in which every word is put in double quotes.\<close>

definition quoted_line :: "string list \<Rightarrow> string" where
  "quoted_line ws = concat (map (\<lambda>w. DQUOTE # escaped w @ [DQUOTE, SPACE]) ws)"

lemma quoted_escaped: "quoted DQUOTE (escaped w @ DQUOTE # SPACE # rest) = Some (w, rest)"
proof (induction w)
  case (Cons c w)
  then show ?case by (auto simp: escaped_def cons_word_def)
qed (simp add: escaped_def blank_def)

lemma split_quoted_line: "split_words (quoted_line ws) = Some ws"
proof (induction ws)
  case (Cons w ws)
  have "quoted_line (w # ws) = DQUOTE # (escaped w @ DQUOTE # SPACE # quoted_line ws)" by (simp add: quoted_line_def)
  then show ?case using Cons quoted_escaped [of w "quoted_line ws"] by (simp add: blank_def)
qed (simp add: quoted_line_def)

lemma quoted_line_chars: "NUL \<notin> \<Union> (set ` set ws) \<Longrightarrow> NUL \<notin> set (quoted_line ws)"
  by (auto simp: quoted_line_def escaped_def split: if_splits)

text \<open>
  (C23) Quoting is complete: for every non-empty list of words, with any characters but the terminator in them, there is a line that passes exactly these words
  to the handler of the command: put each word in double quotes and a backslash before every double quote and backslash. \<open>handle_input_line\<close> stays inside the line
  buffer, although it writes the words over the line it is reading, and \<open>argv\<close> points to the words in the buffer in order.
\<close>
theorem shell_quoting_is_complete:
  assumes "ws \<noteq> []" "NUL \<notin> \<Union> (set ` set ws)" "find_handler builtin cmds (hd ws) = Some h"
  shows "\<exists>line'. handle_input_line builtin cmds (quoted_line ws @ NUL # r) = Some (Call h (positions 0 ws) ws, line')"
proof -
  have "line_action builtin cmds (quoted_line ws) = Call h (positions 0 ws) ws"
    using assms(1,3) split_quoted_line [of ws] by (cases ws) (simp_all add: line_action_def)
  then show ?thesis using handle_input_line_spec [OF refl quoted_line_chars [OF assms(2)], of builtin cmds r] by auto
qed

theorem shell_quoting_is_complete_witness:
  "\<exists>line'. handle_input_line None (Some [(''echo'', Some 1)]) (quoted_line [''echo'', ''a \"b'', []] @ [NUL]) =
     Some (Call (1 :: nat) [0, 5, 10] [''echo'', ''a \"b'', []], line')"
  using shell_quoting_is_complete [of "[''echo'', ''a \"b'', []]" None "Some [(''echo'', Some (1 :: nat))]" 1 "[]"]
  by (simp add: find_handler_def eval_nat_numeral)

section \<open>Reading lines\<close>

text \<open>What stands on the terminal after typing, and that it never is as long as the buffer.\<close>

definition type_char :: "string \<Rightarrow> char \<Rightarrow> string" where
  "type_char st c = (if c = BS \<or> c = DEL then butlast st else st @ [c])"

definition edited :: "string \<Rightarrow> string \<Rightarrow> string" where
  "edited st s = foldl type_char st s"

fun fits :: "nat \<Rightarrow> string \<Rightarrow> string \<Rightarrow> bool" where
  "fits n st [] \<longleftrightarrow> length st < n"
| "fits n st (c # s) \<longleftrightarrow> length st < n \<and> fits n (type_char st c) s"

definition typed :: "string \<Rightarrow> bool" where
  "typed s \<longleftrightarrow> set s \<inter> {NUL, ETX, CR, LF} = {}"

lemma edited_simps [simp]: "edited st [] = st" "edited st (c # s) = edited (type_char st c) s"
  by (simp_all add: edited_def)

lemma edited_chars: "set (edited st s) \<subseteq> set st \<union> set s"
proof (induction s arbitrary: st)
  case (Cons c s)
  have "set (type_char st c) \<subseteq> set st \<union> {c}" by (auto simp: type_char_def dest: in_set_butlastD)
  then show ?case using Cons [of "type_char st c"] by auto
qed simp

lemma readline_loop_spec:
  "\<lbrakk>typed s; fits sz st s; sz \<le> length buf; take (length st) buf = st\<rbrakk> \<Longrightarrow>
   \<exists>buf'. readline_loop sz (s @ LF # rest) (length st) False buf = Some (int (length (edited st s)), buf', rest) \<and>
     length buf' = length buf \<and> take (Suc (length (edited st s))) buf' = edited st s @ [NUL]"
proof (induction s arbitrary: st buf)
  case Nil
  then show ?case by (simp add: take_Suc_conv_app_nth)
next
  case (Cons c s)
  have c: "c \<noteq> ETX" "c \<noteq> CR" "c \<noteq> LF" "typed s" using Cons.prems(1) by (auto simp: typed_def)
  have f: "length st < sz" "fits sz (type_char st c) s" using Cons.prems(2) by auto
  show ?case
  proof (cases "c = BS \<or> c = DEL")
    case True
    show ?thesis
    proof (cases st rule: rev_cases)
      case Nil
      then have "type_char st c = st" using True by (simp add: type_char_def)
      then show ?thesis using Cons.IH [OF c(4), of st buf] Cons.prems(3,4) f c True Nil by simp
    next
      case (snoc st' x)
      then have t: "type_char st c = st'" using True by (simp add: type_char_def)
      let ?b = "buf[length st' := NUL]"
      have "take (length st') buf = take (length st') (take (length st) buf)" by (simp add: snoc)
      then have "take (length st') ?b = st'" unfolding Cons.prems(4) using snoc by simp
      moreover have "sz \<le> length ?b" using Cons.prems(3) by simp
      ultimately show ?thesis using Cons.IH [OF c(4), of st' ?b] f c True snoc t Cons.prems(3) by (simp add: Let_def)
    qed
  next
    case False
    then have t: "type_char st c = st @ [c]" by (simp add: type_char_def)
    then have l: "Suc (length st) < sz" "length st < sz - 1" using f(2) by (cases s; auto)+
    let ?b = "buf[length st := c]"
    have "take (length (st @ [c])) ?b = st @ [c]" using Cons.prems(3,4) f(1) by (simp add: take_Suc_conv_app_nth)
    moreover have "sz \<le> length ?b" using Cons.prems(3) by simp
    ultimately show ?thesis using Cons.IH [OF c(4), of "st @ [c]" ?b] f(2) c False t l Cons.prems(3) by simp
  qed
qed

lemma readline_spec:
  assumes "typed s" "fits sz [] s" "sz \<le> length buf"
  obtains buf' r where "readline sz (s @ LF # rest) buf = Some (int (length (edited [] s)), buf', rest)" "length buf' = length buf"
    "buf' = edited [] s @ NUL # r" "NUL \<notin> set (edited [] s)"
proof -
  have "0 < sz" using assms(2) by (cases s) auto
  moreover obtain buf' where b: "readline_loop sz (s @ LF # rest) (length []) False buf = Some (int (length (edited [] s)), buf', rest)"
      "length buf' = length buf" "take (Suc (length (edited [] s))) buf' = edited [] s @ [NUL]"
    using readline_loop_spec [OF assms, of rest] by auto
  moreover have "buf' = edited [] s @ NUL # drop (Suc (length (edited [] s))) buf'"
    using append_take_drop_id [of "Suc (length (edited [] s))" buf'] b(3) by simp
  moreover have "NUL \<notin> set (edited [] s)" using edited_chars [of "[]" s] assms(1) by (auto simp: typed_def)
  ultimately show thesis by (intro that [of buf' "drop (Suc (length (edited [] s))) buf'"]) (auto simp: readline_def)
qed

text \<open>
  (C22) The shell as a whole: when each of the lines typed (with backspaces) stays shorter than the buffer at every moment, \<open>shell_run_once\<close> handles each of them, in order,
  and returns at the end of the input. What it does with a line is what the line stands for once the backspaces are applied: report incorrect quoting, nothing,
  call the handler of the first word with all words as arguments, print the help, or report an unknown command. No access leaves the buffer.
\<close>
theorem shell_executes_lines:
  assumes "\<forall>s\<in>set ls. typed s \<and> fits len [] s" "0 < len" "len \<le> length buf"
  shows "\<exists>buf'. shell_run_once builtin cmds len (concat (map (\<lambda>s. s @ [LF]) ls)) buf = Some (map (\<lambda>s. line_action builtin cmds (edited [] s)) ls, buf')"
  using assms
proof (induction ls arbitrary: buf)
  case Nil
  then have "readline len [] buf = Some (EOF, buf, [])" by (simp add: readline_def)
  then show ?case by (subst shell_run_once.simps) simp
next
  case (Cons s ls)
  let ?rest = "concat (map (\<lambda>s. s @ [LF]) ls)"
  have s: "typed s" "fits len [] s" using Cons.prems(1) by auto
  obtain b r where b: "readline len (s @ LF # ?rest) buf = Some (int (length (edited [] s)), b, ?rest)" "length b = length buf"
      "b = edited [] s @ NUL # r" "NUL \<notin> set (edited [] s)"
    by (rule readline_spec [OF s Cons.prems(3)])
  obtain b' where b': "handle_input_line builtin cmds b = Some (line_action builtin cmds (edited [] s), b')" "length b' = length b"
    using handle_input_line_spec [OF b(3,4)] by blast
  obtain buf' where "shell_run_once builtin cmds len ?rest b' = Some (map (\<lambda>s. line_action builtin cmds (edited [] s)) ls, buf')"
    using Cons.IH [of b'] Cons.prems b(2) b'(2) by auto
  moreover have "int (length (edited [] s)) \<noteq> EOF" "int (length (edited [] s)) \<noteq> - ENOBUFS" by (simp_all add: EOF_def ENOBUFS_def)
  ultimately show ?case using b(1) b'(1) by (subst shell_run_once.simps) simp
qed

theorem shell_executes_lines_witness:
  "\<exists>buf'. shell_run_once None (Some [(''ps'', Some (3 :: nat))]) 8 ([CHR ''p'', CHR ''x'', BS, CHR ''s''] @ [LF] @ ''help'' @ [LF]) (replicate 8 NUL) =
     Some ([Call 3 [0] [''ps''], Help], buf')"
  using shell_executes_lines [of "[[CHR ''p'', CHR ''x'', BS, CHR ''s''], ''help'']" 8 "replicate 8 NUL" None "Some [(''ps'', Some (3 :: nat))]"]
  by (simp add: typed_def type_char_def line_action_def find_handler_def blank_def cons_word_def)

text \<open>Ordinary characters are stored while there is room and dropped, with the mark set, when there is none.\<close>

definition plain :: "string \<Rightarrow> bool" where
  "plain s \<longleftrightarrow> typed s \<and> set s \<inter> {BS, DEL} = {}"

lemma edited_plain: "plain s \<Longrightarrow> edited st s = st @ s"
  by (induction s arbitrary: st) (auto simp: plain_def typed_def type_char_def)

lemma readline_loop_plain:
  "\<lbrakk>plain s; length st < sz; sz \<le> length buf; take (length st) buf = st\<rbrakk> \<Longrightarrow>
   \<exists>buf'. readline_loop sz (s @ input) (length st) x buf =
       readline_loop sz input (min (sz - 1) (length st + length s)) (x \<or> sz \<le> length st + length s) buf' \<and>
     length buf' = length buf \<and> take (min (sz - 1) (length st + length s)) buf' = take (sz - 1) (st @ s)"
proof (induction s arbitrary: st x buf)
  case Nil
  then have "min (sz - 1) (length st) = length st" by simp
  with Nil show ?case by (intro exI [of _ buf]) simp
next
  case (Cons c s)
  have c: "c \<noteq> ETX" "c \<noteq> CR" "c \<noteq> LF" "c \<noteq> BS" "c \<noteq> DEL" "plain s" using Cons.prems(1) by (auto simp: plain_def typed_def)
  show ?case
  proof (cases "length st < sz - 1")
    case True
    let ?b = "buf[length st := c]"
    have "take (length (st @ [c])) ?b = st @ [c]" using Cons.prems(2-4) by (simp add: take_Suc_conv_app_nth)
    then show ?thesis using Cons.IH [OF c(6), of "st @ [c]" ?b x] Cons.prems(2,3) c True by simp
  next
    case False
    then have l: "length st = sz - 1" using Cons.prems(2) by simp
    then have "take (sz - 1) (st @ s) = take (sz - 1) (st @ c # s)" by simp
    moreover have "sz \<le> length st + length (c # s)" using l Cons.prems(2) by simp
    moreover have "min (sz - 1) (length st + n) = sz - 1" for n using l by simp
    ultimately show ?thesis using Cons.IH [OF c(6), of st buf True] Cons.prems(2-4) c False by simp
  qed
qed

lemma readline_too_long:
  assumes "plain s" "sz \<le> length s" "0 < sz" "sz \<le> length buf"
  obtains buf' where "readline sz (s @ input) buf = readline_loop sz input (sz - 1) True buf'"
    "length buf' = length buf" "take (sz - 1) buf' = take (sz - 1) s"
proof -
  have "min (sz - 1) (length s) = sz - 1" using assms(2) by simp
  then show thesis using readline_loop_plain [of s "[]" sz buf input False] assms that by (auto simp: readline_def)
qed

text \<open>
  (C37) Characters that did not fit can be lost silently. A line of ordinary characters that is too long for the buffer is
  reported as such, but one backspace, which removes a character that was stored, makes \<open>readline\<close> forget that characters were
  dropped: for every buffer of at least two characters, every line that is too long and every continuation after the backspace
  that fits, it returns without an error, as if the line had ended two characters before the end of the buffer. The line on the terminal is
  another one, at any rate if the continuation has no more backspaces.
\<close>
theorem readline_loses_characters:
  assumes "plain s" "sz \<le> length s" "2 \<le> sz" "sz \<le> length buf" and "b \<in> {BS, DEL}"
    and "typed s'" "fits sz (take (sz - 2) s) s'"
  shows "(\<exists>buf'. readline sz (s @ LF # rest) buf = Some (- ENOBUFS, buf', rest)) \<and>
    (\<exists>buf'. readline sz (s @ b # s' @ LF # rest) buf = Some (int (length (edited (take (sz - 2) s) s')), buf', rest) \<and>
       string_at 0 buf' = Some (edited (take (sz - 2) s) s')) \<and>
    edited [] (s @ b # s') = edited (butlast s) s' \<and>
    (plain s' \<longrightarrow> edited (take (sz - 2) s) s' \<noteq> edited [] (s @ b # s'))"
proof (intro conjI impI)
  have "\<exists>buf'. readline sz (s @ LF # rest) buf = Some (- ENOBUFS, buf', rest)"
    by (rule readline_too_long [OF assms(1,2) _ assms(4), of "LF # rest"]) (use assms(3,4) in auto)
  then show "\<exists>buf'. readline sz (s @ LF # rest) buf = Some (- ENOBUFS, buf', rest)" .
  obtain b1 where b1: "readline sz (s @ b # s' @ LF # rest) buf = readline_loop sz (b # s' @ LF # rest) (sz - 1) True b1"
      "length b1 = length buf" "take (sz - 1) b1 = take (sz - 1) s"
    by (rule readline_too_long [OF assms(1,2) _ assms(4), of "b # s' @ LF # rest"]) (use assms(3) in auto)
  let ?st = "take (sz - 2) s" and ?b = "b1[sz - 2 := NUL]"
  have len: "length ?st = sz - 2" using assms(2) by simp
  have "readline sz (s @ b # s' @ LF # rest) buf = readline_loop sz (s' @ LF # rest) (length ?st) False ?b"
    using b1(1,2) assms(3-5) len by (auto simp: Let_def numeral_2_eq_2)
  moreover have "take (sz - 2) b1 = take (sz - 2) (take (sz - 1) b1)" by simp
  then have "take (length ?st) ?b = ?st" unfolding b1(3) len by simp
  then obtain buf' where "readline_loop sz (s' @ LF # rest) (length ?st) False ?b = Some (int (length (edited ?st s')), buf', rest)"
      "take (Suc (length (edited ?st s'))) buf' = edited ?st s' @ [NUL]"
    using readline_loop_spec [OF assms(6,7), of ?b rest] b1(2) assms(4) by auto
  moreover have "NUL \<notin> set (edited ?st s')"
    using edited_chars [of ?st s'] assms(1,6) set_take_subset [of "sz - 2" s] by (auto simp: plain_def typed_def)
  moreover have "buf' = edited ?st s' @ NUL # drop (Suc (length (edited ?st s'))) buf'"
    using append_take_drop_id [of "Suc (length (edited ?st s'))" buf'] calculation(3) by simp
  then have "drop 0 buf' = edited ?st s' @ NUL # drop (Suc (length (edited ?st s'))) buf'" by simp
  then have "string_at 0 buf' = Some (edited ?st s')"
    using calculation(4) by (rule string_at_word)
  ultimately show "\<exists>buf'. readline sz (s @ b # s' @ LF # rest) buf = Some (int (length (edited ?st s')), buf', rest) \<and>
       string_at 0 buf' = Some (edited ?st s')" by auto
  have "edited [] (s @ b # s') = edited (type_char (edited [] s) b) s'" by (simp add: edited_def)
  then show e: "edited [] (s @ b # s') = edited (butlast s) s'"
    using edited_plain [OF assms(1), of "[]"] assms(5) by (auto simp: type_char_def)
  show "edited ?st s' \<noteq> edited [] (s @ b # s')" if "plain s'"
  proof
    assume "edited ?st s' = edited [] (s @ b # s')"
    then have "?st = butlast s" unfolding e edited_plain [OF that] by simp
    then have "length ?st = length (butlast s)" by simp
    then show False using len assms(2,3) by simp
  qed
qed

theorem readline_loses_characters_witness:
  "\<exists>buf'. readline 4 (''abcdef'' @ BS # ''z'' @ [LF]) (replicate 4 NUL) = Some (3, buf', []) \<and> string_at 0 buf' = Some ''abz''"
  using readline_loses_characters [of "''abcdef''" 4 "replicate 4 NUL" BS "''z''" "[]"]
  by (simp add: plain_def typed_def type_char_def)

end
