(* ===== verification/Divide.thy ===== *)
theory Divide
  imports Riot_Prelude
begin

text \<open>
  Division by constants without a division (sys/div/div.c, sys/include/div.h): the dividend is multiplied by a rounded reciprocal and
  the low bits are dropped. All arithmetic is that of 32-bit and 64-bit words. A failed assertion is \<open>None\<close>.
\<close>

section \<open>Operations\<close>

definition DIV_H_INV_15625_32 :: u64 where "DIV_H_INV_15625_32 = 0x431bde83"

definition DIV_H_INV_15625_64 :: u64 where "DIV_H_INV_15625_64 = 0x431bde82d7b634db"

definition DIV_H_INV_15625_SHIFT :: nat where "DIV_H_INV_15625_SHIFT = 12"

definition div_mulhi64 :: "u64 \<Rightarrow> u64 \<Rightarrow> u64" where
  "div_mulhi64 a b =
     (let a_lo = ucast a :: u32; a_hi = ucast (drop_bit 32 a) :: u32;
          b_lo = ucast b :: u32; b_hi = ucast (drop_bit 32 b) :: u32;
          a_x_b_mid = ucast a_hi * ucast b_lo :: u64;
          b_x_a_mid = ucast b_hi * ucast a_lo :: u64;
          a_x_b_lo = ucast a_lo * ucast b_lo :: u64;
          a_x_b_hi = ucast a_hi * ucast b_hi :: u64;
          carry_bits = ucast (drop_bit 32 (ucast (ucast a_x_b_mid :: u32) + ucast (ucast b_x_a_mid :: u32) +
            drop_bit 32 a_x_b_lo) :: u64) :: u32
      in a_x_b_hi + drop_bit 32 a_x_b_mid + drop_bit 32 b_x_a_mid + ucast carry_bits)"

definition div_u64_by_15625 :: "u64 \<Rightarrow> u64" where
  "div_u64_by_15625 val =
     (if val > 16383999997 then drop_bit DIV_H_INV_15625_SHIFT (div_mulhi64 DIV_H_INV_15625_64 val)
      else drop_bit (DIV_H_INV_15625_SHIFT + 32) (val * DIV_H_INV_15625_32))"

definition div_u64_by_125 :: "u64 \<Rightarrow> u32 option" where
  "div_u64_by_125 val =
     (if val \<le> 536870911999 then
        (let hi = ucast (drop_bit 32 val) :: u32; lo = ucast val :: u32;
             r = drop_bit 16 lo + push_bit 16 hi;
             res = r div 125;
             r = push_bit 16 (r mod 125) + (lo AND 0xFFFF);
             res = push_bit 16 res + r div 125
         in Some res)
      else None)"

definition div_u64_by_1000000 :: "u64 \<Rightarrow> u64" where
  "div_u64_by_1000000 val = drop_bit 6 (div_u64_by_15625 val)"

definition div_u32_by_15625div512 :: "u32 \<Rightarrow> u32" where
  "div_u32_by_15625div512 val = ucast (drop_bit (DIV_H_INV_15625_SHIFT + 32 - 9) (ucast val * DIV_H_INV_15625_32))"

definition div_u64_by_15625div512 :: "u64 \<Rightarrow> u64" where
  "div_u64_by_15625div512 val =
     (if val > 16383999997 then drop_bit (DIV_H_INV_15625_SHIFT - 9) (div_mulhi64 DIV_H_INV_15625_64 val)
      else drop_bit (DIV_H_INV_15625_SHIFT + 32 - 9) (val * DIV_H_INV_15625_32))"

definition div_u32_by_44488 :: "u32 \<Rightarrow> u32" where
  "div_u32_by_44488 val = ucast (drop_bit (15 + 32) (ucast val * 0xBC8F1391 :: u64))"

definition div_u32_mod_44488 :: "u32 \<Rightarrow> u32" where
  "div_u32_mod_44488 val = val - div_u32_by_44488 val * 44488"

section \<open>Words as numbers\<close>

lemma unat_lt: "unat (a :: u64) < 2 ^ 64" "unat (x :: u32) < 2 ^ 32"
proof -
  have "unat a < 2 ^ LENGTH(64)" "unat x < 2 ^ LENGTH(32)" by (rule unsigned_less)+
  then show "unat a < 2 ^ 64" "unat x < 2 ^ 32" by simp_all
qed

lemma unat_low32: "unat (ucast (a :: u64) :: u32) = unat a mod 2 ^ 32"
  by (simp add: unsigned_ucast_eq take_bit_eq_mod)

lemma unat_wide: "unat (ucast (x :: u32) :: u64) = unat x"
proof -
  have "unat x < 2 ^ 64" using unat_lt(2) [of x] by simp
  then show ?thesis by (simp add: unsigned_ucast_eq take_bit_eq_mod)
qed

lemma mult_32_bits: "x < 2 ^ 32 \<Longrightarrow> y < 2 ^ 32 \<Longrightarrow> x * y \<le> 18446744065119617025" for x y :: nat
  using mult_le_mono [of x "2 ^ 32 - 1" y "2 ^ 32 - 1"] by simp

lemma unat_mul32: "unat (ucast (x :: u32) * ucast (y :: u32) :: u64) = unat x * unat y"
  using mult_32_bits [OF unat_lt(2) [of x] unat_lt(2) [of y]] by (simp add: unat_word_ariths unat_wide)

lemma unat_high32: "unat (ucast (drop_bit 32 (a :: u64)) :: u32) = unat a div 2 ^ 32"
proof -
  have "unat a div 2 ^ 32 < 2 ^ 32" using unat_lt(1) [of a] by (simp add: less_mult_imp_div_less)
  then show ?thesis by (simp add: unat_low32 unat_drop_bit_div)
qed

text \<open>The high half of a product from the products of the halves.\<close>

lemma mulhi_nat:
  fixes X :: nat
  assumes "0 < X"
  shows "(ah * X + al) * (bh * X + bl) div (X * X) =
    ah * bh + ah * bl div X + bh * al div X + (ah * bl mod X + bh * al mod X + al * bl div X) div X"
proof -
  have "(ah * X + al) * (bh * X + bl) = (ah * bh * X + ah * bl + bh * al) * X + al * bl" by (simp add: algebra_simps)
  then have "(ah * X + al) * (bh * X + bl) div X = ah * bh * X + (ah * bl + bh * al + al * bl div X)" using assms by simp
  moreover have "ah * bl + bh * al + al * bl div X =
      (ah * bl div X + bh * al div X) * X + (ah * bl mod X + bh * al mod X + al * bl div X)"
    by (simp add: algebra_simps)
  ultimately have "(ah * X + al) * (bh * X + bl) div X =
      (ah * bh + ah * bl div X + bh * al div X) * X + (ah * bl mod X + bh * al mod X + al * bl div X)"
    by (simp add: algebra_simps)
  then show ?thesis using assms by (simp add: div_mult2_eq)
qed

lemma mulhi_correct: "unat (div_mulhi64 a b) = unat a * unat b div 2 ^ 64"
proof -
  define ah al bh bl where h: "ah = unat a div 2 ^ 32" "al = unat a mod 2 ^ 32" "bh = unat b div 2 ^ 32" "bl = unat b mod 2 ^ 32"
  have lt: "ah < 2 ^ 32" "al < 2 ^ 32" "bh < 2 ^ 32" "bl < 2 ^ 32"
    using unat_lt(1) [of a] unat_lt(1) [of b] by (simp_all add: h less_mult_imp_div_less)
  have m: "unat (ucast (ucast (drop_bit 32 a) :: u32) * ucast (ucast b :: u32) :: u64) = ah * bl"
    "unat (ucast (ucast (drop_bit 32 b) :: u32) * ucast (ucast a :: u32) :: u64) = bh * al"
    "unat (ucast (ucast a :: u32) * ucast (ucast b :: u32) :: u64) = al * bl"
    "unat (ucast (ucast (drop_bit 32 a) :: u32) * ucast (ucast (drop_bit 32 b) :: u32) :: u64) = ah * bh"
    unfolding unat_mul32 unat_high32 h unfolding unat_low32 by simp_all
  let ?c = "ah * bl mod 2 ^ 32 + bh * al mod 2 ^ 32 + al * bl div 2 ^ 32"
  have "al * bl div 2 ^ 32 < 2 ^ 32" using mult_32_bits [OF lt(2,4)] by (simp add: less_mult_imp_div_less)
  moreover have "ah * bl mod 2 ^ 32 < 2 ^ 32" "bh * al mod 2 ^ 32 < 2 ^ 32" by simp_all
  ultimately have c: "?c < 3 * 2 ^ 32" by linarith
  let ?w = "ucast (ucast (ucast (ucast (drop_bit 32 a) :: u32) * ucast (ucast b :: u32) :: u64) :: u32) +
     ucast (ucast (ucast (ucast (drop_bit 32 b) :: u32) * ucast (ucast a :: u32) :: u64) :: u32) +
     drop_bit 32 (ucast (ucast a :: u32) * ucast (ucast b :: u32)) :: u64"
  have w: "unat ?w = ?c"
    using c by (subst unat_add_fits; (subst unat_add_fits)?; simp add: unat_wide unat_low32 unat_drop_bit_div m)
  have carry: "unat (ucast (ucast (drop_bit 32 ?w) :: u32) :: u64) = ?c div 2 ^ 32"
    unfolding unat_wide unat_high32 w ..
  have a: "unat a = ah * 2 ^ 32 + al" "unat b = bh * 2 ^ 32 + bl" by (simp_all add: h)
  have total: "unat a * unat b div 2 ^ 64 = ah * bh + ah * bl div 2 ^ 32 + bh * al div 2 ^ 32 + ?c div 2 ^ 32"
    using mulhi_nat [of "2 ^ 32" ah al bh bl] by (simp add: a)
  have "unat a * unat b < 2 ^ 64 * 2 ^ 64"
    using mult_strict_mono' [OF unat_lt(1) [of a] unat_lt(1) [of b]] by simp
  then have "unat a * unat b div 2 ^ 64 < 2 ^ 64" by (rule less_mult_imp_div_less)
  then show ?thesis
    unfolding div_mulhi64_def Let_def total
    by (simp add: unat_word_ariths(1) m carry unat_drop_bit_div mod_simps)
qed

section \<open>Division by a rounded reciprocal\<close>

text \<open>
  With a reciprocal \<open>m\<close> that is \<open>e\<close> / \<open>d\<close> too large, the quotient is right as long as the accumulated error does not carry, and at
  most one too large up to twice that.
\<close>

lemma reciprocal_div:
  fixes n m d P e :: nat
  assumes "m * d = P + e" "0 < d"
  shows "n div d * e + n mod d * m < P \<Longrightarrow> n * m div P = n div d"
    and "P \<le> n div d * e + n mod d * m \<Longrightarrow> n div d * e + n mod d * m < 2 * P \<Longrightarrow> n * m div P = n div d + 1"
proof -
  let ?x = "n div d * e + n mod d * m"
  have "n * m = (n div d * d + n mod d) * m" by simp
  also have "\<dots> = n div d * (m * d) + n mod d * m" by (simp only: algebra_simps)
  also have "\<dots> = n div d * P + ?x" unfolding assms(1) by (simp add: algebra_simps)
  finally have nm: "n * m = n div d * P + ?x" .
  show "?x < P \<Longrightarrow> n * m div P = n div d" unfolding nm by simp
  assume x: "P \<le> ?x" "?x < 2 * P"
  then have "n div d * P + ?x = (n div d + 1) * P + (?x - P)" by simp
  then show "n * m div P = n div d + 1" unfolding nm using x by (simp only: div_mult_self3) simp
qed

lemma by_15625_small:
  assumes "n < 7154218749"
  shows "n * 1125899907 div 2 ^ 44 = n div (15625 :: nat)"
proof (rule reciprocal_div(1))
  define q r where qr: "q = n div 15625" "r = n mod 15625"
  then have n: "n = q * 15625 + r" "r < 15625" by simp_all
  then have "q \<le> 457868 \<or> q = 457869 \<and> r \<le> 15623" using assms by linarith
  with n(2) have "q * 2459 + r * 1125899907 < 2 ^ 44" by auto
  then show "n div 15625 * 2459 + n mod 15625 * 1125899907 < 2 ^ 44" by (simp add: qr)
qed simp_all

lemma by_15625_one_off:
  assumes "n < 2 ^ 43"
  shows "n * 1125899907 div 2 ^ 44 \<in> {n div 15625, n div (15625 :: nat) + 1}"
proof -
  define q r where qr: "q = n div 15625" "r = n mod 15625"
  then have n: "n = q * 15625 + r" "r < 15625" by simp_all
  then have "q \<le> 562949954" using assms by simp
  with n(2) have "q * 2459 + r * 1125899907 < 2 * 2 ^ 44" by simp
  then have "n div 15625 * 2459 + n mod 15625 * 1125899907 < 2 * 2 ^ 44" unfolding qr .
  with reciprocal_div [of 1125899907 15625 "2 ^ 44" 2459 n] show ?thesis by fastforce
qed

lemma by_15625_large:
  assumes "n < 2 ^ 64"
  shows "n * 4835703278458516699 div 2 ^ 76 = n div (15625 :: nat)"
proof (rule reciprocal_div(1))
  define q r where qr: "q = n div 15625" "r = n mod 15625"
  then have n: "n = q * 15625 + r" "r < 15625" by simp_all
  then have "q \<le> 1180591620717411" using assms by simp
  with n(2) have "q * 2739 + r * 4835703278458516699 < 2 ^ 76" by simp
  then show "n div 15625 * 2739 + n mod 15625 * 4835703278458516699 < 2 ^ 76" unfolding qr .
qed simp_all

lemma by_15625_large_one_off:
  assumes "n < 2 ^ 73"
  shows "n * 4835703278458516699 div 2 ^ 76 \<in> {n div 15625, n div (15625 :: nat) + 1}"
proof -
  define q r where qr: "q = n div 15625" "r = n mod 15625"
  then have n: "n = q * 15625 + r" "r < 15625" by simp_all
  then have "q \<le> 604462909807314587" using assms by simp
  with n(2) have "q * 2739 + r * 4835703278458516699 < 2 * 2 ^ 76" by simp
  then have "n div 15625 * 2739 + n mod 15625 * 4835703278458516699 < 2 * 2 ^ 76" unfolding qr .
  with reciprocal_div [of 4835703278458516699 15625 "2 ^ 76" 2739 n] show ?thesis by fastforce
qed

lemma by_44488:
  assumes "n < 2 ^ 32"
  shows "n * 3163493265 div 2 ^ 47 = n div (44488 :: nat)"
proof (rule reciprocal_div(1))
  define q r where qr: "q = n div 44488" "r = n mod 44488"
  then have n: "n = q * 44488 + r" "r < 44488" by simp_all
  then have "q \<le> 96542" using assms by simp
  with n(2) have "q * 17992 + r * 3163493265 < 2 ^ 47" by simp
  then show "n div 44488 * 17992 + n mod 44488 * 3163493265 < 2 ^ 47" unfolding qr .
qed simp_all

section \<open>The operations divide\<close>

lemma unat_push16: "unat w < 2 ^ 16 \<Longrightarrow> unat (push_bit 16 (w :: u32)) = unat w * 2 ^ 16"
  by (simp add: push_bit_eq_mult unat_word_ariths)

lemma middle_16: "v mod 2 ^ 32 div 2 ^ 16 + v div 2 ^ 32 * 2 ^ 16 = v div 2 ^ 16" for v :: nat
proof -
  have "v mod 2 ^ 32 div 2 ^ 16 = v div 2 ^ 16 mod 2 ^ 16"
    using drop_bit_take_bit [of 16 32 v] by (simp add: drop_bit_eq_div take_bit_eq_mod)
  moreover have "v div 2 ^ 32 = v div 2 ^ 16 div 2 ^ 16" by (simp add: div_mult2_eq [symmetric])
  ultimately show ?thesis by (simp only: mod_div_mult_eq)
qed

lemma by_125_halves:
  fixes v :: nat
  assumes "v < 125 * 2 ^ 32"
  shows "v div 2 ^ 16 div 125 * 2 ^ 16 + (v div 2 ^ 16 mod 125 * 2 ^ 16 + v mod 2 ^ 16) div 125 = v div 125"
proof -
  define h where "h = v div 2 ^ 16"
  have "v = h * 2 ^ 16 + v mod 2 ^ 16" by (simp add: h_def)
  also have "h * 2 ^ 16 = 125 * (h div 125 * 2 ^ 16) + h mod 125 * 2 ^ 16"
    by (metis add_mult_distrib mult.assoc mult_div_mod_eq)
  finally have "v = 125 * (h div 125 * 2 ^ 16) + (h mod 125 * 2 ^ 16 + v mod 2 ^ 16)" by simp
  then have "v div 125 = h div 125 * 2 ^ 16 + (h mod 125 * 2 ^ 16 + v mod 2 ^ 16) div 125"
    by (metis div_mult_self4 zero_neq_numeral)
  then show ?thesis by (simp add: h_def)
qed

lemma by_125_correct:
  assumes "val \<le> 536870911999"
  shows "\<exists>r. div_u64_by_125 val = Some r \<and> unat r = unat val div 125"
proof -
  let ?v = "unat val" and ?hi = "ucast (drop_bit 32 val) :: u32" and ?lo = "ucast val :: u32"
  have v: "?v < 125 * 2 ^ 32" using assms by (simp add: word_le_nat_alt)
  then have hi: "unat ?hi = ?v div 2 ^ 32" "?v div 2 ^ 32 < 125" by (simp_all only: unat_high32 less_mult_imp_div_less)
  have lo: "unat ?lo = ?v mod 2 ^ 32" by (rule unat_low32)
  let ?r = "drop_bit 16 ?lo + push_bit 16 ?hi"
  have "unat (push_bit 16 ?hi) = ?v div 2 ^ 32 * 2 ^ 16" using hi by (subst unat_push16) simp_all
  moreover have "unat (drop_bit 16 ?lo) = ?v mod 2 ^ 32 div 2 ^ 16" unfolding unat_drop_bit_div lo ..
  moreover have "?v mod 2 ^ 32 div 2 ^ 16 < 2 ^ 16" by (simp add: less_mult_imp_div_less)
  moreover have "?v mod 2 ^ 32 div 2 ^ 16 + ?v div 2 ^ 32 * 2 ^ 16 = ?v div 2 ^ 16" by (rule middle_16)
  ultimately have r: "unat ?r = ?v div 2 ^ 16" using hi(2) by (simp add: unat_word_ariths(1))
  have r16: "?v div 2 ^ 16 < 125 * 2 ^ 16" using v by (simp add: less_mult_imp_div_less)
  let ?q = "?r div 125" and ?m = "push_bit 16 (?r mod 125) + (?lo AND 0xFFFF)"
  have q: "unat ?q = ?v div 2 ^ 16 div 125" by (simp add: unat_div r)
  have "?v div 2 ^ 16 div 125 < 2 ^ 16" using r16 by (simp only: less_mult_imp_div_less mult.commute)
  then have pq: "unat (push_bit 16 ?q) = ?v div 2 ^ 16 div 125 * 2 ^ 16" using q by (subst unat_push16) simp_all
  have "?lo AND 0xFFFF = take_bit 16 ?lo" by (simp add: take_bit_eq_mask mask_eq_exp_minus_1)
  then have "unat (?lo AND 0xFFFF) = ?v mod 2 ^ 16"
    by (simp add: unat_mod take_bit_eq_mod lo mod_mod_cancel)
  moreover have "unat (push_bit 16 (?r mod 125)) = ?v div 2 ^ 16 mod 125 * 2 ^ 16"
    by (subst unat_push16) (simp_all add: unat_mod r)
  moreover have "?v div 2 ^ 16 mod 125 < 125" "?v mod 2 ^ 16 < 2 ^ 16" by simp_all
  ultimately have m: "unat ?m = ?v div 2 ^ 16 mod 125 * 2 ^ 16 + ?v mod 2 ^ 16"
    by (subst unat_add_fits) simp_all
  have md: "unat (?m div 125) = (?v div 2 ^ 16 mod 125 * 2 ^ 16 + ?v mod 2 ^ 16) div 125"
    unfolding unat_div m by simp
  have "?v div 125 < 2 ^ 32" using v by (simp add: less_mult_imp_div_less)
  then have "unat (push_bit 16 ?q + ?m div 125) = ?v div 125"
    using by_125_halves [OF v] pq md by (subst unat_add_fits) simp_all
  then show ?thesis using assms by (simp add: div_u64_by_125_def Let_def)
qed

lemma by_15625_correct:
  "unat val < 7154218749 \<or> 16383999997 < unat val \<Longrightarrow> unat (div_u64_by_15625 val) = unat val div 15625"
  "unat (div_u64_by_15625 val) \<in> {unat val div 15625, unat val div 15625 + 1}"
proof -
  have big: "unat (div_u64_by_15625 val) = unat val div 15625" if "16383999997 < unat val"
  proof -
    have "val > 16383999997" using that by (simp add: word_less_nat_alt)
    then have "unat (div_u64_by_15625 val) = unat val * 4835703278458516699 div 2 ^ 64 div 2 ^ 12"
      by (simp add: div_u64_by_15625_def DIV_H_INV_15625_SHIFT_def DIV_H_INV_15625_64_def unat_drop_bit_div mulhi_correct mult.commute)
    also have "\<dots> = unat val div 15625" using by_15625_large [OF unat_lt(1) [of val]] by (simp add: div_mult2_eq [symmetric])
    finally show ?thesis .
  qed
  have small: "unat (div_u64_by_15625 val) = unat val * 1125899907 div 2 ^ 44" if "unat val \<le> 16383999997"
  proof -
    have "unat (val * DIV_H_INV_15625_32) = unat val * 1125899907"
      using that by (subst unat_mult_fits) (simp_all add: DIV_H_INV_15625_32_def)
    moreover have "\<not> val > 16383999997" using that by (simp add: word_less_nat_alt)
    ultimately show ?thesis
      by (simp add: div_u64_by_15625_def DIV_H_INV_15625_SHIFT_def unat_drop_bit_div)
  qed
  show "unat val < 7154218749 \<or> 16383999997 < unat val \<Longrightarrow> unat (div_u64_by_15625 val) = unat val div 15625"
    using big small by_15625_small [of "unat val"] by fastforce
  show "unat (div_u64_by_15625 val) \<in> {unat val div 15625, unat val div 15625 + 1}"
    using big small by_15625_one_off [of "unat val"] by (cases "unat val \<le> 16383999997") auto
qed

lemma by_44488_correct:
  "unat (div_u32_by_44488 w) = unat w div 44488" "unat (div_u32_mod_44488 w) = unat w mod 44488"
proof -
  have "unat (ucast w * 0xBC8F1391 :: u64) = unat w * 3163493265"
    using unat_lt(2) [of w] by (subst unat_mult_fits) (simp_all add: unat_wide)
  then show q: "unat (div_u32_by_44488 w) = unat w div 44488"
    using by_44488 [OF unat_lt(2) [of w]] unat_lt(2) [of w]
    by (simp add: div_u32_by_44488_def unat_low32 unat_drop_bit_div)
  have "unat (div_u32_by_44488 w * 44488) = unat w div 44488 * 44488"
    using unat_lt(2) [of w] by (subst unat_mult_fits) (simp_all add: q)
  then show "unat (div_u32_mod_44488 w) = unat w mod 44488"
    unfolding div_u32_mod_44488_def by (subst unat_sub) (simp_all add: word_le_nat_alt minus_div_mult_eq_mod)
qed

lemma by_15625div512_correct:
  "unat (div_u32_by_15625div512 w) \<in> {unat w * 512 div 15625, unat w * 512 div 15625 + 1}"
  "unat w \<le> 13973083 \<Longrightarrow> unat (div_u32_by_15625div512 w) = unat w * 512 div 15625"
  "unat (div_u64_by_15625div512 val) \<in> {unat val * 512 div 15625, unat val * 512 div 15625 + 1}"
proof -
  have sh: "n * 512 * m div 2 ^ (k + 9) = n * m div 2 ^ k" for n m k :: nat
  proof -
    have "n * 512 * m div 2 ^ (k + 9) = (n * m * 512) div (2 ^ k * 512)" by (simp add: power_add mult.commute mult.left_commute)
    then show ?thesis by simp
  qed
  have "unat w * 1125899907 < 2 ^ 64" "unat w * 1125899907 div 2 ^ 35 < 2 ^ 32"
    using unat_lt(2) [of w] by (simp_all add: less_mult_imp_div_less)
  then have w: "unat (div_u32_by_15625div512 w) = unat w * 512 * 1125899907 div 2 ^ 44"
    using sh [of "unat w" 1125899907 35]
    by (simp add: div_u32_by_15625div512_def DIV_H_INV_15625_SHIFT_def DIV_H_INV_15625_32_def unat_low32 unat_drop_bit_div
        unat_wide unat_word_ariths(2))
  show "unat (div_u32_by_15625div512 w) \<in> {unat w * 512 div 15625, unat w * 512 div 15625 + 1}"
    unfolding w by (rule by_15625_one_off) (use unat_lt(2) [of w] in simp)
  show "unat w \<le> 13973083 \<Longrightarrow> unat (div_u32_by_15625div512 w) = unat w * 512 div 15625"
    unfolding w by (rule by_15625_small) simp
  show "unat (div_u64_by_15625div512 val) \<in> {unat val * 512 div 15625, unat val * 512 div 15625 + 1}"
  proof (cases "unat val \<le> 16383999997")
    case True
    then have "unat (div_u64_by_15625div512 val) = unat val * 512 * 1125899907 div 2 ^ 44"
      using sh [of "unat val" 1125899907 35]
      by (simp add: div_u64_by_15625div512_def DIV_H_INV_15625_SHIFT_def DIV_H_INV_15625_32_def unat_drop_bit_div
          unat_word_ariths(2) word_less_nat_alt)
    then show ?thesis using by_15625_one_off [of "unat val * 512"] True by simp
  next
    case False
    then have "unat (div_u64_by_15625div512 val) = unat val * 4835703278458516699 div 2 ^ 64 div 2 ^ 3"
      by (simp add: div_u64_by_15625div512_def DIV_H_INV_15625_SHIFT_def DIV_H_INV_15625_64_def unat_drop_bit_div
          mulhi_correct word_less_nat_alt mult.commute)
    also have "\<dots> = unat val * 512 * 4835703278458516699 div 2 ^ 76"
      using sh [of "unat val" 4835703278458516699 67] by (simp add: div_mult2_eq [symmetric])
    finally show ?thesis using by_15625_large_one_off [of "unat val * 512"] unat_lt(1) [of val] by simp
  qed
qed

section \<open>Properties\<close>

text \<open>
  The divisions by multiplication agree with the division of numbers: dividing by 125 for every value its assertion admits,
  dividing by 44488 and the remainder for every 32-bit value, and the high half of a 64-bit product for all arguments.
  Dividing by 15625 is exact below 7154218749 and above 16383999997, and in between, as for the scaled division by
  15625 / 512 everywhere, the result is at most one too large; that one is exact for arguments up to 13973083.
\<close>
theorem division_by_multiplication:
  "unat (div_mulhi64 a b) = unat a * unat b div 2 ^ 64 \<and>
   (val \<le> 536870911999 \<longrightarrow> (\<exists>r. div_u64_by_125 val = Some r \<and> unat r = unat val div 125)) \<and>
   unat (div_u32_by_44488 w) = unat w div 44488 \<and> unat (div_u32_mod_44488 w) = unat w mod 44488 \<and>
   (unat val < 7154218749 \<or> 16383999997 < unat val \<longrightarrow> unat (div_u64_by_15625 val) = unat val div 15625) \<and>
   unat (div_u64_by_15625 val) \<in> {unat val div 15625, unat val div 15625 + 1} \<and>
   unat (div_u64_by_15625div512 val) \<in> {unat val * 512 div 15625, unat val * 512 div 15625 + 1} \<and>
   unat (div_u32_by_15625div512 w) \<in> {unat w * 512 div 15625, unat w * 512 div 15625 + 1} \<and>
   (unat w \<le> 13973083 \<longrightarrow> unat (div_u32_by_15625div512 w) = unat w * 512 div 15625)"
  using mulhi_correct by_125_correct by_44488_correct by_15625_correct by_15625div512_correct by blast

theorem division_by_multiplication_witness:
  "\<exists>r. div_u64_by_125 1000 = Some r \<and> unat r = 8 \<and> unat (div_u64_by_15625 1000000) = 64"
  using division_by_multiplication [of 0 0 1000 0] division_by_multiplication [of 0 0 1000000 0] by auto

text \<open>
  The divisions by 15625 are not exact everywhere, though they are documented to be: 7154218749 / 15625 comes out as 457870
  instead of 457869, so that 7154.999999 seconds in microseconds are converted to 7155 seconds, and 13978302 * 512 / 15625 comes out
  one too large as well.
\<close>
theorem division_by_15625_rounds_up:
  "div_u64_by_15625 7154218749 = 457870 \<and> (7154218749 :: u64) div 15625 = 457869 \<and>
   div_u64_by_1000000 7154999999 = 7155 \<and> (7154999999 :: u64) div 1000000 = 7154 \<and>
   unat (div_u32_by_15625div512 13978302) = 13978302 * 512 div 15625 + 1"
  by (simp add: div_u64_by_15625_def div_u64_by_1000000_def div_u32_by_15625div512_def DIV_H_INV_15625_SHIFT_def
      DIV_H_INV_15625_32_def drop_bit_eq_div)

end
