(* ===== verification/Frac.thy ===== *)
theory Frac
  imports Bitarithm Divide
begin

text \<open>
  Scaling by a fraction with one multiplication (sys/frac/frac.c, sys/include/frac.h): the fraction is reduced by the
  binary greatest common divisor and divided bit by bit into a 32-bit mantissa with an exponent. A failed assertion and a
  loop that never ends are \<open>None\<close>. The pointer arguments of the long division are not NULL.
\<close>

section \<open>Operations\<close>

partial_function (option) gcd_common :: "u32 \<Rightarrow> u32 \<Rightarrow> nat \<Rightarrow> (u32 \<times> u32 \<times> nat) option" where
  "gcd_common u v shift =
     (if (u OR v) AND 1 = 0 then gcd_common (drop_bit 1 u) (drop_bit 1 v) (shift + 1) else Some (u, v, shift))"

partial_function (option) gcd_strip :: "u32 \<Rightarrow> u32 option" where
  "gcd_strip v = (if v AND 1 = 0 then gcd_strip (drop_bit 1 v) else Some v)"

partial_function (option) gcd_loop :: "u32 \<Rightarrow> u32 \<Rightarrow> u32 option" where
  "gcd_loop u v =
     do { v \<leftarrow> gcd_strip v;
          let (u, v) = (if u > v then (v, u) else (u, v));
          let v = v - u;
          if v \<noteq> 0 then gcd_loop u v else Some u }"

definition gcd32 :: "u32 \<Rightarrow> u32 \<Rightarrow> u32 option" where
  "gcd32 u v =
     (if u = 0 then Some v else if v = 0 then Some u
      else do { (u, v, shift) \<leftarrow> gcd_common u v 0;
                u \<leftarrow> gcd_strip u;
                u \<leftarrow> gcd_loop u v;
                Some (push_bit shift u) })"

text \<open>The loop of the long division, with the number of iterations left.\<close>

fun divide_loop :: "nat \<Rightarrow> u32 \<Rightarrow> u32 \<Rightarrow> u32 \<Rightarrow> u64 \<Rightarrow> u32 \<Rightarrow> int \<Rightarrow> u32 \<times> u64 \<times> int" where
  "divide_loop 0 num den q r num_mask i_bits = (q, r, i_bits)"
| "divide_loop (Suc n) num den q r num_mask i_bits =
     (let r = push_bit 1 r;
          q = push_bit 1 q;
          r = (if num AND num_mask \<noteq> 0 then r OR 1 else r);
          num_mask = drop_bit 1 num_mask;
          (r, q) = (if r \<ge> ucast den then (r - ucast den, q OR 1) else (r, q));
          i_bits = (if q = 0 then i_bits - 1 else i_bits)
      in if q AND push_bit 31 1 \<noteq> 0 then (q, r, i_bits)
         else if r = 0 \<and> num = 0 then (q, r, i_bits)
         else divide_loop n num den q r num_mask i_bits)"

text \<open>The quotient, with the number of integer bits and the remainder.\<close>

definition frac_long_divide :: "u32 \<Rightarrow> u32 \<Rightarrow> (u32 \<times> int \<times> u32) option" where
  "frac_long_divide num den =
     (if den = 0 then None
      else if num = 0 then Some (0, 0, 0)
      else (let p = unat (bitarith_msb_32bit_no_native_clz num);
                (q, r, i_bits) = divide_loop (64 + p) num den 0 0 (push_bit p 1) (int p + 1);
                q = (if r > 0 then q + 1 else q)
            in Some (q, i_bits, ucast r)))"

record frac =
  frac_frac :: u32
  frac_shift :: u8

definition frac_init :: "u32 \<Rightarrow> u32 \<Rightarrow> frac option" where
  "frac_init num den =
     (if den = 0 then None
      else do { gcd \<leftarrow> gcd32 num den;
                let den = den div gcd;
                let num = num div gcd;
                (q, prec, _) \<leftarrow> frac_long_divide num den;
                Some \<lparr>frac_frac = q, frac_shift = of_int (32 - prec)\<rparr> })"

definition frac_scale :: "frac \<Rightarrow> u32 \<Rightarrow> u32" where
  "frac_scale f x = ucast (drop_bit (unat (frac_shift f)) (ucast (frac_frac f) * ucast x :: u64))"

section \<open>The greatest common divisor\<close>

lemma and_one_even: "v AND 1 = 0 \<longleftrightarrow> even (unat v)" for v :: u32
  using bit_iff_and_push_bit_not_eq_0 [of v 0] bit_unat_iff [of v 0] by auto

lemma bit_0_unat: "\<not> bit v 0 \<longleftrightarrow> even (unat v)" for v :: u32
  using bit_unat_iff [of v 0] by simp

lemma half_nonzero: "v \<noteq> 0 \<Longrightarrow> even (unat v) \<Longrightarrow> drop_bit 1 v \<noteq> 0 \<and> unat (drop_bit 1 v) < unat v" for v :: u32
proof -
  assume v: "v \<noteq> 0" "even (unat v)"
  then have "0 < unat v" by (simp add: unat_gt_0)
  moreover have d: "unat (drop_bit 1 v) = unat v div 2" unfolding unat_drop_bit_div by simp
  ultimately have "unat (drop_bit 1 v) \<noteq> 0" "unat (drop_bit 1 v) < unat v" using v(2) unfolding d by auto
  then show ?thesis by (metis unsigned_0)
qed

lemma unat_half: "unat (drop_bit 1 v) = unat v div 2" "unat (drop_bit (Suc 0) v) = unat v div 2" for v :: u32
  by (simp_all add: unat_drop_bit_div)

lemma halves: "even (n :: nat) \<Longrightarrow> n div 2 = a * 2 ^ k \<Longrightarrow> n = a * 2 ^ Suc k"
  by (auto elim!: evenE)

lemma gcd_strip_spec:
  "v \<noteq> 0 \<Longrightarrow> \<exists>w k. gcd_strip v = Some w \<and> odd (unat w) \<and> unat v = unat w * 2 ^ k"
proof (induction "unat v" arbitrary: v rule: less_induct)
  case less
  show ?case
  proof (cases "even (unat v)")
    case False
    then show ?thesis using gcd_strip.simps [of v] by (intro exI [of _ v] exI [of _ 0]) (simp add: and_one_even)
  next
    case True
    from half_nonzero [OF less.prems True] less.hyps [of "drop_bit 1 v"] obtain w k where
      w: "gcd_strip (drop_bit 1 v) = Some w" "odd (unat w)" "unat v div 2 = unat w * 2 ^ k"
      unfolding unat_half by blast
    have "unat v = unat w * 2 ^ Suc k" by (rule halves) (use True w(3) in simp_all)
    moreover have "gcd_strip v = Some w" using gcd_strip.simps [of v] True w(1) by (simp add: and_one_even)
    ultimately show ?thesis using w(2) by blast
  qed
qed

lemma gcd_odd_times_power: "odd (u :: nat) \<Longrightarrow> gcd u (w * 2 ^ k) = gcd u w"
  by (metis coprime_power_right_iff gcd_mult_right_right_cancel coprime_right_2_iff_odd)

lemma gcd_loop_spec:
  "odd (unat u) \<Longrightarrow> v \<noteq> 0 \<Longrightarrow> \<exists>g. gcd_loop u v = Some g \<and> unat g = gcd (unat u) (unat v)"
proof (induction "unat u + unat v" arbitrary: u v rule: less_induct)
  case less
  from gcd_strip_spec [OF less.prems(2)] obtain w k where
    w: "gcd_strip v = Some w" "odd (unat w)" "unat v = unat w * 2 ^ k" by blast
  define a b where ab: "a = (if u > w then w else u)" "b = (if u > w then u else w)"
  have nat: "unat a = min (unat u) (unat w)" "unat b = max (unat u) (unat w)"
    by (auto simp: ab word_less_nat_alt)
  have sub: "unat (b - a) = unat b - unat a" by (rule unat_sub) (simp add: word_le_nat_alt nat)
  have g: "gcd (unat u) (unat v) = gcd (unat a) (unat b)"
    using gcd_odd_times_power [OF less.prems(1), of "unat w" k] w(3) by (simp add: nat min_def max_def gcd.commute)
  have run: "gcd_loop u v = (if b - a \<noteq> 0 then gcd_loop a (b - a) else Some a)"
    using gcd_loop.simps [of u v] w(1) by (auto simp: ab Let_def)
  show ?case
  proof (cases "b - a = 0")
    case True
    then have "a = b" by simp
    with run g show ?thesis by simp
  next
    case False
    have "odd (unat a)" using less.prems(1) w(2) by (simp add: nat min_def)
    moreover have "unat a + unat (b - a) < unat u + unat v"
    proof -
      have "unat w \<le> unat v" using w(3) by simp
      moreover have "0 < unat u" "0 < unat w" using less.prems(1) w(2) by (auto intro: odd_pos)
      ultimately show ?thesis by (simp add: sub nat)
    qed
    ultimately obtain g' where "gcd_loop a (b - a) = Some g'" "unat g' = gcd (unat a) (unat b - unat a)"
      using less.hyps [of a "b - a"] False sub by auto
    moreover have "gcd (unat a) (unat b - unat a) = gcd (unat a) (unat b)"
      by (metis gcd.commute gcd_diff1_nat nat max.cobounded1 min.cobounded1 order_trans)
    ultimately show ?thesis using run False g by simp
  qed
qed

lemma gcd_common_spec:
  "u \<noteq> 0 \<Longrightarrow> v \<noteq> 0 \<Longrightarrow> \<exists>u' v' n. gcd_common u v k = Some (u', v', k + n) \<and> u' \<noteq> 0 \<and> v' \<noteq> 0 \<and>
     (odd (unat u') \<or> odd (unat v')) \<and> unat u = unat u' * 2 ^ n \<and> unat v = unat v' * 2 ^ n"
proof (induction "unat u" arbitrary: u v k rule: less_induct)
  case less
  have parity: "(u OR v) AND 1 = 0 \<longleftrightarrow> even (unat u) \<and> even (unat v)"
    unfolding and_one_even bit_0_unat [symmetric] by (simp add: bit_or_iff)
  show ?case
  proof (cases "even (unat u) \<and> even (unat v)")
    case False
    then show ?thesis using gcd_common.simps [of u v k] less.prems
      by (metis parity add_0_right mult_1_right power_0)
  next
    case True
    from True half_nonzero [OF less.prems(1)] half_nonzero [OF less.prems(2)] less.hyps [of "drop_bit 1 u" "drop_bit 1 v" "k + 1"] obtain u' v' n where
      h: "gcd_common (drop_bit 1 u) (drop_bit 1 v) (k + 1) = Some (u', v', k + 1 + n)" "u' \<noteq> 0" "v' \<noteq> 0"
        "odd (unat u') \<or> odd (unat v')" "unat u div 2 = unat u' * 2 ^ n" "unat v div 2 = unat v' * 2 ^ n"
      unfolding unat_half by blast
    have "unat u = unat u' * 2 ^ Suc n" "unat v = unat v' * 2 ^ Suc n"
      using True h(5,6) halves by blast+
    moreover have "gcd_common u v k = Some (u', v', k + Suc n)"
      using gcd_common.simps [of u v k] True h(1) by (simp add: parity)
    ultimately show ?thesis using h(2-4) by blast
  qed
qed

lemma gcd32_correct: "\<exists>g. gcd32 u v = Some g \<and> unat g = gcd (unat u) (unat v)"
proof (cases "u = 0 \<or> v = 0")
  case True
  then show ?thesis by (auto simp: gcd32_def)
next
  case False
  with gcd_common_spec [of u v 0] obtain u' v' n where
    c: "gcd_common u v 0 = Some (u', v', n)" "u' \<noteq> 0" "v' \<noteq> 0" "odd (unat u') \<or> odd (unat v')"
      "unat u = unat u' * 2 ^ n" "unat v = unat v' * 2 ^ n" by auto
  from gcd_strip_spec [OF c(2)] obtain w k where
    w: "gcd_strip u' = Some w" "odd (unat w)" "unat u' = unat w * 2 ^ k" by blast
  from gcd_loop_spec [OF w(2) c(3)] obtain g where
    g: "gcd_loop w v' = Some g" "unat g = gcd (unat w) (unat v')" by blast
  have "gcd (unat u') (unat v') = unat g"
  proof (cases "even (unat u')")
    case True
    then have "odd (unat v')" using c(4) by simp
    then show ?thesis using gcd_odd_times_power [of "unat v'" "unat w" k] w(3) g(2) by (simp add: gcd.commute)
  next
    case False
    then have "k = 0" using w(3) by (cases k) auto
    then show ?thesis using w(3) g(2) by simp
  qed
  then have gcd: "gcd (unat u) (unat v) = unat g * 2 ^ n" by (metis c(5,6) gcd_mult_distrib_nat mult.commute)
  have "unat g * 2 ^ n \<le> unat u" unfolding gcd [symmetric] using False by (simp add: unat_gt_0)
  then have "unat g * 2 ^ n < 2 ^ 32" using unat_lt(2) [of u] by (rule le_less_trans)
  then have "unat (push_bit n g) = unat g * 2 ^ n"
    unfolding unsigned_push_bit_eq by (simp add: take_bit_eq_mod push_bit_eq_mult)
  with False c(1) w(1) g(1) gcd show ?thesis by (simp add: gcd32_def)
qed

section \<open>The long division\<close>

text \<open>The dividend after \<open>k\<close> bits have been taken, the highest of them being bit \<open>p\<close>.\<close>

definition taken :: "nat \<Rightarrow> nat \<Rightarrow> nat \<Rightarrow> nat" where
  "taken N p k = (if k \<le> p + 1 then N div 2 ^ (p + 1 - k) else N * 2 ^ (k - p - 1))"

lemma taken_Suc: "taken N p (Suc k) = 2 * taken N p k + of_bool (k \<le> p \<and> odd (N div 2 ^ (p - k)))"
proof (cases "k \<le> p")
  case True
  then have "p + 1 - k = Suc (p - k)" by simp
  then have "N div 2 ^ (p + 1 - k) = N div 2 ^ (p - k) div 2" by (simp only: power_Suc2 div_mult2_eq)
  with True show ?thesis by (simp add: taken_def odd_iff_mod_2_eq_one [symmetric] mod2_eq_if)
next
  case False
  then consider "k = p + 1" | m where "k = p + 2 + m" by (metis add_2_eq_Suc' add_Suc_right le_add_diff_inverse not_less_eq_eq Suc_eq_plus1 le_antisym)
  then show ?thesis by cases (simp_all add: taken_def)
qed

lemma div_step_nat:
  fixes V D b :: nat
  assumes "0 < D" "b \<le> 1" "x = 2 * (V mod D) + b"
  shows "(2 * V + b) div D = 2 * (V div D) + of_bool (D \<le> x)" "(2 * V + b) mod D = (if D \<le> x then x - D else x)"
proof -
  have "2 * V = 2 * (V div D * D + V mod D)" by simp
  also have "\<dots> = 2 * (V div D) * D + 2 * (V mod D)" by (simp only: distrib_left mult.assoc)
  finally have e: "2 * V + b = 2 * (V div D) * D + x" using assms(3) by linarith
  have "V mod D < D" using assms(1) by simp
  then have x: "x < 2 * D" using assms(2,3) by linarith
  have "x div D = of_bool (D \<le> x)" "x mod D = (if D \<le> x then x - D else x)"
    using x assms(1) by (auto simp: le_div_geq le_mod_geq)
  then show "(2 * V + b) div D = 2 * (V div D) + of_bool (D \<le> x)" "(2 * V + b) mod D = (if D \<le> x then x - D else x)"
    unfolding e using assms(1) by simp_all
qed

lemma shift_in:
  assumes "2 * unat w + 1 < 2 ^ LENGTH('a)"
  shows "unat (push_bit 1 (w :: 'a::len word)) = 2 * unat w" "unat (push_bit 1 w OR 1) = 2 * unat w + 1"
proof -
  show p: "unat (push_bit 1 w) = 2 * unat w"
    unfolding unsigned_push_bit_eq using assms by (simp add: take_bit_eq_mod push_bit_eq_mult mult.commute)
  have "\<not> bit (push_bit 1 w) 0" unfolding bit_push_bit_iff by simp
  then have e: "push_bit 1 w OR 1 = push_bit 1 w + 1" by (simp add: or_one_eq bit_0)
  have "unat (push_bit 1 w + 1) = unat (push_bit 1 w) + unat (1 :: 'a word)"
    by (rule unat_add_fits) (unfold p, use assms in simp)
  then show "unat (push_bit 1 w OR 1) = 2 * unat w + 1" unfolding e p by simp
qed

lemma top_bit: "q AND push_bit 31 1 \<noteq> 0 \<longleftrightarrow> 2 ^ 31 \<le> unat q" for q :: u32
proof -
  have "unat q div 2 ^ 31 < 2" using unat_lt(2) [of q] by (simp add: less_mult_imp_div_less)
  moreover have "unat q div 2 ^ 31 = 0 \<longleftrightarrow> unat q < 2 ^ 31" by (simp add: div_eq_0_iff)
  ultimately show ?thesis
    unfolding bit_iff_and_push_bit_not_eq_0 [symmetric] bit_unat_iff by (cases "unat q div 2 ^ 31") auto
qed

lemma mask_step: "drop_bit 1 (if k \<le> p then push_bit (p - k) 1 else 0) = (if Suc k \<le> p then push_bit (p - Suc k) 1 else (0 :: u32))"
  if "p < 32"
proof -
  have "drop_bit 1 (push_bit (Suc j) 1) = (push_bit j 1 :: u32)" if "Suc j < 32" for j
    using that by (intro bit_word_eqI) (auto simp: bit_simps)
  moreover have "drop_bit 1 (1 :: u32) = 0" by simp
  ultimately show ?thesis using that by (cases "k < p") (auto simp: Suc_diff_Suc [symmetric] le_less)
qed

lemma divide_iteration:
  fixes q den :: u32 and r :: u64
  assumes "D = unat den" "0 < D" "unat q = V div D" "unat r = V mod D" "unat q < 2 ^ 31"
    and "r1 = (if b then push_bit 1 r OR 1 else push_bit 1 r)"
    and "(r2, q2) = (if r1 \<ge> ucast den then (r1 - ucast den, push_bit 1 q OR 1) else (r1, push_bit 1 q))"
  shows "unat q2 = (2 * V + of_bool b) div D" "unat r2 = (2 * V + of_bool b) mod D"
    "unat q2 = 2 * unat q \<or> unat q2 = 2 * unat q + 1"
proof -
  have D: "D < 2 ^ 32" using unat_lt(2) [of den] assms(1) by simp
  have "unat r < D" using assms(2,4) by simp
  then have "2 * unat r + 1 < 2 ^ LENGTH(64)" using D by simp
  from shift_in [OF this] have r1: "unat r1 = 2 * (V mod D) + of_bool b" using assms(4,6) by simp
  have "2 * unat q + 1 < 2 ^ LENGTH(32)" using assms(5) by simp
  note q = shift_in [OF this]
  have c: "r1 \<ge> ucast den \<longleftrightarrow> D \<le> unat r1" by (simp add: word_le_nat_alt unat_wide assms(1))
  then have sub: "D \<le> unat r1 \<Longrightarrow> unat (r1 - ucast den) = unat r1 - D" by (simp add: unat_sub unat_wide assms(1))
  note st = div_step_nat [OF assms(2) _ r1]
  show "unat q2 = (2 * V + of_bool b) div D" "unat r2 = (2 * V + of_bool b) mod D"
    using assms(3,7) q sub c st by (auto split: if_splits)
  show "unat q2 = 2 * unat q \<or> unat q2 = 2 * unat q + 1" using assms(7) q by (auto split: if_splits)
qed

lemma divide_loop_spec:
  assumes "N = unat num" "D = unat den" "0 < D" "2 ^ p \<le> N" "p < 32"
  shows "k + n = 64 + p \<Longrightarrow> unat q = taken N p k div D \<Longrightarrow> unat r = taken N p k mod D \<Longrightarrow> unat q < 2 ^ 31 \<Longrightarrow>
    mk = (if k \<le> p then push_bit (p - k) 1 else 0) \<Longrightarrow>
    i = int p + 1 + int w - int k \<Longrightarrow> (if q = 0 then w = 0 else 2 ^ w \<le> 2 * unat q \<and> unat q < 2 ^ w) \<Longrightarrow>
    \<exists>K q' r'. divide_loop n num den q r mk i = (q', r', int p + 33 - int K) \<and> K \<le> 64 + p \<and>
      unat q' = taken N p K div D \<and> unat r' = taken N p K mod D \<and> 2 ^ 31 \<le> unat q'"
proof (induction n arbitrary: k q r mk i w)
  case 0
  have "D < 2 ^ 32" using unat_lt(2) [of den] assms(2) by simp
  moreover have "taken N p k = N * 2 ^ 63" using 0(1) by (simp add: taken_def)
  moreover have "1 \<le> N" using assms(4) by (metis one_le_numeral one_le_power order_trans)
  ultimately have "2 ^ 31 * D \<le> taken N p k" by simp
  then have "2 ^ 31 \<le> taken N p k div D" using assms(3) by (simp add: less_eq_div_iff_mult_less_eq)
  then show ?case using 0(2,4) by simp
next
  case (Suc n)
  define b where "b = (k \<le> p \<and> odd (N div 2 ^ (p - k)))"
  define r1 where "r1 = (if b then push_bit 1 r OR 1 else push_bit 1 r)"
  obtain r2 q2 where r2: "(r2, q2) = (if r1 \<ge> ucast den then (r1 - ucast den, push_bit 1 q OR 1) else (r1, push_bit 1 q))"
    by (cases "r1 \<ge> ucast den") auto
  define i2 where "i2 = (if q2 = 0 then i - 1 else i)"
  have bit: "num AND mk \<noteq> 0 \<longleftrightarrow> b"
    using Suc.prems(5) bit_iff_and_push_bit_not_eq_0 [of num "p - k"] bit_unat_iff [of num "p - k"] assms(1) by (auto simp: b_def)
  have num: "num \<noteq> 0" using assms(1,4) by auto
  have run: "divide_loop (Suc n) num den q r mk i =
      (if 2 ^ 31 \<le> unat q2 then (q2, r2, i2) else divide_loop n num den q2 r2 (drop_bit 1 mk) i2)"
    unfolding divide_loop.simps Let_def bit r1_def [symmetric] r2 [symmetric] prod.case top_bit i2_def [symmetric]
    by (simp only: num simp_thms if_False)
  have st: "unat q2 = taken N p (Suc k) div D" "unat r2 = taken N p (Suc k) mod D"
    "unat q2 = 2 * unat q \<or> unat q2 = 2 * unat q + 1"
    using divide_iteration [OF assms(2,3) Suc.prems(2,3,4) r1_def r2] by (simp_all add: taken_Suc b_def)
  obtain w2 where w2: "i2 = int p + 1 + int w2 - int (Suc k)"
    "if q2 = 0 then w2 = 0 else 2 ^ w2 \<le> 2 * unat q2 \<and> unat q2 < 2 ^ w2"
  proof (cases "q2 = 0")
    case True
    then have "unat q = 0" using st(3) by auto
    then have "q = 0" by (simp add: unat_eq_zero)
    with True Suc.prems(6,7) show thesis by (intro that [of 0]) (simp_all add: i2_def)
  next
    case False
    then have "unat q2 \<noteq> 0" by (simp add: unat_eq_zero)
    with False Suc.prems(6,7) st(3) show thesis
      by (intro that [of "Suc w"]) (auto simp: i2_def split: if_splits)
  qed
  show ?case
  proof (cases "2 ^ 31 \<le> unat q2")
    case True
    then have "q2 \<noteq> 0" by auto
    with w2(2) have "2 ^ w2 \<le> 2 * unat q2" "unat q2 < 2 ^ w2" by simp_all
    then have "(2 :: nat) ^ w2 < 2 ^ 33" "(2 :: nat) ^ 31 < 2 ^ w2" using True unat_lt(2) [of q2] by simp_all
    then have "w2 < 33" "31 < w2" by (simp_all only: power_strict_increasing_iff numeral_less_iff)
    then have "w2 = 32" by simp
    with w2(1) True run st(1,2) Suc.prems(1) show ?thesis by (intro exI [of _ "Suc k"]) simp
  next
    case False
    have "drop_bit 1 mk = (if Suc k \<le> p then push_bit (p - Suc k) 1 else 0)"
      unfolding Suc.prems(5) by (rule mask_step [OF assms(5)])
    from Suc.IH [OF _ st(1,2) _ this w2] Suc.prems(1) False run show ?thesis by simp
  qed
qed

text \<open>The quotient never has all bits set with a remainder left, so that rounding it up does not overflow.\<close>

lemma quotient_not_full:
  fixes N D s :: nat
  assumes "N * 2 ^ s div D = 2 ^ 32 - 1" "N < 2 ^ 32" "0 < D" "D < 2 ^ 32"
  shows "N * 2 ^ s mod D = 0"
proof (rule ccontr)
  assume "N * 2 ^ s mod D \<noteq> 0"
  moreover have e: "N * 2 ^ s = (2 ^ 32 - 1) * D + N * 2 ^ s mod D" using assms(1) by (metis div_mult_mod_eq)
  moreover have "N * 2 ^ s mod D < D" using assms(3) by simp
  ultimately have lo: "(2 ^ 32 - 1) * D < N * 2 ^ s" and hi: "N * 2 ^ s < 2 ^ 32 * D" by simp_all
  let ?g = "2 ^ 32 * D - N * 2 ^ s"
  have g: "0 < ?g" "?g < D" using lo hi by simp_all
  show False
  proof (cases "s \<le> 32")
    case True
    then have "(2 :: nat) ^ 32 = 2 ^ (32 - s) * 2 ^ s" by (simp flip: power_add)
    then have "2 ^ 32 * D - N * 2 ^ s = (2 ^ (32 - s) * D - N) * 2 ^ s"
      by (simp only: diff_mult_distrib) (simp only: mult.assoc mult.commute mult.left_commute)
    then have "2 ^ s \<le> ?g" using g(1) by (metis dvd_imp_le dvd_triv_right)
    then have "2 ^ s < D" using g(2) by simp
    have "N * 2 ^ s \<le> (2 ^ 32 - 1) * 2 ^ s" using assms(2) by (intro mult_le_mono1) simp
    with lo have "(2 ^ 32 - 1) * D < (2 ^ 32 - 1) * 2 ^ s" by (rule less_le_trans)
    then have "D < 2 ^ s" by simp
    with \<open>2 ^ s < D\<close> show False by simp
  next
    case False
    then have "2 ^ s = (2 :: nat) ^ (s - 32) * 2 ^ 32" by (simp only: power_add [symmetric]) simp
    then have "2 ^ 32 * D - N * 2 ^ s = (D - N * 2 ^ (s - 32)) * 2 ^ 32" by (simp add: diff_mult_distrib)
    then have "2 ^ 32 \<le> ?g" using g(1) by (metis dvd_imp_le dvd_triv_right)
    then show False using g(2) assms(4) by simp
  qed
qed

lemma round_up_bounds:
  fixes X D :: nat
  assumes "0 < D"
  shows "X \<le> (X div D + of_bool (X mod D \<noteq> 0)) * D \<and> (X div D + of_bool (X mod D \<noteq> 0)) * D < X + D"
proof -
  define Q R where QR: "Q = X div D" "R = X mod D"
  then have "X = Q * D + R" "R < D" using assms by simp_all
  then have "X \<le> (Q + of_bool (R \<noteq> 0)) * D \<and> (Q + of_bool (R \<noteq> 0)) * D < X + D"
    using assms by (cases "R = 0") (auto simp: algebra_simps)
  then show ?thesis by (simp only: QR)
qed

lemma long_divide_spec:
  assumes "num \<noteq> 0" "den \<noteq> 0" "N = unat num" "D = unat den"
  shows "\<exists>q r s. frac_long_divide num den = Some (q, 32 - int s, r) \<and> s \<le> 63 \<and> 2 ^ 31 * D \<le> N * 2 ^ s \<and>
    N * 2 ^ s \<le> unat q * D \<and> unat q * D < N * 2 ^ s + D"
proof -
  define p where "p = unat (bitarith_msb_32bit_no_native_clz num)"
  have p: "2 ^ p \<le> N" "N < 2 ^ Suc p" using msb_unat [OF assms(1)] assms(3) by (simp_all add: p_def)
  have ND: "N < 2 ^ 32" "D < 2 ^ 32" "0 < D" using assms unat_lt(2) by (auto simp: unat_gt_0)
  have "(2 :: nat) ^ p < 2 ^ 32" using p(1) ND(1) by (rule le_less_trans)
  then have p32: "p < 32" by (simp only: power_strict_increasing_iff)
  have "taken N p 0 = 0" using p(2) by (simp add: taken_def)
  then obtain K q r where K: "divide_loop (64 + p) num den 0 0 (push_bit p 1) (int p + 1) = (q, r, int p + 33 - int K)"
    "K \<le> 64 + p" "unat q = taken N p K div D" "unat r = taken N p K mod D" "2 ^ 31 \<le> unat q"
    using divide_loop_spec [OF assms(3,4) ND(3) p(1) p32, of 0 "64 + p" 0 0 "push_bit p 1" "int p + 1" 0] by auto
  have "p < K"
  proof (rule ccontr)
    assume "\<not> p < K"
    then have "taken N p K = N div 2 ^ (p - K) div 2"
      by (simp add: taken_def Suc_diff_le div_mult2_eq [symmetric] mult.commute)
    also have "\<dots> \<le> N div 2" by (intro div_le_mono div_le_dividend)
    finally have "unat q \<le> N div 2" using K(3) div_le_dividend order_trans by metis
    then show False using K(5) ND(1) by simp
  qed
  define s where "s = K - p - 1"
  have t: "taken N p K = N * 2 ^ s" using \<open>p < K\<close> by (cases "K = p + 1") (simp_all add: taken_def s_def)
  have s: "s \<le> 63" "int p + 33 - int K = 32 - int s" using K(2) \<open>p < K\<close> by (simp_all add: s_def)
  let ?q = "if r > 0 then q + 1 else q"
  have rpos: "r > 0 \<longleftrightarrow> N * 2 ^ s mod D \<noteq> 0" using K(4) t by (simp add: word_gt_0 flip: unat_eq_zero)
  have "unat q + 1 < 2 ^ 32" if "N * 2 ^ s mod D \<noteq> 0"
    using that quotient_not_full [of N s D] ND K(3) t unat_lt(2) [of q] by (cases "unat q = 2 ^ 32 - 1") auto
  then have q: "unat ?q = N * 2 ^ s div D + of_bool (N * 2 ^ s mod D \<noteq> 0)"
    using K(3) t rpos by (auto simp: unat_add_fits)
  have "N * 2 ^ s \<le> unat ?q * D" "unat ?q * D < N * 2 ^ s + D" unfolding q using round_up_bounds [OF ND(3)] by blast+
  moreover have "2 ^ 31 * D \<le> N * 2 ^ s"
    using K(5) unfolding K(3) t using ND(3) by (simp only: less_eq_div_iff_mult_less_eq)
  moreover have "frac_long_divide num den = Some (?q, 32 - int s, ucast r)"
    using assms(1,2) K(1) s(2) by (simp add: frac_long_divide_def p_def [symmetric])
  ultimately show ?thesis using s(1) by blast
qed

section \<open>Scaling\<close>

lemma scale_bounds:
  fixes N D q s x :: nat
  assumes "N * 2 ^ s \<le> q * D" "q * D < N * 2 ^ s + D" "0 < D"
  shows "N * x div D \<le> q * x div 2 ^ s"
    and "D * x \<le> 2 ^ s \<Longrightarrow> q * x div 2 ^ s \<le> N * x div D"
    and "x \<le> 2 ^ s \<Longrightarrow> q * x div 2 ^ s \<le> N * x div D + 1"
proof -
  define f where "f = N * x div D"
  have f: "f * D \<le> N * x" "N * x + 1 \<le> (f + 1) * D"
    using dividend_less_times_div [OF assms(3), of "N * x"] by (simp_all add: f_def algebra_simps)
  have "f * 2 ^ s * D \<le> N * x * 2 ^ s" using mult_le_mono1 [OF f(1), of "2 ^ s"] by (simp add: ac_simps)
  also have "\<dots> \<le> q * x * D" using mult_le_mono1 [OF assms(1), of x] by (simp add: ac_simps)
  finally have "f * 2 ^ s \<le> q * x" using assms(3) by simp
  then show "N * x div D \<le> q * x div 2 ^ s" unfolding f_def [symmetric] by (simp add: less_eq_div_iff_mult_less_eq)
  have "(N * x + 1) * 2 ^ s \<le> (f + 1) * D * 2 ^ s" using f(2) by (rule mult_le_mono1)
  then have up: "N * x * 2 ^ s + 2 ^ s \<le> (f + 1) * 2 ^ s * D" by (simp add: algebra_simps)
  have qx: "q * x * D < N * x * 2 ^ s + D * x" if "0 < x"
    using mult_strict_right_mono [OF assms(2) that] by (simp add: algebra_simps)
  show "q * x div 2 ^ s \<le> N * x div D" if "D * x \<le> 2 ^ s"
  proof (cases "x = 0")
    case False
    then have "q * x * D < (f + 1) * 2 ^ s * D" using qx up that by linarith
    then have "q * x < (f + 1) * 2 ^ s" by simp
    then show ?thesis unfolding f_def [symmetric] by (metis less_Suc_eq_le Suc_eq_plus1 less_mult_imp_div_less)
  qed simp
  show "q * x div 2 ^ s \<le> N * x div D + 1" if "x \<le> 2 ^ s"
  proof (cases "x = 0")
    case False
    have "D * x \<le> 2 ^ s * D" using that by (simp add: mult.commute)
    then have "q * x * D < (f + 1) * 2 ^ s * D + 2 ^ s * D" using qx up False by linarith
    then have "q * x * D < (f + 2) * 2 ^ s * D" by (simp add: algebra_simps)
    then have "q * x < (f + 2) * 2 ^ s" by simp
    then show ?thesis unfolding f_def [symmetric] by (metis less_Suc_eq_le Suc_eq_plus1 add_Suc_right one_add_one plus_1_eq_Suc less_mult_imp_div_less)
  qed simp
qed

lemma frac_scale_nat:
  assumes "unat (frac_shift f) = s"
  shows "unat (frac_scale f x) = unat (frac_frac f) * unat x div 2 ^ s mod 2 ^ 32"
  unfolding frac_scale_def unat_low32 unat_drop_bit_div unat_mul32 assms ..

text \<open>What \<open>frac_init\<close> computes: a mantissa and an exponent for the reduced fraction \<open>N\<close> / \<open>D\<close>, rounded up.\<close>

definition scales :: "frac \<Rightarrow> nat \<Rightarrow> nat \<Rightarrow> bool" where
  "scales f N D \<longleftrightarrow> 0 < N \<and> 0 < D \<and> 2 ^ 31 * D \<le> N * 2 ^ unat (frac_shift f) \<and>
     N * 2 ^ unat (frac_shift f) \<le> unat (frac_frac f) * D \<and>
     unat (frac_frac f) * D < N * 2 ^ unat (frac_shift f) + D"

lemma frac_init_spec:
  assumes "num \<noteq> 0" "den \<noteq> 0"
  shows "\<exists>f g N D. frac_init num den = Some f \<and> unat num = g * N \<and> unat den = g * D \<and> 0 < g \<and> scales f N D"
proof -
  obtain g where g: "gcd32 num den = Some g" "unat g = gcd (unat num) (unat den)" using gcd32_correct by blast
  define n d where "n = num div g" and "d = den div g"
  have nz: "0 < unat num" "0 < unat den" using assms by (simp_all add: unat_gt_0)
  have nd: "unat num = unat g * unat n" "unat den = unat g * unat d" by (simp_all add: n_def d_def unat_div g(2))
  with nz have pos: "0 < unat g" "0 < unat n" "0 < unat d" by (auto intro: gr0I)
  then have "n \<noteq> 0" "d \<noteq> 0" by auto
  from long_divide_spec [OF this refl refl] obtain q r s where
    q: "frac_long_divide n d = Some (q, 32 - int s, r)" "s \<le> 63" "2 ^ 31 * unat d \<le> unat n * 2 ^ s"
      "unat n * 2 ^ s \<le> unat q * unat d" "unat q * unat d < unat n * 2 ^ s + unat d" by blast
  let ?f = "\<lparr>frac_frac = q, frac_shift = of_int (32 - (32 - int s))\<rparr>"
  have "frac_init num den = Some ?f"
    using assms(2) g(1) q(1) by (simp add: frac_init_def Let_def n_def d_def)
  moreover have "unat (frac_shift ?f) = s" using q(2) by (simp add: unat_of_nat)
  then have "scales ?f (unat n) (unat d)" unfolding scales_def using pos q(3-5) by simp
  ultimately show ?thesis using nd pos(1) by blast
qed

lemma scales_exact:
  assumes "scales f N D" "N * unat x < 2 ^ 31"
  shows "unat (frac_scale f x) = N * unat x div D"
proof -
  let ?s = "unat (frac_shift f)"
  have f: "0 < D" "2 ^ 31 * D \<le> N * 2 ^ ?s" "N * 2 ^ ?s \<le> unat (frac_frac f) * D" "unat (frac_frac f) * D < N * 2 ^ ?s + D"
    using assms(1) by (simp_all add: scales_def)
  note b = scale_bounds [OF f(3,4,1), of "unat x"]
  have "2 ^ 31 * (D * unat x) \<le> N * unat x * 2 ^ ?s" using mult_le_mono1 [OF f(2), of "unat x"] by (simp add: ac_simps)
  also have "\<dots> \<le> 2 ^ 31 * 2 ^ ?s" using assms(2) by (intro mult_le_mono1) simp
  finally have "D * unat x \<le> 2 ^ ?s" by simp
  then have "unat (frac_frac f) * unat x div 2 ^ ?s = N * unat x div D" using b(1,2) by simp
  moreover have "N * unat x div D < 2 ^ 32" by (rule le_less_trans [OF div_le_dividend]) (use assms(2) in simp)
  ultimately show ?thesis using frac_scale_nat [OF refl, of f x] by simp
qed

lemma scales_fraction_bound:
  assumes "scales f N D" "N < D"
  shows "unat (x :: u32) \<le> 2 ^ unat (frac_shift f)"
proof -
  let ?s = "unat (frac_shift f)"
  have "2 ^ 31 * D \<le> N * 2 ^ ?s" using assms(1) by (simp add: scales_def)
  also have "\<dots> < D * 2 ^ ?s" using assms(2) by simp
  finally have "2 ^ 31 * D < D * 2 ^ ?s" .
  then have "(2 :: nat) ^ 31 < 2 ^ ?s" by (simp add: mult.commute)
  then have "32 \<le> ?s" by (simp only: power_strict_increasing_iff)
  then have "(2 :: nat) ^ 32 \<le> 2 ^ ?s" by (simp only: power_increasing)
  then show ?thesis using unat_lt(2) [of x] by simp
qed

lemma scales_one:
  assumes "scales f D D"
  shows "unat (frac_frac f) = 2 ^ unat (frac_shift f)"
proof -
  let ?s = "unat (frac_shift f)"
  have "2 ^ ?s * D \<le> unat (frac_frac f) * D" "unat (frac_frac f) * D < (2 ^ ?s + 1) * D" "0 < D"
    using assms unfolding scales_def by (simp_all only: mult.commute [of D] add_mult_distrib mult_1)
  then have "2 ^ ?s \<le> unat (frac_frac f)" "unat (frac_frac f) < 2 ^ ?s + 1"
    by (simp_all only: mult_le_cancel2 mult_less_cancel2)
  then show ?thesis by simp
qed

lemma scales_fraction:
  assumes f: "scales f N D" and le: "N \<le> D"
  shows "unat (frac_scale f x) \<in> {N * unat x div D, N * unat x div D + 1}"
proof -
  let ?s = "unat (frac_shift f)"
  let ?q = "unat (frac_frac f) * unat x div 2 ^ ?s"
  have D: "0 < D" using f by (simp add: scales_def)
  have "?q \<in> {N * unat x div D, N * unat x div D + 1} \<and> ?q \<le> unat x"
  proof (cases "N = D")
    case True
    then show ?thesis using scales_one f D by simp
  next
    case False
    with le have ND: "N < D" by simp
    have r: "?q \<in> {N * unat x div D, N * unat x div D + 1}"
      using scale_bounds(1,3) [of N ?s "unat (frac_frac f)" D "unat x"] scales_fraction_bound [OF f ND, of x] f
      by (auto simp: scales_def)
    show ?thesis
    proof (cases "unat x = 0")
      case False
      then have "N * unat x < unat x * D" using ND by simp
      then have "N * unat x div D < unat x" by (rule less_mult_imp_div_less)
      with r show ?thesis by auto
    qed (use r in simp)
  qed
  then show ?thesis using frac_scale_nat [OF refl, of f x] unat_lt(2) [of x] by auto
qed

section \<open>Properties\<close>

text \<open>
  Scaling by a fraction: for every denominator but zero, \<open>frac_init\<close> terminates, and scaling \<open>x\<close> with the result is exactly
  the integer division of \<open>x\<close> * \<open>num\<close> by \<open>den\<close> whenever that product is below 2 ^ 31; for a fraction of at most one, the result is for every
  \<open>x\<close> at most one too large.
\<close>
theorem frac_scale_divides:
  assumes "den \<noteq> 0"
  shows "\<exists>f. frac_init num den = Some f \<and>
    (\<forall>x. unat x * unat num < 2 ^ 31 \<longrightarrow> unat (frac_scale f x) = unat x * unat num div unat den) \<and>
    (\<forall>x. num \<le> den \<longrightarrow> unat (frac_scale f x) \<in> {unat x * unat num div unat den, unat x * unat num div unat den + 1})"
proof (cases "num = 0")
  case True
  have "0 < unat den" using assms by (simp add: unat_gt_0)
  then have "unat (den div den) \<noteq> 0" unfolding unat_div by simp
  then have "den div den \<noteq> 0" by auto
  then have "frac_init num den = Some \<lparr>frac_frac = 0, frac_shift = of_int 32\<rparr>"
    using assms True by (simp add: frac_init_def gcd32_def frac_long_divide_def Let_def)
  then show ?thesis using True by (auto simp: frac_scale_def)
next
  case False
  from frac_init_spec [OF this assms] obtain f g N D where
    f: "frac_init num den = Some f" "unat num = g * N" "unat den = g * D" "0 < g" "scales f N D" by blast
  have quot: "x * unat num div unat den = N * x div D" for x
    using f(4) by (simp add: f(2,3) mult.left_commute [of x g] mult.commute [of x N])
  have "N * unat x < 2 ^ 31" if "unat x * unat num < 2 ^ 31" for x :: u32
    by (rule le_less_trans [OF _ that]) (use f(4) in \<open>simp add: f(2)\<close>)
  moreover have "N \<le> D" if "num \<le> den" using that f(2-4) by (simp add: word_le_nat_alt)
  ultimately show ?thesis using f(1,5) scales_exact scales_fraction unfolding quot by blast
qed

theorem frac_scale_divides_witness:
  "\<exists>f. frac_init 512 15625 = Some f \<and> unat (frac_scale f 1000000) = 32768"
  using frac_scale_divides [of 15625 512] by auto

end
