(* ===== verification/Checksum.thy ===== *)
theory Checksum
  imports Bitarithm
begin

text \<open>
  Checksums (sys/checksum): the table-driven CRC-16 of crc16_ccitt.c, the bitwise ones of ucrc16.c and crc8.c, and the Fletcher sums of
  fletcher16.c and fletcher32.c. A buffer is the list of the values read from it, of the given length.
\<close>

section \<open>Cyclic redundancy checks\<close>

definition crc16_lookuptable :: "u16 list" where
  "crc16_lookuptable =
    [0x0000, 0x1021, 0x2042, 0x3063, 0x4084, 0x50a5, 0x60c6, 0x70e7, 0x8108, 0x9129, 0xa14a, 0xb16b,
     0xc18c, 0xd1ad, 0xe1ce, 0xf1ef, 0x1231, 0x0210, 0x3273, 0x2252, 0x52b5, 0x4294, 0x72f7, 0x62d6,
     0x9339, 0x8318, 0xb37b, 0xa35a, 0xd3bd, 0xc39c, 0xf3ff, 0xe3de, 0x2462, 0x3443, 0x0420, 0x1401,
     0x64e6, 0x74c7, 0x44a4, 0x5485, 0xa56a, 0xb54b, 0x8528, 0x9509, 0xe5ee, 0xf5cf, 0xc5ac, 0xd58d,
     0x3653, 0x2672, 0x1611, 0x0630, 0x76d7, 0x66f6, 0x5695, 0x46b4, 0xb75b, 0xa77a, 0x9719, 0x8738,
     0xf7df, 0xe7fe, 0xd79d, 0xc7bc, 0x48c4, 0x58e5, 0x6886, 0x78a7, 0x0840, 0x1861, 0x2802, 0x3823,
     0xc9cc, 0xd9ed, 0xe98e, 0xf9af, 0x8948, 0x9969, 0xa90a, 0xb92b, 0x5af5, 0x4ad4, 0x7ab7, 0x6a96,
     0x1a71, 0x0a50, 0x3a33, 0x2a12, 0xdbfd, 0xcbdc, 0xfbbf, 0xeb9e, 0x9b79, 0x8b58, 0xbb3b, 0xab1a,
     0x6ca6, 0x7c87, 0x4ce4, 0x5cc5, 0x2c22, 0x3c03, 0x0c60, 0x1c41, 0xedae, 0xfd8f, 0xcdec, 0xddcd,
     0xad2a, 0xbd0b, 0x8d68, 0x9d49, 0x7e97, 0x6eb6, 0x5ed5, 0x4ef4, 0x3e13, 0x2e32, 0x1e51, 0x0e70,
     0xff9f, 0xefbe, 0xdfdd, 0xcffc, 0xbf1b, 0xaf3a, 0x9f59, 0x8f78, 0x9188, 0x81a9, 0xb1ca, 0xa1eb,
     0xd10c, 0xc12d, 0xf14e, 0xe16f, 0x1080, 0x00a1, 0x30c2, 0x20e3, 0x5004, 0x4025, 0x7046, 0x6067,
     0x83b9, 0x9398, 0xa3fb, 0xb3da, 0xc33d, 0xd31c, 0xe37f, 0xf35e, 0x02b1, 0x1290, 0x22f3, 0x32d2,
     0x4235, 0x5214, 0x6277, 0x7256, 0xb5ea, 0xa5cb, 0x95a8, 0x8589, 0xf56e, 0xe54f, 0xd52c, 0xc50d,
     0x34e2, 0x24c3, 0x14a0, 0x0481, 0x7466, 0x6447, 0x5424, 0x4405, 0xa7db, 0xb7fa, 0x8799, 0x97b8,
     0xe75f, 0xf77e, 0xc71d, 0xd73c, 0x26d3, 0x36f2, 0x0691, 0x16b0, 0x6657, 0x7676, 0x4615, 0x5634,
     0xd94c, 0xc96d, 0xf90e, 0xe92f, 0x99c8, 0x89e9, 0xb98a, 0xa9ab, 0x5844, 0x4865, 0x7806, 0x6827,
     0x18c0, 0x08e1, 0x3882, 0x28a3, 0xcb7d, 0xdb5c, 0xeb3f, 0xfb1e, 0x8bf9, 0x9bd8, 0xabbb, 0xbb9a,
     0x4a75, 0x5a54, 0x6a37, 0x7a16, 0x0af1, 0x1ad0, 0x2ab3, 0x3a92, 0xfd2e, 0xed0f, 0xdd6c, 0xcd4d,
     0xbdaa, 0xad8b, 0x9de8, 0x8dc9, 0x7c26, 0x6c07, 0x5c64, 0x4c45, 0x3ca2, 0x2c83, 0x1ce0, 0x0cc1,
     0xef1f, 0xff3e, 0xcf5d, 0xdf7c, 0xaf9b, 0xbfba, 0x8fd9, 0x9ff8, 0x6e17, 0x7e36, 0x4e55, 0x5e74,
     0x2e93, 0x3eb2, 0x0ed1, 0x1ef0]"

definition crc16_ccitt_update :: "u16 \<Rightarrow> u8 list \<Rightarrow> u16" where
  "crc16_ccitt_update crc buf =
     foldl (\<lambda>crc b. push_bit 8 crc XOR crc16_lookuptable ! unat (drop_bit 8 crc XOR ucast b)) crc buf"

definition crc16_ccitt_calc :: "u8 list \<Rightarrow> u16" where
  "crc16_ccitt_calc buf = crc16_ccitt_update 0x1D0F buf"

definition be_round :: "u16 \<Rightarrow> u32 \<Rightarrow> u32" where
  "be_round poly tmp = (if tmp AND 0x8000 \<noteq> 0 then push_bit 1 tmp XOR ucast poly else push_bit 1 tmp)"

definition ucrc16_calc_be :: "u8 list \<Rightarrow> u16 \<Rightarrow> u16 \<Rightarrow> u16" where
  "ucrc16_calc_be buf poly seed =
     foldl (\<lambda>seed b. ucast ((be_round poly ^^ 8) (ucast seed XOR push_bit 8 (ucast b)) AND 0xFFFF)) seed buf"

definition le_round :: "u16 \<Rightarrow> u16 \<Rightarrow> u16" where
  "le_round poly seed = (if seed AND 0x0001 \<noteq> 0 then drop_bit 1 seed XOR poly else drop_bit 1 seed)"

definition ucrc16_calc_le :: "u8 list \<Rightarrow> u16 \<Rightarrow> u16 \<Rightarrow> u16" where
  "ucrc16_calc_le buf poly seed = foldl (\<lambda>seed b. (le_round poly ^^ 8) (seed XOR ucast b)) seed buf"

definition crc8_round :: "u8 \<Rightarrow> u8 \<Rightarrow> u8" where
  "crc8_round g_polynom crc = (let x = crc AND 0x80 \<noteq> 0; crc = push_bit 1 crc in if x then crc XOR g_polynom else crc)"

definition crc8 :: "u8 list \<Rightarrow> u8 \<Rightarrow> u8 \<Rightarrow> u8" where
  "crc8 data g_polynom crc = foldl (\<lambda>crc b. (crc8_round g_polynom ^^ 8) (crc XOR b)) crc data"

section \<open>The table is eight bitwise rounds\<close>

definition round16 :: "u16 \<Rightarrow> u16 \<Rightarrow> u16" where
  "round16 poly x = (if bit x 15 then push_bit 1 x XOR poly else push_bit 1 x)"

lemma round16_xor: "round16 p (x XOR y) = round16 p x XOR round16 p y"
  by (rule bit_word_eqI) (auto simp: round16_def bit_simps)

lemma rounds16_xor: "(round16 p ^^ n) (x XOR y) = (round16 p ^^ n) x XOR (round16 p ^^ n) y"
  by (induction n) (simp_all add: round16_xor)

lemma ucast_shift: "ucast (push_bit 1 (t :: u32)) = (push_bit 1 (ucast t) :: u16)"
  by (rule bit_word_eqI) (unfold bit_ucast_iff bit_push_bit_iff, auto)

lemma be_round_low: "ucast (be_round p t) = round16 p (ucast t)"
proof -
  have "t AND 0x8000 \<noteq> 0 \<longleftrightarrow> bit t 15" using bit_iff_and_push_bit_not_eq_0 [of t 15] by simp
  moreover have "bit (ucast t :: u16) 15 \<longleftrightarrow> bit t 15" by (simp add: bit_ucast_iff)
  moreover have "ucast (push_bit 1 t XOR ucast p) = (push_bit 1 (ucast t) XOR p :: u16)"
    unfolding unsigned_xor_eq ucast_shift by (intro bit_word_eqI) (auto simp: bit_simps)
  ultimately show ?thesis unfolding be_round_def round16_def using ucast_shift by simp
qed

lemma be_rounds_low: "ucast ((be_round p ^^ n) t) = (round16 p ^^ n) (ucast t)"
  by (induction n) (simp_all add: be_round_low)

lemma rounds_low_byte: "n \<le> 8 \<Longrightarrow> take_bit 8 x = x \<Longrightarrow> (round16 p ^^ n) x = push_bit n x"
proof (induction n)
  case (Suc n)
  have "bit x i \<Longrightarrow> i < 8" for i using Suc.prems(2) by (metis bit_take_bit_iff)
  then have "\<not> bit (push_bit n x) 15" using Suc.prems(1) unfolding bit_push_bit_iff by fastforce
  then show ?case using Suc by (simp add: round16_def)
qed simp

definition byte_rounds :: "u16 \<Rightarrow> u16" where
  "byte_rounds w = (round16 0x1021 ^^ 8) (push_bit 8 w)"

lemma byte_rounds_xor: "byte_rounds (v XOR w) = byte_rounds v XOR byte_rounds w"
proof -
  have "push_bit 8 (v XOR w) = push_bit 8 v XOR push_bit 8 w" by (rule bit_word_eqI) (auto simp: bit_simps)
  then show ?thesis unfolding byte_rounds_def by (simp only: rounds16_xor)
qed

lemma byte_rounds_0_1: "byte_rounds 0 = 0" "byte_rounds 1 = 0x1021"
  by code_simp+

lemma byte_rounds_double:
  assumes "i < 128"
  shows "byte_rounds (of_nat (2 * i)) = round16 0x1021 (byte_rounds (of_nat i))"
    and "byte_rounds (of_nat (2 * i + 1)) = round16 0x1021 (byte_rounds (of_nat i)) XOR 0x1021"
proof -
  let ?w = "of_nat i :: u16"
  have w: "unat ?w = i" using assms by (simp add: unat_of_nat)
  then have "\<not> bit ?w 7" using assms by (simp add: bit_unat_iff)
  then have "\<not> bit (push_bit 8 ?w) 15" by (simp add: bit_push_bit_iff)
  then have "round16 0x1021 (push_bit 8 ?w) = push_bit 1 (push_bit 8 ?w)" by (simp add: round16_def)
  also have "\<dots> = push_bit 8 (of_nat (2 * i))" by (simp add: push_bit_eq_mult)
  finally have r: "push_bit 8 (of_nat (2 * i)) = round16 0x1021 (push_bit 8 ?w)" ..
  show dbl: "byte_rounds (of_nat (2 * i)) = round16 0x1021 (byte_rounds ?w)"
    unfolding byte_rounds_def r by (rule funpow_swap1 [symmetric])
  have "\<not> bit (of_nat (2 * i) :: u16) 0" by (simp add: bit_0)
  then have "of_nat (2 * i + 1) = (of_nat (2 * i) XOR 1 :: u16)" by (simp add: xor_one_eq bit_0)
  then show "byte_rounds (of_nat (2 * i + 1)) = round16 0x1021 (byte_rounds ?w) XOR 0x1021"
    by (simp only: byte_rounds_xor byte_rounds_0_1 dbl)
qed

text \<open>
  The second half of the table follows from the first: entries 2 * i and 2 * i + 1 are one more round on entry i, and that with the
  polynomial added.
\<close>

lemma table_doubles:
  "crc16_lookuptable = concat (map (\<lambda>t. let d = (if t AND 0x8000 \<noteq> 0 then (2 * t) XOR 0x1021 else 2 * t) in [d, d XOR 0x1021])
     (take 128 crc16_lookuptable))"
  by (simp add: crc16_lookuptable_def)

lemma length_table: "length crc16_lookuptable = 256"
  by (simp add: crc16_lookuptable_def)

lemma nth_pairs:
  "i < length xs \<Longrightarrow> concat (map (\<lambda>t. [f t, g t]) xs) ! (2 * i) = f (xs ! i) \<and> concat (map (\<lambda>t. [f t, g t]) xs) ! (2 * i + 1) = g (xs ! i)"
proof (induction xs arbitrary: i)
  case (Cons x xs)
  then show ?case by (cases i) auto
qed simp

lemma table_nth_double:
  assumes "i < 128"
  shows "crc16_lookuptable ! (2 * i) = round16 0x1021 (crc16_lookuptable ! i)"
    and "crc16_lookuptable ! (2 * i + 1) = round16 0x1021 (crc16_lookuptable ! i) XOR 0x1021"
proof -
  have r: "(if t AND 0x8000 \<noteq> 0 then (2 * t) XOR 0x1021 else 2 * t) = round16 0x1021 t" for t :: u16
    using bit_iff_and_push_bit_not_eq_0 [of t 15] by (simp add: round16_def mult.commute)
  have "crc16_lookuptable = concat (map (\<lambda>t. [round16 0x1021 t, round16 0x1021 t XOR 0x1021]) (take 128 crc16_lookuptable))"
    by (subst table_doubles) (simp only: r Let_def)
  with nth_pairs [of i "take 128 crc16_lookuptable" "round16 0x1021" "\<lambda>t. round16 0x1021 t XOR 0x1021"] assms
  show "crc16_lookuptable ! (2 * i) = round16 0x1021 (crc16_lookuptable ! i)"
    "crc16_lookuptable ! (2 * i + 1) = round16 0x1021 (crc16_lookuptable ! i) XOR 0x1021"
    by (simp_all add: length_table)
qed

lemma table_nth: "i < 256 \<Longrightarrow> crc16_lookuptable ! i = byte_rounds (of_nat i)"
proof (induction i rule: less_induct)
  case (less i)
  consider "i = 0" | j where "i = 2 * j" "j < i" "j < 128" | j where "i = 2 * j + 1" "j < i" "j < 128"
    using less.prems by (cases "i = 0"; cases "even i") (auto elim!: evenE oddE)
  then show ?case
  proof cases
    case 1
    then show ?thesis by (simp add: byte_rounds_0_1) (simp add: crc16_lookuptable_def)
  next
    case (2 j)
    then show ?thesis using less.IH [of j] table_nth_double(1) byte_rounds_double(1) by simp
  next
    case (3 j)
    then show ?thesis using less.IH [of j] table_nth_double(2) byte_rounds_double(2) by simp
  qed
qed

lemma ucast_low16: "ucast (t AND 0xFFFF :: u32) = (ucast t :: u16)"
proof -
  have "t AND 0xFFFF = take_bit 16 t" by (simp add: take_bit_eq_mask mask_eq_exp_minus_1)
  then show ?thesis by (intro bit_word_eqI) (auto simp: bit_simps)
qed

lemma crc_byte:
  "push_bit 8 c XOR crc16_lookuptable ! unat (drop_bit 8 c XOR ucast b) =
   ucast ((be_round 0x1021 ^^ 8) (ucast c XOR push_bit 8 (ucast (b :: u8))) AND 0xFFFF)"
proof -
  let ?i = "drop_bit 8 c XOR ucast b"
  have tb: "take_bit 8 ?i = ?i" by (rule bit_word_eqI) (auto simp: bit_simps dest: bit_imp_le_length)
  have "unat (take_bit 8 ?i) < 2 ^ 8" unfolding unsigned_take_bit_eq by (rule take_bit_nat_less_exp)
  then have "unat ?i < 2 ^ 8" by (simp only: tb)
  then have tab: "crc16_lookuptable ! unat ?i = byte_rounds ?i" using table_nth [of "unat ?i"] by simp
  have split: "(ucast (ucast c XOR push_bit 8 (ucast b) :: u32) :: u16) = push_bit 8 ?i XOR take_bit 8 c"
    by (rule bit_word_eqI) (auto simp: bit_simps)
  have "ucast ((be_round 0x1021 ^^ 8) (ucast c XOR push_bit 8 (ucast b)) AND 0xFFFF) =
      (ucast ((be_round 0x1021 ^^ 8) (ucast c XOR push_bit 8 (ucast b))) :: u16)"
    by (rule ucast_low16)
  also have "\<dots> = byte_rounds ?i XOR push_bit 8 (take_bit 8 c)"
    unfolding be_rounds_low split rounds16_xor byte_rounds_def using rounds_low_byte [of 8 "take_bit 8 c"] by simp
  also have "push_bit 8 (take_bit 8 c) = push_bit 8 c" by (rule bit_word_eqI) (auto simp: bit_simps)
  finally show ?thesis unfolding tab by (simp only: xor.commute)
qed

section \<open>Properties of the cyclic redundancy checks\<close>

text \<open>
  (C28) The table-driven checksum is the bitwise one: \<open>crc16_ccitt_update\<close> returns for every buffer and every start value what
  \<open>ucrc16_calc_be\<close> returns for the polynomial 0x1021; in particular each of the 256 table entries is right, and a checksum can be
  continued over the parts of a buffer.
\<close>
theorem crc16_table_is_bitwise:
  "crc16_ccitt_update crc buf = ucrc16_calc_be buf 0x1021 crc \<and>
   crc16_ccitt_update (crc16_ccitt_update crc buf) rest = crc16_ccitt_update crc (buf @ rest) \<and>
   crc16_ccitt_calc buf = ucrc16_calc_be buf 0x1021 0x1D0F"
  unfolding crc16_ccitt_calc_def crc16_ccitt_update_def ucrc16_calc_be_def crc_byte by simp

section \<open>Fletcher sums\<close>

text \<open>
  Both Fletcher checksums run the same loop, on 16-bit sums of bytes and on 32-bit sums of 16-bit words: \<open>blk\<close> values at a time are added
  before the sums are folded to \<open>h\<close> bits and a carry. \<open>mask 8\<close> is 0xff, \<open>mask 16\<close> is 0xffff.
\<close>

record 'w sums =
  sum1 :: 'w
  sum2 :: 'w

definition fl_add :: "'w::len word sums \<Rightarrow> 'd::len word \<Rightarrow> 'w word sums" where
  "fl_add ctx d = (let s1 = sum1 ctx + ucast d in \<lparr>sum1 = s1, sum2 = sum2 ctx + s1\<rparr>)"

definition fl_reduce :: "nat \<Rightarrow> 'w::len word sums \<Rightarrow> 'w word sums" where
  "fl_reduce h ctx =
     \<lparr>sum1 = (sum1 ctx AND mask h) + drop_bit h (sum1 ctx), sum2 = (sum2 ctx AND mask h) + drop_bit h (sum2 ctx)\<rparr>"

function fl_update :: "nat \<Rightarrow> nat \<Rightarrow> 'w::len word sums \<Rightarrow> 'd::len word list \<Rightarrow> 'w word sums" where
  "fl_update blk h ctx data =
     (if data = [] \<or> blk = 0 then ctx
      else (let tlen = (if length data > blk then blk else length data)
            in fl_update blk h (fl_reduce h (foldl fl_add ctx (take tlen data))) (drop tlen data)))"
  by pat_completeness auto
termination by (relation "measure (\<lambda>(_, _, _, data). length data)") auto

declare fl_update.simps [simp del]

definition fletcher16_init :: "u16 sums" where
  "fletcher16_init = \<lparr>sum1 = 0xff, sum2 = 0xff\<rparr>"

definition fletcher16_update :: "u16 sums \<Rightarrow> u8 list \<Rightarrow> u16 sums" where
  "fletcher16_update ctx data = fl_update 20 8 ctx data"

definition fletcher16_finish :: "u16 sums \<Rightarrow> u16" where
  "fletcher16_finish ctx = (let ctx = fl_reduce 8 ctx in push_bit 8 (sum2 ctx) OR sum1 ctx)"

definition fletcher16 :: "u8 list \<Rightarrow> u16" where
  "fletcher16 data = fletcher16_finish (fletcher16_update fletcher16_init data)"

definition fletcher32 :: "u16 list \<Rightarrow> u32" where
  "fletcher32 data =
     (let ctx = fl_reduce 16 (fl_update 359 16 \<lparr>sum1 = 0xffff, sum2 = 0xffff\<rparr> data)
      in push_bit 16 (sum2 ctx) OR sum1 ctx)"

section \<open>Fletcher sums modulo 255 and 65535\<close>

text \<open>The second sum counts every value as often as there are values from it on.\<close>

fun weighted :: "nat list \<Rightarrow> nat" where
  "weighted [] = 0"
| "weighted (d # ds) = (length ds + 1) * d + weighted ds"

definition fold_sum :: "nat \<Rightarrow> nat \<Rightarrow> nat" where
  "fold_sum m x = x mod (m + 1) + x div (m + 1)"

lemma fold_sum_facts:
  shows "fold_sum m x mod m = x mod m" "0 < x \<Longrightarrow> 0 < fold_sum m x" "x < (m + 1) * (m + 1) \<Longrightarrow> fold_sum m x \<le> 2 * m"
    "x \<le> 2 * m \<Longrightarrow> fold_sum m x \<le> m"
proof -
  have "x = x div (m + 1) * m + fold_sum m x"
    unfolding fold_sum_def using div_mult_mod_eq [of x "m + 1"] by (simp add: add_mult_distrib2)
  then have "x mod m = (x div (m + 1) * m + fold_sum m x) mod m" by metis
  then show "fold_sum m x mod m = x mod m" by simp
  show "0 < x \<Longrightarrow> 0 < fold_sum m x" by (auto simp: fold_sum_def intro: gr0I) (metis add_0 div_mult_mod_eq mult_0 mod_div_trivial not_gr_zero)
  show "fold_sum m x \<le> 2 * m" if "x < (m + 1) * (m + 1)"
  proof -
    have "x div (m + 1) < m + 1" using that by (rule less_mult_imp_div_less)
    moreover have "x mod (m + 1) < m + 1" by simp
    ultimately show ?thesis unfolding fold_sum_def by linarith
  qed
  show "fold_sum m x \<le> m" if "x \<le> 2 * m"
  proof (cases "x \<le> m")
    case True
    then show ?thesis by (simp add: fold_sum_def)
  next
    case False
    then have "x div (m + 1) = 1" "x mod (m + 1) = x - (m + 1)" using that by (simp_all add: le_div_geq le_mod_geq)
    then show ?thesis unfolding fold_sum_def using that False by linarith
  qed
qed

lemma unat_fold:
  assumes "LENGTH('w) = 2 * h" "0 < h"
  shows "unat ((x AND mask h) + drop_bit h x :: 'w::len word) = fold_sum (2 ^ h - 1) (unat x)"
proof -
  have "unat (x AND mask h) = unat x mod 2 ^ h" unfolding take_bit_eq_mask [symmetric] unsigned_take_bit_eq by (rule take_bit_eq_mod)
  moreover have "unat (drop_bit h x) = unat x div 2 ^ h" by (rule unat_drop_bit_div)
  moreover have "unat x div 2 ^ h < 2 ^ h"
  proof (rule less_mult_imp_div_less)
    show "unat x < 2 ^ h * 2 ^ h" using unsigned_less [of x, where ?'a = nat] assms(1) by (simp add: mult_2 flip: power_add)
  qed
  moreover have "(2 :: nat) ^ h + 2 ^ h \<le> 2 ^ LENGTH('w)"
  proof -
    have "(2 :: nat) ^ Suc h \<le> 2 ^ LENGTH('w)" using assms by (intro power_increasing) simp_all
    then show ?thesis by simp
  qed
  moreover have "unat x mod 2 ^ h < 2 ^ h" by simp
  ultimately have "unat ((x AND mask h) + drop_bit h x) = unat x mod 2 ^ h + unat x div 2 ^ h"
    by (subst unat_add_fits) linarith+
  then show ?thesis by (simp add: fold_sum_def)
qed

lemma add_values:
  fixes ctx :: "'w::len word sums" and ds :: "'d::len word list"
  assumes "LENGTH('d) \<le> LENGTH('w)" "\<forall>d\<in>set ds. unat d \<le> m"
    and "unat (sum2 ctx) + length ds * unat (sum1 ctx) + weighted (replicate (length ds) m) < 2 ^ LENGTH('w)"
    and "unat (sum1 ctx) + length ds * m < 2 ^ LENGTH('w)"
  shows "unat (sum1 (foldl fl_add ctx ds)) = unat (sum1 ctx) + sum_list (map unat ds) \<and>
    unat (sum2 (foldl fl_add ctx ds)) = unat (sum2 ctx) + length ds * unat (sum1 ctx) + weighted (map unat ds)"
  using assms(2-)
proof (induction ds arbitrary: ctx)
  case (Cons d ds)
  let ?c = "fl_add ctx d"
  have d: "unat d \<le> m" "unat (ucast d :: 'w word) = unat d"
    using Cons.prems(1) by (simp, unfold unsigned_ucast_eq) (rule take_bit_nat_eq_self, rule less_le_trans [OF unsigned_less], use assms(1) in simp)
  have s1: "unat (sum1 ?c) = unat (sum1 ctx) + unat d"
    using Cons.prems(3) d by (simp add: fl_add_def Let_def unat_add_fits)
  have s2: "unat (sum2 ?c) = unat (sum2 ctx) + unat (sum1 ctx) + unat d"
    using Cons.prems(2) d s1 by (simp add: fl_add_def Let_def unat_add_fits algebra_simps)
  have le: "length ds * unat d \<le> length ds * m" using d(1) by (rule mult_le_mono2)
  have "unat (sum2 ctx) + (unat (sum1 ctx) + length ds * unat (sum1 ctx)) +
      (m + length ds * m + weighted (replicate (length ds) m)) < 2 ^ LENGTH('w)"
    using Cons.prems(2) by (simp add: algebra_simps)
  with le d(1) have "unat (sum2 ?c) + length ds * unat (sum1 ?c) + weighted (replicate (length ds) m) < 2 ^ LENGTH('w)"
    unfolding s1 s2 distrib_left by linarith
  moreover have "unat (sum1 ?c) + length ds * m < 2 ^ LENGTH('w)" using Cons.prems(3) d(1) by (simp add: s1)
  ultimately have "unat (sum1 (foldl fl_add ?c ds)) = unat (sum1 ?c) + sum_list (map unat ds) \<and>
      unat (sum2 (foldl fl_add ?c ds)) = unat (sum2 ?c) + length ds * unat (sum1 ?c) + weighted (map unat ds)"
    using Cons.IH Cons.prems(1) by simp
  then show ?case by (simp add: s1 s2 algebra_simps)
qed simp

lemma weighted_replicate: "2 * weighted (replicate n m) = n * (n + 1) * m"
  by (induction n) (simp_all add: algebra_simps)

lemma weighted_append:
  "weighted (xs @ ys) = weighted xs + length ys * sum_list xs + weighted ys"
  by (induction xs) (simp_all add: algebra_simps)

text \<open>
  The sums between two blocks are positive and at most twice the modulus, so that a block cannot overflow them when \<open>blk\<close> is
  small enough; that is what the block lengths 20 and 359 are chosen for.
\<close>

definition sums_ok :: "nat \<Rightarrow> 'w::len word sums \<Rightarrow> bool" where
  "sums_ok m ctx \<longleftrightarrow> 0 < unat (sum1 ctx) \<and> unat (sum1 ctx) \<le> 2 * m \<and> 0 < unat (sum2 ctx) \<and> unat (sum2 ctx) \<le> 2 * m"

definition block_fits :: "nat \<Rightarrow> nat \<Rightarrow> bool" where
  "block_fits m blk \<longleftrightarrow> 4 + 4 * blk + blk * (blk + 1) \<le> 2 * (m + 2)"

lemma block_no_overflow:
  assumes "block_fits m blk" "n \<le> blk" "a \<le> 2 * m" "b \<le> 2 * m"
  shows "b + n * a + weighted (replicate n m) < (m + 1) * (m + 1)" "a + n * m < (m + 1) * (m + 1)"
proof -
  have "n * a \<le> blk * (2 * m)" using assms(2,3) by (rule mult_le_mono)
  moreover have "n * (n + 1) * m \<le> blk * (blk + 1) * m" using assms(2) by (intro mult_le_mono) simp_all
  ultimately have "2 * (b + n * a + weighted (replicate n m)) \<le> (4 + 4 * blk + blk * (blk + 1)) * m"
    using assms(4) weighted_replicate [of n m] by (simp add: algebra_simps)
  also have "\<dots> \<le> 2 * (m + 2) * m" using assms(1) unfolding block_fits_def by (rule mult_le_mono1)
  finally show "b + n * a + weighted (replicate n m) < (m + 1) * (m + 1)" by (simp add: algebra_simps)
  have "n * m \<le> blk * m" using assms(2) by (rule mult_le_mono1)
  then have "a + n * m \<le> (2 + blk) * m" using assms(3) unfolding add_mult_distrib by linarith
  also have "\<dots> \<le> (m + 2) * m" using assms(1) by (intro mult_le_mono1) (simp add: block_fits_def)
  also have "\<dots> < (m + 1) * (m + 1)" by (simp add: algebra_simps)
  finally show "a + n * m < (m + 1) * (m + 1)" .
qed

lemma unat_le_mask: "unat (d :: 'd::len word) \<le> 2 ^ LENGTH('d) - 1"
proof -
  have "unat d < 2 ^ LENGTH('d)" by (rule unsigned_less)
  then show ?thesis by linarith
qed

lemma block_spec:
  fixes ctx :: "'w::len word sums" and ds :: "'d::len word list"
  assumes w: "LENGTH('w) = 2 * h" "LENGTH('d) = h" "0 < h" "m = 2 ^ h - 1"
    and ok: "block_fits m blk" "length ds \<le> blk" "sums_ok m ctx"
    and c: "c = fl_reduce h (foldl fl_add ctx ds)"
  shows "sums_ok m c \<and> unat (sum1 c) mod m = (unat (sum1 ctx) + sum_list (map unat ds)) mod m \<and>
    unat (sum2 c) mod m = (unat (sum2 ctx) + length ds * unat (sum1 ctx) + weighted (map unat ds)) mod m"
proof -
  let ?s = "foldl fl_add ctx ds"
  have m1: "(m + 1) * (m + 1) = 2 ^ LENGTH('w)" using w by (simp add: mult_2 power_add)
  have b: "unat (sum1 ctx) \<le> 2 * m" "unat (sum2 ctx) \<le> 2 * m" using ok(3) by (simp_all add: sums_ok_def)
  have "\<forall>d\<in>set ds. unat d \<le> m" using unat_le_mask w(2,4) by metis
  moreover have "LENGTH('d) \<le> LENGTH('w)" using w(1,2) by simp
  ultimately have s: "unat (sum1 ?s) = unat (sum1 ctx) + sum_list (map unat ds)"
    "unat (sum2 ?s) = unat (sum2 ctx) + length ds * unat (sum1 ctx) + weighted (map unat ds)"
    using add_values [of ds m ctx] block_no_overflow [OF ok(1,2) b] unfolding m1 by auto
  have r: "unat (sum1 c) = fold_sum m (unat (sum1 ?s))" "unat (sum2 c) = fold_sum m (unat (sum2 ?s))"
    using unat_fold [OF w(1,3)] by (simp_all add: c fl_reduce_def w(4))
  have "unat (sum1 ?s) < (m + 1) * (m + 1)" "unat (sum2 ?s) < (m + 1) * (m + 1)" unfolding m1 by (rule unsigned_less)+
  moreover have "0 < unat (sum1 ?s)" "0 < unat (sum2 ?s)" using ok(3) by (simp_all add: s sums_ok_def)
  ultimately have "sums_ok m c" unfolding sums_ok_def r using fold_sum_facts(2,3) by blast
  then show ?thesis unfolding r fold_sum_facts(1) s by blast
qed

lemma fl_update_spec:
  fixes ctx :: "'w::len word sums" and data :: "'d::len word list"
  assumes w: "LENGTH('w) = 2 * h" "LENGTH('d) = h" "0 < h" "m = 2 ^ h - 1" and fits: "block_fits m blk" "0 < blk"
  shows "sums_ok m ctx \<Longrightarrow> sums_ok m (fl_update blk h ctx data) \<and>
    unat (sum1 (fl_update blk h ctx data)) mod m = (unat (sum1 ctx) + sum_list (map unat data)) mod m \<and>
    unat (sum2 (fl_update blk h ctx data)) mod m =
      (unat (sum2 ctx) + length data * unat (sum1 ctx) + weighted (map unat data)) mod m"
proof (induction "length data" arbitrary: ctx data rule: less_induct)
  case less
  show ?case
  proof (cases "data = []")
    case True
    then show ?thesis using less.prems by (simp add: fl_update.simps)
  next
    case False
    define n where "n = (if length data > blk then blk else length data)"
    let ?ds = "take n data" and ?rest = "drop n data"
    define c where "c = fl_reduce h (foldl fl_add ctx ?ds)"
    have run: "fl_update blk h ctx data = fl_update blk h c ?rest"
      using False fits(2) by (subst fl_update.simps) (simp add: Let_def n_def c_def)
    have n: "n \<le> blk" "0 < n" "n \<le> length data" using False fits(2) by (auto simp: n_def)
    then have len: "length ?ds \<le> blk" "length ?ds = n" "length ?rest < length data" by simp_all
    from block_spec [OF w fits(1) len(1) less.prems c_def] have c: "sums_ok m c"
      "unat (sum1 c) mod m = (unat (sum1 ctx) + sum_list (map unat ?ds)) mod m"
      "unat (sum2 c) mod m = (unat (sum2 ctx) + n * unat (sum1 ctx) + weighted (map unat ?ds)) mod m"
      unfolding len(2) by blast+
    from less.hyps [OF len(3) c(1)] have r: "sums_ok m (fl_update blk h c ?rest)"
      "unat (sum1 (fl_update blk h c ?rest)) mod m = (unat (sum1 c) + sum_list (map unat ?rest)) mod m"
      "unat (sum2 (fl_update blk h c ?rest)) mod m =
        (unat (sum2 c) + length ?rest * unat (sum1 c) + weighted (map unat ?rest)) mod m" by blast+
    have split: "map unat data = map unat ?ds @ map unat ?rest" by (simp flip: map_append)
    have "(unat (sum1 c) + sum_list (map unat ?rest)) mod m =
        (unat (sum1 ctx) + sum_list (map unat ?ds) + sum_list (map unat ?rest)) mod m"
      using c(2) by (intro mod_add_cong) simp_all
    also have "\<dots> = (unat (sum1 ctx) + sum_list (map unat data)) mod m" by (subst split) (simp add: add.assoc)
    finally have s1: "(unat (sum1 c) + sum_list (map unat ?rest)) mod m = (unat (sum1 ctx) + sum_list (map unat data)) mod m" .
    have "(unat (sum2 c) + length ?rest * unat (sum1 c) + weighted (map unat ?rest)) mod m =
        (unat (sum2 ctx) + n * unat (sum1 ctx) + weighted (map unat ?ds) +
          length ?rest * (unat (sum1 ctx) + sum_list (map unat ?ds)) + weighted (map unat ?rest)) mod m"
      using c(2,3) by (intro mod_add_cong mod_mult_cong) simp_all
    also have "\<dots> = (unat (sum2 ctx) + (n + length ?rest) * unat (sum1 ctx) + weighted (map unat data)) mod m"
      by (subst split) (simp only: weighted_append, simp add: algebra_simps)
    also have "n + length ?rest = length data" using n(3) by simp
    finally show ?thesis using r s1 unfolding run by simp
  qed
qed

text \<open>The representative of a sum modulo \<open>m\<close> between 1 and \<open>m\<close>.\<close>

definition ones_rep :: "nat \<Rightarrow> nat \<Rightarrow> nat" where
  "ones_rep m n = (if n mod m = 0 then m else n mod m)"

lemma ones_rep_unique: "0 < y \<Longrightarrow> y \<le> m \<Longrightarrow> y mod m = n mod m \<Longrightarrow> y = ones_rep m n"
  by (cases "y = m") (auto simp: ones_rep_def)

lemma combine_halves:
  assumes "LENGTH('w) = 2 * h" "unat a < 2 ^ h" "unat b < 2 ^ h"
  shows "unat (push_bit h b OR a :: 'w::len word) = unat b * 2 ^ h + unat a"
proof -
  have "unat b * 2 ^ h < 2 ^ h * 2 ^ h" using assms(3) by simp
  then have lt: "unat b * 2 ^ h < 2 ^ LENGTH('w)" using assms(1) by (simp add: mult_2 power_add)
  have p: "unat (push_bit h b) = unat b * 2 ^ h"
    unfolding unsigned_push_bit_eq using lt by (simp add: take_bit_eq_mod push_bit_eq_mult)
  have ta: "take_bit h (unat a) = unat a" using assms(2) by (rule take_bit_nat_eq_self)
  have "unat (push_bit h b OR a) = push_bit h (unat b) OR take_bit h (unat a)"
    unfolding unsigned_or_eq p ta by (simp add: push_bit_eq_mult)
  also have "\<dots> = push_bit h (unat b) + take_bit h (unat a)"
    by (rule disjunctive_add [symmetric]) (auto simp: bit_simps)
  finally show ?thesis by (simp add: ta push_bit_eq_mult)
qed

lemma finish_spec:
  fixes ctx :: "'w::len word sums"
  assumes "LENGTH('w) = 2 * h" "0 < h" "m = 2 ^ h - 1" "sums_ok m ctx" "c = fl_reduce h ctx"
  shows "unat (push_bit h (sum2 c) OR sum1 c) = ones_rep m (unat (sum2 ctx)) * 2 ^ h + ones_rep m (unat (sum1 ctx))"
proof -
  have r: "unat (sum1 c) = fold_sum m (unat (sum1 ctx))" "unat (sum2 c) = fold_sum m (unat (sum2 ctx))"
    using unat_fold [OF assms(1,2)] by (simp_all add: assms(3,5) fl_reduce_def)
  have ok: "0 < unat (sum1 ctx)" "unat (sum1 ctx) \<le> 2 * m" "0 < unat (sum2 ctx)" "unat (sum2 ctx) \<le> 2 * m"
    using assms(4) by (simp_all add: sums_ok_def)
  have o: "unat (sum1 c) = ones_rep m (unat (sum1 ctx))" "unat (sum2 c) = ones_rep m (unat (sum2 ctx))"
    unfolding r using fold_sum_facts(1,2,4) ok by (auto intro!: ones_rep_unique)
  have "m < 2 ^ h" by (simp add: assms(3))
  have "unat (sum1 c) \<le> m" "unat (sum2 c) \<le> m" unfolding r using fold_sum_facts(4) ok by blast+
  then have "unat (sum1 c) < 2 ^ h" "unat (sum2 c) < 2 ^ h" using \<open>m < 2 ^ h\<close> by (auto intro: le_less_trans)
  from combine_halves [OF assms(1) this] show ?thesis by (simp add: o)
qed

lemma ones_rep_cong: "a mod m = b mod m \<Longrightarrow> ones_rep m a = ones_rep m b"
  by (simp add: ones_rep_def)

lemma fl_result:
  fixes ctx :: "'w::len word sums" and data :: "'d::len word list"
  assumes w: "LENGTH('w) = 2 * h" "LENGTH('d) = h" "0 < h" "m = 2 ^ h - 1" and fits: "block_fits m blk" "0 < blk"
    and ctx: "sums_ok m ctx" "unat (sum1 ctx) mod m = s1 mod m" "unat (sum2 ctx) mod m = s2 mod m"
    and c: "c = fl_reduce h (fl_update blk h ctx data)"
  shows "unat (push_bit h (sum2 c) OR sum1 c) =
    ones_rep m (s2 + length data * s1 + weighted (map unat data)) * 2 ^ h + ones_rep m (s1 + sum_list (map unat data))"
proof -
  note up = fl_update_spec [OF w fits ctx(1), of data]
  have "unat (sum1 (fl_update blk h ctx data)) mod m = (s1 + sum_list (map unat data)) mod m"
    using up ctx(2) by (metis mod_add_left_eq)
  moreover have "(unat (sum2 ctx) + length data * unat (sum1 ctx) + weighted (map unat data)) mod m =
      (s2 + length data * s1 + weighted (map unat data)) mod m"
    using ctx(2,3) by (intro mod_add_cong mod_mult_cong) simp_all
  ultimately show ?thesis
    using finish_spec [OF w(1,3,4) _ c] up ones_rep_cong by metis
qed

section \<open>Properties of the Fletcher sums\<close>

lemma fletcher16_facts:
  "LENGTH(16) = 2 * 8" "LENGTH(8) = 8" "(0 :: nat) < 8" "(255 :: nat) = 2 ^ 8 - 1" "block_fits 255 20" "(0 :: nat) < 20"
  "sums_ok 255 fletcher16_init" "unat (sum1 fletcher16_init) mod 255 = 0 mod 255" "unat (sum2 fletcher16_init) mod 255 = 0 mod 255"
  by (simp_all add: block_fits_def sums_ok_def fletcher16_init_def)

lemma fletcher16_value:
  "unat (fletcher16 data) = ones_rep 255 (weighted (map unat data)) * 2 ^ 8 + ones_rep 255 (sum_list (map unat data))"
  using fl_result [OF fletcher16_facts refl, of data]
  by (simp add: fletcher16_def fletcher16_finish_def fletcher16_update_def Let_def)

lemma fletcher16_continued:
  "fletcher16_finish (fletcher16_update (fletcher16_update fletcher16_init data) rest) = fletcher16 (data @ rest)"
proof -
  let ?c = "fl_update 20 8 fletcher16_init data"
  have i: "unat (sum1 fletcher16_init) = 255" "unat (sum2 fletcher16_init) = 255" by (simp_all add: fletcher16_init_def)
  have m: "(255 + n * 255 + k) mod 255 = k mod 255" for n k :: nat
    using mod_mult_self1 [of k "n + 1" 255] by (simp add: add.commute add.left_commute)
  from fl_update_spec [OF fletcher16_facts(1-7), of data] have c: "sums_ok 255 ?c"
    "unat (sum1 ?c) mod 255 = sum_list (map unat data) mod 255" "unat (sum2 ?c) mod 255 = weighted (map unat data) mod 255"
    unfolding i m by simp_all
  have "unat (fletcher16_finish (fletcher16_update (fletcher16_update fletcher16_init data) rest)) = unat (fletcher16 (data @ rest))"
    using fl_result [OF fletcher16_facts(1-6) c refl, of rest]
    by (simp add: fletcher16_value fletcher16_finish_def fletcher16_update_def Let_def weighted_append ac_simps)
  then show ?thesis by (simp only: word_unat_eq_iff)
qed

lemma fletcher32_value:
  "unat (fletcher32 wdata) =
     ones_rep 65535 (weighted (map unat wdata)) * 2 ^ 16 + ones_rep 65535 (sum_list (map unat wdata))"
proof -
  let ?i = "\<lparr>sum1 = 0xffff, sum2 = 0xffff\<rparr> :: u32 sums"
  have w: "LENGTH(32) = 2 * 16" "LENGTH(16) = 16" "(0 :: nat) < 16" "(65535 :: nat) = 2 ^ 16 - 1" "block_fits 65535 359" "(0 :: nat) < 359"
    "sums_ok 65535 ?i" "unat (sum1 ?i) mod 65535 = 0 mod 65535" "unat (sum2 ?i) mod 65535 = 0 mod 65535"
    by (simp_all add: block_fits_def sums_ok_def)
  from fl_result [OF w refl, of wdata] show ?thesis by (simp add: fletcher32_def Let_def)
qed

text \<open>
  The Fletcher checksums are right for buffers of any length, because the sums never overflow between two reductions: the low half
  of the result is the sum of the values modulo 255 (65535 for \<open>fletcher32\<close>), the high half is the sum in which every value is counted once
  for itself and once for every value after it, both represented by a number from 1 to the modulus. Feeding the data in pieces gives the
  same result.
\<close>
theorem fletcher_sums_are_modular:
  "unat (fletcher16 data) =
     ones_rep 255 (weighted (map unat data)) * 2 ^ 8 + ones_rep 255 (sum_list (map unat data)) \<and>
   unat (fletcher32 wdata) =
     ones_rep 65535 (weighted (map unat wdata)) * 2 ^ 16 + ones_rep 65535 (sum_list (map unat wdata)) \<and>
   fletcher16_finish (fletcher16_update (fletcher16_update fletcher16_init data) rest) = fletcher16 (data @ rest)"
  using fletcher16_value fletcher32_value fletcher16_continued by blast

end
