(* ===== verification/Hamming.thy ===== *)
theory Hamming
  imports Bitarithm Mem
begin

text \<open>
  The Hamming code of sys/ecc/hamming256.c: three bytes of code for every 256 bytes of data, which correct one wrong bit per block and detect two. Data and code are
  lists of bytes, pointers into them are offsets (\<open>p\<close> and \<open>q\<close>); an access outside of a list is \<open>None\<close>. The counter \<open>i\<close> of a loop is the
  argument of its recursive definition.
\<close>

section \<open>The program\<close>

definition Hamming_ERROR_SINGLEBIT :: u8 where "Hamming_ERROR_SINGLEBIT = 1"
definition Hamming_ERROR_ECC :: u8 where "Hamming_ERROR_ECC = 2"
definition Hamming_ERROR_MULTIPLEBITS :: u8 where "Hamming_ERROR_MULTIPLEBITS = 3"

type_synonym code = "u8 \<times> u8 \<times> u8"

definition count_bits_in_code256 :: "code \<Rightarrow> u8" where
  "count_bits_in_code256 c =
     (case c of (c0, c1, c2) \<Rightarrow>
        ucast (bitarithm_bits_set (ucast c0) + bitarithm_bits_set (ucast c1) + bitarithm_bits_set (ucast c2)))"

definition read_byte :: "u8 list \<Rightarrow> nat \<Rightarrow> u8 option" where
  "read_byte data i = (if i < length data then Some (data ! i) else None)"

text \<open>The first loop of \<open>compute256\<close>, with the column sum and the even and odd line codes.\<close>

function line_loop :: "u8 list \<Rightarrow> nat \<Rightarrow> nat \<Rightarrow> nat \<Rightarrow> u8 \<Rightarrow> u8 \<Rightarrow> u8 \<Rightarrow> (u8 \<times> u8 \<times> u8) option" where
  "line_loop data p padding i columnSum evenLineCode oddLineCode =
     (if i < 256 then
        do { current \<leftarrow> (if i < 256 - padding then read_byte data (p + i) else Some 0);
             let columnSum = columnSum XOR current;
             if bitarithm_bits_set (ucast current) AND 1 = 1
             then line_loop data p padding (i + 1) columnSum (evenLineCode XOR of_nat (255 - i)) (oddLineCode XOR of_nat i)
             else line_loop data p padding (i + 1) columnSum evenLineCode oddLineCode }
      else Some (columnSum, evenLineCode, oddLineCode))"
  by pat_completeness auto

termination line_loop
  by (relation "measure (\<lambda>(data, p, padding, i, _). 256 - i)") auto

declare line_loop.simps [simp del]

fun column_loop :: "nat list \<Rightarrow> u8 \<Rightarrow> u8 \<Rightarrow> u8 \<Rightarrow> u8 \<times> u8" where
  "column_loop [] columnSum evenColumnCode oddColumnCode = (evenColumnCode, oddColumnCode)"
| "column_loop (i # is) columnSum evenColumnCode oddColumnCode =
     (if columnSum AND 1 \<noteq> 0
      then column_loop is (drop_bit 1 columnSum) (evenColumnCode XOR of_nat (7 - i)) (oddColumnCode XOR of_nat i)
      else column_loop is (drop_bit 1 columnSum) evenColumnCode oddColumnCode)"

text \<open>The interleaving for one byte of the code; \<open>m\<close> is the bit of the two parities that is taken.\<close>

fun interleave :: "nat \<Rightarrow> u8 \<Rightarrow> u8 \<Rightarrow> u8 \<Rightarrow> u8 \<Rightarrow> u8" where
  "interleave 0 m oddCode evenCode c = c"
| "interleave (Suc n) m oddCode evenCode c =
     (let c = push_bit 2 c;
          c = (if oddCode AND m \<noteq> 0 then c OR 2 else c);
          c = (if evenCode AND m \<noteq> 0 then c OR 1 else c)
      in interleave n m (push_bit 1 oddCode) (push_bit 1 evenCode) c)"

definition compute256 :: "u8 list \<Rightarrow> nat \<Rightarrow> nat \<Rightarrow> code option" where
  "compute256 data p padding =
     do { (columnSum, evenLineCode, oddLineCode) \<leftarrow> line_loop data p padding 0 0 0 0;
          let (evenColumnCode, oddColumnCode) = column_loop [0..<8] columnSum 0 0;
          Some (NOT (interleave 4 0x80 oddLineCode evenLineCode 0),
                NOT (interleave 4 0x08 oddLineCode evenLineCode 0),
                NOT (interleave 4 0x04 oddColumnCode evenColumnCode 0)) }"

definition error_byte :: "code \<Rightarrow> u8" where
  "error_byte c =
     (case c of (c0, c1, c2) \<Rightarrow>
        (c0 AND 0x80) OR (push_bit 1 c0 AND 0x40) OR (push_bit 2 c0 AND 0x20) OR (push_bit 3 c0 AND 0x10) OR
        (drop_bit 4 c1 AND 0x08) OR (drop_bit 3 c1 AND 0x04) OR (drop_bit 2 c1 AND 0x02) OR (drop_bit 1 c1 AND 0x01))"

definition error_bit :: "code \<Rightarrow> u8" where
  "error_bit c =
     (case c of (c0, c1, c2) \<Rightarrow>
        (drop_bit 5 c2 AND 0x04) OR (drop_bit 4 c2 AND 0x02) OR (drop_bit 3 c2 AND 0x01))"

definition verify256 :: "u8 list \<Rightarrow> nat \<Rightarrow> code \<Rightarrow> nat \<Rightarrow> (u8 \<times> u8 list) option" where
  "verify256 pucData p pucOriginalCode padding =
     do { (k0, k1, k2) \<leftarrow> compute256 pucData p padding;
          let (o0, o1, o2) = pucOriginalCode;
          let c = (k0 XOR o0, k1 XOR o1, k2 XOR o2);
          if c = (0, 0, 0) then Some (0, pucData)
          else if count_bits_in_code256 c = 11 then
            do { let i = p + unat (error_byte c);
                 b \<leftarrow> read_byte pucData i;
                 Some (Hamming_ERROR_SINGLEBIT, pucData[i := b XOR push_bit (unat (error_bit c)) 1]) }
          else if count_bits_in_code256 c = 1 then Some (Hamming_ERROR_ECC, pucData)
          else Some (Hamming_ERROR_MULTIPLEBITS, pucData) }"

definition store_code :: "code \<Rightarrow> nat \<Rightarrow> u8 list \<Rightarrow> u8 list option" where
  "store_code c q buf =
     (case c of (c0, c1, c2) \<Rightarrow> if q + 2 < length buf then Some (buf[q := c0, q + 1 := c1, q + 2 := c2]) else None)"

definition load_code :: "nat \<Rightarrow> u8 list \<Rightarrow> code option" where
  "load_code q buf = (if q + 2 < length buf then Some (buf ! q, buf ! (q + 1), buf ! (q + 2)) else None)"

text \<open>The exported functions; \<open>dwSize\<close> only decreases, so that it stays a \<open>uint32_t\<close>.\<close>

function hamming_compute256x :: "u8 list \<Rightarrow> nat \<Rightarrow> nat \<Rightarrow> nat \<Rightarrow> u8 list \<Rightarrow> u8 list option" where
  "hamming_compute256x pucData p dwSize q puCode =
     (if dwSize > 0 then
        do { let padding = (if dwSize < 256 then 256 - dwSize else 0);
             c \<leftarrow> compute256 pucData p padding;
             puCode \<leftarrow> store_code c q puCode;
             hamming_compute256x pucData (p + 256) (dwSize - (256 - padding)) (q + 3) puCode }
      else Some puCode)"
  by pat_completeness auto

termination hamming_compute256x
  by (relation "measure (\<lambda>(d, p, n, q, c). n)") auto

function hamming_verify256x :: "u8 list \<Rightarrow> nat \<Rightarrow> nat \<Rightarrow> nat \<Rightarrow> u8 list \<Rightarrow> u8 \<Rightarrow> (u8 \<times> u8 list) option" where
  "hamming_verify256x pucData p dwSize q pucCode result =
     (if dwSize > 0 then
        do { let padding = (if dwSize < 256 then 256 - dwSize else 0);
             c \<leftarrow> load_code q pucCode;
             (error, pucData) \<leftarrow> verify256 pucData p c padding;
             if error = Hamming_ERROR_SINGLEBIT
             then hamming_verify256x pucData (p + 256) (dwSize - (256 - padding)) (q + 3) pucCode Hamming_ERROR_SINGLEBIT
             else if error \<noteq> 0 then Some (error, pucData)
             else hamming_verify256x pucData (p + 256) (dwSize - (256 - padding)) (q + 3) pucCode result }
      else Some (result, pucData))"
  by pat_completeness auto

termination hamming_verify256x
  by (relation "measure (\<lambda>(d, p, n, q, c, r). n)") auto

declare hamming_compute256x.simps [simp del] hamming_verify256x.simps [simp del]

section \<open>Parities are linear\<close>

definition par :: "u8 \<Rightarrow> bool" where
  "par b \<longleftrightarrow> odd (length (filter (bit b) [0..<8]))"

lemma filter_xor_parity: "odd (length (filter (\<lambda>x. P x \<noteq> Q x) xs)) \<longleftrightarrow> odd (length (filter P xs)) \<noteq> odd (length (filter Q xs))"
  by (induction xs) auto

lemma par_xor: "par (a XOR b) \<longleftrightarrow> par a \<noteq> par b"
  unfolding par_def bit_xor_iff by (rule filter_xor_parity)

lemma bit_ucast_u32: "bit (ucast (b :: u8) :: u32) n \<longleftrightarrow> bit b n"
  using bit_imp_le_length [of b n] by (auto simp: bit_simps)

lemma filter_bit_above: "8 \<le> m \<Longrightarrow> filter (bit (b :: u8)) [0..<m + k] = filter (bit b) [0..<m]"
proof (induction k)
  case (Suc k)
  moreover have "\<not> bit b (m + k)" using Suc.prems bit_imp_le_length [of b "m + k"] by auto
  ultimately show ?case by simp
qed simp

lemma bits_set_u8: "unat (bitarithm_bits_set (ucast (b :: u8))) = length (filter (bit b) [0..<8])"
  using filter_bit_above [of 8 b 24] unfolding bits_set_length bit_ucast_u32 [abs_def] by simp

lemma odd_unat: "odd w \<longleftrightarrow> odd (unat w)" for w :: u32
  by transfer (simp add: even_nat_iff)

lemma par_code: "bitarithm_bits_set (ucast b) AND 1 = 1 \<longleftrightarrow> par b"
proof -
  have "bitarithm_bits_set (ucast b) AND 1 = 1 \<longleftrightarrow> odd (bitarithm_bits_set (ucast b))" by (simp add: and_one_eq odd_iff_mod_2_eq_one)
  also have "\<dots> \<longleftrightarrow> odd (unat (bitarithm_bits_set (ucast b)))" by (rule odd_unat)
  finally show ?thesis by (simp only: bits_set_u8 par_def)
qed

fun xor3 :: "code \<Rightarrow> code \<Rightarrow> code" where
  "xor3 (a, b, c) (a', b', c') = (a XOR a', b XOR b', c XOR c')"

lemma xor3_simps [simp]: "xor3 x (0, 0, 0) = x" "xor3 (0, 0, 0) x = x" "xor3 x x = (0, 0, 0)"
  by (cases x; simp)+

lemma xor3_assoc: "xor3 (xor3 x y) z = xor3 x (xor3 y z)"
  by (cases x; cases y; cases z) (simp add: xor.assoc)

lemma xor3_commute: "xor3 x y = xor3 y x"
  by (cases x; cases y) (simp add: xor.commute)

text \<open>What the byte at index \<open>i\<close> contributes to the sums.\<close>

definition contrib :: "nat \<Rightarrow> u8 \<Rightarrow> code" where
  "contrib i b = (b, if par b then of_nat (255 - i) else 0, if par b then of_nat i else 0)"

lemma contrib_xor: "contrib i (a XOR b) = xor3 (contrib i a) (contrib i b)"
  by (simp add: contrib_def par_xor)

lemma contrib_0 [simp]: "contrib i 0 = (0, 0, 0)"
  by (simp add: contrib_def par_def)

fun line_sum :: "nat \<Rightarrow> u8 list \<Rightarrow> code" where
  "line_sum i [] = (0, 0, 0)"
| "line_sum i (b # bs) = xor3 (contrib i b) (line_sum (i + 1) bs)"

lemma line_sum_flip: "k < length bs \<Longrightarrow> line_sum i (bs[k := bs ! k XOR m]) = xor3 (line_sum i bs) (contrib (i + k) m)"
proof (induction i bs arbitrary: k rule: line_sum.induct)
  case (2 i b bs)
  then show ?case
    by (cases k) (simp_all add: contrib_xor xor3_assoc, metis xor3_assoc xor3_commute)
qed simp

text \<open>The block of data at an offset, with the padding.\<close>

definition block :: "u8 list \<Rightarrow> nat \<Rightarrow> nat \<Rightarrow> u8 list" where
  "block data p padding = take (256 - padding) (drop p data) @ replicate padding 0"

lemma block_byte:
  assumes "padding < 256" "p + (256 - padding) \<le> length data" "i < 256"
  shows "(if i < 256 - padding then read_byte data (p + i) else Some 0) = Some (block data p padding ! i)"
  using assms by (auto simp: block_def read_byte_def nth_append)

lemma line_loop_spec:
  assumes "padding < 256" "p + (256 - padding) \<le> length data"
  shows "i \<le> 256 \<Longrightarrow> line_loop data p padding i cs ev od = Some (xor3 (cs, ev, od) (line_sum i (drop i (block data p padding))))"
proof (induction "256 - i" arbitrary: i cs ev od)
  case 0
  then have "i = 256" by simp
  moreover have "length (block data p padding) = 256" using assms by (simp add: block_def)
  ultimately show ?case by (simp add: line_loop.simps)
next
  case (Suc n)
  let ?b = "block data p padding"
  have i: "i < 256" "n = 256 - (i + 1)" "i + 1 \<le> 256" using Suc.hyps(2) by auto
  have len: "length ?b = 256" using assms by (simp add: block_def)
  have "drop i ?b = ?b ! i # drop (i + 1) ?b" using i(1) len by (simp add: Cons_nth_drop_Suc)
  then have sum: "line_sum i (drop i ?b) = xor3 (contrib i (?b ! i)) (line_sum (i + 1) (drop (i + 1) ?b))" by simp
  show ?case
    using block_byte [OF assms i(1)] Suc.hyps(1) [OF i(2,3)]
    unfolding sum line_loop.simps [of data p padding i]
    by (simp add: i(1) par_code contrib_def flip: xor3_assoc)
qed

section \<open>The code is linear\<close>

lemma or_is_xor: "a AND b = 0 \<Longrightarrow> a OR b = a XOR b" for a :: u8
  by (rule bit_word_eqI) (metis bit_0_eq bit_and_iff bit_or_iff bit_xor_iff bot_apply bot_bool_def)

lemma push_or_xor: "push_bit 2 c OR 2 = push_bit 2 c XOR (2 :: u8)" "(push_bit 2 c XOR 2) OR 1 = push_bit 2 c XOR 2 XOR (1 :: u8)"
    "push_bit 2 c OR 1 = push_bit 2 c XOR (1 :: u8)"
proof -
  have "push_bit 2 c AND 2 = (0 :: u8)" by (rule bit_word_eqI) (auto simp: bit_simps)
  then show "push_bit 2 c OR 2 = push_bit 2 c XOR (2 :: u8)" by (rule or_is_xor)
  have "(push_bit 2 c XOR 2) AND 1 = (0 :: u8)" by (rule bit_word_eqI) (auto simp: bit_simps)
  then show "(push_bit 2 c XOR 2) OR 1 = push_bit 2 c XOR 2 XOR (1 :: u8)" unfolding xor.assoc [symmetric] by (rule or_is_xor)
  have "push_bit 2 c AND 1 = (0 :: u8)" by (rule bit_word_eqI) (auto simp: bit_simps)
  then show "push_bit 2 c OR 1 = push_bit 2 c XOR (1 :: u8)" by (rule or_is_xor)
qed

lemma interleave_step:
  "interleave (Suc n) m x y c =
     interleave n m (push_bit 1 x) (push_bit 1 y) (push_bit 2 c XOR (if x AND m \<noteq> 0 then 2 else 0) XOR (if y AND m \<noteq> 0 then 1 else 0))"
  by (simp add: Let_def push_or_xor xor.assoc)

lemma test_bit_xor: "(x XOR y) AND push_bit k 1 \<noteq> 0 \<longleftrightarrow> (x AND push_bit k 1 \<noteq> 0) \<noteq> (y AND push_bit k 1 \<noteq> 0)" for x :: u8
proof -
  have t: "z AND push_bit k 1 \<noteq> 0 \<longleftrightarrow> bit z k" for z :: u8
    by (metis (no_types) and_exp_eq_0_iff_not_bit push_bit_of_1)
  show ?thesis unfolding t by (simp add: bit_xor_iff)
qed

lemma choose_xor:
  "(a XOR a') XOR (if p \<noteq> p' then u else 0) XOR (if q \<noteq> q' then v else 0) =
   (a XOR (if p then u else 0) XOR (if q then v else 0)) XOR (a' XOR (if p' then u else 0) XOR (if q' then v else 0))" for a :: u8
  by (cases p; cases p'; cases q; cases q') (simp_all add: xor.assoc xor.commute xor.left_commute)

lemma interleave_xor:
  "interleave n (push_bit k 1) (x XOR x') (y XOR y') (c XOR c') = interleave n (push_bit k 1) x y c XOR interleave n (push_bit k 1) x' y' c'"
proof (induction n arbitrary: x x' y y' c c')
  case (Suc n)
  show ?case unfolding interleave_step test_bit_xor push_bit_xor choose_xor by (rule Suc.IH)
qed simp

lemma column_loop_step:
  "column_loop (i # is) a e d = column_loop is (drop_bit 1 a) (e XOR (if a AND push_bit 0 1 \<noteq> 0 then of_nat (7 - i) else 0)) (d XOR (if a AND push_bit 0 1 \<noteq> 0 then of_nat i else 0))"
  by simp

lemma choose_xor1: "(a XOR a') XOR (if p \<noteq> p' then u else 0) = (a XOR (if p then u else 0)) XOR (a' XOR (if p' then u else 0))" for a :: u8
  using choose_xor [of a a' p p' u False False 0] by simp

lemma column_loop_xor:
  "column_loop is (a XOR b) (e XOR e') (d XOR d') =
   (fst (column_loop is a e d) XOR fst (column_loop is b e' d'), snd (column_loop is a e d) XOR snd (column_loop is b e' d'))"
proof (induction "is" arbitrary: a b e e' d d')
  case (Cons i "is")
  show ?case unfolding column_loop_step test_bit_xor drop_bit_xor choose_xor1 by (rule Cons.IH)
qed simp

text \<open>The code before it is inverted.\<close>

definition raw :: "code \<Rightarrow> code" where
  "raw s = (case s of (cs, ev, od) \<Rightarrow>
     (let (ec, oc) = column_loop [0..<8] cs 0 0
      in (interleave 4 0x80 od ev 0, interleave 4 0x08 od ev 0, interleave 4 0x04 oc ec 0)))"

lemma raw_xor: "raw (xor3 x y) = xor3 (raw x) (raw y)"
proof -
  obtain cs ev od cs' ev' od' where xy: "x = (cs, ev, od)" "y = (cs', ev', od')" by (cases x; cases y)
  have m: "0x80 = (push_bit 7 1 :: u8)" "0x08 = (push_bit 3 1 :: u8)" "0x04 = (push_bit 2 1 :: u8)" by simp_all
  show ?thesis
    using interleave_xor [of 4 _ _ _ _ _ 0 0] column_loop_xor [of "[0..<8]" cs cs' 0 0 0 0]
    unfolding xy raw_def m by (simp add: case_prod_beta del: push_bit_of_1 upt.simps)
qed

lemma raw_0: "raw (0, 0, 0) = (0, 0, 0)"
  using raw_xor [of "(0, 0, 0)" "(0, 0, 0)"] by simp

lemma compute256_raw:
  assumes "padding < 256" "p + (256 - padding) \<le> length data"
  shows "compute256 data p padding = Some (case raw (line_sum 0 (block data p padding)) of (a, b, c) \<Rightarrow> (NOT a, NOT b, NOT c))"
  using line_loop_spec [OF assms, of 0 0 0 0] by (simp add: compute256_def raw_def case_prod_beta del: upt.simps)

section \<open>The code of a single bit\<close>

definition shift_in :: "bool \<Rightarrow> bool \<Rightarrow> u8 \<Rightarrow> u8" where
  "shift_in p q c = push_bit 2 c XOR (if p then 2 else 0) XOR (if q then 1 else 0)"

lemma bit_shift_in_Suc: "n < 6 \<Longrightarrow> bit (shift_in p q c) (n + 2) = bit c n"
  by (auto simp: shift_in_def bit_simps)

lemma bit_shift_in [simp]:
  "bit (shift_in p q c) 0 = q" "bit (shift_in p q c) 1 = p" "bit (shift_in p q c) (Suc 0) = p" "bit (shift_in p q c) 2 = bit c 0" "bit (shift_in p q c) 3 = bit c 1"
  "bit (shift_in p q c) 4 = bit c 2" "bit (shift_in p q c) 5 = bit c 3" "bit (shift_in p q c) 6 = bit c 4" "bit (shift_in p q c) 7 = bit c 5"
  using bit_shift_in_Suc [of 0 p q c] bit_shift_in_Suc [of 1 p q c] bit_shift_in_Suc [of 2 p q c] bit_shift_in_Suc [of 3 p q c]
    bit_shift_in_Suc [of 4 p q c] bit_shift_in_Suc [of 5 p q c]
  by (simp_all add: shift_in_def bit_simps numeral_3_eq_3 [symmetric])

lemma test_bit: "z AND push_bit k 1 \<noteq> 0 \<longleftrightarrow> bit z k" for z :: u8
  by (metis (no_types) and_exp_eq_0_iff_not_bit push_bit_of_1)

lemma bit_push_u8: "m \<le> k \<Longrightarrow> k < 8 \<Longrightarrow> bit (push_bit m x) k = bit x (k - m)" for x :: u8
  by (simp add: bit_push_bit_iff)

lemma interleave_4:
  assumes "3 \<le> k" "k < 8"
  shows "interleave 4 (push_bit k 1) x y 0 =
     shift_in (bit x (k - 3)) (bit y (k - 3)) (shift_in (bit x (k - 2)) (bit y (k - 2))
       (shift_in (bit x (k - 1)) (bit y (k - 1)) (shift_in (bit x k) (bit y k) 0)))"
proof -
  have n: "(4 :: nat) = Suc (Suc (Suc (Suc 0)))" by simp
  have b: "bit (push_bit 1 z) k = bit z (k - 1)" "bit (push_bit (1 + 1) z) k = bit z (k - 2)" "bit (push_bit (1 + (1 + 1)) z) k = bit z (k - 3)" for z :: u8
    by (subst bit_push_u8; use assms in \<open>simp add: numeral_2_eq_2 numeral_3_eq_3\<close>)+
  show ?thesis unfolding n interleave_step test_bit shift_in_def [symmetric] interleave.simps(1) push_bit_push_bit b ..
qed

lemma u8_eqI:
  assumes "bit a 0 = bit b 0" "bit a 1 = bit b 1" "bit a 2 = bit b 2" "bit a 3 = bit b 3" "bit a 4 = bit b 4" "bit a 5 = bit b 5"
    "bit a 6 = bit b 6" "bit a 7 = bit b 7"
  shows "a = (b :: u8)"
proof (rule bit_word_eqI)
  fix n assume "n < LENGTH(8)"
  then have "n \<in> {0, 1, 2, 3, 4, 5, 6, 7}" by auto
  then show "bit a n = bit b n" using assms by blast
qed

text \<open>The bits of the first two bytes of a code, from the parities \<open>x\<close> (odd) and \<open>y\<close> (even).\<close>

lemma line1_bits:
  "bit (interleave 4 0x80 x y 0) 0 = bit y 4" "bit (interleave 4 0x80 x y 0) 1 = bit x 4"
  "bit (interleave 4 0x80 x y 0) 2 = bit y 5" "bit (interleave 4 0x80 x y 0) 3 = bit x 5"
  "bit (interleave 4 0x80 x y 0) 4 = bit y 6" "bit (interleave 4 0x80 x y 0) 5 = bit x 6"
  "bit (interleave 4 0x80 x y 0) 6 = bit y 7" "bit (interleave 4 0x80 x y 0) 7 = bit x 7"
  using interleave_4 [of 7 x y] by (simp_all del: interleave.simps)

lemma line2_bits:
  "bit (interleave 4 0x08 x y 0) 0 = bit y 0" "bit (interleave 4 0x08 x y 0) 1 = bit x 0"
  "bit (interleave 4 0x08 x y 0) 2 = bit y 1" "bit (interleave 4 0x08 x y 0) 3 = bit x 1"
  "bit (interleave 4 0x08 x y 0) 4 = bit y 2" "bit (interleave 4 0x08 x y 0) 5 = bit x 2"
  "bit (interleave 4 0x08 x y 0) 6 = bit y 3" "bit (interleave 4 0x08 x y 0) 7 = bit x 3"
  using interleave_4 [of 3 x y] by (simp_all del: interleave.simps)

definition cnt :: "u8 \<Rightarrow> nat" where
  "cnt b = length (filter (bit b) [0..<8])"

lemma cnt_bits:
  "cnt b = of_bool (bit b 0) + of_bool (bit b 1) + of_bool (bit b 2) + of_bool (bit b 3) + of_bool (bit b 4) + of_bool (bit b 5) + of_bool (bit b 6) + of_bool (bit b 7)"
proof -
  have "[0..<8] = [0, 1, 2, 3, 4, 5, 6, 7 :: nat]" by (simp add: upt_rec)
  then show ?thesis by (simp add: cnt_def)
qed

lemma cnt_le: "cnt b \<le> 8"
  unfolding cnt_def by (rule order.trans [OF length_filter_le]) simp

lemma count_bits: "unat (count_bits_in_code256 (a, b, c)) = cnt a + cnt b + cnt c"
proof -
  let ?s = "\<lambda>x. bitarithm_bits_set (ucast (x :: u8))"
  have u: "unat (?s x) = cnt x" for x by (simp only: bits_set_u8 cnt_def)
  have "unat (?s a + ?s b) = cnt a + cnt b" using cnt_le [of a] cnt_le [of b] by (subst unat_add_fits) (simp_all add: u)
  then have "unat (?s a + ?s b + ?s c) = cnt a + cnt b + cnt c" using cnt_le [of a] cnt_le [of b] cnt_le [of c] by (subst unat_add_fits) (simp_all add: u)
  moreover have "cnt a + cnt b + cnt c < 2 ^ 8" using cnt_le [of a] cnt_le [of b] cnt_le [of c] by simp
  ultimately show ?thesis by (simp add: count_bits_in_code256_def unsigned_ucast_eq take_bit_nat_eq_self)
qed

text \<open>The column code of bit \<open>j\<close>.\<close>

definition column :: "nat \<Rightarrow> u8" where
  "column j = interleave 4 0x04 (of_nat j) (of_nat (7 - j)) 0"

lemma less_8_cases: "j < 8 \<Longrightarrow> (j = 0 \<Longrightarrow> P) \<Longrightarrow> (j = 1 \<Longrightarrow> P) \<Longrightarrow> (j = 2 \<Longrightarrow> P) \<Longrightarrow> (j = 3 \<Longrightarrow> P) \<Longrightarrow> (j = 4 \<Longrightarrow> P) \<Longrightarrow>
   (j = 5 \<Longrightarrow> P) \<Longrightarrow> (j = 6 \<Longrightarrow> P) \<Longrightarrow> (j = 7 \<Longrightarrow> P) \<Longrightarrow> P" for j :: nat
  by linarith

lemma column_code: "j < 8 \<Longrightarrow> column_loop [0..<8] (push_bit j 1) 0 0 = (of_nat (7 - j), of_nat j)"
  by (erule less_8_cases; simp add: upt_rec)

lemma interleave_unroll: "interleave 4 m x y c = interleave (Suc (Suc (Suc (Suc 0)))) m x y c"
  by (simp add: eval_nat_numeral del: interleave.simps)

lemma column_values:
  "column 0 = 0x54" "column 1 = 0x58" "column (Suc 0) = 0x58" "column 2 = 0x64" "column 3 = 0x68" "column 4 = 0x94" "column 5 = 0x98" "column 6 = 0xA4" "column 7 = 0xA8"
  by (simp_all add: column_def interleave_unroll)

lemma column_facts:
  assumes "j < 8"
  shows "cnt (column j) = 3" "error_bit (c0, c1, column j) = of_nat j"
  using assms by (erule_tac [!] less_8_cases) (simp_all add: column_values cnt_bits error_bit_def)

lemma par_single: "j < 8 \<Longrightarrow> par (push_bit j 1)"
  by (erule less_8_cases; simp add: par_def upt_rec)

lemma complement_u8: "255 - x = NOT (x :: u8)"
proof -
  have "(255 :: u8) = - 1" by simp
  then show ?thesis by (simp only: minus_eq_not_plus_1) (simp add: not_eq_complement)
qed

lemma raw_single:
  assumes "k < 256" "j < 8"
  shows "raw (contrib k (push_bit j 1)) =
     (interleave 4 0x80 (of_nat k) (NOT (of_nat k)) 0, interleave 4 0x08 (of_nat k) (NOT (of_nat k)) 0, column j)"
  using assms column_code [OF assms(2)] by (simp add: raw_def contrib_def par_single complement_u8 of_nat_diff column_def del: push_bit_of_1 upt.simps)

lemma raw_single_facts:
  assumes "k < 256" "j < 8" "raw (contrib k (push_bit j 1)) = (a, b, c)"
  shows "cnt a + cnt b + cnt c = 11" "error_byte (a, b, c) = of_nat k" "error_bit (a, b, c) = of_nat j"
proof -
  have abc: "a = interleave 4 0x80 (of_nat k) (NOT (of_nat k)) 0" "b = interleave 4 0x08 (of_nat k) (NOT (of_nat k)) 0" "c = column j"
    using raw_single [OF assms(1,2)] assms(3) by simp_all
  have "cnt a = 4" "cnt b = 4" unfolding abc cnt_bits line1_bits line2_bits by (simp_all add: bit_not_iff)
  then show "cnt a + cnt b + cnt c = 11" using column_facts(1) [OF assms(2)] abc(3) by simp
  show "error_bit (a, b, c) = of_nat j" unfolding abc(3) by (rule column_facts(2) [OF assms(2)])
  show "error_byte (a, b, c) = of_nat k"
    unfolding error_byte_def prod.case abc
    by (rule u8_eqI; unfold bit_or_iff bit_and_iff bit_push_bit_iff bit_drop_bit_eq)
      (simp_all add: bit_simps line1_bits line2_bits line1_bits [unfolded One_nat_def] line2_bits [unfolded One_nat_def] del: interleave.simps)
qed

lemma xor_0D: "a XOR b = 0 \<Longrightarrow> a = b" for a :: u8
  by (rule bit_word_eqI) (metis bit_xor_iff bit_0_eq bot_apply bot_bool_def)

lemma cnt_xor: "even (cnt (a XOR b)) \<longleftrightarrow> (even (cnt a) \<longleftrightarrow> even (cnt b))"
  using par_xor [of a b] unfolding par_def cnt_def by blast

lemma raw_double:
  assumes "k < 256" "j < 8" "k' < 256" "j' < 8" "(k, j) \<noteq> (k', j')"
    and "xor3 (raw (contrib k (push_bit j 1))) (raw (contrib k' (push_bit j' 1))) = (a, b, c)"
  shows "even (cnt a + cnt b + cnt c)" "(a, b, c) \<noteq> (0, 0, 0)"
proof -
  obtain x y z x' y' z' where r: "raw (contrib k (push_bit j 1)) = (x, y, z)" "raw (contrib k' (push_bit j' 1)) = (x', y', z')" by (metis prod_cases3)
  note f = raw_single_facts [OF assms(1,2) r(1)] and f' = raw_single_facts [OF assms(3,4) r(2)]
  have abc: "a = x XOR x'" "b = y XOR y'" "c = z XOR z'" using assms(6) [unfolded r] by simp_all
  have "odd (cnt x + cnt y + cnt z)" "odd (cnt x' + cnt y' + cnt z')" using f(1) f'(1) by simp_all
  then show "even (cnt a + cnt b + cnt c)" unfolding abc even_add cnt_xor by blast
  show "(a, b, c) \<noteq> (0, 0, 0)"
  proof
    assume "(a, b, c) = (0, 0, 0)"
    then have "x = x'" "y = y'" "z = z'" using abc xor_0D by auto
    then have "of_nat k = (of_nat k' :: u8)" "of_nat j = (of_nat j' :: u8)" using f(2,3) f'(2,3) by simp_all
    then have "unat (of_nat k :: u8) = unat (of_nat k' :: u8)" "unat (of_nat j :: u8) = unat (of_nat j' :: u8)" by simp_all
    then have "k = k'" "j = j'" using assms(1-4) by (simp_all add: unat_of_nat)
    then show False using assms(5) by simp
  qed
qed

section \<open>Correcting and detecting errors\<close>

text \<open>The data with one bit changed.\<close>

definition flip :: "nat \<Rightarrow> nat \<Rightarrow> u8 list \<Rightarrow> u8 list" where
  "flip i j data = data[i := data ! i XOR push_bit j 1]"

lemma length_flip [simp]: "length (flip i j data) = length data"
  by (simp add: flip_def)

lemma flip_flip: "i < length data \<Longrightarrow> flip i j (flip i j data) = data"
  by (simp add: flip_def xor.assoc)

lemma block_flip: "i < 256 - padding \<Longrightarrow> p + (256 - padding) \<le> length data \<Longrightarrow> block (flip (p + i) j data) p padding = (block data p padding)[i := block data p padding ! i XOR push_bit j 1]"
  by (simp add: block_def flip_def take_update_swap drop_update_swap list_update_append nth_append)

lemma line_sum_block:
  assumes "padding < 256" "i < 256 - padding" "p + (256 - padding) \<le> length data"
  shows "line_sum 0 (block (flip (p + i) j data) p padding) = xor3 (line_sum 0 (block data p padding)) (contrib i (push_bit j 1))"
proof -
  have "i < length (block data p padding)" using assms by (simp add: block_def)
  then show ?thesis using block_flip [OF assms(2,3)] line_sum_flip [of i "block data p padding" 0] by (simp del: push_bit_of_1)
qed

fun invert :: "code \<Rightarrow> code" where
  "invert (a, b, c) = (NOT a, NOT b, NOT c)"

lemma invert_xor3: "xor3 (invert x) (invert y) = xor3 x y"
proof -
  have "NOT a XOR NOT b = a XOR b" for a b :: u8 by (rule bit_word_eqI) (auto simp: bit_simps)
  then show ?thesis by (cases x; cases y) simp
qed

text \<open>What \<open>verify256\<close> does once it has the difference \<open>c\<close> of the codes.\<close>

definition decide :: "u8 list \<Rightarrow> nat \<Rightarrow> code \<Rightarrow> (u8 \<times> u8 list) option" where
  "decide data p c =
     (if c = (0, 0, 0) then Some (0, data)
      else if count_bits_in_code256 c = 11 then
        do { let i = p + unat (error_byte c);
             b \<leftarrow> read_byte data i;
             Some (Hamming_ERROR_SINGLEBIT, data[i := b XOR push_bit (unat (error_bit c)) 1]) }
      else if count_bits_in_code256 c = 1 then Some (Hamming_ERROR_ECC, data)
      else Some (Hamming_ERROR_MULTIPLEBITS, data))"

lemma compute256_invert:
  assumes "padding < 256" "p + (256 - padding) \<le> length data"
  shows "compute256 data p padding = Some (invert (raw (line_sum 0 (block data p padding))))"
  using compute256_raw [OF assms] by (cases "raw (line_sum 0 (block data p padding))") simp

lemma verify256_decides:
  assumes "padding < 256" "p + (256 - padding) \<le> length data" and s: "line_sum 0 (block data p padding) = xor3 s e"
  shows "verify256 data p (xor3 (invert (raw s)) d) padding = decide data p (xor3 (raw e) d)"
proof -
  let ?k = "invert (raw (xor3 s e))" and ?o = "xor3 (invert (raw s)) d"
  have k: "compute256 data p padding = Some ?k" using compute256_invert [OF assms(1,2)] s by simp
  have "xor3 ?k ?o = xor3 (xor3 (invert (raw s)) (invert (raw (xor3 s e)))) d" by (metis xor3_assoc xor3_commute)
  also have "\<dots> = xor3 (raw e) d" unfolding invert_xor3 raw_xor by (metis xor3_assoc xor3_simps(2,3))
  finally have "xor3 ?k ?o = xor3 (raw e) d" .
  moreover have "verify256 data p ?o padding = decide data p (xor3 ?k ?o)"
    using k by (cases ?k; cases ?o) (simp add: verify256_def decide_def Let_def del: invert.simps)
  ultimately show ?thesis by simp
qed

lemma count_eq: "n < 256 \<Longrightarrow> count_bits_in_code256 (a, b, c) = of_nat n \<longleftrightarrow> cnt a + cnt b + cnt c = n"
proof -
  assume n: "n < 256"
  have "count_bits_in_code256 (a, b, c) = of_nat n \<longleftrightarrow> unat (count_bits_in_code256 (a, b, c)) = unat (of_nat n :: u8)" by (rule word_unat_eq_iff)
  then show ?thesis using n by (simp add: count_bits unat_of_nat)
qed

lemmas count_eqs = count_eq [of 11, simplified] count_eq [of 1, simplified]

lemma decide_single:
  assumes "k < 256" "j < 8" "p + k < length data"
  shows "decide data p (raw (contrib k (push_bit j 1))) = Some (Hamming_ERROR_SINGLEBIT, flip (p + k) j data)"
proof -
  obtain a b c where abc: "raw (contrib k (push_bit j 1)) = (a, b, c)" by (metis prod_cases3)
  note f = raw_single_facts [OF assms(1,2) abc]
  have "(a, b, c) \<noteq> (0, 0, 0)" using f(1) by (auto simp: cnt_def)
  moreover have "unat (error_byte (a, b, c)) = k" "unat (error_bit (a, b, c)) = j" unfolding f(2,3) using assms(1,2) by (simp_all add: unat_of_nat)
  ultimately show ?thesis using f(1) assms(3) unfolding abc decide_def count_eqs by (auto simp: read_byte_def flip_def Let_def)
qed

lemma decide_double:
  assumes "k < 256" "j < 8" "k' < 256" "j' < 8" "(k, j) \<noteq> (k', j')"
  shows "decide data p (xor3 (raw (contrib k (push_bit j 1))) (raw (contrib k' (push_bit j' 1)))) = Some (Hamming_ERROR_MULTIPLEBITS, data)"
proof -
  obtain a b c where abc: "xor3 (raw (contrib k (push_bit j 1))) (raw (contrib k' (push_bit j' 1))) = (a, b, c)" by (metis prod_cases3)
  note r = raw_double [OF assms abc]
  have "cnt a + cnt b + cnt c \<noteq> 11" "cnt a + cnt b + cnt c \<noteq> 1" using r(1) odd_numeral odd_one by metis+
  with r(2) show ?thesis unfolding abc decide_def count_eqs by auto
qed

lemma decide_code:
  assumes "cnt a + cnt b + cnt c = 1"
  shows "decide data p (a, b, c) = Some (Hamming_ERROR_ECC, data)"
proof -
  have "(a, b, c) \<noteq> (0, 0, 0)" using assms by (auto simp: cnt_def)
  then show ?thesis using assms unfolding decide_def count_eqs by auto
qed

lemma cnt_single: "j < 8 \<Longrightarrow> cnt (push_bit j 1) = 1"
  by (erule less_8_cases; simp add: cnt_bits)

text \<open>A code in which one of the 24 bits is wrong.\<close>

definition wrong_code :: "nat \<Rightarrow> code \<Rightarrow> code" where
  "wrong_code n c = xor3 c (if n < 8 then (push_bit n 1, 0, 0) else if n < 16 then (0, push_bit (n - 8) 1, 0) else (0, 0, push_bit (n - 16) 1))"

text \<open>
  (C24) The code of a block of up to 256 bytes: \<open>verify256\<close> accepts correct data; if one bit of the data is wrong, it reports and corrects it; if two bits are wrong, it
  reports a multiple error and leaves the data alone, so that two errors are never taken for one; if one bit of the code is wrong, it reports that
  and leaves the data alone.
\<close>
theorem hamming_corrects_one_detects_two:
  assumes pad: "padding < 256" and len: "p + (256 - padding) \<le> length data"
    and ij: "i < 256 - padding" "j < 8" and ij': "i' < 256 - padding" "j' < 8" "(i, j) \<noteq> (i', j')" and n: "n < 24"
  shows "\<exists>code. compute256 data p padding = Some code \<and> verify256 data p code padding = Some (0, data) \<and>
     verify256 (flip (p + i) j data) p code padding = Some (Hamming_ERROR_SINGLEBIT, data) \<and>
     verify256 (flip (p + i') j' (flip (p + i) j data)) p code padding = Some (Hamming_ERROR_MULTIPLEBITS, flip (p + i') j' (flip (p + i) j data)) \<and>
     verify256 data p (wrong_code n code) padding = Some (Hamming_ERROR_ECC, data)"
proof -
  let ?s = "line_sum 0 (block data p padding)" and ?d1 = "flip (p + i) j data"
  let ?d2 = "flip (p + i') j' ?d1" and ?e = "contrib i (push_bit j 1)" and ?e' = "contrib i' (push_bit j' 1)"
  let ?code = "invert (raw ?s)"
  have z: "raw (0, 0, 0) = (0, 0, 0)" by (rule raw_0)
  have s1: "line_sum 0 (block ?d1 p padding) = xor3 ?s ?e" by (rule line_sum_block [OF pad ij(1) len])
  have s2: "line_sum 0 (block ?d2 p padding) = xor3 ?s (xor3 ?e ?e')"
    using line_sum_block [OF pad ij'(1), of p ?d1 j'] len s1 by (simp add: xor3_assoc)
  have v0: "verify256 data p (xor3 ?code d) padding = decide data p d" for d
    using verify256_decides [OF pad len, of ?s "(0, 0, 0)" d] z by simp
  have v1: "verify256 ?d1 p ?code padding = decide ?d1 p (raw ?e)"
    using verify256_decides [OF pad _ s1, of "(0, 0, 0)"] len by simp
  have v2: "verify256 ?d2 p ?code padding = decide ?d2 p (xor3 (raw ?e) (raw ?e'))"
    using verify256_decides [OF pad _ s2, of "(0, 0, 0)"] len by (simp add: raw_xor)
  have "i < 256" "i' < 256" "p + i < length data" using ij(1) ij'(1) len by linarith+
  then have "verify256 ?d1 p ?code padding = Some (Hamming_ERROR_SINGLEBIT, data)"
      "verify256 ?d2 p ?code padding = Some (Hamming_ERROR_MULTIPLEBITS, ?d2)"
    unfolding v1 v2 using decide_single [of i j p ?d1] decide_double [of i j i' j' ?d2 p] ij(2) ij'(2,3) by (simp_all add: flip_flip del: push_bit_of_1)
  moreover have "verify256 data p ?code padding = Some (0, data)" using v0 [of "(0, 0, 0)"] by (simp add: decide_def)
  moreover have "verify256 data p (wrong_code n ?code) padding = Some (Hamming_ERROR_ECC, data)"
    unfolding wrong_code_def v0 using n cnt_single [of n] cnt_single [of "n - 8"] cnt_single [of "n - 16"]
    by (auto simp: cnt_def intro!: decide_code)
  ultimately show ?thesis using compute256_invert [OF pad len] by blast
qed

section \<open>Many blocks\<close>

definition pad :: "nat \<Rightarrow> nat" where
  "pad n = (if n < 256 then 256 - n else 0)"

lemma pad_simps: "0 < n \<Longrightarrow> pad n < 256" "256 - pad n = min n 256" "n - min n 256 = n - 256"
  by (auto simp: pad_def)

text \<open>The buffer \<open>cb\<close> holds from \<open>q\<close> on the codes of the \<open>n\<close> bytes from \<open>p\<close> on.\<close>

function stored :: "u8 list \<Rightarrow> nat \<Rightarrow> nat \<Rightarrow> nat \<Rightarrow> u8 list \<Rightarrow> bool" where
  "stored data p n q cb \<longleftrightarrow>
     (if n = 0 then True
      else load_code q cb \<noteq> None \<and> load_code q cb = compute256 data p (pad n) \<and> stored data (p + 256) (n - 256) (q + 3) cb)"
  by pat_completeness auto

termination stored
  by (relation "measure (\<lambda>(d, p, n, q, c). n)") auto

declare stored.simps [simp del]

lemma load_store: "store_code c q cb = Some cb' \<Longrightarrow> load_code q cb' = Some c \<and> length cb' = length cb \<and> take q cb' = take q cb"
  by (cases c) (auto simp: store_code_def load_code_def split: if_splits)

lemma load_code_cong: "take (q + 3) cb' = take (q + 3) cb \<Longrightarrow> length cb' = length cb \<Longrightarrow> load_code q cb' = load_code q cb"
proof -
  assume t: "take (q + 3) cb' = take (q + 3) cb" "length cb' = length cb"
  have "cb' ! k = cb ! k" if "k < q + 3" for k using nth_take [OF that, of cb'] nth_take [OF that, of cb] t(1) by simp
  then show ?thesis using t(2) by (simp add: load_code_def)
qed

lemma blocks_step: "0 < n \<Longrightarrow> (n + 255) div 256 = Suc ((n - 256 + 255) div 256)" for n :: nat
proof (cases "n \<le> 256")
  case True
  assume "0 < n"
  with True have "(n + 255) div 256 = 1" by (intro div_nat_eqI) simp_all
  then show ?thesis using True by simp
next
  case False
  then obtain m where "n = 256 + m" using nat_le_iff_add [of 256 n] by auto
  then have "n + 255 = (m + 255) + 256" "n - 256 + 255 = m + 255" by simp_all
  then show ?thesis by (simp add: div_add_self2)
qed

lemma compute256x_stores:
  "n = 0 \<or> p + n \<le> length data \<Longrightarrow> q + 3 * ((n + 255) div 256) \<le> length cb \<Longrightarrow>
   \<exists>cb'. hamming_compute256x data p n q cb = Some cb' \<and> stored data p n q cb' \<and> length cb' = length cb \<and> take q cb' = take q cb"
proof (induction n arbitrary: p q cb rule: less_induct)
  case (less n)
  show ?case
  proof (cases "n = 0")
    case True
    then show ?thesis by (simp add: hamming_compute256x.simps stored.simps)
  next
    case False
    then have n: "0 < n" by simp
    have fits: "p + (256 - pad n) \<le> length data" using less.prems(1) n by (simp add: pad_simps)
    obtain c where c: "compute256 data p (pad n) = Some c" using compute256_invert [OF pad_simps(1) [OF n] fits] by blast
    note d = blocks_step [OF n]
    then have q3: "q + 2 < length cb" using less.prems(2) by simp
    then obtain cb1 where cb1: "store_code c q cb = Some cb1" by (cases c) (simp add: store_code_def)
    note ls = load_store [OF cb1]
    have pre: "n - 256 = 0 \<or> p + 256 + (n - 256) \<le> length data" using less.prems(1) n by linarith
    obtain cb' where cb': "hamming_compute256x data (p + 256) (n - 256) (q + 3) cb1 = Some cb'" "stored data (p + 256) (n - 256) (q + 3) cb'"
        "length cb' = length cb1" "take (q + 3) cb' = take (q + 3) cb1"
      using less.IH [OF _ pre, of "q + 3" cb1] n less.prems(2) d ls by auto
    have "load_code q cb' = Some c" using load_code_cong [OF cb'(4,3)] ls by simp
    moreover have "take q cb' = take q cb" using cb'(4) ls by (metis le_add1 min.absorb1 take_take)
    moreover have "hamming_compute256x data p n q cb = Some cb'"
      using n c cb1 cb'(1) by (subst hamming_compute256x.simps) (simp add: pad_def [symmetric] pad_simps)
    ultimately show ?thesis using cb'(2,3) c ls by (subst stored.simps) simp
  qed
qed

text \<open>Data in which at most one bit of every block is wrong.\<close>

inductive noisy :: "nat \<Rightarrow> nat \<Rightarrow> u8 list \<Rightarrow> u8 list \<Rightarrow> bool" where
  noisy_end: "noisy p 0 data data"
| noisy_good: "0 < n \<Longrightarrow> noisy (p + 256) (n - 256) data data' \<Longrightarrow> noisy p n data data'"
| noisy_flip: "0 < n \<Longrightarrow> noisy (p + 256) (n - 256) data data' \<Longrightarrow> i < min n 256 \<Longrightarrow> j < 8 \<Longrightarrow> noisy p n data (flip (p + i) j data')"

lemma take_shorter: "take (p + m) xs = take (p + m) ys \<Longrightarrow> take p xs = take p ys"
  by (drule arg_cong [of _ _ "take p"]) simp

lemma noisy_before: "noisy p n data data' \<Longrightarrow> length data' = length data \<and> take p data' = take p data"
proof (induction rule: noisy.induct)
  case (noisy_good n p data data')
  then show ?case using take_shorter by blast
next
  case (noisy_flip n p data data' i j)
  then have "take p data' = take p data" using take_shorter by blast
  then show ?case using noisy_flip by (simp add: flip_def)
qed simp

lemma block_cong: "take (p + 256) data' = take (p + 256) data \<Longrightarrow> block data' p padding = block data p padding"
proof -
  assume "take (p + 256) data' = take (p + 256) data"
  then have "take 256 (drop p data') = take 256 (drop p data)" by (simp add: take_drop add.commute)
  moreover have "take (256 - padding) xs = take (256 - padding) (take 256 xs)" for xs :: "u8 list" by simp
  ultimately have "take (256 - padding) (drop p data') = take (256 - padding) (drop p data)" by metis
  then show ?thesis by (simp add: block_def)
qed

lemma flip_changes: "i < length data \<Longrightarrow> j < 8 \<Longrightarrow> flip i j data \<noteq> data"
proof
  assume h: "i < length data" "j < 8" "flip i j data = data"
  then have "data ! i XOR push_bit j 1 = data ! i" by (metis flip_def nth_list_update_eq)
  then have "data ! i XOR (data ! i XOR push_bit j 1) = data ! i XOR data ! i" by (rule arg_cong)
  then have "push_bit j 1 = (0 :: u8)" by (simp only: xor.assoc [symmetric] xor_self_eq xor.left_neutral)
  then show False using cnt_single [OF h(2)] by (simp add: cnt_def del: push_bit_of_1)
qed

lemma flip_restores: "noisy (p + 256) m data data' \<Longrightarrow> i < 256 \<Longrightarrow> p + i < length data \<Longrightarrow> j < 8 \<Longrightarrow> flip (p + i) j data' \<noteq> data"
proof
  assume h: "noisy (p + 256) m data data'" "i < 256" "p + i < length data" "j < 8" "flip (p + i) j data' = data"
  have "take (p + 256) data' = take (p + 256) data" "length data' = length data" using noisy_before [OF h(1)] by auto
  then have "data' ! (p + i) = data ! (p + i)" using h(2) by (metis add_less_cancel_left nth_take)
  then have "data ! (p + i) XOR push_bit j 1 = data ! (p + i)" using h(3,5) \<open>length data' = length data\<close> by (metis flip_def nth_list_update_eq)
  then have "flip (p + i) j data = data" by (simp add: flip_def del: push_bit_of_1)
  with flip_changes [OF h(3,4)] show False by simp
qed

lemma verify_block:
  assumes pad: "padding < 256" "p + (256 - padding) \<le> length data" and same: "length data' = length data" "take (p + 256) data' = take (p + 256) data"
    and code: "compute256 data p padding = Some code"
  shows "verify256 data' p code padding = Some (0, data')"
    and "i < 256 - padding \<Longrightarrow> j < 8 \<Longrightarrow> verify256 (flip (p + i) j data') p code padding = Some (Hamming_ERROR_SINGLEBIT, data')"
proof -
  let ?s = "line_sum 0 (block data p padding)"
  have c: "code = invert (raw ?s)" using compute256_invert [OF pad] code by simp
  have s: "line_sum 0 (block data' p padding) = ?s" using block_cong [OF same(2)] by simp
  have pad': "p + (256 - padding) \<le> length data'" using pad(2) same(1) by simp
  show "verify256 data' p code padding = Some (0, data')"
    using verify256_decides [OF pad(1) pad', of ?s "(0, 0, 0)" "(0, 0, 0)"] s c by (simp add: raw_0 decide_def)
  assume ij: "i < 256 - padding" "j < 8"
  let ?d = "flip (p + i) j data'" and ?e = "contrib i (push_bit j 1)"
  have "line_sum 0 (block ?d p padding) = xor3 ?s ?e" using line_sum_block [OF pad(1) ij(1) pad', of j] s by simp
  then have "verify256 ?d p code padding = decide ?d p (raw ?e)"
    using verify256_decides [OF pad(1), of p ?d ?s ?e "(0, 0, 0)"] pad' c by simp
  moreover have "i < 256" "p + i < length data'" using ij(1) pad' by linarith+
  ultimately show "verify256 ?d p code padding = Some (Hamming_ERROR_SINGLEBIT, data')"
    using decide_single [OF _ ij(2), of i p ?d] by (simp add: flip_flip del: push_bit_of_1)
qed

lemma verify256x_corrects:
  "noisy p n data data' \<Longrightarrow> n = 0 \<or> p + n \<le> length data \<Longrightarrow> stored data p n q cb \<Longrightarrow>
   hamming_verify256x data' p n q cb r = Some (if data' = data then r else Hamming_ERROR_SINGLEBIT, data)"
proof (induction p n data data' arbitrary: q r rule: noisy.induct)
  case (noisy_end p data)
  then show ?case by (simp add: hamming_verify256x.simps)
next
  case (noisy_good n p data data')
  obtain code where c: "load_code q cb = Some code" "compute256 data p (pad n) = Some code" "stored data (p + 256) (n - 256) (q + 3) cb"
    using noisy_good.prems(2) noisy_good.hyps(1) by (auto simp: stored.simps [of data p n])
  have f: "p + (256 - pad n) \<le> length data" "n - 256 = 0 \<or> p + 256 + (n - 256) \<le> length data"
    using noisy_good.prems(1) noisy_good.hyps(1) by (auto simp: pad_simps)
  note v = verify_block(1) [OF pad_simps(1) [OF noisy_good.hyps(1)] f(1) _ _ c(2), of data'] noisy_before [OF noisy_good.hyps(2)]
  show ?case using noisy_good.IH [OF f(2) c(3)] v c(1) noisy_good.hyps(1)
    by (subst hamming_verify256x.simps) (simp add: Hamming_ERROR_SINGLEBIT_def pad_def [symmetric] pad_simps)
next
  case (noisy_flip n p data data' i j)
  obtain code where c: "load_code q cb = Some code" "compute256 data p (pad n) = Some code" "stored data (p + 256) (n - 256) (q + 3) cb"
    using noisy_flip.prems(2) noisy_flip.hyps(1) by (auto simp: stored.simps [of data p n])
  have f: "p + (256 - pad n) \<le> length data" "n - 256 = 0 \<or> p + 256 + (n - 256) \<le> length data" "p + i < length data" "i < 256 - pad n" "i < 256"
    using noisy_flip.prems(1) noisy_flip.hyps by (auto simp: pad_simps)
  note b = noisy_before [OF noisy_flip.hyps(2)]
  have "verify256 (flip (p + i) j data') p code (pad n) = Some (Hamming_ERROR_SINGLEBIT, data')"
    using verify_block(2) [OF pad_simps(1) [OF noisy_flip.hyps(1)] f(1) _ _ c(2) f(4) noisy_flip.hyps(4), of data'] b by simp
  moreover have "flip (p + i) j data' \<noteq> data" by (rule flip_restores [OF noisy_flip.hyps(2) f(5,3) noisy_flip.hyps(4)])
  ultimately show ?case using noisy_flip.IH [OF f(2) c(3)] c(1) noisy_flip.hyps(1)
    by (subst hamming_verify256x.simps) (simp add: pad_def [symmetric] pad_simps)
qed

text \<open>
  Protecting and checking data of any length: whatever the data and wherever in it one bit per block of 256 bytes (the last block may be shorter) goes wrong,
  \<open>hamming_verify256x\<close> with the codes that \<open>hamming_compute256x\<close> produced gives back the original data, and it reports that it corrected something
  exactly if something was wrong.
\<close>
theorem hamming_restores_data:
  assumes "noisy 0 (length data) data data'" "3 * ((length data + 255) div 256) \<le> length cb"
  shows "\<exists>cb'. hamming_compute256x data 0 (length data) 0 cb = Some cb' \<and>
     hamming_verify256x data' 0 (length data) 0 cb' 0 = Some (if data' = data then 0 else Hamming_ERROR_SINGLEBIT, data)"
proof -
  obtain cb' where "hamming_compute256x data 0 (length data) 0 cb = Some cb'" "stored data 0 (length data) 0 cb'"
    using compute256x_stores [of "length data" 0 data 0 cb] assms(2) by auto
  with verify256x_corrects [OF assms(1), of 0 cb' 0] show ?thesis by auto
qed

theorem hamming_restores_data_witness:
  "\<exists>cb'. hamming_compute256x [7, 8, 9] 0 3 0 [0, 0, 0] = Some cb' \<and> hamming_verify256x [7, 0, 9] 0 3 0 cb' 0 = Some (1, [7, 8, 9])"
proof -
  have "noisy 256 (3 - 256) [7, 8, 9] [7, 8, 9]" by (simp add: noisy.intros)
  then have n: "noisy 0 (length [7, 8, 9 :: u8]) [7, 8, 9] (flip 1 3 [7, 8, 9])" using noisy_flip [of 3 0 "[7, 8, 9]" "[7, 8, 9]" 1 3] by (simp add: numeral_3_eq_3)
  have "flip 1 3 [7, 8, 9] = [7, 0, 9]" by (simp add: flip_def)
  then show ?thesis using hamming_restores_data [OF n, of "[0, 0, 0]"] by (simp add: Hamming_ERROR_SINGLEBIT_def numeral_3_eq_3)
qed

theorem hamming_corrects_one_detects_two_witness:
  "\<exists>code. compute256 [7, 8, 9] 0 253 = Some code \<and> verify256 [7, 0, 9] 0 code 253 = Some (1, [7, 8, 9]) \<and>
     verify256 [7, 0, 8] 0 code 253 = Some (3, [7, 0, 8])"
proof -
  have f: "flip (0 + 1) 3 [7, 8, 9] = [7, 0, 9]" "flip (0 + 2) 0 [7, 0, 9] = [7, 0, 8]" by (simp_all add: flip_def)
  show ?thesis using hamming_corrects_one_detects_two [of 253 0 "[7, 8, 9]" 1 3 2 0 0]
    unfolding f by (auto simp: Hamming_ERROR_SINGLEBIT_def Hamming_ERROR_MULTIPLEBITS_def)
qed

lemma decide_outside:
  assumes "k < 256" "j < 8" "length data \<le> p + k"
  shows "decide data p (raw (contrib k (push_bit j 1))) = None"
proof -
  obtain a b c where abc: "raw (contrib k (push_bit j 1)) = (a, b, c)" by (metis prod_cases3)
  note f = raw_single_facts [OF assms(1,2) abc]
  have "(a, b, c) \<noteq> (0, 0, 0)" using f(1) by (auto simp: cnt_def)
  moreover have "unat (error_byte (a, b, c)) = k" unfolding f(2) using assms(1) by (simp add: unat_of_nat)
  ultimately show ?thesis using f(1) assms(3) unfolding abc decide_def count_eqs by (auto simp: read_byte_def Let_def)
qed

text \<open>The code of three wrong bits is that of one, at the exclusive or of their positions.\<close>

lemma xor_less_256: "i < 256 \<Longrightarrow> j < 256 \<Longrightarrow> i XOR j < 256" for i j :: nat
  using take_bit_nat_eq_self_iff [of 8 i] take_bit_nat_eq_self_iff [of 8 j] take_bit_nat_eq_self_iff [of 8 "i XOR j"]
  by (simp add: take_bit_xor)

lemma xor_less_8: "i < 8 \<Longrightarrow> j < 8 \<Longrightarrow> i XOR j < 8" for i j :: nat
  using take_bit_nat_eq_self_iff [of 3 i] take_bit_nat_eq_self_iff [of 3 j] take_bit_nat_eq_self_iff [of 3 "i XOR j"]
  by (simp add: take_bit_xor)

lemma not_xor3: "NOT a XOR NOT b XOR NOT c = NOT (a XOR b XOR c)" for a :: u8
  by (rule bit_word_eqI) (auto simp: bit_simps)

lemma seven_minus: "j < 8 \<Longrightarrow> of_nat (7 - j) = (7 :: u8) XOR of_nat j"
  by (erule less_8_cases; simp)

lemma interleave_xor_0: "interleave n (push_bit k 1) x y 0 XOR interleave n (push_bit k 1) x' y' 0 = interleave n (push_bit k 1) (x XOR x') (y XOR y') 0"
  using interleave_xor [of n k x x' y y' 0 0] by simp

lemma of_nat_xor_u8: "of_nat (i XOR j) = (of_nat i XOR of_nat j :: u8)"
  by (simp add: of_nat_xor_eq)

lemma raw_triple:
  assumes "i1 < 256" "i2 < 256" "i3 < 256" "j1 < 8" "j2 < 8" "j3 < 8"
  shows "raw (xor3 (contrib i1 (push_bit j1 1)) (xor3 (contrib i2 (push_bit j2 1)) (contrib i3 (push_bit j3 1)))) =
    raw (contrib (i1 XOR i2 XOR i3) (push_bit (j1 XOR j2 XOR j3) 1))"
proof -
  have m: "0x80 = (push_bit 7 1 :: u8)" "0x08 = (push_bit 3 1 :: u8)" "0x04 = (push_bit 2 1 :: u8)" by simp_all
  have l: "i1 XOR i2 XOR i3 < 256" "j1 XOR j2 XOR j3 < 8" using assms by (simp_all add: xor_less_256 xor_less_8)
  have "7 XOR a XOR (7 XOR b XOR (7 XOR c)) = 7 XOR (a XOR b XOR c)" for a b c :: u8
    by (rule bit_word_eqI) (auto simp: bit_simps)
  then show ?thesis
    unfolding raw_xor raw_single [OF assms(1,4)] raw_single [OF assms(2,5)] raw_single [OF assms(3,6)] raw_single [OF l]
      column_def m xor3.simps interleave_xor_0 seven_minus [OF assms(4)] seven_minus [OF assms(5)] seven_minus [OF assms(6)] seven_minus [OF l(2)]
      of_nat_xor_u8 not_xor3 by (simp only: xor.assoc)
qed

lemma flip_nth: "i < length data \<Longrightarrow> j < 8 \<Longrightarrow> flip i j data ! i \<noteq> data ! i"
proof
  assume h: "i < length data" "j < 8" "flip i j data ! i = data ! i"
  then have "data ! i XOR push_bit j 1 = data ! i" by (simp add: flip_def del: push_bit_of_1)
  then have "flip i j data = data" by (simp add: flip_def del: push_bit_of_1)
  with flip_changes [OF h(1,2)] show False by simp
qed

lemma verify256x_end: "hamming_verify256x data p 0 q cb r = Some (r, data)"
  by (simp add: hamming_verify256x.simps)

lemma decide_triple:
  assumes "k < 256" "j < 8"
  shows "decide data p (raw (contrib k (push_bit j 1))) =
    (if p + k < length data then Some (Hamming_ERROR_SINGLEBIT, flip (p + k) j data) else None)"
  using decide_single [OF assms] decide_outside [OF assms] by simp

text \<open>
  (C39) Three wrong bits in a block that is shorter than 256 bytes can make \<open>hamming_verify256x\<close> write outside the data. Let the code be
  computed for \<open>n\<close> bytes at \<open>p\<close>, a block of less than 256 bytes in a larger memory, and any three bits \<open>j1\<close>, \<open>j2\<close>, \<open>j3\<close> of bytes \<open>i1\<close>, \<open>i2\<close>, \<open>i3\<close>
  of the block be wrong such that the exclusive or of the three indices is not an index of the block. Then the function reports a corrected bit and inverts
  exactly one bit: bit \<open>j1 XOR j2 XOR j3\<close> of the byte with index \<open>i1 XOR i2 XOR i3\<close>, behind the block (\<open>None\<close> where the
  memory ends before it); the index is not compared with the size.
\<close>
theorem hamming_verify_writes_outside:
  assumes "n < 256" "p + n \<le> length data" "q + 3 \<le> length cb"
    and "i1 < n" "i2 < n" "i3 < n" "j1 < 8" "j2 < 8" "j3 < 8"
    and "m = i1 XOR i2 XOR i3" "b = j1 XOR j2 XOR j3" "n \<le> m"
    and "data' = flip (p + i3) j3 (flip (p + i2) j2 (flip (p + i1) j1 data))"
  shows "\<exists>cb'. hamming_compute256x data p n q cb = Some cb' \<and>
    (p + m < length data \<longrightarrow> hamming_verify256x data' p n q cb' 0 = Some (Hamming_ERROR_SINGLEBIT, flip (p + m) b data') \<and>
       flip (p + m) b data' ! (p + m) \<noteq> data' ! (p + m)) \<and>
    (length data \<le> p + m \<longrightarrow> hamming_verify256x data' p n q cb' 0 = None)"
proof -
  have n: "0 < n" using assms(4) by simp
  have p: "pad n = 256 - n" "256 - pad n = n" "pad n < 256" using assms(1) n by (simp_all add: pad_def)
  have i: "i1 < 256" "i2 < 256" "i3 < 256" using assms(1,4-6) by simp_all
  have mb: "m < 256" "b < 8" unfolding assms(10,11) using i assms(7-9) by (simp_all add: xor_less_256 xor_less_8)
  let ?s = "line_sum 0 (block data p (pad n))"
  let ?e = "xor3 (contrib i1 (push_bit j1 1)) (xor3 (contrib i2 (push_bit j2 1)) (contrib i3 (push_bit j3 1)))"
  have len: "length data' = length data" by (simp add: assms(13))
  have "line_sum 0 (block data' p (pad n)) = xor3 ?s ?e" unfolding assms(13)
    using line_sum_block [OF p(3), of _ p] p(2) assms(2,4-6) by (simp add: xor3_assoc del: push_bit_of_1)
  then have v: "verify256 data' p (invert (raw ?s)) (pad n) =
      (if p + m < length data then Some (Hamming_ERROR_SINGLEBIT, flip (p + m) b data') else None)"
    using verify256_decides [OF p(3), of p data' ?s ?e "(0, 0, 0)"] decide_triple [OF mb, of data' p] p(2) assms(2) len
      raw_triple [OF i assms(7-9)] unfolding assms(10,11) by simp
  obtain cb' where cb': "hamming_compute256x data p n q cb = Some cb'" "stored data p n q cb'"
    using compute256x_stores [of n p data q cb] assms(1-3) blocks_step [OF n] by auto
  then have "load_code q cb' = Some (invert (raw ?s))"
    using compute256_invert [OF p(3), of p data] n p(2) assms(2) by (auto simp: stored.simps [of data p n])
  then have "hamming_verify256x data' p n q cb' 0 =
      (if p + m < length data then Some (Hamming_ERROR_SINGLEBIT, flip (p + m) b data') else None)"
    using v n p assms(1) verify256x_end by (subst hamming_verify256x.simps) (simp add: Let_def)
  moreover have "flip (p + m) b data' ! (p + m) \<noteq> data' ! (p + m)" if "p + m < length data"
    using flip_nth [OF _ mb(2)] that len by simp
  ultimately show ?thesis using cb'(1) by (intro exI [of _ cb']) simp
qed

theorem hamming_verify_writes_outside_witness:
  "\<exists>cb'. hamming_compute256x [0, 0, 0, 9] 0 3 0 [0, 0, 0] = Some cb' \<and> hamming_verify256x [1, 1, 1, 9] 0 3 0 cb' 0 = Some (1, [1, 1, 1, 8])"
proof -
  have f: "[1, 1, 1, 9] = flip (0 + 2) 0 (flip (0 + 1) 0 (flip (0 + 0) 0 [0, 0, 0, 9]))" "flip (0 + 3) 0 [1, 1, 1, 9] = [1, 1, 1, 8]"
    by (simp_all add: flip_def)
  have x: "3 = 0 XOR 1 XOR (2 :: nat)" "0 = 0 XOR 0 XOR (0 :: nat)" by simp_all
  have h: "\<exists>cb'. hamming_compute256x [0, 0, 0, 9] 0 3 0 [0, 0, 0] = Some cb' \<and>
      (0 + 3 < length [0, 0, 0, 9 :: u8] \<longrightarrow>
         hamming_verify256x [1, 1, 1, 9] 0 3 0 cb' 0 = Some (Hamming_ERROR_SINGLEBIT, [1, 1, 1, 8]) \<and> [1, 1, 1, 8 :: u8] ! (0 + 3) \<noteq> [1, 1, 1, 9] ! (0 + 3)) \<and>
      (length [0, 0, 0, 9 :: u8] \<le> 0 + 3 \<longrightarrow> hamming_verify256x [1, 1, 1, 9] 0 3 0 cb' 0 = None)"
    unfolding f(2) [symmetric] by (rule hamming_verify_writes_outside [OF _ _ _ _ _ _ _ _ _ x _ f(1)]) simp_all
  then show ?thesis by (auto simp: Hamming_ERROR_SINGLEBIT_def)
qed

end
