(* ===== verification/Ip_Text.thy ===== *)
theory Ip_Text
  imports Riot_Prelude
begin

text \<open>
  Internet addresses as text (sys/net/network_layer/ipv4/addr and ipv6/addr: \<open>ipv4_addr_from_str.c\<close>, \<open>ipv4_addr_to_str.c\<close>, \<open>ipv6_addr_from_str.c\<close>, \<open>ipv6_addr_to_str.c\<close>), in the
  build that knows both. An address is the list of its 4 or 16 bytes. A text that is read is the list of its characters up to the terminating zero, and the pointers to addresses
  and texts are not NULL. Every write to an array is checked: \<open>None\<close> is an access outside of it, whereas returning NULL is the value \<open>Some None\<close>, or \<open>False\<close> where the
  function leaves something in the memory of the result all the same.
\<close>

section \<open>The program\<close>

definition DEC :: string where "DEC = ''0123456789''"
definition HEX_L :: string where "HEX_L = ''0123456789abcdef''"
definition HEX_U :: string where "HEX_U = ''0123456789ABCDEF''"

fun strchr :: "string \<Rightarrow> char \<Rightarrow> nat option" where
  "strchr [] c = None"
| "strchr (x # xs) c = (if x = c then Some 0 else map_option Suc (strchr xs c))"

definition write_at :: "'a list \<Rightarrow> nat \<Rightarrow> 'a \<Rightarrow> 'a list option" where
  "write_at xs i v = (if i < length xs then Some (xs[i := v]) else None)"

subsection \<open>IPv4\<close>

text \<open>The loop of \<open>ipv4_addr_from_str\<close>, up to the end of the text; \<open>tp\<close> is the index of the current byte.\<close>

fun from4_loop :: "string \<Rightarrow> u8 list \<Rightarrow> nat \<Rightarrow> bool \<Rightarrow> nat \<Rightarrow> (u8 list \<times> nat) option option" where
  "from4_loop [] tmp tp saw_digit octets = Some (Some (tmp, octets))"
| "from4_loop (ch # addr) tmp tp saw_digit octets =
     (case strchr DEC ch of
        Some d \<Rightarrow>
          if \<not> tp < length tmp then None
          else
            (let new = unat (tmp ! tp) * 10 + d
             in if new > 255 then Some None
                else
                  (let tmp = tmp[tp := of_nat new]
                   in if \<not> saw_digit then
                        (if octets + 1 > 4 then Some None else from4_loop addr tmp tp True (octets + 1))
                      else from4_loop addr tmp tp True octets))
      | None \<Rightarrow>
          if ch = CHR ''.'' \<and> saw_digit then
            (if octets = 4 then Some None
             else do { tmp \<leftarrow> write_at tmp (tp + 1) 0; from4_loop addr tmp (tp + 1) False octets })
          else Some None)"

text \<open>The array on the stack is uninitialised but for its first byte; \<open>junk\<close> is what the other bytes hold.\<close>

definition ipv4_addr_from_str :: "u8 list \<Rightarrow> string \<Rightarrow> u8 list option option" where
  "ipv4_addr_from_str junk addr =
     do { r \<leftarrow> from4_loop addr (0 # junk) 0 False 0;
          Some (case r of None \<Rightarrow> None | Some (tmp, octets) \<Rightarrow> if octets < 4 then None else Some tmp) }"

definition IPV4_ADDR_MAX_STR_LEN :: nat where "IPV4_ADDR_MAX_STR_LEN = 16"

definition digit :: "nat \<Rightarrow> char" where
  "digit d = char_of (48 + d)"

definition octet_text :: "u8 \<Rightarrow> string" where
  "octet_text u =
     (let n = unat u
      in (if n > 99 then [digit (n div 100), digit (n mod 100 div 10), digit (n mod 100 mod 10)]
          else if n > 9 then [digit (n div 10), digit (n mod 10)] else [digit n]) @ ''.'')"

text \<open>The text that the function leaves in its buffer, without the terminating zero, which overwrites the last dot.\<close>

definition ipv4_addr_to_str :: "u8 list \<Rightarrow> nat \<Rightarrow> string option" where
  "ipv4_addr_to_str addr result_len =
     (if result_len < IPV4_ADDR_MAX_STR_LEN then None
      else Some (butlast (concat (map (\<lambda>n. octet_text (addr ! n)) [0, 1, 2, 3]))))"

subsection \<open>Reading an IPv6 address\<close>

record from6 =
  result :: "u8 list"
  idx :: nat
  colonp :: "nat option"
  val :: u32
  saw_xdigit :: bool
  curtok :: string

definition hexdigit :: "char \<Rightarrow> nat option" where
  "hexdigit ch = (case strchr HEX_L ch of Some d \<Rightarrow> Some d | None \<Rightarrow> strchr HEX_U ch)"

definition put_word :: "from6 \<Rightarrow> from6 option" where
  "put_word s =
     do { r \<leftarrow> write_at (result s) (idx s) (ucast (drop_bit 8 (val s)));
          r \<leftarrow> write_at r (idx s + 1) (ucast (val s));
          Some (s\<lparr>result := r, idx := idx s + 2\<rparr>) }"

fun write_bytes :: "u8 list \<Rightarrow> nat \<Rightarrow> u8 list \<Rightarrow> u8 list option" where
  "write_bytes r i [] = Some r"
| "write_bytes r i (b # bs) = do { r \<leftarrow> write_at r i b; write_bytes r (i + 1) bs }"

fun from6_loop :: "u8 list \<Rightarrow> string \<Rightarrow> from6 \<Rightarrow> (bool \<times> from6) option" where
  "from6_loop junk [] s = Some (True, s)"
| "from6_loop junk (ch # addr) s =
     (case hexdigit ch of
        Some d \<Rightarrow>
          (let s = s\<lparr>val := push_bit 4 (val s) OR of_nat d\<rparr>
           in if val s > 0xffff then Some (False, s) else from6_loop junk addr (s\<lparr>saw_xdigit := True\<rparr>))
      | None \<Rightarrow>
          if ch = CHR '':'' then
            (let s = s\<lparr>curtok := addr\<rparr>
             in if \<not> saw_xdigit s then
                  (if colonp s \<noteq> None then Some (False, s) else from6_loop junk addr (s\<lparr>colonp := Some (idx s)\<rparr>))
                else if idx s + 2 > 16 then Some (False, s)
                else do { s \<leftarrow> put_word s; from6_loop junk addr (s\<lparr>saw_xdigit := False, val := 0\<rparr>) })
          else if ch = CHR ''.'' \<and> idx s + 4 \<le> 16 then
            do { a \<leftarrow> ipv4_addr_from_str junk (curtok s);
                 case a of
                   None \<Rightarrow> Some (False, s)
                 | Some a \<Rightarrow>
                     do { r \<leftarrow> write_bytes (result s) (idx s) a;
                          Some (True, s\<lparr>result := r, idx := idx s + 4, saw_xdigit := False\<rparr>) } }
          else Some (False, s))"

text \<open>The shift by hand of the bytes behind the double colon.\<close>

function shift_loop :: "nat \<Rightarrow> nat \<Rightarrow> nat \<Rightarrow> u8 list \<Rightarrow> u8 list option" where
  "shift_loop j n c r =
     (if j \<le> n then
        (if c + n - j < length r then
           do { r' \<leftarrow> write_at r (16 - j) (r ! (c + n - j));
                r' \<leftarrow> write_at r' (c + n - j) 0;
                shift_loop (j + 1) n c r' }
         else None)
      else Some r)"
  by auto
termination by (relation "measure (\<lambda>(j, n, c, r). n + 1 - j)") auto

declare shift_loop.simps [simp del]

definition from6_finish :: "from6 \<Rightarrow> (bool \<times> u8 list) option" where
  "from6_finish s =
     (if saw_xdigit s \<and> idx s + 2 > 16 then Some (False, result s)
      else
        do { s \<leftarrow> if saw_xdigit s then put_word s else Some s;
             case colonp s of
               None \<Rightarrow> Some (idx s = 16, result s)
             | Some c \<Rightarrow> do { r \<leftarrow> shift_loop 1 (idx s - c) c (result s); Some (True, r) } })"

definition ipv6_addr_set_unspecified :: "u8 list" where
  "ipv6_addr_set_unspecified = replicate 16 0"

definition ipv6_addr_from_str :: "u8 list \<Rightarrow> string \<Rightarrow> (bool \<times> u8 list) option" where
  "ipv6_addr_from_str junk addr =
     (let s = \<lparr>result = ipv6_addr_set_unspecified, idx = 0, colonp = None, val = 0, saw_xdigit = False, curtok = addr\<rparr>
      in if take 1 addr = '':'' \<and> take 1 (drop 1 addr) \<noteq> '':'' then Some (False, result s)
         else
           do { (ok, s) \<leftarrow> from6_loop junk (if take 1 addr = '':'' then drop 1 addr else addr) s;
                if ok then from6_finish s else Some (False, result s) })"

subsection \<open>Writing an IPv6 address\<close>

definition IPV6_ADDR_MAX_STR_LEN :: nat where "IPV6_ADDR_MAX_STR_LEN = 46"

text \<open>The search for the longest run of zero words; a run is its base (or -1) and its length.\<close>

definition better :: "int \<times> int \<Rightarrow> int \<times> int \<Rightarrow> int \<times> int" where
  "better best cur = (if fst cur \<noteq> - 1 \<and> (fst best = - 1 \<or> snd cur > snd best) then cur else best)"

function run_loop :: "nat \<Rightarrow> u8 list \<Rightarrow> int \<times> int \<Rightarrow> int \<times> int \<Rightarrow> (int \<times> int) \<times> (int \<times> int)" where
  "run_loop i addr best cur =
     (if i < 8 then
        (if addr ! (2 * i) = 0 \<and> addr ! (2 * i + 1) = 0 then
           run_loop (i + 1) addr best (if fst cur = - 1 then (int i, 1) else (fst cur, snd cur + 1))
         else run_loop (i + 1) addr (better best cur) (- 1, snd cur))
      else (best, cur))"
  by auto
termination by (relation "measure (\<lambda>(i, addr, best, cur). 8 - i)") auto

declare run_loop.simps [simp del]

definition best_run :: "u8 list \<Rightarrow> int \<times> int" where
  "best_run addr =
     (let (best, cur) = run_loop 0 addr (- 1, 0) (- 1, 0);
          best = better best cur
      in if fst best \<noteq> - 1 \<and> snd best < 2 then (- 1, snd best) else best)"

definition puts :: "string \<Rightarrow> string \<Rightarrow> string option" where
  "puts tp cs = (if length tp + length cs \<le> IPV6_ADDR_MAX_STR_LEN then Some (tp @ cs) else None)"

definition hex :: "u8 \<Rightarrow> char" where
  "hex d = HEX_L ! unat d"

definition word_text :: "u8 \<Rightarrow> u8 \<Rightarrow> string" where
  "word_text hi lo =
     (if hi AND 0xf0 \<noteq> 0 then [hex (drop_bit 4 hi), hex (hi AND 0x0f), hex (drop_bit 4 lo)]
      else if hi AND 0x0f \<noteq> 0 then [hex (hi AND 0x0f), hex (drop_bit 4 lo)]
      else if lo AND 0xf0 \<noteq> 0 then [hex (drop_bit 4 lo)] else []) @ [hex (lo AND 0x0f)]"

partial_function (option) to6_loop :: "int \<times> int \<Rightarrow> u8 list \<Rightarrow> int \<Rightarrow> string \<Rightarrow> string option option" where
  "to6_loop best addr i tp =
     (if i < 8 then
        (if i = fst best then do { tp \<leftarrow> puts tp '':''; to6_loop best addr (i + snd best) tp }
         else
           do { tp \<leftarrow> if i \<noteq> 0 then puts tp '':'' else Some tp;
                if i = 6 \<and> fst best = 0 \<and> (snd best = 6 \<or> snd best = 5 \<and> addr ! 10 = 0xff \<and> addr ! 11 = 0xff) then
                  (case ipv4_addr_to_str (drop 12 addr) (IPV6_ADDR_MAX_STR_LEN - length tp) of
                     None \<Rightarrow> Some None
                   | Some t \<Rightarrow> Some (Some (tp @ t)))
                else
                  do { tp \<leftarrow> puts tp (word_text (addr ! nat (2 * i)) (addr ! nat (2 * i + 1)));
                       to6_loop best addr (i + 1) tp } })
      else Some (Some tp))"

declare to6_loop.simps [code]

text \<open>The characters that are copied to the buffer of the caller, without the terminating zero.\<close>

definition ipv6_addr_to_str :: "u8 list \<Rightarrow> nat \<Rightarrow> string option option" where
  "ipv6_addr_to_str addr result_len =
     (let best = best_run addr
      in do { r \<leftarrow> to6_loop best addr 0 [];
              case r of
                None \<Rightarrow> Some None
              | Some tp \<Rightarrow>
                  do { tp \<leftarrow> if fst best \<noteq> - 1 \<and> fst best + snd best = 8 then puts tp '':'' else Some tp;
                       tmp \<leftarrow> puts tp [CHR 0x00];
                       Some (if length tmp > result_len then None else Some tp) } })"

end
