(* ===== verification/Ip_Props.thy ===== *)
theory Ip_Props
  imports Ip_Text
begin

text \<open>
  What \<^emph>\<open>Ip_Text\<close> guarantees: both readers stay inside their arrays on every text, and reading a written address gives the address back, for every IPv4 and every IPv6 address,
  with or without a run of zero words and with an IPv4 address inside. The last theorem shows an IPv6 text that is read wrongly.
\<close>

section \<open>Digits\<close>

lemma strchr_DEC: "d < 10 \<Longrightarrow> strchr DEC (digit d) = Some d"
proof -
  have "\<forall>d \<in> set [0..<10]. strchr DEC (digit d) = Some d" by code_simp
  then show "d < 10 \<Longrightarrow> strchr DEC (digit d) = Some d" by auto
qed

lemma hexdigit_DEC: "d < 10 \<Longrightarrow> hexdigit (digit d) = Some d"
proof -
  have "\<forall>d \<in> set [0..<10]. hexdigit (digit d) = Some d" by code_simp
  then show "d < 10 \<Longrightarrow> hexdigit (digit d) = Some d" by auto
qed

lemma hexdigit_HEX: "d < 16 \<Longrightarrow> hexdigit (HEX_L ! d) = Some d"
proof -
  have "\<forall>d \<in> set [0..<16]. hexdigit (HEX_L ! d) = Some d" by code_simp
  then show "d < 16 \<Longrightarrow> hexdigit (HEX_L ! d) = Some d" by auto
qed

lemma separators [simp]: "strchr DEC CHR ''.'' = None" "hexdigit CHR ''.'' = None" "hexdigit CHR '':'' = None"
  by code_simp+

lemma strchr_bound: "strchr xs c = Some d \<Longrightarrow> d < length xs"
  by (induction xs arbitrary: d) (auto split: if_splits)

section \<open>IPv4\<close>

definition octet_digits :: "nat \<Rightarrow> nat list" where
  "octet_digits n = (if n > 99 then [n div 100, n mod 100 div 10, n mod 100 mod 10] else if n > 9 then [n div 10, n mod 10] else [n])"

lemma octet_text_eq: "octet_text u = map digit (octet_digits (unat u)) @ ''.''"
  by (simp add: octet_text_def octet_digits_def Let_def)

lemma octet_digits_range: "n < 256 \<Longrightarrow> d \<in> set (octet_digits n) \<Longrightarrow> d < 10"
  by (auto simp: octet_digits_def split: if_splits)

lemma octet_digits_value: "foldl (\<lambda>v d. v * 10 + d) 0 (octet_digits n) = n"
proof -
  have "n mod 100 = 10 * (n div 10 mod 10) + n mod 10" "n div 100 = n div 10 div 10" using mod_mult2_eq [of n 10 10] div_mult2_eq [of n 10 10] by simp_all
  then have "n div 100 * 10 + n mod 100 div 10 = n div 10" by simp
  moreover have "n mod 100 mod 10 = n mod 10" by (simp add: mod_mod_cancel)
  ultimately show ?thesis by (simp only: octet_digits_def) simp
qed

lemma octet_digits_ne [simp]: "octet_digits n \<noteq> []"
  by (simp add: octet_digits_def)

lemma unat_u8_lt: "unat (u :: u8) < 256"
proof -
  have "unat u < 2 ^ LENGTH(8)" by (rule unsigned_less)
  then show ?thesis by simp
qed

lemma foldl_dec_mono: "v \<le> foldl (\<lambda>v d. v * 10 + d) v ds" for v :: nat
proof (induction ds arbitrary: v)
  case (Cons d ds)
  show ?case using Cons [of "v * 10 + d"] by simp
qed simp

lemma from4_digits:
  assumes "tp < length tmp" "\<forall>d\<in>set ds. d < 10" "foldl (\<lambda>v d. v * 10 + d) (unat (tmp ! tp)) ds < 256"
  shows "from4_loop (map digit ds @ rest) tmp tp True octets =
    from4_loop rest (tmp[tp := of_nat (foldl (\<lambda>v d. v * 10 + d) (unat (tmp ! tp)) ds)]) tp True octets"
  using assms
proof (induction ds arbitrary: tmp)
  case (Cons d ds)
  let ?v = "unat (tmp ! tp) * 10 + d"
  have v: "?v < 256" using foldl_dec_mono [of ?v ds] Cons.prems(3) by simp
  then have "unat (of_nat ?v :: u8) = ?v" by (simp only: unat_of_nat) simp
  then show ?case using Cons.IH [of "tmp[tp := of_nat ?v]"] Cons.prems v by (simp add: strchr_DEC Let_def)
qed simp

lemma from4_octet:
  assumes "tp < length tmp" "tmp ! tp = 0" "octets < 4"
  shows "from4_loop (map digit (octet_digits (unat u)) @ rest) tmp tp False octets = from4_loop rest (tmp[tp := u]) tp True (octets + 1)"
proof -
  obtain d ds where ds: "octet_digits (unat u) = d # ds" using octet_digits_ne by (metis list.exhaust)
  have r: "d < 10" "\<forall>d\<in>set ds. d < 10" using octet_digits_range [OF unat_u8_lt, of _ u] ds by auto
  have v: "foldl (\<lambda>v d. v * 10 + d) d ds = unat u" using octet_digits_value [of "unat u"] ds by simp
  then have "d < 256" using foldl_dec_mono [of d ds] unat_u8_lt [of u] by linarith
  then have d: "unat (of_nat d :: u8) = d" by (simp add: unat_of_nat)
  have "from4_loop (map digit (octet_digits (unat u)) @ rest) tmp tp False octets = from4_loop (map digit ds @ rest) (tmp[tp := of_nat d]) tp True (octets + 1)"
    using assms ds r \<open>d < 256\<close> by (simp add: strchr_DEC Let_def)
  also have "\<dots> = from4_loop rest (tmp[tp := u]) tp True (octets + 1)"
    using from4_digits [of tp "tmp[tp := of_nat d]" ds rest "octets + 1"] assms(1) r v d unat_u8_lt [of u] by simp
  finally show ?thesis .
qed

lemma from4_dot:
  "tp + 1 < length tmp \<Longrightarrow> octets \<noteq> 4 \<Longrightarrow> from4_loop (CHR ''.'' # rest) tmp tp True octets = from4_loop rest (tmp[tp + 1 := 0]) (tp + 1) False octets"
  by (simp add: write_at_def)

definition dotted :: "u8 \<Rightarrow> u8 \<Rightarrow> u8 \<Rightarrow> u8 \<Rightarrow> string" where
  "dotted a b c d = map digit (octet_digits (unat a)) @ CHR ''.'' # map digit (octet_digits (unat b)) @ CHR ''.'' #
     map digit (octet_digits (unat c)) @ CHR ''.'' # map digit (octet_digits (unat d))"

lemma from4_dotted:
  assumes "length junk = 3"
  shows "ipv4_addr_from_str junk (dotted a b c d) = Some (Some [a, b, c, d])"
proof -
  obtain x y z where j: "junk = [x, y, z]" using assms by (auto simp: numeral_3_eq_3 length_Suc_conv)
  have "from4_loop (dotted a b c d) [0, x, y, z] 0 False 0 = Some (Some ([a, b, c, d], 4))"
    unfolding dotted_def
    by (simp add: from4_octet from4_octet [where rest = "[]", simplified] write_at_def)
  then show ?thesis by (simp add: ipv4_addr_from_str_def j)
qed

lemma to4_dotted: "16 \<le> n \<Longrightarrow> ipv4_addr_to_str [a, b, c, d] n = Some (dotted a b c d)"
  by (simp add: ipv4_addr_to_str_def IPV4_ADDR_MAX_STR_LEN_def octet_text_eq dotted_def butlast_append)

section \<open>Reading IPv6\<close>

text \<open>A reader that has written the bytes \<open>bs\<close>.\<close>

definition at6 :: "u8 list \<Rightarrow> nat option \<Rightarrow> u32 \<Rightarrow> bool \<Rightarrow> string \<Rightarrow> from6" where
  "at6 bs c v saw tok = \<lparr>result = bs @ replicate (16 - length bs) 0, idx = length bs, colonp = c, val = v, saw_xdigit = saw, curtok = tok\<rparr>"

definition word_of :: "u8 \<Rightarrow> u8 \<Rightarrow> u32" where
  "word_of hi lo = of_nat (unat hi * 256 + unat lo)"

lemma unat_word_of: "unat (word_of hi lo) = unat hi * 256 + unat lo"
  using unat_u8_lt [of hi] unat_u8_lt [of lo] unfolding word_of_def by (simp only: unat_of_nat) simp

lemma word_of_parts: "ucast (drop_bit 8 (word_of hi lo)) = hi" "ucast (word_of hi lo) = lo"
proof -
  have "unat (ucast (drop_bit 8 (word_of hi lo)) :: u8) = unat hi"
    using unat_u8_lt [of hi] unat_u8_lt [of lo] by (simp add: unsigned_ucast_eq unat_drop_bit_div unat_word_of take_bit_eq_mod)
  moreover have "unat (ucast (word_of hi lo) :: u8) = unat lo"
    using unat_u8_lt [of lo] by (simp add: unsigned_ucast_eq unat_word_of take_bit_eq_mod)
  ultimately show "ucast (drop_bit 8 (word_of hi lo)) = hi" "ucast (word_of hi lo) = lo" by (simp_all only: word_unat_eq_iff)
qed

lemma put_word_at6:
  assumes "length bs + 2 \<le> 16"
  shows "put_word (at6 bs c (word_of hi lo) saw tok) = Some (at6 (bs @ [hi, lo]) c (word_of hi lo) saw tok)"
proof -
  define k where "k = 14 - length bs"
  then have k: "16 - length bs = Suc (Suc k)" "length bs + Suc (Suc k) = 16" "14 - length bs = k" using assms by linarith+
  then show ?thesis by (simp add: put_word_def at6_def write_at_def word_of_parts list_update_append)
qed

lemma hexdigit_bound: "hexdigit c = Some d \<Longrightarrow> d < 16"
  using strchr_bound [of HEX_L c] strchr_bound [of HEX_U c] by (auto simp: hexdigit_def HEX_L_def HEX_U_def simp del: strchr.simps split: option.splits)

definition add_digit :: "u32 \<Rightarrow> nat \<Rightarrow> u32" where
  "add_digit v d = push_bit 4 v OR of_nat d"

lemma add_digit_value:
  assumes "unat v < 65536" "d < 16"
  shows "unat (add_digit v d) = unat v * 16 + d"
proof -
  have "add_digit v d = of_nat (unat v * 16 + d)" unfolding add_digit_def or_digit [OF assms(2)] by simp
  then show ?thesis using assms by (simp only: unat_of_nat) simp
qed

lemma foldl_hex_mono: "v \<le> foldl (\<lambda>v d. v * 16 + d) v ds" for v :: nat
proof (induction ds arbitrary: v)
  case (Cons d ds)
  show ?case using Cons [of "v * 16 + d"] by simp
qed simp

lemma add_digits_value:
  assumes "\<forall>d\<in>set ds. d < 16" "foldl (\<lambda>v d. v * 16 + d) (unat v) ds < 65536"
  shows "unat (foldl add_digit v ds) = foldl (\<lambda>v d. v * 16 + d) (unat v) ds"
  using assms
proof (induction ds arbitrary: v)
  case (Cons d ds)
  have "unat v * 16 + d < 65536" using foldl_hex_mono [of "unat v * 16 + d" ds] Cons.prems by simp
  then have "unat (add_digit v d) = unat v * 16 + d" using Cons.prems by (intro add_digit_value) auto
  then show ?case using Cons by simp
qed simp

lemma from6_digits:
  assumes "\<forall>d\<in>set ds. hexdigit (f d) = Some d \<and> d < 16" "foldl (\<lambda>v d. v * 16 + d) (unat v) ds < 65536" "ds \<noteq> [] \<or> saw"
  shows "from6_loop junk (map f ds @ rest) (at6 bs c v saw tok) = from6_loop junk rest (at6 bs c (foldl add_digit v ds) True tok)"
  using assms
proof (induction ds arbitrary: v saw)
  case (Cons d ds)
  have l: "unat v * 16 + d < 65536" using foldl_hex_mono [of "unat v * 16 + d" ds] Cons.prems by simp
  then have v: "unat (add_digit v d) = unat v * 16 + d" using Cons.prems by (intro add_digit_value) auto
  have "\<not> add_digit v d > 0xffff" using l v by (simp add: word_less_nat_alt)
  then have "from6_loop junk (map f (d # ds) @ rest) (at6 bs c v saw tok) = from6_loop junk (map f ds @ rest) (at6 bs c (add_digit v d) True tok)"
    using Cons.prems(1) by (simp add: at6_def Let_def add_digit_def)
  then show ?case using Cons.IH [of "add_digit v d" True] Cons.prems v by simp
qed (simp add: at6_def)

definition word_digits :: "nat \<Rightarrow> nat \<Rightarrow> nat list" where
  "word_digits h l = (if h div 16 \<noteq> 0 then [h div 16, h mod 16, l div 16] else if h mod 16 \<noteq> 0 then [h mod 16, l div 16]
     else if l div 16 \<noteq> 0 then [l div 16] else []) @ [l mod 16]"

lemma nibbles:
  "(u AND 0xf0 = 0) = (unat u div 16 = 0)" "(u AND 0x0f = 0) = (unat u mod 16 = 0)" "unat (u AND 0x0f) = unat u mod 16" "unat (drop_bit 4 u) = unat u div 16" for u :: u8
proof -
  have a: "u AND 0x0f = take_bit 4 u" by (simp add: take_bit_eq_mask mask_eq_decr_exp)
  show d: "unat (drop_bit 4 u) = unat u div 16" by (simp add: unat_drop_bit_div)
  show m: "unat (u AND 0x0f) = unat u mod 16" unfolding a by (simp add: take_bit_eq_mod unat_mod)
  then show "(u AND 0x0f = 0) = (unat u mod 16 = 0)" by (metis unat_eq_zero)
  have f: "(0xf0 :: u8) = push_bit 4 (mask 4)" by (simp add: mask_eq_decr_exp)
  have "u AND 0xf0 = push_bit 4 (drop_bit 4 u)" unfolding f by (rule bit_word_eqI) (auto simp: bit_simps)
  moreover have "unat (push_bit 4 (drop_bit 4 u)) = unat u div 16 * 16"
    unfolding unsigned_push_bit_eq d using unat_u8_lt [of u] by (simp add: push_bit_eq_mult take_bit_eq_mod)
  ultimately show "(u AND 0xf0 = 0) = (unat u div 16 = 0)" by (metis mult_eq_0_iff unat_eq_zero zero_neq_numeral)
qed

lemma word_text_eq: "word_text hi lo = map ((!) HEX_L) (word_digits (unat hi) (unat lo))"
  by (simp add: word_text_def word_digits_def hex_def nibbles)

lemma word_digits_range: "h < 256 \<Longrightarrow> l < 256 \<Longrightarrow> d \<in> set (word_digits h l) \<Longrightarrow> d < 16"
  by (auto simp: word_digits_def split: if_splits)

lemma word_digits_value: "foldl (\<lambda>v d. v * 16 + d) 0 (word_digits h l) = h * 256 + l"
  by (cases "h div 16 \<noteq> 0"; cases "h mod 16 \<noteq> 0"; cases "l div 16 \<noteq> 0") (simp_all add: word_digits_def, presburger+)

lemma from6_word:
  "from6_loop junk (word_text hi lo @ rest) (at6 bs c 0 False tok) = from6_loop junk rest (at6 bs c (word_of hi lo) True tok)"
proof -
  let ?ds = "word_digits (unat hi) (unat lo)"
  have r: "\<forall>d\<in>set ?ds. d < 16" using word_digits_range unat_u8_lt by blast
  have b: "unat hi * 256 + unat lo < 65536" using unat_u8_lt [of hi] unat_u8_lt [of lo] by linarith
  have "unat (foldl add_digit 0 ?ds) = unat (word_of hi lo)"
    using add_digits_value [OF r, of 0] b by (simp add: word_digits_value unat_word_of)
  then have "foldl add_digit 0 ?ds = word_of hi lo" by (simp only: word_unat_eq_iff)
  moreover have "?ds \<noteq> []" by (simp add: word_digits_def)
  ultimately show ?thesis
    using from6_digits [of ?ds "(!) HEX_L" 0 False junk rest bs c tok] r b by (simp add: word_text_eq word_digits_value hexdigit_HEX)
qed

lemma from6_colon:
  assumes "length bs + 2 \<le> 16"
  shows "from6_loop junk (CHR '':'' # rest) (at6 bs c (word_of hi lo) True tok) = from6_loop junk rest (at6 (bs @ [hi, lo]) c 0 False rest)"
  using put_word_at6 [OF assms, of c hi lo True rest] assms by (cases c) (auto simp: Let_def at6_def)

lemma from6_double:
  "from6_loop junk (CHR '':'' # rest) (at6 bs None 0 False tok) = from6_loop junk rest (at6 bs (Some (length bs)) 0 False rest)"
  by (simp add: at6_def Let_def)

text \<open>Words with a colon in front of each.\<close>

definition colon_text :: "(u8 \<times> u8) list \<Rightarrow> string" where
  "colon_text gs = concat (map (\<lambda>(hi, lo). CHR '':'' # word_text hi lo) gs)"

definition flat :: "(u8 \<times> u8) list \<Rightarrow> u8 list" where
  "flat gs = concat (map (\<lambda>(hi, lo). [hi, lo]) gs)"

lemma flat_simps [simp]: "flat [] = []" "flat ((hi, lo) # gs) = hi # lo # flat gs" "flat (gs @ gs') = flat gs @ flat gs'" "length (flat gs) = 2 * length gs"
  by (simp_all add: flat_def) (induction gs, auto)

lemma colon_text_simps [simp]: "colon_text [] = []" "colon_text ((hi, lo) # gs) = CHR '':'' # word_text hi lo @ colon_text gs"
  by (simp_all add: colon_text_def)

text \<open>Reading words up to the end of the text.\<close>

definition read6 :: "u8 list \<Rightarrow> string \<Rightarrow> from6 \<Rightarrow> (bool \<times> u8 list) option" where
  "read6 junk text s = do { (ok, s) \<leftarrow> from6_loop junk text s; if ok then from6_finish s else Some (False, result s) }"

lemma read6_words:
  assumes "length bs + 2 * length gs + 2 \<le> 16"
  shows "read6 junk (colon_text gs) (at6 bs c (word_of hi lo) True tok) = from6_finish (at6 (bs @ hi # lo # flat gs) c 0 False [])"
  using assms
proof (induction gs arbitrary: bs hi lo tok)
  case Nil
  have "from6_finish (at6 bs c (word_of hi lo) True tok) = from6_finish (at6 (bs @ [hi, lo]) c 0 False [])"
    using put_word_at6 [of bs c hi lo True tok] Nil by (cases c) (simp_all add: from6_finish_def at6_def)
  then show ?case by (simp add: read6_def)
next
  case (Cons g gs)
  obtain h l where g: "g = (h, l)" by fastforce
  have "read6 junk (colon_text (g # gs)) (at6 bs c (word_of hi lo) True tok) = read6 junk (colon_text gs) (at6 (bs @ [hi, lo]) c (word_of h l) True (word_text h l @ colon_text gs))"
    using Cons.prems by (simp add: read6_def g from6_colon from6_word del: from6_loop.simps)
  then show ?case using Cons.IH [of "bs @ [hi, lo]"] Cons.prems by (simp add: g)
qed

lemma shift_loop_moves:
  assumes "length A + length B + Suc k = 16" "m \<le> length B"
  shows "shift_loop (length B + 1 - m) (length B) (length A) (A @ take m B @ replicate (Suc k) 0 @ drop m B) = Some (A @ replicate (Suc k) 0 @ B)"
  using assms(2)
proof (induction m)
  case 0
  show ?case by (simp add: shift_loop.simps)
next
  case (Suc m)
  let ?x = "B ! m" and ?j = "length B - m"
  have m: "take (Suc m) B = take m B @ [?x]" "drop m B = ?x # drop (Suc m) B" using Suc.prems by (simp_all add: take_Suc_conv_app_nth Cons_nth_drop_Suc)
  let ?r = "A @ take (Suc m) B @ replicate (Suc k) 0 @ drop (Suc m) B"
  have j: "length B + 1 - Suc m = ?j" "?j \<le> length B" "length A + length B - ?j = length A + m" "16 - ?j = length A + m + Suc k" using Suc.prems assms(1) by linarith+
  have r: "?r = (A @ take m B @ ?x # replicate k 0) @ 0 # drop (Suc m) B" by (simp add: m(1) replicate_append_same)
  have len: "length ?r = 16" using assms(1) Suc.prems by simp
  have nth: "?r ! (length A + m) = ?x" using Suc.prems by (simp add: m(1) nth_append)
  have u1: "?r[16 - ?j := ?x] = (A @ take m B) @ ?x # replicate k 0 @ ?x # drop (Suc m) B"
    unfolding r j(4) using Suc.prems by (simp add: list_update_append)
  have u2: "((A @ take m B) @ ?x # replicate k 0 @ ?x # drop (Suc m) B)[length A + m := 0] = A @ take m B @ replicate (Suc k) 0 @ drop m B"
    using Suc.prems by (simp add: list_update_append m(2))
  have "shift_loop ?j (length B) (length A) ?r = shift_loop (?j + 1) (length B) (length A) (A @ take m B @ replicate (Suc k) 0 @ drop m B)"
    using j len nth u1 u2 assms(1) Suc.prems by (subst shift_loop.simps) (simp add: write_at_def)
  moreover have "?j + 1 = length B + 1 - m" using Suc.prems by linarith
  ultimately show ?case using Suc.IH Suc.prems j(1) by simp
qed

lemma from6_finish_full: "length bs = 16 \<Longrightarrow> from6_finish (at6 bs None v False tok) = Some (True, bs)"
  by (simp add: from6_finish_def at6_def)

lemma from6_finish_double:
  assumes "length A + length B < 16"
  shows "from6_finish (at6 (A @ B) (Some (length A)) v False tok) = Some (True, A @ replicate (16 - length A - length B) 0 @ B)"
proof -
  obtain k where k: "length A + length B + Suc k = 16" using assms less_iff_Suc_add [of "length A + length B" 16] by auto
  then have "16 - (length A + length B) = Suc k" by linarith
  then show ?thesis using shift_loop_moves [OF k, of "length B"] k by (simp add: from6_finish_def at6_def)
qed

lemma read6_flush:
  assumes "length bs + 2 * length gs + 2 \<le> 16"
  shows "read6 junk (colon_text gs @ CHR '':'' # rest) (at6 bs c (word_of hi lo) True tok) = read6 junk rest (at6 (bs @ hi # lo # flat gs) c 0 False rest)"
  using assms
proof (induction gs arbitrary: bs hi lo tok)
  case Nil
  then show ?case by (simp add: read6_def from6_colon del: from6_loop.simps)
next
  case (Cons g gs)
  obtain h l where g: "g = (h, l)" by fastforce
  have "read6 junk (colon_text (g # gs) @ CHR '':'' # rest) (at6 bs c (word_of hi lo) True tok) =
      read6 junk (colon_text gs @ CHR '':'' # rest) (at6 (bs @ [hi, lo]) c (word_of h l) True (word_text h l @ colon_text gs @ CHR '':'' # rest))"
    using Cons.prems by (simp add: read6_def g from6_colon from6_word del: from6_loop.simps)
  then show ?case using Cons.IH [of "bs @ [hi, lo]"] Cons.prems by (simp add: g)
qed

lemma read6_word: "read6 junk (word_text hi lo @ rest) (at6 bs c 0 False tok) = read6 junk rest (at6 bs c (word_of hi lo) True tok)"
  by (simp add: read6_def from6_word)

lemma read6_double:
  assumes "length bs + 2 * length gs \<le> 16"
  shows "read6 junk (colon_text gs @ (if gs = [] then '':'' else [])) (at6 bs None 0 False tok) = from6_finish (at6 (bs @ flat gs) (Some (length bs)) 0 False [])"
proof (cases gs)
  case Nil
  then show ?thesis by (simp add: read6_def at6_def)
next
  case (Cons g gs')
  obtain h l where g: "g = (h, l)" by fastforce
  have "read6 junk (colon_text gs) (at6 bs None 0 False tok) = read6 junk (colon_text gs') (at6 bs (Some (length bs)) (word_of h l) True (word_text h l @ colon_text gs'))"
    by (simp add: read6_def Cons g from6_double from6_word del: from6_loop.simps)
  then show ?thesis using read6_words [of bs gs'] assms by (simp add: Cons g)
qed

lemma write_bytes_append:
  "length bs \<le> k \<Longrightarrow> write_bytes (xs @ replicate k 0) (length xs) bs = Some (xs @ bs @ replicate (k - length bs) 0)"
proof (induction bs arbitrary: xs k)
  case (Cons b bs)
  then obtain k' where k: "k = Suc k'" by (cases k) auto
  then show ?case using Cons.IH [of k' "xs @ [b]"] Cons.prems by (simp add: write_at_def)
qed simp

lemma octet_digits_hex: "n < 256 \<Longrightarrow> foldl (\<lambda>v d. v * 16 + d) 0 (octet_digits n) < 65536"
  by (auto simp: octet_digits_def)

lemma read6_dotted:
  assumes "length bs + 4 \<le> 16" "length junk = 3"
  shows "read6 junk (dotted a b c d) (at6 bs cp 0 False (dotted a b c d)) = from6_finish (at6 (bs @ [a, b, c, d]) cp 0 False [])"
proof -
  let ?ds = "octet_digits (unat a)" and ?t = "dotted a b c d"
  define rest where "rest = map digit (octet_digits (unat b)) @ CHR ''.'' # map digit (octet_digits (unat c)) @ CHR ''.'' # map digit (octet_digits (unat d))"
  have t: "?t = map digit ?ds @ CHR ''.'' # rest" by (simp add: dotted_def rest_def)
  have r: "\<forall>d\<in>set ?ds. hexdigit (digit d) = Some d \<and> d < 16"
    using octet_digits_range [OF unat_u8_lt [of a]] hexdigit_DEC by fastforce
  have "from6_loop junk ?t (at6 bs cp 0 False ?t) = from6_loop junk (CHR ''.'' # rest) (at6 bs cp (foldl add_digit 0 ?ds) True ?t)"
    using from6_digits [OF r, of 0 False junk "CHR ''.'' # rest" bs cp ?t] octet_digits_hex [OF unat_u8_lt [of a]] by (simp only: t) simp
  also have "\<dots> = Some (True, at6 (bs @ [a, b, c, d]) cp (foldl add_digit 0 ?ds) False ?t)"
    using write_bytes_append [of "[a, b, c, d]" "16 - length bs" bs] from4_dotted [OF assms(2)] assms(1) by (simp add: at6_def)
  finally show ?thesis by (simp add: read6_def from6_finish_def at6_def split: option.splits)
qed

section \<open>Writing IPv6\<close>

definition word_at :: "u8 list \<Rightarrow> nat \<Rightarrow> u8 \<times> u8" where
  "word_at a i = (a ! (2 * i), a ! (2 * i + 1))"

definition run_ok :: "u8 list \<Rightarrow> nat \<Rightarrow> int \<times> int \<Rightarrow> bool" where
  "run_ok a i r \<longleftrightarrow> fst r = - 1 \<or>
     0 \<le> fst r \<and> 1 \<le> snd r \<and> fst r + snd r \<le> int i \<and> (\<forall>j. fst r \<le> int j \<and> int j < fst r + snd r \<longrightarrow> word_at a j = (0, 0))"

lemma run_ok_better: "run_ok a i best \<Longrightarrow> run_ok a i cur \<Longrightarrow> run_ok a i (better best cur)"
  by (simp add: better_def)

lemma run_ok_mono: "run_ok a i r \<Longrightarrow> i \<le> i' \<Longrightarrow> run_ok a i' r"
  by (auto simp: run_ok_def)

lemma run_ok_none [simp]: "run_ok a i (- 1, n)"
  by (simp add: run_ok_def)

lemma run_ok_extend:
  assumes "run_ok a i cur" "fst cur \<noteq> - 1 \<longrightarrow> fst cur + snd cur = int i" "word_at a i = (0, 0)"
  shows "run_ok a (i + 1) (if fst cur = - 1 then (int i, 1) else (fst cur, snd cur + 1))"
proof (cases "fst cur = - 1")
  case True
  have "word_at a j = (0, 0)" if "int i \<le> int j" "int j < int i + 1" for j
    using that assms(3) by (cases "j = i") auto
  then show ?thesis using True by (auto simp: run_ok_def)
next
  case False
  have "word_at a j = (0, 0)" if "fst cur \<le> int j" "int j < fst cur + (snd cur + 1)" for j
  proof (cases "j = i")
    case True
    then show ?thesis using assms(3) by simp
  next
    case ne: False
    then have "int j < fst cur + snd cur" using that(2) assms(2) False by linarith
    then show ?thesis using that(1) assms(1) False by (auto simp: run_ok_def)
  qed
  then show ?thesis using False assms by (auto simp: run_ok_def)
qed

lemma run_loop_ok:
  assumes "i \<le> 8" "run_ok a i best" "run_ok a i cur" "fst cur \<noteq> - 1 \<longrightarrow> fst cur + snd cur = int i" "run_loop i a best cur = (best', cur')"
  shows "run_ok a 8 best' \<and> run_ok a 8 cur'"
  using assms
proof (induction i a best cur rule: run_loop.induct)
  case (1 i a best cur)
  show ?case
  proof (cases "i < 8")
    case False
    then have "i = 8" using "1.prems"(1) by simp
    then show ?thesis using "1.prems" by (simp add: run_loop.simps [of 8])
  next
    case i: True
    show ?thesis
    proof (cases "a ! (2 * i) = 0 \<and> a ! (2 * i + 1) = 0")
      case True
      let ?cur = "if fst cur = - 1 then (int i, 1) else (fst cur, snd cur + 1)"
      have "run_ok a (i + 1) ?cur" using True "1.prems" by (intro run_ok_extend) (auto simp: word_at_def)
      moreover have "run_loop (i + 1) a best ?cur = (best', cur')" using True i "1.prems"(5) by (simp add: run_loop.simps [of i])
      ultimately show ?thesis using "1.IH"(1) [OF i True] "1.prems"(2,4) i run_ok_mono [of a i best "i + 1"] by auto
    next
      case False
      have "run_ok a (i + 1) (better best cur)" using "1.prems" by (intro run_ok_mono [OF run_ok_better]) auto
      moreover have "run_loop (i + 1) a (better best cur) (- 1, snd cur) = (best', cur')" using False i "1.prems"(5) by (auto simp: run_loop.simps [of i] split: if_splits)
      ultimately show ?thesis using "1.IH"(2) [OF i False] i by auto
    qed
  qed
qed

lemma best_run_cases:
  obtains "fst (best_run a) = - 1"
  | b l where "best_run a = (int b, int l)" "2 \<le> l" "b + l \<le> 8" "\<And>j. b \<le> j \<Longrightarrow> j < b + l \<Longrightarrow> word_at a j = (0, 0)"
proof -
  obtain best cur where bc: "run_loop 0 a (- 1, 0) (- 1, 0) = (best, cur)" by (cases "run_loop 0 a (- 1, 0) (- 1, 0)")
  then have ok: "run_ok a 8 (better best cur)" using run_loop_ok [of 0 a "(- 1, 0)" "(- 1, 0)"] run_ok_better by auto
  show thesis
  proof (cases "fst (best_run a) = - 1")
    case True
    then show thesis by (rule that(1))
  next
    case False
    then have e: "best_run a = better best cur" "2 \<le> snd (best_run a)" "fst (better best cur) \<noteq> - 1" by (auto simp: best_run_def bc Let_def split: if_splits)
    then have "0 \<le> fst (best_run a)" "fst (best_run a) + snd (best_run a) \<le> 8" using ok by (auto simp: run_ok_def)
    moreover have "word_at a j = (0, 0)" if "nat (fst (best_run a)) \<le> j" "j < nat (fst (best_run a)) + nat (snd (best_run a))" for j
    proof -
      have "fst (best_run a) \<le> int j" "int j < fst (best_run a) + snd (best_run a)" using that calculation e(2) by linarith+
      then show ?thesis using ok e(1,3) by (auto simp: run_ok_def)
    qed
    ultimately show thesis using e(2) by (intro that(2) [of "nat (fst (best_run a))" "nat (snd (best_run a))"]) (auto simp: nat_le_iff)
  qed
qed

lemma length_word_text: "length (word_text hi lo) \<le> 4"
  by (simp add: word_text_def)

definition ip4_inside :: "u8 list \<Rightarrow> int \<times> int \<Rightarrow> bool" where
  "ip4_inside a best \<longleftrightarrow> fst best = 0 \<and> (snd best = 6 \<or> snd best = 5 \<and> a ! 10 = 0xff \<and> a ! 11 = 0xff)"

lemma to6_words:
  assumes "i \<le> m" "m \<le> 8" "0 < i" "\<And>j. i \<le> j \<Longrightarrow> j < m \<Longrightarrow> int j \<noteq> fst best" "\<not> ip4_inside a best" "length tp + 5 * (m - i) \<le> 46"
  shows "to6_loop best a (int i) tp = to6_loop best a (int m) (tp @ colon_text (map (word_at a) [i..<m]))"
  using assms
proof (induction "m - i" arbitrary: i tp)
  case 0
  then show ?case by simp
next
  case (Suc n)
  let ?w = "word_text (a ! (2 * i)) (a ! (2 * i + 1))"
  have i: "i < m" "int i \<noteq> fst best" using Suc.hyps(2) Suc.prems(4) [of i] by auto
  have nn: "nat (2 * int i) = 2 * i" "nat (2 * int i + 1) = 2 * i + 1" by simp_all
  have l: "length tp + 1 \<le> 46" "length (tp @ '':'') + length ?w \<le> 46" using Suc.prems(6) i length_word_text [of "a ! (2 * i)" "a ! (2 * i + 1)"] by auto
  have "to6_loop best a (int i) tp = to6_loop best a (int (i + 1)) (tp @ CHR '':'' # ?w)"
    using i l Suc.prems(2,3,5) by (subst to6_loop.simps) (auto simp: puts_def IPV6_ADDR_MAX_STR_LEN_def ip4_inside_def nn simp del: One_nat_def)
  also have "\<dots> = to6_loop best a (int m) ((tp @ CHR '':'' # ?w) @ colon_text (map (word_at a) [i + 1..<m]))"
    using Suc.hyps(2) Suc.prems i l length_word_text [of "a ! (2 * i)" "a ! (2 * i + 1)"] by (intro Suc.hyps(1)) auto
  finally show ?case using i by (simp add: upt_conv_Cons word_at_def)
qed

lemma to6_start:
  assumes "0 < m" "m \<le> 8" "\<And>j. j < m \<Longrightarrow> int j \<noteq> fst best" "\<not> ip4_inside a best"
  shows "to6_loop best a 0 [] = to6_loop best a (int m) (word_text (a ! 0) (a ! 1) @ colon_text (map (word_at a) [1..<m]))"
proof -
  have z: "0 \<noteq> fst best" using assms(3) [of 0] assms(1) by simp
  have "to6_loop best a 0 [] = to6_loop best a 1 (word_text (a ! 0) (a ! 1))"
    using z length_word_text [of "a ! 0" "a ! 1"] by (subst to6_loop.simps) (auto simp: puts_def IPV6_ADDR_MAX_STR_LEN_def)
  also have "\<dots> = to6_loop best a (int 1) (word_text (a ! 0) (a ! 1))" by simp
  also have "\<dots> = to6_loop best a (int m) (word_text (a ! 0) (a ! 1) @ colon_text (map (word_at a) [1..<m]))"
    using assms length_word_text [of "a ! 0" "a ! 1"] by (intro to6_words) auto
  finally show ?thesis .
qed

lemma to6_run:
  assumes "best = (int b, int l)" "2 \<le> l" "b + l \<le> 8" "\<not> ip4_inside a best" "length tp + 5 * (8 - b) \<le> 46"
  shows "to6_loop best a (int b) tp = Some (Some (tp @ CHR '':'' # colon_text (map (word_at a) [b + l..<8])))"
proof -
  have "to6_loop best a (int b) tp = to6_loop best a (int (b + l)) (tp @ '':'')"
    using assms by (subst to6_loop.simps) (auto simp: puts_def IPV6_ADDR_MAX_STR_LEN_def)
  also have "\<dots> = to6_loop best a (int 8) ((tp @ '':'') @ colon_text (map (word_at a) [b + l..<8]))"
    using assms by (intro to6_words) auto
  finally show ?thesis by (simp add: to6_loop.simps [of best a 8])
qed

lemma length_colon_text: "length (colon_text gs) \<le> 5 * length gs"
proof (induction gs)
  case (Cons g gs)
  then show ?case using length_word_text [of "fst g" "snd g"] by (cases g) simp
qed simp

text \<open>The texts that are written.\<close>

lemma to_str_plain:
  assumes "fst (best_run a) = - 1" "46 \<le> n"
  shows "ipv6_addr_to_str a n = Some (Some (word_text (a ! 0) (a ! 1) @ colon_text (map (word_at a) [1..<8])))"
proof -
  have "to6_loop (best_run a) a 0 [] = Some (Some (word_text (a ! 0) (a ! 1) @ colon_text (map (word_at a) [1..<8])))"
    using to6_start [of 8 "best_run a" a] assms(1) by (simp add: ip4_inside_def to6_loop.simps [of _ a 8])
  moreover have "length (word_text (a ! 0) (a ! 1) @ colon_text (map (word_at a) [1..<8])) \<le> 39"
    using length_word_text [of "a ! 0" "a ! 1"] length_colon_text [of "map (word_at a) [1..<8]"] by (simp del: upt_rec_numeral)
  ultimately show ?thesis using assms by (simp add: ipv6_addr_to_str_def Let_def puts_def IPV6_ADDR_MAX_STR_LEN_def del: upt_rec_numeral)
qed

definition closing :: "nat \<Rightarrow> string" where
  "closing i = (if i = 8 then '':'' else [])"

lemma to_str_run:
  assumes "best_run a = (int b, int l)" "2 \<le> l" "b + l \<le> 8" "\<not> ip4_inside a (best_run a)" "46 \<le> n"
  shows "ipv6_addr_to_str a n = Some (Some ((if b = 0 then [] else word_text (a ! 0) (a ! 1) @ colon_text (map (word_at a) [1..<b])) @
     CHR '':'' # colon_text (map (word_at a) [b + l..<8]) @ closing (b + l)))"
proof -
  let ?h = "if b = 0 then [] else word_text (a ! 0) (a ! 1) @ colon_text (map (word_at a) [1..<b])"
  let ?t = "?h @ CHR '':'' # colon_text (map (word_at a) [b + l..<8])"
  have h: "length ?h \<le> 5 * b"
    using length_word_text [of "a ! 0" "a ! 1"] length_colon_text [of "map (word_at a) [1..<b]"] by auto
  have "to6_loop (best_run a) a 0 [] = to6_loop (best_run a) a (int b) ?h"
    using to6_start [of b "best_run a" a] assms by auto
  also have "\<dots> = Some (Some ?t)" using h assms by (intro to6_run) auto
  finally have r: "to6_loop (best_run a) a 0 [] = Some (Some ?t)" .
  have "length (colon_text (map (word_at a) [b + l..<8])) \<le> 5 * (8 - (b + l))" using length_colon_text [of "map (word_at a) [b + l..<8]"] by simp
  then have "length ?t \<le> 40" using h assms(2,3) by simp
  moreover have "(int b + int l = 8) = (b + l = 8)" by linarith
  ultimately show ?thesis using r assms(1,5) by (simp add: ipv6_addr_to_str_def Let_def puts_def IPV6_ADDR_MAX_STR_LEN_def closing_def)
qed

lemma length_dotted: "length (dotted a b c d) \<le> 15"
proof -
  have "length (octet_digits n) \<le> 3" for n by (simp add: octet_digits_def)
  from this [of "unat a"] this [of "unat b"] this [of "unat c"] this [of "unat d"] show ?thesis by (simp add: dotted_def)
qed

text \<open>With an IPv4 address inside, the text ends in dotted notation.\<close>

lemma to_str_ip4:
  assumes "best_run a = (0, int l)" "l = 6 \<or> l = 5 \<and> a ! 10 = 0xff \<and> a ! 11 = 0xff" "46 \<le> n" "length a = 16"
  shows "ipv6_addr_to_str a n =
    Some (Some (''::'' @ (if l = 6 then [] else word_text 0xff 0xff @ '':'') @ dotted (a ! 12) (a ! 13) (a ! 14) (a ! 15)))"
proof -
  let ?b = "best_run a" and ?d = "dotted (a ! 12) (a ! 13) (a ! 14) (a ! 15)"
  have d: "drop 12 a = [a ! 12, a ! 13, a ! 14, a ! 15]"
    using assms(4) by (intro nth_equalityI) (auto simp: less_Suc_eq numeral_eq_Suc)
  have t: "to6_loop ?b a 0 [] = Some (Some (''::'' @ ?d))" if "l = 6"
    using that assms(1) by (simp add: to6_loop.simps [of _ a 0] to6_loop.simps [of _ a 6] puts_def IPV6_ADDR_MAX_STR_LEN_def d to4_dotted)
  have f: "word_text 0xff 0xff = ''ffff''" by code_simp
  have u: "to6_loop ?b a 0 [] = Some (Some (''::ffff:'' @ ?d))" if "l = 5" "a ! 10 = 0xff" "a ! 11 = 0xff"
    using that assms(1) by (simp add: to6_loop.simps [of _ a 0] to6_loop.simps [of _ a 5] to6_loop.simps [of _ a 6] puts_def IPV6_ADDR_MAX_STR_LEN_def d to4_dotted f)
  have "length ?d \<le> 15" by (rule length_dotted)
  then show ?thesis using assms t u f by (auto simp: ipv6_addr_to_str_def Let_def puts_def IPV6_ADDR_MAX_STR_LEN_def)
qed

section \<open>Round trips\<close>

lemma word_text_head: "take 1 (word_text hi lo @ cs) \<noteq> '':''"
proof -
  obtain d ds where d: "word_digits (unat hi) (unat lo) = d # ds" by (metis word_digits_def append_is_Nil_conv list.exhaust not_Cons_self2)
  then have "d < 16" using word_digits_range [OF unat_u8_lt unat_u8_lt, of d hi lo] by simp
  then have "HEX_L ! d \<noteq> CHR '':''" using hexdigit_HEX [of d] by auto
  then show ?thesis by (simp add: word_text_eq d)
qed

lemma from_str_word:
  "ipv6_addr_from_str junk (word_text hi lo @ cs) = read6 junk cs (at6 [] None (word_of hi lo) True (word_text hi lo @ cs))"
proof -
  have "ipv6_addr_from_str junk (word_text hi lo @ cs) = read6 junk (word_text hi lo @ cs) (at6 [] None 0 False (word_text hi lo @ cs))"
    using word_text_head [of hi lo cs] by (simp add: ipv6_addr_from_str_def read6_def at6_def ipv6_addr_set_unspecified_def)
  then show ?thesis by (simp only: read6_word)
qed

lemma from_str_double:
  "ipv6_addr_from_str junk (CHR '':'' # CHR '':'' # cs) = read6 junk (CHR '':'' # cs) (at6 [] None 0 False (CHR '':'' # CHR '':'' # cs))"
  by (simp add: ipv6_addr_from_str_def read6_def at6_def ipv6_addr_set_unspecified_def del: from6_loop.simps)

lemma flat_words:
  assumes "i \<le> j" "2 * j \<le> length a"
  shows "flat (map (word_at a) [i..<j]) = take (2 * j - 2 * i) (drop (2 * i) a)"
  using assms
proof (induction "j - i" arbitrary: i)
  case (Suc n)
  have "flat (map (word_at a) [Suc i..<j]) = take (2 * j - 2 * Suc i) (drop (2 * Suc i) a)" using Suc by (intro Suc.hyps(1)) auto
  moreover have "drop (2 * i) a = a ! (2 * i) # a ! (2 * i + 1) # drop (2 * Suc i) a"
    using Suc by (simp add: Cons_nth_drop_Suc [symmetric])
  moreover have "2 * j - 2 * i = Suc (Suc (2 * j - 2 * Suc i))" using Suc.hyps(2) by auto
  ultimately show ?case using Suc by (simp add: upt_conv_Cons word_at_def)
qed simp

lemma zero_run:
  assumes "length a = 16" "b + l \<le> 8" "\<And>j. b \<le> j \<Longrightarrow> j < b + l \<Longrightarrow> word_at a j = (0, 0)"
  shows "a = flat (map (word_at a) [0..<b]) @ replicate (2 * l) 0 @ flat (map (word_at a) [b + l..<8])"
proof -
  have "flat (map (word_at a) [b..<b + l]) = flat (replicate l (0, 0))"
    using assms(3) by (intro arg_cong [of _ _ flat] nth_equalityI) auto
  also have "\<dots> = replicate (2 * l) 0" by (induction l) auto
  finally have z: "flat (map (word_at a) [b..<b + l]) = replicate (2 * l) 0" .
  have "a = flat (map (word_at a) [0..<8])" using assms(1) by (subst flat_words) auto
  also have "[0..<8] = [0..<b] @ [b..<b + l] @ [b + l..<8]" using assms(2) upt_add_eq_append [of 0 b "8 - b"] upt_add_eq_append [of b "b + l" "8 - (b + l)"] by simp
  finally show ?thesis by (simp add: z)
qed

text \<open>
  Writing an IPv4 address into a buffer that is large enough and reading the text gives the address back, whatever the uninitialised array of the reader holds.
\<close>
theorem ipv4_text_roundtrip:
  assumes "length addr = 4" "16 \<le> result_len" "length junk = 3"
  shows "\<exists>t. ipv4_addr_to_str addr result_len = Some t \<and> length t < 16 \<and> ipv4_addr_from_str junk t = Some (Some addr)"
proof -
  obtain a b c d where "addr = [a, b, c, d]" using assms(1) by (auto simp: numeral_eq_Suc length_Suc_conv)
  then show ?thesis using to4_dotted [OF assms(2), of a b c d] from4_dotted [OF assms(3), of a b c d] length_dotted [of a b c d] by simp
qed

theorem ipv4_text_roundtrip_witness: "\<exists>t. ipv4_addr_to_str [127, 0, 0, 1] 16 = Some t \<and> length t < 16 \<and> ipv4_addr_from_str [1, 2, 3] t = Some (Some [127, 0, 0, 1])"
  by (rule ipv4_text_roundtrip) simp_all

lemma roundtrip_run:
  assumes "length a = 16" "best_run a = (int b, int l)" "2 \<le> l" "b + l \<le> 8" "\<And>j. b \<le> j \<Longrightarrow> j < b + l \<Longrightarrow> word_at a j = (0, 0)"
    "\<not> ip4_inside a (best_run a)" "46 \<le> n"
  shows "\<exists>t. ipv6_addr_to_str a n = Some (Some t) \<and> ipv6_addr_from_str junk t = Some (True, a)"
proof -
  let ?gs = "map (word_at a) [b + l..<8]" and ?A = "flat (map (word_at a) [0..<b])"
  let ?t = "colon_text ?gs @ (if ?gs = [] then '':'' else [])"
  have closing: "closing (b + l) = (if ?gs = [] then '':'' else [])" using assms(4) by (auto simp: closing_def)
  have t: "ipv6_addr_to_str a n = Some (Some ((if b = 0 then [] else word_text (a ! 0) (a ! 1) @ colon_text (map (word_at a) [1..<b])) @ CHR '':'' # ?t))"
    using to_str_run [OF assms(2-4,6,7)] closing by simp
  have fin: "from6_finish (at6 (?A @ flat ?gs) (Some (length ?A)) 0 False []) = Some (True, a)"
  proof -
    have "length ?A + length (flat ?gs) < 16" "16 - length ?A - length (flat ?gs) = 2 * l" using assms(3,4) by simp_all
    then show ?thesis using from6_finish_double [of ?A "flat ?gs" 0 "[]"] zero_run [OF assms(1,4,5)] by simp
  qed
  have "ipv6_addr_from_str junk ((if b = 0 then [] else word_text (a ! 0) (a ! 1) @ colon_text (map (word_at a) [1..<b])) @ CHR '':'' # ?t) = Some (True, a)"
  proof (cases "b = 0")
    case True
    have "\<exists>cs. ?t = CHR '':'' # cs" by (cases ?gs) auto
    then have "ipv6_addr_from_str junk (CHR '':'' # ?t) = read6 junk ?t (at6 [] None 0 False (CHR '':'' # ?t))" using from_str_double by metis
    also have "\<dots> = from6_finish (at6 ([] @ flat ?gs) (Some (length ([] :: u8 list))) 0 False [])" using assms(3,4) by (intro read6_double) simp
    finally show ?thesis using fin True by simp
  next
    case False
    have A: "?A = [a ! 0, a ! 1] @ flat (map (word_at a) [1..<b])" using False by (simp add: upt_conv_Cons word_at_def)
    let ?tok = "word_text (a ! 0) (a ! 1) @ colon_text (map (word_at a) [1..<b]) @ CHR '':'' # ?t"
    have "ipv6_addr_from_str junk ?tok = read6 junk (colon_text (map (word_at a) [1..<b]) @ CHR '':'' # ?t) (at6 [] None (word_of (a ! 0) (a ! 1)) True ?tok)"
      by (rule from_str_word)
    also have "\<dots> = read6 junk ?t (at6 ?A None 0 False ?t)" using read6_flush [of "[]" "map (word_at a) [1..<b]"] assms(3,4) False A by simp
    also have "\<dots> = from6_finish (at6 (?A @ flat ?gs) (Some (length ?A)) 0 False [])" using assms(3,4) by (intro read6_double) simp
    finally show ?thesis using fin False by simp
  qed
  then show ?thesis using t by blast
qed

lemma roundtrip_ip4:
  assumes "length a = 16" "best_run a = (0, int l)" "\<And>j. j < l \<Longrightarrow> word_at a j = (0, 0)" "l = 6 \<or> l = 5 \<and> a ! 10 = 0xff \<and> a ! 11 = 0xff" "46 \<le> n" "length junk = 3"
  shows "\<exists>t. ipv6_addr_to_str a n = Some (Some t) \<and> ipv6_addr_from_str junk t = Some (True, a)"
proof -
  let ?d = "dotted (a ! 12) (a ! 13) (a ! 14) (a ! 15)" and ?ip = "[a ! 12, a ! 13, a ! 14, a ! 15]"
  have t: "ipv6_addr_to_str a n = Some (Some (''::'' @ (if l = 6 then [] else word_text 0xff 0xff @ '':'') @ ?d))" by (rule to_str_ip4 [OF assms(2,4,5,1)])
  have z: "a = replicate (2 * l) 0 @ flat (map (word_at a) [l..<8])" using zero_run [OF assms(1), of 0 l] assms(3,4) by auto
  have six: "ipv6_addr_from_str junk (''::'' @ ?d) = Some (True, a)" if "l = 6"
  proof -
    have "ipv6_addr_from_str junk (''::'' @ ?d) = read6 junk ?d (at6 [] (Some 0) 0 False ?d)"
      using from_str_double [of junk ?d] from6_double [of junk ?d "[]"] by (simp add: read6_def del: from6_loop.simps)
    also have "\<dots> = from6_finish (at6 ([] @ ?ip) (Some (length ([] :: u8 list))) 0 False [])" using read6_dotted [of "[]" junk] assms(6) by simp
    also have "\<dots> = Some (True, replicate 12 0 @ ?ip)" using from6_finish_double [of "[]" ?ip 0 "[]"] by simp
    also have "replicate 12 0 @ ?ip = a" using z that by (simp add: upt_conv_Cons word_at_def)
    finally show ?thesis .
  qed
  have five: "ipv6_addr_from_str junk (''::'' @ word_text 0xff 0xff @ '':'' @ ?d) = Some (True, a)" if "l = 5" "a ! 10 = 0xff" "a ! 11 = 0xff"
  proof -
    let ?t = "word_text 0xff 0xff @ CHR '':'' # ?d"
    have "ipv6_addr_from_str junk (CHR '':'' # CHR '':'' # ?t) = read6 junk ?t (at6 [] (Some 0) 0 False ?t)"
      using from_str_double [of junk ?t] from6_double [of junk ?t "[]"] by (simp add: read6_def del: from6_loop.simps)
    also have "\<dots> = read6 junk ?d (at6 [0xff, 0xff] (Some 0) 0 False ?d)"
      unfolding read6_word using read6_flush [of "[]" "[]" junk ?d "Some 0"] by simp
    also have "\<dots> = from6_finish (at6 ([] @ 0xff # 0xff # ?ip) (Some (length ([] :: u8 list))) 0 False [])" using read6_dotted [of "[0xff, 0xff]" junk] assms(6) by simp
    also have "\<dots> = Some (True, replicate 10 0 @ 0xff # 0xff # ?ip)" using from6_finish_double [of "[]" "0xff # 0xff # ?ip" 0 "[]"] by simp
    also have "replicate 10 0 @ 0xff # 0xff # ?ip = a" using z that by (simp add: upt_conv_Cons word_at_def)
    finally show ?thesis by simp
  qed
  show ?thesis using t six five assms(4) by auto
qed

text \<open>
  (C25) Writing any IPv6 address into a buffer of the documented size and reading the text gives the address back: with the longest run of zero words left out, at the
  beginning, in the middle or at the end, without such a run, and with the IPv4 notation of compatible and mapped addresses. Neither function leaves its arrays.
\<close>
theorem ipv6_text_roundtrip:
  assumes "length addr = 16" "46 \<le> result_len" "length junk = 3"
  shows "\<exists>t. ipv6_addr_to_str addr result_len = Some (Some t) \<and> ipv6_addr_from_str junk t = Some (True, addr)"
proof (cases rule: best_run_cases [of addr])
  case 1
  let ?gs = "map (word_at addr) [1..<8]" and ?t = "word_text (addr ! 0) (addr ! 1) @ colon_text (map (word_at addr) [1..<8])"
  have "ipv6_addr_from_str junk ?t = from6_finish (at6 ([] @ addr ! 0 # addr ! 1 # flat ?gs) None 0 False [])"
    unfolding from_str_word by (rule read6_words) simp
  moreover have "addr ! 0 # addr ! 1 # flat ?gs = addr"
    using flat_words [of 0 8 addr] assms(1) upt_conv_Cons [of 0 8] by (simp add: word_at_def del: upt_rec_numeral)
  ultimately have "ipv6_addr_from_str junk ?t = Some (True, addr)" using from6_finish_full [OF assms(1)] by simp
  then show ?thesis using to_str_plain [OF 1 assms(2)] by blast
next
  case (2 b l)
  show ?thesis
  proof (cases "ip4_inside addr (best_run addr)")
    case True
    then have "b = 0" "l = 6 \<or> l = 5 \<and> addr ! 10 = 0xff \<and> addr ! 11 = 0xff" using 2(1) by (auto simp: ip4_inside_def)
    then show ?thesis using 2 by (intro roundtrip_ip4 [OF assms(1) _ _ _ assms(2,3)]) auto
  next
    case False
    then show ?thesis using roundtrip_run [OF assms(1) 2 _ assms(2)] by blast
  qed
qed

theorem ipv6_text_roundtrip_witness:
  "\<exists>t. ipv6_addr_to_str [0xfe, 0x80, 0, 0, 0, 0, 0, 0, 0, 0, 0, 0, 0, 0, 0, 1] 46 = Some (Some t) \<and>
     ipv6_addr_from_str [1, 2, 3] t = Some (True, [0xfe, 0x80, 0, 0, 0, 0, 0, 0, 0, 0, 0, 0, 0, 0, 0, 1])"
  by (rule ipv6_text_roundtrip) simp_all

section \<open>Any text\<close>

lemma write_at_inside [simp]: "i < length xs \<Longrightarrow> write_at xs i v = Some (xs[i := v])"
  by (simp add: write_at_def)

lemma from4_loop_inside:
  assumes "length tmp = 4" "tp < 4" "octets = (if saw then tp + 1 else tp)"
  shows "\<exists>r. from4_loop addr tmp tp saw octets = Some r \<and> (\<forall>tmp' n. r = Some (tmp', n) \<longrightarrow> length tmp' = 4)"
  using assms
proof (induction addr arbitrary: tmp tp saw octets)
  case (Cons ch addr)
  show ?case
  proof (cases "strchr DEC ch")
    case None
    show ?thesis using Cons.IH [of "tmp[tp + 1 := 0]" "tp + 1" octets False] Cons.prems None by (auto split: if_splits)
  next
    case (Some d)
    show ?thesis
      using Cons.IH [of "tmp[tp := of_nat (unat (tmp ! tp) * 10 + d)]" tp "if saw then octets else octets + 1" True] Cons.prems Some by (auto simp: Let_def)
  qed
qed simp

lemma from4_inside: "length junk = 3 \<Longrightarrow> \<exists>r. ipv4_addr_from_str junk addr = Some r \<and> (\<forall>a. r = Some a \<longrightarrow> length a = 4)"
  using from4_loop_inside [where tmp = "0 # junk" and tp = 0 and octets = 0 and saw = False and addr = addr] by (auto simp: ipv4_addr_from_str_def split: option.splits)

definition inside6 :: "from6 \<Rightarrow> bool" where
  "inside6 s \<longleftrightarrow> length (result s) = 16 \<and> idx s \<le> 16 \<and> (\<forall>c. colonp s = Some c \<longrightarrow> c \<le> idx s)"

lemma put_word_inside: "inside6 s \<Longrightarrow> idx s + 2 \<le> 16 \<Longrightarrow> \<exists>s'. put_word s = Some s' \<and> inside6 s' \<and> colonp s' = colonp s"
  by (auto simp: put_word_def inside6_def)

lemma write_bytes_inside: "i + length bs \<le> length r \<Longrightarrow> \<exists>r'. write_bytes r i bs = Some r' \<and> length r' = length r"
proof (induction bs arbitrary: i r)
  case (Cons b bs)
  then show ?case using Cons.IH [of "i + 1" "r[i := b]"] by simp
qed simp

lemma from6_loop_inside:
  assumes "inside6 s" "length junk = 3"
  shows "\<exists>ok s'. from6_loop junk addr s = Some (ok, s') \<and> inside6 s'"
  using assms(1)
proof (induction addr arbitrary: s)
  case (Cons ch addr)
  consider (hex) d where "hexdigit ch = Some d" | (colon) "hexdigit ch = None" "ch = CHR '':''" | (other) "hexdigit ch = None" "ch \<noteq> CHR '':''" by fastforce
  then show ?case
  proof cases
    case hex
    then show ?thesis using Cons.IH [of "s\<lparr>val := push_bit 4 (val s) OR of_nat d, saw_xdigit := True\<rparr>"] Cons.prems by (auto simp: Let_def inside6_def)
  next
    case colon
    show ?thesis
    proof (cases "saw_xdigit s \<and> idx s + 2 \<le> 16")
      case True
      have "inside6 (s\<lparr>curtok := addr\<rparr>)" using Cons.prems by (simp add: inside6_def)
      from put_word_inside [OF this] True obtain s1 where s1: "put_word (s\<lparr>curtok := addr\<rparr>) = Some s1" "inside6 s1" by auto
      then show ?thesis using Cons.IH [of "s1\<lparr>saw_xdigit := False, val := 0\<rparr>"] colon True by (auto simp: Let_def inside6_def)
    next
      case False
      then show ?thesis using Cons.IH [of "s\<lparr>curtok := addr, colonp := Some (idx s)\<rparr>"] Cons.prems colon by (auto simp: Let_def inside6_def)
    qed
  next
    case other
    obtain r where r: "ipv4_addr_from_str junk (curtok s) = Some r" "\<forall>a. r = Some a \<longrightarrow> length a = 4" using from4_inside [OF assms(2)] by blast
    show ?thesis
    proof (cases "ch = CHR ''.'' \<and> idx s + 4 \<le> 16 \<and> r \<noteq> None")
      case True
      then obtain a where a: "r = Some a" "length a = 4" using r(2) by auto
      then obtain r' where "write_bytes (result s) (idx s) a = Some r'" "length r' = 16"
        using write_bytes_inside [of "idx s" a "result s"] True Cons.prems by (auto simp: inside6_def)
      then show ?thesis using other True r a Cons.prems by (auto simp: inside6_def)
    next
      case False
      then show ?thesis using other r Cons.prems by (auto split: option.splits)
    qed
  qed
qed auto

lemma shift_loop_inside: "length r = 16 \<Longrightarrow> c + n \<le> 16 \<Longrightarrow> 1 \<le> j \<Longrightarrow> \<exists>r'. shift_loop j n c r = Some r' \<and> length r' = 16"
proof (induction "n + 1 - j" arbitrary: j r)
  case 0
  then show ?case by (simp add: shift_loop.simps)
next
  case (Suc m)
  then show ?case using Suc.hyps(1) [of "j + 1" "r[16 - j := r ! (c + n - j), c + n - j := 0]"] by (subst shift_loop.simps) auto
qed

lemma from6_finish_inside: "inside6 s \<Longrightarrow> \<exists>ok r. from6_finish s = Some (ok, r) \<and> length r = 16"
proof -
  have close: "\<exists>ok r. from6_finish s = Some (ok, r) \<and> length r = 16" if "inside6 s" "\<not> saw_xdigit s" for s
  proof (cases "colonp s")
    case (Some c)
    then show ?thesis using that shift_loop_inside [of "result s" c "idx s - c" 1] by (auto simp: from6_finish_def inside6_def)
  qed (use that in \<open>simp add: from6_finish_def inside6_def\<close>)
  assume s: "inside6 s"
  show ?thesis
  proof (cases "saw_xdigit s \<and> idx s + 2 \<le> 16")
    case True
    then obtain s1 where s1: "put_word s = Some s1" "inside6 s1" using put_word_inside [OF s] by blast
    then have "from6_finish s = from6_finish (s1\<lparr>saw_xdigit := False\<rparr>)" using True by (simp add: from6_finish_def split: option.splits)
    then show ?thesis using close [of "s1\<lparr>saw_xdigit := False\<rparr>"] s1(2) by (simp add: inside6_def)
  next
    case False
    then show ?thesis using close [OF s] s by (cases "saw_xdigit s") (auto simp: from6_finish_def inside6_def)
  qed
qed

text \<open>
  (C26) Reading any text as an IPv6 address, valid or not, never writes or reads outside the sixteen bytes of the result or the four bytes of the array in which an IPv4 address is put
  together; it always comes to an end and returns.
\<close>
theorem ipv6_from_str_stays_inside:
  assumes "length junk = 3"
  shows "\<exists>ok r. ipv6_addr_from_str junk text = Some (ok, r) \<and> length r = 16"
proof -
  let ?s = "\<lparr>result = ipv6_addr_set_unspecified, idx = 0, colonp = None, val = 0, saw_xdigit = False, curtok = text\<rparr>"
  have s: "inside6 ?s" by (simp add: inside6_def ipv6_addr_set_unspecified_def)
  obtain ok s' where r: "from6_loop junk (if take 1 text = '':'' then drop 1 text else text) ?s = Some (ok, s')" "inside6 s'"
    using from6_loop_inside [OF s assms] by blast
  obtain ok' r' where "from6_finish s' = Some (ok', r')" "length r' = 16" using from6_finish_inside [OF r(2)] by blast
  then show ?thesis using r s by (auto simp: ipv6_addr_from_str_def Let_def inside6_def)
qed

theorem ipv6_from_str_stays_inside_witness: "\<exists>ok r. ipv6_addr_from_str [0, 0, 0] ''1:2:3:4:5:6:7:8::9'' = Some (ok, r) \<and> length r = 16"
  by (rule ipv6_from_str_stays_inside) simp

section \<open>Texts that are read wrongly\<close>

definition words_text :: "(u8 \<times> u8) list \<Rightarrow> string" where
  "words_text gs = tl (colon_text gs)"

lemma words_text_simps [simp]: "words_text [] = []" "words_text ((hi, lo) # gs) = word_text hi lo @ colon_text gs"
  by (simp_all add: words_text_def)

lemma colon_words: "gs \<noteq> [] \<Longrightarrow> CHR '':'' # words_text gs = colon_text gs"
  by (cases gs) auto

text \<open>When the array is full, the shift by hand moves every byte to where it is and clears it.\<close>

lemma shift_loop_clears:
  assumes "length A + length B = 16" "m \<le> length B"
  shows "shift_loop (length B + 1 - m) (length B) (length A) (A @ take m B @ replicate (length B - m) 0) =
    Some (A @ replicate (length B) 0)"
  using assms(2)
proof (induction m)
  case 0
  show ?case by (simp add: shift_loop.simps)
next
  case (Suc m)
  let ?j = "length B - m" and ?r = "A @ take (Suc m) B @ replicate (length B - Suc m) 0"
  have j: "length B + 1 - Suc m = ?j" "?j \<le> length B" "length A + length B - ?j = length A + m" "16 - ?j = length A + m"
    using Suc.prems assms(1) by linarith+
  have len: "length ?r = 16" using assms(1) Suc.prems by simp
  have z: "replicate ?j 0 = 0 # replicate (length B - Suc m) (0 :: u8)" using Suc.prems by (simp flip: replicate_Suc)
  have "?r[length A + m := 0] = A @ take m B @ replicate ?j 0"
    unfolding z using Suc.prems by (simp add: take_Suc_conv_app_nth list_update_append)
  then have "shift_loop ?j (length B) (length A) ?r = shift_loop (?j + 1) (length B) (length A) (A @ take m B @ replicate ?j 0)"
    using j len assms(1) Suc.prems by (subst shift_loop.simps) (simp add: write_at_def del: append_assoc)
  moreover have "?j + 1 = length B + 1 - m" using Suc.prems by linarith
  ultimately show ?case using Suc.IH Suc.prems j(1) by simp
qed

lemma from6_finish_clears:
  assumes "length A + length B = 16"
  shows "from6_finish (at6 (A @ B) (Some (length A)) v False tok) = Some (True, A @ replicate (length B) 0)"
proof -
  have "16 - length A = length B" using assms by linarith
  then show ?thesis using shift_loop_clears [OF assms, of "length B"] assms by (simp add: from6_finish_def at6_def)
qed

text \<open>Any words with a double colon between them are read up to the shift.\<close>

lemma from_str_double_colon:
  assumes "length as + length bs \<le> 8"
  shows "ipv6_addr_from_str junk (words_text as @ ''::'' @ words_text bs) = from6_finish (at6 (flat as @ flat bs) (Some (length (flat as))) 0 False [])"
proof -
  let ?t = "colon_text bs @ (if bs = [] then '':'' else [])"
  have t: "''::'' @ words_text bs = CHR '':'' # ?t" using colon_words [of bs] by auto
  have d: "read6 junk ?t (at6 (flat as) None 0 False tok) = from6_finish (at6 (flat as @ flat bs) (Some (length (flat as))) 0 False [])" for tok
    using assms by (intro read6_double) simp
  show ?thesis
  proof (cases as)
    case Nil
    have "ipv6_addr_from_str junk (CHR '':'' # ?t) = read6 junk ?t (at6 [] None 0 False (CHR '':'' # ?t))"
      using from_str_double [of junk "words_text bs"] t by simp
    then show ?thesis using d t Nil by simp
  next
    case (Cons g gs)
    obtain h l where g: "g = (h, l)" by fastforce
    show ?thesis unfolding t Cons g using read6_flush [of "[]" gs junk ?t None h l] d [of ?t] assms
      by (simp add: from_str_word Cons g)
  qed
qed

text \<open>
  (C38) A double colon that stands for no zeros is not rejected and destroys the address: whenever the words before and behind a
  double colon are eight together, as in \<open>1::2:3:4:5:6:7:8\<close>, every byte behind the double colon is moved to where it already is and then cleared,
  and the text is read as if nothing stood behind the double colon. A colon behind eight words is not rejected
  either: the text is read as without it.
\<close>
theorem ipv6_double_colon_loses_words:
  assumes "length as + length bs = 8" and "length ws = 8"
  shows "ipv6_addr_from_str junk (words_text as @ ''::'' @ words_text bs) = Some (True, flat as @ replicate (2 * length bs) 0) \<and>
    ipv6_addr_from_str junk (words_text as @ ''::'' @ words_text bs) = ipv6_addr_from_str junk (words_text as @ ''::'') \<and>
    ipv6_addr_from_str junk (words_text ws @ '':'') = Some (True, flat ws) \<and>
    ipv6_addr_from_str junk (words_text ws) = Some (True, flat ws)"
proof (intro conjI)
  have l: "length (flat as) + length (flat bs) = 16" using assms(1) by simp
  show r: "ipv6_addr_from_str junk (words_text as @ ''::'' @ words_text bs) = Some (True, flat as @ replicate (2 * length bs) 0)"
    using from_str_double_colon [of as bs junk] from6_finish_clears [OF l] assms(1) by simp
  have "ipv6_addr_from_str junk (words_text as @ ''::'') = Some (True, flat as @ replicate (2 * length bs) 0)"
  proof (cases bs)
    case Nil
    then show ?thesis using r by simp
  next
    case (Cons b bs')
    have "16 - length (flat as) = 2 * length bs" using assms(1) by simp
    then show ?thesis
      using from_str_double_colon [of as "[]" junk] from6_finish_double [of "flat as" "[]" 0 "[]"] assms(1) Cons by (simp del: replicate_Suc)
  qed
  with r show "ipv6_addr_from_str junk (words_text as @ ''::'' @ words_text bs) = ipv6_addr_from_str junk (words_text as @ ''::'')"
    by simp
  obtain h l gs where ws: "ws = (h, l) # gs" using assms(2) by (cases ws) auto
  then have n: "length ([] :: u8 list) + 2 * length gs + 2 \<le> 16" using assms(2) by simp
  have f: "from6_finish (at6 (flat ws) None 0 False tok) = Some (True, flat ws)" for tok
    using assms(2) by (intro from6_finish_full) simp
  have "read6 junk [] (at6 (flat ws) None 0 False []) = Some (True, flat ws)" using f by (simp add: read6_def)
  then show "ipv6_addr_from_str junk (words_text ws @ '':'') = Some (True, flat ws)"
    using read6_flush [OF n, of junk "[]" None h l] by (simp add: ws from_str_word)
  show "ipv6_addr_from_str junk (words_text ws) = Some (True, flat ws)"
    using read6_words [OF n, of junk None h l] f by (simp add: ws from_str_word)
qed

theorem ipv6_double_colon_loses_words_witness:
  "ipv6_addr_from_str [0, 0, 0] ''1::2:3:4:5:6:7:8'' = Some (True, [0, 1, 0, 0, 0, 0, 0, 0, 0, 0, 0, 0, 0, 0, 0, 0])"
proof -
  have t: "words_text [(0, 1)] @ ''::'' @ words_text (map (Pair 0) [2, 3, 4, 5, 6, 7, 8]) = ''1::2:3:4:5:6:7:8''" by code_simp
  show ?thesis using ipv6_double_colon_loses_words [of "[(0, 1)]" "map (Pair 0) [2, 3, 4, 5, 6, 7, 8]" "map (Pair 0) [1, 2, 3, 4, 5, 6, 7, 8]" "[0, 0, 0]"]
    unfolding t by (simp add: eval_nat_numeral)
qed

end
