(* ===== verification/Ip_Prefix.thy ===== *)
theory Ip_Prefix
  imports Riot_Prelude
begin

text \<open>
  IPv6 addresses as bits (sys/net/network_layer/ipv6/addr/ipv6_addr.c, sys/include/net/ipv6/addr.h): comparing prefixes, setting a prefix or an interface identifier, and the setters and
  tests for special addresses. An address is the list of its 16 bytes; \<open>abit\<close> numbers its bits from the left, as prefixes do. Reading the number behind a separator (\<open>atoi\<close>) and printing are not modelled.
\<close>

section \<open>The program\<close>

fun match_bits :: "nat \<Rightarrow> u8 \<Rightarrow> nat \<Rightarrow> nat" where
  "match_bits 0 x prefix_len = prefix_len"
| "match_bits (Suc n) x prefix_len = (if x AND 0x80 = 0 then match_bits n (push_bit 1 x) (prefix_len + 1) else prefix_len)"

text \<open>The loop over the bytes, from byte \<open>i\<close> on.\<close>

fun match_loop :: "u8 list \<Rightarrow> u8 list \<Rightarrow> nat \<Rightarrow> nat" where
  "match_loop (x # a) (y # b) prefix_len = (if x = y then match_loop a b (prefix_len + 8) else match_bits 8 (x XOR y) prefix_len)"
| "match_loop _ _ prefix_len = prefix_len"

text \<open>\<open>same\<close> says that both arguments are one pointer; the pointer NULL is \<open>None\<close>.\<close>

definition ipv6_addr_match_prefix :: "bool \<Rightarrow> u8 list option \<Rightarrow> u8 list option \<Rightarrow> nat" where
  "ipv6_addr_match_prefix same a b =
     (case (a, b) of
        (Some a, Some b) \<Rightarrow> if same then 128 else match_loop a b 0
      | _ \<Rightarrow> 0)"

definition ipv6_addr_equal :: "u8 list \<Rightarrow> u8 list \<Rightarrow> bool" where
  "ipv6_addr_equal a b \<longleftrightarrow> take 8 a = take 8 b \<and> drop 8 a = drop 8 b"

definition ipv6_addr_init_prefix :: "u8 list \<Rightarrow> u8 list \<Rightarrow> u8 \<Rightarrow> u8 list" where
  "ipv6_addr_init_prefix out prefix bits =
     (let bits = min (unat bits) 128;
          bytes = bits div 8;
          out = take bytes prefix @ drop bytes out
      in if bits mod 8 \<noteq> 0 then
           (let mask = push_bit (8 - (bits - bytes * 8)) 0xff
            in out[bytes := (out ! bytes AND NOT mask) OR (prefix ! bytes AND mask)])
         else out)"

definition ipv6_addr_init_iid :: "u8 list \<Rightarrow> u8 list \<Rightarrow> u8 \<Rightarrow> u8 list" where
  "ipv6_addr_init_iid out iid bits =
     (let bits = min (unat bits) 128;
          unaligned_bits = bits mod 8;
          bytes = bits div 8;
          pos = 16 - bytes;
          (out, iid) =
            (if unaligned_bits \<noteq> 0 then
               (let mask = push_bit unaligned_bits 0xff
                in (out[pos - 1 := (out ! (pos - 1) AND mask) OR (hd iid AND NOT mask)], tl iid))
             else (out, iid))
      in take pos out @ take bytes iid)"

text \<open>
  \<open>ipv6_addr_split_str\<close> replaces a separator by the end of the text and gives the text behind it, if there is any: the result is the text that is left and the text behind. The search begins at
  the second character, which for the empty text lies behind its end (\<open>None\<close>).
\<close>

fun split_loop :: "char \<Rightarrow> string \<Rightarrow> string \<times> string option" where
  "split_loop separator [] = ([], None)"
| "split_loop separator (c # cs) =
     (if c = separator then ([], if cs = [] then None else Some cs)
      else (let (pre, post) = split_loop separator cs in (c # pre, post)))"

definition ipv6_addr_split_str :: "string \<Rightarrow> char \<Rightarrow> (string \<times> string option) option" where
  "ipv6_addr_split_str addr_str separator =
     (case addr_str of
        [] \<Rightarrow> None
      | c # cs \<Rightarrow> let (pre, post) = split_loop separator cs in Some (c # pre, post))"

definition ipv6_addr_split_iface :: "string \<Rightarrow> (string \<times> string option) option" where
  "ipv6_addr_split_iface addr_str = ipv6_addr_split_str addr_str CHR ''%''"

subsection \<open>Special addresses\<close>

definition ipv6_addr_unspecified :: "u8 list" where "ipv6_addr_unspecified = replicate 16 0"
definition ipv6_addr_loopback :: "u8 list" where "ipv6_addr_loopback = replicate 15 0 @ [1]"
definition ipv6_addr_link_local_prefix :: "u8 list" where "ipv6_addr_link_local_prefix = [0xfe, 0x80] @ replicate 14 0"
definition ipv6_addr_solicited_node_prefix :: "u8 list" where "ipv6_addr_solicited_node_prefix = [0xff, 0x02] @ replicate 9 0 @ [0x01, 0xff, 0, 0, 0]"
definition ipv6_addr_all_nodes_if_local :: "u8 list" where "ipv6_addr_all_nodes_if_local = [0xff, 0x01] @ replicate 13 0 @ [0x01]"
definition ipv6_addr_all_routers_if_local :: "u8 list" where "ipv6_addr_all_routers_if_local = [0xff, 0x01] @ replicate 13 0 @ [0x02]"

text \<open>\<open>memcmp a b n = 0\<close>.\<close>

definition same_bytes :: "u8 list \<Rightarrow> u8 list \<Rightarrow> nat \<Rightarrow> bool" where
  "same_bytes a b n \<longleftrightarrow> take n a = take n b"

definition ipv6_addr_is_unspecified :: "u8 list \<Rightarrow> bool" where
  "ipv6_addr_is_unspecified a \<longleftrightarrow> same_bytes a ipv6_addr_unspecified 16"

definition ipv6_addr_is_loopback :: "u8 list \<Rightarrow> bool" where
  "ipv6_addr_is_loopback a \<longleftrightarrow> same_bytes a ipv6_addr_loopback 16"

definition ipv6_addr_is_ipv4_compat :: "u8 list \<Rightarrow> bool" where
  "ipv6_addr_is_ipv4_compat a \<longleftrightarrow> same_bytes a ipv6_addr_unspecified (16 - 4)"

definition ipv6_addr_is_ipv4_mapped :: "u8 list \<Rightarrow> bool" where
  "ipv6_addr_is_ipv4_mapped a \<longleftrightarrow> same_bytes a ipv6_addr_unspecified (16 - 4 - 2) \<and> a ! 10 = 0xff \<and> a ! 11 = 0xff"

definition ipv6_addr_is_multicast :: "u8 list \<Rightarrow> bool" where
  "ipv6_addr_is_multicast a \<longleftrightarrow> a ! 0 = 0xff"

definition ipv6_addr_is_link_local :: "u8 list \<Rightarrow> bool" where
  "ipv6_addr_is_link_local a \<longleftrightarrow> same_bytes a ipv6_addr_link_local_prefix 8 \<or> ipv6_addr_is_multicast a \<and> a ! 1 AND 0x0f = 0x2"

definition ipv6_addr_is_site_local :: "u8 list \<Rightarrow> bool" where
  "ipv6_addr_is_site_local a \<longleftrightarrow>
     (push_bit 8 (ucast (a ! 0)) OR ucast (a ! 1) :: u16) AND 0xffc0 = 0xfec0 \<or> ipv6_addr_is_multicast a \<and> a ! 1 AND 0x0f = 0x5"

definition ipv6_addr_is_unique_local_unicast :: "u8 list \<Rightarrow> bool" where
  "ipv6_addr_is_unique_local_unicast a \<longleftrightarrow> a ! 0 = 0xfc \<or> a ! 0 = 0xfd"

definition ipv6_addr_is_global :: "u8 list \<Rightarrow> bool" where
  "ipv6_addr_is_global a \<longleftrightarrow>
     (if ipv6_addr_is_multicast a then a ! 1 AND 0x0f = 0xe
      else \<not> (ipv6_addr_is_link_local a \<or> ipv6_addr_is_unspecified a \<or> ipv6_addr_is_loopback a))"

definition ipv6_addr_is_solicited_node :: "u8 list \<Rightarrow> bool" where
  "ipv6_addr_is_solicited_node a \<longleftrightarrow> same_bytes a ipv6_addr_solicited_node_prefix (16 - 3)"

definition ipv6_addr_set_loopback :: "u8 list" where
  "ipv6_addr_set_loopback = (replicate 16 0)[15 := 1]"

definition ipv6_addr_set_link_local_prefix :: "u8 list \<Rightarrow> u8 list" where
  "ipv6_addr_set_link_local_prefix a = take 8 ipv6_addr_link_local_prefix @ drop 8 a"

definition ipv6_addr_set_iid :: "u8 list \<Rightarrow> u64 \<Rightarrow> u8 list" where
  "ipv6_addr_set_iid a iid = take 8 a @ map (\<lambda>i. ucast (drop_bit (56 - 8 * i) iid)) [0..<8]"

definition ipv6_addr_set_aiid :: "u8 list \<Rightarrow> u8 list \<Rightarrow> u8 list" where
  "ipv6_addr_set_aiid a iid = take 8 a @ take 8 iid"

definition ipv6_addr_set_multicast :: "u8 list \<Rightarrow> u32 \<Rightarrow> u32 \<Rightarrow> u8 list" where
  "ipv6_addr_set_multicast a flags scope = a[0 := 0xff, 1 := push_bit 4 (ucast flags) OR (ucast scope AND 0x0f)]"

definition ipv6_addr_set_all_nodes_multicast :: "u32 \<Rightarrow> u8 list" where
  "ipv6_addr_set_all_nodes_multicast scope = ipv6_addr_all_nodes_if_local[1 := ucast scope]"

definition ipv6_addr_set_all_routers_multicast :: "u32 \<Rightarrow> u8 list" where
  "ipv6_addr_set_all_routers_multicast scope = ipv6_addr_all_routers_if_local[1 := ucast scope]"

definition ipv6_addr_set_solicited_nodes :: "u8 list \<Rightarrow> u8 list" where
  "ipv6_addr_set_solicited_nodes a = [0xff, 0x02, 0, 0, 0, 0, 0, 0] @ [0, 0, 0, 1] @ [0xff, a ! 13, a ! 14, a ! 15]"

section \<open>Bits\<close>

definition abit :: "u8 list \<Rightarrow> nat \<Rightarrow> bool" where
  "abit a i = bit (a ! (i div 8)) (7 - i mod 8)"

lemma byte_top_bit: "(x AND 0x80 = 0) = (\<not> bit x 7)" for x :: u8
proof -
  have "(0x80 :: u8) = 2 ^ 7" by simp
  then show ?thesis using and_exp_eq_0_iff_not_bit [of x 7] by simp
qed

lemma match_bits_spec:
  assumes "\<exists>k<n. bit x (7 - k)" "n \<le> 8"
  shows "\<exists>k<n. match_bits n x p = p + k \<and> bit x (7 - k) \<and> (\<forall>j<k. \<not> bit x (7 - j))"
  using assms
proof (induction n arbitrary: x p)
  case (Suc n)
  show ?case
  proof (cases "bit x 7")
    case True
    then show ?thesis by (intro exI [of _ 0]) (simp add: byte_top_bit)
  next
    case False
    obtain k where k: "k < Suc n" "bit x (7 - k)" using Suc.prems by blast
    then obtain k' where k': "k = Suc k'" using False by (cases k) auto
    have sh: "bit (push_bit 1 x) (7 - j) = bit x (7 - Suc j)" if "j < 7" for j
      using that by (simp only: bit_push_bit_iff possible_bit_word) auto
    have "bit (push_bit 1 x) (7 - k')" using sh [of k'] k k' Suc.prems(2) by simp
    then obtain m where m: "m < n" "match_bits n (push_bit 1 x) (p + 1) = p + 1 + m" "bit (push_bit 1 x) (7 - m)" "\<forall>j<m. \<not> bit (push_bit 1 x) (7 - j)"
      using Suc.IH [of "push_bit 1 x" "p + 1"] k k' Suc.prems(2) by auto
    have "\<not> bit x (7 - j)" if "j < Suc m" for j
    proof (cases j)
      case (Suc i)
      then show ?thesis using m(1,4) sh [of i] that Suc.prems(2) by simp
    qed (use False in simp)
    moreover have "bit x (7 - Suc m)" using m(1,3) sh [of m] Suc.prems(2) by simp
    ultimately show ?thesis using m(1,2) False by (intro exI [of _ "Suc m"]) (simp add: byte_top_bit)
  qed
qed simp

lemma abit_Cons: "abit (x # a) i = (if i < 8 then bit x (7 - i) else abit a (i - 8))"
proof (cases "i < 8")
  case False
  then have "i div 8 = Suc ((i - 8) div 8)" "i mod 8 = (i - 8) mod 8" by (auto simp: le_div_geq le_mod_geq)
  then show ?thesis using False by (simp add: abit_def)
qed (simp add: abit_def)

lemma u8_differ: "x \<noteq> y \<Longrightarrow> \<exists>k<8. bit (x XOR y) (7 - k)" for x y :: u8
proof -
  assume "x \<noteq> y"
  then obtain n where "n < 8" "bit x n \<noteq> bit y n" by (auto simp: bit_eq_iff possible_bit_def)
  then show ?thesis by (intro exI [of _ "7 - n"]) (auto simp: bit_simps)
qed

lemma match_loop_spec:
  assumes "length a = length b"
  shows "\<exists>k\<le>8 * length a. match_loop a b p = p + k \<and> (\<forall>i<k. abit a i = abit b i) \<and> (k < 8 * length a \<longrightarrow> abit a k \<noteq> abit b k)"
  using assms
proof (induction a b p rule: match_loop.induct)
  case (1 x a y b p)
  show ?case
  proof (cases "x = y")
    case True
    then obtain k where k: "k \<le> 8 * length a" "match_loop a b (p + 8) = p + 8 + k" "\<forall>i<k. abit a i = abit b i" "k < 8 * length a \<longrightarrow> abit a k \<noteq> abit b k"
      using 1 by auto
    then show ?thesis using True by (intro exI [of _ "k + 8"]) (auto simp: abit_Cons)
  next
    case False
    obtain k where k: "k < 8" "match_bits 8 (x XOR y) p = p + k" "bit (x XOR y) (7 - k)" "\<forall>j<k. \<not> bit (x XOR y) (7 - j)"
      using match_bits_spec [OF u8_differ [OF False]] by blast
    then show ?thesis using False by (intro exI [of _ k]) (auto simp: abit_Cons bit_simps simp del: match_bits.simps)
  qed
qed (auto simp: abit_def)

text \<open>
  (C27) Comparing two IPv6 addresses gives the length of their longest common prefix: all bits before it agree, and unless it is all of the 128 bits, the next one differs. If one of the
  pointers is NULL the result is 0.
\<close>
theorem ipv6_match_prefix_longest:
  assumes "length a = 16" "length b = 16" "same \<longrightarrow> a = b" "n = ipv6_addr_match_prefix same (Some a) (Some b)"
  shows "n \<le> 128 \<and> (\<forall>i < n. abit a i = abit b i) \<and> (n < 128 \<longrightarrow> abit a n \<noteq> abit b n) \<and>
    ipv6_addr_match_prefix same' None p = 0 \<and> ipv6_addr_match_prefix same' p None = 0"
proof -
  have "n \<le> 128 \<and> (\<forall>i < n. abit a i = abit b i) \<and> (n < 128 \<longrightarrow> abit a n \<noteq> abit b n)"
  proof (cases same)
    case True
    then show ?thesis using assms(3,4) by (simp add: ipv6_addr_match_prefix_def)
  next
    case False
    then show ?thesis using match_loop_spec [of a b 0] assms(1,2,4) by (auto simp: ipv6_addr_match_prefix_def)
  qed
  then show ?thesis by (simp add: ipv6_addr_match_prefix_def split: option.split)
qed

theorem ipv6_match_prefix_longest_witness:
  "abit (replicate 7 1 @ [4] @ replicate 8 1) 59 = abit (replicate 7 1 @ [8] @ replicate 8 1) 59 \<and>
   ipv6_addr_match_prefix False (Some (replicate 7 1 @ [4] @ replicate 8 1)) (Some (replicate 7 1 @ [8] @ replicate 8 1)) = 60"
proof -
  let ?a = "replicate 7 1 @ [4] @ replicate 8 1 :: u8 list" and ?b = "replicate 7 1 @ [8] @ replicate 8 1 :: u8 list"
  have "60 = ipv6_addr_match_prefix False (Some ?a) (Some ?b)" by code_simp
  then show ?thesis using ipv6_match_prefix_longest [of ?a ?b False 60] by simp
qed

section \<open>Prefixes and identifiers\<close>

lemma mask_bits: "m \<le> 8 \<Longrightarrow> n < 8 \<Longrightarrow> bit (push_bit m 0xff :: u8) n = (m \<le> n)"
proof -
  have m: "(0xff :: u8) = mask 8" by (simp add: mask_eq_decr_exp)
  show "m \<le> 8 \<Longrightarrow> n < 8 \<Longrightarrow> bit (push_bit m 0xff :: u8) n = (m \<le> n)" unfolding m by (auto simp: bit_simps)
qed

lemma init_prefix_bits:
  assumes "length out = 16" "length prefix = 16" "i < 128"
  shows "abit (ipv6_addr_init_prefix out prefix bits) i = abit (if i < unat bits then prefix else out) i"
proof -
  define n where "n = min (unat bits) 128"
  define k where "k = n div 8"
  let ?out = "take k prefix @ drop k out" and ?mask = "push_bit (8 - (n - k * 8)) 0xff :: u8"
  have n: "(i < unat bits) = (i < n)" "n \<le> 128" "k \<le> 16" using assms(3) by (auto simp: n_def k_def)
  have r: "n - k * 8 = n mod 8" by (simp add: k_def minus_div_mult_eq_mod)
  have o: "?out ! j = (if j < k then prefix ! j else out ! j)" if "j < 16" for j
    using that assms(1,2) n(3) by (auto simp: nth_append min_def)
  have j: "i div 8 < 16" using assms(3) by simp
  have e: "ipv6_addr_init_prefix out prefix bits = (if n mod 8 \<noteq> 0 then ?out[k := (?out ! k AND NOT ?mask) OR (prefix ! k AND ?mask)] else ?out)"
    by (simp add: ipv6_addr_init_prefix_def n_def k_def Let_def)
  show ?thesis
  proof (cases "i div 8 = k \<and> n mod 8 \<noteq> 0")
    case True
    have k16: "k < 16" "length ?out = 16" using True j assms(1,2) n(3) by auto
    have "bit ?mask (7 - i mod 8) = (8 - n mod 8 \<le> 7 - i mod 8)" unfolding r by (rule mask_bits) auto
    also have "\<dots> = (i mod 8 < n mod 8)" using mod_less_divisor [of 8 i] mod_less_divisor [of 8 n] by linarith
    also have "\<dots> = (i < n)" using True by (metis div_mult_mod_eq k_def nat_add_left_cancel_less)
    finally have b: "bit ?mask (7 - i mod 8) = (i < n)" .
    have "abit (ipv6_addr_init_prefix out prefix bits) i = bit ((out ! k AND NOT ?mask) OR (prefix ! k AND ?mask)) (7 - i mod 8)"
      using True k16 o [of k] by (simp add: abit_def e)
    also have "\<dots> = abit (if i < n then prefix else out) i" using b True by (auto simp: abit_def bit_simps)
    finally show ?thesis by (simp add: n(1))
  next
    case False
    then have "ipv6_addr_init_prefix out prefix bits ! (i div 8) = ?out ! (i div 8)" by (auto simp: e)
    moreover have "(i div 8 < k) = (i < n)" 
    proof -
      have "n = k * 8 + n mod 8" "i = i div 8 * 8 + i mod 8" "n mod 8 < 8" "i mod 8 < 8" by (simp_all add: k_def)
      then show ?thesis using False by linarith
    qed
    ultimately show ?thesis using o [OF j] by (simp add: abit_def n(1))
  qed
qed

lemma abit_append: "abit (xs @ ys) i = (if i < 8 * length xs then abit xs i else abit ys (i - 8 * length xs))"
proof (induction xs arbitrary: i)
  case (Cons x xs)
  show ?case using Cons [of "i - 8"] by (auto simp: abit_Cons)
qed simp

lemma abit_take: "i < 8 * n \<Longrightarrow> abit (take n xs) i = abit xs i"
  by (simp add: abit_def less_mult_imp_div_less mult.commute)

text \<open>The identifier is given in as many bytes as its bits need, with the surplus bits in front.\<close>

lemma init_iid_bits:
  assumes "length out = 16" "length iid = (min (unat bits) 128 + 7) div 8" "i < 128"
  shows "abit (ipv6_addr_init_iid out iid bits) i =
    (if i < 128 - min (unat bits) 128 then abit out i else abit iid (i - (128 - 8 * length iid)))"
proof -
  define n where "n = min (unat bits) 128"
  define k where "k = n div 8"
  have n: "n \<le> 128" "k \<le> 16" "n = k * 8 + n mod 8" "n mod 8 < 8" by (auto simp: n_def k_def)
  have len: "length iid = (if n mod 8 = 0 then k else k + 1)" using assms(2) n(3,4) by (auto simp: n_def [symmetric])
  show ?thesis
  proof (cases "n mod 8 = 0")
    case True
    have e: "ipv6_addr_init_iid out iid bits = take (16 - k) out @ iid"
      using True len by (simp add: ipv6_addr_init_iid_def n_def [symmetric] k_def [symmetric] Let_def)
    have "8 * (16 - k) = 128 - n" "8 * length iid = n" using n True len by simp_all
    then show ?thesis using assms(1) abit_take [of i "16 - k" out] by (simp add: e abit_append n_def [symmetric])
  next
    case False
    let ?u = "n mod 8" and ?p = "15 - k"
    let ?v = "(out ! ?p AND push_bit ?u 0xff) OR (hd iid AND NOT (push_bit ?u 0xff))"
    have k: "k < 16" using n False by linarith
    obtain x ys where iid: "iid = x # ys" "length ys = k" using len False by (cases iid) auto
    have "take (16 - k) (out[?p := ?v]) = take ?p out @ [?v]"
      using assms(1) k take_Suc_conv_app_nth [of ?p "out[?p := ?v]"] by (simp add: Suc_diff_le [symmetric])
    then have e: "ipv6_addr_init_iid out iid bits = take ?p out @ ?v # ys"
      using False iid k by (simp add: ipv6_addr_init_iid_def n_def [symmetric] k_def [symmetric] Let_def)
    have p: "8 * ?p + 8 - ?u = 128 - n" "128 - 8 * length iid = 8 * ?p" "0 < ?u" "?u < 8" using n k False iid by simp_all
    show ?thesis
    proof (cases "i < 8 * ?p")
      case True
      then have "i < 128 - n" using p by linarith
      moreover have "length (take ?p out) = ?p" using assms(1) by simp
      ultimately show ?thesis using True abit_take [of i ?p out] by (simp only: e abit_append n_def [symmetric] if_True)
    next
      case ge: False
      define m where "m = i - 8 * ?p"
      have i: "i = 8 * ?p + m" "\<not> i < 8 * length (take ?p out)" "i - 8 * length (take ?p out) = m" using ge assms(1) by (auto simp: m_def)
      have v: "bit ?v (7 - m) = (if m < 8 - ?u then bit (out ! ?p) (7 - m) else bit x (7 - m))" if "m < 8"
      proof -
        have "bit (push_bit ?u 0xff :: u8) (7 - m) = (?u \<le> 7 - m)" using p(4) by (intro mask_bits) simp_all
        also have "\<dots> = (m < 8 - ?u)" using that p(4) by linarith
        finally show ?thesis using iid(1) by (simp only: bit_or_iff bit_and_iff bit_not_iff_eq list.sel possible_bit_word) auto
      qed
      have a: "abit out i = bit (out ! ?p) (7 - m)" if "m < 8" using that i(1) by (simp add: abit_def)
      have lt: "(i < 128 - n) = (m < 8 - ?u)" using i(1) p(1,4) by linarith
      have "abit (?v # ys) m = (if i < 128 - n then abit out i else abit iid m)"
      proof (cases "m < 8")
        case True
        then show ?thesis using v a by (simp only: abit_Cons if_True lt iid(1))
      next
        case False
        then have "\<not> m < 8 - ?u" by linarith
        then show ?thesis using False by (simp only: abit_Cons if_False lt iid(1))
      qed
      then show ?thesis using i p(2) by (simp add: e abit_append n_def [symmetric])
    qed
  qed
qed

section \<open>Special addresses pass their tests\<close>

lemmas addr_consts = ipv6_addr_unspecified_def ipv6_addr_loopback_def ipv6_addr_link_local_prefix_def ipv6_addr_solicited_node_prefix_def
  ipv6_addr_all_nodes_if_local_def ipv6_addr_all_routers_if_local_def same_bytes_def numeral_eq_Suc

lemma setters_pass_tests:
  assumes "length a = 16"
  shows "ipv6_addr_is_loopback ipv6_addr_set_loopback"
    "ipv6_addr_is_link_local (ipv6_addr_set_link_local_prefix a)"
    "ipv6_addr_is_multicast (ipv6_addr_set_multicast a flags scope)"
    "ipv6_addr_is_multicast (ipv6_addr_set_all_nodes_multicast scope)"
    "ipv6_addr_is_solicited_node (ipv6_addr_set_solicited_nodes a)"
    "ipv6_addr_is_link_local (ipv6_addr_set_solicited_nodes a)"
  using assms
  by (auto simp: ipv6_addr_is_loopback_def ipv6_addr_set_loopback_def ipv6_addr_is_link_local_def ipv6_addr_set_link_local_prefix_def ipv6_addr_is_multicast_def
      ipv6_addr_set_multicast_def ipv6_addr_set_all_nodes_multicast_def ipv6_addr_is_solicited_node_def ipv6_addr_set_solicited_nodes_def addr_consts)

text \<open>The classes of unicast addresses exclude each other, and a global address is in none of them.\<close>

lemma same_bytes_first: "same_bytes a b n \<Longrightarrow> 0 < n \<Longrightarrow> a ! 0 = b ! 0"
  unfolding same_bytes_def by (metis nth_take)

lemma global_excludes: "ipv6_addr_is_global a \<Longrightarrow> \<not> ipv6_addr_is_unspecified a \<and> \<not> ipv6_addr_is_loopback a \<and> \<not> ipv6_addr_is_link_local a"
  using same_bytes_first [of a ipv6_addr_unspecified 16] same_bytes_first [of a ipv6_addr_loopback 16] same_bytes_first [of a ipv6_addr_link_local_prefix 8]
  by (auto simp: ipv6_addr_is_global_def ipv6_addr_is_unspecified_def ipv6_addr_is_loopback_def ipv6_addr_is_link_local_def ipv6_addr_is_multicast_def
      ipv6_addr_unspecified_def ipv6_addr_loopback_def ipv6_addr_link_local_prefix_def nth_append split: if_splits)

section \<open>Splitting\<close>

lemma split_loop_at: "separator \<notin> set pre \<Longrightarrow> split_loop separator (pre @ separator # post) = (pre, if post = [] then None else Some post)"
  by (induction pre) auto

lemma split_loop_none: "separator \<notin> set cs \<Longrightarrow> split_loop separator cs = (cs, None)"
  by (induction cs) auto

lemma ipv6_addr_split_str_at:
  "separator \<notin> set pre \<Longrightarrow> ipv6_addr_split_str (c # pre @ separator # post) separator = Some (c # pre, if post = [] then None else Some post)"
  "separator \<notin> set pre \<Longrightarrow> ipv6_addr_split_str (c # pre) separator = Some (c # pre, None)"
  by (simp_all add: ipv6_addr_split_str_def split_loop_at split_loop_none)

end
