(* ===== verification/Pktbuf.thy ===== *)
theory Pktbuf
  imports Riot_Prelude
begin

text \<open>
  The packet buffer of the network stack (sys/net/gnrc/pktbuf_static/gnrc_pktbuf_static.c,
  sys/net/gnrc/pktbuf/gnrc_pktbuf.c and the packet functions of net/gnrc/pkt.h): a first-fit
  allocator whose free list lives inside the buffer, and reference-counted packet snips.

  Addresses are offsets from \<open>_pktbuf\<close>. The buffer is a memory of slots: a byte, or the
  first byte of an object written through a struct pointer, which carries the whole object (the
  other bytes of it hold no value of their own). Reading a struct where none was written is an
  error, \<open>None\<close>, like a failed assertion and a loop that never ends. \<open>size_t\<close> has 32 bits.
  The default build is modelled (without \<open>DEVELHELP\<close> and \<open>MODULE_GNRC_NETERR\<close>). Every
  operation holds the mutex of the buffer from its first to its last access, so operations are atomic.
\<close>

section \<open>Data\<close>

datatype dptr = DNull | In nat | Out nat

record gnrc_pktsnip =
  snext :: "nat option"
  sdata :: dptr
  ssize :: nat
  susers :: nat
  stype :: int

datatype slot = Byte u8 | Unused "nat option" nat | Snip gnrc_pktsnip | Part

record pktbuf =
  pmem :: "nat \<Rightarrow> slot"
  first_unused :: "nat option"
  outside :: "nat \<Rightarrow> u8"

definition CONFIG_GNRC_PKTBUF_SIZE :: nat where "CONFIG_GNRC_PKTBUF_SIZE = 6144"

definition sizeof_unused :: nat where "sizeof_unused = 8"
definition sizeof_pktsnip :: nat where "sizeof_pktsnip = 20"

lemmas pktbuf_consts = CONFIG_GNRC_PKTBUF_SIZE_def sizeof_unused_def sizeof_pktsnip_def

text \<open>Conversion to \<open>size_t\<close>.\<close>

definition size_t :: "int \<Rightarrow> nat" where
  "size_t i = nat (i mod 2 ^ 32)"

fun pktbuf_contains :: "dptr \<Rightarrow> bool" where
  "pktbuf_contains (In a) \<longleftrightarrow> a < CONFIG_GNRC_PKTBUF_SIZE"
| "pktbuf_contains _ \<longleftrightarrow> False"

definition align :: "nat \<Rightarrow> nat" where
  "align sz = size_t (int sz + 7) div 8 * 8"

section \<open>Struct accesses\<close>

definition put_obj :: "nat \<Rightarrow> nat \<Rightarrow> slot \<Rightarrow> (nat \<Rightarrow> slot) \<Rightarrow> nat \<Rightarrow> slot" where
  "put_obj a len obj m = (\<lambda>x. if x = a then obj else if a < x \<and> x < a + len then Part else m x)"

definition get_unused :: "nat \<Rightarrow> (nat \<Rightarrow> slot) \<Rightarrow> (nat option \<times> nat) option" where
  "get_unused a m = (case m a of Unused nx n \<Rightarrow> Some (nx, n) | _ \<Rightarrow> None)"

definition set_next :: "nat \<Rightarrow> nat option \<Rightarrow> (nat \<Rightarrow> slot) \<Rightarrow> (nat \<Rightarrow> slot) option" where
  "set_next a nx m = do { (_, n) \<leftarrow> get_unused a m; Some (m(a := Unused nx n)) }"

definition get_snip :: "nat \<Rightarrow> pktbuf \<Rightarrow> gnrc_pktsnip option" where
  "get_snip a s = (case pmem s a of Snip r \<Rightarrow> Some r | _ \<Rightarrow> None)"

definition upd_snip :: "nat \<Rightarrow> (gnrc_pktsnip \<Rightarrow> gnrc_pktsnip) \<Rightarrow> pktbuf \<Rightarrow> pktbuf option" where
  "upd_snip a f s = do { r \<leftarrow> get_snip a s; Some (s\<lparr>pmem := (pmem s)(a := Snip (f r))\<rparr>) }"

text \<open>The slots a copy reads, and a copy into the buffer.\<close>

fun fetch :: "pktbuf \<Rightarrow> dptr \<Rightarrow> nat \<Rightarrow> slot option" where
  "fetch s (In a) i = Some (pmem s (a + i))"
| "fetch s (Out a) i = Some (Byte (outside s (a + i)))"
| "fetch s DNull i = None"

definition memcpy :: "nat \<Rightarrow> dptr \<Rightarrow> nat \<Rightarrow> pktbuf \<Rightarrow> pktbuf option" where
  "memcpy dst src n s =
     (if n = 0 then Some s
      else do { _ \<leftarrow> fetch s src 0;
                Some (s\<lparr>pmem := (\<lambda>x. if dst \<le> x \<and> x < dst + n then the (fetch s src (x - dst)) else pmem s x)\<rparr>) })"

fun dadd :: "dptr \<Rightarrow> nat \<Rightarrow> dptr" where
  "dadd (In a) n = In (a + n)"
| "dadd (Out a) n = Out (a + n)"
| "dadd DNull n = Out n"

section \<open>The allocator\<close>

partial_function (option) fit_loop ::
  "nat \<Rightarrow> nat option \<Rightarrow> nat option \<Rightarrow> (nat \<Rightarrow> slot) \<Rightarrow> (nat option \<times> nat option) option" where
  "fit_loop sz prev ptr m =
     (case ptr of
        None \<Rightarrow> Some (prev, None)
      | Some p \<Rightarrow>
          do { (nx, n) \<leftarrow> get_unused p m;
               if n < sz then fit_loop sz (Some p) nx m else Some (prev, Some p) })"

definition relink :: "nat option \<Rightarrow> nat option \<Rightarrow> pktbuf \<Rightarrow> pktbuf option" where
  "relink prev nx s =
     (case prev of
        None \<Rightarrow> Some (s\<lparr>first_unused := nx\<rparr>)
      | Some q \<Rightarrow> do { m \<leftarrow> set_next q nx (pmem s); Some (s\<lparr>pmem := m\<rparr>) })"

definition pktbuf_alloc :: "nat \<Rightarrow> pktbuf \<Rightarrow> (nat option \<times> pktbuf) option" where
  "pktbuf_alloc sz s =
     do { let sz = align sz;
          (prev, ptr) \<leftarrow> fit_loop sz None (first_unused s) (pmem s);
          case ptr of
            None \<Rightarrow> Some (None, s)
          | Some p \<Rightarrow>
              do { (nx, n) \<leftarrow> get_unused p (pmem s);
                   s \<leftarrow> (if sizeof_unused > n - sz then relink prev nx s
                        else
                          do { let new = p + sz;
                               s \<leftarrow> (if new + sizeof_unused > CONFIG_GNRC_PKTBUF_SIZE then Some (s\<lparr>first_unused := None\<rparr>)
                                    else relink prev (Some new) s);
                               Some (s\<lparr>pmem := put_obj new sizeof_unused (Unused nx (n - sz)) (pmem s)\<rparr>) });
                   Some (Some p, s) } }"

definition too_small_hole :: "nat \<Rightarrow> nat \<Rightarrow> (nat \<Rightarrow> slot) \<Rightarrow> bool option" where
  "too_small_hole a b m =
     do { (_, n) \<leftarrow> get_unused a m; Some (sizeof_unused > size_t (int b - int (a + n))) }"

definition merge_unused :: "nat \<Rightarrow> nat \<Rightarrow> (nat \<Rightarrow> slot) \<Rightarrow> (nat \<Rightarrow> slot) option" where
  "merge_unused a b m =
     do { _ \<leftarrow> get_unused a m; (nx, n) \<leftarrow> get_unused b m;
          Some (m(a := Unused nx (size_t (int n + (int b - int a))))) }"

partial_function (option) place_loop ::
  "nat \<Rightarrow> nat option \<Rightarrow> nat option \<Rightarrow> (nat \<Rightarrow> slot) \<Rightarrow> (nat option \<times> nat option) option" where
  "place_loop a prev ptr m =
     (case ptr of
        None \<Rightarrow> Some (prev, None)
      | Some p \<Rightarrow>
          if p < a then do { (nx, _) \<leftarrow> get_unused p m; place_loop a (Some p) nx m }
          else Some (prev, ptr))"

text \<open>Joining a free chunk with its successor when nothing fits between them.\<close>

definition join_next :: "nat \<Rightarrow> (nat \<Rightarrow> slot) \<Rightarrow> (nat \<Rightarrow> slot) option" where
  "join_next a m =
     do { (nx, _) \<leftarrow> get_unused a m;
          case nx of
            None \<Rightarrow> Some m
          | Some b \<Rightarrow> do { h \<leftarrow> too_small_hole a b m; if h then merge_unused a b m else Some m } }"

definition pktbuf_free :: "dptr \<Rightarrow> nat \<Rightarrow> pktbuf \<Rightarrow> pktbuf option" where
  "pktbuf_free data sz s =
     (case data of
        In new \<Rightarrow>
          if \<not> pktbuf_contains data then Some s
          else
            do { (prev, ptr) \<leftarrow> place_loop new None (first_unused s) (pmem s);
                 let n = align sz;
                 let bytes_at_end = size_t (int CONFIG_GNRC_PKTBUF_SIZE - int (new + n));
                 let n = (if bytes_at_end < sizeof_unused then size_t (int n + int bytes_at_end) else n);
                 let m = put_obj new sizeof_unused (Unused ptr n) (pmem s);
                 case prev of
                   None \<Rightarrow> do { m \<leftarrow> join_next new m; Some (s\<lparr>pmem := m, first_unused := Some new\<rparr>) }
                 | Some q \<Rightarrow>
                     do { m \<leftarrow> set_next q (Some new) m;
                          h \<leftarrow> too_small_hole q new m;
                          m \<leftarrow> (if h then do { m \<leftarrow> merge_unused q new m; join_next q m } else join_next new m);
                          Some (s\<lparr>pmem := m\<rparr>) } }
      | _ \<Rightarrow> Some s)"

section \<open>Packets\<close>

definition set_pktsnip :: "nat \<Rightarrow> nat option \<Rightarrow> dptr \<Rightarrow> nat \<Rightarrow> int \<Rightarrow> pktbuf \<Rightarrow> pktbuf" where
  "set_pktsnip pkt nx data sz ty s =
     s\<lparr>pmem := put_obj pkt sizeof_pktsnip
        (Snip \<lparr>snext = nx, sdata = data, ssize = sz, susers = 1, stype = ty\<rparr>) (pmem s)\<rparr>"

definition gnrc_pktbuf_init :: "pktbuf \<Rightarrow> pktbuf" where
  "gnrc_pktbuf_init s =
     s\<lparr>first_unused := Some 0,
       pmem := put_obj 0 sizeof_unused (Unused None (CONFIG_GNRC_PKTBUF_SIZE div 4 * 4)) (pmem s)\<rparr>"

definition create_snip :: "nat option \<Rightarrow> dptr \<Rightarrow> nat \<Rightarrow> int \<Rightarrow> pktbuf \<Rightarrow> (nat option \<times> pktbuf) option" where
  "create_snip nx data sz ty s =
     do { (pkt, s) \<leftarrow> pktbuf_alloc sizeof_pktsnip s;
          case pkt of
            None \<Rightarrow> Some (None, s)
          | Some pkt \<Rightarrow>
              if sz > 0 then
                do { (d, s) \<leftarrow> pktbuf_alloc sz s;
                     case d of
                       None \<Rightarrow> do { s \<leftarrow> pktbuf_free (In pkt) sizeof_pktsnip s; Some (None, s) }
                     | Some d \<Rightarrow>
                         do { s \<leftarrow> (if data \<noteq> DNull then memcpy d data sz s else Some s);
                              Some (Some pkt, set_pktsnip pkt nx (In d) sz ty s) } }
              else Some (Some pkt, set_pktsnip pkt nx DNull sz ty s) }"

definition gnrc_pktbuf_add :: "nat option \<Rightarrow> dptr \<Rightarrow> nat \<Rightarrow> int \<Rightarrow> pktbuf \<Rightarrow> (nat option \<times> pktbuf) option" where
  "gnrc_pktbuf_add nx data sz ty s =
     (if sz > CONFIG_GNRC_PKTBUF_SIZE then Some (None, s) else create_snip nx data sz ty s)"

definition gnrc_pktbuf_mark :: "nat option \<Rightarrow> nat \<Rightarrow> int \<Rightarrow> pktbuf \<Rightarrow> (nat option \<times> pktbuf) option" where
  "gnrc_pktbuf_mark pkt sz ty s =
     (if sz = 0 \<or> pkt = None then Some (None, s)
      else
        do { pkt \<leftarrow> pkt;
             r \<leftarrow> get_snip pkt s;
             if sz > ssize r \<or> sdata r = DNull then Some (None, s)
             else
               do { (ms, s) \<leftarrow> pktbuf_alloc sizeof_pktsnip s;
                    case ms of
                      None \<Rightarrow> Some (None, s)
                    | Some marked \<Rightarrow>
                        if ssize r \<noteq> sz \<and> sz < align sz then
                          do { (md, s) \<leftarrow> pktbuf_alloc sz s;
                               case md of
                                 None \<Rightarrow> do { s \<leftarrow> pktbuf_free (In marked) sizeof_pktsnip s; Some (None, s) }
                               | Some new_marked \<Rightarrow>
                                   do { (rd, s) \<leftarrow> pktbuf_alloc (ssize r - sz) s;
                                        case rd of
                                          None \<Rightarrow>
                                            do { s \<leftarrow> pktbuf_free (In marked) sizeof_pktsnip s;
                                                 s \<leftarrow> pktbuf_free (In new_marked) sz s;
                                                 Some (None, s) }
                                        | Some new_rest \<Rightarrow>
                                            do { s \<leftarrow> memcpy new_marked (sdata r) sz s;
                                                 s \<leftarrow> memcpy new_rest (dadd (sdata r) sz) (ssize r - sz) s;
                                                 s \<leftarrow> pktbuf_free (sdata r) (ssize r) s;
                                                 s \<leftarrow> upd_snip pkt (\<lambda>r. r\<lparr>sdata := In new_rest, ssize := ssize r - sz\<rparr>) s;
                                                 let s = set_pktsnip marked (snext r) (In new_marked) sz ty s;
                                                 s \<leftarrow> upd_snip pkt (\<lambda>r. r\<lparr>snext := Some marked\<rparr>) s;
                                                 Some (Some marked, s) } } }
                        else
                          do { s \<leftarrow> upd_snip pkt (\<lambda>r. r\<lparr>sdata := (if ssize r \<noteq> sz then dadd (sdata r) sz else DNull),
                                                        ssize := ssize r - sz\<rparr>) s;
                               let s = set_pktsnip marked (snext r) (sdata r) sz ty s;
                               s \<leftarrow> upd_snip pkt (\<lambda>r. r\<lparr>snext := Some marked\<rparr>) s;
                               Some (Some marked, s) } } })"

definition ENOMEM :: int where "ENOMEM = 12"

definition gnrc_pktbuf_realloc_data :: "nat \<Rightarrow> nat \<Rightarrow> pktbuf \<Rightarrow> (int \<times> pktbuf) option" where
  "gnrc_pktbuf_realloc_data pkt sz s =
     do { r \<leftarrow> get_snip pkt s;
          if \<not> (ssize r = 0 \<and> sdata r = DNull \<or> ssize r > 0 \<and> sdata r \<noteq> DNull \<and> pktbuf_contains (sdata r)) then None
          else if sz = ssize r then Some (0, s)
          else if sz = 0 \<and> sdata r \<noteq> DNull then
            do { s \<leftarrow> pktbuf_free (sdata r) (ssize r) s;
                 s \<leftarrow> upd_snip pkt (\<lambda>r. r\<lparr>sdata := DNull, ssize := sz\<rparr>) s;
                 Some (0, s) }
          else if sz > ssize r then
            do { (d, s) \<leftarrow> pktbuf_alloc sz s;
                 case d of
                   None \<Rightarrow> Some (ENOMEM, s)
                 | Some new_data \<Rightarrow>
                     do { s \<leftarrow> (if sdata r \<noteq> DNull
                               then memcpy new_data (sdata r) (if ssize r < sz then ssize r else sz) s else Some s);
                          s \<leftarrow> pktbuf_free (sdata r) (ssize r) s;
                          s \<leftarrow> upd_snip pkt (\<lambda>r. r\<lparr>sdata := In new_data, ssize := sz\<rparr>) s;
                          Some (0, s) } }
          else
            do { s \<leftarrow> (if align (ssize r) > align sz
                      then pktbuf_free (dadd (sdata r) (align sz)) (size_t (int (ssize r) - int (align sz))) s else Some s);
                 s \<leftarrow> upd_snip pkt (\<lambda>r. r\<lparr>ssize := sz\<rparr>) s;
                 Some (0, s) } }"

partial_function (option) gnrc_pktbuf_hold :: "nat option \<Rightarrow> nat \<Rightarrow> pktbuf \<Rightarrow> pktbuf option" where
  "gnrc_pktbuf_hold pkt num s =
     (case pkt of
        None \<Rightarrow> Some s
      | Some p \<Rightarrow>
          do { s \<leftarrow> upd_snip p (\<lambda>r. r\<lparr>susers := size_t (int (susers r) + int num)\<rparr>) s;
               r \<leftarrow> get_snip p s;
               gnrc_pktbuf_hold (snext r) num s })"

text \<open>Releasing one snip: the last user gives back its data and the snip itself.\<close>

definition release_snip :: "nat \<Rightarrow> pktbuf \<Rightarrow> pktbuf option" where
  "release_snip p s =
     do { r \<leftarrow> get_snip p s;
          if \<not> pktbuf_contains (In p) \<or> susers r = 0 then None
          else if susers r = 1 then
            do { s \<leftarrow> upd_snip p (\<lambda>r. r\<lparr>susers := 0\<rparr>) s;
                 s \<leftarrow> pktbuf_free (sdata r) (ssize r) s;
                 pktbuf_free (In p) sizeof_pktsnip s }
          else upd_snip p (\<lambda>r. r\<lparr>susers := susers r - 1\<rparr>) s }"

partial_function (option) release_error_locked :: "nat option \<Rightarrow> pktbuf \<Rightarrow> pktbuf option" where
  "release_error_locked pkt s =
     (case pkt of
        None \<Rightarrow> Some s
      | Some p \<Rightarrow>
          do { r \<leftarrow> get_snip p s;
               s \<leftarrow> release_snip p s;
               release_error_locked (snext r) s })"

definition gnrc_pktbuf_release :: "nat option \<Rightarrow> pktbuf \<Rightarrow> pktbuf option" where
  "gnrc_pktbuf_release pkt s = release_error_locked pkt s"

definition gnrc_pktbuf_start_write :: "nat option \<Rightarrow> pktbuf \<Rightarrow> (nat option \<times> pktbuf) option" where
  "gnrc_pktbuf_start_write pkt s =
     (case pkt of
        None \<Rightarrow> Some (None, s)
      | Some p \<Rightarrow>
          do { r \<leftarrow> get_snip p s;
               if susers r > 1 then
                 do { (new, s) \<leftarrow> create_snip (snext r) (sdata r) (ssize r) (stype r) s;
                      s \<leftarrow> (if new \<noteq> None then upd_snip p (\<lambda>r. r\<lparr>susers := susers r - 1\<rparr>) s else Some s);
                      Some (new, s) }
               else Some (pkt, s) })"

definition gnrc_pktbuf_is_empty :: "pktbuf \<Rightarrow> bool option" where
  "gnrc_pktbuf_is_empty s =
     (if first_unused s \<noteq> Some 0 then Some False
      else do { (_, n) \<leftarrow> get_unused 0 (pmem s); Some (n = CONFIG_GNRC_PKTBUF_SIZE div 4 * 4) })"

partial_function (option) is_sane_loop :: "nat option \<Rightarrow> (nat \<Rightarrow> slot) \<Rightarrow> bool option" where
  "is_sane_loop ptr m =
     (case ptr of
        None \<Rightarrow> Some True
      | Some p \<Rightarrow>
          if 0 \<ge> p \<and> p \<ge> CONFIG_GNRC_PKTBUF_SIZE then Some False
          else
            do { (nx, n) \<leftarrow> get_unused p m;
                 if nx \<noteq> None \<and> p \<ge> the nx then Some False
                 else if (nx = None \<or> n > size_t (int (the nx) - int p)) \<and>
                         (nx \<noteq> None \<or> n \<noteq> size_t (int CONFIG_GNRC_PKTBUF_SIZE - int p)) then Some False
                 else is_sane_loop nx m })"

definition gnrc_pktbuf_is_sane :: "pktbuf \<Rightarrow> bool option" where
  "gnrc_pktbuf_is_sane s = is_sane_loop (first_unused s) (pmem s)"

end
