(* ===== verification/Pktbuf_Alloc.thy ===== *)
theory Pktbuf_Alloc
  imports Pktbuf
begin

text \<open>
  The allocator of the packet buffer: its free list is the list of the maximal free intervals, and
  allocating and freeing keep the buffer tiled by free and used chunks.
\<close>

section \<open>Sizes\<close>

lemma size_t_id: "0 \<le> i \<Longrightarrow> i < 2 ^ 32 \<Longrightarrow> size_t i = nat i"
  by (simp add: size_t_def)

lemma size_t_diff: "a \<le> b \<Longrightarrow> b < 2 ^ 32 \<Longrightarrow> size_t (int b - int a) = b - a"
  by (simp add: size_t_id)

lemma align_dvd [simp]: "8 dvd align n"
  by (simp add: align_def)

lemma align_eq: "n < 2 ^ 32 - 7 \<Longrightarrow> align n = (n + 7) div 8 * 8"
  by (simp add: align_def size_t_id nat_add_distrib)

lemma align_ge: "n < 2 ^ 32 - 7 \<Longrightarrow> n \<le> align n"
  by (simp only: align_eq)

lemma align_pos: "0 < n \<Longrightarrow> n < 2 ^ 32 - 7 \<Longrightarrow> 8 \<le> align n"
  by (simp only: align_eq) presburger

lemma align_le: "n \<le> k \<Longrightarrow> 8 dvd k \<Longrightarrow> n < 2 ^ 32 - 7 \<Longrightarrow> align n \<le> k"
  by (simp only: align_eq) presburger

lemma align_lt: "align n < 2 ^ 32"
proof -
  have "size_t (int n + 7) < 2 ^ 32" by (simp add: size_t_def nat_less_iff)
  then show ?thesis unfolding align_def by (meson le_less_trans div_times_less_eq_dividend)
qed

section \<open>The free list in memory\<close>

fun fseg :: "(nat \<Rightarrow> slot) \<Rightarrow> nat option \<Rightarrow> (nat \<times> nat) list \<Rightarrow> nat option \<Rightarrow> bool" where
  "fseg m p [] q \<longleftrightarrow> p = q"
| "fseg m p ((a, n) # fs) q \<longleftrightarrow> p = Some a \<and> (\<exists>nx. m a = Unused nx n \<and> fseg m nx fs q)"

lemma fseg_append: "fseg m p (xs @ ys) q \<longleftrightarrow> (\<exists>r. fseg m p xs r \<and> fseg m r ys q)"
  by (induction m p xs q rule: fseg.induct) auto

lemma fseg_cong: "(\<And>x. x \<in> fst ` set fs \<Longrightarrow> m x = m' x) \<Longrightarrow> fseg m p fs q \<longleftrightarrow> fseg m' p fs q"
  by (induction m p fs q rule: fseg.induct) auto

definition last_addr :: "(nat \<times> nat) list \<Rightarrow> nat option" where
  "last_addr ps = (if ps = [] then None else Some (fst (last ps)))"

definition head_addr :: "(nat \<times> nat) list \<Rightarrow> nat option" where
  "head_addr ps = (if ps = [] then None else Some (fst (hd ps)))"

lemma fit_loop_fseg:
  "fseg m p fs None \<Longrightarrow>
   fit_loop sz prev p m =
     Some (if takeWhile (\<lambda>c. snd c < sz) fs = [] then prev else last_addr (takeWhile (\<lambda>c. snd c < sz) fs),
           head_addr (dropWhile (\<lambda>c. snd c < sz) fs))"
proof (induction fs arbitrary: p prev)
  case (Cons c fs)
  obtain a n nx where c: "c = (a, n)" "p = Some a" "m a = Unused nx n" "fseg m nx fs None"
    using Cons.prems by (cases c) auto
  show ?case
    using c Cons.IH [OF c(4), of "Some a"]
    by (subst fit_loop.simps) (auto simp: get_unused_def last_addr_def head_addr_def)
qed (simp add: fit_loop.simps head_addr_def)

lemma place_loop_fseg:
  "fseg m p fs None \<Longrightarrow>
   place_loop b prev p m =
     Some (if takeWhile (\<lambda>c. fst c < b) fs = [] then prev else last_addr (takeWhile (\<lambda>c. fst c < b) fs),
           head_addr (dropWhile (\<lambda>c. fst c < b) fs))"
proof (induction fs arbitrary: p prev)
  case (Cons c fs)
  obtain a n nx where c: "c = (a, n)" "p = Some a" "m a = Unused nx n" "fseg m nx fs None"
    using Cons.prems by (cases c) auto
  show ?case
    using c Cons.IH [OF c(4), of "Some a"]
    by (subst place_loop.simps) (auto simp: get_unused_def last_addr_def head_addr_def)
qed (simp add: place_loop.simps head_addr_def)

text \<open>Changing where a segment leads: the link of its last chunk.\<close>

lemma fseg_redirect:
  assumes "fseg m p (ps @ [(q, k)]) r" "q \<notin> fst ` set ps"
  shows "m q = Unused r k" "fseg (m(q := Unused nx k)) p (ps @ [(q, k)]) nx"
proof -
  obtain r' where r': "fseg m p ps r'" "r' = Some q" "m q = Unused r k"
    using assms(1) by (auto simp: fseg_append)
  then show "m q = Unused r k" by simp
  have "fseg (m(q := Unused nx k)) p ps r'" using r'(1) assms(2) by (subst fseg_cong [of _ _ m]) auto
  with r'(2) show "fseg (m(q := Unused nx k)) p (ps @ [(q, k)]) nx" by (auto simp: fseg_append)
qed

section \<open>Well-formed free lists\<close>

text \<open>
  Chunks are multiples of eight bytes at multiples of eight, in the order of their addresses, with
  at least eight bytes between them.
\<close>

fun wff :: "nat \<Rightarrow> (nat \<times> nat) list \<Rightarrow> bool" where
  "wff lo [] \<longleftrightarrow> True"
| "wff lo ((a, n) # fs) \<longleftrightarrow> lo \<le> a \<and> 8 dvd a \<and> 8 dvd n \<and> 8 \<le> n \<and> a + n \<le> CONFIG_GNRC_PKTBUF_SIZE \<and> wff (a + n + 8) fs"

definition endp :: "nat \<Rightarrow> (nat \<times> nat) list \<Rightarrow> nat" where
  "endp lo xs = (if xs = [] then lo else fst (last xs) + snd (last xs) + 8)"

definition fbytes :: "(nat \<times> nat) list \<Rightarrow> nat set" where
  "fbytes fs = (\<Union>(a, n)\<in>set fs. {a..<a + n})"

lemma fbytes_simps [simp]:
  "fbytes [] = {}" "fbytes ((a, n) # fs) = {a..<a + n} \<union> fbytes fs" "fbytes (xs @ ys) = fbytes xs \<union> fbytes ys"
  by (auto simp: fbytes_def)

lemma wff_append: "wff lo (xs @ ys) \<longleftrightarrow> wff lo xs \<and> wff (endp lo xs) ys"
proof (induction lo xs rule: wff.induct)
  case (2 lo a n fs)
  then show ?case by (cases "fs = []") (auto simp: endp_def)
qed (simp add: endp_def)

lemma wff_mono: "wff lo fs \<Longrightarrow> lo' \<le> lo \<Longrightarrow> wff lo' fs"
  by (cases fs) auto

lemma fbytes_bounds: "wff lo fs \<Longrightarrow> x \<in> fbytes fs \<Longrightarrow> lo \<le> x \<and> x < CONFIG_GNRC_PKTBUF_SIZE"
  by (induction lo fs rule: wff.induct) auto

lemma endp_Cons [simp]: "endp lo ((a, n) # fs) = endp (a + n + 8) fs"
  by (simp add: endp_def)

lemma endp_ge: "wff lo fs \<Longrightarrow> lo \<le> endp lo fs"
  by (induction lo fs rule: wff.induct) (auto simp: endp_def)

lemma fbytes_endp: "wff lo fs \<Longrightarrow> x \<in> fbytes fs \<Longrightarrow> x + 8 < endp lo fs"
proof (induction lo fs rule: wff.induct)
  case (2 lo a n fs)
  then show ?case using endp_ge [of "a + n + 8" fs] by auto
qed simp

lemma wff_addr_bytes: "wff lo fs \<Longrightarrow> fst ` set fs \<subseteq> fbytes fs"
  by (induction lo fs rule: wff.induct) auto

lemma wff_split_disjoint: "wff lo (xs @ ys) \<Longrightarrow> fbytes xs \<inter> fbytes ys = {}"
  by (auto simp: wff_append) (meson add_lessD1 fbytes_bounds fbytes_endp leD)

lemma fseg_frame:
  "wff lo fs \<Longrightarrow> (\<And>x. x \<in> fbytes fs \<Longrightarrow> m' x = m x) \<Longrightarrow> fseg m p fs q \<Longrightarrow> fseg m' p fs q"
  using fseg_cong [of fs m' m p q] wff_addr_bytes [of lo fs] by blast

lemma wff_last_notin: "wff lo (ps @ [(q, k)]) \<Longrightarrow> q \<notin> fst ` set ps"
  using wff_addr_bytes [of lo ps] fbytes_endp [of lo ps q] by (auto simp: wff_append)

section \<open>Allocation\<close>

lemma relink_seg:
  assumes "fseg (pmem s) (first_unused s) ps r" "wff 0 ps"
  shows "\<exists>s'. relink (if ps = [] then None else last_addr ps) nx s = Some s' \<and>
     fseg (pmem s') (first_unused s') ps nx \<and> (\<forall>x. x \<notin> fbytes ps \<longrightarrow> pmem s' x = pmem s x) \<and> outside s' = outside s"
proof (cases ps rule: rev_cases)
  case Nil
  then show ?thesis by (simp add: relink_def)
next
  case (snoc qs c)
  obtain q k where c: "c = (q, k)" by force
  have "q \<notin> fst ` set qs" using assms(2) snoc c by (auto dest: wff_last_notin)
  note rd = fseg_redirect [OF assms(1) [unfolded snoc c] this]
  have q: "q \<in> fbytes ps" using wff_addr_bytes [OF assms(2)] snoc c by auto
  show ?thesis
    using rd snoc c q
    by (auto simp: relink_def last_addr_def set_next_def get_unused_def)
qed

lemma dvd8_less: "8 dvd (a :: nat) \<Longrightarrow> 8 dvd b \<Longrightarrow> a - b < 8 \<Longrightarrow> b \<le> a \<Longrightarrow> a = b"
  by presburger

text \<open>The free list after an allocation of \<open>sz\<close> bytes from the first chunk that is large enough.\<close>

definition cut :: "nat \<Rightarrow> nat \<times> nat \<Rightarrow> (nat \<times> nat) list" where
  "cut sz c = (if snd c = sz then [] else [(fst c + sz, snd c - sz)])"

lemma takeWhile_dropWhile_split:
  "dropWhile P xs = y # ys \<Longrightarrow> xs = takeWhile P xs @ y # ys \<and> \<not> P y"
  by (metis takeWhile_dropWhile_id dropWhile_eq_Cons_conv)

lemma pktbuf_alloc_none:
  assumes "fseg (pmem s) (first_unused s) fs None" "\<forall>c\<in>set fs. snd c < align sz"
  shows "pktbuf_alloc sz s = Some (None, s)"
proof -
  have "dropWhile (\<lambda>c. snd c < align sz) fs = []" using assms(2) by simp
  then show ?thesis using fit_loop_fseg [OF assms(1), of "align sz" None] by (simp add: pktbuf_alloc_def head_addr_def)
qed

lemma pktbuf_alloc_some:
  assumes fs: "fseg (pmem s) (first_unused s) (ps @ (a, n) # qs) None" "wff 0 (ps @ (a, n) # qs)"
    and first: "\<forall>c\<in>set ps. snd c < align sz" and fits: "align sz \<le> n" and pos: "0 < align sz"
  shows "\<exists>s'. pktbuf_alloc sz s = Some (Some a, s') \<and>
     fseg (pmem s') (first_unused s') (ps @ cut (align sz) (a, n) @ qs) None \<and>
     (\<forall>x. x \<notin> fbytes (ps @ (a, n) # qs) \<longrightarrow> pmem s' x = pmem s x) \<and> outside s' = outside s"
proof -
  let ?z = "align sz" and ?fs = "ps @ (a, n) # qs"
  have w: "wff 0 ps" "endp 0 ps \<le> a" "8 dvd a" "8 dvd n" "8 \<le> n" "a + n \<le> CONFIG_GNRC_PKTBUF_SIZE" "wff (a + n + 8) qs"
    using fs(2) by (auto simp: wff_append)
  have tw: "takeWhile (\<lambda>c. snd c < ?z) ?fs = ps" "dropWhile (\<lambda>c. snd c < ?z) ?fs = (a, n) # qs"
    using first fits by (auto simp: takeWhile_append dropWhile_append)
  have fl: "fit_loop ?z None (first_unused s) (pmem s) = Some (if ps = [] then None else last_addr ps, Some a)"
    using fit_loop_fseg [OF fs(1), of ?z None] unfolding tw by (simp add: head_addr_def)
  obtain nx where m: "fseg (pmem s) (first_unused s) ps (Some a)" "pmem s a = Unused nx n" "fseg (pmem s) nx qs None"
    using fs(1) by (auto simp: fseg_append)
  have dis: "fbytes ps \<inter> {a..<a + n} = {}" "fbytes qs \<inter> {a..<a + n} = {}" "fbytes ps \<inter> fbytes qs = {}"
    using fbytes_endp [OF w(1)] fbytes_bounds [OF w(7)] w(2) by (force, force, force)
  show ?thesis
  proof (cases "n = ?z")
    case True
    obtain s' where s': "relink (if ps = [] then None else last_addr ps) nx s = Some s'"
        "fseg (pmem s') (first_unused s') ps nx" "\<forall>x. x \<notin> fbytes ps \<longrightarrow> pmem s' x = pmem s x" "outside s' = outside s"
      using relink_seg [OF m(1) w(1), of nx] by blast
    have "fseg (pmem s') nx qs None" by (rule fseg_frame [OF w(7) _ m(3)]) (use s'(3) dis in blast)
    with s' True m(2) fl show ?thesis
      by (auto simp: pktbuf_alloc_def get_unused_def cut_def fseg_append sizeof_unused_def)
  next
    case False
    have big: "\<not> n - ?z < 8" using False dvd8_less [of n ?z] w(4) fits by auto
    obtain s' where s': "relink (if ps = [] then None else last_addr ps) (Some (a + ?z)) s = Some s'"
        "fseg (pmem s') (first_unused s') ps (Some (a + ?z))" "\<forall>x. x \<notin> fbytes ps \<longrightarrow> pmem s' x = pmem s x"
        "outside s' = outside s"
      using relink_seg [OF m(1) w(1), of "Some (a + ?z)"] by blast
    let ?m = "put_obj (a + ?z) 8 (Unused nx (n - ?z)) (pmem s')"
    have put: "?m x = pmem s' x" if "x \<notin> {a..<a + n}" for x using that big pos by (auto simp: put_obj_def)
    have "fseg ?m (first_unused s') ps (Some (a + ?z))"
      by (rule fseg_frame [OF w(1) _ s'(2)]) (use put dis in blast)
    moreover have "fseg ?m nx qs None"
      by (rule fseg_frame [OF w(7) _ m(3)]) (use put dis s'(3) in \<open>metis disjoint_iff\<close>)
    moreover have "a + ?z + 8 \<le> CONFIG_GNRC_PKTBUF_SIZE" using big w(6) by simp
    moreover have "?m x = pmem s x" if "x \<notin> fbytes ?fs" for x using that put [of x] s'(3) by simp
    moreover from calculation(3) have "pktbuf_alloc sz s = Some (Some a, s'\<lparr>pmem := ?m\<rparr>)"
      using s'(1) big m(2) fl by (simp add: pktbuf_alloc_def get_unused_def sizeof_unused_def Let_def)
    moreover have "?m (a + ?z) = Unused nx (n - ?z)" by (simp add: put_obj_def)
    ultimately show ?thesis using s'(4) False
      by (intro exI [of _ "s'\<lparr>pmem := ?m\<rparr>"]) (auto simp: cut_def fseg_append)
  qed
qed

lemma cut_wff:
  assumes "wff 0 (ps @ (a, n) # qs)" "z \<le> n" "8 dvd z" "0 < z"
  shows "wff 0 (ps @ cut z (a, n) @ qs)" "fbytes (ps @ cut z (a, n) @ qs) = fbytes (ps @ (a, n) # qs) - {a..<a + z}"
proof -
  have w: "wff 0 ps" "endp 0 ps \<le> a" "8 dvd a" "8 dvd n" "8 \<le> n" "a + n \<le> CONFIG_GNRC_PKTBUF_SIZE" "wff (a + n + 8) qs"
    using assms(1) by (auto simp: wff_append)
  have dis: "fbytes ps \<inter> {a..<a + n} = {}" "fbytes qs \<inter> {a..<a + n} = {}"
    using fbytes_endp [OF w(1)] fbytes_bounds [OF w(7)] w(2) by (force, force)
  show "wff 0 (ps @ cut z (a, n) @ qs)"
  proof (cases "n = z")
    case True
    then show ?thesis using w wff_mono [OF w(7), of "endp 0 ps"] by (simp add: cut_def wff_append)
  next
    case False
    then have "8 \<le> n - z" "8 dvd n - z" using assms(2,3) w(4) by presburger+
    then show ?thesis using w False assms(2,3) by (simp add: cut_def wff_append)
  qed
  have "{a..<a + n} = {a..<a + z} \<union> {a + z..<a + n}" using assms(2) by auto
  moreover have "fbytes (cut z (a, n)) = {a + z..<a + n}" using assms(2) by (auto simp: cut_def)
  ultimately show "fbytes (ps @ cut z (a, n) @ qs) = fbytes (ps @ (a, n) # qs) - {a..<a + z}"
    using dis by auto
qed

section \<open>Freeing\<close>

fun join :: "nat \<times> nat \<Rightarrow> (nat \<times> nat) list \<Rightarrow> (nat \<times> nat) list" where
  "join (a, n) ((b, k) # qs) = (if b = a + n then (a, n + k) # qs else (a, n) # (b, k) # qs)"
| "join c [] = [c]"

definition chunk :: "nat \<times> nat \<Rightarrow> bool" where
  "chunk c \<longleftrightarrow> 8 dvd fst c \<and> 8 dvd snd c \<and> 8 \<le> snd c \<and> fst c + snd c \<le> CONFIG_GNRC_PKTBUF_SIZE"

lemma dvd8_gap: "8 dvd (a :: nat) \<Longrightarrow> 8 dvd b \<Longrightarrow> a < b \<Longrightarrow> a + 8 \<le> b"
  by presburger

lemma join_wff:
  assumes "chunk (a, n)" "wff (a + n) qs"
  shows "wff a (join (a, n) qs)" "fbytes (join (a, n) qs) = {a..<a + n} \<union> fbytes qs"
proof -
  show "wff a (join (a, n) qs)"
  proof (cases qs)
    case (Cons c qs')
    obtain b k where c: "c = (b, k)" by force
    have "8 dvd a + n" using assms(1) by (simp add: chunk_def)
    then have "b = a + n \<or> a + n + 8 \<le> b" using assms(2) Cons c dvd8_gap [of "a + n" b] by (cases "a + n < b") auto
    then show ?thesis using assms Cons c by (auto simp: chunk_def add.assoc)
  qed (use assms in \<open>auto simp: chunk_def\<close>)
  show "fbytes (join (a, n) qs) = {a..<a + n} \<union> fbytes qs"
    by (cases qs) (auto split: if_splits)
qed

lemma size_small: "n \<le> CONFIG_GNRC_PKTBUF_SIZE \<Longrightarrow> n < 2 ^ 32"
  by (simp add: CONFIG_GNRC_PKTBUF_SIZE_def)

lemma too_small_hole_iff:
  assumes "m a = Unused nx n" "a + n \<le> b" "8 dvd a + n" "8 dvd b" "b \<le> CONFIG_GNRC_PKTBUF_SIZE"
  shows "too_small_hole a b m = Some (b = a + n)"
proof -
  have "size_t (int b - int (a + n)) = b - (a + n)" using assms(2) size_small [OF assms(5)] by (rule size_t_diff)
  moreover have "8 > b - (a + n) \<longleftrightarrow> b = a + n" using assms(2-4) dvd8_gap [of "a + n" b] by (cases "a + n < b") auto
  ultimately show ?thesis using assms(1) by (simp add: too_small_hole_def get_unused_def sizeof_unused_def)
qed

lemma merge_unused_eq:
  assumes "m a = Unused nx n" "m (a + n) = Unused ny k" "a + n + k \<le> CONFIG_GNRC_PKTBUF_SIZE"
  shows "merge_unused a (a + n) m = Some (m(a := Unused ny (n + k)))"
proof -
  have "size_t (int k + (int (a + n) - int a)) = n + k"
    using assms(3) size_small [of "n + k"] by (subst size_t_id) auto
  then show ?thesis using assms by (simp add: merge_unused_def get_unused_def)
qed

lemma join_next_seg:
  assumes "m a = Unused nx n" "fseg m nx qs None" "chunk (a, n)" "wff (a + n) qs"
  shows "\<exists>m'. join_next a m = Some m' \<and> fseg m' (Some a) (join (a, n) qs) None \<and> (\<forall>x. x \<noteq> a \<longrightarrow> m' x = m x)"
proof (cases qs)
  case Nil
  then show ?thesis using assms by (auto simp: join_next_def get_unused_def)
next
  case (Cons c qs')
  then obtain b k ny where c: "c = (b, k)" "nx = Some b" "m b = Unused ny k" "fseg m ny qs' None"
    using assms(2) by (cases c) auto
  have w: "a + n \<le> b" "8 dvd b" "b + k \<le> CONFIG_GNRC_PKTBUF_SIZE" "wff (b + k + 8) qs'" "8 dvd a + n" "8 \<le> k"
    using assms(3,4) Cons c by (auto simp: chunk_def)
  have h: "too_small_hole a b m = Some (b = a + n)" using w by (intro too_small_hole_iff [of m a nx n b] assms(1)) auto
  show ?thesis
  proof (cases "b = a + n")
    case True
    have mu: "merge_unused a b m = Some (m(a := Unused ny (n + k)))"
      using merge_unused_eq [of m a nx n ny k] assms(1) c(3) w(3) True by simp
    have "a \<notin> fbytes qs'" using fbytes_bounds [OF w(4), of a] True by auto
    then have "fseg (m(a := Unused ny (n + k))) ny qs' None"
      by (intro fseg_frame [OF w(4) _ c(4)]) auto
    then show ?thesis using assms(1) c Cons h mu True
      by (intro exI [of _ "m(a := Unused ny (n + k))"]) (simp add: join_next_def get_unused_def)
  next
    case False
    then show ?thesis using assms c Cons h
      by (intro exI [of _ m]) (auto simp: join_next_def get_unused_def)
  qed
qed

lemma place_split:
  assumes "wff 0 fs" "{a..<a + n} \<inter> fbytes fs = {}" "0 < n"
  shows "\<exists>ps qs. fs = ps @ qs \<and> takeWhile (\<lambda>c. fst c < a) fs = ps \<and> dropWhile (\<lambda>c. fst c < a) fs = qs \<and>
    wff 0 ps \<and> wff (a + n) qs \<and> fbytes ps \<inter> fbytes qs = {} \<and> (ps \<noteq> [] \<longrightarrow> fst (last ps) + snd (last ps) \<le> a)"
proof (intro exI conjI)
  let ?ps = "takeWhile (\<lambda>c. fst c < a) fs" and ?qs = "dropWhile (\<lambda>c. fst c < a) fs"
  show fs: "fs = ?ps @ ?qs" by simp
  then have w: "wff 0 ?ps" "wff (endp 0 ?ps) ?qs" using assms(1) wff_append by metis+
  then show "wff 0 ?ps" by simp
  show "fbytes ?ps \<inter> fbytes ?qs = {}" by (rule wff_split_disjoint [of 0]) (use assms(1) in simp)
  have fb: "fbytes fs = fbytes ?ps \<union> fbytes ?qs" by (subst fs) (simp only: fbytes_simps)
  show "wff (a + n) ?qs"
  proof (cases ?qs)
    case (Cons c qs')
    obtain b k where c: "c = (b, k)" by force
    have ge: "a \<le> b" using takeWhile_dropWhile_split [OF Cons] c by simp
    have "b \<in> fbytes fs" using fb Cons c w(2) by auto
    then have "a + n \<le> b" using assms(2) ge by (metis IntI atLeastLessThan_iff empty_iff not_less)
    then show ?thesis using w(2) Cons c by simp
  next
    case Nil
    show ?thesis unfolding Nil by simp
  qed
  show "?ps \<noteq> [] \<longrightarrow> fst (last ?ps) + snd (last ?ps) \<le> a"
  proof
    assume ne: "?ps \<noteq> []"
    obtain q k where l: "last ?ps = (q, k)" by force
    have "(q, k) \<in> set ?ps" using ne l by (metis last_in_set)
    then have "q < a" "{q..<q + k} \<subseteq> fbytes fs" by (auto dest: set_takeWhileD simp: fbytes_def)
    moreover have "a \<notin> fbytes fs" using assms(2,3) by (auto simp: disjoint_iff)
    ultimately have "\<not> a < q + k" by (auto simp: subset_iff)
    then show "fst (last ?ps) + snd (last ?ps) \<le> a" using l by simp
  qed
qed (rule refl)+

lemma free_header:
  assumes "chunk (a, n)"
  shows "(if size_t (int CONFIG_GNRC_PKTBUF_SIZE - int (a + n)) < sizeof_unused
          then size_t (int n + int (size_t (int CONFIG_GNRC_PKTBUF_SIZE - int (a + n)))) else n) = n"
proof -
  have le: "a + n \<le> CONFIG_GNRC_PKTBUF_SIZE" using assms by (simp add: chunk_def)
  have e: "size_t (int CONFIG_GNRC_PKTBUF_SIZE - int (a + n)) = CONFIG_GNRC_PKTBUF_SIZE - (a + n)"
    by (rule size_t_diff [OF le]) (simp add: pktbuf_consts)
  have "8 dvd a + n" "8 dvd CONFIG_GNRC_PKTBUF_SIZE" using assms by (simp_all add: chunk_def pktbuf_consts)
  then have "CONFIG_GNRC_PKTBUF_SIZE - (a + n) < 8 \<Longrightarrow> CONFIG_GNRC_PKTBUF_SIZE - (a + n) = 0"
    using le dvd8_gap [of "a + n" CONFIG_GNRC_PKTBUF_SIZE] by (cases "a + n = CONFIG_GNRC_PKTBUF_SIZE") auto
  moreover have "size_t (int n) = n" using le size_small [of n] by (simp add: size_t_id)
  ultimately show ?thesis unfolding e sizeof_unused_def by auto
qed

text \<open>Joining the chunk at \<open>b\<close>, in the middle of the list, with its successor.\<close>

lemma join_next_at:
  assumes "fseg m p us (Some b)" "m b = Unused r k" "fseg m r qs None"
    and "wff 0 us" "endp 0 us \<le> b" "chunk (b, k)" "wff (b + k) qs"
  shows "\<exists>m'. join_next b m = Some m' \<and> fseg m' p (us @ join (b, k) qs) None \<and> wff 0 (us @ join (b, k) qs) \<and>
     fbytes (us @ join (b, k) qs) = fbytes us \<union> {b..<b + k} \<union> fbytes qs \<and> (\<forall>x. x \<noteq> b \<longrightarrow> m' x = m x)"
proof -
  obtain m' where m': "join_next b m = Some m'" "fseg m' (Some b) (join (b, k) qs) None" "\<forall>x. x \<noteq> b \<longrightarrow> m' x = m x"
    using join_next_seg [OF assms(2,3,6,7)] by blast
  have "b \<notin> fbytes us" using fbytes_endp [OF assms(4), of b] assms(5) by auto
  then have "fseg m' p us (Some b)" by (intro fseg_frame [OF assms(4) _ assms(1)]) (use m'(3) in auto)
  moreover have "wff 0 (us @ join (b, k) qs)"
    using assms(4,5) wff_mono [OF join_wff(1) [OF assms(6,7)]] by (simp add: wff_append)
  ultimately show ?thesis using m' join_wff(2) [OF assms(6,7)] by (auto simp: fseg_append)
qed

definition freed :: "nat \<Rightarrow> nat \<Rightarrow> (nat \<times> nat) list \<Rightarrow> pktbuf \<Rightarrow> pktbuf \<Rightarrow> bool" where
  "freed a n fs s s' \<longleftrightarrow> (\<exists>gs. fseg (pmem s') (first_unused s') gs None \<and> wff 0 gs \<and>
     fbytes gs = {a..<a + n} \<union> fbytes fs \<and> (\<forall>x. x \<notin> fbytes gs \<longrightarrow> pmem s' x = pmem s x) \<and> outside s' = outside s)"

lemma freedI:
  "fseg (pmem s') (first_unused s') gs None \<Longrightarrow> wff 0 gs \<Longrightarrow> fbytes gs = {a..<a + n} \<union> fbytes fs \<Longrightarrow>
   (\<And>x. x \<notin> {a..<a + n} \<Longrightarrow> x \<notin> fbytes fs \<Longrightarrow> pmem s' x = pmem s x) \<Longrightarrow> outside s' = outside s \<Longrightarrow> freed a n fs s s'"
  by (auto simp: freed_def)

text \<open>Behind the chunk \<open>(q, k)\<close>: the two are joined when they touch.\<close>

lemma free_behind:
  assumes mp: "fseg m p (us @ [(q, k)]) r" and mq: "fseg m r qs None" and ma: "m a = Unused r n"
    and w: "wff 0 (us @ [(q, k)])" "wff (a + n) qs" "chunk (a, n)" "q + k \<le> a"
  shows "\<exists>m' gs. do { m \<leftarrow> set_next q (Some a) m; h \<leftarrow> too_small_hole q a m;
       if h then do { m \<leftarrow> merge_unused q a m; join_next q m } else join_next a m } = Some m' \<and>
     fseg m' p gs None \<and> wff 0 gs \<and> fbytes gs = {a..<a + n} \<union> (fbytes (us @ [(q, k)]) \<union> fbytes qs) \<and>
     (\<forall>x. x \<noteq> a \<and> x \<noteq> q \<longrightarrow> m' x = m x)"
proof -
  let ?m1 = "m(q := Unused (Some a) k)"
  have v: "wff 0 us" "endp 0 us \<le> q" "chunk (q, k)" "q < a" using w by (auto simp: wff_append chunk_def)
  note rd = fseg_redirect(1) [OF mp wff_last_notin [OF w(1)]]
    fseg_redirect(2) [OF mp wff_last_notin [OF w(1)], of "Some a"]
  have sn: "set_next q (Some a) m = Some ?m1" using rd(1) by (simp add: set_next_def get_unused_def)
  have m1: "?m1 q = Unused (Some a) k" "?m1 a = Unused r n" using ma v(4) by auto
  have hole: "too_small_hole q a ?m1 = Some (a = q + k)"
    using v w(3,4) by (intro too_small_hole_iff [of ?m1 q "Some a" k a] m1(1)) (auto simp: chunk_def)
  have qin: "q \<notin> fbytes qs" using fbytes_bounds [OF w(2), of q] v(4) by auto
  show ?thesis
  proof (cases "a = q + k")
    case True
    let ?m2 = "?m1(q := Unused r (k + n))"
    have mu: "merge_unused q a ?m1 = Some ?m2"
      using merge_unused_eq [of ?m1 q "Some a" k r n] m1 w(3) True by (simp add: chunk_def)
    have c2: "chunk (q, k + n)" "wff (q + (k + n)) qs" using v(3) w(2,3) True by (auto simp: chunk_def add.assoc)
    have "fseg ?m2 r qs None" by (rule fseg_frame [OF w(2) _ mq]) (use qin in auto)
    moreover have "fseg ?m2 p us (Some q)"
    proof (rule fseg_frame [OF v(1), of _ ?m1])
      show "fseg ?m1 p us (Some q)" using rd(2) by (auto simp: fseg_append)
    qed (use fbytes_endp [OF v(1)] v(2) in force)
    ultimately obtain m' where m': "join_next q ?m2 = Some m'" "fseg m' p (us @ join (q, k + n) qs) None"
        "wff 0 (us @ join (q, k + n) qs)" "fbytes (us @ join (q, k + n) qs) = fbytes us \<union> {q..<q + (k + n)} \<union> fbytes qs"
        "\<forall>x. x \<noteq> q \<longrightarrow> m' x = ?m2 x"
      using join_next_at [of ?m2 p us q r "k + n" qs] v c2 by auto
    have "{q..<q + (k + n)} = {a..<a + n} \<union> {q..<q + k}" using True by auto
    with m' sn hole mu True show ?thesis
      by (intro exI [of _ m'] exI [of _ "us @ join (q, k + n) qs"]) auto
  next
    case False
    have lo: "endp 0 (us @ [(q, k)]) \<le> a"
      using False w(3,4) v(3) dvd8_gap [of "q + k" a] by (auto simp: endp_def chunk_def)
    have "fseg ?m1 r qs None" by (rule fseg_frame [OF w(2) _ mq]) (use qin in auto)
    then obtain m' where m': "join_next a ?m1 = Some m'" "fseg m' p ((us @ [(q, k)]) @ join (a, n) qs) None"
        "wff 0 ((us @ [(q, k)]) @ join (a, n) qs)"
        "fbytes ((us @ [(q, k)]) @ join (a, n) qs) = fbytes (us @ [(q, k)]) \<union> {a..<a + n} \<union> fbytes qs"
        "\<forall>x. x \<noteq> a \<longrightarrow> m' x = ?m1 x"
      using join_next_at [OF rd(2) m1(2) _ w(1) lo w(3,2)] by blast
    with sn hole False show ?thesis
      by (intro exI [of _ m'] exI [of _ "(us @ [(q, k)]) @ join (a, n) qs"]) (auto simp: Un_assoc Un_left_commute)
  qed
qed

lemma pktbuf_free_seg:
  assumes fs: "fseg (pmem s) (first_unused s) fs None" "wff 0 fs" and c: "chunk (a, align sz)"
    and dis: "{a..<a + align sz} \<inter> fbytes fs = {}"
  shows "\<exists>s'. pktbuf_free (In a) sz s = Some s' \<and> freed a (align sz) fs s s'"
proof -
  let ?n = "align sz"
  have n: "8 \<le> ?n" "a + ?n \<le> CONFIG_GNRC_PKTBUF_SIZE" "0 < ?n" using c by (auto simp: chunk_def)
  obtain ps qs where pq: "fs = ps @ qs" "takeWhile (\<lambda>c. fst c < a) fs = ps" "dropWhile (\<lambda>c. fst c < a) fs = qs"
      "wff 0 ps" "wff (a + ?n) qs" "fbytes ps \<inter> fbytes qs = {}" "ps \<noteq> [] \<longrightarrow> fst (last ps) + snd (last ps) \<le> a"
    using place_split [OF fs(2) dis n(3)] by blast
  have pl: "place_loop a None (first_unused s) (pmem s) = Some (if ps = [] then None else last_addr ps, head_addr qs)"
    using place_loop_fseg [OF fs(1), of a None] pq(2,3) by simp
  obtain r where r: "fseg (pmem s) (first_unused s) ps r" "fseg (pmem s) r qs None"
    using fs(1) pq(1) by (auto simp: fseg_append)
  have rq: "r = head_addr qs" using r(2) by (cases qs) (auto simp: head_addr_def)
  let ?m = "put_obj a sizeof_unused (Unused r ?n) (pmem s)"
  have put: "?m a = Unused r ?n" "\<And>x. x \<notin> {a..<a + ?n} \<Longrightarrow> ?m x = pmem s x"
    using n(1) by (auto simp: put_obj_def sizeof_unused_def)
  have mq: "fseg ?m r qs None" by (rule fseg_frame [OF pq(5) put(2) r(2)]) (use dis pq(1) in auto)
  have mp: "fseg ?m (first_unused s) ps r" by (rule fseg_frame [OF pq(4) put(2) r(1)]) (use dis pq(1) in auto)
  have cont: "pktbuf_contains (In a)" using n by simp
  show ?thesis
  proof (cases ps rule: rev_cases)
    case Nil
    obtain m' where m': "join_next a ?m = Some m'" "fseg m' (Some a) ([] @ join (a, ?n) qs) None" "wff 0 ([] @ join (a, ?n) qs)"
        "fbytes ([] @ join (a, ?n) qs) = fbytes [] \<union> {a..<a + ?n} \<union> fbytes qs" "\<forall>x. x \<noteq> a \<longrightarrow> m' x = ?m x"
      using join_next_at [of ?m "Some a" "[]" a r ?n qs] put(1) mq c pq(5) by (auto simp: endp_def)
    have "pktbuf_free (In a) sz s = Some (s\<lparr>pmem := m', first_unused := Some a\<rparr>)"
      using pl Nil m'(1) rq cont unfolding pktbuf_free_def Let_def dptr.case free_header [OF c] by simp
    moreover have "pmem s x = m' x" if "x \<notin> {a..<a + ?n}" for x using that m'(5) put(2) [OF that] n(3) by force
    ultimately show ?thesis using m'(2-4) pq(1) Nil
      by (intro exI [of _ "s\<lparr>pmem := m', first_unused := Some a\<rparr>"] conjI freedI [of _ "join (a, ?n) qs"]) auto
  next
    case (snoc us u)
    then obtain q k where u: "ps = us @ [(q, k)]" by (cases u) auto
    have qa: "q + k \<le> a" "8 \<le> k" using pq(4,7) u by (auto simp: wff_append)
    obtain m' gs where m': "do { m \<leftarrow> set_next q (Some a) ?m; h \<leftarrow> too_small_hole q a m;
          if h then do { m \<leftarrow> merge_unused q a m; join_next q m } else join_next a m } = Some m'"
        "fseg m' (first_unused s) gs None" "wff 0 gs" "fbytes gs = {a..<a + ?n} \<union> (fbytes (us @ [(q, k)]) \<union> fbytes qs)"
        "\<forall>x. x \<noteq> a \<and> x \<noteq> q \<longrightarrow> m' x = ?m x"
      using free_behind [OF mp [unfolded u] mq put(1) pq(4) [unfolded u] pq(5) c qa(1)] by blast
    have "pktbuf_free (In a) sz s = do { m \<leftarrow> do { m \<leftarrow> set_next q (Some a) ?m; h \<leftarrow> too_small_hole q a m;
          if h then do { m \<leftarrow> merge_unused q a m; join_next q m } else join_next a m }; Some (s\<lparr>pmem := m\<rparr>) }"
      using pl u rq cont unfolding pktbuf_free_def Let_def dptr.case free_header [OF c]
      by (simp add: last_addr_def Option.bind_assoc)
    also have "\<dots> = Some (s\<lparr>pmem := m'\<rparr>)" unfolding m'(1) by simp
    finally have "pktbuf_free (In a) sz s = Some (s\<lparr>pmem := m'\<rparr>)" .
    moreover have "pmem s x = m' x" if "x \<notin> {a..<a + ?n}" "x \<notin> fbytes fs" for x
    proof -
      have "x \<noteq> a" "x \<noteq> q" using that u pq(1) qa n(3) by auto
      then show ?thesis using m'(5) put(2) [OF that(1)] by metis
    qed
    ultimately show ?thesis using m'(2-4) pq(1) u
      by (intro exI [of _ "s\<lparr>pmem := m'\<rparr>"] conjI freedI [of _ gs]) auto
  qed
qed

section \<open>Free and used chunks tile the buffer\<close>

lemma wff_gap: "wff lo fs \<Longrightarrow> (a, n) \<in> set fs \<Longrightarrow> a + n \<notin> fbytes fs"
proof (induction lo fs rule: wff.induct)
  case (2 lo b k fs)
  show ?case
  proof (cases "(a, n) = (b, k)")
    case True
    then show ?thesis using fbytes_bounds [of "b + k + 8" fs "b + k"] 2(2) by auto
  next
    case False
    then have an: "(a, n) \<in> set fs" using 2(3) by auto
    then have "a \<in> fbytes fs" using wff_addr_bytes [of "b + k + 8" fs] 2(2) by force
    then have "b + k \<le> a" using fbytes_bounds [of "b + k + 8" fs a] 2(2) by auto
    then show ?thesis using 2 an by auto
  qed
qed simp

lemma interval_in_chunk:
  assumes "wff lo fs" "{b..<b + z} \<subseteq> fbytes fs" "0 < z"
  shows "\<exists>a n. (a, n) \<in> set fs \<and> a \<le> b \<and> b + z \<le> a + n"
proof -
  have "b \<in> fbytes fs" using assms(2,3) by force
  then obtain a n where an: "(a, n) \<in> set fs" "a \<le> b" "b < a + n" by (auto simp: fbytes_def)
  have "\<not> a + n < b + z" using wff_gap [OF assms(1) an(1)] assms(2) an(3) by (auto simp: subset_iff)
  with an(1,2) show ?thesis by (intro exI [of _ a] exI [of _ n]) simp
qed

lemma wff_unique: "wff lo fs \<Longrightarrow> wff lo' gs \<Longrightarrow> fbytes fs = fbytes gs \<Longrightarrow> fs = gs"
proof (induction lo fs arbitrary: gs lo' rule: wff.induct)
  case (1 lo)
  then show ?case by (cases gs) auto
next
  case (2 lo a n fs)
  then obtain b k hs where gs: "gs = (b, k) # hs" by (cases gs) auto
  have w: "wff (b + k + 8) hs" "wff (a + n + 8) fs" "8 \<le> n" "8 \<le> k" using 2(2,3) gs by auto
  have min: "\<forall>x\<in>fbytes ((a, n) # fs). a \<le> x" "\<forall>x\<in>fbytes gs. b \<le> x"
    using fbytes_bounds [OF w(1)] fbytes_bounds [OF w(2)] gs by fastforce+
  have "a \<in> fbytes gs" "b \<in> fbytes ((a, n) # fs)" using 2(4) gs w(3,4) by auto
  then have ab: "a = b" using min by (meson order_antisym)
  have "a + n \<notin> fbytes gs" using wff_gap [OF 2(2), of a n] unfolding 2(4) by simp
  moreover have "b + k \<notin> fbytes ((a, n) # fs)" using wff_gap [OF 2(3), of b k] gs unfolding 2(4) by simp
  ultimately have nk: "n = k" using gs ab by (cases n k rule: linorder_cases) auto
  have "fbytes fs \<inter> {a..<a + n} = {}" "fbytes hs \<inter> {b..<b + k} = {}"
    using fbytes_bounds [OF w(1)] fbytes_bounds [OF w(2)] by force+
  then have "fbytes fs = fbytes hs" using 2(4) unfolding gs fbytes_simps ab nk by blast
  then show ?case using 2(1) [OF w(2,1)] gs ab nk by simp
qed

definition cbytes :: "nat \<times> nat \<Rightarrow> nat set" where
  "cbytes c = {fst c..<fst c + snd c}"

definition ubytes :: "(nat \<times> nat) set \<Rightarrow> nat set" where
  "ubytes U = (\<Union>c\<in>U. cbytes c)"

definition disjoint_chunks :: "(nat \<times> nat) set \<Rightarrow> bool" where
  "disjoint_chunks U \<longleftrightarrow> (\<forall>c\<in>U. chunk c) \<and> (\<forall>c\<in>U. \<forall>d\<in>U. c \<noteq> d \<longrightarrow> cbytes c \<inter> cbytes d = {})"

definition pk_inv :: "pktbuf \<Rightarrow> (nat \<times> nat) set \<Rightarrow> bool" where
  "pk_inv s U \<longleftrightarrow> disjoint_chunks U \<and>
     (\<exists>fs. fseg (pmem s) (first_unused s) fs None \<and> wff 0 fs \<and> fbytes fs = {0..<CONFIG_GNRC_PKTBUF_SIZE} - ubytes U)"

lemma ubytes_simps [simp]: "ubytes {} = {}" "ubytes (insert c U) = cbytes c \<union> ubytes U" "ubytes (U \<union> V) = ubytes U \<union> ubytes V"
  by (auto simp: ubytes_def)

lemma disjoint_chunks_insert:
  "disjoint_chunks U \<Longrightarrow> chunk c \<Longrightarrow> cbytes c \<inter> ubytes U = {} \<Longrightarrow> disjoint_chunks (insert c U)"
  by (auto simp: disjoint_chunks_def ubytes_def)

lemma ubytes_remove:
  assumes "disjoint_chunks U" "c \<in> U"
  shows "ubytes (U - {c}) = ubytes U - cbytes c" "disjoint_chunks (U - {c})"
  using assms by (fastforce simp: disjoint_chunks_def ubytes_def)+

lemma chunk_bytes: "chunk c \<Longrightarrow> cbytes c \<noteq> {} \<and> cbytes c \<subseteq> {0..<CONFIG_GNRC_PKTBUF_SIZE}"
  by (auto simp: chunk_def cbytes_def)

lemma pk_inv_alloc:
  assumes "pk_inv s U" "0 < sz" "sz < 2 ^ 32 - 7"
  shows "(pktbuf_alloc sz s = Some (None, s) \<and> (\<forall>b. \<not> cbytes (b, align sz) \<subseteq> {0..<CONFIG_GNRC_PKTBUF_SIZE} - ubytes U)) \<or>
    (\<exists>a s'. pktbuf_alloc sz s = Some (Some a, s') \<and> pk_inv s' (insert (a, align sz) U) \<and> cbytes (a, align sz) \<inter> ubytes U = {} \<and>
       (\<forall>b<a. \<not> cbytes (b, align sz) \<subseteq> {0..<CONFIG_GNRC_PKTBUF_SIZE} - ubytes U) \<and>
       (\<forall>x\<in>ubytes U. pmem s' x = pmem s x) \<and> outside s' = outside s)"
proof -
  let ?z = "align sz" and ?B = "{0..<CONFIG_GNRC_PKTBUF_SIZE}"
  have z: "8 \<le> ?z" "8 dvd ?z" "0 < ?z" using align_pos [OF assms(2,3)] by auto
  obtain fs where fs: "fseg (pmem s) (first_unused s) fs None" "wff 0 fs" "fbytes fs = ?B - ubytes U" and d: "disjoint_chunks U"
    using assms(1) by (auto simp: pk_inv_def)
  have fit: "\<exists>a n. (a, n) \<in> set fs \<and> a \<le> b \<and> b + ?z \<le> a + n" if "cbytes (b, ?z) \<subseteq> ?B - ubytes U" for b
    using interval_in_chunk [OF fs(2), of b ?z] that fs(3) z(3) by (simp add: cbytes_def)
  show ?thesis
  proof (cases "dropWhile (\<lambda>c. snd c < ?z) fs")
    case Nil
    then have small: "\<forall>c\<in>set fs. snd c < ?z" by simp
    have "\<not> cbytes (b, ?z) \<subseteq> ?B - ubytes U" for b using fit [of b] small by fastforce
    with pktbuf_alloc_none [OF fs(1) small] show ?thesis by blast
  next
    case (Cons c qs)
    obtain a n where c: "c = (a, n)" by force
    obtain ps where sp: "fs = ps @ (a, n) # qs" "?z \<le> n" and small: "\<forall>c\<in>set ps. snd c < ?z"
      using takeWhile_dropWhile_split [OF Cons] c
      by (intro that [of "takeWhile (\<lambda>c. snd c < ?z) fs"]) (auto dest: set_takeWhileD)
    have w: "wff 0 (ps @ (a, n) # qs)" using fs(2) sp(1) by simp
    obtain s' where s': "pktbuf_alloc sz s = Some (Some a, s')" "fseg (pmem s') (first_unused s') (ps @ cut ?z (a, n) @ qs) None"
        "\<forall>x. x \<notin> fbytes fs \<longrightarrow> pmem s' x = pmem s x" "outside s' = outside s"
      using pktbuf_alloc_some [OF fs(1) [unfolded sp(1)] w small sp(2) z(3)] unfolding sp(1) by blast
    note cw = cut_wff [OF w sp(2) z(2,3), folded sp(1)]
    have an: "8 dvd a" "a + n \<le> CONFIG_GNRC_PKTBUF_SIZE" "{a..<a + n} \<subseteq> fbytes fs"
      using w sp(1) by (auto simp: wff_append)
    have "cbytes (a, ?z) \<subseteq> {a..<a + n}" using sp(2) by (simp add: cbytes_def)
    then have sub: "cbytes (a, ?z) \<subseteq> ?B - ubytes U" using an(3) unfolding fs(3) by (rule subset_trans)
    have ch: "chunk (a, ?z)" using an z sp(2) by (simp add: chunk_def)
    have "fbytes (ps @ cut ?z (a, n) @ qs) = ?B - ubytes (insert (a, ?z) U)"
      using cw(2) fs(3) by (auto simp: cbytes_def)
    then have "pk_inv s' (insert (a, ?z) U)"
      using s'(2) cw(1) disjoint_chunks_insert [OF d ch] sub unfolding pk_inv_def by blast
    moreover have "\<not> cbytes (b, ?z) \<subseteq> ?B - ubytes U" if "b < a" for b
    proof
      assume "cbytes (b, ?z) \<subseteq> ?B - ubytes U"
      then obtain e k where e: "(e, k) \<in> set fs" "e \<le> b" "b + ?z \<le> e + k" using fit by blast
      have "(e, k) \<notin> set ps" using small e(2,3) by fastforce
      moreover have "fst ` set qs \<subseteq> fbytes qs" using w wff_addr_bytes [of "a + n + 8" qs] by (simp add: wff_append)
      ultimately have "e = a \<or> e \<in> fbytes qs" using e(1) sp(1) by (auto simp: image_subset_iff)
      then show False using e(2) that w fbytes_bounds [of "a + n + 8" qs e] by (auto simp: wff_append)
    qed
    moreover have "\<forall>x\<in>ubytes U. pmem s' x = pmem s x" using s'(3) fs(3) by auto
    ultimately show ?thesis using s'(1,4) sub by blast
  qed
qed

lemma pk_inv_free:
  assumes "pk_inv s U" "(a, align sz) \<in> U"
  shows "\<exists>s'. pktbuf_free (In a) sz s = Some s' \<and> pk_inv s' (U - {(a, align sz)}) \<and>
    (\<forall>x\<in>ubytes (U - {(a, align sz)}). pmem s' x = pmem s x) \<and> outside s' = outside s"
proof -
  let ?c = "(a, align sz)" and ?B = "{0..<CONFIG_GNRC_PKTBUF_SIZE}"
  obtain fs where fs: "fseg (pmem s) (first_unused s) fs None" "wff 0 fs" "fbytes fs = ?B - ubytes U" and d: "disjoint_chunks U"
    using assms(1) by (auto simp: pk_inv_def)
  have ch: "chunk ?c" using d assms(2) by (simp add: disjoint_chunks_def)
  have in_u: "cbytes ?c \<subseteq> ubytes U" using assms(2) by (auto simp: ubytes_def)
  have dis: "{a..<a + align sz} \<inter> fbytes fs = {}" using in_u fs(3) by (auto simp: cbytes_def)
  obtain s' where s': "pktbuf_free (In a) sz s = Some s'" "freed a (align sz) fs s s'"
    using pktbuf_free_seg [OF fs(1,2) ch dis] by blast
  then obtain gs where gs: "fseg (pmem s') (first_unused s') gs None" "wff 0 gs" "fbytes gs = cbytes ?c \<union> fbytes fs"
      "\<forall>x. x \<notin> fbytes gs \<longrightarrow> pmem s' x = pmem s x" "outside s' = outside s"
    by (auto simp: freed_def cbytes_def)
  note rm = ubytes_remove [OF d assms(2)]
  have "fbytes gs = ?B - ubytes (U - {?c})" using gs(3) fs(3) rm(1) chunk_bytes [OF ch] in_u by blast
  moreover from this have "\<forall>x\<in>ubytes (U - {?c}). pmem s' x = pmem s x" using gs(4) by simp
  ultimately show ?thesis using s'(1) gs(1,2,5) rm(2) unfolding pk_inv_def by blast
qed

lemma pk_inv_init: "pk_inv (gnrc_pktbuf_init s) {}"
proof -
  have "fseg (pmem (gnrc_pktbuf_init s)) (first_unused (gnrc_pktbuf_init s)) [(0, CONFIG_GNRC_PKTBUF_SIZE)] None"
    by (simp add: gnrc_pktbuf_init_def put_obj_def pktbuf_consts)
  moreover have "wff 0 [(0, CONFIG_GNRC_PKTBUF_SIZE)]" "fbytes [(0, CONFIG_GNRC_PKTBUF_SIZE)] = {0..<CONFIG_GNRC_PKTBUF_SIZE} - ubytes {}"
    by (simp_all add: pktbuf_consts)
  ultimately show ?thesis unfolding pk_inv_def disjoint_chunks_def by blast
qed

lemma pk_inv_empty: "pk_inv s {} \<Longrightarrow> gnrc_pktbuf_is_empty s = Some True"
proof -
  assume "pk_inv s {}"
  then obtain fs where fs: "fseg (pmem s) (first_unused s) fs None" "wff 0 fs" "fbytes fs = {0..<CONFIG_GNRC_PKTBUF_SIZE}"
    by (auto simp: pk_inv_def)
  have "fs = [(0, CONFIG_GNRC_PKTBUF_SIZE)]"
    by (rule wff_unique [OF fs(2), of 0]) (simp_all add: fs(3) pktbuf_consts)
  with fs(1) show ?thesis by (auto simp: gnrc_pktbuf_is_empty_def get_unused_def pktbuf_consts)
qed

lemma pk_inv_frame:
  assumes "pk_inv s U" "\<And>x. x \<notin> ubytes U \<Longrightarrow> pmem s' x = pmem s x" "first_unused s' = first_unused s"
  shows "pk_inv s' U"
proof -
  obtain fs where fs: "fseg (pmem s) (first_unused s) fs None" "wff 0 fs" "fbytes fs = {0..<CONFIG_GNRC_PKTBUF_SIZE} - ubytes U"
    and d: "disjoint_chunks U" using assms(1) by (auto simp: pk_inv_def)
  have "fseg (pmem s') (first_unused s') fs None"
    using fseg_frame [OF fs(2) _ fs(1), of "pmem s'"] assms(2,3) fs(3) by auto
  with fs(2,3) d show ?thesis unfolding pk_inv_def by blast
qed

end
