(* ===== verification/Pktbuf_Props.thy ===== *)
theory Pktbuf_Props
  imports Pktbuf_Alloc
begin

text \<open>
  What the packet buffer promises: the allocator as a pool of chunks that never leaks, and the
  packet operations on top of it.
\<close>

section \<open>Pools of chunks\<close>

datatype request = Alloc nat | Free nat

text \<open>
  Serving a sequence of requests: \<open>Alloc n\<close> asks for \<open>n\<close> bytes, \<open>Free i\<close> gives back the
  i-th chunk still held. The second component lists the chunks held, with the sizes asked for.
\<close>

fun serve ::
  "(nat \<Rightarrow> 's \<Rightarrow> (nat option \<times> 's) option) \<Rightarrow> (nat \<Rightarrow> nat \<Rightarrow> 's \<Rightarrow> 's option) \<Rightarrow> request list \<Rightarrow>
   's \<times> (nat \<times> nat) list \<Rightarrow> ('s \<times> (nat \<times> nat) list) option" where
  "serve alloc free [] (s, L) = Some (s, L)"
| "serve alloc free (Alloc n # rs) (s, L) =
     do { (p, s) \<leftarrow> alloc n s;
          serve alloc free rs (s, case p of None \<Rightarrow> L | Some a \<Rightarrow> L @ [(a, n)]) }"
| "serve alloc free (Free i # rs) (s, L) =
     (if i < length L
      then do { s \<leftarrow> free (fst (L ! i)) (snd (L ! i)) s; serve alloc free rs (s, take i L @ drop (Suc i) L) }
      else serve alloc free rs (s, L))"

locale chunk_pool =
  fixes alloc :: "nat \<Rightarrow> 's \<Rightarrow> (nat option \<times> 's) option" and free :: "nat \<Rightarrow> nat \<Rightarrow> 's \<Rightarrow> 's option"
    and inv :: "'s \<Rightarrow> (nat \<times> nat) set \<Rightarrow> bool" and roundup :: "nat \<Rightarrow> nat" and ok :: "nat \<Rightarrow> bool"
  assumes alloc_law: "inv s U \<Longrightarrow> ok n \<Longrightarrow> \<exists>p s'. alloc n s = Some (p, s') \<and>
      (case p of None \<Rightarrow> inv s' U | Some a \<Rightarrow> (a, roundup n) \<notin> U \<and> inv s' (insert (a, roundup n) U))"
    and free_law: "inv s U \<Longrightarrow> (a, roundup n) \<in> U \<Longrightarrow> \<exists>s'. free a n s = Some s' \<and> inv s' (U - {(a, roundup n)})"
begin

definition held :: "(nat \<times> nat) list \<Rightarrow> (nat \<times> nat) list" where
  "held L = map (\<lambda>(a, n). (a, roundup n)) L"

lemma serve_ok:
  "inv s (set (held L)) \<Longrightarrow> distinct (held L) \<Longrightarrow> \<forall>n. Alloc n \<in> set rs \<longrightarrow> ok n \<Longrightarrow>
   \<exists>s' L'. serve alloc free rs (s, L) = Some (s', L') \<and> inv s' (set (held L')) \<and> distinct (held L')"
proof (induction rs arbitrary: s L)
  case (Cons r rs)
  show ?case
  proof (cases r)
    case (Alloc n)
    with alloc_law [OF Cons.prems(1), of n] Cons.prems(3) obtain p s' where p: "alloc n s = Some (p, s')"
      "case p of None \<Rightarrow> inv s' (set (held L)) | Some a \<Rightarrow> (a, roundup n) \<notin> set (held L) \<and> inv s' (insert (a, roundup n) (set (held L)))"
      by auto
    let ?L = "case p of None \<Rightarrow> L | Some a \<Rightarrow> L @ [(a, n)]"
    have "inv s' (set (held ?L))" "distinct (held ?L)"
      using p(2) Cons.prems(2) by (auto simp: held_def split: option.splits)
    with Cons.IH [of s' ?L] Cons.prems(3) p(1) Alloc show ?thesis by auto
  next
    case (Free i)
    show ?thesis
    proof (cases "i < length L")
      case True
      obtain a n where an: "L ! i = (a, n)" by force
      have L: "held L = held (take i L) @ (a, roundup n) # held (drop (Suc i) L)"
        using arg_cong [OF id_take_nth_drop [OF True], of held] an by (simp add: held_def)
      obtain s' where s': "free a n s = Some s'" "inv s' (set (held L) - {(a, roundup n)})"
        using free_law [OF Cons.prems(1), of a n] L by auto
      let ?L = "take i L @ drop (Suc i) L"
      have "distinct (held ?L)" "set (held ?L) = set (held L) - {(a, roundup n)}"
        using Cons.prems(2) unfolding L by (auto simp: held_def)
      with Cons.IH [of s' ?L] Cons.prems(3) s' Free True an show ?thesis by auto
    next
      case False
      with Cons.IH [OF Cons.prems(1,2)] Cons.prems(3) Free show ?thesis by auto
    qed
  qed
qed auto

end

abbreviation pool_free :: "nat \<Rightarrow> nat \<Rightarrow> pktbuf \<Rightarrow> pktbuf option" where
  "pool_free a n s \<equiv> pktbuf_free (In a) n s"

interpretation pool: chunk_pool pktbuf_alloc pool_free pk_inv align "\<lambda>n. 0 < n \<and> n < 2 ^ 32 - 7"
proof
  fix s U n assume s: "pk_inv s U" and n: "0 < n \<and> n < (2 :: nat) ^ 32 - 7"
  have "(a, align n) \<notin> U" if "cbytes (a, align n) \<inter> ubytes U = {}" for a
  proof
    assume "(a, align n) \<in> U"
    then have "cbytes (a, align n) \<subseteq> ubytes U" by (auto simp: ubytes_def)
    moreover have "cbytes (a, align n) \<noteq> {}" using align_pos [of n] n by (auto simp: cbytes_def)
    ultimately show False using that by blast
  qed
  then show "\<exists>p s'. pktbuf_alloc n s = Some (p, s') \<and>
      (case p of None \<Rightarrow> pk_inv s' U | Some a \<Rightarrow> (a, align n) \<notin> U \<and> pk_inv s' (insert (a, align n) U))"
    using pk_inv_alloc [OF s conjunct1 [OF n] conjunct2 [OF n]] s by (elim disjE exE conjE) auto
next
  fix s U a n assume "pk_inv s U" "(a, align n) \<in> U"
  then show "\<exists>s'. pktbuf_free (In a) n s = Some s' \<and> pk_inv s' (U - {(a, align n)})"
    using pk_inv_free by blast
qed

text \<open>
  Allocation in the packet buffer is first fit, and neither overlaps nor wastes: when free
  and used chunks tile the buffer, a request either gets the lowest address at which enough
  contiguous bytes are free, and free and used chunks tile the buffer again with the new chunk
  among the used ones and the contents of all other used chunks as before; or no place in the buffer has enough
  contiguous free bytes, NULL is returned and nothing changes.
\<close>
theorem pktbuf_alloc_first_fit:
  assumes "pk_inv s U" and "0 < sz" and "sz < 2 ^ 32 - 7"
  shows "\<exists>p s'. pktbuf_alloc sz s = Some (p, s') \<and>
    (case p of
       None \<Rightarrow> s' = s \<and> (\<forall>b. \<not> {b..<b + align sz} \<subseteq> {0..<CONFIG_GNRC_PKTBUF_SIZE} - ubytes U)
     | Some a \<Rightarrow> {a..<a + align sz} \<subseteq> {0..<CONFIG_GNRC_PKTBUF_SIZE} - ubytes U \<and>
         (\<forall>b<a. \<not> {b..<b + align sz} \<subseteq> {0..<CONFIG_GNRC_PKTBUF_SIZE} - ubytes U) \<and>
         pk_inv s' (insert (a, align sz) U) \<and> (\<forall>x\<in>ubytes U. pmem s' x = pmem s x))"
  using pk_inv_alloc [OF assms]
proof (elim disjE exE conjE)
  fix a s'
  assume h: "pktbuf_alloc sz s = Some (Some a, s')" "pk_inv s' (insert (a, align sz) U)" "cbytes (a, align sz) \<inter> ubytes U = {}"
    "\<forall>b<a. \<not> cbytes (b, align sz) \<subseteq> {0..<CONFIG_GNRC_PKTBUF_SIZE} - ubytes U" "\<forall>x\<in>ubytes U. pmem s' x = pmem s x"
  have "chunk (a, align sz)" using h(2) by (simp add: pk_inv_def disjoint_chunks_def)
  with h show ?thesis using chunk_bytes [of "(a, align sz)"] by (auto simp: cbytes_def)
qed (simp add: cbytes_def)

definition some_pktbuf :: pktbuf where
  "some_pktbuf = \<lparr>pmem = (\<lambda>_. Byte 0), first_unused = None, outside = (\<lambda>n. of_nat n)\<rparr>"

theorem pktbuf_alloc_first_fit_witness:
  "\<exists>s'. pktbuf_alloc 100 (gnrc_pktbuf_init some_pktbuf) = Some (Some 0, s') \<and> pk_inv s' {(0, 104)}"
proof -
  have al: "align 100 = 104" by (simp add: align_eq)
  obtain p s' where p: "pktbuf_alloc 100 (gnrc_pktbuf_init some_pktbuf) = Some (p, s')"
    "case p of
       None \<Rightarrow> s' = gnrc_pktbuf_init some_pktbuf \<and> (\<forall>b. \<not> {b..<b + 104} \<subseteq> {0..<CONFIG_GNRC_PKTBUF_SIZE} - ubytes {})
     | Some a \<Rightarrow> {a..<a + 104} \<subseteq> {0..<CONFIG_GNRC_PKTBUF_SIZE} - ubytes {} \<and>
         (\<forall>b<a. \<not> {b..<b + 104} \<subseteq> {0..<CONFIG_GNRC_PKTBUF_SIZE} - ubytes {}) \<and>
         pk_inv s' (insert (a, 104) {}) \<and> (\<forall>x\<in>ubytes {}. pmem s' x = pmem (gnrc_pktbuf_init some_pktbuf) x)"
    using pktbuf_alloc_first_fit [OF pk_inv_init [of some_pktbuf], of 100, unfolded al] by auto
  have fit: "{0..<0 + (104 :: nat)} \<subseteq> {0..<CONFIG_GNRC_PKTBUF_SIZE} - ubytes {}" by (auto simp: pktbuf_consts)
  have "p = Some 0" using p(2) fit by (cases p) (auto dest: spec [of _ 0])
  with p show ?thesis by auto
qed

text \<open>
  (C11) The packet buffer never leaks or corrupts memory: from the initialised buffer, any sequence of allocations (of at least one and fewer than
  2 to the 32 less 7 bytes each) and frees is served without an error; at every moment the chunks held
  are disjoint and lie in the buffer, and free and used chunks tile it; and once every chunk has
  been given back, in whatever order, the free list is again the one chunk of the whole buffer.
\<close>
theorem pktbuf_never_leaks:
  assumes "\<forall>n. Alloc n \<in> set rs \<longrightarrow> 0 < n \<and> n < 2 ^ 32 - 7"
  shows "\<exists>s L. serve pktbuf_alloc (\<lambda>a n s. pktbuf_free (In a) n s) rs (gnrc_pktbuf_init s0, []) = Some (s, L) \<and>
     disjoint_chunks (set (map (\<lambda>(a, n). (a, align n)) L)) \<and> distinct (map (\<lambda>(a, n). (a, align n)) L) \<and>
     pk_inv s (set (map (\<lambda>(a, n). (a, align n)) L)) \<and> (L = [] \<longrightarrow> gnrc_pktbuf_is_empty s = Some True)"
proof -
  obtain s L where "serve pktbuf_alloc pool_free rs (gnrc_pktbuf_init s0, []) = Some (s, L)"
      "pk_inv s (set (pool.held L))" "distinct (pool.held L)"
    using pool.serve_ok [of "gnrc_pktbuf_init s0" "[]" rs] pk_inv_init assms by (auto simp: pool.held_def)
  moreover from this have "disjoint_chunks (set (pool.held L))" by (simp add: pk_inv_def)
  ultimately show ?thesis using pk_inv_empty by (intro exI [of _ s] exI [of _ L]) (auto simp: pool.held_def)
qed

theorem pktbuf_never_leaks_witness:
  "\<exists>s L. serve pktbuf_alloc (\<lambda>a n s. pktbuf_free (In a) n s) [Alloc 20, Alloc 100, Alloc 33, Free 1, Free 0, Free 0]
       (gnrc_pktbuf_init some_pktbuf, []) = Some (s, L) \<and> (L = [] \<longrightarrow> gnrc_pktbuf_is_empty s = Some True)"
  using pktbuf_never_leaks [of "[Alloc 20, Alloc 100, Alloc 33, Free 1, Free 0, Free 0]" some_pktbuf] by auto

end
