(* ===== verification/Pktbuf_Packets.thy ===== *)
theory Pktbuf_Packets
  imports Pktbuf_Props
begin

text \<open>
  The packet operations of the packet buffer: what they own, what they copy and what they give back.
\<close>

section \<open>Packets and what they own\<close>

text \<open>The chunks of a snip: its descriptor and its data.\<close>

fun snip_chunks :: "nat \<times> gnrc_pktsnip \<Rightarrow> (nat \<times> nat) list" where
  "snip_chunks (a, r) = (a, 24) # (case sdata r of In d \<Rightarrow> [(d, align (ssize r))] | _ \<Rightarrow> [])"

definition snip_ok :: "gnrc_pktsnip \<Rightarrow> bool" where
  "snip_ok r \<longleftrightarrow> ssize r = 0 \<and> sdata r = DNull \<or>
     (\<exists>d. sdata r = In d) \<and> 0 < ssize r \<and> ssize r \<le> CONFIG_GNRC_PKTBUF_SIZE"

fun pkt_at :: "pktbuf \<Rightarrow> nat option \<Rightarrow> (nat \<times> gnrc_pktsnip) list \<Rightarrow> bool" where
  "pkt_at s p [] \<longleftrightarrow> p = None"
| "pkt_at s p ((a, r) # rs) \<longleftrightarrow> p = Some a \<and> get_snip a s = Some r \<and> pkt_at s (snext r) rs"

definition pchunks :: "(nat \<times> gnrc_pktsnip) list \<Rightarrow> (nat \<times> nat) list" where
  "pchunks rs = concat (map snip_chunks rs)"

definition payload :: "pktbuf \<Rightarrow> gnrc_pktsnip \<Rightarrow> slot list" where
  "payload s r = (case sdata r of In d \<Rightarrow> map (\<lambda>i. pmem s (d + i)) [0..<ssize r] | _ \<Rightarrow> [])"

text \<open>A packet in the buffer, owning its chunks among the used chunks \<open>U\<close>.\<close>

definition pkt_inv :: "pktbuf \<Rightarrow> (nat \<times> nat) set \<Rightarrow> nat option \<Rightarrow> (nat \<times> gnrc_pktsnip) list \<Rightarrow> bool" where
  "pkt_inv s U p rs \<longleftrightarrow> pk_inv s U \<and> pkt_at s p rs \<and> distinct (pchunks rs) \<and> set (pchunks rs) \<subseteq> U \<and>
     (\<forall>c\<in>set rs. snip_ok (snd c))"

definition same_on :: "(nat \<times> nat) set \<Rightarrow> pktbuf \<Rightarrow> pktbuf \<Rightarrow> bool" where
  "same_on U s s' \<longleftrightarrow> (\<forall>x\<in>ubytes U. pmem s' x = pmem s x)"

lemma align_snip [simp]: "align sizeof_pktsnip = 24"
  by (simp add: align_eq sizeof_pktsnip_def)

lemma same_on_trans: "same_on U s s' \<Longrightarrow> same_on U s' s'' \<Longrightarrow> same_on U s s''"
  by (simp add: same_on_def)

lemma same_on_subset: "same_on U s s' \<Longrightarrow> V \<subseteq> U \<Longrightarrow> same_on V s s'"
  by (auto simp: same_on_def ubytes_def)

lemma same_on_refl [simp]: "same_on U s s"
  by (simp add: same_on_def)

lemma in_ubytes: "(a, n) \<in> U \<Longrightarrow> i < n \<Longrightarrow> a + i \<in> ubytes U"
  by (force simp: ubytes_def cbytes_def)

lemma get_snip_same: "same_on U s s' \<Longrightarrow> (a, 24) \<in> U \<Longrightarrow> get_snip a s' = get_snip a s"
  using in_ubytes [of a 24 U 0] by (simp add: same_on_def get_snip_def)

lemma snip_size: "snip_ok r \<Longrightarrow> ssize r \<le> align (ssize r)"
  by (rule align_ge) (auto simp: snip_ok_def pktbuf_consts)

lemma payload_same:
  assumes "same_on U s s'" "set (tl (snip_chunks (a, r))) \<subseteq> U" "snip_ok r"
  shows "payload s' r = payload s r"
proof (cases "sdata r")
  case (In d)
  have "pmem s' (d + i) = pmem s (d + i)" if "i < ssize r" for i
    using assms(1,2) In in_ubytes [of d "align (ssize r)" U i] snip_size [OF assms(3)] that by (simp add: same_on_def)
  then show ?thesis using In by (simp add: payload_def)
qed (simp_all add: payload_def)

lemma payload_of:
  assumes "same_on U s s'" "set (pchunks rs) \<subseteq> U" "(b, r) \<in> set rs" "\<forall>c\<in>set rs. snip_ok (snd c)"
  shows "payload s' r = payload s r"
proof (rule payload_same [OF assms(1), of b])
  have "set (snip_chunks (b, r)) \<subseteq> U" using assms(2,3) by (force simp: pchunks_def simp del: snip_chunks.simps)
  then show "set (tl (snip_chunks (b, r))) \<subseteq> U" by simp
qed (use assms(3,4) in force)

lemma pkt_at_same: "same_on U s s' \<Longrightarrow> set (pchunks rs) \<subseteq> U \<Longrightarrow> pkt_at s p rs \<Longrightarrow> pkt_at s' p rs"
  by (induction rs arbitrary: p) (auto simp: pchunks_def get_snip_same)

lemma pk_inv_chunk: "pk_inv s U \<Longrightarrow> c \<in> U \<Longrightarrow> chunk c"
  by (simp add: pk_inv_def disjoint_chunks_def)

lemma pk_inv_disjoint: "pk_inv s U \<Longrightarrow> c \<in> U \<Longrightarrow> d \<in> U \<Longrightarrow> c \<noteq> d \<Longrightarrow> cbytes c \<inter> cbytes d = {}"
  by (simp add: pk_inv_def disjoint_chunks_def)

lemma fresh_chunk: "chunk c \<Longrightarrow> cbytes c \<inter> ubytes U = {} \<Longrightarrow> c \<notin> U"
  using chunk_bytes [of c] by (auto simp: ubytes_def)

section \<open>Allocating and freeing, as packets use them\<close>

lemma alloc_cases:
  assumes "pk_inv s U" "0 < sz" "sz \<le> CONFIG_GNRC_PKTBUF_SIZE"
  obtains "pktbuf_alloc sz s = Some (None, s)"
  | a s' where "pktbuf_alloc sz s = Some (Some a, s')" "pk_inv s' (insert (a, align sz) U)" "cbytes (a, align sz) \<inter> ubytes U = {}"
      "(a, align sz) \<notin> U" "same_on U s s'" "outside s' = outside s"
proof -
  have "sz < 2 ^ 32 - 7" using assms(3) by (simp add: pktbuf_consts)
  from pk_inv_alloc [OF assms(1,2) this] show thesis
  proof (elim disjE exE conjE)
    fix a s' assume h: "pktbuf_alloc sz s = Some (Some a, s')" "pk_inv s' (insert (a, align sz) U)"
      "cbytes (a, align sz) \<inter> ubytes U = {}" "\<forall>x\<in>ubytes U. pmem s' x = pmem s x" "outside s' = outside s"
    have "(a, align sz) \<notin> U" using h(3) pk_inv_chunk [OF h(2)] by (intro fresh_chunk) auto
    with h show thesis by (intro that(2) [of a s']) (auto simp: same_on_def)
  qed (rule that(1))
qed

lemma free_chunk:
  assumes "pk_inv s U" "(a, align sz) \<in> U"
  obtains s' where "pktbuf_free (In a) sz s = Some s'" "pk_inv s' (U - {(a, align sz)})" "same_on (U - {(a, align sz)}) s s'"
  using pk_inv_free [OF assms] by (auto simp: same_on_def)

text \<open>Writing inside a used chunk.\<close>

lemma write_chunk:
  assumes "pk_inv s U" "c \<in> U" "\<And>x. x \<notin> cbytes c \<Longrightarrow> pmem s' x = pmem s x" "first_unused s' = first_unused s"
  shows "pk_inv s' U" "same_on (U - {c}) s s'"
proof -
  show "pk_inv s' U"
  proof (rule pk_inv_frame [OF assms(1) _ assms(4)])
    fix x assume "x \<notin> ubytes U"
    then show "pmem s' x = pmem s x" using assms(2) by (intro assms(3)) (auto simp: ubytes_def)
  qed
  have "ubytes (U - {c}) \<inter> cbytes c = {}" using pk_inv_disjoint [OF assms(1)] assms(2) by (fastforce simp: ubytes_def)
  then show "same_on (U - {c}) s s'" using assms(3) by (auto simp: same_on_def)
qed

lemma set_pktsnip_chunk:
  assumes "pk_inv s U" "(a, 24) \<in> U"
  shows "pk_inv (set_pktsnip a nx d sz ty s) U" "same_on (U - {(a, 24)}) s (set_pktsnip a nx d sz ty s)"
    "get_snip a (set_pktsnip a nx d sz ty s) = Some \<lparr>snext = nx, sdata = d, ssize = sz, susers = 1, stype = ty\<rparr>"
  using assms
  by (auto intro!: write_chunk [of s U "(a, 24)"] simp: set_pktsnip_def put_obj_def cbytes_def get_snip_def sizeof_pktsnip_def)

lemma upd_snip_chunk:
  assumes "pk_inv s U" "(a, 24) \<in> U" "get_snip a s = Some r"
  obtains s' where "upd_snip a f s = Some s'" "pk_inv s' U" "same_on (U - {(a, 24)}) s s'" "get_snip a s' = Some (f r)"
proof -
  let ?s = "s\<lparr>pmem := (pmem s)(a := Snip (f r))\<rparr>"
  have "pk_inv ?s U" "same_on (U - {(a, 24)}) s ?s"
    using assms by (auto intro!: write_chunk [of s U "(a, 24)"] simp: cbytes_def)
  with assms(3) show thesis by (intro that [of ?s]) (auto simp: upd_snip_def get_snip_def)
qed

text \<open>Where a copy may read from: outside the buffer, or used chunks.\<close>

fun readable :: "(nat \<times> nat) set \<Rightarrow> dptr \<Rightarrow> nat \<Rightarrow> bool" where
  "readable U (In d) n \<longleftrightarrow> {d..<d + n} \<subseteq> ubytes U"
| "readable U (Out d) n \<longleftrightarrow> True"
| "readable U DNull n \<longleftrightarrow> n = 0"

lemma fetch_same: "same_on U s s' \<Longrightarrow> outside s' = outside s \<Longrightarrow> readable U p n \<Longrightarrow> i < n \<Longrightarrow> fetch s' p i = fetch s p i"
  by (cases p) (auto simp: same_on_def subset_iff)

lemma memcpy_chunk:
  assumes "pk_inv s U" "(d, m) \<in> U" "readable V p n" "0 < n" "n \<le> m"
  obtains s' where "memcpy d p n s = Some s'" "pk_inv s' U" "same_on (U - {(d, m)}) s s'" "outside s' = outside s"
    "\<forall>i<n. pmem s' (d + i) = the (fetch s p i)"
proof -
  let ?s = "s\<lparr>pmem := (\<lambda>x. if d \<le> x \<and> x < d + n then the (fetch s p (x - d)) else pmem s x)\<rparr>"
  have "fetch s p 0 \<noteq> None" using assms(3,4) by (cases p) auto
  then have "memcpy d p n s = Some ?s" using assms(4) by (auto simp: memcpy_def)
  moreover have "pk_inv ?s U" "same_on (U - {(d, m)}) s ?s"
    using assms(1,2,5) by (auto intro!: write_chunk [of s U "(d, m)"] simp: cbytes_def)
  ultimately show thesis by (intro that [of ?s]) auto
qed

section \<open>Creating a snip\<close>

text \<open>A new snip \<open>r\<close> at \<open>a\<close>, beside the chunks \<open>U\<close> that were in use before.\<close>

definition new_snip :: "pktbuf \<Rightarrow> (nat \<times> nat) set \<Rightarrow> nat \<Rightarrow> gnrc_pktsnip \<Rightarrow> bool" where
  "new_snip s U a r \<longleftrightarrow> get_snip a s = Some r \<and> susers r = 1 \<and> snip_ok r \<and> distinct (snip_chunks (a, r)) \<and>
     set (snip_chunks (a, r)) \<inter> U = {} \<and> pk_inv s (U \<union> set (snip_chunks (a, r)))"

lemma set_new_snip_empty:
  assumes "pk_inv s (insert (a, 24) U)" "(a, 24) \<notin> U"
  shows "new_snip (set_pktsnip a nx DNull 0 ty s) U a \<lparr>snext = nx, sdata = DNull, ssize = 0, susers = 1, stype = ty\<rparr>"
  using set_pktsnip_chunk(1,3) [OF assms(1), of a nx DNull 0 ty] assms(2) by (simp add: new_snip_def snip_ok_def)

lemma set_new_snip_data:
  assumes "pk_inv s (insert (d, align sz) (insert (a, 24) U))" "(a, 24) \<notin> U" "(d, align sz) \<notin> insert (a, 24) U"
    and "0 < sz" "sz \<le> CONFIG_GNRC_PKTBUF_SIZE"
  shows "new_snip (set_pktsnip a nx (In d) sz ty s) U a \<lparr>snext = nx, sdata = In d, ssize = sz, susers = 1, stype = ty\<rparr>"
  using set_pktsnip_chunk(1,3) [OF assms(1), of a nx "In d" sz ty] assms(2-)
  by (auto simp: new_snip_def snip_ok_def insert_commute)

text \<open>Filling the data of a new snip and setting its fields.\<close>

lemma fill_snip:
  assumes inv: "pk_inv s (insert (d, align sz) (insert (a, 24) U))" and fresh: "(a, 24) \<notin> U" "(d, align sz) \<notin> insert (a, 24) U"
    and sz: "0 < sz" "sz \<le> CONFIG_GNRC_PKTBUF_SIZE" and src: "src \<noteq> DNull \<longrightarrow> readable U src sz"
  shows "\<exists>s'. (if src \<noteq> DNull then memcpy d src sz s else Some s) = Some s' \<and>
     same_on U s (set_pktsnip a nx (In d) sz ty s') \<and>
     new_snip (set_pktsnip a nx (In d) sz ty s') U a \<lparr>snext = nx, sdata = In d, ssize = sz, susers = 1, stype = ty\<rparr> \<and>
     (src \<noteq> DNull \<longrightarrow> payload (set_pktsnip a nx (In d) sz ty s') \<lparr>snext = nx, sdata = In d, ssize = sz, susers = 1, stype = ty\<rparr> =
        map (\<lambda>i. the (fetch s src i)) [0..<sz])"
proof -
  let ?U = "insert (d, align sz) (insert (a, 24) U)"
  have al: "sz \<le> align sz" by (rule align_ge) (use sz in \<open>simp add: pktbuf_consts\<close>)
  obtain t where t: "(if src \<noteq> DNull then memcpy d src sz s else Some s) = Some t" "pk_inv t ?U"
      "same_on (?U - {(d, align sz)}) s t" "src \<noteq> DNull \<longrightarrow> (\<forall>i < sz. pmem t (d + i) = the (fetch s src i))"
  proof (cases "src = DNull")
    case False
    obtain t where "memcpy d src sz s = Some t" "pk_inv t ?U" "same_on (?U - {(d, align sz)}) s t"
        "\<forall>i < sz. pmem t (d + i) = the (fetch s src i)"
      using memcpy_chunk [OF inv insertI1 src [rule_format, OF False] sz(1) al] by blast
    with False that show thesis by simp
  qed (use inv that in auto)
  let ?s = "set_pktsnip a nx (In d) sz ty t" and ?r = "\<lparr>snext = nx, sdata = In d, ssize = sz, susers = 1, stype = ty\<rparr>"
  have f: "same_on (?U - {(a, 24)}) t ?s" using set_pktsnip_chunk(2) [OF t(2)] by simp
  have "same_on U s ?s"
    by (rule same_on_trans [OF same_on_subset [OF t(3)] same_on_subset [OF f]]) (use fresh in auto)
  moreover have "payload ?s ?r = map (\<lambda>i. the (fetch s src i)) [0..<sz]" if nn: "src \<noteq> DNull"
  proof -
    have "pmem ?s (d + i) = the (fetch s src i)" if i: "i < sz" for i
    proof -
      have "d + i \<in> ubytes (?U - {(a, 24)})"
        using in_ubytes [of d "align sz" "?U - {(a, 24)}" i] fresh(2) i al by auto
      then show ?thesis using f t(4) nn i by (simp add: same_on_def)
    qed
    then show ?thesis by (simp add: payload_def)
  qed
  ultimately show ?thesis using t(1) set_new_snip_data [OF t(2) fresh sz] by blast
qed

lemma create_snip_spec:
  assumes inv: "pk_inv s U" and sz: "sz \<le> CONFIG_GNRC_PKTBUF_SIZE" and src: "src \<noteq> DNull \<longrightarrow> readable U src sz"
  shows "\<exists>q s'. create_snip nx src sz ty s = Some (q, s') \<and> same_on U s s' \<and>
    (case q of None \<Rightarrow> pk_inv s' U
     | Some a \<Rightarrow> \<exists>r. new_snip s' U a r \<and> snext r = nx \<and> ssize r = sz \<and> stype r = ty \<and>
         (src \<noteq> DNull \<longrightarrow> payload s' r = map (\<lambda>i. the (fetch s src i)) [0..<sz]))"
proof -
  have 20: "0 < sizeof_pktsnip" "sizeof_pktsnip \<le> CONFIG_GNRC_PKTBUF_SIZE" by (simp_all add: pktbuf_consts)
  show ?thesis
  proof (cases rule: alloc_cases [OF inv 20])
    case 1
    then show ?thesis using inv by (simp add: create_snip_def)
  next
    case (2 a s1)
    note a = 2 [unfolded align_snip]
    show ?thesis
    proof (cases "sz = 0")
      case True
      let ?s = "set_pktsnip a nx DNull 0 ty s1"
      have "same_on U s ?s"
        by (rule same_on_trans [OF a(5) same_on_subset [OF set_pktsnip_chunk(2) [OF a(2)]]]) (use a(4) in auto)
      moreover have "create_snip nx src sz ty s = Some (Some a, ?s)" using True a(1) by (simp add: create_snip_def)
      moreover note set_new_snip_empty [OF a(2,4), of nx ty]
      ultimately show ?thesis using True by (force simp: payload_def)
    next
      case False
      then have pos: "0 < sz" by simp
      show ?thesis
      proof (cases rule: alloc_cases [OF a(2) pos sz])
        case 1
        obtain s2 where "pktbuf_free (In a) sizeof_pktsnip s1 = Some s2" "pk_inv s2 (insert (a, 24) U - {(a, 24)})"
            "same_on (insert (a, 24) U - {(a, 24)}) s1 s2"
          using free_chunk [OF a(2), of a sizeof_pktsnip] by auto
        with 1 a pos show ?thesis by (auto simp: create_snip_def intro: same_on_trans)
      next
        case (2 d s2)
        have u2: "same_on U s s2" by (rule same_on_trans [OF a(5) same_on_subset [OF 2(5)]]) auto
        obtain s3 where s3: "(if src \<noteq> DNull then memcpy d src sz s2 else Some s2) = Some s3"
            "same_on U s2 (set_pktsnip a nx (In d) sz ty s3)"
            "new_snip (set_pktsnip a nx (In d) sz ty s3) U a \<lparr>snext = nx, sdata = In d, ssize = sz, susers = 1, stype = ty\<rparr>"
            "src \<noteq> DNull \<longrightarrow> payload (set_pktsnip a nx (In d) sz ty s3) \<lparr>snext = nx, sdata = In d, ssize = sz, susers = 1, stype = ty\<rparr> =
               map (\<lambda>i. the (fetch s2 src i)) [0..<sz]"
          using fill_snip [OF 2(2) a(4) 2(4) pos sz src, of nx ty] by (elim exE conjE) (rule that, assumption+)
        have e: "map (\<lambda>i. the (fetch s2 src i)) [0..<sz] = map (\<lambda>i. the (fetch s src i)) [0..<sz]" if "src \<noteq> DNull"
          using fetch_same [OF u2 _ src [rule_format, OF that]] 2(6) a(6) by simp
        have "create_snip nx src sz ty s = Some (Some a, set_pktsnip a nx (In d) sz ty s3)"
          using a(1) 2(1) s3(1) pos by (simp add: create_snip_def)
        moreover have "same_on U s (set_pktsnip a nx (In d) sz ty s3)" by (rule same_on_trans [OF u2 s3(2)])
        moreover have "\<exists>r. new_snip (set_pktsnip a nx (In d) sz ty s3) U a r \<and> snext r = nx \<and> ssize r = sz \<and> stype r = ty \<and>
            (src \<noteq> DNull \<longrightarrow> payload (set_pktsnip a nx (In d) sz ty s3) r = map (\<lambda>i. the (fetch s src i)) [0..<sz])"
          using s3(3,4) e by (intro exI [of _ "\<lparr>snext = nx, sdata = In d, ssize = sz, susers = 1, stype = ty\<rparr>"]) simp
        ultimately show ?thesis by simp
      qed
    qed
  qed
qed

text \<open>
  Adding a snip to a packet: \<open>gnrc_pktbuf_add\<close> puts a new snip with one user in front of the
  packet, whose data are the bytes it was given, and changes nothing of the packet or of any
  other used chunk; or it returns NULL, and everything it allocated on the way is free again.
\<close>
theorem gnrc_pktbuf_add_prepends:
  assumes "pkt_inv s U p rs" and "src \<noteq> DNull \<longrightarrow> readable U src sz"
  shows "\<exists>q s'. gnrc_pktbuf_add p src sz ty s = Some (q, s') \<and> (\<forall>x\<in>ubytes U. pmem s' x = pmem s x) \<and>
    (case q of
       None \<Rightarrow> pkt_inv s' U p rs
     | Some a \<Rightarrow> \<exists>r. pkt_inv s' (U \<union> set (snip_chunks (a, r))) q ((a, r) # rs) \<and> set (snip_chunks (a, r)) \<inter> U = {} \<and>
         susers r = 1 \<and> ssize r = sz \<and> stype r = ty \<and>
         (src \<noteq> DNull \<longrightarrow> payload s' r = map (\<lambda>i. the (fetch s src i)) [0..<sz]))"
proof (cases "sz \<le> CONFIG_GNRC_PKTBUF_SIZE")
  case True
  note p = assms(1) [unfolded pkt_inv_def]
  obtain q s' where q: "create_snip p src sz ty s = Some (q, s')" "same_on U s s'"
    "case q of None \<Rightarrow> pk_inv s' U
     | Some a \<Rightarrow> \<exists>r. new_snip s' U a r \<and> snext r = p \<and> ssize r = sz \<and> stype r = ty \<and>
         (src \<noteq> DNull \<longrightarrow> payload s' r = map (\<lambda>i. the (fetch s src i)) [0..<sz])"
    using create_snip_spec [OF conjunct1 [OF p] True assms(2), of p ty] by blast
  have at: "pkt_at s' p rs" using pkt_at_same [OF q(2)] p by blast
  have "case q of None \<Rightarrow> pkt_inv s' U p rs
     | Some a \<Rightarrow> \<exists>r. pkt_inv s' (U \<union> set (snip_chunks (a, r))) q ((a, r) # rs) \<and> set (snip_chunks (a, r)) \<inter> U = {} \<and>
         susers r = 1 \<and> ssize r = sz \<and> stype r = ty \<and>
         (src \<noteq> DNull \<longrightarrow> payload s' r = map (\<lambda>i. the (fetch s src i)) [0..<sz])"
  proof (cases q)
    case None
    then show ?thesis using q(3) p at by (simp add: pkt_inv_def)
  next
    case (Some a)
    then obtain r where r: "new_snip s' U a r" "snext r = p" "ssize r = sz" "stype r = ty"
      "src \<noteq> DNull \<longrightarrow> payload s' r = map (\<lambda>i. the (fetch s src i)) [0..<sz]" using q(3) by auto
    have "pkt_inv s' (U \<union> set (snip_chunks (a, r))) q ((a, r) # rs)"
      using r p at Some unfolding pkt_inv_def new_snip_def pchunks_def by (auto simp del: snip_chunks.simps)
    with Some r show ?thesis by (auto simp: new_snip_def simp del: snip_chunks.simps)
  qed
  with q(1,2) True show ?thesis by (auto simp: gnrc_pktbuf_add_def same_on_def)
next
  case False
  then show ?thesis using assms(1) by (simp add: gnrc_pktbuf_add_def)
qed

lemma fit_loop_eval:
  "fit_loop sz prev None m = Some (prev, None)"
  "fit_loop sz prev (Some p) m =
     do { (nx, n) \<leftarrow> get_unused p m; if n < sz then fit_loop sz (Some p) nx m else Some (prev, Some p) }"
  by (subst fit_loop.simps, simp)+

lemma place_loop_eval:
  "place_loop a prev None m = Some (prev, None)"
  "place_loop a prev (Some p) m =
     (if p < a then do { (nx, _) \<leftarrow> get_unused p m; place_loop a (Some p) nx m } else Some (prev, Some p))"
  by (subst place_loop.simps, simp)+

lemma first_add: "\<exists>t. gnrc_pktbuf_add None (Out 7) 5 1 (gnrc_pktbuf_init some_pktbuf) = Some (Some 0, t)"
  by (simp add: gnrc_pktbuf_add_def create_snip_def pktbuf_alloc_def fit_loop_eval gnrc_pktbuf_init_def some_pktbuf_def
      relink_def get_unused_def put_obj_def memcpy_def align_eq pktbuf_consts)

theorem gnrc_pktbuf_add_prepends_witness:
  "\<exists>s' r. gnrc_pktbuf_add None (Out 7) 5 1 (gnrc_pktbuf_init some_pktbuf) = Some (Some 0, s') \<and>
    pkt_inv s' (set (snip_chunks (0, r))) (Some 0) [(0, r)] \<and> payload s' r = [Byte 7, Byte 8, Byte 9, Byte 10, Byte 11]"
proof -
  let ?s = "gnrc_pktbuf_init some_pktbuf"
  have p: "pkt_inv ?s {} None []" "Out 7 \<noteq> DNull \<longrightarrow> readable {} (Out 7) 5" by (simp_all add: pkt_inv_def pk_inv_init pchunks_def)
  obtain s' where s': "gnrc_pktbuf_add None (Out 7) 5 1 ?s = Some (Some 0, s')" using first_add by blast
  then obtain r where "pkt_inv s' ({} \<union> set (snip_chunks (0, r))) (Some 0) [(0, r)]"
      "Out 7 \<noteq> DNull \<longrightarrow> payload s' r = map (\<lambda>i. the (fetch ?s (Out 7) i)) [0..<5]"
    using gnrc_pktbuf_add_prepends [OF p, of 1] by (auto simp del: snip_chunks.simps)
  moreover have "map (\<lambda>i. the (fetch ?s (Out 7) i)) [0..<5] = [Byte 7, Byte 8, Byte 9, Byte 10, Byte 11]"
    by (simp add: upt_rec gnrc_pktbuf_init_def some_pktbuf_def)
  ultimately show ?thesis using s' by (auto simp del: snip_chunks.simps)
qed

section \<open>Releasing a packet\<close>

lemma pk_inv_diff: "pk_inv s (U - {c} - V) \<longleftrightarrow> pk_inv s (U - insert c V)"
  by (simp add: Diff_insert2 [symmetric] insert_Diff_if)

lemma free_data:
  assumes "pk_inv s U" "set (snip_chunks (a, r)) \<subseteq> U" "snip_ok r"
  obtains s' where "pktbuf_free (sdata r) (ssize r) s = Some s'" "pk_inv s' (U - set (tl (snip_chunks (a, r))))"
    "same_on (U - set (tl (snip_chunks (a, r)))) s s'"
proof (cases "sdata r")
  case (In d)
  then have "(d, align (ssize r)) \<in> U" using assms(2) by simp
  then show ?thesis using In free_chunk [OF assms(1)] that by auto
next
  case DNull
  then show ?thesis using that assms(1) by (simp add: pktbuf_free_def)
next
  case (Out d)
  then show ?thesis using assms(3) by (simp add: snip_ok_def)
qed

lemma release_last:
  assumes "pk_inv s U" "get_snip a s = Some r" "set (snip_chunks (a, r)) \<subseteq> U" "distinct (snip_chunks (a, r))" "snip_ok r" "susers r = 1"
  shows "\<exists>s'. release_snip a s = Some s' \<and> pk_inv s' (U - set (snip_chunks (a, r))) \<and> same_on (U - set (snip_chunks (a, r))) s s'"
proof -
  let ?d = "set (tl (snip_chunks (a, r)))"
  have a: "(a, 24) \<in> U" "(a, 24) \<notin> ?d" using assms(3,4) by auto
  obtain s1 where s1: "upd_snip a (\<lambda>r. r\<lparr>susers := 0\<rparr>) s = Some s1" "pk_inv s1 U" "same_on (U - {(a, 24)}) s s1"
    using upd_snip_chunk [OF assms(1) a(1) assms(2)] by blast
  obtain s2 where s2: "pktbuf_free (sdata r) (ssize r) s1 = Some s2" "pk_inv s2 (U - ?d)" "same_on (U - ?d) s1 s2"
    using free_data [OF s1(2) assms(3,5)] by blast
  obtain s3 where s3: "pktbuf_free (In a) sizeof_pktsnip s2 = Some s3" "pk_inv s3 (U - ?d - {(a, 24)})"
      "same_on (U - ?d - {(a, 24)}) s2 s3"
    using free_chunk [OF s2(2), of a sizeof_pktsnip] a by auto
  have e: "U - ?d - {(a, 24)} = U - set (snip_chunks (a, r))" by auto
  have "pktbuf_contains (In a)" using pk_inv_chunk [OF assms(1) a(1)] by (simp add: chunk_def)
  then have "release_snip a s = Some s3" using assms(2,6) s1(1) s2(1) s3(1) by (simp add: release_snip_def)
  moreover have "same_on (U - set (snip_chunks (a, r))) s s3"
    by (rule same_on_trans [OF same_on_trans [OF same_on_subset [OF s1(3)] same_on_subset [OF s2(3)]] s3(3) [unfolded e]]) auto
  ultimately show ?thesis using s3(2) unfolding e by blast
qed

lemma release_shared:
  assumes "pk_inv s U" "get_snip a s = Some r" "(a, 24) \<in> U" "1 < susers r"
  shows "\<exists>s'. release_snip a s = Some s' \<and> pk_inv s' U \<and> same_on (U - {(a, 24)}) s s' \<and>
    get_snip a s' = Some (r\<lparr>susers := susers r - 1\<rparr>)"
proof -
  obtain s1 where s1: "upd_snip a (\<lambda>r. r\<lparr>susers := susers r - 1\<rparr>) s = Some s1" "pk_inv s1 U" "same_on (U - {(a, 24)}) s s1"
      "get_snip a s1 = Some (r\<lparr>susers := susers r - 1\<rparr>)"
    using upd_snip_chunk [OF assms(1,3,2)] by blast
  have "pktbuf_contains (In a)" using pk_inv_chunk [OF assms(1,3)] by (simp add: chunk_def)
  with s1 assms(2,4) show ?thesis by (simp add: release_snip_def)
qed

definition last_user :: "nat \<times> gnrc_pktsnip \<Rightarrow> bool" where
  "last_user c \<longleftrightarrow> susers (snd c) = 1"

lemma release_chain:
  "\<lbrakk>pkt_inv s U p rs; \<forall>c\<in>set rs. 0 < susers (snd c)\<rbrakk> \<Longrightarrow>
   \<exists>s'. release_error_locked p s = Some s' \<and> pk_inv s' (U - set (pchunks (filter last_user rs))) \<and>
     same_on (U - set (pchunks rs)) s s' \<and>
     (\<forall>(a, r)\<in>set rs. 1 < susers r \<longrightarrow> get_snip a s' = Some (r\<lparr>susers := susers r - 1\<rparr>) \<and> payload s' r = payload s r)"
proof (induction rs arbitrary: s U p)
  case Nil
  then show ?case by (subst release_error_locked.simps) (simp add: pkt_inv_def pchunks_def)
next
  case (Cons c rs)
  obtain a r where c: "c = (a, r)" by force
  let ?C = "set (snip_chunks (a, r))" and ?P = "set (pchunks rs)"
  note pi = Cons.prems(1) [unfolded pkt_inv_def c]
  have h: "pk_inv s U" "p = Some a" "get_snip a s = Some r" "pkt_at s (snext r) rs" "snip_ok r" "\<forall>c\<in>set rs. snip_ok (snd c)"
    using pi by auto
  have ch: "?C \<subseteq> U" "?P \<subseteq> U" "?C \<inter> ?P = {}" "distinct (snip_chunks (a, r))" "distinct (pchunks rs)"
    using pi by (auto simp: pchunks_def simp del: snip_chunks.simps)
  have a: "(a, 24) \<in> ?C" "set (tl (snip_chunks (a, r))) \<subseteq> ?C - {(a, 24)}" using ch(4) by auto
  have step: "release_error_locked p s = do { s \<leftarrow> release_snip a s; release_error_locked (snext r) s }"
    using h(2,3) by (subst release_error_locked.simps) simp
  show ?case
  proof (cases "susers r = 1")
    case True
    obtain s1 where s1: "release_snip a s = Some s1" "pk_inv s1 (U - ?C)" "same_on (U - ?C) s s1"
      using release_last [OF h(1,3) ch(1,4) h(5) True] by blast
    have P: "?P \<subseteq> U - ?C" using ch(2,3) by blast
    have "pkt_inv s1 (U - ?C) (snext r) rs"
      unfolding pkt_inv_def using s1(2) P pkt_at_same [OF s1(3) P h(4)] ch(5) h(6) by blast
    then obtain s' where s': "release_error_locked (snext r) s1 = Some s'" "pk_inv s' (U - ?C - set (pchunks (filter last_user rs)))"
        "same_on (U - ?C - ?P) s1 s'"
        "\<forall>(a, r)\<in>set rs. 1 < susers r \<longrightarrow> get_snip a s' = Some (r\<lparr>susers := susers r - 1\<rparr>) \<and> payload s' r = payload s1 r"
      using Cons.IH [of s1 "U - ?C" "snext r"] Cons.prems(2) by auto
    have "payload s1 r' = payload s r'" if "(b, r') \<in> set rs" for b r'
      by (rule payload_of [OF s1(3) P that h(6)])
    then have "\<forall>(a, r)\<in>set rs. 1 < susers r \<longrightarrow> get_snip a s' = Some (r\<lparr>susers := susers r - 1\<rparr>) \<and> payload s' r = payload s r"
      using s'(4) by fastforce
    moreover have e: "U - ?C - X = U - (?C \<union> X)" for X by blast
    moreover have "same_on (U - (?C \<union> ?P)) s s'"
      by (rule same_on_trans [OF same_on_subset [OF s1(3)] s'(3) [unfolded e]]) blast
    ultimately show ?thesis using s'(1,2) s1(1) step True c
      by (intro exI [of _ s']) (auto simp: pchunks_def last_user_def simp del: snip_chunks.simps)
  next
    case False
    then have big: "1 < susers r" using Cons.prems(2) c by (auto simp: nat_neq_iff)
    have aU: "(a, 24) \<in> U" using a ch(1) by blast
    obtain s1 where s1: "release_snip a s = Some s1" "pk_inv s1 U" "same_on (U - {(a, 24)}) s s1"
        "get_snip a s1 = Some (r\<lparr>susers := susers r - 1\<rparr>)"
      using release_shared [OF h(1,3) aU big] by blast
    have P: "?P \<subseteq> U - {(a, 24)}" using ch(2,3) a by blast
    have "pkt_inv s1 U (snext r) rs"
      unfolding pkt_inv_def using s1(2) ch(2,5) pkt_at_same [OF s1(3) P h(4)] h(6) by blast
    then obtain s' where s': "release_error_locked (snext r) s1 = Some s'" "pk_inv s' (U - set (pchunks (filter last_user rs)))"
        "same_on (U - ?P) s1 s'"
        "\<forall>(a, r)\<in>set rs. 1 < susers r \<longrightarrow> get_snip a s' = Some (r\<lparr>susers := susers r - 1\<rparr>) \<and> payload s' r = payload s1 r"
      using Cons.IH [of s1 U "snext r"] Cons.prems(2) by auto
    have "payload s1 r' = payload s r'" if "(b, r') \<in> set rs" for b r'
      by (rule payload_of [OF s1(3) P that h(6)])
    then have rest: "\<forall>(a, r)\<in>set rs. 1 < susers r \<longrightarrow> get_snip a s' = Some (r\<lparr>susers := susers r - 1\<rparr>) \<and> payload s' r = payload s r"
      using s'(4) by fastforce
    have dis: "?C \<subseteq> U - ?P" using ch(1,3) by blast
    have "get_snip a s' = Some (r\<lparr>susers := susers r - 1\<rparr>)" using get_snip_same [OF s'(3), of a] s1(4) dis a by auto
    moreover have "payload s' r = payload s1 r" by (rule payload_same [OF s'(3) _ h(5), of a]) (use dis a(2) in blast)
    moreover have "payload s1 r = payload s r" by (rule payload_same [OF s1(3) _ h(5), of a]) (use ch(1) a(2) in blast)
    moreover have "same_on (U - (?C \<union> ?P)) s s'"
      by (rule same_on_trans [OF same_on_subset [OF s1(3)] same_on_subset [OF s'(3)]]) (use a in blast)+
    ultimately show ?thesis using s'(1,2) s1(1) step False c rest
      by (intro exI [of _ s']) (auto simp: pchunks_def last_user_def simp del: snip_chunks.simps)
  qed
qed

lemma first_packet:
  assumes "gnrc_pktbuf_add None (Out 7) 5 1 (gnrc_pktbuf_init some_pktbuf) = Some (Some 0, s)"
  shows "\<exists>r. pkt_inv s (set (snip_chunks (0, r))) (Some 0) [(0, r)] \<and> susers r = 1 \<and>
    payload s r = [Byte 7, Byte 8, Byte 9, Byte 10, Byte 11]"
proof -
  let ?s = "gnrc_pktbuf_init some_pktbuf"
  have b: "Out 7 \<noteq> DNull \<longrightarrow> readable {} (Out 7) 5" "5 \<le> CONFIG_GNRC_PKTBUF_SIZE" by (simp_all add: pktbuf_consts)
  from create_snip_spec [OF pk_inv_init [of some_pktbuf] b(2,1), of None 1] assms obtain r where r: "new_snip s {} 0 r" "snext r = None"
      "payload s r = map (\<lambda>i. the (fetch ?s (Out 7) i)) [0..<5]"
    by (auto simp: gnrc_pktbuf_add_def pktbuf_consts)
  have "map (\<lambda>i. the (fetch ?s (Out 7) i)) [0..<5] = [Byte 7, Byte 8, Byte 9, Byte 10, Byte 11]"
    by (simp add: upt_rec gnrc_pktbuf_init_def some_pktbuf_def)
  with r show ?thesis by (auto simp: pkt_inv_def new_snip_def pchunks_def simp del: snip_chunks.simps)
qed

text \<open>
  (C12) Releasing a packet: every snip of it that had one user is given back, descriptor and data,
  and every other snip has one user less and keeps its data; the rest of the buffer is untouched, and
  when the packet was all there was and had one user, the buffer is empty again.
\<close>
theorem gnrc_pktbuf_release_gives_back:
  assumes "pkt_inv s U p rs" and "\<forall>c\<in>set rs. 0 < susers (snd c)"
  shows "\<exists>s'. gnrc_pktbuf_release p s = Some s' \<and>
     pk_inv s' (U - set (pchunks (filter (\<lambda>c. susers (snd c) = 1) rs))) \<and>
     (\<forall>x\<in>ubytes (U - set (pchunks rs)). pmem s' x = pmem s x) \<and>
     (\<forall>(a, r)\<in>set rs. 1 < susers r \<longrightarrow> get_snip a s' = Some (r\<lparr>susers := susers r - 1\<rparr>) \<and> payload s' r = payload s r) \<and>
     (U = set (pchunks rs) \<and> (\<forall>c\<in>set rs. susers (snd c) = 1) \<longrightarrow> gnrc_pktbuf_is_empty s' = Some True)"
proof -
  obtain s' where s': "release_error_locked p s = Some s'" "pk_inv s' (U - set (pchunks (filter last_user rs)))"
      "same_on (U - set (pchunks rs)) s s'"
      "\<forall>(a, r)\<in>set rs. 1 < susers r \<longrightarrow> get_snip a s' = Some (r\<lparr>susers := susers r - 1\<rparr>) \<and> payload s' r = payload s r"
    using release_chain [OF assms] by blast
  have l: "last_user = (\<lambda>c. susers (snd c) = 1)" by (simp add: last_user_def fun_eq_iff)
  have "gnrc_pktbuf_is_empty s' = Some True" if "U = set (pchunks rs)" "\<forall>c\<in>set rs. susers (snd c) = 1"
    using that s'(2) by (intro pk_inv_empty) (simp add: l)
  with s' show ?thesis unfolding l same_on_def gnrc_pktbuf_release_def by blast
qed

theorem gnrc_pktbuf_release_gives_back_witness:
  "\<exists>s s'. gnrc_pktbuf_add None (Out 7) 5 1 (gnrc_pktbuf_init some_pktbuf) = Some (Some 0, s) \<and>
     gnrc_pktbuf_release (Some 0) s = Some s' \<and> gnrc_pktbuf_is_empty s' = Some True"
proof -
  obtain s where s: "gnrc_pktbuf_add None (Out 7) 5 1 (gnrc_pktbuf_init some_pktbuf) = Some (Some 0, s)" using first_add by blast
  obtain r where r: "pkt_inv s (set (snip_chunks (0, r))) (Some 0) [(0, r)]" "susers r = 1" using first_packet [OF s] by blast
  then have "\<forall>c\<in>set [(0 :: nat, r)]. 0 < susers (snd c)" by simp
  from gnrc_pktbuf_release_gives_back [OF r(1) this] s r(2) show ?thesis
    by (auto simp: pchunks_def simp del: snip_chunks.simps)
qed

section \<open>Marking a part of a snip\<close>

lemma align_add: "8 dvd k \<Longrightarrow> k + n < 2 ^ 32 - 7 \<Longrightarrow> align (k + n) = k + align n"
  by (simp only: align_eq add_lessD1 add.commute [of k n]) presburger

lemma pk_inv_split:
  assumes "pk_inv s U" "(d, A) \<in> U" "8 dvd k" "0 < k" "k < A"
  shows "pk_inv s (insert (d, k) (insert (d + k, A - k) (U - {(d, A)})))"
    "(d, k) \<notin> U - {(d, A)}" "(d + k, A - k) \<notin> U - {(d, A)}"
proof -
  obtain fs where fs: "fseg (pmem s) (first_unused s) fs None" "wff 0 fs" "fbytes fs = {0..<CONFIG_GNRC_PKTBUF_SIZE} - ubytes U"
    and dc: "disjoint_chunks U" using assms(1) by (auto simp: pk_inv_def)
  note rm = ubytes_remove [OF dc assms(2)]
  have ch: "chunk (d, A)" using dc assms(2) by (simp add: disjoint_chunks_def)
  have k8: "8 \<le> k" "8 \<le> A - k" "8 dvd A - k" using assms(3-5) ch by (auto simp: chunk_def) presburger+
  have c: "chunk (d, k)" "chunk (d + k, A - k)" using ch assms(3-5) k8 by (auto simp: chunk_def)
  have sp: "cbytes (d, A) = cbytes (d, k) \<union> cbytes (d + k, A - k)" "cbytes (d, k) \<inter> cbytes (d + k, A - k) = {}"
    using assms(5) by (auto simp: cbytes_def)
  have dis: "cbytes (d, A) \<inter> ubytes (U - {(d, A)}) = {}" using rm(1) by blast
  show "(d, k) \<notin> U - {(d, A)}" "(d + k, A - k) \<notin> U - {(d, A)}"
    using fresh_chunk [OF c(1)] fresh_chunk [OF c(2)] dis sp(1) by blast+
  let ?V = "insert (d, k) (insert (d + k, A - k) (U - {(d, A)}))"
  have "disjoint_chunks (insert (d + k, A - k) (U - {(d, A)}))"
    using dis sp by (intro disjoint_chunks_insert rm(2) c) blast
  then have "disjoint_chunks ?V" by (rule disjoint_chunks_insert [OF _ c(1)]) (use dis sp in auto)
  moreover have "cbytes (d, A) \<subseteq> ubytes U" using assms(2) by (auto simp: ubytes_def)
  then have "ubytes ?V = ubytes U" using rm(1) sp(1) by auto
  ultimately show "pk_inv s ?V" using fs unfolding pk_inv_def by auto
qed

text \<open>The last steps of \<open>gnrc_pktbuf_mark\<close>: the fields of the two snips.\<close>

lemma mark_fields:
  assumes "pk_inv t V" "(p, 24) \<in> V" "(m, 24) \<in> V" "p \<noteq> m" "get_snip p t = Some r"
  shows "\<exists>s'. do { s \<leftarrow> upd_snip p f t; let s = set_pktsnip m nx d sz ty s; s \<leftarrow> upd_snip p (\<lambda>r. r\<lparr>snext := Some m\<rparr>) s;
       Some (Some m, s) } = Some (Some m, s') \<and> pk_inv s' V \<and> same_on (V - {(p, 24), (m, 24)}) t s' \<and>
     get_snip p s' = Some ((f r)\<lparr>snext := Some m\<rparr>) \<and>
     get_snip m s' = Some \<lparr>snext = nx, sdata = d, ssize = sz, susers = 1, stype = ty\<rparr>"
proof -
  obtain s1 where s1: "upd_snip p f t = Some s1" "pk_inv s1 V" "same_on (V - {(p, 24)}) t s1" "get_snip p s1 = Some (f r)"
    using upd_snip_chunk [OF assms(1,2,5)] by blast
  let ?s2 = "set_pktsnip m nx d sz ty s1"
  note s2 = set_pktsnip_chunk [OF s1(2) assms(3), of nx d sz ty]
  have "get_snip p ?s2 = Some (f r)" using get_snip_same [OF s2(2), of p] assms(2,4) s1(4) by simp
  then obtain s3 where s3: "upd_snip p (\<lambda>r. r\<lparr>snext := Some m\<rparr>) ?s2 = Some s3" "pk_inv s3 V"
      "same_on (V - {(p, 24)}) ?s2 s3" "get_snip p s3 = Some ((f r)\<lparr>snext := Some m\<rparr>)"
    using upd_snip_chunk [OF s2(1) assms(2)] by blast
  have "get_snip m s3 = Some \<lparr>snext = nx, sdata = d, ssize = sz, susers = 1, stype = ty\<rparr>"
    using get_snip_same [OF s3(3), of m] assms(3,4) s2(3) by simp
  moreover have "same_on (V - {(p, 24), (m, 24)}) t s3"
    by (rule same_on_trans [OF same_on_subset [OF s1(3)] same_on_trans [OF same_on_subset [OF s2(2)] same_on_subset [OF s3(3)]]]) auto
  ultimately show ?thesis using s1(1) s3(1,2,4) by simp
qed

lemma payload_split:
  assumes "sdata r = In d" "k \<le> ssize r"
  shows "take k (payload s r) = map (\<lambda>i. pmem s (d + i)) [0..<k]"
    "drop k (payload s r) = map (\<lambda>i. pmem s (d + k + i)) [0..<ssize r - k]"
proof -
  show "take k (payload s r) = map (\<lambda>i. pmem s (d + i)) [0..<k]" using assms by (simp add: payload_def take_map)
  have "map (\<lambda>i. pmem s (d + i)) [k..<ssize r] = map (\<lambda>i. pmem s (d + k + i)) [0..<ssize r - k]"
    by (rule nth_equalityI) (simp_all add: add.assoc)
  then show "drop k (payload s r) = map (\<lambda>i. pmem s (d + k + i)) [0..<ssize r - k]"
    using assms by (simp add: payload_def drop_map drop_upt)
qed

text \<open>Copying both parts of the data to new chunks and freeing the old one.\<close>

lemma mark_move:
  assumes inv: "pk_inv t V" and V: "(d, align (k + n)) \<in> V" "(nm, align k) \<in> V" "(nr, align n) \<in> V"
    and ne: "(d, align (k + n)) \<noteq> (nm, align k)" "(d, align (k + n)) \<noteq> (nr, align n)" "(nm, align k) \<noteq> (nr, align n)"
    and sz: "0 < k" "0 < n" "k + n \<le> CONFIG_GNRC_PKTBUF_SIZE"
  shows "\<exists>t'. do { s \<leftarrow> memcpy nm (In d) k t; s \<leftarrow> memcpy nr (In (d + k)) n s; pktbuf_free (In d) (k + n) s } = Some t' \<and>
     pk_inv t' (V - {(d, align (k + n))}) \<and>
     same_on (V - {(d, align (k + n)), (nm, align k), (nr, align n)}) t t' \<and>
     (\<forall>i < k. pmem t' (nm + i) = pmem t (d + i)) \<and> (\<forall>i < n. pmem t' (nr + i) = pmem t (d + k + i))"
proof -
  let ?d = "(d, align (k + n))" and ?m = "(nm, align k)" and ?r = "(nr, align n)"
  have al: "k \<le> align k" "n \<le> align n" "k + n \<le> align (k + n)" using sz by (auto intro!: align_ge simp: pktbuf_consts)
  have rd: "readable {?d} (In d) k" "readable {?d} (In (d + k)) n" using al(3) by (auto simp: cbytes_def)
  obtain t1 where t1: "memcpy nm (In d) k t = Some t1" "pk_inv t1 V" "same_on (V - {?m}) t t1"
      "\<forall>i < k. pmem t1 (nm + i) = the (fetch t (In d) i)"
    using memcpy_chunk [OF inv V(2) rd(1) sz(1) al(1)] by blast
  obtain t2 where t2: "memcpy nr (In (d + k)) n t1 = Some t2" "pk_inv t2 V" "same_on (V - {?r}) t1 t2"
      "\<forall>i < n. pmem t2 (nr + i) = the (fetch t1 (In (d + k)) i)"
    using memcpy_chunk [OF t1(2) V(3) rd(2) sz(2) al(2)] by blast
  obtain t3 where t3: "pktbuf_free (In d) (k + n) t2 = Some t3" "pk_inv t3 (V - {?d})" "same_on (V - {?d}) t2 t3"
    using free_chunk [OF t2(2) V(1)] by blast
  have "pmem t3 (nm + i) = pmem t (d + i)" if i: "i < k" for i
  proof -
    have "nm + i \<in> ubytes (V - {?d})" "nm + i \<in> ubytes (V - {?r})"
      using V(2) ne i al(1) by (auto intro: in_ubytes [of nm "align k"])
    then show ?thesis using t3(3) t2(3) t1(4) i by (simp add: same_on_def)
  qed
  moreover have "pmem t3 (nr + i) = pmem t (d + k + i)" if i: "i < n" for i
  proof -
    have "nr + i \<in> ubytes (V - {?d})" using V(3) ne i al(2) by (auto intro: in_ubytes [of nr "align n"])
    moreover have "d + (k + i) \<in> ubytes (V - {?m})"
      using V(1) ne i al(3) by (intro in_ubytes [of d "align (k + n)"]) auto
    ultimately show ?thesis using t3(3) t2(4) t1(3) i by (simp add: same_on_def add.assoc)
  qed
  moreover have "same_on (V - {?d, ?m, ?r}) t t3"
    by (rule same_on_trans [OF same_on_subset [OF t1(3)] same_on_trans [OF same_on_subset [OF t2(3)] same_on_subset [OF t3(3)]]]) auto
  ultimately show ?thesis using t1(1) t2(1) t3(1,2) by auto
qed

definition marked :: "pktbuf \<Rightarrow> pktbuf \<Rightarrow> (nat \<times> nat) set \<Rightarrow> nat \<Rightarrow> gnrc_pktsnip \<Rightarrow> nat \<Rightarrow> int \<Rightarrow> nat \<Rightarrow> gnrc_pktsnip \<Rightarrow> gnrc_pktsnip \<Rightarrow> bool" where
  "marked s s' W p r sz ty m r' r'' \<longleftrightarrow>
     pk_inv s' (W \<union> set (pchunks [(p, r'), (m, r'')])) \<and> same_on W s s' \<and> distinct (pchunks [(p, r'), (m, r'')]) \<and>
     set (pchunks [(p, r'), (m, r'')]) \<inter> W = {} \<and> get_snip p s' = Some r' \<and> get_snip m s' = Some r'' \<and>
     snip_ok r' \<and> snip_ok r'' \<and> snext r' = Some m \<and> snext r'' = snext r \<and>
     payload s' r'' = take sz (payload s r) \<and> payload s' r' = drop sz (payload s r) \<and>
     ssize r'' = sz \<and> ssize r' = ssize r - sz \<and> stype r' = stype r \<and> stype r'' = ty \<and> susers r' = susers r \<and> susers r'' = 1"

lemma mark_finish:
  assumes cs: "pchunks [(p, r'), (m, r'')] = cs" and V: "pk_inv t (W \<union> set cs)" "same_on W s t" "distinct cs" "set cs \<inter> W = {}"
    and r: "get_snip p t = Some r" "r' = (f r)\<lparr>snext := Some m\<rparr>"
      "r'' = \<lparr>snext = snext r, sdata = d, ssize = sz, susers = 1, stype = ty\<rparr>"
    and ok: "snip_ok r'" "snip_ok r''" "ssize r' = ssize r - sz" "stype r' = stype r" "susers r' = susers r"
    and pay: "payload t r'' = take sz (payload s r)" "payload t r' = drop sz (payload s r)"
  shows "\<exists>s'. do { s \<leftarrow> upd_snip p f t; let s = set_pktsnip m (snext r) d sz ty s; s \<leftarrow> upd_snip p (\<lambda>r. r\<lparr>snext := Some m\<rparr>) s;
       Some (Some m, s) } = Some (Some m, s') \<and> marked s s' W p r sz ty m r' r''"
proof -
  let ?H = "{(p, 24), (m, 24)}"
  have H: "(p, 24) \<in> W \<union> set cs" "(m, 24) \<in> W \<union> set cs" "p \<noteq> m" using V(3) cs by (auto simp: pchunks_def)
  obtain s' where s': "do { s \<leftarrow> upd_snip p f t; let s = set_pktsnip m (snext r) d sz ty s;
         s \<leftarrow> upd_snip p (\<lambda>r. r\<lparr>snext := Some m\<rparr>) s; Some (Some m, s) } = Some (Some m, s')"
      "pk_inv s' (W \<union> set cs)" "same_on (W \<union> set cs - ?H) t s'" "get_snip p s' = Some r'" "get_snip m s' = Some r''"
    using mark_fields [OF V(1) H r(1), of f "snext r" d sz ty, folded r(2,3)] by (elim exE conjE) (rule that, assumption+)
  have c: "set (tl (snip_chunks (p, r'))) \<subseteq> W \<union> set cs - ?H" "set (tl (snip_chunks (m, r''))) \<subseteq> W \<union> set cs - ?H"
    using V(3) cs by (auto simp: pchunks_def)
  have pl: "payload s' r' = payload t r'" by (rule payload_same [OF s'(3) c(1) ok(1)])
  have pl2: "payload s' r'' = payload t r''" by (rule payload_same [OF s'(3) c(2) ok(2)])
  have "W \<subseteq> W \<union> set cs - ?H" using V(4) cs by (auto simp: pchunks_def)
  then have "same_on W s s'" by (rule same_on_trans [OF V(2) same_on_subset [OF s'(3)]])
  moreover have "snext r' = Some m" "snext r'' = snext r" "ssize r'' = sz" "stype r'' = ty" "susers r'' = 1" using r(2,3) by simp_all
  ultimately show ?thesis unfolding marked_def cs using s' V(3,4) ok pay pl pl2 by (intro exI [of _ s']) simp
qed

text \<open>The three ways of splitting: the whole data, a multiple of eight bytes in place, and by copying.\<close>

lemma mark_whole:
  assumes inv: "pk_inv t (insert (m, 24) U)" and fresh: "(m, 24) \<notin> U" and U: "(p, 24) \<in> U" "(d, align sz) \<in> U" "(p, 24) \<noteq> (d, align sz)"
    and r: "get_snip p t = Some r" "sdata r = In d" "ssize r = sz" "snip_ok r" and same: "same_on U s t"
  shows "\<exists>s' r' r''. do { s \<leftarrow> upd_snip p (\<lambda>r. r\<lparr>sdata := DNull, ssize := ssize r - sz\<rparr>) t;
       let s = set_pktsnip m (snext r) (In d) sz ty s; s \<leftarrow> upd_snip p (\<lambda>r. r\<lparr>snext := Some m\<rparr>) s; Some (Some m, s) } = Some (Some m, s') \<and>
     marked s s' (U - set (snip_chunks (p, r))) p r sz ty m r' r''"
proof -
  let ?f = "\<lambda>r. r\<lparr>sdata := DNull, ssize := ssize r - sz\<rparr>" and ?cs = "[(p, 24), (m, 24), (d, align sz)]"
  let ?r' = "(?f r)\<lparr>snext := Some m\<rparr>" and ?r'' = "\<lparr>snext = snext r, sdata = In d, ssize = sz, susers = 1, stype = ty\<rparr>"
    and ?W = "U - {(p, 24), (d, align sz)}"
  have pc: "pchunks [(p, ?r'), (m, ?r'')] = ?cs" by (simp add: pchunks_def)
  have W: "?W \<union> set ?cs = insert (m, 24) U" "distinct ?cs" "set ?cs \<inter> ?W = {}" using U fresh by auto
  have "payload t r = payload s r" by (rule payload_same [OF same _ r(4), of p]) (use U r in auto)
  then have p: "payload t ?r'' = take sz (payload s r)" "payload t ?r' = drop sz (payload s r)"
    using r by (auto simp: payload_def)
  have ok: "snip_ok ?r'" "snip_ok ?r''" using r by (auto simp: snip_ok_def)
  have "\<exists>s'. do { s \<leftarrow> upd_snip p ?f t; let s = set_pktsnip m (snext r) (In d) sz ty s;
         s \<leftarrow> upd_snip p (\<lambda>r. r\<lparr>snext := Some m\<rparr>) s; Some (Some m, s) } = Some (Some m, s') \<and> marked s s' ?W p r sz ty m ?r' ?r''"
    by (rule mark_finish [where f = ?f, OF pc _ same_on_subset [OF same] W(2,3) r(1) refl refl ok _ _ _ p]) (use inv W(1) in auto)
  moreover have "set (snip_chunks (p, r)) = {(p, 24), (d, align sz)}" using r by simp
  ultimately show ?thesis by auto
qed

lemma mark_in_place:
  assumes inv: "pk_inv t (insert (m, 24) U)" and fresh: "(m, 24) \<notin> U" and U: "(p, 24) \<in> U" "(d, align (ssize r)) \<in> U" "(p, 24) \<noteq> (d, align (ssize r))"
    and r: "get_snip p t = Some r" "sdata r = In d" "snip_ok r" and same: "same_on U s t"
    and sz: "0 < sz" "sz < ssize r" "align sz = sz"
  shows "\<exists>s' r' r''. do { s \<leftarrow> upd_snip p (\<lambda>r. r\<lparr>sdata := In (d + sz), ssize := ssize r - sz\<rparr>) t;
       let s = set_pktsnip m (snext r) (In d) sz ty s; s \<leftarrow> upd_snip p (\<lambda>r. r\<lparr>snext := Some m\<rparr>) s; Some (Some m, s) } = Some (Some m, s') \<and>
     marked s s' (U - set (snip_chunks (p, r))) p r sz ty m r' r''"
proof -
  let ?n = "ssize r - sz" and ?d = "(d, align (ssize r))"
  let ?f = "\<lambda>r. r\<lparr>sdata := In (d + sz), ssize := ssize r - sz\<rparr>" and ?cs = "[(p, 24), (d + sz, align ?n), (m, 24), (d, align sz)]"
  let ?r' = "(?f r)\<lparr>snext := Some m\<rparr>" and ?r'' = "\<lparr>snext = snext r, sdata = In d, ssize = sz, susers = 1, stype = ty\<rparr>"
    and ?W = "U - {(p, 24), ?d}"
  have small: "ssize r \<le> CONFIG_GNRC_PKTBUF_SIZE" using r by (auto simp: snip_ok_def)
  have 8: "8 dvd sz" using align_dvd [of sz] sz(3) by simp
  have A: "align (ssize r) = sz + align ?n" using align_add [OF 8, of ?n] sz(2) small by (simp add: pktbuf_consts)
  have np: "8 \<le> align ?n" using sz(2) small by (intro align_pos) (auto simp: pktbuf_consts)
  have "?d \<in> insert (m, 24) U" "sz < align (ssize r)" using U A np by auto
  note sp = pk_inv_split [OF inv this(1) 8 sz(1) this(2)]
  have pc: "pchunks [(p, ?r'), (m, ?r'')] = ?cs" by (simp add: pchunks_def)
  have V: "?W \<union> set ?cs = insert (d, sz) (insert (d + sz, align (ssize r) - sz) (insert (m, 24) U - {?d}))"
    using U fresh A sz(3) by auto
  have dist: "distinct ?cs" "set ?cs \<inter> ?W = {}"
    using sp(2,3) U fresh A sz(1,3) by (auto simp: A)
  have "payload t r = payload s r" by (rule payload_same [OF same _ r(3), of p]) (use U r in auto)
  moreover have "payload t ?r'' = take sz (payload t r)" "payload t ?r' = drop sz (payload t r)"
    using payload_split [OF r(2), of sz t] sz(2) by (auto simp: payload_def)
  ultimately have p: "payload t ?r'' = take sz (payload s r)" "payload t ?r' = drop sz (payload s r)" by simp_all
  have ok: "snip_ok ?r'" "snip_ok ?r''" using sz small by (auto simp: snip_ok_def)
  have "\<exists>s'. do { s \<leftarrow> upd_snip p ?f t; let s = set_pktsnip m (snext r) (In d) sz ty s;
         s \<leftarrow> upd_snip p (\<lambda>r. r\<lparr>snext := Some m\<rparr>) s; Some (Some m, s) } = Some (Some m, s') \<and> marked s s' ?W p r sz ty m ?r' ?r''"
    by (rule mark_finish [where f = ?f, OF pc _ same_on_subset [OF same] dist r(1) refl refl ok _ _ _ p]) (use sp(1) V in auto)
  moreover have "set (snip_chunks (p, r)) = {(p, 24), ?d}" using r by simp
  ultimately show ?thesis by auto
qed

lemma exchange_chunks:
  "P \<in> U \<Longrightarrow> D \<in> U \<Longrightarrow> P \<noteq> D \<Longrightarrow> D \<noteq> A \<Longrightarrow> D \<noteq> B \<Longrightarrow> M \<noteq> D \<Longrightarrow>
   U - {P, D} \<union> set [P, B, M, A] = insert B (insert A (insert M U)) - {D}"
  by auto

lemma fresh_exchange:
  "M \<notin> U \<Longrightarrow> A \<notin> insert M U \<Longrightarrow> B \<notin> insert A (insert M U) \<Longrightarrow> set [P, B, M, A] \<inter> (U - {P, D}) = {}"
  by auto

lemma mark_copied:
  assumes inv: "pk_inv t (insert (nr, align (ssize r - sz)) (insert (nm, align sz) (insert (m, 24) U)))"
    and fresh: "(m, 24) \<notin> U" "(nm, align sz) \<notin> insert (m, 24) U" "(nr, align (ssize r - sz)) \<notin> insert (nm, align sz) (insert (m, 24) U)"
    and U: "(p, 24) \<in> U" "(d, align (ssize r)) \<in> U" "(p, 24) \<noteq> (d, align (ssize r))"
    and r: "get_snip p t = Some r" "sdata r = In d" "snip_ok r" and same: "same_on U s t" and sz: "0 < sz" "sz < ssize r"
  shows "\<exists>s' r' r''. do { s \<leftarrow> memcpy nm (In d) sz t; s \<leftarrow> memcpy nr (In (d + sz)) (ssize r - sz) s; s \<leftarrow> pktbuf_free (In d) (ssize r) s;
       s \<leftarrow> upd_snip p (\<lambda>r. r\<lparr>sdata := In nr, ssize := ssize r - sz\<rparr>) s;
       let s = set_pktsnip m (snext r) (In nm) sz ty s; s \<leftarrow> upd_snip p (\<lambda>r. r\<lparr>snext := Some m\<rparr>) s; Some (Some m, s) } = Some (Some m, s') \<and>
     marked s s' (U - set (snip_chunks (p, r))) p r sz ty m r' r''"
proof -
  let ?n = "ssize r - sz" and ?d = "(d, align (ssize r))"
  let ?V = "insert (nr, align ?n) (insert (nm, align sz) (insert (m, 24) U))"
  let ?f = "\<lambda>r. r\<lparr>sdata := In nr, ssize := ssize r - sz\<rparr>" and ?cs = "[(p, 24), (nr, align ?n), (m, 24), (nm, align sz)]"
  let ?r' = "(?f r)\<lparr>snext := Some m\<rparr>" and ?r'' = "\<lparr>snext = snext r, sdata = In nm, ssize = sz, susers = 1, stype = ty\<rparr>"
    and ?W = "U - {(p, 24), ?d}"
  have small: "ssize r \<le> CONFIG_GNRC_PKTBUF_SIZE" using r by (auto simp: snip_ok_def)
  have e: "sz + ?n = ssize r" and np: "0 < ?n" using sz by simp_all
  have V: "?d \<in> ?V" "(nm, align sz) \<in> ?V" "(nr, align ?n) \<in> ?V" using U by auto
  have ne: "?d \<noteq> (nm, align sz)" "?d \<noteq> (nr, align ?n)" "(nm, align sz) \<noteq> (nr, align ?n)" using fresh U by auto
  obtain t' where t': "do { s \<leftarrow> memcpy nm (In d) sz t; s \<leftarrow> memcpy nr (In (d + sz)) ?n s; pktbuf_free (In d) (ssize r) s } = Some t'"
      "pk_inv t' (?V - {?d})" "same_on (?V - {?d, (nm, align sz), (nr, align ?n)}) t t'"
      "\<forall>i < sz. pmem t' (nm + i) = pmem t (d + i)" "\<forall>i < ?n. pmem t' (nr + i) = pmem t (d + sz + i)"
    using mark_move [of t ?V d sz ?n nm nr, unfolded e, OF inv V ne sz(1) np small]
    by (elim exE conjE) (rule that, assumption+)
  have pc: "pchunks [(p, ?r'), (m, ?r'')] = ?cs" by (simp add: pchunks_def)
  have pn: "(p, 24) \<noteq> (nr, align ?n)" using U(1) fresh(3) by auto
  moreover have "(p, 24) \<noteq> (nm, align sz)" using U(1) fresh(2) by auto
  moreover have "(m, 24) \<noteq> (nr, align ?n)" using fresh(3) by auto
  moreover have "(m, 24) \<noteq> (nm, align sz)" using fresh(2) by auto
  moreover have "p \<noteq> m" using U(1) fresh(1) by auto
  ultimately have W: "distinct ?cs" using ne(3) by auto
  have md: "(m, 24) \<noteq> ?d" using U(2) fresh(1) by auto
  have W2: "?W \<union> set ?cs = ?V - {?d}" by (rule exchange_chunks [OF U ne(1,2) md])
  have W3: "set ?cs \<inter> ?W = {}" by (rule fresh_exchange [OF fresh])
  have st: "same_on (U - {?d}) s t'"
    by (rule same_on_trans [OF same_on_subset [OF same] same_on_subset [OF t'(3)]]) (use fresh in auto)
  have "get_snip p t' = get_snip p t"
    by (rule get_snip_same [OF t'(3)]) (use U fresh in auto)
  then have rp: "get_snip p t' = Some r" using r(1) by simp
  have "payload t r = payload s r" by (rule payload_same [OF same _ r(3), of p]) (use U r in auto)
  moreover have "payload t' ?r'' = take sz (payload t r)" "payload t' ?r' = drop sz (payload t r)"
    using payload_split [OF r(2), of sz t] sz(2) t'(4,5) by (auto simp: payload_def)
  ultimately have p: "payload t' ?r'' = take sz (payload s r)" "payload t' ?r' = drop sz (payload s r)" by simp_all
  have ok: "snip_ok ?r'" "snip_ok ?r''" using sz small by (auto simp: snip_ok_def)
  have "\<exists>s'. do { s \<leftarrow> upd_snip p ?f t'; let s = set_pktsnip m (snext r) (In nm) sz ty s;
         s \<leftarrow> upd_snip p (\<lambda>r. r\<lparr>snext := Some m\<rparr>) s; Some (Some m, s) } = Some (Some m, s') \<and> marked s s' ?W p r sz ty m ?r' ?r''"
    by (rule mark_finish [where f = ?f, OF pc _ same_on_subset [OF st] W W3 rp refl refl ok _ _ _ p]) (use t'(2) W2 in auto)
  moreover have "set (snip_chunks (p, r)) = {(p, 24), ?d}" using r by simp
  moreover have "do { s \<leftarrow> memcpy nm (In d) sz t; s \<leftarrow> memcpy nr (In (d + sz)) ?n s; s \<leftarrow> pktbuf_free (In d) (ssize r) s; F s } = F t'" for F :: "pktbuf \<Rightarrow> (nat option \<times> pktbuf) option"
    using arg_cong [OF t'(1), of "\<lambda>x. x \<bind> F"] by (simp add: Option.bind_assoc)
  ultimately show ?thesis by auto
qed

lemma marked_pkt_inv:
  assumes "pkt_inv s U (Some p) ((p, r) # rs)" "marked s s' (U - set (snip_chunks (p, r))) p r sz ty m r' r''"
  shows "pkt_inv s' (U - set (snip_chunks (p, r)) \<union> set (pchunks [(p, r'), (m, r'')])) (Some p) ((p, r') # (m, r'') # rs)"
proof -
  let ?W = "U - set (snip_chunks (p, r))" and ?D = "pchunks [(p, r'), (m, r'')]"
  note a = assms(1) [unfolded pkt_inv_def] and m = assms(2) [unfolded marked_def]
  have rs: "set (pchunks rs) \<subseteq> ?W" "distinct (pchunks rs)" "pkt_at s (snext r) rs" "\<forall>c\<in>set rs. snip_ok (snd c)"
    using a by (auto simp: pchunks_def simp del: snip_chunks.simps)
  have "pkt_at s' (snext r) rs" using pkt_at_same [of ?W s s' rs "snext r"] m rs by blast
  moreover have e: "pchunks ((p, r') # (m, r'') # rs) = ?D @ pchunks rs" by (simp add: pchunks_def)
  ultimately show ?thesis using m rs unfolding pkt_inv_def e by auto
qed

text \<open>What marking promises of a result \<open>(q, s')\<close>.\<close>

definition mark_post ::
  "pktbuf \<Rightarrow> (nat \<times> nat) set \<Rightarrow> nat \<Rightarrow> gnrc_pktsnip \<Rightarrow> nat \<Rightarrow> int \<Rightarrow> nat option \<Rightarrow> pktbuf \<Rightarrow> bool" where
  "mark_post s U p r sz ty q s' \<longleftrightarrow>
     (case q of None \<Rightarrow> pk_inv s' U \<and> same_on U s s'
      | Some m \<Rightarrow> \<exists>r' r''. marked s s' (U - set (snip_chunks (p, r))) p r sz ty m r' r'')"

lemma mark_postI: "marked s s' (U - set (snip_chunks (p, r))) p r sz ty m r' r'' \<Longrightarrow> mark_post s U p r sz ty (Some m) s'"
  by (auto simp: mark_post_def simp del: snip_chunks.simps)

lemma free_two:
  assumes "pk_inv t (insert (nm, align sz) (insert (m, 24) U))" "(m, 24) \<notin> U" "(nm, align sz) \<notin> insert (m, 24) U"
  obtains t' where "do { s \<leftarrow> pktbuf_free (In m) sizeof_pktsnip t; pktbuf_free (In nm) sz s } = Some t'" "pk_inv t' U" "same_on U t t'"
proof -
  let ?V = "insert (nm, align sz) (insert (m, 24) U)"
  obtain t1 where t1: "pktbuf_free (In m) sizeof_pktsnip t = Some t1" "pk_inv t1 (?V - {(m, 24)})" "same_on (?V - {(m, 24)}) t t1"
    using free_chunk [OF assms(1), of m sizeof_pktsnip] by auto
  have e: "?V - {(m, 24)} = insert (nm, align sz) U" using assms(2,3) by auto
  obtain t2 where t2: "pktbuf_free (In nm) sz t1 = Some t2" "pk_inv t2 (insert (nm, align sz) U - {(nm, align sz)})"
      "same_on (insert (nm, align sz) U - {(nm, align sz)}) t1 t2"
    using free_chunk [of t1 "insert (nm, align sz) U" nm sz] t1(2) e by auto
  have e2: "insert (nm, align sz) U - {(nm, align sz)} = U" using assms(3) by auto
  have "same_on U t t2" by (rule same_on_trans [OF same_on_subset [OF t1(3)] t2(3) [unfolded e2]]) (use assms(2) in auto)
  with t1(1) t2(1,2) e2 show thesis by (intro that [of t2]) auto
qed

lemma upd_snip_cong: "get_snip p s = Some r \<Longrightarrow> f r = g r \<Longrightarrow> upd_snip p f s = upd_snip p g s"
  by (simp add: upd_snip_def)

text \<open>The part of \<open>gnrc_pktbuf_mark\<close> that moves the data, after the new descriptor was allocated.\<close>

lemma mark_moved:
  assumes inv: "pk_inv s1 (insert (m, 24) U)" and fresh: "(m, 24) \<notin> U" and same: "same_on U s s1"
    and U: "(p, 24) \<in> U" "(d, align (ssize r)) \<in> U" "(p, 24) \<noteq> (d, align (ssize r))"
    and r: "get_snip p s1 = Some r" "sdata r = In d" "snip_ok r" and sz: "0 < sz" "sz < ssize r"
  shows "\<exists>q s'. do { (md, s) \<leftarrow> pktbuf_alloc sz s1;
       case md of
         None \<Rightarrow> do { s \<leftarrow> pktbuf_free (In m) sizeof_pktsnip s; Some (None, s) }
       | Some nm \<Rightarrow>
           do { (rd, s) \<leftarrow> pktbuf_alloc (ssize r - sz) s;
                case rd of
                  None \<Rightarrow> do { s \<leftarrow> pktbuf_free (In m) sizeof_pktsnip s; s \<leftarrow> pktbuf_free (In nm) sz s; Some (None, s) }
                | Some nr \<Rightarrow>
                    do { s \<leftarrow> memcpy nm (sdata r) sz s; s \<leftarrow> memcpy nr (dadd (sdata r) sz) (ssize r - sz) s;
                         s \<leftarrow> pktbuf_free (sdata r) (ssize r) s;
                         s \<leftarrow> upd_snip p (\<lambda>r. r\<lparr>sdata := In nr, ssize := ssize r - sz\<rparr>) s;
                         let s = set_pktsnip m (snext r) (In nm) sz ty s; s \<leftarrow> upd_snip p (\<lambda>r. r\<lparr>snext := Some m\<rparr>) s;
                         Some (Some m, s) } } } = Some (q, s') \<and> mark_post s U p r sz ty q s'"
    (is "\<exists>q s'. ?prog = _ \<and> _")
proof -
  have small: "sz \<le> CONFIG_GNRC_PKTBUF_SIZE" "0 < ssize r - sz" "ssize r - sz \<le> CONFIG_GNRC_PKTBUF_SIZE"
    using r sz by (auto simp: snip_ok_def)
  show ?thesis
  proof (cases rule: alloc_cases [OF inv sz(1) small(1)])
    case 1
    obtain t where "pktbuf_free (In m) sizeof_pktsnip s1 = Some t" "pk_inv t (insert (m, 24) U - {(m, 24)})"
        "same_on (insert (m, 24) U - {(m, 24)}) s1 t"
      using free_chunk [OF inv, of m sizeof_pktsnip] by auto
    with 1 fresh same show ?thesis by (auto simp: mark_post_def intro: same_on_trans)
  next
    case (2 nm s2)
    note nm = 2
    have u2: "same_on U s s2" by (rule same_on_trans [OF same same_on_subset [OF nm(5)]]) auto
    show ?thesis
    proof (cases rule: alloc_cases [OF nm(2) small(2,3)])
      case 1
      obtain t where t: "do { s \<leftarrow> pktbuf_free (In m) sizeof_pktsnip s2; pktbuf_free (In nm) sz s } = Some t" "pk_inv t U" "same_on U s2 t"
        using free_two [OF nm(2) fresh nm(4)] by blast
      have "?prog = do { s \<leftarrow> do { s \<leftarrow> pktbuf_free (In m) sizeof_pktsnip s2; pktbuf_free (In nm) sz s }; Some (None, s) }"
        using nm(1) 1 by (simp add: Option.bind_assoc)
      then have "?prog = Some (None, t)" unfolding t(1) by simp
      with t(2) same_on_trans [OF u2 t(3)] show ?thesis by (simp add: mark_post_def)
    next
      case (2 nr s3)
      have u3: "same_on U s s3" by (rule same_on_trans [OF u2 same_on_subset [OF 2(5)]]) auto
      have "get_snip p s3 = get_snip p s2" by (rule get_snip_same [OF 2(5)]) (use U in auto)
      moreover have "get_snip p s2 = get_snip p s1" by (rule get_snip_same [OF nm(5)]) (use U in auto)
      ultimately have r3: "get_snip p s3 = Some r" using r(1) by simp
      from mark_copied [OF 2(2) fresh nm(4) 2(4) U r3 r(2,3) u3 sz, of ty] nm(1) 2(1)
      show ?thesis by (auto intro!: mark_postI simp: r(2) simp del: snip_chunks.simps)
    qed
  qed
qed

lemma mark_spec:
  assumes inv: "pkt_inv s U (Some p) ((p, r) # rs)" and sz: "0 < sz" "sz \<le> ssize r"
  shows "\<exists>q s'. gnrc_pktbuf_mark (Some p) sz ty s = Some (q, s') \<and> mark_post s U p r sz ty q s'"
proof -
  have a: "pk_inv s U" "get_snip p s = Some r" "set (snip_chunks (p, r)) \<subseteq> U" "distinct (snip_chunks (p, r))" "snip_ok r"
    using inv by (auto simp: pkt_inv_def pchunks_def)
  then obtain d where d: "sdata r = In d" "ssize r \<le> CONFIG_GNRC_PKTBUF_SIZE" using sz by (auto simp: snip_ok_def)
  have U: "(p, 24) \<in> U" "(d, align (ssize r)) \<in> U" "(p, 24) \<noteq> (d, align (ssize r))" using a(3,4) d by auto
  have 20: "0 < sizeof_pktsnip" "sizeof_pktsnip \<le> CONFIG_GNRC_PKTBUF_SIZE" by (simp_all add: pktbuf_consts)
  note prog = gnrc_pktbuf_mark_def a(2)
  show ?thesis
  proof (cases rule: alloc_cases [OF a(1) 20])
    case 1
    then show ?thesis using sz a(1) by (simp add: prog d(1) mark_post_def)
  next
    case (2 m s1)
    note m = 2 [unfolded align_snip]
    have r1: "get_snip p s1 = Some r" using get_snip_same [OF m(5) U(1)] a(2) by simp
    have szal: "sz \<le> align sz" by (rule align_ge) (use sz d in \<open>simp add: pktbuf_consts\<close>)
    consider (whole) "ssize r = sz" | (aligned) "sz < ssize r" "align sz = sz" | (moved) "sz < ssize r" "sz < align sz"
      using sz(2) szal by fastforce
    then show ?thesis
    proof cases
      case whole
      have u: "upd_snip p (\<lambda>r. r\<lparr>sdata := (if ssize r \<noteq> sz then dadd (sdata r) sz else DNull), ssize := ssize r - sz\<rparr>) s1 =
          upd_snip p (\<lambda>r. r\<lparr>sdata := DNull, ssize := ssize r - sz\<rparr>) s1"
        by (rule upd_snip_cong [OF r1]) (simp add: whole)
      from mark_whole [OF m(2,4) U(1) _ _ r1 d(1) whole a(5) m(5), of ty] U(2,3) whole
      show ?thesis using m(1) sz u by (auto simp: prog d(1) intro!: mark_postI simp del: snip_chunks.simps)
    next
      case aligned
      have u: "upd_snip p (\<lambda>r. r\<lparr>sdata := (if ssize r \<noteq> sz then dadd (sdata r) sz else DNull), ssize := ssize r - sz\<rparr>) s1 =
          upd_snip p (\<lambda>r. r\<lparr>sdata := In (d + sz), ssize := ssize r - sz\<rparr>) s1"
        by (rule upd_snip_cong [OF r1]) (use aligned d in simp)
      from mark_in_place [OF m(2,4) U r1 d(1) a(5) m(5) sz(1) aligned, of ty]
      show ?thesis using m(1) sz u aligned by (auto simp: prog d(1) intro!: mark_postI simp del: snip_chunks.simps)
    next
      case moved
      from mark_moved [OF m(2,4,5) U r1 d(1) a(5) sz(1) moved(1), of ty]
      show ?thesis using m(1) sz moved d(1) by (simp add: prog)
    qed
  qed
qed

text \<open>Whether the allocator serves a sequence of requests, and the requests that marking \<open>sz\<close> bytes of a snip needs.\<close>

fun all_served :: "nat list \<Rightarrow> pktbuf \<Rightarrow> bool" where
  "all_served [] s = True"
| "all_served (n # ns) s = (case pktbuf_alloc n s of Some (Some a, s') \<Rightarrow> all_served ns s' | _ \<Rightarrow> False)"

definition mark_requests :: "gnrc_pktsnip \<Rightarrow> nat \<Rightarrow> nat list" where
  "mark_requests r sz = sizeof_pktsnip # (if sz < ssize r \<and> sz < align sz then [sz, ssize r - sz] else [])"

lemma mark_none_iff:
  assumes "gnrc_pktbuf_mark (Some p) sz ty s = Some (q, s')" "get_snip p s = Some r" "sdata r \<noteq> DNull" "0 < sz" "sz \<le> ssize r"
  shows "q = None \<longleftrightarrow> \<not> all_served (mark_requests r sz) s"
proof -
  have "(ssize r \<noteq> sz \<and> sz < align sz) = (sz < ssize r \<and> sz < align sz)" using assms(5) by auto
  then show ?thesis using assms
    by (auto simp: gnrc_pktbuf_mark_def mark_requests_def Let_def split: option.splits if_splits Option.bind_splits)
qed

text \<open>
  (C13) Marking the first bytes of a snip as a header of their own: \<open>gnrc_pktbuf_mark\<close> splits the data of the snip at \<open>sz\<close>, in place or by copying, into a new snip right behind
  it with the first \<open>sz\<close> bytes and the old snip with the rest, which has no data left if \<open>sz\<close> is its whole size (the documentation says this of the new snip); the packet stays well
  formed, no chunk is lost or shared, and the rest of the buffer is untouched. It returns NULL exactly when the size is out of range or the allocator refuses one of the
  requests it makes, for the new snip and, if the first part does not end on a chunk boundary, for copies of the two parts; then the packet is as before.
\<close>
theorem gnrc_pktbuf_mark_splits:
  assumes "pkt_inv s U (Some p) ((p, r) # rs)"
  shows "\<exists>q s'. gnrc_pktbuf_mark (Some p) sz ty s = Some (q, s') \<and>
    (q = None \<longleftrightarrow> sz = 0 \<or> ssize r < sz \<or> \<not> all_served (mark_requests r sz) s) \<and>
    (\<forall>x\<in>ubytes (U - set (snip_chunks (p, r))). pmem s' x = pmem s x) \<and>
    (case q of
       None \<Rightarrow> pkt_inv s' U (Some p) ((p, r) # rs) \<and> payload s' r = payload s r
     | Some m \<Rightarrow> 0 < sz \<and> sz \<le> ssize r \<and>
         (\<exists>r' r''. pkt_inv s' (U - set (snip_chunks (p, r)) \<union> set (pchunks [(p, r'), (m, r'')])) (Some p) ((p, r') # (m, r'') # rs) \<and>
            payload s' r'' = take sz (payload s r) \<and> payload s' r' = drop sz (payload s r) \<and>
            stype r'' = ty \<and> susers r'' = 1 \<and> stype r' = stype r \<and> susers r' = susers r))"
proof (cases "0 < sz \<and> sz \<le> ssize r")
  case True
  obtain q s' where q: "gnrc_pktbuf_mark (Some p) sz ty s = Some (q, s')" "mark_post s U p r sz ty q s'"
    using mark_spec [OF assms conjunct1 [OF True] conjunct2 [OF True], of ty] by blast
  have "get_snip p s = Some r" "snip_ok r" using assms by (auto simp: pkt_inv_def)
  then have nq: "q = None \<longleftrightarrow> sz = 0 \<or> ssize r < sz \<or> \<not> all_served (mark_requests r sz) s"
    using mark_none_iff [OF q(1)] True by (auto simp: snip_ok_def)
  show ?thesis
  proof (cases q)
    case None
    have p: "pk_inv s' U" "same_on U s s'" using q(2) None by (auto simp: mark_post_def)
    have c: "set (pchunks ((p, r) # rs)) \<subseteq> U" "pkt_at s (Some p) ((p, r) # rs)" "\<forall>c\<in>set ((p, r) # rs). snip_ok (snd c)"
      using assms by (auto simp: pkt_inv_def simp del: snip_chunks.simps)
    have "pkt_inv s' U (Some p) ((p, r) # rs)"
      using assms p(1) pkt_at_same [OF p(2) c(1,2)] by (simp add: pkt_inv_def)
    moreover have "payload s' r = payload s r" by (rule payload_of [OF p(2) c(1) _ c(3), of p]) simp
    ultimately show ?thesis
      using q(1) None nq same_on_subset [OF p(2), of "U - set (snip_chunks (p, r))"] by (auto simp: same_on_def simp del: snip_chunks.simps)
  next
    case (Some m)
    then obtain r' r'' where m: "marked s s' (U - set (snip_chunks (p, r))) p r sz ty m r' r''"
      using q(2) by (auto simp: mark_post_def simp del: snip_chunks.simps)
    from marked_pkt_inv [OF assms m] m Some q(1) nq True show ?thesis unfolding marked_def same_on_def
      by (intro exI [of _ q] exI [of _ s']) (auto simp del: snip_chunks.simps)
  qed
next
  case False
  have "get_snip p s = Some r" using assms by (simp add: pkt_inv_def)
  then have "gnrc_pktbuf_mark (Some p) sz ty s = Some (None, s)" using False by (auto simp: gnrc_pktbuf_mark_def)
  with assms False show ?thesis by auto
qed

lemma first_mark:
  "\<exists>s t. gnrc_pktbuf_add None (Out 7) 5 1 (gnrc_pktbuf_init some_pktbuf) = Some (Some 0, s) \<and>
     gnrc_pktbuf_mark (Some 0) 3 2 s = Some (Some 32, t)"
  by (simp add: gnrc_pktbuf_add_def create_snip_def pktbuf_alloc_def fit_loop_eval gnrc_pktbuf_init_def some_pktbuf_def
      relink_def get_unused_def put_obj_def memcpy_def align_eq pktbuf_consts gnrc_pktbuf_mark_def get_snip_def set_pktsnip_def
      set_next_def upd_snip_def pktbuf_free_def place_loop_eval too_small_hole_def join_next_def merge_unused_def size_t_def)

theorem gnrc_pktbuf_mark_splits_witness:
  "\<exists>s t r' r''. gnrc_pktbuf_add None (Out 7) 5 1 (gnrc_pktbuf_init some_pktbuf) = Some (Some 0, s) \<and>
     gnrc_pktbuf_mark (Some 0) 3 2 s = Some (Some 32, t) \<and> pkt_at t (Some 0) [(0, r'), (32, r'')] \<and>
     payload t r'' = [Byte 7, Byte 8, Byte 9] \<and> payload t r' = [Byte 10, Byte 11]"
proof -
  obtain s t where s: "gnrc_pktbuf_add None (Out 7) 5 1 (gnrc_pktbuf_init some_pktbuf) = Some (Some 0, s)"
    "gnrc_pktbuf_mark (Some 0) 3 2 s = Some (Some 32, t)" using first_mark by blast
  obtain r where r: "pkt_inv s (set (snip_chunks (0, r))) (Some 0) [(0, r)]" "payload s r = [Byte 7, Byte 8, Byte 9, Byte 10, Byte 11]"
    using first_packet [OF s(1)] by blast
  from gnrc_pktbuf_mark_splits [OF r(1), of 3 2] s(2) r(2)
  obtain r' r'' where "pkt_at t (Some 0) [(0, r'), (32, r'')]" "payload t r'' = [Byte 7, Byte 8, Byte 9]" "payload t r' = [Byte 10, Byte 11]"
    by (auto simp: pkt_inv_def simp del: snip_chunks.simps)
  with s show ?thesis by blast
qed

end
