(* ===== verification/Pktbuf_Realloc.thy ===== *)
theory Pktbuf_Realloc
  imports Pktbuf_Packets
begin

text \<open>
  Resizing the data of a snip (\<open>gnrc_pktbuf_realloc_data\<close>), and what goes wrong for sizes whose
  rounding overflows.
\<close>

section \<open>Resizing\<close>

lemma resize_finish:
  assumes inv: "pkt_inv s U (Some p) ((p, r) # rs)" and W: "W = U - set (snip_chunks (p, r))"
    and cs: "snip_chunks (p, f r) = cs" "pk_inv t (W \<union> set cs)" "distinct cs" "set cs \<inter> W = {}"
    and t: "same_on W s t" "get_snip p t = Some r" and ok: "snip_ok (f r)" "snext (f r) = snext r"
  shows "\<exists>s'. upd_snip p f t = Some s' \<and> pkt_inv s' (W \<union> set cs) (Some p) ((p, f r) # rs) \<and> same_on W s s' \<and>
     payload s' (f r) = payload t (f r)"
proof -
  have p: "(p, 24) \<in> W \<union> set cs" "(p, 24) \<notin> W" using cs(1,4) by auto
  obtain s' where s': "upd_snip p f t = Some s'" "pk_inv s' (W \<union> set cs)" "same_on (W \<union> set cs - {(p, 24)}) t s'" "get_snip p s' = Some (f r)"
    using upd_snip_chunk [OF cs(2) p(1) t(2)] by blast
  have rs: "set (pchunks rs) \<subseteq> W" "distinct (pchunks rs)" "pkt_at s (snext r) rs" "\<forall>c\<in>set rs. snip_ok (snd c)"
    using inv by (auto simp: pkt_inv_def W pchunks_def simp del: snip_chunks.simps)
  have same: "same_on W s s'" by (rule same_on_trans [OF t(1) same_on_subset [OF s'(3)]]) (use p(2) in auto)
  have at: "pkt_at s' (snext r) rs" by (rule pkt_at_same [OF same rs(1,3)])
  have e: "pchunks ((p, f r) # rs) = cs @ pchunks rs" using cs(1) by (simp add: pchunks_def)
  have "pkt_inv s' (W \<union> set cs) (Some p) ((p, f r) # rs)"
    unfolding pkt_inv_def e using s'(2,4) at rs cs(3,4) ok by auto
  moreover have "set (tl (snip_chunks (p, f r))) \<subseteq> W \<union> set cs - {(p, 24)}" using cs(1,3) by auto
  then have "payload s' (f r) = payload t (f r)" by (rule payload_same [OF s'(3) _ ok(1)])
  ultimately show ?thesis using s'(1) same by blast
qed

text \<open>What resizing to \<open>sz\<close> promises of a result \<open>(e, s')\<close>.\<close>

definition resized ::
  "pktbuf \<Rightarrow> (nat \<times> nat) set \<Rightarrow> nat \<Rightarrow> gnrc_pktsnip \<Rightarrow> (nat \<times> gnrc_pktsnip) list \<Rightarrow> nat \<Rightarrow> pktbuf \<Rightarrow> bool" where
  "resized s U p r rs sz s' \<longleftrightarrow>
     (\<exists>d. let r' = r\<lparr>sdata := d, ssize := sz\<rparr> in
        pkt_inv s' (U - set (snip_chunks (p, r)) \<union> set (snip_chunks (p, r'))) (Some p) ((p, r') # rs) \<and>
        set (snip_chunks (p, r')) \<inter> (U - set (snip_chunks (p, r))) = {} \<and>
        same_on (U - set (snip_chunks (p, r))) s s' \<and>
        take (min sz (ssize r)) (payload s' r') = take (min sz (ssize r)) (payload s r))"

lemma resizedI:
  "pkt_inv s' (U - set (snip_chunks (p, r)) \<union> set (snip_chunks (p, r\<lparr>sdata := d, ssize := sz\<rparr>))) (Some p) ((p, r\<lparr>sdata := d, ssize := sz\<rparr>) # rs) \<Longrightarrow>
   set (snip_chunks (p, r\<lparr>sdata := d, ssize := sz\<rparr>)) \<inter> (U - set (snip_chunks (p, r))) = {} \<Longrightarrow>
   same_on (U - set (snip_chunks (p, r))) s s' \<Longrightarrow>
   take (min sz (ssize r)) (payload s' (r\<lparr>sdata := d, ssize := sz\<rparr>)) = take (min sz (ssize r)) (payload s r) \<Longrightarrow> resized s U p r rs sz s'"
  unfolding resized_def Let_def by blast

lemma pkt_invD:
  assumes "pkt_inv s U (Some p) ((p, r) # rs)"
  shows "pk_inv s U" "get_snip p s = Some r" "set (snip_chunks (p, r)) \<subseteq> U" "distinct (snip_chunks (p, r))" "snip_ok r"
  using assms by (auto simp: pkt_inv_def pchunks_def)

lemma resize_to_zero:
  assumes inv: "pkt_inv s U (Some p) ((p, r) # rs)" and d: "sdata r = In d"
  shows "\<exists>s'. do { s \<leftarrow> pktbuf_free (sdata r) (ssize r) s; s \<leftarrow> upd_snip p (\<lambda>r. r\<lparr>sdata := DNull, ssize := 0\<rparr>) s; Some (0, s) } = Some (0 :: int, s') \<and>
    resized s U p r rs 0 s'"
proof -
  note a = pkt_invD [OF inv]
  let ?d = "(d, align (ssize r))" and ?f = "\<lambda>r. r\<lparr>sdata := DNull, ssize := 0\<rparr>"
  have c: "snip_chunks (p, r) = [(p, 24), ?d]" "(p, 24) \<in> U" "?d \<in> U" "(p, 24) \<noteq> ?d" using a(3,4) d by auto
  obtain t where t: "pktbuf_free (In d) (ssize r) s = Some t" "pk_inv t (U - {?d})" "same_on (U - {?d}) s t"
    using free_chunk [OF a(1) c(3)] by blast
  have r: "get_snip p t = Some r" using get_snip_same [OF t(3), of p] a(2) c by auto
  have e: "U - set (snip_chunks (p, r)) \<union> set [(p, 24)] = U - {?d}" unfolding c(1) using c(2,4) by auto
  have w: "set [(p, 24)] \<inter> (U - set (snip_chunks (p, r))) = {}" unfolding c(1) by auto
  have cs: "snip_chunks (p, ?f r) = [(p, 24)]" "distinct [(p, 24 :: nat)]" by simp_all
  have sm: "same_on (U - set (snip_chunks (p, r))) s t" by (rule same_on_subset [OF t(3)]) (use c(1) in auto)
  have ok: "snip_ok (?f r)" "snext (?f r) = snext r" by (simp_all add: snip_ok_def)
  obtain s' where s': "upd_snip p ?f t = Some s'" "pkt_inv s' (U - set (snip_chunks (p, r)) \<union> set [(p, 24)]) (Some p) ((p, ?f r) # rs)"
      "same_on (U - set (snip_chunks (p, r))) s s'"
    using resize_finish [where f = ?f, OF inv refl cs(1) t(2) [folded e] cs(2) w sm r ok] by blast
  then have "resized s U p r rs 0 s'" using w unfolding cs(1) [symmetric] by (intro resizedI [where d = DNull]) simp_all
  with t(1) s'(1) d show ?thesis by simp
qed

text \<open>Growing: new data, with the old bytes copied.\<close>

lemma alloc_cases_any:
  assumes "pk_inv s U" "0 < sz" "sz < 2 ^ 32 - 7"
  obtains "pktbuf_alloc sz s = Some (None, s)"
  | a s' where "pktbuf_alloc sz s = Some (Some a, s')" "pk_inv s' (insert (a, align sz) U)" "(a, align sz) \<notin> U" "same_on U s s'"
      "outside s' = outside s" "sz \<le> CONFIG_GNRC_PKTBUF_SIZE"
  using pk_inv_alloc [OF assms]
proof (elim disjE exE conjE)
  fix a s' assume h: "pktbuf_alloc sz s = Some (Some a, s')" "pk_inv s' (insert (a, align sz) U)"
    "cbytes (a, align sz) \<inter> ubytes U = {}" "\<forall>x\<in>ubytes U. pmem s' x = pmem s x" "outside s' = outside s"
  have c: "chunk (a, align sz)" using pk_inv_chunk [OF h(2)] by simp
  then have "sz \<le> CONFIG_GNRC_PKTBUF_SIZE" using align_ge [OF assms(3)] by (simp add: chunk_def)
  then show thesis using h fresh_chunk [OF c h(3)] by (intro that(2) [of a s']) (auto simp: same_on_def)
qed (rule that(1))

lemma copy_old_data:
  assumes inv: "pkt_inv s U (Some p) ((p, r) # rs)" and sz: "ssize r < sz" "sz \<le> align sz"
    and t: "pk_inv t (insert (a, align sz) U)" "(a, align sz) \<notin> U" "same_on U s t"
  obtains t1 where "(if sdata r \<noteq> DNull then memcpy a (sdata r) (if ssize r < sz then ssize r else sz) t else Some t) = Some t1"
      "pk_inv t1 (insert (a, align sz) U)" "same_on U t t1" "\<forall>i < ssize r. pmem t1 (a + i) = payload s r ! i"
proof (cases "sdata r")
  case (In d)
  note h = pkt_invD [OF inv]
  have r: "0 < ssize r" "ssize r \<le> align sz" "ssize r \<le> align (ssize r)" "(d, align (ssize r)) \<in> U"
    using h(3,5) In sz snip_size by (auto simp: snip_ok_def)
  have "readable U (In d) (ssize r)" using in_ubytes [OF r(4)] r(3) by (force simp: le_iff_add)
  from memcpy_chunk [OF t(1) insertI1 this r(1,2)] obtain t1 where t1: "memcpy a (In d) (ssize r) t = Some t1" "pk_inv t1 (insert (a, align sz) U)"
      "same_on (insert (a, align sz) U - {(a, align sz)}) t t1" "\<forall>i < ssize r. pmem t1 (a + i) = the (fetch t (In d) i)" by blast
  have "pmem t (d + i) = pmem s (d + i)" if "i < ssize r" for i
    using t(3) in_ubytes [OF r(4), of i] r(3) that by (simp add: same_on_def)
  with t1 t(2) sz In show thesis by (intro that [of t1]) (auto simp: payload_def)
qed (use pkt_invD(5) [OF inv] t in \<open>auto intro!: that [of t] simp: snip_ok_def\<close>)

lemma resize_grow:
  assumes inv: "pkt_inv s U (Some p) ((p, r) # rs)" and sz: "ssize r < sz" "sz \<le> CONFIG_GNRC_PKTBUF_SIZE"
    and t: "pk_inv t (insert (a, align sz) U)" "(a, align sz) \<notin> U" "same_on U s t" "outside t = outside s"
  shows "\<exists>s'. do { s \<leftarrow> (if sdata r \<noteq> DNull then memcpy a (sdata r) (if ssize r < sz then ssize r else sz) t else Some t);
        s \<leftarrow> pktbuf_free (sdata r) (ssize r) s; s \<leftarrow> upd_snip p (\<lambda>r. r\<lparr>sdata := In a, ssize := sz\<rparr>) s; Some (0, s) } = Some (0 :: int, s') \<and>
    resized s U p r rs sz s'"
proof -
  note h = pkt_invD [OF inv]
  let ?V = "insert (a, align sz) U" and ?D = "set (tl (snip_chunks (p, r)))" and ?f = "\<lambda>r. r\<lparr>sdata := In a, ssize := sz\<rparr>"
    and ?W = "U - set (snip_chunks (p, r))"
  have hd: "snip_chunks (p, r) = (p, 24) # tl (snip_chunks (p, r))" by simp
  have p: "(p, 24) \<in> U" "(p, 24) \<notin> ?D" "?D \<subseteq> U" using h(3,4) by auto
  have al: "sz \<le> align sz" "ssize r \<le> align (ssize r)" using sz by (auto intro!: align_ge simp: pktbuf_consts)
  obtain t1 where t1: "(if sdata r \<noteq> DNull then memcpy a (sdata r) (if ssize r < sz then ssize r else sz) t else Some t) = Some t1"
      "pk_inv t1 ?V" "same_on U t t1" "\<forall>i < ssize r. pmem t1 (a + i) = payload s r ! i"
    using copy_old_data [OF inv sz(1) al(1) t(1,2,3)] by blast
  obtain t2 where t2: "pktbuf_free (sdata r) (ssize r) t1 = Some t2" "pk_inv t2 (?V - ?D)" "same_on (?V - ?D) t1 t2"
    using free_data [OF t1(2) _ h(5), of p] h(3) by blast
  have aD: "(a, align sz) \<notin> ?D" using t(2) p(3) by blast
  have ap: "(a, align sz) \<noteq> (p, 24)" using t(2) p(1) by metis
  have cs: "snip_chunks (p, ?f r) = [(p, 24), (a, align sz)]" "distinct [(p, 24), (a, align sz)]" using ap by auto
  have e: "?W \<union> set [(p, 24), (a, align sz)] = ?V - ?D" using p t(2) aD by (subst hd) auto
  have w: "set [(p, 24), (a, align sz)] \<inter> ?W = {}" using t(2) by (subst hd) auto
  have sm: "same_on ?W s t2"
    by (rule same_on_trans [OF same_on_trans [OF same_on_subset [OF t(3)] same_on_subset [OF t1(3)]] same_on_subset [OF t2(3)]])
      (subst hd, auto)+
  have "get_snip p t2 = get_snip p t1" using p by (intro get_snip_same [OF t2(3)]) auto
  moreover have "get_snip p t1 = get_snip p t" "get_snip p t = get_snip p s" using p(1) get_snip_same t1(3) t(3) by blast+
  ultimately have r: "get_snip p t2 = Some r" using h(2) by simp
  have ok: "snip_ok (?f r)" "snext (?f r) = snext r" using sz by (auto simp: snip_ok_def)
  obtain s' where s': "upd_snip p ?f t2 = Some s'" "pkt_inv s' (?W \<union> set [(p, 24), (a, align sz)]) (Some p) ((p, ?f r) # rs)"
      "same_on ?W s s'" "payload s' (?f r) = payload t2 (?f r)"
    using resize_finish [where f = ?f, OF inv refl cs(1) t2(2) [folded e] cs(2) w sm r ok] by blast
  have "pmem t2 (a + i) = payload s r ! i" if "i < ssize r" for i
  proof -
    have "a + i \<in> ubytes (?V - ?D)" using that al sz aD by (intro in_ubytes [of a "align sz"]) auto
    then show ?thesis using t2(3) t1(4) that by (simp add: same_on_def)
  qed
  moreover have "length (payload s r) = ssize r" using h(5) by (auto simp: payload_def snip_ok_def)
  ultimately have "take (min sz (ssize r)) (payload s' (?f r)) = take (min sz (ssize r)) (payload s r)"
    unfolding s'(4) using sz(1) by (intro nth_equalityI) (auto simp: payload_def)
  then have "resized s U p r rs sz s'" using s'(2,3) w unfolding cs(1) [symmetric] by (intro resizedI [where d = "In a"]) simp_all
  with t1(1) t2(1) s'(1) show ?thesis by simp
qed

text \<open>Shrinking: the chunks behind the new end are given back.\<close>

lemma resize_keep:
  assumes inv: "pkt_inv s U (Some p) ((p, r) # rs)" and d: "sdata r = In d" and sz: "0 < sz" "sz < ssize r"
    and W: "W = U - set (snip_chunks (p, r))"
    and t: "pk_inv t (W \<union> {(p, 24), (d, align sz)})" "(p, 24) \<noteq> (d, align sz)" "(d, align sz) \<notin> W"
      "same_on (W \<union> {(p, 24), (d, align sz)}) s t"
  shows "\<exists>s'. upd_snip p (\<lambda>r. r\<lparr>ssize := sz\<rparr>) t = Some s' \<and> resized s U p r rs sz s'"
proof -
  note h = pkt_invD [OF inv]
  let ?f = "\<lambda>r. r\<lparr>ssize := sz\<rparr>" and ?cs = "[(p, 24), (d, align sz)]"
  have cs: "snip_chunks (p, ?f r) = ?cs" "distinct ?cs" using d t(2) by auto
  have e: "W \<union> set ?cs = W \<union> {(p, 24), (d, align sz)}" by simp
  have w: "set ?cs \<inter> W = {}" using t(3) W by auto
  have r: "get_snip p t = Some r" using get_snip_same [OF t(4), of p] h(2) by simp
  have le: "sz \<le> align sz" using h(5) sz by (intro align_ge) (auto simp: snip_ok_def pktbuf_consts)
  have ok: "snip_ok (?f r)" "snext (?f r) = snext r" using h(5) sz d by (auto simp: snip_ok_def)
  obtain s' where s': "upd_snip p ?f t = Some s'" "pkt_inv s' (W \<union> set ?cs) (Some p) ((p, ?f r) # rs)"
      "same_on W s s'" "payload s' (?f r) = payload t (?f r)"
    using resize_finish [where f = ?f, OF inv W cs(1) t(1) [folded e] cs(2) w same_on_subset [OF t(4)] r ok] by blast
  have "pmem t (d + i) = pmem s (d + i)" if "i < sz" for i
    using t(4) in_ubytes [of d "align sz" "W \<union> {(p, 24), (d, align sz)}" i] le that by (simp add: same_on_def)
  then have "payload t (?f r) = take sz (payload s r)" using sz d by (auto simp: payload_def take_map intro!: nth_equalityI)
  moreover have f: "r\<lparr>sdata := In d, ssize := sz\<rparr> = ?f r" using d by (cases r) simp
  ultimately have "resized s U p r rs sz s'" using s' sz w unfolding W
    by (intro resizedI [where d = "In d"]) (simp_all only: f cs(1), simp)
  with s'(1) show ?thesis by blast
qed

lemma split_tail:
  assumes "q \<in> U" "q \<noteq> c" "a \<notin> U - {c}" "b \<notin> U - {c}" "a \<noteq> b"
  shows "insert a (insert b (U - {c})) - {b} = U - {q, c} \<union> {q, a}" "q \<noteq> a" "a \<notin> U - {q, c}"
  using assms by blast+

lemma resize_shrink:
  assumes inv: "pkt_inv s U (Some p) ((p, r) # rs)" and sz: "0 < sz" "sz < ssize r"
  shows "\<exists>s'. do { s \<leftarrow> (if align (ssize r) > align sz
                      then pktbuf_free (dadd (sdata r) (align sz)) (size_t (int (ssize r) - int (align sz))) s else Some s);
                 s \<leftarrow> upd_snip p (\<lambda>r. r\<lparr>ssize := sz\<rparr>) s; Some (0, s) } = Some (0 :: int, s') \<and> resized s U p r rs sz s'"
proof -
  note h = pkt_invD [OF inv]
  obtain d where d: "sdata r = In d" "ssize r \<le> CONFIG_GNRC_PKTBUF_SIZE" using h(5) sz by (auto simp: snip_ok_def)
  let ?A = "align (ssize r)" and ?k = "align sz" and ?n = "ssize r - align sz"
  have c: "snip_chunks (p, r) = [(p, 24), (d, ?A)]" "(p, 24) \<in> U" "(d, ?A) \<in> U" "(p, 24) \<noteq> (d, ?A)" using h(3,4) d(1) by auto
  have k: "0 < ?k" "8 dvd ?k" "?k \<le> ?A" using align_pos [of sz] align_le [of sz ?A] snip_size [OF h(5)] sz d(2) by (auto simp: pktbuf_consts)
  show ?thesis
  proof (cases "?k < ?A")
    case True
    have "\<not> ssize r \<le> ?k" using align_le [OF _ k(2), of "ssize r"] True d(2) by (auto simp: pktbuf_consts)
    then have n: "?A = ?k + align ?n" "size_t (int (ssize r) - int ?k) = ?n"
      using align_add [OF k(2), of ?n] d(2) by (auto simp: pktbuf_consts size_t_def nat_mod_distrib nat_diff_distrib)
    note sp = pk_inv_split [OF h(1) c(3) k(2,1) True]
    have b: "(d + ?k, ?A - ?k) = (d + ?k, align ?n)" using n(1) by simp
    note sp = sp [unfolded b]
    have ne: "(d, ?k) \<noteq> (d + ?k, align ?n)" using k(1) by simp
    note st = split_tail [OF c(2,4) sp(2,3) ne]
    have W: "U - {(p, 24), (d, ?A)} = U - set (snip_chunks (p, r))" unfolding c(1) by simp
    obtain t where t: "pktbuf_free (In (d + ?k)) ?n s = Some t" "pk_inv t (U - {(p, 24), (d, ?A)} \<union> {(p, 24), (d, ?k)})"
        "same_on (U - {(p, 24), (d, ?A)} \<union> {(p, 24), (d, ?k)}) s t"
      using free_chunk [OF sp(1), of "d + ?k" ?n] unfolding st(1) by blast
    from resize_keep [OF inv d(1) sz W t(2) st(2,3) t(3)] t(1) n(2) True show ?thesis by (auto simp: d(1))
  next
    case False
    then have A: "?k = ?A" using k(3) by simp
    have e: "U - set (snip_chunks (p, r)) \<union> {(p, 24), (d, ?k)} = U" unfolding A c(1) using c(2,3) by auto
    have "\<exists>s'. upd_snip p (\<lambda>r. r\<lparr>ssize := sz\<rparr>) s = Some s' \<and> resized s U p r rs sz s'"
      by (rule resize_keep [OF inv d(1) sz refl, unfolded e, OF h(1)]) (use A c(1,4) in \<open>auto simp del: snip_chunks.simps\<close>)
    with False show ?thesis by auto
  qed
qed

lemma realloc_asserts:
  assumes "pkt_inv s U (Some p) ((p, r) # rs)"
  shows "ssize r = 0 \<and> sdata r = DNull \<or> ssize r > 0 \<and> sdata r \<noteq> DNull \<and> pktbuf_contains (sdata r)"
proof -
  note h = pkt_invD [OF assms]
  have "d < CONFIG_GNRC_PKTBUF_SIZE" if "sdata r = In d" for d
    using pk_inv_chunk [OF h(1), of "(d, align (ssize r))"] h(3) that by (auto simp: chunk_def)
  with h(5) show ?thesis by (auto simp: snip_ok_def)
qed

lemma realloc_spec:
  assumes inv: "pkt_inv s U (Some p) ((p, r) # rs)" and sz: "sz < 2 ^ 32 - 7"
  shows "\<exists>e s'. gnrc_pktbuf_realloc_data p sz s = Some (e, s') \<and>
     (e = 0 \<and> resized s U p r rs sz s' \<or> e = ENOMEM \<and> ssize r < sz \<and> s' = s)"
proof -
  note h = pkt_invD [OF inv] and a = realloc_asserts [OF inv]
  note prog = gnrc_pktbuf_realloc_data_def h(2) a
  consider (same) "sz = ssize r" | (zero) d where "sz = 0" "sdata r = In d" "ssize r \<noteq> 0" | (grow) "ssize r < sz" | (shrink) "0 < sz" "sz < ssize r"
    using a h(5) by (cases sz "ssize r" rule: linorder_cases; cases "sz = 0") (auto simp: snip_ok_def)
  then show ?thesis
  proof cases
    case same
    have "r\<lparr>sdata := sdata r, ssize := sz\<rparr> = r" by (simp add: same)
    moreover have "U - set (snip_chunks (p, r)) \<union> set (snip_chunks (p, r)) = U" using h(3) by blast
    ultimately have "resized s U p r rs sz s"
      by (intro resizedI [where d = "sdata r"]) (simp_all only: inv same_on_refl, blast)
    with same show ?thesis by (simp add: prog)
  next
    case zero
    from resize_to_zero [OF inv zero(2)] zero a show ?thesis by (auto simp: prog)
  next
    case grow
    show ?thesis
    proof (cases rule: alloc_cases_any [OF h(1) _ sz])
      case 2
      with grow show ?thesis by (auto simp: prog)
    next
      case (3 b t)
      from resize_grow [OF inv grow 3(6,2,3,4,5)] 3(1) grow show ?thesis by (auto simp: prog)
    qed (use grow in auto)
  next
    case shrink
    from resize_shrink [OF inv shrink] shrink a show ?thesis by (auto simp: prog)
  qed
qed

text \<open>
  (C16) Resizing the data of a snip, \<open>gnrc_pktbuf_realloc_data\<close>: for every size whose rounding does not
  overflow it returns, and either reports that no memory is left, which happens only when the data grows and leaves
  the buffer as it was, or gives the snip data of the new size that begins with the old bytes as far as both reach. The
  packet stays well formed, the chunks it owned before and owns no longer are free, no chunk is lost or shared, and
  the rest of the buffer is untouched.
\<close>
theorem gnrc_pktbuf_realloc_data_resizes:
  assumes inv: "pkt_inv s U (Some p) ((p, r) # rs)" and sz: "sz < 2 ^ 32 - 7"
  shows "\<exists>e s'. gnrc_pktbuf_realloc_data p sz s = Some (e, s') \<and>
     (e = 0 \<and> resized s U p r rs sz s' \<or> e = ENOMEM \<and> ssize r < sz \<and> s' = s)"
  using realloc_spec [OF assms] .

lemma first_realloc:
  "\<exists>s t. gnrc_pktbuf_add None (Out 7) 5 1 (gnrc_pktbuf_init some_pktbuf) = Some (Some 0, s) \<and>
     gnrc_pktbuf_realloc_data 0 9 s = Some (0, t)"
  by (simp add: gnrc_pktbuf_add_def create_snip_def pktbuf_alloc_def fit_loop_eval gnrc_pktbuf_init_def some_pktbuf_def
      relink_def get_unused_def put_obj_def memcpy_def align_eq pktbuf_consts gnrc_pktbuf_realloc_data_def get_snip_def set_pktsnip_def
      set_next_def upd_snip_def pktbuf_free_def place_loop_eval too_small_hole_def join_next_def merge_unused_def size_t_def)

theorem gnrc_pktbuf_realloc_data_resizes_witness:
  "\<exists>s t r' . gnrc_pktbuf_add None (Out 7) 5 1 (gnrc_pktbuf_init some_pktbuf) = Some (Some 0, s) \<and>
     gnrc_pktbuf_realloc_data 0 9 s = Some (0, t) \<and> pkt_at t (Some 0) [(0, r')] \<and> ssize r' = 9 \<and>
     take 5 (payload t r') = [Byte 7, Byte 8, Byte 9, Byte 10, Byte 11]"
proof -
  obtain s t where s: "gnrc_pktbuf_add None (Out 7) 5 1 (gnrc_pktbuf_init some_pktbuf) = Some (Some 0, s)"
    "gnrc_pktbuf_realloc_data 0 9 s = Some (0, t)" using first_realloc by blast
  obtain r where r: "pkt_inv s (set (snip_chunks (0, r))) (Some 0) [(0, r)]" "payload s r = [Byte 7, Byte 8, Byte 9, Byte 10, Byte 11]"
    using first_packet [OF s(1)] by blast
  have "ssize r = 5" using arg_cong [OF r(2), of length] by (auto simp: payload_def split: dptr.splits)
  with gnrc_pktbuf_realloc_data_resizes [OF r(1), of 9] s(2) r(2)
  obtain d where "pkt_at t (Some 0) [(0, r\<lparr>sdata := d, ssize := 9\<rparr>)]" "take 5 (payload t (r\<lparr>sdata := d, ssize := 9\<rparr>)) = payload s r"
    by (auto simp: pkt_inv_def resized_def Let_def ENOMEM_def simp del: snip_chunks.simps)
  with s r(2) show ?thesis by (intro exI [of _ s] exI [of _ t] exI [of _ "r\<lparr>sdata := d, ssize := 9\<rparr>"]) simp
qed

text \<open>
  The bound on the size is needed: \<open>_align\<close> rounds \<open>SIZE_MAX\<close> to zero, so that a request to
  grow the data of a snip to \<open>SIZE_MAX\<close> bytes is not refused for want of memory. The allocator hands out an empty chunk
  that coincides with the free chunk behind the packet, and the copy of the old bytes overwrites the header of that
  free chunk, so that walking the free list reads a structure that is no longer there.
\<close>
theorem gnrc_pktbuf_realloc_data_overflow:
  "\<exists>s. gnrc_pktbuf_add None (Out 7) 5 1 (gnrc_pktbuf_init some_pktbuf) = Some (Some 0, s) \<and>
     gnrc_pktbuf_realloc_data 0 (2 ^ 32 - 1) s = None"
  by (simp add: gnrc_pktbuf_add_def create_snip_def pktbuf_alloc_def fit_loop_eval gnrc_pktbuf_init_def some_pktbuf_def
      relink_def get_unused_def put_obj_def memcpy_def align_def pktbuf_consts gnrc_pktbuf_realloc_data_def get_snip_def set_pktsnip_def
      set_next_def upd_snip_def pktbuf_free_def place_loop_eval too_small_hole_def join_next_def merge_unused_def size_t_def)

end
