(* ===== verification/Pktbuf_Snips.thy ===== *)
theory Pktbuf_Snips
  imports Pktbuf_Realloc
begin

text \<open>
  The functions on packets that are built on the packet buffer's interface: length, count and search
  (net/gnrc/pkt.h, gnrc_pkt.c), and removing, replacing, reversing and merging snips (gnrc_pktbuf.c, with the list
  macros of utlist.h that it uses). Each buffer operation they call takes the mutex by itself; a packet
  that is worked on belongs to the caller.
\<close>

section \<open>The program\<close>

partial_function (option) pkt_len_loop :: "nat option \<Rightarrow> nat \<Rightarrow> pktbuf \<Rightarrow> nat option" where
  "pkt_len_loop pkt len s =
     (case pkt of
        None \<Rightarrow> Some len
      | Some p \<Rightarrow> do { r \<leftarrow> get_snip p s; pkt_len_loop (snext r) (size_t (int len + int (ssize r))) s })"

definition gnrc_pkt_len :: "nat option \<Rightarrow> pktbuf \<Rightarrow> nat option" where
  "gnrc_pkt_len pkt s = pkt_len_loop pkt 0 s"

partial_function (option) pkt_len_upto_loop :: "nat option \<Rightarrow> int \<Rightarrow> nat \<Rightarrow> pktbuf \<Rightarrow> nat option" where
  "pkt_len_upto_loop pkt ty len s =
     (case pkt of
        None \<Rightarrow> Some len
      | Some p \<Rightarrow>
          do { r \<leftarrow> get_snip p s;
               let len = size_t (int len + int (ssize r));
               if stype r = ty then Some len else pkt_len_upto_loop (snext r) ty len s })"

definition gnrc_pkt_len_upto :: "nat option \<Rightarrow> int \<Rightarrow> pktbuf \<Rightarrow> nat option" where
  "gnrc_pkt_len_upto pkt ty s = pkt_len_upto_loop pkt ty 0 s"

partial_function (option) pkt_count_loop :: "nat option \<Rightarrow> nat \<Rightarrow> pktbuf \<Rightarrow> nat option" where
  "pkt_count_loop pkt count s =
     (case pkt of
        None \<Rightarrow> Some count
      | Some p \<Rightarrow> do { r \<leftarrow> get_snip p s; pkt_count_loop (snext r) (size_t (int count + 1)) s })"

definition gnrc_pkt_count :: "nat option \<Rightarrow> pktbuf \<Rightarrow> nat option" where
  "gnrc_pkt_count pkt s = pkt_count_loop pkt 0 s"

partial_function (option) gnrc_pktsnip_search_type :: "nat option \<Rightarrow> int \<Rightarrow> pktbuf \<Rightarrow> nat option option" where
  "gnrc_pktsnip_search_type pkt ty s =
     (case pkt of
        None \<Rightarrow> Some None
      | Some p \<Rightarrow> do { r \<leftarrow> get_snip p s; if stype r \<noteq> ty then gnrc_pktsnip_search_type (snext r) ty s else Some pkt })"

text \<open>Walking to the snip in front of \<open>el\<close>, or to the last one.\<close>

partial_function (option) ll_before :: "nat \<Rightarrow> nat \<Rightarrow> pktbuf \<Rightarrow> nat option" where
  "ll_before el tmp s =
     do { r \<leftarrow> get_snip tmp s;
          case snext r of
            None \<Rightarrow> Some tmp
          | Some q \<Rightarrow> if q \<noteq> el then ll_before el q s else Some tmp }"

definition ll_delete :: "nat option \<Rightarrow> nat \<Rightarrow> pktbuf \<Rightarrow> (nat option \<times> pktbuf) option" where
  "ll_delete head del s =
     (if head = Some del then do { r \<leftarrow> get_snip del s; Some (snext r, s) }
      else
        do { h \<leftarrow> head;
             tmp \<leftarrow> ll_before del h s;
             r \<leftarrow> get_snip tmp s;
             if snext r \<noteq> None then
               do { d \<leftarrow> get_snip del s; s \<leftarrow> upd_snip tmp (\<lambda>r. r\<lparr>snext := snext d\<rparr>) s; Some (head, s) }
             else Some (head, s) })"

definition ll_replace_elem :: "nat option \<Rightarrow> nat \<Rightarrow> nat \<Rightarrow> pktbuf \<Rightarrow> (nat option \<times> pktbuf) option" where
  "ll_replace_elem head el add s =
     do { h \<leftarrow> head;
          e \<leftarrow> get_snip el s;
          s \<leftarrow> upd_snip add (\<lambda>r. r\<lparr>snext := snext e\<rparr>) s;
          if h = el then Some (Some add, s)
          else
            do { tmp \<leftarrow> ll_before el h s;
                 r \<leftarrow> get_snip tmp s;
                 s \<leftarrow> (if snext r \<noteq> None then upd_snip tmp (\<lambda>r. r\<lparr>snext := Some add\<rparr>) s else Some s);
                 Some (head, s) } }"

partial_function (option) ll_last :: "nat \<Rightarrow> pktbuf \<Rightarrow> nat option" where
  "ll_last el s = do { r \<leftarrow> get_snip el s; case snext r of None \<Rightarrow> Some el | Some q \<Rightarrow> ll_last q s }"

definition gnrc_pktbuf_remove_snip :: "nat option \<Rightarrow> nat \<Rightarrow> pktbuf \<Rightarrow> (nat option \<times> pktbuf) option" where
  "gnrc_pktbuf_remove_snip pkt snip s =
     do { (pkt, s) \<leftarrow> ll_delete pkt snip s;
          s \<leftarrow> upd_snip snip (\<lambda>r. r\<lparr>snext := None\<rparr>) s;
          s \<leftarrow> gnrc_pktbuf_release (Some snip) s;
          Some (pkt, s) }"

definition gnrc_pktbuf_replace_snip :: "nat option \<Rightarrow> nat \<Rightarrow> nat \<Rightarrow> pktbuf \<Rightarrow> (nat option \<times> pktbuf) option" where
  "gnrc_pktbuf_replace_snip pkt old add s =
     do { a \<leftarrow> get_snip add s;
          (pkt, s) \<leftarrow>
            (case snext a of
               Some tail \<Rightarrow>
                 do { back \<leftarrow> ll_last tail s;
                      (pkt, s) \<leftarrow> ll_replace_elem pkt old add s;
                      a \<leftarrow> get_snip add s;
                      s \<leftarrow> upd_snip back (\<lambda>r. r\<lparr>snext := snext a\<rparr>) s;
                      s \<leftarrow> upd_snip add (\<lambda>r. r\<lparr>snext := Some tail\<rparr>) s;
                      Some (pkt, s) }
             | None \<Rightarrow> ll_replace_elem pkt old add s);
          s \<leftarrow> upd_snip old (\<lambda>r. r\<lparr>snext := None\<rparr>) s;
          s \<leftarrow> gnrc_pktbuf_release (Some old) s;
          Some (pkt, s) }"

partial_function (option) reverse_loop :: "nat option \<Rightarrow> nat option \<Rightarrow> pktbuf \<Rightarrow> (nat option \<times> pktbuf) option" where
  "reverse_loop reversed ptr s =
     (case ptr of
        None \<Rightarrow> Some (reversed, s)
      | Some _ \<Rightarrow>
          do { (pkt, s) \<leftarrow> gnrc_pktbuf_start_write ptr s;
               case pkt of
                 None \<Rightarrow>
                   do { s \<leftarrow> gnrc_pktbuf_release reversed s; s \<leftarrow> gnrc_pktbuf_release ptr s; Some (None, s) }
               | Some p \<Rightarrow>
                   do { r \<leftarrow> get_snip p s;
                        s \<leftarrow> upd_snip p (\<lambda>r. r\<lparr>snext := reversed\<rparr>) s;
                        reverse_loop (Some p) (snext r) s } })"

definition gnrc_pktbuf_reverse_snips :: "nat option \<Rightarrow> pktbuf \<Rightarrow> (nat option \<times> pktbuf) option" where
  "gnrc_pktbuf_reverse_snips pkt s = reverse_loop None pkt s"

text \<open>Copying the data of the snips from \<open>ptr\<close> on behind each other into the data of \<open>pkt\<close>.\<close>

partial_function (option) merge_copy :: "nat \<Rightarrow> nat \<Rightarrow> nat option \<Rightarrow> pktbuf \<Rightarrow> pktbuf option" where
  "merge_copy pkt offset ptr s =
     (case ptr of
        None \<Rightarrow> Some s
      | Some p \<Rightarrow>
          do { r \<leftarrow> get_snip pkt s;
               q \<leftarrow> get_snip p s;
               s \<leftarrow> (case dadd (sdata r) offset of In d \<Rightarrow> memcpy d (sdata q) (ssize q) s | _ \<Rightarrow> None);
               q' \<leftarrow> get_snip p s;
               merge_copy pkt (size_t (int offset + int (ssize q'))) (snext q') s })"

definition gnrc_pktbuf_merge :: "nat \<Rightarrow> pktbuf \<Rightarrow> (int \<times> pktbuf) option" where
  "gnrc_pktbuf_merge pkt s =
     do { r \<leftarrow> get_snip pkt s;
          let offset = ssize r;
          sz \<leftarrow> gnrc_pkt_len (Some pkt) s;
          if ssize r = sz then Some (0, s)
          else
            do { (res, s) \<leftarrow> gnrc_pktbuf_realloc_data pkt sz s;
                 if res \<noteq> 0 then Some (res, s)
                 else
                   do { r \<leftarrow> get_snip pkt s;
                        s \<leftarrow> merge_copy pkt offset (snext r) s;
                        r \<leftarrow> get_snip pkt s;
                        s \<leftarrow> gnrc_pktbuf_release (snext r) s;
                        s \<leftarrow> upd_snip pkt (\<lambda>r. r\<lparr>snext := None\<rparr>) s;
                        Some (0, s) } } }"

section \<open>Walking a packet\<close>

text \<open>The chunks of a packet are disjoint parts of the buffer, so that sizes cannot overflow.\<close>

lemma chunk_sizes:
  assumes "disjoint_chunks U" "distinct cs" "set cs \<subseteq> U"
  shows "sum_list (map snd cs) = card (ubytes (set cs))"
  using assms(2,3)
proof (induction cs)
  case (Cons c cs)
  have "cbytes c \<inter> ubytes (set cs) = {}" using Cons.prems assms(1) by (fastforce simp: disjoint_chunks_def ubytes_def)
  moreover have "finite (ubytes (set cs))" "finite (cbytes c)" by (auto simp: ubytes_def cbytes_def)
  ultimately show ?case using Cons by (simp add: card_Un_disjoint) (simp add: cbytes_def)
qed simp

lemma chunk_sizes_le:
  assumes "pk_inv s U" "distinct cs" "set cs \<subseteq> U"
  shows "sum_list (map snd cs) \<le> CONFIG_GNRC_PKTBUF_SIZE"
proof -
  have d: "disjoint_chunks U" using assms(1) by (simp add: pk_inv_def)
  have "ubytes (set cs) \<subseteq> {0..<CONFIG_GNRC_PKTBUF_SIZE}"
    using d assms(3) by (force simp: disjoint_chunks_def ubytes_def cbytes_def chunk_def)
  from card_mono [OF _ this] have "card (ubytes (set cs)) \<le> CONFIG_GNRC_PKTBUF_SIZE" by simp
  with chunk_sizes [OF d assms(2,3)] show ?thesis by simp
qed

lemma pkt_sizes_le:
  assumes "pkt_inv s U p rs"
  shows "(\<Sum>c\<leftarrow>rs. 24 + ssize (snd c)) \<le> CONFIG_GNRC_PKTBUF_SIZE"
proof -
  have "24 + ssize r \<le> sum_list (map snd (snip_chunks (a, r)))" if "snip_ok r" for a r
    using snip_size [OF that] that by (auto simp: snip_ok_def)
  then have "24 + ssize (snd c) \<le> sum_list (map snd (snip_chunks c))" if "snip_ok (snd c)" for c
    using that by (cases c) (simp del: snip_chunks.simps)
  moreover have "\<forall>c\<in>set rs. snip_ok (snd c)" using assms by (simp add: pkt_inv_def)
  ultimately have "(\<Sum>c\<leftarrow>rs. 24 + ssize (snd c)) \<le> (\<Sum>c\<leftarrow>rs. sum_list (map snd (snip_chunks c)))"
    by (intro sum_list_mono) blast
  also have "\<dots> = sum_list (map snd (pchunks rs))" unfolding pchunks_def by (induction rs) (simp_all del: snip_chunks.simps)
  also have "\<dots> \<le> CONFIG_GNRC_PKTBUF_SIZE" using assms by (intro chunk_sizes_le [of s U]) (auto simp: pkt_inv_def)
  finally show ?thesis .
qed

lemma size_t_add: "a + b < 2 ^ 32 \<Longrightarrow> size_t (int a + int b) = a + b"
  by (simp add: size_t_def nat_add_distrib)

lemma size_t_Suc: "Suc a < 2 ^ 32 \<Longrightarrow> size_t (int a + 1) = Suc a"
  using size_t_add [of a 1] by simp

lemma pkt_len_loop_at:
  "pkt_at s p rs \<Longrightarrow> n + (\<Sum>c\<leftarrow>rs. ssize (snd c)) < 2 ^ 32 \<Longrightarrow> pkt_len_loop p n s = Some (n + (\<Sum>c\<leftarrow>rs. ssize (snd c)))"
proof (induction rs arbitrary: p n)
  case (Cons c rs)
  then show ?case by (cases c) (subst pkt_len_loop.simps, auto simp: size_t_add size_t_Suc)
qed (simp add: pkt_len_loop.simps)

lemma pkt_count_loop_at:
  "pkt_at s p rs \<Longrightarrow> n + length rs < 2 ^ 32 \<Longrightarrow> pkt_count_loop p n s = Some (n + length rs)"
proof (induction rs arbitrary: p n)
  case (Cons c rs)
  then show ?case by (cases c) (subst pkt_count_loop.simps, auto simp: size_t_add size_t_Suc)
qed (simp add: pkt_count_loop.simps)

lemma search_type_at:
  "pkt_at s p rs \<Longrightarrow> gnrc_pktsnip_search_type p ty s = Some (map_option fst (find (\<lambda>c. stype (snd c) = ty) rs))"
proof (induction rs arbitrary: p)
  case (Cons c rs)
  then show ?case by (cases c) (subst gnrc_pktsnip_search_type.simps, auto)
qed (simp add: gnrc_pktsnip_search_type.simps)

lemma pkt_len_upto_loop_at:
  "pkt_at s p rs \<Longrightarrow> n + (\<Sum>c\<leftarrow>rs. ssize (snd c)) < 2 ^ 32 \<Longrightarrow>
   pkt_len_upto_loop p ty n s =
     Some (n + (\<Sum>c\<leftarrow>takeWhile (\<lambda>c. stype (snd c) \<noteq> ty) rs. ssize (snd c)) +
       (case find (\<lambda>c. stype (snd c) = ty) rs of None \<Rightarrow> 0 | Some c \<Rightarrow> ssize (snd c)))"
proof (induction rs arbitrary: p n)
  case (Cons c rs)
  then show ?case by (cases c) (subst pkt_len_upto_loop.simps, auto simp: size_t_add size_t_Suc)
qed (simp add: pkt_len_upto_loop.simps)

section \<open>Holding a packet\<close>

definition with_users :: "(nat \<Rightarrow> nat) \<Rightarrow> (nat \<times> gnrc_pktsnip) list \<Rightarrow> (nat \<times> gnrc_pktsnip) list" where
  "with_users f = map (\<lambda>(a, r). (a, r\<lparr>susers := f (susers r)\<rparr>))"

lemma with_users_simps [simp]:
  "with_users f [] = []" "with_users f ((a, r) # rs) = (a, r\<lparr>susers := f (susers r)\<rparr>) # with_users f rs"
  by (simp_all add: with_users_def)

lemma snip_chunks_cong: "sdata r' = sdata r \<Longrightarrow> ssize r' = ssize r \<Longrightarrow> snip_chunks (a, r') = snip_chunks (a, r)"
  by (simp split: dptr.split)

lemma snip_ok_cong: "sdata r' = sdata r \<Longrightarrow> ssize r' = ssize r \<Longrightarrow> snip_ok r' \<longleftrightarrow> snip_ok r"
  by (simp add: snip_ok_def)

lemma payload_cong: "sdata r' = sdata r \<Longrightarrow> ssize r' = ssize r \<Longrightarrow> payload s r' = payload s r"
  by (simp add: payload_def split: dptr.split)

lemma pchunks_with_users [simp]: "pchunks (with_users f rs) = pchunks rs"
  by (induction rs) (auto simp: pchunks_def with_users_def split: dptr.split)

lemma ok_with_users [simp]: "(\<forall>c\<in>set (with_users f rs). snip_ok (snd c)) \<longleftrightarrow> (\<forall>c\<in>set rs. snip_ok (snd c))"
  by (auto simp: with_users_def snip_ok_def)

definition heads :: "(nat \<times> gnrc_pktsnip) list \<Rightarrow> (nat \<times> nat) set" where
  "heads rs = (\<lambda>c. (fst c, 24)) ` set rs"

lemma heads_simps [simp]: "heads [] = {}" "heads ((a, r) # rs) = insert (a, 24) (heads rs)"
  by (auto simp: heads_def)

lemma heads_subset: "heads rs \<subseteq> set (pchunks rs)"
  by (induction rs) (auto simp: pchunks_def)

text \<open>Splitting a well-formed packet into its first snip and the rest.\<close>

lemma pkt_inv_Cons:
  "pkt_inv s U p ((a, r) # rs) \<longleftrightarrow> p = Some a \<and> get_snip a s = Some r \<and> snip_ok r \<and> set (snip_chunks (a, r)) \<subseteq> U \<and>
     distinct (snip_chunks (a, r)) \<and> set (snip_chunks (a, r)) \<inter> set (pchunks rs) = {} \<and> pkt_inv s U (snext r) rs"
  by (auto simp: pkt_inv_def pchunks_def simp del: snip_chunks.simps)

lemma pkt_inv_same:
  "pkt_inv s U p rs \<Longrightarrow> same_on V s s' \<Longrightarrow> set (pchunks rs) \<subseteq> V \<Longrightarrow> set (pchunks rs) \<subseteq> U' \<Longrightarrow> pk_inv s' U' \<Longrightarrow> pkt_inv s' U' p rs"
  unfolding pkt_inv_def using pkt_at_same by blast

lemma hold_chain:
  "\<lbrakk>pkt_inv s U p rs; \<forall>c\<in>set rs. susers (snd c) + num < 2 ^ 32\<rbrakk> \<Longrightarrow>
   \<exists>s'. gnrc_pktbuf_hold p num s = Some s' \<and> pkt_inv s' U p (with_users (\<lambda>n. n + num) rs) \<and> same_on (U - heads rs) s s'"
proof (induction rs arbitrary: s p)
  case Nil
  then show ?case by (subst gnrc_pktbuf_hold.simps) (simp add: pkt_inv_def)
next
  case (Cons c rs)
  obtain a r where c: "c = (a, r)" by force
  let ?r = "r\<lparr>susers := size_t (int (susers r) + int num)\<rparr>"
  note h = Cons.prems(1) [unfolded c pkt_inv_Cons]
  have u: "?r = r\<lparr>susers := susers r + num\<rparr>" using Cons.prems(2) c by (simp add: size_t_add)
  have a: "(a, 24) \<in> U" "(a, 24) \<notin> set (pchunks rs)" "pk_inv s U" "set (pchunks rs) \<subseteq> U" using h by (auto simp: pkt_inv_def)
  obtain s1 where s1: "upd_snip a (\<lambda>r. r\<lparr>susers := size_t (int (susers r) + int num)\<rparr>) s = Some s1" "pk_inv s1 U"
      "same_on (U - {(a, 24)}) s s1" "get_snip a s1 = Some ?r"
    using upd_snip_chunk [OF a(3,1) conjunct1 [OF conjunct2 [OF h]]] by blast
  have "pkt_inv s1 U (snext r) rs" using h a s1 by (intro pkt_inv_same [OF _ s1(3)]) auto
  then obtain s' where s': "gnrc_pktbuf_hold (snext r) num s1 = Some s'" "pkt_inv s' U (snext r) (with_users (\<lambda>n. n + num) rs)"
      "same_on (U - heads rs) s1 s'" using Cons by force
  have "get_snip a s' = get_snip a s1" using a heads_subset [of rs] by (intro get_snip_same [OF s'(3)]) auto
  moreover have "snip_chunks (a, ?r) = snip_chunks (a, r)" "snip_ok ?r" using h by (auto simp: snip_ok_def split: dptr.split)
  ultimately have "pkt_inv s' U p (with_users (\<lambda>n. n + num) (c # rs))"
    using s'(2) s1(4) h u by (simp add: c pkt_inv_Cons del: snip_chunks.simps)
  moreover have "gnrc_pktbuf_hold p num s = Some s'" using h s1 s'(1) by (subst gnrc_pktbuf_hold.simps) simp
  moreover have "same_on (U - heads (c # rs)) s s'"
    by (rule same_on_trans [OF same_on_subset [OF s1(3)] same_on_subset [OF s'(3)]]) (auto simp: c)
  ultimately show ?case by blast
qed

lemma release_held:
  assumes "pkt_inv s U p rs" "\<forall>c\<in>set rs. 1 < susers (snd c)"
  shows "\<exists>s'. gnrc_pktbuf_release p s = Some s' \<and> pkt_inv s' U p (with_users (\<lambda>n. n - 1) rs) \<and> same_on (U - set (pchunks rs)) s s' \<and>
    (\<forall>(a, r)\<in>set rs. payload s' r = payload s r)"
proof -
  have "filter last_user rs = []" using assms(2) by (auto simp: filter_empty_conv last_user_def)
  then obtain s' where s': "release_error_locked p s = Some s'" "pk_inv s' U" "same_on (U - set (pchunks rs)) s s'"
      "\<forall>(a, r)\<in>set rs. 1 < susers r \<longrightarrow> get_snip a s' = Some (r\<lparr>susers := susers r - 1\<rparr>) \<and> payload s' r = payload s r"
    using release_chain [OF assms(1)] assms(2) by (force simp: pchunks_def)
  have "pkt_at s p rs \<Longrightarrow> \<forall>(a, r)\<in>set rs. get_snip a s' = Some (r\<lparr>susers := susers r - 1\<rparr>) \<Longrightarrow> pkt_at s' p (with_users (\<lambda>n. n - 1) rs)"
    by (induction rs arbitrary: p) auto
  with s' assms show ?thesis unfolding pkt_inv_def gnrc_pktbuf_release_def by fastforce
qed

section \<open>Copy on write\<close>

lemma readable_payload:
  assumes "snip_ok r" "set (snip_chunks (a, r)) \<subseteq> U"
  shows "sdata r \<noteq> DNull \<longrightarrow> readable U (sdata r) (ssize r)" "map (\<lambda>i. the (fetch s (sdata r) i)) [0..<ssize r] = payload s r"
proof -
  have "{d..<d + ssize r} \<subseteq> ubytes U" if "sdata r = In d" for d
    using in_ubytes [of d "align (ssize r)" U] assms(2) snip_size [OF assms(1)] that by (force simp: le_iff_add)
  then show "sdata r \<noteq> DNull \<longrightarrow> readable U (sdata r) (ssize r)" using assms(1) by (auto simp: snip_ok_def)
  show "map (\<lambda>i. the (fetch s (sdata r) i)) [0..<ssize r] = payload s r" using assms(1) by (auto simp: snip_ok_def payload_def)
qed

text \<open>What taking write access to the snip \<open>r\<close> at \<open>p\<close> promises, with the result \<open>(q, s')\<close>.\<close>

definition writable :: "pktbuf \<Rightarrow> (nat \<times> nat) set \<Rightarrow> nat \<Rightarrow> gnrc_pktsnip \<Rightarrow> (nat \<times> gnrc_pktsnip) list \<Rightarrow> nat option \<Rightarrow> pktbuf \<Rightarrow> bool" where
  "writable s U p r rs q s' \<longleftrightarrow>
     (if susers r \<le> 1 then q = Some p \<and> s' = s
      else case q of
        None \<Rightarrow> pkt_inv s' U (Some p) ((p, r) # rs) \<and> same_on U s s'
      | Some a \<Rightarrow> same_on (U - {(p, 24)}) s s' \<and> get_snip p s' = Some (r\<lparr>susers := susers r - 1\<rparr>) \<and>
          (\<exists>r'. pkt_inv s' (U \<union> set (snip_chunks (a, r'))) q ((a, r') # rs) \<and> set (snip_chunks (a, r')) \<inter> U = {} \<and>
             susers r' = 1 \<and> stype r' = stype r \<and> snext r' = snext r \<and> payload s' r' = payload s r))"

lemma start_write_spec:
  assumes inv: "pkt_inv s U (Some p) ((p, r) # rs)"
  shows "\<exists>q s'. gnrc_pktbuf_start_write (Some p) s = Some (q, s') \<and> writable s U p r rs q s'"
proof (cases "susers r \<le> 1")
  case True
  then show ?thesis using inv by (simp add: gnrc_pktbuf_start_write_def writable_def pkt_inv_Cons)
next
  case False
  note h = pkt_invD [OF inv]
  have sz: "ssize r \<le> CONFIG_GNRC_PKTBUF_SIZE" using h(5) by (auto simp: snip_ok_def)
  obtain q s1 where q: "create_snip (snext r) (sdata r) (ssize r) (stype r) s = Some (q, s1)" "same_on U s s1"
    "case q of None \<Rightarrow> pk_inv s1 U
     | Some a \<Rightarrow> \<exists>r'. new_snip s1 U a r' \<and> snext r' = snext r \<and> ssize r' = ssize r \<and> stype r' = stype r \<and>
         (sdata r \<noteq> DNull \<longrightarrow> payload s1 r' = map (\<lambda>i. the (fetch s (sdata r) i)) [0..<ssize r])"
    using create_snip_spec [OF h(1) sz readable_payload(1) [OF h(5,3)]] by blast
  have P: "set (pchunks ((p, r) # rs)) \<subseteq> U" using inv by (simp add: pkt_inv_def)
  show ?thesis
  proof (cases q)
    case None
    have "pkt_inv s1 U (Some p) ((p, r) # rs)" using q(3) None by (intro pkt_inv_same [OF inv q(2) P P]) simp
    with None q h(2) False show ?thesis by (simp add: gnrc_pktbuf_start_write_def writable_def)
  next
    case (Some a)
    then obtain r' where r': "new_snip s1 U a r'" "snext r' = snext r" "ssize r' = ssize r" "stype r' = stype r"
         "sdata r \<noteq> DNull \<longrightarrow> payload s1 r' = payload s r" using q(3) readable_payload(2) [OF h(5,3)] by auto
    note n = r'(1) [unfolded new_snip_def]
    let ?C = "set (snip_chunks (a, r'))"
    have pl: "payload s1 r' = payload s r" using r'(3,5) n h(5) by (cases "sdata r = DNull") (auto simp: payload_def snip_ok_def)
    have "get_snip p s1 = Some r" "(p, 24) \<in> U \<union> ?C" "(p, 24) \<notin> ?C" "(p, 24) \<notin> set (pchunks rs)"
      using get_snip_same [OF q(2), of p] h(2,3) n inv [unfolded pkt_inv_Cons] by auto
    note p = this
    have pk1: "pk_inv s1 (U \<union> ?C)" using n by blast
    obtain s2 where s2: "upd_snip p (\<lambda>r. r\<lparr>susers := susers r - 1\<rparr>) s1 = Some s2" "pk_inv s2 (U \<union> ?C)"
        "same_on (U \<union> ?C - {(p, 24)}) s1 s2" "get_snip p s2 = Some (r\<lparr>susers := susers r - 1\<rparr>)"
      using upd_snip_chunk [OF pk1 p(2,1)] by blast
    have rest: "pkt_inv s U (snext r) rs" "set (pchunks rs) \<subseteq> U" using inv unfolding pkt_inv_Cons by (auto simp: pkt_inv_def)
    have sU: "same_on (U - {(p, 24)}) s s2"
      by (rule same_on_trans [OF same_on_subset [OF q(2)] same_on_subset [OF s2(3)]]) auto
    have "pkt_inv s2 (U \<union> ?C) (snext r) rs" by (rule pkt_inv_same [OF rest(1) sU _ _ s2(2)]) (use rest(2) p(4) in auto)
    moreover have "get_snip a s2 = Some r'" using n p(3) get_snip_same [OF s2(3), of a] by force
    moreover have "?C \<inter> set (pchunks rs) = {}" using n rest(2) by blast
    ultimately have "pkt_inv s2 (U \<union> ?C) q ((a, r') # rs)" using n r'(2) Some by (simp add: pkt_inv_Cons del: snip_chunks.simps)
    moreover have "payload s2 r' = payload s1 r'" by (rule payload_same [OF s2(3), of a]) (use n p(3) in auto)
    ultimately have "writable s U p r rs q s2" using Some False sU s2(4) n r' pl unfolding writable_def
      by (auto simp del: snip_chunks.simps)
    moreover have "gnrc_pktbuf_start_write (Some p) s = Some (q, s2)"
      using h(2) False q(1) Some s2(1) by (simp add: gnrc_pktbuf_start_write_def)
    ultimately show ?thesis by blast
  qed
qed

section \<open>Reversing a packet\<close>

text \<open>What the rest of the network stack sees of a packet: type and data of each snip.\<close>

definition view :: "pktbuf \<Rightarrow> (nat \<times> gnrc_pktsnip) list \<Rightarrow> (int \<times> slot list) list" where
  "view s rs = map (\<lambda>c. (stype (snd c), payload s (snd c))) rs"

definition shared_kept :: "pktbuf \<Rightarrow> pktbuf \<Rightarrow> (nat \<times> gnrc_pktsnip) list \<Rightarrow> bool" where
  "shared_kept s s' rs \<longleftrightarrow>
     (\<forall>(a, r)\<in>set rs. 1 < susers r \<longrightarrow> get_snip a s' = Some (r\<lparr>susers := susers r - 1\<rparr>) \<and> payload s' r = payload s r)"

text \<open>The outcome of the loop when \<open>qs\<close> is reversed already and \<open>rs\<close> is still to come.\<close>

definition reversed :: "pktbuf \<Rightarrow> (nat \<times> nat) set \<Rightarrow> (nat \<times> gnrc_pktsnip) list \<Rightarrow> (nat \<times> gnrc_pktsnip) list \<Rightarrow> nat option \<Rightarrow> pktbuf \<Rightarrow> bool" where
  "reversed s U qs rs q s' \<longleftrightarrow> same_on (U - set (pchunks qs) - set (pchunks rs)) s s' \<and> shared_kept s s' rs \<and>
     ((\<exists>rs'. pkt_inv s' (U \<union> set (pchunks rs')) q rs' \<and> set (pchunks qs) \<subseteq> set (pchunks rs') \<and>
         view s' rs' = rev (view s rs) @ view s qs \<and> (\<forall>c\<in>set rs'. susers (snd c) = 1)) \<or>
      q = None \<and> pk_inv s' (U - set (pchunks qs) - set (pchunks (filter last_user rs))))"

lemma pchunks_simps [simp]: "pchunks [] = []" "pchunks (c # rs) = snip_chunks c @ pchunks rs"
  by (simp_all add: pchunks_def)

lemma view_same: "same_on V s s' \<Longrightarrow> set (pchunks rs) \<subseteq> V \<Longrightarrow> \<forall>c\<in>set rs. snip_ok (snd c) \<Longrightarrow> view s' rs = view s rs"
  unfolding view_def using payload_of [of V s s' rs] by (intro map_cong refl) fastforce

lemma shared_kept_same:
  "shared_kept s s' rs \<Longrightarrow> \<forall>c\<in>set rs. payload s (snd c) = payload s0 (snd c) \<Longrightarrow> shared_kept s0 s' rs"
  by (fastforce simp: shared_kept_def)

lemma pkt_payload_same:
  "pkt_inv s U p rs \<Longrightarrow> same_on V s s' \<Longrightarrow> set (pchunks rs) \<subseteq> V \<Longrightarrow> \<forall>c\<in>set rs. payload s' (snd c) = payload s (snd c)"
  using payload_of [of V s s' rs] by (fastforce simp: pkt_inv_def)

text \<open>Linking a snip in front of the part that is reversed already.\<close>

lemma link_reversed:
  assumes "pk_inv s U" "get_snip a s = Some r" "snip_ok r" "set (snip_chunks (a, r)) \<subseteq> U" "distinct (snip_chunks (a, r))"
    and "pkt_inv s U q qs" "set (snip_chunks (a, r)) \<inter> set (pchunks qs) = {}"
  obtains s' where "upd_snip a (\<lambda>r. r\<lparr>snext := q\<rparr>) s = Some s'" "pkt_inv s' U (Some a) ((a, r\<lparr>snext := q\<rparr>) # qs)"
    "same_on (U - {(a, 24)}) s s'" "payload s' r = payload s r"
proof -
  have a: "(a, 24) \<in> U" "(a, 24) \<notin> set (pchunks qs)" "set (pchunks qs) \<subseteq> U" using assms(4,6,7) by (auto simp: pkt_inv_def)
  obtain s' where s': "upd_snip a (\<lambda>r. r\<lparr>snext := q\<rparr>) s = Some s'" "pk_inv s' U" "same_on (U - {(a, 24)}) s s'"
      "get_snip a s' = Some (r\<lparr>snext := q\<rparr>)"
    using upd_snip_chunk [OF assms(1) a(1) assms(2)] by blast
  have "pkt_inv s' U q qs" by (rule pkt_inv_same [OF assms(6) s'(3) _ a(3) s'(2)]) (use a in auto)
  moreover have e: "snip_chunks (a, r\<lparr>snext := q\<rparr>) = snip_chunks (a, r)" "snip_ok (r\<lparr>snext := q\<rparr>)"
    using assms(3) by (auto simp: snip_ok_def split: dptr.split)
  ultimately have "pkt_inv s' U (Some a) ((a, r\<lparr>snext := q\<rparr>) # qs)"
    unfolding pkt_inv_Cons e using assms(4,5,7) s'(4) by simp
  moreover have "payload s' r = payload s r" by (rule payload_same [OF s'(3) _ assms(3), of a]) (use assms(4,5) in auto)
  ultimately show thesis using s' that by blast
qed

lemma release_rest:
  assumes "pkt_inv s U q qs" "\<forall>c\<in>set qs. susers (snd c) = 1" "pkt_inv s U p rs" "\<forall>c\<in>set rs. 0 < susers (snd c)"
    and "set (pchunks qs) \<inter> set (pchunks rs) = {}"
  shows "\<exists>s'. do { s \<leftarrow> gnrc_pktbuf_release q s; s \<leftarrow> gnrc_pktbuf_release p s; Some (None, s) } = Some (None, s') \<and>
     reversed s U qs rs None s'"
proof -
  have f: "filter last_user qs = qs" "\<forall>c\<in>set qs. 0 < susers (snd c)" using assms(2) by (auto simp: last_user_def)
  let ?U = "U - set (pchunks qs)"
  obtain s1 where s1: "release_error_locked q s = Some s1" "pk_inv s1 ?U" "same_on ?U s s1"
    using release_chain [OF assms(1) f(2)] f(1) by auto
  have P: "set (pchunks rs) \<subseteq> ?U" using assms(3,5) by (auto simp: pkt_inv_def)
  have "pkt_inv s1 ?U p rs" by (rule pkt_inv_same [OF assms(3) s1(3) P P s1(2)])
  then obtain s2 where s2: "release_error_locked p s1 = Some s2" "pk_inv s2 (?U - set (pchunks (filter last_user rs)))"
      "same_on (?U - set (pchunks rs)) s1 s2" "shared_kept s1 s2 rs"
    using release_chain [OF _ assms(4)] unfolding shared_kept_def by blast
  have "shared_kept s s2 rs" by (rule shared_kept_same [OF s2(4) pkt_payload_same [OF assms(3) s1(3) P]])
  moreover have "same_on (?U - set (pchunks rs)) s s2" by (rule same_on_trans [OF same_on_subset [OF s1(3)] s2(3)]) auto
  ultimately show ?thesis using s1(1) s2(1,2) unfolding reversed_def by (auto simp: gnrc_pktbuf_release_def)
qed

text \<open>One round of the loop: the snip \<open>r\<close> at \<open>a\<close>, or its copy, is \<open>r'\<close> at \<open>b\<close> now.\<close>

lemma reversed_step:
  assumes rv: "reversed t V ((b, r') # qs) rs q s'"
    and inv: "pkt_inv s U p ((a, r) # rs)" "pkt_inv s U q0 qs" "set (pchunks qs) \<inter> set (pchunks ((a, r) # rs)) = {}"
    and st: "same_on (U - {(a, 24)}) s t" and V: "V = U \<union> set (snip_chunks (b, r'))"
    and r': "payload t r' = payload s r" "stype r' = stype r"
    and own: "if susers r = 1 then set (snip_chunks (b, r')) = set (snip_chunks (a, r))
       else set (snip_chunks (b, r')) \<inter> U = {} \<and> get_snip a t = Some (r\<lparr>susers := susers r - 1\<rparr>)"
  shows "reversed s U qs ((a, r) # rs) q s'"
proof -
  let ?A = "set (snip_chunks (a, r))" and ?B = "set (snip_chunks (b, r'))" and ?Q = "set (pchunks qs)" and ?R = "set (pchunks rs)"
  note h = inv(1) [unfolded pkt_inv_Cons]
  have sub: "?R \<subseteq> U - {(a, 24)}" "?Q \<subseteq> U - {(a, 24)}" "?A \<subseteq> U" "(a, 24) \<in> ?A" "?A \<inter> ?R = {}" "?A \<inter> ?Q = {}" "?B \<inter> U \<subseteq> ?A"
    using h inv(2,3) own by (auto simp: pkt_inv_def split: if_splits simp del: snip_chunks.simps) (auto)?
  have tl: "set (tl (snip_chunks (a, r))) \<subseteq> U - {(a, 24)}" "set (tl (snip_chunks (a, r))) \<subseteq> ?A" using h by auto
  have rv': "same_on (V - (?B \<union> ?Q) - ?R) t s'" "shared_kept t s' rs"
    "(\<exists>rs'. pkt_inv s' (V \<union> set (pchunks rs')) q rs' \<and> ?B \<union> ?Q \<subseteq> set (pchunks rs') \<and>
         view s' rs' = rev (view t rs) @ view t ((b, r') # qs) \<and> (\<forall>c\<in>set rs'. susers (snd c) = 1)) \<or>
      q = None \<and> pk_inv s' (V - (?B \<union> ?Q) - set (pchunks (filter last_user rs)))"
    using rv by (simp_all add: reversed_def del: snip_chunks.simps)
  have view: "view t rs = view s rs" "view t qs = view s qs"
    using inv(2) h sub by (auto intro!: view_same [OF st] simp: pkt_inv_def)
  then have v: "rev (view t rs) @ view t ((b, r') # qs) = rev (view s ((a, r) # rs)) @ view s qs" using r' by (simp add: view_def)
  have same: "same_on (U - ?Q - (?A \<union> ?R)) s s'"
    by (rule same_on_trans [OF same_on_subset [OF st] same_on_subset [OF rv'(1)]]) (use sub V in auto)
  have kept: "shared_kept s s' rs"
    by (rule shared_kept_same [OF rv'(2)]) (use pkt_payload_same [OF _ st, of U "snext r" rs] h sub(1) in blast)
  have "get_snip a s' = Some (r\<lparr>susers := susers r - 1\<rparr>) \<and> payload s' r = payload s r" if "1 < susers r"
  proof -
    have own': "?B \<inter> U = {}" "get_snip a t = Some (r\<lparr>susers := susers r - 1\<rparr>)" using own that by (auto simp del: snip_chunks.simps)
    have A: "?A \<subseteq> V - (?B \<union> ?Q) - ?R" using own'(1) sub V by blast
    have "get_snip a s' = get_snip a t" by (rule get_snip_same [OF rv'(1)]) (use A sub(4) in blast)
    moreover have "payload s' r = payload t r" by (rule payload_same [OF rv'(1), of a]) (use A tl h in blast)+
    moreover have "payload t r = payload s r" by (rule payload_same [OF st, of a]) (use tl h in blast)+
    ultimately show ?thesis using own'(2) by simp
  qed
  then have sk: "shared_kept s s' ((a, r) # rs)" using kept by (auto simp: shared_kept_def)
  have e: "V \<union> X = U \<union> X" if "?B \<union> ?Q \<subseteq> X" for X using that V by auto
  have "V - (?B \<union> ?Q) - X = U - ?Q - (if susers r = 1 then ?A \<union> X else X)" for X
    using own V by (auto split: if_splits simp del: snip_chunks.simps)
  then have f: "V - (?B \<union> ?Q) - set (pchunks (filter last_user rs)) = U - ?Q - set (pchunks (filter last_user ((a, r) # rs)))"
    by (simp add: last_user_def del: snip_chunks.simps)
  have "(\<exists>rs'. pkt_inv s' (U \<union> set (pchunks rs')) q rs' \<and> ?Q \<subseteq> set (pchunks rs') \<and>
         view s' rs' = rev (view s ((a, r) # rs)) @ view s qs \<and> (\<forall>c\<in>set rs'. susers (snd c) = 1)) \<or>
      q = None \<and> pk_inv s' (U - ?Q - set (pchunks (filter last_user ((a, r) # rs))))"
    using rv'(3) unfolding v f [symmetric] by (metis e le_supE)
  with same sk show ?thesis unfolding reversed_def by (simp del: snip_chunks.simps)
qed

lemma reverse_round:
  assumes IH: "\<And>s U q qs p. \<lbrakk>pkt_inv s U q qs; \<forall>c\<in>set qs. susers (snd c) = 1; pkt_inv s U p rs; set (pchunks qs) \<inter> set (pchunks rs) = {}\<rbrakk> \<Longrightarrow>
     \<exists>q' s'. reverse_loop q p s = Some (q', s') \<and> reversed s U qs rs q' s'"
    and inv: "pkt_inv s U p ((a, r) # rs)" "pkt_inv s U q qs" "set (pchunks qs) \<inter> set (pchunks ((a, r) # rs)) = {}"
      "\<forall>c\<in>set qs. susers (snd c) = 1"
    and x: "pkt_inv t V (Some x) ((x, rx) # rs)" "V = U \<union> set (snip_chunks (x, rx))" "pkt_inv t V q qs"
      "set (snip_chunks (x, rx)) \<inter> set (pchunks qs) = {}"
      "same_on (U - {(a, 24)}) s t" "payload t rx = payload s r" "stype rx = stype r" "susers rx = 1"
    and own: "if susers r = 1 then x = a \<and> rx = r else set (snip_chunks (x, rx)) \<inter> U = {} \<and> get_snip a t = Some (r\<lparr>susers := susers r - 1\<rparr>)"
  shows "\<exists>q' s'. do { r \<leftarrow> get_snip x t; s \<leftarrow> upd_snip x (\<lambda>r. r\<lparr>snext := q\<rparr>) t; reverse_loop (Some x) (snext r) s } = Some (q', s') \<and>
     reversed s U qs ((a, r) # rs) q' s'"
proof -
  note hx = x(1) [unfolded pkt_inv_Cons] and h = inv(1) [unfolded pkt_inv_Cons]
  let ?C = "snip_chunks (x, rx)" and ?r = "rx\<lparr>snext := q\<rparr>"
  have c: "snip_chunks (x, ?r) = ?C" by (auto split: dptr.split)
  have pk: "pk_inv t V" "get_snip x t = Some rx" "snip_ok rx" "set ?C \<subseteq> V" "distinct ?C" using hx by (auto simp: pkt_inv_def simp del: snip_chunks.simps)
  obtain t2 where t2: "upd_snip x (\<lambda>r. r\<lparr>snext := q\<rparr>) t = Some t2" "pkt_inv t2 V (Some x) ((x, ?r) # qs)"
      "same_on (V - {(x, 24)}) t t2" "payload t2 rx = payload t rx"
    using link_reversed [OF pk x(3,4)] by blast
  have R: "set (pchunks rs) \<subseteq> V - {(x, 24)}" "set (pchunks rs) \<subseteq> V" "(x, 24) \<in> set ?C" using hx by (auto simp: pkt_inv_def)
  have rest: "pkt_inv t2 V (snext rx) rs"
    using hx t2(2) by (intro pkt_inv_same [OF _ t2(3) R(1,2)]) (auto simp: pkt_inv_def)
  have dis: "set (pchunks ((x, ?r) # qs)) \<inter> set (pchunks rs) = {}"
    unfolding pchunks_simps c using hx inv(3) by auto
  have u: "\<forall>c\<in>set ((x, ?r) # qs). susers (snd c) = 1" using inv(4) x(8) by simp
  obtain q' s' where q': "reverse_loop (Some x) (snext rx) t2 = Some (q', s')" "reversed t2 V ((x, ?r) # qs) rs q' s'"
    using IH [OF t2(2) u rest dis] by blast
  have sub: "U - {(a, 24)} \<subseteq> V - {(x, 24)}" "susers r \<noteq> 1 \<Longrightarrow> (a, 24) \<in> V - {(x, 24)}"
    using own x(2) R(3) h by (auto split: if_splits)
  have ga: "get_snip a t2 = get_snip a t" if "susers r \<noteq> 1" using get_snip_same [OF t2(3) sub(2) [OF that]] .
  have "reversed s U qs ((a, r) # rs) q' s'"
  proof (rule reversed_step [OF q'(2) inv(1,2,3)])
    show "same_on (U - {(a, 24)}) s t2" by (rule same_on_trans [OF x(5) same_on_subset [OF t2(3) sub(1)]])
    show "if susers r = 1 then set (snip_chunks (x, ?r)) = set (snip_chunks (a, r))
       else set (snip_chunks (x, ?r)) \<inter> U = {} \<and> get_snip a t2 = Some (r\<lparr>susers := susers r - 1\<rparr>)"
      unfolding c using own ga by (auto split: if_splits simp del: snip_chunks.simps)
    show "payload t2 ?r = payload s r" using t2(4) x(6) payload_cong [of ?r rx t2] by simp
  qed (use c x(2,7) in \<open>auto simp del: snip_chunks.simps\<close>)
  with q'(1) t2(1) pk(2) show ?thesis by simp
qed

lemma reversed_same:
  assumes "reversed t U qs rs q s'" "same_on U s t" "pkt_inv s U p rs" "pkt_inv s U p' qs"
  shows "reversed s U qs rs q s'"
proof -
  have v: "view t rs = view s rs" "view t qs = view s qs"
    using assms(3,4) by (auto intro!: view_same [OF assms(2)] simp: pkt_inv_def)
  moreover have "shared_kept s s' rs"
    by (rule shared_kept_same [of t]) (use assms(1) pkt_payload_same [OF assms(3,2)] assms(3) in \<open>auto simp: reversed_def pkt_inv_def\<close>)
  moreover have "same_on (U - set (pchunks qs) - set (pchunks rs)) s s'"
    by (rule same_on_trans [OF same_on_subset [OF assms(2)]]) (use assms(1) in \<open>auto simp: reversed_def\<close>)
  ultimately show ?thesis using assms(1) by (simp add: reversed_def)
qed

lemma reverse_loop_spec:
  "\<lbrakk>pkt_inv s U q qs; \<forall>c\<in>set qs. susers (snd c) = 1; pkt_inv s U p rs; \<forall>c\<in>set rs. 0 < susers (snd c);
    set (pchunks qs) \<inter> set (pchunks rs) = {}\<rbrakk> \<Longrightarrow>
   \<exists>q' s'. reverse_loop q p s = Some (q', s') \<and> reversed s U qs rs q' s'"
proof (induction rs arbitrary: s U q qs p)
  case Nil
  have "U \<union> set (pchunks qs) = U" using Nil.prems(1) by (auto simp: pkt_inv_def)
  then have "reversed s U qs [] q s" using Nil.prems(1,2) unfolding reversed_def
    by (intro conjI disjI1 exI [of _ qs]) (simp_all add: shared_kept_def view_def)
  moreover have "p = None" using Nil.prems(3) by (simp add: pkt_inv_def)
  ultimately show ?case by (subst reverse_loop.simps) simp
next
  case (Cons c rs)
  obtain a r where c: "c = (a, r)" by force
  note h = Cons.prems(3) [unfolded c pkt_inv_Cons]
  let ?A = "set (snip_chunks (a, r))"
  have p: "p = Some a" "0 < susers r" "\<forall>c\<in>set rs. 0 < susers (snd c)" using h Cons.prems(4) c by auto
  have dis: "?A \<inter> set (pchunks qs) = {}" "set (pchunks qs) \<inter> set (pchunks rs) = {}" using Cons.prems(5) by (auto simp: c)
  obtain q1 s1 where q1: "gnrc_pktbuf_start_write p s = Some (q1, s1)" "writable s U a r rs q1 s1"
    using start_write_spec [of s U a r rs] Cons.prems(3) c p(1) by auto
  have step: "reverse_loop q p s = (case q1 of
      None \<Rightarrow> do { s \<leftarrow> gnrc_pktbuf_release q s1; s \<leftarrow> gnrc_pktbuf_release p s; Some (None, s) }
    | Some x \<Rightarrow> do { r \<leftarrow> get_snip x s1; s \<leftarrow> upd_snip x (\<lambda>r. r\<lparr>snext := q\<rparr>) s1; reverse_loop (Some x) (snext r) s })"
    using q1(1) p(1) by (subst reverse_loop.simps) simp
  note IH = Cons.IH [OF _ _ _ p(3)] and inv = Cons.prems(3) [unfolded c] Cons.prems(1) Cons.prems(5) [unfolded c] Cons.prems(2)
  have Q: "set (pchunks qs) \<subseteq> U" using Cons.prems(1) by (simp add: pkt_inv_def)
  consider (own) "susers r = 1" | (full) "susers r \<noteq> 1" "q1 = None" | (copy) x where "susers r \<noteq> 1" "q1 = Some x" by fastforce
  then show ?case
  proof cases
    case own
    then have w: "q1 = Some a" "s1 = s" using q1(2) by (simp_all add: writable_def)
    have U: "U = U \<union> ?A" using h by blast
    have o: "if susers r = 1 then a = a \<and> r = r else ?A \<inter> U = {} \<and> get_snip a s = Some (r\<lparr>susers := susers r - 1\<rparr>)" using own by simp
    show ?thesis unfolding step w c option.case
      by (rule reverse_round [OF IH inv Cons.prems(3) [unfolded c p(1)] U inv(2) dis(1) same_on_refl refl refl own o])
  next
    case full
    then have w: "pkt_inv s1 U p (c # rs)" "same_on U s s1" using q1(2) p c by (auto simp: writable_def)
    have q: "pkt_inv s1 U q qs" using w(1) by (intro pkt_inv_same [OF inv(2) w(2) Q Q]) (simp add: pkt_inv_def)
    obtain s' where "do { s \<leftarrow> gnrc_pktbuf_release q s1; s \<leftarrow> gnrc_pktbuf_release p s; Some (None :: nat option, s) } = Some (None, s')"
        "reversed s1 U qs (c # rs) None s'"
      using release_rest [OF q inv(4) w(1) Cons.prems(4,5)] by auto
    with reversed_same [OF _ w(2) Cons.prems(3,1)] step full(2) show ?thesis by auto
  next
    case copy
    obtain r' where w: "same_on (U - {(a, 24)}) s s1" "get_snip a s1 = Some (r\<lparr>susers := susers r - 1\<rparr>)"
        "pkt_inv s1 (U \<union> set (snip_chunks (x, r'))) (Some x) ((x, r') # rs)" "set (snip_chunks (x, r')) \<inter> U = {}"
        "susers r' = 1" "stype r' = stype r" "payload s1 r' = payload s r"
      using q1(2) copy p(2) unfolding writable_def by (simp del: snip_chunks.simps) blast
    let ?V = "U \<union> set (snip_chunks (x, r'))"
    have qs: "set (pchunks qs) \<subseteq> U - {(a, 24)}" "set (pchunks qs) \<subseteq> ?V" "set (snip_chunks (x, r')) \<inter> set (pchunks qs) = {}"
      using Q dis(1) w(4) by auto
    have q: "pkt_inv s1 ?V q qs" by (rule pkt_inv_same [OF inv(2) w(1) qs(1,2)]) (use w(3) in \<open>simp add: pkt_inv_def\<close>)
    have "if susers r = 1 then x = a \<and> r' = r else set (snip_chunks (x, r')) \<inter> U = {} \<and> get_snip a s1 = Some (r\<lparr>susers := susers r - 1\<rparr>)"
      using copy w(2,4) by (simp del: snip_chunks.simps)
    note o = this
    show ?thesis unfolding step copy(2) c option.case
      by (rule reverse_round [OF IH inv w(3) refl q qs(3) w(1,7,6,5) o])
  qed
qed

text \<open>
  Reversing a packet, \<open>gnrc_pktbuf_reverse_snips\<close>: the result is a well-formed packet with the same
  types and data in the opposite order, of which every snip belongs to the caller alone; a snip that had other users was
  copied, and stays as it was for them with one user less. When there is no memory for a copy, NULL is
  returned and the packet was released, also the part that was reversed already. Nothing else in the buffer changes and
  no chunk is lost.
\<close>
theorem gnrc_pktbuf_reverse_snips_reverses:
  assumes "pkt_inv s U p rs" and "\<forall>c\<in>set rs. 0 < susers (snd c)"
  shows "\<exists>q s'. gnrc_pktbuf_reverse_snips p s = Some (q, s') \<and>
     (\<forall>x\<in>ubytes (U - set (pchunks rs)). pmem s' x = pmem s x) \<and>
     (\<forall>(a, r)\<in>set rs. 1 < susers r \<longrightarrow> get_snip a s' = Some (r\<lparr>susers := susers r - 1\<rparr>) \<and> payload s' r = payload s r) \<and>
     ((\<exists>rs'. pkt_inv s' (U \<union> set (pchunks rs')) q rs' \<and> view s' rs' = rev (view s rs) \<and> (\<forall>c\<in>set rs'. susers (snd c) = 1)) \<or>
      q = None \<and> pk_inv s' (U - set (pchunks (filter (\<lambda>c. susers (snd c) = 1) rs))))"
proof -
  have "pkt_inv s U None []" using assms(1) by (simp add: pkt_inv_def)
  then obtain q s' where "reverse_loop None p s = Some (q, s')" "reversed s U [] rs q s'"
    using reverse_loop_spec [of s U None "[]" p rs] assms by auto
  moreover have "last_user = (\<lambda>c. susers (snd c) = 1)" by (simp add: last_user_def fun_eq_iff)
  moreover have "view s [] = []" by (simp add: view_def)
  ultimately show ?thesis unfolding reversed_def shared_kept_def same_on_def gnrc_pktbuf_reverse_snips_def
    by (intro exI [of _ q] exI [of _ s']) simp
qed

section \<open>Holding and releasing\<close>

lemma view_with_users [simp]: "view s (with_users f rs) = view s rs"
  by (auto simp: view_def with_users_def intro!: payload_cong)

fun release_times :: "nat \<Rightarrow> nat option \<Rightarrow> pktbuf \<Rightarrow> pktbuf option" where
  "release_times 0 p s = Some s"
| "release_times (Suc n) p s = do { s \<leftarrow> gnrc_pktbuf_release p s; release_times n p s }"

lemma with_users_comp: "with_users f (with_users g rs) = with_users (f \<circ> g) rs"
  by (auto simp: with_users_def)

lemma release_times_held:
  "\<lbrakk>pkt_inv s U p rs; \<forall>c\<in>set rs. k < susers (snd c)\<rbrakk> \<Longrightarrow>
   \<exists>s'. release_times k p s = Some s' \<and> pkt_inv s' U p (with_users (\<lambda>n. n - k) rs) \<and> same_on (U - set (pchunks rs)) s s' \<and> view s' rs = view s rs"
proof (induction k arbitrary: s rs)
  case 0
  have "with_users (\<lambda>n. n - 0) rs = rs" by (auto simp: with_users_def intro!: map_idI)
  with 0 show ?case by simp
next
  case (Suc k)
  obtain s1 where s1: "gnrc_pktbuf_release p s = Some s1" "pkt_inv s1 U p (with_users (\<lambda>n. n - 1) rs)" "same_on (U - set (pchunks rs)) s s1"
      "\<forall>(a, r)\<in>set rs. payload s1 r = payload s r"
    using release_held [OF Suc.prems(1)] Suc.prems(2) by force
  have "view s1 rs = view s rs" using s1(4) by (auto simp: view_def)
  moreover have "\<forall>c\<in>set (with_users (\<lambda>n. n - 1) rs). k < susers (snd c)" using Suc.prems(2) by (force simp: with_users_def)
  from Suc.IH [OF s1(2) this] obtain s' where "release_times k p s1 = Some s'" "pkt_inv s' U p (with_users (\<lambda>n. n - Suc k) rs)"
      "same_on (U - set (pchunks rs)) s1 s'" "view s' rs = view s1 rs"
    by (auto simp: with_users_comp o_def)
  ultimately show ?case using s1(1,3) by (auto intro: same_on_trans)
qed

lemma data_not_head:
  "distinct (pchunks rs) \<Longrightarrow> c \<in> set rs \<Longrightarrow> set (tl (snip_chunks c)) \<inter> heads rs = {}"
proof (induction rs)
  case (Cons x rs)
  obtain a r where x: "x = (a, r)" by force
  have d: "distinct (snip_chunks x)" "set (snip_chunks x) \<inter> set (pchunks rs) = {}" "distinct (pchunks rs)"
    using Cons.prems(1) by (simp_all del: snip_chunks.simps)
  have a: "(a, 24) \<in> set (snip_chunks x)" "(a, 24) \<notin> set (tl (snip_chunks x))" "set (tl (snip_chunks x)) \<subseteq> set (snip_chunks x)"
    using d(1) by (auto simp: x)
  show ?case
  proof (cases "c \<in> set rs")
    case True
    have "set (snip_chunks c) \<subseteq> set (pchunks rs)" using True by (force simp: pchunks_def simp del: snip_chunks.simps)
    moreover have "set (tl (snip_chunks c)) \<subseteq> set (snip_chunks c)" by (cases c) auto
    ultimately show ?thesis using Cons.IH [OF d(3) True] a(1) d(2) by (auto simp: x simp del: snip_chunks.simps)
  next
    case False
    then show ?thesis using Cons.prems(2) a d(2) heads_subset [of rs] by (auto simp: x simp del: snip_chunks.simps)
  qed
qed simp

text \<open>
  Holding a packet: after \<open>gnrc_pktbuf_hold\<close> has announced \<open>num\<close> more users, up to \<open>num\<close> releases leave the
  packet, the types and data of its snips and everything else in the buffer as they are and count one user less
  each, and after exactly \<open>num\<close> releases the packet is as it was before.
\<close>
theorem gnrc_pktbuf_hold_release:
  assumes "pkt_inv s U p rs" and "\<forall>c\<in>set rs. 0 < susers (snd c) \<and> susers (snd c) + num < 2 ^ 32" and "k \<le> num"
  shows "\<exists>s1 s'. gnrc_pktbuf_hold p num s = Some s1 \<and> release_times k p s1 = Some s' \<and>
     pkt_inv s' U p (map (\<lambda>(a, r). (a, r\<lparr>susers := susers r + (num - k)\<rparr>)) rs) \<and> view s' rs = view s rs \<and>
     (\<forall>x\<in>ubytes (U - set (pchunks rs)). pmem s' x = pmem s x)"
proof -
  obtain s1 where s1: "gnrc_pktbuf_hold p num s = Some s1" "pkt_inv s1 U p (with_users (\<lambda>n. n + num) rs)" "same_on (U - heads rs) s s1"
    using hold_chain [OF assms(1)] assms(2) by blast
  have "\<forall>c\<in>set (with_users (\<lambda>n. n + num) rs). k < susers (snd c)" using assms(2,3) by (force simp: with_users_def)
  from release_times_held [OF s1(2) this] obtain s' where s': "release_times k p s1 = Some s'" "same_on (U - set (pchunks rs)) s1 s'"
      "pkt_inv s' U p (with_users (\<lambda>n. n - k) (with_users (\<lambda>n. n + num) rs))" "view s' rs = view s1 rs" by auto
  have u: "with_users (\<lambda>n. n - k) (with_users (\<lambda>n. n + num) rs) = with_users (\<lambda>n. n + (num - k)) rs"
    using assms(3) by (simp add: with_users_comp o_def)
  have "payload s1 (snd c) = payload s (snd c)" if "c \<in> set rs" for c
  proof (rule payload_same [OF s1(3), of "fst c"])
    have "set (snip_chunks c) \<subseteq> U" "distinct (pchunks rs)" using assms(1) that by (force simp: pkt_inv_def pchunks_def simp del: snip_chunks.simps)+
    with data_not_head [OF _ that] show "set (tl (snip_chunks (fst c, snd c))) \<subseteq> U - heads rs" by (cases c) auto
  qed (use assms(1) that in \<open>auto simp: pkt_inv_def\<close>)
  then have "view s1 rs = view s rs" by (simp add: view_def)
  moreover have "same_on (U - set (pchunks rs)) s s'"
    by (rule same_on_trans [OF same_on_subset [OF s1(3)] s'(2)]) (use heads_subset [of rs] in auto)
  ultimately show ?thesis using s1(1) s' unfolding u by (auto simp: with_users_def same_on_def)
qed

theorem gnrc_pktbuf_hold_release_witness:
  "\<exists>s s1 s'. gnrc_pktbuf_add None (Out 7) 5 1 (gnrc_pktbuf_init some_pktbuf) = Some (Some 0, s) \<and> gnrc_pktbuf_hold (Some 0) 3 s = Some s1 \<and>
     release_times 2 (Some 0) s1 = Some s' \<and> (\<exists>r. get_snip 0 s' = Some r \<and> susers r = 2)"
proof -
  obtain s where s: "gnrc_pktbuf_add None (Out 7) 5 1 (gnrc_pktbuf_init some_pktbuf) = Some (Some 0, s)" using first_add by blast
  obtain r where r: "pkt_inv s (set (snip_chunks (0, r))) (Some 0) [(0, r)]" "susers r = 1" using first_packet [OF s] by blast
  have "\<forall>c\<in>set [(0 :: nat, r)]. 0 < susers (snd c) \<and> susers (snd c) + 3 < 2 ^ 32" using r(2) by simp
  from gnrc_pktbuf_hold_release [OF r(1) this, of 2] s r(2) show ?thesis by (auto simp: pkt_inv_def)
qed

section \<open>A packet of two snips\<close>

lemma second_packet:
  assumes "gnrc_pktbuf_add None (Out 7) 5 1 (gnrc_pktbuf_init some_pktbuf) = Some (Some 0, s)"
    and "gnrc_pktbuf_add (Some 0) (Out 3) 2 2 s = Some (Some b, t)" and o: "outside s = outside some_pktbuf"
  shows "\<exists>r r'. pkt_inv t (set (snip_chunks (0, r)) \<union> set (snip_chunks (b, r'))) (Some b) [(b, r'), (0, r)] \<and> susers r = 1 \<and> susers r' = 1 \<and>
    payload t r' = [Byte 3, Byte 4] \<and> payload t r = [Byte 7, Byte 8, Byte 9, Byte 10, Byte 11] \<and> stype r' = 2"
proof -
  obtain r where r: "pkt_inv s (set (snip_chunks (0, r))) (Some 0) [(0, r)]" "susers r = 1" "payload s r = [Byte 7, Byte 8, Byte 9, Byte 10, Byte 11]"
    using first_packet [OF assms(1)] by blast
  let ?U = "set (snip_chunks (0, r))"
  have b: "Out 3 \<noteq> DNull \<longrightarrow> readable ?U (Out 3) 2" "2 \<le> CONFIG_GNRC_PKTBUF_SIZE" by (simp_all add: pktbuf_consts)
  have pk: "pk_inv s ?U" using r(1) by (simp add: pkt_inv_def)
  from create_snip_spec [OF pk b(2,1), of "Some 0" 2] assms(2) obtain r' where r': "new_snip t ?U b r'" "snext r' = Some 0" "stype r' = 2"
      "payload t r' = map (\<lambda>i. the (fetch s (Out 3) i)) [0..<2]" "same_on ?U s t"
    by (auto simp: gnrc_pktbuf_add_def pktbuf_consts)
  have "pkt_inv t (?U \<union> set (snip_chunks (b, r'))) (Some 0) [(0, r)]"
    using r'(1) by (intro pkt_inv_same [OF r(1) r'(5)]) (auto simp: new_snip_def simp del: snip_chunks.simps)
  then have "pkt_inv t (?U \<union> set (snip_chunks (b, r'))) (Some b) [(b, r'), (0, r)]"
    using r'(1,2) unfolding pkt_inv_Cons [of t _ "Some b"] new_snip_def by (auto simp del: snip_chunks.simps)
  moreover have "payload t r = payload s r" using r(1) by (intro payload_same [OF r'(5), of 0]) (auto simp: pkt_inv_Cons)
  moreover have "payload t r' = [Byte 3, Byte 4]" unfolding r'(4) by (simp add: upt_rec o some_pktbuf_def)
  ultimately show ?thesis using r r' by (auto simp: new_snip_def simp del: snip_chunks.simps)
qed

lemmas packet_eval = gnrc_pktbuf_add_def create_snip_def pktbuf_alloc_def fit_loop_eval gnrc_pktbuf_init_def some_pktbuf_def
  relink_def get_unused_def put_obj_def memcpy_def align_eq pktbuf_consts get_snip_def set_pktsnip_def upd_snip_def pktbuf_free_def
  place_loop_eval too_small_hole_def join_next_def merge_unused_def size_t_def set_next_def gnrc_pktbuf_start_write_def
  gnrc_pktbuf_realloc_data_def gnrc_pktbuf_release_def release_error_locked.simps release_snip_def

lemma second_reverse:
  "\<exists>s t u. gnrc_pktbuf_add None (Out 7) 5 1 (gnrc_pktbuf_init some_pktbuf) = Some (Some 0, s) \<and> outside s = outside some_pktbuf \<and>
     gnrc_pktbuf_add (Some 0) (Out 3) 2 2 s = Some (Some 32, t) \<and> gnrc_pktbuf_reverse_snips (Some 32) t = Some (Some 0, u)"
  by (simp add: packet_eval gnrc_pktbuf_reverse_snips_def reverse_loop.simps)

theorem gnrc_pktbuf_reverse_snips_reverses_witness:
  "\<exists>s t u rs'. gnrc_pktbuf_add None (Out 7) 5 1 (gnrc_pktbuf_init some_pktbuf) = Some (Some 0, s) \<and>
     gnrc_pktbuf_add (Some 0) (Out 3) 2 2 s = Some (Some 32, t) \<and> gnrc_pktbuf_reverse_snips (Some 32) t = Some (Some 0, u) \<and>
     pkt_at u (Some 0) rs' \<and> map snd (view u rs') = [[Byte 7, Byte 8, Byte 9, Byte 10, Byte 11], [Byte 3, Byte 4]]"
proof -
  obtain s t u where s: "gnrc_pktbuf_add None (Out 7) 5 1 (gnrc_pktbuf_init some_pktbuf) = Some (Some 0, s)" "outside s = outside some_pktbuf"
     "gnrc_pktbuf_add (Some 0) (Out 3) 2 2 s = Some (Some 32, t)" "gnrc_pktbuf_reverse_snips (Some 32) t = Some (Some 0, u)"
    using second_reverse by blast
  obtain r r' where r: "pkt_inv t (set (snip_chunks (0, r)) \<union> set (snip_chunks (32, r'))) (Some 32) [(32, r'), (0, r)]" "susers r = 1" "susers r' = 1"
    "payload t r' = [Byte 3, Byte 4]" "payload t r = [Byte 7, Byte 8, Byte 9, Byte 10, Byte 11]"
    using second_packet [OF s(1,3,2)] by blast
  have "\<forall>c\<in>set [(32 :: nat, r'), (0, r)]. 0 < susers (snd c)" using r(2,3) by simp
  from gnrc_pktbuf_reverse_snips_reverses [OF r(1) this] s(4) obtain rs' where "pkt_at u (Some 0) rs'" "view u rs' = rev (view t [(32, r'), (0, r)])"
    by (auto simp: pkt_inv_def)
  with s r(4,5) show ?thesis by (auto simp: view_def)
qed

end
