(* ===== verification/Pktbuf_Merge.thy ===== *)
theory Pktbuf_Merge
  imports Pktbuf_Snips
begin

text \<open>
  Merging a packet into its first snip (\<open>gnrc_pktbuf_merge\<close>): resizing, copying and releasing together.
\<close>

section \<open>Merging a packet\<close>

definition bytes_at :: "pktbuf \<Rightarrow> nat \<Rightarrow> nat \<Rightarrow> slot list" where
  "bytes_at s d n = map (\<lambda>i. pmem s (d + i)) [0..<n]"

lemma length_bytes_at [simp]: "length (bytes_at s d n) = n"
  by (simp add: bytes_at_def)

lemma payload_In: "sdata r = In d \<Longrightarrow> payload s r = bytes_at s d (ssize r)"
  by (simp add: payload_def bytes_at_def)

lemma length_payload: "snip_ok r \<Longrightarrow> length (payload s r) = ssize r"
  by (auto simp: snip_ok_def payload_def)

lemma memcpy_append:
  assumes inv: "pk_inv s U" and d: "(d, m) \<in> U" "k + ssize q \<le> m" and q: "snip_ok q" "set (tl (snip_chunks (b, q))) \<subseteq> U - {(d, m)}"
  obtains s' where "memcpy (d + k) (sdata q) (ssize q) s = Some s'" "pk_inv s' U" "same_on (U - {(d, m)}) s s'"
    "bytes_at s' d (k + ssize q) = bytes_at s d k @ payload s q"
proof (cases "ssize q = 0")
  case True
  then have "payload s q = []" using length_payload [OF q(1), of s] by simp
  then show thesis using True inv by (intro that [of s]) (simp_all add: memcpy_def)
next
  case False
  then obtain e where e: "sdata q = In e" using q(1) by (auto simp: snip_ok_def)
  let ?s = "s\<lparr>pmem := (\<lambda>x. if d + k \<le> x \<and> x < d + k + ssize q then pmem s (e + (x - (d + k))) else pmem s x)\<rparr>"
  have "memcpy (d + k) (sdata q) (ssize q) s = Some ?s" using False by (simp add: memcpy_def e cong: if_cong)
  moreover have "pk_inv ?s U" "same_on (U - {(d, m)}) s ?s"
    using inv d by (auto intro!: write_chunk [of s U "(d, m)"] simp: cbytes_def)
  moreover have "bytes_at ?s d (k + ssize q) = bytes_at s d k @ payload s q"
    by (auto simp: payload_In [OF e] bytes_at_def nth_append intro!: nth_equalityI)
  ultimately show thesis by (rule that)
qed

lemma merge_copy_spec:
  "\<lbrakk>pk_inv s U; get_snip p s = Some r; sdata r = In d; (p, 24) \<in> U - {(d, m)}; (d, m) \<in> U; pkt_at s q rs;
    \<forall>c\<in>set rs. snip_ok (snd c); set (pchunks rs) \<subseteq> U - {(d, m)}; k + (\<Sum>c\<leftarrow>rs. ssize (snd c)) \<le> m; m < 2 ^ 32\<rbrakk> \<Longrightarrow>
   \<exists>s'. merge_copy p k q s = Some s' \<and> pk_inv s' U \<and> same_on (U - {(d, m)}) s s' \<and>
     bytes_at s' d (k + (\<Sum>c\<leftarrow>rs. ssize (snd c))) = bytes_at s d k @ concat (map (\<lambda>c. payload s (snd c)) rs)"
proof (induction rs arbitrary: s q k)
  case Nil
  then show ?case by (subst merge_copy.simps) simp
next
  case (Cons c rs)
  obtain b x where c: "c = (b, x)" by force
  have h: "q = Some b" "get_snip b s = Some x" "pkt_at s (snext x) rs" "snip_ok x" using Cons.prems c by auto
  have sub: "(b, 24) \<in> U - {(d, m)}" "set (tl (snip_chunks (b, x))) \<subseteq> U - {(d, m)}" "set (pchunks rs) \<subseteq> U - {(d, m)}"
    using Cons.prems(8) c by auto
  have le: "k + ssize x \<le> m" using Cons.prems(9) c by simp
  obtain s1 where s1: "memcpy (d + k) (sdata x) (ssize x) s = Some s1" "pk_inv s1 U" "same_on (U - {(d, m)}) s s1"
      "bytes_at s1 d (k + ssize x) = bytes_at s d k @ payload s x"
    using memcpy_append [OF Cons.prems(1,5) le h(4) sub(2)] by blast
  have g: "get_snip p s1 = Some r" "get_snip b s1 = Some x" "pkt_at s1 (snext x) rs"
    using get_snip_same [OF s1(3)] Cons.prems(2,4) sub h pkt_at_same [OF s1(3) sub(3)] by auto
  have "k + ssize x + (\<Sum>c\<leftarrow>rs. ssize (snd c)) \<le> m" "\<forall>c\<in>set rs. snip_ok (snd c)" using Cons.prems(7,9) c by auto
  then obtain s' where s': "merge_copy p (k + ssize x) (snext x) s1 = Some s'" "pk_inv s' U" "same_on (U - {(d, m)}) s1 s'"
     "bytes_at s' d (k + ssize x + (\<Sum>c\<leftarrow>rs. ssize (snd c))) = bytes_at s1 d (k + ssize x) @ concat (map (\<lambda>c. payload s1 (snd c)) rs)"
    using Cons.IH [OF s1(2) g(1) Cons.prems(3,4,5) g(3) _ sub(3) _ Cons.prems(10)] by blast
  have "merge_copy p k q s = Some s'"
    using h(1,2) Cons.prems(2,3,10) le s1(1) g(2) s'(1) by (subst merge_copy.simps) (simp add: size_t_add)
  moreover have e: "map (\<lambda>c. payload s1 (snd c)) rs = map (\<lambda>c. payload s (snd c)) rs"
    using payload_of [OF s1(3) sub(3)] Cons.prems(7) by auto
  moreover have "same_on (U - {(d, m)}) s s'" by (rule same_on_trans [OF s1(3) s'(3)])
  ultimately show ?case using s'(2) s'(4) [unfolded e] s1(4) by (simp add: c add.assoc)
qed

text \<open>What merging the snips \<open>rs\<close> into the first one promises of its result.\<close>

definition merged ::
  "pktbuf \<Rightarrow> (nat \<times> nat) set \<Rightarrow> nat \<Rightarrow> gnrc_pktsnip \<Rightarrow> (nat \<times> gnrc_pktsnip) list \<Rightarrow> gnrc_pktsnip \<Rightarrow> pktbuf \<Rightarrow> bool" where
  "merged s U p r rs r' s' \<longleftrightarrow>
     pkt_inv s' (U - set (snip_chunks (p, r)) \<union> set (snip_chunks (p, r')) - set (pchunks (filter (\<lambda>c. susers (snd c) = 1) rs))) (Some p) [(p, r')] \<and>
     payload s' r' = payload s r @ concat (map (\<lambda>c. payload s (snd c)) rs) \<and> stype r' = stype r \<and> susers r' = susers r \<and>
     same_on (U - set (pchunks ((p, r) # rs))) s s'"

lemma merge_finish:
  assumes inv: "pkt_inv s U (Some p) ((p, r) # rs)" and d: "sdata r = In d" and k: "k + (\<Sum>c\<leftarrow>rs. ssize (snd c)) = ssize r"
    and u: "\<forall>c\<in>set rs. 0 < susers (snd c)"
  shows "\<exists>s'. do { s \<leftarrow> merge_copy p k (snext r) s; r \<leftarrow> get_snip p s; s \<leftarrow> gnrc_pktbuf_release (snext r) s;
       s \<leftarrow> upd_snip p (\<lambda>r. r\<lparr>snext := None\<rparr>) s; Some (0, s) } = Some (0 :: int, s') \<and>
     pkt_inv s' (U - set (pchunks (filter (\<lambda>c. susers (snd c) = 1) rs))) (Some p) [(p, r\<lparr>snext := None\<rparr>)] \<and>
     payload s' (r\<lparr>snext := None\<rparr>) = bytes_at s d k @ concat (map (\<lambda>c. payload s (snd c)) rs) \<and>
     same_on (U - set (pchunks ((p, r) # rs))) s s'"
proof -
  note h = pkt_invD [OF inv] and hc = inv [unfolded pkt_inv_Cons]
  let ?m = "align (ssize r)" and ?R = "set (pchunks rs)" and ?F = "set (pchunks (filter last_user rs))" and ?r = "r\<lparr>snext := None\<rparr>"
  have F: "?F \<subseteq> ?R" by (auto simp: pchunks_def)
  have c: "snip_chunks (p, r) = [(p, 24), (d, ?m)]" "(p, 24) \<in> U - {(d, ?m)}" "(d, ?m) \<in> U" "(p, 24) \<notin> ?R" "(d, ?m) \<notin> ?R" "?R \<subseteq> U - {(d, ?m)}" "pkt_at s (snext r) rs"
      "\<forall>c\<in>set rs. snip_ok (snd c)" using hc d by (auto simp: pkt_inv_def)
  have m: "k + (\<Sum>c\<leftarrow>rs. ssize (snd c)) \<le> ?m" "?m < 2 ^ 32" using snip_size [OF h(5)] k align_lt by auto
  obtain s1 where s1: "merge_copy p k (snext r) s = Some s1" "pk_inv s1 U" "same_on (U - {(d, ?m)}) s s1"
      "bytes_at s1 d (ssize r) = bytes_at s d k @ concat (map (\<lambda>c. payload s (snd c)) rs)"
    using merge_copy_spec [OF h(1,2) d c(2,3,7,8,6) m] k by auto
  have "pkt_inv s U (snext r) rs" using hc by blast
  then have i1: "pkt_inv s1 U (snext r) rs" by (rule pkt_inv_same [OF _ s1(3) c(6) _ s1(2)]) (use c(6) in blast)
  have g1: "get_snip p s1 = Some r" using get_snip_same [OF s1(3) c(2)] h(2) by simp
  obtain s2 where s2: "release_error_locked (snext r) s1 = Some s2" "pk_inv s2 (U - ?F)" "same_on (U - ?R) s1 s2"
    using release_chain [OF i1 u] by blast
  have p2: "(p, 24) \<in> U - ?F" "get_snip p s2 = Some r" using get_snip_same [OF s2(3), of p] c(2,4) F g1 by auto
  obtain s3 where s3: "upd_snip p (\<lambda>r. r\<lparr>snext := None\<rparr>) s2 = Some s3" "pk_inv s3 (U - ?F)" "same_on (U - ?F - {(p, 24)}) s2 s3" "get_snip p s3 = Some ?r"
    using upd_snip_chunk [OF s2(2) p2] by blast
  have e: "snip_chunks (p, ?r) = [(p, 24), (d, ?m)]" "snip_ok ?r" using d h(5) by (auto simp: snip_ok_def)
  have "pkt_inv s3 (U - ?F) (Some p) [(p, ?r)]" unfolding pkt_inv_Cons e
    using s3(2,4) e(2) c F by (auto simp: pkt_inv_def)
  moreover have "payload s3 ?r = payload s2 ?r" by (rule payload_same [OF s3(3) _ e(2), of p]) (use e(1) c F in auto)
  moreover have "payload s2 ?r = payload s1 ?r" by (rule payload_same [OF s2(3) _ e(2), of p]) (use e(1) c in auto)
  moreover have "payload s1 ?r = bytes_at s d k @ concat (map (\<lambda>c. payload s (snd c)) rs)" using s1(4) d by (simp add: payload_In)
  moreover have "same_on (U - (set (snip_chunks (p, r)) \<union> ?R)) s s3"
    by (rule same_on_trans [OF same_on_trans [OF same_on_subset [OF s1(3)] same_on_subset [OF s2(3)]] same_on_subset [OF s3(3)]])
      (use F c(1) in auto)
  moreover have "last_user = (\<lambda>c. susers (snd c) = 1)" by (simp add: last_user_def fun_eq_iff)
  ultimately show ?thesis using s1(1) g1 s2(1) s3(1)
    by (intro exI [of _ s3]) (simp add: gnrc_pktbuf_release_def del: snip_chunks.simps)
qed

lemma merge_resized:
  assumes inv: "pkt_inv s U (Some p) ((p, r) # rs)" and rz: "resized s U p r rs (ssize r + (\<Sum>c\<leftarrow>rs. ssize (snd c))) s1"
    and u: "\<forall>c\<in>set rs. 0 < susers (snd c)" and n: "(\<Sum>c\<leftarrow>rs. ssize (snd c)) \<noteq> 0"
  shows "\<exists>r1 s' r'. get_snip p s1 = Some r1 \<and>
    do { s \<leftarrow> merge_copy p (ssize r) (snext r1) s1; r \<leftarrow> get_snip p s; s \<leftarrow> gnrc_pktbuf_release (snext r) s;
       s \<leftarrow> upd_snip p (\<lambda>r. r\<lparr>snext := None\<rparr>) s; Some (0, s) } = Some (0 :: int, s') \<and> merged s U p r rs r' s'"
proof -
  let ?W = "U - set (snip_chunks (p, r))" and ?n = "ssize r + (\<Sum>c\<leftarrow>rs. ssize (snd c))"
  note h = pkt_invD [OF inv] and hc = inv [unfolded pkt_inv_Cons]
  obtain dd r1 where r1: "r1 = r\<lparr>sdata := dd, ssize := ?n\<rparr>" "pkt_inv s1 (?W \<union> set (snip_chunks (p, r1))) (Some p) ((p, r1) # rs)"
      "set (snip_chunks (p, r1)) \<inter> ?W = {}" "same_on ?W s s1" "take (min ?n (ssize r)) (payload s1 r1) = take (min ?n (ssize r)) (payload s r)"
    using rz unfolding resized_def Let_def by blast
  note h1 = pkt_invD [OF r1(2)]
  obtain d where d: "sdata r1 = In d" using h1(5) n r1(1) by (auto simp: snip_ok_def)
  have k: "ssize r + (\<Sum>c\<leftarrow>rs. ssize (snd c)) = ssize r1" using r1(1) by simp
  obtain s' where s': "do { s \<leftarrow> merge_copy p (ssize r) (snext r1) s1; r \<leftarrow> get_snip p s; s \<leftarrow> gnrc_pktbuf_release (snext r) s;
       s \<leftarrow> upd_snip p (\<lambda>r. r\<lparr>snext := None\<rparr>) s; Some (0, s) } = Some (0 :: int, s')"
     "pkt_inv s' (?W \<union> set (snip_chunks (p, r1)) - set (pchunks (filter (\<lambda>c. susers (snd c) = 1) rs))) (Some p) [(p, r1\<lparr>snext := None\<rparr>)]"
     "payload s' (r1\<lparr>snext := None\<rparr>) = bytes_at s1 d (ssize r) @ concat (map (\<lambda>c. payload s1 (snd c)) rs)"
     "same_on (?W \<union> set (snip_chunks (p, r1)) - set (pchunks ((p, r1) # rs))) s1 s'"
    using merge_finish [OF r1(2) d k u] by blast
  have R: "set (pchunks rs) \<subseteq> ?W" using hc by (auto simp: pkt_inv_def simp del: snip_chunks.simps)
  have "\<forall>c\<in>set rs. payload s1 (snd c) = payload s (snd c)" by (rule pkt_payload_same [OF _ r1(4) R]) (use hc in blast)
  then have ep: "map (\<lambda>c. payload s1 (snd c)) rs = map (\<lambda>c. payload s (snd c)) rs" by simp
  have "bytes_at s1 d (ssize r) = take (ssize r) (payload s1 r1)" using k by (simp add: payload_In [OF d] bytes_at_def take_map)
  also have "\<dots> = payload s r" using r1(5) length_payload [OF h(5), of s] by simp
  finally have eb: "bytes_at s1 d (ssize r) = payload s r" .
  have ec: "snip_chunks (p, r1\<lparr>snext := None\<rparr>) = snip_chunks (p, r1)" by (rule snip_chunks_cong) simp_all
  have sm: "same_on (U - set (pchunks ((p, r) # rs))) s s'"
    by (rule same_on_trans [OF same_on_subset [OF r1(4)] same_on_subset [OF s'(4)]]) (use r1(3) in \<open>auto simp del: snip_chunks.simps\<close>)
  have "merged s U p r rs (r1\<lparr>snext := None\<rparr>) s'"
    unfolding merged_def ec using s'(2) s'(3) [unfolded eb ep] sm r1(1) by simp
  with h1(2) s'(1) show ?thesis by blast
qed

text \<open>
  (C15) Merging a packet, \<open>gnrc_pktbuf_merge\<close>: it either reports that no memory is left, and the buffer is as
  before, or the first snip holds the data of all snips, in their order, and is the whole packet; snips behind it that had no other user are given
  back. When the other snips have no data, they stay as they are. Nothing else in the buffer changes.
\<close>
theorem gnrc_pktbuf_merge_concatenates:
  assumes inv: "pkt_inv s U (Some p) ((p, r) # rs)" and u: "\<forall>c\<in>set rs. 0 < susers (snd c)"
  shows "\<exists>e s'. gnrc_pktbuf_merge p s = Some (e, s') \<and>
     (e = ENOMEM \<and> s' = s \<or>
      e = 0 \<and> (if \<forall>c\<in>set rs. ssize (snd c) = 0 then s' = s else \<exists>r'. merged s U p r rs r' s'))"
proof -
  note h = pkt_invD [OF inv] and hc = inv [unfolded pkt_inv_Cons]
  let ?n = "\<Sum>c\<leftarrow>rs. ssize (snd c)"
  have "(\<Sum>c\<leftarrow>(p, r) # rs. ssize (snd c)) \<le> (\<Sum>c\<leftarrow>(p, r) # rs. 24 + ssize (snd c))" by (rule sum_list_mono) simp
  with pkt_sizes_le [OF inv] have n: "ssize r + ?n \<le> CONFIG_GNRC_PKTBUF_SIZE" by simp
  then have lt: "ssize r + ?n < 2 ^ 32 - 7" by (simp add: pktbuf_consts)
  have at: "pkt_at s (Some p) ((p, r) # rs)" using inv by (simp add: pkt_inv_def)
  have len: "gnrc_pkt_len (Some p) s = Some (ssize r + ?n)"
    using pkt_len_loop_at [OF at, of 0] lt by (simp add: gnrc_pkt_len_def)
  have z: "?n = 0 \<longleftrightarrow> (\<forall>c\<in>set rs. ssize (snd c) = 0)" by (induction rs) auto
  show ?thesis
  proof (cases "?n = 0")
    case True
    then show ?thesis using h(2) len z by (auto simp: gnrc_pktbuf_merge_def)
  next
    case False
    obtain e s1 where e: "gnrc_pktbuf_realloc_data p (ssize r + ?n) s = Some (e, s1)"
       "e = 0 \<and> resized s U p r rs (ssize r + ?n) s1 \<or> e = ENOMEM \<and> s1 = s"
      using realloc_spec [OF inv lt] by blast
    show ?thesis
    proof (cases "e = ENOMEM")
      case True
      with e h(2) len False show ?thesis by (auto simp: gnrc_pktbuf_merge_def ENOMEM_def)
    next
      case e0: False
      then have "resized s U p r rs (ssize r + ?n) s1" "e = 0" using e(2) by auto
      from merge_resized [OF inv this(1) u] obtain r1 s' r' where "get_snip p s1 = Some r1"
        "do { s \<leftarrow> merge_copy p (ssize r) (snext r1) s1; r \<leftarrow> get_snip p s; s \<leftarrow> gnrc_pktbuf_release (snext r) s;
           s \<leftarrow> upd_snip p (\<lambda>r. r\<lparr>snext := None\<rparr>) s; Some (0, s) } = Some (0 :: int, s')" "merged s U p r rs r' s'"
        using False by blast
      with e(1) \<open>e = 0\<close> h(2) len False z show ?thesis by (auto simp: gnrc_pktbuf_merge_def)
    qed
  qed
qed

lemma second_merge:
  "\<exists>s t u. gnrc_pktbuf_add None (Out 7) 5 1 (gnrc_pktbuf_init some_pktbuf) = Some (Some 0, s) \<and> outside s = outside some_pktbuf \<and>
     gnrc_pktbuf_add (Some 0) (Out 3) 2 2 s = Some (Some 32, t) \<and> gnrc_pktbuf_merge 32 t = Some (0, u)"
  by (simp add: packet_eval gnrc_pktbuf_merge_def gnrc_pkt_len_def pkt_len_loop.simps merge_copy.simps)

theorem gnrc_pktbuf_merge_concatenates_witness:
  "\<exists>s t u r'. gnrc_pktbuf_add None (Out 7) 5 1 (gnrc_pktbuf_init some_pktbuf) = Some (Some 0, s) \<and>
     gnrc_pktbuf_add (Some 0) (Out 3) 2 2 s = Some (Some 32, t) \<and> gnrc_pktbuf_merge 32 t = Some (0, u) \<and>
     pkt_at u (Some 32) [(32, r')] \<and> payload u r' = [Byte 3, Byte 4, Byte 7, Byte 8, Byte 9, Byte 10, Byte 11]"
proof -
  obtain s t u where s: "gnrc_pktbuf_add None (Out 7) 5 1 (gnrc_pktbuf_init some_pktbuf) = Some (Some 0, s)" "outside s = outside some_pktbuf"
     "gnrc_pktbuf_add (Some 0) (Out 3) 2 2 s = Some (Some 32, t)" "gnrc_pktbuf_merge 32 t = Some (0, u)"
    using second_merge by blast
  obtain r r' where r: "pkt_inv t (set (snip_chunks (0, r)) \<union> set (snip_chunks (32, r'))) (Some 32) [(32, r'), (0, r)]" "susers r = 1"
    "payload t r' = [Byte 3, Byte 4]" "payload t r = [Byte 7, Byte 8, Byte 9, Byte 10, Byte 11]"
    using second_packet [OF s(1,3,2)] by blast
  have "\<forall>c\<in>set [(0 :: nat, r)]. 0 < susers (snd c)" using r(2) by simp
  moreover have "ssize r \<noteq> 0" using length_payload [of r t] r(1,4) by (auto simp: pkt_inv_def)
  ultimately obtain r'' where "merged t (set (snip_chunks (0, r)) \<union> set (snip_chunks (32, r'))) 32 r' [(0, r)] r'' u"
    using gnrc_pktbuf_merge_concatenates [OF r(1)] s(4) by (auto simp: ENOMEM_def simp del: snip_chunks.simps)
  with s r(3,4) show ?thesis unfolding merged_def pkt_inv_def by (intro exI [of _ s] exI [of _ t] exI [of _ u] exI [of _ r'']) simp
qed

end
