(* ===== verification/Spec2Isabelle.thy ===== *)
theory Spec2Isabelle
  imports Bitarithm Clist_Sort Cib Kernel Sched Thread Boot Mutex Sema Pipe Event_Loop Msg Mbox Ringbuffer Prio_Queue
    Fmt_Props Base64 Xtimer Ztimer Evtimer Shell Frac Checksum Hamming Ip_Props Ip_Prefix Pktbuf_Merge
begin

text \<open>
  \<^bold>\<open>Verification of the RIOT kernel of this repository and of the libraries around it.\<close>

  The repository is a copy of the operating system RIOT (src/RIOT) whose scheduler was changed: threads have a service time, and
  \<open>sched_run\<close> serves the threads of run queue 1 in turn, 500 ms at a time, until their service time is used up (core/sched.c,
  core/thread.c, and the example ex_application/main.c that relies on it). The development models the kernel (core/), the system libraries
  that the kernel and its clients are built on (sys/), and the packet buffer of the network stack.

  \<^bold>\<open>The modelled build.\<close> A 32-bit target, so \<open>unsigned\<close> and \<open>size_t\<close> have 32 bits; the Cortex-M port, where \<open>thread_yield_higher\<close> requests the PendSV
  interrupt; messages and thread flags enabled; debug output, \<open>DEVELHELP\<close>, MPU, TLS and scheduler statistics compiled out. Machine integers are
  words of their width wherever wrap-around can matter, otherwise \<open>nat\<close> or \<open>int\<close> with a proved bound.

  \<^bold>\<open>Conventions.\<close> Every operation is a function from a state to an option of its result and the new state; \<open>None\<close> is a NULL dereference, an access out of
  bounds, a failed assertion, or a loop that never ends (loops whose termination depends on the data are \<open>partial_function (option)\<close>; there is no
  fuel anywhere). Theorems therefore state that an operation returns \<open>Some\<close>. A call that blocks is modelled up to the context switch, where its result is
  \<open>Blocks\<close>, and what the code does when the thread runs again is a definition of its own. Code between \<open>irq_disable\<close> and \<open>irq_restore\<close> is atomic;
  where the interleaving of the parts matters (mailboxes, event queues, semaphores) the parts are separate definitions. The hardware counter, the callbacks of
  timers and comparison functions are parameters.

  \<^bold>\<open>Parts and theories.\<close>

  \<^item> \<^emph>\<open>Riot_Prelude\<close>: machine types, shared lemmas on lists and words, iteration, and the locale \<open>fun_simulation\<close> (one function simulates another along an
    abstraction), interpreted in \<^emph>\<open>Sched\<close>.
  \<^item> \<^emph>\<open>Bitarithm\<close> (core/bitarithm.c, bitarithm.h): highest and lowest set bit, population count, and that their variants agree.
  \<^item> \<^emph>\<open>Clist\<close> (core/include/clist.h) and \<^emph>\<open>Clist_Sort\<close> (core/clist.c): circular lists on an explicit memory of next pointers implement lists of nodes (locale
    \<open>node_queue\<close>, interpreted by the pointer operations), what they leave alone in memory, and that the bottom-up merge sort terminates and is a stable
    sort for every total and transitive comparison (locale \<open>comparison\<close>). The sort is proved for fewer than 2 ^ 31 nodes, beyond which its
    counters overflow.
  \<^item> \<^emph>\<open>Cib\<close> (core/include/cib.h): a circular integer buffer with free-running 32-bit counters is a bounded queue (locale \<open>index_fifo\<close>).
  \<^item> \<^emph>\<open>Kernel\<close> (core/include/thread.h, sched.h, msg.h; parts of core/sched.c and thread.c): control blocks and scheduler globals as the record \<open>kernel\<close>, the operations
    on run queues, the run-queue invariant \<open>rq_inv\<close> that \<open>sched_set_status\<close> keeps, and the bit cache of the run queues in its two builds (locale \<open>prio_cache\<close>,
    interpreted for both).
  \<^item> \<^emph>\<open>Sched\<close> (core/sched.c): \<open>sched_run\<close> with the round robin by service time, the timer callback, \<open>sched_switch\<close> and \<open>sched_task_exit\<close>. One pass refines
    an abstract round-robin step; passes are fair, and every set of threads is served to the end. A running thread that goes to sleep dequeues another one,
    which is proved as an error.
  \<^item> \<^emph>\<open>Thread\<close> (core/thread.c): creating, sleeping, waking, yielding, zombies, the thread table. \<^emph>\<open>Boot\<close> (core/init.c, ex_application/main.c): the system from power-up
    until all threads of the example application have been served.
  \<^item> \<^emph>\<open>Sync\<close>: waiting lists and the transitions between ready and waiting that the following components share. \<^emph>\<open>Mutex\<close> (core/mutex.c, rmutex.c, cond.c): mutual
    exclusion in every reachable state of a step relation in which only a holder unlocks (the code does not check that), hand-over by priority, nesting, no lost wake-up of condition variables. \<^emph>\<open>Thread_Flags\<close>
    (core/thread_flags.c), \<^emph>\<open>Msg\<close> (core/msg.c, msg_bus.c): the mailbox of a thread as a queue, all outcomes of sending, request and reply. \<^emph>\<open>Mbox\<close> (core/mbox.c):
    mailboxes and the race by which a blocked writer overwrites a message.
  \<^item> \<^emph>\<open>Sema\<close> (sys/sema/sema.c, sema.h): semaphores on top of \<^emph>\<open>Mutex\<close>; the steps of any number of threads, interleaved at every critical section and mutex operation, keep the
    balance of waits and posts and lose no wake-up. \<^emph>\<open>Pipe\<close> (sys/pipe/pipe.c): pipes on top of \<^emph>\<open>Ringbuffer\<close> and the scheduler are reliable streams of bytes, and nobody
    sleeps on a pipe that has something for them.
  \<^item> \<^emph>\<open>Event\<close> and \<^emph>\<open>Event_Loop\<close> (sys/event/event.c, sys/include/event.h): event queues on top of \<^emph>\<open>Clist\<close> and \<^emph>\<open>Thread_Flags\<close>. Operations on any number of queues refine
    lists; \<open>event_wait_multi\<close> always returns or blocks; the event loop is a step relation with other threads and interrupts between the steps, with
    the invariant that no wake-up is lost, as long as nobody cancels an event while it is being taken; doing so corrupts the queue, which is proved as an error.
  \<^item> \<^emph>\<open>Ringbuffer\<close> (core/ringbuffer.c, sys/tsrb/tsrb.c): two byte queues with one contract (locale \<open>byte_fifo\<close>, interpreted for both). \<^emph>\<open>Prio_Queue\<close>
    (core/priority_queue.c, lifo.c): priority queues on pointers and index stacks (locale \<open>prio_fifo\<close>).
  \<^item> \<^emph>\<open>Mem\<close>, \<^emph>\<open>Fmt\<close>, \<^emph>\<open>Fmt_Props\<close> (sys/fmt/fmt.c) and \<^emph>\<open>Base64\<close> (sys/base64/base64.c): text output in explicit buffers, decimal notation read back, Base64 round trip.
  \<^item> \<^emph>\<open>Xtimer\<close> (sys/xtimer/xtimer_core.c): the timers behind the time slices; the interrupt handler fires exactly what is due, in order, when the timers were started within a
    window of 32 bits and no long timer is armed; the list of long timers can get out of order. \<^emph>\<open>Delta_List\<close>: lists of distances as deadlines, in memory, and the locale \<open>deadline_queue\<close>.
    \<^emph>\<open>Ztimer\<close> (sys/ztimer/core.c): clocks with extended counters; \<open>ztimer_set\<close> and the interrupt handler in terms of absolute deadlines, for handlers that run within
    2 ^ 31 ticks, and the early firing of every first timer of a narrow counter that is further away. \<^emph>\<open>Evtimer\<close> (sys/evtimer/evtimer.c, evtimer_msg.h): many events on one timer of such a clock; adding and
    removing events and the handler in terms of deadlines, including by how much a late handler delays the later events.
  \<^item> \<^emph>\<open>Shell\<close> (sys/shell/shell.c): reading a line with backspaces, the parser that breaks a line into words inside the line buffer, finding the handler. The parser is proved equal to a
    recursive definition of words with quotes and backslashes, every list of words can be quoted, and a run of the shell does what the lines typed stand for; a line that is too long is taken without
    its end after a backspace, which is proved as an error.
  \<^item> \<^emph>\<open>Ip_Text\<close>, \<^emph>\<open>Ip_Props\<close> and \<^emph>\<open>Ip_Prefix\<close> (sys/net/network_layer/ipv4/addr, ipv6/addr, sys/include/net/ipv6/addr.h): Internet addresses as text and as bits. Every address that is written is read
    back, no text makes the reader leave its arrays, comparing addresses gives the longest common prefix; every text with eight words and a double colon is read wrongly, which is proved as
    an error.
  \<^item> \<^emph>\<open>Divide\<close> (sys/div/div.c, div.h): division by multiplication with a reciprocal, where it is exact and where it is one off. \<^emph>\<open>Frac\<close> (sys/frac/frac.c, frac.h): binary
    greatest common divisor, long division and scaling by a fraction. \<^emph>\<open>Checksum\<close> (sys/checksum): the table-driven CRC is the bitwise one, Fletcher sums never
    overflow and are sums modulo 255 and 65535. \<^emph>\<open>Hamming\<close> (sys/ecc/hamming256.c): the Hamming code corrects one wrong bit per block and detects two, proved by the linearity of
    the code; three wrong bits in a short block make it write outside the data when the indices of their bytes combine to one of the padding.
  \<^item> \<^emph>\<open>Pktbuf\<close>, \<^emph>\<open>Pktbuf_Alloc\<close>, \<^emph>\<open>Pktbuf_Props\<close>, \<^emph>\<open>Pktbuf_Packets\<close>, \<^emph>\<open>Pktbuf_Realloc\<close>, \<^emph>\<open>Pktbuf_Snips\<close>, \<^emph>\<open>Pktbuf_Merge\<close> (sys/net/gnrc/pktbuf_static,
    pktbuf/gnrc_pktbuf.c, net/gnrc/pkt.h): the packet buffer, whose free list lives in the buffer itself. Free and used chunks tile the buffer at every moment (locale
    \<open>chunk_pool\<close>); packets are lists of reference-counted snips; adding, marking, resizing, holding, releasing, copying on write, reversing and merging keep all
    other packets, give memory back exactly once, and say when memory runs out. Sizes must stay below 2 ^ 32 - 7, above which rounding overflows.

  \<^bold>\<open>How the parts interact.\<close> \<^emph>\<open>Kernel\<close> is the state that \<^emph>\<open>Sched\<close>, \<^emph>\<open>Thread\<close>, \<^emph>\<open>Mutex\<close>, \<^emph>\<open>Thread_Flags\<close>, \<^emph>\<open>Msg\<close> and \<^emph>\<open>Mbox\<close> work on; messages and mailboxes use \<^emph>\<open>Cib\<close>; event timers use \<^emph>\<open>Ztimer\<close> and send messages;
  \<^emph>\<open>Boot\<close> runs \<^emph>\<open>Thread\<close> and \<^emph>\<open>Sched\<close> together; event queues use the memory of \<^emph>\<open>Clist\<close> and the flags of the kernel; the fractions use \<^emph>\<open>Bitarithm\<close>; semaphores use \<^emph>\<open>Mutex\<close>, and pipes \<^emph>\<open>Ringbuffer\<close>. Run queues and waiting lists
  appear in the kernel state as lists of threads, which \<^emph>\<open>Clist\<close> and \<^emph>\<open>Prio_Queue\<close> justify for the pointer structures. The theorems on blocking calls assume that
  the running thread is at the head of its run queue (\<open>active_ready\<close>), as the code does; \<^emph>\<open>Sched\<close> shows that the changed scheduler breaks that for threads
  sharing queue 1.

  \<^bold>\<open>Not modelled.\<close> Register saving and stack contents (assembly), device drivers, board and CPU start-up code, file systems and the commands of the shell (input and output),
  cryptography, the protocols of the network stacks above the packet buffer, floating-point output, the output functions that only print, the wrappers of the timers that only send
  messages or wake threads, waiting for events and semaphores with a timeout, pipes allocated with \<open>malloc\<close>, and the copies, examples, tests and packages that are clients of the code above.
\<close>

end
